(* ===== verification/Salts_Prelude.thy ===== *)
theory Salts_Prelude
  imports Main "HOL-Library.Word"
begin

unbundle bit_operations_syntax

text \<open>
  The vocabulary the component theories share: C's fixed-width integers, pointers that
  may be NULL, the allocator as seen by the code, byte buffers, and the generic facts
  on words and lists that the component proofs use.

  Conventions.
  \<^item> \<open>size_t\<close> is a natural number; where the C code adds or multiplies two of them
    without a guard that rules overflow out, the model wraps explicitly at
    \<open>SIZE_MAX + 1\<close>. Hashes, checksums, generations and bit masks are words.
  \<^item> A pointer is \<open>None\<close> (NULL) or \<open>Some\<close> of the object it points to. A function
    that writes through an out-pointer takes the cell and returns it updated.
  \<^item> The outcome of every \<open>malloc\<close> is chosen by an oracle in the environment, so
    a theorem over every environment covers every pattern of allocation failures; the
    environment counts the live blocks, so leaks are visible.
\<close>

section \<open>Machine integers and pointers\<close>

type_synonym u8 = "8 word"
type_synonym u16 = "16 word"
type_synonym u32 = "32 word"
type_synonym u64 = "64 word"
type_synonym size_t = nat
type_synonym 'a ptr = "'a option"

abbreviation NULL :: "'a ptr" where
  "NULL \<equiv> None"

definition SIZE_MAX :: size_t where
  "SIZE_MAX = 2 ^ 64 - 1"

definition size_add :: "size_t \<Rightarrow> size_t \<Rightarrow> size_t" where
  "size_add a b = (a + b) mod (SIZE_MAX + 1)"

named_theorems wire_simps \<open>definitions unfolded when a wire codec is evaluated\<close>
named_theorems seq_simps \<open>rewrite rules of the sequence containers\<close>

lemma size_add_exact [simp]: "a + b \<le> SIZE_MAX \<Longrightarrow> size_add a b = a + b"
  by (simp add: size_add_def)

section \<open>The allocator\<close>

record env =
  malloc_oracle :: "nat \<Rightarrow> u64 ptr"
  malloc_calls :: nat
  live_blocks :: int

definition malloc :: "env \<Rightarrow> u64 ptr \<times> env" where
  "malloc s =
     (case malloc_oracle s (malloc_calls s) of
        None \<Rightarrow> (NULL, s\<lparr>malloc_calls := Suc (malloc_calls s)\<rparr>)
      | Some a \<Rightarrow> (Some a, s\<lparr>malloc_calls := Suc (malloc_calls s),
                              live_blocks := live_blocks s + 1\<rparr>))"

definition free_block :: "env \<Rightarrow> env" where
  "free_block s = s\<lparr>live_blocks := live_blocks s - 1\<rparr>"

lemma live_malloc_Some: "malloc s = (Some a, s') \<Longrightarrow> live_blocks s' = live_blocks s + 1"
  by (auto simp: malloc_def split: option.splits)

lemma live_malloc_None: "malloc s = (None, s') \<Longrightarrow> live_blocks s' = live_blocks s"
  by (auto simp: malloc_def split: option.splits)

lemma live_free [simp]: "live_blocks (free_block s) = live_blocks s - 1"
  by (simp add: free_block_def)

section \<open>Byte buffers\<close>

text \<open>\<open>memcpy(buf + off, bs, n)\<close> into a buffer of fixed size.\<close>

definition put_bytes :: "'a list \<Rightarrow> nat \<Rightarrow> 'a list \<Rightarrow> 'a list" where
  "put_bytes buf off bs = take off buf @ bs @ drop (off + length bs) buf"

lemma length_put_bytes [simp]:
  "off + length bs \<le> length buf \<Longrightarrow> length (put_bytes buf off bs) = length buf"
  by (simp add: put_bytes_def)

lemma take_put_bytes [simp]:
  "off + length bs \<le> length buf \<Longrightarrow> n = off + length bs \<Longrightarrow>
     take n (put_bytes buf off bs) = take off buf @ bs"
  by (simp add: put_bytes_def)

lemma put_bytes_Nil [simp]: "put_bytes buf off [] = buf"
  by (simp add: put_bytes_def)

lemma put_bytes_append:
  "off + length bs + length cs \<le> length buf \<Longrightarrow>
     put_bytes (put_bytes buf off bs) (off + length bs) cs = put_bytes buf off (bs @ cs)"
  by (simp add: put_bytes_def algebra_simps)

text \<open>\<open>memmove(buf, buf + from, n)\<close>.\<close>

definition shift_down :: "'a list \<Rightarrow> nat \<Rightarrow> nat \<Rightarrow> 'a list" where
  "shift_down buf from n = take n (drop from buf) @ drop n buf"

lemma length_shift_down [simp]:
  "from + n \<le> length buf \<Longrightarrow> length (shift_down buf from n) = length buf"
  by (simp add: shift_down_def)

lemma take_shift_down [simp]:
  "from + n \<le> length buf \<Longrightarrow> take n (shift_down buf from n) = take n (drop from buf)"
  by (simp add: shift_down_def)

lemma update_at_map [simp]:
  "(map f xs @ r # rest)[length xs := y] = map f xs @ y # rest"
  "(map f xs @ r # rest) ! length xs = r"
  by (metis length_map list_update_length) (metis length_map nth_append_length)

section \<open>Words\<close>

text \<open>Little- and big-endian splitting and joining of words.\<close>

definition le16_of :: "u8 \<Rightarrow> u8 \<Rightarrow> u16" where
  "le16_of a b = ucast a OR push_bit 8 (ucast b)"

definition le32_of :: "u8 \<Rightarrow> u8 \<Rightarrow> u8 \<Rightarrow> u8 \<Rightarrow> u32" where
  "le32_of a b c d =
     ucast a OR push_bit 8 (ucast b) OR push_bit 16 (ucast c) OR push_bit 24 (ucast d)"

definition le16_bytes :: "u16 \<Rightarrow> u8 list" where
  "le16_bytes v = [ucast v, ucast (drop_bit 8 v)]"

definition le32_bytes :: "u32 \<Rightarrow> u8 list" where
  "le32_bytes v = [ucast v, ucast (drop_bit 8 v), ucast (drop_bit 16 v), ucast (drop_bit 24 v)]"

lemma le16_of_bytes [simp]: "le16_of (ucast v) (ucast (drop_bit 8 v)) = v"
  unfolding le16_of_def by (rule bit_word_eqI) (auto simp: bit_simps)

lemma le32_of_bytes [simp]:
  "le32_of (ucast v) (ucast (drop_bit 8 v)) (ucast (drop_bit 16 v)) (ucast (drop_bit 24 v)) = v"
proof (rule bit_word_eqI)
  fix n
  assume n: "n < LENGTH(32)"
  consider "n < 8" | "8 \<le> n \<and> n < 16" | "16 \<le> n \<and> n < 24" | "24 \<le> n"
    by linarith
  then show "bit (le32_of (ucast v) (ucast (drop_bit 8 v)) (ucast (drop_bit 16 v))
      (ucast (drop_bit 24 v))) n = bit v n"
    using n by cases (auto simp: le32_of_def bit_simps)
qed

lemma bytes_of_le16 [simp]:
  "(ucast (le16_of a b) :: u8) = a"
  "(ucast (drop_bit 8 (le16_of a b)) :: u8) = b"
  unfolding le16_of_def
  by (rule bit_word_eqI; auto simp: bit_simps dest: bit_imp_le_length)+

lemma bytes_of_le32 [simp]:
  "(ucast (le32_of a b c d) :: u8) = a"
  "(ucast (drop_bit 8 (le32_of a b c d)) :: u8) = b"
  "(ucast (drop_bit 16 (le32_of a b c d)) :: u8) = c"
  "(ucast (drop_bit 24 (le32_of a b c d)) :: u8) = d"
  unfolding le32_of_def
  by (rule bit_word_eqI; auto simp: bit_simps dest: bit_imp_le_length)+

lemma bit_bound: "unat x < 2 ^ k \<Longrightarrow> bit (x :: 'a::len word) n \<Longrightarrow> n < k"
proof (rule ccontr)
  assume bound: "unat x < 2 ^ k" and "bit x n" and "\<not> n < k"
  from bound have "take_bit k (unat x) = unat x"
    by (simp add: take_bit_nat_eq_self_iff)
  moreover have "bit (unat x) n"
    using \<open>bit x n\<close> by (simp add: bit_unsigned_iff)
  ultimately show False
    using \<open>\<not> n < k\<close> by (metis bit_take_bit_iff)
qed

lemma unat_bound_of_bits:
  assumes "\<And>n. bit (x :: 'a::len word) n \<Longrightarrow> n < k"
  shows "unat x < 2 ^ k"
proof -
  have "take_bit k x = x"
    by (rule bit_word_eqI) (auto simp: bit_take_bit_iff dest: assms)
  then have "take_bit k (unat x) = unat x"
    by (metis unsigned_take_bit_eq)
  then show ?thesis
    by (metis take_bit_nat_less_exp)
qed

text \<open>The bits of the masks the codecs use.\<close>

lemma bit_masks [simp]:
  "bit (0x7F :: int) n \<longleftrightarrow> n < 7"
  "bit (0x80 :: int) n \<longleftrightarrow> n = 7"
  "bit (0xF0 :: int) n \<longleftrightarrow> 4 \<le> n \<and> n < 8"
proof -
  show "bit (0x7F :: int) n \<longleftrightarrow> n < 7"
    using bit_mask_iff [of 7 n, where 'a = int] by (simp add: mask_eq_exp_minus_1)
  show "bit (0x80 :: int) n \<longleftrightarrow> n = 7"
    using bit_exp_iff [of 7 n, where 'a = int] by auto
  have "(0xF0 :: int) = push_bit 4 (mask 4)"
    by (simp add: mask_eq_exp_minus_1 push_bit_eq_mult)
  then show "bit (0xF0 :: int) n \<longleftrightarrow> 4 \<le> n \<and> n < 8"
    by (simp only: bit_push_bit_iff bit_mask_iff) auto
qed

lemma unat_drop_bit: "unat (drop_bit n (w :: 'a::len word)) = unat w div 2 ^ n"
  by (simp only: unat_drop_bit_eq) (simp only: drop_bit_eq_div)

lemma push_bit_split:
  "push_bit s (take_bit k w) OR push_bit (s + k) (drop_bit k w) = push_bit s (w :: 'a::len word)"
proof (rule bit_word_eqI)
  fix n
  assume n: "n < LENGTH('a)"
  show "bit (push_bit s (take_bit k w) OR push_bit (s + k) (drop_bit k w)) n = bit (push_bit s w) n"
  proof (cases "s + k \<le> n")
    case True
    then have "k + (n - (s + k)) = n - s" by simp
    with True n show ?thesis by (auto simp: bit_simps)
  next
    case False
    with n show ?thesis by (auto simp: bit_simps)
  qed
qed

lemma unat_of_nat_small: "n < 2 ^ LENGTH('a) \<Longrightarrow> unat (of_nat n :: 'a::len word) = n"
  by (simp add: unsigned_of_nat take_bit_nat_eq_self)

lemma order_succ:
  fixes n :: "'a::len word"
  assumes "n \<noteq> - 1"
  shows "n < n + 1" and "m < n \<Longrightarrow> m < n + 1"
proof -
  show "n < n + 1"
    using assms unatSuc [of n] by (auto simp: word_less_nat_alt add.commute eq_neg_iff_add_eq_0)
  then show "m < n \<Longrightarrow> m < n + 1" by (meson less_trans)
qed

end
