(* ===== verification/Wire_Framing.thy ===== *)
theory Wire_Framing
  imports Main
begin

text \<open>
  The contract the stream parsers share. A frame codec scans a byte prefix and either
  recognises a frame, or asks for more bytes; a reassembler buffers the bytes of
  arbitrary chunks and emits, for every frame, what its caller gets to see of it
  (\<open>seen\<close>). The LTV, TLV and Modbus-TCP stream parsers are instances; what is proved
  here once is that any chunking of the wire image of a message sequence is reassembled
  to exactly that sequence.
\<close>

lemma append_eq_splitD:
  assumes "xs @ zs = ys @ ws"
  shows "length ys \<le> length xs \<Longrightarrow> \<exists>r. xs = ys @ r \<and> r @ zs = ws"
    and "length xs < length ys \<Longrightarrow> \<exists>q. ys = xs @ q \<and> q \<noteq> [] \<and> zs = q @ ws"
  using assms by (auto simp: append_eq_append_conv2)

datatype 'm scan = Complete 'm nat | Incomplete | Broken

datatype 'm outcome = Emit 'm | More | Fail

locale frame_codec =
  fixes scan :: "'b list \<Rightarrow> 'm scan"
    and wire :: "'m \<Rightarrow> 'b list"
    and ok :: "'m \<Rightarrow> bool"
  assumes scan_wire: "ok m \<Longrightarrow> scan (wire m @ rest) = Complete m (length (wire m))"
    and scan_prefix: "ok m \<Longrightarrow> wire m = p @ q \<Longrightarrow> q \<noteq> [] \<Longrightarrow> scan p = Incomplete"
    and wire_nonempty: "ok m \<Longrightarrow> wire m \<noteq> []"
begin

lemma wire_unique_prefix:
  assumes "ok m" "ok m'" "wire m @ r = wire m' @ r'"
  shows "m = m' \<and> r = r'"
proof -
  have "Complete m (length (wire m)) = Complete m' (length (wire m'))"
    using scan_wire [OF assms(1), of r] scan_wire [OF assms(2), of r'] assms(3) by simp
  with assms(3) show ?thesis by simp
qed

lemma decoding_unique:
  assumes "\<forall>m \<in> set ms. ok m" "\<forall>m \<in> set ms'. ok m"
    and "concat (map wire ms) = concat (map wire ms')"
  shows "ms = ms'"
  using assms
proof (induction ms arbitrary: ms')
  case Nil
  then show ?case by (cases ms') (simp_all add: wire_nonempty)
next
  case (Cons m ms)
  from Cons.prems obtain m' ms'' where ms': "ms' = m' # ms''"
    by (cases ms') (simp_all add: wire_nonempty)
  have "wire m @ concat (map wire ms) = wire m' @ concat (map wire ms'')"
    using Cons.prems(3) ms' by simp
  then have "m = m' \<and> concat (map wire ms) = concat (map wire ms'')"
    using Cons.prems(1,2) ms' by (intro wire_unique_prefix) auto
  with Cons.IH [of ms''] Cons.prems ms' show ?case by auto
qed

end

text \<open>
  Driving a reassembler: feed a chunk, and as long as it emits a frame feed it the empty
  chunk again.
\<close>

inductive pump :: "('st \<Rightarrow> 'b list \<Rightarrow> 'm outcome \<times> 'st) \<Rightarrow> 'st \<Rightarrow> 'b list \<Rightarrow> 'm list \<Rightarrow> 'st \<Rightarrow> bool"
  for feed where
  pump_more: "feed s d = (More, s') \<Longrightarrow> pump feed s d [] s'"
| pump_emit: "feed s d = (Emit m, s') \<Longrightarrow> pump feed s' [] ms s'' \<Longrightarrow> pump feed s d (m # ms) s''"

inductive pump_all ::
  "('st \<Rightarrow> 'b list \<Rightarrow> 'm outcome \<times> 'st) \<Rightarrow> 'st \<Rightarrow> 'b list list \<Rightarrow> 'm list \<Rightarrow> 'st \<Rightarrow> bool"
  for feed where
  pump_all_Nil: "pump_all feed s [] [] s"
| pump_all_Cons: "pump feed s c ms s' \<Longrightarrow> pump_all feed s' cs ms' s'' \<Longrightarrow>
     pump_all feed s (c # cs) (ms @ ms') s''"

inductive_cases pump_NilE: "pump feed s d [] s'"
inductive_cases pump_ConsE: "pump feed s d (m # ms) s'"
inductive_cases pump_all_NilE: "pump_all feed s [] ms s'"
inductive_cases pump_all_ConsE: "pump_all feed s (c # cs) ms s'"

lemma pump_deterministic:
  "pump feed s d ms s' \<Longrightarrow> pump feed s d ms' s'' \<Longrightarrow> ms' = ms \<and> s'' = s'"
proof (induction arbitrary: ms' s'' rule: pump.induct)
  case (pump_more s d s')
  from pump_more(2,1) show ?case by cases auto
next
  case (pump_emit s d m s' ms s'')
  from pump_emit.prems show ?case
  proof cases
    case pump_more
    with pump_emit.hyps(1) show ?thesis by simp
  next
    case (pump_emit m' t ms'')
    with pump_emit.hyps(1) have "m' = m" "t = s'" by simp_all
    with pump_emit.IH [of ms'' s''] local.pump_emit show ?thesis by simp
  qed
qed

lemma pump_all_deterministic:
  "pump_all feed s cs ms s' \<Longrightarrow> pump_all feed s cs ms' s'' \<Longrightarrow> ms' = ms \<and> s'' = s'"
proof (induction arbitrary: ms' s'' rule: pump_all.induct)
  case (pump_all_Nil s)
  then show ?case by (auto elim: pump_all_NilE)
next
  case (pump_all_Cons s c ms s' cs ms2 t)
  from pump_all_Cons.prems obtain u us us2 where
    u: "pump feed s c us u" "pump_all feed u cs us2 s''" "ms' = us @ us2"
    by (auto elim: pump_all_ConsE)
  from pump_deterministic [OF pump_all_Cons.hyps(1) u(1)] have "us = ms" "u = s'" by simp_all
  with pump_all_Cons.IH [of us2 s''] u(2,3) show ?case by simp
qed

locale reassembler = frame_codec scan wire ok
  for scan :: "'b list \<Rightarrow> 'm scan" and wire :: "'m \<Rightarrow> 'b list" and ok :: "'m \<Rightarrow> bool" +
  fixes seen :: "'m \<Rightarrow> 'v"
    and feed :: "'st \<Rightarrow> 'b list \<Rightarrow> 'v outcome \<times> 'st"
    and pending :: "'st \<Rightarrow> 'b list"
    and capacity :: "'st \<Rightarrow> nat"
    and inv :: "'st \<Rightarrow> bool"
  assumes feed_complete:
      "inv s \<Longrightarrow> length (pending s) + length d \<le> capacity s \<Longrightarrow> ok m \<Longrightarrow>
       pending s @ d = wire m @ r \<Longrightarrow>
       \<exists>s'. feed s d = (Emit (seen m), s') \<and> inv s' \<and> pending s' = r \<and> capacity s' = capacity s"
    and feed_partial:
      "inv s \<Longrightarrow> ok m \<Longrightarrow> wire m = (pending s @ d) @ q \<Longrightarrow> q \<noteq> [] \<Longrightarrow>
       length (wire m) \<le> capacity s \<Longrightarrow>
       \<exists>s'. feed s d = (More, s') \<and> inv s' \<and> pending s' = pending s @ d \<and> capacity s' = capacity s"
    and feed_nothing:
      "inv s \<Longrightarrow> pending s = [] \<Longrightarrow>
       \<exists>s'. feed s [] = (More, s') \<and> inv s' \<and> pending s' = [] \<and> capacity s' = capacity s"
begin

lemma pump_chunk:
  assumes "inv s" "\<forall>m \<in> set ms. ok m" "\<forall>m \<in> set ms. length (wire m) \<le> capacity s"
    and "length (pending s) + length d \<le> capacity s"
    and "pending s @ d @ rest = concat (map wire ms)"
  shows "\<exists>ms1 ms2 s'. ms = ms1 @ ms2 \<and> pump feed s d (map seen ms1) s' \<and> inv s' \<and> capacity s' = capacity s \<and>
     pending s' @ rest = concat (map wire ms2) \<and>
     (\<forall>m. ms2 \<noteq> [] \<and> m = hd ms2 \<longrightarrow> length (pending s') < length (wire m))"
  using assms
proof (induction ms arbitrary: s d)
  case Nil
  with feed_nothing [of s] obtain s' where
    "feed s [] = (More, s')" "inv s'" "pending s' = []" "capacity s' = capacity s"
    by auto
  with Nil show ?case by (intro exI [of _ "[]"] exI [of _ s']) (auto intro: pump_more)
next
  case (Cons m ms)
  have okm: "ok m" "length (wire m) \<le> capacity s" using Cons.prems by auto
  have eq: "(pending s @ d) @ rest = wire m @ concat (map wire ms)" using Cons.prems(5) by simp
  show ?case
  proof (cases "length (wire m) \<le> length (pending s @ d)")
    case True
    then obtain r where r: "pending s @ d = wire m @ r" "r @ rest = concat (map wire ms)"
      using append_eq_splitD(1) [OF eq] by auto
    from feed_complete [OF Cons.prems(1,4) okm(1) r(1)] obtain s' where
      s': "feed s d = (Emit (seen m), s')" "inv s'" "pending s' = r" "capacity s' = capacity s" by auto
    have "length (pending s') \<le> capacity s'"
      using arg_cong [OF r(1), of length] Cons.prems(4) s' by simp
    with Cons.IH [of s' "[]"] Cons.prems s' r(2) obtain ms1 ms2 t where
      "ms = ms1 @ ms2" "pump feed s' [] (map seen ms1) t" "inv t" "capacity t = capacity s'"
      "pending t @ rest = concat (map wire ms2)"
      "\<forall>m. ms2 \<noteq> [] \<and> m = hd ms2 \<longrightarrow> length (pending t) < length (wire m)"
      by auto
    with s' show ?thesis
      by (intro exI [of _ "m # ms1"] exI [of _ ms2] exI [of _ t]) (auto intro: pump_emit)
  next
    case False
    then obtain q where q: "wire m = (pending s @ d) @ q" "q \<noteq> []"
      using append_eq_splitD(2) [OF eq] by auto
    from feed_partial [OF Cons.prems(1) okm(1) q okm(2)] obtain s' where
      "feed s d = (More, s')" "inv s'" "pending s' = pending s @ d" "capacity s' = capacity s"
      by auto
    with Cons.prems q show ?thesis
      by (intro exI [of _ "[]"] exI [of _ "m # ms"] exI [of _ s']) (auto intro: pump_more)
  qed
qed

theorem reassembly:
  assumes "inv s" "\<forall>m \<in> set ms. ok m"
    and "\<forall>m \<in> set ms. \<forall>c \<in> set cs. length (wire m) + length c \<le> capacity s"
    and "pending s @ concat cs = concat (map wire ms)"
    and "ms \<noteq> [] \<Longrightarrow> length (pending s) < length (wire (hd ms))"
  shows "\<exists>s'. pump_all feed s cs (map seen ms) s' \<and> inv s' \<and> pending s' = [] \<and> capacity s' = capacity s"
  using assms
proof (induction cs arbitrary: s ms)
  case Nil
  then have "ms = []"
    by (cases ms) (auto dest: arg_cong [where f = length])
  with Nil show ?case by (auto intro: pump_all_Nil)
next
  case (Cons c cs)
  have fits: "\<forall>m \<in> set ms. length (wire m) \<le> capacity s" using Cons.prems(3) by fastforce
  have room: "length (pending s) + length c \<le> capacity s"
  proof (cases ms)
    case Nil
    with Cons.prems(4) show ?thesis by simp
  next
    case (Cons m ms')
    with Cons.prems(3,5) show ?thesis by fastforce
  qed
  from pump_chunk [OF Cons.prems(1,2) fits room, of "concat cs"] Cons.prems(4)
  obtain ms1 ms2 s' where
    p: "ms = ms1 @ ms2" "pump feed s c (map seen ms1) s'" "inv s'" "capacity s' = capacity s"
      "pending s' @ concat cs = concat (map wire ms2)"
      "\<forall>m. ms2 \<noteq> [] \<and> m = hd ms2 \<longrightarrow> length (pending s') < length (wire m)"
    by auto
  with Cons.IH [of s' ms2] Cons.prems(2,3) obtain t where
    "pump_all feed s' cs (map seen ms2) t" "inv t" "pending t = []" "capacity t = capacity s'"
    by auto
  with p show ?case by (auto intro: pump_all_Cons)
qed

end

end
