(* ===== verification/Ltv_Parser.thy ===== *)
theory Ltv_Parser
  imports Salts_Prelude Wire_Framing
begin

text \<open>
  The length-type-value codec of \<^verbatim>\<open>src/parser/ltv_parser\<close>: canonical LEB128 varints, the
  one-shot parser and builder, and the stream parser that reassembles messages from
  arbitrary chunks in a bounded buffer.

  A buffer argument \<open>(data, len)\<close> of the C code is a byte list of length \<open>len\<close>
  behind a pointer; a zero-copy view into it is the list of the bytes it covers.
\<close>

section \<open>Varints\<close>

definition LTV_MAX_VARINT_BYTES :: nat where
  "LTV_MAX_VARINT_BYTES = 5"

definition LTV_MAX_PAYLOAD_SIZE :: nat where
  "LTV_MAX_PAYLOAD_SIZE = 10 * 1024 * 1024"

definition ltv_varint_size :: "u32 \<Rightarrow> int" where
  "ltv_varint_size v =
     (if v < push_bit 7 1 then 1
      else if v < push_bit 14 1 then 2
      else if v < push_bit 21 1 then 3
      else if v < push_bit 28 1 then 4
      else 5)"

text \<open>The loop of \<open>ltv_decode_varint\<close>: the return code and the value to store, if any.\<close>

function ltv_decode_loop :: "u8 list \<Rightarrow> nat \<Rightarrow> u32 \<Rightarrow> nat \<Rightarrow> int \<times> u32 option" where
  "ltv_decode_loop data i result shift =
     (if i < length data \<and> i < LTV_MAX_VARINT_BYTES then
        let byte = data ! i in
        if i = LTV_MAX_VARINT_BYTES - 1 \<and> byte AND 0xF0 \<noteq> 0 then (-1, None)
        else
          let result' = result OR push_bit shift (ucast (byte AND 0x7F)) in
          if byte AND 0x80 = 0 then
            if ltv_varint_size result' \<noteq> int (i + 1) then (-1, None)
            else (int (i + 1), Some result')
          else ltv_decode_loop data (i + 1) result' (shift + 7)
      else (if LTV_MAX_VARINT_BYTES \<le> length data then -1 else 0, None))"
  by pat_completeness auto
termination
  by (relation "measure (\<lambda>(data, i, result, shift). length data - i)") auto

declare ltv_decode_loop.simps [simp del]

definition ltv_decode_varint :: "u8 list ptr \<Rightarrow> u32 ptr \<Rightarrow> int \<times> u32 ptr" where
  "ltv_decode_varint data out =
     (case (data, out) of
        (Some bs, Some _) \<Rightarrow>
          if length bs = 0 then (0, out)
          else (case ltv_decode_loop bs 0 0 0 of
                  (n, Some v) \<Rightarrow> (n, Some v)
                | (n, None) \<Rightarrow> (n, out))
      | _ \<Rightarrow> (0, out))"

function ltv_encode_loop :: "u32 \<Rightarrow> u8 list" where
  "ltv_encode_loop v =
     (if 0x80 \<le> v then ucast (v OR 0x80) # ltv_encode_loop (drop_bit 7 v) else [ucast v])"
  by pat_completeness auto
termination
proof (relation "measure unat", simp)
  fix v :: u32
  assume "0x80 \<le> v"
  then have "0 < unat v"
    by (simp add: word_le_nat_alt)
  then show "(drop_bit 7 v, v) \<in> measure unat"
    by (simp add: unat_drop_bit)
qed

declare ltv_encode_loop.simps [simp del]

definition ltv_encode_varint :: "u32 \<Rightarrow> u8 list ptr \<Rightarrow> int \<times> u8 list ptr" where
  "ltv_encode_varint v out =
     (case out of
        None \<Rightarrow> (0, None)
      | Some buf \<Rightarrow>
          let bs = ltv_encode_loop v in (int (length bs), Some (put_bytes buf 0 bs)))"

section \<open>Messages\<close>

datatype LtvParseResult =
    LTV_PARSE_OK
  | LTV_PARSE_NEED_MORE
  | LTV_PARSE_INVALID_VARINT
  | LTV_PARSE_SIZE_OVERFLOW
  | LTV_PARSE_BUFFER_OVERFLOW

record ltv_message =
  lm_length :: u32
  lm_type :: u8
  lm_value :: "u8 list ptr"
  lm_value_size :: size_t
  lm_consumed :: size_t

definition ltv_peek_size ::
  "u8 list ptr \<Rightarrow> u32 ptr \<Rightarrow> size_t ptr \<Rightarrow> LtvParseResult \<times> u32 ptr \<times> size_t ptr" where
  "ltv_peek_size data out_length out_header =
     (if data = NULL \<or> out_length = NULL \<or> out_header = NULL
      then (LTV_PARSE_INVALID_VARINT, out_length, out_header)
      else
        let (header_size, cell) = ltv_decode_varint data (Some 0); length = the cell in
        if header_size = 0 then (LTV_PARSE_NEED_MORE, out_length, out_header)
        else if header_size < 0 then (LTV_PARSE_INVALID_VARINT, out_length, out_header)
        else if length = 0 then (LTV_PARSE_INVALID_VARINT, out_length, out_header)
        else if LTV_MAX_PAYLOAD_SIZE + 1 < unat length
          then (LTV_PARSE_SIZE_OVERFLOW, out_length, out_header)
        else (LTV_PARSE_OK, Some length, Some (nat header_size)))"

definition ltv_total_size :: "u32 \<Rightarrow> size_t \<Rightarrow> size_t" where
  "ltv_total_size len header_size = header_size + unat len"

definition ltv_parse ::
  "u8 list ptr \<Rightarrow> ltv_message ptr \<Rightarrow> LtvParseResult \<times> ltv_message ptr" where
  "ltv_parse data out =
     (case (data, out) of
        (Some bs, Some _) \<Rightarrow>
          (case ltv_peek_size data (Some 0) (Some 0) of
             (LTV_PARSE_OK, len_cell, hdr_cell) \<Rightarrow>
               let len = the len_cell; header_size = the hdr_cell;
                   total = ltv_total_size len header_size in
               if length bs < total then (LTV_PARSE_NEED_MORE, out)
               else
                 let value_size = unat (len - 1) in
                 (LTV_PARSE_OK,
                  Some \<lparr>lm_length = len, lm_type = bs ! header_size,
                        lm_value = (if 0 < value_size
                                    then Some (take value_size (drop (header_size + 1) bs))
                                    else NULL),
                        lm_value_size = value_size, lm_consumed = total\<rparr>)
           | (r, _, _) \<Rightarrow> (r, out))
      | _ \<Rightarrow> (LTV_PARSE_INVALID_VARINT, out))"

definition ltv_wire_size :: "size_t \<Rightarrow> size_t" where
  "ltv_wire_size value_size =
     (if LTV_MAX_PAYLOAD_SIZE < value_size then 0
      else let len = (of_nat value_size + 1 :: u32) in nat (ltv_varint_size len) + unat len)"

text \<open>\<open>value\<close> and \<open>value_size\<close> are one argument: the bytes behind the pointer.\<close>

definition ltv_build ::
  "u8 \<Rightarrow> u8 list ptr \<Rightarrow> size_t \<Rightarrow> u8 list ptr \<Rightarrow> size_t \<times> u8 list ptr" where
  "ltv_build type val value_size out =
     (let wire_size = ltv_wire_size value_size in
      case out of
        None \<Rightarrow> (0, None)
      | Some buf \<Rightarrow>
          if wire_size = 0 \<or> (0 < value_size \<and> val = NULL) \<or> length buf < wire_size
          then (0, out)
          else
            let len = (of_nat value_size + 1 :: u32);
                (header_size, out1) = ltv_encode_varint len out;
                out2 = put_bytes (the out1) (nat header_size) [type];
                out3 = (if 0 < value_size
                        then put_bytes out2 (nat header_size + 1) (take value_size (the val))
                        else out2)
            in (wire_size, Some out3))"

section \<open>The stream parser\<close>

record ltv_stream =
  ls_buffer :: "u8 list"
  ls_buffer_size :: size_t
  ls_buffered :: size_t
  ls_expected :: size_t
  ls_header_size :: size_t
  ls_pending_consume :: size_t

definition ltv_stream_consume_completed :: "ltv_stream \<Rightarrow> ltv_stream" where
  "ltv_stream_consume_completed s =
     (if ls_pending_consume s = 0 then s
      else
        let remaining = ls_buffered s - ls_pending_consume s in
        s\<lparr>ls_buffer := (if 0 < remaining
                        then shift_down (ls_buffer s) (ls_pending_consume s) remaining
                        else ls_buffer s),
          ls_buffered := remaining, ls_pending_consume := 0\<rparr>)"

text \<open>Two allocations; the buffer's first contents are whatever \<open>malloc\<close> left there.\<close>

definition ltv_stream_create :: "(nat \<Rightarrow> u8) \<Rightarrow> size_t \<Rightarrow> env \<Rightarrow> ltv_stream ptr \<times> env" where
  "ltv_stream_create uninit requested e =
     (let buffer_size = (if requested = 0 then 65536 else requested) in
      case malloc e of
        (None, e1) \<Rightarrow> (NULL, e1)
      | (Some _, e1) \<Rightarrow>
          (case malloc e1 of
             (None, e2) \<Rightarrow> (NULL, free_block e2)
           | (Some _, e2) \<Rightarrow>
               (Some \<lparr>ls_buffer = map uninit [0..<buffer_size], ls_buffer_size = buffer_size,
                      ls_buffered = 0, ls_expected = 0, ls_header_size = 0,
                      ls_pending_consume = 0\<rparr>, e2)))"

text \<open>The second half of \<open>ltv_stream_feed\<close>, after the new bytes have been appended.\<close>

definition ltv_stream_emit ::
  "ltv_stream \<Rightarrow> ltv_message ptr \<Rightarrow> LtvParseResult \<times> ltv_stream \<times> ltv_message ptr" where
  "ltv_stream_emit s out =
     (if ls_buffered s < ls_expected s then (LTV_PARSE_NEED_MORE, s, out)
      else
        case ltv_parse (Some (take (ls_expected s) (ls_buffer s))) out of
          (LTV_PARSE_OK, out') \<Rightarrow>
            (LTV_PARSE_OK,
             s\<lparr>ls_pending_consume := ls_expected s, ls_expected := 0, ls_header_size := 0\<rparr>, out')
        | (r, out') \<Rightarrow> (r, s, out'))"

definition ltv_stream_scan ::
  "ltv_stream \<Rightarrow> ltv_message ptr \<Rightarrow> LtvParseResult \<times> ltv_stream \<times> ltv_message ptr" where
  "ltv_stream_scan s out =
     (if ls_expected s = 0 then
        case ltv_peek_size (Some (take (ls_buffered s) (ls_buffer s))) (Some 0) (Some 0) of
          (LTV_PARSE_OK, len_cell, hdr_cell) \<Rightarrow>
            let s' = s\<lparr>ls_expected := ltv_total_size (the len_cell) (the hdr_cell),
                       ls_header_size := the hdr_cell\<rparr> in
            if ls_buffer_size s' < ls_expected s' then (LTV_PARSE_BUFFER_OVERFLOW, s', out)
            else ltv_stream_emit s' out
        | (r, _, _) \<Rightarrow> (r, s, out)
      else ltv_stream_emit s out)"

definition ltv_stream_feed ::
  "ltv_stream ptr \<Rightarrow> u8 list ptr \<Rightarrow> size_t \<Rightarrow> ltv_message ptr \<Rightarrow>
   LtvParseResult \<times> ltv_stream ptr \<times> ltv_message ptr" where
  "ltv_stream_feed stream data len out =
     (case stream of
        None \<Rightarrow> (LTV_PARSE_INVALID_VARINT, NULL, out)
      | Some s \<Rightarrow>
          if out = NULL then (LTV_PARSE_INVALID_VARINT, stream, out)
          else if data = NULL \<and> 0 < len then (LTV_PARSE_INVALID_VARINT, stream, out)
          else
            let s1 = ltv_stream_consume_completed s in
            if data \<noteq> NULL \<and> 0 < len \<and> ls_buffer_size s1 - ls_buffered s1 < len
            then (LTV_PARSE_BUFFER_OVERFLOW, Some s1, out)
            else
              let s2 = (if data \<noteq> NULL \<and> 0 < len
                        then s1\<lparr>ls_buffer := put_bytes (ls_buffer s1) (ls_buffered s1)
                                                 (take len (the data)),
                                ls_buffered := ls_buffered s1 + len\<rparr>
                        else s1);
                  (r, s3, out') = ltv_stream_scan s2 out
              in (r, Some s3, out'))"

definition ltv_stream_remaining :: "ltv_stream ptr \<Rightarrow> size_t \<times> u8 list" where
  "ltv_stream_remaining stream =
     (case stream of
        None \<Rightarrow> (0, [])
      | Some s \<Rightarrow>
          let offset = ls_pending_consume s in
          (ls_buffered s - offset, drop offset (take (ls_buffered s) (ls_buffer s))))"

definition ltv_stream_reset :: "ltv_stream ptr \<Rightarrow> ltv_stream ptr" where
  "ltv_stream_reset stream =
     map_option (\<lambda>s. s\<lparr>ls_buffered := 0, ls_expected := 0, ls_header_size := 0,
                       ls_pending_consume := 0\<rparr>) stream"

definition ltv_stream_destroy :: "ltv_stream ptr \<Rightarrow> env \<Rightarrow> env" where
  "ltv_stream_destroy stream e = (if stream = NULL then e else free_block (free_block e))"

definition ltv_parse_result_string :: "LtvParseResult \<Rightarrow> string" where
  "ltv_parse_result_string r =
     (case r of
        LTV_PARSE_OK \<Rightarrow> ''OK''
      | LTV_PARSE_NEED_MORE \<Rightarrow> ''Need more data''
      | LTV_PARSE_INVALID_VARINT \<Rightarrow> ''Invalid varint''
      | LTV_PARSE_SIZE_OVERFLOW \<Rightarrow> ''Size overflow''
      | LTV_PARSE_BUFFER_OVERFLOW \<Rightarrow> ''Buffer overflow'')"

section \<open>Facts about the codec\<close>



lemma low7: "(x :: u32) < 0x80 \<longleftrightarrow> unat x < 2 ^ 7"
  by (simp add: word_less_nat_alt)

lemma encode_last: "v < 0x80 \<Longrightarrow> ltv_encode_loop v = [ucast v]"
  by (simp add: ltv_encode_loop.simps [of v] flip: not_le)

lemma encode_step:
  "0x80 \<le> v \<Longrightarrow> ltv_encode_loop v = ucast (v OR 0x80) # ltv_encode_loop (drop_bit 7 v)"
  by (simp add: ltv_encode_loop.simps [of v])

lemma encode_nonempty [simp]: "ltv_encode_loop v \<noteq> []"
  by (simp add: ltv_encode_loop.simps [of v])

lemma and_0x80: "(b AND 0x80 = 0) = (\<not> bit (b::u8) 7)"
proof
  assume "b AND 0x80 = 0"
  then have "\<not> bit (b AND 0x80) 7" by simp
  then show "\<not> bit b 7" by (simp add: bit_simps)
next
  assume "\<not> bit b 7"
  then show "b AND 0x80 = 0" by (intro bit_word_eqI) (auto simp: bit_simps)
qed

lemma cont_bit_set: "bit (ucast (v OR 0x80 :: u32) :: u8) 7"
  by (simp add: bit_simps)

lemma group_of_cont:
  "ucast ((ucast (v OR 0x80 :: u32) :: u8) AND 0x7F) = take_bit 7 (v :: u32)"
  by (rule bit_word_eqI) (auto simp: bit_simps)

lemma group_of_last:
  "v < 0x80 \<Longrightarrow> ucast ((ucast (v :: u32) :: u8) AND 0x7F) = v"
  unfolding low7
  by (rule bit_word_eqI) (auto simp: bit_simps dest!: bit_bound[of v 7, simplified])

lemma last_cont: "v < 0x80 \<Longrightarrow> \<not> bit (ucast (v :: u32) :: u8) 7"
  unfolding low7 using bit_bound[of v 7 7] by (auto simp: bit_simps)

lemma and_0xF0: "((b::u8) AND 0xF0 = 0) = (unat b < 2 ^ 4)"
proof
  assume a: "b AND 0xF0 = 0"
  show "unat b < 2 ^ 4"
  proof (rule unat_bound_of_bits)
    fix n assume b: "bit b n"
    then have "n < 8" by (auto dest: bit_imp_le_length)
    from a have "\<not> bit (b AND 0xF0) n" by simp
    with b \<open>n < 8\<close> show "n < 4" by (auto simp: bit_simps)
  qed
next
  assume "unat b < 2 ^ 4"
  then show "b AND 0xF0 = 0"
    by (intro bit_word_eqI) (auto simp: bit_simps dest!: bit_bound [of b 4, simplified])
qed

lemma length_encode: "int (length (ltv_encode_loop v)) = ltv_varint_size v"
proof -
  have le: "(0x80 \<le> drop_bit n v) = (2 ^ (n + 7) \<le> unat v)" for n
    by (simp add: word_le_nat_alt unat_drop_bit power_add less_eq_div_iff_mult_less_eq mult.commute)
  have le0: "(0x80 \<le> v) = (2 ^ 7 \<le> unat v)"
    by (simp add: word_le_nat_alt)
  have b: "unat v < 2 ^ 32" using unsigned_less[of v, where 'a=nat] by simp
  show ?thesis
    using b
    by (simp add: ltv_encode_loop.simps[of v] ltv_encode_loop.simps[of "drop_bit 7 v"] ltv_encode_loop.simps[of "drop_bit 14 v"] ltv_encode_loop.simps[of "drop_bit 21 v"] ltv_encode_loop.simps[of "drop_bit 28 v"] le le0 ltv_varint_size_def word_less_nat_alt push_bit_eq_mult)
qed

lemma decode_loop_step:
  "i < length data \<Longrightarrow> i < 4 \<Longrightarrow> bit (data ! i) 7 \<Longrightarrow>
   ltv_decode_loop data i r s = ltv_decode_loop data (i + 1) (r OR push_bit s (ucast (data ! i AND 0x7F))) (s + 7)"
  by (simp add: ltv_decode_loop.simps[of data i] LTV_MAX_VARINT_BYTES_def and_0x80 Let_def)

lemma decode_loop_last:
  "i < length data \<Longrightarrow> i \<le> 4 \<Longrightarrow> \<not> bit (data ! i) 7 \<Longrightarrow> (i = 4 \<longrightarrow> unat (data ! i) < 2 ^ 4) \<Longrightarrow>
   v = r OR push_bit s (ucast (data ! i AND 0x7F)) \<Longrightarrow>
   ltv_decode_loop data i r s = (if ltv_varint_size v = int i + 1 then (int i + 1, Some v) else (-1, None))"
  by (auto simp add: ltv_decode_loop.simps[of data i] LTV_MAX_VARINT_BYTES_def and_0x80 and_0xF0 Let_def)

lemma decode_encoded:
  "data = pre @ ltv_encode_loop w @ rest \<Longrightarrow> i = length pre \<Longrightarrow> s = 7 * i \<Longrightarrow> i \<le> 4 \<Longrightarrow>
   unat w < 2 ^ (32 - s) \<Longrightarrow> v = r OR push_bit s w \<Longrightarrow>
   n = int i + int (length (ltv_encode_loop w)) \<Longrightarrow>
   ltv_decode_loop data i r s = (if ltv_varint_size v = n then (n, Some v) else (-1, None))"
proof (induction w arbitrary: data pre i r s n rule: ltv_encode_loop.induct)
  case (1 w)
  show ?case
  proof (cases "0x80 \<le> w")
    case True
    let ?b = "ucast (w OR 0x80) :: u8"
    have d: "data = (pre @ [?b]) @ ltv_encode_loop (drop_bit 7 w) @ rest"
      using "1.prems"(1) True by (simp add: encode_step)
    have "2 ^ 7 \<le> unat w" using True by (simp add: word_le_nat_alt)
    then have i4: "i < 4" using "1.prems"(3-5) by (cases "i = 4") auto
    have w: "unat (drop_bit 7 w) < 2 ^ (32 - (s + 7))"
    proof -
      have "32 - s = (32 - (s + 7)) + 7" using i4 "1.prems"(3) by simp
      then have "unat w < 2 ^ (32 - (s + 7)) * 2 ^ 7"
        using "1.prems"(5) by (metis power_add)
      then show ?thesis by (simp add: unat_drop_bit less_mult_imp_div_less)
    qed
    have v: "v = (r OR push_bit s (take_bit 7 w)) OR push_bit (s + 7) (drop_bit 7 w)"
      unfolding "1.prems"(6) by (simp add: or.assoc push_bit_split)
    have "ltv_decode_loop data i r s = ltv_decode_loop data (i + 1) (r OR push_bit s (take_bit 7 w)) (s + 7)"
      using i4 cont_bit_set[of w] by (simp add: decode_loop_step d "1.prems"(2) nth_append group_of_cont)
    also have "\<dots> = (if ltv_varint_size v = n then (n, Some v) else (-1, None))"
      by (rule "1.IH"[OF True d _ _ _ w v]) (use "1.prems" i4 True in \<open>simp_all add: encode_step\<close>)
    finally show ?thesis .
  next
    case False
    then have w: "w < 0x80" by simp
    have d: "data ! i = ucast w" "i < length data"
      using "1.prems"(1,2) w by (auto simp: encode_last nth_append)
    have "i = 4 \<longrightarrow> unat (ucast w :: u8) < 2 ^ 4"
      using "1.prems"(3,5) by (auto simp: unsigned_ucast_eq take_bit_nat_eq_self) 
    then show ?thesis
      using "1.prems" w d by (subst decode_loop_last) (auto simp: last_cont group_of_last encode_last nth_append)
  qed
qed


lemma decode_canonical:
  "ltv_decode_loop data i r s = (n, Some v) \<Longrightarrow> i \<le> 4 \<Longrightarrow> s = 7 * i \<Longrightarrow>
   \<exists>w j. 0 < j \<and> n = int i + int j \<and> i + j \<le> length data \<and> v = r OR push_bit s w \<and> unat w < 2 ^ (32 - s) \<and>
     ltv_varint_size v = n \<and>
     (length (ltv_encode_loop w) = j \<longrightarrow> take j (drop i data) = ltv_encode_loop w)"
proof (induction data i r s rule: ltv_decode_loop.induct)
  case (1 data i r s)
  let ?b = "data ! i"
  let ?r = "r OR push_bit s (ucast (?b AND 0x7F))"
  have i: "i < length data" using "1.prems"(1)
    by (auto simp: ltv_decode_loop.simps [of data i] split: if_splits)
  have top: "i = 4 \<Longrightarrow> unat ?b < 2 ^ 4" using "1.prems"(1)
    by (auto simp: ltv_decode_loop.simps [of data 4] and_0xF0 LTV_MAX_VARINT_BYTES_def Let_def split: if_splits)
  have group: "unat (ucast (?b AND 0x7F) :: u32) < 2 ^ 7"
    by (rule unat_bound_of_bits) (auto simp: bit_simps)
  show ?case
  proof (cases "bit ?b 7")
    case False
    let ?w = "ucast (?b AND 0x7F) :: u32"
    have b7: "n < 7" if "bit ?b n" for n
      using that False bit_imp_le_length [OF that] by (cases "n = 7") auto
    then have w: "?w = ucast ?b"
      by (intro bit_word_eqI) (auto simp: bit_simps dest: b7)
    have "v = r OR push_bit s ?w" "n = int i + 1" "ltv_varint_size v = n"
      using "1.prems"(1,2) False i top
      by (auto simp: decode_loop_last[OF i _ False] split: if_splits)
    moreover have "unat ?w < 2 ^ (32 - s)"
    proof (cases "i = 4")
      case True
      then have "unat (ucast ?b :: u32) < 2 ^ (32 - s)"
        using top "1.prems"(3) by (simp add: unsigned_ucast_eq take_bit_nat_eq_self)
      then show ?thesis by (simp only: w)
    next
      case F: False
      then have "(2::nat) ^ 7 \<le> 2 ^ (32 - s)" using "1.prems"(2,3) by (intro power_increasing) auto
      with group show ?thesis by simp
    qed
    moreover have "take 1 (drop i data) = ltv_encode_loop ?w"
    proof -
      have "?w < 0x80" using group by (simp add: low7)
      moreover have "ucast ?w = ?b" unfolding w by (rule bit_word_eqI) (auto simp: bit_simps)
      ultimately show ?thesis using i by (simp add: encode_last take_Suc_conv_app_nth Cons_nth_drop_Suc[symmetric])
    qed
    ultimately show ?thesis using i by (intro exI[of _ ?w] exI[of _ 1]) auto
  next
    case True
    have i4: "i < 4" 
    proof (rule ccontr)
      assume "\<not> i < 4"
      then have "i = 4" using "1.prems"(2) by simp
      then show False using top bit_bound[OF _ True, of 4] by simp
    qed
    have rec: "ltv_decode_loop data (i + 1) ?r (s + 7) = (n, Some v)"
      using "1.prems"(1) decode_loop_step[OF i i4 True] by simp
    obtain w j where w: "0 < j" "n = int (i + 1) + int j" "i + 1 + j \<le> length data"
      "v = ?r OR push_bit (s + 7) w" "unat w < 2 ^ (32 - (s + 7))" "ltv_varint_size v = n"
      "length (ltv_encode_loop w) = j \<longrightarrow> take j (drop (i + 1) data) = ltv_encode_loop w"
    proof -
      have "i + 1 \<le> 4" "s + 7 = 7 * (i + 1)" using i4 "1.prems"(3) by auto
      from "1.IH"[OF _ refl _ refl _ rec this] i i4 True show ?thesis
        by (auto simp: LTV_MAX_VARINT_BYTES_def and_0x80 intro: that)
    qed
    let ?g = "ucast (?b AND 0x7F) :: u32"
    let ?w = "?g OR push_bit 7 w"
    have wb: "n < 32 - (s + 7)" if "bit w n" for n
      using bit_bound[OF w(5) that] .
    have drp: "drop_bit 7 ?w = w"
      by (rule bit_word_eqI) (use i4 "1.prems"(3) in \<open>auto simp: bit_simps dest: wb\<close>)
    have low: "take_bit 7 ?w = ?g"
      by (rule bit_word_eqI) (auto simp: bit_simps)
    have "v = r OR push_bit s ?w"
      using push_bit_split[of s 7 ?w] by (simp only: drp low w(4) or.assoc)
    moreover have "unat ?w < 2 ^ (32 - s)"
      by (rule unat_bound_of_bits) (use i4 "1.prems"(3) in \<open>auto simp: bit_simps dest: wb\<close>)
    moreover have "take (Suc j) (drop i data) = ltv_encode_loop ?w" if "length (ltv_encode_loop ?w) = Suc j"
    proof -
      have big: "0x80 \<le> ?w"
        using that w(1) by (cases "0x80 \<le> ?w") (auto simp: encode_last not_le)
      have "ucast (?w OR 0x80) = ?b"
      proof (rule bit_word_eqI)
        fix n
        assume "n < LENGTH(8)"
        then show "bit (ucast (?w OR 0x80) :: u8) n = bit ?b n"
          using True by (cases "n = 7") (auto simp: bit_simps)
      qed
      then have e: "ltv_encode_loop ?w = ?b # ltv_encode_loop w"
        by (simp only: encode_step [OF big] drp)
      with that w(7) i show ?thesis
        unfolding e by (simp add: Cons_nth_drop_Suc [symmetric])
    qed
    ultimately show ?thesis using w by (intro exI[of _ ?w] exI[of _ "Suc j"]) auto
  qed
qed

lemma decode_prefix:
  "data = pre @ p \<Longrightarrow> ltv_encode_loop w = p @ q \<Longrightarrow> q \<noteq> [] \<Longrightarrow> i = length pre \<Longrightarrow>
   i + length (ltv_encode_loop w) \<le> 5 \<Longrightarrow> ltv_decode_loop data i r s = (0, None)"
proof (induction w arbitrary: data pre p i r s rule: ltv_encode_loop.induct)
  case (1 w)
  show ?case
  proof (cases p)
    case Nil
    then have "length data < 5" "length data \<le> i"
      using "1.prems" by (auto simp: neq_Nil_conv)
    then show ?thesis
      by (simp add: ltv_decode_loop.simps [of data i] LTV_MAX_VARINT_BYTES_def)
  next
    case (Cons b p')
    have big: "0x80 \<le> w"
      using "1.prems"(2,3) Cons by (cases "0x80 \<le> w") (auto simp: encode_last not_le)
    have b: "b = ucast (w OR 0x80)" "ltv_encode_loop (drop_bit 7 w) = p' @ q"
      using "1.prems"(2) Cons big by (auto simp: encode_step)
    have i: "i < 4" using "1.prems"(2,3,5) Cons by (cases q) auto
    have "ltv_decode_loop data (i + 1) r' s' = (0, None)" for r' s'
      by (rule "1.IH"[OF big, of "data" "pre @ [b]" p']) (use "1.prems" Cons b big in \<open>auto simp: encode_step\<close>)
    then show ?thesis
      using decode_loop_step[of i data r s] i cont_bit_set[of w] "1.prems"(1,4) Cons b(1)
      by (simp add: nth_append)
  qed
qed

lemma length_encode_le: "length (ltv_encode_loop v) \<le> 5"
  using length_encode[of v] by (simp add: ltv_varint_size_def split: if_splits)

lemma varint_size_pos: "0 < ltv_varint_size v"
  by (simp add: ltv_varint_size_def)

lemma decode_varint_encoded [simp]:
  "ltv_decode_varint (Some (ltv_encode_loop v @ rest)) (Some x) = (ltv_varint_size v, Some v)"
proof -
  have "ltv_decode_loop (ltv_encode_loop v @ rest) 0 0 0 = (ltv_varint_size v, Some v)"
    using decode_encoded[of "ltv_encode_loop v @ rest" "[]" v rest 0 0 v 0 "ltv_varint_size v"] unsigned_less[of v, where 'a=nat]
    by (simp add: length_encode)
  then show ?thesis by (simp add: ltv_decode_varint_def)
qed

lemma decode_varint_prefix:
  "ltv_encode_loop v = p @ q \<Longrightarrow> q \<noteq> [] \<Longrightarrow> ltv_decode_varint (Some p) (Some x) = (0, Some x)"
  using decode_prefix[of p "[]" p v q 0 0 0] length_encode_le[of v]
  by (simp add: ltv_decode_varint_def)

lemma decode_loop_codes:
  "snd (ltv_decode_loop bs i r s) = None \<Longrightarrow> fst (ltv_decode_loop bs i r s) \<in> {0, -1}"
proof (induction bs i r s rule: ltv_decode_loop.induct)
  case (1 bs i r s)
  then show ?case
    by (auto simp: ltv_decode_loop.simps [of bs i] Let_def split: if_splits)
qed

lemma decode_varint_cases:
  obtains (decoded) v where "ltv_decode_varint (Some bs) (Some x) = (ltv_varint_size v, Some v)"
      "bs = ltv_encode_loop v @ drop (nat (ltv_varint_size v)) bs"
  | (more) "ltv_decode_varint (Some bs) (Some x) = (0, Some x)"
  | (bad) "ltv_decode_varint (Some bs) (Some x) = (-1, Some x)"
proof (cases "bs = []")
  case True
  then show ?thesis using more by (simp add: ltv_decode_varint_def)
next
  case False
  show ?thesis
  proof (cases "ltv_decode_loop bs 0 0 0")
    case (Pair n res)
    show ?thesis
    proof (cases res)
      case None
      then have "n \<in> {0, -1}" using decode_loop_codes[of bs 0 0 0] Pair by simp
      then show ?thesis using more bad Pair None False by (auto simp: ltv_decode_varint_def)
    next
      case (Some v)
      from decode_canonical[OF Pair[unfolded Some]] obtain j where j: "n = int j" "j \<le> length bs"
        "ltv_varint_size v = n" "length (ltv_encode_loop v) = j \<longrightarrow> take j bs = ltv_encode_loop v"
        by auto
      then have "take j bs = ltv_encode_loop v" using length_encode[of v] by simp
      then have "bs = ltv_encode_loop v @ drop j bs" by (metis append_take_drop_id)
      then show ?thesis using decoded[of v] Pair Some False j by (simp add: ltv_decode_varint_def)
    qed
  qed
qed

subsection \<open>Messages\<close>

definition ltv_wire :: "u8 \<Rightarrow> u8 list \<Rightarrow> u8 list" where
  "ltv_wire type val = ltv_encode_loop (of_nat (length val) + 1) @ type # val"

definition ltv_message_of :: "u8 \<Rightarrow> u8 list \<Rightarrow> ltv_message" where
  "ltv_message_of type val =
     \<lparr>lm_length = of_nat (length val) + 1, lm_type = type,
      lm_value = (if val = [] then NULL else Some val),
      lm_value_size = length val, lm_consumed = length (ltv_wire type val)\<rparr>"

lemma payload_word:
  assumes "n \<le> LTV_MAX_PAYLOAD_SIZE"
  shows "unat (of_nat n + 1 :: u32) = n + 1" "(of_nat n + 1 :: u32) \<noteq> 0"
    "unat (of_nat n :: u32) = n"
proof -
  have n: "n + 1 < 2 ^ 32" using assms by (simp add: LTV_MAX_PAYLOAD_SIZE_def)
  then have "unat (of_nat (n + 1) :: u32) = n + 1"
    by (intro unat_of_nat_small) simp
  then show *: "unat (of_nat n + 1 :: u32) = n + 1"
    by (simp add: add.commute)
  then show "(of_nat n + 1 :: u32) \<noteq> 0" by (metis add_is_0 unat_0 zero_neq_one)
  show "unat (of_nat n :: u32) = n" using n by (intro unat_of_nat_small) simp
qed

lemma length_ltv_wire:
  "length val \<le> LTV_MAX_PAYLOAD_SIZE \<Longrightarrow> length (ltv_wire type val) = ltv_wire_size (length val)"
  using length_encode[of "of_nat (length val) + 1"]
  by (simp add: ltv_wire_def ltv_wire_size_def Let_def payload_word)

lemma peek_wire:
  assumes "length val \<le> LTV_MAX_PAYLOAD_SIZE" and "p = ltv_encode_loop (of_nat (length val) + 1) @ r"
  shows "ltv_peek_size (Some p) (Some a) (Some b) =
     (LTV_PARSE_OK, Some (of_nat (length val) + 1),
      Some (length (ltv_encode_loop (of_nat (length val) + 1))))"
  using assms payload_word[of "length val"] varint_size_pos[of "of_nat (length val) + 1"]
    length_encode[of "of_nat (length val) + 1"]
  by (auto simp: ltv_peek_size_def Let_def)

lemma parse_wire:
  assumes "length val \<le> LTV_MAX_PAYLOAD_SIZE"
  shows "ltv_parse (Some (ltv_wire type val @ rest)) (Some m) = (LTV_PARSE_OK, Some (ltv_message_of type val))"
  using assms payload_word[of "length val"]
  by (simp add: ltv_parse_def ltv_wire_def peek_wire Let_def ltv_total_size_def ltv_message_of_def)

lemma parse_wire_prefix:
  assumes "length val \<le> LTV_MAX_PAYLOAD_SIZE" "ltv_wire type val = p @ q" "q \<noteq> []"
  shows "ltv_parse (Some p) (Some m) = (LTV_PARSE_NEED_MORE, Some m)"
proof -
  let ?h = "ltv_encode_loop (of_nat (length val) + 1)"
  have len: "length p < length ?h + length val + 1"
    using arg_cong[OF assms(2), of length] assms(3) by (auto simp: ltv_wire_def neq_Nil_conv)
  show ?thesis
  proof (cases "length ?h \<le> length p")
    case True
    then have "?h = take (length ?h) p"
      using assms(2) unfolding ltv_wire_def by (auto simp: append_eq_append_conv_if)
    then have "p = ?h @ drop (length ?h) p" by (metis append_take_drop_id)
    from peek_wire[OF assms(1) this] len payload_word[OF assms(1)] show ?thesis
      by (simp add: ltv_parse_def Let_def ltv_total_size_def)
  next
    case False
    then obtain z where z: "?h = p @ z" "z \<noteq> []"
      using assms(2) unfolding ltv_wire_def by (auto simp: append_eq_append_conv2)
    then show ?thesis
      using decode_varint_prefix[OF z] by (simp add: ltv_parse_def ltv_peek_size_def Let_def)
  qed
qed

lemma parse_sound:
  assumes "ltv_parse (Some bs) (Some m0) = (LTV_PARSE_OK, Some m)"
  shows "\<exists>type val. length val \<le> LTV_MAX_PAYLOAD_SIZE \<and> m = ltv_message_of type val \<and>
     bs = ltv_wire type val @ drop (lm_consumed m) bs"
proof (cases rule: decode_varint_cases [of bs 0])
  case (decoded v)
  let ?h = "nat (ltv_varint_size v)"
  have h: "length (ltv_encode_loop v) = ?h" using length_encode[of v] by simp
  have v: "v \<noteq> 0" "unat v \<le> LTV_MAX_PAYLOAD_SIZE + 1" "?h + unat v \<le> length bs"
    and m: "m = \<lparr>lm_length = v, lm_type = bs ! ?h,
       lm_value = (if 0 < unat (v - 1) then Some (take (unat (v - 1)) (drop (?h + 1) bs)) else NULL),
       lm_value_size = unat (v - 1), lm_consumed = ?h + unat v\<rparr>"
    using assms decoded varint_size_pos[of v]
    by (auto simp: ltv_parse_def ltv_peek_size_def ltv_total_size_def Let_def split: if_splits)
  let ?val = "take (unat (v - 1)) (drop (?h + 1) bs)"
  have vm: "unat (v - 1) = unat v - 1" using v(1) by (simp add: unat_minus_one)
  have pos: "0 < unat v" using v(1) by (simp add: unat_gt_0)
  have len: "length ?val = unat v - 1" using v(3) pos vm by simp
  have w: "of_nat (length ?val) + 1 = v"
    using len by (simp only: vm [symmetric]) simp
  have "drop ?h bs = bs ! ?h # ?val @ drop (?h + unat v) bs"
  proof -
    have "drop ?h bs = bs ! ?h # drop (?h + 1) bs"
      using v(3) pos by (simp add: Cons_nth_drop_Suc)
    moreover have "drop (?h + 1) bs = ?val @ drop (unat v - 1) (drop (?h + 1) bs)"
      by (simp only: vm append_take_drop_id)
    ultimately show ?thesis using pos by (simp add: add.commute)
  qed
  then have "bs = ltv_wire (bs ! ?h) ?val @ drop (?h + unat v) bs"
    using decoded(2) unfolding ltv_wire_def w by simp
  moreover have "m = ltv_message_of (bs ! ?h) ?val"
    using len vm pos h unfolding m ltv_message_of_def ltv_wire_def w by auto
  moreover have "lm_consumed m = ?h + unat v" by (simp add: m)
  ultimately show ?thesis using len v(2)
    by (intro exI [of _ "bs ! ?h"] exI [of _ ?val]) simp
qed (use assms in \<open>auto simp: ltv_parse_def ltv_peek_size_def Let_def\<close>)


section \<open>The stream parser refines the one-shot parser\<close>

definition ltv_pending :: "ltv_stream \<Rightarrow> u8 list" where
  "ltv_pending s = drop (ls_pending_consume s) (take (ls_buffered s) (ls_buffer s))"

definition ltv_stream_inv :: "ltv_stream \<Rightarrow> bool" where
  "ltv_stream_inv s \<longleftrightarrow>
     length (ls_buffer s) = ls_buffer_size s \<and> ls_buffered s \<le> ls_buffer_size s \<and>
     ls_pending_consume s \<le> ls_buffered s \<and>
     (ls_expected s \<noteq> 0 \<longrightarrow> ls_pending_consume s = 0 \<and>
        (\<exists>len hdr. ltv_peek_size (Some (ltv_pending s)) (Some 0) (Some 0) = (LTV_PARSE_OK, Some len, Some hdr) \<and>
           ls_expected s = ltv_total_size len hdr))"

lemma peek_OK_iff:
  "ltv_peek_size (Some bs) (Some a) (Some b) = (LTV_PARSE_OK, Some len, Some hdr) \<longleftrightarrow>
     len \<noteq> 0 \<and> unat len \<le> LTV_MAX_PAYLOAD_SIZE + 1 \<and> hdr = length (ltv_encode_loop len) \<and>
     (\<exists>r. bs = ltv_encode_loop len @ r)"
proof (cases rule: decode_varint_cases [of bs 0])
  case (decoded v)
  have "nat (ltv_varint_size v) = length (ltv_encode_loop v)" using length_encode [of v] by simp
  moreover have "v = len" if "bs = ltv_encode_loop len @ r" for r
    using decoded(1) that by simp
  ultimately show ?thesis
    using decoded varint_size_pos [of v] by (auto simp: ltv_peek_size_def Let_def)
next
  case more
  then have "bs \<noteq> ltv_encode_loop len @ r" for r
    using varint_size_pos [of len] by auto
  with more show ?thesis by (auto simp: ltv_peek_size_def Let_def)
next
  case bad
  then have "bs \<noteq> ltv_encode_loop len @ r" for r
    using varint_size_pos [of len] by auto
  with bad show ?thesis by (auto simp: ltv_peek_size_def Let_def)
qed

lemma peek_cases:
  obtains (ok) len hdr where "ltv_peek_size (Some bs) (Some 0) (Some 0) = (LTV_PARSE_OK, Some len, Some hdr)"
  | (no) r where "r \<noteq> LTV_PARSE_OK" "r \<noteq> LTV_PARSE_BUFFER_OVERFLOW"
      "ltv_peek_size (Some bs) (Some 0) (Some 0) = (r, Some 0, Some 0)"
proof (cases rule: decode_varint_cases [of bs 0])
  case (decoded v)
  then show ?thesis
    using that varint_size_pos [of v]
    by (cases "v = 0"; cases "LTV_MAX_PAYLOAD_SIZE + 1 < unat v") (auto simp: ltv_peek_size_def Let_def)
qed (use that in \<open>auto simp: ltv_peek_size_def Let_def\<close>)

lemma parse_of_peek:
  assumes "ltv_peek_size (Some p) (Some 0) (Some 0) = (LTV_PARSE_OK, Some len, Some hdr)"
  shows "length p < ltv_total_size len hdr \<Longrightarrow>
      ltv_parse (Some p) (Some m) = (LTV_PARSE_NEED_MORE, Some m)"
    and "ltv_total_size len hdr \<le> length p \<Longrightarrow>
      \<exists>m'. ltv_parse (Some p) (Some m) = (LTV_PARSE_OK, Some m') \<and> lm_consumed m' = ltv_total_size len hdr \<and>
        ltv_parse (Some (take (ltv_total_size len hdr) p)) (Some m) = (LTV_PARSE_OK, Some m')"
proof -
  assume "length p < ltv_total_size len hdr"
  then show "ltv_parse (Some p) (Some m) = (LTV_PARSE_NEED_MORE, Some m)"
    using assms by (simp add: ltv_parse_def Let_def)
next
  assume le: "ltv_total_size len hdr \<le> length p"
  then obtain m' where m': "ltv_parse (Some p) (Some m) = (LTV_PARSE_OK, Some m')"
    "lm_consumed m' = ltv_total_size len hdr"
    using assms by (simp add: ltv_parse_def Let_def)
  from parse_sound [OF m'(1)] obtain type val where
    w: "length val \<le> LTV_MAX_PAYLOAD_SIZE" "m' = ltv_message_of type val"
      "p = ltv_wire type val @ drop (lm_consumed m') p" by blast
  have "lm_consumed m' = length (ltv_wire type val)" by (simp add: w(2) ltv_message_of_def)
  then have "take (lm_consumed m') p = ltv_wire type val @ []"
    by (subst w(3)) simp
  with parse_wire [OF w(1), of type "[]" m] m' w(2) show
    "\<exists>m'. ltv_parse (Some p) (Some m) = (LTV_PARSE_OK, Some m') \<and> lm_consumed m' = ltv_total_size len hdr \<and>
        ltv_parse (Some (take (ltv_total_size len hdr) p)) (Some m) = (LTV_PARSE_OK, Some m')"
    by simp
qed



lemma consume_completed:
  assumes "ltv_stream_inv s"
  shows "ltv_stream_inv (ltv_stream_consume_completed s)"
    "ltv_pending (ltv_stream_consume_completed s) = ltv_pending s"
    "ls_pending_consume (ltv_stream_consume_completed s) = 0"
    "ls_buffer_size (ltv_stream_consume_completed s) = ls_buffer_size s"
    "ls_buffered (ltv_stream_consume_completed s) = length (ltv_pending s)"
  using assms
  by (auto simp: ltv_stream_inv_def ltv_stream_consume_completed_def ltv_pending_def Let_def
      drop_take shift_down_def)

text \<open>What a feed must answer, given the bytes now pending: the one-shot parser's verdict.\<close>

definition ltv_verdict :: "size_t \<Rightarrow> u8 list \<Rightarrow> ltv_message \<Rightarrow> LtvParseResult \<times> ltv_message" where
  "ltv_verdict cap p m =
     (case ltv_peek_size (Some p) (Some 0) (Some 0) of
        (LTV_PARSE_OK, len, hdr) \<Rightarrow>
          if cap < ltv_total_size (the len) (the hdr) then (LTV_PARSE_BUFFER_OVERFLOW, m)
          else (case ltv_parse (Some p) (Some m) of (r, out) \<Rightarrow> (r, the out))
      | (r, _, _) \<Rightarrow> (r, m))"

lemma emit_refines:
  assumes "ltv_stream_inv s" "ls_expected s \<noteq> 0" "ls_expected s \<le> ls_buffer_size s"
    and "ltv_stream_emit s (Some m) = (r, s', out)" "p = ltv_pending s"
  shows "(r, out) = (case ltv_verdict (ls_buffer_size s) p m of (r, m') \<Rightarrow> (r, Some m'))"
    and "ltv_stream_inv s'" "ls_buffer_size s' = ls_buffer_size s"
    and "ltv_pending s' = (if r = LTV_PARSE_OK then drop (lm_consumed (the out)) p else p)"
proof -
  from assms(1,2) obtain len hdr where
    i: "length (ls_buffer s) = ls_buffer_size s" "ls_buffered s \<le> ls_buffer_size s"
      "ls_pending_consume s = 0"
      "ltv_peek_size (Some p) (Some 0) (Some 0) = (LTV_PARSE_OK, Some len, Some hdr)"
      "ls_expected s = ltv_total_size len hdr"
    using assms(5) by (auto simp: ltv_stream_inv_def)
  have p: "p = take (ls_buffered s) (ls_buffer s)" using i(3) assms(5) by (simp add: ltv_pending_def)
  have len: "length p = ls_buffered s" using i(1,2) p by simp
  have "(r, out) = (case ltv_verdict (ls_buffer_size s) p m of (r, m') \<Rightarrow> (r, Some m')) \<and>
    ltv_stream_inv s' \<and> ls_buffer_size s' = ls_buffer_size s \<and>
    ltv_pending s' = (if r = LTV_PARSE_OK then drop (lm_consumed (the out)) p else p)"
  proof (cases "ls_buffered s < ls_expected s")
    case True
    then have "r = LTV_PARSE_NEED_MORE" "s' = s" "out = Some m"
      using assms(4) by (simp_all add: ltv_stream_emit_def)
    then show ?thesis
      using True i assms parse_of_peek(1) [OF i(4)] len by (simp add: ltv_verdict_def)
  next
    case False
    then have "ltv_total_size len hdr \<le> length p" using i(5) len by simp
    from parse_of_peek(2) [OF i(4) this, of m] obtain m' where
      m': "ltv_parse (Some p) (Some m) = (LTV_PARSE_OK, Some m')" "lm_consumed m' = ls_expected s"
        "ltv_parse (Some (take (ls_expected s) p)) (Some m) = (LTV_PARSE_OK, Some m')"
      using i(5) by auto
    have "take (ls_expected s) (ls_buffer s) = take (ls_expected s) p"
      using False by (simp add: p min_def)
    then have r: "r = LTV_PARSE_OK" "out = Some m'"
      "s' = s\<lparr>ls_pending_consume := ls_expected s, ls_expected := 0, ls_header_size := 0\<rparr>"
      using assms(4) False m'(3) by (auto simp: ltv_stream_emit_def)
    then show ?thesis
      using False i m' assms(3) by (auto simp: ltv_verdict_def ltv_stream_inv_def ltv_pending_def p)
  qed
  then show "(r, out) = (case ltv_verdict (ls_buffer_size s) p m of (r, m') \<Rightarrow> (r, Some m'))"
    and "ltv_stream_inv s'" "ls_buffer_size s' = ls_buffer_size s"
    and "ltv_pending s' = (if r = LTV_PARSE_OK then drop (lm_consumed (the out)) p else p)"
    by simp_all
qed


lemma emit_expected:
  "ltv_stream_emit s out = (r, s', out') \<Longrightarrow> ls_expected s' = ls_expected s \<or> ls_expected s' = 0"
  by (auto simp: ltv_stream_emit_def split: if_splits prod.splits LtvParseResult.splits)

definition ltv_scan_post ::
  "size_t \<Rightarrow> u8 list \<Rightarrow> ltv_message \<Rightarrow> LtvParseResult \<times> ltv_stream \<times> ltv_message ptr \<Rightarrow> bool" where
  "ltv_scan_post cap p m res \<longleftrightarrow>
     (case res of (r, s', out) \<Rightarrow>
        \<exists>m'. out = Some m' \<and> (r, m') = ltv_verdict cap p m \<and>
          ltv_stream_inv s' \<and> ls_buffer_size s' = cap \<and>
          ltv_pending s' = (if r = LTV_PARSE_OK then drop (lm_consumed m') p else p) \<and>
          (r \<noteq> LTV_PARSE_BUFFER_OVERFLOW \<longrightarrow> ls_expected s' \<le> cap))"

lemma scan_refines:
  assumes "ltv_stream_inv s" "ls_pending_consume s = 0" "ls_expected s \<le> ls_buffer_size s"
  shows "ltv_scan_post (ls_buffer_size s) (ltv_pending s) m (ltv_stream_scan s (Some m))"
proof -
  have emit: "ltv_scan_post (ls_buffer_size t) (ltv_pending t) m (ltv_stream_emit t (Some m))"
    if t: "ltv_stream_inv t" "ls_expected t \<noteq> 0" "ls_expected t \<le> ls_buffer_size t" for t
  proof -
    obtain r s' out where e: "ltv_stream_emit t (Some m) = (r, s', out)"
      using prod_cases3 by blast
    from emit_refines [OF t e refl] emit_expected [OF e] t(3) e show ?thesis
      by (auto simp: ltv_scan_post_def split: prod.splits)
  qed
  have p: "ltv_pending s = take (ls_buffered s) (ls_buffer s)"
    using assms(2) by (simp add: ltv_pending_def)
  show ?thesis
  proof (cases "ls_expected s = 0")
    case False
    with emit [OF assms(1) False assms(3)] show ?thesis by (simp add: ltv_stream_scan_def)
  next
    case z: True
    show ?thesis
    proof (cases rule: peek_cases [of "ltv_pending s"])
      case (no r)
      with z assms(1,2) show ?thesis
        by (auto simp: ltv_stream_scan_def ltv_scan_post_def ltv_verdict_def p
            split: LtvParseResult.splits)
    next
      case (ok len hdr)
      let ?s = "s\<lparr>ls_expected := ltv_total_size len hdr, ls_header_size := hdr\<rparr>"
      have pend: "ltv_pending ?s = ltv_pending s" by (simp add: ltv_pending_def)
      have inv: "ltv_stream_inv ?s"
        using assms(1,2) ok pend by (simp add: ltv_stream_inv_def)
      have nz: "ls_expected ?s \<noteq> 0"
        using ok by (auto simp: peek_OK_iff ltv_total_size_def)
      show ?thesis
      proof (cases "ls_buffer_size s < ltv_total_size len hdr")
        case True
        with z ok inv pend show ?thesis
          by (simp add: ltv_stream_scan_def ltv_scan_post_def ltv_verdict_def p Let_def)
      next
        case False
        with z ok emit [OF inv nz] pend show ?thesis
          by (simp add: ltv_stream_scan_def p Let_def)
      qed
    qed
  qed
qed

lemma append_bytes:
  assumes "ltv_stream_inv s" "ls_pending_consume s = 0" "ls_buffered s + length d \<le> ls_buffer_size s"
    and "s' = s\<lparr>ls_buffer := put_bytes (ls_buffer s) (ls_buffered s) d, ls_buffered := ls_buffered s + length d\<rparr>"
  shows "ltv_stream_inv s'" "ltv_pending s' = ltv_pending s @ d"
proof -
  show p: "ltv_pending s' = ltv_pending s @ d"
    using assms by (simp add: ltv_pending_def ltv_stream_inv_def)
  have "ltv_peek_size (Some (ltv_pending s @ d)) (Some 0) (Some 0) = (LTV_PARSE_OK, Some len, Some hdr)"
    if "ltv_peek_size (Some (ltv_pending s)) (Some 0) (Some 0) = (LTV_PARSE_OK, Some len, Some hdr)" for len hdr
    using that unfolding peek_OK_iff by auto
  then show "ltv_stream_inv s'"
    using assms p by (fastforce simp: ltv_stream_inv_def)
qed

lemma stream_feed_refines:
  assumes "ltv_stream_inv s" "ls_expected s \<le> ls_buffer_size s"
    and "p = ltv_pending s @ d"
  shows "length p \<le> ls_buffer_size s \<Longrightarrow>
      \<exists>r s' out. ltv_stream_feed (Some s) (Some d) (length d) (Some m) = (r, Some s', out) \<and>
        ltv_scan_post (ls_buffer_size s) p m (r, s', out)"
    and "ls_buffer_size s < length p \<Longrightarrow>
      \<exists>s'. ltv_stream_feed (Some s) (Some d) (length d) (Some m) = (LTV_PARSE_BUFFER_OVERFLOW, Some s', Some m) \<and>
        ltv_stream_inv s' \<and> ltv_pending s' = ltv_pending s"
proof -
  let ?c = "ltv_stream_consume_completed s"
  note c = consume_completed [OF assms(1)]
  have e: "ls_expected ?c = ls_expected s"
    by (simp add: ltv_stream_consume_completed_def Let_def)
  { assume le: "length p \<le> ls_buffer_size s"
    let ?s2 = "if 0 < length d then ?c\<lparr>ls_buffer := put_bytes (ls_buffer ?c) (ls_buffered ?c) d,
        ls_buffered := ls_buffered ?c + length d\<rparr> else ?c"
    have s2: "ltv_stream_inv ?s2 \<and> ltv_pending ?s2 = p \<and> ls_pending_consume ?s2 = 0 \<and>
      ls_buffer_size ?s2 = ls_buffer_size s \<and> ls_expected ?s2 = ls_expected s"
      using append_bytes [OF c(1,3) _ refl, of d] c e le assms(3) by auto
    then have "ltv_scan_post (ls_buffer_size s) p m (ltv_stream_scan ?s2 (Some m))"
      using scan_refines [of ?s2 m] assms(2) by simp
    then show "\<exists>r s' out. ltv_stream_feed (Some s) (Some d) (length d) (Some m) = (r, Some s', out) \<and>
        ltv_scan_post (ls_buffer_size s) p m (r, s', out)"
      using le c(4,5) assms(3)
      by (cases "ltv_stream_scan ?s2 (Some m)") (auto simp: ltv_stream_feed_def Let_def) }
  { assume "ls_buffer_size s < length p"
    then show "\<exists>s'. ltv_stream_feed (Some s) (Some d) (length d) (Some m) = (LTV_PARSE_BUFFER_OVERFLOW, Some s', Some m) \<and>
        ltv_stream_inv s' \<and> ltv_pending s' = ltv_pending s"
      using c assms(1,3) by (auto simp: ltv_stream_feed_def Let_def ltv_stream_inv_def ltv_pending_def) }
qed


section \<open>Reassembly\<close>

definition ltv_blank :: ltv_message where
  "ltv_blank = \<lparr>lm_length = 0, lm_type = 0, lm_value = NULL, lm_value_size = 0, lm_consumed = 0\<rparr>"

definition ltv_scan :: "u8 list \<Rightarrow> ltv_message scan" where
  "ltv_scan p =
     (case ltv_parse (Some p) (Some ltv_blank) of
        (LTV_PARSE_OK, Some m) \<Rightarrow> Complete m (lm_consumed m)
      | (LTV_PARSE_NEED_MORE, _) \<Rightarrow> Incomplete
      | _ \<Rightarrow> Broken)"

definition ltv_wire_of :: "ltv_message \<Rightarrow> u8 list" where
  "ltv_wire_of m = ltv_wire (lm_type m) (case lm_value m of None \<Rightarrow> [] | Some v \<Rightarrow> v)"

definition ltv_sendable :: "ltv_message \<Rightarrow> bool" where
  "ltv_sendable m \<longleftrightarrow>
     (\<exists>type val. length val \<le> LTV_MAX_PAYLOAD_SIZE \<and> m = ltv_message_of type val)"

definition ltv_feed :: "ltv_stream \<Rightarrow> u8 list \<Rightarrow> ltv_message outcome \<times> ltv_stream" where
  "ltv_feed s d =
     (case ltv_stream_feed (Some s) (Some d) (length d) (Some ltv_blank) of
        (LTV_PARSE_OK, Some s', Some m) \<Rightarrow> (Emit m, s')
      | (LTV_PARSE_NEED_MORE, Some s', _) \<Rightarrow> (More, s')
      | (_, Some s', _) \<Rightarrow> (Fail, s')
      | (_, None, _) \<Rightarrow> (Fail, s))"

definition ltv_stream_ready :: "ltv_stream \<Rightarrow> bool" where
  "ltv_stream_ready s \<longleftrightarrow> ltv_stream_inv s \<and> ls_expected s \<le> ls_buffer_size s"

lemma wire_of_message [simp]: "ltv_wire_of (ltv_message_of type val) = ltv_wire type val"
  by (simp add: ltv_wire_of_def ltv_message_of_def)

lemma consumed_message [simp]: "lm_consumed (ltv_message_of type val) = length (ltv_wire type val)"
  by (simp add: ltv_message_of_def)

lemma verdict_wire:
  assumes "length val \<le> LTV_MAX_PAYLOAD_SIZE" "length (ltv_wire type val) \<le> cap"
  shows "ltv_verdict cap (ltv_wire type val @ r) m = (LTV_PARSE_OK, ltv_message_of type val)"
  using assms parse_wire [OF assms(1), of type r m] payload_word [OF assms(1)]
    peek_wire [OF assms(1), of "ltv_wire type val @ r" "type # val @ r" 0 0]
  by (simp add: ltv_verdict_def ltv_wire_def ltv_total_size_def)

lemma verdict_prefix:
  assumes "length val \<le> LTV_MAX_PAYLOAD_SIZE" "ltv_wire type val = p @ q" "q \<noteq> []"
    and "length (ltv_wire type val) \<le> cap"
  shows "ltv_verdict cap p m = (LTV_PARSE_NEED_MORE, m)"
proof (cases rule: peek_cases [of p])
  case (no r)
  then show ?thesis
    using parse_wire_prefix [OF assms(1-3), of m]
    by (auto simp: ltv_verdict_def ltv_parse_def split: LtvParseResult.splits)
next
  case (ok len hdr)
  let ?h = "ltv_encode_loop (of_nat (length val) + 1)"
  from ok obtain r where r: "p = ltv_encode_loop len @ r" "hdr = length (ltv_encode_loop len)"
    by (auto simp: peek_OK_iff)
  have "?h @ type # val = ltv_encode_loop len @ (r @ q)"
    using assms(2) r(1) by (simp add: ltv_wire_def)
  then have "len = of_nat (length val) + 1"
    by (metis decode_varint_encoded option.inject prod.inject)
  with r(2) payload_word [OF assms(1)] have "ltv_total_size len hdr = length (ltv_wire type val)"
    by (simp add: ltv_total_size_def ltv_wire_def)
  with ok assms(4) parse_wire_prefix [OF assms(1-3), of m]
  show ?thesis by (simp add: ltv_verdict_def)
qed

interpretation ltv_reassembler: reassembler ltv_scan ltv_wire_of ltv_sendable
  "\<lambda>m. m" ltv_feed ltv_pending ls_buffer_size ltv_stream_ready
proof unfold_locales
  fix m rest
  assume "ltv_sendable m"
  then show "ltv_scan (ltv_wire_of m @ rest) = Complete m (length (ltv_wire_of m))"
    by (auto simp: ltv_sendable_def ltv_scan_def parse_wire)
next
  fix m p q
  assume "ltv_sendable m" "ltv_wire_of m = p @ q" "q \<noteq> []"
  then show "ltv_scan p = Incomplete"
    by (auto simp: ltv_sendable_def ltv_scan_def dest: parse_wire_prefix [where m = ltv_blank])
next
  fix m
  assume "ltv_sendable m"
  then show "ltv_wire_of m \<noteq> []" by (auto simp: ltv_sendable_def ltv_wire_def)
next
  fix s d m r
  assume s: "ltv_stream_ready s" "length (ltv_pending s) + length d \<le> ls_buffer_size s"
    "ltv_sendable m" "ltv_pending s @ d = ltv_wire_of m @ r"
  then obtain type val where m: "length val \<le> LTV_MAX_PAYLOAD_SIZE" "m = ltv_message_of type val"
    by (auto simp: ltv_sendable_def)
  have p: "ltv_pending s @ d = ltv_wire type val @ r" using s(4) m(2) by simp
  have fit: "length (ltv_wire type val) \<le> ls_buffer_size s"
    using arg_cong [OF p, of length] s(2) by simp
  have le: "length (ltv_pending s @ d) \<le> ls_buffer_size s" using s(2) by simp
  from stream_feed_refines(1) [OF _ _ refl le, of ltv_blank] s(1)
    verdict_wire [OF m(1) fit, of r ltv_blank] m(2)
  show "\<exists>s'. ltv_feed s d = (Emit m, s') \<and> ltv_stream_ready s' \<and> ltv_pending s' = r \<and>
      ls_buffer_size s' = ls_buffer_size s"
    by (auto simp: ltv_stream_ready_def ltv_scan_post_def ltv_feed_def p)
next
  fix s m d q
  assume s: "ltv_stream_ready s" "ltv_sendable m" "ltv_wire_of m = (ltv_pending s @ d) @ q"
    "q \<noteq> []" "length (ltv_wire_of m) \<le> ls_buffer_size s"
  then obtain type val where m: "length val \<le> LTV_MAX_PAYLOAD_SIZE" "m = ltv_message_of type val"
    by (auto simp: ltv_sendable_def)
  have le: "length (ltv_pending s @ d) \<le> ls_buffer_size s"
    using s(3,5) by simp
  have "ltv_verdict (ls_buffer_size s) (ltv_pending s @ d) ltv_blank = (LTV_PARSE_NEED_MORE, ltv_blank)"
    using verdict_prefix [OF m(1), of type "ltv_pending s @ d" q] s m(2) by simp
  with stream_feed_refines(1) [OF _ _ refl le, of ltv_blank] s(1)
  show "\<exists>s'. ltv_feed s d = (More, s') \<and> ltv_stream_ready s' \<and>
      ltv_pending s' = ltv_pending s @ d \<and> ls_buffer_size s' = ls_buffer_size s"
    by (auto simp: ltv_stream_ready_def ltv_scan_post_def ltv_feed_def)
next
  fix s
  assume s: "ltv_stream_ready s" "ltv_pending s = []"
  have "ltv_verdict (ls_buffer_size s) [] ltv_blank = (LTV_PARSE_NEED_MORE, ltv_blank)"
    by (simp add: ltv_verdict_def ltv_peek_size_def ltv_decode_varint_def)
  with stream_feed_refines(1) [of s _ "[]" ltv_blank, OF _ _ refl] s
  show "\<exists>s'. ltv_feed s [] = (More, s') \<and> ltv_stream_ready s' \<and> ltv_pending s' = [] \<and>
      ls_buffer_size s' = ls_buffer_size s"
    by (auto simp: ltv_stream_ready_def ltv_scan_post_def ltv_feed_def)
qed


section \<open>Properties\<close>

text \<open>C22: \<open>ltv_decode_varint\<close> accepts exactly the canonical encodings: it reports success, that is
  any positive number of bytes, if and only if the buffer starts with what \<open>ltv_encode_varint\<close>
  writes for some value, and then it returns that value and the length of that encoding; every
  other buffer (overlong, overflowing or incomplete) is refused and the output is not touched.\<close>

theorem ltv_varint_canonical:
  "(0 < n \<and> ltv_decode_varint (Some bs) (Some x) = (n, out) \<longleftrightarrow>
      (\<exists>v rest. bs = ltv_encode_loop v @ rest \<and> n = ltv_varint_size v \<and> out = Some v)) \<and>
   ((\<exists>v rest. bs = ltv_encode_loop v @ rest) \<or> ltv_decode_varint (Some bs) (Some x) \<in> {(0, Some x), (- 1, Some x)})"
proof (cases rule: decode_varint_cases [of bs x])
  case (decoded w)
  have eq: "v = w" if "bs = ltv_encode_loop v @ rest" for v rest using decoded(1) that by simp
  have "0 < n \<and> (ltv_varint_size w, Some w) = (n, out) \<longleftrightarrow>
      (\<exists>v rest. bs = ltv_encode_loop v @ rest \<and> n = ltv_varint_size v \<and> out = Some v)"
    using decoded(2) varint_size_pos [of w] eq by blast
  then show ?thesis using decoded by metis
next
  case more
  then have "bs \<noteq> ltv_encode_loop v @ rest" for v rest using varint_size_pos [of v] by auto
  then show ?thesis using more by auto
next
  case bad
  then have "bs \<noteq> ltv_encode_loop v @ rest" for v rest using varint_size_pos [of v] by auto
  then show ?thesis using bad by auto
qed

text \<open>Two encodings of the value 1: the canonical one, and one with a redundant byte.\<close>

theorem ltv_varint_canonical_witness:
  "ltv_decode_varint (Some [1, 5]) (Some 7) = (1, Some 1) \<and> ltv_decode_varint (Some [0x81, 0]) (Some 7) = (- 1, Some 7)"
proof
  have "ltv_encode_loop 1 = [1]" "ltv_varint_size 1 = 1" by (simp_all add: encode_last ltv_varint_size_def)
  then have "\<exists>v rest. [1, 5] = ltv_encode_loop v @ rest \<and> 1 = ltv_varint_size v \<and> Some 1 = Some v"
    by (intro exI [of _ 1] exI [of _ "[5]"]) simp
  then show "ltv_decode_varint (Some [1, 5]) (Some 7) = (1, Some 1)"
    using ltv_varint_canonical [of 1 "[1, 5]" 7 "Some 1"] by blast
  show "ltv_decode_varint (Some [0x81, 0]) (Some 7) = (- 1, Some 7)" by code_simp
qed

text \<open>building a message into a large enough buffer and parsing that buffer gives the
  message back, consumes exactly the bytes written, and leaves the rest of the buffer
  alone.\<close>

theorem ltv_build_parse:
  assumes "length val \<le> LTV_MAX_PAYLOAD_SIZE" and "ltv_wire_size (length val) \<le> length buf"
    and "ltv_build type (Some val) (length val) (Some buf) = (n, out)"
  shows "n = ltv_wire_size (length val) \<and>
    ltv_parse out (Some m) = (LTV_PARSE_OK, Some (ltv_message_of type val)) \<and>
    lm_consumed (ltv_message_of type val) = n \<and>
    (\<exists>buf'. out = Some buf' \<and> length buf' = length buf \<and> drop n buf' = drop n buf)"
proof -
  let ?h = "ltv_encode_loop (of_nat (length val) + 1)"
  have len: "length (ltv_wire type val) = ltv_wire_size (length val)"
    by (rule length_ltv_wire [OF assms(1)])
  have "0 < ltv_wire_size (length val)" by (simp add: ltv_wire_def flip: len)
  moreover have "put_bytes (put_bytes (put_bytes buf 0 ?h) (length ?h) [type]) (Suc (length ?h)) val =
      put_bytes buf 0 (ltv_wire type val)"
    using assms(2) len put_bytes_append [of 0 ?h "[type]" buf]
      put_bytes_append [of 0 "?h @ [type]" val buf]
    by (simp add: ltv_wire_def)
  ultimately have out: "n = ltv_wire_size (length val)" "out = Some (put_bytes buf 0 (ltv_wire type val))"
    using assms(2,3) by (auto simp: ltv_build_def ltv_encode_varint_def Let_def split: if_splits)
  have "put_bytes buf 0 (ltv_wire type val) = ltv_wire type val @ drop n buf"
    by (simp add: put_bytes_def len out(1))
  with out parse_wire [OF assms(1)] len assms(2) show ?thesis by simp
qed

theorem ltv_build_parse_witness:
  "\<exists>n out. ltv_build 7 (Some [1, 2]) 2 (Some (replicate 6 0)) = (n, out) \<and>
     ltv_parse out (Some ltv_blank) = (LTV_PARSE_OK, Some (ltv_message_of 7 [1, 2])) \<and> n = 4"
proof -
  obtain n out where b:
    "ltv_build 7 (Some [1, 2]) (length [1, 2 :: u8]) (Some (replicate 6 0)) = (n, out)"
    by fastforce
  have len: "length [1, 2 :: u8] = 2" by simp
  from ltv_build_parse [OF _ _ b, of ltv_blank] b show ?thesis
    unfolding len by (auto simp: LTV_MAX_PAYLOAD_SIZE_def ltv_wire_size_def ltv_varint_size_def)
qed

text \<open>the parser is sound: a message it accepts is the head of the input in its unique
  wire form, so re-building it reproduces the consumed bytes, and a strict prefix of a
  message is always answered with a request for more bytes.\<close>

theorem ltv_parse_exact:
  assumes "ltv_parse (Some bs) (Some m0) = (LTV_PARSE_OK, Some m)"
  shows "bs = ltv_wire_of m @ drop (lm_consumed m) bs \<and> lm_consumed m = length (ltv_wire_of m) \<and>
    (\<forall>p q. ltv_wire_of m = p @ q \<longrightarrow> q \<noteq> [] \<longrightarrow>
       ltv_parse (Some p) (Some m0) = (LTV_PARSE_NEED_MORE, Some m0))"
  using parse_sound [OF assms] by (auto dest: parse_wire_prefix)

theorem ltv_parse_exact_witness:
  "[3, 7, 1, 2, 9] = ltv_wire_of (ltv_message_of 7 [1, 2]) @ [9]"
proof -
  have "ltv_encode_loop 3 = [3]" by (simp add: encode_last)
  then have "ltv_parse (Some [3, 7, 1, 2, 9]) (Some ltv_blank) =
      (LTV_PARSE_OK, Some (ltv_message_of 7 [1, 2]))"
    using parse_wire [of "[1, 2]" 7 "[9]" ltv_blank]
    by (simp add: ltv_wire_def LTV_MAX_PAYLOAD_SIZE_def)
  from ltv_parse_exact [OF this] show ?thesis
    using \<open>ltv_encode_loop 3 = [3]\<close> by (simp add: ltv_wire_def)
qed

text \<open>C14: a freshly created stream parser reassembles any sequence of messages from any
  chunking of their wire image: pumping the chunks through it emits exactly the messages,
  in order, and leaves nothing pending, provided a message and a chunk fit the buffer.\<close>

theorem ltv_stream_reassembly:
  assumes "ltv_stream_create uninit requested e = (Some s, e')"
    and "\<forall>(t, v) \<in> set msgs. length v \<le> LTV_MAX_PAYLOAD_SIZE"
    and "\<forall>(t, v) \<in> set msgs. \<forall>c \<in> set chunks. length (ltv_wire t v) + length c \<le> ls_buffer_size s"
    and "concat chunks = concat (map (\<lambda>(t, v). ltv_wire t v) msgs)"
  shows "\<exists>s'. pump_all ltv_feed s chunks (map (\<lambda>(t, v). ltv_message_of t v) msgs) s' \<and>
      ltv_pending s' = [] \<and>
      (\<forall>ms s''. pump_all ltv_feed s chunks ms s'' \<longrightarrow> ms = map (\<lambda>(t, v). ltv_message_of t v) msgs)"
proof -
  let ?ms = "map (\<lambda>(t, v). ltv_message_of t v) msgs"
  have s: "ltv_stream_ready s" "ltv_pending s = []"
    using assms(1) by (auto simp: ltv_stream_create_def Let_def ltv_stream_ready_def ltv_stream_inv_def
        ltv_pending_def split: prod.splits option.splits if_splits)
  have wire: "map ltv_wire_of ?ms = map (\<lambda>(t, v). ltv_wire t v) msgs"
    by (auto simp: wire_of_message)
  have "\<exists>s'. pump_all ltv_feed s chunks ?ms s' \<and> ltv_stream_ready s' \<and> ltv_pending s' = [] \<and>
      ls_buffer_size s' = ls_buffer_size s"
  proof (rule ltv_reassembler.reassembly [OF s(1), unfolded list.map_ident])
    show "\<forall>m \<in> set ?ms. ltv_sendable m" using assms(2) by (fastforce simp: ltv_sendable_def)
    show "\<forall>m \<in> set ?ms. \<forall>c \<in> set chunks. length (ltv_wire_of m) + length c \<le> ls_buffer_size s"
      using assms(3) by (auto simp: wire_of_message)
    show "ltv_pending s @ concat chunks = concat (map ltv_wire_of ?ms)"
      by (simp only: wire assms(4) s(2) append_Nil)
    show "?ms \<noteq> [] \<Longrightarrow> length (ltv_pending s) < length (ltv_wire_of (hd ?ms))"
      using s(2) by (cases msgs) (auto simp: ltv_wire_def split: prod.splits)
  qed
  then obtain s' where s': "pump_all ltv_feed s chunks ?ms s'" "ltv_pending s' = []" by blast
  have "ms = ?ms" if "pump_all ltv_feed s chunks ms s''" for ms s''
    using pump_all_deterministic [OF s'(1) that] by simp
  with s' show ?thesis by blast
qed


theorem ltv_stream_reassembly_witness:
  "\<exists>s s'. fst (ltv_stream_create (\<lambda>_. 0) 16 \<lparr>malloc_oracle = (\<lambda>_. Some 4096), malloc_calls = 0,
        live_blocks = 0\<rparr>) = Some s \<and>
     pump_all ltv_feed s [[3], [7, 1], [2, 1, 8]] [ltv_message_of 7 [1, 2], ltv_message_of 8 []] s' \<and>
     ltv_pending s' = []"
proof -
  let ?e = "\<lparr>malloc_oracle = (\<lambda>_. Some 4096), malloc_calls = 0, live_blocks = 0\<rparr>"
  obtain s e' where c: "ltv_stream_create (\<lambda>_. 0) 16 ?e = (Some s, e')" "ls_buffer_size s = 16"
    by (simp add: ltv_stream_create_def malloc_def)
  have w: "ltv_wire 7 [1, 2] = [3, 7, 1, 2]" "ltv_wire 8 [] = [1, 8]"
    by (simp_all add: ltv_wire_def encode_last)
  from ltv_stream_reassembly [OF c(1), of "[(7, [1, 2]), (8, [])]" "[[3], [7, 1], [2, 1, 8]]"] c
  show ?thesis by (auto simp: LTV_MAX_PAYLOAD_SIZE_def w)
qed

text \<open>Feeding chunk after chunk into the same message cell, and what a stuck stream with \<open>room\<close> bytes
  left answers: "need more data" while the chunk fits, "buffer overflow" when it does not.\<close>

fun ltv_feed_many ::
  "u8 list list \<Rightarrow> ltv_stream ptr \<Rightarrow> ltv_message ptr \<Rightarrow> LtvParseResult list \<times> ltv_stream ptr \<times> ltv_message ptr" where
  "ltv_feed_many [] stream out = ([], stream, out)"
| "ltv_feed_many (d # ds) stream out =
     (case ltv_stream_feed stream (Some d) (length d) out of
        (r, stream', out') \<Rightarrow> (case ltv_feed_many ds stream' out' of (rs, end_state) \<Rightarrow> (r # rs, end_state)))"

fun stuck_answers :: "nat \<Rightarrow> u8 list list \<Rightarrow> LtvParseResult list" where
  "stuck_answers room [] = []"
| "stuck_answers room (d # ds) =
     (if room < length d then LTV_PARSE_BUFFER_OVERFLOW # stuck_answers room ds
      else LTV_PARSE_NEED_MORE # stuck_answers (room - length d) ds)"

lemma stuck_feeds:
  assumes "ltv_stream_inv s" and "ls_buffer_size s < ls_expected s"
  shows "\<exists>s'. ltv_feed_many ds (Some s) (Some m) = (stuck_answers (ls_buffer_size s - ls_buffered s) ds, Some s', Some m) \<and> ltv_stream_inv s'"
  using assms
proof (induction ds arbitrary: s)
  case (Cons d ds)
  have c: "ltv_stream_consume_completed s = s" "ls_pending_consume s = 0" "ls_buffered s \<le> ls_buffer_size s"
    using Cons.prems by (auto simp: ltv_stream_inv_def ltv_stream_consume_completed_def)
  have stuck: "ltv_stream_scan t (Some m) = (LTV_PARSE_NEED_MORE, t, Some m)"
    if "ltv_stream_inv t" "ls_buffer_size t < ls_expected t" for t
    using that by (auto simp: ltv_stream_scan_def ltv_stream_emit_def ltv_stream_inv_def)
  let ?t = "s\<lparr>ls_buffer := put_bytes (ls_buffer s) (ls_buffered s) d, ls_buffered := ls_buffered s + length d\<rparr>"
  show ?case
  proof (cases "ls_buffer_size s - ls_buffered s < length d")
    case True
    then have "ltv_stream_feed (Some s) (Some d) (length d) (Some m) = (LTV_PARSE_BUFFER_OVERFLOW, Some s, Some m)"
      by (auto simp: ltv_stream_feed_def c Let_def)
    then show ?thesis using True Cons.IH [OF Cons.prems] by auto
  next
    case False
    define t where "t = (if d = [] then s else ?t)"
    have t: "ltv_stream_inv t" "ls_buffer_size t < ls_expected t" "ls_buffer_size t - ls_buffered t = ls_buffer_size s - ls_buffered s - length d"
      using Cons.prems append_bytes(1) [OF Cons.prems(1) c(2) _ refl, of d] False c(3) by (auto simp: t_def)
    have "ltv_stream_feed (Some s) (Some d) (length d) (Some m) = (LTV_PARSE_NEED_MORE, Some t, Some m)"
      using False stuck [OF t(1,2)] by (auto simp: ltv_stream_feed_def c Let_def t_def)
    then show ?thesis using False Cons.IH [OF t(1,2)] t(3) by auto
  qed
qed simp

lemma oversized_feed:
  assumes "ltv_stream_ready s" and "p = ltv_pending s @ d" and "length p \<le> ls_buffer_size s"
    and "ltv_peek_size (Some p) (Some 0) (Some 0) = (LTV_PARSE_OK, Some len, Some hdr)" and "ls_buffer_size s < ltv_total_size len hdr"
  shows "\<exists>s1. ltv_stream_feed (Some s) (Some d) (length d) (Some m) = (LTV_PARSE_BUFFER_OVERFLOW, Some s1, Some m) \<and>
    ltv_stream_inv s1 \<and> ls_buffer_size s1 = ls_buffer_size s \<and> ls_buffer_size s1 < ls_expected s1 \<and> ls_buffered s1 = length p"
proof -
  have inv: "ltv_stream_inv s" "ls_expected s \<le> ls_buffer_size s" using assms(1) by (simp_all add: ltv_stream_ready_def)
  let ?c = "ltv_stream_consume_completed s"
  note c = consume_completed [OF inv(1)]
  define t where "t = (if 0 < length d then ?c\<lparr>ls_buffer := put_bytes (ls_buffer ?c) (ls_buffered ?c) d,
      ls_buffered := ls_buffered ?c + length d\<rparr> else ?c)"
  have e: "ls_expected t = ls_expected s" by (simp add: t_def ltv_stream_consume_completed_def Let_def)
  have t: "ltv_stream_inv t" "ltv_pending t = p" "ls_pending_consume t = 0" "ls_buffer_size t = ls_buffer_size s" "ls_buffered t = length p"
    using append_bytes [OF c(1,3) _ refl, of d] c assms(2,3) by (auto simp: t_def)
  have z: "ls_expected t = 0" using t(1,2) e inv(2) assms(4,5) by (auto simp: ltv_stream_inv_def)
  let ?s = "t\<lparr>ls_expected := ltv_total_size len hdr, ls_header_size := hdr\<rparr>"
  have pend: "ltv_pending ?s = p" "take (ls_buffered t) (ls_buffer t) = p" using t(2,3) by (simp_all add: ltv_pending_def)
  have "ltv_stream_scan t (Some m) = (LTV_PARSE_BUFFER_OVERFLOW, ?s, Some m)"
    using z assms(4,5) pend(2) t(4) by (simp add: ltv_stream_scan_def Let_def)
  then have "ltv_stream_feed (Some s) (Some d) (length d) (Some m) = (LTV_PARSE_BUFFER_OVERFLOW, Some ?s, Some m)"
    using assms(2,3) c(4,5) by (auto simp: ltv_stream_feed_def Let_def t_def)
  moreover have "ltv_stream_inv ?s" using t assms(4) pend by (simp add: ltv_stream_inv_def)
  ultimately show ?thesis using t(4,5) assms(5) by auto
qed

text \<open>C23: A stream that meets a frame larger than its buffer does not recover by itself. The feed
  that completes the header of such a frame reports "buffer overflow"; after it, whatever is
  fed, no message is completed and the output is not touched: the answer is "need more data",
  for a frame that can never fit, as long as the chunk still has room, and "buffer overflow"
  otherwise. After a reset the stream is ready again.\<close>

theorem ltv_stream_oversized_stuck:
  assumes "ltv_stream_ready s" and "length val \<le> LTV_MAX_PAYLOAD_SIZE" and "ls_buffer_size s < length (ltv_wire type val)"
    and "ltv_pending s @ d = ltv_encode_loop (of_nat (length val) + 1) @ rest" and "length (ltv_pending s @ d) \<le> ls_buffer_size s"
  shows "\<exists>s' s0. ltv_feed_many (d # ds) (Some s) (Some m) =
      (LTV_PARSE_BUFFER_OVERFLOW # stuck_answers (ls_buffer_size s - length (ltv_pending s @ d)) ds, Some s', Some m) \<and>
    ltv_stream_reset (Some s') = Some s0 \<and> ltv_stream_ready s0 \<and> ltv_pending s0 = []"
proof -
  note pw = payload_word [OF assms(2)]
  let ?len = "of_nat (length val) + 1 :: u32" and ?p = "ltv_pending s @ d"
  have peek: "ltv_peek_size (Some ?p) (Some 0) (Some 0) = (LTV_PARSE_OK, Some ?len, Some (length (ltv_encode_loop ?len)))"
    by (rule peek_wire [OF assms(2,4)])
  have "ltv_total_size ?len (length (ltv_encode_loop ?len)) = length (ltv_wire type val)"
    using pw by (simp add: ltv_total_size_def ltv_wire_def)
  then have big: "ls_buffer_size s < ltv_total_size ?len (length (ltv_encode_loop ?len))" using assms(3) by simp
  obtain s1 where s1: "ltv_stream_feed (Some s) (Some d) (length d) (Some m) = (LTV_PARSE_BUFFER_OVERFLOW, Some s1, Some m)"
    "ltv_stream_inv s1" "ls_buffer_size s1 = ls_buffer_size s" "ls_buffer_size s1 < ls_expected s1" "ls_buffered s1 = length ?p"
    using oversized_feed [OF assms(1) refl assms(5) peek big] by blast
  obtain s' where "ltv_feed_many (d # ds) (Some s) (Some m) =
      (LTV_PARSE_BUFFER_OVERFLOW # stuck_answers (ls_buffer_size s - length ?p) ds, Some s', Some m)" "ltv_stream_inv s'"
    using s1(1) stuck_feeds [OF s1(2,4), of ds m] s1(3,5) by auto
  then show ?thesis
    by (auto simp: ltv_stream_reset_def ltv_stream_ready_def ltv_stream_inv_def ltv_pending_def)
qed

theorem ltv_stream_oversized_stuck_witness:
  "\<exists>s s'. fst (ltv_stream_create (\<lambda>_. 0) 2 \<lparr>malloc_oracle = (\<lambda>_. Some 4096), malloc_calls = 0, live_blocks = 0\<rparr>) = Some s \<and>
     ltv_feed_many [[9], [1], [1]] (Some s) (Some ltv_blank) =
       ([LTV_PARSE_BUFFER_OVERFLOW, LTV_PARSE_NEED_MORE, LTV_PARSE_BUFFER_OVERFLOW], Some s', Some ltv_blank)"
proof -
  let ?s = "\<lparr>ls_buffer = [0, 0], ls_buffer_size = 2, ls_buffered = 0, ls_expected = 0,
    ls_header_size = 0, ls_pending_consume = 0\<rparr>"
  have create: "fst (ltv_stream_create (\<lambda>_. 0) 2 \<lparr>malloc_oracle = (\<lambda>_. Some 4096), malloc_calls = 0,
      live_blocks = 0\<rparr>) = Some ?s"
    by (simp add: ltv_stream_create_def malloc_def upt_rec numeral_2_eq_2)
  have nine: "of_nat (length (replicate 8 (0 :: u8))) + 1 = (9 :: u32)" "ltv_encode_loop 9 = [9]" by (simp_all add: encode_last)
  have w: "length (ltv_wire 7 (replicate 8 0)) = 10" by (simp add: ltv_wire_def nine)
  have "ltv_stream_ready ?s" "ltv_pending ?s = []" by (simp_all add: ltv_stream_ready_def ltv_stream_inv_def ltv_pending_def)
  then show ?thesis
    using ltv_stream_oversized_stuck [of ?s "replicate 8 0" 7 "[9]" "[]" "[[1], [1]]" ltv_blank] create w nine
    by (auto simp: LTV_MAX_PAYLOAD_SIZE_def)
qed

end
