(* ===== verification/Cmeta_Traits.thy ===== *)
theory Cmeta_Traits
  imports Salts_Prelude
begin

text \<open>
  The part of CMeta the containers rest on: type descriptors with their trait tables
  (\<^verbatim>\<open>src/cmeta/include/cmeta/type_traits.h\<close>) and the check that a type offers the traits
  an operation requires (\<open>cmeta_type_require_traits\<close> in \<^verbatim>\<open>cmeta.h\<close>).

  The trait callbacks belong to the user of the library: they are parameters. A value of
  the element type is an abstract \<open>'a\<close>; \<open>copy_construct\<close> may fail,
  \<open>move_construct\<close> relocates, \<open>destroy\<close> ends a value's life. What the containers
  rely on is named in \<open>traits_lawful\<close>.
\<close>

datatype cmeta_status =
    CMETA_OK
  | CMETA_INVALID_ARGUMENT
  | CMETA_TYPE_MISMATCH
  | CMETA_TRAIT_MISSING
  | CMETA_CAPACITY_EXCEEDED
  | CMETA_OUT_OF_MEMORY
  | CMETA_CALLBACK_ERROR

definition CMETA_TRAIT_EQUAL :: u32 where "CMETA_TRAIT_EQUAL = push_bit 0 1"
definition CMETA_TRAIT_HASH :: u32 where "CMETA_TRAIT_HASH = push_bit 1 1"
definition CMETA_TRAIT_COMPARE :: u32 where "CMETA_TRAIT_COMPARE = push_bit 2 1"
definition CMETA_TRAIT_COPY :: u32 where "CMETA_TRAIT_COPY = push_bit 3 1"
definition CMETA_TRAIT_MOVE :: u32 where "CMETA_TRAIT_MOVE = push_bit 4 1"
definition CMETA_TRAIT_DESTROY :: u32 where "CMETA_TRAIT_DESTROY = push_bit 5 1"
definition CMETA_TRAIT_TRIVIAL_COPY :: u32 where "CMETA_TRAIT_TRIVIAL_COPY = push_bit 6 1"
definition CMETA_TRAIT_TRIVIAL_DESTROY :: u32 where "CMETA_TRAIT_TRIVIAL_DESTROY = push_bit 7 1"

definition CMETA_TRAIT_MASK :: u32 where
  "CMETA_TRAIT_MASK =
     CMETA_TRAIT_EQUAL OR CMETA_TRAIT_HASH OR CMETA_TRAIT_COMPARE OR CMETA_TRAIT_COPY OR
     CMETA_TRAIT_MOVE OR CMETA_TRAIT_DESTROY OR CMETA_TRAIT_TRIVIAL_COPY OR
     CMETA_TRAIT_TRIVIAL_DESTROY"

lemmas trait_flag_defs =
  CMETA_TRAIT_EQUAL_def CMETA_TRAIT_HASH_def CMETA_TRAIT_COMPARE_def CMETA_TRAIT_COPY_def
  CMETA_TRAIT_MOVE_def CMETA_TRAIT_DESTROY_def CMETA_TRAIT_TRIVIAL_COPY_def
  CMETA_TRAIT_TRIVIAL_DESTROY_def CMETA_TRAIT_MASK_def

text \<open>A function pointer is \<open>None\<close> (NULL) or the function. \<open>destroy\<close> has no result. Whether a copy
  fails is a function of the value copied; it may fail for some values and not for others.\<close>

record 'a cmeta_type_traits =
  tr_flags :: u32
  tr_equal :: "('a \<Rightarrow> 'a \<Rightarrow> bool) ptr"
  tr_hash :: "('a \<Rightarrow> u64) ptr"
  tr_compare :: "('a \<Rightarrow> 'a \<Rightarrow> int) ptr"
  tr_copy_construct :: "('a \<Rightarrow> 'a option) ptr"
  tr_move_construct :: "('a \<Rightarrow> 'a) ptr"
  tr_destroy :: "unit ptr"

record 'a cmeta_type_desc =
  td_size :: size_t
  td_align :: size_t
  td_traits :: "'a cmeta_type_traits ptr"

definition cmeta_type_require_traits :: "'a cmeta_type_desc ptr \<Rightarrow> u32 \<Rightarrow> cmeta_status" where
  "cmeta_type_require_traits type required =
     (if type = NULL \<or> required AND CMETA_TRAIT_MASK \<noteq> required then CMETA_INVALID_ARGUMENT
      else if required = 0 then CMETA_OK
      else
        case td_traits (the type) of
          None \<Rightarrow> CMETA_TRAIT_MISSING
        | Some traits \<Rightarrow>
            if tr_flags traits AND required \<noteq> required then CMETA_TRAIT_MISSING
            else if required AND CMETA_TRAIT_EQUAL \<noteq> 0 \<and> tr_equal traits = NULL
              then CMETA_TRAIT_MISSING
            else if required AND CMETA_TRAIT_HASH \<noteq> 0 \<and> tr_hash traits = NULL
              then CMETA_TRAIT_MISSING
            else if required AND CMETA_TRAIT_COMPARE \<noteq> 0 \<and> tr_compare traits = NULL
              then CMETA_TRAIT_MISSING
            else if required AND CMETA_TRAIT_COPY \<noteq> 0 \<and> tr_copy_construct traits = NULL
              then CMETA_TRAIT_MISSING
            else if required AND CMETA_TRAIT_MOVE \<noteq> 0 \<and> tr_move_construct traits = NULL
              then CMETA_TRAIT_MISSING
            else if required AND CMETA_TRAIT_DESTROY \<noteq> 0 \<and> tr_destroy traits = NULL
              then CMETA_TRAIT_MISSING
            else CMETA_OK)"

text \<open>
  What the user's callbacks promise: a copy that succeeds equals its source, and a moved
  value is the value that was there.
\<close>

definition traits_lawful :: "'a cmeta_type_desc \<Rightarrow> bool" where
  "traits_lawful type \<longleftrightarrow>
     (\<forall>traits. td_traits type = Some traits \<longrightarrow>
        (\<forall>f x y. tr_copy_construct traits = Some f \<longrightarrow> f x = Some y \<longrightarrow> y = x) \<and>
        (\<forall>f x. tr_move_construct traits = Some f \<longrightarrow> f x = x))"

text \<open>
  Meeting a larger requirement means meeting each part of it: what the containers use when
  they check all their traits once, at initialisation.
\<close>

lemma flag_part: "(a::u32) AND (r OR q) = r OR q \<Longrightarrow> a AND r = r"
proof (rule bit_word_eqI)
  fix n
  assume "a AND (r OR q) = r OR q"
  then have "bit (a AND (r OR q)) n = bit (r OR q) n" by simp
  then show "bit (a AND r) n = bit r n" by (auto simp: bit_simps)
qed

lemma require_traits_OK_iff:
  "r \<noteq> 0 \<Longrightarrow> cmeta_type_require_traits (Some t) r = CMETA_OK \<longleftrightarrow>
     r AND CMETA_TRAIT_MASK = r \<and>
     (\<exists>traits. td_traits t = Some traits \<and> tr_flags traits AND r = r \<and>
        (r AND CMETA_TRAIT_EQUAL \<noteq> 0 \<longrightarrow> tr_equal traits \<noteq> NULL) \<and>
        (r AND CMETA_TRAIT_HASH \<noteq> 0 \<longrightarrow> tr_hash traits \<noteq> NULL) \<and>
        (r AND CMETA_TRAIT_COMPARE \<noteq> 0 \<longrightarrow> tr_compare traits \<noteq> NULL) \<and>
        (r AND CMETA_TRAIT_COPY \<noteq> 0 \<longrightarrow> tr_copy_construct traits \<noteq> NULL) \<and>
        (r AND CMETA_TRAIT_MOVE \<noteq> 0 \<longrightarrow> tr_move_construct traits \<noteq> NULL) \<and>
        (r AND CMETA_TRAIT_DESTROY \<noteq> 0 \<longrightarrow> tr_destroy traits \<noteq> NULL))"
  by (cases "td_traits t") (simp_all add: cmeta_type_require_traits_def)

lemma flag_meets_part: "(r::u32) AND f \<noteq> 0 \<Longrightarrow> (r OR q) AND f \<noteq> 0"
  by (metis bit.conj_disj_distrib2 or_eq_0_iff)

lemma require_traits_part:
  assumes "cmeta_type_require_traits (Some t) (r OR q) = CMETA_OK" and "r \<noteq> 0"
  shows "cmeta_type_require_traits (Some t) r = CMETA_OK"
proof -
  have nz: "r OR q \<noteq> 0" using assms(2) by (simp add: or_eq_0_iff)
  have mask: "(r OR q) AND CMETA_TRAIT_MASK = r OR q \<Longrightarrow> r AND CMETA_TRAIT_MASK = r"
    using flag_part [of CMETA_TRAIT_MASK r q] by (simp add: and.commute)
  from assms(1) nz obtain traits where
    t: "(r OR q) AND CMETA_TRAIT_MASK = r OR q" "td_traits t = Some traits"
      "tr_flags traits AND (r OR q) = r OR q"
      "(r OR q) AND CMETA_TRAIT_EQUAL \<noteq> 0 \<longrightarrow> tr_equal traits \<noteq> NULL"
      "(r OR q) AND CMETA_TRAIT_HASH \<noteq> 0 \<longrightarrow> tr_hash traits \<noteq> NULL"
      "(r OR q) AND CMETA_TRAIT_COMPARE \<noteq> 0 \<longrightarrow> tr_compare traits \<noteq> NULL"
      "(r OR q) AND CMETA_TRAIT_COPY \<noteq> 0 \<longrightarrow> tr_copy_construct traits \<noteq> NULL"
      "(r OR q) AND CMETA_TRAIT_MOVE \<noteq> 0 \<longrightarrow> tr_move_construct traits \<noteq> NULL"
      "(r OR q) AND CMETA_TRAIT_DESTROY \<noteq> 0 \<longrightarrow> tr_destroy traits \<noteq> NULL"
    by (auto simp: require_traits_OK_iff)
  then show ?thesis
    unfolding require_traits_OK_iff [OF assms(2)]
    by (intro conjI exI [of _ traits] impI mask flag_part [OF t(3)])
      (auto dest!: flag_meets_part [where q = q])
qed

lemma require_traits_Some: "cmeta_type_require_traits type r = CMETA_OK \<Longrightarrow> r \<noteq> 0 \<Longrightarrow>
    \<exists>t traits. type = Some t \<and> td_traits t = Some traits"
  by (auto simp: cmeta_type_require_traits_def split: if_splits option.splits)

section \<open>Comparison\<close>

text \<open>What the user's \<open>compare\<close> callback promises: a total preorder by its sign.\<close>

definition comparator_ok :: "('a \<Rightarrow> 'a \<Rightarrow> int) \<Rightarrow> bool" where
  "comparator_ok cmp \<longleftrightarrow>
     (\<forall>x y. cmp x y < 0 \<longleftrightarrow> cmp y x > 0) \<and>
     (\<forall>x y z. cmp x y \<le> 0 \<longrightarrow> cmp y z \<le> 0 \<longrightarrow> cmp x z \<le> 0)"

section \<open>The descriptor of \<^verbatim>\<open>bool\<close>\<close>

definition cmeta_traits_bool :: "bool cmeta_type_traits" where
  "cmeta_traits_bool = \<lparr>tr_flags = CMETA_TRAIT_MASK, tr_equal = Some (=), tr_hash = Some of_bool,
     tr_compare = Some (\<lambda>l r. if l < r then -1 else of_bool (r < l)), tr_copy_construct = Some Some,
     tr_move_construct = Some (\<lambda>x. x), tr_destroy = Some ()\<rparr>"

definition cmeta_type_bool :: "bool cmeta_type_desc" where
  "cmeta_type_bool = \<lparr>td_size = 1, td_align = 1, td_traits = Some cmeta_traits_bool\<rparr>"

end
