(* ===== verification/Cstl_Sequence.thy ===== *)
theory Cstl_Sequence
  imports Cmeta_Traits
begin

text \<open>
  What the CSTL sequence containers share (\<^verbatim>\<open>src/cstl/src/sequence_internal.h\<close> and
  \<^verbatim>\<open>status.h\<close>): layout arithmetic with overflow checks, aligned allocation, and the
  copy, move and destroy of one element, typed or raw.

  A slot is \<open>'a option\<close>: \<open>Some x\<close> holds the value \<open>x\<close>, \<open>None\<close> is storage
  without a live value. A pointer to a slot is the slot behind a \<open>ptr\<close>. Raw elements
  (\<open>type = NULL\<close>) are copied bitwise, so a raw move leaves its source as it was.
\<close>

datatype stl_status =
    STL_OK
  | STL_INVALID_ARGUMENT
  | STL_OUT_OF_MEMORY
  | STL_CAPACITY_EXCEEDED
  | STL_EMPTY
  | STL_NOT_FOUND
  | STL_TYPE_MISMATCH
  | STL_TRAIT_MISSING

section \<open>Layout arithmetic\<close>

definition sequence_alignment_valid :: "size_t \<Rightarrow> bool" where
  "sequence_alignment_valid alignment \<longleftrightarrow> alignment \<noteq> 0 \<and> alignment AND (alignment - 1) = 0"

text \<open>\<open>x & ~padding\<close> on \<open>size_t\<close>.\<close>

definition size_and_not :: "size_t \<Rightarrow> size_t \<Rightarrow> size_t" where
  "size_and_not x padding = unat ((of_nat x :: u64) AND NOT (of_nat padding))"

definition sequence_stride ::
  "size_t \<Rightarrow> size_t \<Rightarrow> size_t ptr \<Rightarrow> stl_status \<times> size_t ptr" where
  "sequence_stride elem_size elem_align out_stride =
     (if elem_size = 0 \<or> \<not> sequence_alignment_valid elem_align \<or> out_stride = NULL
      then (STL_INVALID_ARGUMENT, out_stride)
      else
        let padding = elem_align - 1 in
        if SIZE_MAX - padding < elem_size then (STL_CAPACITY_EXCEEDED, out_stride)
        else (STL_OK, Some (size_and_not (elem_size + padding) padding)))"

definition sequence_bytes ::
  "size_t \<Rightarrow> size_t \<Rightarrow> size_t ptr \<Rightarrow> stl_status \<times> size_t ptr" where
  "sequence_bytes count stride out_bytes =
     (if out_bytes = NULL \<or> (count \<noteq> 0 \<and> SIZE_MAX div count < stride)
      then (STL_CAPACITY_EXCEEDED, out_bytes)
      else (STL_OK, Some (count * stride)))"

section \<open>Allocation\<close>

definition sizeof_pointer :: size_t where
  "sizeof_pointer = 8"

text \<open>The out-parameter is the cell that receives the aligned address (or NULL).\<close>

definition sequence_allocate ::
  "size_t \<Rightarrow> size_t \<Rightarrow> size_t \<Rightarrow> size_t ptr ptr \<Rightarrow> env \<Rightarrow> stl_status \<times> size_t ptr ptr \<times> env" where
  "sequence_allocate count stride alignment out_data s =
     (if out_data = NULL \<or> \<not> sequence_alignment_valid alignment
      then (STL_INVALID_ARGUMENT, out_data, s)
      else
        case sequence_bytes count stride (Some 0) of (st, bytes_cell) \<Rightarrow>
        if st \<noteq> STL_OK then (STL_CAPACITY_EXCEEDED, Some NULL, s)
        else
          let bytes = the bytes_cell in
          if bytes = 0 then (STL_OK, Some NULL, s)
          else if SIZE_MAX - sizeof_pointer < alignment - 1
            then (STL_CAPACITY_EXCEEDED, Some NULL, s)
          else
            let overhead = sizeof_pointer + alignment - 1 in
            if SIZE_MAX - overhead < bytes then (STL_CAPACITY_EXCEEDED, Some NULL, s)
            else
              case malloc s of
                (None, s1) \<Rightarrow> (STL_OUT_OF_MEMORY, Some NULL, s1)
              | (Some raw, s1) \<Rightarrow>
                  let address = size_add (unat raw) sizeof_pointer in
                  if SIZE_MAX - (alignment - 1) < address
                  then (STL_CAPACITY_EXCEEDED, Some NULL, free_block s1)
                  else
                    let aligned = size_and_not (address + alignment - 1) (alignment - 1) in
                    (STL_OK, Some (Some aligned), s1))"

definition sequence_deallocate :: "'b ptr \<Rightarrow> env \<Rightarrow> env" where
  "sequence_deallocate data s = (if data = NULL then s else free_block s)"

section \<open>Elements\<close>

definition sequence_require_type :: "'a cmeta_type_desc ptr \<Rightarrow> bool \<Rightarrow> stl_status" where
  "sequence_require_type type require_compare =
     (case type of
        None \<Rightarrow> STL_INVALID_ARGUMENT
      | Some t \<Rightarrow>
          if td_size t = 0 \<or> \<not> sequence_alignment_valid (td_align t) then STL_INVALID_ARGUMENT
          else
            let required = CMETA_TRAIT_COPY OR CMETA_TRAIT_MOVE OR CMETA_TRAIT_DESTROY;
                required = (if require_compare then required OR CMETA_TRAIT_COMPARE else required)
            in if cmeta_type_require_traits type required = CMETA_OK then STL_OK
               else STL_TRAIT_MISSING)"

definition sequence_copy ::
  "'a cmeta_type_desc ptr \<Rightarrow> 'a option ptr \<Rightarrow> 'a option ptr \<Rightarrow> stl_status \<times> 'a option ptr" where
  "sequence_copy type destination source =
     (if destination = NULL \<or> source = NULL then (STL_INVALID_ARGUMENT, destination)
      else if type = NULL then (STL_OK, source)
      else if cmeta_type_require_traits type CMETA_TRAIT_COPY \<noteq> CMETA_OK
        then (STL_TRAIT_MISSING, destination)
      else
        case Option.bind (the source) (the (tr_copy_construct (the (td_traits (the type))))) of
          None \<Rightarrow> (STL_OUT_OF_MEMORY, destination)
        | Some y \<Rightarrow> (STL_OK, Some (Some y)))"

definition sequence_move_destroy ::
  "'a cmeta_type_desc ptr \<Rightarrow> 'a option ptr \<Rightarrow> 'a option ptr \<Rightarrow>
   stl_status \<times> 'a option ptr \<times> 'a option ptr" where
  "sequence_move_destroy type destination source =
     (if destination = NULL \<or> source = NULL then (STL_INVALID_ARGUMENT, destination, source)
      else if type = NULL then (STL_OK, source, source)
      else if cmeta_type_require_traits type (CMETA_TRAIT_MOVE OR CMETA_TRAIT_DESTROY) \<noteq> CMETA_OK
        then (STL_TRAIT_MISSING, destination, source)
      else
        (STL_OK,
         Some (map_option (the (tr_move_construct (the (td_traits (the type))))) (the source)),
         Some None))"

definition sequence_destroy_value ::
  "'a cmeta_type_desc ptr \<Rightarrow> 'a option ptr \<Rightarrow> stl_status \<times> 'a option ptr" where
  "sequence_destroy_value type val =
     (if val = NULL \<or> type = NULL then (STL_OK, val)
      else if cmeta_type_require_traits type CMETA_TRAIT_DESTROY \<noteq> CMETA_OK
        then (STL_TRAIT_MISSING, val)
      else (STL_OK, Some None))"

section \<open>Powers of two\<close>

lemma alignment_valid_power: "sequence_alignment_valid a \<Longrightarrow> \<exists>k. a = 2 ^ k"
proof (induction a rule: less_induct)
  case (less a)
  have a: "a \<noteq> 0" "a AND (a - 1) = 0"
    using less.prems by (auto simp: sequence_alignment_valid_def)
  show ?case
  proof (cases "even a")
    case False
    then obtain m where m: "a = 2 * m + 1" by (auto elim: oddE)
    have "(2 * m + 1) AND (2 * m) = 2 * m"
      by (rule bit_eqI) (auto simp: bit_simps bit_0 bit_Suc gr0_conv_Suc neq0_conv)
    then have "m = 0" using a(2) m by simp
    then show ?thesis using m by (intro exI [of _ 0]) simp
  next
    case True
    then obtain m where m: "a = 2 * m" "m \<noteq> 0" using a(1) by (auto elim: evenE)
    then obtain k where k: "m = Suc k" by (cases m) auto
    have "(2 * Suc k) AND (2 * k + 1) = 2 * (Suc k AND k)"
      by (subst and_nat_rec) simp
    then have "m AND (m - 1) = 0"
      using a(2) m k by simp
    then have "sequence_alignment_valid m" using m by (simp add: sequence_alignment_valid_def)
    then obtain j where "m = 2 ^ j" using less.IH [of m] m a(1) by auto
    then show ?thesis using m by (intro exI [of _ "Suc j"]) simp
  qed
qed

lemma and_exp_minus_one: "(2 ^ k) AND (2 ^ k - Suc 0) = (0::nat)"
proof -
  have "(2 ^ k) AND mask k = (0::nat)"
    by (rule bit_eqI) (auto simp: bit_simps)
  then show ?thesis by (simp add: mask_eq_exp_minus_1)
qed

lemma size_and_not_power:
  assumes "x \<le> SIZE_MAX" and "2 ^ k \<le> SIZE_MAX"
  shows "size_and_not x (2 ^ k - 1) = x - x mod 2 ^ k"
proof -
  have k: "k < 64"
  proof (rule ccontr)
    assume "\<not> k < 64"
    then have "(2::nat) ^ 64 \<le> 2 ^ k" by (intro power_increasing) auto
    with assms(2) show False by (simp add: SIZE_MAX_def)
  qed
  have m: "(of_nat (2 ^ k - 1) :: u64) = mask k"
    by (simp add: mask_eq_exp_minus_1 of_nat_diff)
  have x: "unat (of_nat x :: u64) = x"
    using assms(1) by (intro unat_of_nat_small) (simp add: SIZE_MAX_def)
  have "((of_nat x :: u64) AND NOT (mask k)) + (of_nat x AND mask k) =
      (of_nat x AND NOT (mask k)) OR (of_nat x AND mask k)"
    by (rule disjunctive_add) (auto simp: bit_simps)
  also have "\<dots> = of_nat x"
    by (rule bit_word_eqI) (auto simp: bit_simps)
  finally have "(of_nat x :: u64) = ((of_nat x) AND NOT (mask k)) + ((of_nat x) AND mask k)"
    by simp
  then have "(of_nat x :: u64) AND NOT (mask k) = of_nat x - take_bit k (of_nat x)"
    by (metis add_diff_cancel_right' take_bit_eq_mask)
  moreover have "unat (of_nat x - take_bit k (of_nat x) :: u64) = x - x mod 2 ^ k"
  proof -
    have t: "unat (take_bit k (of_nat x :: u64)) = x mod 2 ^ k"
      unfolding unsigned_take_bit_eq x by (rule take_bit_eq_mod)
    moreover have "take_bit k (of_nat x :: u64) \<le> of_nat x"
      using t x by (simp add: word_le_nat_alt)
    ultimately show ?thesis by (simp add: unat_sub x)
  qed
  ultimately show ?thesis unfolding size_and_not_def m by simp
qed

lemma size_and_not_align:
  assumes "sequence_alignment_valid a" and "a \<le> SIZE_MAX" and "x \<le> SIZE_MAX"
  shows "size_and_not x (a - 1) = x - x mod a"
proof -
  obtain k where "a = 2 ^ k" using alignment_valid_power [OF assms(1)] by blast
  then show ?thesis using size_and_not_power [of x k] assms by simp
qed

lemma round_up:
  fixes a x :: nat
  assumes "a \<noteq> 0"
  shows "a dvd (x + a - 1) - (x + a - 1) mod a"
    and "x \<le> (x + a - 1) - (x + a - 1) mod a"
    and "(x + a - 1) - (x + a - 1) mod a < x + a"
proof -
  show "a dvd (x + a - 1) - (x + a - 1) mod a" by (rule dvd_minus_mod)
  have "(x + a - 1) mod a < a" using assms by simp
  then show "x \<le> (x + a - 1) - (x + a - 1) mod a" using assms by linarith
  show "(x + a - 1) - (x + a - 1) mod a < x + a" using assms by linarith
qed

lemma alignment_pos: "sequence_alignment_valid a \<Longrightarrow> 0 < a"
  by (simp add: sequence_alignment_valid_def)

section \<open>Properties of the layout\<close>

text \<open>A stride that \<open>sequence_stride\<close> accepts is a multiple of the alignment, holds
  one element and wastes less than one alignment unit, so slot \<open>i\<close> at
  \<open>i * stride\<close> is aligned and slots do not overlap; it fails only for a zero size, an
  alignment that is no power of two, or a size whose rounding would leave \<open>size_t\<close>.\<close>

theorem sequence_stride_layout:
  assumes "elem_size \<le> SIZE_MAX" and "elem_align \<le> SIZE_MAX"
  shows "case sequence_stride elem_size elem_align (Some c) of
      (STL_OK, r) \<Rightarrow> (\<exists>stride. r = Some stride \<and> elem_align dvd stride \<and> elem_size \<le> stride \<and>
          stride < elem_size + elem_align \<and> stride \<le> SIZE_MAX) \<and> elem_size \<noteq> 0 \<and>
          (\<exists>k. elem_align = 2 ^ k)
    | (STL_INVALID_ARGUMENT, r) \<Rightarrow> r = Some c \<and>
          (elem_size = 0 \<or> \<not> (\<exists>k. elem_align = 2 ^ k))
    | (STL_CAPACITY_EXCEEDED, r) \<Rightarrow> r = Some c \<and> SIZE_MAX < elem_size + elem_align - 1
    | _ \<Rightarrow> False"
proof -
  have pow: "sequence_alignment_valid elem_align \<longleftrightarrow> (\<exists>k. elem_align = 2 ^ k)"
  proof
    show "\<exists>k. elem_align = 2 ^ k" if "sequence_alignment_valid elem_align"
      using alignment_valid_power [OF that] .
    show "sequence_alignment_valid elem_align" if "\<exists>k. elem_align = 2 ^ k"
      using that by (auto simp: sequence_alignment_valid_def and_exp_minus_one)
  qed
  consider (invalid) "elem_size = 0 \<or> \<not> sequence_alignment_valid elem_align"
    | (large) "elem_size \<noteq> 0" "sequence_alignment_valid elem_align"
        "SIZE_MAX - (elem_align - 1) < elem_size"
    | (fits) "elem_size \<noteq> 0" "sequence_alignment_valid elem_align"
        "elem_size \<le> SIZE_MAX - (elem_align - 1)"
    by linarith
  then show ?thesis
  proof cases
    case invalid
    then show ?thesis using pow by (auto simp: sequence_stride_def)
  next
    case large
    then show ?thesis using alignment_pos [of elem_align]
      by (simp add: sequence_stride_def Let_def)
  next
    case fits
    then have a: "0 < elem_align" "elem_size + elem_align - 1 \<le> SIZE_MAX"
      using assms by (auto dest: alignment_pos)
    then have "size_and_not (elem_size + elem_align - 1) (elem_align - 1) =
        (elem_size + elem_align - 1) - (elem_size + elem_align - 1) mod elem_align"
      using assms(2) fits by (intro size_and_not_align) auto
    then show ?thesis
      using a fits pow round_up [of elem_align elem_size] by (auto simp: sequence_stride_def)
  qed
qed

text \<open>Ten-byte elements with alignment eight take slots of sixteen bytes.\<close>

theorem sequence_stride_layout_witness:
  "sequence_stride 10 8 (Some 0) = (STL_OK, Some 16) \<and> (8::nat) dvd 16 \<and> (16::nat) \<le> SIZE_MAX"
proof -
  have "sequence_alignment_valid 8" by (simp add: sequence_alignment_valid_def)
  then have *: "sequence_stride 10 8 (Some 0) = (STL_OK, Some 16)"
    using size_and_not_align [of 8 17] by (simp add: sequence_stride_def SIZE_MAX_def)
  have "10 \<le> SIZE_MAX" "8 \<le> SIZE_MAX" by (simp_all add: SIZE_MAX_def)
  from sequence_stride_layout [OF this, of 0] * show ?thesis by simp
qed

text \<open>Allocation is sound under the C guarantee that \<open>malloc\<close> returned a block lying
  inside the address space: on success the returned address is aligned, leaves room for the
  block pointer below it, and the elements end inside the block that was requested. A failure,
  of whatever kind, leaves no block behind; an empty request succeeds with NULL and no
  block.\<close>

theorem sequence_allocate_sound:
  assumes "alignment \<le> SIZE_MAX"
    and "\<And>raw. malloc_oracle s (malloc_calls s) = Some raw \<Longrightarrow>
           unat raw + (count * stride + (sizeof_pointer + alignment - 1)) \<le> SIZE_MAX"
    and "sequence_allocate count stride alignment (Some c) s = (st, r, s')"
  shows "(st = STL_OK \<longrightarrow>
      (count * stride = 0 \<and> r = Some NULL \<and> live_blocks s' = live_blocks s) \<or>
      (\<exists>raw addr. malloc_oracle s (malloc_calls s) = Some raw \<and> r = Some (Some addr) \<and>
         alignment dvd addr \<and> unat raw + sizeof_pointer \<le> addr \<and>
         addr + count * stride \<le>
           unat raw + (count * stride + (sizeof_pointer + alignment - 1)) \<and>
         live_blocks s' = live_blocks s + 1)) \<and>
     (st \<noteq> STL_OK \<longrightarrow> live_blocks s' = live_blocks s \<and>
        st \<in> {STL_INVALID_ARGUMENT, STL_CAPACITY_EXCEEDED, STL_OUT_OF_MEMORY})"
proof (cases "st = STL_OK \<and> count * stride \<noteq> 0")
  case False
  then show ?thesis
    using assms(3)
    by (auto simp: sequence_allocate_def sequence_bytes_def Let_def malloc_def
        split: if_splits option.splits prod.splits)
next
  case True
  then obtain raw where raw: "malloc_oracle s (malloc_calls s) = Some raw"
    and al: "sequence_alignment_valid alignment"
    and r: "r = Some (Some (size_and_not (size_add (unat raw) sizeof_pointer + alignment - 1)
                (alignment - 1)))"
    and live: "live_blocks s' = live_blocks s + 1"
    using assms(3)
    by (auto simp: sequence_allocate_def sequence_bytes_def Let_def malloc_def
        split: if_splits option.splits prod.splits)
  have bound: "unat raw + sizeof_pointer + alignment - 1 \<le> SIZE_MAX" "0 < alignment"
    using assms(2) [OF raw] alignment_pos [OF al] by auto
  define x where "x = unat raw + sizeof_pointer"
  have "size_add (unat raw) sizeof_pointer = x" using bound by (simp add: x_def)
  moreover have "size_and_not (x + alignment - 1) (alignment - 1) =
      (x + alignment - 1) - (x + alignment - 1) mod alignment"
    using bound assms(1) by (intro size_and_not_align al) (auto simp: x_def)
  ultimately show ?thesis
    using True r raw live round_up [of alignment x] bound by (auto simp: x_def)
qed

text \<open>Four ten-byte elements at sixteen-byte stride from a block at address 4099.\<close>

definition one_block_env :: env where
  "one_block_env = \<lparr>malloc_oracle = (\<lambda>n. if n = 0 then Some 4099 else None),
                    malloc_calls = 0, live_blocks = 0\<rparr>"

theorem sequence_allocate_sound_witness:
  "\<exists>s'. sequence_allocate 4 16 16 (Some NULL) one_block_env = (STL_OK, Some (Some 4112), s') \<and>
     16 dvd (4112::nat) \<and> 4112 + 4 * 16 \<le> unat (4099::u64) + (4 * 16 + (sizeof_pointer + 16 - 1))"
proof -
  obtain s' where s': "sequence_allocate 4 16 16 (Some NULL) one_block_env =
      (STL_OK, Some (Some 4112), s')"
    using size_and_not_align [of 16 4122]
    by (simp add: sequence_allocate_def sequence_bytes_def SIZE_MAX_def one_block_env_def
        malloc_def sizeof_pointer_def sequence_alignment_valid_def size_add_def)
  have "\<And>raw. malloc_oracle one_block_env (malloc_calls one_block_env) = Some raw \<Longrightarrow>
      unat raw + (4 * 16 + (sizeof_pointer + 16 - 1)) \<le> SIZE_MAX"
    by (auto simp: one_block_env_def sizeof_pointer_def SIZE_MAX_def)
  from sequence_allocate_sound [OF _ this s'] show ?thesis
    using s' by (auto simp: SIZE_MAX_def one_block_env_def)
qed

end
