(* ===== verification/Cstl_Storage.thy ===== *)
theory Cstl_Storage
  imports Cstl_Sequence
begin

text \<open>
  The storage header that \<open>vec_t\<close>, \<open>deque_t\<close> and \<open>heap_t\<close> have in common, and
  the static helpers the three files repeat word for word: growth of the capacity, the
  prepared copy that makes insertion all-or-nothing, relocation into a larger block,
  initialisation. The deque and the heap extend the record with their own fields, so each
  lemma here is proved once for all of them.

  \<open>data\<close> is NULL or a block of \<open>capacity\<close> slots. Environments are related by
  \<open>env_delta k\<close>: the oracle is unchanged and the number of live blocks changed by
  \<open>k\<close>.
\<close>

record 'a storage =
  sq_descriptor :: "nat ptr"
  sq_data :: "'a option list ptr"
  sq_size :: size_t
  sq_capacity :: size_t
  sq_elem_size :: size_t
  sq_elem_stride :: size_t
  sq_elem_align :: size_t
  sq_element_limit :: size_t
  sq_element_type :: "'a cmeta_type_desc ptr"
  sq_generation :: u64
  sq_initialized :: bool

section \<open>Helpers\<close>

text \<open>A block obtained for \<open>n\<close> slots: storage without live values.\<close>

definition fresh_block :: "size_t \<Rightarrow> size_t ptr \<Rightarrow> 'a option list ptr" where
  "fresh_block n cell = map_option (\<lambda>_. replicate n None) cell"

text \<open>
  The doubling loop. C would spin on capacity zero; the callers start it at zero only when
  the limit, and so the minimum, is zero too, and then the loop is not entered.
\<close>

function next_capacity_loop :: "size_t \<Rightarrow> size_t \<Rightarrow> size_t \<Rightarrow> size_t" where
  "next_capacity_loop limit minimum capacity =
     (if capacity < minimum \<and> capacity \<noteq> 0 then
        if limit - capacity < capacity then limit
        else next_capacity_loop limit minimum (capacity * 2)
      else capacity)"
  by auto
termination
  by (relation "measure (\<lambda>(limit, minimum, capacity). minimum - capacity)") auto

declare next_capacity_loop.simps [simp del]

definition seq_next_capacity ::
  "size_t \<Rightarrow> ('a, 'z) storage_scheme \<Rightarrow> size_t \<Rightarrow> size_t \<Rightarrow> stl_status \<times> size_t" where
  "seq_next_capacity min_capacity q minimum out_capacity =
     (if sq_element_limit q < minimum then (STL_CAPACITY_EXCEEDED, out_capacity)
      else
        let capacity = (if sq_capacity q \<noteq> 0 then sq_capacity q else min_capacity);
            capacity = (if sq_element_limit q < capacity then sq_element_limit q else capacity)
        in (STL_OK, next_capacity_loop (sq_element_limit q) minimum capacity))"

text \<open>
  The relocation loop: slot \<open>phys index\<close> of the old block moves to slot \<open>index\<close> of
  the new one.
\<close>

function relocate_loop ::
  "'a cmeta_type_desc ptr \<Rightarrow> (size_t \<Rightarrow> size_t) \<Rightarrow> size_t \<Rightarrow> size_t \<Rightarrow>
   'a option list \<Rightarrow> 'a option list \<Rightarrow> stl_status \<times> 'a option list \<times> 'a option list" where
  "relocate_loop type phys n index dst src =
     (if index < n then
        case sequence_move_destroy type (Some (dst ! index)) (Some (src ! phys index)) of
          (st, d, s) \<Rightarrow>
            let dst' = dst[index := the d]; src' = src[phys index := the s] in
            if st \<noteq> STL_OK then (st, dst', src')
            else relocate_loop type phys n (index + 1) dst' src'
      else (STL_OK, dst, src))"
  by auto
termination
  by (relation "measure (\<lambda>(type, phys, n, index, dst, src). n - index)") auto

declare relocate_loop.simps [simp del]

definition seq_prepare_copy ::
  "('a, 'z) storage_scheme \<Rightarrow> 'a option ptr \<Rightarrow> env \<Rightarrow> stl_status \<times> 'a option ptr \<times> env" where
  "seq_prepare_copy q elem s =
     (if elem = NULL then (STL_INVALID_ARGUMENT, NULL, s)
      else
        case sequence_allocate 1 (sq_elem_stride q) (sq_elem_align q) (Some NULL) s of
          (st, cell, s1) \<Rightarrow>
            if st \<noteq> STL_OK then (st, NULL, s1)
            else
              case sequence_copy (sq_element_type q) (map_option (\<lambda>_. None) (the cell)) elem of
                (st2, value) \<Rightarrow>
                  if st2 \<noteq> STL_OK then (st2, NULL, sequence_deallocate value s1)
                  else (STL_OK, value, s1))"

definition seq_discard_prepared :: "('a, 'z) storage_scheme \<Rightarrow> 'a option ptr \<Rightarrow> env \<Rightarrow> env" where
  "seq_discard_prepared q value s =
     (if value = NULL then s
      else case sequence_destroy_value (sq_element_type q) value of
        (_, value') \<Rightarrow> sequence_deallocate value' s)"

text \<open>The destroy loop of \<open>clear\<close>: stops at the first failure.\<close>

function destroy_loop ::
  "'a cmeta_type_desc ptr \<Rightarrow> (size_t \<Rightarrow> size_t) \<Rightarrow> size_t \<Rightarrow> size_t \<Rightarrow> 'a option list \<Rightarrow>
   stl_status \<times> 'a option list" where
  "destroy_loop type phys n index data =
     (if index < n then
        case sequence_destroy_value type (Some (data ! phys index)) of
          (st, v) \<Rightarrow>
            if st \<noteq> STL_OK then (st, data[phys index := the v])
            else destroy_loop type phys n (index + 1) (data[phys index := the v])
      else (STL_OK, data))"
  by auto
termination
  by (relation "measure (\<lambda>(type, phys, n, index, data). n - index)") auto

declare destroy_loop.simps [simp del]

text \<open>The element leaves its slot for \<open>out_elem\<close>, or is destroyed when that is NULL.\<close>

definition take_out ::
  "'a cmeta_type_desc ptr \<Rightarrow> 'a option ptr \<Rightarrow> 'a option \<Rightarrow> stl_status \<times> 'a option ptr \<times> 'a option" where
  "take_out type out_elem slot =
     (if out_elem \<noteq> NULL then
        case sequence_move_destroy type out_elem (Some slot) of (st, out, s) \<Rightarrow> (st, out, the s)
      else case sequence_destroy_value type (Some slot) of (st, v) \<Rightarrow> (st, NULL, the v))"

text \<open>The slots behind a data pointer, none behind NULL.\<close>

definition block_slots :: "'a option list ptr \<Rightarrow> 'a option list" where
  "block_slots data = (case data of None \<Rightarrow> [] | Some d \<Rightarrow> d)"

abbreviation slots :: "('a, 'z) storage_scheme \<Rightarrow> 'a option list" where
  "slots q \<equiv> block_slots (sq_data q)"

text \<open>The elements go over to the new block: one \<open>memcpy\<close> for raw bytes, else one by one.\<close>

definition linear_relocate ::
  "('a, 'z) storage_scheme \<Rightarrow> 'a option list \<Rightarrow> stl_status \<times> 'a option list \<times> 'a option list" where
  "linear_relocate q dst =
     (if sq_element_type q = NULL
      then (STL_OK, if sq_size q \<noteq> 0 then put_bytes dst 0 (take (sq_size q) (slots q)) else dst, slots q)
      else relocate_loop (sq_element_type q) id (sq_size q) 0 dst (slots q))"

text \<open>Growth of linear storage (vector and heap): the result, and whether the block changed.\<close>

definition seq_grow_to ::
  "size_t \<Rightarrow> ('a, 'z) storage_scheme \<Rightarrow> size_t \<Rightarrow> env \<Rightarrow>
   stl_status \<times> ('a, 'z) storage_scheme \<times> bool \<times> env" where
  "seq_grow_to min_capacity q minimum s =
     (if minimum \<le> sq_capacity q then (STL_OK, q, False, s)
      else
        case seq_next_capacity min_capacity q minimum 0 of (st, capacity) \<Rightarrow>
        if st \<noteq> STL_OK then (st, q, False, s)
        else
          case sequence_allocate capacity (sq_elem_stride q) (sq_elem_align q) (Some NULL) s of
            (st, cell, s1) \<Rightarrow>
          if st \<noteq> STL_OK then (st, q, False, s1)
          else
            let data = fresh_block capacity (the cell) in
            case linear_relocate q (block_slots data)
            of (st, dst, src) \<Rightarrow>
            if st \<noteq> STL_OK
            then (st, q\<lparr>sq_data := map_option (\<lambda>_. src) (sq_data q)\<rparr>, False,
                  sequence_deallocate data s1)
            else (STL_OK, q\<lparr>sq_data := map_option (\<lambda>_. dst) data, sq_capacity := capacity\<rparr>, True,
                  sequence_deallocate (sq_data q) s1))"

text \<open>A slot of the block is overwritten.\<close>

definition set_slot :: "size_t \<Rightarrow> 'a option \<Rightarrow> ('a, 'z) storage_scheme \<Rightarrow> ('a, 'z) storage_scheme" where
  "set_slot i slot q = q\<lparr>sq_data := map_option (\<lambda>d. d[i := slot]) (sq_data q)\<rparr>"

text \<open>The prepared value moves into slot \<open>i\<close> and its block is freed.\<close>

definition move_in ::
  "size_t \<Rightarrow> 'a option ptr \<Rightarrow> ('a, 'z) storage_scheme \<Rightarrow> env \<Rightarrow>
   stl_status \<times> ('a, 'z) storage_scheme \<times> env" where
  "move_in i prepared q s =
     (case sequence_move_destroy (sq_element_type q) (Some (slots q ! i)) prepared of
        (st, d, p) \<Rightarrow> (st, set_slot i (the d) q, sequence_deallocate p s))"

text \<open>\<open>++generation\<close> on a \<open>uint64_t\<close>.\<close>

definition bump :: "('a, 'z) storage_scheme \<Rightarrow> ('a, 'z) storage_scheme" where
  "bump q = q\<lparr>sq_generation := sq_generation q + 1\<rparr>"

section \<open>Environments\<close>

definition env_delta :: "int \<Rightarrow> env \<Rightarrow> env \<Rightarrow> bool" where
  "env_delta k s s' \<longleftrightarrow> malloc_oracle s' = malloc_oracle s \<and> live_blocks s' = live_blocks s + k"

lemma env_delta_refl [simp]: "env_delta 0 s s"
  by (simp add: env_delta_def)

lemma env_delta_trans: "env_delta j s s1 \<Longrightarrow> env_delta k s1 s2 \<Longrightarrow> env_delta (j + k) s s2"
  by (simp add: env_delta_def)

lemma env_delta_free [simp]: "env_delta k s (free_block s1) \<longleftrightarrow> env_delta (k + 1) s s1"
  by (auto simp: env_delta_def free_block_def)

lemma env_delta_dealloc [simp]:
  "env_delta k s (sequence_deallocate p s1) \<longleftrightarrow> env_delta (if p = NULL then k else k + 1) s s1"
  by (simp add: sequence_deallocate_def)

text \<open>
  An environment in which allocation always succeeds for elements of the given layout, up to
  \<open>limit\<close> of them.
\<close>

definition generous :: "size_t \<Rightarrow> size_t \<Rightarrow> size_t \<Rightarrow> env \<Rightarrow> bool" where
  "generous limit stride align s \<longleftrightarrow>
     (\<forall>n. \<exists>a. malloc_oracle s n = Some a \<and> unat a + sizeof_pointer + align \<le> SIZE_MAX) \<and>
     max 1 limit * stride + sizeof_pointer + align \<le> SIZE_MAX"

lemma generous_env_delta: "env_delta k s s' \<Longrightarrow> generous l st al s \<Longrightarrow> generous l st al s'"
  by (simp add: env_delta_def generous_def)

lemma allocate_cases:
  assumes "sequence_allocate count stride align (Some NULL) s = (st, cell, s')"
    and "sequence_alignment_valid align" and "count \<noteq> 0" and "stride \<noteq> 0"
  shows "(st = STL_OK \<and> (\<exists>a. cell = Some (Some a)) \<and> env_delta 1 s s') \<or>
         (st \<in> {STL_CAPACITY_EXCEEDED, STL_OUT_OF_MEMORY} \<and> cell = Some NULL \<and> env_delta 0 s s')"
  using assms
  by (auto simp: sequence_allocate_def sequence_bytes_def Let_def malloc_def env_delta_def
      free_block_def split: if_splits option.splits prod.splits)

lemma allocate_generous:
  assumes "sequence_allocate count stride align (Some NULL) s = (st, cell, s')"
    and "generous limit stride align s" and "count \<le> max 1 limit"
    and "sequence_alignment_valid align"
  shows "st = STL_OK"
proof -
  have le: "count * stride \<le> max 1 limit * stride" using assms(3) by (rule mult_le_mono1)
  then have room: "count * stride + sizeof_pointer + align \<le> SIZE_MAX"
    using assms(2) unfolding generous_def by linarith
  have "count \<noteq> 0 \<Longrightarrow> stride \<le> SIZE_MAX div count"
    using room by (simp add: less_eq_div_iff_mult_less_eq mult.commute)
  moreover obtain a where a: "malloc_oracle s (malloc_calls s) = Some a"
    "unat a + sizeof_pointer + align \<le> SIZE_MAX"
    using assms(2) by (auto simp: generous_def)
  moreover have "0 < align" using assms(4) by (rule alignment_pos)
  moreover have "\<not> SIZE_MAX - sizeof_pointer < align - 1" using room by linarith
  moreover have "\<not> SIZE_MAX - (sizeof_pointer + align - 1) < count * stride" using room by linarith
  moreover have "\<not> SIZE_MAX - (align - 1) < size_add (unat a) sizeof_pointer" using a by simp
  ultimately show ?thesis
    using assms(1,4)
    by (auto simp: sequence_allocate_def sequence_bytes_def Let_def malloc_def split: if_splits)
qed

section \<open>Elements\<close>

text \<open>
  An element type the containers accept: raw bytes, or a descriptor that passed
  \<open>sequence_require_type\<close> and whose callbacks keep their promises.
\<close>

definition elem_ok :: "'a cmeta_type_desc ptr \<Rightarrow> bool" where
  "elem_ok type \<longleftrightarrow>
     (case type of None \<Rightarrow> True
      | Some t \<Rightarrow> sequence_require_type type False = STL_OK \<and> traits_lawful t)"

definition copy_total :: "'a cmeta_type_desc ptr \<Rightarrow> bool" where
  "copy_total type \<longleftrightarrow>
     (\<forall>t traits f x. type = Some t \<longrightarrow> td_traits t = Some traits \<longrightarrow>
        tr_copy_construct traits = Some f \<longrightarrow> f x \<noteq> None)"

lemma trait_flags_nonzero [simp]:
  "CMETA_TRAIT_COPY \<noteq> 0" "CMETA_TRAIT_MOVE \<noteq> 0" "CMETA_TRAIT_DESTROY \<noteq> 0"
  "CMETA_TRAIT_COMPARE \<noteq> 0"
  by (simp_all add: trait_flag_defs)

lemma require_type_traits:
  assumes "sequence_require_type (Some t) c = STL_OK"
  shows "cmeta_type_require_traits (Some t) CMETA_TRAIT_COPY = CMETA_OK"
    and "cmeta_type_require_traits (Some t) (CMETA_TRAIT_MOVE OR CMETA_TRAIT_DESTROY) = CMETA_OK"
    and "cmeta_type_require_traits (Some t) CMETA_TRAIT_DESTROY = CMETA_OK"
proof -
  let ?all = "CMETA_TRAIT_COPY OR CMETA_TRAIT_MOVE OR CMETA_TRAIT_DESTROY"
  have all: "cmeta_type_require_traits (Some t) ?all = CMETA_OK"
    using assms require_traits_part [of t ?all CMETA_TRAIT_COMPARE]
    by (auto simp: sequence_require_type_def Let_def or_eq_0_iff split: if_splits)
  then show "cmeta_type_require_traits (Some t) CMETA_TRAIT_COPY = CMETA_OK"
    using require_traits_part [of t CMETA_TRAIT_COPY "CMETA_TRAIT_MOVE OR CMETA_TRAIT_DESTROY"]
    by (simp add: or.assoc)
  show move: "cmeta_type_require_traits (Some t) (CMETA_TRAIT_MOVE OR CMETA_TRAIT_DESTROY) = CMETA_OK"
    using all require_traits_part [of t "CMETA_TRAIT_MOVE OR CMETA_TRAIT_DESTROY" CMETA_TRAIT_COPY]
    by (simp add: or_eq_0_iff or.commute or.left_commute)
  show "cmeta_type_require_traits (Some t) CMETA_TRAIT_DESTROY = CMETA_OK"
    using move require_traits_part [of t CMETA_TRAIT_DESTROY CMETA_TRAIT_MOVE]
    by (simp add: or.commute)
qed

lemma traits_present:
  assumes "cmeta_type_require_traits (Some t) f = CMETA_OK" and "f \<noteq> 0"
  obtains traits where "td_traits t = Some traits"
    and "f AND CMETA_TRAIT_COPY \<noteq> 0 \<Longrightarrow> tr_copy_construct traits \<noteq> NULL"
    and "f AND CMETA_TRAIT_MOVE \<noteq> 0 \<Longrightarrow> tr_move_construct traits \<noteq> NULL"
  using assms require_traits_OK_iff [of f t] by blast

text \<open>What is left in a slot whose value has been moved away or destroyed.\<close>

definition vacated :: "'a cmeta_type_desc ptr \<Rightarrow> 'a option \<Rightarrow> 'a option" where
  "vacated type slot = (if type = NULL then slot else None)"

lemma move_ok [simp]:
  assumes "elem_ok type"
  shows "sequence_move_destroy type (Some d) (Some (Some x)) =
     (STL_OK, Some (Some x), Some (vacated type (Some x)))"
proof (cases type)
  case (Some t)
  then have t: "cmeta_type_require_traits (Some t) (CMETA_TRAIT_MOVE OR CMETA_TRAIT_DESTROY) = CMETA_OK"
    "traits_lawful t"
    using assms require_type_traits by (auto simp: elem_ok_def)
  have "(CMETA_TRAIT_MOVE OR CMETA_TRAIT_DESTROY) AND CMETA_TRAIT_MOVE \<noteq> 0"
    "CMETA_TRAIT_MOVE OR CMETA_TRAIT_DESTROY \<noteq> 0"
    by (simp_all add: trait_flag_defs)
  then obtain traits where "td_traits t = Some traits" "tr_move_construct traits \<noteq> NULL"
    using traits_present [OF t(1)] by metis
  then show ?thesis using t Some by (auto simp: sequence_move_destroy_def vacated_def traits_lawful_def)
qed (simp add: sequence_move_destroy_def vacated_def)

lemma destroy_ok [simp]:
  "elem_ok type \<Longrightarrow> sequence_destroy_value type (Some v) = (STL_OK, Some (vacated type v))"
  using require_type_traits(3)
  by (cases type) (auto simp: elem_ok_def sequence_destroy_value_def vacated_def)

lemma copy_cases:
  assumes "elem_ok type" and "sequence_copy type (Some d) (Some (Some x)) = (st, d')"
  shows "(st = STL_OK \<and> d' = Some (Some x)) \<or>
         (st = STL_OUT_OF_MEMORY \<and> d' = Some d \<and> \<not> copy_total type)"
proof (cases type)
  case (Some t)
  then have t: "cmeta_type_require_traits (Some t) CMETA_TRAIT_COPY = CMETA_OK" "traits_lawful t"
    using assms(1) require_type_traits by (auto simp: elem_ok_def)
  obtain traits f where f: "td_traits t = Some traits" "tr_copy_construct traits = Some f"
    using traits_present [OF t(1)] by (metis and.idem not_None_eq trait_flags_nonzero(1))
  show ?thesis
  proof (cases "f x")
    case None
    then have "\<not> copy_total type" using f Some by (auto simp: copy_total_def)
    then show ?thesis using None assms(2) f t Some by (simp add: sequence_copy_def)
  next
    case (Some y)
    then have "y = x" using t(2) f by (auto simp: traits_lawful_def)
    then show ?thesis using Some \<open>type = Some t\<close> assms(2) f t by (simp add: sequence_copy_def)
  qed
qed (use assms in \<open>simp add: sequence_copy_def\<close>)

lemma take_out_ok [simp]:
  "elem_ok type \<Longrightarrow> take_out type out (Some x) =
     (STL_OK, map_option (\<lambda>_. Some x) out, vacated type (Some x))"
  by (cases out) (simp_all add: take_out_def)

section \<open>Loops\<close>

lemma next_capacity_loop_bounds:
  assumes "minimum \<le> limit" and "capacity \<le> limit" and "capacity = 0 \<longrightarrow> minimum = 0"
  shows "minimum \<le> next_capacity_loop limit minimum capacity \<and>
         next_capacity_loop limit minimum capacity \<le> limit \<and>
         capacity \<le> next_capacity_loop limit minimum capacity"
  using assms
proof (induction limit minimum capacity rule: next_capacity_loop.induct)
  case (1 limit minimum capacity)
  show ?case
  proof (cases "capacity < minimum \<and> \<not> limit - capacity < capacity")
    case True
    then have "capacity * 2 \<le> limit" "capacity \<noteq> 0" using 1 by auto
    with True 1 show ?thesis by (auto simp: next_capacity_loop.simps [of limit minimum capacity])
  next
    case False
    with 1 show ?thesis by (auto simp: next_capacity_loop.simps [of limit minimum capacity])
  qed
qed

text \<open>Relocation gathers the first \<open>n\<close> elements in order at the front of the new block.\<close>

lemma relocate_loop_gathers:
  assumes "elem_ok type" and "index \<le> n" and "n \<le> length dst" and "inj_on phys {..<n}"
    and "\<And>i. index \<le> i \<Longrightarrow> i < n \<Longrightarrow> phys i < length src \<and> src ! phys i = Some (f i)"
  shows "\<exists>src'. relocate_loop type phys n index dst src =
     (STL_OK, take index dst @ map (Some \<circ> f) [index..<n] @ drop n dst, src')"
  using assms(2-5)
proof (induction "n - index" arbitrary: index dst src)
  case 0
  then show ?case by (auto simp: relocate_loop.simps [of _ _ _ index])
next
  case (Suc k)
  then have lt: "index < n" by simp
  define dst' where "dst' = dst[index := Some (f index)]"
  define src' where "src' = src[phys index := vacated type (Some (f index))]"
  have step: "relocate_loop type phys n index dst src = relocate_loop type phys n (index + 1) dst' src'"
    using lt Suc.prems(4) [of index] assms(1)
    by (subst relocate_loop.simps) (simp add: dst'_def src'_def)
  have src: "phys i < length src' \<and> src' ! phys i = Some (f i)" if "index + 1 \<le> i" "i < n" for i
  proof -
    have "phys i \<noteq> phys index" using Suc.prems(3) that lt by (auto dest: inj_onD)
    then show ?thesis using Suc.prems(4) [of i] that by (simp add: src'_def)
  qed
  have "\<exists>src''. relocate_loop type phys n (index + 1) dst' src' =
      (STL_OK, take (index + 1) dst' @ map (Some \<circ> f) [index + 1..<n] @ drop n dst', src'')"
    using Suc.hyps(2) Suc.prems lt src
    by (intro Suc.hyps(1)) (auto simp: dst'_def)
  moreover have "take (index + 1) dst' = take index dst @ [Some (f index)]"
    using lt Suc.prems by (simp add: dst'_def take_Suc_conv_app_nth)
  moreover have "drop n dst' = drop n dst" using lt by (simp add: dst'_def)
  ultimately show ?case using step lt by (simp add: upt_conv_Cons)
qed

lemma destroy_loop_OK:
  assumes "elem_ok type"
  shows "\<exists>d. destroy_loop type phys n index data = (STL_OK, d) \<and> length d = length data"
proof (induction "n - index" arbitrary: index data)
  case 0
  then show ?case by (simp add: destroy_loop.simps [of _ _ _ index])
next
  case (Suc k)
  then show ?case
    using Suc.hyps(1) [of "index + 1" "data[phys index := vacated type (data ! phys index)]"]
      assms by (subst destroy_loop.simps) simp
qed

section \<open>Representation\<close>

definition storage_ok :: "('a, 'z) storage_scheme \<Rightarrow> bool" where
  "storage_ok q \<longleftrightarrow>
     sq_initialized q \<and> sq_elem_size q \<noteq> 0 \<and> sq_elem_stride q \<noteq> 0 \<and>
     sequence_alignment_valid (sq_elem_align q) \<and> elem_ok (sq_element_type q) \<and>
     sq_size q \<le> sq_capacity q \<and> sq_capacity q \<le> sq_element_limit q \<and>
     (sq_data q = NULL \<longleftrightarrow> sq_capacity q = 0) \<and> length (slots q) = sq_capacity q"

text \<open>Linear storage holds the list \<open>xs\<close> in its first slots.\<close>

definition linear_rep :: "('a, 'z) storage_scheme \<Rightarrow> 'a list \<Rightarrow> bool" where
  "linear_rep q xs \<longleftrightarrow>
     storage_ok q \<and> sq_size q = length xs \<and> take (sq_size q) (slots q) = map Some xs"

definition blocks :: "('a, 'z) storage_scheme \<Rightarrow> int" where
  "blocks q = (if sq_data q = NULL then 0 else 1)"

text \<open>Only the block and its capacity differ.\<close>

definition regrown :: "('a, 'z) storage_scheme \<Rightarrow> ('a, 'z) storage_scheme \<Rightarrow> bool" where
  "regrown q q' \<longleftrightarrow> q' = q\<lparr>sq_data := sq_data q', sq_capacity := sq_capacity q'\<rparr>"

text \<open>Nothing an operation asks for is refused: neither memory nor an element copy.\<close>

definition supplied :: "('a, 'z) storage_scheme \<Rightarrow> env \<Rightarrow> bool" where
  "supplied q s \<longleftrightarrow>
     generous (sq_element_limit q) (sq_elem_stride q) (sq_elem_align q) s \<and>
     copy_total (sq_element_type q)"

lemma supplied_delta: "env_delta k s s' \<Longrightarrow> supplied q s \<Longrightarrow> supplied q s'"
  by (auto simp: supplied_def dest: generous_env_delta)

lemma block_slots_Some [simp]: "block_slots (Some d) = d" "block_slots NULL = []"
  by (simp_all add: block_slots_def)

lemma bump_fields [simp]:
  "sq_size (bump q) = sq_size q" "sq_data (bump q) = sq_data q"
  "sq_capacity (bump q) = sq_capacity q" "sq_element_type (bump q) = sq_element_type q"
  "sq_generation (bump q) = sq_generation q + 1" "storage_ok (bump q) = storage_ok q"
  "linear_rep (bump q) xs = linear_rep q xs" "blocks (bump q) = blocks q"
  "sq_element_limit (bump q) = sq_element_limit q" "supplied (bump q) s = supplied q s"
  by (simp_all add: bump_def storage_ok_def linear_rep_def blocks_def supplied_def)

lemma prepare_copy_cases:
  assumes "storage_ok q" and "seq_prepare_copy q (Some (Some x)) s = (st, v, s')"
  shows "(st = STL_OK \<and> v = Some (Some x) \<and> env_delta 1 s s') \<or>
         (st \<in> {STL_CAPACITY_EXCEEDED, STL_OUT_OF_MEMORY} \<and> env_delta 0 s s' \<and> \<not> supplied q s)"
proof -
  obtain st1 cell s1 where al:
    "sequence_allocate 1 (sq_elem_stride q) (sq_elem_align q) (Some NULL) s = (st1, cell, s1)"
    using prod_cases3 by blast
  have q: "sq_elem_stride q \<noteq> 0" "sequence_alignment_valid (sq_elem_align q)"
    "elem_ok (sq_element_type q)"
    using assms(1) by (auto simp: storage_ok_def)
  consider (ok) a where "st1 = STL_OK" "cell = Some (Some a)" "env_delta 1 s s1"
    | (no) "st1 \<in> {STL_CAPACITY_EXCEEDED, STL_OUT_OF_MEMORY}" "env_delta 0 s s1"
    using allocate_cases [OF al q(2) _ q(1)] by auto
  then show ?thesis
  proof cases
    case ok
    obtain st2 v2 where c: "sequence_copy (sq_element_type q) (Some None) (Some (Some x)) = (st2, v2)"
      using prod.exhaust by blast
    show ?thesis using copy_cases [OF q(3) c] ok assms(2) al c
      by (auto simp: seq_prepare_copy_def supplied_def)
  next
    case no
    then have "\<not> supplied q s" using allocate_generous [OF al] q(2) by (auto simp: supplied_def)
    then show ?thesis using no assms(2) al by (auto simp: seq_prepare_copy_def)
  qed
qed

lemma discard_prepared_delta [simp]:
  "storage_ok q \<Longrightarrow> env_delta k s (seq_discard_prepared q (Some v) s1) \<longleftrightarrow> env_delta (k + 1) s s1"
  by (simp add: seq_discard_prepared_def storage_ok_def)

lemma next_capacity_cases:
  assumes "storage_ok q" and "min_capacity \<noteq> 0"
    and "seq_next_capacity min_capacity q minimum c0 = (st, capacity)"
  shows "(st = STL_OK \<and> minimum \<le> capacity \<and> capacity \<le> sq_element_limit q) \<or>
         (st = STL_CAPACITY_EXCEEDED \<and> sq_element_limit q < minimum)"
  using assms next_capacity_loop_bounds [of minimum "sq_element_limit q"]
  by (fastforce simp: seq_next_capacity_def storage_ok_def Let_def split: if_splits)

text \<open>The new block after a linear relocation, raw or typed.\<close>

lemma linear_relocation:
  assumes "linear_rep q xs" and "sq_size q \<le> capacity"
  shows "\<exists>src. linear_relocate q (replicate capacity None) =
    (STL_OK, map Some xs @ replicate (capacity - length xs) None, src)"
proof (cases "sq_element_type q = NULL")
  case True
  then show ?thesis using assms by (auto simp: linear_relocate_def linear_rep_def put_bytes_def storage_ok_def)
next
  case False
  have len: "length (slots q) = sq_capacity q" "sq_size q \<le> sq_capacity q" "sq_size q = length xs"
    and xs: "take (sq_size q) (slots q) = map Some xs"
    using assms(1) by (auto simp: linear_rep_def storage_ok_def)
  have "slots q ! i = Some (xs ! i)" if "i < length xs" for i
    using that len arg_cong [OF xs, of "\<lambda>l. l ! i"] by simp
  then obtain src where
    "relocate_loop (sq_element_type q) id (sq_size q) 0 (replicate capacity None) (slots q) =
      (STL_OK, take 0 (replicate capacity None) @ map (Some \<circ> (!) xs) [0..<sq_size q] @
        drop (sq_size q) (replicate capacity None), src)"
    using relocate_loop_gathers [of "sq_element_type q" 0 "sq_size q" "replicate capacity None" id
        "slots q" "(!) xs"] assms len
    by (auto simp: linear_rep_def storage_ok_def)
  moreover have "map (Some \<circ> (!) xs) [0..<length xs] = map Some xs"
    by (metis map_map map_nth)
  ultimately show ?thesis using False len by (auto simp: linear_relocate_def)
qed

lemma grow_to_cases:
  assumes rep: "linear_rep q xs" and "min_capacity \<noteq> 0"
    and run: "seq_grow_to min_capacity q minimum s = (st, q', changed, s')"
  shows "(st = STL_OK \<and> linear_rep q' xs \<and> minimum \<le> sq_capacity q' \<and>
            env_delta (blocks q' - blocks q) s s' \<and>
            regrown q q' \<and> (\<not> changed \<longrightarrow> q' = q)) \<or>
         (st \<in> {STL_CAPACITY_EXCEEDED, STL_OUT_OF_MEMORY} \<and> q' = q \<and> \<not> changed \<and>
            env_delta 0 s s' \<and>
            (supplied q s \<longrightarrow> sq_element_limit q < minimum \<and> st = STL_CAPACITY_EXCEEDED))"
proof (cases "minimum \<le> sq_capacity q")
  case True
  then show ?thesis using rep run by (simp add: seq_grow_to_def regrown_def)
next
  case False
  have ok: "storage_ok q" "sq_size q \<le> sq_capacity q" "sq_elem_stride q \<noteq> 0"
    "sequence_alignment_valid (sq_elem_align q)"
    using rep by (auto simp: linear_rep_def storage_ok_def)
  obtain st1 cap where next_cap: "seq_next_capacity min_capacity q minimum 0 = (st1, cap)"
    using prod.exhaust by blast
  show ?thesis
  proof (cases "st1 = STL_OK")
    case bad: False
    then show ?thesis
      using False run next_cap next_capacity_cases [OF ok(1) assms(2) next_cap]
      by (auto simp: seq_grow_to_def)
  next
    case True
    then have cap: "minimum \<le> cap" "cap \<le> sq_element_limit q" "cap \<noteq> 0" "sq_size q \<le> cap"
      using next_capacity_cases [OF ok(1) assms(2) next_cap] False ok(2) by auto
    obtain st2 cell s1 where al:
      "sequence_allocate cap (sq_elem_stride q) (sq_elem_align q) (Some NULL) s = (st2, cell, s1)"
      using prod_cases3 by blast
    consider (got) a where "st2 = STL_OK" "cell = Some (Some a)" "env_delta 1 s s1"
      | (no) "st2 \<in> {STL_CAPACITY_EXCEEDED, STL_OUT_OF_MEMORY}" "env_delta 0 s s1"
      using allocate_cases [OF al ok(4) cap(3) ok(3)] by auto
    then show ?thesis
    proof cases
      case no
      then have "\<not> supplied q s"
        using allocate_generous [OF al _ max.coboundedI2 [OF cap(2)]] ok(4)
        by (auto simp: supplied_def)
      then show ?thesis using no False True run next_cap al by (auto simp: seq_grow_to_def)
    next
      case got
      obtain src where "linear_relocate q (replicate cap None) =
        (STL_OK, map Some xs @ replicate (cap - length xs) None, src)"
        using linear_relocation [OF rep cap(4)] by blast
      then have "q' = q\<lparr>sq_data := Some (map Some xs @ replicate (cap - length xs) None),
            sq_capacity := cap\<rparr> \<and> st = STL_OK \<and> changed \<and> s' = sequence_deallocate (sq_data q) s1"
        using False True got run next_cap al by (simp add: seq_grow_to_def fresh_block_def)
      then show ?thesis
        using got cap rep by (auto simp: linear_rep_def storage_ok_def blocks_def regrown_def)
    qed
  qed
qed

lemma slots_set_slot [simp]: "slots (set_slot i x q) = (slots q)[i := x]"
  by (cases "sq_data q") (simp_all add: set_slot_def)

lemma set_slot_fields [simp]:
  "sq_size (set_slot i x q) = sq_size q" "sq_capacity (set_slot i x q) = sq_capacity q"
  "sq_element_type (set_slot i x q) = sq_element_type q"
  "sq_element_limit (set_slot i x q) = sq_element_limit q"
  "sq_generation (set_slot i x q) = sq_generation q"
  "storage_ok (set_slot i x q) = storage_ok q" "blocks (set_slot i x q) = blocks q"
  by (simp_all add: set_slot_def storage_ok_def blocks_def) (cases "sq_data q"; simp)

lemma move_in_ok [simp]:
  "storage_ok q \<Longrightarrow> move_in i (Some (Some x)) q s = (STL_OK, set_slot i (Some x) q, free_block s)"
  by (simp add: move_in_def storage_ok_def sequence_deallocate_def)

lemma linear_rep_split:
  "linear_rep q xs \<longleftrightarrow> storage_ok q \<and> sq_size q = length xs \<and> (\<exists>rest. slots q = map Some xs @ rest)"
proof -
  have "take (length xs) (slots q) = map Some xs \<longleftrightarrow> (\<exists>rest. slots q = map Some xs @ rest)"
    by (metis append_eq_conv_conj append_take_drop_id length_map)
  then show ?thesis by (auto simp: linear_rep_def)
qed

lemma set_slot_alt: "set_slot i x q = q\<lparr>sq_data := map_option (\<lambda>_. (slots q)[i := x]) (sq_data q)\<rparr>"
  by (cases "sq_data q") (simp_all add: set_slot_def)

text \<open>Rewriting the block and the size establishes a new list.\<close>

lemma linear_repI:
  "storage_ok q \<Longrightarrow> d = map Some ys @ rest \<Longrightarrow> length d = sq_capacity q \<Longrightarrow> n = length ys \<Longrightarrow>
   linear_rep (q\<lparr>sq_data := map_option (\<lambda>_. d) (sq_data q), sq_size := n\<rparr>) ys"
  by (cases "sq_data q") (auto simp: linear_rep_split storage_ok_def)

lemma blocks_map_option [simp]:
  "blocks (q\<lparr>sq_data := map_option f (sq_data q)\<rparr>) = blocks q"
  "blocks (q\<lparr>sq_size := n\<rparr>) = blocks q"
  by (simp_all add: blocks_def)

section \<open>Operations against a model\<close>

text \<open>
  The contract every mutating operation of a sequence container meets, whatever the
  allocator does. \<open>m\<close> is the model's answer (status, contents, delivered element) and
  the second tuple the code's. Either the code answers as the model does, or it was refused
  memory or an element copy: then it changed nothing. No block is leaked, the configuration
  stays, a failing operation leaves the container as it was, and an operation that changed
  anything moved the generation counter.
\<close>

definition deliver :: "'a option \<Rightarrow> 'a option ptr \<Rightarrow> 'a option ptr" where
  "deliver y out = (case y of None \<Rightarrow> out | Some v \<Rightarrow> map_option (\<lambda>_. Some v) out)"

definition same_config :: "('a, 'z) storage_scheme \<Rightarrow> ('a, 'z) storage_scheme \<Rightarrow> bool" where
  "same_config q w \<longleftrightarrow>
     sq_descriptor w = sq_descriptor q \<and> sq_elem_size w = sq_elem_size q \<and>
     sq_elem_stride w = sq_elem_stride q \<and> sq_elem_align w = sq_elem_align q \<and>
     sq_element_limit w = sq_element_limit q \<and> sq_element_type w = sq_element_type q"

lemma same_config_simps [simp]:
  "same_config q q" "same_config q (bump w) = same_config q w"
  "same_config q (set_slot i x w) = same_config q w"
  "same_config q (w\<lparr>sq_size := n\<rparr>) = same_config q w"
  "same_config q (w\<lparr>sq_data := d\<rparr>) = same_config q w"
  "same_config q (w\<lparr>sq_capacity := n\<rparr>) = same_config q w"
  by (simp_all add: same_config_def bump_def set_slot_def)

lemma same_config_trans: "same_config q w \<Longrightarrow> same_config w u \<Longrightarrow> same_config q u"
  by (simp add: same_config_def)

lemma supplied_config: "same_config q w \<Longrightarrow> supplied w s = supplied q s"
  by (simp add: same_config_def supplied_def)

lemma regrown_fields:
  assumes "regrown q q'"
  shows "sq_size q' = sq_size q" "sq_generation q' = sq_generation q" "same_config q q'"
    "sq_element_type q' = sq_element_type q" "sq_element_limit q' = sq_element_limit q"
    "sq_initialized q' = sq_initialized q" "sq_elem_size q' = sq_elem_size q"
  by (subst assms [unfolded regrown_def], simp)+

definition op_outcome ::
  "(('a, 'z) storage_scheme \<Rightarrow> 'c \<Rightarrow> bool) \<Rightarrow> ('a, 'z) storage_scheme \<Rightarrow> env \<Rightarrow> 'a option ptr \<Rightarrow>
   stl_status \<times> 'c \<times> 'a option \<Rightarrow>
   stl_status \<times> ('a, 'z) storage_scheme ptr \<times> 'a option ptr \<times> env \<Rightarrow> bool" where
  "op_outcome rep q s out m r \<longleftrightarrow>
     (case m of (st0, ys, y) \<Rightarrow> case r of (st, q', out', s') \<Rightarrow>
       \<exists>w. q' = Some w \<and> env_delta (blocks w - blocks q) s s' \<and> same_config q w \<and>
         (st = st0 \<and> rep w ys \<and> out' = deliver y out \<or>
          st \<in> {STL_CAPACITY_EXCEEDED, STL_OUT_OF_MEMORY} \<and> w = q \<and> out' = out \<and>
            \<not> supplied q s) \<and>
         (st \<noteq> STL_OK \<longrightarrow> w = q) \<and> (w = q \<or> sq_generation w = sq_generation q + 1))"

text \<open>The ways an outcome is established: nothing happened, or the model's step was made.\<close>

lemma outcome_refused:
  "st \<in> {STL_CAPACITY_EXCEEDED, STL_OUT_OF_MEMORY} \<Longrightarrow> env_delta 0 s s' \<Longrightarrow> \<not> supplied q s \<Longrightarrow>
   op_outcome rep q s out m (st, Some q, out, s')"
  by (auto simp: op_outcome_def split: prod.splits)

lemma outcome_unchanged:
  "rep q ys \<Longrightarrow> env_delta 0 s s' \<Longrightarrow> op_outcome rep q s out (st, ys, None) (st, Some q, out, s')"
  by (auto simp: op_outcome_def deliver_def)

lemma outcome_changed:
  "rep w ys \<Longrightarrow> env_delta (blocks w - blocks q) s s' \<Longrightarrow> same_config q w \<Longrightarrow>
   sq_generation w = sq_generation q + 1 \<Longrightarrow> out' = deliver y out \<Longrightarrow>
   op_outcome rep q s out (STL_OK, ys, y) (STL_OK, Some w, out', s')"
  by (auto simp: op_outcome_def)

text \<open>A run of operations and the same run on the model.\<close>

fun run_ops ::
  "('op \<Rightarrow> 'q ptr \<Rightarrow> env \<Rightarrow> stl_status \<times> 'q ptr \<times> 'a option ptr \<times> env) \<Rightarrow> 'op list \<Rightarrow> 'q ptr \<Rightarrow> env \<Rightarrow>
   (stl_status \<times> 'a option ptr) list \<times> 'q ptr \<times> env" where
  "run_ops app [] q s = ([], q, s)"
| "run_ops app (op # ops) q s =
     (case app op q s of (st, q1, out, s1) \<Rightarrow>
      case run_ops app ops q1 s1 of (rs, q2, s2) \<Rightarrow> ((st, out) # rs, q2, s2))"

fun run_model ::
  "('op \<Rightarrow> 'a option ptr) \<Rightarrow> ('op \<Rightarrow> 'c \<Rightarrow> stl_status \<times> 'c \<times> 'a option) \<Rightarrow> 'op list \<Rightarrow> 'c \<Rightarrow>
   (stl_status \<times> 'a option ptr) list \<times> 'c" where
  "run_model out_of model [] xs = ([], xs)"
| "run_model out_of model (op # ops) xs =
     (case model op xs of (st, ys, y) \<Rightarrow>
      case run_model out_of model ops ys of (rs, zs) \<Rightarrow> ((st, deliver y (out_of op)) # rs, zs))"

text \<open>The effect of the operations that were acknowledged with \<open>STL_OK\<close>.\<close>

fun replay ::
  "('op \<Rightarrow> 'c \<Rightarrow> stl_status \<times> 'c \<times> 'a option) \<Rightarrow> ('op \<times> stl_status \<times> 'a option ptr) list \<Rightarrow> 'c \<Rightarrow> 'c"
where
  "replay model [] xs = xs"
| "replay model ((op, st, out) # rs) xs =
     replay model rs (if st = STL_OK then fst (snd (model op xs)) else xs)"

text \<open>
  The interface between a container and a client that runs operations on it: one call of the
  code \<open>app\<close> makes the model's step, or is refused for lack of resources and changes
  nothing; either way its blocks are accounted for and its configuration is kept.
\<close>

locale container =
  fixes rep :: "'q \<Rightarrow> 'c \<Rightarrow> bool"
    and app :: "'op \<Rightarrow> 'q ptr \<Rightarrow> env \<Rightarrow> stl_status \<times> 'q ptr \<times> 'a option ptr \<times> env"
    and out_of :: "'op \<Rightarrow> 'a option ptr"
    and model_of :: "'q \<Rightarrow> 'op \<Rightarrow> 'c \<Rightarrow> stl_status \<times> 'c \<times> 'a option"
    and nblocks :: "'q \<Rightarrow> int"
    and config :: "'q \<Rightarrow> 'q \<Rightarrow> bool"
    and resources :: "'q \<Rightarrow> env \<Rightarrow> bool"
  assumes step: "rep q xs \<Longrightarrow> model_of q op xs = (st0, ys, y) \<Longrightarrow> app op (Some q) s = (st, q', out, s') \<Longrightarrow>
      \<exists>w. q' = Some w \<and> env_delta (nblocks w - nblocks q) s s' \<and> config q w \<and>
        (st = st0 \<and> rep w ys \<and> out = deliver y (out_of op) \<or>
         st \<noteq> STL_OK \<and> w = q \<and> out = out_of op \<and> \<not> resources q s)"
    and failure_keeps: "model_of q op xs = (st, ys, y) \<Longrightarrow> st \<noteq> STL_OK \<Longrightarrow> ys = xs"
    and config_refl: "config q q"
    and config_trans: "config q w \<Longrightarrow> config w u \<Longrightarrow> config q u"
    and config_model: "config q w \<Longrightarrow> model_of w = model_of q"
    and config_resources: "config q w \<Longrightarrow> resources q s \<Longrightarrow> resources w s"
    and delta_resources: "env_delta k s s' \<Longrightarrow> resources q s \<Longrightarrow> resources q s'"
begin

lemma run_acknowledged:
  "rep q xs \<Longrightarrow> run_ops app ops (Some q) s = (rs, q', s') \<Longrightarrow>
   \<exists>w. q' = Some w \<and> env_delta (nblocks w - nblocks q) s s' \<and> config q w \<and>
     rep w (replay (model_of q) (zip ops rs) xs)"
proof (induction ops arbitrary: q xs s rs q' s')
  case Nil
  then show ?case using config_refl by auto
next
  case (Cons op ops)
  obtain st q1 out s1 where r: "app op (Some q) s = (st, q1, out, s1)" by (metis prod_cases4)
  obtain st0 ys y where m: "model_of q op xs = (st0, ys, y)" by (metis prod_cases3)
  obtain rs' q2 s2 where rest: "run_ops app ops q1 s1 = (rs', q2, s2)" by (metis prod_cases3)
  obtain w where w: "q1 = Some w" "env_delta (nblocks w - nblocks q) s s1" "config q w"
    and c: "st = st0 \<and> rep w ys \<or> st \<noteq> STL_OK \<and> w = q"
    using step [OF Cons.prems(1) m r] by blast
  have "rep w (if st = STL_OK then fst (snd (model_of q op xs)) else xs)"
    using c m failure_keeps [OF m] Cons.prems(1) by auto
  from Cons.IH [OF this] rest w obtain u where "q2 = Some u" "env_delta (nblocks u - nblocks w) s1 s2"
    "config w u" and
    "rep u (replay (model_of w) (zip ops rs') (if st = STL_OK then fst (snd (model_of q op xs)) else xs))"
    by blast
  then show ?case
    using Cons.prems(2) r rest w env_delta_trans [OF w(2), of "nblocks u - nblocks w" s2] config_trans
    by (auto simp: config_model [OF w(3)])
qed

lemma run_supplied:
  "rep q xs \<Longrightarrow> resources q s \<Longrightarrow> run_model out_of (model_of q) ops xs = (rs, ys) \<Longrightarrow>
   \<exists>w s'. run_ops app ops (Some q) s = (rs, Some w, s') \<and> rep w ys \<and>
     env_delta (nblocks w - nblocks q) s s' \<and> config q w"
proof (induction ops arbitrary: q xs s rs)
  case Nil
  then show ?case using config_refl by simp
next
  case (Cons op ops)
  obtain st q1 out s1 where r: "app op (Some q) s = (st, q1, out, s1)" by (metis prod_cases4)
  obtain st0 zs y where m: "model_of q op xs = (st0, zs, y)" by (metis prod_cases3)
  obtain rs' where rest: "run_model out_of (model_of q) ops zs = (rs', ys)"
    "rs = (st0, deliver y (out_of op)) # rs'"
    using Cons.prems(3) m by (auto split: prod.splits)
  obtain w where w: "q1 = Some w" "env_delta (nblocks w - nblocks q) s s1" "config q w"
    "st = st0" "rep w zs" "out = deliver y (out_of op)"
    using step [OF Cons.prems(1) m r] Cons.prems(2) by blast
  have "resources w s1"
    using delta_resources [OF w(2)] config_resources [OF w(3) Cons.prems(2)] by blast
  moreover have "run_model out_of (model_of w) ops zs = (rs', ys)"
    using rest(1) by (simp add: config_model [OF w(3)])
  ultimately obtain u s2 where u: "run_ops app ops (Some w) s1 = (rs', Some u, s2)" "rep u ys"
    "env_delta (nblocks u - nblocks w) s1 s2" "config w u"
    using Cons.IH [OF w(5)] by blast
  then show ?case
    using r w rest(2) env_delta_trans [OF w(2) u(3)] config_trans [OF w(3) u(4)] by simp
qed

end

text \<open>A container over the shared storage header: its contract is an \<open>op_outcome\<close>.\<close>

locale sequence_machine =
  fixes rep :: "('a, 'z) storage_scheme \<Rightarrow> 'c \<Rightarrow> bool"
    and app :: "'op \<Rightarrow> ('a, 'z) storage_scheme ptr \<Rightarrow> env \<Rightarrow>
        stl_status \<times> ('a, 'z) storage_scheme ptr \<times> 'a option ptr \<times> env"
    and out_of :: "'op \<Rightarrow> 'a option ptr"
    and model :: "size_t \<Rightarrow> bool \<Rightarrow> 'op \<Rightarrow> 'c \<Rightarrow> stl_status \<times> 'c \<times> 'a option"
  assumes contract: "rep q xs \<Longrightarrow>
      op_outcome rep q s (out_of op)
        (model (sq_element_limit q) (sq_element_type q \<noteq> NULL) op xs) (app op (Some q) s)"
    and model_failure: "model n t op xs = (st, ys, y) \<Longrightarrow> st \<noteq> STL_OK \<Longrightarrow> ys = xs"

sublocale sequence_machine \<subseteq> container rep app out_of
  "\<lambda>q. model (sq_element_limit q) (sq_element_type q \<noteq> NULL)" blocks same_config supplied
proof
  fix q xs op st0 ys y s st q' out s'
  assume "rep q xs" "model (sq_element_limit q) (sq_element_type q \<noteq> NULL) op xs = (st0, ys, y)"
    "app op (Some q) s = (st, q', out, s')"
  then show "\<exists>w. q' = Some w \<and> env_delta (blocks w - blocks q) s s' \<and> same_config q w \<and>
      (st = st0 \<and> rep w ys \<and> out = deliver y (out_of op) \<or>
       st \<noteq> STL_OK \<and> w = q \<and> out = out_of op \<and> \<not> supplied q s)"
    using contract [of q xs s op] unfolding op_outcome_def by auto
next
  show "ys = xs" if "model (sq_element_limit q) (sq_element_type q \<noteq> NULL) op xs = (st, ys, y)" "st \<noteq> STL_OK"
    for q op xs st ys y using that by (rule model_failure)
  show "same_config q q" for q by (simp add: same_config_def)
  show "same_config q u" if "same_config q w" "same_config w u" for q w u
    using that by (rule same_config_trans)
  show "model (sq_element_limit w) (sq_element_type w \<noteq> NULL) =
      model (sq_element_limit q) (sq_element_type q \<noteq> NULL)" if "same_config q w" for q w
    using that by (simp add: same_config_def)
  show "supplied w s" if "same_config q w" "supplied q s" for q w s
    using that by (simp add: supplied_config)
  show "supplied q s'" if "env_delta k s s'" "supplied q s" for k s s' q
    using that by (rule supplied_delta)
qed

section \<open>Construction from an array\<close>

text \<open>
  The loop of the \<open>from_array\<close> constructors: push every element of the caller's array
  (the list of its elements) into a temporary, and tear the temporary down when one fails.
\<close>

fun push_all ::
  "('q ptr \<Rightarrow> 'a option ptr \<Rightarrow> env \<Rightarrow> stl_status \<times> 'q ptr \<times> env) \<Rightarrow> ('q ptr \<Rightarrow> env \<Rightarrow> 'q ptr \<times> env) \<Rightarrow>
   'a list \<Rightarrow> 'q ptr \<Rightarrow> env \<Rightarrow> stl_status \<times> 'q ptr \<times> env" where
  "push_all push destroy [] temporary s = (STL_OK, temporary, s)"
| "push_all push destroy (x # xs) temporary s =
     (case push temporary (Some (Some x)) s of (st, t1, s1) \<Rightarrow>
      if st \<noteq> STL_OK
      then case destroy t1 s1 of (t2, s2) \<Rightarrow> (st, t2, s2)
      else push_all push destroy xs t1 s1)"

lemma fold_snoc [simp]: "fold (\<lambda>x xs. xs @ [x]) ys xs = xs @ ys"
  by (induction ys arbitrary: xs) simp_all

text \<open>What the constructors rely on: pushing adds one element, destroying frees the block.\<close>

locale push_store =
  fixes rep :: "('a, 'z) storage_scheme \<Rightarrow> 'c \<Rightarrow> bool"
    and push :: "('a, 'z) storage_scheme ptr \<Rightarrow> 'a option ptr \<Rightarrow> env \<Rightarrow>
        stl_status \<times> ('a, 'z) storage_scheme ptr \<times> env"
    and destroy :: "('a, 'z) storage_scheme ptr \<Rightarrow> env \<Rightarrow> ('a, 'z) storage_scheme ptr \<times> env"
    and add :: "'a \<Rightarrow> 'c \<Rightarrow> 'c"
    and count :: "'c \<Rightarrow> size_t"
  assumes push_contract: "rep q xs \<Longrightarrow> count xs < sq_element_limit q \<Longrightarrow>
      op_outcome rep q s NULL (STL_OK, add x xs, None)
        (case push (Some q) (Some (Some x)) s of (st, w, s') \<Rightarrow> (st, w, NULL, s'))"
    and destroy_frees: "rep q xs \<Longrightarrow> env_delta (- blocks q) s (snd (destroy (Some q) s))"
    and count_add: "count (add x xs) = Suc (count xs)"
begin

lemma push_all_cases:
  "rep t xs \<Longrightarrow> push_all push destroy ys (Some t) s = (st, r, s') \<Longrightarrow>
     count xs + length ys \<le> sq_element_limit t \<Longrightarrow>
   (\<exists>w. st = STL_OK \<and> r = Some w \<and> rep w (fold add ys xs) \<and> same_config t w \<and>
      env_delta (blocks w - blocks t) s s') \<or>
   (st \<in> {STL_CAPACITY_EXCEEDED, STL_OUT_OF_MEMORY} \<and> env_delta (- blocks t) s s' \<and> \<not> supplied t s)"
proof (induction ys arbitrary: t xs s)
  case Nil
  then show ?case by auto
next
  case (Cons y ys)
  obtain st1 t1 s1 where p: "push (Some t) (Some (Some y)) s = (st1, t1, s1)"
    by (metis prod_cases3)
  have "op_outcome rep t s NULL (STL_OK, add y xs, None) (st1, t1, NULL, s1)"
    using push_contract [OF Cons.prems(1), where x = y and s = s] p Cons.prems(3) by simp
  then obtain w where w: "t1 = Some w" "env_delta (blocks w - blocks t) s s1" "same_config t w"
    and c: "st1 = STL_OK \<and> rep w (add y xs) \<or>
      st1 \<in> {STL_CAPACITY_EXCEEDED, STL_OUT_OF_MEMORY} \<and> w = t \<and> \<not> supplied t s"
    by (auto simp: op_outcome_def)
  show ?case
  proof (cases "st1 = STL_OK")
    case True
    then have rest: "push_all push destroy ys (Some w) s1 = (st, r, s')" "rep w (add y xs)"
      using Cons.prems(2) p w c by auto
    have "count (add y xs) + length ys \<le> sq_element_limit w"
      using Cons.prems(3) w(3) by (simp add: same_config_def count_add)
    from Cons.IH [OF rest(2,1) this] show ?thesis
      using env_delta_trans [OF w(2)] w(3) supplied_config [OF w(3)] supplied_delta [OF w(2), of w]
      by (fastforce simp: same_config_def)
  next
    case False
    then show ?thesis
      using c p Cons.prems destroy_frees [OF Cons.prems(1), of s1] w
        env_delta_trans [of 0 s s1 "- blocks t" s']
      by (auto split: prod.splits)
  qed
qed

end

section \<open>Strides in use\<close>

lemma stride_OK_cases:
  "sequence_stride elem_size elem_align (Some c) = (STL_OK, r) \<Longrightarrow>
   elem_size \<noteq> 0 \<and> sequence_alignment_valid elem_align"
  by (auto simp: sequence_stride_def Let_def split: if_splits)

lemma stride_nonzero:
  assumes "sequence_stride elem_size elem_align (Some c) = (STL_OK, r)"
    and "elem_size \<le> SIZE_MAX" and "elem_align \<le> SIZE_MAX"
  shows "the r \<noteq> 0"
proof -
  let ?x = "elem_size + (elem_align - 1)"
  have v: "sequence_alignment_valid elem_align" "elem_size \<noteq> 0" "?x \<le> SIZE_MAX"
    "r = Some (size_and_not ?x (elem_align - 1))"
    using assms(1,2) by (auto simp: sequence_stride_def Let_def split: if_splits)
  have "elem_align \<noteq> 0" using alignment_pos [OF v(1)] by simp
  then show ?thesis
    using size_and_not_align [OF v(1) assms(3) v(3)] v round_up(2) [of elem_align elem_size]
    by simp
qed

section \<open>Concrete environments and a concrete type\<close>

text \<open>An allocator that always fails, and one that never does.\<close>

definition never_env :: env where
  "never_env = \<lparr>malloc_oracle = (\<lambda>_. None), malloc_calls = 0, live_blocks = 1\<rparr>"

definition ample_env :: env where
  "ample_env = \<lparr>malloc_oracle = (\<lambda>_. Some 4096), malloc_calls = 0, live_blocks = 1\<rparr>"

text \<open>A descriptor for natural numbers with every trait.\<close>

definition nat_traits :: "nat cmeta_type_traits" where
  "nat_traits = \<lparr>tr_flags = CMETA_TRAIT_MASK, tr_equal = Some (=), tr_hash = Some of_nat,
     tr_compare = Some (\<lambda>x y. int x - int y), tr_copy_construct = Some Some,
     tr_move_construct = Some id, tr_destroy = Some ()\<rparr>"

definition nat_desc :: "nat cmeta_type_desc" where
  "nat_desc = \<lparr>td_size = 4, td_align = 4, td_traits = Some nat_traits\<rparr>"

lemma nat_desc_lawful: "traits_lawful nat_desc"
  by (simp add: traits_lawful_def nat_desc_def nat_traits_def)

lemma nat_desc_type: "sequence_require_type (Some nat_desc) c = STL_OK"
  by (simp add: sequence_require_type_def nat_desc_def nat_traits_def sequence_alignment_valid_def
      cmeta_type_require_traits_def trait_flag_defs)

end
