(* ===== verification/Cstl_Vec.thy ===== *)
theory Cstl_Vec
  imports Cstl_Storage
begin

text \<open>
  The dynamic array (\<^verbatim>\<open>src/cstl/src/vec.c\<close>, \<^verbatim>\<open>vec.h\<close>): every operation of the file,
  and the theorem that each of them, and any sequence of them, behaves as the corresponding
  list operation, with all-or-nothing behaviour under allocation failure and without leaks.
\<close>

type_synonym 'a vec = "'a storage"

section \<open>Static helpers\<close>

definition SALTS_VEC_MIN_CAPACITY :: size_t where
  "SALTS_VEC_MIN_CAPACITY = 8"

definition vec_valid :: "'a vec ptr \<Rightarrow> bool" where
  "vec_valid vec \<longleftrightarrow> vec \<noteq> NULL \<and> sq_initialized (the vec) \<and> sq_elem_size (the vec) \<noteq> 0"

definition vec_next_capacity :: "'a vec \<Rightarrow> size_t \<Rightarrow> size_t \<Rightarrow> stl_status \<times> size_t" where
  "vec_next_capacity = seq_next_capacity SALTS_VEC_MIN_CAPACITY"

definition vec_grow_to ::
  "'a vec ptr \<Rightarrow> size_t \<Rightarrow> bool ptr \<Rightarrow> env \<Rightarrow> stl_status \<times> 'a vec ptr \<times> bool ptr \<times> env" where
  "vec_grow_to vec minimum changed s =
     (if \<not> vec_valid vec then (STL_INVALID_ARGUMENT, vec, map_option (\<lambda>_. False) changed, s)
      else case seq_grow_to SALTS_VEC_MIN_CAPACITY (the vec) minimum s of
        (st, v, ch, s') \<Rightarrow> (st, Some v, map_option (\<lambda>_. ch) changed, s'))"

definition vec_prepare_copy :: "'a vec \<Rightarrow> 'a option ptr \<Rightarrow> env \<Rightarrow> stl_status \<times> 'a option ptr \<times> env" where
  "vec_prepare_copy = seq_prepare_copy"

definition vec_discard_prepared :: "'a vec \<Rightarrow> 'a option ptr \<Rightarrow> env \<Rightarrow> env" where
  "vec_discard_prepared = seq_discard_prepared"

section \<open>Initialisation and destruction\<close>

text \<open>\<open>memset(vec, 0, sizeof *vec)\<close>.\<close>

definition vec_zeroed :: "'a vec" where
  "vec_zeroed = \<lparr>sq_descriptor = NULL, sq_data = NULL, sq_size = 0, sq_capacity = 0,
     sq_elem_size = 0, sq_elem_stride = 0, sq_elem_align = 0, sq_element_limit = 0,
     sq_element_type = NULL, sq_generation = 0, sq_initialized = False\<rparr>"

definition vec_initialize ::
  "'a vec ptr \<Rightarrow> 'a cmeta_type_desc ptr \<Rightarrow> size_t \<Rightarrow> size_t \<Rightarrow> size_t \<Rightarrow> stl_status \<times> 'a vec ptr" where
  "vec_initialize vec type elem_size elem_align limit =
     (case vec of
        None \<Rightarrow> (STL_INVALID_ARGUMENT, vec)
      | Some v \<Rightarrow>
          if sq_initialized v then (STL_INVALID_ARGUMENT, vec)
          else
            case sequence_stride elem_size elem_align (Some 0) of (st, stride) \<Rightarrow>
            if st \<noteq> STL_OK then (st, vec)
            else (STL_OK, Some (vec_zeroed\<lparr>sq_elem_size := elem_size, sq_elem_stride := the stride,
                    sq_elem_align := elem_align, sq_element_limit := limit, sq_element_type := type,
                    sq_generation := sq_generation v + 1, sq_initialized := True\<rparr>)))"

definition vec_init_bytes ::
  "'a vec ptr \<Rightarrow> size_t \<Rightarrow> size_t \<Rightarrow> size_t \<Rightarrow> stl_status \<times> 'a vec ptr" where
  "vec_init_bytes vec elem_size elem_align element_limit =
     vec_initialize vec NULL elem_size elem_align element_limit"

definition vec_raw_init ::
  "'a vec ptr \<Rightarrow> 'a cmeta_type_desc ptr \<Rightarrow> size_t \<Rightarrow> stl_status \<times> 'a vec ptr" where
  "vec_raw_init vec element_type element_limit =
     (if vec = NULL \<or> sq_initialized (the vec) then (STL_INVALID_ARGUMENT, vec)
      else
        let st = sequence_require_type element_type False in
        if st \<noteq> STL_OK then (st, vec)
        else vec_initialize vec element_type (td_size (the element_type)) (td_align (the element_type))
               element_limit)"

definition vec_clear :: "'a vec ptr \<Rightarrow> stl_status \<times> 'a vec ptr" where
  "vec_clear vec =
     (if \<not> vec_valid vec then (STL_INVALID_ARGUMENT, vec)
      else
        let v = the vec in
        case destroy_loop (sq_element_type v) id (sq_size v) 0 (slots v) of
          (st, d) \<Rightarrow>
            let v1 = v\<lparr>sq_data := map_option (\<lambda>_. d) (sq_data v)\<rparr> in
            if st \<noteq> STL_OK then (st, Some v1)
            else if sq_size v1 \<noteq> 0 then (STL_OK, Some (bump (v1\<lparr>sq_size := 0\<rparr>)))
            else (STL_OK, Some v1))"

definition vec_raw_destroy_storage :: "'a vec ptr \<Rightarrow> env \<Rightarrow> 'a vec ptr \<times> env" where
  "vec_raw_destroy_storage vec s =
     (case vec of
        None \<Rightarrow> (NULL, s)
      | Some v \<Rightarrow>
          if sq_initialized v then
            let v1 = the (snd (vec_clear vec)) in
            (Some (vec_zeroed\<lparr>sq_generation := sq_generation v1 + 1\<rparr>),
             sequence_deallocate (sq_data v1) s)
          else (Some (vec_zeroed\<lparr>sq_generation := sq_generation v\<rparr>), s))"

section \<open>Operations\<close>

definition vec_reserve :: "'a vec ptr \<Rightarrow> size_t \<Rightarrow> env \<Rightarrow> stl_status \<times> 'a vec ptr \<times> env" where
  "vec_reserve vec min_capacity s =
     (case vec_grow_to vec min_capacity (Some False) s of
        (st, vec1, changed, s1) \<Rightarrow>
          (st, if st = STL_OK \<and> changed = Some True then map_option bump vec1 else vec1, s1))"

text \<open>The shrinking loop: \<open>while (vec->size > new_size)\<close>.\<close>

function vec_shrink_loop :: "size_t \<Rightarrow> 'a vec \<Rightarrow> stl_status \<times> 'a vec" where
  "vec_shrink_loop new_size v =
     (if new_size < sq_size v then
        let v1 = v\<lparr>sq_size := sq_size v - 1\<rparr> in
        case sequence_destroy_value (sq_element_type v1) (Some (slots v1 ! sq_size v1)) of
          (st, d) \<Rightarrow>
            if st \<noteq> STL_OK then (st, set_slot (sq_size v1) (the d) v1)
            else vec_shrink_loop new_size (set_slot (sq_size v1) (the d) v1)
      else (STL_OK, v))"
  by auto
termination
  by (relation "measure (\<lambda>(n, v). sq_size v)") auto

declare vec_shrink_loop.simps [simp del]

text \<open>\<open>zero\<close> is the raw element whose bytes are all zero.\<close>

definition vec_resize :: "'a \<Rightarrow> 'a vec ptr \<Rightarrow> size_t \<Rightarrow> env \<Rightarrow> stl_status \<times> 'a vec ptr \<times> env" where
  "vec_resize zero vec new_size s =
     (if \<not> vec_valid vec then (STL_INVALID_ARGUMENT, vec, s)
      else
        let v = the vec; old_size = sq_size v in
        if sq_element_limit v < new_size then (STL_CAPACITY_EXCEEDED, vec, s)
        else if new_size = old_size then (STL_OK, vec, s)
        else if new_size < old_size then
          case vec_shrink_loop new_size v of (st, v1) \<Rightarrow>
          if st \<noteq> STL_OK then (st, Some v1, s) else (STL_OK, Some (bump v1), s)
        else if sq_element_type v \<noteq> NULL then (STL_TRAIT_MISSING, vec, s)
        else
          case vec_grow_to vec new_size NULL s of (st, vec1, _, s1) \<Rightarrow>
          if st \<noteq> STL_OK then (st, vec1, s1)
          else
            let v1 = the vec1;
                v2 = v1\<lparr>sq_data := map_option (\<lambda>d. put_bytes d old_size
                          (replicate (new_size - old_size) (Some zero))) (sq_data v1)\<rparr>
            in (STL_OK, Some (bump (v2\<lparr>sq_size := new_size\<rparr>)), s1))"

definition vec_push :: "'a vec ptr \<Rightarrow> 'a option ptr \<Rightarrow> env \<Rightarrow> stl_status \<times> 'a vec ptr \<times> env" where
  "vec_push vec elem s =
     (if \<not> vec_valid vec \<or> elem = NULL then (STL_INVALID_ARGUMENT, vec, s)
      else
        let v = the vec in
        if sq_element_limit v \<le> sq_size v then (STL_CAPACITY_EXCEEDED, vec, s)
        else
          case vec_prepare_copy v elem s of (st, prepared, s1) \<Rightarrow>
          if st \<noteq> STL_OK then (st, vec, s1)
          else
            case vec_grow_to vec (sq_size v + 1) NULL s1 of (st, vec1, _, s2) \<Rightarrow>
            let v1 = the vec1 in
            if st \<noteq> STL_OK then (st, vec1, vec_discard_prepared v1 prepared s2)
            else
              case move_in (sq_size v1) prepared v1 s2 of (st, v2, s3) \<Rightarrow>
              if st \<noteq> STL_OK then (st, Some v2, s3)
              else (STL_OK, Some (bump (v2\<lparr>sq_size := sq_size v2 + 1\<rparr>)), s3))"

definition vec_pop ::
  "'a vec ptr \<Rightarrow> 'a option ptr \<Rightarrow> stl_status \<times> 'a vec ptr \<times> 'a option ptr" where
  "vec_pop vec out_elem =
     (if \<not> vec_valid vec then (STL_INVALID_ARGUMENT, vec, out_elem)
      else
        let v = the vec in
        if sq_size v = 0 then (STL_EMPTY, vec, out_elem)
        else
          let index = sq_size v - 1 in
          case take_out (sq_element_type v) out_elem (slots v ! index) of
            (st, out, slot) \<Rightarrow>
              if st \<noteq> STL_OK then (st, Some (set_slot index slot v), out)
              else (STL_OK, Some (bump ((set_slot index slot v)\<lparr>sq_size := index\<rparr>)), out))"

text \<open>\<open>for (cursor = size; cursor > index; --cursor) move(cursor, cursor - 1)\<close>.\<close>

function vec_shift_up ::
  "'a cmeta_type_desc ptr \<Rightarrow> size_t \<Rightarrow> size_t \<Rightarrow> 'a option list \<Rightarrow> 'a option list" where
  "vec_shift_up type index cursor d =
     (if index < cursor then
        case sequence_move_destroy type (Some (d ! cursor)) (Some (d ! (cursor - 1))) of
          (_, x, y) \<Rightarrow> vec_shift_up type index (cursor - 1) (d[cursor := the x, cursor - 1 := the y])
      else d)"
  by auto
termination
  by (relation "measure (\<lambda>(type, index, cursor, d). cursor)") auto

text \<open>\<open>for (cursor = index; cursor + 1 < size; ++cursor) move(cursor, cursor + 1)\<close>.\<close>

function vec_shift_down ::
  "'a cmeta_type_desc ptr \<Rightarrow> size_t \<Rightarrow> size_t \<Rightarrow> 'a option list \<Rightarrow> 'a option list" where
  "vec_shift_down type cursor n d =
     (if cursor + 1 < n then
        case sequence_move_destroy type (Some (d ! cursor)) (Some (d ! (cursor + 1))) of
          (_, x, y) \<Rightarrow> vec_shift_down type (cursor + 1) n (d[cursor := the x, cursor + 1 := the y])
      else d)"
  by auto
termination
  by (relation "measure (\<lambda>(type, cursor, n, d). n - cursor)") auto

declare vec_shift_up.simps [simp del] vec_shift_down.simps [simp del]

definition vec_insert ::
  "'a vec ptr \<Rightarrow> size_t \<Rightarrow> 'a option ptr \<Rightarrow> env \<Rightarrow> stl_status \<times> 'a vec ptr \<times> env" where
  "vec_insert vec index elem s =
     (if \<not> vec_valid vec \<or> elem = NULL \<or> sq_size (the vec) < index
      then (STL_INVALID_ARGUMENT, vec, s)
      else
        let v = the vec in
        if sq_element_limit v \<le> sq_size v then (STL_CAPACITY_EXCEEDED, vec, s)
        else
          case vec_prepare_copy v elem s of (st, prepared, s1) \<Rightarrow>
          if st \<noteq> STL_OK then (st, vec, s1)
          else
            case vec_grow_to vec (sq_size v + 1) NULL s1 of (st, vec1, _, s2) \<Rightarrow>
            let v1 = the vec1 in
            if st \<noteq> STL_OK then (st, vec1, vec_discard_prepared v1 prepared s2)
            else
              let d = (if sq_element_type v1 = NULL
                       then put_bytes (slots v1) (index + 1)
                              (take (sq_size v1 - index) (drop index (slots v1)))
                       else vec_shift_up (sq_element_type v1) index (sq_size v1) (slots v1));
                  v2 = v1\<lparr>sq_data := map_option (\<lambda>_. d) (sq_data v1)\<rparr>
              in case move_in index prepared v2 s2 of (st, v3, s3) \<Rightarrow>
                if st \<noteq> STL_OK then (st, Some v3, s3)
                else (STL_OK, Some (bump (v3\<lparr>sq_size := sq_size v3 + 1\<rparr>)), s3))"

definition vec_set ::
  "'a vec ptr \<Rightarrow> size_t \<Rightarrow> 'a option ptr \<Rightarrow> env \<Rightarrow> stl_status \<times> 'a vec ptr \<times> env" where
  "vec_set vec index elem s =
     (if \<not> vec_valid vec \<or> elem = NULL \<or> sq_size (the vec) \<le> index
      then (STL_INVALID_ARGUMENT, vec, s)
      else
        let v = the vec in
        case vec_prepare_copy v elem s of (st, prepared, s1) \<Rightarrow>
        if st \<noteq> STL_OK then (st, vec, s1)
        else
          case sequence_destroy_value (sq_element_type v) (Some (slots v ! index)) of
            (st, d) \<Rightarrow>
              let v1 = set_slot index (the d) v in
              if st \<noteq> STL_OK then (st, Some v1, sequence_deallocate prepared s1)
              else
                case move_in index prepared v1 s1 of (st, v2, s2) \<Rightarrow>
                if st \<noteq> STL_OK then (st, Some v2, s2)
                else (STL_OK, Some (bump v2), s2))"

definition vec_erase ::
  "'a vec ptr \<Rightarrow> size_t \<Rightarrow> 'a option ptr \<Rightarrow> stl_status \<times> 'a vec ptr \<times> 'a option ptr" where
  "vec_erase vec index out_elem =
     (if \<not> vec_valid vec \<or> sq_size (the vec) \<le> index then (STL_INVALID_ARGUMENT, vec, out_elem)
      else
        let v = the vec in
        case take_out (sq_element_type v) out_elem (slots v ! index) of
          (st, out, slot) \<Rightarrow>
            let v1 = set_slot index slot v in
            if st \<noteq> STL_OK then (st, Some v1, out)
            else
              let d = (if sq_element_type v1 = NULL
                       then put_bytes (slots v1) index
                              (take (sq_size v1 - index - 1) (drop (index + 1) (slots v1)))
                       else vec_shift_down (sq_element_type v1) index (sq_size v1) (slots v1))
              in (STL_OK,
                  Some (bump (v1\<lparr>sq_data := map_option (\<lambda>_. d) (sq_data v1),
                                 sq_size := sq_size v1 - 1\<rparr>)), out))"

definition vec_swap_remove ::
  "'a vec ptr \<Rightarrow> size_t \<Rightarrow> 'a option ptr \<Rightarrow> stl_status \<times> 'a vec ptr \<times> 'a option ptr" where
  "vec_swap_remove vec index out_elem =
     (if \<not> vec_valid vec \<or> sq_size (the vec) \<le> index then (STL_INVALID_ARGUMENT, vec, out_elem)
      else
        let v = the vec; last = sq_size v - 1 in
        case take_out (sq_element_type v) out_elem (slots v ! index) of
          (st, out, slot) \<Rightarrow>
            let v1 = set_slot index slot v in
            if st \<noteq> STL_OK then (st, Some v1, out)
            else
              case (if index \<noteq> last
                    then case sequence_move_destroy (sq_element_type v1) (Some (slots v1 ! index))
                                (Some (slots v1 ! last)) of
                      (st, x, y) \<Rightarrow> (st, set_slot last (the y) (set_slot index (the x) v1))
                    else (STL_OK, v1))
              of (st, v2) \<Rightarrow>
                if st \<noteq> STL_OK then (st, Some v2, out)
                else (STL_OK, Some (bump (v2\<lparr>sq_size := sq_size v2 - 1\<rparr>)), out))"

section \<open>Queries\<close>

definition vec_at :: "'a vec ptr \<Rightarrow> size_t \<Rightarrow> 'a option ptr" where
  "vec_at vec index =
     (if vec_valid vec \<and> index < sq_size (the vec) then Some (slots (the vec) ! index) else NULL)"

definition vec_data :: "'a vec ptr \<Rightarrow> 'a option list ptr" where
  "vec_data vec = (if vec_valid vec then sq_data (the vec) else NULL)"

definition vec_size :: "'a vec ptr \<Rightarrow> size_t" where
  "vec_size vec = (if vec_valid vec then sq_size (the vec) else 0)"

definition vec_capacity :: "'a vec ptr \<Rightarrow> size_t" where
  "vec_capacity vec = (if vec_valid vec then sq_capacity (the vec) else 0)"

definition vec_generation :: "'a vec ptr \<Rightarrow> u64" where
  "vec_generation vec = (case vec of None \<Rightarrow> 0 | Some v \<Rightarrow> sq_generation v)"

definition vec_empty :: "'a vec ptr \<Rightarrow> bool" where
  "vec_empty vec \<longleftrightarrow> vec_size vec = 0"

section \<open>Construction from an array\<close>

definition vec_push_all ::
  "'a list \<Rightarrow> 'a vec ptr \<Rightarrow> env \<Rightarrow> stl_status \<times> 'a vec ptr \<times> env" where
  "vec_push_all = push_all vec_push vec_raw_destroy_storage"

definition vec_from_array_bytes ::
  "'a vec ptr \<Rightarrow> 'a list ptr \<Rightarrow> size_t \<Rightarrow> size_t \<Rightarrow> size_t \<Rightarrow> size_t \<Rightarrow> env \<Rightarrow>
   stl_status \<times> 'a vec ptr \<times> env" where
  "vec_from_array_bytes vec elements count elem_size elem_align limit s =
     (if vec = NULL \<or> sq_initialized (the vec) then (STL_INVALID_ARGUMENT, vec, s)
      else if count \<noteq> 0 \<and> elements = NULL \<or> limit < count
        then (if limit < count then STL_CAPACITY_EXCEEDED else STL_INVALID_ARGUMENT, vec, s)
      else
        case vec_init_bytes (Some vec_zeroed) elem_size elem_align limit of (st, t0) \<Rightarrow>
        if st \<noteq> STL_OK then (st, vec, s)
        else
          case vec_push_all (take count (case elements of None \<Rightarrow> [] | Some xs \<Rightarrow> xs)) t0 s of
            (st, t1, s1) \<Rightarrow>
              if st \<noteq> STL_OK then (st, vec, s1)
              else (STL_OK, Some ((the t1)\<lparr>sq_generation := sq_generation (the vec) + 1\<rparr>), s1))"

definition vec_raw_from_array ::
  "'a vec ptr \<Rightarrow> 'a list ptr \<Rightarrow> size_t \<Rightarrow> 'a cmeta_type_desc ptr \<Rightarrow> size_t \<Rightarrow> env \<Rightarrow>
   stl_status \<times> 'a vec ptr \<times> env" where
  "vec_raw_from_array vec elements count type limit s =
     (if vec = NULL \<or> sq_initialized (the vec) then (STL_INVALID_ARGUMENT, vec, s)
      else if count \<noteq> 0 \<and> elements = NULL \<or> limit < count
        then (if limit < count then STL_CAPACITY_EXCEEDED else STL_INVALID_ARGUMENT, vec, s)
      else
        case vec_raw_init (Some vec_zeroed) type limit of (st, t0) \<Rightarrow>
        if st \<noteq> STL_OK then (st, vec, s)
        else
          case vec_push_all (take count (case elements of None \<Rightarrow> [] | Some xs \<Rightarrow> xs)) t0 s of
            (st, t1, s1) \<Rightarrow>
              if st \<noteq> STL_OK then (st, vec, s1)
              else (STL_OK, Some ((the t1)\<lparr>sq_generation := sq_generation (the vec) + 1\<rparr>), s1))"

section \<open>The self-describing entry points\<close>

definition vec_init :: "'a vec ptr \<Rightarrow> size_t \<Rightarrow> stl_status \<times> 'a vec ptr" where
  "vec_init vec element_limit =
     (if vec = NULL \<or> sq_element_type (the vec) = NULL then (STL_INVALID_ARGUMENT, vec)
      else
        let kind = sq_descriptor (the vec); type = sq_element_type (the vec) in
        case vec_raw_init vec type element_limit of (st, vec1) \<Rightarrow>
        let v = (the vec1)\<lparr>sq_descriptor := kind\<rparr> in
        (st, Some (if st \<noteq> STL_OK then v\<lparr>sq_element_type := type\<rparr> else v)))"

definition vec_from_array ::
  "'a vec ptr \<Rightarrow> 'a list ptr \<Rightarrow> size_t \<Rightarrow> size_t \<Rightarrow> env \<Rightarrow> stl_status \<times> 'a vec ptr \<times> env" where
  "vec_from_array vec elements count element_limit s =
     (if vec = NULL \<or> sq_element_type (the vec) = NULL then (STL_INVALID_ARGUMENT, vec, s)
      else
        let kind = sq_descriptor (the vec); type = sq_element_type (the vec) in
        case vec_raw_from_array vec elements count type element_limit s of (st, vec1, s1) \<Rightarrow>
        let v = (the vec1)\<lparr>sq_descriptor := kind\<rparr> in
        (st, Some (if st \<noteq> STL_OK then v\<lparr>sq_element_type := type\<rparr> else v), s1))"

definition vec_destroy :: "'a vec ptr \<Rightarrow> env \<Rightarrow> 'a vec ptr \<times> env" where
  "vec_destroy vec s =
     (if vec = NULL then (NULL, s)
      else
        let kind = sq_descriptor (the vec); type = sq_element_type (the vec) in
        case vec_raw_destroy_storage vec s of (vec1, s1) \<Rightarrow>
        (Some ((the vec1)\<lparr>sq_descriptor := kind, sq_element_type := type\<rparr>), s1))"

section \<open>The list model\<close>

datatype 'a vec_op =
    Vec_push 'a
  | Vec_pop "'a option ptr"
  | Vec_insert size_t 'a
  | Vec_set size_t 'a
  | Vec_erase size_t "'a option ptr"
  | Vec_swap_remove size_t "'a option ptr"
  | Vec_clear
  | Vec_reserve size_t
  | Vec_resize size_t

fun vec_out :: "'a vec_op \<Rightarrow> 'a option ptr" where
  "vec_out (Vec_pop out) = out"
| "vec_out (Vec_erase i out) = out"
| "vec_out (Vec_swap_remove i out) = out"
| "vec_out _ = NULL"

fun vec_apply ::
  "'a \<Rightarrow> 'a vec_op \<Rightarrow> 'a vec ptr \<Rightarrow> env \<Rightarrow> stl_status \<times> 'a vec ptr \<times> 'a option ptr \<times> env" where
  "vec_apply zero (Vec_push x) vec s =
     (case vec_push vec (Some (Some x)) s of (st, w, s') \<Rightarrow> (st, w, NULL, s'))"
| "vec_apply zero (Vec_pop out) vec s = (case vec_pop vec out of (st, w, o') \<Rightarrow> (st, w, o', s))"
| "vec_apply zero (Vec_insert i x) vec s =
     (case vec_insert vec i (Some (Some x)) s of (st, w, s') \<Rightarrow> (st, w, NULL, s'))"
| "vec_apply zero (Vec_set i x) vec s =
     (case vec_set vec i (Some (Some x)) s of (st, w, s') \<Rightarrow> (st, w, NULL, s'))"
| "vec_apply zero (Vec_erase i out) vec s =
     (case vec_erase vec i out of (st, w, o') \<Rightarrow> (st, w, o', s))"
| "vec_apply zero (Vec_swap_remove i out) vec s =
     (case vec_swap_remove vec i out of (st, w, o') \<Rightarrow> (st, w, o', s))"
| "vec_apply zero Vec_clear vec s = (case vec_clear vec of (st, w) \<Rightarrow> (st, w, NULL, s))"
| "vec_apply zero (Vec_reserve n) vec s =
     (case vec_reserve vec n s of (st, w, s') \<Rightarrow> (st, w, NULL, s'))"
| "vec_apply zero (Vec_resize n) vec s =
     (case vec_resize zero vec n s of (st, w, s') \<Rightarrow> (st, w, NULL, s'))"

fun vec_model ::
  "'a \<Rightarrow> size_t \<Rightarrow> bool \<Rightarrow> 'a vec_op \<Rightarrow> 'a list \<Rightarrow> stl_status \<times> 'a list \<times> 'a option" where
  "vec_model zero limit typed (Vec_push x) xs =
     (if limit \<le> length xs then (STL_CAPACITY_EXCEEDED, xs, None) else (STL_OK, xs @ [x], None))"
| "vec_model zero limit typed (Vec_pop _) xs =
     (if xs = [] then (STL_EMPTY, xs, None) else (STL_OK, butlast xs, Some (last xs)))"
| "vec_model zero limit typed (Vec_insert i x) xs =
     (if length xs < i then (STL_INVALID_ARGUMENT, xs, None)
      else if limit \<le> length xs then (STL_CAPACITY_EXCEEDED, xs, None)
      else (STL_OK, take i xs @ x # drop i xs, None))"
| "vec_model zero limit typed (Vec_set i x) xs =
     (if length xs \<le> i then (STL_INVALID_ARGUMENT, xs, None) else (STL_OK, xs[i := x], None))"
| "vec_model zero limit typed (Vec_erase i _) xs =
     (if length xs \<le> i then (STL_INVALID_ARGUMENT, xs, None)
      else (STL_OK, take i xs @ drop (i + 1) xs, Some (xs ! i)))"
| "vec_model zero limit typed (Vec_swap_remove i _) xs =
     (if length xs \<le> i then (STL_INVALID_ARGUMENT, xs, None)
      else (STL_OK, butlast (xs[i := last xs]), Some (xs ! i)))"
| "vec_model zero limit typed Vec_clear xs = (STL_OK, [], None)"
| "vec_model zero limit typed (Vec_reserve n) xs =
     (if limit < n then (STL_CAPACITY_EXCEEDED, xs, None) else (STL_OK, xs, None))"
| "vec_model zero limit typed (Vec_resize n) xs =
     (if limit < n then (STL_CAPACITY_EXCEEDED, xs, None)
      else if n \<le> length xs then (STL_OK, take n xs, None)
      else if typed then (STL_TRAIT_MISSING, xs, None)
      else (STL_OK, xs @ replicate (n - length xs) zero, None))"

section \<open>Each operation meets its contract\<close>

lemma linear_rep_valid: "linear_rep v xs \<Longrightarrow> vec_valid (Some v)"
  by (simp add: linear_rep_def storage_ok_def vec_valid_def)

lemma vec_min_pos [simp]: "SALTS_VEC_MIN_CAPACITY \<noteq> 0"
  by (simp add: SALTS_VEC_MIN_CAPACITY_def)

text \<open>What \<open>vec_push\<close> and \<open>vec_insert\<close> do first: copy, then make room.\<close>

lemma copy_then_grow:
  assumes rep: "linear_rep v xs" and room: "\<not> sq_element_limit v \<le> sq_size v"
    and copy: "vec_prepare_copy v (Some (Some x)) s = (st1, prepared, s1)"
    and grow: "vec_grow_to (Some v) (sq_size v + 1) NULL s1 = (st2, vec1, ch, s2)"
  obtains (nocopy) "st1 \<in> {STL_CAPACITY_EXCEEDED, STL_OUT_OF_MEMORY}" "env_delta 0 s s1"
      "\<not> supplied v s"
    | (nogrow) "st1 = STL_OK" "prepared = Some (Some x)"
      "st2 \<in> {STL_CAPACITY_EXCEEDED, STL_OUT_OF_MEMORY}" "vec1 = Some v" "env_delta 1 s s2"
      "\<not> supplied v s"
    | (grown) v1 where "st1 = STL_OK" "prepared = Some (Some x)" "st2 = STL_OK"
      "vec1 = Some v1" "linear_rep v1 xs" "length xs < sq_capacity v1"
      "regrown v v1" "env_delta (blocks v1 - blocks v + 1) s s2"
proof -
  have ok: "storage_ok v" "sq_size v = length xs" using rep by (auto simp: linear_rep_def)
  obtain st3 q' changed s3 where g:
    "seq_grow_to SALTS_VEC_MIN_CAPACITY v (sq_size v + 1) s1 = (st3, q', changed, s3)"
    by (metis prod_cases4)
  then have res: "st2 = st3" "vec1 = Some q'" "s2 = s3"
    using grow linear_rep_valid [OF rep] by (auto simp: vec_grow_to_def)
  note c = prepare_copy_cases [OF ok(1) copy [unfolded vec_prepare_copy_def]]
  note r = grow_to_cases [OF rep vec_min_pos g]
  have nolimit: "\<not> sq_element_limit v < sq_size v + 1" using room by simp
  show thesis
  proof (cases "st1 = STL_OK \<and> st3 = STL_OK")
    case True
    then show thesis
      using c r res ok(2) env_delta_trans [of 1 s s1 "blocks q' - blocks v" s3]
      by (intro grown [of q']) (auto simp: add.commute)
  next
    case False
    then show thesis
      using c r res nolimit env_delta_trans [of 1 s s1 0 s3] supplied_delta [of 1 s s1 v]
        nocopy nogrow by auto
  qed
qed

abbreviation vec_contract :: "'a \<Rightarrow> 'a vec_op \<Rightarrow> 'a vec \<Rightarrow> 'a list \<Rightarrow> env \<Rightarrow> bool" where
  "vec_contract zero op v xs s \<equiv>
     op_outcome linear_rep v s (vec_out op)
       (vec_model zero (sq_element_limit v) (sq_element_type v \<noteq> NULL) op xs)
       (vec_apply zero op (Some v) s)"

lemma vec_push_contract:
  assumes rep: "linear_rep v xs"
  shows "vec_contract zero (Vec_push x) v xs s"
proof (cases "sq_element_limit v \<le> sq_size v")
  case True
  then show ?thesis
    using rep linear_rep_valid [OF rep] outcome_unchanged [where rep = linear_rep, OF rep]
    by (simp add: vec_push_def linear_rep_def)
next
  case room: False
  have len: "sq_size v = length xs" "storage_ok v" using rep by (auto simp: linear_rep_def)
  obtain st1 prepared s1 where copy: "vec_prepare_copy v (Some (Some x)) s = (st1, prepared, s1)"
    by (metis prod_cases3)
  obtain st2 vec1 ch s2 where grow: "vec_grow_to (Some v) (sq_size v + 1) NULL s1 = (st2, vec1, ch, s2)"
    by (metis prod_cases4)
  note push = vec_push_def [of "Some v"] linear_rep_valid [OF rep] room copy grow
  from rep room copy grow show ?thesis
  proof (cases rule: copy_then_grow)
    case nocopy
    then show ?thesis using push by (auto intro!: outcome_refused)
  next
    case nogrow
    then show ?thesis using push len(2)
      by (auto simp: vec_discard_prepared_def intro!: outcome_refused)
  next
    case (grown v1)
    obtain rest where slots: "slots v1 = map Some xs @ rest" and v1: "storage_ok v1" "sq_size v1 = length xs"
      "length (slots v1) = sq_capacity v1"
      using grown(5) by (auto simp: linear_rep_split storage_ok_def)
    then obtain r rest' where "rest = r # rest'" using grown(6) by (cases rest) auto
    then have "linear_rep ((set_slot (sq_size v1) (Some x) v1)\<lparr>sq_size := sq_size v1 + 1\<rparr>) (xs @ [x])"
      unfolding set_slot_alt using v1 slots by (intro linear_repI [of _ _ _ rest']) auto
    then show ?thesis
      using push grown v1 len regrown_fields [OF grown(7)]
      by (auto intro!: outcome_changed simp: deliver_def)
  qed
qed

text \<open>The loops of insertion and removal, on a block that holds \<open>as\<close> and \<open>bs\<close>.\<close>

lemma vec_shift_up_block:
  assumes "elem_ok type"
  shows "\<exists>v. vec_shift_up type (length as) (length as + length bs) (map Some as @ map Some bs @ r # rest) =
     map Some as @ v # map Some bs @ rest"
proof (induction bs arbitrary: r rest rule: rev_induct)
  case Nil
  then show ?case by (simp add: vec_shift_up.simps)
next
  case (snoc b bs)
  let ?d = "map Some as @ map Some bs @ Some b # r # rest"
  have d: "?d = map Some (as @ bs) @ Some b # r # rest" "?d = map Some (as @ bs @ [b]) @ r # rest"
    by simp_all
  have n: "?d ! (length as + length bs) = Some b"
    by (metis d(1) length_append update_at_map(2))
  have "?d[Suc (length as + length bs) := Some b] = map Some (as @ bs) @ Some b # Some b # rest"
    using update_at_map(1) [of Some "as @ bs @ [b]" r rest "Some b"] by simp
  then have u: "?d[Suc (length as + length bs) := Some b, length as + length bs := v] =
      map Some as @ map Some bs @ v # Some b # rest" for v
    using update_at_map(1) [of Some "as @ bs" "Some b" "Some b # rest" v] by simp
  have "vec_shift_up type (length as) (Suc (length as + length bs)) ?d =
      vec_shift_up type (length as) (length as + length bs)
        (map Some as @ map Some bs @ vacated type (Some b) # Some b # rest)"
    using assms n by (subst vec_shift_up.simps) (simp add: u)
  then show ?case using snoc [of "vacated type (Some b)" "Some b # rest"] by simp
qed

lemma vec_shift_down_block:
  assumes "elem_ok type"
  shows "\<exists>v'. vec_shift_down type (length as) (length as + 1 + length bs)
       (map Some as @ v # map Some bs @ rest) = map Some as @ map Some bs @ v' # rest"
proof (induction bs arbitrary: as v)
  case Nil
  then show ?case by (simp add: vec_shift_down.simps)
next
  case (Cons b bs)
  let ?d = "map Some as @ v # Some b # map Some bs @ rest"
  have n: "?d ! Suc (length as) = Some b"
    using update_at_map(2) [of Some "as @ [undefined]" "Some b" "map Some bs @ rest"]
    by (simp add: nth_append)
  have u: "?d[length as := Some b, Suc (length as) := w] =
      map Some (as @ [b]) @ w # map Some bs @ rest" for w
    using update_at_map(1) [of Some "as @ [b]" "Some b" "map Some bs @ rest" w] by simp
  have "vec_shift_down type (length as) (length as + 1 + length (b # bs)) ?d =
      vec_shift_down type (length (as @ [b])) (length (as @ [b]) + 1 + length bs)
        (map Some (as @ [b]) @ vacated type (Some b) # map Some bs @ rest)"
    using assms n by (subst vec_shift_down.simps) (simp add: u [simplified])
  then show ?case using Cons [of "as @ [b]" "vacated type (Some b)"] by simp
qed

lemma vec_pop_contract:
  assumes rep: "linear_rep v xs"
  shows "vec_contract zero (Vec_pop out) v xs s"
proof (cases xs rule: rev_cases)
  case Nil
  then show ?thesis
    using rep linear_rep_valid [OF rep] outcome_unchanged [where rep = linear_rep, OF rep]
    by (simp add: vec_pop_def linear_rep_def)
next
  case (snoc ys y)
  obtain rest where v: "slots v = map Some ys @ Some y # rest" "storage_ok v" "sq_size v = Suc (length ys)"
    "length (slots v) = sq_capacity v" "elem_ok (sq_element_type v)"
    using rep snoc by (auto simp: linear_rep_split storage_ok_def)
  have "linear_rep ((set_slot (length ys) w v)\<lparr>sq_size := length ys\<rparr>) ys" for w
    unfolding set_slot_alt using v by (intro linear_repI [of _ _ _ "w # rest"]) auto
  then show ?thesis
    using v snoc linear_rep_valid [OF rep]
    by (auto simp: vec_pop_def Let_def deliver_def intro!: outcome_changed)
qed

lemma vec_insert_contract:
  assumes rep: "linear_rep v xs"
  shows "vec_contract zero (Vec_insert i x) v xs s"
proof (cases "length xs < i \<or> sq_element_limit v \<le> sq_size v")
  case True
  then show ?thesis
    using rep linear_rep_valid [OF rep] outcome_unchanged [where rep = linear_rep, OF rep]
    by (auto simp: vec_insert_def linear_rep_def)
next
  case False
  then have i: "i \<le> length xs" and room: "\<not> sq_element_limit v \<le> sq_size v" by auto
  have len: "sq_size v = length xs" "storage_ok v" using rep by (auto simp: linear_rep_def)
  obtain st1 prepared s1 where copy: "vec_prepare_copy v (Some (Some x)) s = (st1, prepared, s1)"
    by (metis prod_cases3)
  obtain st2 vec1 ch s2 where grow: "vec_grow_to (Some v) (sq_size v + 1) NULL s1 = (st2, vec1, ch, s2)"
    by (metis prod_cases4)
  note insert = vec_insert_def [of "Some v"] linear_rep_valid [OF rep] room i copy grow
  from rep room copy grow show ?thesis
  proof (cases rule: copy_then_grow)
    case nocopy
    then show ?thesis using insert len by (auto intro!: outcome_refused)
  next
    case nogrow
    then show ?thesis using insert len
      by (auto simp: vec_discard_prepared_def intro!: outcome_refused)
  next
    case (grown v1)
    define as bs where "as = take i xs" and "bs = drop i xs"
    have xs: "xs = as @ bs" "i = length as" using i by (simp_all add: as_def bs_def)
    obtain rest0 where rest0: "slots v1 = map Some xs @ rest0"
      and v1: "storage_ok v1" "sq_size v1 = length xs" "length (slots v1) = sq_capacity v1"
        "elem_ok (sq_element_type v1)"
      using grown(5) by (auto simp: linear_rep_split storage_ok_def)
    then obtain r rest where "rest0 = r # rest" using grown(6) by (cases rest0) auto
    then have slots: "slots v1 = map Some as @ map Some bs @ r # rest" using rest0 xs(1) by simp
    define d where "d = (if sq_element_type v1 = NULL
                       then put_bytes (slots v1) (i + 1) (take (sq_size v1 - i) (drop i (slots v1)))
                       else vec_shift_up (sq_element_type v1) i (sq_size v1) (slots v1))"
    have "\<exists>w. d = map Some as @ w # map Some bs @ rest"
      using vec_shift_up_block [OF v1(4), of as bs r rest] slots v1(2) xs
      by (cases bs) (auto simp: d_def put_bytes_def)
    then obtain w where d: "d = map Some as @ w # map Some bs @ rest" by blast
    let ?v2 = "v1\<lparr>sq_data := map_option (\<lambda>_. d) (sq_data v1)\<rparr>"
    have v2: "storage_ok ?v2" "slots ?v2 = d"
      using v1 d slots by (cases "sq_data v1"; auto simp: storage_ok_def)+
    have "linear_rep ((set_slot i (Some x) ?v2)\<lparr>sq_size := Suc (length xs)\<rparr>) (as @ x # bs)"
      unfolding set_slot_alt using v2 d slots v1 xs by (intro linear_repI [of _ _ _ rest]) auto
    then show ?thesis
      using insert grown v1 v2 len regrown_fields [OF grown(7)] d_def
      by (auto intro!: outcome_changed simp: deliver_def as_def bs_def Let_def)
  qed
qed

lemma vec_set_contract:
  assumes rep: "linear_rep v xs"
  shows "vec_contract zero (Vec_set i x) v xs s"
proof (cases "length xs \<le> i")
  case True
  then show ?thesis
    using rep linear_rep_valid [OF rep] outcome_unchanged [where rep = linear_rep, OF rep]
    by (auto simp: vec_set_def linear_rep_def)
next
  case i: False
  obtain st1 prepared s1 where copy: "vec_prepare_copy v (Some (Some x)) s = (st1, prepared, s1)"
    by (metis prod_cases3)
  obtain rest where v: "slots v = map Some xs @ rest" "storage_ok v" "sq_size v = length xs"
    "length (slots v) = sq_capacity v" "elem_ok (sq_element_type v)"
    using rep by (auto simp: linear_rep_split storage_ok_def)
  have "linear_rep ((set_slot i (Some x) (set_slot i w v))\<lparr>sq_size := length xs\<rparr>) (xs[i := x])" for w
    unfolding set_slot_alt [of i "Some x"] using v i
    by (intro linear_repI [of _ _ _ rest]) (auto simp: list_update_append map_update)
  then have "linear_rep (set_slot i (Some x) (set_slot i w v)) (xs[i := x])" for w
    using v(3) by (simp add: linear_rep_def storage_ok_def)
  then show ?thesis
    using i v copy linear_rep_valid [OF rep]
      prepare_copy_cases [OF v(2) copy [unfolded vec_prepare_copy_def]]
    by (auto simp: vec_set_def deliver_def Let_def intro!: outcome_changed outcome_refused)
qed

lemma vec_erase_contract:
  assumes rep: "linear_rep v xs"
  shows "vec_contract zero (Vec_erase i out) v xs s"
proof (cases "length xs \<le> i")
  case True
  then show ?thesis
    using rep linear_rep_valid [OF rep] outcome_unchanged [where rep = linear_rep, OF rep]
    by (auto simp: vec_erase_def linear_rep_def)
next
  case False
  define as b bs where "as = take i xs" and "b = xs ! i" and "bs = drop (Suc i) xs"
  have xs: "xs = as @ b # bs" "i = length as"
    using False by (simp_all add: as_def b_def bs_def id_take_nth_drop)
  obtain rest where v: "slots v = map Some as @ Some b # map Some bs @ rest" "storage_ok v"
    "sq_size v = length as + 1 + length bs" "length (slots v) = sq_capacity v"
    "elem_ok (sq_element_type v)"
    using rep xs(1) by (auto simp: linear_rep_split storage_ok_def)
  let ?v1 = "set_slot i (vacated (sq_element_type v) (Some b)) v"
  have s1: "slots ?v1 = map Some as @ vacated (sq_element_type v) (Some b) # map Some bs @ rest"
    using v(1) xs(2) by simp
  define d where "d = (if sq_element_type ?v1 = NULL
                       then put_bytes (slots ?v1) i
                              (take (sq_size ?v1 - i - 1) (drop (i + 1) (slots ?v1)))
                       else vec_shift_down (sq_element_type ?v1) i (sq_size ?v1) (slots ?v1))"
  have "\<exists>w. d = map Some as @ map Some bs @ w # rest"
  proof (cases "sq_element_type v")
    case None
    then have "d = map Some as @ map Some bs @ drop (length bs) (Some b # map Some bs @ rest)"
      unfolding d_def s1 using v(3) xs(2) by (simp add: put_bytes_def vacated_def)
    moreover have "\<exists>w. drop (length bs) (Some b # map Some bs @ rest) = w # rest"
      by (cases bs rule: rev_cases) (auto simp: drop_Cons')
    ultimately show ?thesis by auto
  next
    case (Some t)
    then show ?thesis
      unfolding d_def s1 using vec_shift_down_block [OF v(5), of as bs _ rest] v(3) xs(2) by simp
  qed
  then obtain w where d: "d = map Some (as @ bs) @ w # rest" by auto
  have "linear_rep (?v1\<lparr>sq_data := map_option (\<lambda>_. d) (sq_data ?v1), sq_size := sq_size v - 1\<rparr>)
      (as @ bs)"
    using v d by (intro linear_repI [of _ _ _ "w # rest"]) auto
  moreover have "map_option (\<lambda>_. Some b) out = deliver (Some b) out" by (simp add: deliver_def)
  moreover have "vec_model zero l t (Vec_erase i out) xs = (STL_OK, as @ bs, Some b)" for l t
    using False by (simp add: as_def b_def bs_def)
  moreover have "vec_erase (Some v) i out =
      (STL_OK, Some (bump (?v1\<lparr>sq_data := map_option (\<lambda>_. d) (sq_data ?v1), sq_size := sq_size v - 1\<rparr>)),
       map_option (\<lambda>_. Some b) out)"
    using linear_rep_valid [OF rep] v xs by (simp add: vec_erase_def d_def Let_def)
  ultimately show ?thesis
    by (auto intro!: outcome_changed simp: set_slot_def blocks_def)
qed

lemma vec_swap_remove_contract:
  assumes rep: "linear_rep v xs"
  shows "vec_contract zero (Vec_swap_remove i out) v xs s"
proof (cases "length xs \<le> i")
  case True
  then show ?thesis
    using rep linear_rep_valid [OF rep] outcome_unchanged [where rep = linear_rep, OF rep]
    by (auto simp: vec_swap_remove_def linear_rep_def)
next
  case False
  then obtain ys y where xs: "xs = ys @ [y]" by (cases xs rule: rev_cases) auto
  obtain rest where v: "slots v = map Some ys @ Some y # rest" "storage_ok v"
    "sq_size v = Suc (length ys)" "length (slots v) = sq_capacity v" "elem_ok (sq_element_type v)"
    using rep xs by (auto simp: linear_rep_split storage_ok_def)
  show ?thesis
  proof (cases "i = length ys")
    case True
    have "linear_rep ((set_slot i w v)\<lparr>sq_size := length ys\<rparr>) ys" for w
      unfolding set_slot_alt using v True by (intro linear_repI [of _ _ _ "w # rest"]) auto
    then show ?thesis
      using True v xs linear_rep_valid [OF rep]
      by (auto simp: vec_swap_remove_def Let_def deliver_def intro!: outcome_changed)
  next
    case ne: False
    then have i: "i < length ys" using False xs by simp
    have "linear_rep ((set_slot (length ys) w (set_slot i (Some y) (set_slot i u v)))\<lparr>sq_size := length ys\<rparr>)
        (ys[i := y])" for u w
      unfolding set_slot_alt [of "length ys"] using v i
      by (intro linear_repI [of _ _ _ "w # rest"])
        (auto simp: list_update_append map_update)
    then show ?thesis
      using ne i v xs linear_rep_valid [OF rep]
      by (auto simp: vec_swap_remove_def Let_def deliver_def nth_append list_update_append
          butlast_append intro!: outcome_changed)
  qed
qed

lemma vec_clear_contract:
  assumes rep: "linear_rep v xs"
  shows "vec_contract zero Vec_clear v xs s"
proof -
  have v: "storage_ok v" "sq_size v = length xs" "elem_ok (sq_element_type v)"
    "length (slots v) = sq_capacity v"
    using rep by (auto simp: linear_rep_def storage_ok_def)
  obtain d where d: "destroy_loop (sq_element_type v) id (sq_size v) 0 (slots v) = (STL_OK, d)"
    "length d = length (slots v)"
    using destroy_loop_OK [OF v(3)] by blast
  show ?thesis
  proof (cases "xs = []")
    case True
    then have "d = slots v" using d(1) v(2) by (simp add: destroy_loop.simps)
    then have "v\<lparr>sq_data := map_option (\<lambda>_. d) (sq_data v)\<rparr> = v" by (cases "sq_data v") auto
    then show ?thesis
      using True d v(2) rep linear_rep_valid [OF rep] outcome_unchanged [where rep = linear_rep, OF rep]
      by (simp add: vec_clear_def Let_def)
  next
    case False
    have "linear_rep (v\<lparr>sq_data := map_option (\<lambda>_. d) (sq_data v), sq_size := 0\<rparr>) []"
      using v d by (intro linear_repI [of _ _ _ d]) auto
    then show ?thesis
      using False d v(2) linear_rep_valid [OF rep]
      by (auto simp: vec_clear_def Let_def deliver_def blocks_def intro!: outcome_changed)
  qed
qed

lemma vec_reserve_contract:
  assumes rep: "linear_rep v xs"
  shows "vec_contract zero (Vec_reserve n) v xs s"
proof -
  obtain st q' ch s' where g: "seq_grow_to SALTS_VEC_MIN_CAPACITY v n s = (st, q', ch, s')"
    by (metis prod_cases4)
  have le: "sq_capacity q' \<le> sq_element_limit q'" if "linear_rep q' xs"
    using that by (simp add: linear_rep_def storage_ok_def)
  have r: "vec_apply zero (Vec_reserve n) (Some v) s =
      (st, Some (if st = STL_OK \<and> ch then bump q' else q'), NULL, s')"
    using g linear_rep_valid [OF rep] by (simp add: vec_reserve_def vec_grow_to_def)
  show ?thesis
    using grow_to_cases [OF rep vec_min_pos g] le rep regrown_fields [of v q']
    unfolding r
    by (auto simp: op_outcome_def deliver_def)
qed

text \<open>The shrinking loop drops elements from the end.\<close>

lemma vec_shrink_loop_OK:
  "linear_rep v xs \<Longrightarrow> new_size \<le> length xs \<Longrightarrow>
   \<exists>w. vec_shrink_loop new_size v = (STL_OK, w) \<and> linear_rep w (take new_size xs) \<and>
     same_config v w \<and> sq_generation w = sq_generation v \<and> blocks w = blocks v"
proof (induction xs arbitrary: v rule: rev_induct)
  case Nil
  then show ?case by (subst vec_shrink_loop.simps) (simp add: linear_rep_def)
next
  case (snoc x xs)
  obtain rest where v: "slots v = map Some xs @ Some x # rest" "storage_ok v"
    "sq_size v = Suc (length xs)" "length (slots v) = sq_capacity v" "elem_ok (sq_element_type v)"
    using snoc.prems(1) by (auto simp: linear_rep_split storage_ok_def)
  show ?case
  proof (cases "new_size = length (xs @ [x])")
    case True
    then show ?thesis using snoc.prems v by (subst vec_shrink_loop.simps) simp
  next
    case False
    let ?v1 = "v\<lparr>sq_size := length xs\<rparr>"
    let ?v2 = "set_slot (length xs) (vacated (sq_element_type v) (Some x)) ?v1"
    have rep: "linear_rep ?v2 xs"
      using v by (cases "sq_data v") (auto simp: linear_rep_split storage_ok_def set_slot_def)
    have "vec_shrink_loop new_size v = vec_shrink_loop new_size ?v2"
      using False v snoc.prems(2) by (subst vec_shrink_loop.simps) (simp add: Let_def)
    then show ?thesis
      using snoc.IH [OF rep] False snoc.prems(2)
      by (auto simp: same_config_def set_slot_def blocks_def)
  qed
qed

lemma vec_resize_contract:
  assumes rep: "linear_rep v xs"
  shows "vec_contract zero (Vec_resize n) v xs s"
proof -
  have v: "vec_valid (Some v)" "sq_size v = length xs" "sq_size v \<le> sq_element_limit v"
    using rep linear_rep_valid [OF rep] by (auto simp: linear_rep_def storage_ok_def)
  consider (none) "sq_element_limit v < n \<or> n = length xs \<or> length xs < n \<and> sq_element_type v \<noteq> NULL"
    | (shrink) "n < length xs"
    | (grow) "length xs < n" "n \<le> sq_element_limit v" "sq_element_type v = NULL"
    by linarith
  then show ?thesis
  proof cases
    case none
    then show ?thesis
      using v rep outcome_unchanged [where rep = linear_rep, OF rep, of s s]
      by (auto simp: vec_resize_def Let_def)
  next
    case shrink
    then obtain w where "vec_shrink_loop n v = (STL_OK, w)" "linear_rep w (take n xs)"
      "same_config v w" "sq_generation w = sq_generation v" "blocks w = blocks v"
      using vec_shrink_loop_OK [OF rep, of n] by auto
    then show ?thesis
      using shrink v by (auto simp: vec_resize_def Let_def deliver_def intro!: outcome_changed)
  next
    case grow
    obtain st q' ch s' where g: "seq_grow_to SALTS_VEC_MIN_CAPACITY v n s = (st, q', ch, s')"
      by (metis prod_cases4)
    define w where "w = q'\<lparr>sq_data := map_option (\<lambda>d. put_bytes d (length xs)
        (replicate (n - length xs) (Some zero))) (sq_data q'), sq_size := n\<rparr>"
    have r: "vec_apply zero (Vec_resize n) (Some v) s =
        (st, Some (if st = STL_OK then bump w else q'), NULL, s')"
      using g v grow by (simp add: vec_resize_def vec_grow_to_def Let_def w_def)
    show ?thesis
    proof (cases "st = STL_OK")
      case False
      then show ?thesis
        using grow_to_cases [OF rep vec_min_pos g] grow r by (auto intro!: outcome_refused)
    next
      case True
      then have q': "linear_rep q' xs" "n \<le> sq_capacity q'" "regrown v q'"
        "env_delta (blocks q' - blocks v) s s'"
        using grow_to_cases [OF rep vec_min_pos g] by auto
      obtain d where d: "sq_data q' = Some d" using q' grow(1)
        by (auto simp: linear_rep_def storage_ok_def)
      have "linear_rep w (xs @ replicate (n - length xs) zero)"
        unfolding w_def d using q' grow(1) d
        by (auto simp: linear_rep_def storage_ok_def put_bytes_def)
      then show ?thesis
        using True r grow q'(4) regrown_fields [OF q'(3)]
        by (auto intro!: outcome_changed simp: deliver_def w_def blocks_def)
    qed
  qed
qed

lemmas vec_contracts =
  vec_push_contract vec_pop_contract vec_insert_contract vec_set_contract vec_erase_contract
  vec_swap_remove_contract vec_clear_contract vec_reserve_contract vec_resize_contract

interpretation vec_machine: sequence_machine linear_rep "vec_apply zero" vec_out "vec_model zero"
  for zero :: 'a
proof
  fix q :: "'a vec" and xs s op
  assume "linear_rep q xs"
  then show "vec_contract zero op q xs s"
    by (cases op) (auto simp only: intro: vec_contracts)
next
  fix n t op xs st ys and y :: "'a option"
  assume "vec_model zero n t op xs = (st, ys, y)" and "st \<noteq> STL_OK"
  then show "ys = xs" by (cases op) (auto split: if_splits)
qed

section \<open>Life cycle\<close>

lemma vec_initialize_rep:
  assumes "vec_initialize (Some v0) type elem_size elem_align limit = (STL_OK, r)" and "elem_ok type"
    and "elem_size \<le> SIZE_MAX" and "elem_align \<le> SIZE_MAX"
  shows "\<exists>v. r = Some v \<and> linear_rep v [] \<and> blocks v = 0 \<and> sq_element_type v = type \<and>
     sq_element_limit v = limit \<and> sq_generation v = sq_generation v0 + 1 \<and> sq_elem_align v = elem_align"
proof -
  obtain st c where sst: "sequence_stride elem_size elem_align (Some 0) = (st, c)"
    using prod.exhaust by blast
  then have st: "st = STL_OK" "\<not> sq_initialized v0"
    using assms(1) by (auto simp: vec_initialize_def split: if_splits)
  have "the c \<noteq> 0" "elem_size \<noteq> 0" "sequence_alignment_valid elem_align"
    using stride_nonzero [OF sst [unfolded st] assms(3,4)] stride_OK_cases [OF sst [unfolded st]]
    by auto
  then show ?thesis
    using assms(1,2) sst st
    by (auto simp: vec_initialize_def vec_zeroed_def linear_rep_def storage_ok_def blocks_def)
qed

lemma vec_destroy_storage_delta:
  assumes "linear_rep v xs"
  shows "env_delta (- blocks v) s (snd (vec_raw_destroy_storage (Some v) s)) \<and>
    (\<exists>w. fst (vec_raw_destroy_storage (Some v) s) = Some w \<and> \<not> sq_initialized w \<and> sq_data w = NULL)"
proof -
  have v: "sq_initialized v" "elem_ok (sq_element_type v)"
    using assms by (auto simp: linear_rep_def storage_ok_def)
  obtain d where "destroy_loop (sq_element_type v) id (sq_size v) 0 (slots v) = (STL_OK, d)"
    using destroy_loop_OK [OF v(2)] by blast
  then show ?thesis
    using v linear_rep_valid [OF assms]
    by (auto simp: vec_raw_destroy_storage_def vec_clear_def Let_def blocks_def vec_zeroed_def)
qed

interpretation vec_store:
  push_store linear_rep vec_push vec_raw_destroy_storage "\<lambda>x xs. xs @ [x]" length
proof
  fix q :: "'a vec" and xs x s
  assume rep: "linear_rep q xs"
  show "op_outcome linear_rep q s NULL (STL_OK, xs @ [x], None)
      (case vec_push (Some q) (Some (Some x)) s of (st, w, s') \<Rightarrow> (st, w, NULL, s'))"
    if "length xs < sq_element_limit q"
    using vec_push_contract [OF rep, where x = x and s = s] that by simp
  show "env_delta (- blocks q) s (snd (vec_raw_destroy_storage (Some q) s))"
    using vec_destroy_storage_delta [OF rep] by blast
qed simp

section \<open>Properties\<close>

text \<open>C11: Every mutating operation of the vector, from any well-formed vector and under any
  pattern of allocation failures, either does exactly what the list operation of the model
  does (status, new contents, delivered element) or reports exhaustion and leaves the vector
  bit for bit as it was; it never leaks a block, never changes the configuration, and
  whenever it changes anything the generation counter advances by one.\<close>

theorem vec_operation_contract:
  assumes "linear_rep v xs"
  shows "op_outcome linear_rep v s (vec_out op)
     (vec_model zero (sq_element_limit v) (sq_element_type v \<noteq> NULL) op xs)
     (vec_apply zero op (Some v) s)"
  by (rule vec_machine.contract [OF assms])

text \<open>A vector of raw 4-byte elements holding two of them, in a block of two slots.\<close>

definition pair_vec :: "nat vec" where
  "pair_vec = vec_zeroed\<lparr>sq_data := Some [Some 1, Some 2], sq_size := 2, sq_capacity := 2,
     sq_elem_size := 4, sq_elem_stride := 4, sq_elem_align := 4, sq_element_limit := 3,
     sq_initialized := True\<rparr>"

lemma pair_vec_rep: "linear_rep pair_vec [1, 2]"
  by (simp add: pair_vec_def vec_zeroed_def linear_rep_def storage_ok_def elem_ok_def
      sequence_alignment_valid_def)

theorem vec_operation_contract_witness:
  "linear_rep pair_vec [1, 2] \<and>
   op_outcome linear_rep pair_vec never_env (Some None) (STL_OK, [2], Some 1)
     (vec_apply 0 (Vec_erase 0 (Some None)) (Some pair_vec) never_env)"
  using vec_operation_contract [OF pair_vec_rep, of never_env "Vec_erase 0 (Some None)" 0] pair_vec_rep
  by simp

text \<open>Whatever allocations fail during a run of operations, the vector ends up holding
  exactly the effect of the operations that returned \<open>STL_OK\<close>, in order, and destroying
  it afterwards returns every block the vector ever held.\<close>

theorem vec_run_acknowledged:
  assumes "linear_rep v xs" and "run_ops (vec_apply zero) ops (Some v) s = (rs, v', s')"
  shows "\<exists>w. v' = Some w \<and>
     linear_rep w (replay (vec_model zero (sq_element_limit v) (sq_element_type v \<noteq> NULL)) (zip ops rs) xs) \<and>
     live_blocks (snd (vec_raw_destroy_storage v' s')) = live_blocks s - blocks v"
proof -
  obtain w where w: "v' = Some w" "env_delta (blocks w - blocks v) s s'"
    "linear_rep w (replay (vec_model zero (sq_element_limit v) (sq_element_type v \<noteq> NULL)) (zip ops rs) xs)"
    using vec_machine.run_acknowledged [OF assms] by blast
  then have "live_blocks (snd (vec_raw_destroy_storage v' s')) = live_blocks s' - blocks w"
    using vec_destroy_storage_delta [of w _ s'] by (auto simp: env_delta_def)
  then show ?thesis using w by (auto simp: env_delta_def)
qed

theorem vec_run_acknowledged_witness:
  "\<exists>rs w s'. run_ops (vec_apply 0) [Vec_push 7, Vec_pop NULL] (Some pair_vec) never_env = (rs, Some w, s') \<and>
     linear_rep w (replay (vec_model 0 3 False) (zip [Vec_push 7, Vec_pop NULL] rs) [1, 2]) \<and>
     live_blocks (snd (vec_raw_destroy_storage (Some w) s')) = 0"
proof -
  obtain rs v' s' where r: "run_ops (vec_apply 0) [Vec_push 7, Vec_pop NULL] (Some pair_vec) never_env =
      (rs, v', s')"
    by (metis prod_cases3)
  show ?thesis
    using vec_run_acknowledged [OF pair_vec_rep r] r
    by (auto simp: pair_vec_def vec_zeroed_def never_env_def blocks_def)
qed

text \<open>When memory and element copies are supplied, a run of operations gives the model's
  statuses, delivers the model's elements and leaves the model's list, and nothing is
  leaked.\<close>

theorem vec_run_refines_list:
  assumes "linear_rep v xs" and "supplied v s"
    and "run_model vec_out (vec_model zero (sq_element_limit v) (sq_element_type v \<noteq> NULL)) ops xs = (rs, ys)"
  shows "\<exists>w s'. run_ops (vec_apply zero) ops (Some v) s = (rs, Some w, s') \<and> linear_rep w ys \<and>
     live_blocks s' - blocks w = live_blocks s - blocks v"
  using vec_machine.run_supplied [OF assms] by (fastforce simp: env_delta_def)

lemma pair_vec_supplied: "supplied pair_vec ample_env"
  by (simp add: supplied_def pair_vec_def vec_zeroed_def ample_env_def generous_def copy_total_def
      sizeof_pointer_def SIZE_MAX_def)

theorem vec_run_refines_list_witness:
  "\<exists>w s'. run_ops (vec_apply 0) [Vec_insert 1 7, Vec_push 8, Vec_swap_remove 0 (Some None)]
       (Some pair_vec) ample_env =
     ([(STL_OK, NULL), (STL_CAPACITY_EXCEEDED, NULL), (STL_OK, Some (Some 1))], Some w, s') \<and>
     linear_rep w [2, 7] \<and> live_blocks s' - blocks w = 0"
proof -
  have "run_model vec_out (vec_model 0 (sq_element_limit pair_vec) (sq_element_type pair_vec \<noteq> NULL))
      [Vec_insert 1 7, Vec_push 8, Vec_swap_remove 0 (Some None)] [1, 2] =
    ([(STL_OK, NULL), (STL_CAPACITY_EXCEEDED, NULL), (STL_OK, Some (Some 1))], [2, 7])"
    by (simp add: pair_vec_def vec_zeroed_def deliver_def)
  from vec_run_refines_list [OF pair_vec_rep pair_vec_supplied this] show ?thesis
    by (simp add: pair_vec_def vec_zeroed_def ample_env_def blocks_def)
qed

text \<open>Construction from an array of a lawful element type is all-or-nothing: on success
  the vector holds the first \<open>count\<close> elements under the given limit; on any failure the
  caller's vector is untouched and no block is left allocated; and with a valid layout and
  memory supplied it does succeed.\<close>

theorem vec_raw_from_array_all_or_nothing:
  assumes "traits_lawful t" and "td_size t \<le> SIZE_MAX" and "td_align t \<le> SIZE_MAX"
    and "count \<le> length elements"
    and "vec_raw_from_array vec (Some elements) count (Some t) limit s = (st, r, s')"
  shows "(st = STL_OK \<longrightarrow> (\<exists>w. r = Some w \<and> linear_rep w (take count elements) \<and>
            sq_element_limit w = limit \<and> sq_element_type w = Some t \<and>
            vec_generation r = vec_generation vec + 1 \<and>
            live_blocks s' = live_blocks s + blocks w)) \<and>
         (st \<noteq> STL_OK \<longrightarrow> r = vec \<and> live_blocks s' = live_blocks s) \<and>
         (\<forall>v0 v. vec = Some v0 \<and> \<not> sq_initialized v0 \<and> count \<le> limit \<and>
            vec_raw_init (Some vec_zeroed) (Some t) limit = (STL_OK, Some v) \<and> supplied v s \<longrightarrow>
            st = STL_OK)"
proof (cases "vec = NULL \<or> sq_initialized (the vec) \<or> limit < count")
  case True
  then show ?thesis using assms(5) by (auto simp: vec_raw_from_array_def split: if_splits)
next
  case ok: False
  then obtain v0 where v0: "vec = Some v0" by auto
  obtain st0 t0 where init: "vec_raw_init (Some vec_zeroed) (Some t) limit = (st0, t0)"
    using prod.exhaust by blast
  show ?thesis
  proof (cases "st0 = STL_OK")
    case False
    then show ?thesis using assms(5) ok init by (auto simp: vec_raw_from_array_def split: if_splits)
  next
    case True
    then have req: "sequence_require_type (Some t) False = STL_OK"
      and ini: "vec_initialize (Some vec_zeroed) (Some t) (td_size t) (td_align t) limit = (STL_OK, t0)"
      using init by (auto simp: vec_raw_init_def vec_zeroed_def Let_def split: if_splits)
    have "elem_ok (Some t)" using req assms(1) by (simp add: elem_ok_def)
    then obtain v where v: "t0 = Some v" "linear_rep v []" "blocks v = 0" "sq_element_limit v = limit"
      "sq_element_type v = Some t"
      using vec_initialize_rep [OF ini _ assms(2,3)] by blast
    obtain st1 t1 s1 where p: "vec_push_all (take count elements) (Some v) s = (st1, t1, s1)"
      by (metis prod_cases3)
    have "length (take count elements) \<le> sq_element_limit v"
      using ok v(4) by (simp add: min_le_iff_disj)
    then show ?thesis
      using vec_store.push_all_cases [OF v(2) p [unfolded vec_push_all_def]] assms(5) ok init True v p v0
      by (auto simp: vec_raw_from_array_def env_delta_def vec_generation_def same_config_def
          linear_rep_def storage_ok_def blocks_def split: if_splits)
  qed
qed

text \<open>Two of three elements of an array of natural numbers.\<close>

theorem vec_raw_from_array_all_or_nothing_witness:
  "\<exists>w s'. vec_raw_from_array (Some vec_zeroed) (Some [5, 6, 7]) 2 (Some nat_desc) 9 ample_env =
     (STL_OK, Some w, s') \<and> linear_rep w [5, 6] \<and> sq_element_limit w = 9"
proof -
  obtain st r s' where run:
    "vec_raw_from_array (Some vec_zeroed) (Some [5, 6, 7]) 2 (Some nat_desc) 9 ample_env = (st, r, s')"
    by (metis prod_cases3)
  have bounds: "td_size nat_desc \<le> SIZE_MAX" "td_align nat_desc \<le> SIZE_MAX" "2 \<le> length [5, 6, 7 :: nat]"
    by (simp_all add: nat_desc_def SIZE_MAX_def)
  have four: "sequence_alignment_valid 4" by (simp add: sequence_alignment_valid_def)
  then have "sequence_stride 4 4 (Some 0) = (STL_OK, Some 4)"
    using size_and_not_align [of 4 7] by (simp add: sequence_stride_def SIZE_MAX_def)
  then obtain v where v: "vec_raw_init (Some vec_zeroed) (Some nat_desc) 9 = (STL_OK, Some v)" "supplied v ample_env"
    using nat_desc_type [of False]
    by (simp add: vec_raw_init_def vec_initialize_def vec_zeroed_def nat_desc_def supplied_def
        generous_def ample_env_def sizeof_pointer_def SIZE_MAX_def copy_total_def nat_traits_def)
  show ?thesis
    using vec_raw_from_array_all_or_nothing [OF nat_desc_lawful bounds run] v run
    by (auto simp: vec_zeroed_def)
qed

end
