(* ===== verification/Cstl_Deque.thy ===== *)
theory Cstl_Deque
  imports Cstl_Storage
begin

text \<open>
  The double-ended queue (\<^verbatim>\<open>src/cstl/src/deque.c\<close>, \<^verbatim>\<open>deque.h\<close>): a ring buffer over
  the shared storage header, with \<open>head\<close> the physical index of the first element.
  Every operation of the file, and its refinement to operations at the two ends of a list.

  \<open>head + index\<close> is an unguarded addition of two values below the capacity; it cannot
  wrap as long as the element limit is at most half the address space, which the
  representation demands.
\<close>

record 'a deque = "'a storage" +
  dq_head :: size_t

section \<open>Static helpers\<close>

definition SALTS_DEQUE_MIN_CAPACITY :: size_t where
  "SALTS_DEQUE_MIN_CAPACITY = 8"

definition deque_valid :: "'a deque ptr \<Rightarrow> bool" where
  "deque_valid deque \<longleftrightarrow>
     deque \<noteq> NULL \<and> sq_initialized (the deque) \<and> sq_elem_size (the deque) \<noteq> 0"

definition deque_physical :: "'a deque \<Rightarrow> size_t \<Rightarrow> size_t" where
  "deque_physical deque index = size_add (dq_head deque) index mod sq_capacity deque"

definition deque_at_slot :: "'a deque \<Rightarrow> size_t \<Rightarrow> 'a option" where
  "deque_at_slot deque index = slots deque ! deque_physical deque index"

definition deque_next_capacity :: "'a deque \<Rightarrow> size_t \<Rightarrow> size_t \<Rightarrow> stl_status \<times> size_t" where
  "deque_next_capacity = seq_next_capacity SALTS_DEQUE_MIN_CAPACITY"

text \<open>The raw relocation loop: one \<open>memcpy\<close> per element, in logical order.\<close>

function deque_copy_loop ::
  "(size_t \<Rightarrow> size_t) \<Rightarrow> size_t \<Rightarrow> size_t \<Rightarrow> 'a option list \<Rightarrow> 'a option list \<Rightarrow> 'a option list" where
  "deque_copy_loop phys n index dst src =
     (if index < n then deque_copy_loop phys n (index + 1) (dst[index := src ! phys index]) src
      else dst)"
  by auto
termination
  by (relation "measure (\<lambda>(phys, n, index, dst, src). n - index)") auto

declare deque_copy_loop.simps [simp del]

definition deque_relocate ::
  "'a deque \<Rightarrow> 'a option list \<Rightarrow> stl_status \<times> 'a option list \<times> 'a option list" where
  "deque_relocate q dst =
     (if sq_element_type q = NULL
      then (STL_OK, deque_copy_loop (deque_physical q) (sq_size q) 0 dst (slots q), slots q)
      else relocate_loop (sq_element_type q) (deque_physical q) (sq_size q) 0 dst (slots q))"

definition deque_grow_to ::
  "'a deque ptr \<Rightarrow> size_t \<Rightarrow> bool ptr \<Rightarrow> env \<Rightarrow> stl_status \<times> 'a deque ptr \<times> bool ptr \<times> env" where
  "deque_grow_to deque minimum changed s =
     (let unchanged = map_option (\<lambda>_. False) changed in
      if \<not> deque_valid deque then (STL_INVALID_ARGUMENT, deque, unchanged, s)
      else
        let q = the deque in
        if minimum \<le> sq_capacity q then (STL_OK, deque, unchanged, s)
        else
          case deque_next_capacity q minimum 0 of (st, capacity) \<Rightarrow>
          if st \<noteq> STL_OK then (st, deque, unchanged, s)
          else
            case sequence_allocate capacity (sq_elem_stride q) (sq_elem_align q) (Some NULL) s of
              (st, cell, s1) \<Rightarrow>
            if st \<noteq> STL_OK then (st, deque, unchanged, s1)
            else
              let data = fresh_block capacity (the cell) in
              case deque_relocate q (block_slots data) of (st, dst, src) \<Rightarrow>
              if st \<noteq> STL_OK
              then (st, Some (q\<lparr>sq_data := map_option (\<lambda>_. src) (sq_data q)\<rparr>), unchanged,
                    sequence_deallocate data s1)
              else (STL_OK,
                    Some (q\<lparr>sq_data := map_option (\<lambda>_. dst) data, sq_capacity := capacity,
                            dq_head := 0\<rparr>),
                    map_option (\<lambda>_. True) changed, sequence_deallocate (sq_data q) s1))"

definition deque_prepare_copy ::
  "'a deque \<Rightarrow> 'a option ptr \<Rightarrow> env \<Rightarrow> stl_status \<times> 'a option ptr \<times> env" where
  "deque_prepare_copy = seq_prepare_copy"

definition deque_discard_prepared :: "'a deque \<Rightarrow> 'a option ptr \<Rightarrow> env \<Rightarrow> env" where
  "deque_discard_prepared = seq_discard_prepared"

section \<open>Initialisation and destruction\<close>

definition deque_zeroed :: "'a deque" where
  "deque_zeroed = \<lparr>sq_descriptor = NULL, sq_data = NULL, sq_size = 0, sq_capacity = 0,
     sq_elem_size = 0, sq_elem_stride = 0, sq_elem_align = 0, sq_element_limit = 0,
     sq_element_type = NULL, sq_generation = 0, sq_initialized = False, dq_head = 0\<rparr>"

definition deque_initialize ::
  "'a deque ptr \<Rightarrow> 'a cmeta_type_desc ptr \<Rightarrow> size_t \<Rightarrow> size_t \<Rightarrow> size_t \<Rightarrow>
   stl_status \<times> 'a deque ptr" where
  "deque_initialize deque type elem_size elem_align limit =
     (case deque of
        None \<Rightarrow> (STL_INVALID_ARGUMENT, deque)
      | Some v \<Rightarrow>
          if sq_initialized v then (STL_INVALID_ARGUMENT, deque)
          else
            case sequence_stride elem_size elem_align (Some 0) of (st, stride) \<Rightarrow>
            if st \<noteq> STL_OK then (st, deque)
            else (STL_OK, Some (deque_zeroed\<lparr>sq_elem_size := elem_size, sq_elem_stride := the stride,
                    sq_elem_align := elem_align, sq_element_limit := limit, sq_element_type := type,
                    sq_generation := sq_generation v + 1, sq_initialized := True\<rparr>)))"

definition deque_init_bytes ::
  "'a deque ptr \<Rightarrow> size_t \<Rightarrow> size_t \<Rightarrow> size_t \<Rightarrow> stl_status \<times> 'a deque ptr" where
  "deque_init_bytes deque elem_size elem_align element_limit =
     deque_initialize deque NULL elem_size elem_align element_limit"

definition deque_raw_init ::
  "'a deque ptr \<Rightarrow> 'a cmeta_type_desc ptr \<Rightarrow> size_t \<Rightarrow> stl_status \<times> 'a deque ptr" where
  "deque_raw_init deque element_type element_limit =
     (if deque = NULL \<or> sq_initialized (the deque) then (STL_INVALID_ARGUMENT, deque)
      else
        let st = sequence_require_type element_type False in
        if st \<noteq> STL_OK then (st, deque)
        else deque_initialize deque element_type (td_size (the element_type))
               (td_align (the element_type)) element_limit)"

definition deque_clear :: "'a deque ptr \<Rightarrow> stl_status \<times> 'a deque ptr" where
  "deque_clear deque =
     (if \<not> deque_valid deque then (STL_INVALID_ARGUMENT, deque)
      else
        let v = the deque in
        case destroy_loop (sq_element_type v) (deque_physical v) (sq_size v) 0 (slots v) of
          (st, d) \<Rightarrow>
            let v1 = v\<lparr>sq_data := map_option (\<lambda>_. d) (sq_data v)\<rparr> in
            if st \<noteq> STL_OK then (st, Some v1)
            else if sq_size v1 \<noteq> 0 then (STL_OK, Some (bump (v1\<lparr>sq_size := 0, dq_head := 0\<rparr>)))
            else (STL_OK, Some v1))"

definition deque_raw_destroy_storage :: "'a deque ptr \<Rightarrow> env \<Rightarrow> 'a deque ptr \<times> env" where
  "deque_raw_destroy_storage deque s =
     (case deque of
        None \<Rightarrow> (NULL, s)
      | Some v \<Rightarrow>
          if sq_initialized v then
            let v1 = the (snd (deque_clear deque)) in
            (Some (deque_zeroed\<lparr>sq_generation := sq_generation v1 + 1\<rparr>),
             sequence_deallocate (sq_data v1) s)
          else (Some (deque_zeroed\<lparr>sq_generation := sq_generation v\<rparr>), s))"

section \<open>Operations\<close>

definition deque_reserve :: "'a deque ptr \<Rightarrow> size_t \<Rightarrow> env \<Rightarrow> stl_status \<times> 'a deque ptr \<times> env" where
  "deque_reserve deque min_capacity s =
     (case deque_grow_to deque min_capacity (Some False) s of
        (st, d1, changed, s1) \<Rightarrow>
          (st, if st = STL_OK \<and> changed = Some True then map_option bump d1 else d1, s1))"

definition deque_push_back ::
  "'a deque ptr \<Rightarrow> 'a option ptr \<Rightarrow> env \<Rightarrow> stl_status \<times> 'a deque ptr \<times> env" where
  "deque_push_back deque elem s =
     (if \<not> deque_valid deque \<or> elem = NULL then (STL_INVALID_ARGUMENT, deque, s)
      else
        let v = the deque in
        if sq_element_limit v \<le> sq_size v then (STL_CAPACITY_EXCEEDED, deque, s)
        else
          case deque_prepare_copy v elem s of (st, prepared, s1) \<Rightarrow>
          if st \<noteq> STL_OK then (st, deque, s1)
          else
            case deque_grow_to deque (sq_size v + 1) NULL s1 of (st, d1, _, s2) \<Rightarrow>
            let v1 = the d1 in
            if st \<noteq> STL_OK then (st, d1, deque_discard_prepared v1 prepared s2)
            else
              let physical = deque_physical v1 (sq_size v1) in
              case move_in physical prepared v1 s2 of (st, v2, s3) \<Rightarrow>
              if st \<noteq> STL_OK then (st, Some v2, s3)
              else (STL_OK, Some (bump (v2\<lparr>sq_size := sq_size v2 + 1\<rparr>)), s3))"

definition deque_push_front ::
  "'a deque ptr \<Rightarrow> 'a option ptr \<Rightarrow> env \<Rightarrow> stl_status \<times> 'a deque ptr \<times> env" where
  "deque_push_front deque elem s =
     (if \<not> deque_valid deque \<or> elem = NULL then (STL_INVALID_ARGUMENT, deque, s)
      else
        let v = the deque in
        if sq_element_limit v \<le> sq_size v then (STL_CAPACITY_EXCEEDED, deque, s)
        else
          case deque_prepare_copy v elem s of (st, prepared, s1) \<Rightarrow>
          if st \<noteq> STL_OK then (st, deque, s1)
          else
            case deque_grow_to deque (sq_size v + 1) NULL s1 of (st, d1, _, s2) \<Rightarrow>
            let v1 = the d1 in
            if st \<noteq> STL_OK then (st, d1, deque_discard_prepared v1 prepared s2)
            else
              let head = (if dq_head v1 = 0 then sq_capacity v1 - 1 else dq_head v1 - 1) in
              case move_in head prepared v1 s2 of (st, v2, s3) \<Rightarrow>
              if st \<noteq> STL_OK then (st, Some v2, s3)
              else (STL_OK, Some (bump (v2\<lparr>dq_head := head, sq_size := sq_size v2 + 1\<rparr>)), s3))"

definition deque_pop_back ::
  "'a deque ptr \<Rightarrow> 'a option ptr \<Rightarrow> stl_status \<times> 'a deque ptr \<times> 'a option ptr" where
  "deque_pop_back deque out_elem =
     (if \<not> deque_valid deque then (STL_INVALID_ARGUMENT, deque, out_elem)
      else
        let v = the deque in
        if sq_size v = 0 then (STL_EMPTY, deque, out_elem)
        else
          let physical = deque_physical v (sq_size v - 1) in
          case take_out (sq_element_type v) out_elem (slots v ! physical) of
            (st, out, slot) \<Rightarrow>
              let v1 = set_slot physical slot v in
              if st \<noteq> STL_OK then (st, Some v1, out)
              else
                let v2 = v1\<lparr>sq_size := sq_size v1 - 1\<rparr>;
                    v3 = (if sq_size v2 = 0 then v2\<lparr>dq_head := 0\<rparr> else v2)
                in (STL_OK, Some (bump v3), out))"

definition deque_pop_front ::
  "'a deque ptr \<Rightarrow> 'a option ptr \<Rightarrow> stl_status \<times> 'a deque ptr \<times> 'a option ptr" where
  "deque_pop_front deque out_elem =
     (if \<not> deque_valid deque then (STL_INVALID_ARGUMENT, deque, out_elem)
      else
        let v = the deque in
        if sq_size v = 0 then (STL_EMPTY, deque, out_elem)
        else
          case take_out (sq_element_type v) out_elem (slots v ! dq_head v) of
            (st, out, slot) \<Rightarrow>
              let v1 = set_slot (dq_head v) slot v in
              if st \<noteq> STL_OK then (st, Some v1, out)
              else
                let v2 = v1\<lparr>dq_head := (dq_head v1 + 1) mod sq_capacity v1,
                            sq_size := sq_size v1 - 1\<rparr>;
                    v3 = (if sq_size v2 = 0 then v2\<lparr>dq_head := 0\<rparr> else v2)
                in (STL_OK, Some (bump v3), out))"

definition deque_set ::
  "'a deque ptr \<Rightarrow> size_t \<Rightarrow> 'a option ptr \<Rightarrow> env \<Rightarrow> stl_status \<times> 'a deque ptr \<times> env" where
  "deque_set deque index elem s =
     (if \<not> deque_valid deque \<or> elem = NULL \<or> sq_size (the deque) \<le> index
      then (STL_INVALID_ARGUMENT, deque, s)
      else
        let v = the deque in
        case deque_prepare_copy v elem s of (st, prepared, s1) \<Rightarrow>
        if st \<noteq> STL_OK then (st, deque, s1)
        else
          let slot = deque_physical v index in
          case sequence_destroy_value (sq_element_type v) (Some (slots v ! slot)) of
            (st, d) \<Rightarrow>
              let v1 = set_slot slot (the d) v in
              if st \<noteq> STL_OK then (st, Some v1, sequence_deallocate prepared s1)
              else
                case move_in slot prepared v1 s1 of (st, v2, s2) \<Rightarrow>
                if st \<noteq> STL_OK then (st, Some v2, s2)
                else (STL_OK, Some (bump v2), s2))"

section \<open>Queries\<close>

definition deque_front :: "'a deque ptr \<Rightarrow> 'a option ptr" where
  "deque_front deque =
     (if deque_valid deque \<and> sq_size (the deque) \<noteq> 0
      then Some (slots (the deque) ! dq_head (the deque)) else NULL)"

definition deque_back :: "'a deque ptr \<Rightarrow> 'a option ptr" where
  "deque_back deque =
     (if deque_valid deque \<and> sq_size (the deque) \<noteq> 0
      then Some (deque_at_slot (the deque) (sq_size (the deque) - 1)) else NULL)"

definition deque_at :: "'a deque ptr \<Rightarrow> size_t \<Rightarrow> 'a option ptr" where
  "deque_at deque index =
     (if deque_valid deque \<and> index < sq_size (the deque)
      then Some (deque_at_slot (the deque) index) else NULL)"

definition deque_size :: "'a deque ptr \<Rightarrow> size_t" where
  "deque_size deque = (if deque_valid deque then sq_size (the deque) else 0)"

definition deque_capacity :: "'a deque ptr \<Rightarrow> size_t" where
  "deque_capacity deque = (if deque_valid deque then sq_capacity (the deque) else 0)"

definition deque_generation :: "'a deque ptr \<Rightarrow> u64" where
  "deque_generation deque = (case deque of None \<Rightarrow> 0 | Some v \<Rightarrow> sq_generation v)"

definition deque_empty :: "'a deque ptr \<Rightarrow> bool" where
  "deque_empty deque \<longleftrightarrow> deque_size deque = 0"

section \<open>Construction from an array, and the self-describing entry points\<close>

definition deque_push_all ::
  "'a list \<Rightarrow> 'a deque ptr \<Rightarrow> env \<Rightarrow> stl_status \<times> 'a deque ptr \<times> env" where
  "deque_push_all = push_all deque_push_back deque_raw_destroy_storage"

definition deque_from_array_bytes ::
  "'a deque ptr \<Rightarrow> 'a list ptr \<Rightarrow> size_t \<Rightarrow> size_t \<Rightarrow> size_t \<Rightarrow> size_t \<Rightarrow> env \<Rightarrow>
   stl_status \<times> 'a deque ptr \<times> env" where
  "deque_from_array_bytes deque elements count elem_size elem_align limit s =
     (if deque = NULL \<or> sq_initialized (the deque) then (STL_INVALID_ARGUMENT, deque, s)
      else if count \<noteq> 0 \<and> elements = NULL \<or> limit < count
        then (if limit < count then STL_CAPACITY_EXCEEDED else STL_INVALID_ARGUMENT, deque, s)
      else
        case deque_init_bytes (Some deque_zeroed) elem_size elem_align limit of (st, t0) \<Rightarrow>
        if st \<noteq> STL_OK then (st, deque, s)
        else
          case deque_push_all (take count (case elements of None \<Rightarrow> [] | Some xs \<Rightarrow> xs)) t0 s of
            (st, t1, s1) \<Rightarrow>
              if st \<noteq> STL_OK then (st, deque, s1)
              else (STL_OK, Some ((the t1)\<lparr>sq_generation := sq_generation (the deque) + 1\<rparr>), s1))"

definition deque_raw_from_array ::
  "'a deque ptr \<Rightarrow> 'a list ptr \<Rightarrow> size_t \<Rightarrow> 'a cmeta_type_desc ptr \<Rightarrow> size_t \<Rightarrow> env \<Rightarrow>
   stl_status \<times> 'a deque ptr \<times> env" where
  "deque_raw_from_array deque elements count type limit s =
     (if deque = NULL \<or> sq_initialized (the deque) then (STL_INVALID_ARGUMENT, deque, s)
      else if count \<noteq> 0 \<and> elements = NULL \<or> limit < count
        then (if limit < count then STL_CAPACITY_EXCEEDED else STL_INVALID_ARGUMENT, deque, s)
      else
        case deque_raw_init (Some deque_zeroed) type limit of (st, t0) \<Rightarrow>
        if st \<noteq> STL_OK then (st, deque, s)
        else
          case deque_push_all (take count (case elements of None \<Rightarrow> [] | Some xs \<Rightarrow> xs)) t0 s of
            (st, t1, s1) \<Rightarrow>
              if st \<noteq> STL_OK then (st, deque, s1)
              else (STL_OK, Some ((the t1)\<lparr>sq_generation := sq_generation (the deque) + 1\<rparr>), s1))"

definition deque_init :: "'a deque ptr \<Rightarrow> size_t \<Rightarrow> stl_status \<times> 'a deque ptr" where
  "deque_init deque element_limit =
     (if deque = NULL \<or> sq_element_type (the deque) = NULL then (STL_INVALID_ARGUMENT, deque)
      else
        let kind = sq_descriptor (the deque); type = sq_element_type (the deque) in
        case deque_raw_init deque type element_limit of (st, d1) \<Rightarrow>
        (st, Some ((the d1)\<lparr>sq_descriptor := kind, sq_element_type := type\<rparr>)))"

definition deque_from_array ::
  "'a deque ptr \<Rightarrow> 'a list ptr \<Rightarrow> size_t \<Rightarrow> size_t \<Rightarrow> env \<Rightarrow> stl_status \<times> 'a deque ptr \<times> env" where
  "deque_from_array deque elements count element_limit s =
     (if deque = NULL \<or> sq_element_type (the deque) = NULL then (STL_INVALID_ARGUMENT, deque, s)
      else
        let kind = sq_descriptor (the deque); type = sq_element_type (the deque) in
        case deque_raw_from_array deque elements count type element_limit s of (st, d1, s1) \<Rightarrow>
        (st, Some ((the d1)\<lparr>sq_descriptor := kind, sq_element_type := type\<rparr>), s1))"

definition deque_destroy :: "'a deque ptr \<Rightarrow> env \<Rightarrow> 'a deque ptr \<times> env" where
  "deque_destroy deque s =
     (if deque = NULL then (NULL, s)
      else
        let kind = sq_descriptor (the deque); type = sq_element_type (the deque) in
        case deque_raw_destroy_storage deque s of (d1, s1) \<Rightarrow>
        (Some ((the d1)\<lparr>sq_descriptor := kind, sq_element_type := type\<rparr>), s1))"

section \<open>Rings\<close>

text \<open>A ring of \<open>c\<close> slots holds \<open>xs\<close> from physical index \<open>h\<close> on.\<close>

definition ring :: "size_t \<Rightarrow> size_t \<Rightarrow> 'a option list \<Rightarrow> 'a list \<Rightarrow> bool" where
  "ring h c sl xs \<longleftrightarrow>
     length sl = c \<and> length xs \<le> c \<and> (h < c \<or> h = 0 \<and> c = 0) \<and>
     (\<forall>i < length xs. sl ! ((h + i) mod c) = Some (xs ! i))"

lemma ring_index_inj:
  assumes "i < c" and "j < c" and "(h + i) mod c = (h + j) mod (c::nat)"
  shows "i = j"
proof -
  have "i mod c = j mod c" using assms(3) by (simp add: nat_mod_eq_iff)
  then show ?thesis using assms(1,2) by simp
qed

lemma ring_push_back:
  assumes "ring h c sl xs" and "length xs < c"
  shows "ring h c (sl[(h + length xs) mod c := Some x]) (xs @ [x])"
proof -
  have "(sl[(h + length xs) mod c := Some x]) ! ((h + i) mod c) = Some ((xs @ [x]) ! i)"
    if "i < Suc (length xs)" for i
  proof (cases "i = length xs")
    case False
    then have "(h + length xs) mod c \<noteq> (h + i) mod c"
      using ring_index_inj [of "length xs" c i h] assms that by auto
    then show ?thesis using False that assms by (simp add: ring_def nth_append)
  qed (use assms in \<open>simp add: ring_def\<close>)
  then show ?thesis using assms by (auto simp: ring_def)
qed

lemma ring_push_front:
  assumes "ring h c sl xs" and "length xs < c" and "h' = (if h = 0 then c - 1 else h - 1)"
  shows "ring h' c (sl[h' := Some x]) (x # xs)"
proof -
  have h: "h' < c" "(h' + Suc i) mod c = (h + i) mod c" for i
    using assms by (auto simp: ring_def)
  have "(sl[h' := Some x]) ! ((h' + i) mod c) = Some ((x # xs) ! i)" if "i < Suc (length xs)" for i
  proof (cases i)
    case 0
    then show ?thesis using h(1) assms(1) by (simp add: ring_def)
  next
    case (Suc j)
    have "(h' + i) mod c \<noteq> (h' + 0) mod c"
      using ring_index_inj [of i c 0 h'] that assms(2) Suc by auto
    then show ?thesis using Suc h that assms(1) by (simp add: ring_def)
  qed
  then show ?thesis using assms(1,2) h(1) by (auto simp: ring_def)
qed

lemma ring_pop_back:
  assumes "ring h c sl (xs @ [x])"
  shows "ring h c (sl[(h + length xs) mod c := w]) xs" and "sl ! ((h + length xs) mod c) = Some x"
proof -
  have "(h + length xs) mod c \<noteq> (h + i) mod c" if "i < length xs" for i
    using ring_index_inj [of "length xs" c i h] assms that by (auto simp: ring_def)
  moreover have "sl ! ((h + i) mod c) = Some (xs ! i)" if "i < length xs" for i
    using assms that by (auto simp: ring_def nth_append)
  ultimately show "ring h c (sl[(h + length xs) mod c := w]) xs" using assms by (auto simp: ring_def)
  show "sl ! ((h + length xs) mod c) = Some x" using assms by (auto simp: ring_def)
qed

lemma ring_pop_front:
  assumes "ring h c sl (x # xs)"
  shows "ring ((h + 1) mod c) c (sl[h := w]) xs" and "sl ! h = Some x"
proof -
  have c: "h < c" "c \<noteq> 0" using assms by (auto simp: ring_def)
  have m: "(Suc h mod length sl + i) mod length sl = Suc (h + i) mod length sl" for i
    by (simp add: mod_simps)
  have "h \<noteq> (h + Suc i) mod c" if "i < length xs" for i
    using ring_index_inj [of "Suc i" c 0 h] assms that c by (auto simp: ring_def)
  moreover have "sl ! ((h + Suc i) mod c) = Some (xs ! i)" if "i < length xs" for i
    using assms that by (fastforce simp: ring_def)
  ultimately show "ring ((h + 1) mod c) c (sl[h := w]) xs"
    using assms c by (auto simp: ring_def m)
  show "sl ! h = Some x" using assms c unfolding ring_def by (metis add.right_neutral length_Cons mod_less nth_Cons_0 zero_less_Suc)
qed

lemma ring_update:
  assumes "ring h c sl xs" and "i < length xs"
  shows "ring h c (sl[(h + i) mod c := Some x]) (xs[i := x])"
proof -
  have "(h + i) mod c \<noteq> (h + j) mod c" if "j < length xs" "j \<noteq> i" for j
    using ring_index_inj [of i c j h] assms that by (auto simp: ring_def)
  then have "(sl[(h + i) mod c := Some x]) ! ((h + j) mod c) = Some ((xs[i := x]) ! j)"
    if "j < length xs" for j
    using assms that by (cases "j = i") (auto simp: ring_def)
  then show ?thesis using assms by (auto simp: ring_def)
qed

lemma ring_reset: "ring h c sl [] \<Longrightarrow> ring 0 c sl []"
  by (auto simp: ring_def)

section \<open>Representation\<close>

definition deque_rep :: "'a deque \<Rightarrow> 'a list \<Rightarrow> bool" where
  "deque_rep q xs \<longleftrightarrow>
     storage_ok q \<and> sq_element_limit q \<le> SIZE_MAX div 2 \<and> sq_size q = length xs \<and>
     ring (dq_head q) (sq_capacity q) (slots q) xs"

lemma deque_rep_valid: "deque_rep q xs \<Longrightarrow> deque_valid (Some q)"
  by (simp add: deque_rep_def storage_ok_def deque_valid_def)

lemma deque_physical_exact:
  "deque_rep q xs \<Longrightarrow> i \<le> sq_capacity q \<Longrightarrow>
   deque_physical q i = (dq_head q + i) mod sq_capacity q"
  by (auto simp: deque_rep_def storage_ok_def ring_def deque_physical_def)

lemma deque_min_pos [simp]: "SALTS_DEQUE_MIN_CAPACITY \<noteq> 0"
  by (simp add: SALTS_DEQUE_MIN_CAPACITY_def)

lemma deque_copy_loop_gathers:
  assumes "index \<le> n" and "n \<le> length dst" and "\<And>i. index \<le> i \<Longrightarrow> i < n \<Longrightarrow> src ! phys i = Some (f i)"
  shows "deque_copy_loop phys n index dst src =
     take index dst @ map (Some \<circ> f) [index..<n] @ drop n dst"
  using assms
proof (induction "n - index" arbitrary: index dst)
  case 0
  then show ?case by (simp add: deque_copy_loop.simps)
next
  case (Suc k)
  then have lt: "index < n" by simp
  have "deque_copy_loop phys n (index + 1) (dst[index := src ! phys index]) src =
      take (index + 1) (dst[index := src ! phys index]) @ map (Some \<circ> f) [index + 1..<n] @
      drop n (dst[index := src ! phys index])"
    using Suc lt by (intro Suc.hyps(1)) auto
  then show ?case
    using lt Suc.prems by (subst deque_copy_loop.simps) (simp add: take_Suc_conv_app_nth upt_conv_Cons)
qed

lemma deque_relocation:
  assumes rep: "deque_rep q xs" and "sq_size q \<le> capacity"
  shows "\<exists>src. deque_relocate q (replicate capacity None) =
    (STL_OK, map Some xs @ replicate (capacity - length xs) None, src)"
proof -
  have q: "elem_ok (sq_element_type q)" "sq_size q = length xs" "length xs \<le> sq_capacity q"
    "length (slots q) = sq_capacity q"
    "\<And>i. i < length xs \<Longrightarrow> slots q ! ((dq_head q + i) mod sq_capacity q) = Some (xs ! i)"
    using rep by (auto simp: deque_rep_def storage_ok_def ring_def)
  have phys: "deque_physical q i = (dq_head q + i) mod sq_capacity q" if "i < length xs" for i
    using that q(3) by (intro deque_physical_exact [OF rep]) simp
  have inj: "inj_on (deque_physical q) {..<length xs}"
    using phys q(3) ring_index_inj by (intro inj_onI) (metis lessThan_iff order_less_le_trans)
  have src: "deque_physical q i < length (slots q) \<and> slots q ! deque_physical q i = Some (xs ! i)"
    if "i < length xs" for i
    using that phys q by simp
  have m: "map (Some \<circ> (!) xs) [0..<length xs] = map Some xs" by (metis map_map map_nth)
  show ?thesis
  proof (cases "sq_element_type q")
    case None
    then show ?thesis
      using deque_copy_loop_gathers [of 0 "length xs" "replicate capacity None" "slots q"
          "deque_physical q" "(!) xs"] src q(2) assms(2) m
      by (simp add: deque_relocate_def)
  next
    case (Some t)
    then show ?thesis
      using relocate_loop_gathers [OF q(1), of 0 "length xs" "replicate capacity None"
          "deque_physical q" "slots q" "(!) xs"] inj src q(2) assms(2) m
      by (simp add: deque_relocate_def)
  qed
qed

lemma deque_grow_cases:
  assumes rep: "deque_rep q xs"
    and run: "deque_grow_to (Some q) minimum changed s = (st, r, ch, s')"
  shows "(st = STL_OK \<and> (\<exists>q'. r = Some q' \<and> deque_rep q' xs \<and> minimum \<le> sq_capacity q' \<and>
            env_delta (blocks q' - blocks q) s s' \<and> same_config q q' \<and>
            sq_generation q' = sq_generation q \<and>
            (ch \<noteq> Some True \<longrightarrow> q' = q \<or> changed = NULL))) \<or>
         (st \<in> {STL_CAPACITY_EXCEEDED, STL_OUT_OF_MEMORY} \<and> r = Some q \<and> ch \<noteq> Some True \<and>
            env_delta 0 s s' \<and>
            (supplied q s \<longrightarrow> sq_element_limit q < minimum \<and> st = STL_CAPACITY_EXCEEDED))"
proof (cases "minimum \<le> sq_capacity q")
  case True
  then show ?thesis using rep run deque_rep_valid [OF rep] by (auto simp: deque_grow_to_def)
next
  case False
  note def = deque_grow_to_def [of "Some q"] deque_rep_valid [OF rep] Let_def
  have ok: "storage_ok q" "sq_size q \<le> sq_capacity q" "sq_elem_stride q \<noteq> 0"
    "sequence_alignment_valid (sq_elem_align q)"
    using rep by (auto simp: deque_rep_def storage_ok_def)
  obtain st1 cap where next_cap: "seq_next_capacity SALTS_DEQUE_MIN_CAPACITY q minimum 0 = (st1, cap)"
    using prod.exhaust by blast
  note nc = next_capacity_cases [OF ok(1) deque_min_pos next_cap]
  show ?thesis
  proof (cases "st1 = STL_OK")
    case bad: False
    then show ?thesis using False run next_cap nc by (auto simp: def deque_next_capacity_def)
  next
    case True
    then have cap: "minimum \<le> cap" "cap \<le> sq_element_limit q" "cap \<noteq> 0" "sq_size q \<le> cap"
      using nc False ok(2) by auto
    obtain st2 cell s1 where al:
      "sequence_allocate cap (sq_elem_stride q) (sq_elem_align q) (Some NULL) s = (st2, cell, s1)"
      using prod_cases3 by blast
    consider (got) a where "st2 = STL_OK" "cell = Some (Some a)" "env_delta 1 s s1"
      | (no) "st2 \<in> {STL_CAPACITY_EXCEEDED, STL_OUT_OF_MEMORY}" "env_delta 0 s s1"
      using allocate_cases [OF al ok(4) cap(3) ok(3)] by auto
    then show ?thesis
    proof cases
      case no
      then have "\<not> supplied q s"
        using allocate_generous [OF al _ max.coboundedI2 [OF cap(2)]] ok(4) by (auto simp: supplied_def)
      then show ?thesis
        using no False True run next_cap al by (auto simp: def deque_next_capacity_def)
    next
      case got
      obtain src where "deque_relocate q (replicate cap None) =
          (STL_OK, map Some xs @ replicate (cap - length xs) None, src)"
        using deque_relocation [OF rep cap(4)] by blast
      then have "r = Some (q\<lparr>sq_data := Some (map Some xs @ replicate (cap - length xs) None),
            sq_capacity := cap, dq_head := 0\<rparr>) \<and> st = STL_OK \<and> ch = map_option (\<lambda>_. True) changed \<and>
            s' = sequence_deallocate (sq_data q) s1"
        using False True got run next_cap al
        by (simp add: def deque_next_capacity_def fresh_block_def)
      then show ?thesis
        using got cap rep
        by (auto simp: deque_rep_def storage_ok_def blocks_def ring_def nth_append same_config_def)
    qed
  qed
qed

section \<open>The list model\<close>

datatype 'a deque_op =
    Deque_push_back 'a
  | Deque_push_front 'a
  | Deque_pop_back "'a option ptr"
  | Deque_pop_front "'a option ptr"
  | Deque_set size_t 'a
  | Deque_clear
  | Deque_reserve size_t

fun deque_out :: "'a deque_op \<Rightarrow> 'a option ptr" where
  "deque_out (Deque_pop_back out) = out"
| "deque_out (Deque_pop_front out) = out"
| "deque_out _ = NULL"

fun deque_apply ::
  "'a deque_op \<Rightarrow> 'a deque ptr \<Rightarrow> env \<Rightarrow> stl_status \<times> 'a deque ptr \<times> 'a option ptr \<times> env" where
  "deque_apply (Deque_push_back x) q s =
     (case deque_push_back q (Some (Some x)) s of (st, w, s') \<Rightarrow> (st, w, NULL, s'))"
| "deque_apply (Deque_push_front x) q s =
     (case deque_push_front q (Some (Some x)) s of (st, w, s') \<Rightarrow> (st, w, NULL, s'))"
| "deque_apply (Deque_pop_back out) q s =
     (case deque_pop_back q out of (st, w, o') \<Rightarrow> (st, w, o', s))"
| "deque_apply (Deque_pop_front out) q s =
     (case deque_pop_front q out of (st, w, o') \<Rightarrow> (st, w, o', s))"
| "deque_apply (Deque_set i x) q s =
     (case deque_set q i (Some (Some x)) s of (st, w, s') \<Rightarrow> (st, w, NULL, s'))"
| "deque_apply Deque_clear q s = (case deque_clear q of (st, w) \<Rightarrow> (st, w, NULL, s))"
| "deque_apply (Deque_reserve n) q s =
     (case deque_reserve q n s of (st, w, s') \<Rightarrow> (st, w, NULL, s'))"

fun deque_model ::
  "size_t \<Rightarrow> bool \<Rightarrow> 'a deque_op \<Rightarrow> 'a list \<Rightarrow> stl_status \<times> 'a list \<times> 'a option" where
  "deque_model limit typed (Deque_push_back x) xs =
     (if limit \<le> length xs then (STL_CAPACITY_EXCEEDED, xs, None) else (STL_OK, xs @ [x], None))"
| "deque_model limit typed (Deque_push_front x) xs =
     (if limit \<le> length xs then (STL_CAPACITY_EXCEEDED, xs, None) else (STL_OK, x # xs, None))"
| "deque_model limit typed (Deque_pop_back _) xs =
     (if xs = [] then (STL_EMPTY, xs, None) else (STL_OK, butlast xs, Some (last xs)))"
| "deque_model limit typed (Deque_pop_front _) xs =
     (case xs of [] \<Rightarrow> (STL_EMPTY, xs, None) | y # ys \<Rightarrow> (STL_OK, ys, Some y))"
| "deque_model limit typed (Deque_set i x) xs =
     (if length xs \<le> i then (STL_INVALID_ARGUMENT, xs, None) else (STL_OK, xs[i := x], None))"
| "deque_model limit typed Deque_clear xs = (STL_OK, [], None)"
| "deque_model limit typed (Deque_reserve n) xs =
     (if limit < n then (STL_CAPACITY_EXCEEDED, xs, None) else (STL_OK, xs, None))"

section \<open>Each operation meets its contract\<close>

abbreviation deque_contract :: "'a deque_op \<Rightarrow> 'a deque \<Rightarrow> 'a list \<Rightarrow> env \<Rightarrow> bool" where
  "deque_contract op q xs s \<equiv>
     op_outcome deque_rep q s (deque_out op)
       (deque_model (sq_element_limit q) (sq_element_type q \<noteq> NULL) op xs)
       (deque_apply op (Some q) s)"

lemma deque_rep_bump [simp]: "deque_rep (bump q) xs = deque_rep q xs"
  by (simp add: deque_rep_def) (simp add: bump_def)

lemma head_update_simps [simp]:
  "same_config q (w\<lparr>dq_head := h\<rparr>) = same_config q w" "blocks (w\<lparr>dq_head := h\<rparr>) = blocks w"
  by (simp_all add: same_config_def blocks_def)

lemma deque_copy_then_grow:
  assumes rep: "deque_rep q xs" and room: "\<not> sq_element_limit q \<le> sq_size q"
    and copy: "deque_prepare_copy q (Some (Some x)) s = (st1, prepared, s1)"
    and grow: "deque_grow_to (Some q) (sq_size q + 1) NULL s1 = (st2, r, ch, s2)"
  obtains (nocopy) "st1 \<in> {STL_CAPACITY_EXCEEDED, STL_OUT_OF_MEMORY}" "env_delta 0 s s1"
      "\<not> supplied q s"
    | (nogrow) "st1 = STL_OK" "prepared = Some (Some x)"
      "st2 \<in> {STL_CAPACITY_EXCEEDED, STL_OUT_OF_MEMORY}" "r = Some q" "env_delta 1 s s2"
      "\<not> supplied q s"
    | (grown) q' where "st1 = STL_OK" "prepared = Some (Some x)" "st2 = STL_OK"
      "r = Some q'" "deque_rep q' xs" "length xs < sq_capacity q'"
      "same_config q q'" "sq_generation q' = sq_generation q"
      "env_delta (blocks q' - blocks q + 1) s s2"
proof -
  have ok: "storage_ok q" "sq_size q = length xs" using rep by (auto simp: deque_rep_def)
  have nolimit: "\<not> sq_element_limit q < sq_size q + 1" using room by simp
  note c = prepare_copy_cases [OF ok(1) copy [unfolded deque_prepare_copy_def]]
  note g = deque_grow_cases [OF rep grow]
  show thesis
  proof (cases "st1 = STL_OK \<and> st2 = STL_OK")
    case True
    then obtain q' where q': "r = Some q'" "deque_rep q' xs" "sq_size q + 1 \<le> sq_capacity q'"
      "env_delta (blocks q' - blocks q) s1 s2" "same_config q q'" "sq_generation q' = sq_generation q"
      using g by auto
    then show thesis
      using True c ok(2) env_delta_trans [of 1 s s1 "blocks q' - blocks q" s2]
      by (intro grown [of q']) (auto simp: add.commute)
  next
    case False
    then show thesis
      using c g nolimit env_delta_trans [of 1 s s1 0 s2] supplied_delta [of 1 s s1 q]
        nocopy nogrow by auto
  qed
qed

text \<open>Both pushes store the prepared element and extend the ring at one end.\<close>

lemma deque_rep_store:
  assumes "deque_rep q xs" and "length xs < sq_capacity q"
    and "ring h (sq_capacity q) ((slots q)[i := Some x]) ys" and "length ys = Suc (length xs)"
  shows "deque_rep ((set_slot i (Some x) q)\<lparr>dq_head := h, sq_size := Suc (length xs)\<rparr>) ys"
  using assms by (cases "sq_data q") (auto simp: deque_rep_def storage_ok_def set_slot_def)

lemma deque_push_back_contract:
  assumes rep: "deque_rep q xs"
  shows "deque_contract (Deque_push_back x) q xs s"
proof (cases "sq_element_limit q \<le> sq_size q")
  case True
  then show ?thesis
    using rep deque_rep_valid [OF rep] outcome_unchanged [where rep = deque_rep, OF rep]
    by (simp add: deque_push_back_def deque_rep_def)
next
  case room: False
  have len: "sq_size q = length xs" "storage_ok q" using rep by (auto simp: deque_rep_def)
  obtain st1 prepared s1 where copy: "deque_prepare_copy q (Some (Some x)) s = (st1, prepared, s1)"
    by (metis prod_cases3)
  obtain st2 r ch s2 where grow: "deque_grow_to (Some q) (sq_size q + 1) NULL s1 = (st2, r, ch, s2)"
    by (metis prod_cases4)
  note push = deque_push_back_def [of "Some q"] deque_rep_valid [OF rep] room copy grow
  from rep room copy grow show ?thesis
  proof (cases rule: deque_copy_then_grow)
    case nocopy
    then show ?thesis using push by (auto intro!: outcome_refused)
  next
    case nogrow
    then show ?thesis using push len(2)
      by (auto simp: deque_discard_prepared_def Let_def intro!: outcome_refused)
  next
    case (grown v)
    have v: "ring (dq_head v) (sq_capacity v) (slots v) xs" "sq_size v = length xs" "storage_ok v"
      using grown(5) by (auto simp: deque_rep_def)
    have p: "deque_physical v (length xs) = (dq_head v + length xs) mod sq_capacity v"
      using deque_physical_exact [OF grown(5)] grown(6) by simp
    have "deque_rep ((set_slot (deque_physical v (length xs)) (Some x) v)
        \<lparr>dq_head := dq_head v, sq_size := Suc (length xs)\<rparr>) (xs @ [x])"
      using ring_push_back [OF v(1) grown(6)] by (intro deque_rep_store grown(5,6)) (simp_all add: p)
    then have "deque_rep ((set_slot (deque_physical v (length xs)) (Some x) v)
        \<lparr>sq_size := Suc (length xs)\<rparr>) (xs @ [x])"
      by (simp add: set_slot_def)
    then show ?thesis
      using push grown v len by (auto intro!: outcome_changed simp: deliver_def Let_def)
  qed
qed

lemma deque_push_front_contract:
  assumes rep: "deque_rep q xs"
  shows "deque_contract (Deque_push_front x) q xs s"
proof (cases "sq_element_limit q \<le> sq_size q")
  case True
  then show ?thesis
    using rep deque_rep_valid [OF rep] outcome_unchanged [where rep = deque_rep, OF rep]
    by (simp add: deque_push_front_def deque_rep_def)
next
  case room: False
  have len: "sq_size q = length xs" "storage_ok q" using rep by (auto simp: deque_rep_def)
  obtain st1 prepared s1 where copy: "deque_prepare_copy q (Some (Some x)) s = (st1, prepared, s1)"
    by (metis prod_cases3)
  obtain st2 r ch s2 where grow: "deque_grow_to (Some q) (sq_size q + 1) NULL s1 = (st2, r, ch, s2)"
    by (metis prod_cases4)
  note push = deque_push_front_def [of "Some q"] deque_rep_valid [OF rep] room copy grow
  from rep room copy grow show ?thesis
  proof (cases rule: deque_copy_then_grow)
    case nocopy
    then show ?thesis using push by (auto intro!: outcome_refused)
  next
    case nogrow
    then show ?thesis using push len(2)
      by (auto simp: deque_discard_prepared_def Let_def intro!: outcome_refused)
  next
    case (grown v)
    define h where "h = (if dq_head v = 0 then sq_capacity v - 1 else dq_head v - 1)"
    have v: "ring (dq_head v) (sq_capacity v) (slots v) xs" "sq_size v = length xs" "storage_ok v"
      using grown(5) by (auto simp: deque_rep_def)
    have "deque_rep ((set_slot h (Some x) v)\<lparr>dq_head := h, sq_size := Suc (length xs)\<rparr>) (x # xs)"
      using ring_push_front [OF v(1) grown(6) h_def] by (intro deque_rep_store grown(5,6)) simp_all
    moreover have "deque_push_front (Some q) (Some (Some x)) s =
        (STL_OK, Some (bump ((set_slot h (Some x) v)\<lparr>dq_head := h, sq_size := Suc (length xs)\<rparr>)),
         free_block s2)"
      using push grown v len by (simp add: Let_def h_def)
    ultimately show ?thesis
      using grown room len by (auto intro!: outcome_changed simp: deliver_def)
  qed
qed

text \<open>Both pops vacate one end; the last one also resets the head.\<close>

lemma deque_rep_vacate:
  assumes "deque_rep q xs" and "ring h (sq_capacity q) ((slots q)[i := w]) ys"
    and "length ys = length xs - 1" and "v = (set_slot i w q)\<lparr>dq_head := h, sq_size := length ys\<rparr>"
  shows "deque_rep (if length ys = 0 then v\<lparr>dq_head := 0\<rparr> else v) ys"
proof -
  have "storage_ok v" "slots v = (slots q)[i := w]" "sq_capacity v = sq_capacity q"
    "sq_element_limit v = sq_element_limit q" "sq_size v = length ys" "dq_head v = h"
    using assms(1,3,4) by (cases "sq_data q"; auto simp: deque_rep_def storage_ok_def set_slot_def)+
  then show ?thesis
    using assms(1,2) ring_reset [of h "sq_capacity q" "slots v"] by (auto simp: deque_rep_def storage_ok_def)
qed

lemma deque_pop_back_contract:
  assumes rep: "deque_rep q xs"
  shows "deque_contract (Deque_pop_back out) q xs s"
proof (cases xs rule: rev_cases)
  case Nil
  then show ?thesis
    using rep deque_rep_valid [OF rep] outcome_unchanged [where rep = deque_rep, OF rep]
    by (simp add: deque_pop_back_def deque_rep_def)
next
  case (snoc ys y)
  have q: "ring (dq_head q) (sq_capacity q) (slots q) (ys @ [y])" "sq_size q = Suc (length ys)"
    "elem_ok (sq_element_type q)" "length ys \<le> sq_capacity q"
    using rep snoc by (auto simp: deque_rep_def storage_ok_def ring_def)
  have p: "deque_physical q (length ys) = (dq_head q + length ys) mod sq_capacity q"
    using deque_physical_exact [OF rep q(4)] .
  define v where "v = (set_slot ((dq_head q + length ys) mod sq_capacity q)
      (vacated (sq_element_type q) (Some y)) q)\<lparr>dq_head := dq_head q, sq_size := length ys\<rparr>"
  have "deque_rep (if length ys = 0 then v\<lparr>dq_head := 0\<rparr> else v) ys"
    using ring_pop_back(1) [OF q(1)] snoc by (intro deque_rep_vacate [OF rep _ _ v_def]) simp_all
  moreover have "deque_pop_back (Some q) out =
      (STL_OK, Some (bump (if length ys = 0 then v\<lparr>dq_head := 0\<rparr> else v)), map_option (\<lambda>_. Some y) out)"
    using deque_rep_valid [OF rep] q ring_pop_back(2) [OF q(1)]
    by (simp add: deque_pop_back_def Let_def p v_def set_slot_def)
  ultimately show ?thesis
    using snoc by (auto intro!: outcome_changed simp: deliver_def v_def)
qed

lemma deque_pop_front_contract:
  assumes rep: "deque_rep q xs"
  shows "deque_contract (Deque_pop_front out) q xs s"
proof (cases xs)
  case Nil
  then show ?thesis
    using rep deque_rep_valid [OF rep] outcome_unchanged [where rep = deque_rep, OF rep]
    by (simp add: deque_pop_front_def deque_rep_def)
next
  case (Cons y ys)
  have q: "ring (dq_head q) (sq_capacity q) (slots q) (y # ys)" "sq_size q = Suc (length ys)"
    "elem_ok (sq_element_type q)"
    using rep Cons by (auto simp: deque_rep_def storage_ok_def)
  define v where "v = (set_slot (dq_head q) (vacated (sq_element_type q) (Some y)) q)
      \<lparr>dq_head := (dq_head q + 1) mod sq_capacity q, sq_size := length ys\<rparr>"
  have "deque_rep (if length ys = 0 then v\<lparr>dq_head := 0\<rparr> else v) ys"
    using ring_pop_front(1) [OF q(1)] Cons by (intro deque_rep_vacate [OF rep _ _ v_def]) simp_all
  moreover have "deque_pop_front (Some q) out =
      (STL_OK, Some (bump (if length ys = 0 then v\<lparr>dq_head := 0\<rparr> else v)), map_option (\<lambda>_. Some y) out)"
    using deque_rep_valid [OF rep] q ring_pop_front(2) [OF q(1)]
    by (simp add: deque_pop_front_def Let_def v_def) (simp add: set_slot_def)
  ultimately show ?thesis
    using Cons by (auto intro!: outcome_changed simp: deliver_def v_def)
qed

lemma deque_set_contract:
  assumes rep: "deque_rep q xs"
  shows "deque_contract (Deque_set i x) q xs s"
proof (cases "length xs \<le> i")
  case True
  then show ?thesis
    using rep deque_rep_valid [OF rep] outcome_unchanged [where rep = deque_rep, OF rep]
    by (auto simp: deque_set_def deque_rep_def)
next
  case i: False
  obtain st1 prepared s1 where copy: "deque_prepare_copy q (Some (Some x)) s = (st1, prepared, s1)"
    by (metis prod_cases3)
  have q: "storage_ok q" "ring (dq_head q) (sq_capacity q) (slots q) xs" "sq_size q = length xs"
    "elem_ok (sq_element_type q)" "length xs \<le> sq_capacity q"
    using rep by (auto simp: deque_rep_def storage_ok_def ring_def)
  have p: "deque_physical q i = (dq_head q + i) mod sq_capacity q"
    using deque_physical_exact [OF rep, of i] i q(5) by simp
  have "deque_rep (set_slot (deque_physical q i) (Some x) (set_slot (deque_physical q i) w q)) (xs[i := x])"
    for w
    using ring_update [OF q(2), of i x] i rep q(3)
    by (cases "sq_data q") (auto simp: deque_rep_def p set_slot_def storage_ok_def)
  then show ?thesis
    using i q copy deque_rep_valid [OF rep]
      prepare_copy_cases [OF q(1) copy [unfolded deque_prepare_copy_def]]
    by (auto simp: deque_set_def deliver_def Let_def intro!: outcome_changed outcome_refused)
qed

lemma deque_clear_contract:
  assumes rep: "deque_rep q xs"
  shows "deque_contract Deque_clear q xs s"
proof -
  have q: "sq_size q = length xs" "elem_ok (sq_element_type q)" "length (slots q) = sq_capacity q"
    using rep by (auto simp: deque_rep_def storage_ok_def)
  obtain d where d: "destroy_loop (sq_element_type q) (deque_physical q) (sq_size q) 0 (slots q) = (STL_OK, d)"
    "length d = length (slots q)"
    using destroy_loop_OK [OF q(2)] by blast
  show ?thesis
  proof (cases "xs = []")
    case True
    then have "d = slots q" using d(1) q(1) by (simp add: destroy_loop.simps)
    then have "q\<lparr>sq_data := map_option (\<lambda>_. d) (sq_data q)\<rparr> = q" by (cases "sq_data q") auto
    then show ?thesis
      using True d q(1) rep deque_rep_valid [OF rep] outcome_unchanged [where rep = deque_rep, OF rep]
      by (simp add: deque_clear_def Let_def)
  next
    case False
    have "deque_rep (q\<lparr>sq_data := map_option (\<lambda>_. d) (sq_data q), sq_size := 0, dq_head := 0\<rparr>) []"
      using rep q d by (cases "sq_data q") (auto simp: deque_rep_def storage_ok_def ring_def)
    then show ?thesis
      using False d q(1) deque_rep_valid [OF rep]
      by (auto simp: deque_clear_def Let_def deliver_def blocks_def intro!: outcome_changed)
  qed
qed

lemma deque_reserve_contract:
  assumes rep: "deque_rep q xs"
  shows "deque_contract (Deque_reserve n) q xs s"
proof -
  obtain st r ch s' where g: "deque_grow_to (Some q) n (Some False) s = (st, r, ch, s')"
    by (metis prod_cases4)
  have le: "sq_capacity w \<le> sq_element_limit q" if "deque_rep w xs" "same_config q w" for w
    using that by (simp add: deque_rep_def storage_ok_def same_config_def)
  have r: "deque_apply (Deque_reserve n) (Some q) s =
      (st, if st = STL_OK \<and> ch = Some True then map_option bump r else r, NULL, s')"
    using g by (simp add: deque_reserve_def)
  show ?thesis
    using deque_grow_cases [OF rep g] rep unfolding r
    by (auto simp: op_outcome_def deliver_def dest: le)
qed

lemmas deque_contracts =
  deque_push_back_contract deque_push_front_contract deque_pop_back_contract
  deque_pop_front_contract deque_set_contract deque_clear_contract deque_reserve_contract

interpretation deque_machine: sequence_machine deque_rep deque_apply deque_out deque_model
proof
  fix q :: "'a deque" and xs s op
  assume "deque_rep q xs"
  then show "deque_contract op q xs s"
    by (cases op) (auto simp only: intro: deque_contracts)
next
  fix n t op xs st ys and y :: "'a option"
  assume "deque_model n t op xs = (st, ys, y)" and "st \<noteq> STL_OK"
  then show "ys = xs" by (cases op) (auto split: if_splits list.splits)
qed

section \<open>Life cycle\<close>

lemma deque_initialize_rep:
  assumes "deque_initialize (Some v0) type elem_size elem_align limit = (STL_OK, r)" and "elem_ok type"
    and "elem_size \<le> SIZE_MAX" and "elem_align \<le> SIZE_MAX" and "limit \<le> SIZE_MAX div 2"
  shows "\<exists>v. r = Some v \<and> deque_rep v [] \<and> blocks v = 0 \<and> sq_element_type v = type \<and>
     sq_element_limit v = limit \<and> sq_generation v = sq_generation v0 + 1 \<and> sq_elem_align v = elem_align"
proof -
  obtain st c where sst: "sequence_stride elem_size elem_align (Some 0) = (st, c)"
    using prod.exhaust by blast
  then have st: "st = STL_OK" "\<not> sq_initialized v0"
    using assms(1) by (auto simp: deque_initialize_def split: if_splits)
  have "the c \<noteq> 0" "elem_size \<noteq> 0" "sequence_alignment_valid elem_align"
    using stride_nonzero [OF sst [unfolded st] assms(3,4)] stride_OK_cases [OF sst [unfolded st]]
    by auto
  then show ?thesis
    using assms(1,2,5) sst st
    by (auto simp: deque_initialize_def deque_zeroed_def deque_rep_def storage_ok_def blocks_def ring_def)
qed

lemma deque_destroy_storage_delta:
  assumes "deque_rep v xs"
  shows "env_delta (- blocks v) s (snd (deque_raw_destroy_storage (Some v) s)) \<and>
    (\<exists>w. fst (deque_raw_destroy_storage (Some v) s) = Some w \<and> \<not> sq_initialized w \<and> sq_data w = NULL)"
proof -
  have v: "sq_initialized v" "elem_ok (sq_element_type v)"
    using assms by (auto simp: deque_rep_def storage_ok_def)
  obtain d where "destroy_loop (sq_element_type v) (deque_physical v) (sq_size v) 0 (slots v) = (STL_OK, d)"
    using destroy_loop_OK [OF v(2)] by blast
  then show ?thesis
    using v deque_rep_valid [OF assms]
    by (auto simp: deque_raw_destroy_storage_def deque_clear_def Let_def blocks_def deque_zeroed_def)
qed

interpretation deque_store:
  push_store deque_rep deque_push_back deque_raw_destroy_storage "\<lambda>x xs. xs @ [x]" length
proof
  fix q :: "'a deque" and xs x s
  assume rep: "deque_rep q xs"
  show "op_outcome deque_rep q s NULL (STL_OK, xs @ [x], None)
      (case deque_push_back (Some q) (Some (Some x)) s of (st, w, s') \<Rightarrow> (st, w, NULL, s'))"
    if "length xs < sq_element_limit q"
    using deque_push_back_contract [OF rep, where x = x and s = s] that by simp
  show "env_delta (- blocks q) s (snd (deque_raw_destroy_storage (Some q) s))"
    using deque_destroy_storage_delta [OF rep] by blast
qed simp

section \<open>Properties\<close>

text \<open>C19: Whatever allocations fail during a run of deque operations at either end, the ring
  ends up holding exactly the effect of the operations that returned \<open>STL_OK\<close>, in
  order, and destroying it afterwards returns every block it ever held.\<close>

theorem deque_run_acknowledged:
  assumes "deque_rep q xs" and "run_ops deque_apply ops (Some q) s = (rs, q', s')"
  shows "\<exists>w. q' = Some w \<and>
     deque_rep w (replay (deque_model (sq_element_limit q) (sq_element_type q \<noteq> NULL)) (zip ops rs) xs) \<and>
     live_blocks (snd (deque_raw_destroy_storage q' s')) = live_blocks s - blocks q"
proof -
  obtain w where w: "q' = Some w" "env_delta (blocks w - blocks q) s s'"
    "deque_rep w (replay (deque_model (sq_element_limit q) (sq_element_type q \<noteq> NULL)) (zip ops rs) xs)"
    using deque_machine.run_acknowledged [OF assms] by blast
  then have "live_blocks (snd (deque_raw_destroy_storage q' s')) = live_blocks s' - blocks w"
    using deque_destroy_storage_delta [of w _ s'] by (auto simp: env_delta_def)
  then show ?thesis using w by (auto simp: env_delta_def)
qed

text \<open>A ring of three slots whose two elements wrap around its end.\<close>

definition wrapped_deque :: "nat deque" where
  "wrapped_deque = deque_zeroed\<lparr>sq_data := Some [Some 2, None, Some 1], sq_size := 2, sq_capacity := 3,
     sq_elem_size := 4, sq_elem_stride := 4, sq_elem_align := 4, sq_element_limit := 3,
     sq_initialized := True, dq_head := 2\<rparr>"

lemma wrapped_deque_rep: "deque_rep wrapped_deque [1, 2]"
  by (simp add: wrapped_deque_def deque_zeroed_def deque_rep_def storage_ok_def elem_ok_def ring_def
      sequence_alignment_valid_def SIZE_MAX_def less_Suc_eq all_conj_distrib)

theorem deque_run_acknowledged_witness:
  "\<exists>rs w s'. run_ops deque_apply [Deque_push_front 7, Deque_pop_front NULL] (Some wrapped_deque) never_env =
       (rs, Some w, s') \<and>
     deque_rep w (replay (deque_model 3 False) (zip [Deque_push_front 7, Deque_pop_front NULL] rs) [1, 2]) \<and>
     live_blocks (snd (deque_raw_destroy_storage (Some w) s')) = 0"
proof -
  obtain rs q' s' where r: "run_ops deque_apply [Deque_push_front 7, Deque_pop_front NULL]
      (Some wrapped_deque) never_env = (rs, q', s')"
    by (metis prod_cases3)
  show ?thesis
    using deque_run_acknowledged [OF wrapped_deque_rep r] r
    by (auto simp: wrapped_deque_def deque_zeroed_def never_env_def blocks_def)
qed

text \<open>When memory and element copies are supplied, a run of deque operations gives the
  statuses of the list model, delivers its elements and leaves its list.\<close>

theorem deque_run_refines_list:
  assumes "deque_rep q xs" and "supplied q s"
    and "run_model deque_out (deque_model (sq_element_limit q) (sq_element_type q \<noteq> NULL)) ops xs = (rs, ys)"
  shows "\<exists>w s'. run_ops deque_apply ops (Some q) s = (rs, Some w, s') \<and> deque_rep w ys \<and>
     live_blocks s' - blocks w = live_blocks s - blocks q"
  using deque_machine.run_supplied [OF assms] by (fastforce simp: env_delta_def)

lemma wrapped_deque_supplied: "supplied wrapped_deque ample_env"
  by (simp add: supplied_def wrapped_deque_def deque_zeroed_def ample_env_def generous_def copy_total_def
      sizeof_pointer_def SIZE_MAX_def)

theorem deque_run_refines_list_witness:
  "\<exists>w s'. run_ops deque_apply [Deque_push_front 7, Deque_push_back 8, Deque_pop_back (Some None)]
       (Some wrapped_deque) ample_env =
     ([(STL_OK, NULL), (STL_CAPACITY_EXCEEDED, NULL), (STL_OK, Some (Some 2))], Some w, s') \<and>
     deque_rep w [7, 1] \<and> live_blocks s' - blocks w = 0"
proof -
  have "run_model deque_out (deque_model (sq_element_limit wrapped_deque)
        (sq_element_type wrapped_deque \<noteq> NULL))
      [Deque_push_front 7, Deque_push_back 8, Deque_pop_back (Some None)] [1, 2] =
    ([(STL_OK, NULL), (STL_CAPACITY_EXCEEDED, NULL), (STL_OK, Some (Some 2))], [7, 1])"
    by (simp add: wrapped_deque_def deque_zeroed_def deliver_def)
  from deque_run_refines_list [OF wrapped_deque_rep wrapped_deque_supplied this] show ?thesis
    by (simp add: wrapped_deque_def deque_zeroed_def ample_env_def blocks_def)
qed

text \<open>Construction from an array of a lawful element type is all-or-nothing: on success
  the deque holds the first \<open>count\<close> elements under the given limit; on any failure the
  caller's deque is untouched and no block is left allocated; and with a valid layout and
  memory supplied it does succeed.\<close>

theorem deque_raw_from_array_all_or_nothing:
  assumes "traits_lawful t" and "td_size t \<le> SIZE_MAX" and "td_align t \<le> SIZE_MAX"
    and "count \<le> length elements"
    and "deque_raw_from_array deque (Some elements) count (Some t) limit s = (st, r, s')" and "limit \<le> SIZE_MAX div 2"
  shows "(st = STL_OK \<longrightarrow> (\<exists>w. r = Some w \<and> deque_rep w (take count elements) \<and>
            sq_element_limit w = limit \<and> sq_element_type w = Some t \<and>
            deque_generation r = deque_generation deque + 1 \<and>
            live_blocks s' = live_blocks s + blocks w)) \<and>
         (st \<noteq> STL_OK \<longrightarrow> r = deque \<and> live_blocks s' = live_blocks s) \<and>
         (\<forall>v0 v. deque = Some v0 \<and> \<not> sq_initialized v0 \<and> count \<le> limit \<and>
            deque_raw_init (Some deque_zeroed) (Some t) limit = (STL_OK, Some v) \<and> supplied v s \<longrightarrow>
            st = STL_OK)"
proof (cases "deque = NULL \<or> sq_initialized (the deque) \<or> limit < count")
  case True
  then show ?thesis using assms(5) by (auto simp: deque_raw_from_array_def split: if_splits)
next
  case ok: False
  then obtain v0 where v0: "deque = Some v0" by auto
  obtain st0 t0 where init: "deque_raw_init (Some deque_zeroed) (Some t) limit = (st0, t0)"
    using prod.exhaust by blast
  show ?thesis
  proof (cases "st0 = STL_OK")
    case False
    then show ?thesis using assms(5) ok init by (auto simp: deque_raw_from_array_def split: if_splits)
  next
    case True
    then have req: "sequence_require_type (Some t) False = STL_OK"
      and ini: "deque_initialize (Some deque_zeroed) (Some t) (td_size t) (td_align t) limit = (STL_OK, t0)"
      using init by (auto simp: deque_raw_init_def deque_zeroed_def Let_def split: if_splits)
    have "elem_ok (Some t)" using req assms(1) by (simp add: elem_ok_def)
    then obtain v where v: "t0 = Some v" "deque_rep v []" "blocks v = 0" "sq_element_limit v = limit"
      "sq_element_type v = Some t"
      using deque_initialize_rep [OF ini _ assms(2,3,6)] by blast
    obtain st1 t1 s1 where p: "deque_push_all (take count elements) (Some v) s = (st1, t1, s1)"
      by (metis prod_cases3)
    have "length (take count elements) \<le> sq_element_limit v"
      using ok v(4) by (simp add: min_le_iff_disj)
    then show ?thesis
      using deque_store.push_all_cases [OF v(2) p [unfolded deque_push_all_def]] assms(5) ok init True v p v0
      by (auto simp: deque_raw_from_array_def env_delta_def deque_generation_def same_config_def
          deque_rep_def storage_ok_def blocks_def split: if_splits)
  qed
qed

text \<open>Two of three elements of an array of natural numbers.\<close>

theorem deque_raw_from_array_all_or_nothing_witness:
  "\<exists>w s'. deque_raw_from_array (Some deque_zeroed) (Some [5, 6, 7]) 2 (Some nat_desc) 9 ample_env =
     (STL_OK, Some w, s') \<and> deque_rep w [5, 6] \<and> sq_element_limit w = 9"
proof -
  obtain st r s' where run:
    "deque_raw_from_array (Some deque_zeroed) (Some [5, 6, 7]) 2 (Some nat_desc) 9 ample_env = (st, r, s')"
    by (metis prod_cases3)
  have bounds: "td_size nat_desc \<le> SIZE_MAX" "td_align nat_desc \<le> SIZE_MAX" "2 \<le> length [5, 6, 7 :: nat]"
    by (simp_all add: nat_desc_def SIZE_MAX_def)
  have half: "9 \<le> SIZE_MAX div 2" by (simp add: SIZE_MAX_def)
  have four: "sequence_alignment_valid 4" by (simp add: sequence_alignment_valid_def)
  then have "sequence_stride 4 4 (Some 0) = (STL_OK, Some 4)"
    using size_and_not_align [of 4 7] by (simp add: sequence_stride_def SIZE_MAX_def)
  then obtain v where v: "deque_raw_init (Some deque_zeroed) (Some nat_desc) 9 = (STL_OK, Some v)" "supplied v ample_env"
    using nat_desc_type [of False]
    by (simp add: deque_raw_init_def deque_initialize_def deque_zeroed_def nat_desc_def supplied_def
        generous_def ample_env_def sizeof_pointer_def SIZE_MAX_def copy_total_def nat_traits_def)
  show ?thesis
    using deque_raw_from_array_all_or_nothing [OF nat_desc_lawful bounds run half] v run
    by (auto simp: deque_zeroed_def)
qed

text \<open>The deque's accessors read the list: \<open>deque_at\<close> its elements by logical index
  across the wrap-around, \<open>deque_front\<close> and \<open>deque_back\<close> its ends, and all of
  them answer NULL outside it.\<close>

theorem deque_accessors:
  assumes "deque_rep q xs"
  shows "deque_at (Some q) i = (if i < length xs then Some (Some (xs ! i)) else NULL) \<and>
    deque_front (Some q) = (if xs = [] then NULL else Some (Some (hd xs))) \<and>
    deque_back (Some q) = (if xs = [] then NULL else Some (Some (last xs))) \<and>
    deque_size (Some q) = length xs \<and> deque_empty (Some q) = (xs = [])"
proof -
  have q: "ring (dq_head q) (sq_capacity q) (slots q) xs" "sq_size q = length xs"
    using assms by (auto simp: deque_rep_def)
  have at: "deque_at_slot q j = Some (xs ! j)" if "j < length xs" for j
    using that q deque_physical_exact [OF assms, of j] by (simp add: deque_at_slot_def ring_def)
  have "slots q ! dq_head q = Some (hd xs)" if "xs \<noteq> []"
    using ring_pop_front(2) [of "dq_head q" "sq_capacity q" "slots q" "hd xs" "tl xs"] q that by simp
  then show ?thesis
    using q at deque_rep_valid [OF assms]
    by (auto simp: deque_at_def deque_front_def deque_back_def deque_size_def deque_empty_def last_conv_nth)
qed

theorem deque_accessors_witness:
  "deque_at (Some wrapped_deque) 1 = Some (Some 2) \<and> deque_front (Some wrapped_deque) = Some (Some 1)"
  using deque_accessors [OF wrapped_deque_rep, of 1] by simp

end
