(* ===== verification/Cstl_Adapters.thy ===== *)
theory Cstl_Adapters
  imports Cstl_Vec Cstl_Deque
begin

text \<open>
  The stack over the vector (\<^verbatim>\<open>src/cstl/include/cstl/stack.h\<close>) and the queue over the
  deque (\<^verbatim>\<open>queue.h\<close>): header-only adapters that check for NULL and forward. The theorems
  show the disciplines they promise, last-in first-out and first-in first-out.
\<close>

section \<open>The stack\<close>

record 'a cstl_stack =
  stack_raw :: "'a vec"

definition stack_raw_init ::
  "'a cstl_stack ptr \<Rightarrow> 'a cmeta_type_desc ptr \<Rightarrow> size_t \<Rightarrow> stl_status \<times> 'a cstl_stack ptr" where
  "stack_raw_init stack type element_limit =
     (case stack of None \<Rightarrow> (STL_INVALID_ARGUMENT, NULL)
      | Some k \<Rightarrow> case vec_raw_init (Some (stack_raw k)) type element_limit of
          (st, v) \<Rightarrow> (st, Some (k\<lparr>stack_raw := the v\<rparr>)))"

definition stack_init :: "'a cstl_stack ptr \<Rightarrow> size_t \<Rightarrow> stl_status \<times> 'a cstl_stack ptr" where
  "stack_init stack element_limit =
     (case stack of None \<Rightarrow> (STL_INVALID_ARGUMENT, NULL)
      | Some k \<Rightarrow> case vec_init (Some (stack_raw k)) element_limit of
          (st, v) \<Rightarrow> (st, Some (k\<lparr>stack_raw := the v\<rparr>)))"

definition stack_init_bytes ::
  "'a cstl_stack ptr \<Rightarrow> size_t \<Rightarrow> size_t \<Rightarrow> size_t \<Rightarrow> stl_status \<times> 'a cstl_stack ptr" where
  "stack_init_bytes stack elem_size elem_align element_limit =
     (case stack of None \<Rightarrow> (STL_INVALID_ARGUMENT, NULL)
      | Some k \<Rightarrow> case vec_init_bytes (Some (stack_raw k)) elem_size elem_align element_limit of
          (st, v) \<Rightarrow> (st, Some (k\<lparr>stack_raw := the v\<rparr>)))"

definition stack_raw_from_array ::
  "'a cstl_stack ptr \<Rightarrow> 'a list ptr \<Rightarrow> size_t \<Rightarrow> 'a cmeta_type_desc ptr \<Rightarrow> size_t \<Rightarrow> env \<Rightarrow>
   stl_status \<times> 'a cstl_stack ptr \<times> env" where
  "stack_raw_from_array stack elements count type element_limit s =
     (case stack of None \<Rightarrow> (STL_INVALID_ARGUMENT, NULL, s)
      | Some k \<Rightarrow> case vec_raw_from_array (Some (stack_raw k)) elements count type element_limit s of
          (st, v, s') \<Rightarrow> (st, Some (k\<lparr>stack_raw := the v\<rparr>), s'))"

definition stack_from_array ::
  "'a cstl_stack ptr \<Rightarrow> 'a list ptr \<Rightarrow> size_t \<Rightarrow> size_t \<Rightarrow> env \<Rightarrow>
   stl_status \<times> 'a cstl_stack ptr \<times> env" where
  "stack_from_array stack elements count element_limit s =
     (case stack of None \<Rightarrow> (STL_INVALID_ARGUMENT, NULL, s)
      | Some k \<Rightarrow> case vec_from_array (Some (stack_raw k)) elements count element_limit s of
          (st, v, s') \<Rightarrow> (st, Some (k\<lparr>stack_raw := the v\<rparr>), s'))"

definition stack_from_array_bytes ::
  "'a cstl_stack ptr \<Rightarrow> 'a list ptr \<Rightarrow> size_t \<Rightarrow> size_t \<Rightarrow> size_t \<Rightarrow> size_t \<Rightarrow> env \<Rightarrow>
   stl_status \<times> 'a cstl_stack ptr \<times> env" where
  "stack_from_array_bytes stack elements count elem_size elem_align element_limit s =
     (case stack of None \<Rightarrow> (STL_INVALID_ARGUMENT, NULL, s)
      | Some k \<Rightarrow>
          case vec_from_array_bytes (Some (stack_raw k)) elements count elem_size elem_align element_limit s of
            (st, v, s') \<Rightarrow> (st, Some (k\<lparr>stack_raw := the v\<rparr>), s'))"

definition stack_destroy :: "'a cstl_stack ptr \<Rightarrow> env \<Rightarrow> 'a cstl_stack ptr \<times> env" where
  "stack_destroy stack s =
     (case stack of None \<Rightarrow> (NULL, s)
      | Some k \<Rightarrow> case vec_destroy (Some (stack_raw k)) s of (v, s') \<Rightarrow> (Some (k\<lparr>stack_raw := the v\<rparr>), s'))"

definition stack_clear :: "'a cstl_stack ptr \<Rightarrow> 'a cstl_stack ptr" where
  "stack_clear stack =
     map_option (\<lambda>k. k\<lparr>stack_raw := the (snd (vec_clear (Some (stack_raw k))))\<rparr>) stack"

definition stack_reserve ::
  "'a cstl_stack ptr \<Rightarrow> size_t \<Rightarrow> env \<Rightarrow> stl_status \<times> 'a cstl_stack ptr \<times> env" where
  "stack_reserve stack capacity s =
     (case stack of None \<Rightarrow> (STL_INVALID_ARGUMENT, NULL, s)
      | Some k \<Rightarrow> case vec_reserve (Some (stack_raw k)) capacity s of
          (st, v, s') \<Rightarrow> (st, Some (k\<lparr>stack_raw := the v\<rparr>), s'))"

definition stack_push ::
  "'a cstl_stack ptr \<Rightarrow> 'a option ptr \<Rightarrow> env \<Rightarrow> stl_status \<times> 'a cstl_stack ptr \<times> env" where
  "stack_push stack elem s =
     (case stack of None \<Rightarrow> (STL_INVALID_ARGUMENT, NULL, s)
      | Some k \<Rightarrow> case vec_push (Some (stack_raw k)) elem s of
          (st, v, s') \<Rightarrow> (st, Some (k\<lparr>stack_raw := the v\<rparr>), s'))"

definition stack_pop ::
  "'a cstl_stack ptr \<Rightarrow> 'a option ptr \<Rightarrow> stl_status \<times> 'a cstl_stack ptr \<times> 'a option ptr" where
  "stack_pop stack out_elem =
     (case stack of None \<Rightarrow> (STL_INVALID_ARGUMENT, NULL, out_elem)
      | Some k \<Rightarrow> case vec_pop (Some (stack_raw k)) out_elem of
          (st, v, out) \<Rightarrow> (st, Some (k\<lparr>stack_raw := the v\<rparr>), out))"

definition stack_top :: "'a cstl_stack ptr \<Rightarrow> 'a option ptr" where
  "stack_top stack =
     (if stack = NULL \<or> sq_size (stack_raw (the stack)) = 0 then NULL
      else vec_at (Some (stack_raw (the stack))) (sq_size (stack_raw (the stack)) - 1))"

definition stack_at_const :: "'a cstl_stack ptr \<Rightarrow> size_t \<Rightarrow> 'a option ptr" where
  "stack_at_const stack index =
     (case stack of None \<Rightarrow> NULL | Some k \<Rightarrow> vec_at (Some (stack_raw k)) index)"

definition stack_size :: "'a cstl_stack ptr \<Rightarrow> size_t" where
  "stack_size stack = (case stack of None \<Rightarrow> 0 | Some k \<Rightarrow> vec_size (Some (stack_raw k)))"

definition stack_capacity :: "'a cstl_stack ptr \<Rightarrow> size_t" where
  "stack_capacity stack = (case stack of None \<Rightarrow> 0 | Some k \<Rightarrow> vec_capacity (Some (stack_raw k)))"

definition stack_generation :: "'a cstl_stack ptr \<Rightarrow> u64" where
  "stack_generation stack = (case stack of None \<Rightarrow> 0 | Some k \<Rightarrow> vec_generation (Some (stack_raw k)))"

definition stack_empty :: "'a cstl_stack ptr \<Rightarrow> bool" where
  "stack_empty stack \<longleftrightarrow> stack = NULL \<or> vec_empty (Some (stack_raw (the stack)))"

section \<open>The queue\<close>

record 'a queue =
  queue_raw :: "'a deque"

definition queue_raw_init ::
  "'a queue ptr \<Rightarrow> 'a cmeta_type_desc ptr \<Rightarrow> size_t \<Rightarrow> stl_status \<times> 'a queue ptr" where
  "queue_raw_init queue type element_limit =
     (case queue of None \<Rightarrow> (STL_INVALID_ARGUMENT, NULL)
      | Some k \<Rightarrow> case deque_raw_init (Some (queue_raw k)) type element_limit of
          (st, v) \<Rightarrow> (st, Some (k\<lparr>queue_raw := the v\<rparr>)))"

definition queue_init :: "'a queue ptr \<Rightarrow> size_t \<Rightarrow> stl_status \<times> 'a queue ptr" where
  "queue_init queue element_limit =
     (case queue of None \<Rightarrow> (STL_INVALID_ARGUMENT, NULL)
      | Some k \<Rightarrow> case deque_init (Some (queue_raw k)) element_limit of
          (st, v) \<Rightarrow> (st, Some (k\<lparr>queue_raw := the v\<rparr>)))"

definition queue_init_bytes ::
  "'a queue ptr \<Rightarrow> size_t \<Rightarrow> size_t \<Rightarrow> size_t \<Rightarrow> stl_status \<times> 'a queue ptr" where
  "queue_init_bytes queue elem_size elem_align element_limit =
     (case queue of None \<Rightarrow> (STL_INVALID_ARGUMENT, NULL)
      | Some k \<Rightarrow> case deque_init_bytes (Some (queue_raw k)) elem_size elem_align element_limit of
          (st, v) \<Rightarrow> (st, Some (k\<lparr>queue_raw := the v\<rparr>)))"

definition queue_raw_from_array ::
  "'a queue ptr \<Rightarrow> 'a list ptr \<Rightarrow> size_t \<Rightarrow> 'a cmeta_type_desc ptr \<Rightarrow> size_t \<Rightarrow> env \<Rightarrow>
   stl_status \<times> 'a queue ptr \<times> env" where
  "queue_raw_from_array queue elements count type element_limit s =
     (case queue of None \<Rightarrow> (STL_INVALID_ARGUMENT, NULL, s)
      | Some k \<Rightarrow> case deque_raw_from_array (Some (queue_raw k)) elements count type element_limit s of
          (st, v, s') \<Rightarrow> (st, Some (k\<lparr>queue_raw := the v\<rparr>), s'))"

definition queue_from_array ::
  "'a queue ptr \<Rightarrow> 'a list ptr \<Rightarrow> size_t \<Rightarrow> size_t \<Rightarrow> env \<Rightarrow> stl_status \<times> 'a queue ptr \<times> env" where
  "queue_from_array queue elements count element_limit s =
     (case queue of None \<Rightarrow> (STL_INVALID_ARGUMENT, NULL, s)
      | Some k \<Rightarrow> case deque_from_array (Some (queue_raw k)) elements count element_limit s of
          (st, v, s') \<Rightarrow> (st, Some (k\<lparr>queue_raw := the v\<rparr>), s'))"

definition queue_from_array_bytes ::
  "'a queue ptr \<Rightarrow> 'a list ptr \<Rightarrow> size_t \<Rightarrow> size_t \<Rightarrow> size_t \<Rightarrow> size_t \<Rightarrow> env \<Rightarrow>
   stl_status \<times> 'a queue ptr \<times> env" where
  "queue_from_array_bytes queue elements count elem_size elem_align element_limit s =
     (case queue of None \<Rightarrow> (STL_INVALID_ARGUMENT, NULL, s)
      | Some k \<Rightarrow>
          case deque_from_array_bytes (Some (queue_raw k)) elements count elem_size elem_align element_limit s of
            (st, v, s') \<Rightarrow> (st, Some (k\<lparr>queue_raw := the v\<rparr>), s'))"

definition queue_destroy :: "'a queue ptr \<Rightarrow> env \<Rightarrow> 'a queue ptr \<times> env" where
  "queue_destroy queue s =
     (case queue of None \<Rightarrow> (NULL, s)
      | Some k \<Rightarrow> case deque_destroy (Some (queue_raw k)) s of
          (v, s') \<Rightarrow> (Some (k\<lparr>queue_raw := the v\<rparr>), s'))"

definition queue_clear :: "'a queue ptr \<Rightarrow> 'a queue ptr" where
  "queue_clear queue =
     map_option (\<lambda>k. k\<lparr>queue_raw := the (snd (deque_clear (Some (queue_raw k))))\<rparr>) queue"

definition queue_reserve ::
  "'a queue ptr \<Rightarrow> size_t \<Rightarrow> env \<Rightarrow> stl_status \<times> 'a queue ptr \<times> env" where
  "queue_reserve queue capacity s =
     (case queue of None \<Rightarrow> (STL_INVALID_ARGUMENT, NULL, s)
      | Some k \<Rightarrow> case deque_reserve (Some (queue_raw k)) capacity s of
          (st, v, s') \<Rightarrow> (st, Some (k\<lparr>queue_raw := the v\<rparr>), s'))"

definition queue_push ::
  "'a queue ptr \<Rightarrow> 'a option ptr \<Rightarrow> env \<Rightarrow> stl_status \<times> 'a queue ptr \<times> env" where
  "queue_push queue elem s =
     (case queue of None \<Rightarrow> (STL_INVALID_ARGUMENT, NULL, s)
      | Some k \<Rightarrow> case deque_push_back (Some (queue_raw k)) elem s of
          (st, v, s') \<Rightarrow> (st, Some (k\<lparr>queue_raw := the v\<rparr>), s'))"

definition queue_pop ::
  "'a queue ptr \<Rightarrow> 'a option ptr \<Rightarrow> stl_status \<times> 'a queue ptr \<times> 'a option ptr" where
  "queue_pop queue out_elem =
     (case queue of None \<Rightarrow> (STL_INVALID_ARGUMENT, NULL, out_elem)
      | Some k \<Rightarrow> case deque_pop_front (Some (queue_raw k)) out_elem of
          (st, v, out) \<Rightarrow> (st, Some (k\<lparr>queue_raw := the v\<rparr>), out))"

definition queue_front :: "'a queue ptr \<Rightarrow> 'a option ptr" where
  "queue_front queue = (case queue of None \<Rightarrow> NULL | Some k \<Rightarrow> deque_front (Some (queue_raw k)))"

definition queue_back :: "'a queue ptr \<Rightarrow> 'a option ptr" where
  "queue_back queue = (case queue of None \<Rightarrow> NULL | Some k \<Rightarrow> deque_back (Some (queue_raw k)))"

definition queue_at_const :: "'a queue ptr \<Rightarrow> size_t \<Rightarrow> 'a option ptr" where
  "queue_at_const queue index =
     (case queue of None \<Rightarrow> NULL | Some k \<Rightarrow> deque_at (Some (queue_raw k)) index)"

definition queue_size :: "'a queue ptr \<Rightarrow> size_t" where
  "queue_size queue = (case queue of None \<Rightarrow> 0 | Some k \<Rightarrow> deque_size (Some (queue_raw k)))"

definition queue_capacity :: "'a queue ptr \<Rightarrow> size_t" where
  "queue_capacity queue = (case queue of None \<Rightarrow> 0 | Some k \<Rightarrow> deque_capacity (Some (queue_raw k)))"

definition queue_generation :: "'a queue ptr \<Rightarrow> u64" where
  "queue_generation queue = (case queue of None \<Rightarrow> 0 | Some k \<Rightarrow> deque_generation (Some (queue_raw k)))"

definition queue_empty :: "'a queue ptr \<Rightarrow> bool" where
  "queue_empty queue \<longleftrightarrow> queue = NULL \<or> deque_empty (Some (queue_raw (the queue)))"

section \<open>A producer and a consumer\<close>

text \<open>A client pushes the elements of a list, whatever the statuses.\<close>

fun push_each ::
  "('k ptr \<Rightarrow> 'a option ptr \<Rightarrow> env \<Rightarrow> stl_status \<times> 'k ptr \<times> env) \<Rightarrow> 'a list \<Rightarrow> 'k ptr \<Rightarrow> env \<Rightarrow>
   stl_status list \<times> 'k ptr \<times> env" where
  "push_each push [] k s = ([], k, s)"
| "push_each push (x # xs) k s =
     (case push k (Some (Some x)) s of (st, k1, s1) \<Rightarrow>
      case push_each push xs k1 s1 of (sts, k2, s2) \<Rightarrow> (st # sts, k2, s2))"

text \<open>A client pops \<open>n\<close> times into a fresh element.\<close>

fun drain ::
  "('k ptr \<Rightarrow> 'a option ptr \<Rightarrow> stl_status \<times> 'k ptr \<times> 'a option ptr) \<Rightarrow> nat \<Rightarrow> 'k ptr \<Rightarrow>
   (stl_status \<times> 'a option ptr) list \<times> 'k ptr" where
  "drain pop 0 k = ([], k)"
| "drain pop (Suc n) k =
     (case pop k (Some None) of (st, k1, out) \<Rightarrow>
      case drain pop n k1 of (rs, k2) \<Rightarrow> ((st, out) # rs, k2))"

definition accepted :: "'a list \<Rightarrow> stl_status list \<Rightarrow> 'a list" where
  "accepted xs sts = map fst (filter (\<lambda>(x, st). st = STL_OK) (zip xs sts))"

text \<open>
  What an adapter promises, with the contents listed in the order they will come out:
  an accepted push adds the element, a refused one changes nothing, a pop takes the first.
\<close>

locale adapter =
  fixes rep :: "'k \<Rightarrow> 'a list \<Rightarrow> bool"
    and push :: "'k ptr \<Rightarrow> 'a option ptr \<Rightarrow> env \<Rightarrow> stl_status \<times> 'k ptr \<times> env"
    and pop :: "'k ptr \<Rightarrow> 'a option ptr \<Rightarrow> stl_status \<times> 'k ptr \<times> 'a option ptr"
    and add :: "'a \<Rightarrow> 'a list \<Rightarrow> 'a list"
  assumes push_law: "rep k xs \<Longrightarrow> push (Some k) (Some (Some x)) s = (st, r, s') \<Longrightarrow>
      \<exists>w. r = Some w \<and> rep w (if st = STL_OK then add x xs else xs)"
    and pop_first: "rep k (x # xs) \<Longrightarrow>
      \<exists>w. pop (Some k) (Some c) = (STL_OK, Some w, Some (Some x)) \<and> rep w xs"
    and pop_empty: "rep k [] \<Longrightarrow> pop (Some k) (Some c) = (STL_EMPTY, Some k, Some c)"
begin

lemma push_each_rep:
  "rep k ys \<Longrightarrow> push_each push xs (Some k) s = (sts, r, s') \<Longrightarrow>
   \<exists>w. r = Some w \<and> rep w (fold add (accepted xs sts) ys)"
proof (induction xs arbitrary: k ys s sts)
  case Nil
  then show ?case by (auto simp: accepted_def)
next
  case (Cons x xs)
  obtain st k1 s1 where p: "push (Some k) (Some (Some x)) s = (st, k1, s1)" by (metis prod_cases3)
  obtain sts' where r: "push_each push xs k1 s1 = (sts', r, s')" "sts = st # sts'"
    using Cons.prems(2) p by (auto split: prod.splits)
  obtain w where "k1 = Some w" "rep w (if st = STL_OK then add x ys else ys)"
    using push_law [OF Cons.prems(1) p] by blast
  with Cons.IH [OF this(2)] r show ?case by (auto simp: accepted_def)
qed

lemma drain_rep:
  "rep k xs \<Longrightarrow> fst (drain pop (Suc (length xs)) (Some k)) =
     map (\<lambda>x. (STL_OK, Some (Some x))) xs @ [(STL_EMPTY, Some None)]"
proof (induction xs arbitrary: k)
  case Nil
  then show ?case by (simp add: pop_empty)
next
  case (Cons x xs)
  obtain w where "pop (Some k) (Some None) = (STL_OK, Some w, Some (Some x))" "rep w xs"
    using pop_first [OF Cons.prems] by blast
  then show ?case using Cons.IH [of w] by (simp split: prod.splits)
qed

lemma produce_then_drain:
  assumes "rep k ys" and "push_each push xs (Some k) s = (sts, r, s')"
    and "zs = fold add (accepted xs sts) ys"
  shows "fst (drain pop (Suc (length zs)) r) =
     map (\<lambda>x. (STL_OK, Some (Some x))) zs @ [(STL_EMPTY, Some None)]"
  using push_each_rep [OF assms(1,2)] drain_rep assms(3) by blast

end

lemma fold_Cons_rev [simp]: "fold (#) xs ys = rev xs @ ys"
  by (induction xs arbitrary: ys) simp_all

definition stack_rep :: "'a cstl_stack \<Rightarrow> 'a list \<Rightarrow> bool" where
  "stack_rep k xs \<longleftrightarrow> linear_rep (stack_raw k) (rev xs)"

definition queue_rep :: "'a queue \<Rightarrow> 'a list \<Rightarrow> bool" where
  "queue_rep k xs \<longleftrightarrow> deque_rep (queue_raw k) xs"

interpretation stack_adapter: adapter stack_rep stack_push stack_pop "(#)"
proof
  fix k :: "'a cstl_stack" and xs x s st r s'
  assume rep: "stack_rep k xs" and push: "stack_push (Some k) (Some (Some x)) s = (st, r, s')"
  obtain st1 v s1 where p: "vec_push (Some (stack_raw k)) (Some (Some x)) s = (st1, v, s1)"
    by (metis prod_cases3)
  then have "op_outcome linear_rep (stack_raw k) s NULL
      (vec_model x (sq_element_limit (stack_raw k)) (sq_element_type (stack_raw k) \<noteq> NULL)
        (Vec_push x) (rev xs)) (st1, v, NULL, s1)"
    using vec_push_contract [OF rep [unfolded stack_rep_def], where zero = x and x = x and s = s] by simp
  then show "\<exists>w. r = Some w \<and> stack_rep w (if st = STL_OK then x # xs else xs)"
    using push p rep by (auto simp: stack_push_def op_outcome_def stack_rep_def split: if_splits)
next
  fix k :: "'a cstl_stack" and x xs c
  assume "stack_rep k (x # xs)"
  then have rep: "linear_rep (stack_raw k) (rev xs @ [x])" by (simp add: stack_rep_def)
  obtain st v out where p: "vec_pop (Some (stack_raw k)) (Some c) = (st, v, out)" by (metis prod_cases3)
  have "op_outcome linear_rep (stack_raw k) undefined (Some c) (STL_OK, rev xs, Some x)
      (st, v, out, undefined)"
    using vec_pop_contract [OF rep, where zero = x and out = "Some c" and s = undefined] p by simp
  moreover have "st = STL_OK" using p rep linear_rep_valid [OF rep]
    by (auto simp: vec_pop_def linear_rep_split storage_ok_def Let_def nth_append)
  ultimately show "\<exists>w. stack_pop (Some k) (Some c) = (STL_OK, Some w, Some (Some x)) \<and> stack_rep w xs"
    using p by (auto simp: stack_pop_def op_outcome_def stack_rep_def deliver_def)
next
  fix k :: "'a cstl_stack" and c
  assume "stack_rep k []"
  then show "stack_pop (Some k) (Some c) = (STL_EMPTY, Some k, Some c)"
    using linear_rep_valid [of "stack_raw k" "[]"]
    by (auto simp: stack_rep_def stack_pop_def vec_pop_def linear_rep_def)
qed

interpretation queue_adapter: adapter queue_rep queue_push queue_pop "\<lambda>x xs. xs @ [x]"
proof
  fix k :: "'a queue" and xs x s st r s'
  assume rep: "queue_rep k xs" and push: "queue_push (Some k) (Some (Some x)) s = (st, r, s')"
  obtain st1 v s1 where p: "deque_push_back (Some (queue_raw k)) (Some (Some x)) s = (st1, v, s1)"
    by (metis prod_cases3)
  then have "op_outcome deque_rep (queue_raw k) s NULL
      (deque_model (sq_element_limit (queue_raw k)) (sq_element_type (queue_raw k) \<noteq> NULL)
        (Deque_push_back x) xs) (st1, v, NULL, s1)"
    using deque_push_back_contract [OF rep [unfolded queue_rep_def], where x = x and s = s] by simp
  then show "\<exists>w. r = Some w \<and> queue_rep w (if st = STL_OK then xs @ [x] else xs)"
    using push p rep by (auto simp: queue_push_def op_outcome_def queue_rep_def split: if_splits)
next
  fix k :: "'a queue" and x xs c
  assume "queue_rep k (x # xs)"
  then have rep: "deque_rep (queue_raw k) (x # xs)" by (simp add: queue_rep_def)
  then have "elem_ok (sq_element_type (queue_raw k))" "sq_size (queue_raw k) \<noteq> 0"
    "slots (queue_raw k) ! dq_head (queue_raw k) = Some x"
    using ring_pop_front(2) by (auto simp: deque_rep_def storage_ok_def)
  then obtain v out where p: "deque_pop_front (Some (queue_raw k)) (Some c) = (STL_OK, v, out)"
    using deque_rep_valid [OF rep] by (simp add: deque_pop_front_def Let_def)
  have "op_outcome deque_rep (queue_raw k) undefined (Some c) (STL_OK, xs, Some x)
      (STL_OK, v, out, undefined)"
    using deque_pop_front_contract [OF rep, where out = "Some c" and s = undefined] p by simp
  then show "\<exists>w. queue_pop (Some k) (Some c) = (STL_OK, Some w, Some (Some x)) \<and> queue_rep w xs"
    using p by (auto simp: queue_pop_def op_outcome_def queue_rep_def deliver_def)
next
  fix k :: "'a queue" and c
  assume "queue_rep k []"
  then show "queue_pop (Some k) (Some c) = (STL_EMPTY, Some k, Some c)"
    using deque_rep_valid [of "queue_raw k" "[]"]
    by (auto simp: queue_rep_def queue_pop_def deque_pop_front_def deque_rep_def)
qed

section \<open>Properties\<close>

text \<open>The stack is last-in first-out: whatever pushes were refused for lack of memory
  or capacity, draining it yields the accepted elements in reverse order of acceptance, then
  what it held before, then \<open>STL_EMPTY\<close>.\<close>

theorem stack_lifo:
  assumes "stack_rep k ys" and "push_each stack_push xs (Some k) s = (sts, r, s')"
    and "zs = rev (accepted xs sts) @ ys"
  shows "fst (drain stack_pop (Suc (length zs)) r) =
     map (\<lambda>x. (STL_OK, Some (Some x))) zs @ [(STL_EMPTY, Some None)]"
  by (rule stack_adapter.produce_then_drain [OF assms(1,2)]) (simp add: assms(3))

lemma pair_stack_rep: "stack_rep \<lparr>stack_raw = pair_vec\<rparr> [2, 1]"
  using pair_vec_rep by (simp add: stack_rep_def)

theorem stack_lifo_witness:
  "\<exists>sts r s'. push_each stack_push [7, 8] (Some \<lparr>stack_raw = pair_vec\<rparr>) never_env = (sts, r, s') \<and>
     fst (drain stack_pop (Suc (length (rev (accepted [7, 8] sts) @ [2, 1 :: nat]))) r) =
       map (\<lambda>x. (STL_OK, Some (Some x))) (rev (accepted [7, 8] sts) @ [2, 1]) @ [(STL_EMPTY, Some None)]"
proof -
  obtain sts r s' where
    run: "push_each stack_push [7, 8] (Some \<lparr>stack_raw = pair_vec\<rparr>) never_env = (sts, r, s')"
    by (metis prod_cases3)
  show ?thesis using stack_lifo [OF pair_stack_rep run refl] run by blast
qed

text \<open>The queue is first-in first-out: draining it yields what it held before, then the
  accepted elements in order of acceptance, then \<open>STL_EMPTY\<close>.\<close>

theorem queue_fifo:
  assumes "queue_rep k ys" and "push_each queue_push xs (Some k) s = (sts, r, s')"
    and "zs = ys @ accepted xs sts"
  shows "fst (drain queue_pop (Suc (length zs)) r) =
     map (\<lambda>x. (STL_OK, Some (Some x))) zs @ [(STL_EMPTY, Some None)]"
  by (rule queue_adapter.produce_then_drain [OF assms(1,2)]) (simp add: assms(3))

lemma wrapped_queue_rep: "queue_rep \<lparr>queue_raw = wrapped_deque\<rparr> [1, 2]"
  using wrapped_deque_rep by (simp add: queue_rep_def)

theorem queue_fifo_witness:
  "\<exists>sts r s'. push_each queue_push [7, 8] (Some \<lparr>queue_raw = wrapped_deque\<rparr>) ample_env = (sts, r, s') \<and>
     fst (drain queue_pop (Suc (length ([1, 2 :: nat] @ accepted [7, 8] sts))) r) =
       map (\<lambda>x. (STL_OK, Some (Some x))) ([1, 2] @ accepted [7, 8] sts) @ [(STL_EMPTY, Some None)]"
proof -
  obtain sts r s' where
    run: "push_each queue_push [7, 8] (Some \<lparr>queue_raw = wrapped_deque\<rparr>) ample_env = (sts, r, s')"
    by (metis prod_cases3)
  show ?thesis using queue_fifo [OF wrapped_queue_rep run refl] run by blast
qed

end
