(* ===== verification/Binary_Heap.thy ===== *)
theory Binary_Heap
  imports Salts_Prelude "HOL-Library.Multiset"
begin

text \<open>
  Array-embedded binary heaps as lists: the sift loops that \<^verbatim>\<open>src/cstl/src/heap.c\<close> and
  \<^verbatim>\<open>src/concurrency/src/deadline_queue.c\<close> both contain, on abstract elements, and their
  correctness for every strict weak order. The two components are shown to perform these
  loops on their own data.
\<close>

definition swap_at :: "'a list \<Rightarrow> nat \<Rightarrow> nat \<Rightarrow> 'a list" where
  "swap_at xs i j = xs[i := xs ! j, j := xs ! i]"

definition parent :: "nat \<Rightarrow> nat" where
  "parent i = (i - 1) div 2"

lemma length_swap_at [simp]: "length (swap_at xs i j) = length xs"
  by (simp add: swap_at_def)

lemma swap_at_nth [simp]:
  "i < length xs \<Longrightarrow> j < length xs \<Longrightarrow> k < length xs \<Longrightarrow>
   swap_at xs i j ! k = (if k = j then xs ! i else if k = i then xs ! j else xs ! k)"
  by (auto simp: swap_at_def nth_list_update)

lemma mset_swap_at [simp]:
  "i < length xs \<Longrightarrow> j < length xs \<Longrightarrow> mset (swap_at xs i j) = mset xs"
  unfolding swap_at_def by (rule mset_swap)

lemma parent_less: "0 < i \<Longrightarrow> parent i < i"
  by (simp add: parent_def)

lemma parent_iff: "0 < j \<Longrightarrow> parent j = i \<longleftrightarrow> j = 2 * i + 1 \<or> j = 2 * i + 2"
  unfolding parent_def by presburger

function sift_up :: "('a \<Rightarrow> 'a \<Rightarrow> bool) \<Rightarrow> 'a list \<Rightarrow> nat \<Rightarrow> 'a list" where
  "sift_up lt xs i =
     (if i \<noteq> 0 \<and> lt (xs ! i) (xs ! parent i)
      then sift_up lt (swap_at xs i (parent i)) (parent i) else xs)"
  by auto
termination
  by (relation "measure (\<lambda>(lt, xs, i). i)") (auto simp: parent_less)

definition best_child :: "('a \<Rightarrow> 'a \<Rightarrow> bool) \<Rightarrow> 'a list \<Rightarrow> nat \<Rightarrow> nat" where
  "best_child lt xs i =
     (let l = 2 * i + 1; r = l + 1;
          b = (if l < length xs \<and> lt (xs ! l) (xs ! i) then l else i)
      in if r < length xs \<and> lt (xs ! r) (xs ! b) then r else b)"

lemma best_child_cases:
  "best_child lt xs i = i \<or> i < best_child lt xs i \<and> best_child lt xs i < length xs \<and>
     parent (best_child lt xs i) = i"
  by (auto simp: best_child_def Let_def parent_def)

function sift_down :: "('a \<Rightarrow> 'a \<Rightarrow> bool) \<Rightarrow> 'a list \<Rightarrow> nat \<Rightarrow> 'a list" where
  "sift_down lt xs i =
     (let b = best_child lt xs i in if b = i then xs else sift_down lt (swap_at xs i b) b)"
  by auto
termination
proof (relation "measure (\<lambda>(lt, xs, i). length xs - i)")
  show "((lt, swap_at xs i b, b), lt, xs, i) \<in> measure (\<lambda>(lt, xs, i). length xs - i)"
    if "b = best_child lt xs i" "b \<noteq> i" for lt :: "'a \<Rightarrow> 'a \<Rightarrow> bool" and xs i b
    using that best_child_cases [of lt xs i] by auto
qed simp

declare sift_up.simps [simp del] sift_down.simps [simp del]

lemma sift_up_keeps [simp]:
  "i < length xs \<Longrightarrow> length (sift_up lt xs i) = length xs \<and> mset (sift_up lt xs i) = mset xs"
proof (induction lt xs i rule: sift_up.induct)
  case (1 lt xs i)
  then show ?case
    using parent_less [of i] by (subst (1 2) sift_up.simps) auto
qed

lemma sift_down_keeps [simp]:
  "i < length xs \<Longrightarrow> length (sift_down lt xs i) = length xs \<and> mset (sift_down lt xs i) = mset xs"
proof (induction lt xs i rule: sift_down.induct)
  case (1 lt xs i)
  then show ?case
    using best_child_cases [of lt xs i] by (subst (1 2) sift_down.simps) (auto simp: Let_def)
qed

text \<open>
  The heap order, and the two ways it may be broken at one index \<open>i\<close>: everything
  away from \<open>i\<close> is in order and the children of \<open>i\<close> are not before its parent.
\<close>

definition is_heap :: "('a \<Rightarrow> 'a \<Rightarrow> bool) \<Rightarrow> 'a list \<Rightarrow> bool" where
  "is_heap lt xs \<longleftrightarrow> (\<forall>j. 0 < j \<and> j < length xs \<longrightarrow> \<not> lt (xs ! j) (xs ! parent j))"

definition heap_around :: "('a \<Rightarrow> 'a \<Rightarrow> bool) \<Rightarrow> 'a list \<Rightarrow> nat \<Rightarrow> bool" where
  "heap_around lt xs i \<longleftrightarrow>
     (\<forall>j. 0 < j \<and> j < length xs \<and> j \<noteq> i \<and> parent j \<noteq> i \<longrightarrow> \<not> lt (xs ! j) (xs ! parent j)) \<and>
     (\<forall>j. 0 < i \<and> 0 < j \<and> j < length xs \<and> parent j = i \<longrightarrow> \<not> lt (xs ! j) (xs ! parent i))"

locale binary_heap =
  fixes lt :: "'a \<Rightarrow> 'a \<Rightarrow> bool"
  assumes less_asym: "lt x y \<Longrightarrow> \<not> lt y x"
    and less_negtrans: "\<not> lt y x \<Longrightarrow> \<not> lt z y \<Longrightarrow> \<not> lt z x"
begin

lemma heap_root:
  assumes "is_heap lt xs" and "i < length xs"
  shows "\<not> lt (xs ! i) (xs ! 0)"
  using assms(2)
proof (induction i rule: less_induct)
  case (less i)
  show ?case
  proof (cases "i = 0")
    case True
    then show ?thesis using less_asym by blast
  next
    case False
    then have p: "parent i < i" by (simp add: parent_less)
    have "\<not> lt (xs ! i) (xs ! parent i)" using assms(1) False less.prems by (simp add: is_heap_def)
    moreover have "\<not> lt (xs ! parent i) (xs ! 0)" using less.IH [OF p] p less.prems by simp
    ultimately show ?thesis using less_negtrans by blast
  qed
qed

lemma sift_up_heap:
  "heap_around lt xs i \<Longrightarrow> i < length xs \<Longrightarrow>
   (\<And>j. 0 < j \<Longrightarrow> j < length xs \<Longrightarrow> parent j = i \<Longrightarrow> \<not> lt (xs ! j) (xs ! i)) \<Longrightarrow>
   is_heap lt (sift_up lt xs i)"
proof (induction i arbitrary: xs rule: less_induct)
  case (less i)
  note around = \<open>heap_around lt xs i\<close> and i = \<open>i < length xs\<close>
  show ?case
  proof (cases "i \<noteq> 0 \<and> lt (xs ! i) (xs ! parent i)")
    case False
    then have "\<not> lt (xs ! j) (xs ! parent j)" if "0 < j" "j < length xs" for j
      using around less.prems(3) that by (cases "j = i"; cases "parent j = i") (auto simp: heap_around_def)
    then show ?thesis using False by (auto simp: sift_up.simps [of _ _ i] is_heap_def)
  next
    case True
    let ?p = "parent i" and ?ys = "swap_at xs i (parent i)"
    have p: "?p < i" "?p < length xs" using True parent_less [of i] i by auto
    have edge: "\<not> lt (xs ! j) (xs ! parent j)" if "0 < j" "j < length xs" "j \<noteq> i" "parent j \<noteq> i" for j
      using around that by (simp add: heap_around_def)
    have grand: "\<not> lt (xs ! j) (xs ! ?p)" if "0 < j" "j < length xs" "parent j = i" for j
      using around that True by (simp add: heap_around_def)
    have pj: "parent j < length xs" if "0 < j" "j < length xs" for j
      using parent_less [OF that(1)] that(2) by simp
    have sib: "\<not> lt (xs ! j) (xs ! ?p)" if "0 < j" "j < length xs" "j \<noteq> i" "parent j = ?p" for j
      using edge [of j] that p(1) by auto
    have up: "\<not> lt (xs ! ?p) (xs ! parent ?p)" if "0 < ?p"
      using edge [of ?p] that p parent_less [OF that] by auto
    have "heap_around lt ?ys ?p"
      unfolding heap_around_def
    proof (intro conjI allI impI; elim conjE)
      fix j assume j: "0 < j" "j < length ?ys" "j \<noteq> ?p" "parent j \<noteq> ?p"
      then show "\<not> lt (?ys ! j) (?ys ! parent j)"
        using edge [of j] grand [of j] pj [of j] p i by (cases "parent j = i") auto
    next
      fix j assume j: "0 < ?p" "0 < j" "j < length ?ys" "parent j = ?p"
      have pp: "parent ?p < ?p" "parent ?p < length xs"
        using parent_less [OF j(1)] p by auto
      show "\<not> lt (?ys ! j) (?ys ! parent ?p)"
      proof (cases "j = i")
        case True
        then show ?thesis using up [OF j(1)] p pp i by auto
      next
        case False
        moreover have "j \<noteq> ?p" using j parent_less [OF j(2)] by auto
        ultimately show ?thesis
          using less_negtrans [OF up [OF j(1)] sib [of j]] j p pp i by auto
      qed
    qed
    moreover have "\<not> lt (?ys ! j) (?ys ! ?p)" if "0 < j" "j < length ?ys" "parent j = ?p" for j
    proof (cases "j = i")
      case True
      then show ?thesis using \<open>i \<noteq> 0 \<and> lt (xs ! i) (xs ! ?p)\<close> less_asym p i by auto
    next
      case False
      have "j \<noteq> ?p" using that parent_less [OF that(1)] by auto
      moreover have "\<not> lt (xs ! ?p) (xs ! i)" using True less_asym by blast
      ultimately show ?thesis
        using less_negtrans [OF _ sib [of j]] that False p i by auto
    qed
    ultimately have "is_heap lt (sift_up lt ?ys ?p)"
      by (intro less.IH) (use p in auto)
    then show ?thesis using True by (simp add: sift_up.simps [of _ xs])
  qed
qed

lemma best_child_least:
  assumes "0 < j" and "j < length xs" and "parent j = i"
  shows "\<not> lt (xs ! j) (xs ! best_child lt xs i)"
proof -
  have j: "j = 2 * i + 1 \<or> j = 2 * i + 2" using assms parent_iff by blast
  have trans: "lt x z" if "lt x y" "lt y z" for x y z
    using less_negtrans [of z y x] that less_asym by blast
  have irrefl: "\<not> lt x x" for x using less_asym by blast
  let ?l = "xs ! Suc (2 * i)" and ?r = "xs ! Suc (Suc (2 * i))"
  show ?thesis
    using j assms(2) less_asym [of ?r ?l] trans [of ?l ?r "xs ! i"] irrefl [of ?l] irrefl [of ?r]
    by (auto simp: best_child_def Let_def)
qed

lemma sift_down_heap:
  "heap_around lt xs i \<Longrightarrow> i < length xs \<Longrightarrow> (0 < i \<Longrightarrow> \<not> lt (xs ! i) (xs ! parent i)) \<Longrightarrow>
   is_heap lt (sift_down lt xs i)"
proof (induction "length xs - i" arbitrary: xs i rule: less_induct)
  case less
  define b where "b = best_child lt xs i"
  note around = \<open>heap_around lt xs i\<close> and i = \<open>i < length xs\<close>
  have least: "\<not> lt (xs ! j) (xs ! b)" if "0 < j" "j < length xs" "parent j = i" for j
    using best_child_least [OF that] by (simp add: b_def)
  have edge: "\<not> lt (xs ! j) (xs ! parent j)" if "0 < j" "j < length xs" "j \<noteq> i" "parent j \<noteq> i" for j
    using around that by (simp add: heap_around_def)
  show ?case
  proof (cases "b = i")
    case True
    then have "\<not> lt (xs ! j) (xs ! parent j)" if "0 < j" "j < length xs" for j
      using edge [of j] least [of j] less.prems(3) that by (cases "j = i"; cases "parent j = i") auto
    then show ?thesis using True by (subst sift_down.simps) (simp add: b_def is_heap_def)
  next
    case False
    then have b: "i < b" "b < length xs" "parent b = i"
      using best_child_cases [of lt xs i] by (auto simp: b_def)
    have lt: "lt (xs ! b) (xs ! i)"
      using False unfolding b_def best_child_def Let_def
      by (auto split: if_splits) (metis less_asym less_negtrans)
    let ?ys = "swap_at xs i b"
    have pj: "parent j < length xs" if "0 < j" "j < length xs" for j
      using parent_less [OF that(1)] that(2) by simp
    have "heap_around lt ?ys b"
      unfolding heap_around_def
    proof (intro conjI allI impI; elim conjE)
      fix j assume j: "0 < j" "j < length ?ys" "j \<noteq> b" "parent j \<noteq> b"
      have pi: "\<not> lt (xs ! b) (xs ! parent i)" if "0 < i"
        using around b that by (simp add: heap_around_def)
      have "parent i < i" if "j = i" using parent_less [of i] that j by simp
      then show "\<not> lt (?ys ! j) (?ys ! parent j)"
        using edge [of j] least [of j] pi pj [of j] j b i
        by (cases "j = i"; cases "parent j = i") auto
    next
      fix j assume j: "0 < b" "0 < j" "j < length ?ys" "parent j = b"
      then have "b < j" using parent_less [OF j(2)] by simp
      then show "\<not> lt (?ys ! j) (?ys ! parent b)" using edge [of j] j b i by auto
    qed
    moreover have "\<not> lt (?ys ! b) (?ys ! parent b)" using lt less_asym b i by auto
    ultimately have "is_heap lt (sift_down lt ?ys b)"
      using b i by (intro less.hyps) auto
    then show ?thesis using False by (subst sift_down.simps) (simp add: b_def [symmetric])
  qed
qed

text \<open>The two uses of the loops: an element appended at the end, one replaced in the middle.\<close>

lemma heap_push:
  assumes "is_heap lt xs"
  shows "is_heap lt (sift_up lt (xs @ [x]) (length xs))"
proof (rule sift_up_heap)
  have p: "parent j < length xs" if "0 < j" "j < Suc (length xs)" for j
    using parent_less [OF that(1)] that(2) by simp
  show "heap_around lt (xs @ [x]) (length xs)"
    unfolding heap_around_def
  proof (intro conjI allI impI; elim conjE)
    fix j assume "0 < j" "j < length (xs @ [x])" "j \<noteq> length xs"
    then show "\<not> lt ((xs @ [x]) ! j) ((xs @ [x]) ! parent j)"
      using assms p [of j] by (simp add: is_heap_def nth_append)
  next
    fix j assume "0 < j" "j < length (xs @ [x])" "parent j = length xs"
    then show "\<not> lt ((xs @ [x]) ! j) ((xs @ [x]) ! parent (length xs))" using p [of j] by simp
  qed
next
  show "\<not> lt ((xs @ [x]) ! j) ((xs @ [x]) ! length xs)"
    if "0 < j" "j < length (xs @ [x])" "parent j = length xs" for j
    using parent_less [OF that(1)] that by simp
qed simp

lemma heap_butlast: "is_heap lt (xs @ [x]) \<Longrightarrow> is_heap lt xs"
  unfolding is_heap_def
proof (intro allI impI; elim conjE)
  fix j assume h: "\<forall>j. 0 < j \<and> j < length (xs @ [x]) \<longrightarrow> \<not> lt ((xs @ [x]) ! j) ((xs @ [x]) ! parent j)"
    and j: "0 < j" "j < length xs"
  then have "\<not> lt ((xs @ [x]) ! j) ((xs @ [x]) ! parent j)" by simp
  then show "\<not> lt (xs ! j) (xs ! parent j)"
    using j parent_less [OF j(1)] by (simp add: nth_append)
qed

lemma heap_replace:
  assumes "is_heap lt xs" and "i < length xs"
  shows "heap_around lt (xs[i := x]) i"
proof -
  have edge: "\<not> lt (xs ! j) (xs ! parent j)" if "0 < j" "j < length xs" for j
    using assms(1) that by (simp add: is_heap_def)
  have "\<not> lt (xs ! j) (xs ! parent i)" if "0 < i" "0 < j" "j < length xs" "parent j = i" for j
  proof -
    have "\<not> lt (xs ! i) (xs ! parent i)" "\<not> lt (xs ! j) (xs ! i)"
      using edge [of i] edge [of j] that assms(2) by simp_all
    then show ?thesis by (rule less_negtrans)
  qed
  then show ?thesis
    using edge parent_less [of i] assms(2)
    by (auto simp: heap_around_def nth_list_update dest: parent_less)
qed

end

end
