(* ===== verification/Cstl_Heap.thy ===== *)
theory Cstl_Heap
  imports Cstl_Storage Binary_Heap
begin

text \<open>
  The binary heap (\<^verbatim>\<open>src/cstl/src/heap.c\<close>, \<^verbatim>\<open>heap.h\<close>): every operation of the file.
  The code's array operations are shown to be the list operations of
  \<open>Binary_Heap\<close>, and those a priority queue for the user's comparator.
\<close>

record 'a heap = "'a storage" +
  hp_compare :: "('a \<Rightarrow> 'a \<Rightarrow> nat ptr \<Rightarrow> int) ptr"
  hp_compare_ctx :: "nat ptr"

section \<open>Static helpers\<close>

definition SALTS_HEAP_MIN_CAPACITY :: size_t where
  "SALTS_HEAP_MIN_CAPACITY = 8"

definition heap_valid :: "'a heap ptr \<Rightarrow> bool" where
  "heap_valid heap \<longleftrightarrow>
     heap \<noteq> NULL \<and> sq_initialized (the heap) \<and> sq_elem_size (the heap) \<noteq> 0 \<and>
     (sq_element_type (the heap) \<noteq> NULL \<or> hp_compare (the heap) \<noteq> NULL)"

text \<open>The comparison the heap uses: the type's, else the caller's with its context.\<close>

definition heap_order :: "'a heap \<Rightarrow> 'a \<Rightarrow> 'a \<Rightarrow> int" where
  "heap_order heap a b =
     (case sq_element_type heap of
        Some t \<Rightarrow> the (tr_compare (the (td_traits t))) a b
      | None \<Rightarrow> the (hp_compare heap) a b (hp_compare_ctx heap))"

definition heap_compare_values :: "'a heap \<Rightarrow> size_t \<Rightarrow> size_t \<Rightarrow> int" where
  "heap_compare_values heap left right =
     heap_order heap (the (slots heap ! left)) (the (slots heap ! right))"

definition heap_less :: "'a heap \<Rightarrow> size_t \<Rightarrow> size_t \<Rightarrow> bool" where
  "heap_less heap left right \<longleftrightarrow> heap_compare_values heap left right < 0"

definition heap_next_capacity :: "'a heap \<Rightarrow> size_t \<Rightarrow> size_t \<Rightarrow> stl_status \<times> size_t" where
  "heap_next_capacity = seq_next_capacity SALTS_HEAP_MIN_CAPACITY"

definition heap_grow_to ::
  "'a heap ptr \<Rightarrow> size_t \<Rightarrow> bool ptr \<Rightarrow> env \<Rightarrow> stl_status \<times> 'a heap ptr \<times> bool ptr \<times> env" where
  "heap_grow_to heap minimum changed s =
     (if \<not> heap_valid heap then (STL_INVALID_ARGUMENT, heap, map_option (\<lambda>_. False) changed, s)
      else case seq_grow_to SALTS_HEAP_MIN_CAPACITY (the heap) minimum s of
        (st, v, ch, s') \<Rightarrow> (st, Some v, map_option (\<lambda>_. ch) changed, s'))"

definition heap_prepare_copy ::
  "'a heap \<Rightarrow> 'a option ptr \<Rightarrow> env \<Rightarrow> stl_status \<times> 'a option ptr \<times> env" where
  "heap_prepare_copy = seq_prepare_copy"

definition heap_discard_prepared :: "'a heap \<Rightarrow> 'a option ptr \<Rightarrow> env \<Rightarrow> env" where
  "heap_discard_prepared = seq_discard_prepared"

definition heap_swap ::
  "'a heap \<Rightarrow> size_t \<Rightarrow> size_t \<Rightarrow> 'a option ptr \<Rightarrow> 'a heap \<times> 'a option ptr" where
  "heap_swap heap left right scratch =
     (if left = right then (heap, scratch)
      else if sq_element_type heap = NULL then
        let tmp = slots heap ! left;
            heap1 = set_slot left (slots heap ! right) heap;
            heap2 = set_slot right tmp heap1
        in (heap2, map_option (\<lambda>_. tmp) scratch)
      else
        case sequence_move_destroy (sq_element_type heap) scratch (Some (slots heap ! left)) of
          (_, scratch1, l) \<Rightarrow>
            let heap1 = set_slot left (the l) heap in
            case sequence_move_destroy (sq_element_type heap) (Some (slots heap1 ! left))
                   (Some (slots heap1 ! right)) of
              (_, l2, r2) \<Rightarrow>
                let heap2 = set_slot right (the r2) (set_slot left (the l2) heap1) in
                case sequence_move_destroy (sq_element_type heap) (Some (slots heap2 ! right)) scratch1 of
                  (_, r3, scratch2) \<Rightarrow> (set_slot right (the r3) heap2, scratch2))"

lemma heap_swap_size [simp]: "sq_size (fst (heap_swap heap l r scratch)) = sq_size heap"
  by (simp add: heap_swap_def Let_def split: prod.splits)

function heap_sift_up :: "'a heap \<Rightarrow> size_t \<Rightarrow> 'a option ptr \<Rightarrow> 'a heap \<times> 'a option ptr" where
  "heap_sift_up heap index scratch =
     (if index \<noteq> 0 then
        let par = (index - 1) div 2 in
        if \<not> heap_less heap index par then (heap, scratch)
        else
          let r = heap_swap heap index par scratch in heap_sift_up (fst r) par (snd r)
      else (heap, scratch))"
  by auto
termination
  by (relation "measure (\<lambda>(heap, index, scratch). index)") auto

text \<open>The child the loop body selects, or the index itself. In C, \<open>right\<close> wraps to zero at the single
  index \<open>(SIZE_MAX - 1) / 2\<close>; the representation keeps heaps below that size, so the index is
  never reached and the sum is written without the wrap-around.\<close>

definition heap_best :: "'a heap \<Rightarrow> size_t \<Rightarrow> size_t" where
  "heap_best heap index =
     (let left = index * 2 + 1;
          right = left + 1;
          best = index;
          best = (if left < sq_size heap \<and> heap_less heap left best then left else best)
      in if right < sq_size heap \<and> heap_less heap right best then right else best)"

function heap_sift_down :: "'a heap \<Rightarrow> size_t \<Rightarrow> 'a option ptr \<Rightarrow> 'a heap \<times> 'a option ptr" where
  "heap_sift_down heap index scratch =
     (if (SIZE_MAX - 1) div 2 < index then (heap, scratch)
      else
        let best = heap_best heap index in
        if best = index then (heap, scratch)
        else let r = heap_swap heap index best scratch in heap_sift_down (fst r) best (snd r))"
  by auto
termination
  by (relation "measure (\<lambda>(heap, index, scratch). sq_size heap - index)")
    (auto simp: heap_best_def Let_def split: if_splits)

declare heap_sift_up.simps [simp del] heap_sift_down.simps [simp del]

section \<open>Initialisation and destruction\<close>

definition heap_zeroed :: "'a heap" where
  "heap_zeroed = \<lparr>sq_descriptor = NULL, sq_data = NULL, sq_size = 0, sq_capacity = 0,
     sq_elem_size = 0, sq_elem_stride = 0, sq_elem_align = 0, sq_element_limit = 0,
     sq_element_type = NULL, sq_generation = 0, sq_initialized = False,
     hp_compare = NULL, hp_compare_ctx = NULL\<rparr>"

definition heap_initialize ::
  "'a heap ptr \<Rightarrow> 'a cmeta_type_desc ptr \<Rightarrow> size_t \<Rightarrow> size_t \<Rightarrow> size_t \<Rightarrow>
   ('a \<Rightarrow> 'a \<Rightarrow> nat ptr \<Rightarrow> int) ptr \<Rightarrow> nat ptr \<Rightarrow> stl_status \<times> 'a heap ptr" where
  "heap_initialize heap type elem_size elem_align limit compare context =
     (if heap = NULL \<or> (type = NULL \<and> compare = NULL) then (STL_INVALID_ARGUMENT, heap)
      else if sq_initialized (the heap) then (STL_INVALID_ARGUMENT, heap)
      else
        case sequence_stride elem_size elem_align (Some 0) of (st, stride) \<Rightarrow>
        if st \<noteq> STL_OK then (st, heap)
        else (STL_OK, Some (heap_zeroed\<lparr>sq_elem_size := elem_size, sq_elem_stride := the stride,
                sq_elem_align := elem_align, sq_element_limit := limit, sq_element_type := type,
                hp_compare := compare, hp_compare_ctx := context,
                sq_generation := sq_generation (the heap) + 1, sq_initialized := True\<rparr>)))"

definition heap_init_bytes ::
  "'a heap ptr \<Rightarrow> size_t \<Rightarrow> size_t \<Rightarrow> size_t \<Rightarrow> ('a \<Rightarrow> 'a \<Rightarrow> nat ptr \<Rightarrow> int) ptr \<Rightarrow> nat ptr \<Rightarrow>
   stl_status \<times> 'a heap ptr" where
  "heap_init_bytes heap elem_size elem_align element_limit compare compare_ctx =
     heap_initialize heap NULL elem_size elem_align element_limit compare compare_ctx"

definition heap_raw_init ::
  "'a heap ptr \<Rightarrow> 'a cmeta_type_desc ptr \<Rightarrow> size_t \<Rightarrow> stl_status \<times> 'a heap ptr" where
  "heap_raw_init heap element_type element_limit =
     (if heap = NULL \<or> sq_initialized (the heap) then (STL_INVALID_ARGUMENT, heap)
      else
        let st = sequence_require_type element_type True in
        if st \<noteq> STL_OK then (st, heap)
        else heap_initialize heap element_type (td_size (the element_type))
               (td_align (the element_type)) element_limit NULL NULL)"

definition heap_clear :: "'a heap ptr \<Rightarrow> stl_status \<times> 'a heap ptr" where
  "heap_clear heap =
     (if \<not> heap_valid heap then (STL_INVALID_ARGUMENT, heap)
      else
        let v = the heap in
        case destroy_loop (sq_element_type v) id (sq_size v) 0 (slots v) of
          (st, d) \<Rightarrow>
            let v1 = v\<lparr>sq_data := map_option (\<lambda>_. d) (sq_data v)\<rparr> in
            if st \<noteq> STL_OK then (st, Some v1)
            else if sq_size v1 \<noteq> 0 then (STL_OK, Some (bump (v1\<lparr>sq_size := 0\<rparr>)))
            else (STL_OK, Some v1))"

definition heap_raw_destroy_storage :: "'a heap ptr \<Rightarrow> env \<Rightarrow> 'a heap ptr \<times> env" where
  "heap_raw_destroy_storage heap s =
     (case heap of
        None \<Rightarrow> (NULL, s)
      | Some v \<Rightarrow>
          if sq_initialized v then
            let v1 = the (snd (heap_clear heap)) in
            (Some (heap_zeroed\<lparr>sq_generation := sq_generation v1 + 1\<rparr>),
             sequence_deallocate (sq_data v1) s)
          else (Some (heap_zeroed\<lparr>sq_generation := sq_generation v\<rparr>), s))"

section \<open>Operations\<close>

definition heap_reserve :: "'a heap ptr \<Rightarrow> size_t \<Rightarrow> env \<Rightarrow> stl_status \<times> 'a heap ptr \<times> env" where
  "heap_reserve heap min_capacity s =
     (case heap_grow_to heap min_capacity (Some False) s of
        (st, h1, changed, s1) \<Rightarrow>
          (st, if st = STL_OK \<and> changed = Some True then map_option bump h1 else h1, s1))"

text \<open>The scratch element a block of one slot provides.\<close>

definition scratch_slot :: "size_t ptr ptr \<Rightarrow> 'a option ptr" where
  "scratch_slot cell = map_option (\<lambda>_. None) (the cell)"

definition heap_push :: "'a heap ptr \<Rightarrow> 'a option ptr \<Rightarrow> env \<Rightarrow> stl_status \<times> 'a heap ptr \<times> env" where
  "heap_push heap elem s =
     (if \<not> heap_valid heap \<or> elem = NULL then (STL_INVALID_ARGUMENT, heap, s)
      else
        let v = the heap in
        if sq_element_limit v \<le> sq_size v then (STL_CAPACITY_EXCEEDED, heap, s)
        else
          case heap_prepare_copy v elem s of (st, prepared, s1) \<Rightarrow>
          if st \<noteq> STL_OK then (st, heap, s1)
          else
            case sequence_allocate 1 (sq_elem_stride v) (sq_elem_align v) (Some NULL) s1 of
              (st, cell, s2) \<Rightarrow>
            if st \<noteq> STL_OK then (st, heap, heap_discard_prepared v prepared s2)
            else
              let scratch = scratch_slot cell in
              case heap_grow_to heap (sq_size v + 1) NULL s2 of (st, h1, _, s3) \<Rightarrow>
              let v1 = the h1 in
              if st \<noteq> STL_OK
              then (st, h1, heap_discard_prepared v1 prepared (sequence_deallocate scratch s3))
              else
                case move_in (sq_size v1) prepared v1 s3 of (st, v2, s4) \<Rightarrow>
                if st \<noteq> STL_OK then (st, Some v2, sequence_deallocate scratch s4)
                else
                  let v3 = v2\<lparr>sq_size := sq_size v2 + 1\<rparr>;
                      r = heap_sift_up v3 (sq_size v3 - 1) scratch
                  in (STL_OK, Some (bump (fst r)), sequence_deallocate (snd r) s4))"

definition heap_pop ::
  "'a heap ptr \<Rightarrow> 'a option ptr \<Rightarrow> env \<Rightarrow> stl_status \<times> 'a heap ptr \<times> 'a option ptr \<times> env" where
  "heap_pop heap out_elem s =
     (if \<not> heap_valid heap then (STL_INVALID_ARGUMENT, heap, out_elem, s)
      else
        let v = the heap in
        if sq_size v = 0 then (STL_EMPTY, heap, out_elem, s)
        else
          case (if 1 < sq_size v
                then sequence_allocate 1 (sq_elem_stride v) (sq_elem_align v) (Some NULL) s
                else (STL_OK, Some NULL, s))
          of (st, cell, s1) \<Rightarrow>
          if st \<noteq> STL_OK then (st, heap, out_elem, s1)
          else
            let scratch = scratch_slot cell in
            case take_out (sq_element_type v) out_elem (slots v ! 0) of (st, out, slot) \<Rightarrow>
            let v1 = set_slot 0 slot v in
            if st \<noteq> STL_OK then (st, Some v1, out, sequence_deallocate scratch s1)
            else
              let last = sq_size v1 - 1;
                  v2 = (if last \<noteq> 0 then
                          case sequence_move_destroy (sq_element_type v1) (Some (slots v1 ! 0))
                                 (Some (slots v1 ! last)) of
                            (_, x, y) \<Rightarrow> set_slot last (the y) (set_slot 0 (the x) v1)
                        else v1);
                  v3 = v2\<lparr>sq_size := last\<rparr>;
                  r = (if sq_size v3 \<noteq> 0 then heap_sift_down v3 0 scratch else (v3, scratch))
              in (STL_OK, Some (bump (fst r)), out, sequence_deallocate (snd r) s1))"

section \<open>Queries\<close>

definition heap_peek :: "'a heap ptr \<Rightarrow> 'a option ptr" where
  "heap_peek heap =
     (if heap_valid heap \<and> sq_size (the heap) \<noteq> 0 then Some (slots (the heap) ! 0) else NULL)"

definition heap_size :: "'a heap ptr \<Rightarrow> size_t" where
  "heap_size heap = (if heap_valid heap then sq_size (the heap) else 0)"

definition heap_capacity :: "'a heap ptr \<Rightarrow> size_t" where
  "heap_capacity heap = (if heap_valid heap then sq_capacity (the heap) else 0)"

definition heap_generation :: "'a heap ptr \<Rightarrow> u64" where
  "heap_generation heap = (case heap of None \<Rightarrow> 0 | Some v \<Rightarrow> sq_generation v)"

definition heap_empty :: "'a heap ptr \<Rightarrow> bool" where
  "heap_empty heap \<longleftrightarrow> heap_size heap = 0"

section \<open>Construction from an array, and the self-describing entry points\<close>

definition heap_push_all ::
  "'a list \<Rightarrow> 'a heap ptr \<Rightarrow> env \<Rightarrow> stl_status \<times> 'a heap ptr \<times> env" where
  "heap_push_all = push_all heap_push heap_raw_destroy_storage"

definition heap_from_array_bytes ::
  "'a heap ptr \<Rightarrow> 'a list ptr \<Rightarrow> size_t \<Rightarrow> size_t \<Rightarrow> size_t \<Rightarrow> size_t \<Rightarrow>
   ('a \<Rightarrow> 'a \<Rightarrow> nat ptr \<Rightarrow> int) ptr \<Rightarrow> nat ptr \<Rightarrow> env \<Rightarrow> stl_status \<times> 'a heap ptr \<times> env" where
  "heap_from_array_bytes heap elements n elem_size elem_align limit compare context s =
     (if heap = NULL \<or> sq_initialized (the heap) then (STL_INVALID_ARGUMENT, heap, s)
      else if n \<noteq> 0 \<and> elements = NULL \<or> limit < n
        then (if limit < n then STL_CAPACITY_EXCEEDED else STL_INVALID_ARGUMENT, heap, s)
      else
        case heap_init_bytes (Some heap_zeroed) elem_size elem_align limit compare context of (st, t0) \<Rightarrow>
        if st \<noteq> STL_OK then (st, heap, s)
        else
          case heap_push_all (take n (case elements of None \<Rightarrow> [] | Some xs \<Rightarrow> xs)) t0 s of
            (st, t1, s1) \<Rightarrow>
              if st \<noteq> STL_OK then (st, heap, s1)
              else (STL_OK, Some ((the t1)\<lparr>sq_generation := sq_generation (the heap) + 1\<rparr>), s1))"

definition heap_raw_from_array ::
  "'a heap ptr \<Rightarrow> 'a list ptr \<Rightarrow> size_t \<Rightarrow> 'a cmeta_type_desc ptr \<Rightarrow> size_t \<Rightarrow> env \<Rightarrow>
   stl_status \<times> 'a heap ptr \<times> env" where
  "heap_raw_from_array heap elements n type limit s =
     (if heap = NULL \<or> sq_initialized (the heap) then (STL_INVALID_ARGUMENT, heap, s)
      else if n \<noteq> 0 \<and> elements = NULL \<or> limit < n
        then (if limit < n then STL_CAPACITY_EXCEEDED else STL_INVALID_ARGUMENT, heap, s)
      else
        case heap_raw_init (Some heap_zeroed) type limit of (st, t0) \<Rightarrow>
        if st \<noteq> STL_OK then (st, heap, s)
        else
          case heap_push_all (take n (case elements of None \<Rightarrow> [] | Some xs \<Rightarrow> xs)) t0 s of
            (st, t1, s1) \<Rightarrow>
              if st \<noteq> STL_OK then (st, heap, s1)
              else (STL_OK, Some ((the t1)\<lparr>sq_generation := sq_generation (the heap) + 1\<rparr>), s1))"

definition heap_init :: "'a heap ptr \<Rightarrow> size_t \<Rightarrow> stl_status \<times> 'a heap ptr" where
  "heap_init heap element_limit =
     (if heap = NULL \<or> sq_element_type (the heap) = NULL then (STL_INVALID_ARGUMENT, heap)
      else
        let kind = sq_descriptor (the heap); type = sq_element_type (the heap) in
        case heap_raw_init heap type element_limit of (st, d1) \<Rightarrow>
        (st, Some ((the d1)\<lparr>sq_descriptor := kind, sq_element_type := type\<rparr>)))"

definition heap_from_array ::
  "'a heap ptr \<Rightarrow> 'a list ptr \<Rightarrow> size_t \<Rightarrow> size_t \<Rightarrow> env \<Rightarrow> stl_status \<times> 'a heap ptr \<times> env" where
  "heap_from_array heap elements n element_limit s =
     (if heap = NULL \<or> sq_element_type (the heap) = NULL then (STL_INVALID_ARGUMENT, heap, s)
      else
        let kind = sq_descriptor (the heap); type = sq_element_type (the heap) in
        case heap_raw_from_array heap elements n type element_limit s of (st, d1, s1) \<Rightarrow>
        (st, Some ((the d1)\<lparr>sq_descriptor := kind, sq_element_type := type\<rparr>), s1))"

definition heap_destroy :: "'a heap ptr \<Rightarrow> env \<Rightarrow> 'a heap ptr \<times> env" where
  "heap_destroy heap s =
     (if heap = NULL then (NULL, s)
      else
        let kind = sq_descriptor (the heap); type = sq_element_type (the heap) in
        case heap_raw_destroy_storage heap s of (d1, s1) \<Rightarrow>
        (Some ((the d1)\<lparr>sq_descriptor := kind, sq_element_type := type\<rparr>), s1))"

definition heap_at_const :: "'a heap ptr \<Rightarrow> size_t \<Rightarrow> 'a option ptr" where
  "heap_at_const heap index =
     (if heap = NULL \<or> sq_size (the heap) \<le> index then NULL else Some (slots (the heap) ! index))"

section \<open>The array operations are the list operations\<close>

text \<open>The heap with its first slots rewritten.\<close>

definition heap_with :: "'a heap \<Rightarrow> 'a list \<Rightarrow> 'a heap" where
  "heap_with q xs =
     q\<lparr>sq_data := map_option (\<lambda>d. map Some xs @ drop (length xs) d) (sq_data q)\<rparr>"

definition heap_lt :: "'a heap \<Rightarrow> 'a \<Rightarrow> 'a \<Rightarrow> bool" where
  "heap_lt q x y \<longleftrightarrow> heap_order q x y < 0"

lemma parent_fold: "(i - Suc 0) div 2 = parent i"
  by (simp add: parent_def)

lemma heap_with_fields [simp]:
  "sq_size (heap_with q xs) = sq_size q" "sq_capacity (heap_with q xs) = sq_capacity q"
  "sq_element_type (heap_with q xs) = sq_element_type q"
  "sq_element_limit (heap_with q xs) = sq_element_limit q"
  "sq_generation (heap_with q xs) = sq_generation q" "blocks (heap_with q xs) = blocks q"
  "same_config p (heap_with q xs) = same_config p q" "heap_lt (heap_with q xs) = heap_lt q"
  by (simp_all add: heap_with_def heap_lt_def fun_eq_iff heap_order_def blocks_def split: option.split)

lemma linear_rep_heap_with:
  "linear_rep q xs \<Longrightarrow> length ys = length xs \<Longrightarrow> linear_rep (heap_with q ys) ys"
  by (cases "sq_data q") (auto simp: linear_rep_split storage_ok_def heap_with_def)

lemma heap_with_self: "linear_rep q xs \<Longrightarrow> heap_with q xs = q"
  by (cases "sq_data q") (auto simp: linear_rep_split heap_with_def)

lemma heap_with_twice: "length ys = length xs \<Longrightarrow> heap_with (heap_with q xs) ys = heap_with q ys"
  by (cases "sq_data q") (auto simp: heap_with_def)

lemma linear_rep_nth: "linear_rep q xs \<Longrightarrow> i < length xs \<Longrightarrow> slots q ! i = Some (xs ! i)"
  by (auto simp: linear_rep_split nth_append)

lemma heap_less_rep:
  "linear_rep q xs \<Longrightarrow> i < length xs \<Longrightarrow> j < length xs \<Longrightarrow>
   heap_less q i j = heap_lt q (xs ! i) (xs ! j)"
  by (simp add: heap_less_def heap_compare_values_def heap_lt_def linear_rep_nth)

lemma heap_swap_rep:
  assumes rep: "linear_rep q xs" and ij: "i < length xs" "j < length xs"
  shows "\<exists>sc'. heap_swap q i j (Some sc) = (heap_with q (swap_at xs i j), Some sc')"
proof (cases "i = j")
  case True
  then show ?thesis using rep ij by (simp add: heap_swap_def swap_at_def heap_with_self)
next
  case False
  obtain d rest where d: "sq_data q = Some d" "d = map Some xs @ rest"
    using rep ij by (cases "sq_data q") (auto simp: linear_rep_split)
  have ok: "elem_ok (sq_element_type q)" using rep by (simp add: linear_rep_def storage_ok_def)
  have u: "(map Some xs @ rest)[i := Some (xs ! j), j := Some (xs ! i)] =
      map Some (swap_at xs i j) @ rest"
    using ij by (simp add: list_update_append map_update swap_at_def)
  have u': "(map Some xs @ rest)[i := a, i := Some (xs ! j), j := b, j := Some (xs ! i)] =
      map Some (swap_at xs i j) @ rest" for a b
    using u by simp
  show ?thesis
  proof (cases "sq_element_type q")
    case None
    then show ?thesis
      using False d ij u by (simp add: heap_swap_def Let_def heap_with_def set_slot_def nth_append)
  next
    case (Some t)
    then show ?thesis
      using False d ij u' ok
      by (simp add: heap_swap_def Let_def heap_with_def set_slot_def nth_append)
  qed
qed

lemma heap_sift_up_rep:
  "linear_rep q xs \<Longrightarrow> i < length xs \<Longrightarrow>
   \<exists>sc'. heap_sift_up q i (Some sc) = (heap_with q (sift_up (heap_lt q) xs i), Some sc')"
proof (induction i arbitrary: q xs sc rule: less_induct)
  case (less i)
  show ?case
  proof (cases "i \<noteq> 0 \<and> heap_lt q (xs ! i) (xs ! parent i)")
    case False
    then show ?thesis
      using less.prems parent_less [of i] heap_less_rep [OF less.prems(1), of i "parent i"]
      by (subst heap_sift_up.simps, subst sift_up.simps)
        (auto simp: parent_fold heap_with_self Let_def)
  next
    case True
    then have p: "parent i < i" "parent i < length xs" using parent_less [of i] less.prems by auto
    obtain sc1 where sw: "heap_swap q i (parent i) (Some sc) =
        (heap_with q (swap_at xs i (parent i)), Some sc1)"
      using heap_swap_rep [OF less.prems(1)] p less.prems(2) by blast
    let ?q = "heap_with q (swap_at xs i (parent i))"
    have rep: "linear_rep ?q (swap_at xs i (parent i))"
      using linear_rep_heap_with [OF less.prems(1)] by simp
    obtain sc2 where "heap_sift_up ?q (parent i) (Some sc1) =
        (heap_with ?q (sift_up (heap_lt ?q) (swap_at xs i (parent i)) (parent i)), Some sc2)"
      using less.IH [OF p(1) rep] p by auto
    moreover have "heap_sift_up q i (Some sc) = heap_sift_up ?q (parent i) (Some sc1)"
      using True sw p less.prems heap_less_rep [OF less.prems(1), of i "parent i"]
      by (subst heap_sift_up.simps) (simp add: parent_fold Let_def)
    moreover have "sift_up (heap_lt q) xs i = sift_up (heap_lt q) (swap_at xs i (parent i)) (parent i)"
      using True by (subst sift_up.simps) simp
    ultimately show ?thesis using p by (simp add: heap_with_twice)
  qed
qed

lemma heap_best_rep:
  assumes rep: "linear_rep q xs" and i: "i < length xs"
  shows "heap_best q i = best_child (heap_lt q) xs i"
proof -
  have "sq_size q = length xs" using rep by (simp add: linear_rep_def)
  then show ?thesis
    using i by (auto simp: heap_best_def best_child_def Let_def heap_less_rep [OF rep] mult.commute)
qed

text \<open>
  The guard \<open>index > (SIZE_MAX - 1) / 2\<close> never ends the loop early: a heap has fewer
  elements than that.
\<close>

lemma heap_sift_down_rep:
  "linear_rep q xs \<Longrightarrow> i < length xs \<Longrightarrow> length xs \<le> (SIZE_MAX - 1) div 2 \<Longrightarrow>
   \<exists>sc'. heap_sift_down q i (Some sc) = (heap_with q (sift_down (heap_lt q) xs i), Some sc')"
proof (induction "length xs - i" arbitrary: i q xs sc rule: less_induct)
  case less
  define b where "b = best_child (heap_lt q) xs i"
  have step: "heap_sift_down q i (Some sc) =
      (if b = i then (q, Some sc)
       else let r = heap_swap q i b (Some sc) in heap_sift_down (fst r) b (snd r))"
    using less.prems heap_best_rep [OF less.prems(1,2)]
    by (subst heap_sift_down.simps) (simp add: b_def Let_def)
  show ?case
  proof (cases "b = i")
    case True
    then show ?thesis
      using step less.prems(1) by (subst sift_down.simps) (simp add: b_def [symmetric] heap_with_self)
  next
    case False
    then have b: "i < b" "b < length xs"
      using best_child_cases [of "heap_lt q" xs i] by (auto simp: b_def)
    obtain sc1 where sw: "heap_swap q i b (Some sc) = (heap_with q (swap_at xs i b), Some sc1)"
      using heap_swap_rep [OF less.prems(1,2) b(2)] by blast
    let ?q = "heap_with q (swap_at xs i b)"
    have rep: "linear_rep ?q (swap_at xs i b)"
      using linear_rep_heap_with [OF less.prems(1)] by simp
    obtain sc2 where "heap_sift_down ?q b (Some sc1) =
        (heap_with ?q (sift_down (heap_lt ?q) (swap_at xs i b) b), Some sc2)"
      using less.hyps [OF _ rep] b less.prems by fastforce
    moreover have "sift_down (heap_lt q) xs i = sift_down (heap_lt q) (swap_at xs i b) b"
      using False by (subst sift_down.simps) (simp add: b_def [symmetric])
    ultimately show ?thesis using step sw False b by (simp add: heap_with_twice)
  qed
qed

section \<open>The list model\<close>

datatype 'a heap_op =
    Heap_push 'a
  | Heap_pop "'a option ptr"
  | Heap_clear
  | Heap_reserve size_t

fun heap_out :: "'a heap_op \<Rightarrow> 'a option ptr" where
  "heap_out (Heap_pop out) = out"
| "heap_out _ = NULL"

fun heap_apply ::
  "'a heap_op \<Rightarrow> 'a heap ptr \<Rightarrow> env \<Rightarrow> stl_status \<times> 'a heap ptr \<times> 'a option ptr \<times> env" where
  "heap_apply (Heap_push x) q s =
     (case heap_push q (Some (Some x)) s of (st, w, s') \<Rightarrow> (st, w, NULL, s'))"
| "heap_apply (Heap_pop out) q s = heap_pop q out s"
| "heap_apply Heap_clear q s = (case heap_clear q of (st, w) \<Rightarrow> (st, w, NULL, s))"
| "heap_apply (Heap_reserve n) q s =
     (case heap_reserve q n s of (st, w, s') \<Rightarrow> (st, w, NULL, s'))"

definition pop_list :: "('a \<Rightarrow> 'a \<Rightarrow> bool) \<Rightarrow> 'a list \<Rightarrow> 'a list" where
  "pop_list lt xs =
     (let ys = butlast (xs[0 := last xs]) in if ys = [] then [] else sift_down lt ys 0)"

fun heap_model ::
  "('a \<Rightarrow> 'a \<Rightarrow> bool) \<Rightarrow> size_t \<Rightarrow> bool \<Rightarrow> 'a heap_op \<Rightarrow> 'a list \<Rightarrow> stl_status \<times> 'a list \<times> 'a option" where
  "heap_model lt limit typed (Heap_push x) xs =
     (if limit \<le> length xs then (STL_CAPACITY_EXCEEDED, xs, None)
      else (STL_OK, sift_up lt (xs @ [x]) (length xs), None))"
| "heap_model lt limit typed (Heap_pop _) xs =
     (if xs = [] then (STL_EMPTY, xs, None) else (STL_OK, pop_list lt xs, Some (hd xs)))"
| "heap_model lt limit typed Heap_clear xs = (STL_OK, [], None)"
| "heap_model lt limit typed (Heap_reserve n) xs =
     (if limit < n then (STL_CAPACITY_EXCEEDED, xs, None) else (STL_OK, xs, None))"

text \<open>
  A heap for the order \<open>lt\<close> holding the array \<open>xs\<close>: the comparator is a strict
  weak order, the array is in heap order, and the limit keeps indices inside
  \<open>size_t\<close>.
\<close>

definition heap_rep :: "('a \<Rightarrow> 'a \<Rightarrow> bool) \<Rightarrow> 'a heap \<Rightarrow> 'a list \<Rightarrow> bool" where
  "heap_rep lt q xs \<longleftrightarrow>
     linear_rep q xs \<and> heap_lt q = lt \<and> binary_heap lt \<and> is_heap lt xs \<and>
     (sq_element_type q \<noteq> NULL \<or> hp_compare q \<noteq> NULL) \<and>
     sq_element_limit q \<le> (SIZE_MAX - 1) div 2"

lemma heap_rep_valid: "heap_rep lt q xs \<Longrightarrow> heap_valid (Some q)"
  by (simp add: heap_rep_def linear_rep_def storage_ok_def heap_valid_def)

lemma heap_rep_linear: "heap_rep lt q xs \<Longrightarrow> linear_rep q xs"
  by (simp add: heap_rep_def)

lemma heap_min_pos [simp]: "SALTS_HEAP_MIN_CAPACITY \<noteq> 0"
  by (simp add: SALTS_HEAP_MIN_CAPACITY_def)

lemma heap_pop_list:
  assumes "binary_heap lt" and "is_heap lt xs" and "xs \<noteq> []"
  shows "is_heap lt (pop_list lt xs)" and "mset xs = add_mset (hd xs) (mset (pop_list lt xs))"
    and "length (pop_list lt xs) = length xs - 1" and "\<forall>x \<in> set xs. \<not> lt x (hd xs)"
proof -
  obtain ys y where xs: "xs = ys @ [y]" using assms(3) by (cases xs rule: rev_cases) auto
  have ys: "butlast (xs[0 := last xs]) = ys[0 := y]"
    using xs by (cases ys) (simp_all add: butlast_append)
  have h: "is_heap lt ys" using binary_heap.heap_butlast [OF assms(1)] assms(2) xs by blast
  show "is_heap lt (pop_list lt xs)"
  proof (cases "ys = []")
    case False
    have "is_heap lt (sift_down lt (ys[0 := y]) 0)"
      using binary_heap.heap_replace [OF assms(1) h, of 0 y] False
      by (intro binary_heap.sift_down_heap [OF assms(1)]) auto
    then show ?thesis using False ys by (simp add: pop_list_def)
  qed (simp add: pop_list_def ys is_heap_def)
  show "mset xs = add_mset (hd xs) (mset (pop_list lt xs))" "length (pop_list lt xs) = length xs - 1"
    using xs ys by (cases ys; simp add: pop_list_def)+
  show "\<forall>x \<in> set xs. \<not> lt x (hd xs)"
    using binary_heap.heap_root [OF assms(1,2)] assms(3) by (auto simp: in_set_conv_nth hd_conv_nth)
qed

section \<open>Each operation meets its contract\<close>

abbreviation heap_contract ::
  "('a \<Rightarrow> 'a \<Rightarrow> bool) \<Rightarrow> 'a heap_op \<Rightarrow> 'a heap \<Rightarrow> 'a list \<Rightarrow> env \<Rightarrow> bool" where
  "heap_contract lt op q xs s \<equiv>
     op_outcome (heap_rep lt) q s (heap_out op)
       (heap_model lt (sq_element_limit q) (sq_element_type q \<noteq> NULL) op xs)
       (heap_apply op (Some q) s)"

lemma heap_lt_updates [simp]:
  "heap_lt (q\<lparr>sq_data := d\<rparr>) = heap_lt q" "heap_lt (q\<lparr>sq_size := n\<rparr>) = heap_lt q"
  "heap_lt (q\<lparr>sq_capacity := n\<rparr>) = heap_lt q" "heap_lt (bump q) = heap_lt q"
  "heap_lt (set_slot i x q) = heap_lt q"
  by (simp_all add: heap_lt_def fun_eq_iff heap_order_def bump_def set_slot_def split: option.split)

lemma heap_rep_bump [simp]: "heap_rep lt (bump q) xs = heap_rep lt q xs"
  by (simp add: heap_rep_def) (simp add: bump_def)

lemma regrown_comparator:
  fixes q :: "'a heap"
  assumes "regrown q w"
  shows "heap_lt w = heap_lt q" "hp_compare w = hp_compare q"
  by (subst assms [unfolded regrown_def], simp)+

lemma heap_rep_regrown:
  "heap_rep lt q xs \<Longrightarrow> regrown q w \<Longrightarrow> linear_rep w ys \<Longrightarrow> is_heap lt ys \<Longrightarrow> heap_rep lt w ys"
  using regrown_comparator [of q w] regrown_fields [of q w] by (simp add: heap_rep_def)

lemma heap_clear_contract:
  assumes rep: "heap_rep lt v xs"
  shows "heap_contract lt Heap_clear v xs s"
proof -
  have v: "storage_ok v" "sq_size v = length xs" "elem_ok (sq_element_type v)"
    "length (slots v) = sq_capacity v"
    using rep by (auto simp: heap_rep_def linear_rep_def storage_ok_def)
  obtain d where d: "destroy_loop (sq_element_type v) id (sq_size v) 0 (slots v) = (STL_OK, d)"
    "length d = length (slots v)"
    using destroy_loop_OK [OF v(3)] by blast
  show ?thesis
  proof (cases "xs = []")
    case True
    then have "d = slots v" using d(1) v(2) by (simp add: destroy_loop.simps)
    then have "v\<lparr>sq_data := map_option (\<lambda>_. d) (sq_data v)\<rparr> = v" by (cases "sq_data v") auto
    then show ?thesis
      using True d v(2) rep heap_rep_valid [OF rep] outcome_unchanged [where rep = "heap_rep lt", OF rep]
      by (simp add: heap_clear_def Let_def)
  next
    case False
    have "linear_rep (v\<lparr>sq_data := map_option (\<lambda>_. d) (sq_data v), sq_size := 0\<rparr>) []"
      using v d by (intro linear_repI [of _ _ _ d]) auto
    then have "heap_rep lt (v\<lparr>sq_data := map_option (\<lambda>_. d) (sq_data v), sq_size := 0\<rparr>) []"
      using rep by (simp add: heap_rep_def is_heap_def)
    then show ?thesis
      using False d v(2) heap_rep_valid [OF rep]
      by (auto simp: heap_clear_def Let_def deliver_def blocks_def intro!: outcome_changed)
  qed
qed

lemma heap_reserve_contract:
  assumes rep: "heap_rep lt v xs"
  shows "heap_contract lt (Heap_reserve n) v xs s"
proof -
  obtain st q' ch s' where g: "seq_grow_to SALTS_HEAP_MIN_CAPACITY v n s = (st, q', ch, s')"
    by (metis prod_cases4)
  have le: "sq_capacity q' \<le> sq_element_limit q'" if "linear_rep q' xs"
    using that by (simp add: linear_rep_def storage_ok_def)
  have h: "heap_rep lt q' xs" if "linear_rep q' xs" "regrown v q'"
    using heap_rep_regrown [OF rep that(2,1)] rep by (simp add: heap_rep_def)
  have r: "heap_apply (Heap_reserve n) (Some v) s =
      (st, Some (if st = STL_OK \<and> ch then bump q' else q'), NULL, s')"
    using g heap_rep_valid [OF rep] by (simp add: heap_reserve_def heap_grow_to_def)
  show ?thesis
    using grow_to_cases [OF heap_rep_linear [OF rep] heap_min_pos g] le h rep regrown_fields [of v q']
    unfolding r
    by (auto simp: op_outcome_def deliver_def)
qed

text \<open>What a push obtains first: the element's copy, a scratch element, room.\<close>

lemma heap_push_prelude:
  fixes q :: "'a heap"
  assumes rep: "heap_rep lt q xs" and room: "\<not> sq_element_limit q \<le> sq_size q"
    and copy: "heap_prepare_copy q (Some (Some x)) s = (st1, prepared, s1)"
    and al: "sequence_allocate 1 (sq_elem_stride q) (sq_elem_align q) (Some NULL) s1 = (st2, cell, s2)"
    and grow: "heap_grow_to (Some q) (sq_size q + 1) NULL s2 = (st3, h1, ch, s3)"
  obtains (nocopy) "st1 \<in> {STL_CAPACITY_EXCEEDED, STL_OUT_OF_MEMORY}" "env_delta 0 s s1" "\<not> supplied q s"
    | (noscratch) "st1 = STL_OK" "prepared = Some (Some x)"
        "st2 \<in> {STL_CAPACITY_EXCEEDED, STL_OUT_OF_MEMORY}" "env_delta 1 s s2" "\<not> supplied q s"
    | (nogrow) "st1 = STL_OK" "prepared = Some (Some x)" "st2 = STL_OK" "(scratch_slot cell :: 'a option ptr) = Some None"
        "st3 \<in> {STL_CAPACITY_EXCEEDED, STL_OUT_OF_MEMORY}" "h1 = Some q" "env_delta 2 s s3" "\<not> supplied q s"
    | (grown) v where "st1 = STL_OK" "prepared = Some (Some x)" "st2 = STL_OK" "(scratch_slot cell :: 'a option ptr) = Some None"
        "st3 = STL_OK" "h1 = Some v" "linear_rep v xs" "length xs < sq_capacity v" "regrown q v"
        "env_delta (blocks v - blocks q + 2) s s3"
proof -
  have ok: "sq_size q = length xs" "storage_ok q" "sq_elem_stride q \<noteq> 0"
    "sequence_alignment_valid (sq_elem_align q)"
    using rep by (auto simp: heap_rep_def linear_rep_def storage_ok_def)
  obtain v ch' where g: "seq_grow_to SALTS_HEAP_MIN_CAPACITY q (sq_size q + 1) s2 = (st3, v, ch', s3)"
    and h1: "h1 = Some v"
    using grow heap_rep_valid [OF rep] by (auto simp: heap_grow_to_def split: prod.splits)
  note c = prepare_copy_cases [OF ok(2) copy [unfolded heap_prepare_copy_def]]
  note r = grow_to_cases [OF heap_rep_linear [OF rep] heap_min_pos g]
  show thesis
  proof (cases "st1 = STL_OK")
    case False
    then show thesis using c nocopy by auto
  next
    case copied: True
    then have s1: "env_delta 1 s s1" "prepared = Some (Some x)" using c by auto
    show thesis
    proof (cases "st2 = STL_OK")
      case False
      then have "env_delta 0 s1 s2" "st2 \<in> {STL_CAPACITY_EXCEEDED, STL_OUT_OF_MEMORY}"
        using allocate_cases [OF al ok(4) one_neq_zero ok(3)] by auto
      moreover have "\<not> supplied q s"
        using False allocate_generous [OF al _ max.cobounded1 ok(4)] supplied_delta [OF s1(1), of q]
        by (auto simp: supplied_def)
      ultimately show thesis using noscratch copied s1 env_delta_trans [OF s1(1), of 0 s2] by simp
    next
      case True
      then have "env_delta 1 s1 s2" "scratch_slot cell = Some None"
        using allocate_cases [OF al ok(4) one_neq_zero ok(3)] by (auto simp: scratch_slot_def)
      then have s2: "env_delta 2 s s2" "scratch_slot cell = Some None"
        using env_delta_trans [OF s1(1), of 1 s2] by simp_all
      show thesis
      proof (cases "st3 = STL_OK")
        case False
        then show thesis
          using r room env_delta_trans [OF s2(1), of 0 s3] supplied_delta [OF s2(1), of q]
          by (intro nogrow) (use copied s1 True s2 h1 in auto)
      next
        case grown': True
        then show thesis
          using r ok(1) env_delta_trans [OF s2(1), of "blocks v - blocks q" s3]
          by (intro grown [of v]) (use copied s1 True s2 h1 in \<open>auto simp: add.commute\<close>)
      qed
    qed
  qed
qed

lemma heap_push_contract:
  assumes rep: "heap_rep lt q xs"
  shows "heap_contract lt (Heap_push x) q xs s"
proof (cases "sq_element_limit q \<le> sq_size q")
  case True
  then show ?thesis
    using rep heap_rep_valid [OF rep] outcome_unchanged [where rep = "heap_rep lt", OF rep]
    by (simp add: heap_push_def heap_rep_def linear_rep_def)
next
  case room: False
  have len: "sq_size q = length xs" "storage_ok q"
    using rep by (auto simp: heap_rep_def linear_rep_def)
  obtain st1 prepared s1 where copy: "heap_prepare_copy q (Some (Some x)) s = (st1, prepared, s1)"
    by (metis prod_cases3)
  obtain st2 cell s2 where al:
    "sequence_allocate 1 (sq_elem_stride q) (sq_elem_align q) (Some NULL) s1 = (st2, cell, s2)"
    by (metis prod_cases3)
  obtain st3 h1 ch s3 where grow: "heap_grow_to (Some q) (sq_size q + 1) NULL s2 = (st3, h1, ch, s3)"
    by (metis prod_cases4)
  note push = heap_rep_valid [OF rep] room copy al grow
  from rep room copy al grow show ?thesis
  proof (cases rule: heap_push_prelude)
    case nocopy
    then show ?thesis using push by (auto simp: heap_push_def intro!: outcome_refused)
  next
    case noscratch
    then show ?thesis using push len(2)
      by (auto simp: heap_push_def heap_discard_prepared_def Let_def intro!: outcome_refused)
  next
    case nogrow
    then show ?thesis using push len(2)
      by (auto simp: heap_push_def heap_discard_prepared_def Let_def intro!: outcome_refused)
  next
    case (grown v)
    obtain rest0 where rest0: "slots v = map Some xs @ rest0" and v: "storage_ok v"
      "sq_size v = length xs" "length (slots v) = sq_capacity v"
      using grown(7) by (auto simp: linear_rep_split storage_ok_def)
    then obtain r rest where "rest0 = r # rest" using grown(8) by (cases rest0) auto
    then have slots: "slots v = map Some xs @ r # rest" using rest0 by simp
    let ?v3 = "(set_slot (length xs) (Some x) v)\<lparr>sq_size := Suc (length xs)\<rparr>"
    have rep3: "linear_rep ?v3 (xs @ [x])"
      unfolding set_slot_alt using v slots by (intro linear_repI [of _ _ _ rest]) auto
    have lt: "heap_lt ?v3 = lt" "hp_compare ?v3 = hp_compare q" "sq_element_type ?v3 = sq_element_type q"
      "sq_element_limit ?v3 = sq_element_limit q" "same_config q ?v3" "sq_generation ?v3 = sq_generation q"
      using regrown_fields [OF grown(9)] regrown_comparator [OF grown(9)] rep
      by (simp_all add: heap_rep_def) (simp add: set_slot_def)
    obtain sc where up: "heap_sift_up ?v3 (length xs) (Some None) =
        (heap_with ?v3 (sift_up lt (xs @ [x]) (length xs)), Some sc)"
      using heap_sift_up_rep [OF rep3, of "length xs" None] lt(1) by auto
    have "is_heap lt (sift_up lt (xs @ [x]) (length xs))"
      using rep binary_heap.heap_push by (auto simp: heap_rep_def)
    then have "heap_rep lt (heap_with ?v3 (sift_up lt (xs @ [x]) (length xs))) (sift_up lt (xs @ [x]) (length xs))"
      using rep lt linear_rep_heap_with [OF rep3, of "sift_up lt (xs @ [x]) (length xs)"]
      by (simp add: heap_rep_def) (simp add: heap_with_def)
    then show ?thesis
      using push grown v len up lt by (auto intro!: outcome_changed simp: heap_push_def Let_def deliver_def add.commute)
  qed
qed

lemma heap_pop_contract:
  assumes rep: "heap_rep lt q xs"
  shows "heap_contract lt (Heap_pop out) q xs s"
proof (cases "xs = []")
  case True
  then show ?thesis
    using rep heap_rep_valid [OF rep] outcome_unchanged [where rep = "heap_rep lt", OF rep]
    by (simp add: heap_pop_def heap_rep_def linear_rep_def)
next
  case False
  then obtain x ys where xs: "xs = x # ys" by (cases xs) auto
  have q: "linear_rep q xs" "storage_ok q" "elem_ok (sq_element_type q)" "sq_size q = Suc (length ys)"
    "sequence_alignment_valid (sq_elem_align q)" "sq_elem_stride q \<noteq> 0" "slots q ! 0 = Some x"
    using rep linear_rep_nth [of q xs 0] xs by (auto simp: heap_rep_def linear_rep_def storage_ok_def)
  note lists = heap_pop_list [of lt xs] and valid = heap_rep_valid [OF rep]
  let ?q1 = "set_slot 0 (vacated (sq_element_type q) (Some x)) q"
  show ?thesis
  proof (cases ys rule: rev_cases)
    case Nil
    have "linear_rep (?q1\<lparr>sq_size := 0\<rparr>) []"
      using q by (cases "sq_data q") (auto simp: linear_rep_def storage_ok_def set_slot_def)
    then have "heap_rep lt (?q1\<lparr>sq_size := 0\<rparr>) []"
      using rep by (simp add: heap_rep_def is_heap_def) (simp add: set_slot_def)
    then show ?thesis
      using Nil xs q valid
      by (auto simp: heap_pop_def Let_def scratch_slot_def pop_list_def deliver_def intro!: outcome_changed)
  next
    case (snoc zs z)
    then have xs': "xs = x # zs @ [z]" using xs by simp
    obtain st cell s1 where al:
      "sequence_allocate 1 (sq_elem_stride q) (sq_elem_align q) (Some NULL) s = (st, cell, s1)"
      by (metis prod_cases3)
    show ?thesis
    proof (cases "st = STL_OK")
      case False
      then have "\<not> supplied q s"
        using allocate_generous [OF al _ max.cobounded1 q(5)] by (auto simp: supplied_def)
      then show ?thesis
        using False allocate_cases [OF al q(5) one_neq_zero q(6)] al snoc q(4) valid
        by (auto simp: heap_pop_def Let_def intro!: outcome_refused)
    next
      case True
      then have s1: "env_delta 1 s s1" "(scratch_slot cell :: 'a option ptr) = Some None"
        using allocate_cases [OF al q(5) one_neq_zero q(6)] by (auto simp: scratch_slot_def)
      define v where "v = (set_slot (Suc (length zs)) (vacated (sq_element_type q) (Some z))
          (set_slot 0 (Some z) ?q1))\<lparr>sq_size := Suc (length zs)\<rparr>"
      obtain d rest where d: "sq_data q = Some d" "d = Some x # map Some zs @ Some z # rest"
        using q(1) xs' by (cases "sq_data q") (auto simp: linear_rep_split)
      have repv: "linear_rep v (z # zs)"
        using q(1,2) d xs' by (auto simp: v_def linear_rep_split set_slot_def storage_ok_def)
      have same: "heap_lt v = lt" "same_config q v" "sq_generation v = sq_generation q" "blocks v = blocks q"
        "sq_element_type v = sq_element_type q" "sq_element_limit v = sq_element_limit q"
        "hp_compare v = hp_compare q"
        using rep by (simp_all add: v_def heap_rep_def) (simp add: set_slot_def)
      have size: "length (z # zs) \<le> (SIZE_MAX - 1) div 2"
        using rep xs' by (simp add: heap_rep_def linear_rep_def storage_ok_def)
      have pl: "pop_list lt xs = sift_down lt (z # zs) 0" using xs' by (simp add: pop_list_def)
      obtain sc where down: "heap_sift_down v 0 (Some None) =
          (heap_with v (pop_list lt xs), Some sc)"
        using heap_sift_down_rep [OF repv _ size, of 0 None] same(1) pl by auto
      have "length (pop_list lt xs) = length (z # zs)" "is_heap lt (pop_list lt xs)"
        using lists False rep xs' by (simp_all add: heap_rep_def)
      then have "heap_rep lt (heap_with v (pop_list lt xs)) (pop_list lt xs)"
        using linear_rep_heap_with [OF repv] same rep by (simp add: heap_rep_def) (simp add: heap_with_def)
      moreover have "heap_pop (Some q) out s =
          (STL_OK, Some (bump (heap_with v (pop_list lt xs))), map_option (\<lambda>_. Some x) out, free_block s1)"
        using True al snoc q valid s1 down d
        by (simp add: heap_pop_def Let_def v_def set_slot_def nth_append sequence_deallocate_def)
      ultimately show ?thesis
        using same s1 xs' by (auto simp: deliver_def intro!: outcome_changed)
    qed
  qed
qed

lemmas heap_contracts =
  heap_push_contract heap_pop_contract heap_clear_contract heap_reserve_contract

interpretation heap_machine: sequence_machine "heap_rep lt" heap_apply heap_out "heap_model lt"
  for lt :: "'a \<Rightarrow> 'a \<Rightarrow> bool"
proof
  fix q :: "'a heap" and xs s op
  assume "heap_rep lt q xs"
  then show "heap_contract lt op q xs s"
    by (cases op) (auto simp only: intro: heap_contracts)
next
  fix n t op xs st ys and y :: "'a option"
  assume "heap_model lt n t op xs = (st, ys, y)" and "st \<noteq> STL_OK"
  then show "ys = xs" by (cases op) (auto split: if_splits)
qed

section \<open>Life cycle\<close>

lemma heap_destroy_storage_delta:
  assumes "heap_rep lt v xs"
  shows "env_delta (- blocks v) s (snd (heap_raw_destroy_storage (Some v) s))"
proof -
  have v: "sq_initialized v" "elem_ok (sq_element_type v)"
    using assms by (auto simp: heap_rep_def linear_rep_def storage_ok_def)
  obtain d where "destroy_loop (sq_element_type v) id (sq_size v) 0 (slots v) = (STL_OK, d)"
    using destroy_loop_OK [OF v(2)] by blast
  then show ?thesis
    using v heap_rep_valid [OF assms]
    by (auto simp: heap_raw_destroy_storage_def heap_clear_def Let_def blocks_def)
qed

interpretation heap_store:
  push_store "heap_rep lt" heap_push heap_raw_destroy_storage
    "\<lambda>x xs. sift_up lt (xs @ [x]) (length xs)" length
  for lt :: "'a \<Rightarrow> 'a \<Rightarrow> bool"
proof
  fix q :: "'a heap" and xs x s
  assume rep: "heap_rep lt q xs"
  show "op_outcome (heap_rep lt) q s NULL (STL_OK, sift_up lt (xs @ [x]) (length xs), None)
      (case heap_push (Some q) (Some (Some x)) s of (st, w, s') \<Rightarrow> (st, w, NULL, s'))"
    if "length xs < sq_element_limit q"
    using heap_push_contract [OF rep, where x = x and s = s] that by simp
  show "env_delta (- blocks q) s (snd (heap_raw_destroy_storage (Some q) s))"
    using heap_destroy_storage_delta [OF rep] .
qed simp

lemma heap_raw_init_rep:
  assumes "heap_raw_init (Some h0) (Some t) limit = (STL_OK, r)" and "traits_lawful t"
    and "binary_heap (\<lambda>x y. the (tr_compare (the (td_traits t))) x y < 0)"
    and "td_size t \<le> SIZE_MAX" and "td_align t \<le> SIZE_MAX" and "limit \<le> (SIZE_MAX - 1) div 2"
  shows "\<exists>v. r = Some v \<and> heap_rep (\<lambda>x y. the (tr_compare (the (td_traits t))) x y < 0) v [] \<and>
     blocks v = 0 \<and> sq_element_limit v = limit \<and> sq_generation v = sq_generation h0 + 1"
proof -
  obtain st c where sst: "sequence_stride (td_size t) (td_align t) (Some 0) = (st, c)"
    using prod.exhaust by blast
  have st: "st = STL_OK" "\<not> sq_initialized h0" "sequence_require_type (Some t) True = STL_OK"
    using assms(1) sst by (auto simp: heap_raw_init_def heap_initialize_def Let_def split: if_splits)
  have type: "sequence_require_type (Some t) False = STL_OK"
    using st(3) require_traits_part [of t "CMETA_TRAIT_COPY OR CMETA_TRAIT_MOVE OR CMETA_TRAIT_DESTROY"
        CMETA_TRAIT_COMPARE]
    by (auto simp: sequence_require_type_def Let_def or_eq_0_iff split: if_splits)
  have "the c \<noteq> 0" "td_size t \<noteq> 0" "sequence_alignment_valid (td_align t)"
    using stride_nonzero [OF sst [unfolded st] assms(4,5)] stride_OK_cases [OF sst [unfolded st]]
    by auto
  then show ?thesis
    using assms(1-3,6) sst st type
    by (auto simp: heap_raw_init_def heap_initialize_def heap_zeroed_def heap_rep_def linear_rep_def
        storage_ok_def blocks_def elem_ok_def is_heap_def heap_lt_def heap_order_def fun_eq_iff)
qed

lemma fold_sift_up_mset:
  "length (fold (\<lambda>x xs. sift_up lt (xs @ [x]) (length xs)) ys xs) = length xs + length ys \<and>
   mset (fold (\<lambda>x xs. sift_up lt (xs @ [x]) (length xs)) ys xs) = mset xs + mset ys"
  by (induction ys arbitrary: xs) simp_all

fun pop_all :: "nat \<Rightarrow> ('a \<Rightarrow> 'a \<Rightarrow> bool) \<Rightarrow> 'a list \<Rightarrow> 'a list" where
  "pop_all 0 lt xs = []"
| "pop_all (Suc n) lt xs = hd xs # pop_all n lt (pop_list lt xs)"

lemma pop_all_sorts:
  "binary_heap lt \<Longrightarrow> is_heap lt xs \<Longrightarrow> n = length xs \<Longrightarrow>
   mset (pop_all n lt xs) = mset xs \<and> sorted_wrt (\<lambda>x y. \<not> lt y x) (pop_all n lt xs)"
proof (induction n lt xs rule: pop_all.induct)
  case (2 n lt xs)
  then have ne: "xs \<noteq> []" by auto
  note p = heap_pop_list [OF 2(2,3) ne]
  have n: "n = length (pop_list lt xs)" using p(3) 2(4) by simp
  have IH: "mset (pop_all n lt (pop_list lt xs)) = mset (pop_list lt xs)"
    "sorted_wrt (\<lambda>x y. \<not> lt y x) (pop_all n lt (pop_list lt xs))"
    using 2(1) [OF 2(2) p(1) n] by simp_all
  have "set (pop_all n lt (pop_list lt xs)) \<subseteq> set xs"
    using IH(1) p(2) by (metis insert_iff set_mset_add_mset_insert set_mset_mset subsetI)
  then show ?case using IH p(2,4) by auto
qed simp

lemma length_pop_list: "xs \<noteq> [] \<Longrightarrow> length (pop_list lt xs) = length xs - 1"
proof (cases xs rule: rev_cases)
  case (snoc ys y)
  then have "butlast (xs[0 := last xs]) = ys[0 := y]" by (cases ys) (simp_all add: butlast_append)
  then show ?thesis using snoc by (cases ys) (simp_all add: pop_list_def)
qed simp

lemma run_model_pops:
  "n \<le> length xs \<Longrightarrow> run_model heap_out (heap_model lt l t) (replicate n (Heap_pop (Some None))) xs =
     (map (\<lambda>y. (STL_OK, Some (Some y))) (pop_all n lt xs), (pop_list lt ^^ n) xs)"
proof (induction n lt xs rule: pop_all.induct)
  case (2 n lt xs)
  then have ne: "xs \<noteq> []" by auto
  then show ?case using 2 length_pop_list [OF ne] by (simp add: deliver_def funpow_swap1 split: prod.splits)
qed simp

section \<open>Properties\<close>

text \<open>C13: The heap is a priority queue for any comparator that is a strict weak order.
  A successful push adds the element to the multiset of contents; a successful pop delivers
  an element no other precedes and removes exactly that one; \<open>heap_peek\<close> shows the
  same element; an operation that fails leaves the heap as it was.\<close>

theorem heap_priority_queue:
  assumes rep: "heap_rep lt q xs"
  shows "(case heap_push (Some q) (Some (Some x)) s of (st, r, s') \<Rightarrow>
      (if st = STL_OK
       then \<exists>w ys. r = Some w \<and> heap_rep lt w ys \<and> mset ys = add_mset x (mset xs)
       else r = Some q)) \<and>
    (case heap_pop (Some q) (Some c) s of (st, r, out, s') \<Rightarrow>
      (if st = STL_OK
       then \<exists>w ys y. r = Some w \<and> heap_rep lt w ys \<and> out = Some (Some y) \<and>
         heap_peek (Some q) = Some (Some y) \<and> mset xs = add_mset y (mset ys) \<and>
         (\<forall>z \<in> set xs. \<not> lt z y)
       else r = Some q \<and> out = Some c))"
proof (intro conjI)
  obtain st r s' where p: "heap_push (Some q) (Some (Some x)) s = (st, r, s')" by (metis prod_cases3)
  show "case heap_push (Some q) (Some (Some x)) s of (st, r, s') \<Rightarrow>
      (if st = STL_OK
       then \<exists>w ys. r = Some w \<and> heap_rep lt w ys \<and> mset ys = add_mset x (mset xs)
       else r = Some q)"
    using heap_push_contract [OF rep, where x = x and s = s] p
    by (auto simp: op_outcome_def split: if_splits intro!: exI [of _ "sift_up lt (xs @ [x]) (length xs)"])
next
  obtain st r out s' where p: "heap_pop (Some q) (Some c) s = (st, r, out, s')" by (metis prod_cases4)
  have c: "op_outcome (heap_rep lt) q s (Some c)
      (if xs = [] then (STL_EMPTY, xs, None) else (STL_OK, pop_list lt xs, Some (hd xs))) (st, r, out, s')"
    using heap_pop_contract [OF rep, where out = "Some c" and s = s] p by simp
  have peek: "heap_peek (Some q) = Some (Some (hd xs))" if "xs \<noteq> []"
    using rep that heap_rep_valid [OF rep] linear_rep_nth [of q xs 0]
    by (auto simp: heap_peek_def heap_rep_def linear_rep_def hd_conv_nth)
  show "case heap_pop (Some q) (Some c) s of (st, r, out, s') \<Rightarrow>
      (if st = STL_OK
       then \<exists>w ys y. r = Some w \<and> heap_rep lt w ys \<and> out = Some (Some y) \<and>
         heap_peek (Some q) = Some (Some y) \<and> mset xs = add_mset y (mset ys) \<and>
         (\<forall>z \<in> set xs. \<not> lt z y)
       else r = Some q \<and> out = Some c)"
  proof (cases "st = STL_OK")
    case False
    then show ?thesis using c p by (auto simp: op_outcome_def deliver_def split: if_splits)
  next
    case True
    then have ne: "xs \<noteq> []" using c by (auto simp: op_outcome_def)
    note l = heap_pop_list [of lt xs, OF _ _ ne]
    have "binary_heap lt" "is_heap lt xs" using rep by (auto simp: heap_rep_def)
    then show ?thesis
      using True c p ne peek l by (auto simp: op_outcome_def deliver_def)
  qed
qed

text \<open>A raw heap of natural numbers under the usual order, with three of them.\<close>

definition nat_heap :: "nat heap" where
  "nat_heap = heap_zeroed\<lparr>sq_data := Some [Some 1, Some 5, Some 3, None], sq_size := 3, sq_capacity := 4,
     sq_elem_size := 4, sq_elem_stride := 4, sq_elem_align := 4, sq_element_limit := 4,
     sq_initialized := True, hp_compare := Some (\<lambda>x y _. int x - int y)\<rparr>"

lemma nat_heap_rep: "heap_rep (<) nat_heap [1, 5, 3]"
proof -
  have "heap_lt nat_heap = (<)"
    by (auto simp: fun_eq_iff heap_lt_def heap_order_def nat_heap_def heap_zeroed_def)
  moreover have "binary_heap ((<) :: nat \<Rightarrow> nat \<Rightarrow> bool)" by unfold_locales auto
  moreover have "is_heap (<) [1, 5, 3 :: nat]"
    by (auto simp: is_heap_def parent_def less_Suc_eq)
  moreover have "linear_rep nat_heap [1, 5, 3]"
    by (simp add: nat_heap_def heap_zeroed_def linear_rep_def storage_ok_def elem_ok_def
        sequence_alignment_valid_def)
  ultimately show ?thesis
    by (simp add: heap_rep_def) (simp add: nat_heap_def heap_zeroed_def SIZE_MAX_def)
qed

theorem heap_priority_queue_witness:
  "case heap_pop (Some nat_heap) (Some None) ample_env of (st, r, out, s') \<Rightarrow>
     (if st = STL_OK
      then \<exists>w ys y. r = Some w \<and> heap_rep (<) w ys \<and> out = Some (Some y) \<and>
        heap_peek (Some nat_heap) = Some (Some y) \<and> mset [1, 5, 3] = add_mset y (mset ys) \<and>
        (\<forall>z \<in> set [1, 5, 3]. \<not> z < y)
      else r = Some nat_heap \<and> out = Some None)"
  by (rule conjunct2 [OF heap_priority_queue [OF nat_heap_rep]])

text \<open>C24: Popping a heap until it is empty, with scratch memory supplied, delivers its whole
  contents in comparator order (heapsort), and every pop succeeds.\<close>

theorem heap_drains_in_order:
  assumes "heap_rep lt q xs" and "supplied q s"
  shows "\<exists>ys w s'. run_ops heap_apply (replicate (length xs) (Heap_pop (Some None))) (Some q) s =
       (map (\<lambda>y. (STL_OK, Some (Some y))) ys, Some w, s') \<and>
     mset ys = mset xs \<and> sorted_wrt (\<lambda>x y. \<not> lt y x) ys \<and>
     live_blocks s' - blocks w = live_blocks s - blocks q"
proof -
  let ?ys = "pop_all (length xs) lt xs"
  have "mset ?ys = mset xs \<and> sorted_wrt (\<lambda>x y. \<not> lt y x) ?ys"
    using assms(1) pop_all_sorts by (auto simp: heap_rep_def)
  then show ?thesis
    using heap_machine.run_supplied [OF assms run_model_pops [OF order_refl]]
    by (fastforce simp: env_delta_def)
qed

lemma nat_heap_supplied: "supplied nat_heap ample_env"
  by (simp add: supplied_def nat_heap_def heap_zeroed_def ample_env_def generous_def copy_total_def
      sizeof_pointer_def SIZE_MAX_def)

theorem heap_drains_in_order_witness:
  "\<exists>ys w s'. run_ops heap_apply (replicate 3 (Heap_pop (Some None))) (Some nat_heap) ample_env =
       (map (\<lambda>y. (STL_OK, Some (Some y))) ys, Some w, s') \<and>
     mset ys = mset [1, 5, 3] \<and> sorted_wrt (\<lambda>x y. \<not> y < x) ys"
proof -
  have "length [1, 5, 3 :: nat] = 3" by simp
  then show ?thesis using heap_drains_in_order [OF nat_heap_rep nat_heap_supplied] by metis
qed

text \<open>Building a typed heap from an array is all-or-nothing: on success the new heap is in
  heap order and holds exactly the first \<open>n\<close> elements of the array; on any failure the
  caller's heap is untouched and no block is left allocated.\<close>

theorem heap_raw_from_array_all_or_nothing:
  assumes lawful: "traits_lawful t" and ord: "binary_heap (\<lambda>x y. the (tr_compare (the (td_traits t))) x y < 0)"
    and bounds: "td_size t \<le> SIZE_MAX" "td_align t \<le> SIZE_MAX" "limit \<le> (SIZE_MAX - 1) div 2"
    and run: "heap_raw_from_array heap (Some elements) n (Some t) limit s = (st, r, s')"
  shows "(st = STL_OK \<longrightarrow> (\<exists>w ys. r = Some w \<and>
            heap_rep (\<lambda>x y. the (tr_compare (the (td_traits t))) x y < 0) w ys \<and>
            mset ys = mset (take n elements) \<and>
            live_blocks s' = live_blocks s + blocks w)) \<and>
         (st \<noteq> STL_OK \<longrightarrow> r = heap \<and> live_blocks s' = live_blocks s)"
proof (cases "heap = NULL \<or> sq_initialized (the heap) \<or> limit < n")
  case True
  then show ?thesis using run by (auto simp: heap_raw_from_array_def split: if_splits)
next
  case ok: False
  let ?lt = "\<lambda>x y. the (tr_compare (the (td_traits t))) x y < 0"
  let ?add = "\<lambda>x xs. sift_up ?lt (xs @ [x]) (length xs)"
  obtain st0 t0 where init: "heap_raw_init (Some heap_zeroed) (Some t) limit = (st0, t0)"
    using prod.exhaust by blast
  show ?thesis
  proof (cases "st0 = STL_OK")
    case False
    then show ?thesis using run ok init by (auto simp: heap_raw_from_array_def split: if_splits)
  next
    case True
    then obtain v where v: "t0 = Some v" "heap_rep ?lt v []" "blocks v = 0" "sq_element_limit v = limit"
      using heap_raw_init_rep [OF _ lawful ord bounds] init by blast
    obtain st1 t1 s1 where p: "heap_push_all (take n elements) (Some v) s = (st1, t1, s1)"
      by (metis prod_cases3)
    have "length (take n elements) \<le> sq_element_limit v" using ok v(4) by (simp add: min_le_iff_disj)
    then have "(\<exists>w. st1 = STL_OK \<and> t1 = Some w \<and> heap_rep ?lt w (fold ?add (take n elements) []) \<and>
          env_delta (blocks w) s s1) \<or> (st1 \<noteq> STL_OK \<and> env_delta 0 s s1)"
      using heap_store.push_all_cases [OF v(2) p [unfolded heap_push_all_def]] v(3) by auto
    moreover have gen: "heap_rep ?lt (w\<lparr>sq_generation := g\<rparr>) ys = heap_rep ?lt w ys"
      "blocks (w\<lparr>sq_generation := g\<rparr>) = blocks w" for w :: "'a heap" and ys g
      by (simp_all add: heap_rep_def linear_rep_def storage_ok_def heap_lt_def fun_eq_iff heap_order_def
          blocks_def split: option.split)
    moreover have res: "(st, r, s') = (if st1 \<noteq> STL_OK then (st1, heap, s1)
        else (STL_OK, Some ((the t1)\<lparr>sq_generation := sq_generation (the heap) + 1\<rparr>), s1))"
      using run ok init True v(1) p by (simp add: heap_raw_from_array_def split: if_splits)
    ultimately show ?thesis
      using fold_sift_up_mset [of ?lt "take n elements" "[]"]
      by (cases "st1 = STL_OK")
        (auto simp: env_delta_def intro!: exI [of _ "fold ?add (take n elements) []"])
  qed
qed

theorem heap_raw_from_array_all_or_nothing_witness:
  "\<exists>st r s'. heap_raw_from_array (Some heap_zeroed) (Some [5, 6, 7]) 2 (Some nat_desc) 9 ample_env = (st, r, s') \<and>
     (st = STL_OK \<longrightarrow> (\<exists>w ys. r = Some w \<and> mset ys = mset [5, 6] \<and>
        heap_rep (\<lambda>x y. the (tr_compare (the (td_traits nat_desc))) x y < 0) w ys)) \<and>
     (st \<noteq> STL_OK \<longrightarrow> r = Some heap_zeroed \<and> live_blocks s' = 1)"
proof -
  obtain st r s' where run:
    "heap_raw_from_array (Some heap_zeroed) (Some [5, 6, 7]) 2 (Some nat_desc) 9 ample_env = (st, r, s')"
    by (metis prod_cases3)
  have b: "td_size nat_desc \<le> SIZE_MAX" "td_align nat_desc \<le> SIZE_MAX" "9 \<le> (SIZE_MAX - 1) div 2"
    by (simp_all add: nat_desc_def SIZE_MAX_def)
  have "binary_heap (\<lambda>x y. the (tr_compare (the (td_traits nat_desc))) x y < 0)"
    by unfold_locales (auto simp: nat_desc_def nat_traits_def)
  from heap_raw_from_array_all_or_nothing [OF nat_desc_lawful this b run] run show ?thesis
    by (intro exI [of _ st] exI [of _ r] exI [of _ s']) (auto simp: ample_env_def)
qed

end
