(* ===== verification/Cstl_Sort.thy ===== *)
theory Cstl_Sort
  imports Cstl_Storage "HOL-Library.Multiset"
begin

text \<open>
  The stable bottom-up merge sort (\<^verbatim>\<open>src/cstl/src/sort.c\<close>). Source and destination are
  arrays of slots; a moved or destroyed element leaves its slot empty. Index sums stay within
  \<open>size_t\<close> because both arrays are C objects, so plain addition is exact.
\<close>

section \<open>The code\<close>

text \<open>\<open>move_construct(dst + o, src + i); destroy(src + i)\<close>.\<close>

definition sort_move ::
  "('a \<Rightarrow> 'a) \<Rightarrow> 'a option list \<Rightarrow> 'a option list \<Rightarrow> size_t \<Rightarrow> size_t \<Rightarrow>
   'a option list \<times> 'a option list" where
  "sort_move mv src dst i out = (src[i := None], dst[out := map_option mv (src ! i)])"

function sort_destroy_range :: "size_t \<Rightarrow> size_t \<Rightarrow> 'a option list \<Rightarrow> 'a option list" where
  "sort_destroy_range index n base =
     (if index < n then sort_destroy_range (index + 1) n (base[index := None]) else base)"
  by auto
termination
  by (relation "measure (\<lambda>(index, n, base). n - index)") auto

text \<open>The first loop of \<open>sort_merge\<close>; it stops when one run is used up.\<close>

function sort_merge_loop ::
  "('a \<Rightarrow> 'a \<Rightarrow> int) \<Rightarrow> ('a \<Rightarrow> 'a) \<Rightarrow> size_t \<Rightarrow> size_t \<Rightarrow> size_t \<Rightarrow> size_t \<Rightarrow> size_t \<Rightarrow>
   'a option list \<Rightarrow> 'a option list \<Rightarrow>
   size_t \<times> size_t \<times> size_t \<times> 'a option list \<times> 'a option list" where
  "sort_merge_loop compare mv middle right first second out src dst =
     (if first < middle \<and> second < right then
        if compare (the (src ! first)) (the (src ! second)) \<le> 0
        then (case sort_move mv src dst first out of (src', dst') \<Rightarrow>
          sort_merge_loop compare mv middle right (first + 1) second (out + 1) src' dst')
        else (case sort_move mv src dst second out of (src', dst') \<Rightarrow>
          sort_merge_loop compare mv middle right first (second + 1) (out + 1) src' dst')
      else (first, second, out, src, dst))"
  by auto
termination
  by (relation "measure (\<lambda>(compare, mv, middle, right, first, second, out, src, dst).
      (middle - first) + (right - second))") auto

text \<open>The second and third loops.\<close>

function sort_drain ::
  "('a \<Rightarrow> 'a) \<Rightarrow> size_t \<Rightarrow> size_t \<Rightarrow> size_t \<Rightarrow> 'a option list \<Rightarrow> 'a option list \<Rightarrow>
   size_t \<times> 'a option list \<times> 'a option list" where
  "sort_drain mv stop cursor out src dst =
     (if cursor < stop then
        case sort_move mv src dst cursor out of (src', dst') \<Rightarrow>
          sort_drain mv stop (cursor + 1) (out + 1) src' dst'
      else (out, src, dst))"
  by auto
termination
  by (relation "measure (\<lambda>(mv, stop, cursor, out, src, dst). stop - cursor)") auto

declare sort_destroy_range.simps [simp del] sort_merge_loop.simps [simp del] sort_drain.simps [simp del]

text \<open>All of \<open>sort_merge\<close> after its variables are set up.\<close>

definition sort_merge_from ::
  "('a \<Rightarrow> 'a \<Rightarrow> int) \<Rightarrow> ('a \<Rightarrow> 'a) \<Rightarrow> size_t \<Rightarrow> size_t \<Rightarrow> size_t \<Rightarrow> size_t \<Rightarrow> size_t \<Rightarrow>
   'a option list \<Rightarrow> 'a option list \<Rightarrow> 'a option list \<times> 'a option list" where
  "sort_merge_from compare mv middle right first second out src dst =
     (case sort_merge_loop compare mv middle right first second out src dst of
        (first1, second1, out1, src1, dst1) \<Rightarrow>
      case sort_drain mv middle first1 out1 src1 dst1 of (out2, src2, dst2) \<Rightarrow>
      case sort_drain mv right second1 out2 src2 dst2 of (_, src3, dst3) \<Rightarrow> (src3, dst3))"

definition sort_merge ::
  "('a \<Rightarrow> 'a \<Rightarrow> int) \<Rightarrow> ('a \<Rightarrow> 'a) \<Rightarrow> 'a option list \<Rightarrow> 'a option list \<Rightarrow>
   size_t \<Rightarrow> size_t \<Rightarrow> size_t \<Rightarrow> 'a option list \<times> 'a option list" where
  "sort_merge compare mv src dst left middle right =
     sort_merge_from compare mv middle right left middle left src dst"

text \<open>
  \<open>for (left = 0; left < cnt; left += width * 2)\<close>. A zero width would never end;
  the caller's widths start at one and grow. The sums are written without wrap-around: an array
  and its scratch copy do not both fit if one of them fills half the address space.
\<close>

function sort_pass ::
  "('a \<Rightarrow> 'a \<Rightarrow> int) \<Rightarrow> ('a \<Rightarrow> 'a) \<Rightarrow> size_t \<Rightarrow> size_t \<Rightarrow> size_t \<Rightarrow>
   'a option list \<Rightarrow> 'a option list \<Rightarrow> 'a option list \<times> 'a option list" where
  "sort_pass compare mv cnt width left src dst =
     (if left < cnt \<and> width \<noteq> 0 then
        let middle = (if left + width < cnt then left + width else cnt);
            right = (if middle + width < cnt then middle + width else cnt)
        in case sort_merge compare mv src dst left middle right of (src', dst') \<Rightarrow>
          sort_pass compare mv cnt width (left + width * 2) src' dst'
      else (src, dst))"
  by auto
termination
  by (relation "measure (\<lambda>(compare, mv, cnt, width, left, src, dst). cnt - left)") auto

text \<open>
  The outer loop. It returns the array called \<open>source\<close> at the end, the other one, and
  whether \<open>source\<close> is the caller's \<open>base\<close>.
\<close>

function sort_widths ::
  "('a \<Rightarrow> 'a \<Rightarrow> int) \<Rightarrow> ('a \<Rightarrow> 'a) \<Rightarrow> size_t \<Rightarrow> size_t \<Rightarrow> bool \<Rightarrow>
   'a option list \<Rightarrow> 'a option list \<Rightarrow> bool \<times> 'a option list \<times> 'a option list" where
  "sort_widths compare mv cnt width source_is_base source destination =
     (if width < cnt \<and> width \<noteq> 0 then
        case sort_pass compare mv cnt width 0 source destination of (source', destination') \<Rightarrow>
          sort_widths compare mv cnt (if cnt div 2 < width then cnt else width * 2)
            (\<not> source_is_base) destination' source'
      else (source_is_base, source, destination))"
  by auto
termination
  by (relation "measure (\<lambda>(compare, mv, cnt, width, b, source, destination). cnt - width)") auto

declare sort_pass.simps [simp del] sort_widths.simps [simp del]

text \<open>The copy loop into the scratch array; \<open>None\<close> when a copy fails.\<close>

function sort_copy ::
  "('a \<Rightarrow> 'a option) \<Rightarrow> size_t \<Rightarrow> size_t \<Rightarrow> 'a option list \<Rightarrow> 'a option list \<Rightarrow>
   bool \<times> 'a option list" where
  "sort_copy cp cnt copied scratch base =
     (if copied < cnt then
        case Option.bind (base ! copied) cp of
          None \<Rightarrow> (False, sort_destroy_range 0 copied scratch)
        | Some y \<Rightarrow> sort_copy cp cnt (copied + 1) (scratch[copied := Some y]) base
      else (True, scratch))"
  by auto
termination
  by (relation "measure (\<lambda>(cp, cnt, copied, scratch, base). cnt - copied)") auto

declare sort_copy.simps [simp del]

text \<open>\<open>base_address\<close> is \<open>(uintptr_t)base\<close>.\<close>

definition stable_sort ::
  "size_t \<Rightarrow> 'a option list ptr \<Rightarrow> size_t \<Rightarrow> 'a cmeta_type_desc ptr \<Rightarrow> size_t \<Rightarrow> env \<Rightarrow>
   stl_status \<times> 'a option list ptr \<times> env" where
  "stable_sort base_address base cnt type scratch_byte_limit s =
     (let required = CMETA_TRAIT_COMPARE OR CMETA_TRAIT_COPY OR CMETA_TRAIT_MOVE OR CMETA_TRAIT_DESTROY in
      if type = NULL \<or> td_size (the type) = 0 \<or> \<not> sequence_alignment_valid (td_align (the type))
        then (STL_INVALID_ARGUMENT, base, s)
      else if cmeta_type_require_traits type required \<noteq> CMETA_OK then (STL_TRAIT_MISSING, base, s)
      else if cnt = 0 then (STL_OK, base, s)
      else if base = NULL then (STL_INVALID_ARGUMENT, base, s)
      else if base_address mod td_align (the type) \<noteq> 0 then (STL_INVALID_ARGUMENT, base, s)
      else if cnt = 1 then (STL_OK, base, s)
      else
        case sequence_stride (td_size (the type)) (td_align (the type)) (Some 0) of (st, stride) \<Rightarrow>
        if st \<noteq> STL_OK then (st, base, s)
        else
          case sequence_bytes cnt (the stride) (Some 0) of (st, bytes) \<Rightarrow>
          if st \<noteq> STL_OK then (st, base, s)
          else if scratch_byte_limit < the bytes then (STL_CAPACITY_EXCEEDED, base, s)
          else
            case sequence_allocate cnt (the stride) (td_align (the type)) (Some NULL) s of
              (st, cell, s1) \<Rightarrow>
            if st \<noteq> STL_OK then (st, base, s1)
            else
              let traits = the (td_traits (the type));
                  scratch = fresh_block cnt (the cell)
              in case sort_copy (the (tr_copy_construct traits)) cnt 0 (block_slots scratch) (the base) of
                (ok, scratch1) \<Rightarrow>
                if \<not> ok then (STL_OUT_OF_MEMORY, base, sequence_deallocate scratch s1)
                else
                  let base1 = sort_destroy_range 0 cnt (the base);
                      mv = the (tr_move_construct traits)
                  in case sort_widths (the (tr_compare traits)) mv cnt 1 False scratch1 base1 of
                    (source_is_base, source, other) \<Rightarrow>
                      let result = (if source_is_base then source
                                    else snd (snd (sort_drain mv cnt 0 0 source other)))
                      in (STL_OK, Some result, sequence_deallocate scratch s1))"

section \<open>The list algorithm\<close>

fun merge_by :: "('a \<Rightarrow> 'a \<Rightarrow> int) \<Rightarrow> 'a list \<Rightarrow> 'a list \<Rightarrow> 'a list" where
  "merge_by cmp [] ys = ys"
| "merge_by cmp xs [] = xs"
| "merge_by cmp (x # xs) (y # ys) =
     (if cmp x y \<le> 0 then x # merge_by cmp xs (y # ys) else y # merge_by cmp (x # xs) ys)"

function merge_pass :: "('a \<Rightarrow> 'a \<Rightarrow> int) \<Rightarrow> nat \<Rightarrow> 'a list \<Rightarrow> 'a list" where
  "merge_pass cmp w xs =
     (if xs = [] \<or> w = 0 then xs
      else merge_by cmp (take w xs) (take w (drop w xs)) @ merge_pass cmp w (drop (w * 2) xs))"
  by auto
termination
  by (relation "measure (\<lambda>(cmp, w, xs). length xs)") auto

declare merge_pass.simps [simp del]

lemma length_merge_by [simp]: "length (merge_by cmp xs ys) = length xs + length ys"
  by (induction cmp xs ys rule: merge_by.induct) auto

lemma mset_merge_by [simp]: "mset (merge_by cmp xs ys) = mset xs + mset ys"
  by (induction cmp xs ys rule: merge_by.induct) auto

lemma merge_by_Nil2 [simp]: "merge_by cmp xs [] = xs"
  by (cases xs) auto

lemma set_merge_by [simp]: "set (merge_by cmp xs ys) = set xs \<union> set ys"
  by (induction cmp xs ys rule: merge_by.induct) auto

lemma merge_pass_Nil [simp]: "merge_pass cmp w [] = []"
  by (simp add: merge_pass.simps)

lemma length_merge_pass [simp]: "length (merge_pass cmp w xs) = length xs"
proof (induction cmp w xs rule: merge_pass.induct)
  case (1 cmp w xs)
  then show ?case by (subst merge_pass.simps) auto
qed

section \<open>The arrays follow the lists\<close>

lemma sort_drain_moves:
  "take n (drop cursor src) = map Some xs \<Longrightarrow> length xs = n \<Longrightarrow> cursor + n \<le> length src \<Longrightarrow>
   out + n \<le> length dst \<Longrightarrow> (\<And>x. mv x = x) \<Longrightarrow> stop = cursor + n \<Longrightarrow>
   \<exists>src'. sort_drain mv stop cursor out src dst =
       (out + n, src', take out dst @ map Some xs @ drop (out + n) dst) \<and>
     length src' = length src \<and> (\<forall>i. i < cursor \<or> stop \<le> i \<longrightarrow> src' ! i = src ! i)"
proof (induction n arbitrary: cursor out src dst xs)
  case 0
  then show ?case by (simp add: sort_drain.simps)
next
  case (Suc n)
  obtain x ys where xs: "xs = x # ys" "length ys = n" using Suc.prems(2) by (cases xs) auto
  have c: "cursor < length src" "drop cursor src = src ! cursor # drop (Suc cursor) src"
    using Suc.prems(3) by (auto simp: Cons_nth_drop_Suc)
  then have x: "src ! cursor = Some x" "take n (drop (Suc cursor) src) = map Some ys"
    using Suc.prems(1) xs by auto
  let ?src = "src[cursor := None]" and ?dst = "dst[out := Some x]"
  have "\<exists>src'. sort_drain mv stop (cursor + 1) (out + 1) ?src ?dst =
       (out + 1 + n, src', take (out + 1) ?dst @ map Some ys @ drop (out + 1 + n) ?dst) \<and>
     length src' = length ?src \<and> (\<forall>i. i < cursor + 1 \<or> stop \<le> i \<longrightarrow> src' ! i = ?src ! i)"
    using Suc.prems x xs by (intro Suc.IH) auto
  moreover have "take (out + 1) ?dst = take out dst @ [Some x]" "drop (out + 1 + n) ?dst = drop (out + Suc n) dst"
    using Suc.prems(4) by (auto simp: take_Suc_conv_app_nth)
  moreover have "sort_drain mv stop cursor out src dst = sort_drain mv stop (cursor + 1) (out + 1) ?src ?dst"
    using Suc.prems(5,6) x by (subst sort_drain.simps) (simp add: sort_move_def)
  ultimately show ?case using xs Suc.prems(6) by auto
qed

text \<open>A slice of an array, element by element.\<close>

lemma slice_Cons:
  assumes "take (length (x # xs)) (drop i arr) = map Some (x # xs)" and "i + length (x # xs) \<le> length arr"
  shows "arr ! i = Some x" and "take (length xs) (drop (i + 1) arr) = map Some xs"
proof -
  have "drop i arr = arr ! i # drop (Suc i) arr" using assms(2) by (simp add: Cons_nth_drop_Suc)
  then show "arr ! i = Some x" "take (length xs) (drop (i + 1) arr) = map Some xs"
    using assms(1) by simp_all
qed

lemma take_drop_update [simp]:
  "i < k \<or> k + n \<le> i \<Longrightarrow> take n (drop k (arr[i := v])) = take n (drop k arr)"
  by (auto simp: drop_update_swap list_eq_iff_nth_eq nth_list_update)

lemma sort_merge_from_merges:
  "first + length as = middle \<Longrightarrow> second + length bs = right \<Longrightarrow> middle \<le> second \<Longrightarrow>
   take (length as) (drop first src) = map Some as \<Longrightarrow> take (length bs) (drop second src) = map Some bs \<Longrightarrow>
   right \<le> length src \<Longrightarrow> out + length as + length bs \<le> length dst \<Longrightarrow> (\<And>x. mv x = x) \<Longrightarrow>
   \<exists>src'. sort_merge_from cmp mv middle right first second out src dst =
       (src', take out dst @ map Some (merge_by cmp as bs) @ drop (out + length as + length bs) dst) \<and>
     length src' = length src \<and> (\<forall>i. i < first \<or> right \<le> i \<longrightarrow> src' ! i = src ! i)"
proof (induction cmp as bs arbitrary: first second out src dst rule: merge_by.induct)
  case (1 cmp ys)
  obtain src' where "sort_drain mv right second out src dst =
      (out + length ys, src', take out dst @ map Some ys @ drop (out + length ys) dst)"
    "length src' = length src" "\<forall>i. i < second \<or> right \<le> i \<longrightarrow> src' ! i = src ! i"
    using sort_drain_moves [OF 1(5) refl _ _ 1(8) 1(2) [symmetric], of out dst] 1(2,6,7) by auto
  moreover have "sort_merge_loop cmp mv middle right first second out src dst = (first, second, out, src, dst)"
    using 1(1) by (subst sort_merge_loop.simps) simp
  moreover have "sort_drain mv middle first out src dst = (out, src, dst)"
    using 1(1) by (subst sort_drain.simps) simp
  ultimately show ?case using 1(1,3) by (simp add: sort_merge_from_def)
next
  case (2 cmp x xs)
  obtain src' where "sort_drain mv middle first out src dst =
      (out + length (x # xs), src', take out dst @ map Some (x # xs) @ drop (out + length (x # xs)) dst)"
    "length src' = length src" "\<forall>i. i < first \<or> middle \<le> i \<longrightarrow> src' ! i = src ! i"
    using sort_drain_moves [OF 2(4) refl _ _ 2(8) 2(1) [symmetric], of out dst] 2(1,2,3,6,7) by auto
  moreover have "sort_merge_loop cmp mv middle right first second out src dst = (first, second, out, src, dst)"
    using 2(2) by (subst sort_merge_loop.simps) simp
  moreover have "sort_drain mv right second o' s' d' = (o', s', d')" for o' s' d'
    using 2(2) by (subst sort_drain.simps) simp
  ultimately show ?case using 2(1-3) by (simp add: sort_merge_from_def)
next
  case (3 cmp x xs y ys)
  have x: "src ! first = Some x" "take (length xs) (drop (first + 1) src) = map Some xs"
    using 3 slice_Cons [of x xs first src] by auto
  have y: "src ! second = Some y" "take (length ys) (drop (second + 1) src) = map Some ys"
    using 3 slice_Cons [of y ys second src] by auto
  have dst: "take (out + 1) (dst[out := Some z]) = take out dst @ [Some z]" for z
    using 3(9) by (simp add: take_Suc_conv_app_nth)
  show ?case
  proof (cases "cmp x y \<le> 0")
    case True
    have "\<exists>src'. sort_merge_from cmp mv middle right (first + 1) second (out + 1) (src[first := None])
          (dst[out := Some x]) =
        (src', take (out + 1) (dst[out := Some x]) @ map Some (merge_by cmp xs (y # ys)) @
           drop (out + 1 + length xs + length (y # ys)) (dst[out := Some x])) \<and>
        length src' = length (src[first := None]) \<and>
        (\<forall>i. i < first + 1 \<or> right \<le> i \<longrightarrow> src' ! i = (src[first := None]) ! i)"
      using 3 True x by (intro 3(1)) auto
    moreover have "sort_merge_from cmp mv middle right first second out src dst =
        sort_merge_from cmp mv middle right (first + 1) second (out + 1) (src[first := None])
          (dst[out := Some x])"
      using 3 True x y by (simp add: sort_merge_from_def sort_merge_loop.simps [of _ _ _ _ first]
          sort_move_def)
    ultimately show ?thesis using True dst 3(3-6) by auto
  next
    case False
    have "\<exists>src'. sort_merge_from cmp mv middle right first (second + 1) (out + 1) (src[second := None])
          (dst[out := Some y]) =
        (src', take (out + 1) (dst[out := Some y]) @ map Some (merge_by cmp (x # xs) ys) @
           drop (out + 1 + length (x # xs) + length ys) (dst[out := Some y])) \<and>
        length src' = length (src[second := None]) \<and>
        (\<forall>i. i < first \<or> right \<le> i \<longrightarrow> src' ! i = (src[second := None]) ! i)"
      using 3 False y by (intro 3(2)) auto
    moreover have "sort_merge_from cmp mv middle right first second out src dst =
        sort_merge_from cmp mv middle right first (second + 1) (out + 1) (src[second := None])
          (dst[out := Some y])"
      using 3 False x y by (simp add: sort_merge_from_def sort_merge_loop.simps [of _ _ _ _ first]
          sort_move_def)
    ultimately show ?thesis using False dst 3(3-6) by auto
  qed
qed

lemma sort_pass_lists:
  "take (length xs) (drop left src) = map Some xs \<Longrightarrow> cnt = left + length xs \<Longrightarrow> length src = cnt \<Longrightarrow>
   length dst = cnt \<Longrightarrow> w \<noteq> 0 \<Longrightarrow> (\<And>x. mv x = x) \<Longrightarrow>
   \<exists>src'. sort_pass cmp mv cnt w left src dst = (src', take left dst @ map Some (merge_pass cmp w xs)) \<and>
     length src' = cnt"
proof (induction cmp w xs arbitrary: left src dst rule: merge_pass.induct)
  case (1 cmp w xs)
  show ?case
  proof (cases "xs = []")
    case True
    then show ?thesis using 1 by (simp add: sort_pass.simps [of _ _ _ _ left] merge_pass.simps [of _ _ xs])
  next
    case False
    define as bs rest where "as = take w xs" and "bs = take w (drop w xs)" and "rest = drop (w * 2) xs"
    define middle right where "middle = left + length as" and "right = left + length as + length bs"
    have xs: "xs = as @ bs @ rest"
      by (simp add: as_def bs_def rest_def mult_2_right take_add [symmetric] flip: append_assoc)
    have m: "(if left + w < cnt then left + w else cnt) = middle"
      "(if middle + w < cnt then middle + w else cnt) = right"
      using 1(3) by (auto simp: middle_def right_def as_def bs_def)
    have src: "take (length as) (drop left src) = map Some as"
      "take (length bs) (drop middle src) = map Some bs"
      "take (length rest) (drop right src) = map Some rest"
      using arg_cong [OF 1(2), of "take (length as)"]
        arg_cong [OF 1(2), of "\<lambda>l. take (length bs) (drop (length as) l)"]
        arg_cong [OF 1(2), of "\<lambda>l. drop (length as + length bs) l"]
      by (simp_all add: xs middle_def right_def take_drop add.commute add.left_commute)
    obtain src1 where merge: "sort_merge cmp mv src dst left middle right =
        (src1, take left dst @ map Some (merge_by cmp as bs) @ drop right dst)"
      "length src1 = length src" "\<forall>i. i < left \<or> right \<le> i \<longrightarrow> src1 ! i = src ! i"
      using sort_merge_from_merges [OF middle_def [symmetric] _ order_refl src(1,2), of right left dst mv cmp]
        1(3-5,7) xs by (auto simp: sort_merge_def middle_def right_def add.assoc)
    let ?dst = "take left dst @ map Some (merge_by cmp as bs) @ drop right dst"
    have rest: "take (length rest) (drop right src1) = map Some rest"
      using src(3) merge(2,3) by (auto simp: list_eq_iff_nth_eq)
    have l: "length dst = cnt" "right + length rest = cnt" "left \<le> right"
      using 1(3,5) xs by (simp_all add: right_def)
    have lt: "left < cnt" "w \<noteq> 0" using False 1(3,6) by simp_all
    have step: "sort_pass cmp mv cnt w left src dst = sort_pass cmp mv cnt w (left + w * 2) src1 ?dst"
      by (subst sort_pass.simps) (simp only: Let_def m merge(1) prod.case lt simp_thms if_True not_False_eq_True)
    have list: "merge_pass cmp w xs = merge_by cmp as bs @ merge_pass cmp w rest"
      using False lt(2) by (subst merge_pass.simps) (simp add: as_def bs_def rest_def)
    show ?thesis
    proof (cases "rest = []")
      case True
      then have "cnt \<le> left + w * 2" using 1(3) by (simp add: rest_def)
      then have "sort_pass cmp mv cnt w (left + w * 2) src1 ?dst = (src1, ?dst)"
        by (subst sort_pass.simps) simp
      then show ?thesis using True step list l merge(2) 1(4) by simp
    next
      case ne: False
      then have full: "left + w * 2 = right" by (auto simp: rest_def right_def as_def bs_def)
      have pre: "\<not> (xs = [] \<or> w = 0)" "cnt = right + length rest" "length src1 = cnt" "length ?dst = cnt"
        using False lt(2) l merge(2) 1(4) by (simp_all add: right_def)
      obtain src2 where "sort_pass cmp mv cnt w right src1 ?dst =
          (src2, take right ?dst @ map Some (merge_pass cmp w rest))" "length src2 = cnt"
        using 1(1) [OF pre(1), folded rest_def, OF rest pre(2-4) lt(2) 1(7)] by blast
      moreover have "take right ?dst = take left dst @ map Some (merge_by cmp as bs)"
        using l by (simp add: right_def)
      ultimately show ?thesis using step list full by simp
    qed
  qed
qed

section \<open>The list algorithm sorts stably\<close>

abbreviation sorted_by :: "('a \<Rightarrow> 'a \<Rightarrow> int) \<Rightarrow> 'a list \<Rightarrow> bool" where
  "sorted_by cmp \<equiv> sorted_wrt (\<lambda>x y. cmp x y \<le> 0)"

lemma sorted_merge_by:
  "comparator_ok cmp \<Longrightarrow> sorted_by cmp xs \<Longrightarrow> sorted_by cmp ys \<Longrightarrow> sorted_by cmp (merge_by cmp xs ys)"
proof (induction cmp xs ys rule: merge_by.induct)
  case (3 cmp x xs y ys)
  then have tr: "\<And>x y z. cmp x y \<le> 0 \<Longrightarrow> cmp y z \<le> 0 \<Longrightarrow> cmp x z \<le> 0"
    and sgn: "\<And>x y. cmp x y < 0 \<longleftrightarrow> cmp y x > 0"
    unfolding comparator_ok_def by blast+
  have flip: "cmp y x \<le> 0" if "\<not> cmp x y \<le> 0" for x y using sgn [of y x] that by linarith
  have "cmp x u \<le> 0" if "cmp x y \<le> 0" "u \<in> set xs \<union> set (y # ys)" for u
    using that 3(4,5) tr [of x y u] by auto
  moreover have "cmp y u \<le> 0" if "\<not> cmp x y \<le> 0" "u \<in> set (x # xs) \<union> set ys" for u
    using that 3(4,5) tr [of y x u] flip [of x y] by auto
  ultimately show ?case using 3 by simp
qed auto

lemma filter_merge_by:
  "comparator_ok cmp \<Longrightarrow> sorted_by cmp xs \<Longrightarrow> sorted_by cmp ys \<Longrightarrow>
   filter (\<lambda>y. cmp z y = 0) (merge_by cmp xs ys) =
     filter (\<lambda>y. cmp z y = 0) xs @ filter (\<lambda>y. cmp z y = 0) ys"
proof (induction cmp xs ys rule: merge_by.induct)
  case (3 cmp x xs y ys)
  then have tr: "\<And>x y z. cmp x y \<le> 0 \<Longrightarrow> cmp y z \<le> 0 \<Longrightarrow> cmp x z \<le> 0"
    and flip: "\<And>x y. cmp x y < 0 \<longleftrightarrow> cmp y x > 0"
    unfolding comparator_ok_def by blast+
  show ?case
  proof (cases "cmp x y \<le> 0")
    case True
    then show ?thesis using 3 by simp
  next
    case False
    have "cmp z u \<noteq> 0" if zy: "cmp z y = 0" and u: "u \<in> set (x # xs)" for u
    proof
      assume zu: "cmp z u = 0"
      have "cmp x x \<le> 0" using flip [of x x] by linarith
      then have "cmp x u \<le> 0" using u 3(4) by auto
      moreover have "cmp u z \<le> 0" using flip [of u z] zu flip [of z u] by linarith
      ultimately have "cmp x y \<le> 0" using tr [of u z y] tr [of x u y] zy by simp
      then show False using False by simp
    qed
    then have "cmp z x \<noteq> 0" "filter (\<lambda>u. cmp z u = 0) xs = []" if "cmp z y = 0"
      using that by (auto simp: filter_empty_conv)
    moreover have "filter (\<lambda>u. cmp z u = 0) (merge_by cmp (x # xs) ys) =
        filter (\<lambda>u. cmp z u = 0) (x # xs) @ filter (\<lambda>u. cmp z u = 0) ys"
      using 3 False by simp
    ultimately show ?thesis using False by (cases "cmp z y = 0") simp_all
  qed
qed auto

text \<open>Every run of width \<open>w\<close> is sorted: the invariant of the outer loop.\<close>

definition sorted_blocks :: "('a \<Rightarrow> 'a \<Rightarrow> int) \<Rightarrow> nat \<Rightarrow> 'a list \<Rightarrow> bool" where
  "sorted_blocks cmp w xs \<longleftrightarrow> (\<forall>k. sorted_by cmp (take w (drop (k * w) xs)))"

lemma sorted_blocks_one: "sorted_blocks cmp 1 xs"
proof -
  have "sorted_by cmp (take 1 ys)" for ys :: "'a list" by (cases ys) auto
  then show ?thesis by (simp add: sorted_blocks_def)
qed

lemma sorted_blocks_all: "sorted_blocks cmp w xs \<Longrightarrow> length xs \<le> w \<Longrightarrow> sorted_by cmp xs"
  unfolding sorted_blocks_def by (drule spec [of _ 0]) simp

lemma sorted_blocks_wider: "sorted_by cmp xs \<Longrightarrow> sorted_blocks cmp w xs"
  unfolding sorted_blocks_def by (simp add: sorted_wrt_take sorted_wrt_drop)

lemma sorted_blocks_drop: "sorted_blocks cmp w xs \<Longrightarrow> sorted_blocks cmp w (drop (w * 2) xs)"
  unfolding sorted_blocks_def
proof
  fix k
  assume "\<forall>k. sorted_by cmp (take w (drop (k * w) xs))"
  then have "sorted_by cmp (take w (drop ((k + 2) * w) xs))" by blast
  then show "sorted_by cmp (take w (drop (k * w) (drop (w * 2) xs)))" by (simp add: algebra_simps mult_2_right)
qed

lemma sorted_blocks_runs:
  assumes "sorted_blocks cmp w xs"
  shows "sorted_by cmp (take w xs)" and "sorted_by cmp (take w (drop w xs))"
  using assms [unfolded sorted_blocks_def, THEN spec, of 0] assms [unfolded sorted_blocks_def, THEN spec, of 1]
  by simp_all

lemma sorted_blocks_append:
  assumes "sorted_by cmp ms" and "length ms \<le> v" and "length ms = v \<or> rest = []"
    and "sorted_blocks cmp v rest"
  shows "sorted_blocks cmp v (ms @ rest)"
  unfolding sorted_blocks_def
proof
  fix k
  show "sorted_by cmp (take v (drop (k * v) (ms @ rest)))"
  proof (cases k)
    case 0
    then show ?thesis using assms(1-3) by (auto simp: sorted_wrt_take)
  next
    case (Suc j)
    have "drop (k * v) (ms @ rest) = drop (j * v) rest"
      using assms(2,3) Suc by (auto simp: trans_le_add1)
    then show ?thesis using assms(4) by (simp add: sorted_blocks_def)
  qed
qed

lemma merge_pass_blocks:
  "comparator_ok cmp \<Longrightarrow> sorted_blocks cmp w xs \<Longrightarrow> sorted_blocks cmp (w * 2) (merge_pass cmp w xs)"
proof (induction cmp w xs rule: merge_pass.induct)
  case (1 cmp w xs)
  show ?case
  proof (cases "xs = [] \<or> w = 0")
    case True
    then show ?thesis using sorted_blocks_wider [of cmp "[]"] 1(3)
      by (auto simp: merge_pass.simps [of _ _ xs] sorted_blocks_def)
  next
    case False
    let ?ms = "merge_by cmp (take w xs) (take w (drop w xs))"
    have "sorted_blocks cmp (w * 2) (?ms @ merge_pass cmp w (drop (w * 2) xs))"
    proof (rule sorted_blocks_append)
      show "sorted_by cmp ?ms" by (rule sorted_merge_by [OF 1(2) sorted_blocks_runs [OF 1(3)]])
      show "length ?ms = w * 2 \<or> merge_pass cmp w (drop (w * 2) xs) = []"
        by (cases "length xs \<ge> w * 2") auto
      show "sorted_blocks cmp (w * 2) (merge_pass cmp w (drop (w * 2) xs))"
        using 1(1) [OF False 1(2)] sorted_blocks_drop [OF 1(3)] .
    qed simp
    then show ?thesis using False by (subst merge_pass.simps) simp
  qed
qed

lemma runs_rest: "take w xs @ take w (drop w xs) @ drop (w * 2) xs = xs"
  by (simp add: mult_2_right take_add [symmetric] flip: append_assoc)

lemma merge_pass_mset [simp]: "mset (merge_pass cmp w xs) = mset xs"
proof (induction cmp w xs rule: merge_pass.induct)
  case (1 cmp w xs)
  show ?case
    using 1 arg_cong [OF runs_rest [of w xs], of mset]
    by (subst merge_pass.simps) (auto simp: add.assoc)
qed

lemma merge_pass_filter:
  "comparator_ok cmp \<Longrightarrow> sorted_blocks cmp w xs \<Longrightarrow>
   filter (\<lambda>y. cmp z y = 0) (merge_pass cmp w xs) = filter (\<lambda>y. cmp z y = 0) xs"
proof (induction cmp w xs rule: merge_pass.induct)
  case (1 cmp w xs)
  show ?case
  proof (cases "xs = [] \<or> w = 0")
    case False
    then show ?thesis
      using 1(1) [OF False 1(2) sorted_blocks_drop [OF 1(3)]]
        filter_merge_by [OF 1(2) sorted_blocks_runs [OF 1(3)], of z]
        arg_cong [OF runs_rest [of w xs], of "filter (\<lambda>y. cmp z y = 0)"]
      by (subst merge_pass.simps) (simp flip: append_assoc)
  qed (auto simp: merge_pass.simps [of _ _ xs])
qed

section \<open>The whole sort\<close>

lemma length_sort_destroy_range [simp]: "length (sort_destroy_range index n base) = length base"
proof (induction index n base rule: sort_destroy_range.induct)
  case (1 index n base)
  then show ?case by (subst sort_destroy_range.simps) simp
qed

lemma sort_copy_cases:
  "sort_copy cp cnt copied scratch (map Some xs) = (ok, scratch') \<Longrightarrow> cnt = length xs \<Longrightarrow>
   length scratch = cnt \<Longrightarrow> copied \<le> cnt \<Longrightarrow> (\<And>x y. cp x = Some y \<Longrightarrow> y = x) \<Longrightarrow>
   take copied scratch = map Some (take copied xs) \<Longrightarrow>
   (ok \<and> scratch' = map Some xs) \<or> (\<not> ok \<and> (\<exists>x. cp x = None))"
proof (induction cp cnt copied scratch "map Some xs :: 'a option list" rule: sort_copy.induct)
  case (1 cp cnt copied scratch)
  show ?case
  proof (cases "copied < cnt")
    case True
    then have at: "Option.bind (map Some xs ! copied) cp = cp (xs ! copied)" using 1(3) by simp
    show ?thesis
    proof (cases "cp (xs ! copied)")
      case None
      then show ?thesis using 1(2) True at by (subst (asm) sort_copy.simps) auto
    next
      case (Some y)
      have "take (copied + 1) (scratch[copied := Some y]) = map Some (take (copied + 1) xs)"
        using 1(3,4,7) True 1(6) [OF Some] by (simp add: take_Suc_conv_app_nth)
      moreover have "sort_copy cp cnt (copied + 1) (scratch[copied := Some y]) (map Some xs) = (ok, scratch')"
        using 1(2) True at Some by (subst (asm) sort_copy.simps) simp
      ultimately show ?thesis using 1(1) [OF True _ _ 1(3)] at Some True 1(4,6) by simp
    qed
  next
    case False
    then show ?thesis using 1 by (subst (asm) sort_copy.simps) simp
  qed
qed

text \<open>What a sorted result is: the caller's elements, in order, equal ones as they stood.\<close>

definition stably_sorted :: "('a \<Rightarrow> 'a \<Rightarrow> int) \<Rightarrow> 'a list \<Rightarrow> 'a list \<Rightarrow> bool" where
  "stably_sorted cmp xs ys \<longleftrightarrow> sorted_by cmp ys \<and> mset ys = mset xs \<and>
     (\<forall>z. filter (\<lambda>y. cmp z y = 0) ys = filter (\<lambda>y. cmp z y = 0) xs)"

lemma sort_widths_sorts:
  "comparator_ok cmp \<Longrightarrow> (\<And>x. mv x = x) \<Longrightarrow> w \<noteq> 0 \<Longrightarrow> length xs = cnt \<Longrightarrow> length other = cnt \<Longrightarrow>
   sorted_blocks cmp w xs \<Longrightarrow>
   \<exists>b ys other'. sort_widths cmp mv cnt w sb (map Some xs) other = (b, map Some ys, other') \<and>
     length other' = cnt \<and> stably_sorted cmp xs ys"
proof (induction "cnt - w" arbitrary: w sb xs other rule: less_induct)
  case less
  show ?case
  proof (cases "w < cnt")
    case False
    then show ?thesis
      using less.prems sorted_blocks_all [of cmp w xs] by (subst sort_widths.simps) (auto simp: stably_sorted_def)
  next
    case True
    let ?w = "if cnt div 2 < w then cnt else w * 2" and ?ys = "merge_pass cmp w xs"
    have "take (length xs) (drop 0 (map Some xs)) = map Some xs" "cnt = 0 + length xs"
      "length (map Some xs) = cnt"
      using less.prems(4) by simp_all
    from sort_pass_lists [OF this less.prems(5,3,2)] obtain src' where
      pass: "sort_pass cmp mv cnt w 0 (map Some xs) other = (src', map Some ?ys)" "length src' = cnt"
      by (metis append_Nil take_0)
    have "sorted_blocks cmp (w * 2) ?ys" by (rule merge_pass_blocks [OF less.prems(1,6)])
    moreover from this have "sorted_blocks cmp cnt ?ys" if "cnt div 2 < w"
      using that less.prems(4) sorted_blocks_all [of cmp "w * 2" ?ys] by (intro sorted_blocks_wider) simp
    ultimately have blocks: "sorted_blocks cmp ?w ?ys" by simp
    have "cnt - ?w < cnt - w" "?w \<noteq> 0" "length ?ys = cnt" using True less.prems(3,4) by auto
    then obtain b zs other' where rec: "sort_widths cmp mv cnt ?w (\<not> sb) (map Some ?ys) src' =
        (b, map Some zs, other')" "length other' = cnt" "stably_sorted cmp ?ys zs"
      using less.hyps [OF _ less.prems(1,2) _ _ pass(2) blocks] by blast
    have "stably_sorted cmp xs zs"
      using rec(3) merge_pass_filter [OF less.prems(1,6)] by (simp add: stably_sorted_def)
    moreover have "sort_widths cmp mv cnt w sb (map Some xs) other = (b, map Some zs, other')"
      using True less.prems(3) pass(1) rec(1) by (subst sort_widths.simps) simp
    ultimately show ?thesis using rec(2) by blast
  qed
qed

text \<open>From the filled scratch array to the result in the caller's array.\<close>

lemma sort_finish:
  assumes "comparator_ok cmp" and mv: "\<And>x. mv x = x" and "length base = length xs"
    and run: "sort_widths cmp mv (length xs) 1 False (map Some xs) base = (b, source, other)"
  shows "\<exists>ys. (if b then source else snd (snd (sort_drain mv (length xs) 0 0 source other))) = map Some ys \<and>
    stably_sorted cmp xs ys"
proof -
  obtain ys where ys: "source = map Some ys" "length other = length xs" "stably_sorted cmp xs ys"
    using sort_widths_sorts [OF assms(1) mv _ refl assms(3) sorted_blocks_one, of False] run by auto
  have len: "length ys = length xs" using ys(3) by (metis stably_sorted_def size_mset)
  then have "\<exists>src'. sort_drain mv (length xs) 0 0 source other = (length xs, src', map Some ys)"
    using sort_drain_moves [of "length xs" 0 source ys 0 other mv "length xs"] ys(1,2) mv by auto
  then show ?thesis using ys by auto
qed

text \<open>What the sort needs to go through: the traits, the alignment, room and memory for scratch.\<close>

definition sort_supplied :: "size_t \<Rightarrow> 'a cmeta_type_desc \<Rightarrow> size_t \<Rightarrow> size_t \<Rightarrow> env \<Rightarrow> bool" where
  "sort_supplied addr t n limit s \<longleftrightarrow>
     sequence_require_type (Some t) True = STL_OK \<and> addr mod td_align t = 0 \<and> copy_total (Some t) \<and>
     (\<exists>stride. sequence_stride (td_size t) (td_align t) (Some 0) = (STL_OK, Some stride) \<and>
        n * stride \<le> limit \<and> generous n stride (td_align t) s)"

abbreviation sort_traits :: u32 where
  "sort_traits \<equiv> CMETA_TRAIT_COMPARE OR CMETA_TRAIT_COPY OR CMETA_TRAIT_MOVE OR CMETA_TRAIT_DESTROY"

lemma sort_traits_type:
  "sequence_require_type (Some t) True = STL_OK \<longleftrightarrow>
     td_size t \<noteq> 0 \<and> sequence_alignment_valid (td_align t) \<and>
     cmeta_type_require_traits (Some t) sort_traits = CMETA_OK"
  by (simp add: sequence_require_type_def Let_def or.assoc or.commute or.left_commute)

lemma sort_callbacks:
  assumes "traits_lawful t" and "cmeta_type_require_traits (Some t) sort_traits = CMETA_OK"
  obtains traits cp mv where "td_traits t = Some traits" and "tr_copy_construct traits = Some cp"
    and "tr_move_construct traits = Some mv" and "\<And>x y. cp x = Some y \<Longrightarrow> y = x" and "\<And>x. mv x = x"
    and "(\<exists>x. cp x = None) \<Longrightarrow> \<not> copy_total (Some t)"
proof -
  have "sort_traits AND CMETA_TRAIT_COPY \<noteq> 0" "sort_traits AND CMETA_TRAIT_MOVE \<noteq> 0" "sort_traits \<noteq> 0"
    by (simp_all add: trait_flag_defs)
  then obtain traits where "td_traits t = Some traits" "tr_copy_construct traits \<noteq> NULL"
    "tr_move_construct traits \<noteq> NULL"
    using traits_present [OF assms(2)] by metis
  then show thesis using that assms(1) by (auto simp: traits_lawful_def copy_total_def)
qed

text \<open>The body of \<open>stable_sort\<close> once its scratch block is there.\<close>

lemma sort_run_cases:
  assumes "traits_lawful t" and "comparator_ok (the (tr_compare (the (td_traits t))))"
    and "cmeta_type_require_traits (Some t) sort_traits = CMETA_OK"
    and run: "(case sort_copy (the (tr_copy_construct (the (td_traits t)))) (length xs) 0
         (replicate (length xs) None) (map Some xs) of
       (ok, scratch1) \<Rightarrow>
         if \<not> ok then (STL_OUT_OF_MEMORY, Some (map Some xs), s')
         else case sort_widths (the (tr_compare (the (td_traits t)))) (the (tr_move_construct (the (td_traits t))))
             (length xs) 1 False scratch1 (sort_destroy_range 0 (length xs) (map Some xs)) of
           (source_is_base, source, other) \<Rightarrow>
             (STL_OK, Some (if source_is_base then source
                else snd (snd (sort_drain (the (tr_move_construct (the (td_traits t)))) (length xs) 0 0
                  source other))), s')) = (st, r, s1)"
  shows "s1 = s' \<and>
    ((st = STL_OK \<and> (\<exists>ys. r = Some (map Some ys) \<and>
        stably_sorted (the (tr_compare (the (td_traits t)))) xs ys)) \<or>
     (st = STL_OUT_OF_MEMORY \<and> r = Some (map Some xs) \<and> \<not> copy_total (Some t)))"
proof -
  obtain traits cp mv where t: "td_traits t = Some traits" "tr_copy_construct traits = Some cp"
    "tr_move_construct traits = Some mv" "\<And>x y. cp x = Some y \<Longrightarrow> y = x" "\<And>x. mv x = x"
    "(\<exists>x. cp x = None) \<Longrightarrow> \<not> copy_total (Some t)"
    using sort_callbacks [OF assms(1,3)] by metis
  obtain ok sc where copy: "sort_copy cp (length xs) 0 (replicate (length xs) None) (map Some xs) = (ok, sc)"
    by fastforce
  from sort_copy_cases [OF this refl _ _ t(4)]
  consider "ok" "sc = map Some xs" | "\<not> ok" "\<not> copy_total (Some t)"
    using t(6) by auto
  then show ?thesis
  proof cases
    case 1
    obtain b source other where w: "sort_widths (the (tr_compare traits)) mv (length xs) 1 False (map Some xs)
        (sort_destroy_range 0 (length xs) (map Some xs)) = (b, source, other)"
      by (metis prod_cases3)
    from sort_finish [OF assms(2) [unfolded t(1) option.sel] t(5) _ w] show ?thesis
      using run 1 copy w t(1-3) by auto
  next
    case 2
    then show ?thesis using run copy t(1-3) by auto
  qed
qed

lemma sorted_short: "length xs \<le> 1 \<Longrightarrow> stably_sorted cmp xs xs"
  by (cases xs) (auto simp: stably_sorted_def)

lemma deallocate_fresh: "sequence_deallocate (fresh_block n c) s = sequence_deallocate c s"
  by (cases c) (simp_all add: sequence_deallocate_def fresh_block_def)

lemma stable_sort_cases:
  assumes lawful: "traits_lawful t" and cmp: "comparator_ok (the (tr_compare (the (td_traits t))))"
    and bounds: "td_size t \<le> SIZE_MAX" "td_align t \<le> SIZE_MAX"
    and run: "stable_sort addr (Some (map Some xs)) (length xs) (Some t) limit s = (st, r, s')"
  shows "env_delta 0 s s' \<and>
    ((st = STL_OK \<and> (\<exists>ys. r = Some (map Some ys) \<and>
        stably_sorted (the (tr_compare (the (td_traits t)))) xs ys)) \<or>
     (st \<noteq> STL_OK \<and> r = Some (map Some xs) \<and> \<not> sort_supplied addr t (length xs) limit s))"
proof (cases "sequence_require_type (Some t) True = STL_OK \<and> addr mod td_align t = 0 \<and> 1 < length xs")
  case False
  then have "\<not> sequence_require_type (Some t) True = STL_OK \<or> addr mod td_align t \<noteq> 0 \<or> xs = [] \<or> length xs = 1"
    by (cases xs) auto
  then show ?thesis
    using run sorted_short [of xs] unfolding stable_sort_def sort_supplied_def sort_traits_type
    by (auto simp: Let_def split: if_splits)
next
  case True
  then have type: "td_size t \<noteq> 0" "sequence_alignment_valid (td_align t)"
    "cmeta_type_require_traits (Some t) sort_traits = CMETA_OK" "addr mod td_align t = 0" "1 < length xs"
    by (simp_all add: sort_traits_type)
  obtain st0 r0 where stride: "sequence_stride (td_size t) (td_align t) (Some 0) = (st0, r0)" by fastforce
  show ?thesis
  proof (cases "st0 = STL_OK \<and> the r0 \<le> SIZE_MAX div length xs \<and> length xs * the r0 \<le> limit")
    case False
    have "\<not> sort_supplied addr t (length xs) limit s"
    proof
      assume "sort_supplied addr t (length xs) limit s"
      then have "st0 = STL_OK" "length xs * the r0 \<le> limit" "length xs * the r0 \<le> SIZE_MAX"
        using stride type(5) by (auto simp: sort_supplied_def generous_def max_def split: if_splits)
      moreover have "0 < length xs" using type(5) by linarith
      ultimately show False using False less_eq_div_iff_mult_less_eq [of "length xs" "the r0" SIZE_MAX]
        by (simp add: mult.commute)
    qed
    then show ?thesis using run False type stride
      by (auto simp: stable_sort_def Let_def sequence_bytes_def split: if_splits)
  next
    case ok: True
    have nz: "the r0 \<noteq> 0" using stride_nonzero [OF _ bounds] stride ok by blast
    obtain st1 cell s1 where al: "sequence_allocate (length xs) (the r0) (td_align t) (Some NULL) s = (st1, cell, s1)"
      by (metis prod_cases3)
    have body: "(st, r, s') =
      (if st1 \<noteq> STL_OK then (st1, Some (map Some xs), s1)
       else case sort_copy (the (tr_copy_construct (the (td_traits t)))) (length xs) 0
           (block_slots (fresh_block (length xs) (the cell))) (map Some xs) of
         (ok, scratch1) \<Rightarrow>
           if \<not> ok then (STL_OUT_OF_MEMORY, Some (map Some xs), sequence_deallocate (the cell) s1)
           else case sort_widths (the (tr_compare (the (td_traits t)))) (the (tr_move_construct (the (td_traits t))))
               (length xs) 1 False scratch1 (sort_destroy_range 0 (length xs) (map Some xs)) of
             (source_is_base, source, other) \<Rightarrow>
               (STL_OK, Some (if source_is_base then source
                  else snd (snd (sort_drain (the (tr_move_construct (the (td_traits t)))) (length xs) 0 0
                    source other))), sequence_deallocate (the cell) s1))"
      unfolding run [symmetric] stable_sort_def Let_def option.sel deallocate_fresh
      using ok type stride al by (cases xs) (simp_all add: sequence_bytes_def)
    from allocate_cases [OF al type(2) _ nz] type(5)
    consider a where "st1 = STL_OK" "cell = Some (Some a)" "env_delta 1 s s1"
      | "st1 \<noteq> STL_OK" "env_delta 0 s s1" by fastforce
    then show ?thesis
    proof cases
      case 1
      then have "block_slots (fresh_block (length xs) (the cell)) = (replicate (length xs) None :: 'a option list)"
        by (simp add: fresh_block_def)
      note slots = this
      have "st1 \<noteq> STL_OK \<longleftrightarrow> False" using 1 by simp
      note runs = sort_run_cases [OF lawful cmp type(3) body [unfolded slots this if_False, symmetric]]
      then show ?thesis using 1(2,3) by (auto simp: sort_supplied_def)
    next
      case 2
      have "\<not> sort_supplied addr t (length xs) limit s"
        using allocate_generous [OF al _ _ type(2), of "length xs"] 2 stride
        by (auto simp: sort_supplied_def)
      then show ?thesis using body 2 by simp
    qed
  qed
qed

text \<open>C12: \<open>stable_sort\<close> sorts, or does nothing. When it returns \<open>STL_OK\<close> the caller's array
  holds its own elements in the comparator's order, and elements the comparator calls equal
  keep their relative order; on every failure (arguments, traits, layout overflow, the scratch
  byte limit, allocation, a copy that fails) the array is as it was. The scratch block is
  released on every path. With a complete trait table, an aligned array, room in the limit, an
  allocator that delivers and copies that succeed, it does return \<open>STL_OK\<close>.\<close>

theorem stable_sort_correct:
  assumes "traits_lawful t" and "comparator_ok (the (tr_compare (the (td_traits t))))"
    and "td_size t \<le> SIZE_MAX" and "td_align t \<le> SIZE_MAX"
    and "stable_sort addr (Some (map Some xs)) (length xs) (Some t) limit s = (st, r, s')"
  shows "(st = STL_OK \<longrightarrow> (\<exists>ys. r = Some (map Some ys) \<and>
            stably_sorted (the (tr_compare (the (td_traits t)))) xs ys)) \<and>
         (st \<noteq> STL_OK \<longrightarrow> r = Some (map Some xs)) \<and>
         live_blocks s' = live_blocks s \<and>
         (sort_supplied addr t (length xs) limit s \<longrightarrow> st = STL_OK)"
  using stable_sort_cases [OF assms] by (auto simp: env_delta_def)

text \<open>Three numbers compared by their last digit.\<close>

definition digit_traits :: "nat cmeta_type_traits" where
  "digit_traits = nat_traits\<lparr>tr_compare := Some (\<lambda>x y. int (x mod 10) - int (y mod 10))\<rparr>"

definition digit_desc :: "nat cmeta_type_desc" where
  "digit_desc = nat_desc\<lparr>td_traits := Some digit_traits\<rparr>"

theorem stable_sort_correct_witness:
  "\<exists>r s' ys. stable_sort 64 (Some (map Some [12, 31, 2])) 3 (Some digit_desc) 4096 ample_env = (STL_OK, r, s') \<and>
     r = Some (map Some ys) \<and> stably_sorted (\<lambda>x y. int (x mod 10) - int (y mod 10)) [12, 31, 2] ys"
proof -
  obtain st r s' where run: "stable_sort 64 (Some (map Some [12, 31, 2])) (length [12, 31, 2 :: nat])
      (Some digit_desc) 4096 ample_env = (st, r, s')"
    by (metis prod_cases3)
  have "traits_lawful digit_desc" "comparator_ok (the (tr_compare (the (td_traits digit_desc))))"
    "td_size digit_desc \<le> SIZE_MAX" "td_align digit_desc \<le> SIZE_MAX"
    by (auto simp: traits_lawful_def comparator_ok_def digit_desc_def digit_traits_def nat_desc_def
        nat_traits_def SIZE_MAX_def)
  note correct = stable_sort_correct [OF this run]
  have "sequence_stride (td_size digit_desc) (td_align digit_desc) (Some 0) = (STL_OK, Some 4)"
    using size_and_not_align [of 4 7]
    by (simp add: sequence_stride_def digit_desc_def nat_desc_def SIZE_MAX_def sequence_alignment_valid_def)
  moreover have "sequence_require_type (Some digit_desc) True = STL_OK"
    by (simp add: sequence_require_type_def digit_desc_def digit_traits_def nat_desc_def nat_traits_def
        sequence_alignment_valid_def cmeta_type_require_traits_def trait_flag_defs)
  ultimately have "sort_supplied 64 digit_desc (length [12, 31, 2 :: nat]) 4096 ample_env"
    by (simp add: sort_supplied_def generous_def ample_env_def digit_desc_def digit_traits_def nat_desc_def
        nat_traits_def copy_total_def sizeof_pointer_def SIZE_MAX_def)
  then obtain ys where "st = STL_OK" "r = Some (map Some ys)"
    "stably_sorted (the (tr_compare (the (td_traits digit_desc)))) [12, 31, 2] ys"
    using correct by blast
  then show ?thesis using run
    by (intro exI [of _ r] exI [of _ s'] exI [of _ ys])
      (simp add: digit_desc_def digit_traits_def numeral_3_eq_3)
qed

end
