(* ===== verification/Open_Addressing.thy ===== *)
theory Open_Addressing
  imports Salts_Prelude
begin

text \<open>
  Open addressing with linear probing and tombstones, as mathematics: a table is a list of
  cells, a key's probe path starts at its hash and goes round the table once. The locale
  \<open>hash_key\<close> names what the user's equality and hash promise each other; in it, the
  search and the choice of a slot are proved correct against a partial map, and rebuilding a
  table is shown to keep that map. The hash map's arrays are read as such a table in
  \<^verbatim>\<open>Cstl_Hash_Map\<close>.
\<close>

datatype ('k, 'v) cell = Free | Grave | Taken size_t 'k 'v

definition probe_slot :: "nat \<Rightarrow> size_t \<Rightarrow> nat \<Rightarrow> nat" where
  "probe_slot n h p = (h + p) mod n"

fun is_taken :: "('k, 'v) cell \<Rightarrow> bool" where
  "is_taken (Taken h k v) = True"
| "is_taken _ = False"

fun matches :: "('k \<Rightarrow> 'k \<Rightarrow> bool) \<Rightarrow> size_t \<Rightarrow> 'k \<Rightarrow> ('k, 'v) cell \<Rightarrow> bool" where
  "matches eq h k (Taken h' k' v) \<longleftrightarrow> h' = h \<and> eq k' k"
| "matches eq h k _ \<longleftrightarrow> False"

text \<open>The search, \<open>fuel\<close> probes long, from probe \<open>p\<close>.\<close>

fun find_from ::
  "('k \<Rightarrow> 'k \<Rightarrow> bool) \<Rightarrow> ('k, 'v) cell list \<Rightarrow> size_t \<Rightarrow> 'k \<Rightarrow> nat \<Rightarrow> nat \<Rightarrow> nat option" where
  "find_from eq T h k p 0 = None"
| "find_from eq T h k p (Suc fuel) =
     (let i = probe_slot (length T) h p in
      if T ! i = Free then None
      else if matches eq h k (T ! i) then Some i
      else find_from eq T h k (Suc p) fuel)"

text \<open>The choice of a slot: the first grave met before the first free cell, or that cell.\<close>

fun place_from :: "('k, 'v) cell list \<Rightarrow> size_t \<Rightarrow> nat option \<Rightarrow> nat \<Rightarrow> nat \<Rightarrow> nat option" where
  "place_from T h grave p 0 = grave"
| "place_from T h grave p (Suc fuel) =
     (let i = probe_slot (length T) h p in
      case T ! i of
        Grave \<Rightarrow> place_from T h (if grave = None then Some i else grave) (Suc p) fuel
      | Free \<Rightarrow> (if grave = None then Some i else grave)
      | Taken _ _ _ \<Rightarrow> place_from T h grave (Suc p) fuel)"

lemma probe_slot_less [simp]: "0 < n \<Longrightarrow> probe_slot n h p < n"
  by (simp add: probe_slot_def)

lemma probe_slot_inj: "probe_slot n h p = probe_slot n h q \<Longrightarrow> p < n \<Longrightarrow> q < n \<Longrightarrow> p = q"
proof -
  have "p = q" if "(h + p) mod n = (h + q) mod n" "p < n" "q < n" "p \<le> q" for p q
  proof -
    have "n dvd (h + q) - (h + p)" using that(1,4) mod_eq_dvd_iff_nat [of "h + p" "h + q" n] by simp
    then have "n dvd q - p" by simp
    then show "p = q" using that(3,4) nat_dvd_not_less [of "q - p" n] by (cases "q = p") auto
  qed
  then show "probe_slot n h p = probe_slot n h q \<Longrightarrow> p < n \<Longrightarrow> q < n \<Longrightarrow> p = q"
    by (metis nle_le probe_slot_def)
qed

lemma probe_slot_surj: "i < n \<Longrightarrow> \<exists>p<n. probe_slot n h p = i"
proof -
  assume i: "i < n"
  have "inj_on (probe_slot n h) {..<n}" by (auto intro: inj_onI probe_slot_inj)
  moreover have "probe_slot n h ` {..<n} \<subseteq> {..<n}" using i by auto
  ultimately have "probe_slot n h ` {..<n} = {..<n}"
    by (simp add: card_image card_subset_eq)
  then show ?thesis using i by (metis imageE lessThan_iff)
qed

text \<open>Slot \<open>i\<close> lies on the path of \<open>h\<close> with no free cell before it.\<close>

definition on_path :: "('k, 'v) cell list \<Rightarrow> size_t \<Rightarrow> nat \<Rightarrow> bool" where
  "on_path T h i \<longleftrightarrow> (\<exists>p<length T. probe_slot (length T) h p = i \<and>
     (\<forall>q<p. T ! probe_slot (length T) h q \<noteq> Free))"

lemma on_path_update:
  assumes "on_path T h i" and "c \<noteq> Free"
  shows "on_path (T[j := c]) h i"
proof -
  have "T[j := c] ! m \<noteq> Free" if "T ! m \<noteq> Free" for m
    using that assms(2) by (cases "m = j"; cases "j < length T") (auto simp: list_update_beyond)
  then show ?thesis using assms(1) unfolding on_path_def by (metis length_list_update)
qed

lemma find_from_Some:
  "find_from eq T h k p fuel = Some i \<Longrightarrow> T \<noteq> [] \<Longrightarrow> i < length T \<and> matches eq h k (T ! i)"
  by (induction eq T h k p fuel rule: find_from.induct) (auto simp: Let_def split: if_splits)

lemma find_from_hit:
  assumes "probe_slot (length T) h (p + d) = i" and "d < fuel" and "matches eq h k (T ! i)"
    and "\<And>q. q < d \<Longrightarrow> T ! probe_slot (length T) h (p + q) \<noteq> Free \<and>
           \<not> matches eq h k (T ! probe_slot (length T) h (p + q))"
  shows "find_from eq T h k p fuel = Some i"
  using assms
proof (induction fuel arbitrary: p d)
  case (Suc fuel)
  show ?case
  proof (cases d)
    case 0
    have "T ! i \<noteq> Free" using Suc.prems(3) by auto
    then show ?thesis using 0 Suc.prems(1,3) by (simp add: Let_def)
  next
    case (Suc e)
    have "find_from eq T h k (Suc p) fuel = Some i"
    proof (rule Suc.IH [of "Suc p" e])
      fix q
      assume "q < e"
      then show "T ! probe_slot (length T) h (Suc p + q) \<noteq> Free \<and>
          \<not> matches eq h k (T ! probe_slot (length T) h (Suc p + q))"
        using Suc.prems(4) [of "Suc q"] Suc by simp
    qed (use Suc.prems Suc in simp_all)
    then show ?thesis using Suc.prems(4) [of 0] Suc by (simp add: Let_def)
  qed
qed simp

lemma place_from_good:
  assumes "place_from T h grave p fuel = r" and "p + fuel = length T"
    and "\<And>q. q < p \<Longrightarrow> T ! probe_slot (length T) h q \<noteq> Free"
    and "\<And>i. grave = Some i \<Longrightarrow> T ! i = Grave \<and> i < length T \<and> on_path T h i"
    and "grave = None \<Longrightarrow> (\<And>q. q < p \<Longrightarrow> T ! probe_slot (length T) h q \<noteq> Grave)"
  shows "(\<exists>i. r = Some i \<and> i < length T \<and> \<not> is_taken (T ! i) \<and> on_path T h i) \<or>
         (r = None \<and> (\<forall>q<length T. is_taken (T ! probe_slot (length T) h q)))"
  using assms
proof (induction fuel arbitrary: p grave)
  case 0
  have "is_taken (T ! probe_slot (length T) h q)" if "grave = None" "q < length T" for q
    using that 0 by (cases "T ! probe_slot (length T) h q") auto
  then show ?case using 0 by (cases grave) auto
next
  case (Suc fuel)
  let ?i = "probe_slot (length T) h p"
  have p: "p < length T" using Suc.prems(2) by linarith
  then have i: "?i < length T" by (intro probe_slot_less) linarith
  have path: "on_path T h ?i" using p Suc.prems(3) by (auto simp: on_path_def)
  show ?case
  proof (cases "T ! ?i")
    case Free
    then show ?thesis using Suc.prems(1,4) i path by (cases grave) (auto simp: Let_def)
  next
    case Grave
    show ?thesis
    proof (rule Suc.IH [of "if grave = None then Some ?i else grave" "Suc p"])
      show "T ! probe_slot (length T) h q \<noteq> Free" if "q < Suc p" for q
        using that Suc.prems(3) [of q] Grave by (cases "q = p") auto
      show "T ! j = Grave \<and> j < length T \<and> on_path T h j"
        if "(if grave = None then Some ?i else grave) = Some j" for j
        using that Suc.prems(4) Grave i path by (auto split: if_splits)
    qed (use Suc.prems Grave in \<open>auto simp: Let_def split: if_splits\<close>)
  next
    case (Taken h' k' v)
    show ?thesis
    proof (rule Suc.IH [of grave "Suc p"])
      show "T ! probe_slot (length T) h q \<noteq> Free" if "q < Suc p" for q
        using that Suc.prems(3) [of q] Taken by (cases "q = p") auto
      show "T ! probe_slot (length T) h q \<noteq> Grave" if "grave = None" "q < Suc p" for q
        using that Suc.prems(5) [of q] Taken by (cases "q = p") auto
    qed (use Suc.prems Taken in \<open>auto simp: Let_def\<close>)
  qed
qed

text \<open>Some cell not taken is always found.\<close>

lemma place_from_total:
  assumes "j < length T" and "\<not> is_taken (T ! j)"
  shows "\<exists>i. place_from T h None 0 (length T) = Some i \<and> i < length T \<and> \<not> is_taken (T ! i) \<and> on_path T h i"
  using place_from_good [of T h None 0 "length T", OF refl] probe_slot_surj [OF assms(1), of h] assms(2)
  by auto

section \<open>The table as a partial map\<close>

fun cell_entry :: "('k, 'v) cell \<Rightarrow> ('k \<times> 'v) option" where
  "cell_entry (Taken h k v) = Some (k, v)"
| "cell_entry _ = None"

definition table_map :: "('k \<Rightarrow> 'k \<Rightarrow> bool) \<Rightarrow> ('k, 'v) cell list \<Rightarrow> 'k \<Rightarrow> 'v option" where
  "table_map eq T k = map_option snd (List.find (\<lambda>(k', v). eq k' k) (List.map_filter cell_entry T))"

definition taken_count :: "('k, 'v) cell list \<Rightarrow> nat" where
  "taken_count T = length (filter is_taken T)"

definition grave_count :: "('k, 'v) cell list \<Rightarrow> nat" where
  "grave_count T = length (filter ((=) Grave) T)"

definition table_ok ::
  "('k \<Rightarrow> 'k \<Rightarrow> bool) \<Rightarrow> ('k \<Rightarrow> size_t) \<Rightarrow> ('k, 'v) cell list \<Rightarrow> bool" where
  "table_ok eq hash T \<longleftrightarrow>
     (\<forall>i<length T. \<forall>h k v. T ! i = Taken h k v \<longrightarrow> h = hash k \<and> on_path T h i) \<and>
     (\<forall>i<length T. \<forall>j<length T. \<forall>h k v h' k' v'. T ! i = Taken h k v \<longrightarrow> T ! j = Taken h' k' v' \<longrightarrow>
        eq k k' \<longrightarrow> i = j)"

lemma table_okD:
  assumes "table_ok eq hash T" and "i < length T" and "T ! i = Taken h k v"
  shows "h = hash k" and "on_path T h i"
    and "j < length T \<Longrightarrow> T ! j = Taken h' k' v' \<Longrightarrow> eq k k' \<Longrightarrow> i = j"
  using assms unfolding table_ok_def by blast+

lemma filter_length_update:
  "i < length T \<Longrightarrow> length (filter P (T[i := c])) + (if P (T ! i) then 1 else 0) =
     length (filter P T) + (if P c then 1 else 0)"
proof (induction T arbitrary: i)
  case (Cons a T)
  show ?case
  proof (cases i)
    case (Suc j)
    then show ?thesis using Cons.IH [of j] Cons.prems by (auto split: if_splits)
  qed auto
qed simp

lemma taken_count_update:
  "i < length T \<Longrightarrow> taken_count (T[i := c]) + (if is_taken (T ! i) then 1 else 0) =
     taken_count T + (if is_taken c then 1 else 0)"
  unfolding taken_count_def by (rule filter_length_update)

lemma grave_count_update:
  "i < length T \<Longrightarrow> grave_count (T[i := c]) + (if T ! i = Grave then 1 else 0) =
     grave_count T + (if c = Grave then 1 else 0)"
  using filter_length_update [of i T "(=) Grave" c] by (simp add: grave_count_def eq_commute)

lemma not_all_taken: "taken_count T < length T \<Longrightarrow> \<exists>j<length T. \<not> is_taken (T ! j)"
  unfolding taken_count_def by (metis filter_True in_set_conv_nth nat_neq_iff)

lemma find_map_filter_Some:
  "List.find P (List.map_filter f T) = Some x \<Longrightarrow> P x \<and> (\<exists>i<length T. f (T ! i) = Some x)"
proof (induction T)
  case (Cons c T)
  then show ?case
    by (cases "f c") (auto simp: List.map_filter_simps split: if_splits intro: exI [of _ 0])
qed (simp add: List.map_filter_simps)

lemma find_map_filter_None:
  "List.find P (List.map_filter f T) = None \<Longrightarrow> i < length T \<Longrightarrow> f (T ! i) = Some x \<Longrightarrow> \<not> P x"
  by (auto simp: find_None_iff List.map_filter_def) (metis imageI mem_Collect_eq nth_mem option.sel option.simps(3))

lemma cell_entry_Some: "cell_entry c = Some (k, v) \<longleftrightarrow> (\<exists>h. c = Taken h k v)"
  by (cases c) auto

lemma option_eqI: "(\<And>u. x = Some u \<longleftrightarrow> y = Some u) \<Longrightarrow> x = y"
  by (metis not_None_eq)

locale hash_key =
  fixes eq :: "'k \<Rightarrow> 'k \<Rightarrow> bool" and hash :: "'k \<Rightarrow> size_t"
  assumes eq_refl: "eq k k"
    and eq_sym: "eq k k' \<Longrightarrow> eq k' k"
    and eq_trans: "eq k k' \<Longrightarrow> eq k' k'' \<Longrightarrow> eq k k''"
    and hash_eq: "eq k k' \<Longrightarrow> hash k = hash k'"
begin

lemma table_map_iff:
  assumes "table_ok eq hash T"
  shows "table_map eq T k = Some v \<longleftrightarrow> (\<exists>i<length T. \<exists>h k'. T ! i = Taken h k' v \<and> eq k' k)"
proof
  assume "table_map eq T k = Some v"
  then obtain k' where "List.find (\<lambda>(k', v). eq k' k) (List.map_filter cell_entry T) = Some (k', v)"
    by (auto simp: table_map_def)
  from find_map_filter_Some [OF this] show "\<exists>i<length T. \<exists>h k'. T ! i = Taken h k' v \<and> eq k' k"
    by (auto simp: cell_entry_Some)
next
  assume "\<exists>i<length T. \<exists>h k'. T ! i = Taken h k' v \<and> eq k' k"
  then obtain i h k' where i: "i < length T" "T ! i = Taken h k' v" "eq k' k" by blast
  show "table_map eq T k = Some v"
  proof (cases "List.find (\<lambda>(k', v). eq k' k) (List.map_filter cell_entry T)")
    case None
    then show ?thesis using find_map_filter_None [OF None i(1), of "(k', v)"] i by simp
  next
    case (Some x)
    then obtain j h'' where j: "j < length T" "T ! j = Taken h'' (fst x) (snd x)" "eq (fst x) k"
      using find_map_filter_Some [OF Some] by (cases x) (auto simp: cell_entry_Some)
    then have "eq k' (fst x)" using i(3) eq_sym eq_trans by blast
    then have "i = j" using table_okD(3) [OF assms i(1,2) j(1,2)] by blast
    then show ?thesis using Some i j by (simp add: table_map_def)
  qed
qed

lemma table_map_None:
  assumes "table_ok eq hash T"
  shows "table_map eq T k = None \<longleftrightarrow> (\<forall>i<length T. \<forall>h k' v. T ! i = Taken h k' v \<longrightarrow> \<not> eq k' k)"
  using table_map_iff [OF assms, of k] by (metis not_None_eq)

lemma table_map_cong:
  assumes "table_ok eq hash T" and "eq k k'"
  shows "table_map eq T k = table_map eq T k'"
proof (rule option_eqI)
  have "eq k2 k \<longleftrightarrow> eq k2 k'" for k2 using assms(2) eq_sym eq_trans by blast
  then show "table_map eq T k = Some u \<longleftrightarrow> table_map eq T k' = Some u" for u
    unfolding table_map_iff [OF assms(1)] by simp
qed

lemma find_correct:
  assumes ok: "table_ok eq hash T"
  shows "(\<exists>i h k' v. find_from eq T (hash k) k 0 (length T) = Some i \<and> i < length T \<and>
            T ! i = Taken h k' v \<and> eq k' k \<and> table_map eq T k = Some v) \<or>
         (find_from eq T (hash k) k 0 (length T) = None \<and> table_map eq T k = None)"
proof (cases "table_map eq T k")
  case None
  then have none: "\<forall>i<length T. \<forall>h k' v. T ! i = Taken h k' v \<longrightarrow> \<not> eq k' k"
    using table_map_None [OF ok] by blast
  have "find_from eq T (hash k) k 0 (length T) = None"
  proof (rule ccontr)
    assume "find_from eq T (hash k) k 0 (length T) \<noteq> None"
    then obtain i where i: "find_from eq T (hash k) k 0 (length T) = Some i" by blast
    then have "T \<noteq> []" by auto
    then have "i < length T" "matches eq (hash k) k (T ! i)" using find_from_Some [OF i] by simp_all
    then show False using none by (cases "T ! i") auto
  qed
  then show ?thesis using None by blast
next
  case (Some v)
  then obtain i h k' where i: "i < length T" "T ! i = Taken h k' v" "eq k' k"
    using table_map_iff [OF ok] by blast
  then have h: "h = hash k" using table_okD(1) [OF ok] hash_eq by metis
  obtain p where p: "p < length T" "probe_slot (length T) h p = i"
    "\<forall>q<p. T ! probe_slot (length T) h q \<noteq> Free"
    using table_okD(2) [OF ok i(1,2)] by (auto simp: on_path_def)
  have "\<not> matches eq h k (T ! probe_slot (length T) h q)" if "q < p" for q
  proof
    assume "matches eq h k (T ! probe_slot (length T) h q)"
    then obtain k'' v'' where c: "T ! probe_slot (length T) h q = Taken h k'' v''" "eq k'' k"
      by (cases "T ! probe_slot (length T) h q") auto
    have "probe_slot (length T) h q < length T" using p(1) by (intro probe_slot_less) linarith
    from table_okD(3) [OF ok i(1,2) this c(1)] have "probe_slot (length T) h p = probe_slot (length T) h q"
      using i(3) c(2) p(2) eq_sym eq_trans by blast
    then show False using probe_slot_inj [of "length T" h p q] p(1) that by simp
  qed
  then have "find_from eq T h k 0 (length T) = Some i"
    using find_from_hit [of T h 0 p i "length T" eq k] p i h by auto
  then show ?thesis using i h Some by blast
qed

text \<open>What the four kinds of change do to the table and its map.\<close>

lemma insert_correct:
  assumes ok: "table_ok eq hash T" and none: "table_map eq T k = None"
    and i: "i < length T" "\<not> is_taken (T ! i)" "on_path T (hash k) i"
  shows "table_ok eq hash (T[i := Taken (hash k) k v])"
    and "table_map eq (T[i := Taken (hash k) k v]) = (\<lambda>k'. if eq k k' then Some v else table_map eq T k')"
proof -
  let ?T = "T[i := Taken (hash k) k v]"
  have fresh: "\<not> eq k' k" "\<not> eq k k'" if "j < length T" "T ! j = Taken h k' v'" for j h k' v'
    using none table_map_None [OF ok] that eq_sym by blast+
  have at: "?T ! j = (if j = i then Taken (hash k) k v else T ! j)" for j using i(1) by auto
  show okT: "table_ok eq hash ?T"
    unfolding table_ok_def length_list_update
  proof (intro conjI allI impI)
    fix j h k' v'
    assume "j < length T" "?T ! j = Taken h k' v'"
    then show "h = hash k'" "on_path ?T h j"
      using table_okD(1,2) [OF ok] i(3) by (auto simp: at split: if_splits intro!: on_path_update)
  next
    fix j j' h k' v' h' k'' v''
    assume "j < length T" "j' < length T" "?T ! j = Taken h k' v'" "?T ! j' = Taken h' k'' v''" "eq k' k''"
    then show "j = j'"
      using fresh table_okD(3) [OF ok] by (auto simp: at split: if_splits)
  qed
  show "table_map eq ?T = (\<lambda>k'. if eq k k' then Some v else table_map eq T k')"
  proof
    fix k'
    have "table_map eq ?T k' = Some u \<longleftrightarrow> (if eq k k' then Some v else table_map eq T k') = Some u" for u
      using i(1,2) fresh table_map_iff [OF okT] table_map_iff [OF ok]
      by (auto simp: at) (metis eq_sym eq_trans is_taken.simps(1))+
    then show "table_map eq ?T k' = (if eq k k' then Some v else table_map eq T k')"
      by (rule option_eqI)
  qed
qed

lemma update_correct:
  assumes ok: "table_ok eq hash T" and i: "i < length T" "T ! i = Taken h k0 w" "eq k0 k"
  shows "table_ok eq hash (T[i := Taken h k0 v])"
    and "table_map eq (T[i := Taken h k0 v]) = (\<lambda>k'. if eq k k' then Some v else table_map eq T k')"
proof -
  let ?T = "T[i := Taken h k0 v]"
  have at: "?T ! j = (if j = i then Taken h k0 v else T ! j)" for j using i(1) by auto
  show okT: "table_ok eq hash ?T"
    unfolding table_ok_def length_list_update
  proof (intro conjI allI impI)
    fix j h' k' v'
    assume "j < length T" "?T ! j = Taken h' k' v'"
    then show "h' = hash k'" "on_path ?T h' j"
      using table_okD(1,2) [OF ok] i by (auto simp: at split: if_splits intro!: on_path_update)
  next
    fix j j' h1 k1 v1 h2 k2 v2
    assume "j < length T" "j' < length T" "?T ! j = Taken h1 k1 v1" "?T ! j' = Taken h2 k2 v2" "eq k1 k2"
    then show "j = j'" using table_okD(3) [OF ok] i(1,2) by (auto simp: at split: if_splits)
  qed
  show "table_map eq ?T = (\<lambda>k'. if eq k k' then Some v else table_map eq T k')"
  proof
    fix k'
    have "table_map eq ?T k' = Some u \<longleftrightarrow> (if eq k k' then Some v else table_map eq T k') = Some u" for u
    proof (cases "eq k k'")
      case True
      then have "eq k0 k'" using i(3) eq_trans by blast
      then have "table_map eq ?T k' = Some v"
        using table_map_iff [OF okT, of k' v] i(1) by (auto simp: at)
      then show ?thesis using True by auto
    next
      case False
      then have "\<not> eq k0 k'" using i(3) eq_sym eq_trans by blast
      then have "table_map eq ?T k' = Some u \<longleftrightarrow> table_map eq T k' = Some u"
        unfolding table_map_iff [OF okT] table_map_iff [OF ok] length_list_update
        using i(1,2) by (auto simp: at) (metis cell.inject)
      then show ?thesis using False by simp
    qed
    then show "table_map eq ?T k' = (if eq k k' then Some v else table_map eq T k')" by (rule option_eqI)
  qed
qed

lemma remove_correct:
  assumes ok: "table_ok eq hash T" and i: "i < length T" "T ! i = Taken h k0 w" "eq k0 k"
  shows "table_ok eq hash (T[i := Grave])"
    and "table_map eq (T[i := Grave]) = (\<lambda>k'. if eq k k' then None else table_map eq T k')"
proof -
  let ?T = "T[i := Grave]"
  have at: "?T ! j = (if j = i then Grave else T ! j)" for j using i(1) by auto
  show okT: "table_ok eq hash ?T"
    unfolding table_ok_def length_list_update
  proof (intro conjI allI impI)
    fix j h' k' v'
    assume "j < length T" "?T ! j = Taken h' k' v'"
    then show "h' = hash k'" "on_path ?T h' j"
      using table_okD(1,2) [OF ok] by (auto simp: at split: if_splits intro!: on_path_update)
  next
    fix j j' h1 k1 v1 h2 k2 v2
    assume "j < length T" "j' < length T" "?T ! j = Taken h1 k1 v1" "?T ! j' = Taken h2 k2 v2" "eq k1 k2"
    then show "j = j'" using table_okD(3) [OF ok] by (auto simp: at split: if_splits)
  qed
  show "table_map eq ?T = (\<lambda>k'. if eq k k' then None else table_map eq T k')"
  proof
    fix k'
    have "j = i" if "j < length T" "T ! j = Taken h' k2 u" "eq k2 k'" "eq k k'" for j h' k2 u
      using table_okD(3) [OF ok i(1,2) that(1,2)] that(3,4) i(3) eq_sym eq_trans by blast
    moreover have "eq k k'" if "eq k0 k'" using that i(3) eq_sym eq_trans by blast
    ultimately have "table_map eq ?T k' = Some u \<longleftrightarrow> (if eq k k' then None else table_map eq T k') = Some u" for u
      using table_map_iff [OF okT, of k' u] table_map_iff [OF ok, of k' u] i(1,2)
      by (auto simp: at split: if_splits) (metis cell.inject)
    then show "table_map eq ?T k' = (if eq k k' then None else table_map eq T k')" by (rule option_eqI)
  qed
qed

end

section \<open>Rebuilding\<close>

fun rebuild :: "('k, 'v) cell list \<Rightarrow> ('k, 'v) cell list \<Rightarrow> ('k, 'v) cell list" where
  "rebuild [] N = N"
| "rebuild (Taken h k v # cs) N = rebuild cs (N[the (place_from N h None 0 (length N)) := Taken h k v])"
| "rebuild (_ # cs) N = rebuild cs N"

lemma table_map_Cons:
  "table_map eq (c # cs) k =
     (case c of Taken h k' v \<Rightarrow> if eq k' k then Some v else table_map eq cs k | _ \<Rightarrow> table_map eq cs k)"
  by (cases c) (auto simp: table_map_def List.map_filter_simps)

lemma table_map_Nil [simp]: "table_map eq [] k = None"
  by (simp add: table_map_def List.map_filter_simps)

lemma length_rebuild [simp]: "length (rebuild cs N) = length N"
  by (induction cs N rule: rebuild.induct) auto

lemma taken_count_Cons [simp]: "taken_count (c # cs) = (if is_taken c then 1 else 0) + taken_count cs"
  by (simp add: taken_count_def)

lemma taken_count_Nil [simp]: "taken_count [] = 0"
  by (simp add: taken_count_def)

context hash_key
begin

lemma rebuild_correct:
  assumes "table_ok eq hash N" and "taken_count N + taken_count cs \<le> length N" and "grave_count N = 0"
    and "\<And>h k v. Taken h k v \<in> set cs \<Longrightarrow> h = hash k \<and> table_map eq N k = None"
    and "sorted_wrt (\<lambda>c d. \<forall>h k v h' k' v'. c = Taken h k v \<longrightarrow> d = Taken h' k' v' \<longrightarrow> \<not> eq k k') cs"
  shows "table_ok eq hash (rebuild cs N) \<and> taken_count (rebuild cs N) = taken_count N + taken_count cs \<and>
    grave_count (rebuild cs N) = 0 \<and>
    table_map eq (rebuild cs N) = (\<lambda>k. case table_map eq N k of Some v \<Rightarrow> Some v | None \<Rightarrow> table_map eq cs k)"
  using assms
proof (induction cs N rule: rebuild.induct)
  case (1 N)
  show ?case using 1 by (auto simp: fun_eq_iff split: option.split)
next
  case (2 h k v cs N)
  have hk: "h = hash k" "table_map eq N k = None" using 2(5) by auto
  have "taken_count N < length N" using 2(3) by simp
  then obtain i where i: "place_from N h None 0 (length N) = Some i" "i < length N" "\<not> is_taken (N ! i)"
    "on_path N h i"
    using not_all_taken place_from_total by metis
  let ?N = "N[i := Taken h k v]"
  have N: "table_ok eq hash ?N"
    "table_map eq ?N = (\<lambda>k'. if eq k k' then Some v else table_map eq N k')"
    using insert_correct [OF 2(2) hk(2) i(2,3)] i(4) hk(1) by auto
  have cnt: "taken_count ?N = Suc (taken_count N)" "grave_count ?N = 0"
    using taken_count_update [OF i(2), of "Taken h k v"] grave_count_update [OF i(2), of "Taken h k v"] i(3) 2(4)
    by auto
  have fresh: "\<not> eq k k'" if "Taken h' k' v' \<in> set cs" for h' k' v' using that 2(6) by auto
  have IH: "table_ok eq hash (rebuild cs ?N) \<and> taken_count (rebuild cs ?N) = taken_count ?N + taken_count cs \<and>
    grave_count (rebuild cs ?N) = 0 \<and>
    table_map eq (rebuild cs ?N) = (\<lambda>k. case table_map eq ?N k of Some v \<Rightarrow> Some v | None \<Rightarrow> table_map eq cs k)"
  proof (rule 2(1) [unfolded i(1) option.sel, OF N(1) _ cnt(2)])
    show "h' = hash k' \<and> table_map eq ?N k' = None" if "Taken h' k' v' \<in> set cs" for h' k' v'
      using that 2(5) fresh by (auto simp: N(2))
  qed (use 2(3,6) cnt in simp_all)
  then show ?case
    using cnt i(1) hk(2) table_map_cong [OF 2(2), of k]
    by (auto simp: N(2) table_map_Cons fun_eq_iff split: option.split)
qed (auto simp: table_map_Cons fun_eq_iff split: option.split)

text \<open>A table moved into a larger empty one keeps its map and loses its graves.\<close>

lemma rehash_correct:
  fixes T :: "('k, 'v) cell list"
  assumes ok: "table_ok eq hash T" and room: "taken_count T \<le> n"
  shows "table_ok eq hash (rebuild T (replicate n Free))"
    and "table_map eq (rebuild T (replicate n Free)) = table_map eq T"
    and "taken_count (rebuild T (replicate n Free)) = taken_count T"
    and "grave_count (rebuild T (replicate n Free)) = 0"
proof -
  let ?N = "replicate n Free :: ('k, 'v) cell list"
  have N: "table_ok eq hash ?N" "taken_count ?N = 0" "grave_count ?N = 0"
    by (auto simp: table_ok_def taken_count_def grave_count_def)
  have none: "table_map eq ?N k = None" for k using table_map_None [OF N(1), of k] by simp
  have cells: "h = hash k" if "Taken h k v \<in> set T" for h k v
    using that table_okD(1) [OF ok] by (metis in_set_conv_nth)
  have "sorted_wrt (\<lambda>c d. \<forall>h k v h' k' v'. c = Taken h k v \<longrightarrow> d = Taken h' k' v' \<longrightarrow> \<not> eq k k') T"
    unfolding sorted_wrt_iff_nth_less
    using table_okD(3) [OF ok] by (metis order_less_imp_not_eq order_less_trans)
  from rebuild_correct [OF N(1) _ N(3) _ this] room N(2) none cells
  show "table_ok eq hash (rebuild T ?N)" "table_map eq (rebuild T ?N) = table_map eq T"
    "taken_count (rebuild T ?N) = taken_count T" "grave_count (rebuild T ?N) = 0"
    by simp_all
qed

end

end
