(* ===== verification/Cstl_Hash_Map.thy ===== *)
theory Cstl_Hash_Map
  imports Cstl_Storage Open_Addressing
begin

text \<open>
  The hash map (\<^verbatim>\<open>src/cstl/src/hash_map.c\<close>, \<^verbatim>\<open>cstl/hash_map.h\<close>): open addressing with
  linear probing over a power-of-two number of buckets, tombstones on removal, growth at a
  load of seven tenths. The block holds four arrays; \<open>states\<close> is its address (NULL when
  there is no block), the other three are the lists that start at their offsets.

  A key or value handed in is a pointer to a live value. \<open>hash\<close> and \<open>equal\<close> of a raw
  map are the user's functions with their context applied.
\<close>

record ('k, 'v) hash_map =
  hm_descriptor :: "nat ptr"
  hm_states :: "u8 list ptr"
  hm_hashes :: "size_t list"
  hm_keys :: "'k option list"
  hm_values :: "'v option list"
  hm_size :: size_t
  hm_capacity :: size_t
  hm_tombstones :: size_t
  hm_key_size :: size_t
  hm_key_stride :: size_t
  hm_key_align :: size_t
  hm_value_size :: size_t
  hm_value_stride :: size_t
  hm_value_align :: size_t
  hm_entry_limit :: size_t
  hm_key_type :: "'k cmeta_type_desc ptr"
  hm_value_type :: "'v cmeta_type_desc ptr"
  hm_hash :: "('k \<Rightarrow> size_t \<Rightarrow> size_t) ptr"
  hm_equal :: "('k \<Rightarrow> 'k \<Rightarrow> size_t \<Rightarrow> bool) ptr"
  hm_generation :: u64
  hm_initialized :: bool

definition SALTS_HASH_EMPTY :: u8 where "SALTS_HASH_EMPTY = 0"
definition SALTS_HASH_OCCUPIED :: u8 where "SALTS_HASH_OCCUPIED = 1"
definition SALTS_HASH_TOMBSTONE :: u8 where "SALTS_HASH_TOMBSTONE = 2"
definition SALTS_HASH_MIN_BUCKETS :: size_t where "SALTS_HASH_MIN_BUCKETS = 16"

lemmas hash_state_defs = SALTS_HASH_EMPTY_def SALTS_HASH_OCCUPIED_def SALTS_HASH_TOMBSTONE_def

definition hash_zeroed :: "('k, 'v) hash_map" where
  "hash_zeroed = \<lparr>hm_descriptor = NULL, hm_states = NULL, hm_hashes = [], hm_keys = [], hm_values = [],
     hm_size = 0, hm_capacity = 0, hm_tombstones = 0, hm_key_size = 0, hm_key_stride = 0, hm_key_align = 0,
     hm_value_size = 0, hm_value_stride = 0, hm_value_align = 0, hm_entry_limit = 0, hm_key_type = NULL,
     hm_value_type = NULL, hm_hash = NULL, hm_equal = NULL, hm_generation = 0, hm_initialized = False\<rparr>"

definition hash_map_valid :: "('k, 'v) hash_map ptr \<Rightarrow> bool" where
  "hash_map_valid m \<longleftrightarrow> m \<noteq> NULL \<and> hm_initialized (the m) \<and> hm_key_size (the m) \<noteq> 0 \<and>
     hm_value_size (the m) \<noteq> 0"

definition hash_state :: "('k, 'v) hash_map \<Rightarrow> size_t \<Rightarrow> u8" where
  "hash_state m slot = the (hm_states m) ! slot"

section \<open>Layout\<close>

definition hash_add :: "size_t \<Rightarrow> size_t \<Rightarrow> size_t ptr \<Rightarrow> stl_status \<times> size_t ptr" where
  "hash_add left right out =
     (if out = NULL \<or> SIZE_MAX - left < right then (STL_CAPACITY_EXCEEDED, out)
      else (STL_OK, Some (left + right)))"

definition hash_mul :: "size_t \<Rightarrow> size_t \<Rightarrow> size_t ptr \<Rightarrow> stl_status \<times> size_t ptr" where
  "hash_mul left right out =
     (if out = NULL \<or> (left \<noteq> 0 \<and> SIZE_MAX div left < right) then (STL_CAPACITY_EXCEEDED, out)
      else (STL_OK, Some (left * right)))"

definition hash_align :: "size_t \<Rightarrow> size_t \<Rightarrow> size_t ptr \<Rightarrow> stl_status \<times> size_t ptr" where
  "hash_align v alignment out =
     (if \<not> sequence_alignment_valid alignment \<or> out = NULL then (STL_INVALID_ARGUMENT, out)
      else
        let padding = alignment - 1 in
        if SIZE_MAX - padding < v then (STL_CAPACITY_EXCEEDED, out)
        else (STL_OK, Some (size_and_not (v + padding) padding)))"

definition alignof_size_t :: size_t where "alignof_size_t = 8"
definition sizeof_size_t :: size_t where "sizeof_size_t = 8"

definition hash_max_alignment :: "('k, 'v) hash_map \<Rightarrow> size_t" where
  "hash_max_alignment m =
     (let alignment = alignof_size_t;
          alignment = (if alignment < hm_key_align m then hm_key_align m else alignment)
      in if alignment < hm_value_align m then hm_value_align m else alignment)"

text \<open>The doubling loop starts at \<open>SALTS_HASH_MIN_BUCKETS\<close>, so it never sees zero.\<close>

function hash_buckets_loop :: "size_t \<Rightarrow> size_t \<Rightarrow> stl_status \<times> size_t" where
  "hash_buckets_loop requested buckets =
     (if buckets < requested \<and> buckets \<noteq> 0 then
        if SIZE_MAX div 2 < buckets then (STL_CAPACITY_EXCEEDED, buckets)
        else hash_buckets_loop requested (buckets * 2)
      else (STL_OK, buckets))"
  by auto
termination
  by (relation "measure (\<lambda>(requested, buckets). requested - buckets)") auto

declare hash_buckets_loop.simps [simp del]

definition hash_buckets_for_entries :: "size_t \<Rightarrow> size_t ptr \<Rightarrow> stl_status \<times> size_t ptr" where
  "hash_buckets_for_entries entries out_buckets =
     (if out_buckets = NULL then (STL_INVALID_ARGUMENT, out_buckets)
      else if entries = 0 then (STL_OK, Some 0)
      else
        let quotient = entries div 7; remainder = entries mod 7 in
        if SIZE_MAX div 3 < quotient then (STL_CAPACITY_EXCEEDED, out_buckets)
        else
          let extra = quotient * 3 + (remainder * 3 + 6) div 7 in
          case hash_add entries extra (Some 0) of (st, requested) \<Rightarrow>
          if st \<noteq> STL_OK then (STL_CAPACITY_EXCEEDED, out_buckets)
          else
            let requested =
              (if the requested < SALTS_HASH_MIN_BUCKETS then SALTS_HASH_MIN_BUCKETS else the requested)
            in case hash_buckets_loop requested SALTS_HASH_MIN_BUCKETS of (st, b) \<Rightarrow> (st, Some b))"

text \<open>The offsets of the hashes, keys and values in the block, and the size of the block.\<close>

definition hash_map_layout ::
  "('k, 'v) hash_map \<Rightarrow> size_t \<Rightarrow> stl_status \<times> (size_t \<times> size_t \<times> size_t \<times> size_t)" where
  "hash_map_layout m capacity =
     (case hash_mul capacity 1 (Some 0) of (st, states_bytes) \<Rightarrow>
      if st \<noteq> STL_OK then (st, 0, 0, 0, 0)
      else case hash_align (the states_bytes) alignof_size_t (Some 0) of (st, hashes_offset) \<Rightarrow>
      if st \<noteq> STL_OK then (st, 0, 0, 0, 0)
      else case hash_mul capacity sizeof_size_t (Some 0) of (st, hashes_bytes) \<Rightarrow>
           case hash_add (the hashes_offset) (the hashes_bytes) (Some 0) of (st', tot) \<Rightarrow>
      if st \<noteq> STL_OK \<or> st' \<noteq> STL_OK then (STL_CAPACITY_EXCEEDED, 0, 0, 0, 0)
      else case hash_align (the tot) (hm_key_align m) (Some 0) of (st, keys_offset) \<Rightarrow>
      if st \<noteq> STL_OK then (st, 0, 0, 0, 0)
      else case hash_mul capacity (hm_key_stride m) (Some 0) of (st, keys_bytes) \<Rightarrow>
           case hash_add (the keys_offset) (the keys_bytes) (Some 0) of (st', tot) \<Rightarrow>
      if st \<noteq> STL_OK \<or> st' \<noteq> STL_OK then (STL_CAPACITY_EXCEEDED, 0, 0, 0, 0)
      else case hash_align (the tot) (hm_value_align m) (Some 0) of (st, values_offset) \<Rightarrow>
      if st \<noteq> STL_OK then (st, 0, 0, 0, 0)
      else case hash_mul capacity (hm_value_stride m) (Some 0) of (st, values_bytes) \<Rightarrow>
           case hash_add (the values_offset) (the values_bytes) (Some 0) of (st', tot) \<Rightarrow>
      if st \<noteq> STL_OK \<or> st' \<noteq> STL_OK then (STL_CAPACITY_EXCEEDED, 0, 0, 0, 0)
      else (STL_OK, the hashes_offset, the keys_offset, the values_offset, the tot))"

definition hash_map_allocate ::
  "('k, 'v) hash_map \<Rightarrow> size_t \<Rightarrow> env \<Rightarrow> stl_status \<times> ('k, 'v) hash_map \<times> env" where
  "hash_map_allocate m capacity s =
     (case hash_map_layout m capacity of (st, _, _, _, tot) \<Rightarrow>
      if st \<noteq> STL_OK then (st, m, s)
      else case sequence_allocate 1 tot (hash_max_alignment m) (Some NULL) s of (st, storage, s1) \<Rightarrow>
      if st \<noteq> STL_OK then (st, m, s1)
      else (STL_OK, m\<lparr>hm_states := map_option (\<lambda>_. replicate capacity SALTS_HASH_EMPTY) (the storage),
              hm_hashes := replicate capacity 0, hm_keys := replicate capacity None,
              hm_values := replicate capacity None, hm_capacity := capacity\<rparr>, s1))"

section \<open>Elements\<close>

definition hash_destroy_value :: "'a cmeta_type_desc ptr \<Rightarrow> 'a option \<Rightarrow> 'a option" where
  "hash_destroy_value type slot = (if type \<noteq> NULL then None else slot)"

definition hash_prepare ::
  "'a cmeta_type_desc ptr \<Rightarrow> size_t \<Rightarrow> size_t \<Rightarrow> 'a ptr \<Rightarrow> env \<Rightarrow> stl_status \<times> 'a option ptr \<times> env" where
  "hash_prepare type stride alignment source s =
     (if source = NULL then (STL_INVALID_ARGUMENT, NULL, s)
      else case sequence_allocate 1 stride alignment (Some NULL) s of (st, cell, s1) \<Rightarrow>
      if st \<noteq> STL_OK then (st, NULL, s1)
      else if type \<noteq> NULL then
        (case the (tr_copy_construct (the (td_traits (the type)))) (the source) of
           None \<Rightarrow> (STL_OUT_OF_MEMORY, NULL, sequence_deallocate (the cell) s1)
         | Some y \<Rightarrow> (STL_OK, map_option (\<lambda>_. Some y) (the cell), s1))
      else (STL_OK, map_option (\<lambda>_. source) (the cell), s1))"

definition hash_discard :: "'a cmeta_type_desc ptr \<Rightarrow> 'a option ptr \<Rightarrow> env \<Rightarrow> env" where
  "hash_discard type v s = (if v = NULL then s else sequence_deallocate v s)"

definition hash_move_construct :: "'a cmeta_type_desc ptr \<Rightarrow> 'a option \<Rightarrow> 'a option" where
  "hash_move_construct type source =
     (if type \<noteq> NULL then map_option (the (tr_move_construct (the (td_traits (the type))))) source
      else source)"

text \<open>The new contents of the destination and what is left in the source.\<close>

definition hash_move_destroy :: "'a cmeta_type_desc ptr \<Rightarrow> 'a option \<Rightarrow> 'a option \<times> 'a option" where
  "hash_move_destroy type source = (hash_move_construct type source, hash_destroy_value type source)"

definition hash_map_hash :: "('k, 'v) hash_map \<Rightarrow> 'k \<Rightarrow> size_t" where
  "hash_map_hash m key =
     (let hash = (if hm_key_type m \<noteq> NULL
                  then unat (the (tr_hash (the (td_traits (the (hm_key_type m))))) key)
                  else the (hm_hash m) key (hm_key_size m))
      in if hash = 0 then 1 else hash)"

definition hash_map_equal :: "('k, 'v) hash_map \<Rightarrow> 'k \<Rightarrow> 'k \<Rightarrow> bool" where
  "hash_map_equal m left right =
     (if hm_key_type m \<noteq> NULL
      then the (tr_equal (the (td_traits (the (hm_key_type m))))) left right
      else the (hm_equal m) left right (hm_key_size m))"

section \<open>Probing\<close>

function hash_find_loop ::
  "('k, 'v) hash_map \<Rightarrow> 'k \<Rightarrow> size_t \<Rightarrow> size_t \<Rightarrow> size_t \<Rightarrow> bool \<times> size_t" where
  "hash_find_loop m key hash probe out_slot =
     (if probe < hm_capacity m then
        let slot = size_add hash probe AND (hm_capacity m - 1) in
        if hash_state m slot = SALTS_HASH_EMPTY then (False, out_slot)
        else if hash_state m slot = SALTS_HASH_OCCUPIED \<and> hm_hashes m ! slot = hash \<and>
                hash_map_equal m (the (hm_keys m ! slot)) key then (True, slot)
        else hash_find_loop m key hash (probe + 1) out_slot
      else (False, out_slot))"
  by auto
termination
  by (relation "measure (\<lambda>(m, key, hash, probe, out). hm_capacity m - probe)") auto

definition hash_map_find_slot ::
  "('k, 'v) hash_map \<Rightarrow> 'k \<Rightarrow> size_t \<Rightarrow> size_t \<Rightarrow> bool \<times> size_t" where
  "hash_map_find_slot m key hash out_slot =
     (if hm_capacity m = 0 then (False, out_slot) else hash_find_loop m key hash 0 out_slot)"

function hash_insert_loop :: "('k, 'v) hash_map \<Rightarrow> size_t \<Rightarrow> size_t \<Rightarrow> size_t \<Rightarrow> size_t" where
  "hash_insert_loop m hash first_tombstone probe =
     (if probe < hm_capacity m then
        let slot = size_add hash probe AND (hm_capacity m - 1) in
        if hash_state m slot = SALTS_HASH_TOMBSTONE
        then hash_insert_loop m hash (if first_tombstone = SIZE_MAX then slot else first_tombstone) (probe + 1)
        else if hash_state m slot = SALTS_HASH_EMPTY
        then if first_tombstone = SIZE_MAX then slot else first_tombstone
        else hash_insert_loop m hash first_tombstone (probe + 1)
      else first_tombstone)"
  by auto
termination
  by (relation "measure (\<lambda>(m, hash, tomb, probe). hm_capacity m - probe)") auto

declare hash_find_loop.simps [simp del] hash_insert_loop.simps [simp del]

definition hash_map_insert_slot :: "('k, 'v) hash_map \<Rightarrow> size_t \<Rightarrow> size_t" where
  "hash_map_insert_slot m hash = hash_insert_loop m hash SIZE_MAX 0"

section \<open>Rehashing\<close>

text \<open>Writing one slot of each array.\<close>

definition hash_fill ::
  "size_t \<Rightarrow> size_t \<Rightarrow> 'k option \<Rightarrow> 'v option \<Rightarrow> ('k, 'v) hash_map \<Rightarrow> ('k, 'v) hash_map" where
  "hash_fill slot hash key v m =
     m\<lparr>hm_keys := (hm_keys m)[slot := key], hm_values := (hm_values m)[slot := v],
         hm_hashes := (hm_hashes m)[slot := hash],
         hm_states := map_option (\<lambda>st. st[slot := SALTS_HASH_OCCUPIED]) (hm_states m)\<rparr>"

definition hash_map_rehash_insert ::
  "('k, 'v) hash_map \<Rightarrow> size_t \<Rightarrow> 'k option \<Rightarrow> 'v option \<Rightarrow> ('k, 'v) hash_map" where
  "hash_map_rehash_insert m hash key v =
     (let slot = hash_map_insert_slot m hash;
          m = hash_fill slot hash (hash_move_construct (hm_key_type m) key)
                  (hash_move_construct (hm_value_type m) v) m
      in m\<lparr>hm_size := hm_size m + 1\<rparr>)"

function hash_rehash_loop ::
  "('k, 'v) hash_map \<Rightarrow> size_t \<Rightarrow> ('k, 'v) hash_map \<Rightarrow> ('k, 'v) hash_map" where
  "hash_rehash_loop m slot nxt =
     (if slot < hm_capacity m then
        if hash_state m slot \<noteq> SALTS_HASH_OCCUPIED then hash_rehash_loop m (slot + 1) nxt
        else hash_rehash_loop
          (m\<lparr>hm_keys := (hm_keys m)[slot := hash_destroy_value (hm_key_type m) (hm_keys m ! slot)],
               hm_values := (hm_values m)[slot :=
                 hash_destroy_value (hm_value_type m) (hm_values m ! slot)]\<rparr>)
          (slot + 1)
          (hash_map_rehash_insert nxt (hm_hashes m ! slot) (hm_keys m ! slot) (hm_values m ! slot))
      else nxt)"
  by auto
termination
  by (relation "measure (\<lambda>(m, slot, nxt). hm_capacity m - slot)") auto

declare hash_rehash_loop.simps [simp del]

definition hash_map_rehash ::
  "('k, 'v) hash_map \<Rightarrow> size_t \<Rightarrow> env \<Rightarrow> stl_status \<times> ('k, 'v) hash_map \<times> env" where
  "hash_map_rehash m capacity s =
     (let nxt = m\<lparr>hm_states := NULL, hm_hashes := [], hm_keys := [], hm_values := [],
                     hm_size := 0, hm_capacity := 0, hm_tombstones := 0\<rparr>
      in case hash_map_allocate nxt capacity s of (st, nxt, s1) \<Rightarrow>
      if st \<noteq> STL_OK then (st, m, s1)
      else
        let nxt = hash_rehash_loop m 0 nxt
        in (STL_OK, nxt\<lparr>hm_generation := hm_generation m\<rparr>, sequence_deallocate (hm_states m) s1))"

definition hash_map_ensure_insert ::
  "('k, 'v) hash_map \<Rightarrow> env \<Rightarrow> stl_status \<times> ('k, 'v) hash_map \<times> env" where
  "hash_map_ensure_insert m s =
     (if hm_size m = SIZE_MAX then (STL_CAPACITY_EXCEEDED, m, s)
      else
        let desired = hm_size m + 1 in
        case hash_buckets_for_entries desired (Some 0) of (st, buckets) \<Rightarrow>
        if st \<noteq> STL_OK then (st, m, s)
        else if hm_capacity m < the buckets \<or> (hm_size m < hm_tombstones m \<and> hm_capacity m \<noteq> 0)
        then hash_map_rehash m (if the buckets < hm_capacity m then hm_capacity m else the buckets) s
        else (STL_OK, m, s))"

section \<open>Initialisation and destruction\<close>

definition hash_map_initialize ::
  "('k, 'v) hash_map ptr \<Rightarrow> 'k cmeta_type_desc ptr \<Rightarrow> 'v cmeta_type_desc ptr \<Rightarrow> size_t \<Rightarrow> size_t \<Rightarrow>
   size_t \<Rightarrow> size_t \<Rightarrow> size_t \<Rightarrow> ('k \<Rightarrow> size_t \<Rightarrow> size_t) ptr \<Rightarrow> ('k \<Rightarrow> 'k \<Rightarrow> size_t \<Rightarrow> bool) ptr \<Rightarrow>
   stl_status \<times> ('k, 'v) hash_map ptr" where
  "hash_map_initialize m key_type value_type key_size key_align value_size value_align entry_limit hash equal =
     (if m = NULL \<or> hm_initialized (the m) then (STL_INVALID_ARGUMENT, m)
      else case sequence_stride key_size key_align (Some 0) of (st, key_stride) \<Rightarrow>
      if st \<noteq> STL_OK then (st, m)
      else case sequence_stride value_size value_align (Some 0) of (st, value_stride) \<Rightarrow>
      if st \<noteq> STL_OK then (st, m)
      else
        let generation = hm_generation (the m) + 1
        in (STL_OK, Some (hash_zeroed\<lparr>hm_key_size := key_size, hm_key_stride := the key_stride,
              hm_key_align := key_align, hm_value_size := value_size, hm_value_stride := the value_stride,
              hm_value_align := value_align, hm_entry_limit := entry_limit, hm_key_type := key_type,
              hm_value_type := value_type, hm_hash := hash, hm_equal := equal,
              hm_generation := generation, hm_initialized := True\<rparr>)))"

function hash_bytes_loop :: "u8 list \<Rightarrow> size_t \<Rightarrow> size_t \<Rightarrow> u64 \<Rightarrow> u64" where
  "hash_bytes_loop bytes key_size index hash =
     (if index < key_size
      then hash_bytes_loop bytes key_size (index + 1) ((hash XOR ucast (bytes ! index)) * 1099511628211)
      else hash)"
  by auto
termination
  by (relation "measure (\<lambda>(bytes, key_size, index, hash). key_size - index)") auto

declare hash_bytes_loop.simps [simp del]

definition hash_bytes :: "u8 list \<Rightarrow> size_t \<Rightarrow> size_t" where
  "hash_bytes key key_size =
     (let hash = hash_bytes_loop key key_size 0 1469598103934665603
      in unat (if hash = 0 then 1 else hash))"

definition hash_key_equal :: "u8 list \<Rightarrow> u8 list \<Rightarrow> size_t \<Rightarrow> bool" where
  "hash_key_equal left right key_size \<longleftrightarrow> take key_size left = take key_size right"

definition hash_map_raw_init ::
  "('k, 'v) hash_map ptr \<Rightarrow> 'k cmeta_type_desc ptr \<Rightarrow> 'v cmeta_type_desc ptr \<Rightarrow> size_t \<Rightarrow>
   stl_status \<times> ('k, 'v) hash_map ptr" where
  "hash_map_raw_init m key_type value_type entry_limit =
     (let key_required = CMETA_TRAIT_EQUAL OR CMETA_TRAIT_HASH OR CMETA_TRAIT_COPY OR CMETA_TRAIT_MOVE OR
            CMETA_TRAIT_DESTROY;
          value_required = CMETA_TRAIT_COPY OR CMETA_TRAIT_MOVE OR CMETA_TRAIT_DESTROY in
      if m = NULL \<or> hm_initialized (the m) then (STL_INVALID_ARGUMENT, m)
      else if key_type = NULL \<or> value_type = NULL \<or> td_size (the key_type) = 0 \<or> td_size (the value_type) = 0 \<or>
        \<not> sequence_alignment_valid (td_align (the key_type)) \<or>
        \<not> sequence_alignment_valid (td_align (the value_type)) then (STL_INVALID_ARGUMENT, m)
      else if cmeta_type_require_traits key_type key_required \<noteq> CMETA_OK \<or>
        cmeta_type_require_traits value_type value_required \<noteq> CMETA_OK then (STL_TRAIT_MISSING, m)
      else hash_map_initialize m key_type value_type (td_size (the key_type)) (td_align (the key_type))
        (td_size (the value_type)) (td_align (the value_type)) entry_limit NULL NULL)"

definition hash_map_init_bytes ::
  "('k, 'v) hash_map ptr \<Rightarrow> size_t \<Rightarrow> size_t \<Rightarrow> size_t \<Rightarrow> size_t \<Rightarrow> size_t \<Rightarrow>
   ('k \<Rightarrow> size_t \<Rightarrow> size_t) ptr \<Rightarrow> ('k \<Rightarrow> 'k \<Rightarrow> size_t \<Rightarrow> bool) ptr \<Rightarrow>
   stl_status \<times> ('k, 'v) hash_map ptr" where
  "hash_map_init_bytes m key_size key_align value_size value_align entry_limit hash equal =
     (if m = NULL \<or> hm_initialized (the m) \<or> hash = NULL \<or> equal = NULL then (STL_INVALID_ARGUMENT, m)
      else hash_map_initialize m NULL NULL key_size key_align value_size value_align entry_limit hash equal)"

text \<open>The loop that ends the life of every stored key and value.\<close>

function hash_destroy_loop :: "size_t \<Rightarrow> ('k, 'v) hash_map \<Rightarrow> ('k, 'v) hash_map" where
  "hash_destroy_loop slot m =
     (if slot < hm_capacity m then
        if hash_state m slot \<noteq> SALTS_HASH_OCCUPIED then hash_destroy_loop (slot + 1) m
        else hash_destroy_loop (slot + 1)
          (m\<lparr>hm_keys := (hm_keys m)[slot := hash_destroy_value (hm_key_type m) (hm_keys m ! slot)],
             hm_values := (hm_values m)[slot := hash_destroy_value (hm_value_type m) (hm_values m ! slot)]\<rparr>)
      else m)"
  by auto
termination
  by (relation "measure (\<lambda>(slot, m). hm_capacity m - slot)") auto

declare hash_destroy_loop.simps [simp del]

definition hash_map_raw_destroy_storage ::
  "('k, 'v) hash_map ptr \<Rightarrow> env \<Rightarrow> ('k, 'v) hash_map ptr \<times> env" where
  "hash_map_raw_destroy_storage m s =
     (if m = NULL then (NULL, s)
      else if hm_initialized (the m) then
        let m1 = hash_destroy_loop 0 (the m)
        in (Some (hash_zeroed\<lparr>hm_generation := hm_generation (the m) + 1\<rparr>),
            sequence_deallocate (hm_states m1) s)
      else (Some (hash_zeroed\<lparr>hm_generation := hm_generation (the m)\<rparr>), s))"

definition hash_map_clear :: "('k, 'v) hash_map ptr \<Rightarrow> ('k, 'v) hash_map ptr" where
  "hash_map_clear m =
     (if \<not> hash_map_valid m then m
      else
        let m1 = hash_destroy_loop 0 (the m)
        in if hm_size m1 \<noteq> 0
           then Some (m1\<lparr>hm_states := map_option (\<lambda>_. replicate (hm_capacity m1) SALTS_HASH_EMPTY) (hm_states m1),
                  hm_size := 0, hm_tombstones := 0, hm_generation := hm_generation m1 + 1\<rparr>)
           else Some m1)"

definition hash_map_reserve ::
  "('k, 'v) hash_map ptr \<Rightarrow> size_t \<Rightarrow> env \<Rightarrow> stl_status \<times> ('k, 'v) hash_map ptr \<times> env" where
  "hash_map_reserve m min_entries s =
     (if \<not> hash_map_valid m then (STL_INVALID_ARGUMENT, m, s)
      else if hm_entry_limit (the m) < min_entries then (STL_CAPACITY_EXCEEDED, m, s)
      else case hash_buckets_for_entries min_entries (Some 0) of (st, buckets) \<Rightarrow>
      if st \<noteq> STL_OK then (st, m, s)
      else if hm_capacity (the m) < the buckets \<or>
        (hm_size (the m) < hm_tombstones (the m) \<and> hm_capacity (the m) \<noteq> 0) then
        (case hash_map_rehash (the m)
           (if the buckets < hm_capacity (the m) then hm_capacity (the m) else the buckets) s of
         (st, m1, s1) \<Rightarrow>
           if st = STL_OK then (st, Some (m1\<lparr>hm_generation := hm_generation m1 + 1\<rparr>), s1)
           else (st, Some m1, s1))
      else (st, m, s))"

section \<open>Operations\<close>

definition hash_map_put ::
  "('k, 'v) hash_map ptr \<Rightarrow> 'k ptr \<Rightarrow> 'v ptr \<Rightarrow> env \<Rightarrow> stl_status \<times> ('k, 'v) hash_map ptr \<times> env" where
  "hash_map_put m key v s =
     (if \<not> hash_map_valid m \<or> key = NULL \<or> v = NULL then (STL_INVALID_ARGUMENT, m, s)
      else
        let h = the m; hash = hash_map_hash h (the key) in
        case hash_map_find_slot h (the key) hash 0 of (found, slot) \<Rightarrow>
        if found then
          case hash_prepare (hm_value_type h) (hm_value_stride h) (hm_value_align h) v s of
            (st, prepared_value, s1) \<Rightarrow>
          if st \<noteq> STL_OK then (st, m, s1)
          else
            let moved = fst (hash_move_destroy (hm_value_type h) (the prepared_value))
            in (STL_OK, Some (h\<lparr>hm_values := (hm_values h)[slot := moved],
                  hm_generation := hm_generation h + 1\<rparr>), sequence_deallocate prepared_value s1)
        else if hm_entry_limit h \<le> hm_size h then (STL_CAPACITY_EXCEEDED, m, s)
        else
          case hash_prepare (hm_key_type h) (hm_key_stride h) (hm_key_align h) key s of
            (st, prepared_key, s1) \<Rightarrow>
          if st \<noteq> STL_OK then (st, m, s1)
          else
            case hash_prepare (hm_value_type h) (hm_value_stride h) (hm_value_align h) v s1 of
              (st, prepared_value, s2) \<Rightarrow>
            if st \<noteq> STL_OK then (st, m, hash_discard (hm_key_type h) prepared_key s2)
            else
              case hash_map_ensure_insert h s2 of (st, h1, s3) \<Rightarrow>
              if st \<noteq> STL_OK
              then (st, Some h1, hash_discard (hm_value_type h1) prepared_value
                     (hash_discard (hm_key_type h1) prepared_key s3))
              else
                let slot = hash_map_insert_slot h1 hash;
                    tombstones = (if hash_state h1 slot = SALTS_HASH_TOMBSTONE then hm_tombstones h1 - 1
                                  else hm_tombstones h1);
                    h2 = hash_fill slot hash (fst (hash_move_destroy (hm_key_type h1) (the prepared_key)))
                           (fst (hash_move_destroy (hm_value_type h1) (the prepared_value))) h1
                in (STL_OK, Some (h2\<lparr>hm_tombstones := tombstones, hm_size := hm_size h2 + 1,
                      hm_generation := hm_generation h2 + 1\<rparr>),
                    sequence_deallocate prepared_value (sequence_deallocate prepared_key s3)))"

definition hash_map_get :: "('k, 'v) hash_map ptr \<Rightarrow> 'k ptr \<Rightarrow> 'v option ptr" where
  "hash_map_get m key =
     (if \<not> hash_map_valid m \<or> key = NULL then NULL
      else case hash_map_find_slot (the m) (the key) (hash_map_hash (the m) (the key)) 0 of
        (found, slot) \<Rightarrow> if found then Some (hm_values (the m) ! slot) else NULL)"

definition hash_map_get_const :: "('k, 'v) hash_map ptr \<Rightarrow> 'k ptr \<Rightarrow> 'v option ptr" where
  "hash_map_get_const m key = hash_map_get m key"

definition hash_map_contains :: "('k, 'v) hash_map ptr \<Rightarrow> 'k ptr \<Rightarrow> bool" where
  "hash_map_contains m key \<longleftrightarrow> hash_map_get_const m key \<noteq> NULL"

definition hash_map_remove ::
  "('k, 'v) hash_map ptr \<Rightarrow> 'k ptr \<Rightarrow> 'v option ptr \<Rightarrow>
   stl_status \<times> ('k, 'v) hash_map ptr \<times> 'v option ptr" where
  "hash_map_remove m key out_value =
     (if \<not> hash_map_valid m \<or> key = NULL then (STL_INVALID_ARGUMENT, m, out_value)
      else
        let h = the m in
        case hash_map_find_slot h (the key) (hash_map_hash h (the key)) 0 of (found, slot) \<Rightarrow>
        if \<not> found then (STL_NOT_FOUND, m, out_value)
        else
          let out = map_option (\<lambda>_. fst (hash_move_destroy (hm_value_type h) (hm_values h ! slot))) out_value;
              left = (if out_value \<noteq> NULL then snd (hash_move_destroy (hm_value_type h) (hm_values h ! slot))
                      else hash_destroy_value (hm_value_type h) (hm_values h ! slot))
          in (STL_OK,
              Some (h\<lparr>hm_values := (hm_values h)[slot := left],
                hm_keys := (hm_keys h)[slot := hash_destroy_value (hm_key_type h) (hm_keys h ! slot)],
                hm_states := map_option (\<lambda>st. st[slot := SALTS_HASH_TOMBSTONE]) (hm_states h),
                hm_size := hm_size h - 1, hm_tombstones := hm_tombstones h + 1,
                hm_generation := hm_generation h + 1\<rparr>), out))"

definition hash_map_size :: "('k, 'v) hash_map ptr \<Rightarrow> size_t" where
  "hash_map_size m = (if hash_map_valid m then hm_size (the m) else 0)"

definition hash_map_capacity :: "('k, 'v) hash_map ptr \<Rightarrow> size_t" where
  "hash_map_capacity m = (if hash_map_valid m then hm_capacity (the m) else 0)"

definition hash_map_entry_limit :: "('k, 'v) hash_map ptr \<Rightarrow> size_t" where
  "hash_map_entry_limit m = (if hash_map_valid m then hm_entry_limit (the m) else 0)"

definition hash_map_generation :: "('k, 'v) hash_map ptr \<Rightarrow> u64" where
  "hash_map_generation m = (if m \<noteq> NULL then hm_generation (the m) else 0)"

definition hash_map_empty :: "('k, 'v) hash_map ptr \<Rightarrow> bool" where
  "hash_map_empty m \<longleftrightarrow> hash_map_size m = 0"

definition hash_map_key_at :: "('k, 'v) hash_map ptr \<Rightarrow> size_t \<Rightarrow> 'k option ptr" where
  "hash_map_key_at m slot =
     (if hash_map_valid m \<and> slot < hm_capacity (the m) \<and> hash_state (the m) slot = SALTS_HASH_OCCUPIED
      then Some (hm_keys (the m) ! slot) else NULL)"

definition hash_map_value_at :: "('k, 'v) hash_map ptr \<Rightarrow> size_t \<Rightarrow> 'v option ptr" where
  "hash_map_value_at m slot =
     (if hash_map_valid m \<and> slot < hm_capacity (the m) \<and> hash_state (the m) slot = SALTS_HASH_OCCUPIED
      then Some (hm_values (the m) ! slot) else NULL)"

section \<open>Construction from arrays\<close>

text \<open>The loop of the two bulk constructors; the temporary is destroyed when a put fails.\<close>

fun hash_put_all ::
  "('k \<times> 'v) list \<Rightarrow> ('k, 'v) hash_map ptr \<Rightarrow> env \<Rightarrow> stl_status \<times> ('k, 'v) hash_map ptr \<times> env" where
  "hash_put_all [] temporary s = (STL_OK, temporary, s)"
| "hash_put_all ((k, v) # rest) temporary s =
     (case hash_map_put temporary (Some k) (Some v) s of (st, t1, s1) \<Rightarrow>
      if st \<noteq> STL_OK
      then (case hash_map_raw_destroy_storage t1 s1 of (t2, s2) \<Rightarrow> (st, t2, s2))
      else hash_put_all rest t1 s1)"

text \<open>What the constructors do once the temporary is initialised.\<close>

definition hash_map_adopt ::
  "('k, 'v) hash_map ptr \<Rightarrow> ('k \<times> 'v) list \<Rightarrow> stl_status \<times> ('k, 'v) hash_map ptr \<Rightarrow> env \<Rightarrow>
   stl_status \<times> ('k, 'v) hash_map ptr \<times> env" where
  "hash_map_adopt m entries init s =
     (case init of (st, t0) \<Rightarrow>
      if st \<noteq> STL_OK then (st, m, s)
      else case hash_put_all entries t0 s of (st, t1, s1) \<Rightarrow>
      if st \<noteq> STL_OK then (st, m, s1)
      else
        let generation = hm_generation (the m) + 1;
            s2 = (if hm_initialized (the m) then snd (hash_map_raw_destroy_storage m s1) else s1)
        in (STL_OK, Some ((the t1)\<lparr>hm_generation := generation\<rparr>), s2))"

definition hash_map_raw_from_arrays ::
  "('k, 'v) hash_map ptr \<Rightarrow> 'k list ptr \<Rightarrow> 'v list ptr \<Rightarrow> size_t \<Rightarrow> 'k cmeta_type_desc ptr \<Rightarrow>
   'v cmeta_type_desc ptr \<Rightarrow> size_t \<Rightarrow> env \<Rightarrow> stl_status \<times> ('k, 'v) hash_map ptr \<times> env" where
  "hash_map_raw_from_arrays m keys vals cnt key_type value_type entry_limit s =
     (if m = NULL then (STL_INVALID_ARGUMENT, m, s)
      else if cnt \<noteq> 0 \<and> (keys = NULL \<or> vals = NULL) then (STL_INVALID_ARGUMENT, m, s)
      else hash_map_adopt m
        (if cnt = 0 then [] else zip (take cnt (the keys)) (take cnt (the vals)))
        (hash_map_raw_init (Some hash_zeroed) key_type value_type entry_limit) s)"

definition hash_map_from_arrays_bytes ::
  "('k, 'v) hash_map ptr \<Rightarrow> 'k list ptr \<Rightarrow> 'v list ptr \<Rightarrow> size_t \<Rightarrow> size_t \<Rightarrow> size_t \<Rightarrow> size_t \<Rightarrow>
   size_t \<Rightarrow> size_t \<Rightarrow> ('k \<Rightarrow> size_t \<Rightarrow> size_t) ptr \<Rightarrow> ('k \<Rightarrow> 'k \<Rightarrow> size_t \<Rightarrow> bool) ptr \<Rightarrow> env \<Rightarrow>
   stl_status \<times> ('k, 'v) hash_map ptr \<times> env" where
  "hash_map_from_arrays_bytes m keys vals cnt key_size key_align value_size value_align entry_limit hash equal s =
     (if m = NULL then (STL_INVALID_ARGUMENT, m, s)
      else if cnt \<noteq> 0 \<and> (keys = NULL \<or> vals = NULL) then (STL_INVALID_ARGUMENT, m, s)
      else hash_map_adopt m
        (if cnt = 0 then [] else zip (take cnt (the keys)) (take cnt (the vals)))
        (hash_map_init_bytes (Some hash_zeroed) key_size key_align value_size value_align entry_limit
           hash equal) s)"

text \<open>The wrappers of the header, which keep the handle's binding.\<close>

definition hash_map_init :: "('k, 'v) hash_map ptr \<Rightarrow> size_t \<Rightarrow> stl_status \<times> ('k, 'v) hash_map ptr" where
  "hash_map_init m entry_limit =
     (if m = NULL \<or> hm_key_type (the m) = NULL \<or> hm_value_type (the m) = NULL then (STL_INVALID_ARGUMENT, m)
      else
        let kind = hm_descriptor (the m); key_type = hm_key_type (the m); value_type = hm_value_type (the m) in
        case hash_map_raw_init m key_type value_type entry_limit of (st, m1) \<Rightarrow>
        (st, Some ((the m1)\<lparr>hm_descriptor := kind, hm_key_type := key_type, hm_value_type := value_type\<rparr>)))"

definition hash_map_from_arrays ::
  "('k, 'v) hash_map ptr \<Rightarrow> 'k list ptr \<Rightarrow> 'v list ptr \<Rightarrow> size_t \<Rightarrow> size_t \<Rightarrow> env \<Rightarrow>
   stl_status \<times> ('k, 'v) hash_map ptr \<times> env" where
  "hash_map_from_arrays m keys vals cnt entry_limit s =
     (if m = NULL \<or> hm_key_type (the m) = NULL \<or> hm_value_type (the m) = NULL
      then (STL_INVALID_ARGUMENT, m, s)
      else
        let kind = hm_descriptor (the m); key_type = hm_key_type (the m); value_type = hm_value_type (the m) in
        case hash_map_raw_from_arrays m keys vals cnt key_type value_type entry_limit s of (st, m1, s1) \<Rightarrow>
        (st, Some ((the m1)\<lparr>hm_descriptor := kind, hm_key_type := key_type, hm_value_type := value_type\<rparr>), s1))"

definition hash_map_destroy :: "('k, 'v) hash_map ptr \<Rightarrow> env \<Rightarrow> ('k, 'v) hash_map ptr \<times> env" where
  "hash_map_destroy m s =
     (if m = NULL then (NULL, s)
      else
        let kind = hm_descriptor (the m); key_type = hm_key_type (the m); value_type = hm_value_type (the m) in
        case hash_map_raw_destroy_storage m s of (m1, s1) \<Rightarrow>
        (Some ((the m1)\<lparr>hm_descriptor := kind, hm_key_type := key_type, hm_value_type := value_type\<rparr>), s1))"

section \<open>Bucket counts and layout\<close>

lemma requested_buckets:
  fixes n :: nat
  shows "n + (n div 7 * 3 + (n mod 7 * 3 + 6) div 7) = (10 * n + 6) div 7"
  by presburger

lemma buckets_loop_cases:
  "hash_buckets_loop requested b = (st, r) \<Longrightarrow> b = 2 ^ j \<Longrightarrow> j \<le> 63 \<Longrightarrow>
   \<exists>i\<ge>j. r = 2 ^ i \<and> i \<le> 63 \<and> (i = j \<or> r div 2 < requested) \<and>
     (st = STL_OK \<and> requested \<le> r \<or> st = STL_CAPACITY_EXCEEDED \<and> i = 63 \<and> r < requested)"
proof (induction requested b arbitrary: j rule: hash_buckets_loop.induct)
  case (1 requested b)
  note loop = hash_buckets_loop.simps [of requested b]
  show ?case
  proof (cases "b < requested")
    case False
    then show ?thesis using 1(2) [unfolded loop] 1(3,4) by (intro exI [of _ j]) auto
  next
    case True
    have half: "SIZE_MAX div 2 < b \<longleftrightarrow> j = 63"
    proof -
      have "SIZE_MAX div 2 = 2 ^ 63 - 1" by (simp add: SIZE_MAX_def)
      moreover have "(2::nat) ^ 63 \<le> 2 ^ j \<longleftrightarrow> 63 \<le> j" by (rule power_increasing_iff) simp
      ultimately show ?thesis using 1(3,4) by auto
    qed
    show ?thesis
    proof (cases "j = 63")
      case top: True
      then show ?thesis using 1(2) [unfolded loop] 1(3,4) True half by (intro exI [of _ j]) auto
    next
      case False
      have run: "hash_buckets_loop requested (b * 2) = (st, r)"
        using 1(2) [unfolded loop] 1(3) True False half by simp
      have "b * 2 = 2 ^ (j + 1)" "j + 1 \<le> 63" using 1(3,4) False by simp_all
      from 1(1) [OF _ _ run this] obtain i where
        i: "i \<ge> j + 1" "r = 2 ^ i" "i \<le> 63" "i = j + 1 \<or> r div 2 < requested"
        "st = STL_OK \<and> requested \<le> r \<or> st = STL_CAPACITY_EXCEEDED \<and> i = 63 \<and> r < requested"
        using True False half 1(3) by auto
      have "r div 2 < requested" using i(2,4) True 1(3) by auto
      then show ?thesis using i by (intro exI [of _ i]) auto
    qed
  qed
qed

lemma buckets_cases:
  assumes "hash_buckets_for_entries n (Some c) = (st, r)" and "n \<noteq> 0" and "n \<le> SIZE_MAX"
  shows "(st = STL_OK \<and> (\<exists>i. 4 \<le> i \<and> i \<le> 63 \<and> r = Some (2 ^ i) \<and> 10 * n \<le> 7 * 2 ^ i \<and>
            (i = 4 \<or> 7 * 2 ^ (i - 1) < 10 * n))) \<or>
         (st = STL_CAPACITY_EXCEEDED \<and> 7 * 2 ^ 63 < 10 * n)"
proof -
  let ?req = "(10 * n + 6) div 7"
  have nq: "\<not> SIZE_MAX div 3 < n div 7" using assms(3) by (simp add: div_le_mono2 not_less order_trans [OF div_le_mono])
  show ?thesis
  proof (cases "?req \<le> SIZE_MAX")
    case False
    then have "st = STL_CAPACITY_EXCEEDED"
      using assms(1,2) nq requested_buckets [of n]
      by (auto simp: hash_buckets_for_entries_def hash_add_def Let_def not_le split: if_splits)
    moreover have "7 * 2 ^ 63 < 10 * n" using False by (simp add: SIZE_MAX_def)
    ultimately show ?thesis by simp
  next
    case True
    let ?r = "if ?req < SALTS_HASH_MIN_BUCKETS then SALTS_HASH_MIN_BUCKETS else ?req"
    obtain st' b where loop: "hash_buckets_loop ?r 16 = (st', b)" by fastforce
    then obtain i where i: "4 \<le> i" "b = 2 ^ i" "i \<le> 63" "i = 4 \<or> b div 2 < ?r"
      "st' = STL_OK \<and> ?r \<le> b \<or> st' = STL_CAPACITY_EXCEEDED \<and> i = 63 \<and> b < ?r"
      using buckets_loop_cases [OF loop, of 4] by auto
    have res: "st = st'" "r = Some b"
      using assms(1,2) nq requested_buckets [of n] True loop
      by (auto simp: hash_buckets_for_entries_def hash_add_def Let_def SALTS_HASH_MIN_BUCKETS_def split: if_splits)
    have half: "i \<noteq> 4 \<Longrightarrow> b div 2 = 2 ^ (i - 1) \<and> 16 \<le> b div 2"
      using i(1,2) power_increasing [of 4 "i - 1" "2::nat"] by (cases i) auto
    show ?thesis
    proof (cases "st' = STL_OK")
      case ok: True
      then have "?req \<le> 2 ^ i" using i by (auto split: if_splits)
      then have "10 * n \<le> 7 * 2 ^ i" by linarith
      moreover have "7 * 2 ^ (i - 1) < 10 * n" if "i \<noteq> 4"
        using that half i(4) by (auto simp: SALTS_HASH_MIN_BUCKETS_def split: if_splits)
      ultimately show ?thesis using ok res i by auto
    next
      case False
      then have "2 ^ 63 < ?req" using i by (auto simp: SALTS_HASH_MIN_BUCKETS_def split: if_splits)
      then show ?thesis using False res i by auto
    qed
  qed
qed

lemma hash_align_OK:
  assumes "hash_align v a (Some c) = (STL_OK, r)" and "a \<le> SIZE_MAX"
  shows "\<exists>x. r = Some x \<and> a dvd x \<and> v \<le> x \<and> x < v + a \<and> x \<le> SIZE_MAX"
proof -
  have v: "sequence_alignment_valid a" "v + (a - 1) \<le> SIZE_MAX" "r = Some (size_and_not (v + (a - 1)) (a - 1))"
    using assms by (auto simp: hash_align_def Let_def split: if_splits)
  have "a \<noteq> 0" using alignment_pos [OF v(1)] by simp
  then show ?thesis
    using size_and_not_align [OF v(1) assms(2) v(2)] v(2,3) round_up [of a v] by simp
qed

lemma hash_align_cases:
  "sequence_alignment_valid a \<Longrightarrow> a \<le> SIZE_MAX \<Longrightarrow>
   hash_align v a (Some c) = (STL_OK, snd (hash_align v a (Some c))) \<and> v + (a - 1) \<le> SIZE_MAX \<or>
   fst (hash_align v a (Some c)) = STL_CAPACITY_EXCEEDED \<and> SIZE_MAX < v + (a - 1)"
  by (auto simp: hash_align_def Let_def)

lemma layout_alignment [simp]: "sequence_alignment_valid alignof_size_t" "alignof_size_t \<le> SIZE_MAX"
  by (simp_all add: alignof_size_t_def sequence_alignment_valid_def SIZE_MAX_def)

lemma hash_mul_OK: "hash_mul a b (Some c) = (STL_OK, r) \<longleftrightarrow> r = Some (a * b) \<and> a * b \<le> SIZE_MAX"
  by (cases "a = 0") (auto simp: hash_mul_def div_less_iff_less_mult not_less
      less_eq_div_iff_mult_less_eq mult.commute split: if_splits)

lemma hash_add_OK: "a \<le> SIZE_MAX \<Longrightarrow> hash_add a b (Some c) = (STL_OK, r) \<longleftrightarrow> r = Some (a + b) \<and> a + b \<le> SIZE_MAX"
  by (auto simp: hash_add_def split: if_splits)

lemma layout_OK:
  assumes run: "hash_map_layout m capacity = (STL_OK, ho, ko, vo, tot)"
    and al: "hm_key_align m \<le> SIZE_MAX" "hm_value_align m \<le> SIZE_MAX"
  shows "alignof_size_t dvd ho \<and> capacity \<le> ho \<and>
    hm_key_align m dvd ko \<and> ho + capacity * sizeof_size_t \<le> ko \<and>
    hm_value_align m dvd vo \<and> ko + capacity * hm_key_stride m \<le> vo \<and>
    tot = vo + capacity * hm_value_stride m \<and> tot \<le> SIZE_MAX"
proof -
  obtain r1 r2 r3 r4 r5 r6 r7 r8 r9 r10 where
    r: "hash_mul capacity 1 (Some 0) = (STL_OK, r1)"
    "hash_align (the r1) alignof_size_t (Some 0) = (STL_OK, r2)"
    "hash_mul capacity sizeof_size_t (Some 0) = (STL_OK, r3)"
    "hash_add (the r2) (the r3) (Some 0) = (STL_OK, r4)"
    "hash_align (the r4) (hm_key_align m) (Some 0) = (STL_OK, r5)"
    "hash_mul capacity (hm_key_stride m) (Some 0) = (STL_OK, r6)"
    "hash_add (the r5) (the r6) (Some 0) = (STL_OK, r7)"
    "hash_align (the r7) (hm_value_align m) (Some 0) = (STL_OK, r8)"
    "hash_mul capacity (hm_value_stride m) (Some 0) = (STL_OK, r9)"
    "hash_add (the r8) (the r9) (Some 0) = (STL_OK, r10)"
    "ho = the r2" "ko = the r5" "vo = the r8" "tot = the r10"
    using run by (auto simp: hash_map_layout_def split: prod.splits if_splits)
  obtain x where x: "r2 = Some x" "alignof_size_t dvd x" "capacity \<le> x" "x \<le> SIZE_MAX"
    using hash_align_OK [OF r(2) layout_alignment(2)] r(1) by (auto simp: hash_mul_OK)
  have t: "r4 = Some (x + capacity * sizeof_size_t)" "x + capacity * sizeof_size_t \<le> SIZE_MAX"
    using r(3,4) x by (auto simp: hash_mul_OK hash_add_OK)
  obtain y where y: "r5 = Some y" "hm_key_align m dvd y" "x + capacity * sizeof_size_t \<le> y" "y \<le> SIZE_MAX"
    using hash_align_OK [OF r(5) al(1)] t by auto
  have u: "r7 = Some (y + capacity * hm_key_stride m)" "y + capacity * hm_key_stride m \<le> SIZE_MAX"
    using r(6,7) y by (auto simp: hash_mul_OK hash_add_OK)
  obtain z where z: "r8 = Some z" "hm_value_align m dvd z" "y + capacity * hm_key_stride m \<le> z" "z \<le> SIZE_MAX"
    using hash_align_OK [OF r(8) al(2)] u by auto
  have "r10 = Some (z + capacity * hm_value_stride m)" "z + capacity * hm_value_stride m \<le> SIZE_MAX"
    using r(9,10) z by (auto simp: hash_mul_OK hash_add_OK)
  then show ?thesis using x y z r(11-14) by simp
qed

lemma layout_cases:
  assumes "hash_map_layout m capacity = (st, ho, ko, vo, tot)"
    and "sequence_alignment_valid (hm_key_align m)" and "sequence_alignment_valid (hm_value_align m)"
  shows "st \<in> {STL_OK, STL_CAPACITY_EXCEEDED}"
proof -
  have mul: "st = STL_OK \<or> st = STL_CAPACITY_EXCEEDED" if "hash_mul a b c = (st, r)" for a b c st r
    using that by (auto simp: hash_mul_def split: if_splits)
  have align: "st = STL_OK \<or> st = STL_CAPACITY_EXCEEDED"
    if "hash_align v a (Some c) = (st, r)" "sequence_alignment_valid a" for v a c st r
    using that by (auto simp: hash_align_def Let_def split: if_splits)
  show ?thesis
    using assms(1) unfolding hash_map_layout_def
    by (auto split: prod.splits if_splits dest!: mul
        dest: align [OF _ layout_alignment(1)] align [OF _ assms(2)] align [OF _ assms(3)])
qed

text \<open>An upper bound for every capacity a map of this limit can ask for, and room for it.\<close>

definition hash_bucket_bound :: "size_t \<Rightarrow> size_t" where
  "hash_bucket_bound limit = 16 + 4 * limit"

definition hash_room :: "('k, 'v) hash_map \<Rightarrow> bool" where
  "hash_room m \<longleftrightarrow>
     hash_bucket_bound (hm_entry_limit m) *
       (1 + sizeof_size_t + hm_key_stride m + hm_value_stride m) +
       sizeof_pointer + 4 * hash_max_alignment m \<le> SIZE_MAX"

lemma max_alignment_bounds:
  "alignof_size_t \<le> hash_max_alignment m" "hm_key_align m \<le> hash_max_alignment m"
  "hm_value_align m \<le> hash_max_alignment m"
  by (auto simp: hash_max_alignment_def Let_def)

lemma max_alignment_valid:
  "sequence_alignment_valid (hm_key_align m) \<Longrightarrow> sequence_alignment_valid (hm_value_align m) \<Longrightarrow>
   sequence_alignment_valid (hash_max_alignment m)"
  by (auto simp: hash_max_alignment_def Let_def)

lemma hash_align_fits:
  assumes "sequence_alignment_valid a" and "v + a \<le> SIZE_MAX"
  shows "\<exists>x. hash_align v a (Some c) = (STL_OK, Some x) \<and> v \<le> x \<and> x < v + a"
proof -
  have "hash_align v a (Some c) = (STL_OK, snd (hash_align v a (Some c)))"
    using hash_align_cases [OF assms(1), of v c] assms(2) by (auto simp: prod_eq_iff)
  then show ?thesis using hash_align_OK [of v a c "snd (hash_align v a (Some c))"] assms(2) by auto
qed

lemma layout_fits:
  assumes room: "hash_room m" and cap: "capacity \<le> hash_bucket_bound (hm_entry_limit m)"
    and al: "sequence_alignment_valid (hm_key_align m)" "sequence_alignment_valid (hm_value_align m)"
  shows "\<exists>ho ko vo tot. hash_map_layout m capacity = (STL_OK, ho, ko, vo, tot) \<and>
    tot + sizeof_pointer + hash_max_alignment m \<le> SIZE_MAX"
proof -
  let ?A = "hash_max_alignment m"
  have "capacity * (1 + sizeof_size_t + hm_key_stride m + hm_value_stride m) \<le>
      hash_bucket_bound (hm_entry_limit m) * (1 + sizeof_size_t + hm_key_stride m + hm_value_stride m)"
    using cap by (rule mult_le_mono1)
  then have bound: "capacity + capacity * sizeof_size_t + capacity * hm_key_stride m +
      capacity * hm_value_stride m + sizeof_pointer + 4 * ?A \<le> SIZE_MAX"
    using room unfolding hash_room_def by (simp add: algebra_simps)
  note A = max_alignment_bounds [of m]
  obtain x where x: "hash_align capacity alignof_size_t (Some 0) = (STL_OK, Some x)" "x < capacity + ?A"
    using hash_align_fits [of alignof_size_t capacity 0] bound A by fastforce
  obtain y where y: "hash_align (x + capacity * sizeof_size_t) (hm_key_align m) (Some 0) = (STL_OK, Some y)"
    "y < x + capacity * sizeof_size_t + ?A"
    using hash_align_fits [OF al(1), of "x + capacity * sizeof_size_t" 0] bound A x(2) by fastforce
  obtain z where z: "hash_align (y + capacity * hm_key_stride m) (hm_value_align m) (Some 0) = (STL_OK, Some z)"
    "z < y + capacity * hm_key_stride m + ?A"
    using hash_align_fits [OF al(2), of "y + capacity * hm_key_stride m" 0] bound A x(2) y(2) by fastforce
  have le: "capacity * sizeof_size_t \<le> SIZE_MAX" "capacity * hm_key_stride m \<le> SIZE_MAX"
    "capacity * hm_value_stride m \<le> SIZE_MAX" "capacity * 1 \<le> SIZE_MAX"
    "x + capacity * sizeof_size_t \<le> SIZE_MAX" "y + capacity * hm_key_stride m \<le> SIZE_MAX"
    "z + capacity * hm_value_stride m + sizeof_pointer + ?A \<le> SIZE_MAX"
    using bound x(2) y(2) z(2) by linarith+
  have mul: "hash_mul capacity b (Some 0) = (STL_OK, Some (capacity * b))" if "capacity * b \<le> SIZE_MAX" for b
    using that hash_mul_OK [of capacity b 0] by simp
  have add: "hash_add a b (Some 0) = (STL_OK, Some (a + b))" if "a + b \<le> SIZE_MAX" for a b
    using that hash_add_OK [of a b 0] by simp
  have "z + capacity * hm_value_stride m \<le> SIZE_MAX" using le(7) by linarith
  then have "hash_map_layout m capacity = (STL_OK, x, y, z, z + capacity * hm_value_stride m)"
    using x(1) y(1) z(1) mul [OF le(4)] mul [OF le(1)] mul [OF le(2)] mul [OF le(3)] add [OF le(5)] add [OF le(6)]
      add [of z "capacity * hm_value_stride m"]
    by (simp add: hash_map_layout_def)
  then show ?thesis using le(7) by auto
qed

section \<open>The arrays as a table\<close>

definition cell_at :: "('k, 'v) hash_map \<Rightarrow> size_t \<Rightarrow> ('k, 'v) cell" where
  "cell_at m i =
     (if hash_state m i = SALTS_HASH_OCCUPIED
      then Taken (hm_hashes m ! i) (the (hm_keys m ! i)) (the (hm_values m ! i))
      else if hash_state m i = SALTS_HASH_TOMBSTONE then Grave else Free)"

definition cells :: "('k, 'v) hash_map \<Rightarrow> ('k, 'v) cell list" where
  "cells m = map (cell_at m) [0..<hm_capacity m]"

lemma length_cells [simp]: "length (cells m) = hm_capacity m"
  by (simp add: cells_def)

lemma nth_cells [simp]: "i < hm_capacity m \<Longrightarrow> cells m ! i = cell_at m i"
  by (simp add: cells_def)

text \<open>The shape of the arrays. A state byte is one of the three constants.\<close>

definition hash_arrays :: "('k, 'v) hash_map \<Rightarrow> bool" where
  "hash_arrays m \<longleftrightarrow>
     length (hm_hashes m) = hm_capacity m \<and> length (hm_keys m) = hm_capacity m \<and>
     length (hm_values m) = hm_capacity m \<and>
     (case hm_states m of
        None \<Rightarrow> hm_capacity m = 0
      | Some st \<Rightarrow> length st = hm_capacity m \<and> (\<exists>k. 4 \<le> k \<and> k \<le> 63 \<and> hm_capacity m = 2 ^ k) \<and>
          (\<forall>i<hm_capacity m. st ! i \<in> {SALTS_HASH_EMPTY, SALTS_HASH_OCCUPIED, SALTS_HASH_TOMBSTONE}) \<and>
          (\<forall>i<hm_capacity m. st ! i = SALTS_HASH_OCCUPIED \<longrightarrow> hm_keys m ! i \<noteq> None \<and> hm_values m ! i \<noteq> None))"

lemma states_distinct [simp]:
  "SALTS_HASH_EMPTY \<noteq> SALTS_HASH_OCCUPIED" "SALTS_HASH_EMPTY \<noteq> SALTS_HASH_TOMBSTONE"
  "SALTS_HASH_OCCUPIED \<noteq> SALTS_HASH_EMPTY" "SALTS_HASH_TOMBSTONE \<noteq> SALTS_HASH_EMPTY"
  "SALTS_HASH_OCCUPIED \<noteq> SALTS_HASH_TOMBSTONE" "SALTS_HASH_TOMBSTONE \<noteq> SALTS_HASH_OCCUPIED"
  by (simp_all add: hash_state_defs)

lemma hash_arrays_state:
  assumes "hash_arrays m" and "i < hm_capacity m"
  shows "hash_state m i = SALTS_HASH_EMPTY \<or> hash_state m i = SALTS_HASH_OCCUPIED \<or>
    hash_state m i = SALTS_HASH_TOMBSTONE"
    and "hash_state m i = SALTS_HASH_OCCUPIED \<Longrightarrow>
      hm_keys m ! i = Some (the (hm_keys m ! i)) \<and> hm_values m ! i = Some (the (hm_values m ! i))"
    and "hm_states m \<noteq> NULL"
  using assms by (auto simp: hash_arrays_def hash_state_def split: option.splits)

lemma cell_at_iff:
  assumes "hash_arrays m" and "i < hm_capacity m"
  shows "cell_at m i = Free \<longleftrightarrow> hash_state m i = SALTS_HASH_EMPTY"
    and "cell_at m i = Grave \<longleftrightarrow> hash_state m i = SALTS_HASH_TOMBSTONE"
    and "is_taken (cell_at m i) \<longleftrightarrow> hash_state m i = SALTS_HASH_OCCUPIED"
  using hash_arrays_state [OF assms] by (auto simp: cell_at_def)

lemma masked_slot:
  assumes "n = 2 ^ k" and "k \<le> 64"
  shows "size_add h p AND (n - 1) = probe_slot n h p"
proof -
  have "(2::nat) ^ k dvd 2 ^ 64" using assms(2) by (rule le_imp_power_dvd)
  then have "size_add h p mod 2 ^ k = (h + p) mod 2 ^ k"
    by (simp add: size_add_def SIZE_MAX_def mod_mod_cancel)
  moreover have "size_add h p AND (2 ^ k - 1) = size_add h p mod 2 ^ k"
    using take_bit_eq_mask [of k "size_add h p"] take_bit_eq_mod [of k "size_add h p"]
      mask_eq_exp_minus_1 [of k, where 'a = nat] by simp
  ultimately show ?thesis using assms(1) by (simp add: probe_slot_def)
qed

lemma hash_arrays_slot:
  assumes "hash_arrays m" and "hm_capacity m \<noteq> 0"
  shows "size_add h p AND (hm_capacity m - 1) = probe_slot (hm_capacity m) h p"
    and "probe_slot (hm_capacity m) h p < hm_capacity m" and "hm_capacity m < SIZE_MAX"
proof -
  obtain k where k: "k \<le> 63" "hm_capacity m = 2 ^ k"
    using assms by (auto simp: hash_arrays_def split: option.splits)
  then show "size_add h p AND (hm_capacity m - 1) = probe_slot (hm_capacity m) h p"
    by (intro masked_slot [of _ k]) auto
  show "probe_slot (hm_capacity m) h p < hm_capacity m" using assms(2) by simp
  have "(2::nat) ^ k \<le> 2 ^ 63" using k(1) by (rule power_increasing) simp
  then show "hm_capacity m < SIZE_MAX" using k(2) by (simp add: SIZE_MAX_def)
qed

lemma find_loop_table:
  assumes "hash_arrays m" and "hm_capacity m \<noteq> 0"
  shows "probe + fuel = hm_capacity m \<Longrightarrow> hash_find_loop m key h probe c =
    (case find_from (hash_map_equal m) (cells m) h key probe fuel of None \<Rightarrow> (False, c) | Some i \<Rightarrow> (True, i))"
proof (induction fuel arbitrary: probe)
  case 0
  then show ?case by (subst hash_find_loop.simps) simp
next
  case (Suc fuel)
  let ?i = "probe_slot (hm_capacity m) h probe"
  note slot = hash_arrays_slot(1,2) [OF assms, of h probe] hash_arrays_slot(3) [OF assms]
  note st = cell_at_iff [OF assms(1) slot(2)] hash_arrays_state(1) [OF assms(1) slot(2)]
  have "matches (hash_map_equal m) h key (cell_at m ?i) \<longleftrightarrow>
      hash_state m ?i = SALTS_HASH_OCCUPIED \<and> hm_hashes m ! ?i = h \<and>
      hash_map_equal m (the (hm_keys m ! ?i)) key"
    by (auto simp: cell_at_def)
  then show ?case
    using Suc slot(1,2) st by (subst hash_find_loop.simps) (auto simp: Let_def split: option.split)
qed

lemma find_slot_table:
  assumes "hash_arrays m"
  shows "hash_map_find_slot m key h c =
    (case find_from (hash_map_equal m) (cells m) h key 0 (hm_capacity m) of
       None \<Rightarrow> (False, c) | Some i \<Rightarrow> (True, i))"
  using find_loop_table [OF assms, of 0 "hm_capacity m"] by (simp add: hash_map_find_slot_def)

lemma insert_loop_table:
  assumes "hash_arrays m" and "hm_capacity m \<noteq> 0"
  shows "probe + fuel = hm_capacity m \<Longrightarrow> (\<And>i. g = Some i \<Longrightarrow> i < hm_capacity m) \<Longrightarrow>
    hash_insert_loop m h (case g of None \<Rightarrow> SIZE_MAX | Some i \<Rightarrow> i) probe =
    (case place_from (cells m) h g probe fuel of None \<Rightarrow> SIZE_MAX | Some i \<Rightarrow> i)"
proof (induction fuel arbitrary: probe g)
  case 0
  then show ?case by (subst hash_insert_loop.simps) simp
next
  case (Suc fuel)
  let ?i = "probe_slot (hm_capacity m) h probe" and ?t = "case g of None \<Rightarrow> SIZE_MAX | Some i \<Rightarrow> i"
  note slot = hash_arrays_slot(1,2) [OF assms, of h probe] hash_arrays_slot(3) [OF assms]
  note st = cell_at_iff [OF assms(1) slot(2)] hash_arrays_state(1) [OF assms(1) slot(2)]
  have sent: "?t = SIZE_MAX \<longleftrightarrow> g = None" using Suc.prems(2) slot(3) by (cases g) fastforce+
  have first: "(if ?t = SIZE_MAX then ?i else ?t) =
      (case (if g = None then Some ?i else g) of None \<Rightarrow> SIZE_MAX | Some i \<Rightarrow> i)"
    using sent by (cases g) auto
  have step: "hash_insert_loop m h ?t probe =
     (if hash_state m ?i = SALTS_HASH_TOMBSTONE
      then hash_insert_loop m h (if ?t = SIZE_MAX then ?i else ?t) (probe + 1)
      else if hash_state m ?i = SALTS_HASH_EMPTY then if ?t = SIZE_MAX then ?i else ?t
      else hash_insert_loop m h ?t (probe + 1))"
    using Suc.prems(1) slot(1) by (subst hash_insert_loop.simps) (simp add: Let_def)
  have "hash_insert_loop m h (if ?t = SIZE_MAX then ?i else ?t) (probe + 1) =
     (case place_from (cells m) h (if g = None then Some ?i else g) (probe + 1) fuel of
        None \<Rightarrow> SIZE_MAX | Some i \<Rightarrow> i)"
    unfolding first using Suc.prems slot(2) by (intro Suc.IH) (auto split: if_splits)
  moreover have "hash_insert_loop m h ?t (probe + 1) =
     (case place_from (cells m) h g (probe + 1) fuel of None \<Rightarrow> SIZE_MAX | Some i \<Rightarrow> i)"
    using Suc.prems by (intro Suc.IH) auto
  ultimately show ?case
    using st slot(2) first
    by (cases "cell_at m ?i") (simp_all add: step Let_def)
qed

lemma insert_slot_table:
  assumes "hash_arrays m" and "hm_capacity m \<noteq> 0"
  shows "hash_map_insert_slot m h =
    (case place_from (cells m) h None 0 (hm_capacity m) of None \<Rightarrow> SIZE_MAX | Some i \<Rightarrow> i)"
  using insert_loop_table [OF assms, of 0 "hm_capacity m" None h] by (simp add: hash_map_insert_slot_def)

section \<open>Updates of the table\<close>

lemma cells_scalars [simp]:
  "cells (m\<lparr>hm_size := a\<rparr>) = cells m" "cells (m\<lparr>hm_tombstones := a\<rparr>) = cells m"
  "cells (m\<lparr>hm_generation := g\<rparr>) = cells m"
  by (simp_all add: cells_def cell_at_def hash_state_def cong: map_cong)

lemma arrays_scalars [simp]:
  "hash_arrays (m\<lparr>hm_size := a\<rparr>) = hash_arrays m" "hash_arrays (m\<lparr>hm_tombstones := a\<rparr>) = hash_arrays m"
  "hash_arrays (m\<lparr>hm_generation := g\<rparr>) = hash_arrays m"
  by (simp_all add: hash_arrays_def cong: option.case_cong)

text \<open>Everything but the arrays and the counters: what the key functions depend on.\<close>

definition hash_config :: "('k, 'v) hash_map \<Rightarrow> ('k, 'v) hash_map \<Rightarrow> bool" where
  "hash_config m w \<longleftrightarrow> w = m\<lparr>hm_states := hm_states w, hm_hashes := hm_hashes w, hm_keys := hm_keys w,
     hm_values := hm_values w, hm_size := hm_size w, hm_capacity := hm_capacity w,
     hm_tombstones := hm_tombstones w, hm_generation := hm_generation w\<rparr>"

lemma hash_config_refl [simp]: "hash_config m m"
  by (simp add: hash_config_def)

lemma hash_config_fields:
  assumes "hash_config m w"
  shows "hm_descriptor w = hm_descriptor m" "hm_key_size w = hm_key_size m" "hm_key_stride w = hm_key_stride m"
    "hm_key_align w = hm_key_align m" "hm_value_size w = hm_value_size m"
    "hm_value_stride w = hm_value_stride m" "hm_value_align w = hm_value_align m"
    "hm_entry_limit w = hm_entry_limit m" "hm_key_type w = hm_key_type m" "hm_value_type w = hm_value_type m"
    "hm_hash w = hm_hash m" "hm_equal w = hm_equal m" "hm_initialized w = hm_initialized m"
  by (subst assms [unfolded hash_config_def], simp)+

lemma hash_config_I:
  "hm_descriptor w = hm_descriptor m \<Longrightarrow> hm_key_size w = hm_key_size m \<Longrightarrow>
   hm_key_stride w = hm_key_stride m \<Longrightarrow> hm_key_align w = hm_key_align m \<Longrightarrow>
   hm_value_size w = hm_value_size m \<Longrightarrow> hm_value_stride w = hm_value_stride m \<Longrightarrow>
   hm_value_align w = hm_value_align m \<Longrightarrow> hm_entry_limit w = hm_entry_limit m \<Longrightarrow>
   hm_key_type w = hm_key_type m \<Longrightarrow> hm_value_type w = hm_value_type m \<Longrightarrow> hm_hash w = hm_hash m \<Longrightarrow>
   hm_equal w = hm_equal m \<Longrightarrow> hm_initialized w = hm_initialized m \<Longrightarrow> hash_config m w"
  unfolding hash_config_def by (cases m, cases w) simp

lemma hash_config_trans: "hash_config m w \<Longrightarrow> hash_config w u \<Longrightarrow> hash_config m u"
  by (rule hash_config_I) (simp_all add: hash_config_fields)

lemma hash_config_functions:
  assumes "hash_config m w"
  shows "hash_map_equal w = hash_map_equal m" "hash_map_hash w = hash_map_hash m"
    "hash_map_valid (Some w) = hash_map_valid (Some m)" "hash_max_alignment w = hash_max_alignment m"
    "hash_room w = hash_room m"
  by (simp_all add: hash_map_equal_def hash_map_hash_def hash_map_valid_def hash_max_alignment_def hash_room_def
      fun_eq_iff Let_def hash_config_fields [OF assms])

lemma move_construct_ok [simp]: "elem_ok type \<Longrightarrow> hash_move_construct type (Some x) = Some x"
proof (cases type)
  case (Some t)
  assume "elem_ok type"
  then have t: "cmeta_type_require_traits (Some t) (CMETA_TRAIT_MOVE OR CMETA_TRAIT_DESTROY) = CMETA_OK"
    "traits_lawful t"
    using Some require_type_traits by (auto simp: elem_ok_def)
  have "(CMETA_TRAIT_MOVE OR CMETA_TRAIT_DESTROY) AND CMETA_TRAIT_MOVE \<noteq> 0"
    "CMETA_TRAIT_MOVE OR CMETA_TRAIT_DESTROY \<noteq> 0"
    by (simp_all add: trait_flag_defs)
  then obtain traits where "td_traits t = Some traits" "tr_move_construct traits \<noteq> NULL"
    using traits_present [OF t(1)] by metis
  then show ?thesis using t Some by (auto simp: hash_move_construct_def traits_lawful_def)
qed (simp add: hash_move_construct_def)

lemma fill_table:
  assumes "hash_arrays m" and "i < hm_capacity m"
  shows "hash_arrays (hash_fill i h (Some k) (Some v) m)"
    and "cells (hash_fill i h (Some k) (Some v) m) = (cells m)[i := Taken h k v]"
    and "hash_config m (hash_fill i h (Some k) (Some v) m)"
    and "hm_capacity (hash_fill i h (Some k) (Some v) m) = hm_capacity m"
proof -
  obtain st where st: "hm_states m = Some st" "length st = hm_capacity m"
    using assms by (auto simp: hash_arrays_def split: option.splits)
  show "hash_arrays (hash_fill i h (Some k) (Some v) m)"
    using assms st by (auto simp: hash_arrays_def hash_fill_def nth_list_update)
  show "cells (hash_fill i h (Some k) (Some v) m) = (cells m)[i := Taken h k v]"
    using assms st by (intro nth_equalityI)
      (auto simp: cells_def cell_at_def hash_state_def hash_fill_def hash_arrays_def nth_list_update)
  show "hash_config m (hash_fill i h (Some k) (Some v) m)" by (simp add: hash_config_def hash_fill_def)
  show "hm_capacity (hash_fill i h (Some k) (Some v) m) = hm_capacity m" by (simp add: hash_fill_def)
qed

lemma rehash_insert_table:
  assumes arr: "hash_arrays m" and types: "elem_ok (hm_key_type m)" "elem_ok (hm_value_type m)"
    and room: "taken_count (cells m) < hm_capacity m"
    and run: "hash_map_rehash_insert m h (Some k) (Some v) = w"
  shows "hash_arrays w \<and>
    cells w = (cells m)[the (place_from (cells m) h None 0 (hm_capacity m)) := Taken h k v] \<and>
    hm_size w = hm_size m + 1 \<and> hm_tombstones w = hm_tombstones m \<and> hm_generation w = hm_generation m \<and>
    hm_capacity w = hm_capacity m \<and> hash_config m w \<and>
    taken_count (cells w) = taken_count (cells m) + 1"
proof -
  obtain i where i: "place_from (cells m) h None 0 (hm_capacity m) = Some i" "i < hm_capacity m"
    "\<not> is_taken (cells m ! i)"
    using not_all_taken [of "cells m"] place_from_total [of _ "cells m" h] room by fastforce
  have slot: "hash_map_insert_slot m h = i" using insert_slot_table [OF arr] i by simp
  let ?f = "hash_fill i h (Some k) (Some v) m"
  have w: "w = ?f\<lparr>hm_size := hm_size m + 1\<rparr>"
    using run slot types by (simp add: hash_map_rehash_insert_def Let_def hash_fill_def)
  have "hash_config m w" using fill_table(3) [OF arr i(2)] unfolding w hash_config_def by (simp add: hash_fill_def)
  moreover have "taken_count ((cells m)[i := Taken h k v]) = taken_count (cells m) + 1"
    using taken_count_update [of i "cells m" "Taken h k v"] i by simp
  ultimately show ?thesis
    using fill_table(1,2,4) [OF arr i(2)] i(1) by (simp add: w) (simp add: hash_fill_def)
qed

text \<open>The part of the old arrays that is still to be moved.\<close>

definition pending :: "('k, 'v) hash_map \<Rightarrow> size_t \<Rightarrow> bool" where
  "pending m slot \<longleftrightarrow> length (hm_keys m) = hm_capacity m \<and> length (hm_values m) = hm_capacity m \<and>
     (\<forall>i. slot \<le> i \<longrightarrow> i < hm_capacity m \<longrightarrow> hash_state m i = SALTS_HASH_OCCUPIED \<longrightarrow>
        (\<exists>k v. hm_keys m ! i = Some k \<and> hm_values m ! i = Some v))"

lemma rehash_loop_table:
  assumes "pending m slot" and "slot \<le> hm_capacity m" and "hash_arrays nxt"
    and "elem_ok (hm_key_type nxt)" and "elem_ok (hm_value_type nxt)"
    and "taken_count (cells nxt) + taken_count (drop slot (cells m)) \<le> hm_capacity nxt"
    and "hash_rehash_loop m slot nxt = w"
  shows "hash_arrays w \<and> cells w = rebuild (drop slot (cells m)) (cells nxt) \<and>
    hm_size w = hm_size nxt + taken_count (drop slot (cells m)) \<and> hm_tombstones w = hm_tombstones nxt \<and>
    hm_generation w = hm_generation nxt \<and> hm_capacity w = hm_capacity nxt \<and> hash_config nxt w"
  using assms
proof (induction "hm_capacity m - slot" arbitrary: m slot nxt)
  case 0
  then show ?case by (simp add: hash_rehash_loop.simps [of m])
next
  case (Suc n)
  then have lt: "slot < hm_capacity m" by linarith
  have drop: "drop slot (cells m) = cell_at m slot # drop (Suc slot) (cells m)"
    using lt by (metis Cons_nth_drop_Suc length_cells nth_cells)
  show ?case
  proof (cases "hash_state m slot = SALTS_HASH_OCCUPIED")
    case False
    then have "rebuild (drop slot (cells m)) N = rebuild (drop (Suc slot) (cells m)) N"
      "taken_count (drop slot (cells m)) = taken_count (drop (Suc slot) (cells m))" for N
      unfolding drop by (simp_all add: cell_at_def)
    moreover have "hash_rehash_loop m (Suc slot) nxt = w"
      using Suc.prems(7) lt False by (simp add: hash_rehash_loop.simps [of m slot])
    moreover have "pending m (Suc slot)" using Suc.prems(1) by (simp add: pending_def)
    ultimately show ?thesis
      using Suc.hyps(1) [of m "Suc slot" nxt] Suc.hyps(2) Suc.prems(3-6) lt by simp
  next
    case True
    then obtain k v where kv: "hm_keys m ! slot = Some k" "hm_values m ! slot = Some v"
      using Suc.prems(1) lt by (auto simp: pending_def)
    let ?h = "hm_hashes m ! slot"
    let ?m = "m\<lparr>hm_keys := (hm_keys m)[slot := hash_destroy_value (hm_key_type m) (hm_keys m ! slot)],
      hm_values := (hm_values m)[slot := hash_destroy_value (hm_value_type m) (hm_values m ! slot)]\<rparr>"
    let ?n = "hash_map_rehash_insert nxt ?h (Some k) (Some v)"
    have c: "cell_at m slot = Taken ?h k v" using True kv by (simp add: cell_at_def)
    have "taken_count (cells nxt) < hm_capacity nxt" using Suc.prems(6) unfolding drop c by simp
    from rehash_insert_table [OF Suc.prems(3-5) this refl, of ?h k v]
    have N: "hash_arrays ?n"
      "cells ?n = (cells nxt)[the (place_from (cells nxt) ?h None 0 (hm_capacity nxt)) := Taken ?h k v]"
      "hm_size ?n = hm_size nxt + 1" "hm_tombstones ?n = hm_tombstones nxt"
      "hm_generation ?n = hm_generation nxt" "hm_capacity ?n = hm_capacity nxt" "hash_config nxt ?n"
      "taken_count (cells ?n) = taken_count (cells nxt) + 1"
      by blast+
    have dm: "drop (Suc slot) (cells ?m) = drop (Suc slot) (cells m)"
      by (auto simp: cells_def cell_at_def hash_state_def drop_map)
    have pm: "pending ?m (Suc slot)" using Suc.prems(1) by (auto simp: pending_def hash_state_def)
    have "hash_rehash_loop ?m (Suc slot) ?n = w"
      using Suc.prems(7) lt True kv by (simp add: hash_rehash_loop.simps [of m slot])
    then have "hash_arrays w \<and> cells w = rebuild (drop (Suc slot) (cells m)) (cells ?n) \<and>
      hm_size w = hm_size ?n + taken_count (drop (Suc slot) (cells m)) \<and> hm_tombstones w = hm_tombstones ?n \<and>
      hm_generation w = hm_generation ?n \<and> hm_capacity w = hm_capacity ?n \<and> hash_config ?n w"
    proof -
      have "n = hm_capacity ?m - Suc slot" "Suc slot \<le> hm_capacity ?m" using Suc.hyps(2) lt by simp_all
      moreover have "elem_ok (hm_key_type ?n)" "elem_ok (hm_value_type ?n)"
        using Suc.prems(4,5) hash_config_fields [OF N(7)] by simp_all
      moreover have "taken_count (cells ?n) + taken_count (drop (Suc slot) (cells ?m)) \<le> hm_capacity ?n"
        using Suc.prems(6) N(6,8) unfolding drop c dm by simp
      moreover assume "hash_rehash_loop ?m (Suc slot) ?n = w"
      ultimately show ?thesis using Suc.hyps(1) [OF _ pm _ N(1)] unfolding dm by blast
    qed
    then show ?thesis
      using N(2-6) hash_config_trans [OF N(7)] unfolding drop c by simp
  qed
qed

section \<open>The representation invariant\<close>

text \<open>
  \<open>hash_rep m f\<close>: the map is well formed, its user functions are lawful, and its table
  stands for the partial map \<open>f\<close> (up to the keys' own equality). The load stays at seven
  tenths, which keeps a slot open for every insertion.
\<close>

definition hash_bound :: "('k, 'v) hash_map \<Rightarrow> bool" where
  "hash_bound m \<longleftrightarrow> hash_map_valid (Some m) \<and>
     hm_key_stride m \<noteq> 0 \<and> hm_value_stride m \<noteq> 0 \<and>
     sequence_alignment_valid (hm_key_align m) \<and> sequence_alignment_valid (hm_value_align m) \<and>
     hm_key_align m \<le> SIZE_MAX \<and> hm_value_align m \<le> SIZE_MAX \<and>
     elem_ok (hm_key_type m) \<and> elem_ok (hm_value_type m) \<and>
     hm_entry_limit m < SIZE_MAX \<and> hash_key (hash_map_equal m) (hash_map_hash m)"

definition hash_rep :: "('k, 'v) hash_map \<Rightarrow> ('k \<Rightarrow> 'v option) \<Rightarrow> bool" where
  "hash_rep m f \<longleftrightarrow> hash_bound m \<and> hash_arrays m \<and>
     table_ok (hash_map_equal m) (hash_map_hash m) (cells m) \<and> table_map (hash_map_equal m) (cells m) = f \<and>
     hm_size m = taken_count (cells m) \<and> hm_tombstones m = grave_count (cells m) \<and>
     10 * hm_size m \<le> 7 * hm_capacity m \<and> hm_size m \<le> hm_entry_limit m \<and>
     hm_capacity m \<le> hash_bucket_bound (hm_entry_limit m)"

definition hash_supplied :: "('k, 'v) hash_map \<Rightarrow> env \<Rightarrow> bool" where
  "hash_supplied m s \<longleftrightarrow> hash_room m \<and>
     (\<forall>n. \<exists>a. malloc_oracle s n = Some a \<and> unat a + sizeof_pointer + hash_max_alignment m \<le> SIZE_MAX) \<and>
     copy_total (hm_key_type m) \<and> copy_total (hm_value_type m)"

definition hash_blocks :: "('k, 'v) hash_map \<Rightarrow> int" where
  "hash_blocks m = (if hm_states m = NULL then 0 else 1)"

lemma hash_bound_config: "hash_config m w \<Longrightarrow> hash_bound w = hash_bound m"
  by (simp add: hash_bound_def hash_config_functions hash_config_fields)

lemma hash_supplied_config: "hash_config m w \<Longrightarrow> hash_supplied w s = hash_supplied m s"
  by (simp add: hash_supplied_def hash_config_functions hash_config_fields)

lemma hash_supplied_delta: "env_delta k s s' \<Longrightarrow> hash_supplied m s' = hash_supplied m s"
  by (simp add: hash_supplied_def env_delta_def)

lemma supplied_generous:
  assumes "hash_supplied m s" and "align \<le> hash_max_alignment m"
    and "stride + sizeof_pointer + align \<le> SIZE_MAX"
  shows "generous 1 stride align s"
  unfolding generous_def
proof (intro conjI allI)
  fix n
  obtain a where "malloc_oracle s n = Some a" "unat a + sizeof_pointer + hash_max_alignment m \<le> SIZE_MAX"
    using assms(1) by (auto simp: hash_supplied_def)
  then show "\<exists>a. malloc_oracle s n = Some a \<and> unat a + sizeof_pointer + align \<le> SIZE_MAX"
    using assms(2) by (intro exI [of _ a]) simp
qed (use assms(3) in simp)

lemma room_stride:
  assumes "hash_room m"
  shows "hm_key_stride m + sizeof_pointer + hm_key_align m \<le> SIZE_MAX"
    and "hm_value_stride m + sizeof_pointer + hm_value_align m \<le> SIZE_MAX"
proof -
  define P where "P = hash_bucket_bound (hm_entry_limit m) * (1 + sizeof_size_t + hm_key_stride m + hm_value_stride m)"
  have "1 * (1 + sizeof_size_t + hm_key_stride m + hm_value_stride m) \<le> P"
    unfolding P_def by (rule mult_le_mono1) (simp add: hash_bucket_bound_def)
  moreover have "P + sizeof_pointer + 4 * hash_max_alignment m \<le> SIZE_MAX"
    using assms unfolding hash_room_def P_def .
  ultimately show "hm_key_stride m + sizeof_pointer + hm_key_align m \<le> SIZE_MAX"
    "hm_value_stride m + sizeof_pointer + hm_value_align m \<le> SIZE_MAX"
    using max_alignment_bounds [of m] by simp_all
qed

lemma supplied_elements:
  assumes "hash_supplied m s"
  shows "copy_total (hm_key_type m) \<and> generous 1 (hm_key_stride m) (hm_key_align m) s"
    and "copy_total (hm_value_type m) \<and> generous 1 (hm_value_stride m) (hm_value_align m) s"
  using assms supplied_generous [OF assms] room_stride [of m] max_alignment_bounds [of m]
  by (simp_all add: hash_supplied_def)

lemma prepare_cases:
  assumes "elem_ok type" and "stride \<noteq> 0" and "sequence_alignment_valid align"
    and run: "hash_prepare type stride align (Some x) s = (st, v, s')"
  shows "(st = STL_OK \<and> v = Some (Some x) \<and> env_delta 1 s s') \<or>
    (st \<in> {STL_CAPACITY_EXCEEDED, STL_OUT_OF_MEMORY} \<and> v = NULL \<and> env_delta 0 s s' \<and>
     \<not> (copy_total type \<and> generous 1 stride align s))"
proof -
  obtain st1 cell s1 where al: "sequence_allocate 1 stride align (Some NULL) s = (st1, cell, s1)"
    by (metis prod_cases3)
  consider a where "st1 = STL_OK" "cell = Some (Some a)" "env_delta 1 s s1"
    | "st1 \<in> {STL_CAPACITY_EXCEEDED, STL_OUT_OF_MEMORY}" "env_delta 0 s s1" "\<not> generous 1 stride align s"
    using allocate_cases [OF al assms(3) _ assms(2)] allocate_generous [OF al _ _ assms(3), of 1] by auto
  then show ?thesis
  proof cases
    case 1
    show ?thesis
    proof (cases type)
      case None
      then show ?thesis using 1 run al by (simp add: hash_prepare_def)
    next
      case (Some t)
      have copy: "cmeta_type_require_traits (Some t) CMETA_TRAIT_COPY = CMETA_OK" "traits_lawful t"
        using assms(1) Some require_type_traits by (auto simp: elem_ok_def)
      obtain traits f where f: "td_traits t = Some traits" "tr_copy_construct traits = Some f"
        using traits_present [OF copy(1)] by (metis and.idem not_None_eq trait_flags_nonzero(1))
      show ?thesis
        using 1 run al Some f copy(2)
        by (cases "f x") (auto simp: hash_prepare_def traits_lawful_def copy_total_def)
    qed
  next
    case 2
    then show ?thesis using run al by (auto simp: hash_prepare_def)
  qed
qed

lemma allocate_table_cases:
  assumes bound: "hash_bound m" and "capacity \<noteq> 0"
    and run: "hash_map_allocate m capacity s = (st, w, s')"
  shows "(st = STL_OK \<and> env_delta 1 s s' \<and>
      w = m\<lparr>hm_states := Some (replicate capacity SALTS_HASH_EMPTY), hm_hashes := replicate capacity 0,
            hm_keys := replicate capacity None, hm_values := replicate capacity None, hm_capacity := capacity\<rparr>) \<or>
    (st \<in> {STL_CAPACITY_EXCEEDED, STL_OUT_OF_MEMORY} \<and> env_delta 0 s s' \<and>
     (hash_supplied m s \<longrightarrow> hash_bucket_bound (hm_entry_limit m) < capacity))"
proof -
  have al: "sequence_alignment_valid (hm_key_align m)" "sequence_alignment_valid (hm_value_align m)"
    "hm_key_align m \<le> SIZE_MAX" "hm_value_align m \<le> SIZE_MAX" "hm_value_stride m \<noteq> 0"
    using bound by (auto simp: hash_bound_def)
  note valid = max_alignment_valid [OF al(1,2)]
  obtain st1 ho ko vo tot where lay: "hash_map_layout m capacity = (st1, ho, ko, vo, tot)" by (metis prod_cases5)
  have fits: "st1 = STL_OK \<and> tot + sizeof_pointer + hash_max_alignment m \<le> SIZE_MAX"
    if "hash_supplied m s" "capacity \<le> hash_bucket_bound (hm_entry_limit m)"
    using layout_fits [of m, OF _ that(2) al(1,2)] that(1) lay by (auto simp: hash_supplied_def)
  show ?thesis
  proof (cases "st1 = STL_OK")
    case False
    then have "hash_supplied m s \<longrightarrow> hash_bucket_bound (hm_entry_limit m) < capacity"
      using fits not_less by blast
    then show ?thesis using False layout_cases [OF lay al(1,2)] run lay
      by (auto simp: hash_map_allocate_def)
  next
    case True
    have "tot \<noteq> 0" using layout_OK [OF lay [unfolded True] al(3,4)] al(5) assms(2) by auto
    obtain st2 cell s1 where a: "sequence_allocate 1 tot (hash_max_alignment m) (Some NULL) s = (st2, cell, s1)"
      by (metis prod_cases3)
    have gen: "generous 1 tot (hash_max_alignment m) s"
      if "hash_supplied m s" "\<not> hash_bucket_bound (hm_entry_limit m) < capacity"
      using supplied_generous [OF that(1) order_refl] fits [OF that(1)] that(2) by simp
    from allocate_cases [OF a valid _ \<open>tot \<noteq> 0\<close>] allocate_generous [OF a _ _ valid, of 1]
    consider x where "st2 = STL_OK" "cell = Some (Some x)" "env_delta 1 s s1"
      | "st2 \<in> {STL_CAPACITY_EXCEEDED, STL_OUT_OF_MEMORY}" "env_delta 0 s s1"
        "\<not> generous 1 tot (hash_max_alignment m) s"
      by auto
    then show ?thesis
      using run lay True a gen by cases (auto simp: hash_map_allocate_def)
  qed
qed

lemma taken_count_free [simp]: "taken_count (replicate n Free) = 0"
  by (simp add: taken_count_def)

lemma rehash_cases:
  assumes rep: "hash_rep m f" and cap: "capacity = 2 ^ k" "4 \<le> k" "k \<le> 63"
    and load: "10 * hm_size m \<le> 7 * capacity" and fit: "capacity \<le> hash_bucket_bound (hm_entry_limit m)"
    and run: "hash_map_rehash m capacity s = (st, w, s')"
  shows "(st = STL_OK \<and> hash_rep w f \<and> hm_capacity w = capacity \<and> hm_size w = hm_size m \<and>
      hm_tombstones w = 0 \<and> hm_generation w = hm_generation m \<and> hash_config m w \<and>
      env_delta (hash_blocks w - hash_blocks m) s s') \<or>
    (st \<in> {STL_CAPACITY_EXCEEDED, STL_OUT_OF_MEMORY} \<and> w = m \<and> env_delta 0 s s' \<and> \<not> hash_supplied m s)"
proof -
  let ?n0 = "m\<lparr>hm_states := NULL, hm_hashes := [], hm_keys := [], hm_values := [], hm_size := 0,
    hm_capacity := 0, hm_tombstones := 0\<rparr>"
  have m: "hash_bound m" "hash_arrays m" "table_ok (hash_map_equal m) (hash_map_hash m) (cells m)"
    "hm_size m = taken_count (cells m)" "hm_size m \<le> hm_entry_limit m"
    "hash_key (hash_map_equal m) (hash_map_hash m)" "elem_ok (hm_key_type m)" "elem_ok (hm_value_type m)"
    using rep by (auto simp: hash_rep_def hash_bound_def)
  have cfg0: "hash_config m ?n0" by (simp add: hash_config_def)
  obtain st1 n1 s1 where al: "hash_map_allocate ?n0 capacity s = (st1, n1, s1)" by (metis prod_cases3)
  have "capacity \<noteq> 0" using cap by simp
  from allocate_table_cases [OF _ this al] hash_bound_config [OF cfg0] m(1)
  consider (ok) "st1 = STL_OK" "env_delta 1 s s1"
      "n1 = ?n0\<lparr>hm_states := Some (replicate capacity SALTS_HASH_EMPTY), hm_hashes := replicate capacity 0,
         hm_keys := replicate capacity None, hm_values := replicate capacity None, hm_capacity := capacity\<rparr>"
    | (no) "st1 \<in> {STL_CAPACITY_EXCEEDED, STL_OUT_OF_MEMORY}" "env_delta 0 s s1" "\<not> hash_supplied m s"
    using fit by (auto simp: hash_supplied_config [OF cfg0])
  then show ?thesis
  proof cases
    case no
    then show ?thesis using run al by (auto simp: hash_map_rehash_def Let_def)
  next
    case ok
    have cfg1: "hash_config m n1" unfolding ok(3) by (simp add: hash_config_def)
    have c1: "cells n1 = replicate capacity Free"
      unfolding ok(3) by (auto simp: cells_def cell_at_def hash_state_def intro!: nth_equalityI)
    have a1: "hash_arrays n1" unfolding ok(3) using cap by (auto simp: hash_arrays_def)
    have room: "taken_count (cells m) \<le> capacity" using load m(4) by linarith
    have pend: "pending m 0"
      using m(2) hash_arrays_state(2) [OF m(2)] by (auto simp: pending_def hash_arrays_def)
    obtain w1 where loop: "hash_rehash_loop m 0 n1 = w1" by blast
    have "elem_ok (hm_key_type n1)" "elem_ok (hm_value_type n1)"
      using m(7,8) hash_config_fields [OF cfg1] by simp_all
    from rehash_loop_table [OF pend _ a1 this _ loop] room c1
    have w1: "hash_arrays w1" "cells w1 = rebuild (cells m) (replicate capacity Free)"
      "hm_size w1 = taken_count (cells m)" "hm_tombstones w1 = 0" "hm_generation w1 = hm_generation m"
      "hm_capacity w1 = capacity" "hash_config n1 w1"
      unfolding ok(3) by simp_all
    have cfg: "hash_config m w1" by (rule hash_config_trans [OF cfg1 w1(7)])
    note re = hash_key.rehash_correct [OF m(6,3) room]
    have "hash_rep w1 f"
      using rep re w1 load fit hash_bound_config [OF cfg] m(4,5)
      by (simp add: hash_rep_def hash_config_functions [OF cfg] hash_config_fields [OF cfg])
    moreover have "hm_states w1 \<noteq> NULL" using w1(1,6) cap by (auto simp: hash_arrays_def split: option.splits)
    moreover have "st = STL_OK" "w = w1\<lparr>hm_generation := hm_generation m\<rparr>"
      "s' = sequence_deallocate (hm_states m) s1"
      using run al ok(1) loop by (simp_all add: hash_map_rehash_def Let_def)
    moreover have "w1\<lparr>hm_generation := hm_generation m\<rparr> = w1" using w1(5) by simp
    ultimately show ?thesis
      using ok(2) w1 m(4) cfg by (auto simp: hash_blocks_def)
  qed
qed

lemma buckets_bound:
  assumes "i = 4 \<or> 7 * 2 ^ (i - 1) < 10 * n" and "4 \<le> i" and "n \<le> limit"
  shows "(2::nat) ^ i \<le> hash_bucket_bound limit"
proof (cases "i = 4")
  case False
  then have "(2::nat) ^ i = 2 * 2 ^ (i - 1)" using assms(2) by (simp add: power_eq_if)
  then show ?thesis using False assms by (simp add: hash_bucket_bound_def)
qed (simp add: hash_bucket_bound_def)

text \<open>Growing for \<open>n\<close> entries, as \<open>hash_map_ensure_insert\<close> and \<open>hash_map_reserve\<close> do.\<close>

lemma grow_cases:
  assumes rep: "hash_rep m f" and n: "n \<le> hm_entry_limit m" "n \<noteq> 0 \<or> hm_capacity m \<noteq> 0"
    and b: "hash_buckets_for_entries n (Some 0) = (STL_OK, Some b)"
    and more: "hm_capacity m < b \<or> (hm_size m < hm_tombstones m \<and> hm_capacity m \<noteq> 0)"
    and run: "hash_map_rehash m (if b < hm_capacity m then hm_capacity m else b) s = (st, w, s')"
  shows "(st = STL_OK \<and> hash_rep w f \<and> 10 * n \<le> 7 * hm_capacity w \<and> hm_size w = hm_size m \<and>
      hm_tombstones w = 0 \<and> hm_generation w = hm_generation m \<and> hash_config m w \<and>
      env_delta (hash_blocks w - hash_blocks m) s s') \<or>
    (st \<in> {STL_CAPACITY_EXCEEDED, STL_OUT_OF_MEMORY} \<and> w = m \<and> env_delta 0 s s' \<and> \<not> hash_supplied m s)"
proof -
  let ?c = "if b < hm_capacity m then hm_capacity m else b"
  have lim: "n \<le> SIZE_MAX" "10 * hm_size m \<le> 7 * hm_capacity m" "hash_arrays m"
    "hm_capacity m \<le> hash_bucket_bound (hm_entry_limit m)"
    using rep n(1) by (auto simp: hash_rep_def hash_bound_def)
  have "\<exists>k. ?c = 2 ^ k \<and> 4 \<le> k \<and> k \<le> 63" "10 * n \<le> 7 * ?c" "?c \<le> hash_bucket_bound (hm_entry_limit m)"
  proof -
    have old: "\<exists>k. hm_capacity m = 2 ^ k \<and> 4 \<le> k \<and> k \<le> 63" if "hm_capacity m \<noteq> 0"
      using that lim(3) by (auto simp: hash_arrays_def split: option.splits)
    have new: "n \<noteq> 0 \<Longrightarrow> \<exists>i. 4 \<le> i \<and> i \<le> 63 \<and> b = 2 ^ i \<and> 10 * n \<le> 7 * b \<and> (i = 4 \<or> 7 * 2 ^ (i - 1) < 10 * n)"
      "n = 0 \<Longrightarrow> b = 0"
      using buckets_cases [OF b _ lim(1)] b by (auto simp: hash_buckets_for_entries_def)
    show "\<exists>k. ?c = 2 ^ k \<and> 4 \<le> k \<and> k \<le> 63" using new(1) new(2) old n(2) by (cases "n = 0") auto
    show "10 * n \<le> 7 * ?c" using new by (cases "n = 0") auto
    show "?c \<le> hash_bucket_bound (hm_entry_limit m)"
      using new lim(4) buckets_bound [OF _ _ n(1)] by (cases "n = 0") (auto simp: hash_bucket_bound_def)
  qed
  then show ?thesis using rehash_cases [OF rep _ _ _ _ _ run] lim(2) by (auto split: if_splits)
qed

section \<open>Contracts\<close>

lemma hash_repD:
  assumes "hash_rep m f"
  shows "hash_map_valid (Some m)" "hash_arrays m" "hash_key (hash_map_equal m) (hash_map_hash m)"
    "table_ok (hash_map_equal m) (hash_map_hash m) (cells m)" "table_map (hash_map_equal m) (cells m) = f"
    "hm_size m = taken_count (cells m)" "hm_tombstones m = grave_count (cells m)"
    "10 * hm_size m \<le> 7 * hm_capacity m" "hm_size m \<le> hm_entry_limit m" "hm_entry_limit m < SIZE_MAX"
    "elem_ok (hm_key_type m)" "elem_ok (hm_value_type m)"
    "hm_key_stride m \<noteq> 0" "hm_value_stride m \<noteq> 0" "sequence_alignment_valid (hm_key_align m)"
    "sequence_alignment_valid (hm_value_align m)" "hash_bound m"
    "hm_capacity m \<le> hash_bucket_bound (hm_entry_limit m)"
  using assms by (auto simp: hash_rep_def hash_bound_def)

lemma hash_repI:
  assumes "hash_rep m f" and "hash_config m w" and "hash_arrays w"
    and "table_ok (hash_map_equal m) (hash_map_hash m) (cells w)"
    and "table_map (hash_map_equal m) (cells w) = g"
    and "hm_size w = taken_count (cells w)" and "hm_tombstones w = grave_count (cells w)"
    and "10 * hm_size w \<le> 7 * hm_capacity w" and "hm_size w \<le> hm_entry_limit m"
    and "hm_capacity w \<le> hash_bucket_bound (hm_entry_limit m)"
  shows "hash_rep w g"
  using assms hash_bound_config [OF assms(2)] hash_config_fields(8) [OF assms(2)]
  unfolding hash_rep_def hash_config_functions [OF assms(2)] by simp

text \<open>Where a key is found, or that it is not there.\<close>

lemma find_slot_cases:
  assumes "hash_rep m f"
  obtains (found) i h k' v where "hash_map_find_slot m k (hash_map_hash m k) c = (True, i)"
      "i < hm_capacity m" "cells m ! i = Taken h k' v" "hash_map_equal m k' k" "f k = Some v"
      "hash_state m i = SALTS_HASH_OCCUPIED" "hm_keys m ! i = Some k'" "hm_values m ! i = Some v"
      "hm_hashes m ! i = h"
  | (absent) "hash_map_find_slot m k (hash_map_hash m k) c = (False, c)" "f k = None"
proof -
  note m = hash_repD [OF assms]
  from hash_key.find_correct [OF m(3,4), of k]
  show thesis
  proof
    assume "\<exists>i h k' v. find_from (hash_map_equal m) (cells m) (hash_map_hash m k) k 0 (length (cells m)) = Some i \<and>
      i < length (cells m) \<and> cells m ! i = Taken h k' v \<and> hash_map_equal m k' k \<and>
      table_map (hash_map_equal m) (cells m) k = Some v"
    then obtain i h k' v where
      i: "find_from (hash_map_equal m) (cells m) (hash_map_hash m k) k 0 (hm_capacity m) = Some i"
      "i < hm_capacity m" "cells m ! i = Taken h k' v" "hash_map_equal m k' k"
      "table_map (hash_map_equal m) (cells m) k = Some v"
      by auto
    have occ: "hash_state m i = SALTS_HASH_OCCUPIED"
      using i(2,3) cell_at_iff(3) [OF m(2) i(2)] by simp
    have "hm_keys m ! i = Some k'" "hm_values m ! i = Some v" "hm_hashes m ! i = h"
      using i(2,3) occ hash_arrays_state(2) [OF m(2) i(2) occ] by (auto simp: cell_at_def)
    then show thesis using found i occ m(5) find_slot_table [OF m(2), of k "hash_map_hash m k" c] by simp
  next
    assume "find_from (hash_map_equal m) (cells m) (hash_map_hash m k) k 0 (length (cells m)) = None \<and>
      table_map (hash_map_equal m) (cells m) k = None"
    then show thesis using absent m(5) find_slot_table [OF m(2), of k "hash_map_hash m k" c] by simp
  qed
qed

lemma hash_map_get_contract: "hash_rep m f \<Longrightarrow> hash_map_get (Some m) (Some k) = map_option Some (f k)"
  by (rule find_slot_cases [of m f k 0]) (simp_all add: hash_map_get_def hash_repD)

lemma set_value_table:
  assumes "hash_arrays m" and "i < hm_capacity m" and "hash_state m i = SALTS_HASH_OCCUPIED"
  shows "cells (m\<lparr>hm_values := (hm_values m)[i := Some v]\<rparr>) =
      (cells m)[i := Taken (hm_hashes m ! i) (the (hm_keys m ! i)) v]"
    and "hash_arrays (m\<lparr>hm_values := (hm_values m)[i := Some v]\<rparr>)"
proof -
  show "cells (m\<lparr>hm_values := (hm_values m)[i := Some v]\<rparr>) =
      (cells m)[i := Taken (hm_hashes m ! i) (the (hm_keys m ! i)) v]"
    using assms by (intro nth_equalityI)
      (auto simp: cells_def cell_at_def hash_state_def hash_arrays_def nth_list_update)
  show "hash_arrays (m\<lparr>hm_values := (hm_values m)[i := Some v]\<rparr>)"
    using assms by (auto simp: hash_arrays_def nth_list_update split: option.splits)
qed

lemma bury_table:
  assumes "hash_arrays m" and "i < hm_capacity m"
  shows "cells (m\<lparr>hm_values := (hm_values m)[i := x], hm_keys := (hm_keys m)[i := y],
        hm_states := map_option (\<lambda>st. st[i := SALTS_HASH_TOMBSTONE]) (hm_states m)\<rparr>) = (cells m)[i := Grave]"
    and "hash_arrays (m\<lparr>hm_values := (hm_values m)[i := x], hm_keys := (hm_keys m)[i := y],
        hm_states := map_option (\<lambda>st. st[i := SALTS_HASH_TOMBSTONE]) (hm_states m)\<rparr>)"
proof -
  obtain st where st: "hm_states m = Some st" "length st = hm_capacity m"
    using assms by (auto simp: hash_arrays_def split: option.splits)
  show "cells (m\<lparr>hm_values := (hm_values m)[i := x], hm_keys := (hm_keys m)[i := y],
        hm_states := map_option (\<lambda>st. st[i := SALTS_HASH_TOMBSTONE]) (hm_states m)\<rparr>) = (cells m)[i := Grave]"
    using assms st by (intro nth_equalityI)
      (auto simp: cells_def cell_at_def hash_state_def hash_arrays_def nth_list_update)
  show "hash_arrays (m\<lparr>hm_values := (hm_values m)[i := x], hm_keys := (hm_keys m)[i := y],
        hm_states := map_option (\<lambda>st. st[i := SALTS_HASH_TOMBSTONE]) (hm_states m)\<rparr>)"
    using assms st by (auto simp: hash_arrays_def nth_list_update)
qed

text \<open>What an operation does, against the model's status and new map.\<close>

definition hash_outcome ::
  "('k, 'v) hash_map \<Rightarrow> env \<Rightarrow> stl_status \<times> ('k \<Rightarrow> 'v option) \<times> nat \<Rightarrow>
   stl_status \<times> ('k, 'v) hash_map ptr \<times> env \<Rightarrow> bool" where
  "hash_outcome m s model result =
     (case model of (st0, f, n) \<Rightarrow> case result of (st, r, s') \<Rightarrow>
      \<exists>w. r = Some w \<and> hash_config m w \<and> env_delta (hash_blocks w - hash_blocks m) s s' \<and>
        ((st = st0 \<and> hash_rep w f \<and> hm_size w = n \<and> (st \<noteq> STL_OK \<longrightarrow> w = m)) \<or>
         (st \<in> {STL_CAPACITY_EXCEEDED, STL_OUT_OF_MEMORY} \<and> w = m \<and> \<not> hash_supplied m s)))"

lemma outcome_same:
  "hash_rep m f \<Longrightarrow> hm_size m = n \<Longrightarrow> hash_outcome m s (st, f, n) (st, Some m, s)"
  by (auto simp: hash_outcome_def)

lemma outcome_starved:
  "st \<in> {STL_CAPACITY_EXCEEDED, STL_OUT_OF_MEMORY} \<Longrightarrow> env_delta 0 s s' \<Longrightarrow> \<not> hash_supplied m s \<Longrightarrow>
   hash_outcome m s model (st, Some m, s')"
  by (auto simp: hash_outcome_def split: prod.split)

lemma remove_contract:
  assumes rep: "hash_rep m f"
  shows "case hash_map_remove (Some m) (Some k) out of (st, r, out') \<Rightarrow>
    hash_outcome m s
      (case f k of None \<Rightarrow> (STL_NOT_FOUND, f, hm_size m)
       | Some _ \<Rightarrow> (STL_OK, (\<lambda>k'. if hash_map_equal m k k' then None else f k'), hm_size m - 1)) (st, r, s) \<and>
    out' = (if f k = None then out else map_option (\<lambda>_. f k) out)"
  using rep
proof (cases rule: find_slot_cases [of m f k 0])
  case absent
  then show ?thesis using outcome_same [OF rep refl] hash_repD(1) [OF rep]
    by (simp add: hash_map_remove_def)
next
  case (found i h k' v)
  note m = hash_repD [OF rep]
  let ?y = "hash_destroy_value (hm_key_type m) (hm_keys m ! i)"
  let ?x = "if out \<noteq> NULL then snd (hash_move_destroy (hm_value_type m) (hm_values m ! i))
    else hash_destroy_value (hm_value_type m) (hm_values m ! i)"
  let ?w0 = "m\<lparr>hm_values := (hm_values m)[i := ?x], hm_keys := (hm_keys m)[i := ?y],
      hm_states := map_option (\<lambda>st. st[i := SALTS_HASH_TOMBSTONE]) (hm_states m)\<rparr>"
  define w where "w = ?w0\<lparr>hm_size := hm_size m - 1, hm_tombstones := hm_tombstones m + 1,
      hm_generation := hm_generation m + 1\<rparr>"
  have run: "hash_map_remove (Some m) (Some k) out = (STL_OK, Some w, map_option (\<lambda>_. f k) out)"
    using found m(1,12) by (cases out) (simp_all add: w_def hash_map_remove_def Let_def hash_move_destroy_def)
  have cfg: "hash_config m w" by (simp add: w_def hash_config_def)
  have c: "cells w = (cells m)[i := Grave]" using bury_table(1) [OF m(2) found(2)] by (simp add: w_def)
  have a: "hash_arrays w" using bury_table(2) [OF m(2) found(2)] by (simp add: w_def)
  have il: "i < length (cells m)" using found(2) by simp
  note re = hash_key.remove_correct [OF m(3,4) il found(3,4), folded c, unfolded m(5)]
  have cnt: "hm_size w = taken_count (cells w)" "hm_tombstones w = grave_count (cells w)"
    using taken_count_update [OF il, of Grave] grave_count_update [OF il, of Grave] found(3) m(6,7)
    unfolding c by (auto simp: w_def)
  have sz: "hm_size w = hm_size m - 1" "hm_capacity w = hm_capacity m" "hash_blocks w = hash_blocks m"
    by (simp_all add: w_def hash_blocks_def)
  have "hash_rep w (\<lambda>k'. if hash_map_equal m k k' then None else f k')"
    using m(8,9,18) sz by (intro hash_repI [OF rep cfg a re cnt]) simp_all
  then show ?thesis using run cfg found(5) sz by (simp add: hash_outcome_def)
qed

lemma room_limit:
  assumes "hash_room m"
  shows "10 * hm_entry_limit m \<le> 7 * 2 ^ 63"
proof -
  have "hash_bucket_bound (hm_entry_limit m) * 9 \<le>
      hash_bucket_bound (hm_entry_limit m) * (1 + sizeof_size_t + hm_key_stride m + hm_value_stride m)"
    by (rule mult_le_mono2) (simp add: sizeof_size_t_def)
  also have "\<dots> \<le> SIZE_MAX" using assms unfolding hash_room_def by linarith
  finally show ?thesis by (simp add: hash_bucket_bound_def SIZE_MAX_def)
qed

lemma ensure_insert_cases:
  assumes rep: "hash_rep m f" and "hm_size m < hm_entry_limit m"
    and run: "hash_map_ensure_insert m s = (st, w, s')"
  shows "(st = STL_OK \<and> hash_rep w f \<and> 10 * (hm_size m + 1) \<le> 7 * hm_capacity w \<and> hm_size w = hm_size m \<and>
      hash_config m w \<and> hm_generation w = hm_generation m \<and> env_delta (hash_blocks w - hash_blocks m) s s') \<or>
    (st \<in> {STL_CAPACITY_EXCEEDED, STL_OUT_OF_MEMORY} \<and> w = m \<and> env_delta 0 s s' \<and> \<not> hash_supplied m s)"
proof -
  note m = hash_repD [OF rep]
  obtain st1 r where b: "hash_buckets_for_entries (hm_size m + 1) (Some 0) = (st1, r)" by fastforce
  have le: "hm_size m + 1 \<le> SIZE_MAX" using assms(2) m(10) by linarith
  show ?thesis
  proof (cases "st1 = STL_OK")
    case False
    then have "st1 = STL_CAPACITY_EXCEEDED" "7 * 2 ^ 63 < 10 * (hm_size m + 1)"
      using buckets_cases [OF b _ le] by auto
    moreover have "\<not> hash_supplied m s"
      using calculation(2) room_limit [of m] assms(2) by (auto simp: hash_supplied_def)
    ultimately show ?thesis using run b le by (auto simp: hash_map_ensure_insert_def Let_def)
  next
    case True
    then obtain i where i: "r = Some (2 ^ i)" "10 * (hm_size m + 1) \<le> 7 * 2 ^ i"
      using buckets_cases [OF b _ le] by auto
    let ?more = "hm_capacity m < 2 ^ i \<or> (hm_size m < hm_tombstones m \<and> hm_capacity m \<noteq> 0)"
    show ?thesis
    proof (cases ?more)
      case False
      then have "10 * (hm_size m + 1) \<le> 7 * hm_capacity m" using i(2) by linarith
      then show ?thesis using run b le True False i rep
        by (auto simp: hash_map_ensure_insert_def Let_def)
    next
      case more: True
      have "hash_map_rehash m (if 2 ^ i < hm_capacity m then hm_capacity m else 2 ^ i) s = (st, w, s')"
        using run b le True more i(1) by (simp add: hash_map_ensure_insert_def Let_def cong: if_cong)
      from grow_cases [OF rep _ _ b [unfolded True i(1)] more this] assms(2) show ?thesis by auto
    qed
  qed
qed

text \<open>The insertion into a table with room.\<close>

lemma insert_final:
  assumes rep: "hash_rep m f" and none: "f k = None" and load: "10 * (hm_size m + 1) \<le> 7 * hm_capacity m"
    and lim: "hm_size m < hm_entry_limit m" and slot: "slot = hash_map_insert_slot m (hash_map_hash m k)"
    and w: "w = (hash_fill slot (hash_map_hash m k) (Some k) (Some v) m)\<lparr>
        hm_tombstones := (if hash_state m slot = SALTS_HASH_TOMBSTONE then hm_tombstones m - 1 else hm_tombstones m),
        hm_size := hm_size m + 1, hm_generation := hm_generation m + 1\<rparr>"
  shows "hash_rep w (\<lambda>k'. if hash_map_equal m k k' then Some v else f k')" and "hash_config m w"
    and "hash_blocks w = hash_blocks m" and "hm_size w = hm_size m + 1"
proof -
  note m = hash_repD [OF rep]
  let ?h = "hash_map_hash m k"
  have lt: "taken_count (cells m) < hm_capacity m" using load unfolding m(6) by simp
  then obtain i where i: "place_from (cells m) ?h None 0 (hm_capacity m) = Some i" "i < hm_capacity m"
    "\<not> is_taken (cells m ! i)" "on_path (cells m) ?h i"
    using not_all_taken [of "cells m"] place_from_total [of _ "cells m" ?h] by fastforce
  have "hm_capacity m \<noteq> 0" using i(2) by linarith
  then have si: "slot = i" using insert_slot_table [OF m(2)] i(1) slot by simp
  note fill = fill_table [OF m(2) i(2), of ?h k v]
  have c: "cells w = (cells m)[i := Taken ?h k v]" and a: "hash_arrays w"
    using fill(1,2) by (simp_all add: w si)
  show cfg: "hash_config m w" using fill(3) unfolding w si hash_config_def by (simp add: hash_fill_def)
  have il: "i < length (cells m)" using i(2) by simp
  have none': "table_map (hash_map_equal m) (cells m) k = None" using none m(5) by simp
  note re = hash_key.insert_correct [OF m(3,4) none' il i(3,4), of v, folded c, unfolded m(5)]
  have grave: "cells m ! i = Grave \<longleftrightarrow> hash_state m i = SALTS_HASH_TOMBSTONE"
    using cell_at_iff(2) [OF m(2) i(2)] i(2) by simp
  have cnt: "hm_size w = taken_count (cells w)" "hm_tombstones w = grave_count (cells w)"
    using taken_count_update [OF il, of "Taken ?h k v"] grave_count_update [OF il, of "Taken ?h k v"] i(3) m(6,7) grave
    unfolding c by (auto simp: w si)
  show "hm_size w = hm_size m + 1" "hash_blocks w = hash_blocks m"
    by (simp_all add: w hash_blocks_def hash_fill_def)
  then show "hash_rep w (\<lambda>k'. if hash_map_equal m k k' then Some v else f k')"
    using m(18) load lim fill(4) by (intro hash_repI [OF rep cfg a re cnt]) (simp_all add: w si)
qed

lemma put_contract:
  assumes rep: "hash_rep m f"
  shows "hash_outcome m s
    (if f k = None \<and> hm_entry_limit m \<le> hm_size m then (STL_CAPACITY_EXCEEDED, f, hm_size m)
     else (STL_OK, (\<lambda>k'. if hash_map_equal m k k' then Some v else f k'),
           if f k = None then hm_size m + 1 else hm_size m))
    (hash_map_put (Some m) (Some k) (Some v) s)"
  using rep
proof (cases rule: find_slot_cases [of m f k 0])
  case (found i h k' v0)
  note m = hash_repD [OF rep]
  obtain st p s1 where pv: "hash_prepare (hm_value_type m) (hm_value_stride m) (hm_value_align m) (Some v) s = (st, p, s1)"
    by (metis prod_cases3)
  from prepare_cases [OF m(12,14,16) pv]
  consider "st = STL_OK" "p = Some (Some v)" "env_delta 1 s s1"
    | "st \<in> {STL_CAPACITY_EXCEEDED, STL_OUT_OF_MEMORY}" "env_delta 0 s s1" "\<not> hash_supplied m s"
    using supplied_elements [of m s] by blast
  then show ?thesis
  proof cases
    case 2
    then show ?thesis using pv found m(1) outcome_starved [OF 2]
      by (auto simp: hash_map_put_def Let_def)
  next
    case 1
    define w where "w = (m\<lparr>hm_values := (hm_values m)[i := Some v]\<rparr>)\<lparr>hm_generation := hm_generation m + 1\<rparr>"
    have run: "hash_map_put (Some m) (Some k) (Some v) s = (STL_OK, Some w, free_block s1)"
      using 1 pv found m(1,12)
      by (simp add: w_def hash_map_put_def Let_def hash_move_destroy_def sequence_deallocate_def)
    have cfg: "hash_config m w" by (simp add: w_def hash_config_def)
    have c: "cells w = (cells m)[i := Taken h k' v]"
      using set_value_table(1) [OF m(2) found(2,6)] found(7,9) by (simp add: w_def)
    have a: "hash_arrays w" using set_value_table(2) [OF m(2) found(2,6)] by (simp add: w_def)
    have il: "i < length (cells m)" using found(2) by simp
    note re = hash_key.update_correct [OF m(3,4) il found(3,4), of v, folded c, unfolded m(5)]
    have cnt: "hm_size w = taken_count (cells w)" "hm_tombstones w = grave_count (cells w)"
      using taken_count_update [OF il, of "Taken h k' v"] grave_count_update [OF il, of "Taken h k' v"] found(3) m(6,7)
      unfolding c by (auto simp: w_def)
    have sz: "hm_size w = hm_size m" "hm_capacity w = hm_capacity m" "hash_blocks w = hash_blocks m"
      by (simp_all add: w_def hash_blocks_def)
    have "hash_rep w (\<lambda>k'. if hash_map_equal m k k' then Some v else f k')"
      using m(8,9,18) sz by (intro hash_repI [OF rep cfg a re cnt]) simp_all
    then show ?thesis using run cfg found(5) sz 1(3) by (simp add: hash_outcome_def)
  qed
next
  case absent
  note m = hash_repD [OF rep]
  show ?thesis
  proof (cases "hm_entry_limit m \<le> hm_size m")
    case True
    then show ?thesis using absent m(1) outcome_same [OF rep refl]
      by (simp add: hash_map_put_def Let_def)
  next
    case room: False
    obtain st1 p1 s1 where
      pk: "hash_prepare (hm_key_type m) (hm_key_stride m) (hm_key_align m) (Some k) s = (st1, p1, s1)"
      by (metis prod_cases3)
    from prepare_cases [OF m(11,13,15) pk]
    consider "st1 = STL_OK" "p1 = Some (Some k)" "env_delta 1 s s1"
      | "st1 \<in> {STL_CAPACITY_EXCEEDED, STL_OUT_OF_MEMORY}" "env_delta 0 s s1" "\<not> hash_supplied m s"
      using supplied_elements [of m s] by blast
    then show ?thesis
    proof cases
      case 2
      then show ?thesis using pk absent m(1) outcome_starved [OF 2] room
        by (auto simp: hash_map_put_def Let_def)
    next
      case key: 1
      obtain st2 p2 s2 where
        pv: "hash_prepare (hm_value_type m) (hm_value_stride m) (hm_value_align m) (Some v) s1 = (st2, p2, s2)"
        by (metis prod_cases3)
      from prepare_cases [OF m(12,14,16) pv]
      consider "st2 = STL_OK" "p2 = Some (Some v)" "env_delta 1 s1 s2"
        | "st2 \<in> {STL_CAPACITY_EXCEEDED, STL_OUT_OF_MEMORY}" "env_delta 0 s1 s2" "\<not> hash_supplied m s"
        using supplied_elements [of m s1] hash_supplied_delta [OF key(3), of m] by blast
      then show ?thesis
      proof cases
        case 2
        have "env_delta 0 s (free_block s2)" using env_delta_trans [OF key(3) 2(2)] by simp
        then show ?thesis using pk pv absent m(1) outcome_starved [OF 2(1) _ 2(3)] room key 2(1)
          by (auto simp: hash_map_put_def Let_def hash_discard_def sequence_deallocate_def)
      next
        case val: 1
        obtain st3 w s3 where en: "hash_map_ensure_insert m s2 = (st3, w, s3)" by (metis prod_cases3)
        have d2: "env_delta 2 s s2" using env_delta_trans [OF key(3) val(3)] by simp
        from ensure_insert_cases [OF rep _ en] room
        consider (grown) "st3 = STL_OK" "hash_rep w f" "10 * (hm_size m + 1) \<le> 7 * hm_capacity w"
            "hm_size w = hm_size m" "hash_config m w" "env_delta (hash_blocks w - hash_blocks m) s2 s3"
          | (no) "st3 \<in> {STL_CAPACITY_EXCEEDED, STL_OUT_OF_MEMORY}" "w = m" "env_delta 0 s2 s3" "\<not> hash_supplied m s"
          using hash_supplied_delta [OF d2, of m] by auto
        then show ?thesis
        proof cases
          case no
          have "env_delta 0 s (free_block (free_block s3))" using env_delta_trans [OF d2 no(3)] by simp
          then show ?thesis using pk pv en absent m(1) outcome_starved [OF no(1) _ no(4)] room key val no(1,2)
            by (auto simp: hash_map_put_def Let_def hash_discard_def sequence_deallocate_def)
        next
          case grown
          define slot where "slot = hash_map_insert_slot w (hash_map_hash w k)"
          define w' where "w' = (hash_fill slot (hash_map_hash w k) (Some k) (Some v) w)\<lparr>
            hm_tombstones := (if hash_state w slot = SALTS_HASH_TOMBSTONE then hm_tombstones w - 1 else hm_tombstones w),
            hm_size := hm_size w + 1, hm_generation := hm_generation w + 1\<rparr>"
          note cfgf = hash_config_functions [OF grown(5)] hash_config_fields [OF grown(5)]
          have "10 * (hm_size w + 1) \<le> 7 * hm_capacity w" "hm_size w < hm_entry_limit w"
            using grown(3,4) room cfgf by simp_all
          note fin = insert_final [OF grown(2) absent(2) this slot_def w'_def]
          have mv: "hash_move_construct (hm_key_type w) (Some k) = Some k"
            "hash_move_construct (hm_value_type w) (Some v) = Some v"
            using hash_repD(11,12) [OF grown(2)] by simp_all
          have run: "hash_map_put (Some m) (Some k) (Some v) s = (STL_OK, Some w', free_block (free_block s3))"
            using pk pv en absent(1) m(1) room key(1,2) val(1,2) grown(1) mv
            by (simp add: hash_map_put_def Let_def sequence_deallocate_def hash_move_destroy_def w'_def slot_def
                cfgf(2) hash_fill_def)
          have "env_delta (hash_blocks w' - hash_blocks m) s (free_block (free_block s3))"
            using env_delta_trans [OF d2 grown(6)] fin(3) by (simp add: add.commute)
          then show ?thesis
            using run fin hash_config_trans [OF grown(5) fin(2)] absent(2) room grown(4)
            by (simp add: hash_outcome_def cfgf(1))
        qed
      qed
    qed
  qed
qed

lemma destroy_loop_shape:
  "\<exists>ks vs. hash_destroy_loop slot m = m\<lparr>hm_keys := ks, hm_values := vs\<rparr> \<and>
     length ks = length (hm_keys m) \<and> length vs = length (hm_values m)"
proof (induction slot m rule: hash_destroy_loop.induct)
  case (1 slot m)
  show ?case
  proof (cases "slot < hm_capacity m")
    case False
    then show ?thesis
      by (intro exI [of _ "hm_keys m"] exI [of _ "hm_values m"]) (simp add: hash_destroy_loop.simps [of slot])
  next
    case True
    then show ?thesis
      using 1 by (cases "hash_state m slot = SALTS_HASH_OCCUPIED")
        (auto simp: hash_destroy_loop.simps [of slot])
  qed
qed

lemma destroy_loop_idle:
  "(\<And>i. slot \<le> i \<Longrightarrow> i < hm_capacity m \<Longrightarrow> hash_state m i \<noteq> SALTS_HASH_OCCUPIED) \<Longrightarrow> hash_destroy_loop slot m = m"
proof (induction "hm_capacity m - slot" arbitrary: slot)
  case 0
  then show ?case by (simp add: hash_destroy_loop.simps [of slot])
next
  case (Suc n)
  then show ?case by (subst hash_destroy_loop.simps) auto
qed

lemma clear_contract:
  assumes rep: "hash_rep m f"
  shows "hash_outcome m s (STL_OK, (\<lambda>_. None), 0) (STL_OK, hash_map_clear (Some m), s)"
proof (cases "hm_size m = 0")
  case True
  note m = hash_repD [OF rep]
  have none: "\<not> is_taken (cells m ! i)" if "i < hm_capacity m" for i
    using that True m(6) unfolding taken_count_def by (simp add: filter_empty_conv) (metis length_cells nth_mem nth_cells)
  then have "hash_destroy_loop 0 m = m" using cell_at_iff(3) [OF m(2)] by (intro destroy_loop_idle) auto
  moreover have "f k = None" for k
    using hash_key.table_map_None [OF m(3,4), of k] none m(5) by (metis is_taken.simps(1) length_cells)
  then have "f = (\<lambda>_. None)" by blast
  ultimately show ?thesis using True m(1) outcome_same [OF rep True] by (simp add: hash_map_clear_def Let_def)
next
  case False
  note m = hash_repD [OF rep]
  obtain ks vs where d: "hash_destroy_loop 0 m = m\<lparr>hm_keys := ks, hm_values := vs\<rparr>"
    "length ks = length (hm_keys m)" "length vs = length (hm_values m)"
    using destroy_loop_shape by blast
  define w where "w = m\<lparr>hm_keys := ks, hm_values := vs,
    hm_states := map_option (\<lambda>_. replicate (hm_capacity m) SALTS_HASH_EMPTY) (hm_states m),
    hm_size := 0, hm_tombstones := 0, hm_generation := hm_generation m + 1\<rparr>"
  have run: "hash_map_clear (Some m) = Some w"
    using False m(1) by (simp add: hash_map_clear_def Let_def d(1) w_def)
  have cap: "hm_capacity m \<noteq> 0" using False m(8) by auto
  then obtain st where st: "hm_states m = Some st" using m(2) by (auto simp: hash_arrays_def split: option.splits)
  have cfg: "hash_config m w" by (simp add: w_def hash_config_def)
  have a: "hash_arrays w" using m(2) d st by (auto simp: hash_arrays_def w_def)
  have c: "cells w = replicate (hm_capacity m) Free"
    by (auto simp: w_def st cells_def cell_at_def hash_state_def intro!: nth_equalityI)
  have ok: "table_ok (hash_map_equal m) (hash_map_hash m) (cells w)" by (simp add: c table_ok_def)
  have "table_map (hash_map_equal m) (cells w) = (\<lambda>_. None)"
    using hash_key.table_map_None [OF m(3) ok] by (auto simp: c)
  then have "hash_rep w (\<lambda>_. None)"
    using m(18) by (intro hash_repI [OF rep cfg a ok]) (simp_all add: c, simp_all add: w_def grave_count_def)
  then show ?thesis using run cfg st by (simp add: hash_outcome_def hash_blocks_def w_def)
qed

lemma buckets_zero [simp]: "hash_buckets_for_entries 0 (Some c) = (STL_OK, Some 0)"
  by (simp add: hash_buckets_for_entries_def)

lemma reserve_contract:
  assumes rep: "hash_rep m f"
  shows "hash_outcome m s
    (if hm_entry_limit m < n then (STL_CAPACITY_EXCEEDED, f, hm_size m) else (STL_OK, f, hm_size m))
    (hash_map_reserve (Some m) n s)"
proof -
  note m = hash_repD [OF rep]
  obtain st1 r where b: "hash_buckets_for_entries n (Some 0) = (st1, r)" by fastforce
  show ?thesis
  proof (cases "hm_entry_limit m < n")
    case True
    then show ?thesis using m(1) outcome_same [OF rep refl] by (simp add: hash_map_reserve_def)
  next
    case False
    then have le: "n \<le> SIZE_MAX" "n \<le> hm_entry_limit m" using m(10) by linarith+
    show ?thesis
    proof (cases "st1 = STL_OK")
      case no: False
      then have "n \<noteq> 0" using b by (cases "n = 0") auto
      then have "st1 = STL_CAPACITY_EXCEEDED" "7 * 2 ^ 63 < 10 * n" using buckets_cases [OF b _ le(1)] no by auto
      moreover have "\<not> hash_supplied m s"
        using calculation(2) room_limit [of m] le(2) by (auto simp: hash_supplied_def)
      ultimately show ?thesis using m(1) b False outcome_starved [of STL_CAPACITY_EXCEEDED s s m]
        by (simp add: hash_map_reserve_def)
    next
      case ok: True
      then obtain c where c: "r = Some c"
        using buckets_cases [OF b _ le(1)] b by (cases "n = 0") auto
      let ?more = "hm_capacity m < c \<or> (hm_size m < hm_tombstones m \<and> hm_capacity m \<noteq> 0)"
      show ?thesis
      proof (cases ?more)
        case no: False
        then show ?thesis using m(1) b c ok False outcome_same [OF rep refl]
          by (auto simp: hash_map_reserve_def)
      next
        case more: True
        obtain st2 w s1 where re:
          "hash_map_rehash m (if c < hm_capacity m then hm_capacity m else c) s = (st2, w, s1)"
          by (metis prod_cases3)
        have nz: "n \<noteq> 0 \<or> hm_capacity m \<noteq> 0"
          using more b c by (cases "n = 0") auto
        have res: "hash_map_reserve (Some m) n s =
            (st2, Some (if st2 = STL_OK then w\<lparr>hm_generation := hm_generation w + 1\<rparr> else w), s1)"
          using m(1) b c ok False more re by (auto simp: hash_map_reserve_def cong: if_cong)
        from grow_cases [OF rep le(2) nz b [unfolded ok c] more re]
        show ?thesis
        proof
          assume w: "st2 = STL_OK \<and> hash_rep w f \<and> 10 * n \<le> 7 * hm_capacity w \<and> hm_size w = hm_size m \<and>
            hm_tombstones w = 0 \<and> hm_generation w = hm_generation m \<and> hash_config m w \<and>
            env_delta (hash_blocks w - hash_blocks m) s s1"
          let ?w = "w\<lparr>hm_generation := hm_generation w + 1\<rparr>"
          have cfg: "hash_config w ?w" by (simp add: hash_config_def)
          have "hash_rep ?w f"
            using hash_repD [of w f] w by (intro hash_repI [of w f, OF _ cfg]) auto
          then show ?thesis
            using res w hash_config_trans [OF _ cfg] False by (simp add: hash_outcome_def hash_blocks_def)
        next
          assume "st2 \<in> {STL_CAPACITY_EXCEEDED, STL_OUT_OF_MEMORY} \<and> w = m \<and> env_delta 0 s s1 \<and> \<not> hash_supplied m s"
          then show ?thesis using res outcome_starved [of st2 s s1 m] by auto
        qed
      qed
    qed
  qed
qed

lemma destroy_storage_delta:
  assumes "hash_rep m f"
  shows "env_delta (- hash_blocks m) s (snd (hash_map_raw_destroy_storage (Some m) s))"
proof -
  obtain ks vs where "hash_destroy_loop 0 m = m\<lparr>hm_keys := ks, hm_values := vs\<rparr>"
    using destroy_loop_shape by blast
  then show ?thesis
    using hash_repD(1) [OF assms]
    by (simp add: hash_map_raw_destroy_storage_def hash_map_valid_def Let_def hash_blocks_def)
qed

section \<open>Runs of operations\<close>

datatype ('k, 'v) hash_op =
    Hash_put 'k 'v
  | Hash_remove 'k "'v option ptr"
  | Hash_clear
  | Hash_reserve size_t

fun hash_out :: "('k, 'v) hash_op \<Rightarrow> 'v option ptr" where
  "hash_out (Hash_remove k out) = out"
| "hash_out _ = NULL"

fun hash_apply ::
  "('k, 'v) hash_op \<Rightarrow> ('k, 'v) hash_map ptr \<Rightarrow> env \<Rightarrow>
   stl_status \<times> ('k, 'v) hash_map ptr \<times> 'v option ptr \<times> env" where
  "hash_apply (Hash_put k v) m s = (case hash_map_put m (Some k) (Some v) s of (st, m1, s1) \<Rightarrow> (st, m1, NULL, s1))"
| "hash_apply (Hash_remove k out) m s = (case hash_map_remove m (Some k) out of (st, m1, out') \<Rightarrow> (st, m1, out', s))"
| "hash_apply Hash_clear m s = (STL_OK, hash_map_clear m, NULL, s)"
| "hash_apply (Hash_reserve n) m s = (case hash_map_reserve m n s of (st, m1, s1) \<Rightarrow> (st, m1, NULL, s1))"

text \<open>The dictionary the map implements: a partial map, the number of its entries, a limit.\<close>

fun hash_model ::
  "('k \<Rightarrow> 'k \<Rightarrow> bool) \<Rightarrow> size_t \<Rightarrow> ('k, 'v) hash_op \<Rightarrow> ('k \<Rightarrow> 'v option) \<times> nat \<Rightarrow>
   stl_status \<times> (('k \<Rightarrow> 'v option) \<times> nat) \<times> 'v option" where
  "hash_model eq limit (Hash_put k v) (f, n) =
     (if f k = None \<and> limit \<le> n then (STL_CAPACITY_EXCEEDED, (f, n), None)
      else (STL_OK, (\<lambda>k'. if eq k k' then Some v else f k', if f k = None then n + 1 else n), None))"
| "hash_model eq limit (Hash_remove k out) (f, n) =
     (case f k of
        None \<Rightarrow> (STL_NOT_FOUND, (f, n), None)
      | Some v \<Rightarrow> (STL_OK, (\<lambda>k'. if eq k k' then None else f k', n - 1), Some v))"
| "hash_model eq limit Hash_clear (f, n) = (STL_OK, (\<lambda>_. None, 0), None)"
| "hash_model eq limit (Hash_reserve k) (f, n) =
     (if limit < k then (STL_CAPACITY_EXCEEDED, (f, n), None) else (STL_OK, (f, n), None))"

definition hash_sized :: "('k, 'v) hash_map \<Rightarrow> ('k \<Rightarrow> 'v option) \<times> nat \<Rightarrow> bool" where
  "hash_sized m a \<longleftrightarrow> hash_rep m (fst a) \<and> hm_size m = snd a"

lemma remove_status:
  "hash_map_remove m k out = (st, r, out') \<Longrightarrow> st \<in> {STL_OK, STL_NOT_FOUND, STL_INVALID_ARGUMENT}"
  by (auto simp: hash_map_remove_def Let_def split: if_splits prod.splits)

lemma hash_model_failure: "hash_model eq limit op xs = (st, ys, y) \<Longrightarrow> st \<noteq> STL_OK \<Longrightarrow> ys = xs"
  by (cases xs; cases op) (auto split: if_splits option.splits)

lemma hash_step:
  assumes sized: "hash_sized m (f, n)"
    and model: "hash_model (hash_map_equal m) (hm_entry_limit m) op (f, n) = (st0, (g, k), y)"
    and run: "hash_apply op (Some m) s = (st, r, out, s')"
  shows "hash_outcome m s (st0, g, k) (st, r, s') \<and>
    (st = st0 \<longrightarrow> out = deliver y (hash_out op)) \<and> (st \<noteq> st0 \<longrightarrow> out = hash_out op)"
proof -
  have rep: "hash_rep m f" and n: "n = hm_size m" using sized by (auto simp: hash_sized_def)
  show ?thesis
  proof (cases op)
    case (Hash_put a b)
    then show ?thesis using put_contract [OF rep, of s a b] run model n
      by (auto simp: deliver_def split: prod.splits if_splits)
  next
    case (Hash_remove a o')
    then show ?thesis using remove_contract [OF rep, where k = a and out = o' and s = s] run model n
      by (auto simp: deliver_def hash_outcome_def split: prod.splits if_splits option.splits dest: remove_status)
  next
    case Hash_clear
    then show ?thesis using clear_contract [OF rep, of s] run model by (auto simp: deliver_def)
  next
    case (Hash_reserve a)
    then show ?thesis using reserve_contract [OF rep, of s a] run model n
      by (auto simp: deliver_def split: prod.splits if_splits)
  qed
qed

interpretation hash_machine: container hash_sized hash_apply hash_out
  "\<lambda>m. hash_model (hash_map_equal m) (hm_entry_limit m)" hash_blocks hash_config hash_supplied
proof
  fix q :: "('k, 'v) hash_map" and a op st0 ys y s st q' out s'
  assume a: "hash_sized q a" "hash_model (hash_map_equal q) (hm_entry_limit q) op a = (st0, ys, y)"
    "hash_apply op (Some q) s = (st, q', out, s')"
  then have "hash_outcome q s (st0, fst ys, snd ys) (st, q', s') \<and>
    (st = st0 \<longrightarrow> out = deliver y (hash_out op)) \<and> (st \<noteq> st0 \<longrightarrow> out = hash_out op)"
    using hash_step [of q "fst a" "snd a" op st0 "fst ys" "snd ys" y s st q' out s'] by simp
  then show "\<exists>w. q' = Some w \<and> env_delta (hash_blocks w - hash_blocks q) s s' \<and> hash_config q w \<and>
      (st = st0 \<and> hash_sized w ys \<and> out = deliver y (hash_out op) \<or>
       st \<noteq> STL_OK \<and> w = q \<and> out = hash_out op \<and> \<not> hash_supplied q s)"
    using hash_model_failure [OF a(2)] a(1) by (auto simp: hash_outcome_def hash_sized_def)
next
  show "ys = xs" if "hash_model (hash_map_equal q) (hm_entry_limit q) op xs = (st, ys, y)" "st \<noteq> STL_OK"
    for q :: "('k, 'v) hash_map" and op xs st ys y
    using that by (rule hash_model_failure)
  show "hash_config q q" for q :: "('k, 'v) hash_map" by simp
  show "hash_config q u" if "hash_config q w" "hash_config w u" for q w u :: "('k, 'v) hash_map"
    using that by (rule hash_config_trans)
  show "hash_model (hash_map_equal w) (hm_entry_limit w) = hash_model (hash_map_equal q) (hm_entry_limit q)"
    if "hash_config q w" for q w :: "('k, 'v) hash_map"
    by (simp add: hash_config_functions(1) [OF that] hash_config_fields(8) [OF that])
  show "hash_supplied w s" if "hash_config q w" "hash_supplied q s" for q w :: "('k, 'v) hash_map" and s
    using that by (simp add: hash_supplied_config)
  show "hash_supplied q s'" if "env_delta k s s'" "hash_supplied q s" for q :: "('k, 'v) hash_map" and k s s'
    using that by (simp add: hash_supplied_delta)
qed

section \<open>Byte keys\<close>

lemma hash_bytes_loop_take:
  "take n xs = take n ys \<Longrightarrow> n \<le> length xs \<Longrightarrow> n \<le> length ys \<Longrightarrow>
   hash_bytes_loop xs n i h = hash_bytes_loop ys n i h"
proof (induction "n - i" arbitrary: i h)
  case 0
  then show ?case by (simp add: hash_bytes_loop.simps [of _ _ i])
next
  case (Suc d)
  then have "xs ! i = ys ! i" by (metis nth_take zero_less_Suc zero_less_diff)
  then show ?case using Suc by (simp add: hash_bytes_loop.simps [of _ _ i])
qed

text \<open>
  The functions \<open>hash_bytes\<close> and \<open>hash_key_equal\<close> that raw maps are built with are
  lawful on keys of \<open>n\<close> bytes; shorter lists are not keys, so they are cut and padded.
\<close>

definition byte_key :: "size_t \<Rightarrow> u8 list \<Rightarrow> u8 list" where
  "byte_key n bytes = take n (bytes @ replicate n 0)"

lemma length_byte_key [simp]: "length (byte_key n bytes) = n"
  by (simp add: byte_key_def)

interpretation byte_keys: hash_key
  "\<lambda>a b. hash_key_equal (byte_key n a) (byte_key n b) n" "\<lambda>a. hash_bytes (byte_key n a) n" for n
  by unfold_locales (auto simp: hash_key_equal_def hash_bytes_def hash_bytes_loop_take)

section \<open>Construction\<close>

abbreviation key_traits :: u32 where
  "key_traits \<equiv> CMETA_TRAIT_EQUAL OR CMETA_TRAIT_HASH OR CMETA_TRAIT_COPY OR CMETA_TRAIT_MOVE OR CMETA_TRAIT_DESTROY"

abbreviation value_traits :: u32 where
  "value_traits \<equiv> CMETA_TRAIT_COPY OR CMETA_TRAIT_MOVE OR CMETA_TRAIT_DESTROY"

text \<open>The equality and hash a key type offers, as the map uses them.\<close>

definition type_equal :: "'k cmeta_type_desc \<Rightarrow> 'k \<Rightarrow> 'k \<Rightarrow> bool" where
  "type_equal t = the (tr_equal (the (td_traits t)))"

definition type_hash :: "'k cmeta_type_desc \<Rightarrow> 'k \<Rightarrow> size_t" where
  "type_hash t k = (let h = unat (the (tr_hash (the (td_traits t))) k) in if h = 0 then 1 else h)"

lemma value_traits_ok:
  "td_size t \<noteq> 0 \<Longrightarrow> sequence_alignment_valid (td_align t) \<Longrightarrow>
   cmeta_type_require_traits (Some t) value_traits = CMETA_OK \<Longrightarrow> traits_lawful t \<Longrightarrow> elem_ok (Some t)"
  by (simp add: elem_ok_def sequence_require_type_def Let_def)

lemma key_traits_value:
  assumes "cmeta_type_require_traits (Some t) key_traits = CMETA_OK"
  shows "cmeta_type_require_traits (Some t) value_traits = CMETA_OK"
proof -
  have "key_traits = value_traits OR (CMETA_TRAIT_EQUAL OR CMETA_TRAIT_HASH)"
    by (simp add: or.assoc or.commute or.left_commute)
  moreover have "value_traits \<noteq> 0" by (simp add: trait_flag_defs)
  ultimately show ?thesis
    using require_traits_part [of t value_traits "CMETA_TRAIT_EQUAL OR CMETA_TRAIT_HASH"] assms by metis
qed

lemma raw_init_rep:
  assumes lawful: "traits_lawful kt" "traits_lawful vt" and key: "hash_key (type_equal kt) (type_hash kt)"
    and bounds: "td_size kt \<le> SIZE_MAX" "td_align kt \<le> SIZE_MAX" "td_size vt \<le> SIZE_MAX" "td_align vt \<le> SIZE_MAX"
      "limit < SIZE_MAX"
    and run: "hash_map_raw_init (Some m0) (Some kt) (Some vt) limit = (STL_OK, r)"
  shows "\<exists>w. r = Some w \<and> hash_sized w (\<lambda>_. None, 0) \<and> hash_blocks w = 0 \<and> hm_entry_limit w = limit \<and>
    hash_map_equal w = type_equal kt \<and> hm_key_type w = Some kt \<and> hm_value_type w = Some vt"
proof -
  have ok: "td_size kt \<noteq> 0" "td_size vt \<noteq> 0" "sequence_alignment_valid (td_align kt)"
    "sequence_alignment_valid (td_align vt)" "cmeta_type_require_traits (Some kt) key_traits = CMETA_OK"
    "cmeta_type_require_traits (Some vt) value_traits = CMETA_OK"
    using run by (auto simp: hash_map_raw_init_def Let_def split: if_splits)
  obtain ks vs where st: "sequence_stride (td_size kt) (td_align kt) (Some 0) = (STL_OK, ks)"
    "sequence_stride (td_size vt) (td_align vt) (Some 0) = (STL_OK, vs)"
    and r: "r = Some (hash_zeroed\<lparr>hm_key_size := td_size kt, hm_key_stride := the ks, hm_key_align := td_align kt,
      hm_value_size := td_size vt, hm_value_stride := the vs, hm_value_align := td_align vt,
      hm_entry_limit := limit, hm_key_type := Some kt, hm_value_type := Some vt, hm_hash := NULL,
      hm_equal := NULL, hm_generation := hm_generation m0 + 1, hm_initialized := True\<rparr>)"
    using run by (auto simp: hash_map_raw_init_def hash_map_initialize_def Let_def split: if_splits prod.splits)
  define w where "w = the r"
  have f: "hash_map_equal w = type_equal kt" "hash_map_hash w = type_hash kt"
    by (auto simp: w_def r hash_map_equal_def hash_map_hash_def type_equal_def type_hash_def fun_eq_iff)
  have "hash_bound w"
    unfolding hash_bound_def f
    using ok stride_nonzero [OF st(1) bounds(1,2)] stride_nonzero [OF st(2) bounds(3,4)] bounds key
      value_traits_ok [OF ok(1,3) key_traits_value [OF ok(5)] lawful(1)] value_traits_ok [OF ok(2,4,6) lawful(2)]
    by (simp add: w_def r hash_map_valid_def)
  moreover have "cells w = []" "hash_arrays w" by (auto simp: w_def r hash_zeroed_def cells_def hash_arrays_def)
  moreover have "table_map (type_equal kt) [] = (\<lambda>_. None)" by (auto simp: fun_eq_iff)
  moreover have "hm_size w = 0" "hm_tombstones w = 0" "hm_capacity w = 0" "hm_entry_limit w = limit"
    "hm_states w = NULL" "hm_key_type w = Some kt" "hm_value_type w = Some vt"
    by (simp_all add: w_def r hash_zeroed_def)
  ultimately show ?thesis
    by (intro exI [of _ w]) (simp add: hash_sized_def hash_rep_def f table_ok_def grave_count_def hash_blocks_def,
      simp add: w_def r)
qed

text \<open>The entries of the arrays, put one after the other.\<close>

definition put_entries ::
  "('k \<Rightarrow> 'k \<Rightarrow> bool) \<Rightarrow> ('k \<times> 'v) list \<Rightarrow> ('k \<Rightarrow> 'v option) \<Rightarrow> 'k \<Rightarrow> 'v option" where
  "put_entries eq = fold (\<lambda>(k, v) f k'. if eq k k' then Some v else f k')"

lemma put_all_cases:
  "hash_rep t f \<Longrightarrow> hash_put_all es (Some t) s = (st, r, s') \<Longrightarrow>
   (\<exists>w. st = STL_OK \<and> r = Some w \<and> hash_rep w (put_entries (hash_map_equal t) es f) \<and> hash_config t w \<and>
      env_delta (hash_blocks w - hash_blocks t) s s') \<or>
   (st \<noteq> STL_OK \<and> env_delta (- hash_blocks t) s s')"
proof (induction es arbitrary: t f s)
  case Nil
  then show ?case by (auto simp: put_entries_def)
next
  case (Cons e es)
  obtain k v where e: "e = (k, v)" by fastforce
  obtain st1 t1 s1 where p: "hash_map_put (Some t) (Some k) (Some v) s = (st1, t1, s1)" by (metis prod_cases3)
  obtain w where w: "t1 = Some w" "hash_config t w" "env_delta (hash_blocks w - hash_blocks t) s s1"
    "st1 = STL_OK \<Longrightarrow> hash_rep w (\<lambda>k'. if hash_map_equal t k k' then Some v else f k')"
    "st1 \<noteq> STL_OK \<Longrightarrow> w = t"
    using put_contract [OF Cons.prems(1), of s k v] p by (auto simp: hash_outcome_def split: if_splits)
  show ?case
  proof (cases "st1 = STL_OK")
    case False
    then have "s' = snd (hash_map_raw_destroy_storage (Some t) s1)" "st = st1"
      using Cons.prems(2) e p w(1,5) by (auto split: prod.splits)
    then show ?thesis
      using False w(3,5) env_delta_trans [OF w(3) destroy_storage_delta [OF Cons.prems(1), of s1]] by simp
  next
    case True
    have "hash_put_all es (Some w) s1 = (st, r, s')" using Cons.prems(2) e p True w(1) by simp
    from Cons.IH [OF w(4) [OF True] this] show ?thesis
      using env_delta_trans [OF w(3)] hash_config_trans [OF w(2)] hash_config_functions(1) [OF w(2)]
      by (auto simp: e put_entries_def dest!: env_delta_trans [OF w(3)])
  qed
qed

section \<open>Properties\<close>

text \<open>C1: Whatever allocations fail during a run of puts, removals, clears and reservations,
  the hash map afterwards answers every lookup exactly as the dictionary that executed the
  operations acknowledged with \<open>STL_OK\<close>, in order, and counts that dictionary's entries;
  destroying it returns every block it ever held.\<close>

theorem hash_map_run_acknowledged:
  assumes "hash_sized m (f, n)" and "run_ops hash_apply ops (Some m) s = (rs, r, s')"
    and "replay (hash_model (hash_map_equal m) (hm_entry_limit m)) (zip ops rs) (f, n) = (g, k)"
  shows "(\<forall>key. hash_map_get r (Some key) = map_option Some (g key)) \<and> hash_map_size r = k \<and>
     live_blocks (snd (hash_map_raw_destroy_storage r s')) = live_blocks s - hash_blocks m"
proof -
  obtain w where w: "r = Some w" "env_delta (hash_blocks w - hash_blocks m) s s'" "hash_sized w (g, k)"
    using hash_machine.run_acknowledged [OF assms(1,2)] assms(3) by auto
  then have rep: "hash_rep w g" "hm_size w = k" by (auto simp: hash_sized_def)
  then show ?thesis
    using w(1,2) hash_map_get_contract [OF rep(1)] hash_repD(1) [OF rep(1)]
      destroy_storage_delta [OF rep(1), of s']
    by (auto simp: hash_map_size_def env_delta_def)
qed

text \<open>An empty map from numbers to numbers with room for three entries.\<close>

definition nat_map :: "(nat, nat) hash_map" where
  "nat_map = hash_zeroed\<lparr>hm_key_size := 4, hm_key_stride := 4, hm_key_align := 4, hm_value_size := 4,
     hm_value_stride := 4, hm_value_align := 4, hm_entry_limit := 3, hm_key_type := Some nat_desc,
     hm_value_type := Some nat_desc, hm_generation := 1, hm_initialized := True\<rparr>"

lemma nat_stride: "sequence_stride 4 4 (Some 0) = (STL_OK, Some 4)"
  using size_and_not_align [of 4 7] by (simp add: sequence_stride_def SIZE_MAX_def sequence_alignment_valid_def)

lemma nat_traits_required:
  "cmeta_type_require_traits (Some nat_desc) key_traits = CMETA_OK"
  "cmeta_type_require_traits (Some nat_desc) value_traits = CMETA_OK"
  by (simp_all add: nat_desc_def nat_traits_def cmeta_type_require_traits_def trait_flag_defs)

lemma nat_map_init:
  "hash_map_raw_init (Some hash_zeroed) (Some nat_desc) (Some nat_desc) 3 = (STL_OK, Some nat_map)"
  using nat_stride nat_traits_required
  by (simp add: nat_map_def hash_map_raw_init_def hash_map_initialize_def Let_def hash_zeroed_def)
    (simp add: nat_desc_def sequence_alignment_valid_def hash_zeroed_def)

lemma nat_key: "hash_key (type_equal nat_desc) (type_hash nat_desc)"
  by unfold_locales (auto simp: type_equal_def nat_desc_def nat_traits_def)

lemma nat_bounds: "td_size nat_desc \<le> SIZE_MAX" "td_align nat_desc \<le> SIZE_MAX" "3 < SIZE_MAX"
  by (simp_all add: nat_desc_def SIZE_MAX_def)

lemma nat_map_sized:
  "hash_sized nat_map (\<lambda>_. None, 0)" "hash_blocks nat_map = 0" "hm_entry_limit nat_map = 3"
  "hash_map_equal nat_map = (=)" "hm_key_type nat_map = Some nat_desc" "hm_value_type nat_map = Some nat_desc"
  using raw_init_rep [OF nat_desc_lawful nat_desc_lawful nat_key nat_bounds(1,2,1,2,3) nat_map_init]
  by (simp_all add: type_equal_def nat_desc_def nat_traits_def)

theorem hash_map_run_acknowledged_witness:
  "\<exists>rs r s' g k. run_ops hash_apply [Hash_put 1 10, Hash_put 2 20, Hash_remove 1 (Some None)] (Some nat_map) never_env =
       (rs, r, s') \<and>
     replay (hash_model (=) 3) (zip [Hash_put 1 10, Hash_put 2 20, Hash_remove 1 (Some None)] rs) (\<lambda>_. None, 0) = (g, k) \<and>
     (\<forall>key. hash_map_get r (Some key) = map_option Some (g key)) \<and> hash_map_size r = k"
proof -
  let ?ops = "[Hash_put 1 10, Hash_put 2 20, Hash_remove 1 (Some None)] :: (nat, nat) hash_op list"
  obtain rs r s' where run: "run_ops hash_apply ?ops (Some nat_map) never_env = (rs, r, s')" by (metis prod_cases3)
  obtain g k where rp: "replay (hash_model (=) 3) (zip ?ops rs) (\<lambda>_. None, 0) = (g, k)" by fastforce
  show ?thesis
    using hash_map_run_acknowledged [OF nat_map_sized(1) run, unfolded nat_map_sized(3,4), OF rp] run rp by blast
qed

text \<open>When memory and copies are supplied, a run of hash map operations answers with the
  dictionary's statuses and removed values, through collisions, tombstones and rehashing, and
  ends up representing the dictionary's final state.\<close>

theorem hash_map_run_refines_dictionary:
  assumes "hash_sized m (f, n)" and "hash_supplied m s"
    and "run_model hash_out (hash_model (hash_map_equal m) (hm_entry_limit m)) ops (f, n) = (rs, (g, k))"
  shows "\<exists>w s'. run_ops hash_apply ops (Some m) s = (rs, Some w, s') \<and> hash_sized w (g, k) \<and>
     live_blocks s' - hash_blocks w = live_blocks s - hash_blocks m"
  using hash_machine.run_supplied [OF assms] by (fastforce simp: env_delta_def)

lemma nat_map_supplied: "hash_supplied nat_map ample_env"
proof -
  have "hm_key_stride nat_map = 4" "hm_value_stride nat_map = 4" "hm_key_align nat_map = 4"
    "hm_value_align nat_map = 4"
    by (simp_all add: nat_map_def)
  then show ?thesis
    by (simp add: hash_supplied_def hash_room_def hash_bucket_bound_def nat_map_sized hash_max_alignment_def
        alignof_size_t_def sizeof_size_t_def sizeof_pointer_def SIZE_MAX_def ample_env_def copy_total_def
        nat_desc_def nat_traits_def)
qed

theorem hash_map_run_refines_dictionary_witness:
  "\<exists>w s' g. run_ops hash_apply [Hash_put 1 10, Hash_put 2 20, Hash_remove 1 (Some None)] (Some nat_map) ample_env =
      ([(STL_OK, NULL), (STL_OK, NULL), (STL_OK, Some (Some 10))], Some w, s') \<and>
    hash_sized w (g, 1) \<and> g 2 = Some 20 \<and> g 1 = None"
proof -
  let ?g = "\<lambda>k'. if 1 = k' then None else if 2 = k' then Some 20 else if 1 = k' then Some 10 else (None :: nat option)"
  have "run_model hash_out (hash_model (hash_map_equal nat_map) (hm_entry_limit nat_map))
      [Hash_put 1 10, Hash_put 2 20, Hash_remove 1 (Some None)] (\<lambda>_. None, 0) =
    ([(STL_OK, NULL), (STL_OK, NULL), (STL_OK, Some (Some 10))], (?g, 1))"
    by (simp add: nat_map_sized deliver_def fun_eq_iff)
  from hash_map_run_refines_dictionary [OF nat_map_sized(1) nat_map_supplied this]
  obtain w s' where "run_ops hash_apply [Hash_put 1 10, Hash_put 2 20, Hash_remove 1 (Some None)] (Some nat_map) ample_env =
      ([(STL_OK, NULL), (STL_OK, NULL), (STL_OK, Some (Some 10))], Some w, s')" "hash_sized w (?g, 1)"
    by blast
  then show ?thesis by (intro exI [of _ w] exI [of _ s'] exI [of _ ?g]) simp
qed

text \<open>The bucket count chosen for a positive number of entries is the smallest power of two,
  at least sixteen, that keeps the load at or below seven tenths; the request is refused, with
  \<open>STL_CAPACITY_EXCEEDED\<close>, exactly when no power of two in \<open>size_t\<close> does.\<close>

theorem hash_buckets_least:
  assumes "entries \<noteq> 0" and "entries \<le> SIZE_MAX"
    and "hash_buckets_for_entries entries (Some c) = (st, r)"
  shows "(st = STL_OK \<longleftrightarrow> 10 * entries \<le> 7 * 2 ^ 63) \<and> (st \<noteq> STL_OK \<longrightarrow> st = STL_CAPACITY_EXCEEDED) \<and>
    (st = STL_OK \<longrightarrow> (\<exists>i. r = Some (2 ^ i) \<and> 4 \<le> i \<and> i \<le> 63 \<and> 10 * entries \<le> 7 * 2 ^ i \<and>
       (\<forall>j. 4 \<le> j \<longrightarrow> 10 * entries \<le> 7 * 2 ^ j \<longrightarrow> i \<le> j)))"
proof -
  from buckets_cases [OF assms(3,1,2)] show ?thesis
  proof
    assume "st = STL_OK \<and> (\<exists>i. 4 \<le> i \<and> i \<le> 63 \<and> r = Some (2 ^ i) \<and> 10 * entries \<le> 7 * 2 ^ i \<and>
      (i = 4 \<or> 7 * 2 ^ (i - 1) < 10 * entries))"
    then obtain i where i: "st = STL_OK" "4 \<le> i" "i \<le> 63" "r = Some (2 ^ i)" "10 * entries \<le> 7 * 2 ^ i"
      "i = 4 \<or> 7 * 2 ^ (i - 1) < 10 * entries" by blast
    have "i \<le> j" if "4 \<le> j" "10 * entries \<le> 7 * 2 ^ j" for j
    proof (rule ccontr)
      assume "\<not> i \<le> j"
      then have "(2::nat) ^ j \<le> 2 ^ (i - 1)" by (intro power_increasing) auto
      moreover have "i \<noteq> 4" using that(1) \<open>\<not> i \<le> j\<close> by linarith
      then have "7 * 2 ^ (i - 1) < 10 * entries" using i(6) by blast
      ultimately show False using that(2) by linarith
    qed
    moreover have "(2::nat) ^ i \<le> 2 ^ 63" using i(3) by (intro power_increasing) auto
    then have "10 * entries \<le> 7 * 2 ^ 63" using i(5) by linarith
    ultimately show ?thesis using i by auto
  qed auto
qed

theorem hash_buckets_least_witness:
  "\<exists>i. hash_buckets_for_entries 12 (Some 0) = (STL_OK, Some (2 ^ i)) \<and> 10 * 12 \<le> 7 * (2::nat) ^ i \<and>
     (\<forall>j. 4 \<le> j \<longrightarrow> 10 * 12 \<le> 7 * (2::nat) ^ j \<longrightarrow> i \<le> j)"
proof -
  obtain st r where run: "hash_buckets_for_entries 12 (Some 0) = (st, r)" by fastforce
  have "(12::nat) \<noteq> 0" "12 \<le> SIZE_MAX" by (simp_all add: SIZE_MAX_def)
  from hash_buckets_least [OF this run] run show ?thesis by auto
qed

text \<open>The one block of a hash map is laid out soundly: when the layout is accepted, the
  states, hashes, keys and values follow one another without overlapping, each at an offset
  aligned for its element, and the last ends at the size requested, within \<open>size_t\<close>.\<close>

theorem hash_map_layout_disjoint:
  assumes "hm_key_align m \<le> SIZE_MAX" and "hm_value_align m \<le> SIZE_MAX"
    and "hash_map_layout m capacity = (STL_OK, hashes_offset, keys_offset, values_offset, total_size)"
  shows "capacity \<le> hashes_offset \<and> alignof_size_t dvd hashes_offset \<and>
    hashes_offset + capacity * sizeof_size_t \<le> keys_offset \<and> hm_key_align m dvd keys_offset \<and>
    keys_offset + capacity * hm_key_stride m \<le> values_offset \<and> hm_value_align m dvd values_offset \<and>
    values_offset + capacity * hm_value_stride m = total_size \<and> total_size \<le> SIZE_MAX"
  using layout_OK [OF assms(3,1,2)] by auto

theorem hash_map_layout_disjoint_witness:
  "\<exists>h k v t. hash_map_layout nat_map 16 = (STL_OK, h, k, v, t) \<and> 16 \<le> h \<and> h + 16 * sizeof_size_t \<le> k \<and>
     k + 16 * 4 \<le> v \<and> v + 16 * 4 = t"
proof -
  have s: "hm_key_stride nat_map = 4" "hm_value_stride nat_map = 4" "hm_key_align nat_map = 4"
    "hm_value_align nat_map = 4" by (simp_all add: nat_map_def)
  obtain h k v t where run: "hash_map_layout nat_map 16 = (STL_OK, h, k, v, t)"
    using layout_fits [of nat_map 16] nat_map_supplied nat_map_sized(3) s
    by (auto simp: hash_supplied_def hash_bucket_bound_def sequence_alignment_valid_def)
  from hash_map_layout_disjoint [OF _ _ run] run s show ?thesis by (auto simp: SIZE_MAX_def)
qed

text \<open>Building a typed hash map from arrays is all-or-nothing: on success the handle holds
  exactly the entries put in array order (later duplicates win), what it held before is
  released, and the blocks balance; on any failure the handle is untouched and no block is
  left allocated.\<close>

theorem hash_map_raw_from_arrays_all_or_nothing:
  assumes "traits_lawful kt" and "traits_lawful vt" and "hash_key (type_equal kt) (type_hash kt)"
    and "td_size kt \<le> SIZE_MAX" and "td_align kt \<le> SIZE_MAX" and "td_size vt \<le> SIZE_MAX"
    and "td_align vt \<le> SIZE_MAX" and "limit < SIZE_MAX" and "hm_initialized m \<longrightarrow> (\<exists>f. hash_rep m f)"
    and "hash_map_raw_from_arrays (Some m) (Some keys) (Some vals) n (Some kt) (Some vt) limit s = (st, r, s')"
  shows "(st = STL_OK \<longrightarrow> (\<exists>w. r = Some w \<and>
        hash_rep w (put_entries (type_equal kt) (zip (take n keys) (take n vals)) (\<lambda>_. None)) \<and>
        live_blocks s' = live_blocks s + hash_blocks w - (if hm_initialized m then hash_blocks m else 0))) \<and>
     (st \<noteq> STL_OK \<longrightarrow> r = Some m \<and> live_blocks s' = live_blocks s)"
proof -
  let ?es = "zip (take n keys) (take n vals)"
  have es: "(if n = 0 then [] else zip (take n keys) (take n vals)) = ?es" by simp
  obtain st0 t0 where init: "hash_map_raw_init (Some hash_zeroed) (Some kt) (Some vt) limit = (st0, t0)" by fastforce
  have run: "hash_map_adopt (Some m) ?es (st0, t0) s = (st, r, s')"
    using assms(10) init es by (simp add: hash_map_raw_from_arrays_def split: if_splits)
  show ?thesis
  proof (cases "st0 = STL_OK")
    case False
    then show ?thesis using run by (auto simp: hash_map_adopt_def)
  next
    case True
    obtain t where t: "t0 = Some t" "hash_rep t (\<lambda>_. None)" "hash_blocks t = 0" "hash_map_equal t = type_equal kt"
      using raw_init_rep [OF assms(1-8) init [unfolded True]] by (auto simp: hash_sized_def)
    obtain st1 t1 s1 where p: "hash_put_all ?es (Some t) s = (st1, t1, s1)" by (metis prod_cases3)
    show ?thesis
    proof (cases "st1 = STL_OK")
      case False
      then show ?thesis using put_all_cases [OF t(2) p] run True t(1,3) p
        by (auto simp: hash_map_adopt_def env_delta_def)
    next
      case ok: True
      then obtain w where w: "t1 = Some w" "hash_rep w (put_entries (type_equal kt) ?es (\<lambda>_. None))"
        "env_delta (hash_blocks w) s s1"
        using put_all_cases [OF t(2) p] t(3,4) by auto
      let ?w = "w\<lparr>hm_generation := hm_generation m + 1\<rparr>"
      have cfg: "hash_config w ?w" by (simp add: hash_config_def)
      have "hash_rep ?w (put_entries (type_equal kt) ?es (\<lambda>_. None))"
        using hash_repD [OF w(2)] by (intro hash_repI [OF w(2) cfg]) auto
      moreover have "hash_blocks ?w = hash_blocks w" by (simp add: hash_blocks_def)
      moreover have "st = STL_OK" "r = Some ?w"
        "s' = (if hm_initialized m then snd (hash_map_raw_destroy_storage (Some m) s1) else s1)"
        using run True t(1) p ok w(1) by (auto simp: hash_map_adopt_def Let_def)
      moreover have "hm_initialized m \<Longrightarrow>
          live_blocks (snd (hash_map_raw_destroy_storage (Some m) s1)) = live_blocks s1 - hash_blocks m"
        using assms(9) destroy_storage_delta [of m _ s1] by (auto simp: env_delta_def)
      ultimately show ?thesis using w(3) by (auto simp: env_delta_def)
    qed
  qed
qed

theorem hash_map_raw_from_arrays_all_or_nothing_witness:
  "\<exists>st r s'. hash_map_raw_from_arrays (Some hash_zeroed) (Some [1, 2, 1]) (Some [10, 20, 30]) 3 (Some nat_desc)
      (Some nat_desc) 3 ample_env = (st, r, s') \<and>
    (st = STL_OK \<longrightarrow> (\<exists>w. r = Some w \<and> hash_rep w (put_entries (=) [(1, 10), (2, 20), (1, 30)] (\<lambda>_. None)))) \<and>
    (st \<noteq> STL_OK \<longrightarrow> r = Some hash_zeroed \<and> live_blocks s' = 1)"
proof -
  obtain st r s' where run: "hash_map_raw_from_arrays (Some hash_zeroed) (Some [1, 2, 1]) (Some [10, 20, 30]) 3
      (Some nat_desc) (Some nat_desc) 3 ample_env = (st, r, s')"
    by (metis prod_cases3)
  have init: "hm_initialized (hash_zeroed :: (nat, nat) hash_map) \<longrightarrow> (\<exists>f. hash_rep (hash_zeroed :: (nat, nat) hash_map) f)"
    by (simp add: hash_zeroed_def)
  have eq: "type_equal nat_desc = (=)" by (simp add: type_equal_def nat_desc_def nat_traits_def)
  from hash_map_raw_from_arrays_all_or_nothing [OF nat_desc_lawful nat_desc_lawful nat_key nat_bounds(1,2,1,2,3) init run]
  show ?thesis using run
    by (intro exI [of _ st] exI [of _ r] exI [of _ s']) (auto simp: eq ample_env_def)
qed

text \<open>C30: Initialisation type-checks the map. \<open>hash_map_raw_init\<close> succeeds only for key and value
  types of non-zero size and power-of-two alignment whose trait tables supply every callback
  the map's operations dereference: hash, equality, copy, move and destroy for keys, copy,
  move and destroy for values; the map records exactly these types, so no operation meets a
  null callback. An initialised map, a missing type or a missing callback is refused and
  leaves the handle as it was.\<close>

theorem hash_map_init_typed:
  assumes "hash_map_raw_init (Some m) key_type value_type limit = (st, m')"
  shows "if st = STL_OK then
      (\<exists>k kt v vt h. m' = Some h \<and> hm_initialized h \<and> \<not> hm_initialized m \<and>
        hm_key_type h = Some k \<and> key_type = Some k \<and> hm_value_type h = Some v \<and> value_type = Some v \<and>
        0 < td_size k \<and> (\<exists>i. td_align k = 2 ^ i) \<and> 0 < td_size v \<and> (\<exists>i. td_align v = 2 ^ i) \<and>
        td_traits k = Some kt \<and> tr_hash kt \<noteq> NULL \<and> tr_equal kt \<noteq> NULL \<and> tr_copy_construct kt \<noteq> NULL \<and>
        tr_move_construct kt \<noteq> NULL \<and> tr_destroy kt \<noteq> NULL \<and>
        td_traits v = Some vt \<and> tr_copy_construct vt \<noteq> NULL \<and> tr_move_construct vt \<noteq> NULL \<and> tr_destroy vt \<noteq> NULL)
    else m' = Some m"
proof -
  let ?kr = "CMETA_TRAIT_EQUAL OR CMETA_TRAIT_HASH OR CMETA_TRAIT_COPY OR CMETA_TRAIT_MOVE OR CMETA_TRAIT_DESTROY"
  let ?vr = "CMETA_TRAIT_COPY OR CMETA_TRAIT_MOVE OR CMETA_TRAIT_DESTROY"
  note defs = hash_map_raw_init_def hash_map_initialize_def Let_def
  have nz: "?kr \<noteq> 0" "?vr \<noteq> 0"
    by (simp_all add: CMETA_TRAIT_EQUAL_def CMETA_TRAIT_HASH_def CMETA_TRAIT_COPY_def CMETA_TRAIT_MOVE_def CMETA_TRAIT_DESTROY_def)
  have bits: "?kr AND CMETA_TRAIT_EQUAL \<noteq> 0" "?kr AND CMETA_TRAIT_HASH \<noteq> 0" "?kr AND CMETA_TRAIT_COPY \<noteq> 0"
    "?kr AND CMETA_TRAIT_MOVE \<noteq> 0" "?kr AND CMETA_TRAIT_DESTROY \<noteq> 0" "?vr AND CMETA_TRAIT_COPY \<noteq> 0"
    "?vr AND CMETA_TRAIT_MOVE \<noteq> 0" "?vr AND CMETA_TRAIT_DESTROY \<noteq> 0"
    by (simp_all add: CMETA_TRAIT_EQUAL_def CMETA_TRAIT_HASH_def CMETA_TRAIT_COPY_def CMETA_TRAIT_MOVE_def CMETA_TRAIT_DESTROY_def)
  show ?thesis
  proof (cases "st = STL_OK")
    case False
    then show ?thesis using assms by (auto simp: defs split: if_splits prod.splits)
  next
    case True
    obtain k v h where kv: "key_type = Some k" "value_type = Some v" "m' = Some h" "hm_initialized h" "\<not> hm_initialized m"
      "hm_key_type h = Some k" "hm_value_type h = Some v" "0 < td_size k" "0 < td_size v"
      "sequence_alignment_valid (td_align k)" "sequence_alignment_valid (td_align v)"
      "cmeta_type_require_traits (Some k) ?kr = CMETA_OK" "cmeta_type_require_traits (Some v) ?vr = CMETA_OK"
      using assms True by (auto simp: defs split: if_splits prod.splits)
    from kv(12) obtain kt where "td_traits k = Some kt" "tr_hash kt \<noteq> NULL" "tr_equal kt \<noteq> NULL"
      "tr_copy_construct kt \<noteq> NULL" "tr_move_construct kt \<noteq> NULL" "tr_destroy kt \<noteq> NULL"
      unfolding require_traits_OK_iff [OF nz(1)] using bits by blast
    moreover from kv(13) obtain vt where "td_traits v = Some vt" "tr_copy_construct vt \<noteq> NULL"
      "tr_move_construct vt \<noteq> NULL" "tr_destroy vt \<noteq> NULL"
      unfolding require_traits_OK_iff [OF nz(2)] using bits by blast
    ultimately show ?thesis
      using kv alignment_valid_power [OF kv(10)] alignment_valid_power [OF kv(11)] True by simp
  qed
qed

theorem hash_map_init_typed_witness:
  "\<exists>k kt. hm_key_type nat_map = Some k \<and> td_traits k = Some kt \<and> tr_hash kt \<noteq> NULL \<and> tr_equal kt \<noteq> NULL"
  using hash_map_init_typed [OF nat_map_init] by auto

end
