(* ===== verification/Cstl_Hash_Set.thy ===== *)
theory Cstl_Hash_Set
  imports Cstl_Hash_Map
begin

text \<open>
  The hash set (\<^verbatim>\<open>src/cstl/src/hash_set.c\<close>, \<^verbatim>\<open>cstl/hash_set.h\<close>): a hash map whose values are
  the presence byte. A set handle has its own descriptor and element type; the table is an
  unbound hash map. What is shown rests on the map's contracts: the set is a set of keys up
  to the keys' equality.
\<close>

section \<open>The code\<close>

record 'k hash_set =
  hs_descriptor :: "nat ptr"
  hs_element_type :: "'k cmeta_type_desc ptr"
  hs_table :: "('k, bool) hash_map"

definition set_zeroed :: "'k hash_set" where
  "set_zeroed = \<lparr>hs_descriptor = NULL, hs_element_type = NULL, hs_table = hash_zeroed\<rparr>"

text \<open>The address of the table inside a handle, and the handle with its table replaced.\<close>

definition table_of :: "'k hash_set ptr \<Rightarrow> ('k, bool) hash_map ptr" where
  "table_of h = map_option hs_table h"

definition with_table :: "'k hash_set ptr \<Rightarrow> ('k, bool) hash_map ptr \<Rightarrow> 'k hash_set ptr" where
  "with_table h t = map_option (\<lambda>x. x\<lparr>hs_table := the t\<rparr>) h"

definition hash_set_raw_init ::
  "'k hash_set ptr \<Rightarrow> 'k cmeta_type_desc ptr \<Rightarrow> size_t \<Rightarrow> stl_status \<times> 'k hash_set ptr" where
  "hash_set_raw_init h key_type entry_limit =
     (if h = NULL then (STL_INVALID_ARGUMENT, h)
      else case hash_map_raw_init (table_of h) key_type (Some cmeta_type_bool) entry_limit of
        (st, t) \<Rightarrow> (st, with_table h t))"

definition hash_set_init_bytes ::
  "'k hash_set ptr \<Rightarrow> size_t \<Rightarrow> size_t \<Rightarrow> size_t \<Rightarrow> ('k \<Rightarrow> size_t \<Rightarrow> size_t) ptr \<Rightarrow>
   ('k \<Rightarrow> 'k \<Rightarrow> size_t \<Rightarrow> bool) ptr \<Rightarrow> stl_status \<times> 'k hash_set ptr" where
  "hash_set_init_bytes h key_size key_align entry_limit hash equal =
     (if h = NULL then (STL_INVALID_ARGUMENT, h)
      else case hash_map_init_bytes (table_of h) key_size key_align 1 1 entry_limit hash equal of
        (st, t) \<Rightarrow> (st, with_table h t))"

definition hash_set_raw_destroy_storage :: "'k hash_set ptr \<Rightarrow> env \<Rightarrow> 'k hash_set ptr \<times> env" where
  "hash_set_raw_destroy_storage h s =
     (if h \<noteq> NULL then case hash_map_raw_destroy_storage (table_of h) s of (t, s1) \<Rightarrow> (with_table h t, s1)
      else (h, s))"

definition hash_set_clear :: "'k hash_set ptr \<Rightarrow> 'k hash_set ptr" where
  "hash_set_clear h = (if h \<noteq> NULL then with_table h (hash_map_clear (table_of h)) else h)"

definition hash_set_reserve :: "'k hash_set ptr \<Rightarrow> size_t \<Rightarrow> env \<Rightarrow> stl_status \<times> 'k hash_set ptr \<times> env" where
  "hash_set_reserve h min_entries s =
     (if h = NULL then (STL_INVALID_ARGUMENT, h, s)
      else case hash_map_reserve (table_of h) min_entries s of (st, t, s1) \<Rightarrow> (st, with_table h t, s1))"

definition hash_set_add :: "'k hash_set ptr \<Rightarrow> 'k ptr \<Rightarrow> env \<Rightarrow> stl_status \<times> 'k hash_set ptr \<times> env" where
  "hash_set_add h key s =
     (let present = True in
      if h = NULL then (STL_INVALID_ARGUMENT, h, s)
      else if hash_map_contains (table_of h) key then (STL_OK, h, s)
      else case hash_map_put (table_of h) key (Some present) s of (st, t, s1) \<Rightarrow> (st, with_table h t, s1))"

definition hash_set_contains :: "'k hash_set ptr \<Rightarrow> 'k ptr \<Rightarrow> bool" where
  "hash_set_contains h key \<longleftrightarrow> h \<noteq> NULL \<and> hash_map_contains (table_of h) key"

definition hash_set_remove :: "'k hash_set ptr \<Rightarrow> 'k ptr \<Rightarrow> stl_status \<times> 'k hash_set ptr" where
  "hash_set_remove h key =
     (if h = NULL then (STL_INVALID_ARGUMENT, h)
      else case hash_map_remove (table_of h) key NULL of (st, t, _) \<Rightarrow> (st, with_table h t))"

fun hash_set_add_all :: "'k list \<Rightarrow> 'k hash_set ptr \<Rightarrow> env \<Rightarrow> stl_status \<times> 'k hash_set ptr \<times> env" where
  "hash_set_add_all [] temporary s = (STL_OK, temporary, s)"
| "hash_set_add_all (k # keys) temporary s =
     (case hash_set_add temporary (Some k) s of (st, t1, s1) \<Rightarrow>
      if st \<noteq> STL_OK
      then (case hash_set_raw_destroy_storage t1 s1 of (t2, s2) \<Rightarrow> (st, t2, s2))
      else hash_set_add_all keys t1 s1)"

definition hash_set_from_common ::
  "'k hash_set ptr \<Rightarrow> 'k list ptr \<Rightarrow> size_t \<Rightarrow> 'k cmeta_type_desc ptr \<Rightarrow> size_t \<Rightarrow> size_t \<Rightarrow> size_t \<Rightarrow>
   ('k \<Rightarrow> size_t \<Rightarrow> size_t) ptr \<Rightarrow> ('k \<Rightarrow> 'k \<Rightarrow> size_t \<Rightarrow> bool) ptr \<Rightarrow> env \<Rightarrow>
   stl_status \<times> 'k hash_set ptr \<times> env" where
  "hash_set_from_common h keys cnt key_type key_size key_align entry_limit hash equal s =
     (if h = NULL \<or> hm_initialized (hs_table (the h)) then (STL_INVALID_ARGUMENT, h, s)
      else if cnt \<noteq> 0 \<and> keys = NULL then (STL_INVALID_ARGUMENT, h, s)
      else
        case (if key_type \<noteq> NULL then hash_set_raw_init (Some set_zeroed) key_type entry_limit
              else hash_set_init_bytes (Some set_zeroed) key_size key_align entry_limit hash equal) of
          (st, t0) \<Rightarrow>
        if st \<noteq> STL_OK then (st, h, s)
        else
          case hash_set_add_all (if cnt = 0 then [] else take cnt (the keys)) t0 s of (st, t1, s1) \<Rightarrow>
          if st \<noteq> STL_OK then (st, h, s1)
          else
            let temporary = the t1
            in (STL_OK, Some (temporary\<lparr>hs_table := (hs_table temporary)\<lparr>hm_generation :=
                  hm_generation (hs_table (the h)) + 1\<rparr>\<rparr>), s1))"

definition hash_set_raw_from_array ::
  "'k hash_set ptr \<Rightarrow> 'k list ptr \<Rightarrow> size_t \<Rightarrow> 'k cmeta_type_desc ptr \<Rightarrow> size_t \<Rightarrow> env \<Rightarrow>
   stl_status \<times> 'k hash_set ptr \<times> env" where
  "hash_set_raw_from_array h keys cnt key_type entry_limit s =
     (if key_type = NULL then (STL_INVALID_ARGUMENT, h, s)
      else hash_set_from_common h keys cnt key_type (td_size (the key_type)) (td_align (the key_type))
        entry_limit NULL NULL s)"

definition hash_set_from_array_bytes ::
  "'k hash_set ptr \<Rightarrow> 'k list ptr \<Rightarrow> size_t \<Rightarrow> size_t \<Rightarrow> size_t \<Rightarrow> size_t \<Rightarrow>
   ('k \<Rightarrow> size_t \<Rightarrow> size_t) ptr \<Rightarrow> ('k \<Rightarrow> 'k \<Rightarrow> size_t \<Rightarrow> bool) ptr \<Rightarrow> env \<Rightarrow>
   stl_status \<times> 'k hash_set ptr \<times> env" where
  "hash_set_from_array_bytes h keys cnt key_size key_align entry_limit hash equal s =
     hash_set_from_common h keys cnt NULL key_size key_align entry_limit hash equal s"

definition hash_set_size :: "'k hash_set ptr \<Rightarrow> size_t" where
  "hash_set_size h = (if h = NULL then 0 else hash_map_size (table_of h))"

definition hash_set_capacity :: "'k hash_set ptr \<Rightarrow> size_t" where
  "hash_set_capacity h = (if h = NULL then 0 else hash_map_capacity (table_of h))"

definition hash_set_entry_limit :: "'k hash_set ptr \<Rightarrow> size_t" where
  "hash_set_entry_limit h = (if h = NULL then 0 else hash_map_entry_limit (table_of h))"

definition hash_set_generation :: "'k hash_set ptr \<Rightarrow> u64" where
  "hash_set_generation h = (if h = NULL then 0 else hash_map_generation (table_of h))"

definition hash_set_empty :: "'k hash_set ptr \<Rightarrow> bool" where
  "hash_set_empty h \<longleftrightarrow> hash_set_size h = 0"

definition hash_set_key_at :: "'k hash_set ptr \<Rightarrow> size_t \<Rightarrow> 'k option ptr" where
  "hash_set_key_at h slot = (if h = NULL then NULL else hash_map_key_at (table_of h) slot)"

definition hash_set_init :: "'k hash_set ptr \<Rightarrow> size_t \<Rightarrow> stl_status \<times> 'k hash_set ptr" where
  "hash_set_init h entry_limit =
     (if h = NULL \<or> hs_element_type (the h) = NULL then (STL_INVALID_ARGUMENT, h)
      else hash_set_raw_init h (hs_element_type (the h)) entry_limit)"

definition hash_set_from_array ::
  "'k hash_set ptr \<Rightarrow> 'k list ptr \<Rightarrow> size_t \<Rightarrow> size_t \<Rightarrow> env \<Rightarrow> stl_status \<times> 'k hash_set ptr \<times> env" where
  "hash_set_from_array h keys cnt entry_limit s =
     (if h = NULL \<or> hs_element_type (the h) = NULL then (STL_INVALID_ARGUMENT, h, s)
      else
        let type = hs_element_type (the h) in
        case hash_set_raw_from_array h keys cnt type entry_limit s of (st, h1, s1) \<Rightarrow>
        (st, map_option (\<lambda>x. x\<lparr>hs_element_type := type\<rparr>) h1, s1))"

definition hash_set_destroy :: "'k hash_set ptr \<Rightarrow> env \<Rightarrow> 'k hash_set ptr \<times> env" where
  "hash_set_destroy h s = (if h \<noteq> NULL then hash_set_raw_destroy_storage h s else (h, s))"

section \<open>The set of keys\<close>

definition set_rep :: "'k hash_set \<Rightarrow> 'k set \<times> nat \<Rightarrow> bool" where
  "set_rep h X \<longleftrightarrow> (\<exists>f. hash_sized (hs_table h) (f, snd X) \<and> {k. f k \<noteq> None} = fst X)"

definition set_blocks :: "'k hash_set \<Rightarrow> int" where
  "set_blocks h = hash_blocks (hs_table h)"

definition set_supplied :: "'k hash_set \<Rightarrow> env \<Rightarrow> bool" where
  "set_supplied h s \<longleftrightarrow> hash_supplied (hs_table h) s"

definition set_config :: "'k hash_set \<Rightarrow> 'k hash_set \<Rightarrow> bool" where
  "set_config h w \<longleftrightarrow> hash_config (hs_table h) (hs_table w) \<and> hs_descriptor w = hs_descriptor h \<and>
     hs_element_type w = hs_element_type h"

datatype 'k set_op = Set_add 'k | Set_remove 'k | Set_clear | Set_reserve size_t

fun set_apply ::
  "'k set_op \<Rightarrow> 'k hash_set ptr \<Rightarrow> env \<Rightarrow> stl_status \<times> 'k hash_set ptr \<times> bool option ptr \<times> env" where
  "set_apply (Set_add k) h s = (case hash_set_add h (Some k) s of (st, h1, s1) \<Rightarrow> (st, h1, NULL, s1))"
| "set_apply (Set_remove k) h s = (case hash_set_remove h (Some k) of (st, h1) \<Rightarrow> (st, h1, NULL, s))"
| "set_apply Set_clear h s = (STL_OK, hash_set_clear h, NULL, s)"
| "set_apply (Set_reserve n) h s = (case hash_set_reserve h n s of (st, h1, s1) \<Rightarrow> (st, h1, NULL, s1))"

text \<open>The set of keys with its size under the limit; \<open>eq\<close> decides which keys are the same.\<close>

fun set_model ::
  "('k \<Rightarrow> 'k \<Rightarrow> bool) \<Rightarrow> size_t \<Rightarrow> 'k set_op \<Rightarrow> 'k set \<times> nat \<Rightarrow> stl_status \<times> ('k set \<times> nat) \<times> bool option" where
  "set_model eq limit (Set_add k) (X, n) =
     (if k \<in> X then (STL_OK, (X, n), None)
      else if limit \<le> n then (STL_CAPACITY_EXCEEDED, (X, n), None)
      else (STL_OK, (X \<union> {k'. eq k k'}, n + 1), None))"
| "set_model eq limit (Set_remove k) (X, n) =
     (if k \<in> X then (STL_OK, (X - {k'. eq k k'}, n - 1), None) else (STL_NOT_FOUND, (X, n), None))"
| "set_model eq limit Set_clear (X, n) = (STL_OK, ({}, 0), None)"
| "set_model eq limit (Set_reserve m) (X, n) =
     (if limit < m then (STL_CAPACITY_EXCEEDED, (X, n), None) else (STL_OK, (X, n), None))"

text \<open>A step of the table is a step of the set.\<close>

definition hash_op_of :: "'k set_op \<Rightarrow> ('k, bool) hash_op" where
  "hash_op_of op = (case op of Set_add k \<Rightarrow> Hash_put k True | Set_remove k \<Rightarrow> Hash_remove k NULL
     | Set_clear \<Rightarrow> Hash_clear | Set_reserve n \<Rightarrow> Hash_reserve n)"

lemma set_apply_table:
  assumes "\<And>k. op = Set_add k \<Longrightarrow> f k = None" and "hash_sized (hs_table h) (f, n)"
    and "hash_apply (hash_op_of op) (Some (hs_table h)) s = (st, t, out, s')"
  shows "set_apply op (Some h) s = (st, with_table (Some h) t, NULL, s')"
proof (cases op)
  case (Set_add k)
  have "hash_rep (hs_table h) f" using assms(2) by (simp add: hash_sized_def)
  then have "\<not> hash_map_contains (Some (hs_table h)) (Some k)"
    using assms(1) Set_add hash_map_get_contract [of "hs_table h" f k]
    by (simp add: hash_map_contains_def hash_map_get_const_def)
  then show ?thesis using Set_add assms(3)
    by (auto simp: hash_op_of_def hash_set_add_def table_of_def split: prod.splits)
qed (use assms(3) in \<open>auto simp: hash_op_of_def hash_set_remove_def hash_set_clear_def hash_set_reserve_def
  table_of_def split: prod.splits\<close>)

lemma set_model_table:
  assumes "\<And>k. op = Set_add k \<Longrightarrow> f k = None" and "{k. f k \<noteq> None} = X"
    and "hash_model eq limit (hash_op_of op) (f, n) = (st, (g, m), y)"
  shows "set_model eq limit op (X, n) = (st, ({k. g k \<noteq> None}, m), None)"
  using assms by (cases op) (auto simp: hash_op_of_def split: if_splits option.splits)

lemma set_step:
  assumes rep: "set_rep h (X, n)"
    and model: "set_model (hash_map_equal (hs_table h)) (hm_entry_limit (hs_table h)) op (X, n) = (st0, Y, y)"
    and run: "set_apply op (Some h) s = (st, h', out, s')"
  shows "\<exists>w. h' = Some w \<and> env_delta (set_blocks w - set_blocks h) s s' \<and> set_config h w \<and>
    (st = st0 \<and> set_rep w Y \<and> out = NULL \<or> st \<noteq> STL_OK \<and> w = h \<and> out = NULL \<and> \<not> set_supplied h s)"
proof -
  obtain f where f: "hash_sized (hs_table h) (f, n)" "{k. f k \<noteq> None} = X" using rep by (auto simp: set_rep_def)
  show ?thesis
  proof (cases "\<exists>k. op = Set_add k \<and> f k \<noteq> None")
    case True
    then obtain k v where k: "op = Set_add k" "f k = Some v" by auto
    have "hash_map_contains (Some (hs_table h)) (Some k)"
      using f(1) k(2) hash_map_get_contract [of "hs_table h" f k]
      by (simp add: hash_sized_def hash_map_contains_def hash_map_get_const_def)
    then show ?thesis using k f(2) model run rep
      by (auto simp: hash_set_add_def table_of_def set_config_def)
  next
    case False
    then have none: "\<And>k. op = Set_add k \<Longrightarrow> f k = None" by blast
    obtain st1 t out1 s1 where ap: "hash_apply (hash_op_of op) (Some (hs_table h)) s = (st1, t, out1, s1)"
      by (metis prod_cases4)
    obtain st2 g m y2 where hm: "hash_model (hash_map_equal (hs_table h)) (hm_entry_limit (hs_table h))
        (hash_op_of op) (f, n) = (st2, (g, m), y2)"
      by (metis prod_cases3 surj_pair)
    have eqs: "st = st1" "h' = with_table (Some h) t" "out = NULL" "s' = s1"
      using set_apply_table [OF _ f(1) ap] none run by auto
    have meq: "st0 = st2" "Y = ({k. g k \<noteq> None}, m)" using set_model_table [OF none f(2) hm] model by auto
    obtain w where w: "t = Some w" "env_delta (hash_blocks w - hash_blocks (hs_table h)) s s1"
      "hash_config (hs_table h) w"
      "st1 = st2 \<and> hash_sized w (g, m) \<or> st1 \<noteq> STL_OK \<and> w = hs_table h \<and> \<not> hash_supplied (hs_table h) s"
      using hash_machine.step [OF f(1) hm ap] by blast
    then show ?thesis
      using eqs meq by (auto simp: with_table_def set_blocks_def set_config_def set_supplied_def set_rep_def)
  qed
qed

interpretation set_machine: container set_rep set_apply "\<lambda>_. NULL"
  "\<lambda>h. set_model (hash_map_equal (hs_table h)) (hm_entry_limit (hs_table h))" set_blocks set_config set_supplied
proof
  fix q :: "'k hash_set" and X op st0 Y y s st q' out s'
  assume a: "set_rep q X" "set_model (hash_map_equal (hs_table q)) (hm_entry_limit (hs_table q)) op X = (st0, Y, y)"
    "set_apply op (Some q) s = (st, q', out, s')"
  have "deliver y NULL = NULL" by (simp add: deliver_def split: option.split)
  then show "\<exists>w. q' = Some w \<and> env_delta (set_blocks w - set_blocks q) s s' \<and> set_config q w \<and>
      (st = st0 \<and> set_rep w Y \<and> out = deliver y NULL \<or> st \<noteq> STL_OK \<and> w = q \<and> out = NULL \<and> \<not> set_supplied q s)"
    using set_step [of q "fst X" "snd X" op st0 Y y s st q' out s'] a by simp
next
  show "ys = xs" if "set_model (hash_map_equal (hs_table q)) (hm_entry_limit (hs_table q)) op xs = (st, ys, y)"
    "st \<noteq> STL_OK" for q :: "'k hash_set" and op xs st ys y
    using that by (cases xs; cases op) (auto split: if_splits)
  show "set_config q q" for q :: "'k hash_set" by (simp add: set_config_def)
  show "set_config q u" if "set_config q w" "set_config w u" for q w u :: "'k hash_set"
    using that hash_config_trans by (auto simp: set_config_def)
  show "set_model (hash_map_equal (hs_table w)) (hm_entry_limit (hs_table w)) =
      set_model (hash_map_equal (hs_table q)) (hm_entry_limit (hs_table q))"
    if "set_config q w" for q w :: "'k hash_set"
    using that hash_config_functions(1) hash_config_fields(8) by (fastforce simp: set_config_def)
  show "set_supplied w s" if "set_config q w" "set_supplied q s" for q w :: "'k hash_set" and s
    using that hash_supplied_config [of "hs_table q" "hs_table w" s] by (simp add: set_config_def set_supplied_def)
  show "set_supplied q s'" if "env_delta k s s'" "set_supplied q s" for q :: "'k hash_set" and k s s'
    using that by (simp add: set_supplied_def hash_supplied_delta)
qed

section \<open>Properties\<close>

text \<open>Whatever allocations fail during a run of additions, removals, clears and
  reservations, the hash set afterwards contains a key exactly when the set built by the
  operations acknowledged with \<open>STL_OK\<close> does, and counts its classes of equal keys.\<close>

theorem hash_set_run_acknowledged:
  assumes "set_rep h (X, n)" and "run_ops set_apply ops (Some h) s = (rs, r, s')"
    and "replay (set_model (hash_map_equal (hs_table h)) (hm_entry_limit (hs_table h))) (zip ops rs) (X, n) = (Y, k)"
  shows "(\<forall>key. hash_set_contains r (Some key) \<longleftrightarrow> key \<in> Y) \<and> hash_set_size r = k \<and>
     live_blocks (snd (hash_set_raw_destroy_storage r s')) = live_blocks s - set_blocks h"
proof -
  obtain w where w: "r = Some w" "env_delta (set_blocks w - set_blocks h) s s'" "set_rep w (Y, k)"
    using set_machine.run_acknowledged [OF assms(1,2)] assms(3) by auto
  then obtain f where f: "hash_rep (hs_table w) f" "hm_size (hs_table w) = k" "{k. f k \<noteq> None} = Y"
    by (auto simp: set_rep_def hash_sized_def)
  have "hash_set_contains r (Some key) \<longleftrightarrow> key \<in> Y" for key
    using w(1) f hash_map_get_contract [OF f(1), of key]
    by (auto simp: hash_set_contains_def hash_map_contains_def hash_map_get_const_def table_of_def)
  moreover have "live_blocks (snd (hash_set_raw_destroy_storage r s')) = live_blocks s' - set_blocks w"
    using destroy_storage_delta [OF f(1), of s'] w(1)
    by (auto simp: hash_set_raw_destroy_storage_def table_of_def env_delta_def set_blocks_def split: prod.splits)
  ultimately show ?thesis
    using w(1,2) f(2) hash_repD(1) [OF f(1)]
    by (auto simp: hash_set_size_def hash_map_size_def table_of_def env_delta_def)
qed

text \<open>A set of numbers with room for three, with its bool presence values.\<close>

definition nat_set :: "nat hash_set" where
  "nat_set = \<lparr>hs_descriptor = NULL, hs_element_type = Some nat_desc, hs_table = hash_zeroed\<lparr>hm_key_size := 4,
     hm_key_stride := 4, hm_key_align := 4, hm_value_size := 1, hm_value_stride := 1, hm_value_align := 1,
     hm_entry_limit := 3, hm_key_type := Some nat_desc, hm_value_type := Some cmeta_type_bool,
     hm_generation := 1, hm_initialized := True\<rparr>\<rparr>"

lemma nat_set_init:
  "hash_map_raw_init (Some hash_zeroed) (Some nat_desc) (Some cmeta_type_bool) 3 = (STL_OK, Some (hs_table nat_set))"
proof -
  have "sequence_stride 1 1 (Some 0) = (STL_OK, Some 1)"
    using size_and_not_align [of 1 1] by (simp add: sequence_stride_def SIZE_MAX_def sequence_alignment_valid_def)
  moreover have "cmeta_type_require_traits (Some cmeta_type_bool) value_traits = CMETA_OK"
    by (simp add: cmeta_type_bool_def cmeta_traits_bool_def cmeta_type_require_traits_def trait_flag_defs)
  ultimately show ?thesis
    using nat_stride nat_traits_required
    by (simp add: hash_map_raw_init_def hash_map_initialize_def Let_def hash_zeroed_def nat_set_def)
      (simp add: nat_desc_def cmeta_type_bool_def sequence_alignment_valid_def hash_zeroed_def)
qed

lemma nat_set_rep: "set_rep nat_set ({}, 0)"
proof -
  note nat_set_init
  moreover have "traits_lawful cmeta_type_bool" "td_size cmeta_type_bool \<le> SIZE_MAX" "td_align cmeta_type_bool \<le> SIZE_MAX"
    by (simp_all add: traits_lawful_def cmeta_type_bool_def cmeta_traits_bool_def SIZE_MAX_def)
  ultimately show ?thesis
    using raw_init_rep [OF nat_desc_lawful _ nat_key nat_bounds(1,2) _ _ nat_bounds(3)] by (auto simp: set_rep_def)
qed

theorem hash_set_run_acknowledged_witness:
  "\<exists>rs r s' Y k. run_ops set_apply [Set_add 1, Set_add 2, Set_add 1, Set_remove 2] (Some nat_set) never_env = (rs, r, s') \<and>
     (\<forall>key. hash_set_contains r (Some key) \<longleftrightarrow> key \<in> Y) \<and> hash_set_size r = k"
proof -
  let ?ops = "[Set_add 1, Set_add 2, Set_add 1, Set_remove 2] :: nat set_op list"
  obtain rs r s' where run: "run_ops set_apply ?ops (Some nat_set) never_env = (rs, r, s')" by (metis prod_cases3)
  obtain Y k where rp: "replay (set_model (hash_map_equal (hs_table nat_set)) (hm_entry_limit (hs_table nat_set)))
      (zip ?ops rs) ({}, 0) = (Y, k)" by fastforce
  show ?thesis using hash_set_run_acknowledged [OF nat_set_rep run rp] run by blast
qed

text \<open>C25: A bound handle filled by \<open>hash_set_from_array\<close> comes back without its container
  descriptor: \<open>*set = temporary\<close> clears it and only the element type is put back.\<close>

theorem hash_set_from_array_unbinds:
  assumes "hash_set_from_array (Some h) keys n limit s = (STL_OK, Some w, s')"
  shows "hs_descriptor w = NULL \<and> hs_element_type w = hs_element_type h"
proof -
  have keep: "\<exists>u. t1 = Some u \<and> hs_descriptor u = hs_descriptor t0"
    if "hash_set_add_all xs (Some t0) s0 = (STL_OK, t1, s1)" for xs t0 s0 t1 s1
    using that
  proof (induction xs arbitrary: t0 s0)
    case (Cons k ks)
    obtain st t2 s2 where add: "hash_set_add (Some t0) (Some k) s0 = (st, t2, s2)" by (metis prod_cases3)
    then have "st = STL_OK" using Cons.prems by (auto split: if_splits prod.splits)
    moreover have "\<exists>u. t2 = Some u \<and> hs_descriptor u = hs_descriptor t0"
      using add by (auto simp: hash_set_add_def with_table_def split: if_splits prod.splits)
    then obtain u where "t2 = Some u" "hs_descriptor u = hs_descriptor t0" by blast
    ultimately show ?case using Cons.IH [of u s2] Cons.prems add by auto
  qed auto
  define xs where "xs = (if n = 0 then [] else take n (the keys))"
  obtain t0 t1 s1 where t: "hash_set_raw_init (Some set_zeroed) (hs_element_type h) limit = (STL_OK, t0)"
    "hash_set_add_all xs t0 s = (STL_OK, t1, s1)" "hs_descriptor w = hs_descriptor (the t1)"
    "hs_element_type w = hs_element_type h"
    using assms
    by (auto simp: hash_set_from_array_def hash_set_raw_from_array_def hash_set_from_common_def Let_def
        simp flip: xs_def split: prod.splits if_splits)
  obtain u0 where u0: "t0 = Some u0" "hs_descriptor u0 = NULL"
    using t(1) by (auto simp: hash_set_raw_init_def with_table_def set_zeroed_def split: prod.splits)
  have "hs_descriptor (the t1) = NULL" using keep [of xs u0 s t1 s1] t(2) u0 by auto
  then show ?thesis using t by simp
qed

text \<open>A handle with descriptor seven, filled with one key.\<close>

definition bound_set :: "nat hash_set" where
  "bound_set = set_zeroed\<lparr>hs_descriptor := Some 7, hs_element_type := Some nat_desc\<rparr>"

theorem hash_set_from_array_unbinds_witness:
  "\<exists>w s'. hash_set_from_array (Some bound_set) (Some []) 0 3 ample_env = (STL_OK, Some w, s') \<and>
     hs_descriptor bound_set = Some 7 \<and> hs_descriptor w = NULL \<and> hs_element_type w = Some nat_desc"
proof -
  obtain w s' where run: "hash_set_from_array (Some bound_set) (Some []) 0 3 ample_env = (STL_OK, Some w, s')"
    using nat_set_init
    by (simp add: hash_set_from_array_def hash_set_raw_from_array_def hash_set_from_common_def hash_set_raw_init_def
        bound_set_def set_zeroed_def table_of_def with_table_def hash_zeroed_def)
  from hash_set_from_array_unbinds [OF run] run show ?thesis by (auto simp: bound_set_def)
qed

end
