(* ===== verification/Crc_Register.thy ===== *)
theory Crc_Register
  imports Salts_Prelude
begin

text \<open>
  What the cyclic checksums of the parsers (\<^verbatim>\<open>crc32_compute\<close> of the TLV frames, \<^verbatim>\<open>modbus_rtu_crc16\<close>
  of Modbus RTU) have in common: a register that shifts out one bit per message bit. The
  update is linear over XOR, a plain shift when the bit shifted out is clear, and injective;
  hence two messages that differ only inside a window no longer than the register have
  different checksums.
\<close>

lemma xor_cancel [simp]:
  "(a XOR x = a XOR y) = (x = (y :: 'a::len word))" "(x XOR a = y XOR a) = (x = (y :: 'a::len word))"
proof -
  have undo: "a XOR (a XOR z) = z" for z :: "'a word" by (simp flip: xor.assoc)
  then show "(a XOR x = a XOR y) = (x = y)" by metis
  then show "(x XOR a = y XOR a) = (x = y)" by (simp add: xor.commute)
qed

lemma low_bit: "(c AND 1 \<noteq> 0) = bit (c :: 'a::len word) 0"
  by (simp add: and_one_eq bit_0 odd_iff_mod_2_eq_one)

text \<open>The shift register with a reflected polynomial.\<close>

definition crc_shift :: "'a::len word \<Rightarrow> 'a word \<Rightarrow> 'a word" where
  "crc_shift poly c = (if bit c 0 then drop_bit 1 c XOR poly else drop_bit 1 c)"

text \<open>Bytes entering the register one after the other, the first one lowest.\<close>

fun le_word :: "u8 list \<Rightarrow> 'a::len word" where
  "le_word [] = 0"
| "le_word (w # ws) = ucast w XOR push_bit 8 (le_word ws)"

lemma le_word_bound:
  "8 * length ws \<le> LENGTH('a) \<Longrightarrow> unat (le_word ws :: 'a::len word) < 2 ^ (8 * length ws)"
proof (induction ws)
  case (Cons w ws)
  then have IH: "unat (le_word ws :: 'a word) < 2 ^ (8 * length ws)" by simp
  show ?case
  proof (rule unat_bound_of_bits)
    fix n
    assume "bit (le_word (w # ws) :: 'a word) n"
    then have "n < 8 \<or> (8 \<le> n \<and> bit (le_word ws :: 'a word) (n - 8))"
      by (auto simp: bit_simps dest: bit_imp_le_length)
    then show "n < 8 * length (w # ws)" using bit_bound [OF IH] by fastforce
  qed
qed simp

lemma le_word_bound_tail:
  assumes "8 * length (w # ws) \<le> LENGTH('a)"
  shows "unat (le_word ws :: 'a::len word) < 2 ^ (LENGTH('a) - 8)"
proof -
  have "(2::nat) ^ (8 * length ws) \<le> 2 ^ (LENGTH('a) - 8)"
    using assms by (intro power_increasing) auto
  moreover have "unat (le_word ws :: 'a word) < 2 ^ (8 * length ws)"
    using assms by (intro le_word_bound) simp
  ultimately show ?thesis by (rule order.strict_trans2 [rotated])
qed

lemma le_word_inj:
  "length v = length w \<Longrightarrow> 8 * length w \<le> LENGTH('a) \<Longrightarrow> (le_word v :: 'a::len word) = le_word w \<Longrightarrow> v = w"
proof (induction v w rule: list_induct2)
  case (Cons a v b w)
  have W: "8 \<le> LENGTH('a)" using Cons.prems(1) by simp
  have bounds: "unat (le_word v :: 'a word) < 2 ^ (LENGTH('a) - 8)" "unat (le_word w :: 'a word) < 2 ^ (LENGTH('a) - 8)"
    using le_word_bound_tail [of a v, where 'a = 'a] le_word_bound_tail [of b w, where 'a = 'a] Cons.hyps Cons.prems(1)
    by simp_all
  have low: "(ucast (le_word (c # cs) :: 'a word) :: u8) = c" for c cs
    using W by (intro bit_word_eqI) (auto simp: bit_simps)
  have high: "drop_bit 8 (le_word (c # cs) :: 'a word) = le_word cs"
    if "unat (le_word cs :: 'a word) < 2 ^ (LENGTH('a) - 8)" for c cs
  proof (rule bit_word_eqI)
    fix n
    show "bit (drop_bit 8 (le_word (c # cs) :: 'a word)) n = bit (le_word cs :: 'a word) n"
      using bit_bound [OF that, of n] by (auto simp: bit_simps dest: bit_imp_le_length)
  qed
  have "a = b" using arg_cong [OF Cons.prems(2), of "\<lambda>x. ucast x :: u8"] by (simp only: low)
  moreover have "(le_word v :: 'a word) = le_word w"
    using arg_cong [OF Cons.prems(2), of "drop_bit 8"] by (simp only: high [OF bounds(1)] high [OF bounds(2)])
  ultimately show ?case using Cons.IH Cons.prems(1) by simp
qed simp

text \<open>One byte enters the register: eight updates.\<close>

definition crc_absorb :: "('a::len word \<Rightarrow> 'a word) \<Rightarrow> u8 \<Rightarrow> 'a word \<Rightarrow> 'a word" where
  "crc_absorb step u c = (step ^^ 8) (c XOR ucast u)"

locale crc_register =
  fixes step :: "'a::len word \<Rightarrow> 'a word"
  assumes linear: "step (a XOR b) = step a XOR step b"
    and shifts: "\<not> bit c 0 \<Longrightarrow> step c = drop_bit 1 c"
    and injective: "step a = step b \<Longrightarrow> a = b"
begin

lemma steps_linear: "(step ^^ n) (a XOR b) = (step ^^ n) a XOR (step ^^ n) b"
  by (induction n) (simp_all add: linear)

lemma steps_inj: "(step ^^ n) a = (step ^^ n) b \<Longrightarrow> a = b"
  by (induction n arbitrary: a b) (auto dest: injective)

lemma steps_shift: "n \<le> LENGTH('a) \<Longrightarrow> unat y < 2 ^ (LENGTH('a) - n) \<Longrightarrow> (step ^^ n) (push_bit n y) = y"
proof (induction n)
  case (Suc n)
  have small: "unat y < 2 ^ (LENGTH('a) - n)"
    using Suc.prems by (meson diff_le_mono2 le_SucI less_le_trans order_refl one_le_numeral power_increasing)
  have "\<not> bit (push_bit (Suc n) y) 0" by (simp only: bit_push_bit_iff) simp
  then have "step (push_bit (Suc n) y) = drop_bit 1 (push_bit (Suc n) y)" by (rule shifts)
  also have "\<dots> = push_bit n y"
  proof (rule bit_word_eqI)
    fix k
    assume k: "k < LENGTH('a)"
    have "Suc k = LENGTH('a) \<Longrightarrow> \<not> bit y (k - n)"
      using bit_bound [OF Suc.prems(2), of "k - n"] Suc.prems(1) by auto
    then show "bit (drop_bit 1 (push_bit (Suc n) y)) k = bit (push_bit n y) k"
      using k Suc.prems(1)
      by (cases "Suc k = LENGTH('a)") (auto simp: bit_drop_bit_eq bit_push_bit_iff simp del: push_bit_Suc dest: bit_imp_le_length)
  qed
  finally have "step (push_bit (Suc n) y) = push_bit n y" .
  then show ?case
    using Suc.IH [OF _ small] Suc.prems(1) by (simp add: funpow_swap1)
qed simp

lemma absorb_inj: "crc_absorb step u a = crc_absorb step u b \<Longrightarrow> a = b"
  unfolding crc_absorb_def by (auto dest: steps_inj)

lemma fold_inj: "fold (crc_absorb step) us a = fold (crc_absorb step) us b \<Longrightarrow> a = b"
  by (induction us arbitrary: a b) (auto dest: absorb_inj)

lemma absorb_word:
  "8 * length ws \<le> LENGTH('a) \<Longrightarrow> fold (crc_absorb step) ws c = (step ^^ (8 * length ws)) (c XOR le_word ws)"
proof (induction ws arbitrary: c)
  case (Cons w ws)
  have "(step ^^ 8) (push_bit 8 (le_word ws)) = le_word ws"
    using le_word_bound_tail [OF Cons.prems] Cons.prems by (intro steps_shift) auto
  then have "crc_absorb step w c XOR le_word ws = (step ^^ 8) (c XOR le_word (w # ws))"
    by (simp only: crc_absorb_def le_word.simps steps_linear xor.assoc)
  then show ?case
    using Cons funpow_add [of "8 * length ws" 8 step]
    by (simp add: add.commute del: le_word.simps funpow.simps)
qed simp

text \<open>The main fact: a burst that fits the register changes the checksum.\<close>

lemma burst:
  assumes "length v = length w" "8 * length w \<le> LENGTH('a)"
    and "fold (crc_absorb step) (pre @ v @ post) c = fold (crc_absorb step) (pre @ w @ post) c"
  shows "v = w"
proof -
  let ?c = "fold (crc_absorb step) pre c"
  have "fold (crc_absorb step) v ?c = fold (crc_absorb step) w ?c"
    using assms(3) by (auto dest: fold_inj)
  then have "(step ^^ (8 * length w)) (?c XOR le_word v) = (step ^^ (8 * length w)) (?c XOR le_word w)"
    using assms(1,2) by (simp add: absorb_word)
  from steps_inj [OF this] have "?c XOR le_word v = ?c XOR le_word w" .
  then have "(le_word v :: 'a word) = le_word w" by simp
  with assms(1,2) show ?thesis by (rule le_word_inj)
qed

end

text \<open>Every polynomial with the top bit set gives such a register.\<close>

lemma crc_shift_linear: "crc_shift p (a XOR b) = crc_shift p a XOR crc_shift p b"
proof -
  have "drop_bit 1 (a XOR b) = drop_bit 1 a XOR drop_bit 1 b" by simp
  then show ?thesis
    by (auto simp: crc_shift_def bit_xor_iff xor.assoc xor.left_commute xor.commute)
qed

lemma crc_shift_inj:
  assumes top: "bit p (LENGTH('a) - 1)" and eq: "crc_shift p a = crc_shift p (b :: 'a::len word)"
  shows "a = b"
proof -
  have "bit (crc_shift p c) (LENGTH('a) - 1) = bit c 0" for c
    using top by (auto simp: crc_shift_def bit_simps dest: bit_imp_le_length)
  with eq have low: "bit a 0 = bit b 0" by metis
  with eq have "drop_bit 1 a = drop_bit 1 b"
    by (auto simp: crc_shift_def split: if_splits)
  then have "bit a (Suc n) = bit b (Suc n)" for n
    by (metis bit_drop_bit_eq comp_apply plus_1_eq_Suc)
  with low show "a = b" by (intro bit_word_eqI) (metis old.nat.exhaust)
qed

lemma crc_shift_register:
  "bit p (LENGTH('a) - 1) \<Longrightarrow> crc_register (crc_shift (p :: 'a::len word))"
  by unfold_locales (simp add: crc_shift_linear, simp add: crc_shift_def, erule (1) crc_shift_inj)

end
