(* ===== verification/Crc32.thy ===== *)
theory Crc32
  imports Crc_Register
begin

text \<open>
  The checksum of the TLV frames (\<^verbatim>\<open>src/parser/tlv_parser/src/crc32.c\<close>): the table generator
  and the table-driven loop. The register update is linear over XOR, which is why eight bit
  steps may be looked up in a table, and injective, which is why it detects short bursts.
\<close>

section \<open>The code\<close>

definition crc32_polynomial :: u32 where
  "crc32_polynomial = 0xEDB88320"

text \<open>The body of the generator's inner loop.\<close>

definition crc32_bit :: "u32 \<Rightarrow> u32" where
  "crc32_bit c = (if c AND 1 \<noteq> 0 then crc32_polynomial XOR drop_bit 1 c else drop_bit 1 c)"

definition crc32_generate_table :: "u32 list" where
  "crc32_generate_table = map (\<lambda>i. (crc32_bit ^^ 8) (of_nat i)) [0..<256]"

fun crc32_loop :: "u32 list \<Rightarrow> u8 list \<Rightarrow> u32 \<Rightarrow> u32" where
  "crc32_loop table [] c = c"
| "crc32_loop table (u # us) c =
     crc32_loop table us (table ! unat ((c XOR ucast u) AND 0xFF) XOR drop_bit 8 c)"

definition crc32_compute :: "u32 list \<Rightarrow> u8 list \<Rightarrow> u32" where
  "crc32_compute table buf = crc32_loop table buf 0xFFFFFFFF XOR 0xFFFFFFFF"

section \<open>The register update\<close>

text \<open>The reference: every message bit shifts the register once.\<close>

definition crc32_byte :: "u8 \<Rightarrow> u32 \<Rightarrow> u32" where
  "crc32_byte u c = (crc32_bit ^^ 8) (c XOR ucast u)"

definition crc32_bitwise :: "u8 list \<Rightarrow> u32" where
  "crc32_bitwise bs = fold crc32_byte bs 0xFFFFFFFF XOR 0xFFFFFFFF"

lemma crc32_bit_shift: "crc32_bit = crc_shift crc32_polynomial"
  by (rule ext) (simp add: crc32_bit_def crc_shift_def low_bit xor.commute)

interpretation crc32: crc_register crc32_bit
  unfolding crc32_bit_shift
  by (rule crc_shift_register) (simp add: crc32_polynomial_def bit_iff_odd)

lemma crc32_byte_absorb: "crc32_byte = crc_absorb crc32_bit"
  by (intro ext) (simp add: crc32_byte_def crc_absorb_def)

section \<open>The table\<close>

lemma table_lookup: "i < 256 \<Longrightarrow> crc32_generate_table ! i = (crc32_bit ^^ 8) (of_nat i)"
  by (simp add: crc32_generate_table_def)

lemma mask8: "(c :: u32) AND 0xFF = take_bit 8 c"
  by (simp add: take_bit_eq_mask mask_eq_exp_minus_1)

lemma low_byte_split: "(c :: u32) XOR ucast (u :: u8) = take_bit 8 (c XOR ucast u) XOR push_bit 8 (drop_bit 8 c)"
  by (rule bit_word_eqI) (auto simp: bit_simps dest: bit_imp_le_length)

lemma table_step:
  "crc32_generate_table ! unat ((c XOR ucast u) AND 0xFF) XOR drop_bit 8 c = crc32_byte u c"
proof -
  let ?i = "take_bit 8 (c XOR ucast u) :: u32"
  have "unat ?i < 2 ^ 8" by (simp only: unsigned_take_bit_eq take_bit_nat_less_exp)
  then have look: "crc32_generate_table ! unat ?i = (crc32_bit ^^ 8) ?i" by (simp add: table_lookup)
  have "unat (drop_bit 8 c) < 2 ^ (32 - 8)"
    by (intro unat_bound_of_bits) (auto simp: bit_simps dest: bit_imp_le_length)
  then have "(crc32_bit ^^ 8) (push_bit 8 (drop_bit 8 c)) = drop_bit 8 c"
    by (intro crc32.steps_shift) simp_all
  with look show ?thesis
    unfolding crc32_byte_def mask8 by (subst low_byte_split) (simp add: crc32.steps_linear del: funpow.simps)
qed

lemma table_loop: "crc32_loop crc32_generate_table bs c = fold crc32_byte bs c"
  by (induction bs arbitrary: c) (simp_all add: table_step)

section \<open>Bursts\<close>

text \<open>Two messages that differ only inside a window of four bytes have different checksums.\<close>

lemma crc32_detects_bursts:
  assumes "length v = length w" and "length w \<le> 4" and "v \<noteq> w"
  shows "crc32_compute crc32_generate_table (pre @ v @ post) \<noteq>
    crc32_compute crc32_generate_table (pre @ w @ post)"
proof
  assume "crc32_compute crc32_generate_table (pre @ v @ post) = crc32_compute crc32_generate_table (pre @ w @ post)"
  then have "fold crc32_byte (pre @ v @ post) 0xFFFFFFFF = fold crc32_byte (pre @ w @ post) 0xFFFFFFFF"
    unfolding crc32_compute_def table_loop by simp
  with crc32.burst [of v w pre post] assms show False by (simp add: crc32_byte_absorb)
qed

section \<open>Properties\<close>

text \<open>C27: The table-driven checksum is the bitwise one: with the table that
  \<open>crc32_generate_table\<close> builds, \<open>crc32_compute\<close> returns on every input what shifting the
  register once for every message bit returns.\<close>

theorem crc32_table_equivalent:
  "crc32_compute crc32_generate_table buf = crc32_bitwise buf"
  by (simp add: crc32_compute_def crc32_bitwise_def table_loop)

end
