(* ===== verification/Memory_Pool.thy ===== *)
theory Memory_Pool
  imports Cstl_Sequence
begin

text \<open>
  The arena allocator (\<^verbatim>\<open>src/utils/src/memory_pool.c\<close>). A pool is its block, the bytes used
  of it and two statistics; an allocation is the offset of its first byte from the block's
  base address. \<open>_Alignof(max_align_t)\<close> is 16 on the LP64 targets.
\<close>

section \<open>The code\<close>

record memory_pool =
  mp_base :: size_t
  mp_size :: size_t
  mp_used :: size_t
  mp_peak_used :: size_t
  mp_alloc_count :: u64

definition MEMORY_POOL_DEFAULT_ALIGNMENT :: size_t where
  "MEMORY_POOL_DEFAULT_ALIGNMENT = 16"

text \<open>Two blocks: the pool object and its arena.\<close>

definition pool_create :: "size_t \<Rightarrow> env \<Rightarrow> memory_pool ptr \<times> env" where
  "pool_create sz s =
     (case malloc s of
        (None, s1) \<Rightarrow> (NULL, s1)
      | (Some _, s1) \<Rightarrow>
          (case malloc s1 of
             (None, s2) \<Rightarrow> (NULL, free_block s2)
           | (Some base, s2) \<Rightarrow>
               (Some \<lparr>mp_base = unat base, mp_size = sz, mp_used = 0, mp_peak_used = 0, mp_alloc_count = 0\<rparr>, s2)))"

definition pool_alloc_aligned ::
  "memory_pool ptr \<Rightarrow> size_t \<Rightarrow> size_t \<Rightarrow> size_t ptr \<times> memory_pool ptr" where
  "pool_alloc_aligned pool sz alignment =
     (if pool = NULL \<or> sz = 0 then (NULL, pool)
      else if alignment = 0 \<or> alignment AND (alignment - 1) \<noteq> 0 then (NULL, pool)
      else
        let p = the pool in
        if mp_size p < mp_used p then (NULL, pool)
        else if SIZE_MAX - (alignment - 1) < mp_used p then (NULL, pool)
        else
          let mask = alignment - 1;
              aligned_offset = size_and_not (mp_used p + mask) mask
          in
          if mp_size p < aligned_offset then (NULL, pool)
          else if mp_size p - aligned_offset < sz then (NULL, pool)
          else
            let new_used = size_add aligned_offset sz in
            if new_used < mp_used p then (NULL, pool)
            else
              let p1 = p\<lparr>mp_used := new_used, mp_alloc_count := mp_alloc_count p + 1\<rparr>;
                  p2 = (if mp_peak_used p1 < mp_used p1 then p1\<lparr>mp_peak_used := mp_used p1\<rparr> else p1)
              in (Some aligned_offset, Some p2))"

definition pool_alloc :: "memory_pool ptr \<Rightarrow> size_t \<Rightarrow> size_t ptr \<times> memory_pool ptr" where
  "pool_alloc pool sz =
     (if pool = NULL \<or> sz = 0 then (NULL, pool)
      else pool_alloc_aligned pool sz MEMORY_POOL_DEFAULT_ALIGNMENT)"

definition pool_reset :: "memory_pool ptr \<Rightarrow> memory_pool ptr" where
  "pool_reset pool = map_option (\<lambda>p. p\<lparr>mp_used := 0\<rparr>) pool"

definition pool_get_used :: "memory_pool ptr \<Rightarrow> size_t" where
  "pool_get_used pool = (case pool of None \<Rightarrow> 0 | Some p \<Rightarrow> mp_used p)"

definition pool_get_available :: "memory_pool ptr \<Rightarrow> size_t" where
  "pool_get_available pool = (case pool of None \<Rightarrow> 0 | Some p \<Rightarrow> mp_size p - mp_used p)"

definition pool_get_peak :: "memory_pool ptr \<Rightarrow> size_t" where
  "pool_get_peak pool = (case pool of None \<Rightarrow> 0 | Some p \<Rightarrow> mp_peak_used p)"

definition pool_mark :: "memory_pool ptr \<Rightarrow> size_t" where
  "pool_mark pool = (case pool of None \<Rightarrow> 0 | Some p \<Rightarrow> mp_used p)"

definition pool_rewind :: "memory_pool ptr \<Rightarrow> size_t \<Rightarrow> memory_pool ptr" where
  "pool_rewind pool mark =
     (case pool of None \<Rightarrow> NULL
      | Some p \<Rightarrow> if mark \<le> mp_used p then Some (p\<lparr>mp_used := mark\<rparr>) else pool)"

definition pool_destroy :: "memory_pool ptr \<Rightarrow> env \<Rightarrow> env" where
  "pool_destroy pool s = (if pool \<noteq> NULL then free_block (free_block s) else s)"

section \<open>Invariant and allocation\<close>

definition pool_ok :: "memory_pool \<Rightarrow> bool" where
  "pool_ok p \<longleftrightarrow> mp_used p \<le> mp_peak_used p \<and> mp_peak_used p \<le> mp_size p \<and> mp_size p \<le> SIZE_MAX"

lemma pool_alloc_cases:
  assumes ok: "pool_ok p" and run: "pool_alloc_aligned (Some p) sz alignment = (r, q)"
    and al: "alignment \<le> SIZE_MAX"
  shows "\<exists>p'. q = Some p' \<and> pool_ok p' \<and> mp_base p' = mp_base p \<and> mp_size p' = mp_size p \<and>
    (case r of
       None \<Rightarrow> p' = p \<and> (sz = 0 \<or> \<not> sequence_alignment_valid alignment \<or> mp_size p < mp_used p + (alignment - 1) + sz)
     | Some off \<Rightarrow> alignment dvd off \<and> mp_used p \<le> off \<and> off < mp_used p + alignment \<and> 0 < sz \<and>
         off + sz = mp_used p' \<and> mp_used p' \<le> mp_size p)"
proof (cases "sz = 0 \<or> \<not> sequence_alignment_valid alignment \<or> SIZE_MAX - (alignment - 1) < mp_used p")
  case True
  then show ?thesis using ok run
    by (auto simp: pool_alloc_aligned_def sequence_alignment_valid_def pool_ok_def Let_def split: if_splits)
next
  case False
  define off where "off = size_and_not (mp_used p + (alignment - 1)) (alignment - 1)"
  have v: "sequence_alignment_valid alignment" "alignment \<noteq> 0" "mp_used p + (alignment - 1) \<le> SIZE_MAX" "sz \<noteq> 0"
    using False al alignment_pos [of alignment] by auto
  have off: "alignment dvd off" "mp_used p \<le> off" "off < mp_used p + alignment"
    using size_and_not_align [OF v(1) al v(3)] round_up [OF v(2), of "mp_used p"] v(2) by (auto simp: off_def)
  have guards: "alignment = 0 \<or> alignment AND (alignment - 1) \<noteq> 0 \<longleftrightarrow> False" "mp_size p < mp_used p \<longleftrightarrow> False"
    "Some p = NULL \<or> sz = 0 \<longleftrightarrow> False" "SIZE_MAX - (alignment - 1) < mp_used p \<longleftrightarrow> False"
    using v(1,4) False ok by (auto simp: sequence_alignment_valid_def pool_ok_def)
  note res = run [unfolded pool_alloc_aligned_def Let_def option.sel guards if_False, folded off_def]
  show ?thesis
  proof (cases "mp_size p < off \<or> mp_size p - off < sz")
    case True
    then have "r = NULL \<and> q = Some p" using res by (auto split: if_splits)
    then show ?thesis using True ok off v by auto
  next
    case fits: False
    then have add: "off + sz \<le> mp_size p" "size_add off sz = off + sz" using ok by (auto simp: pool_ok_def)
    let ?p1 = "p\<lparr>mp_used := off + sz, mp_alloc_count := mp_alloc_count p + 1\<rparr>"
    have "r = Some off \<and> q = Some (if mp_peak_used p < off + sz then ?p1\<lparr>mp_peak_used := off + sz\<rparr> else ?p1)"
      using res fits off(2) unfolding add(2) by (auto split: if_splits)
    then show ?thesis using ok off v add(1) by (auto simp: pool_ok_def)
  qed
qed

section \<open>Properties\<close>

text \<open>C21: The arena hands out sound memory. From a well-formed pool an allocation either
  returns a range that lies inside the arena, above everything in use, at an aligned offset,
  of which the pool then accounts for the last byte; or it returns NULL, changes nothing, and
  the request was empty, its alignment not a power of two, or larger than what could be left.
  Rewinding to the mark taken before restores the bytes in use, and the invariant is kept
  throughout.\<close>

theorem pool_alloc_sound:
  assumes "pool_ok p" and "alignment \<le> SIZE_MAX"
    and "pool_alloc_aligned (Some p) sz alignment = (r, Some p')"
  shows "pool_ok p' \<and>
    (case r of
       None \<Rightarrow> p' = p \<and> (sz = 0 \<or> \<not> sequence_alignment_valid alignment \<or> mp_size p < mp_used p + (alignment - 1) + sz)
     | Some off \<Rightarrow> alignment dvd off \<and> mp_used p \<le> off \<and> off + sz \<le> mp_size p \<and> mp_used p' = off + sz) \<and>
    (\<exists>p''. pool_rewind (Some p') (pool_mark (Some p)) = Some p'' \<and> pool_ok p'' \<and> mp_used p'' = mp_used p)"
proof -
  note c = pool_alloc_cases [OF assms(1,3,2)]
  have ok: "pool_ok p'" and le: "mp_used p \<le> mp_used p'" using c by (auto split: option.splits)
  have "pool_ok (p'\<lparr>mp_used := mp_used p\<rparr>)" using ok le by (auto simp: pool_ok_def)
  then show ?thesis using c le by (auto simp: pool_rewind_def pool_mark_def split: option.splits)
qed

definition small_pool :: memory_pool where
  "small_pool = \<lparr>mp_base = 4112, mp_size = 100, mp_used = 5, mp_peak_used = 9, mp_alloc_count = 2\<rparr>"

lemma small_pool_ok: "pool_ok small_pool"
  by (simp add: pool_ok_def small_pool_def SIZE_MAX_def)

lemma small_pool_alloc:
  "pool_alloc_aligned (Some small_pool) 20 32 =
     (Some 32, Some (small_pool\<lparr>mp_used := 52, mp_peak_used := 52, mp_alloc_count := 3\<rparr>))"
proof -
  have "sequence_alignment_valid 32" by (simp add: sequence_alignment_valid_def)
  then show ?thesis
    using size_and_not_align [of 32 36]
    by (simp add: pool_alloc_aligned_def small_pool_def SIZE_MAX_def Let_def size_add_def sequence_alignment_valid_def)
qed

theorem pool_alloc_sound_witness:
  "\<exists>p'. pool_alloc_aligned (Some small_pool) 20 32 = (Some 32, Some p') \<and> pool_ok p' \<and> (32::nat) dvd 32 \<and>
     mp_used p' = 32 + 20"
proof -
  have "(32::nat) \<le> SIZE_MAX" by (simp add: SIZE_MAX_def)
  from pool_alloc_sound [OF small_pool_ok this small_pool_alloc] small_pool_alloc show ?thesis by simp
qed

text \<open>C26: The alignment \<open>pool_alloc_aligned\<close> gives is that of the offset, not of the address:
  the address it returns is a multiple of the requested alignment exactly when the arena's
  base is. \<open>malloc\<close> aligns the base for \<open>max_align_t\<close> only, so for a larger alignment
  the returned pointer can be misaligned.\<close>

theorem pool_alignment_is_relative:
  assumes "pool_ok p" and "alignment \<le> SIZE_MAX"
    and "pool_alloc_aligned (Some p) sz alignment = (Some off, q)"
  shows "alignment dvd mp_base p + off \<longleftrightarrow> alignment dvd mp_base p"
  using pool_alloc_cases [OF assms(1,3,2)] by (auto simp: dvd_add_left_iff)

theorem pool_alignment_is_relative_witness:
  "\<exists>off q. pool_alloc_aligned (Some small_pool) 20 32 = (Some off, q) \<and>
     MEMORY_POOL_DEFAULT_ALIGNMENT dvd mp_base small_pool \<and> \<not> 32 dvd mp_base small_pool + off"
proof -
  have "(32::nat) \<le> SIZE_MAX" by (simp add: SIZE_MAX_def)
  note rel = pool_alignment_is_relative [OF small_pool_ok this small_pool_alloc]
  have "\<not> 32 dvd mp_base small_pool" by (simp add: small_pool_def)
  then show ?thesis using rel small_pool_alloc
    by (auto simp: small_pool_def MEMORY_POOL_DEFAULT_ALIGNMENT_def)
qed

end
