(* ===== verification/Tlv_Frame.thy ===== *)
theory Tlv_Frame
  imports Crc32 Memory_Pool
begin

text \<open>
  TLV frames (\<^verbatim>\<open>src/parser/tlv_parser/src/\<close>: \<^verbatim>\<open>parser_error.c\<close>, \<^verbatim>\<open>parser_stats.c\<close>,
  \<^verbatim>\<open>frame.c\<close>, \<^verbatim>\<open>frame_parser.c\<close>): the error values, the statistics, header packing and
  validation, and the parser, zero-copy and copying. The process-wide CRC table and its
  initialisation flag are explicit state. A payload pointer is the bytes behind it; a frame
  records whether they live in the memory pool (and from which mark), in a block of their
  own, or in the caller's buffer.
\<close>

section \<open>Errors and statistics\<close>

datatype ParseError =
  PARSE_OK | PARSE_ERR_TRUNCATED | PARSE_ERR_INVALID_HEAD | PARSE_ERR_INVALID_TAIL
| PARSE_ERR_CRC_MISMATCH | PARSE_ERR_INVALID_VERSION | PARSE_ERR_PAYLOAD_TOO_LARGE
| PARSE_ERR_OUT_OF_MEMORY | PARSE_ERR_INVALID_PAYLOAD_TYPE | PARSE_ERR_BUFFER_OVERFLOW
| PARSE_ERR_UNKNOWN

record ParseErrorInfo =
  pe_code :: ParseError
  pe_offset :: size_t
  pe_message :: string
  pe_msg_id :: u32

definition parse_error_string :: "ParseError \<Rightarrow> string" where
  "parse_error_string err =
     (case err of
        PARSE_OK \<Rightarrow> ''Success''
      | PARSE_ERR_TRUNCATED \<Rightarrow> ''Truncated frame''
      | PARSE_ERR_INVALID_HEAD \<Rightarrow> ''Invalid frame header''
      | PARSE_ERR_INVALID_TAIL \<Rightarrow> ''Invalid frame tail''
      | PARSE_ERR_CRC_MISMATCH \<Rightarrow> ''CRC mismatch''
      | PARSE_ERR_INVALID_VERSION \<Rightarrow> ''Invalid version''
      | PARSE_ERR_PAYLOAD_TOO_LARGE \<Rightarrow> ''Payload too large''
      | PARSE_ERR_OUT_OF_MEMORY \<Rightarrow> ''Out of memory''
      | PARSE_ERR_INVALID_PAYLOAD_TYPE \<Rightarrow> ''Invalid payload type''
      | PARSE_ERR_BUFFER_OVERFLOW \<Rightarrow> ''Buffer overflow''
      | PARSE_ERR_UNKNOWN \<Rightarrow> ''Unknown error'')"

text \<open>The message field holds 127 characters and the terminator.\<close>

definition parse_error_set ::
  "ParseErrorInfo \<Rightarrow> ParseError \<Rightarrow> size_t \<Rightarrow> u32 \<Rightarrow> string ptr \<Rightarrow> ParseErrorInfo" where
  "parse_error_set info code offset msg_id message =
     info\<lparr>pe_code := code, pe_offset := offset, pe_msg_id := msg_id,
          pe_message := take 127 (case message of Some t \<Rightarrow> t | None \<Rightarrow> parse_error_string code)\<rparr>"

record ParserStats =
  ps_frames_parsed :: u64
  ps_frames_failed :: u64
  ps_bytes_processed :: u64
  ps_parse_time_ns :: u64
  ps_crc_errors :: u64
  ps_truncated_frames :: u64
  ps_invalid_frames :: u64

definition parser_stats_init :: "ParserStats ptr \<Rightarrow> ParserStats ptr" where
  "parser_stats_init stats =
     map_option (\<lambda>_. \<lparr>ps_frames_parsed = 0, ps_frames_failed = 0, ps_bytes_processed = 0,
       ps_parse_time_ns = 0, ps_crc_errors = 0, ps_truncated_frames = 0, ps_invalid_frames = 0\<rparr>) stats"

definition parser_stats_update ::
  "ParserStats ptr \<Rightarrow> ParseError \<Rightarrow> size_t \<Rightarrow> u64 \<Rightarrow> ParserStats ptr" where
  "parser_stats_update stats parse_result bytes elapsed_ns =
     (case stats of
        None \<Rightarrow> NULL
      | Some st \<Rightarrow>
          let st = st\<lparr>ps_parse_time_ns := ps_parse_time_ns st + elapsed_ns\<rparr> in
          if parse_result = PARSE_OK then
            Some (st\<lparr>ps_frames_parsed := ps_frames_parsed st + 1,
                     ps_bytes_processed := ps_bytes_processed st + of_nat bytes\<rparr>)
          else
            let st = st\<lparr>ps_frames_failed := ps_frames_failed st + 1\<rparr> in
            Some (case parse_result of
                    PARSE_ERR_CRC_MISMATCH \<Rightarrow> st\<lparr>ps_crc_errors := ps_crc_errors st + 1\<rparr>
                  | PARSE_ERR_TRUNCATED \<Rightarrow> st\<lparr>ps_truncated_frames := ps_truncated_frames st + 1\<rparr>
                  | PARSE_ERR_INVALID_HEAD \<Rightarrow> st\<lparr>ps_invalid_frames := ps_invalid_frames st + 1\<rparr>
                  | PARSE_ERR_INVALID_TAIL \<Rightarrow> st\<lparr>ps_invalid_frames := ps_invalid_frames st + 1\<rparr>
                  | PARSE_ERR_INVALID_VERSION \<Rightarrow> st\<lparr>ps_invalid_frames := ps_invalid_frames st + 1\<rparr>
                  | PARSE_ERR_INVALID_PAYLOAD_TYPE \<Rightarrow> st\<lparr>ps_invalid_frames := ps_invalid_frames st + 1\<rparr>
                  | _ \<Rightarrow> st))"

definition parser_stats_avg_time :: "ParserStats ptr \<Rightarrow> u64" where
  "parser_stats_avg_time stats =
     (case stats of None \<Rightarrow> 0
      | Some st \<Rightarrow> if ps_frames_parsed st = 0 then 0 else ps_parse_time_ns st div ps_frames_parsed st)"

section \<open>Frames\<close>

definition FRAME_HEAD :: u8 where "FRAME_HEAD = 0xAA"
definition FRAME_TAIL :: u8 where "FRAME_TAIL = 0x55"
definition FRAME_VERSION :: u8 where "FRAME_VERSION = 1"
definition MAX_PAYLOAD_SIZE :: nat where "MAX_PAYLOAD_SIZE = 10 * 1024 * 1024"

record frame =
  fr_head :: u8
  fr_msg_id :: u32
  fr_version :: u8
  fr_payload_type :: u8
  fr_payload_size :: size_t
  fr_payload :: "u8 list ptr"
  fr_crc32 :: u32
  fr_tail :: u8
  fr_payload_pool :: bool
  fr_payload_pool_offset :: size_t
  fr_payload_owned :: bool

text \<open>There is one pool, the one the frame was copied with.\<close>

definition frame_free ::
  "frame ptr \<Rightarrow> memory_pool ptr \<Rightarrow> env \<Rightarrow> frame ptr \<times> memory_pool ptr \<times> env" where
  "frame_free frame pool e =
     (case frame of
        None \<Rightarrow> (NULL, pool, e)
      | Some f \<Rightarrow>
          let (f1, pool1, e1) =
            (if fr_payload f \<noteq> NULL then
               if fr_payload_pool f then
                 (f\<lparr>fr_payload_pool := False, fr_payload := NULL\<rparr>,
                  pool_rewind pool (fr_payload_pool_offset f), e)
               else if fr_payload_owned f then (f\<lparr>fr_payload := NULL\<rparr>, pool, free_block e)
               else (f\<lparr>fr_payload := NULL\<rparr>, pool, e)
             else (f, pool, e))
          in (Some (f1\<lparr>fr_payload_owned := False, fr_payload_size := 0\<rparr>), pool1, e1))"

definition frame_pack_header :: "frame \<Rightarrow> u8 list \<Rightarrow> size_t \<times> u8 list" where
  "frame_pack_header f buf =
     (if length buf < 11 then (0, buf)
      else
        let b1 = put_bytes buf 0 [fr_head f];
            b2 = put_bytes b1 1 (le32_bytes (fr_msg_id f));
            b3 = put_bytes b2 5 [fr_version f];
            b4 = put_bytes b3 6 [fr_payload_type f];
            b5 = put_bytes b4 7 (le32_bytes (of_nat (fr_payload_size f)))
        in (11, b5))"

definition frame_validate :: "frame ptr \<Rightarrow> ParseError" where
  "frame_validate frame =
     (case frame of
        None \<Rightarrow> PARSE_ERR_INVALID_HEAD
      | Some f \<Rightarrow>
          if fr_head f \<noteq> FRAME_HEAD then PARSE_ERR_INVALID_HEAD
          else if fr_tail f \<noteq> FRAME_TAIL then PARSE_ERR_INVALID_TAIL
          else if fr_version f \<noteq> FRAME_VERSION then PARSE_ERR_INVALID_VERSION
          else if MAX_PAYLOAD_SIZE < fr_payload_size f then PARSE_ERR_PAYLOAD_TOO_LARGE
          else if 0x7F < fr_payload_type f then PARSE_ERR_INVALID_PAYLOAD_TYPE
          else PARSE_OK)"

definition frame_validate_header :: "u8 \<Rightarrow> u8 \<Rightarrow> ParseError" where
  "frame_validate_header head version =
     (if head \<noteq> FRAME_HEAD then PARSE_ERR_INVALID_HEAD
      else if version \<noteq> FRAME_VERSION then PARSE_ERR_INVALID_VERSION
      else PARSE_OK)"

definition frame_validate_payload_size :: "u32 \<Rightarrow> ParseError" where
  "frame_validate_payload_size sz =
     (if MAX_PAYLOAD_SIZE < unat sz then PARSE_ERR_PAYLOAD_TOO_LARGE else PARSE_OK)"

definition frame_validate_payload_type :: "u8 \<Rightarrow> ParseError" where
  "frame_validate_payload_type type =
     (if 0x7F < type then PARSE_ERR_INVALID_PAYLOAD_TYPE else PARSE_OK)"

definition frame_calculate_size :: "frame ptr \<Rightarrow> size_t" where
  "frame_calculate_size frame =
     (case frame of None \<Rightarrow> 0 | Some f \<Rightarrow> size_add 16 (fr_payload_size f))"

section \<open>The parser\<close>

datatype FrameParseResult =
  FRAME_PARSE_OK | FRAME_PARSE_NEED_MORE | FRAME_PARSE_INVALID_HEAD | FRAME_PARSE_INVALID_TAIL
| FRAME_PARSE_INVALID_SIZE | FRAME_PARSE_CRC_MISMATCH

definition FRAME_HEADER_SIZE :: nat where "FRAME_HEADER_SIZE = 11"
definition FRAME_MIN_SIZE :: nat where "FRAME_MIN_SIZE = 16"
definition FRAME_PARSE_FLAG_SKIP_CRC :: u32 where "FRAME_PARSE_FLAG_SKIP_CRC = 1"

record crc_global =
  g_crc_table :: "u32 list"
  g_crc_table_init :: bool

definition ensure_crc_table :: "crc_global \<Rightarrow> crc_global" where
  "ensure_crc_table g =
     (if \<not> g_crc_table_init g
      then g\<lparr>g_crc_table := crc32_generate_table, g_crc_table_init := True\<rparr>
      else g)"

text \<open>Four bytes at an offset, read as a little-endian word.\<close>

definition read_le32 :: "u8 list \<Rightarrow> nat \<Rightarrow> u32" where
  "read_le32 bs i = le32_of (bs ! i) (bs ! (i + 1)) (bs ! (i + 2)) (bs ! (i + 3))"

definition frame_peek_size :: "u8 list ptr \<Rightarrow> u32 ptr \<Rightarrow> FrameParseResult \<times> u32 ptr" where
  "frame_peek_size data out_size =
     (case (data, out_size) of
        (Some bs, Some _) \<Rightarrow>
          if length bs < FRAME_HEADER_SIZE then (FRAME_PARSE_NEED_MORE, out_size)
          else if bs ! 0 \<noteq> FRAME_HEAD then (FRAME_PARSE_INVALID_HEAD, out_size)
          else
            let payload_size = read_le32 bs 7 in
            if MAX_PAYLOAD_SIZE < unat payload_size then (FRAME_PARSE_INVALID_SIZE, out_size)
            else (FRAME_PARSE_OK, Some payload_size)
      | _ \<Rightarrow> (FRAME_PARSE_INVALID_HEAD, out_size))"

definition frame_total_size :: "u32 \<Rightarrow> size_t" where
  "frame_total_size payload_size = FRAME_MIN_SIZE + unat payload_size"

definition frame_parse ::
  "u8 list ptr \<Rightarrow> frame ptr \<Rightarrow> u32 \<Rightarrow> crc_global \<Rightarrow> FrameParseResult \<times> frame ptr \<times> crc_global" where
  "frame_parse data out flags g =
     (if data = NULL \<or> out = NULL then (FRAME_PARSE_INVALID_HEAD, out, g)
      else
        let bs = the data in
        case frame_peek_size data (Some 0) of
          (FRAME_PARSE_OK, size_cell) \<Rightarrow>
            let payload_size = the size_cell; total = frame_total_size payload_size in
            if length bs < total then (FRAME_PARSE_NEED_MORE, out, g)
            else if bs ! (total - 1) \<noteq> FRAME_TAIL then (FRAME_PARSE_INVALID_TAIL, out, g)
            else
              let wire_crc = read_le32 bs (11 + unat payload_size);
                  f = \<lparr>fr_head = bs ! 0, fr_msg_id = read_le32 bs 1, fr_version = bs ! 5,
                       fr_payload_type = bs ! 6, fr_payload_size = unat payload_size,
                       fr_payload = (if 0 < payload_size
                                     then Some (take (unat payload_size) (drop 11 bs)) else NULL),
                       fr_crc32 = wire_crc, fr_tail = bs ! (total - 1), fr_payload_pool = False,
                       fr_payload_pool_offset = 0, fr_payload_owned = False\<rparr>
              in
              if flags AND FRAME_PARSE_FLAG_SKIP_CRC = 0 then
                let g1 = ensure_crc_table g;
                    computed = crc32_compute (g_crc_table g1) (take (FRAME_HEADER_SIZE + unat payload_size) bs)
                in if computed \<noteq> fr_crc32 f then (FRAME_PARSE_CRC_MISMATCH, Some f, g1)
                   else (FRAME_PARSE_OK, Some f, g1)
              else (FRAME_PARSE_OK, Some f, g)
        | (peek_result, _) \<Rightarrow> (peek_result, out, g))"

definition frame_parse_copy ::
  "u8 list ptr \<Rightarrow> frame ptr \<Rightarrow> memory_pool ptr \<Rightarrow> crc_global \<Rightarrow> env \<Rightarrow>
   FrameParseResult \<times> frame ptr \<times> memory_pool ptr \<times> crc_global \<times> env" where
  "frame_parse_copy data out pool g e =
     (case frame_parse data out 0 g of
        (FRAME_PARSE_OK, out1, g1) \<Rightarrow>
          let f = the out1 in
          if 0 < fr_payload_size f then
            let mark = (if pool \<noteq> NULL then pool_mark pool else 0);
                (copy, pool1) = (if pool \<noteq> NULL then pool_alloc pool (fr_payload_size f) else (NULL, pool))
            in
            if copy = NULL then
              (case malloc e of
                 (None, e1) \<Rightarrow> (FRAME_PARSE_INVALID_SIZE, out1, pool1, g1, e1)
               | (Some _, e1) \<Rightarrow>
                   (FRAME_PARSE_OK, Some (f\<lparr>fr_payload_owned := True, fr_payload_pool := False\<rparr>), pool1, g1, e1))
            else
              (FRAME_PARSE_OK,
               Some (f\<lparr>fr_payload_owned := False, fr_payload_pool := True, fr_payload_pool_offset := mark\<rparr>),
               pool1, g1, e)
          else (FRAME_PARSE_OK, out1, pool, g1, e)
      | (result, out1, g1) \<Rightarrow> (result, out1, pool, g1, e))"

definition frame_parse_result_to_error :: "FrameParseResult \<Rightarrow> ParseError" where
  "frame_parse_result_to_error result =
     (case result of
        FRAME_PARSE_OK \<Rightarrow> PARSE_OK
      | FRAME_PARSE_NEED_MORE \<Rightarrow> PARSE_ERR_TRUNCATED
      | FRAME_PARSE_INVALID_HEAD \<Rightarrow> PARSE_ERR_INVALID_HEAD
      | FRAME_PARSE_INVALID_TAIL \<Rightarrow> PARSE_ERR_INVALID_TAIL
      | FRAME_PARSE_INVALID_SIZE \<Rightarrow> PARSE_ERR_PAYLOAD_TOO_LARGE
      | FRAME_PARSE_CRC_MISMATCH \<Rightarrow> PARSE_ERR_CRC_MISMATCH)"

section \<open>The wire image\<close>

record tlv_message =
  tm_id :: u32
  tm_version :: u8
  tm_type :: u8
  tm_payload :: "u8 list"

definition tlv_header :: "tlv_message \<Rightarrow> u8 list" where
  "tlv_header m =
     [FRAME_HEAD] @ le32_bytes (tm_id m) @ [tm_version m, tm_type m] @
     le32_bytes (of_nat (length (tm_payload m)))"

definition tlv_crc :: "tlv_message \<Rightarrow> u32" where
  "tlv_crc m = crc32_compute crc32_generate_table (tlv_header m @ tm_payload m)"

definition tlv_wire :: "tlv_message \<Rightarrow> u8 list" where
  "tlv_wire m = tlv_header m @ tm_payload m @ le32_bytes (tlv_crc m) @ [FRAME_TAIL]"

definition tlv_sendable :: "tlv_message \<Rightarrow> bool" where
  "tlv_sendable m \<longleftrightarrow> length (tm_payload m) \<le> MAX_PAYLOAD_SIZE"

definition tlv_frame :: "tlv_message \<Rightarrow> frame" where
  "tlv_frame m =
     \<lparr>fr_head = FRAME_HEAD, fr_msg_id = tm_id m, fr_version = tm_version m, fr_payload_type = tm_type m,
      fr_payload_size = length (tm_payload m),
      fr_payload = (if tm_payload m \<noteq> [] then Some (tm_payload m) else NULL),
      fr_crc32 = tlv_crc m, fr_tail = FRAME_TAIL, fr_payload_pool = False,
      fr_payload_pool_offset = 0, fr_payload_owned = False\<rparr>"

definition crc_ok :: "crc_global \<Rightarrow> bool" where
  "crc_ok g \<longleftrightarrow> g_crc_table_init g \<longrightarrow> g_crc_table g = crc32_generate_table"

lemma ensure_crc_table [simp]:
  "crc_ok g \<Longrightarrow> g_crc_table (ensure_crc_table g) = crc32_generate_table"
  "crc_ok g \<Longrightarrow> crc_ok (ensure_crc_table g)"
  by (auto simp: ensure_crc_table_def crc_ok_def)

lemma length_le32 [simp]: "length (le32_bytes v) = 4"
  by (simp add: le32_bytes_def)

lemma length_tlv_header [simp]: "length (tlv_header m) = 11"
  by (simp add: tlv_header_def)

lemma length_tlv_wire: "length (tlv_wire m) = 16 + length (tm_payload m)"
  by (simp add: tlv_wire_def)

lemma read_le32_at [simp]: "i = length pre \<Longrightarrow> read_le32 (pre @ le32_bytes v @ rest) i = v"
  by (simp add: read_le32_def le32_bytes_def nth_append)

lemma le32_bytes_read:
  assumes "i + 4 \<le> length bs"
  shows "le32_bytes (read_le32 bs i) = take 4 (drop i bs)"
proof (rule nth_equalityI)
  show "length (le32_bytes (read_le32 bs i)) = length (take 4 (drop i bs))" using assms by simp
  fix k
  assume "k < length (le32_bytes (read_le32 bs i))"
  then have "k = 0 \<or> k = 1 \<or> k = 2 \<or> k = 3" by auto
  then show "le32_bytes (read_le32 bs i) ! k = take 4 (drop i bs) ! k"
    using assms by (auto simp: le32_bytes_def read_le32_def)
qed

lemma read_le32_append [simp]:
  "i + 4 \<le> length xs \<Longrightarrow> read_le32 (xs @ ys) i = read_le32 xs i"
  by (simp add: read_le32_def nth_append)

lemma header_fields [simp]:
  "tlv_header m ! 0 = FRAME_HEAD" "tlv_header m ! 5 = tm_version m" "tlv_header m ! 6 = tm_type m"
  "read_le32 (tlv_header m) (Suc 0) = tm_id m"
  "read_le32 (tlv_header m) 7 = of_nat (length (tm_payload m))"
  by (simp_all add: tlv_header_def le32_bytes_def read_le32_def)

lemma frame_payload_word:
  "tlv_sendable m \<Longrightarrow> unat (of_nat (length (tm_payload m)) :: u32) = length (tm_payload m)"
  by (rule unat_of_nat_small) (simp add: tlv_sendable_def MAX_PAYLOAD_SIZE_def)

lemma peek_header:
  assumes "tlv_sendable m"
  shows "frame_peek_size (Some (tlv_header m @ rest)) (Some x) =
    (FRAME_PARSE_OK, Some (of_nat (length (tm_payload m))))"
  using assms frame_payload_word [OF assms]
  by (simp add: frame_peek_size_def FRAME_HEADER_SIZE_def nth_append tlv_sendable_def)

lemma total_size_payload:
  "tlv_sendable m \<Longrightarrow> frame_total_size (of_nat (length (tm_payload m))) = length (tlv_wire m)"
  by (simp add: frame_total_size_def frame_payload_word length_tlv_wire FRAME_MIN_SIZE_def)

lemma frame_parse_wire:
  assumes "tlv_sendable m" "crc_ok g"
  shows "\<exists>g'. frame_parse (Some (tlv_wire m @ rest)) (Some f0) flags g =
    (FRAME_PARSE_OK, Some (tlv_frame m), g') \<and> crc_ok g'"
proof -
  let ?n = "length (tm_payload m)"
  define bs where "bs = tlv_wire m @ rest"
  have split: "bs = (tlv_header m @ tm_payload m) @ le32_bytes (tlv_crc m) @ FRAME_TAIL # rest"
    by (simp add: bs_def tlv_wire_def)
  have len: "16 + ?n \<le> length bs" by (simp add: bs_def length_tlv_wire)
  have fields: "bs ! 0 = FRAME_HEAD" "bs ! 5 = tm_version m" "bs ! 6 = tm_type m"
    "read_le32 bs 1 = tm_id m" "bs ! (15 + ?n) = FRAME_TAIL"
    by (auto simp: split nth_append)
  have crc_field: "read_le32 bs (11 + ?n) = tlv_crc m"
    unfolding split by (rule read_le32_at) simp
  have cut: "take ?n (drop 11 bs) = tm_payload m" "take (11 + ?n) bs = tlv_header m @ tm_payload m"
    by (simp_all add: split)
  have peek: "frame_peek_size (Some bs) (Some 0) = (FRAME_PARSE_OK, Some (of_nat ?n))"
    using peek_header [OF assms(1), of "tm_payload m @ le32_bytes (tlv_crc m) @ FRAME_TAIL # rest" 0]
    by (simp add: split)
  have pos: "(0 < (of_nat ?n :: u32)) = (tm_payload m \<noteq> [])"
    using frame_payload_word [OF assms(1)] by (simp add: word_less_nat_alt)
  note w = frame_payload_word [OF assms(1)]
  have crc: "crc32_compute crc32_generate_table (tlv_header m @ tm_payload m) = tlv_crc m"
    by (simp add: tlv_crc_def)
  show ?thesis
    using assms(2) len unfolding frame_parse_def bs_def [symmetric]
    by (simp add: peek Let_def w frame_total_size_def FRAME_MIN_SIZE_def FRAME_HEADER_SIZE_def
        fields crc_field cut pos crc tlv_frame_def fields [unfolded One_nat_def])
qed

lemma frame_parse_sound:
  assumes "frame_parse (Some bs) (Some f0) 0 g = (FRAME_PARSE_OK, Some f, g')" "crc_ok g"
  shows "\<exists>m rest. tlv_sendable m \<and> bs = tlv_wire m @ rest \<and> f = tlv_frame m"
proof -
  define w where "w = read_le32 bs 7"
  define n where "n = unat w"
  have peek: "frame_peek_size (Some bs) (Some 0) = (FRAME_PARSE_OK, Some w)" and
    head: "11 \<le> length bs" "bs ! 0 = FRAME_HEAD" "n \<le> MAX_PAYLOAD_SIZE"
    using assms(1) by (auto simp: frame_parse_def frame_peek_size_def FRAME_HEADER_SIZE_def Let_def w_def n_def
        split: if_splits)
  have len: "16 + n \<le> length bs" and tail: "bs ! (15 + n) = FRAME_TAIL"
    using assms(1) by (auto simp: frame_parse_def peek Let_def frame_total_size_def FRAME_MIN_SIZE_def n_def
        split: if_splits)
  define m where "m = \<lparr>tm_id = read_le32 bs 1, tm_version = bs ! 5, tm_type = bs ! 6,
    tm_payload = take n (drop 11 bs)\<rparr>"
  have m: "length (tm_payload m) = n" "tlv_sendable m" using len head(3) by (auto simp: m_def tlv_sendable_def)
  have "bs ! 0 # take 4 (drop 1 bs) @ [bs ! 5, bs ! 6] @ take 4 (drop 7 bs) = take 11 bs"
  proof -
    have "take 11 bs = take 1 bs @ take 4 (drop 1 bs) @ take 2 (drop 5 bs) @ take 4 (drop 7 bs)"
      by (simp add: take_add [of 1 10, simplified] take_add [of 4 6, simplified] take_add [of 2 4, simplified])
    moreover have "take 1 bs = [bs ! 0]" using head(1) by (cases bs) auto
    moreover have "take 2 (drop 5 bs) = [bs ! 5, bs ! 6]"
      using head(1) by (auto simp: take_Suc_conv_app_nth numeral_2_eq_2)
    ultimately show ?thesis by simp
  qed
  moreover have "(of_nat n :: u32) = w" by (simp add: n_def)
  ultimately have hdr: "tlv_header m = take 11 bs"
    using len head(2) m(1) by (simp add: tlv_header_def m_def le32_bytes_read w_def)
  have body: "tlv_header m @ tm_payload m = take (11 + n) bs"
    by (simp add: hdr take_add) (simp add: m_def)
  have crc: "crc32_compute crc32_generate_table (take (11 + n) bs) = read_le32 bs (11 + n)"
    using assms len tail by (auto simp: frame_parse_def peek Let_def frame_total_size_def FRAME_MIN_SIZE_def
        FRAME_HEADER_SIZE_def n_def split: if_splits)
  then have wcrc: "le32_bytes (tlv_crc m) = take 4 (drop (11 + n) bs)"
    using len by (simp add: tlv_crc_def body le32_bytes_read)
  have "tlv_wire m = (take (11 + n) bs @ take 4 (drop (11 + n) bs)) @ [bs ! (15 + n)]"
    using tail by (simp only: tlv_wire_def body [symmetric] wcrc append_assoc)
  also have "\<dots> = take (15 + n) bs @ [bs ! (15 + n)]"
    using take_add [of "11 + n" 4 bs] by (simp add: add.commute add.left_commute)
  also have "\<dots> = take (16 + n) bs"
    using len take_Suc_conv_app_nth [of "15 + n" bs] by simp
  finally have "bs = tlv_wire m @ drop (16 + n) bs" by simp
  moreover from this frame_parse_wire [OF m(2) assms(2), of "drop (16 + n) bs" f0 0] assms(1)
  have "f = tlv_frame m" by auto
  ultimately show ?thesis using m(2) by blast
qed

section \<open>Ownership of the copied payload\<close>

text \<open>A copied frame shows the message; where its payload lives depends on the pool.\<close>

definition shows_message :: "frame \<Rightarrow> tlv_message \<Rightarrow> bool" where
  "shows_message f m \<longleftrightarrow>
     f\<lparr>fr_payload_pool := False, fr_payload_pool_offset := 0, fr_payload_owned := False\<rparr> = tlv_frame m"

lemma parse_copy_cases:
  assumes run: "frame_parse_copy data (Some f0) pool g e = (r, out, pool', g', e')"
  obtains (refused) "r \<noteq> FRAME_PARSE_OK" "pool' = pool" "e' = e"
      "frame_parse data (Some f0) 0 g = (r, out, g')"
  | (unsupplied) "r = FRAME_PARSE_INVALID_SIZE" "malloc e = (NULL, e')"
      "frame_parse data (Some f0) 0 g = (FRAME_PARSE_OK, out, g')"
      "pool' = (if pool = NULL then pool else snd (pool_alloc pool (fr_payload_size (the out))))"
      "pool \<noteq> NULL \<Longrightarrow> fst (pool_alloc pool (fr_payload_size (the out))) = NULL"
  | (plain) f where "r = FRAME_PARSE_OK" "frame_parse data (Some f0) 0 g = (r, Some f, g')"
      "fr_payload_size f = 0" "out = Some f" "pool' = pool" "e' = e"
  | (owned) f a where "r = FRAME_PARSE_OK" "frame_parse data (Some f0) 0 g = (r, Some f, g')"
      "0 < fr_payload_size f" "out = Some (f\<lparr>fr_payload_owned := True, fr_payload_pool := False\<rparr>)"
      "pool' = (if pool = NULL then pool else snd (pool_alloc pool (fr_payload_size f)))"
      "pool \<noteq> NULL \<Longrightarrow> fst (pool_alloc pool (fr_payload_size f)) = NULL" "malloc e = (Some a, e')"
  | (pooled) f off where "r = FRAME_PARSE_OK" "frame_parse data (Some f0) 0 g = (r, Some f, g')"
      "0 < fr_payload_size f" "pool \<noteq> NULL" "pool_alloc pool (fr_payload_size f) = (Some off, pool')"
      "out = Some (f\<lparr>fr_payload_owned := False, fr_payload_pool := True, fr_payload_pool_offset := pool_mark pool\<rparr>)"
      "e' = e"
proof -
  obtain q o1 g1 where p: "frame_parse data (Some f0) 0 g = (q, o1, g1)" by (metis prod_cases3)
  have some: "q = FRAME_PARSE_OK \<Longrightarrow> \<exists>f. o1 = Some f"
    using p by (auto simp: frame_parse_def Let_def split: if_splits prod.splits FrameParseResult.splits)
  show thesis
  proof (cases "q = FRAME_PARSE_OK")
    case False
    with run p have "r = q \<and> pool' = pool \<and> e' = e \<and> out = o1 \<and> g' = g1"
      by (cases q) (auto simp: frame_parse_copy_def)
    with False p show thesis by (intro refused) auto
  next
    case True
    with some obtain f where f: "o1 = Some f" by blast
    show thesis
    proof (cases "fr_payload_size f = 0")
      case True
      with run p f \<open>q = FRAME_PARSE_OK\<close> show thesis by (intro plain [of f]) (auto simp: frame_parse_copy_def)
    next
      case nonempty: False
      obtain c pool1 where pa: "(if pool \<noteq> NULL then pool_alloc pool (fr_payload_size f) else (NULL, pool)) = (c, pool1)"
        by fastforce
      obtain a e1 where ma: "malloc e = (a, e1)" by fastforce
      note r = run [unfolded frame_parse_copy_def p True f prod.case FrameParseResult.case option.sel Let_def pa ma]
      show thesis
      proof (cases c)
        case None
        with r nonempty pa ma p f True show thesis
          by (cases a) (auto intro: unsupplied owned [of f] split: if_splits)
      next
        case (Some off)
        then have "pool \<noteq> NULL" "pool_alloc pool (fr_payload_size f) = (Some off, pool1)"
          using pa by (auto split: if_splits)
        with Some r nonempty p f True show thesis by (intro pooled [of f off]) auto
      qed
    qed
  qed
qed

lemma pool_alloc_refused:
  assumes "pool_ok p" "pool_alloc (Some p) sz = (NULL, q)"
  shows "q = Some p"
  using pool_alloc_cases [OF assms(1), of sz MEMORY_POOL_DEFAULT_ALIGNMENT NULL q] assms(2)
  by (auto simp: pool_alloc_def MEMORY_POOL_DEFAULT_ALIGNMENT_def SIZE_MAX_def split: if_splits)

lemma pool_alloc_granted:
  assumes "pool_ok p" "pool_alloc (Some p) sz = (Some off, q)"
  shows "\<exists>p'. q = Some p' \<and> pool_ok p' \<and> mp_used p \<le> mp_used p' \<and> mp_size p' = mp_size p"
  using pool_alloc_cases [OF assms(1), of sz MEMORY_POOL_DEFAULT_ALIGNMENT "Some off" q] assms(2)
  by (auto simp: pool_alloc_def MEMORY_POOL_DEFAULT_ALIGNMENT_def SIZE_MAX_def split: if_splits)

lemma parse_OK_payload:
  assumes "frame_parse (Some bs) (Some f0) 0 g = (FRAME_PARSE_OK, Some f, g')"
  shows "(fr_payload f = NULL) = (fr_payload_size f = 0)" "\<not> fr_payload_pool f" "\<not> fr_payload_owned f"
  using assms
  by (auto simp: frame_parse_def Let_def word_less_nat_alt split: if_splits prod.splits FrameParseResult.splits)

section \<open>Properties\<close>

text \<open>C28: What a sender packs is what the parser reads: the header \<open>frame_pack_header\<close> writes,
  followed by the payload, the checksum of both and the tail byte, parses (with the checksum
  verified) to a frame with the sender's id, version, type, payload and checksum, whatever
  follows it in the buffer; and conversely the parser accepts nothing but such images, so an
  accepted frame determines the bytes it was read from.\<close>

theorem tlv_pack_parse:
  assumes "crc_ok g" and "length (tm_payload m) \<le> MAX_PAYLOAD_SIZE" and "length buf = 11"
    and "frame_pack_header (tlv_frame m) buf = (k, hdr)"
  shows "k = 11 \<and>
    (\<forall>bs f0. (\<exists>g'. frame_parse (Some bs) (Some f0) 0 g = (FRAME_PARSE_OK, Some (tlv_frame m), g')) \<longleftrightarrow>
      (\<exists>rest. bs = hdr @ tm_payload m @
        le32_bytes (crc32_compute crc32_generate_table (hdr @ tm_payload m)) @ [FRAME_TAIL] @ rest)) \<and>
    (\<forall>bs f0 f g'. frame_parse (Some bs) (Some f0) 0 g = (FRAME_PARSE_OK, Some f, g') \<longrightarrow>
      (\<exists>m'. f = tlv_frame m' \<and> length (tm_payload m') \<le> MAX_PAYLOAD_SIZE))"
proof -
  obtain b0 b1 b2 b3 b4 b5 b6 b7 b8 b9 b10 where buf: "buf = [b0, b1, b2, b3, b4, b5, b6, b7, b8, b9, b10]"
    using assms(3) by (auto simp: length_Suc_conv eval_nat_numeral)
  have hdr: "k = 11" "hdr = tlv_header m"
    using assms(4) by (auto simp: buf frame_pack_header_def put_bytes_def le32_bytes_def tlv_header_def
        tlv_frame_def Let_def eval_nat_numeral)
  have send: "tlv_sendable m" using assms(2) by (simp add: tlv_sendable_def)
  have payload: "tlv_frame m' = tlv_frame m \<Longrightarrow> m' = m" for m'
    by (cases m; cases m') (auto simp: tlv_frame_def split: if_splits)
  have iff: "(\<exists>g'. frame_parse (Some bs) (Some f0) 0 g = (FRAME_PARSE_OK, Some (tlv_frame m), g')) \<longleftrightarrow>
      (\<exists>rest. bs = tlv_wire m @ rest)" for bs f0
  proof
    assume "\<exists>g'. frame_parse (Some bs) (Some f0) 0 g = (FRAME_PARSE_OK, Some (tlv_frame m), g')"
    with frame_parse_sound [OF _ assms(1), of bs f0 "tlv_frame m"] payload show "\<exists>rest. bs = tlv_wire m @ rest"
      by metis
  next
    assume "\<exists>rest. bs = tlv_wire m @ rest"
    with frame_parse_wire [OF send assms(1), of _ f0 0]
    show "\<exists>g'. frame_parse (Some bs) (Some f0) 0 g = (FRAME_PARSE_OK, Some (tlv_frame m), g')" by metis
  qed
  have only: "\<exists>m'. f = tlv_frame m' \<and> length (tm_payload m') \<le> MAX_PAYLOAD_SIZE"
    if "frame_parse (Some bs) (Some f0) 0 g = (FRAME_PARSE_OK, Some f, g')" for bs f0 f g'
    using frame_parse_sound [OF that assms(1)] by (auto simp: tlv_sendable_def)
  show ?thesis
    unfolding hdr using iff only by (simp add: tlv_wire_def tlv_crc_def)
qed

definition sample_message :: tlv_message where
  "sample_message = \<lparr>tm_id = 0x01020304, tm_version = 1, tm_type = 2, tm_payload = [10, 20, 30]\<rparr>"

definition fresh_crc :: crc_global where
  "fresh_crc = \<lparr>g_crc_table = replicate 256 0, g_crc_table_init = False\<rparr>"

definition blank_frame :: frame where
  "blank_frame = \<lparr>fr_head = 0, fr_msg_id = 0, fr_version = 0, fr_payload_type = 0, fr_payload_size = 0,
     fr_payload = NULL, fr_crc32 = 0, fr_tail = 0, fr_payload_pool = False, fr_payload_pool_offset = 0,
     fr_payload_owned = False\<rparr>"

theorem tlv_pack_parse_witness:
  "\<exists>k hdr g'. frame_pack_header (tlv_frame sample_message) (replicate 11 0) = (k, hdr) \<and> k = 11 \<and>
     frame_parse (Some (hdr @ [10, 20, 30] @
         le32_bytes (crc32_compute crc32_generate_table (hdr @ [10, 20, 30])) @ [FRAME_TAIL] @ [9, 9]))
       (Some blank_frame) 0 fresh_crc = (FRAME_PARSE_OK, Some (tlv_frame sample_message), g')"
proof -
  obtain k hdr where k: "frame_pack_header (tlv_frame sample_message) (replicate 11 0) = (k, hdr)"
    by fastforce
  have p: "tm_payload sample_message = [10, 20, 30]" by (simp add: sample_message_def)
  have "crc_ok fresh_crc" by (simp add: crc_ok_def fresh_crc_def)
  from tlv_pack_parse [OF this _ _ k] k show ?thesis
    unfolding p by (fastforce simp: MAX_PAYLOAD_SIZE_def)
qed

text \<open>C18: A frame damaged in transit is refused. If a received image differs from an accepted one
  only inside a window of at most four bytes of its header or payload, and the window leaves
  the size field alone, the parser does not accept it.\<close>

theorem tlv_corruption_refused:
  assumes "crc_ok g" and "frame_parse (Some (pre @ v @ post)) (Some f0) 0 g = (FRAME_PARSE_OK, Some f, g1)"
    and "length pre + length v \<le> FRAME_HEADER_SIZE + fr_payload_size f"
    and "length w = length v" and "length v \<le> 4" and "w \<noteq> v"
    and "read_le32 (pre @ w @ post) 7 = read_le32 (pre @ v @ post) 7"
  shows "fst (frame_parse (Some (pre @ w @ post)) (Some f0) 0 g) \<noteq> FRAME_PARSE_OK"
proof
  assume ok: "fst (frame_parse (Some (pre @ w @ post)) (Some f0) 0 g) = FRAME_PARSE_OK"
  obtain f' g2 where run: "frame_parse (Some (pre @ w @ post)) (Some f0) 0 g = (FRAME_PARSE_OK, Some f', g2)"
    using ok by (auto simp: frame_parse_def Let_def split: if_splits prod.splits FrameParseResult.splits)
  from frame_parse_sound [OF assms(2,1)] obtain m r where m: "tlv_sendable m" "pre @ v @ post = tlv_wire m @ r" "f = tlv_frame m"
    by blast
  from frame_parse_sound [OF run assms(1)] obtain m' r' where m': "tlv_sendable m'" "pre @ w @ post = tlv_wire m' @ r'"
    by blast
  let ?n = "length (tm_payload m)"
  have "(of_nat (length (tm_payload m')) :: u32) = of_nat ?n"
    using assms(7) unfolding m(2) m'(2) by (simp add: tlv_wire_def)
  then have n: "length (tm_payload m') = ?n"
    using frame_payload_word [OF m(1)] frame_payload_word [OF m'(1)] by simp
  let ?k = "11 + ?n - (length pre + length v)"
  have le: "length pre + length v \<le> 11 + ?n"
    using assms(3) m(3) by (simp add: tlv_frame_def FRAME_HEADER_SIZE_def)
  have body: "pre @ v @ take ?k post = tlv_header m @ tm_payload m"
    using arg_cong [OF m(2), of "take (11 + ?n)"] le by (simp add: tlv_wire_def)
  have body': "pre @ w @ take ?k post = tlv_header m' @ tm_payload m'"
    using arg_cong [OF m'(2), of "take (11 + ?n)"] le n assms(4) by (simp add: tlv_wire_def)
  have "drop (11 + ?n) (pre @ v @ post) = drop (11 + ?n) (pre @ w @ post)"
    using le assms(4) by simp
  then have "le32_bytes (tlv_crc m) = le32_bytes (tlv_crc m')"
    using arg_cong [OF m(2), of "\<lambda>x. take 4 (drop (11 + ?n) x)"] arg_cong [OF m'(2), of "\<lambda>x. take 4 (drop (11 + ?n) x)"] n
    by (simp add: tlv_wire_def)
  then have "tlv_crc m = tlv_crc m'" by (metis append_Nil length_0_conv read_le32_at)
  moreover have "tlv_crc m' \<noteq> tlv_crc m"
    using crc32_detects_bursts [OF assms(4,5,6), of pre "take ?k post"] by (simp add: tlv_crc_def body body')
  ultimately show False by simp
qed

text \<open>C20: Copied payloads are neither leaked nor freed twice. Whatever the allocator answers and
  whether or not the pool has room, a refused \<open>frame_parse_copy\<close> leaves no block and no pool
  byte behind, and after an accepted one the frame shows the message of the input and
  \<open>frame_free\<close> returns exactly what the copy took: the pool is back at its mark and the number of
  live blocks is what it was. Freeing the same frame again changes nothing.\<close>

theorem tlv_copy_free_balanced:
  assumes "crc_ok g" and "pool_ok p"
    and "frame_parse_copy (Some bs) (Some f0) (Some p) g e = (r, out, pool, g1, e1)"
  shows "if r \<noteq> FRAME_PARSE_OK then pool = Some p \<and> live_blocks e1 = live_blocks e
    else \<exists>f m rest out' p2 e2. out = Some f \<and> bs = tlv_wire m @ rest \<and> shows_message f m \<and>
      frame_free out pool e1 = (out', Some p2, e2) \<and>
      mp_used p2 = mp_used p \<and> pool_ok p2 \<and> live_blocks e2 = live_blocks e \<and>
      frame_free out' (Some p2) e2 = (out', Some p2, e2)"
proof -
  have accepted: ?thesis
    if r: "r = FRAME_PARSE_OK" "frame_parse (Some bs) (Some f0) 0 g = (r, Some f, g1)"
      and out: "out = Some (f\<lparr>fr_payload_owned := ow, fr_payload_pool := po, fr_payload_pool_offset := k\<rparr>)"
      and free: "\<exists>out' p2 e2. frame_free out pool e1 = (out', Some p2, e2) \<and> mp_used p2 = mp_used p \<and>
        pool_ok p2 \<and> live_blocks e2 = live_blocks e \<and> frame_free out' (Some p2) e2 = (out', Some p2, e2)"
    for f ow po k
  proof -
    from frame_parse_sound [OF _ assms(1)] r obtain m rest where "bs = tlv_wire m @ rest" "f = tlv_frame m" by blast
    then have "\<exists>f' m rest. out = Some f' \<and> bs = tlv_wire m @ rest \<and> shows_message f' m"
      using out by (auto simp: shows_message_def tlv_frame_def)
    with free r(1) show ?thesis by simp
  qed
  show ?thesis
    using assms(3)
  proof (cases rule: parse_copy_cases)
    case refused
    then show ?thesis by simp
  next
    case unsupplied
    obtain c q where "pool_alloc (Some p) (fr_payload_size (the out)) = (c, q)" by fastforce
    with unsupplied assms(2) show ?thesis
      by (auto dest: pool_alloc_refused live_malloc_None)
  next
    case (plain f)
    with parse_OK_payload [of bs f0 g f g1] assms(2) show ?thesis
      by (intro accepted [where f = f and ow = "fr_payload_owned f" and po = "fr_payload_pool f" and k = "fr_payload_pool_offset f"])
        (auto simp: frame_free_def)
  next
    case (owned f a)
    obtain c q where "pool_alloc (Some p) (fr_payload_size f) = (c, q)" by fastforce
    with owned have "pool = Some p" using assms(2) by (auto dest: pool_alloc_refused)
    with owned parse_OK_payload [of bs f0 g f g1] assms(2) show ?thesis
      by (intro accepted [where f = f and ow = True and po = False and k = "fr_payload_pool_offset f"])
        (auto simp: frame_free_def dest: live_malloc_Some)
  next
    case (pooled f off)
    from pool_alloc_granted [OF assms(2), of "fr_payload_size f" off pool] pooled(5) obtain p' where
      p': "pool = Some p'" "pool_ok p'" "mp_used p \<le> mp_used p'" by auto
    then have "pool_rewind pool (mp_used p) = Some (p'\<lparr>mp_used := mp_used p\<rparr>)" "pool_ok (p'\<lparr>mp_used := mp_used p\<rparr>)"
      by (auto simp: pool_rewind_def pool_ok_def)
    with pooled parse_OK_payload [of bs f0 g f g1] show ?thesis
      by (intro accepted [where f = f and ow = False and po = True and k = "pool_mark (Some p)"])
        (auto simp: frame_free_def pool_mark_def)
  qed
qed

theorem tlv_corruption_refused_witness:
  "fst (frame_parse (Some (tlv_header sample_message @ [10, 0, 0] @ le32_bytes (tlv_crc sample_message) @ [FRAME_TAIL]))
     (Some blank_frame) 0 fresh_crc) \<noteq> FRAME_PARSE_OK"
proof -
  let ?post = "le32_bytes (tlv_crc sample_message) @ [FRAME_TAIL]"
  have crc: "crc_ok fresh_crc" by (simp add: crc_ok_def fresh_crc_def)
  have p: "tm_payload sample_message = [10, 20, 30]" by (simp add: sample_message_def)
  have "tlv_sendable sample_message" by (simp add: tlv_sendable_def p MAX_PAYLOAD_SIZE_def)
  from frame_parse_wire [OF this crc, of "[]" blank_frame 0] obtain g' where
    "frame_parse (Some ((tlv_header sample_message @ [10]) @ [20, 30] @ ?post)) (Some blank_frame) 0 fresh_crc =
      (FRAME_PARSE_OK, Some (tlv_frame sample_message), g')"
    by (auto simp: tlv_wire_def p)
  from tlv_corruption_refused [OF crc this, of "[0, 0]"] show ?thesis
    by (simp add: FRAME_HEADER_SIZE_def tlv_frame_def p)
qed

theorem tlv_copy_free_balanced_witness:
  "\<exists>f pool g1 out' p2 e2. frame_parse_copy (Some (tlv_wire sample_message)) (Some blank_frame) (Some small_pool)
       fresh_crc \<lparr>malloc_oracle = (\<lambda>_. Some 4096), malloc_calls = 0, live_blocks = 0\<rparr> =
       (FRAME_PARSE_OK, Some f, pool, g1, \<lparr>malloc_oracle = (\<lambda>_. Some 4096), malloc_calls = 0, live_blocks = 0\<rparr>) \<and>
     mp_used (the pool) = 19 \<and>
     frame_free (Some f) pool \<lparr>malloc_oracle = (\<lambda>_. Some 4096), malloc_calls = 0, live_blocks = 0\<rparr> =
       (out', Some p2, e2) \<and> mp_used p2 = mp_used small_pool"
proof -
  let ?e = "\<lparr>malloc_oracle = (\<lambda>_. Some 4096), malloc_calls = 0, live_blocks = 0\<rparr>"
  have crc: "crc_ok fresh_crc" by (simp add: crc_ok_def fresh_crc_def)
  have p: "tm_payload sample_message = [10, 20, 30]" by (simp add: sample_message_def)
  have "tlv_sendable sample_message" by (simp add: tlv_sendable_def p MAX_PAYLOAD_SIZE_def)
  from frame_parse_wire [OF this crc, of "[]" blank_frame 0] obtain g1 where
    parse: "frame_parse (Some (tlv_wire sample_message)) (Some blank_frame) 0 fresh_crc =
      (FRAME_PARSE_OK, Some (tlv_frame sample_message), g1)" by auto
  have "sequence_alignment_valid 16" by (simp add: sequence_alignment_valid_def)
  then have alloc: "pool_alloc (Some small_pool) 3 =
      (Some 16, Some (small_pool\<lparr>mp_used := 19, mp_peak_used := 19, mp_alloc_count := 3\<rparr>))"
    using size_and_not_align [of 16 20]
    by (simp add: pool_alloc_def pool_alloc_aligned_def small_pool_def SIZE_MAX_def Let_def size_add_def
        sequence_alignment_valid_def MEMORY_POOL_DEFAULT_ALIGNMENT_def)
  have sz: "fr_payload_size (tlv_frame sample_message) = 3" by (simp add: tlv_frame_def p)
  obtain f pool where run: "frame_parse_copy (Some (tlv_wire sample_message)) (Some blank_frame) (Some small_pool)
      fresh_crc ?e = (FRAME_PARSE_OK, Some f, pool, g1, ?e)" and used: "mp_used (the pool) = 19"
    by (simp add: frame_parse_copy_def parse sz alloc)
  from tlv_copy_free_balanced [OF crc small_pool_ok run] run used show ?thesis by auto
qed

end
