(* ===== verification/Tlv_Stream.thy ===== *)
theory Tlv_Stream
  imports Tlv_Frame Wire_Framing
begin

text \<open>
  The TLV stream parser (\<^verbatim>\<open>src/parser/tlv_parser/src/stream_parser.c\<close>). The pool of the
  calling thread's parser context (\<open>parser_get_context()->pool\<close>) is an argument, NULL when
  there is no context.
\<close>

section \<open>The code\<close>

datatype StreamState = STREAM_NEED_MORE_DATA | STREAM_FRAME_COMPLETE | STREAM_ERROR

record StreamParser =
  sp_buffer :: "u8 list"
  sp_buffer_size :: size_t
  sp_buffered :: size_t
  sp_expected :: size_t
  sp_last_error :: ParseErrorInfo

definition zero_error :: ParseErrorInfo where
  "zero_error = \<lparr>pe_code = PARSE_OK, pe_offset = 0, pe_message = '''', pe_msg_id = 0\<rparr>"

definition stream_parser_create :: "(nat \<Rightarrow> u8) \<Rightarrow> size_t \<Rightarrow> env \<Rightarrow> StreamParser ptr \<times> env" where
  "stream_parser_create uninit requested e =
     (let buffer_size = (if requested < FRAME_MIN_SIZE then 65536 else requested) in
      case malloc e of
        (None, e1) \<Rightarrow> (NULL, e1)
      | (Some _, e1) \<Rightarrow>
          (case malloc e1 of
             (None, e2) \<Rightarrow> (NULL, free_block e2)
           | (Some _, e2) \<Rightarrow>
               (Some \<lparr>sp_buffer = map uninit [0..<buffer_size], sp_buffer_size = buffer_size,
                      sp_buffered = 0, sp_expected = 0, sp_last_error = zero_error\<rparr>, e2)))"

definition stream_error :: "StreamParser \<Rightarrow> ParseError \<Rightarrow> size_t \<Rightarrow> string \<Rightarrow> StreamParser" where
  "stream_error sp code offset message =
     sp\<lparr>sp_last_error := parse_error_set (sp_last_error sp) code offset 0 (Some message)\<rparr>"

text \<open>The last part of \<open>stream_parser_feed\<close>: the frame size is known.\<close>

definition stream_parser_finish ::
  "StreamParser \<Rightarrow> frame ptr \<Rightarrow> memory_pool ptr \<Rightarrow> crc_global \<Rightarrow> env \<Rightarrow>
   StreamState \<times> StreamParser \<times> frame ptr \<times> memory_pool ptr \<times> crc_global \<times> env" where
  "stream_parser_finish sp out pool g e =
     (if sp_buffered sp < sp_expected sp then (STREAM_NEED_MORE_DATA, sp, out, pool, g, e)
      else
        case frame_parse_copy (Some (take (sp_expected sp) (sp_buffer sp))) out pool g e of
          (FRAME_PARSE_OK, out1, pool1, g1, e1) \<Rightarrow>
            let remaining = sp_buffered sp - sp_expected sp in
            (STREAM_FRAME_COMPLETE,
             sp\<lparr>sp_buffer := (if 0 < remaining
                              then shift_down (sp_buffer sp) (sp_expected sp) remaining
                              else sp_buffer sp),
                sp_buffered := remaining, sp_expected := 0\<rparr>, out1, pool1, g1, e1)
        | (result, out1, pool1, g1, e1) \<Rightarrow>
            (STREAM_ERROR, stream_error sp (frame_parse_result_to_error result) 0 ''Frame parse failed'',
             out1, pool1, g1, e1))"

text \<open>The middle part: the bytes have been appended, the frame size may still be unknown.\<close>

definition stream_parser_scan ::
  "StreamParser \<Rightarrow> frame ptr \<Rightarrow> memory_pool ptr \<Rightarrow> crc_global \<Rightarrow> env \<Rightarrow>
   StreamState \<times> StreamParser \<times> frame ptr \<times> memory_pool ptr \<times> crc_global \<times> env" where
  "stream_parser_scan sp out pool g e =
     (if sp_expected sp = 0 then
        case frame_peek_size (Some (take (sp_buffered sp) (sp_buffer sp))) (Some 0) of
          (FRAME_PARSE_NEED_MORE, _) \<Rightarrow> (STREAM_NEED_MORE_DATA, sp, out, pool, g, e)
        | (FRAME_PARSE_OK, size_cell) \<Rightarrow>
            let sp1 = sp\<lparr>sp_expected := frame_total_size (the size_cell)\<rparr> in
            if sp_buffer_size sp1 < sp_expected sp1
            then (STREAM_ERROR, stream_error sp1 PARSE_ERR_BUFFER_OVERFLOW 0 ''Frame too large for buffer'',
                  out, pool, g, e)
            else stream_parser_finish sp1 out pool g e
        | (peek, _) \<Rightarrow>
            (STREAM_ERROR, stream_error sp (frame_parse_result_to_error peek) 0 ''Invalid frame header'',
             out, pool, g, e)
      else stream_parser_finish sp out pool g e)"

definition stream_parser_feed ::
  "StreamParser ptr \<Rightarrow> u8 list ptr \<Rightarrow> frame ptr \<Rightarrow> memory_pool ptr \<Rightarrow> crc_global \<Rightarrow> env \<Rightarrow>
   StreamState \<times> StreamParser ptr \<times> frame ptr \<times> memory_pool ptr \<times> crc_global \<times> env" where
  "stream_parser_feed stream data out pool g e =
     (if stream = NULL \<or> data = NULL \<or> out = NULL then (STREAM_ERROR, stream, out, pool, g, e)
      else
        let sp = the stream; bs = the data in
        if sp_buffer_size sp < size_add (sp_buffered sp) (length bs)
        then (STREAM_ERROR,
              Some (stream_error sp PARSE_ERR_BUFFER_OVERFLOW (sp_buffered sp) ''Stream buffer overflow''),
              out, pool, g, e)
        else
          let sp1 = sp\<lparr>sp_buffer := put_bytes (sp_buffer sp) (sp_buffered sp) bs,
                       sp_buffered := size_add (sp_buffered sp) (length bs)\<rparr>;
              (st, sp2, out1, pool1, g1, e1) = stream_parser_scan sp1 out pool g e
          in (st, Some sp2, out1, pool1, g1, e1))"

definition stream_parser_get_error :: "StreamParser ptr \<Rightarrow> ParseErrorInfo ptr" where
  "stream_parser_get_error stream = map_option sp_last_error stream"

definition stream_parser_reset :: "StreamParser ptr \<Rightarrow> StreamParser ptr" where
  "stream_parser_reset stream =
     map_option (\<lambda>sp. sp\<lparr>sp_buffered := 0, sp_expected := 0, sp_last_error := zero_error\<rparr>) stream"

definition stream_parser_destroy :: "StreamParser ptr \<Rightarrow> env \<Rightarrow> env" where
  "stream_parser_destroy stream e = (if stream \<noteq> NULL then free_block (free_block e) else e)"

section \<open>Invariant\<close>

definition tlv_pending :: "StreamParser \<Rightarrow> u8 list" where
  "tlv_pending sp = take (sp_buffered sp) (sp_buffer sp)"

text \<open>A known frame size is that of the frame at the front of the buffer.\<close>

definition tlv_stream_inv :: "StreamParser \<Rightarrow> bool" where
  "tlv_stream_inv sp \<longleftrightarrow>
     length (sp_buffer sp) = sp_buffer_size sp \<and> sp_buffered sp \<le> sp_buffer_size sp \<and>
     sp_buffer_size sp \<le> SIZE_MAX \<and>
     (sp_expected sp \<noteq> 0 \<longrightarrow> sp_expected sp \<le> sp_buffer_size sp \<and>
        (\<exists>w. frame_peek_size (Some (tlv_pending sp)) (Some 0) = (FRAME_PARSE_OK, Some w) \<and>
             sp_expected sp = frame_total_size w))"

lemma length_tlv_pending [simp]: "tlv_stream_inv sp \<Longrightarrow> length (tlv_pending sp) = sp_buffered sp"
  by (simp add: tlv_pending_def tlv_stream_inv_def)

lemma peek_mono:
  assumes "frame_peek_size (Some p) (Some x) = (FRAME_PARSE_OK, c)"
  shows "frame_peek_size (Some (p @ q)) (Some x) = (FRAME_PARSE_OK, c)"
  using assms
  by (auto simp: frame_peek_size_def FRAME_HEADER_SIZE_def Let_def nth_append read_le32_def split: if_splits)

lemma total_size_pos [simp]: "frame_total_size w \<noteq> 0"
  by (simp add: frame_total_size_def FRAME_MIN_SIZE_def)

definition appended :: "StreamParser \<Rightarrow> u8 list \<Rightarrow> StreamParser" where
  "appended sp d = sp\<lparr>sp_buffer := put_bytes (sp_buffer sp) (sp_buffered sp) d,
                      sp_buffered := sp_buffered sp + length d\<rparr>"

lemma appended:
  assumes "tlv_stream_inv sp" "sp_buffered sp + length d \<le> sp_buffer_size sp"
  shows "tlv_stream_inv (appended sp d)" "tlv_pending (appended sp d) = tlv_pending sp @ d"
    "sp_buffer_size (appended sp d) = sp_buffer_size sp"
proof -
  show p: "tlv_pending (appended sp d) = tlv_pending sp @ d"
    using assms by (simp add: tlv_pending_def appended_def tlv_stream_inv_def)
  show "tlv_stream_inv (appended sp d)"
    using assms peek_mono [of "tlv_pending sp" 0 _ d]
    unfolding tlv_stream_inv_def p by (auto simp: appended_def)
qed (simp add: appended_def)

lemma feed_appended:
  assumes "tlv_stream_inv sp" "sp_buffered sp + length d \<le> sp_buffer_size sp"
  shows "stream_parser_feed (Some sp) (Some d) (Some f) pool g e =
    (case stream_parser_scan (appended sp d) (Some f) pool g e of
       (st, sp', r) \<Rightarrow> (st, Some sp', r))"
  using assms by (auto simp: stream_parser_feed_def Let_def appended_def tlv_stream_inv_def split: prod.splits)

lemma feed_overflow:
  assumes "tlv_stream_inv sp" "sp_buffer_size sp < sp_buffered sp + length d"
    "sp_buffered sp + length d \<le> SIZE_MAX"
  shows "\<exists>sp'. stream_parser_feed (Some sp) (Some d) (Some f) pool g e = (STREAM_ERROR, Some sp', Some f, pool, g, e) \<and>
    tlv_stream_inv sp' \<and> tlv_pending sp' = tlv_pending sp \<and> pe_code (sp_last_error sp') = PARSE_ERR_BUFFER_OVERFLOW"
  using assms
  by (simp add: stream_parser_feed_def Let_def stream_error_def parse_error_set_def tlv_stream_inv_def tlv_pending_def)

section \<open>One feed\<close>

definition supplied_forever :: "env \<Rightarrow> bool" where
  "supplied_forever e \<longleftrightarrow> (\<forall>n. malloc_oracle e n \<noteq> NULL)"

lemma supplied_malloc: "supplied_forever e \<Longrightarrow> \<exists>a e'. malloc e = (Some a, e') \<and> supplied_forever e'"
  by (auto simp: supplied_forever_def malloc_def split: option.splits)

lemma copy_wire:
  assumes "tlv_sendable m" "crc_ok g" "supplied_forever e"
  shows "\<exists>f pool' g' e'. frame_parse_copy (Some (tlv_wire m)) (Some f0) pool g e =
    (FRAME_PARSE_OK, Some f, pool', g', e') \<and> shows_message f m \<and> crc_ok g' \<and> supplied_forever e'"
proof -
  from frame_parse_wire [OF assms(1,2), of "[]" f0 0] obtain g1 where
    p: "frame_parse (Some (tlv_wire m)) (Some f0) 0 g = (FRAME_PARSE_OK, Some (tlv_frame m), g1)" "crc_ok g1"
    by auto
  from supplied_malloc [OF assms(3)] obtain a e1 where "malloc e = (Some a, e1)" "supplied_forever e1" by blast
  with p assms(3) show ?thesis
    by (auto simp: frame_parse_copy_def Let_def shows_message_def tlv_frame_def split: prod.splits)
qed

lemma scan_complete:
  assumes inv: "tlv_stream_inv sp" and pend: "tlv_pending sp = tlv_wire m @ r" and m: "tlv_sendable m"
    and res: "crc_ok g" "supplied_forever e"
  shows "\<exists>sp' f pool' g' e'. stream_parser_scan sp (Some f0) pool g e = (STREAM_FRAME_COMPLETE, sp', Some f, pool', g', e') \<and>
    shows_message f m \<and> tlv_stream_inv sp' \<and> tlv_pending sp' = r \<and> sp_buffer_size sp' = sp_buffer_size sp \<and>
    crc_ok g' \<and> supplied_forever e'"
proof -
  let ?n = "length (tlv_wire m)"
  define sp1 where "sp1 = sp\<lparr>sp_expected := ?n\<rparr>"
  have peek: "frame_peek_size (Some (tlv_pending sp)) (Some 0) = (FRAME_PARSE_OK, Some (of_nat (length (tm_payload m))))"
    using peek_header [OF m, of "tm_payload m @ le32_bytes (tlv_crc m) @ FRAME_TAIL # r" 0] pend
    by (simp add: tlv_wire_def)
  note tot = total_size_payload [OF m]
  have len: "?n + length r = sp_buffered sp" "?n \<le> sp_buffer_size sp"
    using arg_cong [OF pend, of length] inv by (auto simp: tlv_stream_inv_def tlv_pending_def)
  have "sp_expected sp \<noteq> 0 \<Longrightarrow> sp = sp1"
    using inv peek tot by (auto simp: tlv_stream_inv_def sp1_def)
  then have scan: "stream_parser_scan sp (Some f0) pool g e = stream_parser_finish sp1 (Some f0) pool g e"
    using peek len(2) tot by (auto simp: stream_parser_scan_def sp1_def simp flip: tlv_pending_def)
  have front: "take ?n (sp_buffer sp) = tlv_wire m"
    using arg_cong [OF pend, of "take ?n"] len(1) by (simp add: tlv_pending_def min_def)
  from copy_wire [OF m res, of f0 pool] obtain f pool' g' e' where
    c: "frame_parse_copy (Some (tlv_wire m)) (Some f0) pool g e = (FRAME_PARSE_OK, Some f, pool', g', e')"
      "shows_message f m" "crc_ok g'" "supplied_forever e'" by blast
  define sp2 where "sp2 = sp1\<lparr>sp_buffer := (if 0 < length r then shift_down (sp_buffer sp) ?n (length r) else sp_buffer sp),
      sp_buffered := length r, sp_expected := 0\<rparr>"
  have rem: "sp_buffered sp - ?n = length r" using len by simp
  then have fin: "stream_parser_finish sp1 (Some f0) pool g e = (STREAM_FRAME_COMPLETE, sp2, Some f, pool', g', e')"
    using len c(1) by (simp add: stream_parser_finish_def sp1_def sp2_def front Let_def)
  have blen: "?n + length r \<le> length (sp_buffer sp)" using inv len by (simp add: tlv_stream_inv_def)
  then have "tlv_stream_inv sp2" using inv len by (auto simp: sp2_def sp1_def tlv_stream_inv_def)
  moreover have "take (length r) (drop ?n (sp_buffer sp)) = r"
    using arg_cong [OF pend, of "drop ?n"] by (simp add: tlv_pending_def drop_take rem)
  then have "tlv_pending sp2 = r" using blen by (simp add: sp2_def tlv_pending_def)
  ultimately show ?thesis using scan fin c by (simp add: sp2_def sp1_def)
qed

lemma header_prefix:
  assumes "tlv_wire m = p @ q" "11 \<le> length p"
  shows "\<exists>rest. p = tlv_header m @ rest"
proof -
  have "take 11 p = tlv_header m" using arg_cong [OF assms(1), of "take 11"] assms(2) by (simp add: tlv_wire_def)
  then show ?thesis by (metis append_take_drop_id)
qed

lemma scan_partial:
  assumes inv: "tlv_stream_inv sp" and wire: "tlv_wire m = tlv_pending sp @ q" "q \<noteq> []"
    and m: "tlv_sendable m" "length (tlv_wire m) \<le> sp_buffer_size sp"
  shows "\<exists>sp'. stream_parser_scan sp (Some f0) pool g e = (STREAM_NEED_MORE_DATA, sp', Some f0, pool, g, e) \<and>
    tlv_stream_inv sp' \<and> tlv_pending sp' = tlv_pending sp \<and> sp_buffer_size sp' = sp_buffer_size sp"
proof -
  let ?n = "length (tlv_wire m)"
  have len: "sp_buffered sp < ?n" using arg_cong [OF wire(1), of length] wire(2) inv by auto
  show ?thesis
  proof (cases "length (tlv_pending sp) < 11")
    case True
    then have "frame_peek_size (Some (tlv_pending sp)) (Some 0) = (FRAME_PARSE_NEED_MORE, Some 0)"
      by (simp add: frame_peek_size_def FRAME_HEADER_SIZE_def)
    moreover from this inv have "sp_expected sp = 0" by (auto simp: tlv_stream_inv_def)
    ultimately show ?thesis using inv by (simp add: stream_parser_scan_def flip: tlv_pending_def)
  next
    case False
    define sp1 where "sp1 = sp\<lparr>sp_expected := ?n\<rparr>"
    from header_prefix [OF wire(1)] False obtain rest where rest: "tlv_pending sp = tlv_header m @ rest" by auto
    have peek: "frame_peek_size (Some (tlv_pending sp)) (Some 0) = (FRAME_PARSE_OK, Some (of_nat (length (tm_payload m))))"
      unfolding rest by (rule peek_header [OF m(1)])
    note tot = total_size_payload [OF m(1)]
    have "sp_expected sp \<noteq> 0 \<Longrightarrow> sp = sp1" using inv peek tot by (auto simp: tlv_stream_inv_def sp1_def)
    then have "stream_parser_scan sp (Some f0) pool g e = stream_parser_finish sp1 (Some f0) pool g e"
      using peek m(2) tot by (auto simp: stream_parser_scan_def sp1_def simp flip: tlv_pending_def)
    also have "\<dots> = (STREAM_NEED_MORE_DATA, sp1, Some f0, pool, g, e)"
      using len by (simp add: stream_parser_finish_def sp1_def)
    finally show ?thesis using inv peek tot m(2) by (auto simp: sp1_def tlv_stream_inv_def tlv_pending_def)
  qed
qed

section \<open>Reassembly\<close>

type_synonym tlv_state = "StreamParser \<times> memory_pool ptr \<times> crc_global \<times> env"

definition message_of :: "frame \<Rightarrow> tlv_message" where
  "message_of f = \<lparr>tm_id = fr_msg_id f, tm_version = fr_version f, tm_type = fr_payload_type f,
     tm_payload = (case fr_payload f of None \<Rightarrow> [] | Some bs \<Rightarrow> bs)\<rparr>"

definition tlv_feed :: "tlv_state \<Rightarrow> u8 list \<Rightarrow> tlv_message outcome \<times> tlv_state" where
  "tlv_feed s d =
     (case s of (sp, pool, g, e) \<Rightarrow>
       (case stream_parser_feed (Some sp) (Some d) (Some blank_frame) pool g e of
          (STREAM_FRAME_COMPLETE, sp', f, pool', g', e') \<Rightarrow> (Emit (message_of (the f)), the sp', pool', g', e')
        | (STREAM_NEED_MORE_DATA, sp', f, pool', g', e') \<Rightarrow> (More, the sp', pool', g', e')
        | (STREAM_ERROR, sp', f, pool', g', e') \<Rightarrow> (Fail, the sp', pool', g', e')))"

definition tlv_ready :: "tlv_state \<Rightarrow> bool" where
  "tlv_ready s \<longleftrightarrow> (case s of (sp, pool, g, e) \<Rightarrow> tlv_stream_inv sp \<and> crc_ok g \<and> supplied_forever e)"

definition tlv_scan :: "u8 list \<Rightarrow> tlv_message scan" where
  "tlv_scan p =
     (case frame_parse (Some p) (Some blank_frame) 0 fresh_crc of
        (FRAME_PARSE_OK, f, _) \<Rightarrow> Complete (message_of (the f)) (16 + fr_payload_size (the f))
      | (FRAME_PARSE_NEED_MORE, _, _) \<Rightarrow> Incomplete
      | _ \<Rightarrow> Broken)"

lemma message_of_shown: "shows_message f m \<Longrightarrow> message_of f = m"
  by (cases m; cases f) (auto simp: shows_message_def tlv_frame_def message_of_def)

lemma message_of_frame [simp]: "message_of (tlv_frame m) = m"
  by (cases m) (auto simp: tlv_frame_def message_of_def)

lemma fresh_crc_ok [simp]: "crc_ok fresh_crc"
  by (simp add: crc_ok_def fresh_crc_def)

lemma scan_prefix_incomplete:
  assumes "tlv_sendable m" "tlv_wire m = p @ q" "q \<noteq> []"
  shows "tlv_scan p = Incomplete"
proof (cases "length p < 11")
  case True
  then show ?thesis by (simp add: tlv_scan_def frame_parse_def frame_peek_size_def FRAME_HEADER_SIZE_def blank_frame_def)
next
  case False
  with header_prefix [OF assms(2)] obtain rest where rest: "p = tlv_header m @ rest" by auto
  have "length p < length (tlv_wire m)" using assms(2,3) by simp
  then show ?thesis
    using peek_header [OF assms(1), of rest 0] total_size_payload [OF assms(1)]
    by (simp add: tlv_scan_def frame_parse_def rest)
qed

interpretation tlv_reassembler: reassembler tlv_scan tlv_wire tlv_sendable
  "\<lambda>m. m" tlv_feed "\<lambda>s. tlv_pending (fst s)" "\<lambda>s. sp_buffer_size (fst s)" tlv_ready
proof unfold_locales
  fix m rest
  assume m: "tlv_sendable m"
  show "tlv_scan (tlv_wire m @ rest) = Complete m (length (tlv_wire m))"
    using frame_parse_wire [OF m fresh_crc_ok, of rest blank_frame 0]
    by (auto simp: tlv_scan_def length_tlv_wire tlv_frame_def) (simp_all add: message_of_def)
next
  fix m p q
  assume "tlv_sendable m" "tlv_wire m = p @ q" "q \<noteq> []"
  then show "tlv_scan p = Incomplete" by (rule scan_prefix_incomplete)
next
  fix m
  assume "tlv_sendable m"
  show "tlv_wire m \<noteq> []" by (simp add: tlv_wire_def)
next
  fix s :: tlv_state and d m r
  assume a: "tlv_ready s" "length (tlv_pending (fst s)) + length d \<le> sp_buffer_size (fst s)"
    "tlv_sendable m" "tlv_pending (fst s) @ d = tlv_wire m @ r"
  obtain sp pool g e where s: "s = (sp, pool, g, e)" by (cases s)
  have inv: "tlv_stream_inv sp" "crc_ok g" "supplied_forever e" using a(1) s by (simp_all add: tlv_ready_def)
  have room: "sp_buffered sp + length d \<le> sp_buffer_size sp" using a(2) s inv(1) by simp
  note app = appended [OF inv(1) room]
  from scan_complete [OF app(1) _ a(3) inv(2,3), of r blank_frame pool] app(2) a(4) s
  obtain sp' f pool' g' e' where
    "stream_parser_scan (appended sp d) (Some blank_frame) pool g e = (STREAM_FRAME_COMPLETE, sp', Some f, pool', g', e')"
    "shows_message f m" "tlv_stream_inv sp'" "tlv_pending sp' = r" "sp_buffer_size sp' = sp_buffer_size sp"
    "crc_ok g'" "supplied_forever e'"
    using app(3) by auto
  then show "\<exists>s'. tlv_feed s d = (Emit m, s') \<and> tlv_ready s' \<and> tlv_pending (fst s') = r \<and>
      sp_buffer_size (fst s') = sp_buffer_size (fst s)"
    using feed_appended [OF inv(1) room, of blank_frame pool g e]
    by (simp add: s tlv_feed_def tlv_ready_def message_of_shown)
next
  fix s :: tlv_state and m d q
  assume a: "tlv_ready s" "tlv_sendable m" "tlv_wire m = (tlv_pending (fst s) @ d) @ q" "q \<noteq> []"
    "length (tlv_wire m) \<le> sp_buffer_size (fst s)"
  obtain sp pool g e where s: "s = (sp, pool, g, e)" by (cases s)
  have inv: "tlv_stream_inv sp" "crc_ok g" "supplied_forever e" using a(1) s by (simp_all add: tlv_ready_def)
  have room: "sp_buffered sp + length d \<le> sp_buffer_size sp"
    using arg_cong [OF a(3), of length] a(5) s inv(1) by simp
  note app = appended [OF inv(1) room]
  from scan_partial [OF app(1) _ a(4,2), of blank_frame pool g e] app(2,3) a(3,5) s obtain sp' where
    "stream_parser_scan (appended sp d) (Some blank_frame) pool g e = (STREAM_NEED_MORE_DATA, sp', Some blank_frame, pool, g, e)"
    "tlv_stream_inv sp'" "tlv_pending sp' = tlv_pending sp @ d" "sp_buffer_size sp' = sp_buffer_size sp"
    by auto
  then show "\<exists>s'. tlv_feed s d = (More, s') \<and> tlv_ready s' \<and>
      tlv_pending (fst s') = tlv_pending (fst s) @ d \<and> sp_buffer_size (fst s') = sp_buffer_size (fst s)"
    using feed_appended [OF inv(1) room, of blank_frame pool g e] inv
    by (simp add: s tlv_feed_def tlv_ready_def)
next
  fix s :: tlv_state
  assume a: "tlv_ready s" "tlv_pending (fst s) = []"
  obtain sp pool g e where s: "s = (sp, pool, g, e)" by (cases s)
  have inv: "tlv_stream_inv sp" "crc_ok g" "supplied_forever e" using a(1) s by (simp_all add: tlv_ready_def)
  have room: "sp_buffered sp + length ([] :: u8 list) \<le> sp_buffer_size sp" using inv(1) by (simp add: tlv_stream_inv_def)
  note app = appended [OF inv(1) room]
  have "frame_peek_size (Some []) (Some 0) = (FRAME_PARSE_NEED_MORE, Some 0)"
    by (simp add: frame_peek_size_def FRAME_HEADER_SIZE_def)
  moreover from this a(2) s inv(1) have "sp_expected sp = 0" by (auto simp: tlv_stream_inv_def)
  then have "sp_expected (appended sp []) = 0" by (simp add: appended_def)
  ultimately have "stream_parser_scan (appended sp []) (Some blank_frame) pool g e =
      (STREAM_NEED_MORE_DATA, appended sp [], Some blank_frame, pool, g, e)"
    using app(2) a(2) s by (simp add: stream_parser_scan_def flip: tlv_pending_def)
  then show "\<exists>s'. tlv_feed s [] = (More, s') \<and> tlv_ready s' \<and> tlv_pending (fst s') = [] \<and>
      sp_buffer_size (fst s') = sp_buffer_size (fst s)"
    using feed_appended [OF inv(1) room, of blank_frame pool g e] inv app a(2)
    by (simp add: s tlv_feed_def tlv_ready_def)
qed

section \<open>Properties\<close>

text \<open>C10: A freshly created TLV stream parser reassembles any sequence of messages from any
  chunking of their wire images: pumping the chunks through it emits exactly the messages, in
  order, every checksum verified and every payload copied, and leaves nothing buffered. A
  message and a chunk together must fit the buffer, and no request to the allocator
  may fail; the pool may be any pool or none.\<close>

theorem tlv_stream_reassembly:
  assumes "stream_parser_create uninit requested e = (Some sp, e1)" and "requested \<le> SIZE_MAX"
    and "supplied_forever e1" and "crc_ok g"
    and "\<forall>m \<in> set msgs. length (tm_payload m) \<le> MAX_PAYLOAD_SIZE"
    and "\<forall>m \<in> set msgs. \<forall>c \<in> set chunks. length (tlv_wire m) + length c \<le> sp_buffer_size sp"
    and "concat chunks = concat (map tlv_wire msgs)"
  shows "\<exists>sp' pool' g' e'. pump_all tlv_feed (sp, pool, g, e1) chunks msgs (sp', pool', g', e') \<and>
      tlv_pending sp' = [] \<and>
      (\<forall>ms s. pump_all tlv_feed (sp, pool, g, e1) chunks ms s \<longrightarrow> ms = msgs)"
proof -
  let ?s = "(sp, pool, g, e1)"
  have sp: "tlv_stream_inv sp" "tlv_pending sp = []"
    using assms(1,2) by (auto simp: stream_parser_create_def Let_def tlv_stream_inv_def tlv_pending_def
        SIZE_MAX_def split: prod.splits option.splits if_splits)
  then have ready: "tlv_ready ?s" using assms(3,4) by (simp add: tlv_ready_def)
  have "\<exists>s'. pump_all tlv_feed ?s chunks msgs s' \<and> tlv_ready s' \<and> tlv_pending (fst s') = [] \<and>
      sp_buffer_size (fst s') = sp_buffer_size (fst ?s)"
  proof (rule tlv_reassembler.reassembly [OF ready, unfolded list.map_ident])
    show "\<forall>m \<in> set msgs. tlv_sendable m" using assms(5) by (simp add: tlv_sendable_def)
    show "\<forall>m \<in> set msgs. \<forall>c \<in> set chunks. length (tlv_wire m) + length c \<le> sp_buffer_size (fst ?s)"
      using assms(6) by simp
    show "tlv_pending (fst ?s) @ concat chunks = concat (map tlv_wire msgs)" using assms(7) sp(2) by simp
    show "length (tlv_pending (fst ?s)) < length (tlv_wire (hd msgs))" using sp(2) by (simp add: length_tlv_wire)
  qed
  then obtain s' where s': "pump_all tlv_feed ?s chunks msgs s'" "tlv_pending (fst s') = []" by blast
  have only: "\<forall>ms s. pump_all tlv_feed ?s chunks ms s \<longrightarrow> ms = msgs"
    using pump_all_deterministic [OF s'(1)] by blast
  obtain sp' pool' g' e' where "s' = (sp', pool', g', e')" by (cases s')
  with s' only show ?thesis by (metis fst_conv)
qed

theorem tlv_stream_reassembly_witness:
  "\<exists>sp e1 sp' pool' g' e'. stream_parser_create (\<lambda>_. 0) 64
       \<lparr>malloc_oracle = (\<lambda>_. Some 4096), malloc_calls = 0, live_blocks = 0\<rparr> = (Some sp, e1) \<and>
     pump_all tlv_feed (sp, Some small_pool, fresh_crc, e1)
       [take 5 (tlv_wire sample_message), drop 5 (tlv_wire sample_message) @ take 12 (tlv_wire sample_message),
        drop 12 (tlv_wire sample_message)]
       [sample_message, sample_message] (sp', pool', g', e') \<and> tlv_pending sp' = []"
proof -
  let ?w = "tlv_wire sample_message"
  obtain sp e1 where c: "stream_parser_create (\<lambda>_. 0) 64
      \<lparr>malloc_oracle = (\<lambda>_. Some 4096), malloc_calls = 0, live_blocks = 0\<rparr> = (Some sp, e1)"
    "sp_buffer_size sp = 64" "supplied_forever e1"
    by (simp add: stream_parser_create_def malloc_def supplied_forever_def FRAME_MIN_SIZE_def)
  have p: "length (tm_payload sample_message) = 3" by (simp add: sample_message_def)
  then have len: "length ?w = 19" by (simp add: length_tlv_wire)
  have "\<forall>m \<in> set [sample_message, sample_message]. \<forall>ch \<in> set [take 5 ?w, drop 5 ?w @ take 12 ?w, drop 12 ?w].
      length (tlv_wire m) + length ch \<le> sp_buffer_size sp"
    by (simp add: len c(2))
  moreover have join: "take n ?w @ drop n ?w @ ys = ?w @ ys" for n ys by (metis append_assoc append_take_drop_id)
  have "concat [take 5 ?w, drop 5 ?w @ take 12 ?w, drop 12 ?w] = concat (map tlv_wire [sample_message, sample_message])"
    by (simp add: join)
  ultimately obtain sp' pool' g' e' where
    "pump_all tlv_feed (sp, Some small_pool, fresh_crc, e1) [take 5 ?w, drop 5 ?w @ take 12 ?w, drop 12 ?w]
       [sample_message, sample_message] (sp', pool', g', e')" "tlv_pending sp' = []"
    using tlv_stream_reassembly [OF c(1) _ c(3) fresh_crc_ok, of "[sample_message, sample_message]"
        "[take 5 ?w, drop 5 ?w @ take 12 ?w, drop 12 ?w]" "Some small_pool"] p
    by (auto simp: MAX_PAYLOAD_SIZE_def SIZE_MAX_def)
  with c(1) show ?thesis by blast
qed

end
