(* ===== verification/Modbus_Parser.thy ===== *)
theory Modbus_Parser
  imports Crc_Register Wire_Framing
begin

text \<open>
  The Modbus parser (\<^verbatim>\<open>src/parser/modbus_parser/src/modbus_parser.c\<close>): TCP frames with an MBAP
  header, RTU frames with a CRC-16, and the stream parser over both. The data pointer of a
  parsed PDU points into the buffer that was parsed, so a PDU holds the offset of its data
  and its bytes are whatever the buffer holds there when they are read (\<open>pdu_bytes\<close>).
\<close>

section \<open>The code\<close>

definition MODBUS_TCP_MBAP_SIZE :: size_t where "MODBUS_TCP_MBAP_SIZE = 7"
definition MODBUS_TCP_MIN_ADU_SIZE :: size_t where "MODBUS_TCP_MIN_ADU_SIZE = 8"
definition MODBUS_TCP_MAX_ADU_SIZE :: size_t where "MODBUS_TCP_MAX_ADU_SIZE = 260"
definition MODBUS_MAX_PDU_SIZE :: size_t where "MODBUS_MAX_PDU_SIZE = 253"
definition MODBUS_RTU_MIN_ADU_SIZE :: size_t where "MODBUS_RTU_MIN_ADU_SIZE = 4"
definition MODBUS_RTU_MAX_ADU_SIZE :: size_t where "MODBUS_RTU_MAX_ADU_SIZE = 256"

lemmas modbus_sizes = MODBUS_TCP_MBAP_SIZE_def MODBUS_TCP_MIN_ADU_SIZE_def MODBUS_TCP_MAX_ADU_SIZE_def
  MODBUS_MAX_PDU_SIZE_def MODBUS_RTU_MIN_ADU_SIZE_def MODBUS_RTU_MAX_ADU_SIZE_def

datatype ModbusParseResult =
  MODBUS_PARSE_OK | MODBUS_PARSE_NEED_MORE | MODBUS_PARSE_INVALID_INPUT | MODBUS_PARSE_INVALID_PROTOCOL
| MODBUS_PARSE_INVALID_LENGTH | MODBUS_PARSE_CRC_MISMATCH | MODBUS_PARSE_BUFFER_OVERFLOW

datatype ModbusTransport = MODBUS_TRANSPORT_TCP | MODBUS_TRANSPORT_RTU

record modbus_pdu =
  pd_function_code :: u8
  pd_data :: "size_t ptr"
  pd_data_size :: size_t

record modbus_tcp_adu =
  mt_transaction_id :: u16
  mt_protocol_id :: u16
  mt_length :: u16
  mt_unit_id :: u8
  mt_pdu :: modbus_pdu
  mt_consumed :: size_t

record modbus_rtu_adu =
  mr_address :: u8
  mr_pdu :: modbus_pdu
  mr_crc :: u16
  mr_consumed :: size_t

text \<open>The transport tag and the union of the two frames.\<close>

datatype modbus_adu = Modbus_Tcp modbus_tcp_adu | Modbus_Rtu modbus_rtu_adu

text \<open>What a reader gets through the data pointer of a PDU when the buffer behind it is \<open>mem\<close>.\<close>

definition pdu_bytes :: "u8 list \<Rightarrow> modbus_pdu \<Rightarrow> u8 list" where
  "pdu_bytes mem pdu = (case pd_data pdu of None \<Rightarrow> [] | Some off \<Rightarrow> take (pd_data_size pdu) (drop off mem))"

definition read_be16 :: "u8 list \<Rightarrow> size_t \<Rightarrow> u16" where
  "read_be16 p off = push_bit 8 (ucast (p ! off)) OR ucast (p ! (off + 1))"

definition write_be16 :: "u8 list \<Rightarrow> size_t \<Rightarrow> u16 \<Rightarrow> u8 list" where
  "write_be16 p off v = p[off := ucast (drop_bit 8 v), off + 1 := ucast v]"

definition modbus_pdu_size_valid :: "size_t \<Rightarrow> bool" where
  "modbus_pdu_size_valid data_size \<longleftrightarrow> data_size \<le> MODBUS_MAX_PDU_SIZE - 1"

definition modbus_tcp_peek_size :: "u8 list ptr \<Rightarrow> size_t ptr \<Rightarrow> ModbusParseResult \<times> size_t ptr" where
  "modbus_tcp_peek_size data out_size =
     (case (data, out_size) of
        (Some bs, Some _) \<Rightarrow>
          if length bs < MODBUS_TCP_MBAP_SIZE then (MODBUS_PARSE_NEED_MORE, out_size)
          else if read_be16 bs 2 \<noteq> 0 then (MODBUS_PARSE_INVALID_PROTOCOL, out_size)
          else
            let len = unat (read_be16 bs 4) in
            if len < 2 \<or> MODBUS_MAX_PDU_SIZE + 1 < len then (MODBUS_PARSE_INVALID_LENGTH, out_size)
            else (MODBUS_PARSE_OK, Some (6 + len))
      | _ \<Rightarrow> (MODBUS_PARSE_INVALID_INPUT, out_size))"

definition modbus_tcp_parse ::
  "u8 list ptr \<Rightarrow> modbus_tcp_adu ptr \<Rightarrow> ModbusParseResult \<times> modbus_tcp_adu ptr" where
  "modbus_tcp_parse data out =
     (case (data, out) of
        (Some bs, Some _) \<Rightarrow>
          (case modbus_tcp_peek_size data (Some 0) of
             (MODBUS_PARSE_OK, cell) \<Rightarrow>
               let total_size = the cell in
               if length bs < total_size then (MODBUS_PARSE_NEED_MORE, out)
               else
                 let len = read_be16 bs 4; pdu_size = unat len - 1; data_size = pdu_size - 1 in
                 (MODBUS_PARSE_OK,
                  Some \<lparr>mt_transaction_id = read_be16 bs 0, mt_protocol_id = read_be16 bs 2,
                        mt_length = len, mt_unit_id = bs ! 6,
                        mt_pdu = \<lparr>pd_function_code = bs ! 7,
                                  pd_data = (if 0 < data_size then Some 8 else NULL),
                                  pd_data_size = data_size\<rparr>,
                        mt_consumed = total_size\<rparr>)
           | (peek, _) \<Rightarrow> (peek, out))
      | _ \<Rightarrow> (MODBUS_PARSE_INVALID_INPUT, out))"

definition modbus_tcp_read ::
  "u8 list ptr \<Rightarrow> modbus_tcp_adu ptr \<Rightarrow> ModbusParseResult \<times> modbus_tcp_adu ptr" where
  "modbus_tcp_read data out = modbus_tcp_parse data out"

text \<open>The writers return the number of bytes written and the output buffer; \<open>pdu_data\<close> is the
  memory behind the data pointer.\<close>

definition modbus_tcp_build ::
  "u16 \<Rightarrow> u8 \<Rightarrow> u8 \<Rightarrow> u8 list ptr \<Rightarrow> size_t \<Rightarrow> u8 list ptr \<Rightarrow> size_t \<times> u8 list ptr" where
  "modbus_tcp_build transaction_id unit_id function_code pdu_data pdu_data_size out =
     (if out = NULL \<or> \<not> modbus_pdu_size_valid pdu_data_size then (0, out)
      else if 0 < pdu_data_size \<and> pdu_data = NULL then (0, out)
      else
        let total_size = MODBUS_TCP_MIN_ADU_SIZE + pdu_data_size in
        if length (the out) < total_size then (0, out)
        else
          let b1 = write_be16 (the out) 0 transaction_id;
              b2 = write_be16 b1 2 0;
              b3 = write_be16 b2 4 (of_nat (2 + pdu_data_size));
              b4 = b3[6 := unit_id];
              b5 = b4[7 := function_code];
              b6 = (if 0 < pdu_data_size then put_bytes b5 8 (take pdu_data_size (the pdu_data)) else b5)
          in (total_size, Some b6))"

definition modbus_tcp_write :: "modbus_tcp_adu ptr \<Rightarrow> u8 list \<Rightarrow> u8 list ptr \<Rightarrow> size_t \<times> u8 list ptr" where
  "modbus_tcp_write adu mem out =
     (case adu of
        None \<Rightarrow> (0, out)
      | Some a \<Rightarrow>
          if mt_protocol_id a \<noteq> 0 then (0, out)
          else modbus_tcp_build (mt_transaction_id a) (mt_unit_id a) (pd_function_code (mt_pdu a))
                 (map_option (\<lambda>off. drop off mem) (pd_data (mt_pdu a))) (pd_data_size (mt_pdu a)) out)"

text \<open>The inner loop's body and the loop over the bytes of \<open>modbus_rtu_crc16\<close>.\<close>

definition crc16_bit :: "u16 \<Rightarrow> u16" where
  "crc16_bit crc = (if crc AND 0x0001 \<noteq> 0 then drop_bit 1 crc XOR 0xA001 else drop_bit 1 crc)"

fun crc16_loop :: "u8 list \<Rightarrow> u16 \<Rightarrow> u16" where
  "crc16_loop [] crc = crc"
| "crc16_loop (b # bs) crc = crc16_loop bs ((crc16_bit ^^ 8) (crc XOR ucast b))"

definition modbus_rtu_crc16 :: "u8 list ptr \<Rightarrow> size_t \<Rightarrow> u16" where
  "modbus_rtu_crc16 data len =
     (if data = NULL \<and> 0 < len then 0
      else crc16_loop (take len (case data of None \<Rightarrow> [] | Some bs \<Rightarrow> bs)) 0xFFFF)"

definition modbus_rtu_parse ::
  "u8 list ptr \<Rightarrow> modbus_rtu_adu ptr \<Rightarrow> ModbusParseResult \<times> modbus_rtu_adu ptr" where
  "modbus_rtu_parse data out =
     (case (data, out) of
        (Some bs, Some _) \<Rightarrow>
          let len = length bs in
          if len < MODBUS_RTU_MIN_ADU_SIZE then (MODBUS_PARSE_NEED_MORE, out)
          else if MODBUS_RTU_MAX_ADU_SIZE < len then (MODBUS_PARSE_INVALID_LENGTH, out)
          else
            let expected = modbus_rtu_crc16 data (len - 2);
                wire_crc = le16_of (bs ! (len - 2)) (bs ! (len - 1))
            in
            if expected \<noteq> wire_crc then (MODBUS_PARSE_CRC_MISMATCH, out)
            else
              (MODBUS_PARSE_OK,
               Some \<lparr>mr_address = bs ! 0,
                     mr_pdu = \<lparr>pd_function_code = bs ! 1,
                               pd_data = (if 0 < len - 4 then Some 2 else NULL),
                               pd_data_size = len - 4\<rparr>,
                     mr_crc = wire_crc, mr_consumed = len\<rparr>)
      | _ \<Rightarrow> (MODBUS_PARSE_INVALID_INPUT, out))"

definition modbus_rtu_read ::
  "u8 list ptr \<Rightarrow> modbus_rtu_adu ptr \<Rightarrow> ModbusParseResult \<times> modbus_rtu_adu ptr" where
  "modbus_rtu_read data out = modbus_rtu_parse data out"

definition modbus_rtu_build ::
  "u8 \<Rightarrow> u8 \<Rightarrow> u8 list ptr \<Rightarrow> size_t \<Rightarrow> u8 list ptr \<Rightarrow> size_t \<times> u8 list ptr" where
  "modbus_rtu_build address function_code pdu_data pdu_data_size out =
     (if out = NULL \<or> \<not> modbus_pdu_size_valid pdu_data_size then (0, out)
      else if 0 < pdu_data_size \<and> pdu_data = NULL then (0, out)
      else
        let total_size = MODBUS_RTU_MIN_ADU_SIZE + pdu_data_size in
        if length (the out) < total_size then (0, out)
        else
          let b1 = (the out)[0 := address];
              b2 = b1[1 := function_code];
              b3 = (if 0 < pdu_data_size then put_bytes b2 2 (take pdu_data_size (the pdu_data)) else b2);
              crc = modbus_rtu_crc16 (Some b3) (total_size - 2);
              b4 = b3[total_size - 2 := ucast crc];
              b5 = b4[total_size - 1 := ucast (drop_bit 8 crc)]
          in (total_size, Some b5))"

definition modbus_rtu_write :: "modbus_rtu_adu ptr \<Rightarrow> u8 list \<Rightarrow> u8 list ptr \<Rightarrow> size_t \<times> u8 list ptr" where
  "modbus_rtu_write adu mem out =
     (case adu of
        None \<Rightarrow> (0, out)
      | Some a \<Rightarrow>
          modbus_rtu_build (mr_address a) (pd_function_code (mr_pdu a))
            (map_option (\<lambda>off. drop off mem) (pd_data (mr_pdu a))) (pd_data_size (mr_pdu a)) out)"

text \<open>A parser that fails leaves the union as it was; \<open>blank_tcp\<close> and \<open>blank_rtu\<close> stand for the
  bytes of the member the parser writes over.\<close>

definition blank_pdu :: modbus_pdu where
  "blank_pdu = \<lparr>pd_function_code = 0, pd_data = NULL, pd_data_size = 0\<rparr>"

definition blank_tcp :: modbus_tcp_adu where
  "blank_tcp = \<lparr>mt_transaction_id = 0, mt_protocol_id = 0, mt_length = 0, mt_unit_id = 0,
     mt_pdu = blank_pdu, mt_consumed = 0\<rparr>"

definition blank_rtu :: modbus_rtu_adu where
  "blank_rtu = \<lparr>mr_address = 0, mr_pdu = blank_pdu, mr_crc = 0, mr_consumed = 0\<rparr>"

definition modbus_read ::
  "ModbusTransport \<Rightarrow> u8 list ptr \<Rightarrow> modbus_adu ptr \<Rightarrow> ModbusParseResult \<times> modbus_adu ptr" where
  "modbus_read transport data out =
     (if out = NULL then (MODBUS_PARSE_INVALID_INPUT, out)
      else
        case transport of
          MODBUS_TRANSPORT_TCP \<Rightarrow>
            (case modbus_tcp_read data (Some blank_tcp) of
               (MODBUS_PARSE_OK, frame) \<Rightarrow> (MODBUS_PARSE_OK, map_option Modbus_Tcp frame)
             | (result, _) \<Rightarrow> (result, out))
        | MODBUS_TRANSPORT_RTU \<Rightarrow>
            (case modbus_rtu_read data (Some blank_rtu) of
               (MODBUS_PARSE_OK, frame) \<Rightarrow> (MODBUS_PARSE_OK, map_option Modbus_Rtu frame)
             | (result, _) \<Rightarrow> (result, out)))"

definition modbus_write :: "modbus_adu ptr \<Rightarrow> u8 list \<Rightarrow> u8 list ptr \<Rightarrow> size_t \<times> u8 list ptr" where
  "modbus_write adu mem out =
     (case adu of
        None \<Rightarrow> (0, out)
      | Some (Modbus_Tcp frame) \<Rightarrow> modbus_tcp_write (Some frame) mem out
      | Some (Modbus_Rtu frame) \<Rightarrow> modbus_rtu_write (Some frame) mem out)"

subsection \<open>The stream parser\<close>

record modbus_stream =
  ms_transport :: ModbusTransport
  ms_buffer :: "u8 list"
  ms_buffer_size :: size_t
  ms_buffered :: size_t
  ms_expected :: size_t

definition modbus_stream_create ::
  "(nat \<Rightarrow> u8) \<Rightarrow> ModbusTransport \<Rightarrow> size_t \<Rightarrow> env \<Rightarrow> modbus_stream ptr \<times> env" where
  "modbus_stream_create uninit transport requested e =
     (let buffer_size = (if requested = 0 then MODBUS_TCP_MAX_ADU_SIZE else requested) in
      case malloc e of
        (None, e1) \<Rightarrow> (NULL, e1)
      | (Some _, e1) \<Rightarrow>
          (case malloc e1 of
             (None, e2) \<Rightarrow> (NULL, free_block e2)
           | (Some _, e2) \<Rightarrow>
               (Some \<lparr>ms_transport = transport, ms_buffer = map uninit [0..<buffer_size],
                      ms_buffer_size = buffer_size, ms_buffered = 0, ms_expected = 0\<rparr>, e2)))"

text \<open>The RTU branch of \<open>modbus_stream_feed\<close>.\<close>

definition modbus_stream_rtu ::
  "modbus_stream \<Rightarrow> size_t \<Rightarrow> modbus_adu ptr \<Rightarrow> ModbusParseResult \<times> modbus_stream \<times> modbus_adu ptr" where
  "modbus_stream_rtu s len out =
     (if 0 < len then (MODBUS_PARSE_NEED_MORE, s, out)
      else if ms_buffered s = 0 then (MODBUS_PARSE_NEED_MORE, s, out)
      else
        case modbus_rtu_parse (Some (take (ms_buffered s) (ms_buffer s))) (Some blank_rtu) of
          (MODBUS_PARSE_OK, frame) \<Rightarrow>
            (MODBUS_PARSE_OK, s\<lparr>ms_buffered := 0, ms_expected := 0\<rparr>, map_option Modbus_Rtu frame)
        | (result, _) \<Rightarrow> (result, s, out))"

text \<open>The TCP branch: after the frame's size is known, and from its beginning.\<close>

definition modbus_stream_finish ::
  "modbus_stream \<Rightarrow> modbus_adu ptr \<Rightarrow> ModbusParseResult \<times> modbus_stream \<times> modbus_adu ptr" where
  "modbus_stream_finish s out =
     (if ms_buffered s < ms_expected s then (MODBUS_PARSE_NEED_MORE, s, out)
      else
        case modbus_tcp_parse (Some (take (ms_expected s) (ms_buffer s))) (Some blank_tcp) of
          (MODBUS_PARSE_OK, frame) \<Rightarrow>
            let remaining = ms_buffered s - ms_expected s in
            (MODBUS_PARSE_OK,
             s\<lparr>ms_buffer := (if 0 < remaining
                             then shift_down (ms_buffer s) (ms_expected s) remaining
                             else ms_buffer s),
               ms_buffered := remaining, ms_expected := 0\<rparr>, map_option Modbus_Tcp frame)
        | (result, _) \<Rightarrow> (result, s, out))"

definition modbus_stream_tcp ::
  "modbus_stream \<Rightarrow> modbus_adu ptr \<Rightarrow> ModbusParseResult \<times> modbus_stream \<times> modbus_adu ptr" where
  "modbus_stream_tcp s out =
     (if ms_expected s = 0 then
        case modbus_tcp_peek_size (Some (take (ms_buffered s) (ms_buffer s))) (Some 0) of
          (MODBUS_PARSE_OK, cell) \<Rightarrow>
            if ms_buffer_size s < the cell then (MODBUS_PARSE_BUFFER_OVERFLOW, s, out)
            else modbus_stream_finish (s\<lparr>ms_expected := the cell\<rparr>) out
        | (peek, _) \<Rightarrow> (peek, s, out)
      else modbus_stream_finish s out)"

definition modbus_stream_feed ::
  "modbus_stream ptr \<Rightarrow> u8 list ptr \<Rightarrow> size_t \<Rightarrow> modbus_adu ptr \<Rightarrow>
   ModbusParseResult \<times> modbus_stream ptr \<times> modbus_adu ptr" where
  "modbus_stream_feed stream data len out =
     (if stream = NULL \<or> out = NULL then (MODBUS_PARSE_INVALID_INPUT, stream, out)
      else if 0 < len \<and> data = NULL then (MODBUS_PARSE_INVALID_INPUT, stream, out)
      else
        let s = the stream in
        if ms_buffer_size s < size_add (ms_buffered s) len then (MODBUS_PARSE_BUFFER_OVERFLOW, stream, out)
        else
          let s1 = (if 0 < len
                    then s\<lparr>ms_buffer := put_bytes (ms_buffer s) (ms_buffered s) (take len (the data)),
                           ms_buffered := size_add (ms_buffered s) len\<rparr>
                    else s);
              (r, s2, out1) = (if ms_transport s1 = MODBUS_TRANSPORT_RTU then modbus_stream_rtu s1 len out
                               else modbus_stream_tcp s1 out)
          in (r, Some s2, out1))"

definition modbus_stream_reset :: "modbus_stream ptr \<Rightarrow> modbus_stream ptr" where
  "modbus_stream_reset stream = map_option (\<lambda>s. s\<lparr>ms_buffered := 0, ms_expected := 0\<rparr>) stream"

definition modbus_stream_destroy :: "modbus_stream ptr \<Rightarrow> env \<Rightarrow> env" where
  "modbus_stream_destroy stream e = (if stream \<noteq> NULL then free_block (free_block e) else e)"

definition modbus_parse_result_string :: "ModbusParseResult \<Rightarrow> string" where
  "modbus_parse_result_string result =
     (case result of
        MODBUS_PARSE_OK \<Rightarrow> ''OK''
      | MODBUS_PARSE_NEED_MORE \<Rightarrow> ''Need more data''
      | MODBUS_PARSE_INVALID_INPUT \<Rightarrow> ''Invalid input''
      | MODBUS_PARSE_INVALID_PROTOCOL \<Rightarrow> ''Invalid protocol''
      | MODBUS_PARSE_INVALID_LENGTH \<Rightarrow> ''Invalid length''
      | MODBUS_PARSE_CRC_MISMATCH \<Rightarrow> ''CRC mismatch''
      | MODBUS_PARSE_BUFFER_OVERFLOW \<Rightarrow> ''Buffer overflow'')"

section \<open>Wire images\<close>

record modbus_message =
  mm_id :: u16
  mm_unit :: u8
  mm_function :: u8
  mm_data :: "u8 list"

definition modbus_sendable :: "modbus_message \<Rightarrow> bool" where
  "modbus_sendable m \<longleftrightarrow> length (mm_data m) \<le> 252"

definition be16_bytes :: "u16 \<Rightarrow> u8 list" where
  "be16_bytes v = [ucast (drop_bit 8 v), ucast v]"

definition tcp_header :: "modbus_message \<Rightarrow> u8 list" where
  "tcp_header m = be16_bytes (mm_id m) @ [0, 0] @ be16_bytes (of_nat (2 + length (mm_data m))) @ [mm_unit m, mm_function m]"

definition tcp_wire :: "modbus_message \<Rightarrow> u8 list" where
  "tcp_wire m = tcp_header m @ mm_data m"

definition tcp_adu :: "modbus_message \<Rightarrow> modbus_tcp_adu" where
  "tcp_adu m =
     \<lparr>mt_transaction_id = mm_id m, mt_protocol_id = 0, mt_length = of_nat (2 + length (mm_data m)),
      mt_unit_id = mm_unit m,
      mt_pdu = \<lparr>pd_function_code = mm_function m, pd_data = (if mm_data m = [] then NULL else Some 8),
                pd_data_size = length (mm_data m)\<rparr>,
      mt_consumed = 8 + length (mm_data m)\<rparr>"

lemma be16_join [simp]: "push_bit 8 (ucast (ucast (drop_bit 8 v) :: u8)) OR ucast (ucast v :: u8) = (v :: u16)"
  by (rule bit_word_eqI) (auto simp: bit_simps)

lemma be16_split [simp]:
  "ucast (drop_bit 8 (push_bit 8 (ucast a) OR ucast b :: u16)) = (a :: u8)"
  "ucast (push_bit 8 (ucast a) OR ucast b :: u16) = (b :: u8)"
  by (rule bit_word_eqI; auto simp: bit_simps dest: bit_imp_le_length)+

lemma be16_bytes_read: "be16_bytes (read_be16 p off) = [p ! off, p ! (off + 1)]"
  by (simp only: be16_bytes_def read_be16_def be16_split)

lemma length_tcp_header [simp]: "length (tcp_header m) = 8"
  by (simp add: tcp_header_def be16_bytes_def)

lemma length_tcp_wire [simp]: "length (tcp_wire m) = 8 + length (mm_data m)"
  by (simp add: tcp_wire_def)

lemma length_word: "n \<le> 252 \<Longrightarrow> unat (of_nat (2 + n) :: u16) = 2 + n"
  by (rule unat_of_nat_small) simp

text \<open>What the readers find in a header.\<close>

lemma mbap_fields:
  "read_be16 (tcp_header m @ r) 0 = mm_id m" "read_be16 (tcp_header m @ r) 2 = 0"
  "read_be16 (tcp_header m @ r) 4 = of_nat (2 + length (mm_data m))"
  "(tcp_header m @ r) ! 6 = mm_unit m" "(tcp_header m @ r) ! 7 = mm_function m"
  by (simp_all add: read_be16_def tcp_header_def be16_bytes_def)

lemma peek_prefix:
  assumes "modbus_sendable m" "p = take 7 (tcp_header m) @ r"
  shows "modbus_tcp_peek_size (Some p) (Some x) = (MODBUS_PARSE_OK, Some (8 + length (mm_data m)))"
proof -
  have "read_be16 p 2 = 0" "read_be16 p 4 = of_nat (2 + length (mm_data m))"
    unfolding assms(2) by (simp_all add: read_be16_def tcp_header_def be16_bytes_def)
  then show ?thesis
    using assms length_word [of "length (mm_data m)"]
    by (simp add: modbus_tcp_peek_size_def modbus_sendable_def modbus_sizes Let_def)
qed

lemma mbap_peek:
  "modbus_sendable m \<Longrightarrow>
    modbus_tcp_peek_size (Some (tcp_header m @ r)) (Some x) = (MODBUS_PARSE_OK, Some (8 + length (mm_data m)))"
  by (rule peek_prefix [of m _ "drop 7 (tcp_header m) @ r"]) (simp_all flip: append_assoc)

lemma tcp_parse_wire:
  assumes "modbus_sendable m"
  shows "modbus_tcp_parse (Some (tcp_wire m @ r)) (Some x) = (MODBUS_PARSE_OK, Some (tcp_adu m))"
  using mbap_peek [OF assms, of "mm_data m @ r" 0] mbap_fields [of m "mm_data m @ r"] assms
    length_word [of "length (mm_data m)"]
  by (simp add: modbus_tcp_parse_def Let_def tcp_wire_def tcp_adu_def modbus_sendable_def)

lemma tcp_parse_prefix:
  assumes "modbus_sendable m" "tcp_wire m = p @ q" "q \<noteq> []"
  shows "modbus_tcp_parse (Some p) (Some x) = (MODBUS_PARSE_NEED_MORE, Some x)"
proof (cases "length p < 7")
  case True
  then show ?thesis by (simp add: modbus_tcp_parse_def modbus_tcp_peek_size_def modbus_sizes)
next
  case False
  then have "p = take 7 (tcp_header m) @ drop 7 p"
    using arg_cong [OF assms(2), of "take 7"] by (simp add: tcp_wire_def)
  note peek = peek_prefix [OF assms(1) this, of 0]
  have "length p < 8 + length (mm_data m)" using arg_cong [OF assms(2), of length] assms(3) by simp
  with peek show ?thesis by (simp add: modbus_tcp_parse_def Let_def)
qed

lemma tcp_parse_sound:
  assumes "modbus_tcp_parse (Some bs) (Some x) = (MODBUS_PARSE_OK, a)"
  shows "\<exists>m r. modbus_sendable m \<and> bs = tcp_wire m @ r \<and> a = Some (tcp_adu m)"
proof -
  let ?len = "read_be16 bs 4"
  have h: "7 \<le> length bs" "read_be16 bs 2 = 0" "2 \<le> unat ?len" "unat ?len \<le> 254" "6 + unat ?len \<le> length bs"
    using assms
    by (auto simp: modbus_tcp_parse_def modbus_tcp_peek_size_def modbus_sizes Let_def split: if_splits)
  define m where "m = \<lparr>mm_id = read_be16 bs 0, mm_unit = bs ! 6, mm_function = bs ! 7,
    mm_data = take (unat ?len - 2) (drop 8 bs)\<rparr>"
  have n: "length (mm_data m) = unat ?len - 2" using h by (simp add: m_def)
  have ok: "modbus_sendable m" using h n by (simp add: modbus_sendable_def)
  have len: "(of_nat (2 + length (mm_data m)) :: u16) = ?len" using h n by simp
  have z: "bs ! 2 = 0" "bs ! 3 = 0"
    using h(2) be16_split [of "bs ! 2" "bs ! 3"] by (simp_all add: read_be16_def)
  have eight: "8 \<le> length bs" using h by simp
  have "tcp_header m = [bs ! 0, bs ! 1, bs ! 2, bs ! 3, bs ! 4, bs ! 5, bs ! 6, bs ! 7]"
    unfolding tcp_header_def len by (simp add: be16_bytes_read m_def z)
  also have "\<dots> = take 8 bs"
    using eight by (intro nth_equalityI) (auto simp: less_Suc_eq nth_Cons' eval_nat_numeral)
  finally have "bs = tcp_wire m @ drop (unat ?len - 2) (drop 8 bs)"
    by (simp only: tcp_wire_def m_def modbus_message.simps append_assoc append_take_drop_id)
  moreover from tcp_parse_wire [OF ok, of "drop (unat ?len - 2) (drop 8 bs)" x] this assms
  have "a = Some (tcp_adu m)" by simp
  ultimately show ?thesis using ok by blast
qed

text \<open>The builders write the wire image over the front of the buffer.\<close>

lemma eight_updates:
  "8 \<le> length buf \<Longrightarrow>
    buf[0 := a, 1 := b, 2 := c, 3 := d, 4 := e, 5 := f, 6 := g, 7 := h] = [a, b, c, d, e, f, g, h] @ drop 8 buf"
  by (auto simp: Suc_le_length_iff eval_nat_numeral)

lemma tcp_build_wire:
  assumes "modbus_sendable m" "8 + length (mm_data m) \<le> length buf"
    and "mm_data m = [] \<or> (\<exists>mem. src = Some mem \<and> take (length (mm_data m)) mem = mm_data m)"
  shows "modbus_tcp_build (mm_id m) (mm_unit m) (mm_function m) src (length (mm_data m)) (Some buf) =
    (8 + length (mm_data m), Some (put_bytes buf 0 (tcp_wire m)))"
proof -
  let ?n = "length (mm_data m)"
  let ?b5 = "(write_be16 (write_be16 (write_be16 buf 0 (mm_id m)) 2 0) 4 (of_nat (2 + ?n)))[6 := mm_unit m, 7 := mm_function m]"
  have b5: "?b5 = tcp_header m @ drop 8 buf"
    using eight_updates [of buf] assms(2) by (simp add: write_be16_def tcp_header_def be16_bytes_def)
  have "modbus_tcp_build (mm_id m) (mm_unit m) (mm_function m) src ?n (Some buf) =
    (8 + ?n, Some (if 0 < ?n then put_bytes ?b5 8 (take ?n (the src)) else ?b5))"
    using assms by (auto simp: modbus_tcp_build_def modbus_pdu_size_valid_def modbus_sendable_def modbus_sizes Let_def)
  also have "(if 0 < ?n then put_bytes ?b5 8 (take ?n (the src)) else ?b5) = put_bytes buf 0 (tcp_wire m)"
  proof (cases "mm_data m = []")
    case True
    then show ?thesis unfolding b5 by (simp add: put_bytes_def tcp_wire_def)
  next
    case False
    with assms(3) obtain mem where mem: "src = Some mem" "take ?n mem = mm_data m" by blast
    with False show ?thesis unfolding b5 by (simp add: put_bytes_def tcp_wire_def add.commute)
  qed
  finally show ?thesis .
qed

section \<open>The CRC-16\<close>

lemma crc16_bit_shift: "crc16_bit = crc_shift 0xA001"
  by (rule ext) (simp add: crc16_bit_def crc_shift_def low_bit)

interpretation crc16: crc_register crc16_bit
  unfolding crc16_bit_shift by (rule crc_shift_register) (simp add: bit_iff_odd)

lemma crc16_loop_fold: "crc16_loop bs c = fold (crc_absorb crc16_bit) bs c"
  by (induction bs arbitrary: c) (simp_all add: crc_absorb_def)

text \<open>The residue: a message followed by its own checksum, low byte first, leaves zero.\<close>

lemma crc16_residue: "crc16_loop (bs @ [a, b]) c = 0 \<longleftrightarrow> crc16_loop bs c = le16_of a b"
proof -
  let ?c = "crc16_loop bs c"
  have w: "(le_word [a, b] :: u16) = le16_of a b"
    unfolding le16_of_def by (rule bit_word_eqI) (auto simp: bit_simps dest: bit_imp_le_length)
  have zero: "(crc16_bit ^^ n) 0 = 0" for n by (induction n) (simp_all add: crc16_bit_def)
  have "crc16_loop (bs @ [a, b]) c = (crc16_bit ^^ 16) (?c XOR le16_of a b)"
    using crc16.absorb_word [of "[a, b]" ?c] w by (simp add: crc16_loop_fold)
  moreover have "(crc16_bit ^^ 16) (?c XOR le16_of a b) = 0 \<longleftrightarrow> ?c XOR le16_of a b = 0"
    using crc16.steps_inj [of 16 "?c XOR le16_of a b" 0] zero [of 16] by metis
  moreover have "?c XOR le16_of a b = 0 \<longleftrightarrow> ?c = le16_of a b"
    using xor_cancel(2) [of ?c "le16_of a b" "le16_of a b"] by simp
  ultimately show ?thesis by simp
qed

definition rtu_wire :: "modbus_message \<Rightarrow> u8 list" where
  "rtu_wire m = (let body = [mm_unit m, mm_function m] @ mm_data m in body @ le16_bytes (crc16_loop body 0xFFFF))"

definition rtu_adu :: "modbus_message \<Rightarrow> modbus_rtu_adu" where
  "rtu_adu m =
     \<lparr>mr_address = mm_unit m,
      mr_pdu = \<lparr>pd_function_code = mm_function m, pd_data = (if mm_data m = [] then NULL else Some 2),
                pd_data_size = length (mm_data m)\<rparr>,
      mr_crc = crc16_loop ([mm_unit m, mm_function m] @ mm_data m) 0xFFFF,
      mr_consumed = 4 + length (mm_data m)\<rparr>"

lemma length_rtu_wire [simp]: "length (rtu_wire m) = 4 + length (mm_data m)"
  by (simp add: rtu_wire_def Let_def le16_bytes_def)

text \<open>The RTU parser accepts exactly the frames of admissible length with residue zero.\<close>

lemma rtu_parse_cases:
  "modbus_rtu_parse (Some bs) (Some x) =
    (if length bs < 4 then (MODBUS_PARSE_NEED_MORE, Some x)
     else if 256 < length bs then (MODBUS_PARSE_INVALID_LENGTH, Some x)
     else if crc16_loop bs 0xFFFF \<noteq> 0 then (MODBUS_PARSE_CRC_MISMATCH, Some x)
     else (MODBUS_PARSE_OK, Some (rtu_adu \<lparr>mm_id = 0, mm_unit = bs ! 0, mm_function = bs ! 1,
             mm_data = take (length bs - 4) (drop 2 bs)\<rparr>)))"
proof (cases "4 \<le> length bs")
  case True
  define a b c d where "a = bs ! 0" and "b = bs ! 1" and "c = bs ! (length bs - 2)" and "d = bs ! (length bs - 1)"
  let ?data = "take (length bs - 4) (drop 2 bs)"
  have front: "take (length bs - 2) bs = [a, b] @ ?data"
  proof -
    have "length bs - 2 = 2 + (length bs - 4)" using True by simp
    then have "take (length bs - 2) bs = take 2 bs @ ?data" by (simp only: take_add)
    moreover have "take 2 bs = [a, b]"
      using True by (intro nth_equalityI) (auto simp: a_def b_def less_Suc_eq numeral_2_eq_2)
    ultimately show ?thesis by simp
  qed
  moreover have "drop (length bs - 2) bs = [c, d]"
    using True by (intro nth_equalityI) (auto simp: c_def d_def less_Suc_eq numeral_2_eq_2 Suc_diff_Suc)
  ultimately have bs: "bs = ([a, b] @ ?data) @ [c, d]" by (metis append_take_drop_id)
  have crc: "crc16_loop bs 0xFFFF = 0 \<longleftrightarrow> crc16_loop ([a, b] @ ?data) 0xFFFF = le16_of c d"
    by (subst bs) (rule crc16_residue)
  have "?data = [] \<longleftrightarrow> length bs = 4" using True by auto
  then show ?thesis
    using True crc front
    by (auto simp: modbus_rtu_parse_def modbus_sizes Let_def modbus_rtu_crc16_def rtu_adu_def a_def b_def c_def d_def)
qed (simp add: modbus_rtu_parse_def modbus_sizes Let_def)

lemma two_updates_end: "length xs = n \<Longrightarrow> 2 \<le> length ys \<Longrightarrow> (xs @ ys)[n := a, Suc n := b] = xs @ [a, b] @ drop 2 ys"
  by (auto simp: Suc_le_length_iff eval_nat_numeral list_update_append)

lemma rtu_build_wire:
  assumes "modbus_sendable m" "4 + length (mm_data m) \<le> length buf"
    and "mm_data m = [] \<or> (\<exists>mem. src = Some mem \<and> take (length (mm_data m)) mem = mm_data m)"
  shows "modbus_rtu_build (mm_unit m) (mm_function m) src (length (mm_data m)) (Some buf) =
    (4 + length (mm_data m), Some (put_bytes buf 0 (rtu_wire m)))"
proof -
  let ?n = "length (mm_data m)"
  let ?body = "[mm_unit m, mm_function m] @ mm_data m"
  define b2 where "b2 = buf[0 := mm_unit m, 1 := mm_function m]"
  define b3 where "b3 = (if 0 < ?n then put_bytes b2 2 (take ?n (the src)) else b2)"
  have b2: "b2 = [mm_unit m, mm_function m] @ drop 2 buf"
    unfolding b2_def using two_updates_end [of "[]" 0 buf] assms(2) by simp
  have b3: "b3 = ?body @ drop (2 + ?n) buf"
  proof (cases "mm_data m = []")
    case False
    with assms(3) obtain mem where mem: "src = Some mem" "take ?n mem = mm_data m" by blast
    with False show ?thesis unfolding b3_def b2 by (simp add: put_bytes_def add.commute)
  qed (simp add: b3_def b2)
  have crc: "modbus_rtu_crc16 (Some b3) (2 + ?n) = crc16_loop ?body 0xFFFF"
    by (simp add: modbus_rtu_crc16_def b3 add.commute)
  let ?crc = "modbus_rtu_crc16 (Some b3) (2 + ?n)"
  have "modbus_rtu_build (mm_unit m) (mm_function m) src ?n (Some buf) =
    (4 + ?n, Some (b3[2 + ?n := ucast ?crc, Suc (2 + ?n) := ucast (drop_bit 8 ?crc)]))"
    using assms
    by (auto simp: modbus_rtu_build_def modbus_pdu_size_valid_def modbus_sendable_def modbus_sizes Let_def b2_def b3_def eval_nat_numeral)
  also have "b3[2 + ?n := ucast ?crc, Suc (2 + ?n) := ucast (drop_bit 8 ?crc)] =
      ?body @ [ucast ?crc, ucast (drop_bit 8 ?crc)] @ drop 2 (drop (2 + ?n) buf)"
    unfolding b3 by (rule two_updates_end) (use assms(2) in simp_all)
  also have "\<dots> = put_bytes buf 0 (rtu_wire m)"
    unfolding crc by (simp add: put_bytes_def rtu_wire_def Let_def le16_bytes_def add.commute)
  finally show ?thesis .
qed

lemma rtu_parse_wire:
  assumes "modbus_sendable m"
  shows "modbus_rtu_parse (Some (rtu_wire m)) (Some x) = (MODBUS_PARSE_OK, Some (rtu_adu m))"
proof -
  have "crc16_loop (rtu_wire m) 0xFFFF = 0"
    unfolding rtu_wire_def Let_def le16_bytes_def by (subst crc16_residue) simp
  then show ?thesis
    using assms by (simp add: rtu_parse_cases modbus_sendable_def) (simp add: rtu_adu_def rtu_wire_def Let_def)
qed

lemma rtu_parse_sound:
  assumes "modbus_rtu_parse (Some bs) (Some x) = (MODBUS_PARSE_OK, a)"
  shows "\<exists>m. modbus_sendable m \<and> bs = rtu_wire m \<and> a = Some (rtu_adu m)"
proof -
  define m where "m = \<lparr>mm_id = 0, mm_unit = bs ! 0, mm_function = bs ! 1, mm_data = take (length bs - 4) (drop 2 bs)\<rparr>"
  have h: "4 \<le> length bs" "length bs \<le> 256" "crc16_loop bs 0xFFFF = 0" "a = Some (rtu_adu m)"
    using assms by (auto simp: rtu_parse_cases m_def split: if_splits)
  let ?body = "[mm_unit m, mm_function m] @ mm_data m"
  obtain c d where "drop (length bs - 2) bs = [c, d]"
    using h(1) by (cases "drop (length bs - 2) bs" rule: remdups_adj.cases) (auto dest: arg_cong [where f = length])
  moreover have "take (length bs - 2) bs = ?body"
  proof -
    have "length bs - 2 = 2 + (length bs - 4)" using h(1) by simp
    then have "take (length bs - 2) bs = take 2 bs @ mm_data m" by (simp only: take_add m_def modbus_message.simps)
    moreover have "take 2 bs = [mm_unit m, mm_function m]"
      using h(1) by (intro nth_equalityI) (auto simp: m_def less_Suc_eq numeral_2_eq_2)
    ultimately show ?thesis by simp
  qed
  ultimately have bs: "bs = ?body @ [c, d]" by (metis append_take_drop_id)
  with h(3) have "crc16_loop ?body 0xFFFF = le16_of c d" by (metis crc16_residue)
  then have "bs = rtu_wire m" by (subst bs) (simp add: rtu_wire_def Let_def le16_bytes_def)
  moreover have "modbus_sendable m" using h by (simp add: modbus_sendable_def m_def)
  ultimately show ?thesis using h(4) by blast
qed

section \<open>Both transports\<close>

fun adu_transport :: "modbus_adu \<Rightarrow> ModbusTransport" where
  "adu_transport (Modbus_Tcp _) = MODBUS_TRANSPORT_TCP"
| "adu_transport (Modbus_Rtu _) = MODBUS_TRANSPORT_RTU"

fun adu_pdu :: "modbus_adu \<Rightarrow> modbus_pdu" where
  "adu_pdu (Modbus_Tcp a) = mt_pdu a"
| "adu_pdu (Modbus_Rtu a) = mr_pdu a"

fun adu_consumed :: "modbus_adu \<Rightarrow> size_t" where
  "adu_consumed (Modbus_Tcp a) = mt_consumed a"
| "adu_consumed (Modbus_Rtu a) = mr_consumed a"

text \<open>Who is addressed by what: transaction and unit on TCP, the address on RTU.\<close>

fun adu_envelope :: "modbus_adu \<Rightarrow> u16 option \<times> u8 \<times> u8" where
  "adu_envelope (Modbus_Tcp a) = (Some (mt_transaction_id a), mt_unit_id a, pd_function_code (mt_pdu a))"
| "adu_envelope (Modbus_Rtu a) = (None, mr_address a, pd_function_code (mr_pdu a))"

text \<open>The message an ADU stands for when its data pointer points into \<open>mem\<close>.\<close>

definition adu_message :: "u8 list \<Rightarrow> modbus_adu \<Rightarrow> modbus_message" where
  "adu_message mem a =
     \<lparr>mm_id = (case adu_envelope a of (Some i, _) \<Rightarrow> i | _ \<Rightarrow> 0), mm_unit = fst (snd (adu_envelope a)),
      mm_function = snd (snd (adu_envelope a)), mm_data = pdu_bytes mem (adu_pdu a)\<rparr>"

definition adu_in_range :: "u8 list \<Rightarrow> modbus_adu \<Rightarrow> bool" where
  "adu_in_range mem a =
     (case pd_data (adu_pdu a) of None \<Rightarrow> True | Some off \<Rightarrow> off + pd_data_size (adu_pdu a) \<le> length mem)"

definition adu_wire :: "ModbusTransport \<Rightarrow> modbus_message \<Rightarrow> u8 list" where
  "adu_wire tr m = (case tr of MODBUS_TRANSPORT_TCP \<Rightarrow> tcp_wire m | MODBUS_TRANSPORT_RTU \<Rightarrow> rtu_wire m)"

lemma tcp_build_positive:
  "fst (modbus_tcp_build i u f src n (Some buf)) = k \<Longrightarrow> 0 < k \<Longrightarrow>
     n \<le> 252 \<and> (0 < n \<longrightarrow> src \<noteq> NULL) \<and> 8 + n \<le> length buf"
  by (auto simp: modbus_tcp_build_def modbus_pdu_size_valid_def modbus_sizes Let_def split: if_splits)

lemma rtu_build_positive:
  "fst (modbus_rtu_build u f src n (Some buf)) = k \<Longrightarrow> 0 < k \<Longrightarrow>
     n \<le> 252 \<and> (0 < n \<longrightarrow> src \<noteq> NULL) \<and> 4 + n \<le> length buf"
  by (auto simp: modbus_rtu_build_def modbus_pdu_size_valid_def modbus_sizes Let_def split: if_splits)

lemma message_data:
  assumes "adu_in_range mem a" "0 < pd_data_size (adu_pdu a) \<Longrightarrow> pd_data (adu_pdu a) \<noteq> NULL"
  shows "length (pdu_bytes mem (adu_pdu a)) = pd_data_size (adu_pdu a)"
    "pdu_bytes mem (adu_pdu a) = [] \<or>
      (\<exists>m. map_option (\<lambda>off. drop off mem) (pd_data (adu_pdu a)) = Some m \<and>
         take (length (pdu_bytes mem (adu_pdu a))) m = pdu_bytes mem (adu_pdu a))"
  using assms by (auto simp: adu_in_range_def pdu_bytes_def split: option.splits)

lemma write_wire:
  assumes range: "adu_in_range mem a" and pos: "fst (modbus_write (Some a) mem (Some buf)) = n" "0 < n"
  shows "modbus_sendable (adu_message mem a)" "n = length (adu_wire (adu_transport a) (adu_message mem a))"
    "n \<le> length buf"
    "modbus_write (Some a) mem (Some buf) = (n, Some (put_bytes buf 0 (adu_wire (adu_transport a) (adu_message mem a))))"
proof -
  let ?m = "adu_message mem a"
  let ?src = "map_option (\<lambda>off. drop off mem) (pd_data (adu_pdu a))"
  have data: "mm_data ?m = pdu_bytes mem (adu_pdu a)" by (simp add: adu_message_def)
  have "modbus_sendable ?m \<and> n = length (adu_wire (adu_transport a) ?m) \<and> n \<le> length buf \<and>
    modbus_write (Some a) mem (Some buf) = (n, Some (put_bytes buf 0 (adu_wire (adu_transport a) ?m)))"
  proof (cases a)
    case (Modbus_Tcp t)
    have w: "modbus_write (Some a) mem (Some buf) =
        modbus_tcp_build (mm_id ?m) (mm_unit ?m) (mm_function ?m) ?src (pd_data_size (adu_pdu a)) (Some buf)"
      using pos by (auto simp: Modbus_Tcp modbus_write_def modbus_tcp_write_def adu_message_def split: if_splits)
    with tcp_build_positive [OF pos(1) [unfolded w] pos(2)]
    have p: "pd_data_size (adu_pdu a) \<le> 252" "0 < pd_data_size (adu_pdu a) \<Longrightarrow> pd_data (adu_pdu a) \<noteq> NULL"
      "8 + pd_data_size (adu_pdu a) \<le> length buf" by auto
    note d = message_data [OF range p(2), folded data]
    have ok: "modbus_sendable ?m" using d(1) p(1) by (simp add: modbus_sendable_def)
    from tcp_build_wire [OF ok _ d(2)] p(3) d(1) w pos(1) ok show ?thesis by (simp add: adu_wire_def Modbus_Tcp)
  next
    case (Modbus_Rtu t)
    have w: "modbus_write (Some a) mem (Some buf) =
        modbus_rtu_build (mm_unit ?m) (mm_function ?m) ?src (pd_data_size (adu_pdu a)) (Some buf)"
      by (simp add: Modbus_Rtu modbus_write_def modbus_rtu_write_def adu_message_def)
    with rtu_build_positive [OF pos(1) [unfolded w] pos(2)]
    have p: "pd_data_size (adu_pdu a) \<le> 252" "0 < pd_data_size (adu_pdu a) \<Longrightarrow> pd_data (adu_pdu a) \<noteq> NULL"
      "4 + pd_data_size (adu_pdu a) \<le> length buf" by auto
    note d = message_data [OF range p(2), folded data]
    have ok: "modbus_sendable ?m" using d(1) p(1) by (simp add: modbus_sendable_def)
    from rtu_build_wire [OF ok _ d(2)] p(3) d(1) w pos(1) ok show ?thesis by (simp add: adu_wire_def Modbus_Rtu)
  qed
  then show "modbus_sendable ?m" "n = length (adu_wire (adu_transport a) ?m)" "n \<le> length buf"
    "modbus_write (Some a) mem (Some buf) = (n, Some (put_bytes buf 0 (adu_wire (adu_transport a) ?m)))" by auto
qed

definition adu_of :: "ModbusTransport \<Rightarrow> modbus_message \<Rightarrow> modbus_adu" where
  "adu_of tr m = (case tr of MODBUS_TRANSPORT_TCP \<Rightarrow> Modbus_Tcp (tcp_adu m) | MODBUS_TRANSPORT_RTU \<Rightarrow> Modbus_Rtu (rtu_adu m))"

lemma adu_of_simps [simp]:
  "adu_transport (adu_of tr m) = tr" "adu_consumed (adu_of tr m) = length (adu_wire tr m)"
  by (cases tr; simp add: adu_of_def adu_wire_def tcp_adu_def rtu_adu_def)+

lemma read_wire:
  "modbus_sendable m \<Longrightarrow> modbus_read tr (Some (adu_wire tr m)) (Some x) = (MODBUS_PARSE_OK, Some (adu_of tr m))"
  using tcp_parse_wire [of m "[]" blank_tcp] rtu_parse_wire [of m blank_rtu]
  by (cases tr) (simp_all add: modbus_read_def adu_wire_def adu_of_def modbus_tcp_read_def modbus_rtu_read_def)

lemma read_sound:
  assumes "modbus_read tr (Some bs) (Some x) = (MODBUS_PARSE_OK, Some a)"
  shows "\<exists>m r. modbus_sendable m \<and> bs = adu_wire tr m @ r \<and> a = adu_of tr m"
proof (cases tr)
  case MODBUS_TRANSPORT_TCP
  then obtain f where "modbus_tcp_parse (Some bs) (Some blank_tcp) = (MODBUS_PARSE_OK, f)" "Some a = map_option Modbus_Tcp f"
    using assms by (auto simp: modbus_read_def modbus_tcp_read_def split: prod.splits ModbusParseResult.splits)
  with tcp_parse_sound [of bs blank_tcp f] MODBUS_TRANSPORT_TCP show ?thesis by (auto simp: adu_wire_def adu_of_def)
next
  case MODBUS_TRANSPORT_RTU
  then obtain f where "modbus_rtu_parse (Some bs) (Some blank_rtu) = (MODBUS_PARSE_OK, f)" "Some a = map_option Modbus_Rtu f"
    using assms by (auto simp: modbus_read_def modbus_rtu_read_def split: prod.splits ModbusParseResult.splits)
  with rtu_parse_sound [of bs blank_rtu f] MODBUS_TRANSPORT_RTU show ?thesis
    by (auto simp: adu_wire_def adu_of_def intro!: exI [of _ "[] :: u8 list"])
qed

lemma adu_of_message [simp]:
  "adu_in_range (adu_wire tr m @ r) (adu_of tr m)"
  "adu_wire tr (adu_message (adu_wire tr m @ r) (adu_of tr m)) = adu_wire tr m"
  "pdu_bytes (adu_wire tr m @ r) (adu_pdu (adu_of tr m)) = mm_data m"
proof -
  have tcp: "pdu_bytes (tcp_wire m @ r) (mt_pdu (tcp_adu m)) = mm_data m"
    by (simp add: pdu_bytes_def tcp_adu_def tcp_wire_def)
  have rtu: "pdu_bytes (rtu_wire m @ r) (mr_pdu (rtu_adu m)) = mm_data m"
    by (simp add: pdu_bytes_def rtu_adu_def rtu_wire_def Let_def)
  show "pdu_bytes (adu_wire tr m @ r) (adu_pdu (adu_of tr m)) = mm_data m"
    using tcp rtu by (cases tr) (simp_all add: adu_wire_def adu_of_def)
  show "adu_in_range (adu_wire tr m @ r) (adu_of tr m)"
    by (cases tr) (simp_all add: adu_in_range_def adu_of_def adu_wire_def tcp_adu_def rtu_adu_def)
  show "adu_wire tr (adu_message (adu_wire tr m @ r) (adu_of tr m)) = adu_wire tr m"
    using tcp rtu
    by (cases tr)
      (simp_all add: adu_message_def adu_of_def adu_wire_def,
       simp_all add: tcp_adu_def tcp_wire_def tcp_header_def rtu_adu_def rtu_wire_def)
qed

lemma write_room:
  assumes "adu_in_range mem a" "0 < pd_data_size (adu_pdu a) \<Longrightarrow> pd_data (adu_pdu a) \<noteq> NULL"
    and "modbus_sendable (adu_message mem a)" "length (adu_wire (adu_transport a) (adu_message mem a)) \<le> length buf"
    and "case a of Modbus_Tcp t \<Rightarrow> mt_protocol_id t = 0 | _ \<Rightarrow> True"
  shows "0 < fst (modbus_write (Some a) mem (Some buf))"
  using message_data [OF assms(1,2)] assms(2-5)
  by (cases a)
    (auto simp: modbus_write_def modbus_tcp_write_def modbus_rtu_write_def modbus_tcp_build_def modbus_rtu_build_def
       modbus_pdu_size_valid_def modbus_sizes Let_def adu_wire_def modbus_sendable_def adu_message_def)

section \<open>The stream\<close>

definition ms_pending :: "modbus_stream \<Rightarrow> u8 list" where
  "ms_pending s = take (ms_buffered s) (ms_buffer s)"

definition modbus_stream_inv :: "modbus_stream \<Rightarrow> bool" where
  "modbus_stream_inv s \<longleftrightarrow>
     length (ms_buffer s) = ms_buffer_size s \<and> ms_buffered s \<le> ms_buffer_size s \<and> ms_buffer_size s \<le> SIZE_MAX \<and>
     (ms_expected s \<noteq> 0 \<longrightarrow> ms_transport s = MODBUS_TRANSPORT_TCP \<and> ms_expected s \<le> ms_buffer_size s \<and>
        modbus_tcp_peek_size (Some (ms_pending s)) (Some 0) = (MODBUS_PARSE_OK, Some (ms_expected s)))"

lemma length_ms_pending [simp]: "modbus_stream_inv s \<Longrightarrow> length (ms_pending s) = ms_buffered s"
  by (simp add: ms_pending_def modbus_stream_inv_def)

definition ms_append :: "modbus_stream \<Rightarrow> u8 list \<Rightarrow> modbus_stream" where
  "ms_append s d = s\<lparr>ms_buffer := put_bytes (ms_buffer s) (ms_buffered s) d, ms_buffered := ms_buffered s + length d\<rparr>"

lemma modbus_peek_mono:
  "modbus_tcp_peek_size (Some p) (Some 0) = (MODBUS_PARSE_OK, c) \<Longrightarrow>
     modbus_tcp_peek_size (Some (p @ q)) (Some 0) = (MODBUS_PARSE_OK, c)"
  by (auto simp: modbus_tcp_peek_size_def modbus_sizes Let_def nth_append read_be16_def split: if_splits)

lemma ms_append:
  assumes "modbus_stream_inv s" "ms_buffered s + length d \<le> ms_buffer_size s"
  shows "modbus_stream_inv (ms_append s d)" "ms_pending (ms_append s d) = ms_pending s @ d"
    "ms_buffer_size (ms_append s d) = ms_buffer_size s" "ms_transport (ms_append s d) = ms_transport s"
proof -
  show p: "ms_pending (ms_append s d) = ms_pending s @ d"
    using assms by (simp add: ms_pending_def ms_append_def modbus_stream_inv_def)
  show "modbus_stream_inv (ms_append s d)"
    using assms modbus_peek_mono [of "ms_pending s" _ d]
    unfolding modbus_stream_inv_def p by (auto simp: ms_append_def)
qed (simp_all add: ms_append_def)

lemma modbus_feed_append:
  assumes "modbus_stream_inv s" "ms_buffered s + length d \<le> ms_buffer_size s"
  shows "modbus_stream_feed (Some s) (Some d) (length d) (Some x) =
    (case (if ms_transport s = MODBUS_TRANSPORT_RTU then modbus_stream_rtu (ms_append s d) (length d) (Some x)
           else modbus_stream_tcp (ms_append s d) (Some x)) of (r, s', out) \<Rightarrow> (r, Some s', out))"
proof -
  have "ms_buffered s + length d \<le> SIZE_MAX" using assms by (simp add: modbus_stream_inv_def)
  moreover have "\<not> 0 < length d \<Longrightarrow> ms_append s d = s" by (simp add: ms_append_def)
  ultimately show ?thesis
    using assms by (auto simp: modbus_stream_feed_def Let_def ms_append_def split: prod.splits)
qed

lemma tcp_stream_complete:
  assumes inv: "modbus_stream_inv s" and pend: "ms_pending s = tcp_wire m @ r" and m: "modbus_sendable m"
  shows "\<exists>s'. modbus_stream_tcp s out = (MODBUS_PARSE_OK, s', Some (Modbus_Tcp (tcp_adu m))) \<and>
    modbus_stream_inv s' \<and> ms_pending s' = r \<and> ms_buffer_size s' = ms_buffer_size s \<and> ms_transport s' = ms_transport s \<and>
    take (length (tcp_wire m)) (ms_buffer s') = take (length (tcp_wire m)) (r @ drop (length r) (tcp_wire m))"
proof -
  let ?n = "8 + length (mm_data m)"
  define s1 where "s1 = s\<lparr>ms_expected := ?n\<rparr>"
  have peek: "modbus_tcp_peek_size (Some (ms_pending s)) (Some 0) = (MODBUS_PARSE_OK, Some ?n)"
    using mbap_peek [OF m, of "mm_data m @ r" 0] pend by (simp add: tcp_wire_def)
  have len: "?n + length r = ms_buffered s" "?n \<le> ms_buffer_size s"
    using arg_cong [OF pend, of length] inv by (auto simp: modbus_stream_inv_def ms_pending_def)
  have "ms_expected s \<noteq> 0 \<Longrightarrow> s = s1" using inv peek by (auto simp: modbus_stream_inv_def s1_def)
  then have scan: "modbus_stream_tcp s out = modbus_stream_finish s1 out"
    using peek len(2) by (auto simp: modbus_stream_tcp_def s1_def simp flip: ms_pending_def)
  have split: "ms_buffer s = tcp_wire m @ r @ drop (?n + length r) (ms_buffer s)"
    using pend unfolding ms_pending_def len(1) [symmetric] by (metis append_assoc append_take_drop_id)
  have front: "take ?n (ms_buffer s) = tcp_wire m" by (subst split) simp
  define s2 where "s2 = s1\<lparr>ms_buffer := (if 0 < length r then shift_down (ms_buffer s) ?n (length r) else ms_buffer s),
      ms_buffered := length r, ms_expected := 0\<rparr>"
  have rem: "ms_buffered s - ?n = length r" using len by simp
  have "modbus_stream_finish s1 out = (MODBUS_PARSE_OK, s2, Some (Modbus_Tcp (tcp_adu m)))"
    using len tcp_parse_wire [OF m, of "[]" blank_tcp]
    by (simp add: modbus_stream_finish_def s1_def s2_def front Let_def rem)
  moreover have blen: "?n + length r \<le> length (ms_buffer s)" using inv len by (simp add: modbus_stream_inv_def)
  then have "modbus_stream_inv s2" using inv len by (auto simp: s2_def s1_def modbus_stream_inv_def)
  moreover have mid: "take (length r) (drop ?n (ms_buffer s)) = r" by (subst split) simp
  then have "ms_pending s2 = r" using blen by (simp add: s2_def ms_pending_def)
  moreover have "ms_buffer s2 = r @ drop (length r) (ms_buffer s)"
    using mid by (simp add: s2_def shift_down_def)
  then have "take ?n (ms_buffer s2) = take ?n (r @ drop (length r) (tcp_wire m))"
    by (subst (asm) split) (simp add: take_append drop_append)
  ultimately show ?thesis using scan by (simp add: s2_def s1_def)
qed

lemma tcp_stream_partial:
  assumes inv: "modbus_stream_inv s" and wire: "tcp_wire m = ms_pending s @ q" "q \<noteq> []"
    and m: "modbus_sendable m" "length (tcp_wire m) \<le> ms_buffer_size s"
    and tr: "ms_transport s = MODBUS_TRANSPORT_TCP"
  shows "\<exists>s'. modbus_stream_tcp s out = (MODBUS_PARSE_NEED_MORE, s', out) \<and>
    modbus_stream_inv s' \<and> ms_pending s' = ms_pending s \<and> ms_buffer_size s' = ms_buffer_size s \<and>
    ms_transport s' = ms_transport s"
proof -
  let ?n = "8 + length (mm_data m)"
  have len: "ms_buffered s < ?n" using arg_cong [OF wire(1), of length] wire(2) inv by auto
  show ?thesis
  proof (cases "length (ms_pending s) < 7")
    case True
    then have "modbus_tcp_peek_size (Some (ms_pending s)) (Some 0) = (MODBUS_PARSE_NEED_MORE, Some 0)"
      by (simp add: modbus_tcp_peek_size_def modbus_sizes)
    moreover from this inv have "ms_expected s = 0" by (auto simp: modbus_stream_inv_def)
    ultimately show ?thesis using inv by (simp add: modbus_stream_tcp_def flip: ms_pending_def)
  next
    case False
    define s1 where "s1 = s\<lparr>ms_expected := ?n\<rparr>"
    from False have "ms_pending s = take 7 (tcp_header m) @ drop 7 (ms_pending s)"
      using arg_cong [OF wire(1), of "take 7"] by (simp add: tcp_wire_def)
    note peek = peek_prefix [OF m(1) this, of 0]
    have "ms_expected s \<noteq> 0 \<Longrightarrow> s = s1" using inv peek by (auto simp: modbus_stream_inv_def s1_def)
    then have "modbus_stream_tcp s out = modbus_stream_finish s1 out"
      using peek m(2) by (auto simp: modbus_stream_tcp_def s1_def simp flip: ms_pending_def)
    also have "\<dots> = (MODBUS_PARSE_NEED_MORE, s1, out)"
      using len by (simp add: modbus_stream_finish_def s1_def)
    finally have "modbus_stream_tcp s out = (MODBUS_PARSE_NEED_MORE, s1, out)" .
    moreover have "ms_pending s1 = ms_pending s" by (simp add: s1_def ms_pending_def)
    moreover from this have "modbus_stream_inv s1"
      using inv peek m(2) tr unfolding modbus_stream_inv_def by (simp add: s1_def)
    ultimately show ?thesis by (simp add: s1_def)
  qed
qed

section \<open>Reassembly\<close>

definition tcp_scan :: "u8 list \<Rightarrow> modbus_message scan" where
  "tcp_scan p =
     (case modbus_tcp_parse (Some p) (Some blank_tcp) of
        (MODBUS_PARSE_OK, Some a) \<Rightarrow> Complete (adu_message p (Modbus_Tcp a)) (mt_consumed a)
      | (MODBUS_PARSE_NEED_MORE, _) \<Rightarrow> Incomplete
      | _ \<Rightarrow> Broken)"

text \<open>One call of the stream parser as its caller sees it: the ADU comes without the bytes
  behind its data pointer.\<close>

definition modbus_feed :: "modbus_stream \<Rightarrow> u8 list \<Rightarrow> modbus_adu outcome \<times> modbus_stream" where
  "modbus_feed s d =
     (case modbus_stream_feed (Some s) (Some d) (length d) (Some (Modbus_Tcp blank_tcp)) of
        (MODBUS_PARSE_OK, Some s', Some a) \<Rightarrow> (Emit a, s')
      | (MODBUS_PARSE_NEED_MORE, Some s', _) \<Rightarrow> (More, s')
      | (_, Some s', _) \<Rightarrow> (Fail, s')
      | (_, None, _) \<Rightarrow> (Fail, s))"

definition tcp_ready :: "modbus_stream \<Rightarrow> bool" where
  "tcp_ready s \<longleftrightarrow> modbus_stream_inv s \<and> ms_transport s = MODBUS_TRANSPORT_TCP"

lemma tcp_message_eq: "adu_message (tcp_wire m @ r) (Modbus_Tcp (tcp_adu m)) = m"
  using adu_of_message(3) [of MODBUS_TRANSPORT_TCP m r]
  by (simp add: adu_message_def adu_of_def adu_wire_def) (simp add: tcp_adu_def)

interpretation modbus_reassembler: reassembler tcp_scan tcp_wire modbus_sendable
  "\<lambda>m. Modbus_Tcp (tcp_adu m)" modbus_feed ms_pending ms_buffer_size tcp_ready
proof unfold_locales
  fix m rest
  assume "modbus_sendable m"
  then show "tcp_scan (tcp_wire m @ rest) = Complete m (length (tcp_wire m))"
    by (simp add: tcp_scan_def tcp_parse_wire tcp_message_eq) (simp add: tcp_adu_def)
next
  fix m p q
  assume "modbus_sendable m" "tcp_wire m = p @ q" "q \<noteq> []"
  then show "tcp_scan p = Incomplete" by (simp add: tcp_scan_def tcp_parse_prefix)
next
  fix m
  show "tcp_wire m \<noteq> []" by (simp add: tcp_wire_def tcp_header_def)
next
  fix s d m r
  assume a: "tcp_ready s" "length (ms_pending s) + length d \<le> ms_buffer_size s" "modbus_sendable m"
    "ms_pending s @ d = tcp_wire m @ r"
  have s: "modbus_stream_inv s" "ms_transport s = MODBUS_TRANSPORT_TCP" using a(1) by (simp_all add: tcp_ready_def)
  have room: "ms_buffered s + length d \<le> ms_buffer_size s" using a(2) s(1) by simp
  note app = ms_append [OF s(1) room]
  from tcp_stream_complete [OF app(1) _ a(3), of r "Some (Modbus_Tcp blank_tcp)"] app a(4) s(2)
  show "\<exists>s'. modbus_feed s d = (Emit (Modbus_Tcp (tcp_adu m)), s') \<and> tcp_ready s' \<and> ms_pending s' = r \<and>
      ms_buffer_size s' = ms_buffer_size s"
    by (auto simp: modbus_feed_def modbus_feed_append [OF s(1) room] tcp_ready_def)
next
  fix s d m q
  assume a: "tcp_ready s" "modbus_sendable m" "tcp_wire m = (ms_pending s @ d) @ q" "q \<noteq> []"
    "length (tcp_wire m) \<le> ms_buffer_size s"
  have s: "modbus_stream_inv s" "ms_transport s = MODBUS_TRANSPORT_TCP" using a(1) by (simp_all add: tcp_ready_def)
  have room: "ms_buffered s + length d \<le> ms_buffer_size s"
    using arg_cong [OF a(3), of length] a(5) s(1) by simp
  note app = ms_append [OF s(1) room]
  from tcp_stream_partial [OF app(1) _ a(4,2), of "Some (Modbus_Tcp blank_tcp)"] app a(3,5) s(2)
  show "\<exists>s'. modbus_feed s d = (More, s') \<and> tcp_ready s' \<and> ms_pending s' = ms_pending s @ d \<and>
      ms_buffer_size s' = ms_buffer_size s"
    by (auto simp: modbus_feed_def modbus_feed_append [OF s(1) room] tcp_ready_def)
next
  fix s
  assume a: "tcp_ready s" "ms_pending s = []"
  have s: "modbus_stream_inv s" "ms_transport s = MODBUS_TRANSPORT_TCP" using a(1) by (simp_all add: tcp_ready_def)
  have room: "ms_buffered s + length ([] :: u8 list) \<le> ms_buffer_size s" using s(1) by (simp add: modbus_stream_inv_def)
  have same: "ms_append s [] = s" by (simp add: ms_append_def)
  have peek: "modbus_tcp_peek_size (Some []) (Some 0) = (MODBUS_PARSE_NEED_MORE, Some 0)"
    by (simp add: modbus_tcp_peek_size_def modbus_sizes)
  have "ms_expected s = 0" using s(1) peek a(2) by (auto simp: modbus_stream_inv_def)
  then have "modbus_stream_tcp s out = (MODBUS_PARSE_NEED_MORE, s, out)" for out
    using peek a(2) by (simp add: modbus_stream_tcp_def flip: ms_pending_def)
  then show "\<exists>s'. modbus_feed s [] = (More, s') \<and> tcp_ready s' \<and> ms_pending s' = [] \<and>
      ms_buffer_size s' = ms_buffer_size s"
    using a s modbus_feed_append [OF s(1) room, where x = "Modbus_Tcp blank_tcp"] by (simp add: modbus_feed_def same)
qed

text \<open>RTU: the bytes between two frame boundaries are collected and parsed as a whole.\<close>

lemma rtu_stream_collects:
  assumes "modbus_stream_inv s" "ms_transport s = MODBUS_TRANSPORT_RTU"
    and "\<forall>c \<in> set chunks. c \<noteq> []" "ms_buffered s + length (concat chunks) \<le> ms_buffer_size s"
  shows "\<exists>s'. pump_all modbus_feed s chunks [] s' \<and> modbus_stream_inv s' \<and> ms_transport s' = MODBUS_TRANSPORT_RTU \<and>
    ms_pending s' = ms_pending s @ concat chunks \<and> ms_buffer_size s' = ms_buffer_size s"
  using assms
proof (induction chunks arbitrary: s)
  case Nil
  then show ?case by (auto intro: pump_all_Nil)
next
  case (Cons c chunks)
  have room: "ms_buffered s + length c \<le> ms_buffer_size s" using Cons.prems(4) by simp
  note app = ms_append [OF Cons.prems(1) room]
  have "modbus_feed s c = (More, ms_append s c)"
    using Cons.prems(2,3) by (simp add: modbus_feed_def modbus_feed_append [OF Cons.prems(1) room] modbus_stream_rtu_def)
  moreover have "ms_buffered (ms_append s c) = ms_buffered s + length c" by (simp add: ms_append_def)
  with Cons.IH [of "ms_append s c"] Cons.prems app obtain s' where
    "pump_all modbus_feed (ms_append s c) chunks [] s'" "modbus_stream_inv s'" "ms_transport s' = MODBUS_TRANSPORT_RTU"
    "ms_pending s' = ms_pending s @ c @ concat chunks" "ms_buffer_size s' = ms_buffer_size s"
    by auto
  ultimately show ?case
    using pump_all_Cons [of modbus_feed s c "[]" "ms_append s c" chunks "[]" s'] by (auto intro: pump_more)
qed

lemma rtu_stream_flush:
  assumes "modbus_stream_inv s" "ms_transport s = MODBUS_TRANSPORT_RTU" "ms_pending s \<noteq> []"
  shows "modbus_stream_feed (Some s) NULL 0 (Some x) =
    (case modbus_read MODBUS_TRANSPORT_RTU (Some (ms_pending s)) (Some x) of
       (MODBUS_PARSE_OK, a) \<Rightarrow> (MODBUS_PARSE_OK, Some (s\<lparr>ms_buffered := 0, ms_expected := 0\<rparr>), a)
     | (result, a) \<Rightarrow> (result, Some s, a))"
proof -
  have "ms_buffered s \<noteq> 0" using assms(3) by (auto simp: ms_pending_def)
  moreover have "ms_buffered s \<le> SIZE_MAX" "ms_buffered s \<le> ms_buffer_size s" using assms(1) by (simp_all add: modbus_stream_inv_def)
  ultimately show ?thesis
    using assms(2)
    by (auto simp: modbus_stream_feed_def Let_def modbus_stream_rtu_def modbus_read_def modbus_rtu_read_def
        simp flip: ms_pending_def split: prod.splits ModbusParseResult.splits)
qed

lemma modbus_create_inv:
  assumes "modbus_stream_create uninit tr requested e = (Some s, e1)" "requested \<le> SIZE_MAX"
  shows "modbus_stream_inv s" "ms_transport s = tr" "ms_pending s = []"
    "ms_buffer_size s = (if requested = 0 then 260 else requested)"
  using assms
  by (auto simp: modbus_stream_create_def Let_def modbus_stream_inv_def ms_pending_def modbus_sizes SIZE_MAX_def
      split: prod.splits option.splits if_splits)

section \<open>Properties\<close>

text \<open>C17: Writing a Modbus ADU and reading it back gives the same ADU: when \<open>modbus_write\<close> accepts an
  ADU of either transport whose data lies inside its memory, the bytes it wrote are read back
  with the same addressing and function code, and with exactly the data, and the buffer behind
  them is untouched.\<close>

theorem modbus_write_read:
  assumes "adu_in_range mem a" and "modbus_write (Some a) mem (Some buf) = (n, Some buf')" and "0 < n"
  shows "\<exists>a'. modbus_read (adu_transport a) (Some (take n buf')) (Some x) = (MODBUS_PARSE_OK, Some a') \<and>
     adu_envelope a' = adu_envelope a \<and> pdu_bytes buf' (adu_pdu a') = pdu_bytes mem (adu_pdu a) \<and>
     adu_consumed a' = n \<and> length buf' = length buf \<and> drop n buf' = drop n buf"
proof -
  let ?m = "adu_message mem a" and ?tr = "adu_transport a"
  have "fst (modbus_write (Some a) mem (Some buf)) = n" using assms(2) by simp
  from write_wire [OF assms(1) this assms(3)] assms(2) have
    w: "modbus_sendable ?m" "n = length (adu_wire ?tr ?m)" "n \<le> length buf" "buf' = adu_wire ?tr ?m @ drop n buf"
    by (simp_all add: put_bytes_def)
  have "adu_envelope (adu_of ?tr ?m) = adu_envelope a"
    by (cases a) (simp_all add: adu_of_def tcp_adu_def rtu_adu_def adu_message_def)
  moreover have "pdu_bytes buf' (adu_pdu (adu_of ?tr ?m)) = pdu_bytes mem (adu_pdu a)"
    by (simp add: w(4)) (simp add: adu_message_def)
  ultimately show ?thesis using read_wire [OF w(1), of ?tr x] w(2,3) by (simp add: w(4))
qed

text \<open>C31: The Modbus readers accept nothing but what the writers produce: writing an accepted ADU
  reproduces, byte for byte, the bytes it was read from.\<close>

theorem modbus_read_write:
  assumes "modbus_read tr (Some bs) (Some x) = (MODBUS_PARSE_OK, Some a)" and "adu_consumed a \<le> length buf"
  shows "adu_transport a = tr \<and> adu_consumed a \<le> length bs \<and>
    modbus_write (Some a) bs (Some buf) = (adu_consumed a, Some (put_bytes buf 0 (take (adu_consumed a) bs)))"
proof -
  from read_sound [OF assms(1)] obtain m r where
    m: "modbus_sendable m" "bs = adu_wire tr m @ r" "a = adu_of tr m" by blast
  have data: "modbus_sendable (adu_message bs a)" "adu_wire tr (adu_message bs a) = adu_wire tr m" "adu_in_range bs a"
    using m(1) by (simp_all add: m(2,3)) (simp add: adu_message_def modbus_sendable_def)
  have "0 < fst (modbus_write (Some a) bs (Some buf))"
  proof (rule write_room [OF data(3) _ data(1)])
    show "0 < pd_data_size (adu_pdu a) \<Longrightarrow> pd_data (adu_pdu a) \<noteq> NULL"
      by (cases tr) (auto simp: m(3) adu_of_def tcp_adu_def rtu_adu_def)
    show "length (adu_wire (adu_transport a) (adu_message bs a)) \<le> length buf"
      using assms(2) data(2) by (simp add: m(3))
    show "case a of Modbus_Tcp t \<Rightarrow> mt_protocol_id t = 0 | _ \<Rightarrow> True"
      by (cases tr) (simp_all add: m(3) adu_of_def tcp_adu_def)
  qed
  from write_wire(2,4) [OF data(3) refl this] data(2) show ?thesis
    by (simp add: m(2,3))
qed

text \<open>C32: The RTU checksum catches every burst of up to sixteen bits, wherever it hits: a frame that
  differs from an accepted one only inside two neighbouring bytes, be they address, function,
  data or the checksum itself, is refused with a CRC mismatch.\<close>

theorem modbus_rtu_burst_refused:
  assumes "modbus_rtu_parse (Some (pre @ v @ post)) (Some x) = (MODBUS_PARSE_OK, a)"
    and "length w = length v" and "length v \<le> 2" and "w \<noteq> v"
  shows "modbus_rtu_parse (Some (pre @ w @ post)) (Some x) = (MODBUS_PARSE_CRC_MISMATCH, Some x)"
proof -
  have ok: "crc16_loop (pre @ v @ post) 0xFFFF = 0" "4 \<le> length (pre @ v @ post)" "length (pre @ v @ post) \<le> 256"
    using assms(1) by (auto simp: rtu_parse_cases split: if_splits)
  have "crc16_loop (pre @ w @ post) 0xFFFF \<noteq> 0"
    using crc16.burst [of w v pre post "0xFFFF"] assms(2-4) ok(1) by (auto simp: crc16_loop_fold)
  with ok(2,3) assms(2) show ?thesis by (simp add: rtu_parse_cases)
qed

text \<open>C16: A fresh Modbus TCP stream finds every frame in any chunking of the traffic: pumping the
  chunks through it emits exactly one ADU per frame sent, in order, with its transaction, unit,
  function code and data size, and leaves nothing buffered. A frame and a chunk together must
  fit the buffer.\<close>

theorem modbus_stream_framing:
  assumes "modbus_stream_create uninit MODBUS_TRANSPORT_TCP requested e = (Some s, e1)" and "requested \<le> SIZE_MAX"
    and "\<forall>m \<in> set msgs. length (mm_data m) \<le> 252"
    and "\<forall>m \<in> set msgs. \<forall>c \<in> set chunks. length (tcp_wire m) + length c \<le> ms_buffer_size s"
    and "concat chunks = concat (map tcp_wire msgs)"
  shows "\<exists>s'. pump_all modbus_feed s chunks (map (\<lambda>m. Modbus_Tcp (tcp_adu m)) msgs) s' \<and> ms_pending s' = [] \<and>
    (\<forall>as t. pump_all modbus_feed s chunks as t \<longrightarrow> as = map (\<lambda>m. Modbus_Tcp (tcp_adu m)) msgs \<and> t = s')"
proof -
  note s = modbus_create_inv [OF assms(1,2)]
  have "\<exists>s'. pump_all modbus_feed s chunks (map (\<lambda>m. Modbus_Tcp (tcp_adu m)) msgs) s' \<and> tcp_ready s' \<and>
      ms_pending s' = [] \<and> ms_buffer_size s' = ms_buffer_size s"
  proof (rule modbus_reassembler.reassembly)
    show "tcp_ready s" using s by (simp add: tcp_ready_def)
    show "\<forall>m \<in> set msgs. modbus_sendable m" using assms(3) by (simp add: modbus_sendable_def)
  qed (use assms(4,5) s(3) in simp_all)
  then show ?thesis using pump_all_deterministic by metis
qed

text \<open>C33: What the caller of the TCP stream reads through the data pointer of the ADU it has just
  been given: the parser moves the bytes that follow the frame to the front of the buffer before
  it returns, so the first \<open>length r - 8\<close> bytes of the data have been replaced by traffic of the
  next frame. The data is intact when at most eight bytes follow the frame.\<close>

theorem modbus_stream_view:
  assumes "modbus_stream_inv s" and "ms_transport s = MODBUS_TRANSPORT_TCP"
    and "length (ms_pending s) + length d \<le> ms_buffer_size s"
    and "ms_pending s @ d = tcp_wire m @ r" and "length (mm_data m) \<le> 252"
  shows "\<exists>s' a. modbus_stream_feed (Some s) (Some d) (length d) (Some x) = (MODBUS_PARSE_OK, Some s', Some a) \<and>
    pdu_bytes (ms_buffer s') (adu_pdu a) =
      take (length (mm_data m)) (drop 8 r) @ drop (length r - 8) (mm_data m) \<and>
    (length r \<le> 8 \<longrightarrow> pdu_bytes (ms_buffer s') (adu_pdu a) = mm_data m) \<and>
    modbus_stream_inv s' \<and> ms_pending s' = r"
proof -
  have room: "ms_buffered s + length d \<le> ms_buffer_size s" using assms(1,3) by simp
  note app = ms_append [OF assms(1) room]
  have ok: "modbus_sendable m" using assms(5) by (simp add: modbus_sendable_def)
  from tcp_stream_complete [OF app(1) _ ok, of r "Some x"] app(2) assms(4) obtain s' where
    s': "modbus_stream_tcp (ms_append s d) (Some x) = (MODBUS_PARSE_OK, s', Some (Modbus_Tcp (tcp_adu m)))"
      "modbus_stream_inv s'" "ms_pending s' = r"
      "take (8 + length (mm_data m)) (ms_buffer s') = take (8 + length (mm_data m)) (r @ drop (length r) (tcp_wire m))"
    by auto
  have "take (length (mm_data m)) (drop 8 (ms_buffer s')) = drop 8 (take (8 + length (mm_data m)) (r @ drop (length r) (tcp_wire m)))"
    unfolding s'(4) [symmetric] by (simp add: drop_take)
  also have "\<dots> = take (length (mm_data m)) (drop 8 r) @ drop (length r - 8) (mm_data m)"
    by (simp add: tcp_wire_def drop_take drop_append take_append)
  finally have view: "pdu_bytes (ms_buffer s') (mt_pdu (tcp_adu m)) =
      take (length (mm_data m)) (drop 8 r) @ drop (length r - 8) (mm_data m)"
    by (auto simp: pdu_bytes_def tcp_adu_def)
  then show ?thesis
    using s' assms(2) by (auto simp: modbus_feed_append [OF assms(1) room] intro!: exI [of _ s'])
qed

text \<open>An RTU stream collects the bytes between two frame boundaries and parses them as one frame:
  however they are chunked, every call with bytes asks for more, and the call at the boundary
  answers exactly what \<open>modbus_read\<close> answers on all the bytes. After an accepted frame the
  stream is empty again and the data still readable; after a refused one the bytes stay.\<close>

theorem modbus_rtu_stream:
  assumes "modbus_stream_create uninit MODBUS_TRANSPORT_RTU requested e = (Some s, e1)" and "requested \<le> SIZE_MAX"
    and "\<forall>c \<in> set chunks. c \<noteq> []" and "chunks \<noteq> []" and "length (concat chunks) \<le> ms_buffer_size s"
  shows "\<exists>s1 s2 result a. pump_all modbus_feed s chunks [] s1 \<and>
    modbus_stream_feed (Some s1) NULL 0 (Some x) = (result, Some s2, Some a) \<and>
    modbus_read MODBUS_TRANSPORT_RTU (Some (concat chunks)) (Some x) = (result, Some a) \<and>
    (if result = MODBUS_PARSE_OK
     then ms_pending s2 = [] \<and> pdu_bytes (ms_buffer s2) (adu_pdu a) = pdu_bytes (concat chunks) (adu_pdu a)
     else ms_pending s2 = concat chunks)"
proof -
  note s = modbus_create_inv [OF assms(1,2)]
  have "ms_buffered s = 0" using length_ms_pending [OF s(1)] s(3) by simp
  with rtu_stream_collects [OF s(1,2) assms(3)] assms(5) s(3) obtain s1 where
    s1: "pump_all modbus_feed s chunks [] s1" "modbus_stream_inv s1" "ms_transport s1 = MODBUS_TRANSPORT_RTU"
      "ms_pending s1 = concat chunks" by auto
  have ne: "ms_pending s1 \<noteq> []" using assms(3,4) by (cases chunks) (auto simp: s1(4))
  obtain result a where rd: "modbus_read MODBUS_TRANSPORT_RTU (Some (concat chunks)) (Some x) = (result, Some a)"
    by (cases "modbus_rtu_parse (Some (concat chunks)) (Some blank_rtu)")
      (auto simp: modbus_read_def modbus_rtu_read_def rtu_parse_cases split: if_splits ModbusParseResult.splits)
  show ?thesis
  proof (cases "result = MODBUS_PARSE_OK")
    case True
    from read_sound [OF rd [unfolded True]] obtain m r where
      m: "concat chunks = adu_wire MODBUS_TRANSPORT_RTU m @ r" "a = adu_of MODBUS_TRANSPORT_RTU m" by blast
    have "ms_buffer s1 = concat chunks @ drop (ms_buffered s1) (ms_buffer s1)"
      using s1(4) unfolding ms_pending_def by (metis append_take_drop_id)
    then have "pdu_bytes (ms_buffer s1) (adu_pdu a) = mm_data m" "pdu_bytes (concat chunks) (adu_pdu a) = mm_data m"
      by (metis adu_of_message(3) append_assoc m) (metis adu_of_message(3) m)
    then show ?thesis
      using rtu_stream_flush [OF s1(2,3) ne, of x] rd s1(1,4) True by (auto simp: ms_pending_def)
  next
    case False
    with rtu_stream_flush [OF s1(2,3) ne, of x] rd s1(1,4) show ?thesis
      by (auto split: ModbusParseResult.splits)
  qed
qed

section \<open>Witnesses\<close>

definition sample_request :: modbus_message where
  "sample_request = \<lparr>mm_id = 1, mm_unit = 17, mm_function = 3, mm_data = [0, 107, 3]\<rparr>"

definition sample_reply :: modbus_message where
  "sample_reply = \<lparr>mm_id = 2, mm_unit = 17, mm_function = 3, mm_data = [9, 8, 7]\<rparr>"

definition plenty :: env where
  "plenty = \<lparr>malloc_oracle = (\<lambda>_. Some 4096), malloc_calls = 0, live_blocks = 0\<rparr>"

lemma sample_stream:
  "\<exists>s e1. modbus_stream_create (\<lambda>_. 0) tr 64 plenty = (Some s, e1) \<and> ms_buffer_size s = 64"
  by (simp add: modbus_stream_create_def malloc_def plenty_def)

lemma sample_sendable: "modbus_sendable sample_request" "length (tcp_wire sample_request) = 11"
  by (simp_all add: modbus_sendable_def sample_request_def)

theorem modbus_write_read_witness:
  "\<exists>buf' a'. modbus_write (Some (Modbus_Tcp (tcp_adu sample_request))) (tcp_wire sample_request) (Some (replicate 12 0)) =
       (11, Some buf') \<and>
     modbus_read MODBUS_TRANSPORT_TCP (Some (take 11 buf')) (Some (Modbus_Rtu blank_rtu)) = (MODBUS_PARSE_OK, Some a') \<and>
     pdu_bytes buf' (adu_pdu a') = [0, 107, 3]"
proof -
  let ?a = "Modbus_Tcp (tcp_adu sample_request)" and ?mem = "tcp_wire sample_request" and ?buf = "replicate 12 0 :: u8 list"
  have r: "adu_in_range ?mem ?a" "pdu_bytes ?mem (adu_pdu ?a) = [0, 107, 3]"
    using adu_of_message(1,3) [of MODBUS_TRANSPORT_TCP sample_request "[]"]
    by (simp_all add: adu_of_def adu_wire_def sample_request_def)
  obtain buf' where w: "modbus_write (Some ?a) ?mem (Some ?buf) = (11, Some buf')"
    by (simp add: modbus_write_def modbus_tcp_write_def modbus_tcp_build_def modbus_pdu_size_valid_def modbus_sizes
        tcp_adu_def sample_request_def Let_def)
  from modbus_write_read [OF r(1) w, of "Modbus_Rtu blank_rtu"] w r(2) show ?thesis by auto
qed

theorem modbus_read_write_witness:
  "\<exists>a. modbus_read MODBUS_TRANSPORT_RTU (Some (rtu_wire sample_request)) (Some (Modbus_Rtu blank_rtu)) = (MODBUS_PARSE_OK, Some a) \<and>
     modbus_write (Some a) (rtu_wire sample_request) (Some (replicate 9 0)) =
       (7, Some (put_bytes (replicate 9 0) 0 (take 7 (rtu_wire sample_request))))"
proof -
  have rd: "modbus_read MODBUS_TRANSPORT_RTU (Some (rtu_wire sample_request)) (Some (Modbus_Rtu blank_rtu)) =
      (MODBUS_PARSE_OK, Some (Modbus_Rtu (rtu_adu sample_request)))"
    using read_wire [OF sample_sendable(1), of MODBUS_TRANSPORT_RTU] by (simp add: adu_wire_def adu_of_def)
  have "adu_consumed (Modbus_Rtu (rtu_adu sample_request)) = 7" by (simp add: rtu_adu_def sample_request_def)
  with modbus_read_write [OF rd, of "replicate 9 0"] rd show ?thesis by simp
qed

theorem modbus_rtu_burst_refused_witness:
  "modbus_rtu_parse (Some ([17, 3] @ [0, 106] @ 3 # le16_bytes (crc16_loop [17, 3, 0, 107, 3] 0xFFFF))) (Some blank_rtu) =
     (MODBUS_PARSE_CRC_MISMATCH, Some blank_rtu)"
proof -
  let ?post = "3 # le16_bytes (crc16_loop [17, 3, 0, 107, 3] 0xFFFF) :: u8 list"
  have "rtu_wire sample_request = [17, 3] @ [0, 107] @ ?post"
    by (simp add: rtu_wire_def sample_request_def Let_def)
  then have "modbus_rtu_parse (Some ([17, 3] @ [0, 107] @ ?post)) (Some blank_rtu) =
      (MODBUS_PARSE_OK, Some (rtu_adu sample_request))"
    using rtu_parse_wire [OF sample_sendable(1), of blank_rtu] by simp
  from modbus_rtu_burst_refused [OF this, of "[0, 106]"] show ?thesis by simp
qed

theorem modbus_stream_framing_witness:
  "\<exists>s e1 s'. modbus_stream_create (\<lambda>_. 0) MODBUS_TRANSPORT_TCP 64 plenty = (Some s, e1) \<and>
     pump_all modbus_feed s [take 5 (tcp_wire sample_request), drop 5 (tcp_wire sample_request) @ tcp_wire sample_reply]
       [Modbus_Tcp (tcp_adu sample_request), Modbus_Tcp (tcp_adu sample_reply)] s' \<and> ms_pending s' = []"
proof -
  let ?w = "tcp_wire sample_request" and ?v = "tcp_wire sample_reply"
  obtain s e1 where c: "modbus_stream_create (\<lambda>_. 0) MODBUS_TRANSPORT_TCP 64 plenty = (Some s, e1)" "ms_buffer_size s = 64"
    using sample_stream by blast
  have join: "take 5 ?w @ drop 5 ?w @ ys = ?w @ ys" for ys by (metis append_assoc append_take_drop_id)
  have len: "length (mm_data sample_request) = 3" "length (mm_data sample_reply) = 3"
    by (simp_all add: sample_request_def sample_reply_def)
  have "\<exists>s'. pump_all modbus_feed s [take 5 ?w, drop 5 ?w @ ?v]
      (map (\<lambda>m. Modbus_Tcp (tcp_adu m)) [sample_request, sample_reply]) s' \<and> ms_pending s' = []"
    using modbus_stream_framing [OF c(1), of "[sample_request, sample_reply]" "[take 5 ?w, drop 5 ?w @ ?v]"]
    by (simp add: c(2) len join SIZE_MAX_def) blast
  with c(1) show ?thesis by auto
qed

text \<open>Two pipelined frames: the data of the first one is read as the data of the second.\<close>

theorem modbus_stream_view_witness:
  "\<exists>s e1 s' a. modbus_stream_create (\<lambda>_. 0) MODBUS_TRANSPORT_TCP 64 plenty = (Some s, e1) \<and>
     modbus_stream_feed (Some s) (Some (tcp_wire sample_request @ tcp_wire sample_reply)) 22 (Some (Modbus_Tcp blank_tcp)) =
       (MODBUS_PARSE_OK, Some s', Some a) \<and>
     pdu_bytes (ms_buffer s') (adu_pdu a) = [9, 8, 7] \<and> mm_data sample_request = [0, 107, 3]"
proof -
  let ?w = "tcp_wire sample_request" and ?v = "tcp_wire sample_reply"
  obtain s e1 where c: "modbus_stream_create (\<lambda>_. 0) MODBUS_TRANSPORT_TCP 64 plenty = (Some s, e1)" "ms_buffer_size s = 64"
    using sample_stream by blast
  have s: "modbus_stream_inv s" "ms_transport s = MODBUS_TRANSPORT_TCP" "ms_pending s = []"
    using modbus_create_inv [OF c(1)] by (simp_all add: SIZE_MAX_def)
  have len: "length (?w @ ?v) = 22" "length ?v - 8 = 3" by (simp_all add: sample_request_def sample_reply_def)
  have data: "mm_data sample_request = [0, 107, 3]" "drop 8 ?v = [9, 8, 7]"
    by (simp_all add: sample_request_def sample_reply_def tcp_wire_def)
  have "length (ms_pending s) + length (?w @ ?v) \<le> ms_buffer_size s" "ms_pending s @ ?w @ ?v = ?w @ ?v"
    "length (mm_data sample_request) \<le> 252"
    using s(3) c(2) len(1) data(1) by simp_all
  from modbus_stream_view [OF s(1,2) this, of "Modbus_Tcp blank_tcp"] data len obtain s' a where
    "modbus_stream_feed (Some s) (Some (?w @ ?v)) 22 (Some (Modbus_Tcp blank_tcp)) = (MODBUS_PARSE_OK, Some s', Some a)"
    "pdu_bytes (ms_buffer s') (adu_pdu a) = [9, 8, 7]"
    by auto
  with c(1) data(1) show ?thesis by blast
qed

theorem modbus_rtu_stream_witness:
  "\<exists>s e1 s1 s2 a. modbus_stream_create (\<lambda>_. 0) MODBUS_TRANSPORT_RTU 64 plenty = (Some s, e1) \<and>
     pump_all modbus_feed s [take 3 (rtu_wire sample_request), drop 3 (rtu_wire sample_request)] [] s1 \<and>
     modbus_stream_feed (Some s1) NULL 0 (Some (Modbus_Rtu blank_rtu)) = (MODBUS_PARSE_OK, Some s2, Some a) \<and>
     pdu_bytes (ms_buffer s2) (adu_pdu a) = [0, 107, 3]"
proof -
  let ?w = "rtu_wire sample_request"
  obtain s e1 where c: "modbus_stream_create (\<lambda>_. 0) MODBUS_TRANSPORT_RTU 64 plenty = (Some s, e1)" "ms_buffer_size s = 64"
    using sample_stream by blast
  have rd: "modbus_read MODBUS_TRANSPORT_RTU (Some ?w) (Some (Modbus_Rtu blank_rtu)) =
      (MODBUS_PARSE_OK, Some (Modbus_Rtu (rtu_adu sample_request)))"
    "pdu_bytes ?w (mr_pdu (rtu_adu sample_request)) = [0, 107, 3]"
    using read_wire [OF sample_sendable(1), of MODBUS_TRANSPORT_RTU] adu_of_message(3) [of MODBUS_TRANSPORT_RTU sample_request "[]"]
    by (simp_all add: adu_wire_def adu_of_def sample_request_def)
  have len: "length ?w = 7" by (simp add: sample_request_def)
  then have ne: "take 3 ?w \<noteq> []" "drop 3 ?w \<noteq> []" by (auto simp del: length_rtu_wire)
  from modbus_rtu_stream [OF c(1), of "[take 3 ?w, drop 3 ?w]" "Modbus_Rtu blank_rtu"] ne rd len c
  show ?thesis by (auto simp: SIZE_MAX_def)
qed

end
