(* ===== verification/Timed_Queue.thy ===== *)
theory Timed_Queue
  imports Main
begin

text \<open>
  The contract of the timer queues (\<^verbatim>\<open>src/concurrency/src/deadline_queue.c\<close> and
  \<^verbatim>\<open>src/cflow/src/timer_queue.c\<close>): the pending events in order of arrival, and a call that takes
  the earliest due one, the first to arrive among equals. What is proved here once is what
  calling it until nothing is due delivers.
\<close>

text \<open>\<open>e\<close> is the event of \<open>ps\<close> a timer queue must hand out at \<open>now\<close>, and \<open>ps'\<close> is what stays.\<close>

definition first_due :: "('e \<Rightarrow> 'k::linorder) \<Rightarrow> 'k \<Rightarrow> 'e list \<Rightarrow> 'e \<Rightarrow> 'e list \<Rightarrow> bool" where
  "first_due due_at now ps e ps' \<longleftrightarrow>
     (\<exists>xs ys. ps = xs @ e # ys \<and> ps' = xs @ ys \<and> due_at e \<le> now \<and>
        (\<forall>x \<in> set xs. due_at e < due_at x) \<and> (\<forall>y \<in> set ys. due_at e \<le> due_at y))"

lemma sort_key_first:
  "\<forall>x \<in> set xs. f e < f x \<Longrightarrow> \<forall>y \<in> set ys. f e \<le> f y \<Longrightarrow>
     sort_key f (xs @ e # ys) = e # sort_key f (xs @ ys)"
proof (induction xs)
  case Nil
  then show ?case by (simp add: insort_is_Cons)
next
  case (Cons x xs)
  then show ?case by (auto simp: not_le)
qed

lemma first_due_sorted:
  assumes "first_due f now ps e ps'"
  shows "sort_key f (filter (\<lambda>x. f x \<le> now) ps) = e # sort_key f (filter (\<lambda>x. f x \<le> now) ps')"
    "filter (\<lambda>x. \<not> f x \<le> now) ps' = filter (\<lambda>x. \<not> f x \<le> now) ps" "length ps = Suc (length ps')"
proof -
  from assms obtain xs ys where p: "ps = xs @ e # ys" "ps' = xs @ ys" "f e \<le> now"
    "\<forall>x \<in> set xs. f e < f x" "\<forall>y \<in> set ys. f e \<le> f y"
    by (auto simp: first_due_def)
  then show "sort_key f (filter (\<lambda>x. f x \<le> now) ps) = e # sort_key f (filter (\<lambda>x. f x \<le> now) ps')"
    using sort_key_first [of "filter (\<lambda>x. f x \<le> now) xs" f e "filter (\<lambda>x. f x \<le> now) ys"] by simp
  show "filter (\<lambda>x. \<not> f x \<le> now) ps' = filter (\<lambda>x. \<not> f x \<le> now) ps" "length ps = Suc (length ps')"
    using p by simp_all
qed

lemma first_due_unique: "first_due f now ps e ps' \<Longrightarrow> first_due f now ps e2 ps2 \<Longrightarrow> e2 = e"
  by (drule first_due_sorted(1))+ simp

text \<open>Calling \<open>take_at\<close> until it has nothing to give, at most \<open>n\<close> times.\<close>

fun drain_due :: "('q \<Rightarrow> 'k \<Rightarrow> 'e option \<times> 'q) \<Rightarrow> 'k \<Rightarrow> nat \<Rightarrow> 'q \<Rightarrow> 'e list \<times> 'q" where
  "drain_due take_at now 0 q = ([], q)"
| "drain_due take_at now (Suc n) q =
     (case take_at q now of
        (None, q1) \<Rightarrow> ([], q1)
      | (Some e, q1) \<Rightarrow> (case drain_due take_at now n q1 of (es, q2) \<Rightarrow> (e # es, q2)))"

locale timed_queue =
  fixes inv :: "'q \<Rightarrow> bool"
    and pending :: "'q \<Rightarrow> 'e list"
    and due_at :: "'e \<Rightarrow> 'k::linorder"
    and take_at :: "'q \<Rightarrow> 'k \<Rightarrow> 'e option \<times> 'q"
  assumes take_due: "inv q \<Longrightarrow> \<exists>e \<in> set (pending q). due_at e \<le> now \<Longrightarrow>
      \<exists>e q'. take_at q now = (Some e, q') \<and> inv q' \<and> first_due due_at now (pending q) e (pending q')"
    and take_none: "inv q \<Longrightarrow> \<forall>e \<in> set (pending q). \<not> due_at e \<le> now \<Longrightarrow> take_at q now = (None, q)"
begin

text \<open>Draining delivers exactly the due events, sorted by deadline and stably so, and keeps
  the others in order.\<close>

lemma drain_sorted:
  assumes "inv q" "length (pending q) < n"
  shows "\<exists>q'. drain_due take_at now n q = (sort_key due_at (filter (\<lambda>e. due_at e \<le> now) (pending q)), q') \<and>
    inv q' \<and> pending q' = filter (\<lambda>e. \<not> due_at e \<le> now) (pending q)"
  using assms
proof (induction n arbitrary: q)
  case (Suc n)
  show ?case
  proof (cases "\<exists>e \<in> set (pending q). due_at e \<le> now")
    case True
    from take_due [OF Suc.prems(1) True] obtain e q' where
      t: "take_at q now = (Some e, q')" "inv q'" "first_due due_at now (pending q) e (pending q')" by blast
    note fd = first_due_sorted [OF t(3)]
    from Suc.IH [OF t(2)] Suc.prems(2) fd(3) obtain q2 where
      "drain_due take_at now n q' = (sort_key due_at (filter (\<lambda>e. due_at e \<le> now) (pending q')), q2)"
      "inv q2" "pending q2 = filter (\<lambda>e. \<not> due_at e \<le> now) (pending q')" by auto
    then show ?thesis using t fd(1,2) by simp
  next
    case False
    then have none: "\<forall>e \<in> set (pending q). \<not> due_at e \<le> now" by blast
    then have "filter (\<lambda>e. due_at e \<le> now) (pending q) = []" "filter (\<lambda>e. \<not> due_at e \<le> now) (pending q) = pending q"
      by (simp_all add: filter_empty_conv filter_id_conv)
    with take_none [OF Suc.prems(1) none] Suc.prems(1) show ?thesis by simp
  qed
qed simp

end

end
