(* ===== verification/Deadline_Queue.thy ===== *)
theory Deadline_Queue
  imports Timed_Queue Binary_Heap
begin

text \<open>
  The deadline queue (\<^verbatim>\<open>src/concurrency/src/deadline_queue.c\<close>): a fixed set of slots, a
  binary heap of slot numbers ordered by (deadline, schedule order), a stack of free slots, and
  generation-checked identifiers. Slot numbers and heap indices are natural numbers: \<open>init\<close>
  refuses capacities above \<open>UINT32_MAX\<close>, so their 32-bit casts are exact. Deadlines, orders,
  identifiers and generations are words.
\<close>

section \<open>The code\<close>

datatype salts_error =
  SALTS_OK | SALTS_EAI_ADDRFAMILY | SALTS_EAI_AGAIN | SALTS_EAI_BADFLAGS | SALTS_EAI_FAIL
| SALTS_EAI_FAMILY | SALTS_EAI_MEMORY | SALTS_EAI_NODATA | SALTS_EAI_NONAME | SALTS_EAI_SERVICE
| SALTS_EAI_SOCKTYPE | SALTS_EAI_SYSTEM | SALTS_EAI_CANCELED | SALTS_EADDRINUSE
| SALTS_EADDRNOTAVAIL | SALTS_EAFNOSUPPORT | SALTS_EALREADY | SALTS_EBADF | SALTS_EBUSY
| SALTS_ECANCELED | SALTS_ECHARSET | SALTS_ECONNABORTED | SALTS_ECONNREFUSED | SALTS_ECONNRESET
| SALTS_EDESTADDRREQ | SALTS_EFAULT | SALTS_EFBIG | SALTS_EHOSTUNREACH | SALTS_EINTR
| SALTS_EINVAL | SALTS_EIO | SALTS_EISCONN | SALTS_EISDIR | SALTS_ELOOP | SALTS_EMFILE
| SALTS_EMSGSIZE | SALTS_ENAMETOOLONG | SALTS_ENETDOWN | SALTS_ENETUNREACH | SALTS_ENFILE
| SALTS_ENOBUFS | SALTS_ENODEV | SALTS_ENOENT | SALTS_ENOMEM | SALTS_ENONET | SALTS_ENOPROTOOPT
| SALTS_ENOSPC | SALTS_ENOSYS | SALTS_ENOTCONN | SALTS_ENOTDIR | SALTS_ENOTEMPTY
| SALTS_ENOTSOCK | SALTS_ENOTSUP | SALTS_EPERM | SALTS_EPIPE | SALTS_EPROTO
| SALTS_EPROTONOSUPPORT | SALTS_EPROTOTYPE | SALTS_ERANGE | SALTS_EROFS | SALTS_ESHUTDOWN
| SALTS_ESPIPE | SALTS_ESRCH | SALTS_ETIMEDOUT | SALTS_ETXTBSY | SALTS_EXDEV | SALTS_UNKNOWN
| SALTS_EOF

definition UINT32_MAX :: nat where "UINT32_MAX = 2 ^ 32 - 1"

definition SALTS_DEADLINE_INDEX_NONE :: nat where "SALTS_DEADLINE_INDEX_NONE = UINT32_MAX"

record salts_deadline_event =
  ev_id :: u64
  ev_deadline_ms :: u64
  ev_token :: u64

record salts_deadline_entry =
  de_event :: salts_deadline_event
  de_order :: u64
  de_heap_index :: nat
  de_generation :: u32
  de_active :: bool

record salts_deadline_queue_impl =
  dq_entries :: "salts_deadline_entry list"
  dq_heap :: "nat list"
  dq_free_slots :: "nat list"
  dq_size :: size_t
  dq_free_count :: size_t
  dq_capacity :: size_t
  dq_next_order :: u64

record salts_deadline_queue =
  dq_impl :: "salts_deadline_queue_impl ptr"

definition zero_event :: salts_deadline_event where
  "zero_event = \<lparr>ev_id = 0, ev_deadline_ms = 0, ev_token = 0\<rparr>"

definition salts_deadline_get :: "salts_deadline_queue ptr \<Rightarrow> salts_deadline_queue_impl ptr" where
  "salts_deadline_get queue = (case queue of None \<Rightarrow> NULL | Some q \<Rightarrow> dq_impl q)"

definition salts_deadline_make_id :: "nat \<Rightarrow> u32 \<Rightarrow> u64" where
  "salts_deadline_make_id slot generation = push_bit 32 (ucast generation) OR (of_nat slot + 1)"

definition salts_deadline_decode_id :: "u64 \<Rightarrow> (nat \<times> u32) ptr" where
  "salts_deadline_decode_id i =
     (let encoded_slot = (ucast i :: u32); generation = (ucast (drop_bit 32 i) :: u32) in
      if encoded_slot = 0 \<or> generation = 0 then NULL
      else Some (unat (encoded_slot - 1), generation))"

definition salts_deadline_before :: "salts_deadline_queue_impl \<Rightarrow> nat \<Rightarrow> nat \<Rightarrow> bool" where
  "salts_deadline_before impl left_slot right_slot =
     (let l = dq_entries impl ! left_slot; r = dq_entries impl ! right_slot in
      ev_deadline_ms (de_event l) < ev_deadline_ms (de_event r) \<or>
      (ev_deadline_ms (de_event l) = ev_deadline_ms (de_event r) \<and> de_order l < de_order r))"

text \<open>\<open>impl->entries[slot].heap_index = index\<close>\<close>

definition set_heap_index :: "nat \<Rightarrow> nat \<Rightarrow> salts_deadline_queue_impl \<Rightarrow> salts_deadline_queue_impl" where
  "set_heap_index slot index impl =
     impl\<lparr>dq_entries := (dq_entries impl)[slot := (dq_entries impl ! slot)\<lparr>de_heap_index := index\<rparr>]\<rparr>"

definition salts_deadline_swap ::
  "salts_deadline_queue_impl \<Rightarrow> nat \<Rightarrow> nat \<Rightarrow> salts_deadline_queue_impl" where
  "salts_deadline_swap impl l r =
     (let temporary = dq_heap impl ! l;
          impl1 = impl\<lparr>dq_heap := (dq_heap impl)[l := dq_heap impl ! r, r := temporary]\<rparr>;
          impl2 = set_heap_index (dq_heap impl1 ! l) l impl1
      in set_heap_index (dq_heap impl2 ! r) r impl2)"

function salts_deadline_sift_up ::
  "salts_deadline_queue_impl \<Rightarrow> nat \<Rightarrow> salts_deadline_queue_impl" where
  "salts_deadline_sift_up impl index =
     (if index \<noteq> 0 then
        let p = (index - 1) div 2 in
        if \<not> salts_deadline_before impl (dq_heap impl ! index) (dq_heap impl ! p) then impl
        else salts_deadline_sift_up (salts_deadline_swap impl index p) p
      else impl)"
  by auto
termination
  by (relation "measure snd") auto

definition salts_deadline_earliest :: "salts_deadline_queue_impl \<Rightarrow> nat \<Rightarrow> nat" where
  "salts_deadline_earliest impl index =
     (let l = index * 2 + 1; r = l + 1; earliest = index;
          earliest = (if l < dq_size impl \<and>
                         salts_deadline_before impl (dq_heap impl ! l) (dq_heap impl ! earliest)
                      then l else earliest)
      in (if r < dq_size impl \<and>
             salts_deadline_before impl (dq_heap impl ! r) (dq_heap impl ! earliest)
          then r else earliest))"

lemma swap_fields [simp]:
  "dq_size (salts_deadline_swap impl l r) = dq_size impl"
  "dq_free_slots (salts_deadline_swap impl l r) = dq_free_slots impl"
  "dq_free_count (salts_deadline_swap impl l r) = dq_free_count impl"
  "dq_capacity (salts_deadline_swap impl l r) = dq_capacity impl"
  "dq_next_order (salts_deadline_swap impl l r) = dq_next_order impl"
  "dq_heap (salts_deadline_swap impl l r) = swap_at (dq_heap impl) l r"
  by (simp_all add: salts_deadline_swap_def set_heap_index_def Let_def swap_at_def)

function salts_deadline_sift_down ::
  "salts_deadline_queue_impl \<Rightarrow> nat \<Rightarrow> salts_deadline_queue_impl" where
  "salts_deadline_sift_down impl index =
     (let earliest = salts_deadline_earliest impl index in
      if earliest = index then impl
      else salts_deadline_sift_down (salts_deadline_swap impl index earliest) earliest)"
  by auto
termination
proof (relation "measure (\<lambda>(impl, index). dq_size impl - index)")
  show "((salts_deadline_swap impl index b, b), impl, index) \<in> measure (\<lambda>(impl, index). dq_size impl - index)"
    if "b = salts_deadline_earliest impl index" "b \<noteq> index" for impl :: salts_deadline_queue_impl and index b
    using that by (auto simp: salts_deadline_earliest_def Let_def split: if_splits)
qed simp

declare salts_deadline_sift_up.simps [simp del] salts_deadline_sift_down.simps [simp del]

definition salts_deadline_release_slot ::
  "salts_deadline_queue_impl \<Rightarrow> nat \<Rightarrow> salts_deadline_queue_impl" where
  "salts_deadline_release_slot impl slot =
     (let entry = (dq_entries impl ! slot)\<lparr>de_event := zero_event, de_order := 0,
                     de_heap_index := SALTS_DEADLINE_INDEX_NONE, de_active := False\<rparr>
      in
      if unat (de_generation entry) = UINT32_MAX
      then impl\<lparr>dq_entries := (dq_entries impl)[slot := entry\<lparr>de_generation := 0\<rparr>]\<rparr>
      else impl\<lparr>dq_entries := (dq_entries impl)[slot := entry\<lparr>de_generation := de_generation entry + 1\<rparr>],
                dq_free_slots := (dq_free_slots impl)[dq_free_count impl := slot],
                dq_free_count := dq_free_count impl + 1\<rparr>)"

definition salts_deadline_remove ::
  "salts_deadline_queue_impl \<Rightarrow> nat \<Rightarrow> salts_deadline_event \<times> salts_deadline_queue_impl" where
  "salts_deadline_remove impl heap_index =
     (let removed_slot = dq_heap impl ! heap_index;
          out_event = de_event (dq_entries impl ! removed_slot);
          impl1 = impl\<lparr>dq_size := dq_size impl - 1\<rparr>;
          impl2 = (if heap_index \<noteq> dq_size impl1 then
                     let a = impl1\<lparr>dq_heap := (dq_heap impl1)[heap_index := dq_heap impl1 ! dq_size impl1]\<rparr>;
                         b = set_heap_index (dq_heap a ! heap_index) heap_index a
                     in if heap_index \<noteq> 0 \<and>
                           salts_deadline_before b (dq_heap b ! heap_index) (dq_heap b ! ((heap_index - 1) div 2))
                        then salts_deadline_sift_up b heap_index
                        else salts_deadline_sift_down b heap_index
                   else impl1);
          impl3 = impl2\<lparr>dq_heap := (dq_heap impl2)[dq_size impl2 := SALTS_DEADLINE_INDEX_NONE]\<rparr>
      in (out_event, salts_deadline_release_slot impl3 removed_slot))"

text \<open>Sizes on LP64. \<open>free\<close> of a null pointer does nothing.\<close>

definition sizeof_deadline_entry :: size_t where "sizeof_deadline_entry = 48"
definition sizeof_uint32 :: size_t where "sizeof_uint32 = 4"

definition free_ptr :: "'a ptr \<Rightarrow> env \<Rightarrow> env" where
  "free_ptr p e = (if p = NULL then e else free_block e)"

definition fresh_impl :: "size_t \<Rightarrow> salts_deadline_queue_impl" where
  "fresh_impl capacity =
     \<lparr>dq_entries = replicate capacity \<lparr>de_event = zero_event, de_order = 0,
        de_heap_index = SALTS_DEADLINE_INDEX_NONE, de_generation = 1, de_active = False\<rparr>,
      dq_heap = replicate capacity SALTS_DEADLINE_INDEX_NONE,
      dq_free_slots = map (\<lambda>index. capacity - index - 1) [0..<capacity],
      dq_size = 0, dq_free_count = capacity, dq_capacity = capacity, dq_next_order = 0\<rparr>"

definition salts_deadline_queue_init ::
  "salts_deadline_queue ptr \<Rightarrow> size_t \<Rightarrow> env \<Rightarrow> salts_error \<times> salts_deadline_queue ptr \<times> env" where
  "salts_deadline_queue_init queue capacity e =
     (if queue = NULL \<or> capacity = 0 then (SALTS_EINVAL, queue, e)
      else if dq_impl (the queue) \<noteq> NULL then (SALTS_EALREADY, queue, e)
      else if UINT32_MAX < capacity \<or> SIZE_MAX div sizeof_deadline_entry < capacity \<or>
              SIZE_MAX div sizeof_uint32 < capacity then (SALTS_ERANGE, queue, e)
      else
        case malloc e of
          (None, e1) \<Rightarrow> (SALTS_ENOMEM, queue, e1)
        | (Some _, e1) \<Rightarrow>
            let (entries, e2) = malloc e1; (heap, e3) = malloc e2; (free_slots, e4) = malloc e3 in
            if entries = NULL \<or> heap = NULL \<or> free_slots = NULL
            then (SALTS_ENOMEM, queue,
                  free_block (free_ptr entries (free_ptr heap (free_ptr free_slots e4))))
            else (SALTS_OK, Some ((the queue)\<lparr>dq_impl := Some (fresh_impl capacity)\<rparr>), e4))"

definition salts_deadline_queue_schedule ::
  "salts_deadline_queue ptr \<Rightarrow> u64 \<Rightarrow> u64 \<Rightarrow> u64 ptr \<Rightarrow>
   salts_error \<times> salts_deadline_queue ptr \<times> u64 ptr" where
  "salts_deadline_queue_schedule queue deadline_ms token out_id =
     (if out_id = NULL then (SALTS_EINVAL, queue, out_id)
      else
        case salts_deadline_get queue of
          None \<Rightarrow> (SALTS_EINVAL, queue, Some 0)
        | Some impl \<Rightarrow>
            if dq_free_count impl = 0 then (SALTS_ENOBUFS, queue, Some 0)
            else if dq_next_order impl = - 1 then (SALTS_ERANGE, queue, Some 0)
            else
              let impl1 = impl\<lparr>dq_free_count := dq_free_count impl - 1\<rparr>;
                  slot = dq_free_slots impl1 ! dq_free_count impl1;
                  entry = dq_entries impl1 ! slot
              in
              if de_active entry \<or> de_generation entry = 0
              then (SALTS_EPROTO, Some ((the queue)\<lparr>dq_impl := Some impl1\<rparr>), Some 0)
              else
                let heap_index = dq_size impl1;
                    i = salts_deadline_make_id slot (de_generation entry);
                    entry1 = entry\<lparr>de_event := \<lparr>ev_id = i, ev_deadline_ms = deadline_ms, ev_token = token\<rparr>,
                                   de_order := dq_next_order impl1, de_heap_index := heap_index,
                                   de_active := True\<rparr>;
                    impl2 = impl1\<lparr>dq_size := dq_size impl1 + 1, dq_next_order := dq_next_order impl1 + 1,
                                  dq_entries := (dq_entries impl1)[slot := entry1],
                                  dq_heap := (dq_heap impl1)[heap_index := slot]\<rparr>
                in (SALTS_OK, Some ((the queue)\<lparr>dq_impl := Some (salts_deadline_sift_up impl2 heap_index)\<rparr>), Some i))"

definition salts_deadline_queue_cancel ::
  "salts_deadline_queue ptr \<Rightarrow> u64 \<Rightarrow> salts_deadline_event ptr \<Rightarrow>
   salts_error \<times> salts_deadline_queue ptr \<times> salts_deadline_event ptr" where
  "salts_deadline_queue_cancel queue i out_event =
     (if out_event = NULL then (SALTS_EINVAL, queue, out_event)
      else
        case (salts_deadline_get queue, salts_deadline_decode_id i) of
          (Some impl, Some (slot, generation)) \<Rightarrow>
            if dq_capacity impl \<le> slot then (SALTS_ENOENT, queue, Some zero_event)
            else
              let entry = dq_entries impl ! slot in
              if \<not> de_active entry \<or> de_generation entry \<noteq> generation
              then (SALTS_ENOENT, queue, Some zero_event)
              else
                let (event, impl1) = salts_deadline_remove impl (de_heap_index entry) in
                (SALTS_OK, Some ((the queue)\<lparr>dq_impl := Some impl1\<rparr>), Some event)
        | _ \<Rightarrow> (SALTS_EINVAL, queue, Some zero_event))"

definition salts_deadline_queue_peek ::
  "salts_deadline_queue ptr \<Rightarrow> salts_deadline_event ptr \<Rightarrow> salts_error \<times> salts_deadline_event ptr" where
  "salts_deadline_queue_peek queue out_event =
     (if out_event = NULL then (SALTS_EINVAL, out_event)
      else
        case salts_deadline_get queue of
          None \<Rightarrow> (SALTS_EINVAL, Some zero_event)
        | Some impl \<Rightarrow>
            if dq_size impl = 0 then (SALTS_ETIMEDOUT, Some zero_event)
            else (SALTS_OK, Some (de_event (dq_entries impl ! (dq_heap impl ! 0)))))"

definition salts_deadline_queue_take_ready ::
  "salts_deadline_queue ptr \<Rightarrow> u64 \<Rightarrow> salts_deadline_event ptr \<Rightarrow>
   salts_error \<times> salts_deadline_queue ptr \<times> salts_deadline_event ptr" where
  "salts_deadline_queue_take_ready queue now_ms out_event =
     (if out_event = NULL then (SALTS_EINVAL, queue, out_event)
      else
        case salts_deadline_get queue of
          None \<Rightarrow> (SALTS_EINVAL, queue, Some zero_event)
        | Some impl \<Rightarrow>
            if dq_size impl = 0 \<or> now_ms < ev_deadline_ms (de_event (dq_entries impl ! (dq_heap impl ! 0)))
            then (SALTS_ETIMEDOUT, queue, Some zero_event)
            else
              let (event, impl1) = salts_deadline_remove impl 0 in
              (SALTS_OK, Some ((the queue)\<lparr>dq_impl := Some impl1\<rparr>), Some event))"

definition salts_deadline_queue_size :: "salts_deadline_queue ptr \<Rightarrow> size_t" where
  "salts_deadline_queue_size queue =
     (case salts_deadline_get queue of None \<Rightarrow> 0 | Some impl \<Rightarrow> dq_size impl)"

definition salts_deadline_queue_destroy ::
  "salts_deadline_queue ptr \<Rightarrow> env \<Rightarrow> salts_error \<times> salts_deadline_queue ptr \<times> env" where
  "salts_deadline_queue_destroy queue e =
     (if queue = NULL then (SALTS_EINVAL, queue, e)
      else if salts_deadline_get queue = NULL then (SALTS_OK, queue, e)
      else (SALTS_OK, Some ((the queue)\<lparr>dq_impl := NULL\<rparr>),
            free_block (free_block (free_block (free_block e)))))"

section \<open>The heap of slots\<close>

lemma nth_update: "xs[i := x] ! j = (if i = j \<and> i < length xs then x else xs ! j)"
  by (cases "i < length xs") (auto simp: nth_list_update list_update_beyond)

definition key_before :: "u64 \<times> u64 \<Rightarrow> u64 \<times> u64 \<Rightarrow> bool" where
  "key_before a b \<longleftrightarrow> fst a < fst b \<or> (fst a = fst b \<and> snd a < snd b)"

interpretation deadline_heap: binary_heap "\<lambda>a b. key_before (key a) (key b)" for key :: "nat \<Rightarrow> u64 \<times> u64"
  by unfold_locales (auto simp: key_before_def)

definition slot_key :: "salts_deadline_queue_impl \<Rightarrow> nat \<Rightarrow> u64 \<times> u64" where
  "slot_key impl s = (ev_deadline_ms (de_event (dq_entries impl ! s)), de_order (dq_entries impl ! s))"

lemma before_key: "salts_deadline_before impl a b = key_before (slot_key impl a) (slot_key impl b)"
  by (simp add: salts_deadline_before_def key_before_def slot_key_def Let_def)

definition heap_slots :: "salts_deadline_queue_impl \<Rightarrow> nat list" where
  "heap_slots impl = take (dq_size impl) (dq_heap impl)"

text \<open>Every slot in the heap knows its position.\<close>

definition indexed :: "salts_deadline_queue_impl \<Rightarrow> bool" where
  "indexed impl \<longleftrightarrow>
     length (dq_entries impl) = dq_capacity impl \<and> length (dq_heap impl) = dq_capacity impl \<and>
     dq_size impl \<le> dq_capacity impl \<and> distinct (heap_slots impl) \<and>
     (\<forall>i < dq_size impl. dq_heap impl ! i < dq_capacity impl \<and>
        de_heap_index (dq_entries impl ! (dq_heap impl ! i)) = i)"

text \<open>What the sift loops leave alone: all but the heap array and the heap indices.\<close>

definition bare :: "salts_deadline_entry \<Rightarrow> salts_deadline_entry" where
  "bare en = en\<lparr>de_heap_index := 0\<rparr>"

definition same_rest :: "salts_deadline_queue_impl \<Rightarrow> salts_deadline_queue_impl \<Rightarrow> bool" where
  "same_rest a b \<longleftrightarrow>
     (\<forall>t. bare (dq_entries b ! t) = bare (dq_entries a ! t)) \<and> dq_size b = dq_size a \<and>
     dq_free_slots b = dq_free_slots a \<and> dq_free_count b = dq_free_count a \<and>
     dq_capacity b = dq_capacity a \<and> dq_next_order b = dq_next_order a"

lemma same_rest_refl [simp]: "same_rest a a"
  by (simp add: same_rest_def)

lemma same_rest_trans: "same_rest a b \<Longrightarrow> same_rest b c \<Longrightarrow> same_rest a c"
  by (simp add: same_rest_def)

lemma bare_fields:
  "bare a = bare b \<Longrightarrow> de_event a = de_event b" "bare a = bare b \<Longrightarrow> de_order a = de_order b"
  "bare a = bare b \<Longrightarrow> de_generation a = de_generation b" "bare a = bare b \<Longrightarrow> de_active a = de_active b"
  by (cases a; cases b; simp add: bare_def)+

lemma same_restD:
  assumes "same_rest a b"
  shows "slot_key b = slot_key a" "de_event (dq_entries b ! t) = de_event (dq_entries a ! t)"
    "de_order (dq_entries b ! t) = de_order (dq_entries a ! t)"
    "de_generation (dq_entries b ! t) = de_generation (dq_entries a ! t)"
    "de_active (dq_entries b ! t) = de_active (dq_entries a ! t)"
proof -
  have b: "bare (dq_entries b ! u) = bare (dq_entries a ! u)" for u using assms by (simp add: same_rest_def)
  show "slot_key b = slot_key a"
    by (rule ext) (simp add: slot_key_def bare_fields(1,2) [OF b])
  show "de_event (dq_entries b ! t) = de_event (dq_entries a ! t)"
    "de_order (dq_entries b ! t) = de_order (dq_entries a ! t)"
    "de_generation (dq_entries b ! t) = de_generation (dq_entries a ! t)"
    "de_active (dq_entries b ! t) = de_active (dq_entries a ! t)"
    by (fact bare_fields [OF b])+
qed

lemma set_heap_index_rest [simp]:
  "same_rest impl (set_heap_index t k impl)" "dq_heap (set_heap_index t k impl) = dq_heap impl"
  by (auto simp: same_rest_def set_heap_index_def bare_def nth_update)

lemma set_heap_index_nth:
  "t < length (dq_entries impl) \<Longrightarrow>
   de_heap_index (dq_entries (set_heap_index t k impl) ! u) =
     (if u = t then k else de_heap_index (dq_entries impl ! u))"
  by (auto simp: set_heap_index_def nth_update)

lemma swap_indexed:
  assumes ix: "indexed impl" and l: "l < dq_size impl" and r: "r < dq_size impl" and ne: "l \<noteq> r"
  shows "indexed (salts_deadline_swap impl l r)" "same_rest impl (salts_deadline_swap impl l r)"
    "heap_slots (salts_deadline_swap impl l r) = swap_at (heap_slots impl) l r"
proof -
  let ?s = "salts_deadline_swap impl l r" and ?h = "dq_heap impl"
  have len: "l < length ?h" "r < length ?h" using ix l r by (simp_all add: indexed_def)
  show slots: "heap_slots ?s = swap_at (heap_slots impl) l r"
    using l r by (simp add: heap_slots_def swap_at_def take_update_swap)
  have "same_rest (impl\<lparr>dq_heap := h\<rparr>) j \<Longrightarrow> same_rest impl j" for h j by (simp add: same_rest_def)
  then show rest: "same_rest impl ?s"
    unfolding salts_deadline_swap_def Let_def by (meson same_rest_trans set_heap_index_rest(1))
  have dist: "?h ! i = ?h ! k \<longleftrightarrow> i = k" if "i < dq_size impl" "k < dq_size impl" for i k
    using ix that nth_eq_iff_index_eq [of "heap_slots impl" i k] by (auto simp: indexed_def heap_slots_def)
  have cap: "?h ! l < length (dq_entries impl)" "?h ! r < length (dq_entries impl)"
    using ix l r by (auto simp: indexed_def)
  have idx: "de_heap_index (dq_entries ?s ! u) =
      (if u = ?h ! l then r else if u = ?h ! r then l else de_heap_index (dq_entries impl ! u))" for u
    using cap len ne by (simp add: salts_deadline_swap_def Let_def set_heap_index_def nth_update)
  have lens: "length (dq_entries ?s) = length (dq_entries impl)"
    by (simp add: salts_deadline_swap_def set_heap_index_def Let_def)
  have "distinct (heap_slots ?s)"
  proof -
    have "mset (heap_slots ?s) = mset (heap_slots impl)"
      unfolding slots by (rule mset_swap_at) (use ix l r in \<open>auto simp: heap_slots_def indexed_def\<close>)
    then show ?thesis using ix by (metis indexed_def mset_eq_imp_distinct_iff)
  qed
  moreover have "swap_at ?h l r ! i < dq_capacity impl \<and> de_heap_index (dq_entries ?s ! (swap_at ?h l r ! i)) = i"
    if "i < dq_size impl" for i
  proof -
    have "i < length ?h" using that ix by (simp add: indexed_def)
    then show ?thesis
      using ix that l r dist [OF l r] dist [OF that l] dist [OF that r] len
      by (auto simp: idx indexed_def)
  qed
  ultimately show "indexed ?s" using ix lens by (simp add: indexed_def)
qed

abbreviation slot_lt :: "salts_deadline_queue_impl \<Rightarrow> nat \<Rightarrow> nat \<Rightarrow> bool" where
  "slot_lt impl a b \<equiv> key_before (slot_key impl a) (slot_key impl b)"

lemma heap_slots_nth: "i < dq_size impl \<Longrightarrow> heap_slots impl ! i = dq_heap impl ! i"
  by (simp add: heap_slots_def)

lemma length_heap_slots [simp]: "indexed impl \<Longrightarrow> length (heap_slots impl) = dq_size impl"
  by (simp add: heap_slots_def indexed_def)

lemma sift_up_refines:
  assumes "indexed impl" "i < dq_size impl"
  shows "indexed (salts_deadline_sift_up impl i) \<and> same_rest impl (salts_deadline_sift_up impl i) \<and>
    heap_slots (salts_deadline_sift_up impl i) = sift_up (slot_lt impl) (heap_slots impl) i"
  using assms
proof (induction impl i rule: salts_deadline_sift_up.induct)
  case (1 impl i)
  let ?p = "parent i"
  have p: "(i - 1) div 2 = ?p" "i \<noteq> 0 \<Longrightarrow> ?p < i" by (simp_all add: parent_def)
  have test: "salts_deadline_before impl (dq_heap impl ! i) (dq_heap impl ! ?p) =
      slot_lt impl (heap_slots impl ! i) (heap_slots impl ! ?p)"
    using "1.prems" p(2) by (cases "i = 0") (simp_all add: before_key heap_slots_nth parent_def)
  show ?case
  proof (cases "i \<noteq> 0 \<and> slot_lt impl (heap_slots impl ! i) (heap_slots impl ! ?p)")
    case False
    then show ?thesis
      using "1.prems" test by (auto simp: salts_deadline_sift_up.simps [of impl i] sift_up.simps [of _ _ i] Let_def p(1) p(1) [unfolded One_nat_def])
  next
    case True
    let ?s = "salts_deadline_swap impl i ?p"
    have pi: "?p < dq_size impl" "i \<noteq> ?p" using p(2) True "1.prems"(2) by auto
    note sw = swap_indexed [OF "1.prems"(1,2) pi]
    have step: "salts_deadline_sift_up impl i = salts_deadline_sift_up ?s ?p"
      using True test by (simp add: salts_deadline_sift_up.simps [of impl i] Let_def p(1) [unfolded One_nat_def])
    have cond: "i \<noteq> 0" "\<not> \<not> salts_deadline_before impl (dq_heap impl ! i) (dq_heap impl ! ?p)"
      using True test by simp_all
    have IH: "indexed (salts_deadline_sift_up ?s ?p) \<and> same_rest ?s (salts_deadline_sift_up ?s ?p) \<and>
        heap_slots (salts_deadline_sift_up ?s ?p) = sift_up (slot_lt ?s) (heap_slots ?s) ?p"
      by (rule "1.IH" [OF cond(1) p(1) [symmetric], unfolded p(1), OF cond(2)]) (use sw pi in simp_all)
    have "slot_key ?s = slot_key impl" by (rule same_restD(1) [OF sw(2)])
    then have "heap_slots (salts_deadline_sift_up impl i) = sift_up (slot_lt impl) (heap_slots impl) i"
      using IH True by (simp add: step sw(3) sift_up.simps [of _ "heap_slots impl" i])
    with IH same_rest_trans [OF sw(2)] show ?thesis by (simp add: step)
  qed
qed

lemma earliest_best:
  assumes "indexed impl" "i < dq_size impl"
  shows "salts_deadline_earliest impl i = best_child (slot_lt impl) (heap_slots impl) i"
  using assms
  by (auto simp: salts_deadline_earliest_def best_child_def Let_def before_key heap_slots_nth mult.commute)

lemma sift_down_refines:
  assumes "indexed impl" "i < dq_size impl"
  shows "indexed (salts_deadline_sift_down impl i) \<and> same_rest impl (salts_deadline_sift_down impl i) \<and>
    heap_slots (salts_deadline_sift_down impl i) = sift_down (slot_lt impl) (heap_slots impl) i"
  using assms
proof (induction impl i rule: salts_deadline_sift_down.induct)
  case (1 impl i)
  define b where "b = best_child (slot_lt impl) (heap_slots impl) i"
  have b: "salts_deadline_earliest impl i = b" using earliest_best "1.prems" b_def by simp
  show ?case
  proof (cases "b = i")
    case True
    then show ?thesis
      using "1.prems" by (simp add: salts_deadline_sift_down.simps [of impl i] b sift_down.simps [of _ _ i] flip: b_def)
  next
    case False
    let ?s = "salts_deadline_swap impl i b"
    have bl: "b < dq_size impl" "i \<noteq> b"
      using False best_child_cases [of "slot_lt impl" "heap_slots impl" i] "1.prems" by (auto simp: b_def)
    note sw = swap_indexed [OF "1.prems"(1,2) bl]
    have step: "salts_deadline_sift_down impl i = salts_deadline_sift_down ?s b"
      using False by (simp add: salts_deadline_sift_down.simps [of impl i] b)
    have IH: "indexed (salts_deadline_sift_down ?s b) \<and> same_rest ?s (salts_deadline_sift_down ?s b) \<and>
        heap_slots (salts_deadline_sift_down ?s b) = sift_down (slot_lt ?s) (heap_slots ?s) b"
      by (rule "1.IH" [OF b [symmetric] False]) (use sw bl in simp_all)
    have "slot_key ?s = slot_key impl" by (rule same_restD(1) [OF sw(2)])
    then have "heap_slots (salts_deadline_sift_down impl i) = sift_down (slot_lt impl) (heap_slots impl) i"
      using IH False by (simp add: step sw(3) sift_down.simps [of _ "heap_slots impl" i] flip: b_def)
    with IH same_rest_trans [OF sw(2)] show ?thesis by (simp add: step)
  qed
qed

section \<open>The invariant and removal\<close>

definition free_set :: "salts_deadline_queue_impl \<Rightarrow> nat set" where
  "free_set impl = set (take (dq_free_count impl) (dq_free_slots impl))"

definition free_ok :: "salts_deadline_queue_impl \<Rightarrow> bool" where
  "free_ok impl \<longleftrightarrow>
     length (dq_free_slots impl) = dq_capacity impl \<and> dq_free_count impl \<le> dq_capacity impl \<and>
     distinct (take (dq_free_count impl) (dq_free_slots impl)) \<and>
     free_set impl = {t. t < dq_capacity impl \<and> \<not> de_active (dq_entries impl ! t) \<and>
                         de_generation (dq_entries impl ! t) \<noteq> 0}"

text \<open>An armed slot holds the event under its own identifier, with a unique order.\<close>

definition armed :: "salts_deadline_queue_impl \<Rightarrow> nat \<Rightarrow> bool" where
  "armed impl t \<longleftrightarrow>
     (let en = dq_entries impl ! t in
      de_generation en \<noteq> 0 \<and> ev_id (de_event en) = salts_deadline_make_id t (de_generation en) \<and>
      de_order en < dq_next_order impl)"

definition order_of :: "salts_deadline_queue_impl \<Rightarrow> nat \<Rightarrow> u64" where
  "order_of impl t = de_order (dq_entries impl ! t)"

definition dq_inv :: "salts_deadline_queue_impl \<Rightarrow> bool" where
  "dq_inv impl \<longleftrightarrow>
     indexed impl \<and> is_heap (slot_lt impl) (heap_slots impl) \<and>
     (\<forall>t < dq_capacity impl. de_active (dq_entries impl ! t) \<longleftrightarrow> t \<in> set (heap_slots impl)) \<and>
     (\<forall>t \<in> set (heap_slots impl). armed impl t) \<and>
     inj_on (order_of impl) (set (heap_slots impl)) \<and>
     free_ok impl \<and> dq_capacity impl \<le> UINT32_MAX"

lemma slots_bounded: "indexed impl \<Longrightarrow> t \<in> set (heap_slots impl) \<Longrightarrow> t < dq_capacity impl"
  by (auto simp: indexed_def heap_slots_def in_set_conv_nth)

lemma slots_room:
  assumes "dq_inv impl"
  shows "dq_size impl + dq_free_count impl \<le> dq_capacity impl"
proof -
  have ix: "indexed impl" and fr: "free_ok impl" using assms by (simp_all add: dq_inv_def)
  have disj: "set (heap_slots impl) \<inter> free_set impl = {}"
    using assms by (auto simp: dq_inv_def free_ok_def)
  have "set (heap_slots impl) \<union> free_set impl \<subseteq> {..<dq_capacity impl}"
    using slots_bounded [OF ix] fr by (auto simp: free_ok_def)
  then have "card (set (heap_slots impl) \<union> free_set impl) \<le> dq_capacity impl"
    by (metis card_lessThan card_mono finite_lessThan)
  moreover have "card (set (heap_slots impl)) = dq_size impl"
    using ix by (simp add: distinct_card indexed_def heap_slots_def)
  moreover have "card (free_set impl) = dq_free_count impl"
    using fr distinct_card [of "take (dq_free_count impl) (dq_free_slots impl)"]
    unfolding free_set_def free_ok_def by simp
  ultimately show ?thesis using disj by (simp add: card_Un_disjoint free_set_def)
qed

lemma settle:
  assumes ix: "indexed b" and i: "i < dq_size b" and around: "heap_around (slot_lt b) (heap_slots b) i"
    and b': "b' = (if i \<noteq> 0 \<and> salts_deadline_before b (dq_heap b ! i) (dq_heap b ! ((i - 1) div 2))
      then salts_deadline_sift_up b i else salts_deadline_sift_down b i)"
  shows "indexed b' \<and> same_rest b b' \<and> set (heap_slots b') = set (heap_slots b) \<and>
    is_heap (slot_lt b') (heap_slots b')"
proof (cases "i \<noteq> 0 \<and> salts_deadline_before b (dq_heap b ! i) (dq_heap b ! ((i - 1) div 2))")
  case True
  let ?lt = "slot_lt b" and ?xs = "heap_slots b"
  note up = sift_up_refines [OF ix i]
  have lt: "?lt (?xs ! i) (?xs ! parent i)"
    using True i parent_less [of i] by (auto simp: before_key heap_slots_nth parent_def)
  have "\<not> ?lt (?xs ! j) (?xs ! i)" if "0 < j" "j < length ?xs" "parent j = i" for j
    using around lt that True deadline_heap.less_negtrans [of "slot_key b" "?xs ! parent i" "?xs ! i" "?xs ! j"]
      deadline_heap.less_asym [of "slot_key b" "?xs ! i" "?xs ! parent i"]
    by (auto simp: heap_around_def)
  then have "is_heap ?lt (sift_up ?lt ?xs i)"
    using ix i by (intro deadline_heap.sift_up_heap [OF around]) auto
  moreover have "mset (sift_up ?lt ?xs i) = mset ?xs" using ix i by simp
  then have "set (sift_up ?lt ?xs i) = set ?xs" by (rule mset_eq_setD)
  ultimately show ?thesis using up True same_restD(1) [of b "salts_deadline_sift_up b i"] by (simp add: b')
next
  case False
  let ?lt = "slot_lt b" and ?xs = "heap_slots b"
  note down = sift_down_refines [OF ix i]
  have "0 < i \<Longrightarrow> \<not> ?lt (?xs ! i) (?xs ! parent i)"
    using False i parent_less [of i] by (auto simp: before_key heap_slots_nth parent_def)
  then have "is_heap ?lt (sift_down ?lt ?xs i)"
    using ix i by (intro deadline_heap.sift_down_heap [OF around]) auto
  moreover have "mset (sift_down ?lt ?xs i) = mset ?xs" using ix i by simp
  then have "set (sift_down ?lt ?xs i) = set ?xs" by (rule mset_eq_setD)
  ultimately show ?thesis using down False same_restD(1) [of b "salts_deadline_sift_down b i"] by (auto simp: b')
qed

text \<open>The first half of \<open>salts_deadline_remove\<close>.\<close>

definition unlinked :: "salts_deadline_queue_impl \<Rightarrow> nat \<Rightarrow> salts_deadline_queue_impl" where
  "unlinked impl i =
     (let impl1 = impl\<lparr>dq_size := dq_size impl - 1\<rparr> in
      if i \<noteq> dq_size impl1 then
        let a = impl1\<lparr>dq_heap := (dq_heap impl1)[i := dq_heap impl1 ! dq_size impl1]\<rparr>;
            b = set_heap_index (dq_heap a ! i) i a
        in if i \<noteq> 0 \<and> salts_deadline_before b (dq_heap b ! i) (dq_heap b ! ((i - 1) div 2))
           then salts_deadline_sift_up b i else salts_deadline_sift_down b i
      else impl1)"

lemma remove_unlinked:
  "salts_deadline_remove impl i =
     (de_event (dq_entries impl ! (dq_heap impl ! i)),
      salts_deadline_release_slot
        ((unlinked impl i)\<lparr>dq_heap := (dq_heap (unlinked impl i))[dq_size (unlinked impl i) := SALTS_DEADLINE_INDEX_NONE]\<rparr>)
        (dq_heap impl ! i))"
  by (simp add: salts_deadline_remove_def unlinked_def Let_def)

lemma unlink:
  assumes ix: "indexed impl" and heap: "is_heap (slot_lt impl) (heap_slots impl)" and i: "i < dq_size impl"
  shows "indexed (unlinked impl i) \<and> same_rest (impl\<lparr>dq_size := dq_size impl - 1\<rparr>) (unlinked impl i) \<and>
    set (heap_slots (unlinked impl i)) = set (heap_slots impl) - {dq_heap impl ! i} \<and>
    is_heap (slot_lt (unlinked impl i)) (heap_slots (unlinked impl i))"
proof -
  define n where "n = dq_size impl - 1"
  define impl1 where "impl1 = impl\<lparr>dq_size := n\<rparr>"
  let ?h = "dq_heap impl"
  define ys where "ys = take n ?h"
  have n: "dq_size impl = Suc n" "n < length ?h" using i ix by (auto simp: n_def indexed_def)
  have slots: "heap_slots impl = ys @ [?h ! n]"
    using n by (simp add: heap_slots_def ys_def take_Suc_conv_app_nth)
  have dist: "distinct ys" "?h ! n \<notin> set ys" using ix slots by (simp_all add: indexed_def)
  have len: "length ys = n" using n by (simp add: ys_def)
  have key: "slot_key (impl\<lparr>dq_size := k\<rparr>) = slot_key impl" "slot_key (j\<lparr>dq_heap := h\<rparr>) = slot_key j" for k j h
    by (simp_all add: slot_key_def fun_eq_iff)
  have ys_heap: "is_heap (slot_lt impl) ys" using heap slots deadline_heap.heap_butlast by metis
  show ?thesis
  proof (cases "i = n")
    case True
    have "indexed impl1" using ix dist(1) n by (auto simp: indexed_def impl1_def heap_slots_def ys_def)
    moreover have "unlinked impl i = impl1" using True by (simp add: unlinked_def impl1_def n_def)
    moreover have "heap_slots impl1 = ys" by (simp add: heap_slots_def impl1_def ys_def)
    ultimately show ?thesis
      using True ys_heap dist slots key(1) [of n] by (simp add: impl1_def n_def)
  next
    case False
    then have i: "i < n" using i n by simp
    define a where "a = impl1\<lparr>dq_heap := ?h[i := ?h ! n]\<rparr>"
    define b where "b = set_heap_index (?h ! n) i a"
    have ab: "dq_heap b = ?h[i := ?h ! n]" "dq_size b = n" "dq_capacity b = dq_capacity impl"
      "length (dq_entries b) = length (dq_entries impl)"
      by (simp_all add: b_def a_def impl1_def set_heap_index_def)
    have rest: "same_rest impl1 b"
    proof -
      have "same_rest impl1 a" by (simp add: a_def same_rest_def)
      then show ?thesis unfolding b_def by (rule same_rest_trans) simp
    qed
    have slots_b: "heap_slots b = ys[i := ?h ! n]" by (simp add: heap_slots_def ab ys_def take_update_swap)
    have keyb: "slot_key b = slot_key impl" using same_restD(1) [OF rest] by (simp add: impl1_def key)
    have ne: "?h ! k \<noteq> ?h ! n" if "k < n" for k
      using dist(2) that len by (metis n(2) nth_mem nth_take ys_def)
    have "de_heap_index (dq_entries b ! (dq_heap b ! k)) = k \<and> dq_heap b ! k < dq_capacity impl" if "k < n" for k
      using ix that n ne [OF that] i
      by (auto simp: ab(1) b_def a_def impl1_def set_heap_index_def nth_update indexed_def nth_list_update)
    moreover have "distinct (ys[i := ?h ! n])" using dist by (simp add: distinct_list_update)
    ultimately have ixb: "indexed b" using ix n by (simp add: indexed_def ab slots_b)
    have "heap_around (slot_lt b) (heap_slots b) i"
      unfolding slots_b keyb using deadline_heap.heap_replace [OF ys_heap] i len by simp
    moreover have u: "unlinked impl i =
      (if i \<noteq> 0 \<and> salts_deadline_before b (dq_heap b ! i) (dq_heap b ! ((i - 1) div 2))
       then salts_deadline_sift_up b i else salts_deadline_sift_down b i)"
      using i n(2) less_trans [OF i n(2)] unfolding unlinked_def Let_def n_def [symmetric] impl1_def [symmetric]
      by (cases "i = 0") (simp_all add: a_def b_def impl1_def)
    ultimately have st: "indexed (unlinked impl i) \<and> same_rest b (unlinked impl i) \<and>
        set (heap_slots (unlinked impl i)) = set (heap_slots b) \<and>
        is_heap (slot_lt (unlinked impl i)) (heap_slots (unlinked impl i))"
      by (intro settle [OF ixb _ _ u]) (simp_all add: ab i)
    have "set (ys[i := ?h ! n]) = insert (?h ! n) (set ys - {ys ! i})"
      using dist(1) i len by (simp add: set_update_distinct)
    also have "\<dots> = set (heap_slots impl) - {?h ! i}"
      using slots dist(2) ne [OF i] i by (auto simp: ys_def)
    finally show ?thesis using st same_rest_trans [OF rest] by (simp add: slots_b impl1_def n_def)
  qed
qed

lemma is_heap_cong:
  assumes "is_heap lt xs" "\<And>a b. a \<in> set xs \<Longrightarrow> b \<in> set xs \<Longrightarrow> lt' a b = lt a b"
  shows "is_heap lt' xs"
  using assms parent_less unfolding is_heap_def by (metis less_trans nth_mem)

lemma generation_max: "unat (g :: u32) = UINT32_MAX \<longleftrightarrow> g + 1 = 0"
proof -
  have "g + 1 = 0 \<longleftrightarrow> g = - 1" by (simp add: eq_neg_iff_add_eq_0)
  moreover have "unat (- 1 :: u32) = UINT32_MAX" by (simp add: UINT32_MAX_def unsigned_minus_1_eq_mask mask_eq_exp_minus_1)
  ultimately show ?thesis by (metis unsigned_word_eqI)
qed

definition next_generation :: "u32 \<Rightarrow> u32" where
  "next_generation g = (if unat g = UINT32_MAX then 0 else g + 1)"

lemma release_slot:
  assumes "indexed v" "free_ok v" "t < dq_capacity v" "t \<notin> set (heap_slots v)" "t \<notin> free_set v"
    "dq_free_count v < dq_capacity v" "impl' = salts_deadline_release_slot v t"
  shows "indexed impl'" "heap_slots impl' = heap_slots v" "free_ok impl'"
    "u \<noteq> t \<Longrightarrow> dq_entries impl' ! u = dq_entries v ! u"
    "de_generation (dq_entries impl' ! t) = next_generation (de_generation (dq_entries v ! t))"
    "\<not> de_active (dq_entries impl' ! t)"
    "dq_capacity impl' = dq_capacity v" "dq_next_order impl' = dq_next_order v" "dq_size impl' = dq_size v"
proof -
  have t: "t < length (dq_entries v)" using assms(1,3) by (simp add: indexed_def)
  show other: "dq_entries impl' ! u = dq_entries v ! u" if "u \<noteq> t" for u
    using assms(7) that by (auto simp: salts_deadline_release_slot_def Let_def)
  show gen: "de_generation (dq_entries impl' ! t) = next_generation (de_generation (dq_entries v ! t))"
    and act: "\<not> de_active (dq_entries impl' ! t)"
    using assms(7) t by (auto simp: salts_deadline_release_slot_def Let_def next_generation_def)
  show fields: "dq_capacity impl' = dq_capacity v" "dq_next_order impl' = dq_next_order v" "dq_size impl' = dq_size v"
    using assms(7) by (auto simp: salts_deadline_release_slot_def Let_def)
  have heap: "dq_heap impl' = dq_heap v" "length (dq_entries impl') = length (dq_entries v)"
    using assms(7) by (auto simp: salts_deadline_release_slot_def Let_def)
  show slots: "heap_slots impl' = heap_slots v" using heap fields by (simp add: heap_slots_def)
  have "dq_heap v ! i \<noteq> t" if "i < dq_size v" for i
    using assms(1,4) that nth_mem [of i "heap_slots v"] by (auto simp: heap_slots_nth)
  then show "indexed impl'"
    using assms(1) slots heap fields other by (simp add: indexed_def)
  let ?F = "\<lambda>i. {u. u < dq_capacity i \<and> \<not> de_active (dq_entries i ! u) \<and> de_generation (dq_entries i ! u) \<noteq> 0}"
  have mem: "u \<in> ?F impl' \<longleftrightarrow> (if u = t then next_generation (de_generation (dq_entries v ! t)) \<noteq> 0 else u \<in> ?F v)" for u
    using other [of u] gen act fields assms(3) by (cases "u = t") auto
  have old: "set (take (dq_free_count v) (dq_free_slots v)) = ?F v" "length (dq_free_slots v) = dq_capacity v"
    "distinct (take (dq_free_count v) (dq_free_slots v))" "t \<notin> ?F v"
    using assms(2,5) by (auto simp: free_ok_def free_set_def)
  show "free_ok impl'"
  proof (cases "unat (de_generation (dq_entries v ! t)) = UINT32_MAX")
    case True
    then have "dq_free_slots impl' = dq_free_slots v" "dq_free_count impl' = dq_free_count v"
      using assms(7) by (simp_all add: salts_deadline_release_slot_def Let_def)
    moreover have "?F impl' = ?F v" using mem True old(4) by (auto simp: next_generation_def)
    ultimately show ?thesis using old assms(6) fields(1) by (simp add: free_ok_def free_set_def)
  next
    case False
    then have f: "dq_free_slots impl' = (dq_free_slots v)[dq_free_count v := t]" "dq_free_count impl' = Suc (dq_free_count v)"
      using assms(7) by (simp_all add: salts_deadline_release_slot_def Let_def)
    have tk: "take (Suc (dq_free_count v)) ((dq_free_slots v)[dq_free_count v := t]) =
        take (dq_free_count v) (dq_free_slots v) @ [t]"
      using old(2) assms(6) by (simp add: take_Suc_conv_app_nth)
    have "next_generation (de_generation (dq_entries v ! t)) \<noteq> 0"
      using False by (simp add: next_generation_def generation_max)
    then have "?F impl' = insert t (?F v)" using mem by auto
    then show ?thesis
      using f tk old assms(6) fields(1) by (simp add: free_ok_def free_set_def)
  qed
qed

lemma remove_spec:
  assumes inv: "dq_inv impl" and i: "i < dq_size impl" and s: "s = dq_heap impl ! i"
    and run: "salts_deadline_remove impl i = (ev, impl')"
  shows "ev = de_event (dq_entries impl ! s) \<and> dq_inv impl' \<and> dq_capacity impl' = dq_capacity impl \<and>
    dq_next_order impl' = dq_next_order impl \<and> set (heap_slots impl') = set (heap_slots impl) - {s} \<and>
    (\<forall>t. t \<noteq> s \<longrightarrow> bare (dq_entries impl' ! t) = bare (dq_entries impl ! t)) \<and>
    de_generation (dq_entries impl' ! s) = next_generation (de_generation (dq_entries impl ! s)) \<and>
    \<not> de_active (dq_entries impl' ! s)"
proof -
  note inv' = inv [unfolded dq_inv_def]
  define v where "v = (unlinked impl i)\<lparr>dq_heap := (dq_heap (unlinked impl i))[dq_size (unlinked impl i) := SALTS_DEADLINE_INDEX_NONE]\<rparr>"
  from unlink [OF _ _ i] inv' have u: "indexed (unlinked impl i)"
    "same_rest (impl\<lparr>dq_size := dq_size impl - 1\<rparr>) (unlinked impl i)"
    "set (heap_slots (unlinked impl i)) = set (heap_slots impl) - {s}"
    "is_heap (slot_lt (unlinked impl i)) (heap_slots (unlinked impl i))"
    using s by simp_all
  have rest: "bare (dq_entries v ! t) = bare (dq_entries impl ! t)" for t
    using u(2) by (simp add: v_def same_rest_def)
  note rest' = bare_fields [OF rest]
  have fields: "dq_capacity v = dq_capacity impl" "dq_next_order v = dq_next_order impl"
    "dq_free_slots v = dq_free_slots impl" "dq_free_count v = dq_free_count impl"
    using u(2) by (simp_all add: v_def same_rest_def)
  have slots: "heap_slots v = heap_slots (unlinked impl i)" by (simp add: v_def heap_slots_def)
  have ixv: "indexed v" using u(1) slots by (simp add: v_def indexed_def)
  have heapv: "is_heap (slot_lt v) (heap_slots v)"
  proof -
    have "slot_key v = slot_key (unlinked impl i)" by (simp add: v_def slot_key_def fun_eq_iff)
    then show ?thesis using u(4) slots by simp
  qed
  have sin: "s \<in> set (heap_slots impl)"
    using nth_mem [of i "heap_slots impl"] inv' i s by (simp add: heap_slots_nth)
  have scap: "s < dq_capacity impl" using slots_bounded sin inv' by blast
  have frv: "free_ok v" using inv' rest' by (simp add: free_ok_def free_set_def fields)
  have snf: "s \<notin> free_set v" using frv sin inv' scap rest' by (simp add: free_ok_def)
  have room: "dq_free_count v < dq_capacity v" using slots_room [OF inv] i by (simp add: fields)
  have ev: "ev = de_event (dq_entries impl ! s)" and impl': "impl' = salts_deadline_release_slot v s"
    using run by (simp_all add: remove_unlinked v_def s)
  note rel = release_slot [OF ixv frv _ _ snf room impl', unfolded fields slots u(3), OF scap, simplified]
  have heap': "is_heap (slot_lt impl') (heap_slots impl')"
  proof (rule is_heap_cong)
    show "is_heap (slot_lt v) (heap_slots impl')" using heapv rel(2) slots by simp
    show "slot_lt impl' a b = slot_lt v a b" if "a \<in> set (heap_slots impl')" "b \<in> set (heap_slots impl')" for a b
      using that rel(2,4) u(3) by (auto simp: slot_key_def)
  qed
  have act: "de_active (dq_entries impl' ! t) \<longleftrightarrow> t \<in> set (heap_slots impl')" if "t < dq_capacity impl'" for t
    using that rel(2,4,6,7) u(3) inv' rest'(4) by (cases "t = s") auto
  have arm: "armed impl' t" if "t \<in> set (heap_slots impl')" for t
    using that rel(2,4,8) u(3) inv' rest' by (auto simp: armed_def Let_def)
  have inj: "inj_on (order_of impl') (set (heap_slots impl'))"
  proof -
    have "order_of impl' t = order_of impl t" if "t \<in> set (heap_slots impl')" for t
      using that rel(2,4) u(3) rest'(2) by (auto simp: order_of_def)
    then show ?thesis using inv' rel(2) u(3) by (metis Diff_subset inj_on_cong inj_on_subset)
  qed
  have inv2: "dq_inv impl'" using rel heap' act arm inj inv' by (simp add: dq_inv_def)
  show ?thesis
    using ev inv2 rel u(3) rest rest'(3) by simp
qed

section \<open>Scheduling\<close>

text \<open>The queue after the new entry is written and before it is sifted up.\<close>

definition enqueued :: "salts_deadline_queue_impl \<Rightarrow> nat \<Rightarrow> u64 \<Rightarrow> u64 \<Rightarrow> salts_deadline_queue_impl" where
  "enqueued impl t deadline_ms token =
     impl\<lparr>dq_free_count := dq_free_count impl - 1, dq_size := dq_size impl + 1,
          dq_next_order := dq_next_order impl + 1,
          dq_entries := (dq_entries impl)[t := (dq_entries impl ! t)
             \<lparr>de_event := \<lparr>ev_id = salts_deadline_make_id t (de_generation (dq_entries impl ! t)),
                          ev_deadline_ms = deadline_ms, ev_token = token\<rparr>,
              de_order := dq_next_order impl, de_heap_index := dq_size impl, de_active := True\<rparr>],
          dq_heap := (dq_heap impl)[dq_size impl := t]\<rparr>"

lemma free_top:
  assumes "dq_inv impl" "dq_free_count impl \<noteq> 0" "t = dq_free_slots impl ! (dq_free_count impl - 1)"
  shows "t < dq_capacity impl" "\<not> de_active (dq_entries impl ! t)" "de_generation (dq_entries impl ! t) \<noteq> 0"
    "t \<notin> set (heap_slots impl)" "free_set impl = insert t (free_set (impl\<lparr>dq_free_count := dq_free_count impl - 1\<rparr>))"
    "t \<notin> free_set (impl\<lparr>dq_free_count := dq_free_count impl - 1\<rparr>)"
    "distinct (take (dq_free_count impl - 1) (dq_free_slots impl))"
proof -
  have fr: "free_ok impl" using assms(1) by (simp add: dq_inv_def)
  obtain n where n: "dq_free_count impl = Suc n" using assms(2) by (cases "dq_free_count impl") auto
  have tk: "take (Suc n) (dq_free_slots impl) = take n (dq_free_slots impl) @ [t]"
    using fr n assms(3) by (simp add: free_ok_def take_Suc_conv_app_nth)
  show ins: "free_set impl = insert t (free_set (impl\<lparr>dq_free_count := dq_free_count impl - 1\<rparr>))"
    by (simp add: free_set_def n tk)
  show "t \<notin> free_set (impl\<lparr>dq_free_count := dq_free_count impl - 1\<rparr>)"
    "distinct (take (dq_free_count impl - 1) (dq_free_slots impl))"
    using fr by (simp_all add: free_ok_def free_set_def n tk)
  have "t \<in> free_set impl" using ins by simp
  then show "t < dq_capacity impl" "\<not> de_active (dq_entries impl ! t)" "de_generation (dq_entries impl ! t) \<noteq> 0"
    using fr by (auto simp: free_ok_def)
  then show "t \<notin> set (heap_slots impl)" using assms(1) by (auto simp: dq_inv_def)
qed

lemma enqueue_spec:
  assumes inv: "dq_inv impl" and room: "dq_free_count impl \<noteq> 0" "dq_next_order impl \<noteq> - 1"
    and t: "t = dq_free_slots impl ! (dq_free_count impl - 1)"
    and impl': "impl' = salts_deadline_sift_up (enqueued impl t d tok) (dq_size impl)"
  shows "dq_inv impl' \<and> set (heap_slots impl') = insert t (set (heap_slots impl)) \<and> t \<notin> set (heap_slots impl) \<and>
    dq_capacity impl' = dq_capacity impl \<and> dq_next_order impl' = dq_next_order impl + 1 \<and>
    (\<forall>u. u \<noteq> t \<longrightarrow> bare (dq_entries impl' ! u) = bare (dq_entries impl ! u)) \<and>
    de_generation (dq_entries impl' ! t) = de_generation (dq_entries impl ! t) \<and>
    de_generation (dq_entries impl ! t) \<noteq> 0 \<and> \<not> de_active (dq_entries impl ! t) \<and> t < dq_capacity impl \<and>
    de_event (dq_entries impl' ! t) = \<lparr>ev_id = salts_deadline_make_id t (de_generation (dq_entries impl ! t)),
      ev_deadline_ms = d, ev_token = tok\<rparr> \<and> order_of impl' t = dq_next_order impl"
proof -
  note inv' = inv [unfolded dq_inv_def] and top = free_top [OF inv room(1) t]
  define q where "q = enqueued impl t d tok"
  have ix: "indexed impl" using inv' by simp
  have n: "dq_size impl < dq_capacity impl" using slots_room [OF inv] room(1) by simp
  have tl: "t < length (dq_entries impl)" "dq_size impl < length (dq_heap impl)"
    using ix top(1) n by (simp_all add: indexed_def)
  have q_fields: "dq_size q = Suc (dq_size impl)" "dq_capacity q = dq_capacity impl"
    "dq_next_order q = dq_next_order impl + 1" "dq_free_slots q = dq_free_slots impl"
    "dq_free_count q = dq_free_count impl - 1"
    by (simp_all add: q_def enqueued_def)
  have other: "dq_entries q ! u = dq_entries impl ! u" if "u \<noteq> t" for u
    using that by (simp add: q_def enqueued_def)
  have new: "de_event (dq_entries q ! t) = \<lparr>ev_id = salts_deadline_make_id t (de_generation (dq_entries impl ! t)),
      ev_deadline_ms = d, ev_token = tok\<rparr>" "de_order (dq_entries q ! t) = dq_next_order impl"
      "de_generation (dq_entries q ! t) = de_generation (dq_entries impl ! t)" "de_active (dq_entries q ! t)"
      "de_heap_index (dq_entries q ! t) = dq_size impl"
    using tl by (simp_all add: q_def enqueued_def)
  have slots: "heap_slots q = heap_slots impl @ [t]"
    using tl(2) by (simp add: heap_slots_def q_def enqueued_def take_Suc_conv_app_nth)
  have heap_nth: "dq_heap q ! k = (if k = dq_size impl then t else dq_heap impl ! k)" for k
    using tl(2) by (simp add: q_def enqueued_def nth_update)
  have lens: "length (dq_entries q) = length (dq_entries impl)" "length (dq_heap q) = length (dq_heap impl)"
    by (simp_all add: q_def enqueued_def)
  have ne: "dq_heap impl ! k \<noteq> t" if "k < dq_size impl" for k
    using top(4) ix that nth_mem [of k "heap_slots impl"] by (auto simp: heap_slots_nth)
  have ixq: "indexed q"
    unfolding indexed_def slots
  proof (intro conjI allI impI)
    fix k assume "k < dq_size q"
    then show "dq_heap q ! k < dq_capacity q" "de_heap_index (dq_entries q ! (dq_heap q ! k)) = k"
      using ix new(5) top(1) other ne by (auto simp: heap_nth q_fields indexed_def less_Suc_eq)
  qed (use ix n top(4) lens q_fields in \<open>simp_all add: indexed_def\<close>)
  have key: "slot_key q u = slot_key impl u" if "u \<in> set (heap_slots impl)" for u
    using other [of u] top(4) that by (cases "u = t") (simp_all add: slot_key_def)
  have "is_heap (slot_lt q) (heap_slots impl)"
    by (rule is_heap_cong [of "slot_lt impl"]) (use inv' key in simp_all)
  from deadline_heap.heap_push [OF this, of t]
  have heapq: "is_heap (slot_lt q) (sift_up (slot_lt q) (heap_slots q) (dq_size impl))"
    using ix by (simp add: slots)
  have sz: "dq_size impl < dq_size q" by (simp add: q_fields)
  from sift_up_refines [OF ixq sz] have up: "indexed impl'" "same_rest q impl'"
    "heap_slots impl' = sift_up (slot_lt q) (heap_slots q) (dq_size impl)"
    by (simp_all add: impl' q_def)
  note same = same_restD [OF up(2)]
  have "mset (heap_slots impl') = mset (heap_slots q)"
    using sift_up_keeps [of "dq_size impl" "heap_slots q"] up(3) ix by (simp add: slots)
  from mset_eq_setD [OF this] have set': "set (heap_slots impl') = insert t (set (heap_slots impl))"
    by (simp add: slots)
  have fields: "dq_capacity impl' = dq_capacity impl" "dq_next_order impl' = dq_next_order impl + 1"
    "dq_free_slots impl' = dq_free_slots impl" "dq_free_count impl' = dq_free_count impl - 1"
    using up(2) q_fields by (simp_all add: same_rest_def)
  have heap': "is_heap (slot_lt impl') (heap_slots impl')" using heapq up(3) same(1) by simp
  have act: "de_active (dq_entries impl' ! u) \<longleftrightarrow> u \<in> set (heap_slots impl')" if "u < dq_capacity impl'" for u
    using that inv' other [of u] new(4) by (cases "u = t") (simp_all add: same fields set')
  have arm: "armed impl' u" if "u \<in> set (heap_slots impl')" for u
  proof (cases "u = t")
    case True
    then show ?thesis using new top(3) order_succ(1) [OF room(2)] by (simp add: armed_def Let_def same fields)
  next
    case False
    then have "armed impl u" using that inv' set' by simp
    then show ?thesis using other [OF False] order_succ(2) [OF room(2)]
      by (simp add: armed_def Let_def same fields)
  qed
  have ord: "order_of impl' u = (if u = t then dq_next_order impl else order_of impl u)" for u
    using other [of u] new(2) by (simp add: order_of_def same)
  have inj: "inj_on (order_of impl') (set (heap_slots impl'))"
  proof -
    have less: "order_of impl u < dq_next_order impl" if "u \<in> set (heap_slots impl)" for u
      using that inv' by (simp add: armed_def order_of_def Let_def)
    moreover have "inj_on (order_of impl') (set (heap_slots impl))"
      using inv' ord top(4) by (metis inj_on_cong)
    moreover have "order_of impl' t \<notin> order_of impl' ` set (heap_slots impl)"
      using top(4) by (auto simp: ord dest: less)
    ultimately show ?thesis using top(4) unfolding set' by (simp add: inj_on_insert)
  qed
  have "free_set impl' = {u. u < dq_capacity impl' \<and> \<not> de_active (dq_entries impl' ! u) \<and> de_generation (dq_entries impl' ! u) \<noteq> 0}"
  proof -
    have "free_set impl' = free_set impl - {t}"
      using top(5,6) by (simp add: free_set_def fields)
    moreover have "free_set impl = {u. u < dq_capacity impl \<and> \<not> de_active (dq_entries impl ! u) \<and> de_generation (dq_entries impl ! u) \<noteq> 0}"
      using inv' by (simp add: free_ok_def)
    moreover have "de_active (dq_entries impl' ! u) = (u = t \<or> de_active (dq_entries impl ! u))"
        "u \<noteq> t \<Longrightarrow> de_generation (dq_entries impl' ! u) = de_generation (dq_entries impl ! u)" for u
      using other [of u] new(4) by (cases "u = t", simp_all add: same)
    ultimately show ?thesis unfolding fields(1) by auto
  qed
  moreover have "dq_free_count impl' \<le> dq_capacity impl'" using inv' by (auto simp: free_ok_def fields)
  ultimately have "free_ok impl'" using inv' top(7) by (simp add: free_ok_def fields)
  then have "dq_inv impl'" using up(1) heap' act arm inj inv' fields by (simp add: dq_inv_def)
  moreover have "bare (dq_entries impl' ! u) = bare (dq_entries impl ! u)" if "u \<noteq> t" for u
    using up(2) other [OF that] by (simp add: same_rest_def)
  ultimately show ?thesis using set' fields new top ord [of t] by (simp add: same)
qed

section \<open>Identifiers\<close>

lemma make_id_parts:
  assumes "slot < UINT32_MAX"
  shows "(ucast (salts_deadline_make_id slot g) :: u32) = of_nat slot + 1"
    "(ucast (drop_bit 32 (salts_deadline_make_id slot g)) :: u32) = g"
proof -
  let ?n = "of_nat slot + 1 :: u64"
  have n: "?n = of_nat (Suc slot)" by simp
  have u: "unat ?n = Suc slot"
    unfolding n by (rule unat_of_nat_small) (use assms in \<open>simp add: UINT32_MAX_def\<close>)
  then have "unat ?n < 2 ^ 32" using assms by (simp add: UINT32_MAX_def)
  note low = bit_bound [OF this]
  have "ucast ?n = (of_nat (Suc slot) :: u32)" using of_nat_unat [of ?n, where 'a = u32] unfolding u by simp
  moreover have "(ucast (salts_deadline_make_id slot g) :: u32) = ucast ?n"
    by (rule bit_word_eqI) (auto simp: salts_deadline_make_id_def bit_simps)
  ultimately show "(ucast (salts_deadline_make_id slot g) :: u32) = of_nat slot + 1" by (simp add: add.commute)
  show "(ucast (drop_bit 32 (salts_deadline_make_id slot g)) :: u32) = g"
    by (rule bit_word_eqI) (use low in \<open>auto simp: salts_deadline_make_id_def bit_simps\<close>)
qed

lemma decode_make:
  assumes "slot < UINT32_MAX" "g \<noteq> 0"
  shows "salts_deadline_decode_id (salts_deadline_make_id slot g) = Some (slot, g)"
proof -
  have u: "unat (of_nat slot :: u32) = slot"
    using assms(1) by (intro unat_of_nat_small) (simp add: UINT32_MAX_def)
  moreover have "(of_nat slot + 1 :: u32) \<noteq> 0"
    using assms(1) u generation_max [of "of_nat slot"] by simp
  ultimately show ?thesis
    using assms(2) by (simp add: salts_deadline_decode_id_def make_id_parts [OF assms(1)] Let_def)
qed

lemma make_decode:
  assumes "salts_deadline_decode_id i = Some (slot, g)"
  shows "salts_deadline_make_id slot g = i \<and> g \<noteq> 0"
proof -
  have g: "g = ucast (drop_bit 32 i)" "g \<noteq> 0" and e: "(ucast i :: u32) \<noteq> 0" "slot = unat ((ucast i :: u32) - 1)"
    using assms by (auto simp: salts_deadline_decode_id_def Let_def split: if_splits)
  let ?e = "ucast i :: u32"
  have "Suc (unat (?e - 1)) = unat ?e" using e(1) unatSuc [of "?e - 1"] by simp
  then have "(of_nat slot + 1 :: u64) = of_nat (unat ?e)" using e(2) by (metis of_nat_Suc add.commute)
  also have "\<dots> = ucast ?e" by simp
  also have "\<dots> = take_bit 32 i" by (rule bit_word_eqI) (auto simp: bit_simps)
  finally have "salts_deadline_make_id slot g = push_bit 32 (ucast g) OR take_bit 32 i"
    by (simp add: salts_deadline_make_id_def)
  also have "\<dots> = i"
    unfolding g(1) by (rule bit_word_eqI) (auto simp: bit_simps)
  finally show ?thesis using g(2) by simp
qed

section \<open>The queue as a list in order of arrival\<close>

definition event_at :: "salts_deadline_queue_impl \<Rightarrow> nat \<Rightarrow> salts_deadline_event" where
  "event_at impl t = de_event (dq_entries impl ! t)"

definition arrivals :: "salts_deadline_queue_impl \<Rightarrow> nat list" where
  "arrivals impl = sort_key (order_of impl) (heap_slots impl)"

definition dq_pending :: "salts_deadline_queue_impl \<Rightarrow> salts_deadline_event list" where
  "dq_pending impl = map (event_at impl) (arrivals impl)"

lemma arrivals_eqI:
  assumes inv: "dq_inv impl" and p: "set ts = set (heap_slots impl)" "sorted_wrt (\<lambda>a b. order_of impl a < order_of impl b) ts"
  shows "arrivals impl = ts"
proof -
  let ?f = "order_of impl"
  have inj: "inj_on ?f (set (heap_slots impl))" and d: "distinct (heap_slots impl)"
    using inv by (simp_all add: dq_inv_def indexed_def)
  have s: "sorted_wrt (<) (map ?f ts)" using p(2) by (simp add: sorted_wrt_map)
  then have "distinct (map ?f ts)" "sorted (map ?f ts)" using strict_sorted_iff by blast+
  moreover have "distinct (map ?f (arrivals impl))" using d inj by (simp add: arrivals_def distinct_map)
  moreover have "sorted (map ?f (arrivals impl))" by (simp add: arrivals_def)
  moreover have "set (arrivals impl) = set ts" by (simp add: arrivals_def p(1))
  ultimately have "map ?f (arrivals impl) = map ?f ts"
    by (intro sorted_distinct_set_unique) simp_all
  moreover have "inj_on ?f (set (arrivals impl) \<union> set ts)" using inj p(1) by (simp add: arrivals_def)
  ultimately show ?thesis by (rule map_inj_on)
qed

lemma arrivals_props:
  assumes "dq_inv impl"
  shows "set (arrivals impl) = set (heap_slots impl)" "distinct (arrivals impl)"
    "sorted_wrt (\<lambda>a b. order_of impl a < order_of impl b) (arrivals impl)"
proof -
  have inj: "inj_on (order_of impl) (set (heap_slots impl))" and d: "distinct (heap_slots impl)"
    using assms by (simp_all add: dq_inv_def indexed_def)
  show "set (arrivals impl) = set (heap_slots impl)" "distinct (arrivals impl)" using d by (simp_all add: arrivals_def)
  have "sorted (map (order_of impl) (arrivals impl))" "distinct (map (order_of impl) (arrivals impl))"
    using d inj by (simp_all add: arrivals_def distinct_map)
  then have "sorted_wrt (<) (map (order_of impl) (arrivals impl))" by (simp add: strict_sorted_iff)
  then show "sorted_wrt (\<lambda>a b. order_of impl a < order_of impl b) (arrivals impl)" by (simp add: sorted_wrt_map)
qed

lemma remove_pending:
  assumes inv: "dq_inv impl" and i: "i < dq_size impl" and run: "salts_deadline_remove impl i = (ev, impl')"
  shows "\<exists>xs ys. arrivals impl = xs @ (dq_heap impl ! i) # ys \<and> arrivals impl' = xs @ ys \<and>
    ev = event_at impl (dq_heap impl ! i) \<and> dq_pending impl = map (event_at impl) xs @ ev # map (event_at impl) ys \<and>
    dq_pending impl' = map (event_at impl) xs @ map (event_at impl) ys"
proof -
  define t where "t = dq_heap impl ! i"
  note spec = remove_spec [OF inv i t_def run] and ar = arrivals_props [OF inv]
  have "t \<in> set (arrivals impl)"
    using nth_mem [of i "heap_slots impl"] inv i by (simp add: ar heap_slots_nth t_def dq_inv_def)
  then obtain xs ys where split: "arrivals impl = xs @ t # ys" by (meson split_list)
  have rest: "bare (dq_entries impl' ! u) = bare (dq_entries impl ! u)" if "u \<in> set (xs @ ys)" for u
    using that spec ar(2) split by auto
  have order: "order_of impl' u = order_of impl u" if "u \<in> set (xs @ ys)" for u
    using bare_fields(2) [OF rest [OF that]] by (simp add: order_of_def)
  have "sorted_wrt (\<lambda>a b. order_of impl a < order_of impl b) (xs @ ys)"
    using ar(3) by (auto simp: split sorted_wrt_append)
  then have "sorted_wrt (\<lambda>a b. order_of impl' a < order_of impl' b) (xs @ ys)"
    by (rule sorted_wrt_mono_rel [rotated]) (simp add: order)
  moreover have "set (xs @ ys) = set (heap_slots impl')"
    using spec ar(1,2) split by auto
  ultimately have new: "arrivals impl' = xs @ ys" using spec by (intro arrivals_eqI) simp_all
  have "event_at impl' u = event_at impl u" if "u \<in> set (xs @ ys)" for u
    using bare_fields(1) [OF rest [OF that]] by (simp add: event_at_def)
  then have "map (event_at impl') (xs @ ys) = map (event_at impl) (xs @ ys)" by (rule map_cong [OF refl])
  with split new spec show ?thesis
    by (intro exI [of _ xs] exI [of _ ys]) (simp add: dq_pending_def event_at_def t_def)
qed

lemma enqueue_pending:
  assumes inv: "dq_inv impl" and room: "dq_free_count impl \<noteq> 0" "dq_next_order impl \<noteq> - 1"
    and t: "t = dq_free_slots impl ! (dq_free_count impl - 1)"
    and impl': "impl' = salts_deadline_sift_up (enqueued impl t d tok) (dq_size impl)"
  shows "dq_pending impl' = dq_pending impl @ [event_at impl' t]"
proof -
  note spec = enqueue_spec [OF assms] and ar = arrivals_props [OF inv]
  have rest: "order_of impl' u = order_of impl u" "event_at impl' u = event_at impl u" if "u \<in> set (arrivals impl)" for u
  proof -
    have "u \<noteq> t" using that spec ar(1) by auto
    then have b: "bare (dq_entries impl' ! u) = bare (dq_entries impl ! u)" using spec by blast
    show "order_of impl' u = order_of impl u" "event_at impl' u = event_at impl u"
      unfolding order_of_def event_at_def by (fact bare_fields(2) [OF b], fact bare_fields(1) [OF b])
  qed
  have "order_of impl u < dq_next_order impl" if "u \<in> set (arrivals impl)" for u
    using that ar(1) inv by (simp add: dq_inv_def armed_def order_of_def Let_def)
  moreover have "order_of impl' t = dq_next_order impl" using spec by blast
  moreover have "sorted_wrt (\<lambda>a b. order_of impl' a < order_of impl' b) (arrivals impl)"
    using ar(3) by (rule sorted_wrt_mono_rel [rotated]) (simp add: rest)
  ultimately have "sorted_wrt (\<lambda>a b. order_of impl' a < order_of impl' b) (arrivals impl @ [t])"
    by (simp add: sorted_wrt_append rest)
  moreover have "set (arrivals impl @ [t]) = set (heap_slots impl')" using spec ar(1) by auto
  ultimately have "arrivals impl' = arrivals impl @ [t]" using spec by (intro arrivals_eqI) simp_all
  moreover have "map (event_at impl') (arrivals impl) = map (event_at impl) (arrivals impl)"
    using rest(2) by (rule map_cong [OF refl])
  ultimately show ?thesis by (simp add: dq_pending_def)
qed

lemma length_pending: "dq_inv impl \<Longrightarrow> length (dq_pending impl) = dq_size impl"
  by (simp add: dq_pending_def arrivals_def dq_inv_def)

lemma pending_id:
  assumes "dq_inv impl" "t \<in> set (heap_slots impl)"
  shows "ev_id (event_at impl t) = salts_deadline_make_id t (de_generation (dq_entries impl ! t))"
    "de_generation (dq_entries impl ! t) \<noteq> 0" "t < UINT32_MAX" "t < dq_capacity impl" "de_active (dq_entries impl ! t)"
proof -
  have ix: "indexed impl" using assms(1) by (simp add: dq_inv_def)
  show t: "t < dq_capacity impl" using slots_bounded [OF ix assms(2)] .
  then show "t < UINT32_MAX" "de_active (dq_entries impl ! t)" using assms by (auto simp: dq_inv_def)
  show "ev_id (event_at impl t) = salts_deadline_make_id t (de_generation (dq_entries impl ! t))"
    "de_generation (dq_entries impl ! t) \<noteq> 0"
    using assms by (auto simp: dq_inv_def armed_def Let_def event_at_def)
qed

lemma set_pending: "dq_inv impl \<Longrightarrow> set (dq_pending impl) = event_at impl ` set (heap_slots impl)"
  by (simp add: dq_pending_def arrivals_props)

text \<open>The identifiers of pending events are those that decode to an armed slot of the right generation.\<close>

lemma pending_ids_iff:
  assumes "dq_inv impl"
  shows "i \<in> ev_id ` set (dq_pending impl) \<longleftrightarrow>
    (\<exists>t g. salts_deadline_decode_id i = Some (t, g) \<and> t < dq_capacity impl \<and>
       de_active (dq_entries impl ! t) \<and> de_generation (dq_entries impl ! t) = g)"
proof
  assume "i \<in> ev_id ` set (dq_pending impl)"
  then obtain t where "t \<in> set (heap_slots impl)" "i = ev_id (event_at impl t)"
    using assms by (auto simp: set_pending)
  with pending_id [OF assms, of t] decode_make show "\<exists>t g. salts_deadline_decode_id i = Some (t, g) \<and>
      t < dq_capacity impl \<and> de_active (dq_entries impl ! t) \<and> de_generation (dq_entries impl ! t) = g" by auto
next
  assume "\<exists>t g. salts_deadline_decode_id i = Some (t, g) \<and> t < dq_capacity impl \<and>
    de_active (dq_entries impl ! t) \<and> de_generation (dq_entries impl ! t) = g"
  then obtain t g where d: "salts_deadline_decode_id i = Some (t, g)" "t < dq_capacity impl"
    "de_active (dq_entries impl ! t)" "de_generation (dq_entries impl ! t) = g" by blast
  then have t: "t \<in> set (heap_slots impl)" using assms by (simp add: dq_inv_def)
  have "i = ev_id (event_at impl t)" using make_decode [OF d(1)] pending_id(1) [OF assms t] d(4) by simp
  then show "i \<in> ev_id ` set (dq_pending impl)" using t assms by (auto simp: set_pending)
qed

lemma take_first:
  assumes inv: "dq_inv impl" and n: "dq_size impl \<noteq> 0" and split: "arrivals impl = xs @ (dq_heap impl ! 0) # ys"
  shows "\<forall>x \<in> set xs. ev_deadline_ms (event_at impl (dq_heap impl ! 0)) < ev_deadline_ms (event_at impl x)"
    "\<forall>y \<in> set ys. ev_deadline_ms (event_at impl (dq_heap impl ! 0)) \<le> ev_deadline_ms (event_at impl y)"
proof -
  let ?t = "dq_heap impl ! 0"
  have ix: "indexed impl" and heap: "is_heap (slot_lt impl) (heap_slots impl)" using inv by (simp_all add: dq_inv_def)
  note ar = arrivals_props [OF inv]
  have least: "\<not> slot_lt impl u ?t" if "u \<in> set (arrivals impl)" for u
  proof -
    obtain k where k: "k < length (heap_slots impl)" "u = heap_slots impl ! k"
      using \<open>u \<in> set (arrivals impl)\<close> ar(1) by (metis in_set_conv_nth)
    have "\<not> slot_lt impl (heap_slots impl ! k) (heap_slots impl ! 0)"
      by (rule deadline_heap.heap_root [OF heap k(1)])
    then show ?thesis using k(2) n by (simp add: heap_slots_nth)
  qed
  have before: "order_of impl x < order_of impl ?t" if "x \<in> set xs" for x
    using ar(3) that by (auto simp: split sorted_wrt_append)
  show "\<forall>x \<in> set xs. ev_deadline_ms (event_at impl ?t) < ev_deadline_ms (event_at impl x)"
  proof
    fix x assume x: "x \<in> set xs"
    show "ev_deadline_ms (event_at impl ?t) < ev_deadline_ms (event_at impl x)"
      using least [of x] before [OF x] x split by (auto simp: key_before_def slot_key_def event_at_def order_of_def)
  qed
  show "\<forall>y \<in> set ys. ev_deadline_ms (event_at impl ?t) \<le> ev_deadline_ms (event_at impl y)"
  proof
    fix y assume y: "y \<in> set ys"
    show "ev_deadline_ms (event_at impl ?t) \<le> ev_deadline_ms (event_at impl y)"
      using least [of y] y split by (simp add: key_before_def slot_key_def event_at_def not_less)
  qed
qed

section \<open>Operations against the specification\<close>

datatype dq_op = Schedule u64 u64 | Cancel u64 | Take_Ready u64

text \<open>The specification: the pending events in order of arrival.\<close>

inductive deadline_spec ::
  "salts_deadline_event list \<Rightarrow> dq_op \<Rightarrow> salts_error \<Rightarrow> salts_deadline_event option \<Rightarrow>
   salts_deadline_event list \<Rightarrow> bool" where
  scheduled: "i \<notin> ev_id ` set ps \<Longrightarrow> ev = \<lparr>ev_id = i, ev_deadline_ms = d, ev_token = tok\<rparr> \<Longrightarrow>
    deadline_spec ps (Schedule d tok) SALTS_OK (Some ev) (ps @ [ev])"
| exhausted: "r = SALTS_ENOBUFS \<or> r = SALTS_ERANGE \<Longrightarrow> deadline_spec ps (Schedule d tok) r None ps"
| cancelled: "ev_id ev = i \<Longrightarrow> deadline_spec (xs @ ev # ys) (Cancel i) SALTS_OK (Some ev) (xs @ ys)"
| unknown: "i \<notin> ev_id ` set ps \<Longrightarrow> r = SALTS_EINVAL \<or> r = SALTS_ENOENT \<Longrightarrow>
    deadline_spec ps (Cancel i) r None ps"
| taken: "ev_deadline_ms ev \<le> now \<Longrightarrow> \<forall>x \<in> set xs. ev_deadline_ms ev < ev_deadline_ms x \<Longrightarrow>
    \<forall>y \<in> set ys. ev_deadline_ms ev \<le> ev_deadline_ms y \<Longrightarrow>
    deadline_spec (xs @ ev # ys) (Take_Ready now) SALTS_OK (Some ev) (xs @ ys)"
| not_due: "\<forall>x \<in> set ps. now < ev_deadline_ms x \<Longrightarrow>
    deadline_spec ps (Take_Ready now) SALTS_ETIMEDOUT None ps"

text \<open>One call of the code on a live queue. A successful schedule is reported as the event it armed.\<close>

definition handle :: "salts_deadline_queue_impl \<Rightarrow> salts_deadline_queue ptr" where
  "handle impl = Some \<lparr>dq_impl = Some impl\<rparr>"

definition dq_exec ::
  "salts_deadline_queue_impl \<Rightarrow> dq_op \<Rightarrow>
   salts_error \<times> salts_deadline_event option \<times> salts_deadline_queue_impl" where
  "dq_exec impl op =
     (case op of
        Schedule d tok \<Rightarrow>
          (case salts_deadline_queue_schedule (handle impl) d tok (Some 0) of
             (r, q, out) \<Rightarrow>
               (r, if r = SALTS_OK then Some \<lparr>ev_id = the out, ev_deadline_ms = d, ev_token = tok\<rparr> else None,
                the (salts_deadline_get q)))
      | Cancel i \<Rightarrow>
          (case salts_deadline_queue_cancel (handle impl) i (Some zero_event) of
             (r, q, out) \<Rightarrow> (r, if r = SALTS_OK then out else None, the (salts_deadline_get q)))
      | Take_Ready now \<Rightarrow>
          (case salts_deadline_queue_take_ready (handle impl) now (Some zero_event) of
             (r, q, out) \<Rightarrow> (r, if r = SALTS_OK then out else None, the (salts_deadline_get q))))"

lemma handle_get [simp]: "salts_deadline_get (handle impl) = Some impl"
  "salts_deadline_get (Some \<lparr>dq_impl = Some impl\<rparr>) = Some impl"
  by (simp_all add: salts_deadline_get_def handle_def)

lemma exec_schedule:
  assumes inv: "dq_inv impl" and t: "t = dq_free_slots impl ! (dq_free_count impl - 1)"
    and impl': "impl' = salts_deadline_sift_up (enqueued impl t d tok) (dq_size impl)"
  shows "dq_exec impl (Schedule d tok) =
    (if dq_free_count impl = 0 then (SALTS_ENOBUFS, None, impl)
     else if dq_next_order impl = - 1 then (SALTS_ERANGE, None, impl)
     else (SALTS_OK, Some (event_at impl' t), impl'))"
proof (cases "dq_free_count impl = 0 \<or> dq_next_order impl = - 1")
  case True
  then show ?thesis by (auto simp: dq_exec_def salts_deadline_queue_schedule_def)
next
  case False
  then have room: "dq_free_count impl \<noteq> 0" "dq_next_order impl \<noteq> - 1" by simp_all
  note spec = enqueue_spec [OF inv room t impl'] and top = free_top [OF inv room(1) t]
  have ev: "event_at impl' t = \<lparr>ev_id = salts_deadline_make_id t (de_generation (dq_entries impl ! t)),
      ev_deadline_ms = d, ev_token = tok\<rparr>"
    using spec by (simp add: event_at_def)
  have t': "dq_free_slots impl ! (dq_free_count impl - Suc 0) = t" using t by simp
  have "salts_deadline_queue_schedule (handle impl) d tok (Some 0) =
      (SALTS_OK, handle impl', Some (salts_deadline_make_id t (de_generation (dq_entries impl ! t))))"
    using room top(2,3)
    by (simp add: salts_deadline_queue_schedule_def Let_def impl' enqueued_def handle_def t')
  then show ?thesis using room ev by (simp add: dq_exec_def)
qed

lemma exec_cancel:
  assumes inv: "dq_inv impl"
  shows "if i \<in> ev_id ` set (dq_pending impl)
    then \<exists>k ev impl'. k < dq_size impl \<and> salts_deadline_remove impl k = (ev, impl') \<and> ev_id ev = i \<and>
      dq_exec impl (Cancel i) = (SALTS_OK, Some ev, impl')
    else \<exists>r. (r = SALTS_EINVAL \<or> r = SALTS_ENOENT) \<and> dq_exec impl (Cancel i) = (r, None, impl)"
proof (cases "i \<in> ev_id ` set (dq_pending impl)")
  case True
  then obtain t g where d: "salts_deadline_decode_id i = Some (t, g)" "t < dq_capacity impl"
    "de_active (dq_entries impl ! t)" "de_generation (dq_entries impl ! t) = g"
    using pending_ids_iff [OF inv] by blast
  have ix: "indexed impl" using inv by (simp add: dq_inv_def)
  have t: "t \<in> set (heap_slots impl)" using d inv by (simp add: dq_inv_def)
  then obtain k where k: "k < dq_size impl" "dq_heap impl ! k = t"
    using ix by (auto simp: in_set_conv_nth heap_slots_nth)
  then have idx: "de_heap_index (dq_entries impl ! t) = k" using ix by (auto simp: indexed_def)
  obtain ev impl' where r: "salts_deadline_remove impl k = (ev, impl')" by fastforce
  have "ev = event_at impl t" using remove_pending [OF inv k(1) r] k(2) by auto
  then have "ev_id ev = i" using pending_id(1) [OF inv t] make_decode [OF d(1)] d(4) by simp
  moreover have "dq_exec impl (Cancel i) = (SALTS_OK, Some ev, impl')"
    using d idx r by (simp add: dq_exec_def salts_deadline_queue_cancel_def handle_def)
  ultimately show ?thesis using True k(1) r by auto
next
  case False
  have "dq_exec impl (Cancel i) \<in> {(SALTS_EINVAL, None, impl), (SALTS_ENOENT, None, impl)}"
  proof (cases "salts_deadline_decode_id i")
    case None
    then show ?thesis by (simp add: dq_exec_def salts_deadline_queue_cancel_def)
  next
    case (Some p)
    then obtain t g where p: "salts_deadline_decode_id i = Some (t, g)" by (cases p) auto
    then have "dq_capacity impl \<le> t \<or> \<not> de_active (dq_entries impl ! t) \<or> de_generation (dq_entries impl ! t) \<noteq> g"
      using False pending_ids_iff [OF inv, of i] by (auto simp: not_less)
    then show ?thesis using p by (auto simp: dq_exec_def salts_deadline_queue_cancel_def)
  qed
  with False show ?thesis by auto
qed

lemma exec_take:
  assumes inv: "dq_inv impl"
  shows "if dq_size impl = 0 \<or> now < ev_deadline_ms (event_at impl (dq_heap impl ! 0))
    then dq_exec impl (Take_Ready now) = (SALTS_ETIMEDOUT, None, impl)
    else \<exists>ev impl'. salts_deadline_remove impl 0 = (ev, impl') \<and> dq_exec impl (Take_Ready now) = (SALTS_OK, Some ev, impl')"
  by (auto simp: dq_exec_def salts_deadline_queue_take_ready_def event_at_def handle_def split: prod.splits)

section \<open>Every identifier ever issued\<close>

text \<open>Reachable queues with the identifiers their schedules returned, latest first.\<close>

inductive dq_reach :: "size_t \<Rightarrow> u64 list \<Rightarrow> salts_deadline_queue_impl \<Rightarrow> bool" for capacity where
  reach_init: "dq_reach capacity [] (fresh_impl capacity)"
| reach_schedule: "dq_reach capacity ids impl \<Longrightarrow> dq_exec impl (Schedule d tok) = (SALTS_OK, Some ev, impl') \<Longrightarrow>
    dq_reach capacity (ev_id ev # ids) impl'"
| reach_other: "dq_reach capacity ids impl \<Longrightarrow> dq_exec impl op = (r, ev, impl') \<Longrightarrow>
    (\<nexists>d tok. op = Schedule d tok) \<or> r \<noteq> SALTS_OK \<Longrightarrow> dq_reach capacity ids impl'"

text \<open>An issued identifier is pending, or its slot has moved on to a later generation or is retired.\<close>

definition accounted :: "salts_deadline_queue_impl \<Rightarrow> u64 \<Rightarrow> bool" where
  "accounted impl i \<longleftrightarrow>
     (\<exists>t g. salts_deadline_decode_id i = Some (t, g) \<and> t < dq_capacity impl \<and>
        (let h = de_generation (dq_entries impl ! t) in
         g < h \<or> h = 0 \<or> (g = h \<and> de_active (dq_entries impl ! t))))"

lemma fresh_inv:
  assumes "capacity \<le> UINT32_MAX"
  shows "dq_inv (fresh_impl capacity)" "dq_pending (fresh_impl capacity) = []"
proof -
  let ?f = "fresh_impl capacity"
  have slots: "heap_slots ?f = []" by (simp add: heap_slots_def fresh_impl_def)
  have rev: "map (\<lambda>index. capacity - Suc index) [0..<capacity] = rev [0..<capacity]"
    by (rule nth_equalityI) (simp_all add: rev_nth)
  have "free_ok ?f"
    unfolding free_ok_def free_set_def by (simp add: fresh_impl_def rev) auto
  then show "dq_inv ?f"
    using slots assms by (simp add: dq_inv_def indexed_def is_heap_def) (simp add: fresh_impl_def)
  show "dq_pending ?f = []" by (simp add: dq_pending_def arrivals_def slots)
qed

lemma next_generation_later:
  "next_generation g = 0 \<or> g < next_generation g \<and> (\<forall>k. k < g \<longrightarrow> k < next_generation g)"
proof (cases "unat g = UINT32_MAX")
  case False
  then have "g \<noteq> - 1" by (simp add: generation_max eq_neg_iff_add_eq_0)
  then show ?thesis using order_succ [of g] False by (simp add: next_generation_def)
qed (simp add: next_generation_def)

lemma accounted_remove:
  assumes "dq_inv impl" "k < dq_size impl" "salts_deadline_remove impl k = (ev, impl')" "accounted impl i"
  shows "accounted impl' i"
proof -
  define s where "s = dq_heap impl ! k"
  note spec = remove_spec [OF assms(1,2) s_def assms(3)]
  from assms(4) obtain t g where i: "salts_deadline_decode_id i = Some (t, g)" "t < dq_capacity impl"
    "g < de_generation (dq_entries impl ! t) \<or> de_generation (dq_entries impl ! t) = 0 \<or>
     (g = de_generation (dq_entries impl ! t) \<and> de_active (dq_entries impl ! t))"
    unfolding accounted_def Let_def by blast
  have armed: "de_generation (dq_entries impl ! s) \<noteq> 0"
    using pending_id(2) [OF assms(1), of s] nth_mem [of k "heap_slots impl"] assms(1,2)
    by (simp add: s_def dq_inv_def heap_slots_nth)
  show ?thesis
  proof (cases "t = s")
    case True
    then have "g \<le> de_generation (dq_entries impl ! s)" using i(3) armed by auto
    then show ?thesis
      using i(1,2) spec True next_generation_later [of "de_generation (dq_entries impl ! s)"]
      unfolding accounted_def Let_def by (metis order_le_less)
  next
    case False
    then have "bare (dq_entries impl' ! t) = bare (dq_entries impl ! t)" using spec by blast
    from bare_fields(3,4) [OF this] i spec show ?thesis unfolding accounted_def Let_def by metis
  qed
qed

lemma accounted_enqueue:
  assumes "dq_inv impl" "dq_free_count impl \<noteq> 0" "dq_next_order impl \<noteq> - 1"
    and t: "t = dq_free_slots impl ! (dq_free_count impl - 1)"
    and impl': "impl' = salts_deadline_sift_up (enqueued impl t d tok) (dq_size impl)"
  shows "accounted impl i \<Longrightarrow> accounted impl' i \<and> i \<noteq> ev_id (event_at impl' t)"
    and "accounted impl' (ev_id (event_at impl' t))"
proof -
  note spec = enqueue_spec [OF assms]
  let ?h = "de_generation (dq_entries impl ! t)"
  have "t < UINT32_MAX" using spec assms(1) by (auto simp: dq_inv_def)
  then have dec: "salts_deadline_decode_id (ev_id (event_at impl' t)) = Some (t, ?h)"
    using spec by (simp add: event_at_def decode_make)
  have act: "de_active (dq_entries impl' ! t)" using spec by (auto simp: dq_inv_def)
  show "accounted impl' (ev_id (event_at impl' t))" using dec spec act by (simp add: accounted_def)
  show "accounted impl' i \<and> i \<noteq> ev_id (event_at impl' t)" if "accounted impl i"
  proof -
    from that obtain u g where i: "salts_deadline_decode_id i = Some (u, g)" "u < dq_capacity impl"
      "g < de_generation (dq_entries impl ! u) \<or> de_generation (dq_entries impl ! u) = 0 \<or>
       (g = de_generation (dq_entries impl ! u) \<and> de_active (dq_entries impl ! u))"
      unfolding accounted_def Let_def by blast
    show ?thesis
    proof (cases "u = t")
      case True
      then have "g < ?h" using i(3) spec by auto
      then show ?thesis using i(1,2) True dec spec by (auto simp: accounted_def Let_def)
    next
      case False
      then have "bare (dq_entries impl' ! u) = bare (dq_entries impl ! u)" using spec by blast
      from bare_fields(3,4) [OF this] i spec False dec show ?thesis by (auto simp: accounted_def Let_def)
    qed
  qed
qed

lemma exec_refines:
  assumes inv: "dq_inv impl" and run: "dq_exec impl op = (r, ev, impl')"
  shows "dq_inv impl' \<and> dq_capacity impl' = dq_capacity impl \<and>
    deadline_spec (dq_pending impl) op r ev (dq_pending impl') \<and>
    (\<forall>i. accounted impl i \<longrightarrow> accounted impl' i) \<and>
    (\<forall>d tok. op = Schedule d tok \<and> r = SALTS_OK \<longrightarrow>
       accounted impl' (ev_id (the ev)) \<and> \<not> accounted impl (ev_id (the ev)))"
proof -
  have removed: ?thesis if k: "k < dq_size impl" "salts_deadline_remove impl k = (e, impl')" "ev = Some e" "r = SALTS_OK"
    and op: "\<nexists>d tok. op = Schedule d tok"
    and spec: "\<And>xs ys. arrivals impl = xs @ (dq_heap impl ! k) # ys \<Longrightarrow> e = event_at impl (dq_heap impl ! k) \<Longrightarrow>
      deadline_spec (map (event_at impl) xs @ e # map (event_at impl) ys) op SALTS_OK (Some e)
        (map (event_at impl) xs @ map (event_at impl) ys)" for k e
  proof -
    from remove_pending [OF inv k(1,2)] obtain xs ys where
      "arrivals impl = xs @ (dq_heap impl ! k) # ys" "e = event_at impl (dq_heap impl ! k)"
      "dq_pending impl = map (event_at impl) xs @ e # map (event_at impl) ys"
      "dq_pending impl' = map (event_at impl) xs @ map (event_at impl) ys" by blast
    then have "deadline_spec (dq_pending impl) op SALTS_OK (Some e) (dq_pending impl')" using spec by simp
    moreover have "dq_inv impl'" "dq_capacity impl' = dq_capacity impl"
      using remove_spec [OF inv k(1) refl k(2)] by blast+
    moreover have "\<forall>i. accounted impl i \<longrightarrow> accounted impl' i" using accounted_remove [OF inv k(1,2)] by blast
    ultimately show ?thesis using k(3,4) op by blast
  qed
  show ?thesis
  proof (cases op)
    case (Schedule d tok)
    define t where "t = dq_free_slots impl ! (dq_free_count impl - 1)"
    define impl2 where "impl2 = salts_deadline_sift_up (enqueued impl t d tok) (dq_size impl)"
    note ex = exec_schedule [OF inv t_def impl2_def] run [unfolded Schedule]
    show ?thesis
    proof (cases "dq_free_count impl = 0 \<or> dq_next_order impl = - 1")
      case True
      then have "(r = SALTS_ENOBUFS \<or> r = SALTS_ERANGE) \<and> ev = None \<and> impl' = impl"
        using ex by (auto split: if_splits)
      then show ?thesis using inv Schedule by (auto intro: exhausted)
    next
      case False
      then have room: "dq_free_count impl \<noteq> 0" "dq_next_order impl \<noteq> - 1" by simp_all
      have out: "r = SALTS_OK" "ev = Some (event_at impl2 t)" "impl' = impl2" using ex room by simp_all
      note spec = enqueue_spec [OF inv room t_def impl2_def] and acc = accounted_enqueue [OF inv room t_def impl2_def]
      have "accounted impl i" if "i \<in> ev_id ` set (dq_pending impl)" for i
        using that pending_ids_iff [OF inv, of i] by (auto simp: accounted_def Let_def)
      then have fresh: "ev_id (event_at impl2 t) \<notin> ev_id ` set (dq_pending impl)" using acc(1) by blast
      have "event_at impl2 t = \<lparr>ev_id = ev_id (event_at impl2 t), ev_deadline_ms = d, ev_token = tok\<rparr>"
        using spec by (simp add: event_at_def)
      from scheduled [OF fresh this] enqueue_pending [OF inv room t_def impl2_def] spec acc out Schedule
      show ?thesis by auto
    qed
  next
    case (Cancel i)
    show ?thesis
    proof (cases "i \<in> ev_id ` set (dq_pending impl)")
      case True
      with exec_cancel [OF inv, of i] run Cancel obtain k e where
        k: "k < dq_size impl" "salts_deadline_remove impl k = (e, impl')" "ev_id e = i" "ev = Some e" "r = SALTS_OK"
        by auto
      show ?thesis by (rule removed [OF k(1,2,4,5)]) (use Cancel k(3) in \<open>auto intro: cancelled\<close>)
    next
      case False
      with exec_cancel [OF inv, of i] run Cancel
      have "(r = SALTS_EINVAL \<or> r = SALTS_ENOENT) \<and> ev = None \<and> impl' = impl" by auto
      with False inv Cancel show ?thesis by (auto intro: unknown)
    qed
  next
    case (Take_Ready now)
    let ?t = "dq_heap impl ! 0"
    show ?thesis
    proof (cases "dq_size impl = 0 \<or> now < ev_deadline_ms (event_at impl ?t)")
      case True
      then have out: "r = SALTS_ETIMEDOUT" "ev = None" "impl' = impl"
        using exec_take [OF inv, of now] run Take_Ready by simp_all
      have "now < ev_deadline_ms x" if "x \<in> set (dq_pending impl)" for x
      proof -
        from that inv obtain u where u: "u \<in> set (heap_slots impl)" "x = event_at impl u" by (auto simp: set_pending)
        then have n: "dq_size impl \<noteq> 0" by (cases "dq_size impl") (simp_all add: heap_slots_def)
        have "?t \<in> set (arrivals impl)"
        proof -
          have "heap_slots impl \<noteq> []" using u(1) by auto
          then show ?thesis
            using nth_mem [of 0 "heap_slots impl"] n inv by (simp add: arrivals_props heap_slots_nth)
        qed
        then obtain xs ys where s: "arrivals impl = xs @ ?t # ys" by (meson split_list)
        have "u \<in> set xs \<or> u = ?t \<or> u \<in> set ys" using u(1) arrivals_props(1) [OF inv] s by auto
        then have "ev_deadline_ms (event_at impl ?t) \<le> ev_deadline_ms (event_at impl u)"
          using take_first [OF inv n s] by auto
        with True n u(2) show ?thesis by auto
      qed
      then show ?thesis using out inv Take_Ready by (auto intro: not_due)
    next
      case False
      then have n: "dq_size impl \<noteq> 0" and due: "ev_deadline_ms (event_at impl ?t) \<le> now" by auto
      from exec_take [OF inv, of now] False run Take_Ready obtain e where
        k: "salts_deadline_remove impl 0 = (e, impl')" "ev = Some e" "r = SALTS_OK" by auto
      show ?thesis
        by (rule removed [OF _ k]) (use n due take_first [OF inv n] Take_Ready in \<open>auto intro!: taken\<close>)
    qed
  qed
qed

section \<open>The contract of a timer queue\<close>

definition deadline_take ::
  "salts_deadline_queue_impl \<Rightarrow> u64 \<Rightarrow> salts_deadline_event option \<times> salts_deadline_queue_impl" where
  "deadline_take impl now =
     (case dq_exec impl (Take_Ready now) of (r, ev, impl') \<Rightarrow> (if r = SALTS_OK then ev else None, impl'))"

interpretation deadline_timers: timed_queue dq_inv dq_pending ev_deadline_ms deadline_take
proof unfold_locales
  fix impl now
  assume inv: "dq_inv impl" and "\<exists>e \<in> set (dq_pending impl). ev_deadline_ms e \<le> now"
  then have some: "\<not> (\<forall>e \<in> set (dq_pending impl). now < ev_deadline_ms e)" by (auto simp: not_less)
  obtain r ev impl' where x: "dq_exec impl (Take_Ready now) = (r, ev, impl')" by (metis prod_cases3)
  note ref = exec_refines [OF inv x]
  then have "deadline_spec (dq_pending impl) (Take_Ready now) r ev (dq_pending impl')" by blast
  then have "r = SALTS_OK \<and> (\<exists>e. ev = Some e \<and> first_due ev_deadline_ms now (dq_pending impl) e (dq_pending impl'))"
    by cases (use some in \<open>auto simp: first_due_def\<close>)
  with ref x show "\<exists>e q'. deadline_take impl now = (Some e, q') \<and> dq_inv q' \<and>
      first_due ev_deadline_ms now (dq_pending impl) e (dq_pending q')"
    by (auto simp: deadline_take_def)
next
  fix impl now
  assume inv: "dq_inv impl" and none: "\<forall>e \<in> set (dq_pending impl). \<not> ev_deadline_ms e \<le> now"
  obtain r ev impl' where x: "dq_exec impl (Take_Ready now) = (r, ev, impl')" by (metis prod_cases3)
  from exec_refines [OF inv x] have "deadline_spec (dq_pending impl) (Take_Ready now) r ev (dq_pending impl')" by blast
  then have "r \<noteq> SALTS_OK" by cases (use none in auto)
  with exec_take [OF inv, of now] x show "deadline_take impl now = (None, impl)"
    by (auto simp: deadline_take_def split: if_splits)
qed

section \<open>Properties\<close>

text \<open>C8: The deadline queue refines a list of events in order of arrival. From every
  well-formed queue, \<open>schedule\<close> appends an event under an identifier no pending event has, or is
  refused for lack of a slot or of an order number; \<open>cancel\<close> removes exactly the event with the
  given identifier, and refuses every other identifier; \<open>take_ready\<close> removes the event with the
  earliest deadline that is due, the first scheduled among equals, and times out only when
  no pending event is due. The heap, its back pointers, the free stack and the identifiers
  stay well-formed, \<open>size\<close> is the number of pending events, and \<open>peek\<close> shows the event \<open>take_ready\<close>
  would remove.\<close>

theorem deadline_queue_refines:
  assumes "dq_inv impl" and "dq_exec impl op = (r, ev, impl')"
  shows "dq_inv impl' \<and> dq_capacity impl' = dq_capacity impl \<and>
    deadline_spec (dq_pending impl) op r ev (dq_pending impl') \<and>
    salts_deadline_queue_size (handle impl') = length (dq_pending impl') \<and>
    (\<forall>now e. op = Take_Ready now \<and> r = SALTS_OK \<and> ev = Some e \<longrightarrow>
       salts_deadline_queue_peek (handle impl) (Some zero_event) = (SALTS_OK, Some e))"
proof -
  note ref = exec_refines [OF assms]
  have "salts_deadline_queue_peek (handle impl) (Some zero_event) = (SALTS_OK, Some e)"
    if "op = Take_Ready now" "r = SALTS_OK" "ev = Some e" for now e
  proof (cases "dq_size impl = 0 \<or> now < ev_deadline_ms (event_at impl (dq_heap impl ! 0))")
    case True
    with exec_take [OF assms(1), of now] assms(2) that show ?thesis by simp
  next
    case False
    with exec_take [OF assms(1), of now] assms(2) that have "salts_deadline_remove impl 0 = (e, impl')" by auto
    then have "e = event_at impl (dq_heap impl ! 0)" by (simp add: remove_unlinked event_at_def)
    with False show ?thesis by (simp add: salts_deadline_queue_peek_def event_at_def)
  qed
  with ref show ?thesis
    by (simp add: salts_deadline_queue_size_def length_pending)
qed

theorem deadline_queue_refines_witness:
  "\<exists>r ev impl'. dq_exec (fresh_impl 2) (Schedule 50 7) = (r, ev, impl') \<and> dq_inv impl' \<and>
     deadline_spec [] (Schedule 50 7) r ev (dq_pending impl') \<and> r = SALTS_OK"
proof -
  have cap: "(2::nat) \<le> UINT32_MAX" by (simp add: UINT32_MAX_def)
  note fresh = fresh_inv [OF cap]
  obtain r ev impl' where x: "dq_exec (fresh_impl 2) (Schedule 50 7) = (r, ev, impl')" by (metis prod_cases3)
  have "r = SALTS_OK"
    using x exec_schedule [OF fresh(1) refl refl, of 50 7] by (simp add: fresh_impl_def)
  with deadline_queue_refines [OF fresh(1) x] x fresh(2) show ?thesis by auto
qed

text \<open>C15: Identifiers are never reused. In every history of a queue, from its creation through
  any sequence of calls, all identifiers ever returned by \<open>schedule\<close> are distinct, also when
  their slots are recycled and when generations run out; so an identifier that was cancelled or
  taken can never name a later event, and cancelling it is refused.\<close>

theorem deadline_ids_never_reused:
  assumes "dq_reach capacity ids impl" and "capacity \<le> UINT32_MAX"
  shows "distinct ids \<and> dq_inv impl \<and> ev_id ` set (dq_pending impl) \<subseteq> set ids \<and>
    (\<forall>i \<in> set ids. i \<notin> ev_id ` set (dq_pending impl) \<longrightarrow>
       dq_exec impl (Cancel i) = (SALTS_ENOENT, None, impl))"
proof -
  have "distinct ids \<and> dq_inv impl \<and> ev_id ` set (dq_pending impl) \<subseteq> set ids \<and> (\<forall>i \<in> set ids. accounted impl i)"
    using assms
  proof (induction rule: dq_reach.induct)
    case reach_init
    then show ?case using fresh_inv [of capacity] by simp
  next
    case (reach_schedule ids impl d tok ev impl')
    then have IH: "distinct ids" "dq_inv impl" "ev_id ` set (dq_pending impl) \<subseteq> set ids" "\<forall>i \<in> set ids. accounted impl i"
      by auto
    note ref = exec_refines [OF IH(2) reach_schedule.hyps(2)]
    have "deadline_spec (dq_pending impl) (Schedule d tok) SALTS_OK (Some ev) (dq_pending impl')" using ref by blast
    then have "dq_pending impl' = dq_pending impl @ [ev]" by cases auto
    with IH ref show ?case by auto
  next
    case (reach_other ids impl op r ev impl')
    then have IH: "distinct ids" "dq_inv impl" "ev_id ` set (dq_pending impl) \<subseteq> set ids" "\<forall>i \<in> set ids. accounted impl i"
      by auto
    note ref = exec_refines [OF IH(2) reach_other.hyps(2)]
    have "deadline_spec (dq_pending impl) op r ev (dq_pending impl')" using ref by blast
    then have "set (dq_pending impl') \<subseteq> set (dq_pending impl)" using reach_other.hyps(3) by cases auto
    with IH ref show ?case by (meson image_mono subset_trans)
  qed
  moreover have "dq_exec impl (Cancel i) = (SALTS_ENOENT, None, impl)"
    if inv: "dq_inv impl" and acc: "accounted impl i" and gone: "i \<notin> ev_id ` set (dq_pending impl)" for i
  proof -
    from acc obtain t g where d: "salts_deadline_decode_id i = Some (t, g)" by (auto simp: accounted_def)
    then have "dq_capacity impl \<le> t \<or> \<not> de_active (dq_entries impl ! t) \<or> de_generation (dq_entries impl ! t) \<noteq> g"
      using gone pending_ids_iff [OF inv, of i] by (auto simp: not_less)
    then show ?thesis using d by (auto simp: dq_exec_def salts_deadline_queue_cancel_def)
  qed
  ultimately show ?thesis by blast
qed

theorem deadline_ids_never_reused_witness:
  "\<exists>i j impl. i \<noteq> j \<and> dq_inv impl \<and> dq_reach 1 [j, i] impl \<and>
     dq_exec impl (Cancel i) = (SALTS_ENOENT, None, impl)"
proof -
  have cap: "(1::nat) \<le> UINT32_MAX" by (simp add: UINT32_MAX_def)
  let ?a = "fresh_impl 1"
  define b where "b = enqueued ?a 0 50 7"
  define i where "i = salts_deadline_make_id 0 1"
  define c where "c = snd (salts_deadline_remove b 0)"
  have x: "dq_exec ?a (Schedule 50 7) = (SALTS_OK, Some (event_at b 0), b)"
    using exec_schedule [OF fresh_inv(1) [OF cap] refl refl, of 50 7]
    by (simp add: b_def fresh_impl_def salts_deadline_sift_up.simps)
  note invb = exec_refines [OF fresh_inv(1) [OF cap] x]
  have idb: "ev_id (event_at b 0) = i" by (simp add: b_def i_def event_at_def enqueued_def fresh_impl_def)
  have pb: "dq_pending b = [event_at b 0]"
  proof -
    have "deadline_spec [] (Schedule 50 7) SALTS_OK (Some (event_at b 0)) (dq_pending b)"
      using invb unfolding fresh_inv(2) [OF cap] by blast
    then show ?thesis by cases auto
  qed
  obtain k ev c' where k: "k < dq_size b" "salts_deadline_remove b k = (ev, c')" "dq_exec b (Cancel i) = (SALTS_OK, Some ev, c')"
    using exec_cancel [of b i] invb pb idb by auto
  then have "k = 0" by (simp add: b_def enqueued_def fresh_impl_def)
  with k have y: "dq_exec b (Cancel i) = (SALTS_OK, Some ev, c)" by (simp add: c_def)
  have invc: "dq_inv c" using exec_refines [OF _ y] invb by blast
  have room: "dq_free_count c \<noteq> 0" "dq_next_order c \<noteq> - 1"
    by (simp_all add: c_def salts_deadline_remove_def b_def enqueued_def fresh_impl_def Let_def
        salts_deadline_release_slot_def UINT32_MAX_def)
  then obtain e f where z: "dq_exec c (Schedule 60 8) = (SALTS_OK, Some e, f)"
    using exec_schedule [OF invc refl refl, of 60 8] by auto
  have reach: "dq_reach 1 [ev_id e, i] f"
    using reach_schedule [OF reach_other [OF reach_schedule [OF reach_init x] y] z] idb by simp
  have "deadline_spec (dq_pending b) (Cancel i) SALTS_OK (Some ev) (dq_pending c)" using exec_refines [OF _ y] invb by blast
  then have "dq_pending c = []" unfolding pb by cases (auto simp: Cons_eq_append_conv)
  moreover have "deadline_spec (dq_pending c) (Schedule 60 8) SALTS_OK (Some e) (dq_pending f)"
    using exec_refines [OF invc z] by blast
  then have "dq_pending f = dq_pending c @ [e]" by cases auto
  ultimately have pf: "dq_pending f = [e]" by simp
  note never = deadline_ids_never_reused [OF reach cap]
  have ne: "i \<noteq> ev_id e" using never by auto
  then have "i \<notin> ev_id ` set (dq_pending f)" by (simp add: pf)
  moreover have "i \<in> set [ev_id e, i]" by simp
  ultimately have "dq_exec f (Cancel i) = (SALTS_ENOENT, None, f)" using never by blast
  with ne never reach show ?thesis by blast
qed

end
