(* ===== verification/Spsc_Ring.thy ===== *)
theory Spsc_Ring
  imports Cstl_Sequence
begin

text \<open>
  The single-producer single-consumer byte ring (\<^verbatim>\<open>src/concurrency/src/spsc_ring.c\<close>). First
  the functions as written, run without interruption; a pointer into the storage is its
  offset. Then the same code cut at every access to a variable the two threads share, as
  two small machines over one ring, so that every interleaving is a run. The accesses of a
  thread take effect in program order and are seen in that order by the other thread, which
  is what the release stores and acquire loads of the code demand.
\<close>

section \<open>The code\<close>

record salts_spsc_ring =
  sr_size :: size_t
  sr_mask :: size_t
  sr_data :: "u8 list"
  sr_write_pos :: size_t
  sr_read_pos :: size_t
  sr_wrap_pos :: size_t
  sr_wrap_len :: size_t
  sr_pending_wrap_len :: size_t

definition size_sub :: "size_t \<Rightarrow> size_t \<Rightarrow> size_t" where
  "size_sub a b = (a + (SIZE_MAX + 1) - b) mod (SIZE_MAX + 1)"

definition salts_spsc_ring_power_of_two :: "size_t \<Rightarrow> bool" where
  "salts_spsc_ring_power_of_two v \<longleftrightarrow> v \<noteq> 0 \<and> v AND (v - 1) = 0"

definition salts_spsc_ring_init ::
  "salts_spsc_ring \<Rightarrow> u8 list \<Rightarrow> size_t \<Rightarrow> bool \<times> salts_spsc_ring" where
  "salts_spsc_ring_init ring storage sz =
     (if \<not> salts_spsc_ring_power_of_two sz then (False, ring)
      else (True, \<lparr>sr_size = sz, sr_mask = sz - 1, sr_data = storage, sr_write_pos = 0,
                   sr_read_pos = 0, sr_wrap_pos = 0, sr_wrap_len = 0, sr_pending_wrap_len = 0\<rparr>))"

definition ring_available :: "salts_spsc_ring \<Rightarrow> size_t \<Rightarrow> size_t \<Rightarrow> size_t" where
  "ring_available ring w r = size_sub (size_sub (sr_size ring) (size_sub w r)) 1"

definition ring_offset :: "salts_spsc_ring \<Rightarrow> size_t \<Rightarrow> size_t" where
  "ring_offset ring pos = pos AND sr_mask ring"

definition ring_linear :: "salts_spsc_ring \<Rightarrow> size_t \<Rightarrow> size_t" where
  "ring_linear ring pos = size_sub (sr_size ring) (ring_offset ring pos)"

definition salts_spsc_ring_write_acquire ::
  "salts_spsc_ring \<Rightarrow> size_t \<Rightarrow> size_t ptr \<times> salts_spsc_ring" where
  "salts_spsc_ring_write_acquire ring required =
     (let write = sr_write_pos ring; read = sr_read_pos ring;
          available = ring_available ring write read;
          offset = ring_offset ring write; linear = ring_linear ring write
      in
      if sr_size ring \<le> required \<or> available < required then (NULL, ring)
      else
        let ring1 = ring\<lparr>sr_pending_wrap_len := 0\<rparr> in
        if linear < required then
          if sr_wrap_len ring1 \<noteq> 0 \<or> available < size_add required linear then (NULL, ring1)
          else (Some 0, ring1\<lparr>sr_pending_wrap_len := linear\<rparr>)
        else (Some offset, ring1))"

definition salts_spsc_ring_write_release :: "salts_spsc_ring \<Rightarrow> size_t \<Rightarrow> salts_spsc_ring" where
  "salts_spsc_ring_write_release ring written =
     (let write = sr_write_pos ring in
      if sr_pending_wrap_len ring \<noteq> 0 then
        let ring1 = ring\<lparr>sr_wrap_pos := write\<rparr>;
            ring2 = ring1\<lparr>sr_wrap_len := sr_pending_wrap_len ring1\<rparr>;
            ring3 = ring2\<lparr>sr_write_pos := size_add (size_add write (sr_pending_wrap_len ring2)) written\<rparr>
        in ring3\<lparr>sr_pending_wrap_len := 0\<rparr>
      else ring\<lparr>sr_write_pos := size_add write written\<rparr>)"

text \<open>The last lines of \<open>read_acquire\<close>: what is available from a read position.\<close>

definition ring_window ::
  "salts_spsc_ring \<Rightarrow> size_t \<Rightarrow> size_t \<Rightarrow> size_t \<Rightarrow> size_t \<Rightarrow> (size_t \<times> size_t) ptr" where
  "ring_window ring read write wrap_len wrap_pos =
     (let data_available = (if wrap_len \<noteq> 0 \<and> read < wrap_pos then size_sub wrap_pos read
                            else size_sub write read)
      in
      if data_available = 0 then NULL
      else
        let offset = ring_offset ring read; linear = ring_linear ring read in
        Some (offset, if data_available < linear then data_available else linear))"

definition salts_spsc_ring_read_acquire ::
  "salts_spsc_ring \<Rightarrow> (size_t \<times> size_t) ptr \<times> salts_spsc_ring" where
  "salts_spsc_ring_read_acquire ring =
     (let read = sr_read_pos ring; write = sr_write_pos ring;
          wrap_len = sr_wrap_len ring; wrap_pos = sr_wrap_pos ring
      in
      if wrap_len \<noteq> 0 \<and> read = wrap_pos then
        let next_read = size_add read wrap_len in
        if write < next_read then (NULL, ring)
        else
          let ring1 = ring\<lparr>sr_read_pos := next_read\<rparr>;
              ring2 = ring1\<lparr>sr_wrap_len := 0\<rparr>
          in (ring_window ring2 next_read write wrap_len wrap_pos, ring2)
      else (ring_window ring read write wrap_len wrap_pos, ring))"

definition salts_spsc_ring_read_release :: "salts_spsc_ring \<Rightarrow> size_t \<Rightarrow> salts_spsc_ring" where
  "salts_spsc_ring_read_release ring n = ring\<lparr>sr_read_pos := size_add (sr_read_pos ring) n\<rparr>"

definition salts_spsc_ring_write_available :: "salts_spsc_ring \<Rightarrow> size_t" where
  "salts_spsc_ring_write_available ring = ring_available ring (sr_write_pos ring) (sr_read_pos ring)"

definition salts_spsc_ring_read_available :: "salts_spsc_ring \<Rightarrow> size_t" where
  "salts_spsc_ring_read_available ring =
     (let write = sr_write_pos ring; read = sr_read_pos ring;
          wrap_len = sr_wrap_len ring; wrap_pos = sr_wrap_pos ring
      in
      if wrap_len \<noteq> 0 \<and> read = wrap_pos \<and> size_add read wrap_len \<le> write
      then size_sub (size_sub write read) wrap_len
      else if wrap_len \<noteq> 0 \<and> read < wrap_pos \<and> size_add wrap_pos wrap_len \<le> write
      then size_add (size_sub wrap_pos read) (size_sub (size_sub write wrap_pos) wrap_len)
      else size_sub write read)"

section \<open>The two threads, one shared access at a time\<close>

text \<open>
  The producer's program counter with its live locals: between the loads of \<open>write_acquire\<close>,
  owning a region, owning a region it has filled, and between the stores of \<open>write_release\<close>.
\<close>

datatype producer =
  P_Idle
| P_Check size_t size_t \<comment> \<open>required, available: about to load \<open>wrap_len\<close>\<close>
| P_Own size_t size_t \<comment> \<open>offset, required\<close>
| P_Filled "u8 list" \<comment> \<open>about to enter \<open>write_release\<close>\<close>
| P_Wrap_Len "u8 list" \<comment> \<open>\<open>wrap_pos\<close> stored\<close>
| P_Write_Pos "u8 list" \<comment> \<open>\<open>wrap_len\<close> stored\<close>

datatype consumer =
  C_Idle
| C_Wrap_Len size_t \<comment> \<open>write: about to load \<open>wrap_len\<close>\<close>
| C_Wrap_Pos size_t size_t \<comment> \<open>write, wrap_len: about to load \<open>wrap_pos\<close>\<close>
| C_Skip size_t size_t size_t \<comment> \<open>write, wrap_len, wrap_pos: about to store \<open>read_pos\<close>\<close>
| C_Clear size_t size_t size_t \<comment> \<open>about to clear \<open>wrap_len\<close>\<close>
| C_Own size_t size_t \<comment> \<open>offset, available\<close>
| C_Taken "u8 list" \<comment> \<open>bytes read, about to release them\<close>

text \<open>The last two fields are not in the program: the bytes released by the producer, by
  position (\<open>None\<close> in a skipped tail), and the bytes the consumer has released.\<close>

record system =
  sy_ring :: salts_spsc_ring
  sy_producer :: producer
  sy_consumer :: consumer
  sy_history :: "u8 option list"
  sy_taken :: "u8 list"

text \<open>Each thread's next access, given what its caller asks for.\<close>

definition producer_acquire :: "salts_spsc_ring \<Rightarrow> size_t \<Rightarrow> producer \<times> salts_spsc_ring" where
  "producer_acquire ring required =
     (let write = sr_write_pos ring; available = ring_available ring write (sr_read_pos ring) in
      if sr_size ring \<le> required \<or> available < required then (P_Idle, ring)
      else
        let ring1 = ring\<lparr>sr_pending_wrap_len := 0\<rparr> in
        if ring_linear ring write < required then (P_Check required available, ring1)
        else (P_Own (ring_offset ring write) required, ring1))"

definition producer_check :: "salts_spsc_ring \<Rightarrow> size_t \<Rightarrow> size_t \<Rightarrow> producer \<times> salts_spsc_ring" where
  "producer_check ring required available =
     (let linear = ring_linear ring (sr_write_pos ring) in
      if sr_wrap_len ring \<noteq> 0 \<or> available < size_add required linear then (P_Idle, ring)
      else (P_Own 0 required, ring\<lparr>sr_pending_wrap_len := linear\<rparr>))"

definition consumer_locate ::
  "salts_spsc_ring \<Rightarrow> size_t \<Rightarrow> size_t \<Rightarrow> size_t \<Rightarrow> size_t \<Rightarrow> consumer" where
  "consumer_locate ring read write wrap_len wrap_pos =
     (case ring_window ring read write wrap_len wrap_pos of
        None \<Rightarrow> C_Idle | Some (offset, available) \<Rightarrow> C_Own offset available)"

definition consumer_wrap_pos :: "salts_spsc_ring \<Rightarrow> size_t \<Rightarrow> size_t \<Rightarrow> consumer" where
  "consumer_wrap_pos ring write wrap_len =
     (let read = sr_read_pos ring; wrap_pos = sr_wrap_pos ring in
      if wrap_len \<noteq> 0 \<and> read = wrap_pos then
        if write < size_add read wrap_len then C_Idle else C_Skip write wrap_len wrap_pos
      else consumer_locate ring read write wrap_len wrap_pos)"

inductive step :: "system \<Rightarrow> system \<Rightarrow> bool" where
  p_acquire: "sy_producer s = P_Idle \<Longrightarrow> 0 < required \<Longrightarrow> producer_acquire (sy_ring s) required = (p, ring) \<Longrightarrow>
    step s (s\<lparr>sy_producer := p, sy_ring := ring\<rparr>)"
| p_check: "sy_producer s = P_Check required available \<Longrightarrow>
    producer_check (sy_ring s) required available = (p, ring) \<Longrightarrow>
    step s (s\<lparr>sy_producer := p, sy_ring := ring\<rparr>)"
| p_abandon: "sy_producer s = P_Own offset required \<Longrightarrow> step s (s\<lparr>sy_producer := P_Idle\<rparr>)"
| p_fill: "sy_producer s = P_Own offset required \<Longrightarrow> length bs \<le> required \<Longrightarrow>
    step s (s\<lparr>sy_producer := P_Filled bs,
              sy_ring := (sy_ring s)\<lparr>sr_data := put_bytes (sr_data (sy_ring s)) offset bs\<rparr>\<rparr>)"
| p_release: "sy_producer s = P_Filled bs \<Longrightarrow> sr_pending_wrap_len (sy_ring s) = 0 \<Longrightarrow>
    step s (s\<lparr>sy_producer := P_Idle,
              sy_ring := (sy_ring s)\<lparr>sr_write_pos := size_add (sr_write_pos (sy_ring s)) (length bs)\<rparr>,
              sy_history := sy_history s @ map Some bs\<rparr>)"
| p_wrap_pos: "sy_producer s = P_Filled bs \<Longrightarrow> sr_pending_wrap_len (sy_ring s) \<noteq> 0 \<Longrightarrow>
    step s (s\<lparr>sy_producer := P_Wrap_Len bs,
              sy_ring := (sy_ring s)\<lparr>sr_wrap_pos := sr_write_pos (sy_ring s)\<rparr>\<rparr>)"
| p_wrap_len: "sy_producer s = P_Wrap_Len bs \<Longrightarrow>
    step s (s\<lparr>sy_producer := P_Write_Pos bs,
              sy_ring := (sy_ring s)\<lparr>sr_wrap_len := sr_pending_wrap_len (sy_ring s)\<rparr>\<rparr>)"
| p_write_pos: "sy_producer s = P_Write_Pos bs \<Longrightarrow>
    step s (s\<lparr>sy_producer := P_Idle,
              sy_ring := (sy_ring s)\<lparr>sr_write_pos := size_add (size_add (sr_write_pos (sy_ring s))
                  (sr_pending_wrap_len (sy_ring s))) (length bs), sr_pending_wrap_len := 0\<rparr>,
              sy_history := sy_history s @ replicate (sr_pending_wrap_len (sy_ring s)) None @ map Some bs\<rparr>)"
| c_write_pos: "sy_consumer s = C_Idle \<Longrightarrow>
    step s (s\<lparr>sy_consumer := C_Wrap_Len (sr_write_pos (sy_ring s))\<rparr>)"
| c_wrap_len: "sy_consumer s = C_Wrap_Len write \<Longrightarrow>
    step s (s\<lparr>sy_consumer := C_Wrap_Pos write (sr_wrap_len (sy_ring s))\<rparr>)"
| c_wrap_pos: "sy_consumer s = C_Wrap_Pos write wrap_len \<Longrightarrow>
    step s (s\<lparr>sy_consumer := consumer_wrap_pos (sy_ring s) write wrap_len\<rparr>)"
| c_skip: "sy_consumer s = C_Skip write wrap_len wrap_pos \<Longrightarrow>
    step s (s\<lparr>sy_consumer := C_Clear write wrap_len wrap_pos,
              sy_ring := (sy_ring s)\<lparr>sr_read_pos := size_add (sr_read_pos (sy_ring s)) wrap_len\<rparr>\<rparr>)"
| c_clear: "sy_consumer s = C_Clear write wrap_len wrap_pos \<Longrightarrow>
    step s (s\<lparr>sy_consumer := consumer_locate (sy_ring s) (sr_read_pos (sy_ring s)) write wrap_len wrap_pos,
              sy_ring := (sy_ring s)\<lparr>sr_wrap_len := 0\<rparr>\<rparr>)"
| c_abandon: "sy_consumer s = C_Own offset available \<Longrightarrow> step s (s\<lparr>sy_consumer := C_Idle\<rparr>)"
| c_read: "sy_consumer s = C_Own offset available \<Longrightarrow> n \<le> available \<Longrightarrow>
    step s (s\<lparr>sy_consumer := C_Taken (take n (drop offset (sr_data (sy_ring s))))\<rparr>)"
| c_release: "sy_consumer s = C_Taken bs \<Longrightarrow>
    step s (s\<lparr>sy_consumer := C_Idle,
              sy_ring := salts_spsc_ring_read_release (sy_ring s) (length bs),
              sy_taken := sy_taken s @ bs\<rparr>)"

definition start :: "salts_spsc_ring \<Rightarrow> system" where
  "start ring = \<lparr>sy_ring = ring, sy_producer = P_Idle, sy_consumer = C_Idle, sy_history = [], sy_taken = []\<rparr>"

definition published :: "u8 option list \<Rightarrow> u8 list" where
  "published h = map the (filter (\<lambda>x. x \<noteq> None) h)"

section \<open>Arithmetic of positions\<close>

lemma size_sub_exact [simp]: "b \<le> a \<Longrightarrow> a \<le> SIZE_MAX \<Longrightarrow> size_sub a b = a - b"
proof -
  assume "b \<le> a" "a \<le> SIZE_MAX"
  then have "a + (SIZE_MAX + 1) - b = (a - b) + (SIZE_MAX + 1)" by simp
  then have "size_sub a b = ((a - b) + (SIZE_MAX + 1)) mod (SIZE_MAX + 1)" by (simp only: size_sub_def)
  also have "\<dots> = a - b" using \<open>a \<le> SIZE_MAX\<close> by (simp only: mod_add_self2) simp
  finally show "size_sub a b = a - b" .
qed

lemma power_of_two: "salts_spsc_ring_power_of_two v \<longleftrightarrow> sequence_alignment_valid v"
  by (simp add: salts_spsc_ring_power_of_two_def sequence_alignment_valid_def)

lemma and_mask_mod:
  assumes "salts_spsc_ring_power_of_two v"
  shows "x AND (v - 1) = x mod v"
proof -
  obtain k where "v = 2 ^ k" using alignment_valid_power assms power_of_two by blast
  then show ?thesis using take_bit_eq_mask [of k x] by (simp add: take_bit_eq_mod mask_eq_exp_minus_1)
qed

lemma power_of_two_half:
  assumes "salts_spsc_ring_power_of_two v" "v \<le> SIZE_MAX"
  shows "2 * v \<le> SIZE_MAX + 1"
proof -
  obtain k where k: "v = 2 ^ k" using alignment_valid_power assms(1) power_of_two by blast
  have "(2::nat) ^ k < 2 ^ 64" using assms(2) k by (simp add: SIZE_MAX_def)
  then have "k < 64" by (rule power_less_imp_less_exp [rotated]) simp
  then have "2 * v \<le> 2 ^ 64" using k power_increasing [of "Suc k" 64 "2::nat"] by simp
  then show ?thesis by (simp add: SIZE_MAX_def)
qed

text \<open>Positions less than a lap apart lie in different slots.\<close>

lemma slots_apart:
  fixes p q :: nat
  assumes "p < q" "q < p + n"
  shows "p mod n \<noteq> q mod n"
proof
  assume "p mod n = q mod n"
  then have "n dvd q - p" using assms(1) by (metis less_imp_le_nat mod_eq_dvd_iff_nat)
  with assms show False by (metis diff_is_0_eq less_diff_conv2 nat_dvd_not_less not_le zero_less_diff less_imp_le_nat add.commute)
qed

lemma mod_run:
  fixes a k n :: nat
  assumes "a mod n + k < n"
  shows "(a + k) mod n = a mod n + k"
  using assms by (metis mod_add_left_eq mod_less)

lemma nth_put_bytes:
  assumes "off + length bs \<le> length buf" "i < length buf"
  shows "put_bytes buf off bs ! i = (if off \<le> i \<and> i < off + length bs then bs ! (i - off) else buf ! i)"
  using assms by (auto simp: put_bytes_def nth_append)

section \<open>The invariant\<close>

definition clean :: "u8 option list \<Rightarrow> nat \<Rightarrow> nat \<Rightarrow> bool" where
  "clean h a b \<longleftrightarrow> (\<forall>p. a \<le> p \<and> p < b \<longrightarrow> h ! p \<noteq> None)"

definition ring_ok :: "salts_spsc_ring \<Rightarrow> u8 option list \<Rightarrow> bool" where
  "ring_ok ring h \<longleftrightarrow>
     salts_spsc_ring_power_of_two (sr_size ring) \<and> sr_mask ring = sr_size ring - 1 \<and>
     length (sr_data ring) = sr_size ring \<and>
     length h + sr_size ring \<le> SIZE_MAX \<and> sr_write_pos ring = length h \<and>
     sr_read_pos ring \<le> sr_write_pos ring \<and> sr_write_pos ring < sr_read_pos ring + sr_size ring \<and>
     (\<forall>p b. sr_read_pos ring \<le> p \<and> p < sr_write_pos ring \<and> h ! p = Some b \<longrightarrow>
        sr_data ring ! (p mod sr_size ring) = b)"

text \<open>The skipped tail, if one is outstanding: announced but not yet published, already passed
  but not yet cleared, or between the reader and the writer.\<close>

definition gap_ok :: "system \<Rightarrow> bool" where
  "gap_ok s \<longleftrightarrow>
     (let ring = sy_ring s; h = sy_history s; r = sr_read_pos ring; w = sr_write_pos ring;
          g = sr_wrap_pos ring; l = sr_wrap_len ring in
      l \<le> sr_size ring \<and>
      (if l = 0 then clean h r w
       else if (\<exists>bs. sy_producer s = P_Write_Pos bs) then g = w \<and> clean h r w
       else if (\<exists>a b c. sy_consumer s = C_Clear a b c) then clean h r w
       else r \<le> g \<and> g + l \<le> w \<and> (\<forall>p. r \<le> p \<and> p < w \<longrightarrow> (h ! p = None \<longleftrightarrow> g \<le> p \<and> p < g + l))))"

definition region :: "salts_spsc_ring \<Rightarrow> size_t \<Rightarrow> size_t \<Rightarrow> bool" where
  "region ring off n \<longleftrightarrow>
     off = (sr_write_pos ring + sr_pending_wrap_len ring) mod sr_size ring \<and> off + n \<le> sr_size ring \<and>
     sr_write_pos ring + sr_pending_wrap_len ring + n < sr_read_pos ring + sr_size ring \<and>
     sr_pending_wrap_len ring \<le> sr_size ring"

definition filled :: "salts_spsc_ring \<Rightarrow> u8 list \<Rightarrow> bool" where
  "filled ring bs \<longleftrightarrow>
     region ring ((sr_write_pos ring + sr_pending_wrap_len ring) mod sr_size ring) (length bs) \<and>
     (\<forall>k < length bs. sr_data ring ! ((sr_write_pos ring + sr_pending_wrap_len ring) mod sr_size ring + k) = bs ! k)"

definition producer_ok :: "salts_spsc_ring \<Rightarrow> producer \<Rightarrow> bool" where
  "producer_ok ring p \<longleftrightarrow>
     (case p of
        P_Idle \<Rightarrow> True
      | P_Check req av \<Rightarrow> req \<le> av \<and> sr_write_pos ring + av < sr_read_pos ring + sr_size ring
      | P_Own off req \<Rightarrow> region ring off req \<and> (sr_pending_wrap_len ring \<noteq> 0 \<longrightarrow> sr_wrap_len ring = 0)
      | P_Filled bs \<Rightarrow> filled ring bs \<and> (sr_pending_wrap_len ring \<noteq> 0 \<longrightarrow> sr_wrap_len ring = 0)
      | P_Wrap_Len bs \<Rightarrow> filled ring bs \<and> sr_pending_wrap_len ring \<noteq> 0 \<and> sr_wrap_len ring = 0 \<and>
          sr_wrap_pos ring = sr_write_pos ring
      | P_Write_Pos bs \<Rightarrow> filled ring bs \<and> sr_pending_wrap_len ring \<noteq> 0 \<and>
          sr_wrap_len ring = sr_pending_wrap_len ring \<and> sr_wrap_pos ring = sr_write_pos ring)"

definition consumer_ok :: "salts_spsc_ring \<Rightarrow> u8 option list \<Rightarrow> consumer \<Rightarrow> bool" where
  "consumer_ok ring h c \<longleftrightarrow>
     (let r = sr_read_pos ring; w = sr_write_pos ring in
      case c of
        C_Idle \<Rightarrow> True
      | C_Wrap_Len w1 \<Rightarrow> r \<le> w1 \<and> w1 \<le> w
      | C_Wrap_Pos w1 l \<Rightarrow> r \<le> w1 \<and> w1 \<le> w \<and> (l = 0 \<longrightarrow> clean h r w1) \<and> (l \<noteq> 0 \<longrightarrow> sr_wrap_len ring = l)
      | C_Skip w1 l g \<Rightarrow> l \<noteq> 0 \<and> sr_wrap_len ring = l \<and> g = sr_wrap_pos ring \<and> r = g \<and> r + l \<le> w1 \<and> w1 \<le> w
      | C_Clear w1 l g \<Rightarrow> l \<noteq> 0 \<and> sr_wrap_len ring = l \<and> g = sr_wrap_pos ring \<and> r = g + l \<and> r \<le> w1 \<and> w1 \<le> w
      | C_Own off av \<Rightarrow> off = r mod sr_size ring \<and> off + av \<le> sr_size ring \<and> r + av \<le> w \<and> clean h r (r + av)
      | C_Taken bs \<Rightarrow> r + length bs \<le> w \<and> map Some bs = take (length bs) (drop r h))"

definition system_ok :: "system \<Rightarrow> bool" where
  "system_ok s \<longleftrightarrow>
     ring_ok (sy_ring s) (sy_history s) \<and> gap_ok s \<and> producer_ok (sy_ring s) (sy_producer s) \<and>
     consumer_ok (sy_ring s) (sy_history s) (sy_consumer s) \<and>
     sy_taken s = published (take (sr_read_pos (sy_ring s)) (sy_history s))"

lemma ring_arith:
  assumes "ring_ok ring h"
  shows "ring_offset ring x = x mod sr_size ring" "0 < sr_size ring"
    "x \<le> SIZE_MAX \<Longrightarrow> ring_linear ring x = sr_size ring - x mod sr_size ring"
    "r \<le> sr_write_pos ring \<Longrightarrow> sr_write_pos ring < r + sr_size ring \<Longrightarrow>
       ring_available ring (sr_write_pos ring) r = sr_size ring - (sr_write_pos ring - r) - 1"
proof -
  show off: "ring_offset ring x = x mod sr_size ring" for x
    using assms and_mask_mod [of "sr_size ring" x] by (simp add: ring_offset_def ring_ok_def)
  show pos: "0 < sr_size ring" using assms by (simp add: ring_ok_def salts_spsc_ring_power_of_two_def)
  have "sr_size ring \<le> SIZE_MAX" using assms by (simp add: ring_ok_def)
  then show "ring_linear ring x = sr_size ring - x mod sr_size ring"
    using pos mod_less_divisor [OF pos, of x] by (simp add: ring_linear_def off)
  show "ring_available ring (sr_write_pos ring) r = sr_size ring - (sr_write_pos ring - r) - 1"
    if that: "r \<le> sr_write_pos ring" "sr_write_pos ring < r + sr_size ring"
  proof -
    have "sr_write_pos ring \<le> SIZE_MAX" "sr_size ring \<le> SIZE_MAX" using assms by (auto simp: ring_ok_def)
    then have "size_sub (sr_write_pos ring) r = sr_write_pos ring - r"
      "size_sub (sr_size ring) (sr_write_pos ring - r) = sr_size ring - (sr_write_pos ring - r)"
      "size_sub (sr_size ring - (sr_write_pos ring - r)) 1 = sr_size ring - (sr_write_pos ring - r) - 1"
      using that by (intro size_sub_exact; linarith)+
    then show ?thesis by (simp only: ring_available_def)
  qed
qed

section \<open>What the steps of one thread leave to the other\<close>

lemma clean_append [simp]: "b \<le> length h \<Longrightarrow> clean (h @ x) a b = clean h a b"
  by (auto simp: clean_def nth_append)

lemma clean_sub: "clean h a b \<Longrightarrow> a \<le> a' \<Longrightarrow> b' \<le> b \<Longrightarrow> clean h a' b'"
  by (auto simp: clean_def)

lemma consumer_ok_frame:
  assumes "consumer_ok ring h c" "sr_write_pos ring = length h"
    and "sr_read_pos ring' = sr_read_pos ring" "sr_size ring' = sr_size ring" "sr_write_pos ring \<le> sr_write_pos ring'"
    and "sr_wrap_len ring \<noteq> 0 \<Longrightarrow> sr_wrap_len ring' = sr_wrap_len ring \<and> sr_wrap_pos ring' = sr_wrap_pos ring"
  shows "consumer_ok ring' (h @ x) c"
proof (cases c)
  case (C_Wrap_Pos w l)
  then show ?thesis using assms by (auto simp: consumer_ok_def Let_def)
next
  case (C_Taken bs)
  then show ?thesis using assms by (auto simp: consumer_ok_def Let_def)
qed (use assms in \<open>auto simp: consumer_ok_def Let_def\<close>)

lemma region_frame:
  assumes "region ring off n" "sr_read_pos ring \<le> sr_read_pos ring'"
    and "sr_write_pos ring' = sr_write_pos ring" "sr_size ring' = sr_size ring"
    "sr_pending_wrap_len ring' = sr_pending_wrap_len ring"
  shows "region ring' off n"
  using assms by (auto simp: region_def)

lemma producer_ok_frame:
  assumes "producer_ok ring p" "sr_read_pos ring \<le> sr_read_pos ring'"
    and "sr_write_pos ring' = sr_write_pos ring" "sr_size ring' = sr_size ring" "sr_data ring' = sr_data ring"
    "sr_pending_wrap_len ring' = sr_pending_wrap_len ring" "sr_wrap_pos ring' = sr_wrap_pos ring"
    and "sr_wrap_len ring' = sr_wrap_len ring \<or> sr_wrap_len ring' = 0 \<and> (\<nexists>bs. p = P_Write_Pos bs)"
  shows "producer_ok ring' p"
  using assms by (cases p) (auto simp: producer_ok_def region_def filled_def)

lemma ring_ok_read:
  assumes "ring_ok ring h" "sr_read_pos ring \<le> r" "r \<le> sr_write_pos ring"
  shows "ring_ok (ring\<lparr>sr_read_pos := r\<rparr>) h"
  using assms by (auto simp: ring_ok_def)

lemma published_append [simp]: "published (a @ b) = published a @ published b"
  by (simp add: published_def)

lemma published_Some [simp]: "published (map Some bs) = bs"
  by (simp add: published_def filter_map comp_def)

lemma published_None: "\<forall>x \<in> set h. x = None \<Longrightarrow> published h = []"
  by (simp add: published_def)

text \<open>Publishing: the history grows by the skipped tail and the filled bytes.\<close>

lemma ring_ok_publish:
  assumes ok: "ring_ok ring h" and fl: "filled ring bs" and h': "h' = h @ replicate (sr_pending_wrap_len ring) None @ map Some bs"
    and bound: "length h' + sr_size ring \<le> SIZE_MAX"
    and ring': "ring' = ring\<lparr>sr_write_pos := length h', sr_pending_wrap_len := k\<rparr>"
  shows "ring_ok ring' h'"
proof -
  let ?S = "sr_size ring" and ?base = "sr_write_pos ring + sr_pending_wrap_len ring"
  have w: "sr_write_pos ring = length h" using ok by (simp add: ring_ok_def)
  have reg: "?base + length bs < sr_read_pos ring + ?S" "?base mod ?S + length bs \<le> ?S"
    using fl by (simp_all add: filled_def region_def)
  have "sr_data ring ! (p mod ?S) = b" if p: "sr_read_pos ring \<le> p" "p < length h'" "h' ! p = Some b" for p b
  proof (cases "p < length h")
    case True
    then show ?thesis using ok p w by (simp add: ring_ok_def h' nth_append)
  next
    case False
    then have "?base \<le> p" using p(2,3) w by (auto simp: h' nth_append split: if_splits)
    then obtain k where k: "p = ?base + k" using le_Suc_ex by blast
    then have "k < length bs" "bs ! k = b" using p(2,3) w by (auto simp: h' nth_append)
    moreover have "p mod ?S = ?base mod ?S + k"
      using calculation(1) reg(2) unfolding k by (intro mod_run) simp
    ultimately show ?thesis using fl by (simp add: filled_def)
  qed
  then show ?thesis
    using ok bound reg(1) w unfolding ring' ring_ok_def by (auto simp: h')
qed

lemma ring_ok_fill:
  assumes ok: "ring_ok ring h" and reg: "region ring off n" and len: "length bs \<le> n"
    and ring': "ring' = ring\<lparr>sr_data := put_bytes (sr_data ring) off bs\<rparr>"
  shows "ring_ok ring' h" "filled ring' bs"
proof -
  let ?S = "sr_size ring" and ?base = "sr_write_pos ring + sr_pending_wrap_len ring"
  have d: "off + length bs \<le> length (sr_data ring)" "off = ?base mod ?S" "?base + length bs < sr_read_pos ring + ?S"
    using ok reg len by (auto simp: ring_ok_def region_def)
  have S: "0 < ?S" "length (sr_data ring) = ?S" using ring_arith(2) [OF ok] ok by (auto simp: ring_ok_def)
  have apart: "\<not> (off \<le> p mod ?S \<and> p mod ?S < off + length bs)"
    if "sr_read_pos ring \<le> p" "p < sr_write_pos ring" for p
  proof
    assume "off \<le> p mod ?S \<and> p mod ?S < off + length bs"
    then obtain k where k: "p mod ?S = off + k" "k < length bs" by (metis le_Suc_ex nat_add_left_cancel_less)
    have "(?base + k) mod ?S = off + k" using k d(1,2) S(2) by (subst mod_run) auto
    moreover have "p < ?base + k" "?base + k < p + ?S" using that k(2) d(3) by auto
    ultimately show False using slots_apart [of p "?base + k" ?S] k(1) by simp
  qed
  show "ring_ok ring' h"
    using ok apart d(1) S nth_put_bytes [OF d(1)] unfolding ring' ring_ok_def by auto
  show "filled ring' bs"
    using reg len d(1) S nth_put_bytes [OF d(1)] unfolding ring' filled_def region_def by auto
qed

section \<open>Every step keeps the invariant\<close>

lemma acquire_ok:
  assumes ok: "ring_ok ring h" and run: "producer_acquire ring required = (p, ring')"
  shows "producer_ok ring' p \<and> (\<exists>k. ring' = ring\<lparr>sr_pending_wrap_len := k\<rparr>) \<and> (\<nexists>bs. p = P_Write_Pos bs)"
proof -
  let ?w = "sr_write_pos ring" and ?S = "sr_size ring"
  have b: "sr_read_pos ring \<le> ?w" "?w < sr_read_pos ring + ?S" "?w \<le> SIZE_MAX" using ok by (auto simp: ring_ok_def)
  note ar = ring_arith [OF ok]
  have S: "?w mod ?S < ?S" using ar(2) by simp
  show ?thesis
  proof (cases "?S \<le> required \<or> ?S - (?w - sr_read_pos ring) - 1 < required")
    case True
    then have "p = P_Idle" "ring' = ring" using run ar(4) [OF b(1,2)] by (auto simp: producer_acquire_def Let_def)
    moreover have "\<exists>k. ring = ring\<lparr>sr_pending_wrap_len := k\<rparr>" by (rule exI [of _ "sr_pending_wrap_len ring"]) simp
    ultimately show ?thesis by (simp add: producer_ok_def)
  next
    case False
    let ?r1 = "ring\<lparr>sr_pending_wrap_len := 0\<rparr>"
    have room: "required \<le> ?S - (?w - sr_read_pos ring) - 1" "?w + (?S - (?w - sr_read_pos ring) - 1) < sr_read_pos ring + ?S"
      using False b by auto
    then have fit: "?w + required < sr_read_pos ring + ?S" by linarith
    show ?thesis
    proof (cases "?S - ?w mod ?S < required")
      case True
      then have "p = P_Check required (?S - (?w - sr_read_pos ring) - 1)" "ring' = ?r1"
        using run False ar(3) [OF b(3)] ar(4) [OF b(1,2)] by (auto simp: producer_acquire_def Let_def)
      then show ?thesis using room by (auto simp: producer_ok_def)
    next
      case small: False
      then have "p = P_Own (?w mod ?S) required" "ring' = ?r1"
        using run False ar(1) ar(3) [OF b(3)] ar(4) [OF b(1,2)] by (auto simp: producer_acquire_def Let_def)
      then show ?thesis using small fit S by (auto simp: producer_ok_def region_def)
    qed
  qed
qed

lemma check_ok:
  assumes ok: "ring_ok ring h" and pre: "producer_ok ring (P_Check required available)"
    and run: "producer_check ring required available = (p, ring')"
  shows "producer_ok ring' p \<and> (\<exists>k. ring' = ring\<lparr>sr_pending_wrap_len := k\<rparr>) \<and> (\<nexists>bs. p = P_Write_Pos bs)"
proof -
  let ?w = "sr_write_pos ring" and ?S = "sr_size ring"
  have b: "?w \<le> SIZE_MAX" "?S \<le> SIZE_MAX" "?w < sr_read_pos ring + ?S" "sr_read_pos ring \<le> ?w"
    using ok by (auto simp: ring_ok_def)
  note ar = ring_arith [OF ok]
  have S: "?w mod ?S < ?S" using ar(2) by simp
  let ?l = "?S - ?w mod ?S"
  have req: "required \<le> available" "?w + available < sr_read_pos ring + ?S" using pre by (simp_all add: producer_ok_def)
  then have "required < ?S" using b by linarith
  then have "required + ?l \<le> SIZE_MAX"
    using power_of_two_half [of ?S] ok b(2) S by (auto simp: ring_ok_def)
  then have sum: "size_add required ?l = required + ?l" by simp
  show ?thesis
  proof (cases "sr_wrap_len ring \<noteq> 0 \<or> available < required + ?l")
    case True
    then have "p = P_Idle" "ring' = ring" using run ar(3) [OF b(1)] sum by (auto simp: producer_check_def Let_def)
    moreover have "\<exists>k. ring = ring\<lparr>sr_pending_wrap_len := k\<rparr>" by (rule exI [of _ "sr_pending_wrap_len ring"]) simp
    ultimately show ?thesis by (simp add: producer_ok_def)
  next
    case False
    then have out: "p = P_Own 0 required" "ring' = ring\<lparr>sr_pending_wrap_len := ?l\<rparr>"
      using run ar(3) [OF b(1)] sum by (auto simp: producer_check_def Let_def)
    have "?w + ?l = ?w div ?S * ?S + ?S" using S div_mult_mod_eq [of ?w ?S] by linarith
    then have "(?w + ?l) mod ?S = 0" by simp
    moreover have "?w + ?l + required < sr_read_pos ring + ?S" using False req(2) by linarith
    ultimately show ?thesis using out False \<open>required < ?S\<close> by (auto simp: producer_ok_def region_def)
  qed
qed

lemma gap_pending [simp]:
  "(\<nexists>bs. p = P_Write_Pos bs) \<Longrightarrow> (\<nexists>bs. sy_producer s = P_Write_Pos bs) \<Longrightarrow>
   gap_ok (s\<lparr>sy_producer := p, sy_ring := (sy_ring s)\<lparr>sr_pending_wrap_len := k\<rparr>\<rparr>) = gap_ok s"
  by (simp add: gap_ok_def Let_def)

lemma ring_ok_pending [simp]: "ring_ok (ring\<lparr>sr_pending_wrap_len := k\<rparr>) h = ring_ok ring h"
  by (simp add: ring_ok_def)

lemma consumer_ok_pending [simp]: "consumer_ok (ring\<lparr>sr_pending_wrap_len := k\<rparr>) h c = consumer_ok ring h c"
  by (cases c) (simp_all add: consumer_ok_def)

lemma p_pending_ok:
  assumes "system_ok s" "producer_ok ring' p" "ring' = (sy_ring s)\<lparr>sr_pending_wrap_len := k\<rparr>"
    "\<nexists>bs. p = P_Write_Pos bs" "\<nexists>bs. sy_producer s = P_Write_Pos bs"
  shows "system_ok (s\<lparr>sy_producer := p, sy_ring := ring'\<rparr>)"
  using assms unfolding system_ok_def by simp

lemma no_clear:
  assumes "system_ok s" "sy_producer s = P_Write_Pos bs"
  shows "(\<nexists>a b c. sy_consumer s = C_Clear a b c)" "(\<nexists>a b c. sy_consumer s = C_Skip a b c)"
  using assms by (auto simp: system_ok_def producer_ok_def consumer_ok_def ring_ok_def Let_def)

lemma p_publish_ok:
  assumes ok: "system_ok s" and pc: "sy_producer s = P_Write_Pos bs"
    and h': "h' = sy_history s @ replicate (sr_pending_wrap_len (sy_ring s)) None @ map Some bs"
    and bound: "length h' + sr_size (sy_ring s) \<le> SIZE_MAX"
    and ring': "ring' = (sy_ring s)\<lparr>sr_write_pos := length h', sr_pending_wrap_len := 0\<rparr>"
  shows "system_ok (s\<lparr>sy_producer := P_Idle, sy_ring := ring', sy_history := h'\<rparr>)"
proof -
  let ?r = "sy_ring s"
  note sys = ok [unfolded system_ok_def]
  have rok: "ring_ok ?r (sy_history s)" and w: "sr_write_pos ?r = length (sy_history s)"
    and rw: "sr_read_pos ?r \<le> length (sy_history s)"
    using sys by (auto simp: ring_ok_def)
  have p: "filled ?r bs" "sr_pending_wrap_len ?r \<noteq> 0" "sr_wrap_len ?r = sr_pending_wrap_len ?r"
    "sr_wrap_pos ?r = sr_write_pos ?r"
    using sys pc by (auto simp: producer_ok_def)
  have cl: "clean (sy_history s) (sr_read_pos ?r) (length (sy_history s))"
    using sys pc p w by (simp add: gap_ok_def Let_def)
  have "ring_ok ring' h'" by (rule ring_ok_publish [OF rok p(1) h' bound ring'])
  moreover have "gap_ok (s\<lparr>sy_producer := P_Idle, sy_ring := ring', sy_history := h'\<rparr>)"
    using p w rw cl no_clear [OF ok pc] sys
    by (auto simp: gap_ok_def Let_def ring' h' nth_append clean_def)
  moreover have "consumer_ok ring' h' (sy_consumer s)"
    unfolding h' using sys w by (intro consumer_ok_frame) (auto simp: ring' h')
  moreover have "take (sr_read_pos ?r) h' = take (sr_read_pos ?r) (sy_history s)" using rw by (simp add: h')
  ultimately show ?thesis using sys by (simp add: system_ok_def producer_ok_def) (simp add: ring')
qed

lemma p_release_ok:
  assumes ok: "system_ok s" and pc: "sy_producer s = P_Filled bs" and pend: "sr_pending_wrap_len (sy_ring s) = 0"
    and h': "h' = sy_history s @ map Some bs" and bound: "length h' + sr_size (sy_ring s) \<le> SIZE_MAX"
    and ring': "ring' = (sy_ring s)\<lparr>sr_write_pos := length h'\<rparr>"
  shows "system_ok (s\<lparr>sy_producer := P_Idle, sy_ring := ring', sy_history := h'\<rparr>)"
proof -
  let ?r = "sy_ring s"
  note sys = ok [unfolded system_ok_def]
  have rok: "ring_ok ?r (sy_history s)" and w: "sr_write_pos ?r = length (sy_history s)"
    and rw: "sr_read_pos ?r \<le> length (sy_history s)"
    using sys by (auto simp: ring_ok_def)
  have p: "filled ?r bs" using sys pc by (auto simp: producer_ok_def)
  have r2: "ring' = ?r\<lparr>sr_write_pos := length h', sr_pending_wrap_len := 0\<rparr>" using pend by (simp add: ring')
  have "ring_ok ring' h'"
    by (rule ring_ok_publish [OF rok p _ bound r2]) (simp add: h' pend)
  moreover have "gap_ok (s\<lparr>sy_producer := P_Idle, sy_ring := ring', sy_history := h'\<rparr>)"
    using w rw sys pc
    by (auto simp: gap_ok_def Let_def ring' h' nth_append clean_def split: if_splits)
  moreover have "consumer_ok ring' h' (sy_consumer s)"
    unfolding h' using sys w by (intro consumer_ok_frame) (auto simp: ring' h')
  moreover have "take (sr_read_pos ?r) h' = take (sr_read_pos ?r) (sy_history s)" using rw by (simp add: h')
  ultimately show ?thesis using sys by (simp add: system_ok_def producer_ok_def) (simp add: ring')
qed

lemma window_ok:
  assumes ok: "ring_ok ring h" and r: "r = sr_read_pos ring"
    and b: "b = (if l \<noteq> 0 \<and> r < g then g else w)" "r \<le> b" "b \<le> sr_write_pos ring" "clean h r b"
  shows "consumer_ok ring h (consumer_locate ring r w l g)"
proof -
  let ?S = "sr_size ring"
  note ar = ring_arith [OF ok]
  have le: "sr_write_pos ring \<le> SIZE_MAX" using ok by (auto simp: ring_ok_def)
  have rle: "r \<le> SIZE_MAX" using b le by linarith
  have avail: "(if l \<noteq> 0 \<and> r < g then size_sub g r else size_sub w r) = b - r"
    using b(1-3) le by (auto split: if_splits)
  have S: "r mod ?S < ?S" using ar(2) by simp
  have win: "ring_window ring r w l g =
      (if b - r = 0 then NULL else Some (r mod ?S, if b - r < ?S - r mod ?S then b - r else ?S - r mod ?S))"
    unfolding ring_window_def Let_def avail ar(1) ar(3) [OF rle] ..
  show ?thesis
  proof (cases "b - r = 0")
    case True
    then show ?thesis by (simp add: consumer_locate_def win consumer_ok_def)
  next
    case False
    define n where "n = (if b - r < ?S - r mod ?S then b - r else ?S - r mod ?S)"
    have n: "n \<le> b - r" "r mod ?S + n \<le> ?S" using S by (auto simp: n_def)
    have "consumer_locate ring r w l g = C_Own (r mod ?S) n" using False by (simp add: consumer_locate_def win n_def)
    then show ?thesis using n b r clean_sub [OF b(4), of r "r + n"] by (simp add: consumer_ok_def Let_def)
  qed
qed

lemma wrap_pos_ok:
  assumes ok: "system_ok s" and pc: "sy_consumer s = C_Wrap_Pos w l"
  shows "consumer_ok (sy_ring s) (sy_history s) (consumer_wrap_pos (sy_ring s) w l)"
proof -
  let ?r = "sy_ring s" and ?h = "sy_history s"
  let ?R = "sr_read_pos ?r" and ?G = "sr_wrap_pos ?r" and ?W = "sr_write_pos ?r"
  note sys = ok [unfolded system_ok_def]
  have rok: "ring_ok ?r ?h" using sys by simp
  have c: "?R \<le> w" "w \<le> ?W" "l = 0 \<Longrightarrow> clean ?h ?R w" "l \<noteq> 0 \<Longrightarrow> sr_wrap_len ?r = l"
    using sys pc by (simp_all add: consumer_ok_def Let_def)
  have W: "?W + sr_size ?r \<le> SIZE_MAX" "?R \<le> ?W" using rok by (auto simp: ring_ok_def)
  have gap: "?R \<le> ?G \<and> ?G \<le> ?W \<and> l \<le> sr_size ?r \<and> clean ?h ?R ?G" if "l \<noteq> 0"
    using sys c(4) [OF that] that pc W by (auto simp: gap_ok_def Let_def clean_def split: if_splits)
  show ?thesis
  proof (cases "l \<noteq> 0 \<and> ?R = ?G")
    case True
    then have "size_add ?R l = ?R + l" using W gap by (intro size_add_exact) linarith
    then show ?thesis
      using True c by (auto simp: consumer_wrap_pos_def Let_def consumer_ok_def)
  next
    case False
    then have "consumer_wrap_pos ?r w l = consumer_locate ?r ?R w l ?G" by (auto simp: consumer_wrap_pos_def Let_def)
    moreover have "consumer_ok ?r ?h (consumer_locate ?r ?R w l ?G)"
    proof (cases "l = 0")
      case True
      then show ?thesis by (intro window_ok [OF rok refl refl]) (use c in auto)
    next
      case nz: False
      then have "?R < ?G" using False gap by auto
      then show ?thesis by (intro window_ok [OF rok refl refl]) (use nz gap in auto)
    qed
    ultimately show ?thesis by simp
  qed
qed

lemma history_grows: "step s s' \<Longrightarrow> length (sy_history s) \<le> length (sy_history s')"
  by (induction rule: step.induct) auto

lemma size_constant: "step s s' \<Longrightarrow> sr_size (sy_ring s') = sr_size (sy_ring s)"
  by (induction rule: step.induct)
    (auto simp: producer_acquire_def producer_check_def salts_spsc_ring_read_release_def Let_def split: if_splits)

lemma consumer_steps_ok:
  assumes ok: "system_ok s"
  shows "sy_consumer s = C_Idle \<Longrightarrow> system_ok (s\<lparr>sy_consumer := C_Wrap_Len (sr_write_pos (sy_ring s))\<rparr>)"
    and "sy_consumer s = C_Wrap_Len w \<Longrightarrow> system_ok (s\<lparr>sy_consumer := C_Wrap_Pos w (sr_wrap_len (sy_ring s))\<rparr>)"
    and "sy_consumer s = C_Wrap_Pos w l \<Longrightarrow> system_ok (s\<lparr>sy_consumer := consumer_wrap_pos (sy_ring s) w l\<rparr>)"
    and "sy_consumer s = C_Own off av \<Longrightarrow> system_ok (s\<lparr>sy_consumer := C_Idle\<rparr>)"
proof -
  note sys = ok [unfolded system_ok_def]
  have gap: "gap_ok (s\<lparr>sy_consumer := c\<rparr>)"
    if "\<nexists>a b d. c = C_Clear a b d" "\<nexists>a b d. sy_consumer s = C_Clear a b d" for c
    using sys that by (simp add: gap_ok_def Let_def)
  have same: "system_ok (s\<lparr>sy_consumer := c\<rparr>)"
    if "consumer_ok (sy_ring s) (sy_history s) c" "\<nexists>a b d. c = C_Clear a b d" "\<nexists>a b d. sy_consumer s = C_Clear a b d" for c
    using sys that gap [of c] by (simp add: system_ok_def)
  show "system_ok (s\<lparr>sy_consumer := C_Wrap_Len (sr_write_pos (sy_ring s))\<rparr>)" if "sy_consumer s = C_Idle"
    using that sys by (intro same) (auto simp: consumer_ok_def ring_ok_def)
  show "system_ok (s\<lparr>sy_consumer := C_Wrap_Pos w (sr_wrap_len (sy_ring s))\<rparr>)" if "sy_consumer s = C_Wrap_Len w"
  proof (rule same)
    have "sr_wrap_len (sy_ring s) = 0 \<Longrightarrow> clean (sy_history s) (sr_read_pos (sy_ring s)) (sr_write_pos (sy_ring s))"
      using sys by (simp add: gap_ok_def Let_def)
    then show "consumer_ok (sy_ring s) (sy_history s) (C_Wrap_Pos w (sr_wrap_len (sy_ring s)))"
      using that sys by (auto simp: consumer_ok_def Let_def intro: clean_sub)
  qed (use that in simp_all)
  show "system_ok (s\<lparr>sy_consumer := consumer_wrap_pos (sy_ring s) w l\<rparr>)" if "sy_consumer s = C_Wrap_Pos w l"
    using that wrap_pos_ok [OF ok that]
    by (intro same) (auto simp: consumer_wrap_pos_def consumer_locate_def Let_def split: option.splits)
  show "system_ok (s\<lparr>sy_consumer := C_Idle\<rparr>)" if "sy_consumer s = C_Own off av"
    using that by (intro same) (auto simp: consumer_ok_def)
qed

lemma c_skip_ok:
  assumes ok: "system_ok s" and pc: "sy_consumer s = C_Skip w l g"
  shows "system_ok (s\<lparr>sy_consumer := C_Clear w l g,
    sy_ring := (sy_ring s)\<lparr>sr_read_pos := size_add (sr_read_pos (sy_ring s)) l\<rparr>\<rparr>)"
proof -
  let ?r = "sy_ring s" and ?h = "sy_history s"
  let ?R = "sr_read_pos ?r"
  note sys = ok [unfolded system_ok_def]
  have c: "l \<noteq> 0" "sr_wrap_len ?r = l" "g = sr_wrap_pos ?r" "?R = g" "?R + l \<le> w" "w \<le> sr_write_pos ?r"
    using sys pc by (auto simp: consumer_ok_def Let_def)
  have W: "sr_write_pos ?r = length ?h" "sr_write_pos ?r \<le> SIZE_MAX" using sys by (auto simp: ring_ok_def)
  have add: "size_add ?R l = ?R + l" using c W by (intro size_add_exact) linarith
  let ?r' = "?r\<lparr>sr_read_pos := ?R + l\<rparr>"
  have np: "\<nexists>bs. sy_producer s = P_Write_Pos bs" using no_clear(2) [OF ok] pc by blast
  have none: "?h ! p = None \<longleftrightarrow> p < ?R + l" if "?R \<le> p" "p < sr_write_pos ?r" for p
    using sys c np pc that by (auto simp: gap_ok_def Let_def)
  have "ring_ok ?r' ?h" using sys c by (intro ring_ok_read) auto
  moreover have "gap_ok (s\<lparr>sy_consumer := C_Clear w l g, sy_ring := ?r'\<rparr>)"
    using c np none sys by (auto simp: gap_ok_def Let_def clean_def)
  moreover have "producer_ok ?r' (sy_producer s)" by (rule producer_ok_frame [of ?r]) (use sys in auto)
  moreover have "consumer_ok ?r' ?h (C_Clear w l g)" using c by (simp add: consumer_ok_def Let_def)
  moreover have "published (take (?R + l) ?h) = published (take ?R ?h)"
  proof -
    have "take l (drop ?R ?h) = replicate l None"
      by (rule nth_equalityI) (use none c W in auto)
    then have "\<forall>x \<in> set (take l (drop ?R ?h)). x = None" by simp
    then show ?thesis by (simp add: take_add published_None)
  qed
  ultimately show ?thesis using sys add by (simp add: system_ok_def)
qed

lemma c_clear_ok:
  assumes ok: "system_ok s" and pc: "sy_consumer s = C_Clear w l g"
  shows "system_ok (s\<lparr>sy_consumer := consumer_locate (sy_ring s) (sr_read_pos (sy_ring s)) w l g,
    sy_ring := (sy_ring s)\<lparr>sr_wrap_len := 0\<rparr>\<rparr>)"
proof -
  let ?r = "sy_ring s" and ?h = "sy_history s"
  let ?R = "sr_read_pos ?r" and ?r' = "(sy_ring s)\<lparr>sr_wrap_len := 0\<rparr>"
  note sys = ok [unfolded system_ok_def]
  have c: "l \<noteq> 0" "sr_wrap_len ?r = l" "g = sr_wrap_pos ?r" "?R = g + l" "?R \<le> w" "w \<le> sr_write_pos ?r"
    using sys pc by (auto simp: consumer_ok_def Let_def)
  have np: "\<nexists>bs. sy_producer s = P_Write_Pos bs" using no_clear(1) [OF ok] pc by blast
  have cl: "clean ?h ?R (sr_write_pos ?r)" using sys c np pc by (simp add: gap_ok_def Let_def)
  have rok: "ring_ok ?r' ?h" using sys by (simp add: ring_ok_def)
  have "consumer_ok ?r' ?h (consumer_locate ?r' ?R w l g)"
    by (rule window_ok [OF rok _ refl]) (use c clean_sub [OF cl] in auto)
  moreover have "consumer_locate ?r' ?R w l g = consumer_locate ?r ?R w l g"
    by (simp add: consumer_locate_def ring_window_def ring_linear_def ring_offset_def Let_def)
  moreover have "producer_ok ?r' (sy_producer s)" by (rule producer_ok_frame [of ?r]) (use sys np in auto)
  moreover have "gap_ok (s\<lparr>sy_consumer := c', sy_ring := ?r'\<rparr>)" for c'
    using cl by (simp add: gap_ok_def Let_def)
  ultimately show ?thesis using sys rok by (simp add: system_ok_def)
qed

lemma c_read_ok:
  assumes ok: "system_ok s" and pc: "sy_consumer s = C_Own off av" and n: "n \<le> av"
  shows "system_ok (s\<lparr>sy_consumer := C_Taken (take n (drop off (sr_data (sy_ring s))))\<rparr>)"
proof -
  let ?r = "sy_ring s" and ?h = "sy_history s"
  let ?R = "sr_read_pos ?r" and ?S = "sr_size ?r"
  note sys = ok [unfolded system_ok_def]
  have c: "off = ?R mod ?S" "off + av \<le> ?S" "?R + av \<le> sr_write_pos ?r" "clean ?h ?R (?R + av)"
    using sys pc by (auto simp: consumer_ok_def Let_def)
  have r: "length (sr_data ?r) = ?S" "sr_write_pos ?r = length ?h"
    "\<And>p b. ?R \<le> p \<Longrightarrow> p < sr_write_pos ?r \<Longrightarrow> ?h ! p = Some b \<Longrightarrow> sr_data ?r ! (p mod ?S) = b"
    using sys by (auto simp: ring_ok_def)
  have len: "length (take n (drop off (sr_data ?r))) = n" using r(1) c(2) n by simp
  have "map Some (take n (drop off (sr_data ?r))) = take n (drop ?R ?h)"
  proof (rule nth_equalityI)
    show "length (map Some (take n (drop off (sr_data ?r)))) = length (take n (drop ?R ?h))"
      using len r(2) c(3) n by simp
    fix k assume "k < length (map Some (take n (drop off (sr_data ?r))))"
    then have k: "k < n" using len by simp
    then obtain b where b: "?h ! (?R + k) = Some b" using c(4) n by (fastforce simp: clean_def)
    have "(?R + k) mod ?S = off + k" using k n c(1,2) by (subst mod_run) auto
    with r(3) [OF _ _ b] have "sr_data ?r ! (off + k) = b" using k n c(3) by simp
    then show "map Some (take n (drop off (sr_data ?r))) ! k = take n (drop ?R ?h) ! k"
      using k n b r c by simp
  qed
  then have "consumer_ok ?r ?h (C_Taken (take n (drop off (sr_data ?r))))"
    using len c(3) n by (simp add: consumer_ok_def Let_def)
  then show ?thesis using sys pc by (simp add: system_ok_def gap_ok_def Let_def)
qed

lemma c_release_ok:
  assumes ok: "system_ok s" and pc: "sy_consumer s = C_Taken bs"
  shows "system_ok (s\<lparr>sy_consumer := C_Idle, sy_ring := salts_spsc_ring_read_release (sy_ring s) (length bs),
    sy_taken := sy_taken s @ bs\<rparr>)"
proof -
  let ?r = "sy_ring s" and ?h = "sy_history s"
  let ?R = "sr_read_pos ?r"
  note sys = ok [unfolded system_ok_def]
  have c: "?R + length bs \<le> sr_write_pos ?r" "map Some bs = take (length bs) (drop ?R ?h)"
    using sys pc by (auto simp: consumer_ok_def Let_def)
  have W: "sr_write_pos ?r = length ?h" "sr_write_pos ?r \<le> SIZE_MAX" using sys by (auto simp: ring_ok_def)
  have "size_add ?R (length bs) = ?R + length bs" using c W by (intro size_add_exact) linarith
  then have r': "salts_spsc_ring_read_release ?r (length bs) = ?r\<lparr>sr_read_pos := ?R + length bs\<rparr>"
    by (simp add: salts_spsc_ring_read_release_def)
  have full: "?h ! p \<noteq> None" if "?R \<le> p" "p < ?R + length bs" for p
  proof -
    have "map Some bs ! (p - ?R) = ?h ! p" unfolding c(2) using that c(1) W by simp
    then show ?thesis using that by (metis add_diff_inverse_nat length_map nat_add_left_cancel_less not_le nth_map option.distinct(1))
  qed
  have "ring_ok (?r\<lparr>sr_read_pos := ?R + length bs\<rparr>) ?h" using sys c by (intro ring_ok_read) auto
  moreover have "gap_ok (s\<lparr>sy_consumer := C_Idle, sy_ring := ?r\<lparr>sr_read_pos := ?R + length bs\<rparr>, sy_taken := t\<rparr>)" for t
  proof (cases "sr_wrap_len ?r = 0 \<or> (\<exists>bs. sy_producer s = P_Write_Pos bs)")
    case True
    then show ?thesis using sys by (auto simp: gap_ok_def Let_def intro: clean_sub)
  next
    case False
    then have g: "?R \<le> sr_wrap_pos ?r" "sr_wrap_pos ?r + sr_wrap_len ?r \<le> sr_write_pos ?r"
      "\<And>p. ?R \<le> p \<Longrightarrow> p < sr_write_pos ?r \<Longrightarrow> ?h ! p = None \<longleftrightarrow> sr_wrap_pos ?r \<le> p \<and> p < sr_wrap_pos ?r + sr_wrap_len ?r"
      using sys pc by (auto simp: gap_ok_def Let_def)
    have "?R + length bs \<le> sr_wrap_pos ?r"
      using g(1,2) g(3) [of "sr_wrap_pos ?r"] full [of "sr_wrap_pos ?r"] False by fastforce
    then show ?thesis using sys g False pc by (auto simp: gap_ok_def Let_def)
  qed
  moreover have "producer_ok (?r\<lparr>sr_read_pos := ?R + length bs\<rparr>) (sy_producer s)"
    by (rule producer_ok_frame [of ?r]) (use sys in auto)
  moreover have "published (take (?R + length bs) ?h) = published (take ?R ?h) @ bs"
    unfolding take_add published_append c(2) [symmetric] published_Some ..
  ultimately show ?thesis using sys unfolding r' by (simp add: system_ok_def consumer_ok_def)
qed

lemma step_ok:
  assumes "step a b" "system_ok a" "length (sy_history b) + sr_size (sy_ring b) \<le> SIZE_MAX"
  shows "system_ok b"
  using assms
proof (induction rule: step.induct)
  case (p_acquire s required p ring)
  then have "ring_ok (sy_ring s) (sy_history s)" by (simp add: system_ok_def)
  from acquire_ok [OF this p_acquire(3)] obtain k where
    "producer_ok ring p" "ring = (sy_ring s)\<lparr>sr_pending_wrap_len := k\<rparr>" "\<nexists>bs. p = P_Write_Pos bs" by auto
  with p_acquire show ?case by (auto intro!: p_pending_ok)
next
  case (p_check s required available p ring)
  then have "ring_ok (sy_ring s) (sy_history s)" "producer_ok (sy_ring s) (P_Check required available)"
    by (auto simp: system_ok_def)
  from check_ok [OF this p_check(2)] obtain k where
    "producer_ok ring p" "ring = (sy_ring s)\<lparr>sr_pending_wrap_len := k\<rparr>" "\<nexists>bs. p = P_Write_Pos bs" by auto
  with p_check show ?case by (auto intro!: p_pending_ok)
next
  case (p_abandon s offset required)
  then have "system_ok (s\<lparr>sy_producer := P_Idle, sy_ring := (sy_ring s)\<lparr>sr_pending_wrap_len := sr_pending_wrap_len (sy_ring s)\<rparr>\<rparr>)"
    by (intro p_pending_ok [where k = "sr_pending_wrap_len (sy_ring s)"]) (simp_all add: producer_ok_def)
  with p_abandon show ?case by simp
next
  case (p_fill s offset required bs)
  let ?r = "(sy_ring s)\<lparr>sr_data := put_bytes (sr_data (sy_ring s)) offset bs\<rparr>"
  have sys: "ring_ok (sy_ring s) (sy_history s)" "gap_ok s" "consumer_ok (sy_ring s) (sy_history s) (sy_consumer s)"
    "sy_taken s = published (take (sr_read_pos (sy_ring s)) (sy_history s))"
    "region (sy_ring s) offset required" "sr_pending_wrap_len (sy_ring s) \<noteq> 0 \<longrightarrow> sr_wrap_len (sy_ring s) = 0"
    using p_fill by (auto simp: system_ok_def producer_ok_def)
  note fill = ring_ok_fill [OF sys(1,5) p_fill(2) refl]
  have "consumer_ok ?r (sy_history s @ []) (sy_consumer s)"
    by (rule consumer_ok_frame [OF sys(3)]) (use sys(1) in \<open>auto simp: ring_ok_def\<close>)
  moreover have "gap_ok (s\<lparr>sy_producer := P_Filled bs, sy_ring := ?r\<rparr>)"
    using sys(2) p_fill(1) by (simp add: gap_ok_def Let_def)
  ultimately show ?case using p_fill(3) fill sys(4,6) by (simp add: system_ok_def producer_ok_def)
next
  case (p_release s bs)
  let ?h = "sy_history s @ map Some bs"
  have w: "sr_write_pos (sy_ring s) = length (sy_history s)" using p_release(3) by (auto simp: system_ok_def ring_ok_def)
  have "length ?h \<le> SIZE_MAX" using p_release(4) by simp
  then have "size_add (sr_write_pos (sy_ring s)) (length bs) = length ?h" by (simp add: w)
  with p_release show ?case by (auto intro!: p_release_ok)
next
  case (p_wrap_pos s bs)
  let ?r = "(sy_ring s)\<lparr>sr_wrap_pos := sr_write_pos (sy_ring s)\<rparr>"
  have sys: "ring_ok (sy_ring s) (sy_history s)" "gap_ok s" "consumer_ok (sy_ring s) (sy_history s) (sy_consumer s)"
    "sy_taken s = published (take (sr_read_pos (sy_ring s)) (sy_history s))"
    "filled (sy_ring s) bs" "sr_wrap_len (sy_ring s) = 0"
    using p_wrap_pos by (auto simp: system_ok_def producer_ok_def)
  have "consumer_ok ?r (sy_history s @ []) (sy_consumer s)"
    by (rule consumer_ok_frame [OF sys(3)]) (use sys(1,6) in \<open>auto simp: ring_ok_def\<close>)
  moreover have "gap_ok (s\<lparr>sy_producer := P_Wrap_Len bs, sy_ring := ?r\<rparr>)"
    using sys(2,6) by (simp add: gap_ok_def Let_def)
  moreover have "ring_ok ?r (sy_history s)" "filled ?r bs" using sys(1,5) by (auto simp: ring_ok_def filled_def region_def)
  ultimately show ?case using p_wrap_pos(2) sys(4,6) by (simp add: system_ok_def producer_ok_def)
next
  case (p_wrap_len s bs)
  let ?r = "(sy_ring s)\<lparr>sr_wrap_len := sr_pending_wrap_len (sy_ring s)\<rparr>"
  have sys: "ring_ok (sy_ring s) (sy_history s)" "gap_ok s" "consumer_ok (sy_ring s) (sy_history s) (sy_consumer s)"
    "sy_taken s = published (take (sr_read_pos (sy_ring s)) (sy_history s))"
    "filled (sy_ring s) bs" "sr_wrap_len (sy_ring s) = 0" "sr_pending_wrap_len (sy_ring s) \<noteq> 0"
    "sr_wrap_pos (sy_ring s) = sr_write_pos (sy_ring s)"
    using p_wrap_len by (auto simp: system_ok_def producer_ok_def)
  have "consumer_ok ?r (sy_history s @ []) (sy_consumer s)"
    by (rule consumer_ok_frame [OF sys(3)]) (use sys(1,6) in \<open>auto simp: ring_ok_def\<close>)
  moreover have "gap_ok (s\<lparr>sy_producer := P_Write_Pos bs, sy_ring := ?r\<rparr>)"
    using sys(2,5-8) by (auto simp: gap_ok_def Let_def filled_def region_def)
  moreover have "ring_ok ?r (sy_history s)" "filled ?r bs" using sys(1,5) by (auto simp: ring_ok_def filled_def region_def)
  ultimately show ?case using sys(4,7,8) by (simp add: system_ok_def producer_ok_def)
next
  case (p_write_pos s bs)
  let ?k = "sr_pending_wrap_len (sy_ring s)"
  let ?h = "sy_history s @ replicate ?k None @ map Some bs"
  have w: "sr_write_pos (sy_ring s) = length (sy_history s)" using p_write_pos(2) by (auto simp: system_ok_def ring_ok_def)
  have "length ?h \<le> SIZE_MAX" using p_write_pos(3) by simp
  then have "size_add (size_add (sr_write_pos (sy_ring s)) ?k) (length bs) = length ?h" by (simp add: w)
  with p_write_pos show ?case by (auto intro!: p_publish_ok)
qed (auto intro: consumer_steps_ok c_skip_ok c_clear_ok c_read_ok c_release_ok)

section \<open>Uninterrupted calls are runs\<close>

lemma write_acquire_run:
  assumes "sy_producer s = P_Idle" "0 < required"
    and "salts_spsc_ring_write_acquire (sy_ring s) required = (q, ring')"
  shows "step\<^sup>*\<^sup>* s (s\<lparr>sy_producer := (case q of None \<Rightarrow> P_Idle | Some off \<Rightarrow> P_Own off required), sy_ring := ring'\<rparr>)"
proof -
  obtain p ring1 where a: "producer_acquire (sy_ring s) required = (p, ring1)" by fastforce
  note one = p_acquire [OF assms(1,2) a]
  show ?thesis
  proof (cases "\<exists>rq av. p = P_Check rq av")
    case True
    then obtain rq av where p: "p = P_Check rq av" by blast
    let ?s1 = "s\<lparr>sy_producer := p, sy_ring := ring1\<rparr>"
    obtain p2 ring2 where b: "producer_check ring1 rq av = (p2, ring2)" by fastforce
    have "step ?s1 (?s1\<lparr>sy_producer := p2, sy_ring := ring2\<rparr>)" by (rule step.p_check [where required = rq and available = av]) (simp_all add: p b)
    moreover have "ring2 = ring'" "p2 = (case q of None \<Rightarrow> P_Idle | Some off \<Rightarrow> P_Own off required)"
      using a b p assms(3)
      by (auto simp: producer_acquire_def producer_check_def salts_spsc_ring_write_acquire_def Let_def
          ring_linear_def ring_offset_def split: if_splits)
    ultimately show ?thesis using one by (auto intro: rtranclp.intros)
  next
    case False
    then have "ring1 = ring'" "p = (case q of None \<Rightarrow> P_Idle | Some off \<Rightarrow> P_Own off required)"
      using a assms(3)
      by (auto simp: producer_acquire_def salts_spsc_ring_write_acquire_def Let_def split: if_splits)
    with one show ?thesis by auto
  qed
qed

lemma write_release_run:
  assumes "sy_producer s = P_Filled bs"
  shows "step\<^sup>*\<^sup>* s (s\<lparr>sy_producer := P_Idle, sy_ring := salts_spsc_ring_write_release (sy_ring s) (length bs),
    sy_history := sy_history s @ replicate (sr_pending_wrap_len (sy_ring s)) None @ map Some bs\<rparr>)"
proof (cases "sr_pending_wrap_len (sy_ring s) = 0")
  case True
  then show ?thesis
    using p_release [OF assms True] by (simp add: salts_spsc_ring_write_release_def Let_def r_into_rtranclp)
next
  case False
  let ?r = "sy_ring s"
  let ?s1 = "s\<lparr>sy_producer := P_Wrap_Len bs, sy_ring := ?r\<lparr>sr_wrap_pos := sr_write_pos ?r\<rparr>\<rparr>"
  let ?s2 = "?s1\<lparr>sy_producer := P_Write_Pos bs, sy_ring := (sy_ring ?s1)\<lparr>sr_wrap_len := sr_pending_wrap_len ?r\<rparr>\<rparr>"
  have "step s ?s1" by (rule p_wrap_pos [OF assms False])
  moreover have "step ?s1 ?s2" using p_wrap_len [of ?s1 bs] by simp
  moreover have "step ?s2 (?s2\<lparr>sy_producer := P_Idle, sy_ring := salts_spsc_ring_write_release ?r (length bs),
      sy_history := sy_history s @ replicate (sr_pending_wrap_len ?r) None @ map Some bs\<rparr>)"
    using p_write_pos [of ?s2 bs] False by (simp add: salts_spsc_ring_write_release_def Let_def)
  ultimately show ?thesis by (auto intro: rtranclp.intros)
qed

lemma read_acquire_run:
  assumes "sy_consumer s = C_Idle" and "salts_spsc_ring_read_acquire (sy_ring s) = (q, ring')"
  shows "step\<^sup>*\<^sup>* s (s\<lparr>sy_consumer := (case q of None \<Rightarrow> C_Idle | Some (off, av) \<Rightarrow> C_Own off av), sy_ring := ring'\<rparr>)"
proof -
  let ?r = "sy_ring s"
  let ?w = "sr_write_pos ?r" and ?l = "sr_wrap_len ?r" and ?R = "sr_read_pos ?r" and ?g = "sr_wrap_pos ?r"
  let ?s1 = "s\<lparr>sy_consumer := C_Wrap_Len ?w\<rparr>" and ?s2 = "s\<lparr>sy_consumer := C_Wrap_Pos ?w ?l\<rparr>"
  let ?s3 = "s\<lparr>sy_consumer := consumer_wrap_pos ?r ?w ?l\<rparr>"
  have "step s ?s1" using c_write_pos [OF assms(1)] .
  moreover have "step ?s1 ?s2" using c_wrap_len [of ?s1 ?w] by simp
  moreover have "step ?s2 ?s3" using c_wrap_pos [of ?s2 ?w ?l] by simp
  ultimately have run: "step\<^sup>*\<^sup>* s ?s3" by (auto intro: rtranclp.intros)
  show ?thesis
  proof (cases "?l \<noteq> 0 \<and> ?R = ?g \<and> \<not> ?w < size_add ?R ?l")
    case True
    let ?s4 = "s\<lparr>sy_consumer := C_Clear ?w ?l ?g, sy_ring := ?r\<lparr>sr_read_pos := size_add ?R ?l\<rparr>\<rparr>"
    have s3: "?s3 = s\<lparr>sy_consumer := C_Skip ?w ?l ?g\<rparr>" using True by (auto simp: consumer_wrap_pos_def Let_def)
    have "step ?s3 ?s4" unfolding s3 using c_skip [of "s\<lparr>sy_consumer := C_Skip ?w ?l ?g\<rparr>" ?w ?l ?g] by simp
    moreover have "step ?s4 (?s4\<lparr>sy_consumer := consumer_locate (sy_ring ?s4) (size_add ?R ?l) ?w ?l ?g,
        sy_ring := (sy_ring ?s4)\<lparr>sr_wrap_len := 0\<rparr>\<rparr>)"
      using c_clear [of ?s4 ?w ?l ?g] by simp
    moreover have "ring' = ?r\<lparr>sr_read_pos := size_add ?R ?l, sr_wrap_len := 0\<rparr>"
      "consumer_locate (sy_ring ?s4) (size_add ?R ?l) ?w ?l ?g = (case q of None \<Rightarrow> C_Idle | Some (off, av) \<Rightarrow> C_Own off av)"
      using assms(2) True
      by (auto simp: salts_spsc_ring_read_acquire_def Let_def consumer_locate_def ring_window_def ring_linear_def ring_offset_def)
    ultimately show ?thesis using run by (auto intro: rtranclp.intros)
  next
    case False
    then have "ring' = ?r" "consumer_wrap_pos ?r ?w ?l = (case q of None \<Rightarrow> C_Idle | Some (off, av) \<Rightarrow> C_Own off av)"
      using assms(2)
      by (auto simp: salts_spsc_ring_read_acquire_def consumer_wrap_pos_def consumer_locate_def Let_def split: if_splits)
    with run show ?thesis by simp
  qed
qed

section \<open>Properties\<close>

lemma reachable_ok:
  assumes "step\<^sup>*\<^sup>* s0 s" "system_ok s0" "length (sy_history s) + sr_size (sy_ring s) \<le> SIZE_MAX"
  shows "system_ok s"
  using assms
proof (induction rule: rtranclp_induct)
  case (step s s')
  then have "length (sy_history s) + sr_size (sy_ring s) \<le> SIZE_MAX"
    using history_grows [OF step.hyps(2)] size_constant [OF step.hyps(2)] by linarith
  with step show ?case by (blast intro: step_ok)
qed simp

lemma reachable_size: "step\<^sup>*\<^sup>* s0 s \<Longrightarrow> sr_size (sy_ring s) = sr_size (sy_ring s0)"
  by (induction rule: rtranclp_induct) (simp_all add: size_constant)

lemma start_ok:
  assumes "salts_spsc_ring_init r0 storage sz = (True, ring)" "length storage = sz" "sz \<le> SIZE_MAX"
  shows "system_ok (start ring)" "sr_size ring = sz"
proof -
  have p: "salts_spsc_ring_power_of_two sz" and ring: "ring = \<lparr>sr_size = sz, sr_mask = sz - 1, sr_data = storage,
      sr_write_pos = 0, sr_read_pos = 0, sr_wrap_pos = 0, sr_wrap_len = 0, sr_pending_wrap_len = 0\<rparr>"
    using assms(1) by (auto simp: salts_spsc_ring_init_def split: if_splits)
  then show "sr_size ring = sz" by simp
  have "0 < sz" using p by (simp add: salts_spsc_ring_power_of_two_def)
  then show "system_ok (start ring)"
    using p assms(2,3)
    by (simp add: ring start_def system_ok_def ring_ok_def gap_ok_def producer_ok_def consumer_ok_def Let_def
        clean_def published_def)
qed

text \<open>C3: The ring is a race-free FIFO under every interleaving of the two threads. After any run
  of producer and consumer steps from a freshly initialised ring, the bytes the consumer has
  released are a prefix of the bytes the producer has released, and all of them when the
  positions meet; a region the producer may write and one the consumer may read never share
  a byte of storage and lie inside it; and a window the consumer owns holds exactly the next
  bytes of the stream. (The run writes less than \<open>SIZE_MAX\<close> minus the ring size bytes, so that
  no position wraps around.)\<close>

theorem spsc_fifo:
  assumes "salts_spsc_ring_init r0 storage sz = (True, ring)" and "length storage = sz"
    and "step\<^sup>*\<^sup>* (start ring) s" and "length (sy_history s) + sz \<le> SIZE_MAX"
  shows "(\<exists>rest. published (sy_history s) = sy_taken s @ rest \<and>
      (sr_read_pos (sy_ring s) = sr_write_pos (sy_ring s) \<longrightarrow> rest = []) \<and>
      (\<forall>off av. sy_consumer s = C_Own off av \<longrightarrow>
         off + av \<le> sz \<and> take av (drop off (sr_data (sy_ring s))) = take av rest)) \<and>
    (\<forall>off req off' av i. sy_producer s = P_Own off req \<and> off \<le> i \<and> i < off + req \<longrightarrow>
       i < sz \<and> \<not> (sy_consumer s = C_Own off' av \<and> off' \<le> i \<and> i < off' + av))"
proof -
  have S: "sr_size ring = sz" "sz \<le> SIZE_MAX" using start_ok(2) assms by auto
  have sz: "sr_size (sy_ring s) = sz" using reachable_size [OF assms(3)] S(1) by (simp add: start_def)
  have ok: "system_ok s"
    using reachable_ok [OF assms(3) start_ok(1) [OF assms(1,2) S(2)]] assms(4) sz by simp
  let ?r = "sy_ring s" and ?h = "sy_history s"
  let ?R = "sr_read_pos ?r"
  have rok: "ring_ok ?r ?h" and taken: "sy_taken s = published (take ?R ?h)" using ok by (simp_all add: system_ok_def)
  have W: "sr_write_pos ?r = length ?h" "?R \<le> length ?h" "length (sr_data ?r) = sz"
    using rok sz by (auto simp: ring_ok_def)
  define rest where "rest = published (drop ?R ?h)"
  have pub: "published ?h = sy_taken s @ rest"
    using published_append [of "take ?R ?h" "drop ?R ?h"] by (simp add: taken rest_def)
  have own: "off + av \<le> sz \<and> take av (drop off (sr_data ?r)) = take av rest" if c: "sy_consumer s = C_Own off av" for off av
  proof -
    have b: "off + av \<le> sz" "?R + av \<le> length ?h" using ok c W(1) sz by (auto simp: system_ok_def consumer_ok_def Let_def)
    let ?d = "take av (drop off (sr_data ?r))"
    have len: "length ?d = av" using b(1) W(3) by simp
    have "consumer_ok ?r ?h (C_Taken ?d)" using c_read_ok [OF ok c order_refl] by (simp add: system_ok_def)
    then have "map Some ?d = take av (drop ?R ?h)" unfolding consumer_ok_def Let_def consumer.case len by blast
    then have "rest = ?d @ published (drop av (drop ?R ?h))"
      using published_append [of "take av (drop ?R ?h)" "drop av (drop ?R ?h)"] published_Some [of ?d]
      by (simp only: append_take_drop_id rest_def)
    then show ?thesis using b(1) len by simp
  qed
  have race: "i < sz \<and> \<not> (sy_consumer s = C_Own off' av \<and> off' \<le> i \<and> i < off' + av)"
    if p: "sy_producer s = P_Own off req" and i: "off \<le> i" "i < off + req" for off req off' av i
  proof -
    let ?base = "sr_write_pos ?r + sr_pending_wrap_len ?r"
    have reg: "off = ?base mod sz" "off + req \<le> sz" "?base + req < ?R + sz"
      using ok p sz by (auto simp: system_ok_def producer_ok_def region_def)
    have False if c: "sy_consumer s = C_Own off' av" and j: "off' \<le> i" "i < off' + av"
    proof -
      have win: "off' = ?R mod sz" "off' + av \<le> sz" "?R + av \<le> sr_write_pos ?r"
        using ok c sz by (auto simp: system_ok_def consumer_ok_def Let_def)
      have "(?base + (i - off)) mod sz = i" using reg i by (subst mod_run) auto
      moreover have "(?R + (i - off')) mod sz = i" using win j by (subst mod_run) auto
      moreover have "?R + (i - off') < ?base + (i - off)" "?base + (i - off) < ?R + (i - off') + sz"
        using reg win i j by linarith+
      ultimately show False using slots_apart [of "?R + (i - off')" "?base + (i - off)" sz] by simp
    qed
    then show ?thesis using i reg(2) by auto
  qed
  show ?thesis
    using pub own race W by (intro conjI exI [of _ rest]) (auto simp: rest_def published_def)
qed

definition tiny_ring :: salts_spsc_ring where
  "tiny_ring = \<lparr>sr_size = 4, sr_mask = 3, sr_data = [0, 0, 0, 0], sr_write_pos = 0, sr_read_pos = 0,
     sr_wrap_pos = 0, sr_wrap_len = 0, sr_pending_wrap_len = 0\<rparr>"

lemma tiny_ring_init: "salts_spsc_ring_init r0 [0, 0, 0, 0] 4 = (True, tiny_ring)"
  by (simp add: salts_spsc_ring_init_def salts_spsc_ring_power_of_two_def tiny_ring_def)

theorem spsc_fifo_witness:
  "\<exists>s. step\<^sup>*\<^sup>* (start tiny_ring) s \<and> sy_consumer s = C_Own 0 2 \<and> published (sy_history s) = [7, 8] \<and>
     take 2 (sr_data (sy_ring s)) = [7, 8]"
proof -
  let ?s0 = "start tiny_ring"
  let ?s1 = "?s0\<lparr>sy_producer := P_Own 0 2, sy_ring := tiny_ring\<rparr>"
  let ?s2 = "?s1\<lparr>sy_producer := P_Filled [7, 8], sy_ring := tiny_ring\<lparr>sr_data := [7, 8, 0, 0]\<rparr>\<rparr>"
  let ?r3 = "tiny_ring\<lparr>sr_data := [7, 8, 0, 0], sr_write_pos := 2\<rparr>"
  let ?s3 = "?s2\<lparr>sy_producer := P_Idle, sy_ring := ?r3, sy_history := [Some 7, Some 8]\<rparr>"
  let ?s4 = "?s3\<lparr>sy_consumer := C_Own 0 2, sy_ring := ?r3\<rparr>"
  have max: "(4::nat) \<le> SIZE_MAX" by (simp add: SIZE_MAX_def)
  have "salts_spsc_ring_write_acquire tiny_ring 2 = (Some 0, tiny_ring)"
    using max by (simp add: salts_spsc_ring_write_acquire_def tiny_ring_def ring_available_def ring_linear_def ring_offset_def Let_def)
  then have "step\<^sup>*\<^sup>* ?s0 ?s1"
    using write_acquire_run [of ?s0 2 "Some 0" tiny_ring] by (simp add: start_def)
  moreover have "step ?s1 ?s2"
    using p_fill [of ?s1 0 2 "[7, 8]"] by (simp add: tiny_ring_def put_bytes_def)
  moreover have "step\<^sup>*\<^sup>* ?s2 ?s3"
    using write_release_run [of ?s2 "[7, 8]"] max
    by (simp add: start_def tiny_ring_def salts_spsc_ring_write_release_def Let_def numeral_2_eq_2)
  moreover have "step\<^sup>*\<^sup>* ?s3 ?s4"
    using read_acquire_run [of ?s3 "Some (0, 2)" ?r3] max
    by (simp add: start_def tiny_ring_def salts_spsc_ring_read_acquire_def ring_window_def ring_linear_def
        ring_offset_def Let_def)
  ultimately have run: "step\<^sup>*\<^sup>* (start tiny_ring) ?s4"
    by (meson rtranclp.rtrancl_into_rtrancl rtranclp_trans)
  have "length (sy_history ?s4) + 4 \<le> SIZE_MAX" by (simp add: SIZE_MAX_def)
  note fifo = spsc_fifo [OF tiny_ring_init _ run this]
  have pub: "published (sy_history ?s4) = [7, 8]" by (simp add: published_def)
  obtain rest where rest: "published (sy_history ?s4) = sy_taken ?s4 @ rest"
    "\<forall>off av. sy_consumer ?s4 = C_Own off av \<longrightarrow> off + av \<le> 4 \<and> take av (drop off (sr_data (sy_ring ?s4))) = take av rest"
    using fifo by auto
  have "rest = [7, 8]" using rest(1) pub by (simp add: start_def)
  then have "take 2 (sr_data (sy_ring ?s4)) = [7, 8]" using rest(2) by simp
  with run pub show ?thesis by (intro exI [of _ ?s4]) simp
qed

text \<open>C29: A request the ring could hold may be refused for ever. When the ring is empty and the
  write offset leaves fewer than \<open>required\<close> bytes before the end of the storage and no more than
  \<open>required\<close> before it, \<open>write_acquire\<close> answers NULL although \<open>required\<close> is less than the ring's size
  and \<open>write_available\<close> reports room for it; \<open>read_acquire\<close> has nothing to return either, and
  neither call moves a position, so repeating them never helps.\<close>

theorem spsc_large_request_starves:
  assumes "salts_spsc_ring_power_of_two (sr_size ring)" and "sr_mask ring = sr_size ring - 1"
    and "sr_size ring \<le> SIZE_MAX" and "sr_write_pos ring \<le> SIZE_MAX"
    and "sr_read_pos ring = sr_write_pos ring" and "sr_wrap_len ring = 0"
    and "required < sr_size ring" and "sr_size ring - sr_write_pos ring mod sr_size ring < required"
    and "sr_write_pos ring mod sr_size ring \<le> required"
  shows "required \<le> salts_spsc_ring_write_available ring \<and>
    salts_spsc_ring_write_acquire ring required = (NULL, ring\<lparr>sr_pending_wrap_len := 0\<rparr>) \<and>
    salts_spsc_ring_read_acquire ring = (NULL, ring)"
proof -
  let ?S = "sr_size ring" and ?w = "sr_write_pos ring"
  have S: "0 < ?S" using assms(1) by (simp add: salts_spsc_ring_power_of_two_def)
  then have m: "?w mod ?S < ?S" by simp
  have off: "ring_offset ring ?w = ?w mod ?S" using and_mask_mod [OF assms(1)] assms(2) by (simp add: ring_offset_def)
  have lin: "ring_linear ring ?w = ?S - ?w mod ?S" using m assms(3) by (simp add: ring_linear_def off)
  have zero: "size_sub ?w ?w = 0" using assms(4) by simp
  have av: "ring_available ring ?w ?w = ?S - 1" using S assms(3) by (simp add: ring_available_def zero)
  have "required + (?S - ?w mod ?S) \<le> SIZE_MAX"
    using power_of_two_half [OF assms(1,3)] assms(7) by linarith
  then have sum: "size_add required (?S - ?w mod ?S) = required + (?S - ?w mod ?S)" by simp
  have "?S - 1 < required + (?S - ?w mod ?S)" using assms(9) m by linarith
  then have "salts_spsc_ring_write_acquire ring required = (NULL, ring\<lparr>sr_pending_wrap_len := 0\<rparr>)"
    using assms(5-8) by (simp add: salts_spsc_ring_write_acquire_def Let_def av lin sum)
  moreover have "salts_spsc_ring_read_acquire ring = (NULL, ring)"
    using assms(5,6) by (simp add: salts_spsc_ring_read_acquire_def ring_window_def Let_def zero)
  ultimately show ?thesis using assms(5,7) by (simp add: salts_spsc_ring_write_available_def av)
qed

theorem spsc_large_request_starves_witness:
  "\<exists>r0 r1 r2 r3 r4. salts_spsc_ring_init tiny_ring (replicate 16 0) 16 = (True, r0) \<and>
     salts_spsc_ring_write_acquire r0 8 = (Some 0, r1) \<and>
     r2 = salts_spsc_ring_write_release r1 8 \<and>
     salts_spsc_ring_read_acquire r2 = (Some (0, 8), r3) \<and>
     r4 = salts_spsc_ring_read_release r3 8 \<and>
     salts_spsc_ring_write_available r4 = 15 \<and>
     salts_spsc_ring_write_acquire r4 9 = (NULL, r4) \<and> salts_spsc_ring_read_acquire r4 = (NULL, r4)"
proof -
  let ?r0 = "\<lparr>sr_size = 16, sr_mask = 15, sr_data = replicate 16 0, sr_write_pos = 0, sr_read_pos = 0,
     sr_wrap_pos = 0, sr_wrap_len = 0, sr_pending_wrap_len = 0\<rparr>"
  let ?r2 = "?r0\<lparr>sr_write_pos := 8\<rparr>" and ?r4 = "?r0\<lparr>sr_write_pos := 8, sr_read_pos := 8\<rparr>"
  have max: "(16::nat) \<le> SIZE_MAX" by (simp add: SIZE_MAX_def)
  have init: "salts_spsc_ring_init tiny_ring (replicate 16 0) 16 = (True, ?r0)"
    by (simp add: salts_spsc_ring_init_def salts_spsc_ring_power_of_two_def)
  have acq: "salts_spsc_ring_write_acquire ?r0 8 = (Some 0, ?r0)"
    using max by (simp add: salts_spsc_ring_write_acquire_def ring_available_def ring_linear_def ring_offset_def Let_def)
  have rel: "salts_spsc_ring_write_release ?r0 8 = ?r2"
    using max by (simp add: salts_spsc_ring_write_release_def Let_def)
  have rd: "salts_spsc_ring_read_acquire ?r2 = (Some (0, 8), ?r2)"
    using max by (simp add: salts_spsc_ring_read_acquire_def ring_window_def ring_linear_def ring_offset_def Let_def)
  have rr: "salts_spsc_ring_read_release ?r2 8 = ?r4"
    using max by (simp add: salts_spsc_ring_read_release_def)
  have pow: "salts_spsc_ring_power_of_two (sr_size ?r4)" by (simp add: salts_spsc_ring_power_of_two_def)
  have av: "salts_spsc_ring_write_available ?r4 = 15"
    using max by (simp add: salts_spsc_ring_write_available_def ring_available_def)
  from spsc_large_request_starves [OF pow, of 9] max
  have "salts_spsc_ring_write_acquire ?r4 9 = (NULL, ?r4)" "salts_spsc_ring_read_acquire ?r4 = (NULL, ?r4)"
    by simp_all
  with init acq rel rd rr av show ?thesis by metis
qed

end
