(* ===== verification/Cflow_Timer.thy ===== *)
theory Cflow_Timer
  imports Salts_Prelude Timed_Queue
begin

text \<open>
  CFlow's notion of time (\<^verbatim>\<open>src/cflow/include/cflow/time.h\<close>), its virtual clock
  (\<^verbatim>\<open>src/cflow/src/clock.c\<close>) and its timer queue (\<^verbatim>\<open>src/cflow/src/timer_queue.c\<close>): a bounded array of
  tasks in order of arrival, searched for the earliest deadline. Instants, durations and
  deadlines are their 64-bit nanosecond counts; functions and user pointers are opaque.
\<close>

section \<open>Time\<close>

type_synonym cflow_instant = u64
type_synonym cflow_duration = u64
type_synonym cflow_deadline = u64

definition UINT64_MAX :: u64 where
  "UINT64_MAX = - 1"

definition cflow_u64_mul_sat :: "u64 \<Rightarrow> u64 \<Rightarrow> u64" where
  "cflow_u64_mul_sat val scale = (if val \<noteq> 0 \<and> UINT64_MAX div val < scale then UINT64_MAX else val * scale)"

definition cflow_duration_from_us :: "u64 \<Rightarrow> cflow_duration" where
  "cflow_duration_from_us us = cflow_u64_mul_sat us 1000"

definition cflow_duration_from_ms :: "u64 \<Rightarrow> cflow_duration" where
  "cflow_duration_from_ms ms = cflow_u64_mul_sat ms 1000000"

definition cflow_duration_from_s :: "u64 \<Rightarrow> cflow_duration" where
  "cflow_duration_from_s seconds = cflow_u64_mul_sat seconds 1000000000"

definition cflow_deadline_after :: "cflow_instant \<Rightarrow> cflow_duration \<Rightarrow> cflow_deadline" where
  "cflow_deadline_after now delay = (if UINT64_MAX - now < delay then UINT64_MAX else now + delay)"

definition cflow_instant_to_ms :: "cflow_instant \<Rightarrow> u64" where
  "cflow_instant_to_ms val = val div 1000000"

definition cflow_deadline_remaining :: "cflow_deadline \<Rightarrow> cflow_instant \<Rightarrow> cflow_duration" where
  "cflow_deadline_remaining deadline now = (if now < deadline then deadline - now else 0)"

definition virtual_clock_advance :: "cflow_instant ptr \<Rightarrow> cflow_duration \<Rightarrow> bool \<times> cflow_instant ptr" where
  "virtual_clock_advance clock delta =
     (case clock of
        None \<Rightarrow> (False, NULL)
      | Some now \<Rightarrow> (True, Some (if UINT64_MAX - now < delta then UINT64_MAX else now + delta)))"

section \<open>The timer queue\<close>

type_synonym task_fn = nat
type_synonym user_ptr = nat

datatype cflow_admission_status =
  CFLOW_ADMISSION_ACCEPTED | CFLOW_ADMISSION_INVALID_ARGUMENT | CFLOW_ADMISSION_FULL
| CFLOW_ADMISSION_CLOSED | CFLOW_ADMISSION_ALLOCATION_FAILED

record cflow_schedule_result =
  sr_status :: cflow_admission_status
  sr_task_id :: u64

record cflow_executor_task =
  et_run :: "task_fn ptr"
  et_cancel :: "task_fn ptr"
  et_finalize :: "task_fn ptr"
  et_user :: user_ptr

record cflow_timer_task =
  tt_id :: u64
  tt_deadline :: cflow_deadline
  tt_order :: u64
  tt_fn :: "task_fn ptr"
  tt_cancel :: "task_fn ptr"
  tt_finalize :: "task_fn ptr"
  tt_user :: user_ptr

definition cflow_timer_task_descriptor :: "cflow_timer_task \<Rightarrow> cflow_executor_task" where
  "cflow_timer_task_descriptor task =
     \<lparr>et_run = tt_fn task, et_cancel = tt_cancel task, et_finalize = tt_finalize task, et_user = tt_user task\<rparr>"

record cflow_timer_queue =
  tq_items :: "cflow_timer_task list"
  tq_count :: size_t
  tq_capacity :: size_t
  tq_next_id :: u64
  tq_next_order :: u64

definition CFLOW_TIMER_DEFAULT_CAPACITY :: size_t where
  "CFLOW_TIMER_DEFAULT_CAPACITY = 4096"

text \<open>Seven eight-byte fields on a 64-bit target.\<close>

definition sizeof_timer_task :: size_t where
  "sizeof_timer_task = 56"

definition zero_timer_task :: cflow_timer_task where
  "zero_timer_task = \<lparr>tt_id = 0, tt_deadline = 0, tt_order = 0, tt_fn = NULL, tt_cancel = NULL,
     tt_finalize = NULL, tt_user = 0\<rparr>"

definition zero_timer_queue :: cflow_timer_queue where
  "zero_timer_queue = \<lparr>tq_items = [], tq_count = 0, tq_capacity = 0, tq_next_id = 0, tq_next_order = 0\<rparr>"

definition task_before :: "cflow_timer_task \<Rightarrow> cflow_timer_task \<Rightarrow> bool" where
  "task_before candidate best \<longleftrightarrow>
     tt_deadline candidate < tt_deadline best \<or>
     (tt_deadline candidate = tt_deadline best \<and> tt_order candidate < tt_order best)"

function earliest_loop :: "cflow_timer_queue \<Rightarrow> size_t \<Rightarrow> size_t \<Rightarrow> size_t" where
  "earliest_loop queue i best =
     (if i < tq_count queue then
        earliest_loop queue (i + 1)
          (if best = SIZE_MAX \<or> task_before (tq_items queue ! i) (tq_items queue ! best) then i else best)
      else best)"
  by pat_completeness auto
termination by (relation "measure (\<lambda>(queue, i, best). tq_count queue - i)") auto

declare earliest_loop.simps [simp del]

definition earliest_index :: "cflow_timer_queue \<Rightarrow> size_t" where
  "earliest_index queue = earliest_loop queue 0 SIZE_MAX"

definition remove_at :: "cflow_timer_queue \<Rightarrow> size_t \<Rightarrow> cflow_timer_queue" where
  "remove_at queue index =
     (let items = (if size_add index 1 < tq_count queue
                   then put_bytes (tq_items queue) index
                          (take (tq_count queue - index - 1) (drop (index + 1) (tq_items queue)))
                   else tq_items queue)
      in queue\<lparr>tq_items := items, tq_count := tq_count queue - 1\<rparr>)"

definition cflow_timer_queue_init_with_capacity ::
  "cflow_timer_queue ptr \<Rightarrow> size_t \<Rightarrow> env \<Rightarrow> bool \<times> cflow_timer_queue ptr \<times> env" where
  "cflow_timer_queue_init_with_capacity queue capacity e =
     (if queue = NULL then (False, queue, e)
      else if capacity = 0 \<or> SIZE_MAX div sizeof_timer_task < capacity then (False, Some zero_timer_queue, e)
      else
        case malloc e of
          (None, e1) \<Rightarrow> (False, Some zero_timer_queue, e1)
        | (Some _, e1) \<Rightarrow>
            (True,
             Some \<lparr>tq_items = replicate capacity zero_timer_task, tq_count = 0, tq_capacity = capacity,
                   tq_next_id = 1, tq_next_order = 0\<rparr>, e1))"

definition cflow_timer_queue_init ::
  "cflow_timer_queue ptr \<Rightarrow> env \<Rightarrow> bool \<times> cflow_timer_queue ptr \<times> env" where
  "cflow_timer_queue_init queue e = cflow_timer_queue_init_with_capacity queue CFLOW_TIMER_DEFAULT_CAPACITY e"

text \<open>\<open>free(NULL)\<close> does nothing: the array is there exactly when the capacity is not zero.\<close>

definition cflow_timer_queue_destroy :: "cflow_timer_queue ptr \<Rightarrow> env \<Rightarrow> cflow_timer_queue ptr \<times> env" where
  "cflow_timer_queue_destroy queue e =
     (case queue of
        None \<Rightarrow> (NULL, e)
      | Some q \<Rightarrow> (Some zero_timer_queue, if tq_capacity q = 0 then e else free_block e))"

definition cflow_timer_queue_try_schedule_task ::
  "cflow_timer_queue ptr \<Rightarrow> cflow_deadline \<Rightarrow> cflow_executor_task ptr \<Rightarrow>
   cflow_schedule_result \<times> cflow_timer_queue ptr" where
  "cflow_timer_queue_try_schedule_task queue deadline task =
     (if queue = NULL \<or> task = NULL \<or> et_run (the task) = NULL
      then (\<lparr>sr_status = CFLOW_ADMISSION_INVALID_ARGUMENT, sr_task_id = 0\<rparr>, queue)
      else
        let q = the queue; t = the task in
        if tq_capacity q \<le> tq_count q \<or> tq_next_id q = 0 \<or> tq_next_order q = UINT64_MAX
        then (\<lparr>sr_status = CFLOW_ADMISSION_FULL, sr_task_id = 0\<rparr>, queue)
        else
          let item = \<lparr>tt_id = tq_next_id q, tt_deadline = deadline, tt_order = tq_next_order q, tt_fn = et_run t,
                      tt_cancel = et_cancel t, tt_finalize = et_finalize t, tt_user = et_user t\<rparr>
          in (\<lparr>sr_status = CFLOW_ADMISSION_ACCEPTED, sr_task_id = tq_next_id q\<rparr>,
              Some (q\<lparr>tq_items := (tq_items q)[tq_count q := item], tq_count := tq_count q + 1,
                      tq_next_id := tq_next_id q + 1, tq_next_order := tq_next_order q + 1\<rparr>)))"

definition cflow_timer_queue_try_schedule ::
  "cflow_timer_queue ptr \<Rightarrow> cflow_deadline \<Rightarrow> task_fn ptr \<Rightarrow> user_ptr \<Rightarrow>
   cflow_schedule_result \<times> cflow_timer_queue ptr" where
  "cflow_timer_queue_try_schedule queue deadline fn user =
     cflow_timer_queue_try_schedule_task queue deadline
       (Some \<lparr>et_run = fn, et_cancel = NULL, et_finalize = NULL, et_user = user\<rparr>)"

definition cflow_timer_queue_schedule ::
  "cflow_timer_queue ptr \<Rightarrow> cflow_deadline \<Rightarrow> task_fn ptr \<Rightarrow> user_ptr \<Rightarrow> u64 \<times> cflow_timer_queue ptr" where
  "cflow_timer_queue_schedule queue deadline fn user =
     (case cflow_timer_queue_try_schedule queue deadline fn user of (r, q) \<Rightarrow> (sr_task_id r, q))"

text \<open>The loop of \<open>cflow_timer_queue_take\<close>.\<close>

function find_task :: "cflow_timer_queue \<Rightarrow> u64 \<Rightarrow> size_t \<Rightarrow> size_t option" where
  "find_task queue i k =
     (if k < tq_count queue then
        if tt_id (tq_items queue ! k) = i then Some k else find_task queue i (k + 1)
      else None)"
  by pat_completeness auto
termination by (relation "measure (\<lambda>(queue, i, k). tq_count queue - k)") auto

declare find_task.simps [simp del]

definition cflow_timer_queue_take ::
  "cflow_timer_queue ptr \<Rightarrow> u64 \<Rightarrow> cflow_timer_task ptr \<Rightarrow> bool \<times> cflow_timer_queue ptr \<times> cflow_timer_task ptr" where
  "cflow_timer_queue_take queue i out =
     (if queue = NULL \<or> i = 0 \<or> out = NULL then (False, queue, out)
      else
        let q = the queue in
        case find_task q i 0 of
          None \<Rightarrow> (False, queue, out)
        | Some k \<Rightarrow> (True, Some (remove_at q k), Some (tq_items q ! k)))"

definition cflow_timer_queue_cancel :: "cflow_timer_queue ptr \<Rightarrow> u64 \<Rightarrow> bool \<times> cflow_timer_queue ptr" where
  "cflow_timer_queue_cancel queue i =
     (case cflow_timer_queue_take queue i (Some zero_timer_task) of (b, q, _) \<Rightarrow> (b, q))"

definition cflow_timer_queue_take_any ::
  "cflow_timer_queue ptr \<Rightarrow> cflow_timer_task ptr \<Rightarrow> bool \<times> cflow_timer_queue ptr \<times> cflow_timer_task ptr" where
  "cflow_timer_queue_take_any queue out =
     (if queue = NULL \<or> tq_count (the queue) = 0 \<or> out = NULL then (False, queue, out)
      else
        let q = the queue in
        (True, Some (q\<lparr>tq_count := tq_count q - 1\<rparr>), Some (tq_items q ! (tq_count q - 1))))"

definition cflow_timer_queue_next_deadline ::
  "cflow_timer_queue ptr \<Rightarrow> cflow_deadline ptr \<Rightarrow> bool \<times> cflow_deadline ptr" where
  "cflow_timer_queue_next_deadline queue out =
     (if queue = NULL \<or> tq_count (the queue) = 0 \<or> out = NULL then (False, out)
      else
        let index = earliest_index (the queue) in
        if index = SIZE_MAX then (False, out) else (True, Some (tt_deadline (tq_items (the queue) ! index))))"

definition cflow_timer_queue_take_ready ::
  "cflow_timer_queue ptr \<Rightarrow> cflow_instant \<Rightarrow> cflow_timer_task ptr \<Rightarrow>
   bool \<times> cflow_timer_queue ptr \<times> cflow_timer_task ptr" where
  "cflow_timer_queue_take_ready queue now out =
     (if queue = NULL \<or> tq_count (the queue) = 0 \<or> out = NULL then (False, queue, out)
      else
        let q = the queue; index = earliest_index q in
        if index = SIZE_MAX \<or> now < tt_deadline (tq_items q ! index) then (False, queue, out)
        else (True, Some (remove_at q index), Some (tq_items q ! index)))"

definition cflow_timer_queue_pending :: "cflow_timer_queue ptr \<Rightarrow> size_t" where
  "cflow_timer_queue_pending queue = (case queue of None \<Rightarrow> 0 | Some q \<Rightarrow> tq_count q)"

section \<open>Invariant\<close>

definition tq_pending :: "cflow_timer_queue \<Rightarrow> cflow_timer_task list" where
  "tq_pending q = take (tq_count q) (tq_items q)"

text \<open>The tasks stand in order of arrival, and identifiers and arrival numbers advance together.\<close>

definition tq_inv :: "cflow_timer_queue \<Rightarrow> bool" where
  "tq_inv q \<longleftrightarrow>
     length (tq_items q) = tq_capacity q \<and> tq_count q \<le> tq_capacity q \<and> tq_capacity q < SIZE_MAX \<and>
     sorted_wrt (\<lambda>a b. tt_order a < tt_order b) (tq_pending q) \<and>
     (\<forall>t \<in> set (tq_pending q). tt_order t < tq_next_order q \<and> tt_id t = tt_order t + 1) \<and>
     tq_next_id q = tq_next_order q + 1"

lemma tq_invD:
  assumes "tq_inv q"
  shows "length (tq_pending q) = tq_count q" "k < tq_count q \<Longrightarrow> tq_items q ! k = tq_pending q ! k"
    "tq_count q < SIZE_MAX"
  using assms by (auto simp: tq_inv_def tq_pending_def)

lemma succ_zero_iff: "(w :: u64) + 1 = 0 \<longleftrightarrow> w = UINT64_MAX"
  by (simp add: UINT64_MAX_def eq_neg_iff_add_eq_0)

lemma pending_id_nonzero: "tq_inv q \<Longrightarrow> t \<in> set (tq_pending q) \<Longrightarrow> tt_id t \<noteq> 0"
proof -
  assume "tq_inv q" "t \<in> set (tq_pending q)"
  then have "tt_order t < tq_next_order q" "tt_id t = tt_order t + 1" by (auto simp: tq_inv_def)
  then show ?thesis using succ_zero_iff [of "tt_order t"] by (auto simp: UINT64_MAX_def)
qed

text \<open>Removing slot \<open>k\<close> removes the \<open>k\<close>-th pending task.\<close>

lemma remove_at:
  assumes "tq_inv q" "k < tq_count q"
  shows "tq_inv (remove_at q k)" "tq_pending (remove_at q k) = take k (tq_pending q) @ drop (Suc k) (tq_pending q)"
    "tq_count (remove_at q k) = tq_count q - 1" "tq_next_order (remove_at q k) = tq_next_order q"
    "tq_capacity (remove_at q k) = tq_capacity q"
proof -
  have c: "length (tq_items q) = tq_capacity q" "tq_count q \<le> tq_capacity q" "tq_capacity q < SIZE_MAX"
    using assms(1) by (simp_all add: tq_inv_def)
  have add: "size_add k 1 = k + 1" using c assms(2) by simp
  show p: "tq_pending (remove_at q k) = take k (tq_pending q) @ drop (Suc k) (tq_pending q)"
  proof (cases "k + 1 < tq_count q")
    case True
    then show ?thesis
      using c assms(2) by (auto simp: remove_at_def tq_pending_def Let_def add put_bytes_def min_def drop_take)
  next
    case False
    with assms(2) have "tq_count q = Suc k" by simp
    then show ?thesis by (simp add: remove_at_def tq_pending_def Let_def add)
  qed
  show n: "tq_count (remove_at q k) = tq_count q - 1" "tq_next_order (remove_at q k) = tq_next_order q"
    "tq_capacity (remove_at q k) = tq_capacity q"
    by (simp_all add: remove_at_def Let_def)
  have split: "tq_pending q = take k (tq_pending q) @ tq_pending q ! k # drop (Suc k) (tq_pending q)"
    using assms tq_invD [OF assms(1)] by (simp add: id_take_nth_drop)
  have "sorted_wrt (\<lambda>a b. tt_order a < tt_order b) (tq_pending q)" using assms(1) by (simp add: tq_inv_def)
  then have "sorted_wrt (\<lambda>a b. tt_order a < tt_order b) (take k (tq_pending q) @ drop (Suc k) (tq_pending q))"
    by (subst (asm) split) (simp add: sorted_wrt_append)
  moreover have "length (tq_items (remove_at q k)) = tq_capacity q"
    using c assms(2) by (auto simp: remove_at_def Let_def add)
  moreover have "tq_next_id (remove_at q k) = tq_next_id q" by (simp add: remove_at_def Let_def)
  ultimately show "tq_inv (remove_at q k)"
    using assms n c unfolding tq_inv_def p by (auto dest: in_set_takeD in_set_dropD)
qed

section \<open>The search for the earliest task\<close>

definition is_earliest :: "cflow_timer_task list \<Rightarrow> nat \<Rightarrow> bool" where
  "is_earliest ts k \<longleftrightarrow> k < length ts \<and>
     (\<forall>j < k. tt_deadline (ts ! k) < tt_deadline (ts ! j)) \<and>
     (\<forall>j < length ts. tt_deadline (ts ! k) \<le> tt_deadline (ts ! j))"

lemma is_earliest_snoc:
  assumes "is_earliest ts k" "\<forall>t' \<in> set ts. tt_order t' < tt_order t"
  shows "is_earliest (ts @ [t]) (if task_before t (ts ! k) then length ts else k)"
proof -
  have k: "k < length ts" "tt_order (ts ! k) < tt_order t" using assms by (auto simp: is_earliest_def)
  show ?thesis
  proof (cases "task_before t (ts ! k)")
    case True
    with k have "tt_deadline t < tt_deadline (ts ! k)" by (auto simp: task_before_def)
    with True assms(1) show ?thesis
      by (auto simp: is_earliest_def nth_append less_Suc_eq intro: less_le_trans less_imp_le)
  next
    case False
    then have "tt_deadline (ts ! k) \<le> tt_deadline t" by (auto simp: task_before_def not_less)
    with False assms(1) show ?thesis by (auto simp: is_earliest_def nth_append less_Suc_eq)
  qed
qed

lemma earliest_loop_finds:
  assumes "tq_inv q" "i \<le> tq_count q" "tq_count q \<noteq> 0"
    and "if i = 0 then best = SIZE_MAX else is_earliest (take i (tq_pending q)) best"
  shows "is_earliest (tq_pending q) (earliest_loop q i best)"
  using assms
proof (induction q i best rule: earliest_loop.induct)
  case (1 q i best)
  note d = tq_invD [OF 1(2)]
  show ?case
  proof (cases "i < tq_count q")
    case True
    define b where "b = (if best = SIZE_MAX \<or> task_before (tq_items q ! i) (tq_items q ! best) then i else best)"
    have snoc: "take (i + 1) (tq_pending q) = take i (tq_pending q) @ [tq_pending q ! i]"
      using True d(1) by (simp add: take_Suc_conv_app_nth)
    have "is_earliest (take (i + 1) (tq_pending q)) b"
    proof (cases "i = 0")
      case True
      with 1(5) snoc show ?thesis by (simp add: b_def is_earliest_def)
    next
      case False
      then have e: "is_earliest (take i (tq_pending q)) best" using 1(5) by simp
      then have best: "best < i" "best \<noteq> SIZE_MAX" using True d(1,3) by (auto simp: is_earliest_def)
      have "\<forall>t \<in> set (take i (tq_pending q)). tt_order t < tt_order (tq_pending q ! i)"
      proof
        fix t assume "t \<in> set (take i (tq_pending q))"
        then obtain j where "j < i" "t = tq_pending q ! j" by (auto simp: in_set_conv_nth)
        moreover have "sorted_wrt (\<lambda>a b. tt_order a < tt_order b) (tq_pending q)" using 1(2) by (simp add: tq_inv_def)
        ultimately show "tt_order t < tt_order (tq_pending q ! i)"
          using True d(1) sorted_wrt_nth_less [of _ "tq_pending q" j i] by simp
      qed
      from is_earliest_snoc [OF e this] show ?thesis
        unfolding snoc using True best d(1,2) by (auto simp: b_def)
    qed
    then have "is_earliest (tq_pending q) (earliest_loop q (i + 1) b)"
      unfolding b_def by (intro 1(1) [OF True 1(2)]) (use True 1(4) in simp_all)
    then show ?thesis using True by (subst earliest_loop.simps) (simp add: b_def)
  next
    case False
    with 1(3) have "i = tq_count q" by simp
    with 1(4,5) d(1) show ?thesis by (subst earliest_loop.simps) simp
  qed
qed

lemma earliest_index_finds:
  assumes "tq_inv q" "tq_count q \<noteq> 0"
  shows "is_earliest (tq_pending q) (earliest_index q)" "earliest_index q < tq_count q" "earliest_index q \<noteq> SIZE_MAX"
proof -
  show e: "is_earliest (tq_pending q) (earliest_index q)"
    unfolding earliest_index_def using assms by (intro earliest_loop_finds) simp_all
  then show "earliest_index q < tq_count q" "earliest_index q \<noteq> SIZE_MAX"
    using tq_invD [OF assms(1)] by (auto simp: is_earliest_def)
qed

lemma is_earliest_first_due:
  assumes "is_earliest ts k" "tt_deadline (ts ! k) \<le> now"
  shows "first_due tt_deadline now ts (ts ! k) (take k ts @ drop (Suc k) ts)"
proof -
  have k: "k < length ts" using assms(1) by (simp add: is_earliest_def)
  have "\<forall>x \<in> set (take k ts). tt_deadline (ts ! k) < tt_deadline x"
    using assms(1) by (auto simp: is_earliest_def in_set_conv_nth)
  moreover have "\<forall>y \<in> set (drop (Suc k) ts). tt_deadline (ts ! k) \<le> tt_deadline y"
    using assms(1) by (auto simp: is_earliest_def in_set_conv_nth)
  ultimately show ?thesis
    using assms(2) id_take_nth_drop [OF k] unfolding first_due_def by blast
qed

definition take_ready_at :: "cflow_timer_queue \<Rightarrow> cflow_instant \<Rightarrow> cflow_timer_task option \<times> cflow_timer_queue" where
  "take_ready_at q now =
     (case cflow_timer_queue_take_ready (Some q) now (Some zero_timer_task) of
        (True, q', t) \<Rightarrow> (t, the q') | (False, q', _) \<Rightarrow> (None, the q'))"

interpretation cflow_timers: timed_queue tq_inv tq_pending tt_deadline take_ready_at
proof unfold_locales
  fix q now
  assume inv: "tq_inv q" and "\<exists>e \<in> set (tq_pending q). tt_deadline e \<le> now"
  then obtain e where e: "e \<in> set (tq_pending q)" "tt_deadline e \<le> now" by blast
  then have n: "tq_count q \<noteq> 0" using tq_invD(1) [OF inv] by (cases "tq_pending q") auto
  let ?k = "earliest_index q"
  note k = earliest_index_finds [OF inv n]
  have item: "tq_items q ! ?k = tq_pending q ! ?k" using tq_invD(2) [OF inv k(2)] .
  have due: "tt_deadline (tq_pending q ! ?k) \<le> now"
    using k(1) e by (auto simp: is_earliest_def in_set_conv_nth intro: order_trans)
  have "take_ready_at q now = (Some (tq_pending q ! ?k), remove_at q ?k)"
    using n k(3) due by (simp add: take_ready_at_def cflow_timer_queue_take_ready_def Let_def item not_less)
  then show "\<exists>e q'. take_ready_at q now = (Some e, q') \<and> tq_inv q' \<and>
      first_due tt_deadline now (tq_pending q) e (tq_pending q')"
    using remove_at(1,2) [OF inv k(2)] is_earliest_first_due [OF k(1) due] by simp
next
  fix q now
  assume inv: "tq_inv q" and none: "\<forall>e \<in> set (tq_pending q). \<not> tt_deadline e \<le> now"
  show "take_ready_at q now = (None, q)"
  proof (cases "tq_count q = 0")
    case False
    note k = earliest_index_finds [OF inv False]
    have "tq_pending q ! earliest_index q \<in> set (tq_pending q)" using k(2) tq_invD(1) [OF inv] by simp
    with none have "now < tt_deadline (tq_items q ! earliest_index q)" by (simp add: tq_invD(2) [OF inv k(2)] not_le)
    then show ?thesis using False by (simp add: take_ready_at_def cflow_timer_queue_take_ready_def Let_def)
  qed (simp add: take_ready_at_def cflow_timer_queue_take_ready_def)
qed

section \<open>Operations against the specification\<close>

datatype tq_op =
  Post cflow_deadline cflow_executor_task | Take u64 | Take_Any | Take_Due cflow_instant

text \<open>The specification: the pending tasks in order of arrival; \<open>full\<close> says that a task may be refused.\<close>

inductive timer_spec ::
  "bool \<Rightarrow> cflow_timer_task list \<Rightarrow> tq_op \<Rightarrow> cflow_timer_task option \<Rightarrow> cflow_timer_task list \<Rightarrow> bool" for full where
  posted: "\<not> full \<Longrightarrow> i \<noteq> 0 \<Longrightarrow> i \<notin> tt_id ` set ps \<Longrightarrow> tt_id e = i \<Longrightarrow> tt_deadline e = d \<Longrightarrow>
    cflow_timer_task_descriptor e = t \<Longrightarrow> timer_spec full ps (Post d t) (Some e) (ps @ [e])"
| not_posted: "full \<or> et_run t = NULL \<Longrightarrow> timer_spec full ps (Post d t) None ps"
| taken: "tt_id e = i \<Longrightarrow> timer_spec full (xs @ e # ys) (Take i) (Some e) (xs @ ys)"
| not_taken: "i \<notin> tt_id ` set ps \<Longrightarrow> timer_spec full ps (Take i) None ps"
| taken_any: "timer_spec full (ps @ [e]) Take_Any (Some e) ps"
| none_left: "timer_spec full [] Take_Any None []"
| due: "first_due tt_deadline now ps e ps' \<Longrightarrow> timer_spec full ps (Take_Due now) (Some e) ps'"
| none_due: "\<forall>e \<in> set ps. now < tt_deadline e \<Longrightarrow> timer_spec full ps (Take_Due now) None ps"

text \<open>One call of the code on a live queue. An accepted task is reported as the item it became.\<close>

definition tq_exec :: "cflow_timer_queue \<Rightarrow> tq_op \<Rightarrow> cflow_timer_task option \<times> cflow_timer_queue" where
  "tq_exec q op =
     (case op of
        Post d t \<Rightarrow>
          (case cflow_timer_queue_try_schedule_task (Some q) d (Some t) of
             (r, q') \<Rightarrow>
               (if sr_status r = CFLOW_ADMISSION_ACCEPTED then Some (tq_items (the q') ! tq_count q) else None, the q'))
      | Take i \<Rightarrow>
          (case cflow_timer_queue_take (Some q) i (Some zero_timer_task) of
             (b, q', t) \<Rightarrow> (if b then t else None, the q'))
      | Take_Any \<Rightarrow>
          (case cflow_timer_queue_take_any (Some q) (Some zero_timer_task) of
             (b, q', t) \<Rightarrow> (if b then t else None, the q'))
      | Take_Due now \<Rightarrow> take_ready_at q now)"

definition tq_full :: "cflow_timer_queue \<Rightarrow> bool" where
  "tq_full q \<longleftrightarrow> tq_capacity q \<le> length (tq_pending q) \<or> tq_next_order q = UINT64_MAX"

lemma find_task_finds:
  assumes "tq_inv q" "k \<le> tq_count q" "\<forall>j < k. tt_id (tq_pending q ! j) \<noteq> i"
  shows "case find_task q i k of
      None \<Rightarrow> i \<notin> tt_id ` set (tq_pending q)
    | Some j \<Rightarrow> j < tq_count q \<and> tt_id (tq_pending q ! j) = i"
  using assms
proof (induction q i k rule: find_task.induct)
  case (1 q i k)
  note d = tq_invD [OF 1(2)]
  show ?case
  proof (cases "k < tq_count q \<and> tt_id (tq_items q ! k) \<noteq> i")
    case True
    then have "\<forall>j < k + 1. tt_id (tq_pending q ! j) \<noteq> i" using 1(4) d(2) by (auto simp: less_Suc_eq)
    with 1(1) [OF _ _ 1(2)] True have "case find_task q i (k + 1) of
      None \<Rightarrow> i \<notin> tt_id ` set (tq_pending q)
    | Some j \<Rightarrow> j < tq_count q \<and> tt_id (tq_pending q ! j) = i" by simp
    then show ?thesis using True by (subst find_task.simps) simp
  next
    case False
    show ?thesis
    proof (cases "k < tq_count q")
      case True
      with False d(2) show ?thesis by (subst find_task.simps) simp
    next
      case out: False
      with 1(3) have "k = length (tq_pending q)" using d(1) by simp
      then have "i \<notin> tt_id ` set (tq_pending q)" using 1(4) by (auto simp: in_set_conv_nth)
      then show ?thesis using out by (subst find_task.simps) simp
    qed
  qed
qed

lemma post_exec:
  assumes inv: "tq_inv q" and t: "et_run t \<noteq> NULL" and room: "\<not> tq_full q"
  shows "\<exists>e q'. tq_exec q (Post d t) = (Some e, q') \<and> tq_inv q' \<and> tq_pending q' = tq_pending q @ [e] \<and>
    tt_id e = tq_next_order q + 1 \<and> tt_deadline e = d \<and> cflow_timer_task_descriptor e = t \<and>
    tq_next_order q' = tq_next_order q + 1 \<and> tq_capacity q' = tq_capacity q"
proof -
  note d = tq_invD [OF inv]
  have c: "tq_count q < tq_capacity q" "tq_next_order q \<noteq> UINT64_MAX" "tq_next_id q = tq_next_order q + 1"
    "length (tq_items q) = tq_capacity q"
    using room inv d(1) by (auto simp: tq_full_def tq_inv_def)
  have id: "tq_next_id q \<noteq> 0" using c(2,3) succ_zero_iff by simp
  define e where "e = \<lparr>tt_id = tq_next_id q, tt_deadline = d, tt_order = tq_next_order q, tt_fn = et_run t,
    tt_cancel = et_cancel t, tt_finalize = et_finalize t, tt_user = et_user t\<rparr>"
  define q' where "q' = q\<lparr>tq_items := (tq_items q)[tq_count q := e], tq_count := tq_count q + 1,
    tq_next_id := tq_next_id q + 1, tq_next_order := tq_next_order q + 1\<rparr>"
  have "tq_exec q (Post d t) = (Some e, q')"
    using t c id by (simp add: tq_exec_def cflow_timer_queue_try_schedule_task_def Let_def e_def q'_def)
  moreover have p: "tq_pending q' = tq_pending q @ [e]"
    using c by (simp add: q'_def tq_pending_def take_Suc_conv_app_nth)
  moreover have "tq_inv q'"
  proof -
    have grow: "tq_next_order q < tq_next_order q + 1" "x < tq_next_order q \<Longrightarrow> x < tq_next_order q + 1" for x
      using c(2) order_succ(1) [of "tq_next_order q"] order_succ(2) [of "tq_next_order q" x] by (simp_all add: UINT64_MAX_def)
    have "sorted_wrt (\<lambda>a b. tt_order a < tt_order b) (tq_pending q @ [e])"
      using inv by (auto simp: tq_inv_def sorted_wrt_append e_def)
    then show ?thesis
      using inv c grow unfolding tq_inv_def p by (auto simp: q'_def e_def)
  qed
  ultimately show ?thesis using c(3) by (auto simp: e_def q'_def cflow_timer_task_descriptor_def)
qed

lemma post_refused:
  assumes "tq_inv q" "et_run t = NULL \<or> tq_full q"
  shows "tq_exec q (Post d t) = (None, q)"
proof -
  have "et_run t = NULL \<or> tq_capacity q \<le> tq_count q \<or> tq_next_order q = UINT64_MAX"
    using assms tq_invD(1) [OF assms(1)] by (auto simp: tq_full_def)
  then show ?thesis by (auto simp: tq_exec_def cflow_timer_queue_try_schedule_task_def Let_def)
qed

lemma exec_spec:
  assumes inv: "tq_inv q" and ex: "tq_exec q op = (r, q')"
  shows "tq_inv q' \<and> tq_capacity q' = tq_capacity q \<and>
    tq_next_order q' = (if \<exists>d t. op = Post d t \<and> r \<noteq> None then tq_next_order q + 1 else tq_next_order q) \<and>
    timer_spec (tq_full q) (tq_pending q) op r (tq_pending q')"
proof (cases op)
  case (Post d t)
  show ?thesis
  proof (cases "et_run t = NULL \<or> tq_full q")
    case True
    then have "r = None \<and> q' = q" using post_refused [OF inv True, of d] ex Post by simp
    moreover have "timer_spec (tq_full q) (tq_pending q) (Post d t) None (tq_pending q)"
      by (rule not_posted) (use True in auto)
    ultimately show ?thesis using inv Post by simp
  next
    case False
    then obtain e where e: "r = Some e" "tq_inv q'" "tq_pending q' = tq_pending q @ [e]"
      "tt_id e = tq_next_order q + 1" "tt_deadline e = d" "cflow_timer_task_descriptor e = t"
      "tq_next_order q' = tq_next_order q + 1" "tq_capacity q' = tq_capacity q"
      using post_exec [OF inv, of t d] ex Post by auto
    have "tt_id e \<notin> tt_id ` set (tq_pending q)"
    proof
      assume "tt_id e \<in> tt_id ` set (tq_pending q)"
      then obtain u where "u \<in> set (tq_pending q)" "tt_id u = tt_id e" by auto
      then show False using inv e(4) by (auto simp: tq_inv_def)
    qed
    moreover have "tt_id e \<noteq> 0" using False e(4) succ_zero_iff by (simp add: tq_full_def)
    ultimately have "timer_spec (tq_full q) (tq_pending q) (Post d t) (Some e) (tq_pending q @ [e])"
      using False e(5,6) by (intro posted) auto
    then show ?thesis using e Post by simp
  qed
next
  case (Take i)
  note found = find_task_finds [OF inv, of 0 i]
  show ?thesis
  proof (cases "i = 0 \<or> find_task q i 0 = None")
    case True
    then have "i \<notin> tt_id ` set (tq_pending q)" using found pending_id_nonzero [OF inv] by (auto split: option.splits)
    moreover have "r = None \<and> q' = q"
      using True ex Take by (cases "i = 0") (simp_all add: tq_exec_def cflow_timer_queue_take_def Let_def)
    ultimately show ?thesis using inv Take by (auto intro: not_taken)
  next
    case False
    then obtain k where f: "find_task q i 0 = Some k" by auto
    then have k: "k < tq_count q" "tt_id (tq_pending q ! k) = i" using found by simp_all
    have r: "r = Some (tq_pending q ! k)" "q' = remove_at q k"
      using False f ex Take tq_invD(2) [OF inv k(1)] by (auto simp: tq_exec_def cflow_timer_queue_take_def Let_def)
    have "timer_spec (tq_full q) (take k (tq_pending q) @ tq_pending q ! k # drop (Suc k) (tq_pending q)) (Take i)
        (Some (tq_pending q ! k)) (take k (tq_pending q) @ drop (Suc k) (tq_pending q))"
      by (rule taken) (rule k(2))
    then show ?thesis
      using remove_at [OF inv k(1)] r Take k(1) tq_invD(1) [OF inv] by (simp add: id_take_nth_drop [symmetric])
  qed
next
  case Take_Any
  show ?thesis
  proof (cases "tq_count q = 0")
    case True
    then have "r = None \<and> q' = q" "tq_pending q = []"
      using ex Take_Any by (auto simp: tq_exec_def cflow_timer_queue_take_any_def tq_pending_def)
    then show ?thesis using inv Take_Any by (auto intro: none_left)
  next
    case False
    define k where "k = tq_count q - 1"
    have k: "tq_count q = Suc k" "Suc k \<le> length (tq_items q)" using False inv by (auto simp: k_def tq_inv_def)
    have r: "r = Some (tq_items q ! k)" "q' = q\<lparr>tq_count := k\<rparr>"
      using False ex Take_Any by (auto simp: tq_exec_def cflow_timer_queue_take_any_def Let_def k_def)
    have p: "tq_pending q = tq_pending q' @ [tq_items q ! k]"
      using k by (simp add: r(2) tq_pending_def take_Suc_conv_app_nth)
    have "tq_inv q'" using inv unfolding tq_inv_def p by (auto simp: r(2) k(1) sorted_wrt_append)
    then show ?thesis using Take_Any r by (auto simp: p r(2) intro: taken_any)
  qed
next
  case (Take_Due now)
  show ?thesis
  proof (cases "\<exists>e \<in> set (tq_pending q). tt_deadline e \<le> now")
    case True
    have "tq_capacity q' = tq_capacity q \<and> tq_next_order q' = tq_next_order q"
      using ex Take_Due by (auto simp: tq_exec_def take_ready_at_def cflow_timer_queue_take_ready_def Let_def
          remove_at_def split: if_splits)
    with cflow_timers.take_due [OF inv True] ex Take_Due show ?thesis
      by (auto simp: tq_exec_def intro: due)
  next
    case False
    then have none: "\<forall>e \<in> set (tq_pending q). \<not> tt_deadline e \<le> now" by blast
    from cflow_timers.take_none [OF inv none] ex Take_Due inv none show ?thesis
      by (auto simp: tq_exec_def not_le intro: none_due)
  qed
qed

section \<open>Histories\<close>

text \<open>Reachable queues with the identifiers issued so far, latest first.\<close>

inductive tq_reach :: "size_t \<Rightarrow> u64 list \<Rightarrow> cflow_timer_queue \<Rightarrow> bool" for capacity where
  tq_start: "cflow_timer_queue_init_with_capacity (Some q0) capacity e = (True, Some q, e') \<Longrightarrow> tq_reach capacity [] q"
| tq_posted: "tq_reach capacity ids q \<Longrightarrow> tq_exec q (Post d t) = (Some x, q') \<Longrightarrow> tq_reach capacity (tt_id x # ids) q'"
| tq_other: "tq_reach capacity ids q \<Longrightarrow> tq_exec q op = (r, q') \<Longrightarrow> (\<nexists>d t. op = Post d t) \<or> r = None \<Longrightarrow>
    tq_reach capacity ids q'"

lemma init_inv:
  assumes "cflow_timer_queue_init_with_capacity (Some q0) capacity e = (True, Some q, e')"
  shows "tq_inv q" "tq_pending q = []" "tq_capacity q = capacity" "tq_next_order q = 0"
proof -
  have small: "SIZE_MAX div sizeof_timer_task < SIZE_MAX" by (simp add: SIZE_MAX_def sizeof_timer_task_def)
  from assms have "capacity \<noteq> 0" "capacity \<le> SIZE_MAX div sizeof_timer_task"
    "q = \<lparr>tq_items = replicate capacity zero_timer_task, tq_count = 0, tq_capacity = capacity,
          tq_next_id = 1, tq_next_order = 0\<rparr>"
    by (auto simp: cflow_timer_queue_init_with_capacity_def split: if_splits prod.splits option.splits)
  then show "tq_inv q" "tq_pending q = []" "tq_capacity q = capacity" "tq_next_order q = 0"
    using small by (simp_all add: tq_inv_def tq_pending_def)
qed

lemma tq_reach_ok:
  assumes "tq_reach capacity ids q"
  shows "tq_inv q \<and> tq_capacity q = capacity \<and> distinct ids \<and>
    (\<forall>i \<in> set ids. i \<noteq> 0 \<and> i - 1 < tq_next_order q) \<and> tt_id ` set (tq_pending q) \<subseteq> set ids"
  using assms
proof (induction rule: tq_reach.induct)
  case (tq_start q0 e q e')
  then show ?case using init_inv [OF tq_start] by simp
next
  case (tq_posted ids q d t x q')
  then have IH: "tq_inv q" "tq_capacity q = capacity" "distinct ids" "\<forall>i \<in> set ids. i \<noteq> 0 \<and> i - 1 < tq_next_order q"
    "tt_id ` set (tq_pending q) \<subseteq> set ids" by auto
  have run: "et_run t \<noteq> NULL" "\<not> tq_full q" using post_refused [OF IH(1), of t d] tq_posted.hyps(2) by (metis option.distinct(1) prod.inject)+
  from post_exec [OF IH(1) run, of d] tq_posted.hyps(2) have new: "tq_inv q'" "tq_pending q' = tq_pending q @ [x]"
    "tt_id x = tq_next_order q + 1" "tq_next_order q' = tq_next_order q + 1" "tq_capacity q' = tq_capacity q" by auto
  have step: "tq_next_order q < tq_next_order q + 1" "y < tq_next_order q \<Longrightarrow> y < tq_next_order q + 1" for y
    using run(2) order_succ(1) [of "tq_next_order q"] order_succ(2) [of "tq_next_order q" y]
    by (simp_all add: tq_full_def UINT64_MAX_def)
  have "tt_id x \<noteq> 0" using new(3) run(2) succ_zero_iff by (simp add: tq_full_def)
  moreover have "tt_id x \<notin> set ids" using IH(4) new(3) by force
  ultimately show ?case using IH new step by auto
next
  case (tq_other ids q op r q')
  then have IH: "tq_inv q" "tq_capacity q = capacity" "distinct ids" "\<forall>i \<in> set ids. i \<noteq> 0 \<and> i - 1 < tq_next_order q"
    "tt_id ` set (tq_pending q) \<subseteq> set ids" by auto
  have s: "tq_inv q'" "tq_capacity q' = tq_capacity q" "tq_next_order q' = tq_next_order q"
    "timer_spec (tq_full q) (tq_pending q) op r (tq_pending q')"
    using exec_spec [OF IH(1) tq_other.hyps(2)] tq_other.hyps(3) by auto
  from s(4) tq_other.hyps(3) have "set (tq_pending q') \<subseteq> set (tq_pending q)"
    by cases (auto simp: first_due_def)
  with IH s show ?case by auto
qed

section \<open>Properties\<close>

text \<open>Cancelling is taking without looking at the task; the announced deadline is the least.\<close>

inductive_cases spec_takeE: "timer_spec full ps (Take i) r ps'"

lemma cancel_take:
  "cflow_timer_queue_cancel (Some q) i = (fst (tq_exec q (Take i)) \<noteq> None, Some (snd (tq_exec q (Take i))))"
  by (cases "i = 0")
    (simp_all add: cflow_timer_queue_cancel_def tq_exec_def cflow_timer_queue_take_def Let_def split: option.split)

lemma pending_ids_distinct:
  assumes "tq_inv q"
  shows "distinct (map tt_id (tq_pending q))"
proof -
  have "inj_on tt_id (set (tq_pending q))" if "inj_on tt_order (set (tq_pending q))"
    using that assms by (auto simp: inj_on_def tq_inv_def)
  moreover have "sorted_wrt (<) (map tt_order (tq_pending q))" using assms by (simp add: tq_inv_def sorted_wrt_map)
  ultimately show ?thesis by (simp add: strict_sorted_iff distinct_map)
qed

lemma spec_take_filter:
  assumes "timer_spec full ps (Take i) r ps'" and "distinct (map tt_id ps)"
  shows "r \<noteq> None \<longleftrightarrow> i \<in> tt_id ` set ps" "ps' = filter (\<lambda>t. tt_id t \<noteq> i) ps"
  using assms by (auto elim!: spec_takeE simp: rev_image_eqI intro!: arg_cong2 [of _ _ _ _ append] filter_True [symmetric])

lemma next_deadline_least:
  assumes "tq_inv q"
  shows "cflow_timer_queue_next_deadline (Some q) (Some d0) =
    (if tq_pending q = [] then (False, Some d0) else (True, Some (Min (tt_deadline ` set (tq_pending q)))))"
proof (cases "tq_count q = 0")
  case True
  then show ?thesis by (simp add: cflow_timer_queue_next_deadline_def tq_pending_def)
next
  case False
  note k = earliest_index_finds [OF assms False] and d = tq_invD [OF assms]
  have "tt_deadline (tq_pending q ! earliest_index q) = Min (tt_deadline ` set (tq_pending q))"
    using k(1) by (intro Min_eqI [symmetric] imageI nth_mem) (auto simp: is_earliest_def in_set_conv_nth)
  moreover have "tq_pending q \<noteq> []" using False d(1) by auto
  ultimately show ?thesis
    using False k(3) d(2) [OF k(2)] by (simp add: cflow_timer_queue_next_deadline_def Let_def)
qed

text \<open>C9: In every history of a CFlow timer queue each call refines the list of pending tasks in order
  of arrival: an accepted post appends the task under an identifier never issued before, a
  post is refused only when the array is full, the counter is exhausted or there is nothing
  to run, a take removes exactly the named task, and a timed take the earliest due one, the
  first to arrive among equals. A cancel removes exactly the named task too, answers whether
  it was there and leaves a queue in the same history; the deadline announced next is the
  least of the pending ones.\<close>

theorem cflow_timer_refines:
  assumes "tq_reach capacity ids q" and "tq_exec q op = (r, q')"
  shows "timer_spec (tq_full q) (tq_pending q) op r (tq_pending q') \<and> length (tq_pending q') \<le> capacity \<and>
    cflow_timer_queue_pending (Some q') = length (tq_pending q') \<and>
    distinct ids \<and> (\<forall>d t e. op = Post d t \<and> r = Some e \<longrightarrow> tt_id e \<notin> set ids) \<and>
    (\<forall>i. \<exists>w. cflow_timer_queue_cancel (Some q) i = (i \<in> tt_id ` set (tq_pending q), Some w) \<and>
       tq_reach capacity ids w \<and> tq_pending w = filter (\<lambda>t. tt_id t \<noteq> i) (tq_pending q)) \<and>
    (\<forall>d0. cflow_timer_queue_next_deadline (Some q) (Some d0) =
       (if tq_pending q = [] then (False, Some d0) else (True, Some (Min (tt_deadline ` set (tq_pending q))))))"
proof -
  note ok = tq_reach_ok [OF assms(1)]
  then have inv: "tq_inv q" and cap: "tq_capacity q = capacity" by simp_all
  note s = exec_spec [OF inv assms(2)]
  have "tt_id e \<notin> set ids" if "op = Post d t" "r = Some e" for d t e
    using tq_reach_ok [OF tq_posted [OF assms(1)], of d t e q'] assms(2) that by simp
  moreover have "tq_count q' \<le> capacity" using s cap by (auto simp: tq_inv_def)
  moreover have "\<exists>w. cflow_timer_queue_cancel (Some q) i = (i \<in> tt_id ` set (tq_pending q), Some w) \<and>
      tq_reach capacity ids w \<and> tq_pending w = filter (\<lambda>t. tt_id t \<noteq> i) (tq_pending q)" for i
  proof -
    obtain r0 w where ex: "tq_exec q (Take i) = (r0, w)" by (cases "tq_exec q (Take i)")
    have "timer_spec (tq_full q) (tq_pending q) (Take i) r0 (tq_pending w)" using exec_spec [OF inv ex] by simp
    from spec_take_filter [OF this pending_ids_distinct [OF inv]] show ?thesis
      using tq_other [OF assms(1) ex] cancel_take [of q i] ex by simp
  qed
  ultimately show ?thesis
    using s ok tq_invD(1) [of q'] next_deadline_least [OF inv] by (auto simp: cflow_timer_queue_pending_def)
qed

text \<open>Taking ready tasks from a CFlow timer queue until none is left delivers exactly the tasks
  that are due, sorted by deadline and in order of arrival among equal deadlines, and keeps
  the others in order; the deadline announced next is then later than now.\<close>

theorem cflow_timer_drain:
  assumes "tq_reach capacity ids q" and "length (tq_pending q) < n"
  shows "\<exists>q'. drain_due take_ready_at now n q =
      (sort_key tt_deadline (filter (\<lambda>t. tt_deadline t \<le> now) (tq_pending q)), q') \<and>
    tq_pending q' = filter (\<lambda>t. \<not> tt_deadline t \<le> now) (tq_pending q) \<and>
    (\<forall>d d0. cflow_timer_queue_next_deadline (Some q') (Some d0) = (True, Some d) \<longrightarrow> now < d)"
proof -
  have inv: "tq_inv q" using tq_reach_ok [OF assms(1)] by simp
  from cflow_timers.drain_sorted [OF inv assms(2), of now] obtain q' where
    q': "drain_due take_ready_at now n q = (sort_key tt_deadline (filter (\<lambda>t. tt_deadline t \<le> now) (tq_pending q)), q')"
      "tq_inv q'" "tq_pending q' = filter (\<lambda>t. \<not> tt_deadline t \<le> now) (tq_pending q)" by blast
  have "now < d" if "cflow_timer_queue_next_deadline (Some q') (Some d0) = (True, Some d)" for d d0
  proof -
    from that have n: "tq_count q' \<noteq> 0" and d: "d = tt_deadline (tq_items q' ! earliest_index q')"
      by (auto simp: cflow_timer_queue_next_deadline_def Let_def split: if_splits)
    note k = earliest_index_finds [OF q'(2) n]
    have "tq_pending q' ! earliest_index q' \<in> set (tq_pending q')" using k(2) tq_invD(1) [OF q'(2)] by simp
    then show ?thesis using d tq_invD(2) [OF q'(2) k(2)] by (auto simp: q'(3))
  qed
  with q' show ?thesis by blast
qed

text \<open>CFlow's time arithmetic saturates instead of wrapping: durations, deadlines and the virtual
  clock equal the mathematical value cut off at the largest 64-bit number, so a deadline never
  lies before the instant it was computed from and the clock never runs backwards.\<close>

theorem cflow_time_saturates:
  "unat (cflow_u64_mul_sat a b) = min (unat a * unat b) (2 ^ 64 - 1) \<and>
   unat (cflow_deadline_after now delay) = min (unat now + unat delay) (2 ^ 64 - 1) \<and>
   (\<exists>t. virtual_clock_advance (Some now) delay = (True, Some t) \<and> unat t = min (unat now + unat delay) (2 ^ 64 - 1)) \<and>
   unat (cflow_deadline_remaining dl now) = unat dl - unat now"
proof -
  have max: "unat UINT64_MAX = 2 ^ 64 - 1"
    by (simp add: UINT64_MAX_def unsigned_minus_1_eq_mask mask_eq_exp_minus_1)
  have "unat (cflow_u64_mul_sat a b) = min (unat a * unat b) (2 ^ 64 - 1)"
  proof (cases "a = 0")
    case False
    then have pos: "0 < unat a" by (simp add: unat_gt_0)
    have iff: "UINT64_MAX div a < b \<longleftrightarrow> 2 ^ 64 - 1 < unat a * unat b"
      using div_less_iff_less_mult [OF pos, of "2 ^ 64 - 1" "unat b"]
      by (simp only: word_less_nat_alt unat_div max mult.commute)
    show ?thesis
    proof (cases "UINT64_MAX div a < b")
      case True
      with iff False show ?thesis by (simp add: cflow_u64_mul_sat_def max)
    next
      case below: False
      with iff have "unat a * unat b < 2 ^ LENGTH(64)" by simp
      then have "unat (a * b) = unat a * unat b" by (simp only: unat_mult_lem)
      with below iff False show ?thesis by (simp add: cflow_u64_mul_sat_def)
    qed
  qed (simp add: cflow_u64_mul_sat_def)
  moreover have "unat (if UINT64_MAX - now < delay then UINT64_MAX else now + delay) = min (unat now + unat delay) (2 ^ 64 - 1)"
  proof -
    have "now \<le> UINT64_MAX" by (simp add: UINT64_MAX_def)
    then have "unat (UINT64_MAX - now) = 2 ^ 64 - 1 - unat now" by (simp only: unat_sub max)
    then have iff: "UINT64_MAX - now < delay \<longleftrightarrow> 2 ^ 64 - 1 < unat now + unat delay"
      using unsigned_less [of now, where 'a = nat] by (auto simp: word_less_nat_alt)
    show ?thesis
    proof (cases "UINT64_MAX - now < delay")
      case True
      with iff show ?thesis by (simp add: max)
    next
      case False
      with iff have "unat now + unat delay < 2 ^ LENGTH(64)" by simp
      then have "unat (now + delay) = unat now + unat delay" by (simp only: unat_add_lem)
      with False iff show ?thesis by simp
    qed
  qed
  moreover have "unat (cflow_deadline_remaining dl now) = unat dl - unat now"
    by (auto simp: cflow_deadline_remaining_def unat_sub word_less_nat_alt word_le_nat_alt)
  ultimately show ?thesis
    by (simp add: cflow_deadline_after_def virtual_clock_advance_def)
qed

section \<open>Witnesses\<close>

definition sample_task :: "user_ptr \<Rightarrow> cflow_executor_task" where
  "sample_task u = \<lparr>et_run = Some 1, et_cancel = NULL, et_finalize = Some 2, et_user = u\<rparr>"

definition sample_item :: "u64 \<Rightarrow> u64 \<Rightarrow> user_ptr \<Rightarrow> cflow_timer_task" where
  "sample_item n d u = \<lparr>tt_id = n + 1, tt_deadline = d, tt_order = n, tt_fn = Some 1, tt_cancel = NULL,
     tt_finalize = Some 2, tt_user = u\<rparr>"

definition sample_queue :: "cflow_timer_task list \<Rightarrow> u64 \<Rightarrow> cflow_timer_queue" where
  "sample_queue items n = \<lparr>tq_items = items @ replicate (4 - length items) zero_timer_task,
     tq_count = length items, tq_capacity = 4, tq_next_id = n + 1, tq_next_order = n\<rparr>"

lemma sample_post:
  assumes "length items < 4" "n \<noteq> UINT64_MAX"
  shows "tq_exec (sample_queue items n) (Post d (sample_task u)) =
    (Some (sample_item n d u), sample_queue (items @ [sample_item n d u]) (n + 1))"
proof -
  have "n + 1 \<noteq> 0" using assms(2) succ_zero_iff by simp
  moreover have "(items @ replicate (4 - length items) zero_timer_task)[length items := x] =
      items @ x # replicate (3 - length items) zero_timer_task" for x
    using assms(1) by (simp add: list_update_append Suc_diff_le numeral_eq_Suc)
  ultimately show ?thesis
    using assms
    by (simp add: tq_exec_def cflow_timer_queue_try_schedule_task_def Let_def sample_queue_def sample_task_def sample_item_def)
qed

lemma sample_reach:
  "tq_reach 4 [3, 2, 1] (sample_queue [sample_item 0 50 7, sample_item 1 20 8, sample_item 2 20 9] 3)"
proof -
  have "cflow_timer_queue_init_with_capacity (Some zero_timer_queue) 4
      \<lparr>malloc_oracle = (\<lambda>_. Some 4096), malloc_calls = 0, live_blocks = 0\<rparr> =
    (True, Some (sample_queue [] 0), \<lparr>malloc_oracle = (\<lambda>_. Some 4096), malloc_calls = 1, live_blocks = 1\<rparr>)"
    by (simp add: cflow_timer_queue_init_with_capacity_def malloc_def SIZE_MAX_def sizeof_timer_task_def sample_queue_def)
  then have "tq_reach 4 [] (sample_queue [] 0)" by (rule tq_start)
  from tq_posted [OF this sample_post [of "[]" 0 50 7]]
  have "tq_reach 4 [1] (sample_queue [sample_item 0 50 7] 1)" by (simp add: sample_item_def UINT64_MAX_def)
  from tq_posted [OF this sample_post [of _ 1 20 8]]
  have "tq_reach 4 [2, 1] (sample_queue [sample_item 0 50 7, sample_item 1 20 8] 2)"
    by (simp add: sample_item_def UINT64_MAX_def)
  from tq_posted [OF this sample_post [of _ 2 20 9]] show ?thesis by (simp add: sample_item_def UINT64_MAX_def)
qed

theorem cflow_timer_refines_witness:
  "tq_pending (snd (tq_exec (sample_queue [sample_item 0 50 7, sample_item 1 20 8, sample_item 2 20 9] 3) (Post 5 (sample_task 6)))) =
     [sample_item 0 50 7, sample_item 1 20 8, sample_item 2 20 9, sample_item 3 5 6] \<and>
   (\<exists>w. cflow_timer_queue_cancel (Some (sample_queue [sample_item 0 50 7, sample_item 1 20 8, sample_item 2 20 9] 3)) 2 = (True, Some w) \<and>
     tq_pending w = [sample_item 0 50 7, sample_item 2 20 9]) \<and>
   fst (cflow_timer_queue_cancel (Some (sample_queue [sample_item 0 50 7, sample_item 1 20 8, sample_item 2 20 9] 3)) 9) = False"
proof -
  let ?items = "[sample_item 0 50 7, sample_item 1 20 8, sample_item 2 20 9]"
  let ?q = "sample_queue ?items 3"
  have ex: "tq_exec ?q (Post 5 (sample_task 6)) = (Some (sample_item 3 5 6), sample_queue (?items @ [sample_item 3 5 6]) 4)"
    using sample_post [of ?items 3 5 6] by (simp add: UINT64_MAX_def)
  have p: "tq_pending ?q = ?items" by (simp add: tq_pending_def sample_queue_def)
  have ids: "tt_id ` set ?items = {1, 2, 3}" "filter (\<lambda>t. tt_id t \<noteq> 2) ?items = [sample_item 0 50 7, sample_item 2 20 9]"
    by (simp_all add: sample_item_def)
  have refines: "timer_spec (tq_full ?q) ?items (Post 5 (sample_task 6)) (Some (sample_item 3 5 6))
      (tq_pending (sample_queue (?items @ [sample_item 3 5 6]) 4))"
    and cancel: "\<exists>w. cflow_timer_queue_cancel (Some ?q) i = (i \<in> {1, 2, 3}, Some w) \<and> tq_pending w = filter (\<lambda>t. tt_id t \<noteq> i) ?items" for i
    using cflow_timer_refines [OF sample_reach ex, unfolded p ids(1)] by blast+
  from refines have "tq_pending (sample_queue (?items @ [sample_item 3 5 6]) 4) = ?items @ [sample_item 3 5 6]"
    by cases simp
  moreover have "fst (cflow_timer_queue_cancel (Some ?q) 9) = False" using cancel [of 9] by auto
  ultimately show ?thesis using cancel [of 2] ids(2) ex by auto
qed

theorem cflow_timer_drain_witness:
  "\<exists>q'. drain_due take_ready_at 30 4
      (sample_queue [sample_item 0 50 7, sample_item 1 20 8, sample_item 2 20 9] 3) =
      ([sample_item 1 20 8, sample_item 2 20 9], q') \<and> tq_pending q' = [sample_item 0 50 7]"
proof -
  let ?items = "[sample_item 0 50 7, sample_item 1 20 8, sample_item 2 20 9]"
  have p: "tq_pending (sample_queue ?items 3) = ?items" by (simp add: tq_pending_def sample_queue_def)
  have "filter (\<lambda>t. tt_deadline t \<le> 30) ?items = [sample_item 1 20 8, sample_item 2 20 9]"
    "filter (\<lambda>t. \<not> tt_deadline t \<le> 30) ?items = [sample_item 0 50 7]"
    "sort_key tt_deadline [sample_item 1 20 8, sample_item 2 20 9] = [sample_item 1 20 8, sample_item 2 20 9]"
    by (simp_all add: sample_item_def)
  with cflow_timer_drain [OF sample_reach, of 4 30] show ?thesis by (auto simp: p)
qed

end
