(* ===== verification/Cflow_Executor.thy ===== *)
theory Cflow_Executor
  imports Cflow_Timer "HOL-Library.Multiset"
begin

text \<open>
  The manual executor of CFlow (\<^verbatim>\<open>src/cflow/src/executor.c\<close>): a bounded queue of tasks that its owner
  runs one at a time. A task's callbacks are client code and may call the executor again.
  First the functions, with what the callbacks do as an argument \<open>call\<close>; then the same code as
  a step relation in which, while a callback is on the stack, any call may be made.
\<close>

section \<open>The code\<close>

datatype cflow_executor_lifecycle = CFLOW_EXECUTOR_OPEN | CFLOW_EXECUTOR_CLOSING | CFLOW_EXECUTOR_CLOSED

datatype cflow_executor_shutdown_policy = CFLOW_EXECUTOR_SHUTDOWN_DRAIN | CFLOW_EXECUTOR_SHUTDOWN_CANCEL_PENDING

datatype cflow_executor_post_status =
  CFLOW_EXECUTOR_POST_ACCEPTED | CFLOW_EXECUTOR_POST_INVALID_ARGUMENT | CFLOW_EXECUTOR_POST_FULL
| CFLOW_EXECUTOR_POST_CLOSED | CFLOW_EXECUTOR_POST_WOULD_BLOCK

datatype cflow_executor_wait_status =
  CFLOW_EXECUTOR_WAIT_IDLE | CFLOW_EXECUTOR_WAIT_PENDING | CFLOW_EXECUTOR_WAIT_INVALID_ARGUMENT
| CFLOW_EXECUTOR_WAIT_WOULD_BLOCK

record cflow_manual_executor_state =
  me_tasks :: "cflow_executor_task list"
  me_count :: size_t
  me_settling :: size_t
  me_capacity :: size_t
  me_peak_pending :: size_t
  me_accepted :: size_t
  me_completed :: size_t
  me_cancelled :: size_t
  me_rejected_full :: size_t
  me_rejected_closed :: size_t
  me_rejected_would_block :: size_t
  me_lifecycle :: cflow_executor_lifecycle
  me_shutdown_policy :: cflow_executor_shutdown_policy
  me_shutdown_policy_selected :: bool
  me_running :: bool

text \<open>The executor together with the thread's \<open>manual_current\<close> (does it point to this executor?) and, as
  a ghost that no code reads, the callbacks that have been called, with their arguments.\<close>

record executor_context =
  cx_state :: cflow_manual_executor_state
  cx_current :: bool
  cx_calls :: "(task_fn \<times> user_ptr) list"

abbreviation size_inc :: "size_t \<Rightarrow> size_t" where
  "size_inc n \<equiv> size_add n 1"

definition CFLOW_EXECUTOR_DEFAULT_CAPACITY :: size_t where
  "CFLOW_EXECUTOR_DEFAULT_CAPACITY = 4096"

text \<open>Three function pointers and the user pointer.\<close>

definition sizeof_executor_task :: size_t where
  "sizeof_executor_task = 32"

definition zero_executor_task :: cflow_executor_task where
  "zero_executor_task = \<lparr>et_run = NULL, et_cancel = NULL, et_finalize = NULL, et_user = 0\<rparr>"

definition manual_maybe_close :: "cflow_manual_executor_state \<Rightarrow> cflow_manual_executor_state" where
  "manual_maybe_close state =
     (if me_lifecycle state = CFLOW_EXECUTOR_CLOSING \<and> me_count state = 0 \<and> me_settling state = 0 \<and> \<not> me_running state
      then state\<lparr>me_lifecycle := CFLOW_EXECUTOR_CLOSED\<rparr> else state)"

definition manual_try_post_task_state ::
  "cflow_manual_executor_state ptr \<Rightarrow> cflow_executor_task ptr \<Rightarrow>
   cflow_admission_status \<times> cflow_manual_executor_state ptr" where
  "manual_try_post_task_state state task =
     (if state = NULL \<or> task = NULL \<or> et_run (the task) = NULL then (CFLOW_ADMISSION_INVALID_ARGUMENT, state)
      else
        let s = the state in
        if me_lifecycle s \<noteq> CFLOW_EXECUTOR_OPEN
        then (CFLOW_ADMISSION_CLOSED, Some (s\<lparr>me_rejected_closed := size_inc (me_rejected_closed s)\<rparr>))
        else if me_capacity s \<le> me_count s
        then (CFLOW_ADMISSION_FULL, Some (s\<lparr>me_rejected_full := size_inc (me_rejected_full s)\<rparr>))
        else
          let queued = me_count s + 1 in
          (CFLOW_ADMISSION_ACCEPTED,
           Some (s\<lparr>me_tasks := (me_tasks s)[me_count s := the task], me_count := queued,
                   me_accepted := size_inc (me_accepted s),
                   me_peak_pending := (if me_peak_pending s < queued then queued else me_peak_pending s)\<rparr>)))"

definition manual_try_post ::
  "cflow_manual_executor_state ptr \<Rightarrow> task_fn ptr \<Rightarrow> user_ptr \<Rightarrow>
   cflow_admission_status \<times> cflow_manual_executor_state ptr" where
  "manual_try_post self fn user =
     manual_try_post_task_state self (Some \<lparr>et_run = fn, et_cancel = NULL, et_finalize = NULL, et_user = user\<rparr>)"

definition manual_control_post_task_state ::
  "bool \<Rightarrow> cflow_manual_executor_state ptr \<Rightarrow> cflow_executor_task ptr \<Rightarrow>
   cflow_executor_post_status \<times> cflow_manual_executor_state ptr" where
  "manual_control_post_task_state current state task =
     (if state = NULL \<or> task = NULL \<or> et_run (the task) = NULL then (CFLOW_EXECUTOR_POST_INVALID_ARGUMENT, state)
      else
        let s = the state in
        if me_lifecycle s \<noteq> CFLOW_EXECUTOR_OPEN
        then (CFLOW_EXECUTOR_POST_CLOSED, Some (s\<lparr>me_rejected_closed := size_inc (me_rejected_closed s)\<rparr>))
        else if me_capacity s \<le> me_count s \<and> current
        then (CFLOW_EXECUTOR_POST_WOULD_BLOCK,
              Some (s\<lparr>me_rejected_would_block := size_inc (me_rejected_would_block s)\<rparr>))
        else
          case manual_try_post_task_state state task of
            (CFLOW_ADMISSION_ACCEPTED, s1) \<Rightarrow> (CFLOW_EXECUTOR_POST_ACCEPTED, s1)
          | (CFLOW_ADMISSION_FULL, s1) \<Rightarrow> (CFLOW_EXECUTOR_POST_FULL, s1)
          | (CFLOW_ADMISSION_CLOSED, s1) \<Rightarrow> (CFLOW_EXECUTOR_POST_CLOSED, s1)
          | (_, s1) \<Rightarrow> (CFLOW_EXECUTOR_POST_INVALID_ARGUMENT, s1))"

definition manual_control_post ::
  "bool \<Rightarrow> cflow_manual_executor_state ptr \<Rightarrow> task_fn ptr \<Rightarrow> user_ptr \<Rightarrow>
   cflow_executor_post_status \<times> cflow_manual_executor_state ptr" where
  "manual_control_post current self fn user =
     manual_control_post_task_state current self
       (Some \<lparr>et_run = fn, et_cancel = NULL, et_finalize = NULL, et_user = user\<rparr>)"

definition manual_post ::
  "bool \<Rightarrow> cflow_manual_executor_state ptr \<Rightarrow> task_fn ptr \<Rightarrow> user_ptr \<Rightarrow> bool \<times> cflow_manual_executor_state ptr" where
  "manual_post current self fn user =
     (case manual_control_post current self fn user of (r, s) \<Rightarrow> (r = CFLOW_EXECUTOR_POST_ACCEPTED, s))"

definition manual_control_wait_idle ::
  "bool \<Rightarrow> cflow_manual_executor_state ptr \<Rightarrow> cflow_executor_wait_status \<times> cflow_manual_executor_state ptr" where
  "manual_control_wait_idle current self =
     (case self of
        None \<Rightarrow> (CFLOW_EXECUTOR_WAIT_INVALID_ARGUMENT, NULL)
      | Some s \<Rightarrow>
          if current
          then (CFLOW_EXECUTOR_WAIT_WOULD_BLOCK,
                Some (s\<lparr>me_rejected_would_block := size_inc (me_rejected_would_block s)\<rparr>))
          else
            let s1 = manual_maybe_close s in
            (if me_count s1 = 0 \<and> me_settling s1 = 0 \<and> \<not> me_running s1
             then CFLOW_EXECUTOR_WAIT_IDLE else CFLOW_EXECUTOR_WAIT_PENDING, Some s1))"

definition manual_wait_idle ::
  "bool \<Rightarrow> cflow_manual_executor_state ptr \<Rightarrow> bool \<times> cflow_manual_executor_state ptr" where
  "manual_wait_idle current self =
     (case manual_control_wait_idle current self of (r, s) \<Rightarrow> (r = CFLOW_EXECUTOR_WAIT_IDLE, s))"

definition manual_pending :: "cflow_manual_executor_state ptr \<Rightarrow> size_t" where
  "manual_pending self =
     (case self of
        None \<Rightarrow> 0
      | Some s \<Rightarrow> size_add (size_add (me_count s) (me_settling s)) (if me_running s then 1 else 0))"

subsection \<open>Callbacks\<close>

text \<open>Calling a function pointer that may be NULL: the call is noted, then made.\<close>

definition note_call :: "task_fn ptr \<Rightarrow> user_ptr \<Rightarrow> executor_context \<Rightarrow> executor_context" where
  "note_call fn user c = (case fn of None \<Rightarrow> c | Some f \<Rightarrow> c\<lparr>cx_calls := cx_calls c @ [(f, user)]\<rparr>)"

definition invoke ::
  "(task_fn \<Rightarrow> user_ptr \<Rightarrow> executor_context \<Rightarrow> executor_context) \<Rightarrow> task_fn ptr \<Rightarrow> user_ptr \<Rightarrow>
   executor_context \<Rightarrow> executor_context" where
  "invoke call fn user c = (case fn of None \<Rightarrow> c | Some f \<Rightarrow> call f user (note_call fn user c))"

text \<open>\<open>manual_run_one\<close> up to the callbacks, and after them.\<close>

definition run_one_enter :: "executor_context \<Rightarrow> (cflow_executor_task \<times> executor_context) option" where
  "run_one_enter c =
     (let s = cx_state c in
      if me_count s = 0 \<or> me_running s \<or> 0 < me_settling s then None
      else
        let tasks = (if 1 < me_count s then shift_down (me_tasks s) 1 (me_count s - 1) else me_tasks s) in
        Some (me_tasks s ! 0,
              c\<lparr>cx_state := s\<lparr>me_tasks := tasks, me_count := me_count s - 1, me_running := True\<rparr>, cx_current := True\<rparr>))"

definition run_one_leave :: "bool \<Rightarrow> executor_context \<Rightarrow> executor_context" where
  "run_one_leave previous c =
     (let s = cx_state c in
      c\<lparr>cx_current := previous,
        cx_state := manual_maybe_close (s\<lparr>me_running := False, me_completed := size_inc (me_completed s)\<rparr>)\<rparr>)"

definition manual_run_one ::
  "(task_fn \<Rightarrow> user_ptr \<Rightarrow> executor_context \<Rightarrow> executor_context) \<Rightarrow> executor_context ptr \<Rightarrow>
   bool \<times> executor_context ptr" where
  "manual_run_one call self =
     (case self of
        None \<Rightarrow> (False, self)
      | Some c \<Rightarrow>
          (case run_one_enter c of
             None \<Rightarrow> (False, self)
           | Some (task, c1) \<Rightarrow>
               let c2 = invoke call (et_run task) (et_user task) c1;
                   c3 = invoke call (et_finalize task) (et_user task) c2
               in (True, Some (run_one_leave (cx_current c) c3))))"

partial_function (option) manual_run_ready ::
  "(task_fn \<Rightarrow> user_ptr \<Rightarrow> executor_context \<Rightarrow> executor_context) \<Rightarrow> size_t \<Rightarrow> executor_context ptr \<Rightarrow>
   (size_t \<times> executor_context ptr) option" where
  "manual_run_ready call n self =
     (let r = manual_run_one call self in
      if fst r then manual_run_ready call (size_add n 1) (snd r) else Some (n, snd r))"

text \<open>The pieces of \<open>manual_cancel_pending\<close>: before the loop, at the end of an iteration.\<close>

definition cancel_enter :: "executor_context \<Rightarrow> executor_context" where
  "cancel_enter c =
     (let s = cx_state c in
      c\<lparr>cx_state := s\<lparr>me_count := 0, me_settling := me_count s\<rparr>, cx_current := True\<rparr>)"

definition cancel_settled :: "executor_context \<Rightarrow> executor_context" where
  "cancel_settled c =
     (let s = cx_state c in
      c\<lparr>cx_state := s\<lparr>me_settling := me_settling s - 1, me_cancelled := size_inc (me_cancelled s)\<rparr>\<rparr>)"

function cancel_loop ::
  "(task_fn \<Rightarrow> user_ptr \<Rightarrow> executor_context \<Rightarrow> executor_context) \<Rightarrow> size_t \<Rightarrow> size_t \<Rightarrow>
   executor_context \<Rightarrow> executor_context" where
  "cancel_loop call i task_count c =
     (if i < task_count then
        let task = me_tasks (cx_state c) ! i;
            c1 = invoke call (et_cancel task) (et_user task) c;
            task1 = me_tasks (cx_state c1) ! i;
            c2 = invoke call (et_finalize task1) (et_user task1) c1
        in cancel_loop call (i + 1) task_count (cancel_settled c2)
      else c)"
  by pat_completeness auto
termination by (relation "measure (\<lambda>(call, i, n, c). n - i)") auto

declare cancel_loop.simps [simp del]

definition manual_cancel_pending ::
  "(task_fn \<Rightarrow> user_ptr \<Rightarrow> executor_context \<Rightarrow> executor_context) \<Rightarrow> executor_context \<Rightarrow> executor_context" where
  "manual_cancel_pending call c =
     (if me_count (cx_state c) = 0 then c
      else (cancel_loop call 0 (me_count (cx_state c)) (cancel_enter c))\<lparr>cx_current := cx_current c\<rparr>)"

text \<open>\<open>manual_control_shutdown\<close> up to the cancellation of the queued tasks: NULL when the policy
  conflicts with the one already selected.\<close>

definition shutdown_enter ::
  "cflow_executor_shutdown_policy \<Rightarrow> cflow_manual_executor_state \<Rightarrow> (bool \<times> cflow_manual_executor_state) option" where
  "shutdown_enter policy s =
     (if me_shutdown_policy_selected s then
        if me_shutdown_policy s \<noteq> policy then None else Some (False, s)
      else
        Some (policy = CFLOW_EXECUTOR_SHUTDOWN_CANCEL_PENDING,
              s\<lparr>me_shutdown_policy := policy, me_shutdown_policy_selected := True,
                me_lifecycle := CFLOW_EXECUTOR_CLOSING\<rparr>))"

definition close_context :: "executor_context \<Rightarrow> executor_context" where
  "close_context c = c\<lparr>cx_state := manual_maybe_close (cx_state c)\<rparr>"

text \<open>A policy outside the enumeration is refused like a NULL executor.\<close>

definition manual_control_shutdown ::
  "(task_fn \<Rightarrow> user_ptr \<Rightarrow> executor_context \<Rightarrow> executor_context) \<Rightarrow> cflow_executor_shutdown_policy ptr \<Rightarrow>
   executor_context ptr \<Rightarrow> bool \<times> executor_context ptr" where
  "manual_control_shutdown call policy self =
     (if self = NULL \<or> policy = NULL then (False, self)
      else
        case shutdown_enter (the policy) (cx_state (the self)) of
          None \<Rightarrow> (False, self)
        | Some (cancel, s1) \<Rightarrow>
            let c1 = (the self)\<lparr>cx_state := s1\<rparr>;
                c2 = (if cancel then manual_cancel_pending call c1 else c1)
            in (True, Some (close_context c2)))"

definition manual_shutdown ::
  "(task_fn \<Rightarrow> user_ptr \<Rightarrow> executor_context \<Rightarrow> executor_context) \<Rightarrow> executor_context ptr \<Rightarrow>
   bool \<times> executor_context ptr" where
  "manual_shutdown call self = manual_control_shutdown call (Some CFLOW_EXECUTOR_SHUTDOWN_DRAIN) self"

text \<open>The context at the end of \<open>manual_destroy\<close>, whose two blocks have been released.\<close>

definition manual_destroy ::
  "(task_fn \<Rightarrow> user_ptr \<Rightarrow> executor_context \<Rightarrow> executor_context) \<Rightarrow> executor_context ptr \<Rightarrow> env \<Rightarrow>
   executor_context ptr \<times> env" where
  "manual_destroy call self e =
     (case self of
        None \<Rightarrow> (self, e)
      | Some c \<Rightarrow>
          let c1 = manual_cancel_pending call (c\<lparr>cx_state := (cx_state c)\<lparr>me_lifecycle := CFLOW_EXECUTOR_CLOSING\<rparr>\<rparr>) in
          (Some (c1\<lparr>cx_state := (cx_state c1)\<lparr>me_lifecycle := CFLOW_EXECUTOR_CLOSED\<rparr>\<rparr>), free_block (free_block e)))"

subsection \<open>Statistics and creation\<close>

record cflow_executor_protocol_stats =
  ps_capacity :: size_t
  ps_accepted :: size_t
  ps_queued :: size_t
  ps_running :: size_t
  ps_completed :: size_t
  ps_cancelled :: size_t
  ps_rejected_full :: size_t
  ps_rejected_closed :: size_t
  ps_rejected_would_block :: size_t
  ps_lifecycle :: cflow_executor_lifecycle

definition protocol_stats :: "cflow_manual_executor_state \<Rightarrow> cflow_executor_protocol_stats" where
  "protocol_stats s =
     \<lparr>ps_capacity = me_capacity s, ps_accepted = me_accepted s, ps_queued = size_add (me_count s) (me_settling s),
      ps_running = (if me_running s then 1 else 0), ps_completed = me_completed s, ps_cancelled = me_cancelled s,
      ps_rejected_full = me_rejected_full s, ps_rejected_closed = me_rejected_closed s,
      ps_rejected_would_block = me_rejected_would_block s, ps_lifecycle = me_lifecycle s\<rparr>"

definition manual_control_get_stats ::
  "cflow_manual_executor_state ptr \<Rightarrow> cflow_executor_protocol_stats ptr \<Rightarrow>
   bool \<times> cflow_manual_executor_state ptr \<times> cflow_executor_protocol_stats ptr" where
  "manual_control_get_stats self out =
     (if self = NULL \<or> out = NULL then (False, self, out)
      else let s = manual_maybe_close (the self) in (True, Some s, Some (protocol_stats s)))"

record cflow_executor_stats =
  es_capacity :: size_t
  es_pending :: size_t
  es_peak_pending :: size_t
  es_rejected_full :: size_t
  es_rejected_closed :: size_t

definition manual_get_stats ::
  "cflow_manual_executor_state ptr \<Rightarrow> cflow_executor_stats ptr \<Rightarrow> bool \<times> cflow_executor_stats ptr" where
  "manual_get_stats self out =
     (if self = NULL \<or> out = NULL then (False, out)
      else
        let s = the self in
        (True,
         Some \<lparr>es_capacity = me_capacity s,
               es_pending = size_add (size_add (me_count s) (me_settling s)) (if me_running s then 1 else 0),
               es_peak_pending = me_peak_pending s, es_rejected_full = me_rejected_full s,
               es_rejected_closed = me_rejected_closed s\<rparr>))"

definition cflow_executor_manual_init_with_capacity ::
  "cflow_manual_executor_state ptr ptr \<Rightarrow> size_t \<Rightarrow> env \<Rightarrow> bool \<times> cflow_manual_executor_state ptr ptr \<times> env" where
  "cflow_executor_manual_init_with_capacity executor capacity e =
     (case executor of
        None \<Rightarrow> (False, executor, e)
      | Some (Some _) \<Rightarrow> (False, executor, e)
      | Some None \<Rightarrow>
          if capacity = 0 \<or> SIZE_MAX div sizeof_executor_task < capacity then (False, executor, e)
          else
            case malloc e of
              (None, e1) \<Rightarrow> (False, executor, e1)
            | (Some _, e1) \<Rightarrow>
                (case malloc e1 of
                   (None, e2) \<Rightarrow> (False, executor, free_block e2)
                 | (Some _, e2) \<Rightarrow>
                     (True,
                      Some (Some \<lparr>me_tasks = replicate capacity zero_executor_task, me_count = 0, me_settling = 0,
                        me_capacity = capacity, me_peak_pending = 0, me_accepted = 0, me_completed = 0,
                        me_cancelled = 0, me_rejected_full = 0, me_rejected_closed = 0,
                        me_rejected_would_block = 0, me_lifecycle = CFLOW_EXECUTOR_OPEN,
                        me_shutdown_policy = CFLOW_EXECUTOR_SHUTDOWN_DRAIN, me_shutdown_policy_selected = False,
                        me_running = False\<rparr>), e2)))"

definition cflow_executor_manual_init ::
  "cflow_manual_executor_state ptr ptr \<Rightarrow> env \<Rightarrow> bool \<times> cflow_manual_executor_state ptr ptr \<times> env" where
  "cflow_executor_manual_init executor e =
     cflow_executor_manual_init_with_capacity executor CFLOW_EXECUTOR_DEFAULT_CAPACITY e"

section \<open>Re-entrant executions\<close>

text \<open>
  The stack of activations: inside a task's \<open>run\<close>, inside its \<open>finalize\<close>, inside \<open>cancel\<close> or
  \<open>finalize\<close> of slot \<open>i\<close> of \<open>n\<close> tasks being cancelled by a shutdown or by \<open>manual_destroy\<close>, or in
  a callback of another executor, for which \<open>manual_current\<close> points elsewhere. Each holds the value
  of \<open>manual_current\<close> to restore. A NULL callback is one that returns at once.
\<close>

datatype activation =
  Running bool cflow_executor_task
| Finalizing bool cflow_executor_task
| Cancelling bool size_t size_t bool
| Settling bool size_t size_t bool
| Elsewhere bool

datatype exec_event =
  Accepted cflow_executor_task | Ran cflow_executor_task | Cancelled cflow_executor_task | Final cflow_executor_task

record exec_system =
  ex_context :: executor_context
  ex_stack :: "activation list"
  ex_log :: "exec_event list"
  ex_alive :: bool

definition slot_task :: "executor_context \<Rightarrow> size_t \<Rightarrow> cflow_executor_task" where
  "slot_task c i = me_tasks (cx_state c) ! i"

definition with_state :: "executor_context \<Rightarrow> cflow_manual_executor_state \<Rightarrow> executor_context" where
  "with_state c s = c\<lparr>cx_state := s\<rparr>"

text \<open>The context at the moment one of a task's callbacks is entered.\<close>

definition calling ::
  "(cflow_executor_task \<Rightarrow> task_fn ptr) \<Rightarrow> cflow_executor_task \<Rightarrow> executor_context \<Rightarrow> executor_context" where
  "calling callback t c = note_call (callback t) (et_user t) c"

text \<open>What follows the cancellation loop in a shutdown and in \<open>manual_destroy\<close>.\<close>

definition cancel_leave :: "bool \<Rightarrow> bool \<Rightarrow> executor_context \<Rightarrow> executor_context" where
  "cancel_leave destroying previous c =
     (let c1 = c\<lparr>cx_current := previous\<rparr> in
      if destroying then with_state c1 ((cx_state c1)\<lparr>me_lifecycle := CFLOW_EXECUTOR_CLOSED\<rparr>) else close_context c1)"

inductive exec_step :: "exec_system \<Rightarrow> exec_system \<Rightarrow> bool" where
  x_post: "ex_alive x \<Longrightarrow> manual_try_post_task_state (Some (cx_state (ex_context x))) (Some t) = (r, Some s) \<Longrightarrow>
    exec_step x (x\<lparr>ex_context := with_state (ex_context x) s,
      ex_log := ex_log x @ (if r = CFLOW_ADMISSION_ACCEPTED then [Accepted t] else [])\<rparr>)"
| x_control_post: "ex_alive x \<Longrightarrow>
    manual_control_post_task_state (cx_current (ex_context x)) (Some (cx_state (ex_context x))) (Some t) = (r', Some s) \<Longrightarrow>
    exec_step x (x\<lparr>ex_context := with_state (ex_context x) s,
      ex_log := ex_log x @ (if r' = CFLOW_EXECUTOR_POST_ACCEPTED then [Accepted t] else [])\<rparr>)"
| x_wait: "ex_alive x \<Longrightarrow>
    manual_control_wait_idle (cx_current (ex_context x)) (Some (cx_state (ex_context x))) = (w, Some s) \<Longrightarrow>
    exec_step x (x\<lparr>ex_context := with_state (ex_context x) s\<rparr>)"
| x_stats: "ex_alive x \<Longrightarrow> manual_control_get_stats (Some (cx_state (ex_context x))) out = (b, Some s, out') \<Longrightarrow>
    exec_step x (x\<lparr>ex_context := with_state (ex_context x) s\<rparr>)"
| x_run: "ex_alive x \<Longrightarrow> run_one_enter (ex_context x) = Some (t, c) \<Longrightarrow>
    exec_step x (x\<lparr>ex_context := calling et_run t c, ex_stack := Running (cx_current (ex_context x)) t # ex_stack x,
      ex_log := ex_log x @ [Ran t]\<rparr>)"
| x_ran: "ex_stack x = Running p t # st \<Longrightarrow>
    exec_step x (x\<lparr>ex_context := calling et_finalize t (ex_context x), ex_stack := Finalizing p t # st,
      ex_log := ex_log x @ [Final t]\<rparr>)"
| x_finalized: "ex_stack x = Finalizing p t # st \<Longrightarrow>
    exec_step x (x\<lparr>ex_context := run_one_leave p (ex_context x), ex_stack := st\<rparr>)"
| x_shutdown: "ex_alive x \<Longrightarrow> shutdown_enter policy (cx_state (ex_context x)) = Some (cancel, s) \<Longrightarrow>
    \<not> cancel \<or> me_count s = 0 \<Longrightarrow>
    exec_step x (x\<lparr>ex_context := close_context (with_state (ex_context x) s)\<rparr>)"
| x_shutdown_cancel: "ex_alive x \<Longrightarrow> shutdown_enter policy (cx_state (ex_context x)) = Some (True, s) \<Longrightarrow>
    me_count s \<noteq> 0 \<Longrightarrow> c = cancel_enter (with_state (ex_context x) s) \<Longrightarrow>
    exec_step x (x\<lparr>ex_context := calling et_cancel (slot_task c 0) c,
      ex_stack := Cancelling (cx_current (ex_context x)) 0 (me_count s) False # ex_stack x,
      ex_log := ex_log x @ [Cancelled (slot_task c 0)]\<rparr>)"
| x_cancelled: "ex_stack x = Cancelling p i n d # st \<Longrightarrow>
    exec_step x (x\<lparr>ex_context := calling et_finalize (slot_task (ex_context x) i) (ex_context x),
      ex_stack := Settling p i n d # st, ex_log := ex_log x @ [Final (slot_task (ex_context x) i)]\<rparr>)"
| x_next: "ex_stack x = Settling p i n d # st \<Longrightarrow> i + 1 < n \<Longrightarrow> c = cancel_settled (ex_context x) \<Longrightarrow>
    exec_step x (x\<lparr>ex_context := calling et_cancel (slot_task c (i + 1)) c, ex_stack := Cancelling p (i + 1) n d # st,
      ex_log := ex_log x @ [Cancelled (slot_task c (i + 1))]\<rparr>)"
| x_last: "ex_stack x = Settling p i n d # st \<Longrightarrow> \<not> i + 1 < n \<Longrightarrow>
    exec_step x (x\<lparr>ex_context := cancel_leave d p (cancel_settled (ex_context x)), ex_stack := st,
      ex_alive := ex_alive x \<and> \<not> d\<rparr>)"
| x_elsewhere: "ex_alive x \<Longrightarrow>
    exec_step x (x\<lparr>ex_context := (ex_context x)\<lparr>cx_current := False\<rparr>,
      ex_stack := Elsewhere (cx_current (ex_context x)) # ex_stack x\<rparr>)"
| x_back: "ex_stack x = Elsewhere p # st \<Longrightarrow>
    exec_step x (x\<lparr>ex_context := (ex_context x)\<lparr>cx_current := p\<rparr>, ex_stack := st\<rparr>)"
| x_destroy: "ex_alive x \<Longrightarrow> ex_stack x = [] \<Longrightarrow> s = (cx_state (ex_context x))\<lparr>me_lifecycle := CFLOW_EXECUTOR_CLOSING\<rparr> \<Longrightarrow>
    me_count s = 0 \<Longrightarrow>
    exec_step x (x\<lparr>ex_context := with_state (ex_context x) (s\<lparr>me_lifecycle := CFLOW_EXECUTOR_CLOSED\<rparr>), ex_alive := False\<rparr>)"
| x_destroy_cancel: "ex_alive x \<Longrightarrow> ex_stack x = [] \<Longrightarrow>
    s = (cx_state (ex_context x))\<lparr>me_lifecycle := CFLOW_EXECUTOR_CLOSING\<rparr> \<Longrightarrow> me_count s \<noteq> 0 \<Longrightarrow>
    c = cancel_enter (with_state (ex_context x) s) \<Longrightarrow>
    exec_step x (x\<lparr>ex_context := calling et_cancel (slot_task c 0) c,
      ex_stack := [Cancelling (cx_current (ex_context x)) 0 (me_count s) True],
      ex_log := ex_log x @ [Cancelled (slot_task c 0)]\<rparr>)"

section \<open>Invariant\<close>

lemma note_call_simps [simp]:
  "cx_state (note_call f u c) = cx_state c" "cx_current (note_call f u c) = cx_current c"
  "cx_calls (note_call f u c) = cx_calls c @ (case f of None \<Rightarrow> [] | Some g \<Rightarrow> [(g, u)])"
  by (simp_all add: note_call_def split: option.split)

lemma calling_simps [simp]:
  "cx_state (calling w t c) = cx_state c" "cx_current (calling w t c) = cx_current c"
  "cx_calls (calling w t c) = cx_calls c @ (case w t of None \<Rightarrow> [] | Some g \<Rightarrow> [(g, et_user t)])"
  by (simp_all add: calling_def)

fun accepted_of :: "exec_event \<Rightarrow> cflow_executor_task list" where
  "accepted_of (Accepted t) = [t]" | "accepted_of _ = []"

fun settled_of :: "exec_event \<Rightarrow> cflow_executor_task list" where
  "settled_of (Ran t) = [t]" | "settled_of (Cancelled t) = [t]" | "settled_of _ = []"

fun final_of :: "exec_event \<Rightarrow> cflow_executor_task list" where
  "final_of (Final t) = [t]" | "final_of _ = []"

definition accepted_tasks :: "exec_event list \<Rightarrow> cflow_executor_task list" where
  "accepted_tasks log = concat (map accepted_of log)"

definition settled_tasks :: "exec_event list \<Rightarrow> cflow_executor_task list" where
  "settled_tasks log = concat (map settled_of log)"

definition final_tasks :: "exec_event list \<Rightarrow> cflow_executor_task list" where
  "final_tasks log = concat (map final_of log)"

lemma log_append [simp]:
  "accepted_tasks (l @ m) = accepted_tasks l @ accepted_tasks m"
  "settled_tasks (l @ m) = settled_tasks l @ settled_tasks m"
  "final_tasks (l @ m) = final_tasks l @ final_tasks m"
  by (simp_all add: accepted_tasks_def settled_tasks_def final_tasks_def)

lemma log_single [simp]:
  "accepted_tasks [e] = accepted_of e" "settled_tasks [e] = settled_of e" "final_tasks [e] = final_of e"
  "accepted_tasks [] = []" "settled_tasks [] = []" "final_tasks [] = []"
  by (simp_all add: accepted_tasks_def settled_tasks_def final_tasks_def)

text \<open>The activations of the two kinds, without the callbacks of other executors.\<close>

fun is_run :: "activation \<Rightarrow> bool" where
  "is_run (Running p t) = True" | "is_run (Finalizing p t) = True" | "is_run _ = False"

fun is_cancel :: "activation \<Rightarrow> bool" where
  "is_cancel (Cancelling p i n d) = True" | "is_cancel (Settling p i n d) = True" | "is_cancel _ = False"

fun cancel_destroys :: "activation \<Rightarrow> bool" where
  "cancel_destroys (Cancelling p i n d) = d" | "cancel_destroys (Settling p i n d) = d" | "cancel_destroys _ = False"

fun cancel_slot :: "activation \<Rightarrow> size_t \<times> size_t" where
  "cancel_slot (Cancelling p i n d) = (i, n)" | "cancel_slot (Settling p i n d) = (i, n)" | "cancel_slot _ = (0, 0)"

definition active :: "activation list \<Rightarrow> activation list" where
  "active st = filter (\<lambda>f. is_run f \<or> is_cancel f) st"

text \<open>The tasks an activation still has to finalize.\<close>

fun unfinished :: "cflow_executor_task list \<Rightarrow> activation \<Rightarrow> cflow_executor_task list" where
  "unfinished tasks (Running p t) = [t]"
| "unfinished tasks (Cancelling p i n d) = [tasks ! i]"
| "unfinished tasks _ = []"

text \<open>The stack of active frames, innermost first: nothing, a running task, a cancellation, or a
  cancellation started by a running task. \<open>waiting\<close> are the tasks neither run nor cancelled yet.\<close>

definition run_frames :: "cflow_manual_executor_state \<Rightarrow> activation list \<Rightarrow> bool" where
  "run_frames s rs \<longleftrightarrow> (if me_running s then \<exists>f. rs = [f] \<and> is_run f else rs = [])"

inductive stack_shape ::
  "cflow_manual_executor_state \<Rightarrow> activation list \<Rightarrow> cflow_executor_task list \<Rightarrow> bool" for s where
  calm: "run_frames s rs \<Longrightarrow> me_settling s = 0 \<Longrightarrow> stack_shape s rs (take (me_count s) (me_tasks s))"
| cancelling: "run_frames s rs \<Longrightarrow> is_cancel f \<Longrightarrow> cancel_slot f = (i, n) \<Longrightarrow> i < n \<Longrightarrow> n \<le> me_capacity s \<Longrightarrow>
    me_count s = 0 \<Longrightarrow> me_settling s = n - i \<Longrightarrow> me_lifecycle s \<noteq> CFLOW_EXECUTOR_OPEN \<Longrightarrow>
    (cancel_destroys f \<Longrightarrow> rs = []) \<Longrightarrow> stack_shape s (f # rs) (drop (i + 1) (take n (me_tasks s)))"

definition exec_inv :: "exec_system \<Rightarrow> bool" where
  "exec_inv x \<longleftrightarrow>
     (let s = cx_state (ex_context x); fs = active (ex_stack x) in
      length (me_tasks s) = me_capacity s \<and> me_count s \<le> me_capacity s \<and>
      (\<exists>waiting. stack_shape s fs waiting \<and> accepted_tasks (ex_log x) = settled_tasks (ex_log x) @ waiting) \<and>
      mset (settled_tasks (ex_log x)) = mset (final_tasks (ex_log x)) + mset (concat (map (unfinished (me_tasks s)) fs)) \<and>
      me_accepted s = length (accepted_tasks (ex_log x)) mod (SIZE_MAX + 1) \<and>
      (me_completed s + me_cancelled s + length fs) mod (SIZE_MAX + 1) = length (settled_tasks (ex_log x)) mod (SIZE_MAX + 1) \<and>
      (me_lifecycle s = CFLOW_EXECUTOR_CLOSED \<longrightarrow> fs = [] \<and> me_count s = 0))"

lemma active_simps [simp]:
  "active (Running p t # st) = Running p t # active st" "active (Finalizing p t # st) = Finalizing p t # active st"
  "active (Cancelling p i n d # st) = Cancelling p i n d # active st"
  "active (Settling p i n d # st) = Settling p i n d # active st"
  "active (Elsewhere p # st) = active st" "active [] = []"
  by (simp_all add: active_def)

lemma with_state_simps [simp]:
  "cx_state (with_state c s) = s" "cx_current (with_state c s) = cx_current c"
  by (simp_all add: with_state_def)

lemma maybe_close_simps [simp]:
  "me_tasks (manual_maybe_close s) = me_tasks s" "me_count (manual_maybe_close s) = me_count s"
  "me_settling (manual_maybe_close s) = me_settling s" "me_capacity (manual_maybe_close s) = me_capacity s"
  "me_accepted (manual_maybe_close s) = me_accepted s" "me_completed (manual_maybe_close s) = me_completed s"
  "me_cancelled (manual_maybe_close s) = me_cancelled s" "me_running (manual_maybe_close s) = me_running s"
  "me_lifecycle (manual_maybe_close s) = CFLOW_EXECUTOR_OPEN \<longleftrightarrow> me_lifecycle s = CFLOW_EXECUTOR_OPEN"
  by (simp_all add: manual_maybe_close_def)

text \<open>Shapes do not depend on the counters; closing needs an empty stack.\<close>

lemma stack_shape_cong:
  assumes "me_tasks s' = me_tasks s" "me_count s' = me_count s" "me_settling s' = me_settling s"
    "me_capacity s' = me_capacity s" "me_running s' = me_running s"
    "me_lifecycle s' = CFLOW_EXECUTOR_OPEN \<Longrightarrow> me_lifecycle s = CFLOW_EXECUTOR_OPEN"
    and "stack_shape s fs waiting"
  shows "stack_shape s' fs waiting"
  using assms(7)
proof cases
  case calm
  then show ?thesis using stack_shape.calm [of s' fs] assms(1-5) by (simp add: run_frames_def)
next
  case (cancelling rs f i n)
  then show ?thesis using stack_shape.cancelling [of s' rs f i n] assms(1-6) by (auto simp: run_frames_def)
qed

lemma stack_shape_idle:
  assumes "stack_shape s fs waiting" "me_count s = 0" "me_settling s = 0" "\<not> me_running s"
  shows "fs = [] \<and> waiting = []"
  using assms by cases (auto simp: run_frames_def)

text \<open>A step that only touches other counters, or closes an idle executor, keeps the invariant.\<close>

lemma exec_inv_quiet:
  assumes inv: "exec_inv x" and stack: "active (ex_stack x') = active (ex_stack x)" and log: "ex_log x' = ex_log x"
    and same: "me_tasks (cx_state (ex_context x')) = me_tasks (cx_state (ex_context x))"
      "me_count (cx_state (ex_context x')) = me_count (cx_state (ex_context x))"
      "me_settling (cx_state (ex_context x')) = me_settling (cx_state (ex_context x))"
      "me_capacity (cx_state (ex_context x')) = me_capacity (cx_state (ex_context x))"
      "me_accepted (cx_state (ex_context x')) = me_accepted (cx_state (ex_context x))"
      "me_completed (cx_state (ex_context x')) = me_completed (cx_state (ex_context x))"
      "me_cancelled (cx_state (ex_context x')) = me_cancelled (cx_state (ex_context x))"
      "me_running (cx_state (ex_context x')) = me_running (cx_state (ex_context x))"
    and open_: "me_lifecycle (cx_state (ex_context x')) = CFLOW_EXECUTOR_OPEN \<Longrightarrow>
      me_lifecycle (cx_state (ex_context x)) = CFLOW_EXECUTOR_OPEN"
    and closed: "me_lifecycle (cx_state (ex_context x')) = CFLOW_EXECUTOR_CLOSED \<Longrightarrow>
      me_lifecycle (cx_state (ex_context x)) = CFLOW_EXECUTOR_CLOSED \<or>
      (me_count (cx_state (ex_context x)) = 0 \<and> me_settling (cx_state (ex_context x)) = 0 \<and>
       \<not> me_running (cx_state (ex_context x)))"
  shows "exec_inv x'"
proof -
  let ?s = "cx_state (ex_context x)" and ?s' = "cx_state (ex_context x')" and ?fs = "active (ex_stack x)"
  from inv obtain waiting where
    sh: "stack_shape ?s ?fs waiting" "accepted_tasks (ex_log x) = settled_tasks (ex_log x) @ waiting"
    by (auto simp: exec_inv_def Let_def)
  have "stack_shape ?s' ?fs waiting" using stack_shape_cong [OF same(1-4,8) open_ sh(1)] by simp
  moreover have "me_lifecycle ?s' = CFLOW_EXECUTOR_CLOSED \<Longrightarrow> ?fs = [] \<and> me_count ?s = 0"
    using closed stack_shape_idle [OF sh(1)] inv by (auto simp: exec_inv_def Let_def)
  ultimately show ?thesis
    using inv sh(2) unfolding exec_inv_def Let_def stack log same by blast
qed

lemma exec_inv_cong:
  assumes "exec_inv (x\<lparr>ex_context := c, ex_stack := st, ex_log := log\<rparr>)" and "cx_state c' = cx_state c"
  shows "exec_inv (x\<lparr>ex_context := c', ex_stack := st, ex_log := log\<rparr>)"
  using assms by (simp add: exec_inv_def Let_def)

lemma unfinished_active: "concat (map (unfinished ts) st) = concat (map (unfinished ts) (active st))"
proof (induction st)
  case (Cons f st)
  then show ?case by (cases f) simp_all
qed simp

lemma exec_invI:
  assumes "s = cx_state (ex_context x)" "fs = active (ex_stack x)"
    and "length (me_tasks s) = me_capacity s" "me_count s \<le> me_capacity s"
    and "stack_shape s fs waiting" "accepted_tasks (ex_log x) = settled_tasks (ex_log x) @ waiting"
    and "mset (settled_tasks (ex_log x)) = mset (final_tasks (ex_log x)) + mset (concat (map (unfinished (me_tasks s)) fs))"
    and "me_accepted s = length (accepted_tasks (ex_log x)) mod (SIZE_MAX + 1)"
    and "(me_completed s + me_cancelled s + length fs) mod (SIZE_MAX + 1) = length (settled_tasks (ex_log x)) mod (SIZE_MAX + 1)"
    and "me_lifecycle s = CFLOW_EXECUTOR_CLOSED \<Longrightarrow> fs = [] \<and> me_count s = 0"
  shows "exec_inv x"
  using assms(3-) unfolding exec_inv_def Let_def assms(1,2) by blast

lemma exec_invE:
  assumes "exec_inv x" "s = cx_state (ex_context x)" "fs = active (ex_stack x)"
  obtains waiting where "length (me_tasks s) = me_capacity s" "me_count s \<le> me_capacity s"
    and "stack_shape s fs waiting" "accepted_tasks (ex_log x) = settled_tasks (ex_log x) @ waiting"
    and "mset (settled_tasks (ex_log x)) = mset (final_tasks (ex_log x)) + mset (concat (map (unfinished (me_tasks s)) fs))"
    and "me_accepted s = length (accepted_tasks (ex_log x)) mod (SIZE_MAX + 1)"
    and "(me_completed s + me_cancelled s + length fs) mod (SIZE_MAX + 1) = length (settled_tasks (ex_log x)) mod (SIZE_MAX + 1)"
    and "me_lifecycle s = CFLOW_EXECUTOR_CLOSED \<Longrightarrow> fs = [] \<and> me_count s = 0"
  using assms(1) unfolding exec_inv_def Let_def assms(2,3) [symmetric] by blast

lemma size_inc_mod: "size_add n (Suc 0) = Suc n mod Suc SIZE_MAX"
  by (simp add: size_add_def)

lemma try_post_some: "\<exists>r s. manual_try_post_task_state (Some a) (Some t) = (r, Some s)"
  by (cases "et_run t = NULL"; cases "me_lifecycle a = CFLOW_EXECUTOR_OPEN"; cases "me_capacity a \<le> me_count a")
    (simp_all add: manual_try_post_task_state_def Let_def)

lemma unfinished_runs: "run_frames s rs \<Longrightarrow> concat (map (unfinished ts) rs) = concat (map (unfinished us) rs)"
  by (auto simp: run_frames_def split: if_splits elim!: is_run.elims)

lemma shape_open:
  assumes "stack_shape s fs waiting" "me_lifecycle s = CFLOW_EXECUTOR_OPEN \<or> me_count s \<noteq> 0"
  shows "run_frames s fs" "me_settling s = 0" "waiting = take (me_count s) (me_tasks s)"
  using assms by (cases; auto)+

text \<open>An accepted task joins the queue.\<close>

lemma post_inv:
  assumes inv: "exec_inv x" and post: "manual_try_post_task_state (Some (cx_state (ex_context x))) (Some t) = (r, Some s)"
    and x': "x' = x\<lparr>ex_context := with_state (ex_context x) s,
      ex_log := ex_log x @ (if r = CFLOW_ADMISSION_ACCEPTED then [Accepted t] else [])\<rparr>"
  shows "exec_inv x'"
proof (cases "r = CFLOW_ADMISSION_ACCEPTED")
  case False
  with post have "s = cx_state (ex_context x) \<or>
      (\<exists>n. s = (cx_state (ex_context x))\<lparr>me_rejected_closed := n\<rparr> \<or> s = (cx_state (ex_context x))\<lparr>me_rejected_full := n\<rparr>)"
    by (auto simp: manual_try_post_task_state_def Let_def split: if_splits)
  then show ?thesis using False by (intro exec_inv_quiet [OF inv]) (auto simp: x')
next
  case True
  define s0 where "s0 = cx_state (ex_context x)"
  from post True have p: "me_lifecycle s0 = CFLOW_EXECUTOR_OPEN" "me_count s0 < me_capacity s0"
    "me_tasks s = (me_tasks s0)[me_count s0 := t]" "me_count s = me_count s0 + 1" "me_settling s = me_settling s0"
    "me_capacity s = me_capacity s0" "me_accepted s = size_inc (me_accepted s0)" "me_completed s = me_completed s0"
    "me_cancelled s = me_cancelled s0" "me_lifecycle s = me_lifecycle s0" "me_running s = me_running s0"
    by (auto simp: manual_try_post_task_state_def Let_def s0_def split: if_splits)
  from exec_invE [OF inv s0_def refl] obtain waiting where i:
    "length (me_tasks s0) = me_capacity s0" "stack_shape s0 (active (ex_stack x)) waiting"
    "accepted_tasks (ex_log x) = settled_tasks (ex_log x) @ waiting"
    "mset (settled_tasks (ex_log x)) = mset (final_tasks (ex_log x)) + mset (concat (map (unfinished (me_tasks s0)) (active (ex_stack x))))"
    "me_accepted s0 = length (accepted_tasks (ex_log x)) mod (SIZE_MAX + 1)"
    "(me_completed s0 + me_cancelled s0 + length (active (ex_stack x))) mod (SIZE_MAX + 1) = length (settled_tasks (ex_log x)) mod (SIZE_MAX + 1)"
    by metis
  note sh = shape_open [OF i(2) disjI1, OF p(1)]
  have "stack_shape s (active (ex_stack x)) (take (me_count s) (me_tasks s))"
    using sh p by (intro calm) (simp_all add: run_frames_def)
  then have "stack_shape s (active (ex_stack x)) (waiting @ [t])"
    using p i(1) by (simp add: sh(3) take_Suc_conv_app_nth)
  then show ?thesis
  proof (rule exec_invI [of s x' "active (ex_stack x)", rotated 4])
    show "mset (settled_tasks (ex_log x')) = mset (final_tasks (ex_log x')) +
        mset (concat (map (unfinished (me_tasks s)) (active (ex_stack x))))"
      using i(4) unfinished_runs [OF sh(1), of "me_tasks s" "me_tasks s0"] True by (simp add: x')
    show "me_accepted s = length (accepted_tasks (ex_log x')) mod (SIZE_MAX + 1)"
      using p(7) i(5) True by (simp add: x' size_inc_mod mod_Suc_eq)
  qed (use p i True in \<open>simp_all add: x'\<close>)
qed

lemma control_post_inv:
  assumes inv: "exec_inv x"
    and post: "manual_control_post_task_state cur (Some (cx_state (ex_context x))) (Some t) = (r, Some s)"
    and x': "x' = x\<lparr>ex_context := with_state (ex_context x) s,
      ex_log := ex_log x @ (if r = CFLOW_EXECUTOR_POST_ACCEPTED then [Accepted t] else [])\<rparr>"
  shows "exec_inv x'"
proof -
  obtain r0 s0 where p0: "manual_try_post_task_state (Some (cx_state (ex_context x))) (Some t) = (r0, Some s0)"
    using try_post_some by blast
  from post p0 have "(r = CFLOW_EXECUTOR_POST_ACCEPTED \<longleftrightarrow> r0 = CFLOW_ADMISSION_ACCEPTED) \<and> s = s0 \<or>
      (\<exists>n. r \<noteq> CFLOW_EXECUTOR_POST_ACCEPTED \<and>
        (s = cx_state (ex_context x) \<or> s = (cx_state (ex_context x))\<lparr>me_rejected_closed := n\<rparr> \<or>
         s = (cx_state (ex_context x))\<lparr>me_rejected_would_block := n\<rparr>))"
    by (auto simp: manual_control_post_task_state_def Let_def split: if_splits cflow_admission_status.splits)
  then show ?thesis
  proof
    assume "(r = CFLOW_EXECUTOR_POST_ACCEPTED \<longleftrightarrow> r0 = CFLOW_ADMISSION_ACCEPTED) \<and> s = s0"
    then show ?thesis using post_inv [OF inv p0, of x'] by (simp add: x')
  next
    assume "\<exists>n. r \<noteq> CFLOW_EXECUTOR_POST_ACCEPTED \<and>
        (s = cx_state (ex_context x) \<or> s = (cx_state (ex_context x))\<lparr>me_rejected_closed := n\<rparr> \<or>
         s = (cx_state (ex_context x))\<lparr>me_rejected_would_block := n\<rparr>)"
    then show ?thesis by (intro exec_inv_quiet [OF inv]) (auto simp: x')
  qed
qed

lemma mod_Suc_cong: "a mod n = b mod n \<Longrightarrow> Suc a mod n = Suc b mod n"
  by (metis mod_Suc_eq)

lemma counter_step:
  assumes "(c + k + Suc l) mod M = m mod M"
  shows "(c + Suc k mod M + l) mod M = m mod (M :: nat)" "(c + Suc k mod M + Suc l) mod M = Suc m mod M"
proof -
  have shift: "(c + Suc k mod M + j) mod M = (c + k + Suc j) mod M" for j
    using mod_add_right_eq [of "c + j" "Suc k" M] by (simp add: ac_simps)
  show "(c + Suc k mod M + l) mod M = m mod M" unfolding shift by (rule assms)
  show "(c + Suc k mod M + Suc l) mod M = Suc m mod M" unfolding shift using mod_Suc_cong [OF assms] by simp
qed

text \<open>Running the first task.\<close>

lemma run_inv:
  assumes inv: "exec_inv x" and run: "run_one_enter (ex_context x) = Some (t, c)"
    and x': "x' = x\<lparr>ex_context := c, ex_stack := Running q t # ex_stack x, ex_log := ex_log x @ [Ran t]\<rparr>"
  shows "exec_inv x'"
proof -
  define s0 where "s0 = cx_state (ex_context x)"
  define s where "s = cx_state c"
  let ?n = "me_count s0"
  define tasks where "tasks = (if 1 < ?n then shift_down (me_tasks s0) 1 (?n - 1) else me_tasks s0)"
  from run have p: "?n \<noteq> 0" "\<not> me_running s0" "me_settling s0 = 0" "t = me_tasks s0 ! 0"
    "s = s0\<lparr>me_tasks := tasks, me_count := ?n - 1, me_running := True\<rparr>"
    by (auto simp: run_one_enter_def Let_def s0_def s_def tasks_def split: if_splits)
  from exec_invE [OF inv s0_def refl] obtain waiting where i:
    "length (me_tasks s0) = me_capacity s0" "?n \<le> me_capacity s0" "stack_shape s0 (active (ex_stack x)) waiting"
    "accepted_tasks (ex_log x) = settled_tasks (ex_log x) @ waiting"
    "mset (settled_tasks (ex_log x)) = mset (final_tasks (ex_log x)) + mset (concat (map (unfinished (me_tasks s0)) (active (ex_stack x))))"
    "me_accepted s0 = length (accepted_tasks (ex_log x)) mod (SIZE_MAX + 1)"
    "(me_completed s0 + me_cancelled s0 + length (active (ex_stack x))) mod (SIZE_MAX + 1) = length (settled_tasks (ex_log x)) mod (SIZE_MAX + 1)"
    "me_lifecycle s0 = CFLOW_EXECUTOR_CLOSED \<Longrightarrow> active (ex_stack x) = [] \<and> ?n = 0"
    by metis
  note sh = shape_open [OF i(3) disjI2, OF p(1)]
  have idle: "active (ex_stack x) = []" using sh(1) p(2) by (simp add: run_frames_def)
  have w: "waiting = t # take (?n - 1) tasks"
  proof (cases "1 < ?n")
    case True
    then show ?thesis
      using i(1,2) sh(3) p(4) by (cases "me_tasks s0") (auto simp: tasks_def take_Cons')
  next
    case False
    with p(1) have "?n = 1" by simp
    then show ?thesis using i(1,2) sh(3) p(4) by (cases "me_tasks s0") (auto simp: tasks_def)
  qed
  have ctx: "s = cx_state (ex_context x')" by (simp add: x' s_def)
  have "length tasks = me_capacity s0" using i(1,2) by (auto simp: tasks_def)
  moreover have "stack_shape s [Running q t] (take (me_count s) (me_tasks s))"
    using p(3,5) by (intro calm) (simp_all add: run_frames_def)
  then have "stack_shape s [Running q t] (take (?n - 1) tasks)" using p(5) by simp
  ultimately show ?thesis
    by (intro exec_invI [OF ctx, of "[Running q t]" "take (?n - 1) tasks"])
      (use p i w idle mod_Suc_cong [OF i(7)] in \<open>auto simp: x'\<close>)
qed

lemma ran_inv:
  assumes inv: "exec_inv x" and st: "ex_stack x = Running q t # st"
    and x': "x' = x\<lparr>ex_stack := Finalizing q t # st, ex_log := ex_log x @ [Final t]\<rparr>"
  shows "exec_inv x'"
proof -
  define s where "s = cx_state (ex_context x)"
  from exec_invE [OF inv s_def refl] obtain waiting where i:
    "length (me_tasks s) = me_capacity s" "me_count s \<le> me_capacity s" "stack_shape s (Running q t # active st) waiting"
    "accepted_tasks (ex_log x) = settled_tasks (ex_log x) @ waiting"
    "mset (settled_tasks (ex_log x)) = mset (final_tasks (ex_log x)) + mset (concat (map (unfinished (me_tasks s)) (Running q t # active st)))"
    "me_accepted s = length (accepted_tasks (ex_log x)) mod (SIZE_MAX + 1)"
    "(me_completed s + me_cancelled s + length (Running q t # active st)) mod (SIZE_MAX + 1) = length (settled_tasks (ex_log x)) mod (SIZE_MAX + 1)"
    "me_lifecycle s = CFLOW_EXECUTOR_CLOSED \<Longrightarrow> Running q t # active st = [] \<and> me_count s = 0"
    unfolding st active_simps by metis
  from i(3) have "run_frames s (Running q t # active st)" "me_settling s = 0" "waiting = take (me_count s) (me_tasks s)"
    by (cases; simp)+
  then have "stack_shape s (Finalizing q t # active st) waiting"
    using calm [of s "Finalizing q t # active st"] by (auto simp: run_frames_def split: if_splits)
  then show ?thesis
    by (intro exec_invI [of s x' "Finalizing q t # active st" waiting]) (use i in \<open>auto simp: x' s_def\<close>)
qed

lemma finalized_inv:
  assumes inv: "exec_inv x" and st: "ex_stack x = Finalizing q t # st"
    and x': "x' = x\<lparr>ex_context := run_one_leave q (ex_context x), ex_stack := st\<rparr>"
  shows "exec_inv x'"
proof -
  define s0 where "s0 = cx_state (ex_context x)"
  define s1 where "s1 = s0\<lparr>me_running := False, me_completed := size_inc (me_completed s0)\<rparr>"
  define s where "s = manual_maybe_close s1"
  from exec_invE [OF inv s0_def refl] obtain waiting where i:
    "length (me_tasks s0) = me_capacity s0" "me_count s0 \<le> me_capacity s0" "stack_shape s0 (Finalizing q t # active st) waiting"
    "accepted_tasks (ex_log x) = settled_tasks (ex_log x) @ waiting"
    "mset (settled_tasks (ex_log x)) = mset (final_tasks (ex_log x)) + mset (concat (map (unfinished (me_tasks s0)) (Finalizing q t # active st)))"
    "me_accepted s0 = length (accepted_tasks (ex_log x)) mod (SIZE_MAX + 1)"
    "(me_completed s0 + me_cancelled s0 + length (Finalizing q t # active st)) mod (SIZE_MAX + 1) = length (settled_tasks (ex_log x)) mod (SIZE_MAX + 1)"
    "me_lifecycle s0 = CFLOW_EXECUTOR_CLOSED \<Longrightarrow> Finalizing q t # active st = [] \<and> me_count s0 = 0"
    unfolding st active_simps by metis
  from i(3) have sh: "run_frames s0 (Finalizing q t # active st)" "me_settling s0 = 0" "waiting = take (me_count s0) (me_tasks s0)"
    by (cases; simp)+
  then have rest: "active st = []" by (auto simp: run_frames_def split: if_splits)
  have ctx: "s = cx_state (ex_context x')" by (simp add: x' run_one_leave_def Let_def s_def s1_def s0_def)
  have "stack_shape s [] (take (me_count s) (me_tasks s))"
    using sh(2) by (intro calm) (simp_all add: run_frames_def s_def s1_def)
  then have "stack_shape s [] waiting" by (simp add: s_def s1_def sh(3))
  moreover have "me_lifecycle s = CFLOW_EXECUTOR_CLOSED \<Longrightarrow> me_count s = 0"
    using i(8) by (auto simp: s_def s1_def manual_maybe_close_def split: if_splits)
  moreover have f: "me_tasks s = me_tasks s0" "me_capacity s = me_capacity s0" "me_count s = me_count s0"
    "me_accepted s = me_accepted s0" "me_cancelled s = me_cancelled s0"
    "me_completed s = Suc (me_completed s0) mod Suc SIZE_MAX"
    by (simp_all add: s_def s1_def size_inc_mod)
  ultimately show ?thesis
    by (intro exec_invI [OF ctx, of "[]" waiting]) (use i rest in \<open>simp_all add: x' mod_add_left_eq\<close>)
qed

text \<open>Cancelling the queue, one task after the other.\<close>

lemma cancel_begin_inv:
  assumes inv: "exec_inv x" and s1: "s1 = (cx_state (ex_context x))\<lparr>me_shutdown_policy := p, me_shutdown_policy_selected := b,
      me_lifecycle := CFLOW_EXECUTOR_CLOSING\<rparr>"
    and n: "me_count s1 \<noteq> 0" and c: "c = cancel_enter (with_state (ex_context x) s1)"
    and d: "d \<Longrightarrow> ex_stack x = []"
    and x': "x' = x\<lparr>ex_context := c, ex_stack := Cancelling q 0 (me_count s1) d # ex_stack x,
      ex_log := ex_log x @ [Cancelled (slot_task c 0)]\<rparr>"
  shows "exec_inv x'"
proof -
  define s0 where "s0 = cx_state (ex_context x)"
  define s where "s = cx_state c"
  let ?n = "me_count s0"
  have f: "me_tasks s = me_tasks s0" "me_count s = 0" "me_settling s = ?n" "me_capacity s = me_capacity s0"
    "me_accepted s = me_accepted s0" "me_completed s = me_completed s0" "me_cancelled s = me_cancelled s0"
    "me_running s = me_running s0" "me_lifecycle s = CFLOW_EXECUTOR_CLOSING" "me_count s1 = ?n"
    by (simp_all add: s_def c cancel_enter_def Let_def s1 s0_def)
  have ctx: "s = cx_state (ex_context x')" by (simp add: x' s_def)
  from exec_invE [OF inv s0_def refl] obtain waiting where i:
    "length (me_tasks s0) = me_capacity s0" "?n \<le> me_capacity s0" "stack_shape s0 (active (ex_stack x)) waiting"
    "accepted_tasks (ex_log x) = settled_tasks (ex_log x) @ waiting"
    "mset (settled_tasks (ex_log x)) = mset (final_tasks (ex_log x)) + mset (concat (map (unfinished (me_tasks s0)) (active (ex_stack x))))"
    "me_accepted s0 = length (accepted_tasks (ex_log x)) mod (SIZE_MAX + 1)"
    "(me_completed s0 + me_cancelled s0 + length (active (ex_stack x))) mod (SIZE_MAX + 1) = length (settled_tasks (ex_log x)) mod (SIZE_MAX + 1)"
    by metis
  have pos: "0 < ?n" using n f(10) by simp
  note sh = shape_open [OF i(3) disjI2, OF pos [THEN less_imp_neq, THEN not_sym]]
  have w: "waiting = me_tasks s0 ! 0 # drop 1 (take ?n (me_tasks s0))"
    using pos i(1,2) unfolding sh(3) by (cases "me_tasks s0"; cases ?n) auto
  have "stack_shape s (Cancelling q 0 ?n d # active (ex_stack x)) (drop (0 + 1) (take ?n (me_tasks s)))"
    using pos sh(1) f i(2) d by (intro cancelling) (auto simp: run_frames_def)
  then have "stack_shape s (Cancelling q 0 ?n d # active (ex_stack x)) (drop 1 (take ?n (me_tasks s0)))" using f(1) by simp
  moreover have slot: "slot_task c 0 = me_tasks s0 ! 0" using f(1) by (simp add: slot_task_def s_def)
  ultimately show ?thesis
    by (intro exec_invI [OF ctx, of "Cancelling q 0 ?n d # active (ex_stack x)" "drop 1 (take ?n (me_tasks s0))"])
      (use i w f mod_Suc_cong [OF i(7)] in \<open>simp_all add: x'\<close>)
qed

lemma cancelled_inv:
  assumes inv: "exec_inv x" and st: "ex_stack x = Cancelling q i n d # st"
    and x': "x' = x\<lparr>ex_stack := Settling q i n d # st, ex_log := ex_log x @ [Final (slot_task (ex_context x) i)]\<rparr>"
  shows "exec_inv x'"
proof -
  define s where "s = cx_state (ex_context x)"
  have ctx: "s = cx_state (ex_context x')" by (simp add: x' s_def)
  from exec_invE [OF inv s_def refl] obtain waiting where h:
    "length (me_tasks s) = me_capacity s" "me_count s \<le> me_capacity s" "stack_shape s (Cancelling q i n d # active st) waiting"
    "accepted_tasks (ex_log x) = settled_tasks (ex_log x) @ waiting"
    "mset (settled_tasks (ex_log x)) = mset (final_tasks (ex_log x)) + mset (concat (map (unfinished (me_tasks s)) (Cancelling q i n d # active st)))"
    "me_accepted s = length (accepted_tasks (ex_log x)) mod (SIZE_MAX + 1)"
    "(me_completed s + me_cancelled s + length (Cancelling q i n d # active st)) mod (SIZE_MAX + 1) = length (settled_tasks (ex_log x)) mod (SIZE_MAX + 1)"
    "me_lifecycle s = CFLOW_EXECUTOR_CLOSED \<Longrightarrow> Cancelling q i n d # active st = [] \<and> me_count s = 0"
    unfolding st active_simps by metis
  from h(3) have "stack_shape s (Settling q i n d # active st) waiting"
  proof cases
    case calm
    then show ?thesis by (simp add: run_frames_def split: if_splits)
  next
    case (cancelling j k)
    then show ?thesis
      using stack_shape.cancelling [of s "active st" "Settling q i n d" i n] by simp
  qed
  then show ?thesis
    by (intro exec_invI [OF ctx, of "Settling q i n d # active st" waiting])
      (use h in \<open>auto simp: x' slot_task_def s_def\<close>)
qed

text \<open>The state when a task has been cancelled and finalized.\<close>

lemma settling_shape:
  assumes inv: "exec_inv x" and st: "ex_stack x = Settling q i n d # st" and s0: "s0 = cx_state (ex_context x)"
  obtains "run_frames s0 (active st)" "i < n" "n \<le> me_capacity s0" "me_count s0 = 0" "me_settling s0 = n - i"
    "me_lifecycle s0 = CFLOW_EXECUTOR_CLOSING" "d \<Longrightarrow> active st = []" "length (me_tasks s0) = me_capacity s0"
    "accepted_tasks (ex_log x) = settled_tasks (ex_log x) @ drop (i + 1) (take n (me_tasks s0))"
    "mset (settled_tasks (ex_log x)) = mset (final_tasks (ex_log x)) + mset (concat (map (unfinished (me_tasks s0)) (active st)))"
    "me_accepted s0 = length (accepted_tasks (ex_log x)) mod (SIZE_MAX + 1)"
    "(me_completed s0 + me_cancelled s0 + Suc (length (active st))) mod (SIZE_MAX + 1) = length (settled_tasks (ex_log x)) mod (SIZE_MAX + 1)"
proof -
  from exec_invE [OF inv s0 refl] obtain waiting where h:
    "length (me_tasks s0) = me_capacity s0" "stack_shape s0 (Settling q i n d # active st) waiting"
    "accepted_tasks (ex_log x) = settled_tasks (ex_log x) @ waiting"
    "mset (settled_tasks (ex_log x)) = mset (final_tasks (ex_log x)) + mset (concat (map (unfinished (me_tasks s0)) (Settling q i n d # active st)))"
    "me_accepted s0 = length (accepted_tasks (ex_log x)) mod (SIZE_MAX + 1)"
    "(me_completed s0 + me_cancelled s0 + length (Settling q i n d # active st)) mod (SIZE_MAX + 1) = length (settled_tasks (ex_log x)) mod (SIZE_MAX + 1)"
    "me_lifecycle s0 = CFLOW_EXECUTOR_CLOSED \<Longrightarrow> Settling q i n d # active st = [] \<and> me_count s0 = 0"
    unfolding st active_simps by metis
  from h(2) show thesis
  proof cases
    case calm
    then show ?thesis by (simp add: run_frames_def split: if_splits)
  next
    case (cancelling j k)
    then have "me_lifecycle s0 = CFLOW_EXECUTOR_CLOSING" using h(7) by (cases "me_lifecycle s0") auto
    with cancelling h show ?thesis by (intro that) simp_all
  qed
qed

lemma next_inv:
  assumes inv: "exec_inv x" and st: "ex_stack x = Settling q i n d # st" and more: "i + 1 < n"
    and c: "c = cancel_settled (ex_context x)"
    and x': "x' = x\<lparr>ex_context := c, ex_stack := Cancelling q (i + 1) n d # st, ex_log := ex_log x @ [Cancelled (slot_task c (i + 1))]\<rparr>"
  shows "exec_inv x'"
proof -
  define s0 where "s0 = cx_state (ex_context x)"
  define s where "s = cx_state c"
  from settling_shape [OF inv st s0_def] have h: "run_frames s0 (active st)" "n \<le> me_capacity s0" "me_count s0 = 0"
    "me_settling s0 = n - i" "me_lifecycle s0 = CFLOW_EXECUTOR_CLOSING" "d \<Longrightarrow> active st = []"
    "length (me_tasks s0) = me_capacity s0"
    "accepted_tasks (ex_log x) = settled_tasks (ex_log x) @ drop (i + 1) (take n (me_tasks s0))"
    "mset (settled_tasks (ex_log x)) = mset (final_tasks (ex_log x)) + mset (concat (map (unfinished (me_tasks s0)) (active st)))"
    "me_accepted s0 = length (accepted_tasks (ex_log x)) mod (SIZE_MAX + 1)"
    "(me_completed s0 + me_cancelled s0 + Suc (length (active st))) mod (SIZE_MAX + 1) = length (settled_tasks (ex_log x)) mod (SIZE_MAX + 1)"
    by metis+
  have f: "me_tasks s = me_tasks s0" "me_count s = me_count s0" "me_settling s = n - (i + 1)" "me_capacity s = me_capacity s0"
    "me_accepted s = me_accepted s0" "me_completed s = me_completed s0" "me_cancelled s = Suc (me_cancelled s0) mod Suc SIZE_MAX"
    "me_running s = me_running s0" "me_lifecycle s = CFLOW_EXECUTOR_CLOSING"
    using h(4,5) by (simp_all add: s_def c cancel_settled_def Let_def s0_def size_inc_mod)
  have ctx: "s = cx_state (ex_context x')" by (simp add: x' s_def)
  have w: "drop (i + 1) (take n (me_tasks s0)) = me_tasks s0 ! (i + 1) # drop (i + 2) (take n (me_tasks s0))"
    using more h(2,7) Cons_nth_drop_Suc [of "i + 1" "take n (me_tasks s0)"] by simp
  have "stack_shape s (Cancelling q (i + 1) n d # active st) (drop (i + 1 + 1) (take n (me_tasks s)))"
    using more h f by (intro cancelling) (auto simp: run_frames_def)
  then have "stack_shape s (Cancelling q (i + 1) n d # active st) (drop (i + 2) (take n (me_tasks s0)))" using f(1) by simp
  moreover have "slot_task c (i + 1) = me_tasks s0 ! (i + 1)" using f(1) by (simp add: slot_task_def s_def)
  moreover have "(me_completed s + me_cancelled s + Suc (length (active st))) mod Suc SIZE_MAX =
      Suc (length (settled_tasks (ex_log x))) mod Suc SIZE_MAX"
    using counter_step(2) [OF h(11)] f(6,7) by simp
  moreover have "n - Suc i = Suc (n - Suc (Suc i))" using more by simp
  ultimately show ?thesis
    by (intro exec_invI [OF ctx, of "Cancelling q (i + 1) n d # active st" "drop (i + 2) (take n (me_tasks s0))"])
      (use h w f in \<open>simp_all add: x'\<close>)
qed

lemma last_inv:
  assumes inv: "exec_inv x" and st: "ex_stack x = Settling q i n d # st" and last: "\<not> i + 1 < n"
    and x': "x' = x\<lparr>ex_context := cancel_leave d q (cancel_settled (ex_context x)), ex_stack := st, ex_alive := a\<rparr>"
  shows "exec_inv x'"
proof -
  define s0 where "s0 = cx_state (ex_context x)"
  define s where "s = cx_state (ex_context x')"
  from settling_shape [OF inv st s0_def] have h: "run_frames s0 (active st)" "n \<le> me_capacity s0" "me_count s0 = 0"
    "me_settling s0 = n - i" "me_lifecycle s0 = CFLOW_EXECUTOR_CLOSING" "d \<Longrightarrow> active st = []"
    "length (me_tasks s0) = me_capacity s0"
    "accepted_tasks (ex_log x) = settled_tasks (ex_log x) @ drop (i + 1) (take n (me_tasks s0))"
    "mset (settled_tasks (ex_log x)) = mset (final_tasks (ex_log x)) + mset (concat (map (unfinished (me_tasks s0)) (active st)))"
    "me_accepted s0 = length (accepted_tasks (ex_log x)) mod (SIZE_MAX + 1)"
    "(me_completed s0 + me_cancelled s0 + Suc (length (active st))) mod (SIZE_MAX + 1) = length (settled_tasks (ex_log x)) mod (SIZE_MAX + 1)"
    "i < n"
    by metis+
  have n: "n = i + 1" using last h(12) by simp
  have f: "me_tasks s = me_tasks s0" "me_count s = 0" "me_settling s = 0" "me_capacity s = me_capacity s0"
    "me_accepted s = me_accepted s0" "me_completed s = me_completed s0" "me_cancelled s = Suc (me_cancelled s0) mod Suc SIZE_MAX"
    "me_running s = me_running s0"
    using h(3,4) n
    by (simp_all add: s_def x' cancel_leave_def cancel_settled_def close_context_def with_state_def Let_def s0_def size_inc_mod)
  have closed: "active st = []" if "me_lifecycle s = CFLOW_EXECUTOR_CLOSED"
  proof (cases d)
    case False
    then have "\<not> me_running s0"
      using that h(5)
      by (auto simp: s_def x' cancel_leave_def cancel_settled_def close_context_def Let_def s0_def manual_maybe_close_def
          split: if_splits)
    then show ?thesis using h(1) by (simp add: run_frames_def)
  qed (rule h(6))
  have "stack_shape s (active st) (take (me_count s) (me_tasks s))"
    using h(1) f by (intro calm) (simp_all add: run_frames_def)
  then have "stack_shape s (active st) []" using f(2) by simp
  moreover have "drop (i + 1) (take n (me_tasks s0)) = []" using n by simp
  moreover have "(me_completed s + me_cancelled s + length (active st)) mod Suc SIZE_MAX =
      length (settled_tasks (ex_log x)) mod Suc SIZE_MAX"
    using counter_step(1) [OF h(11)] f(6,7) by simp
  ultimately show ?thesis
    by (intro exec_invI [OF s_def refl, of "[]"]) (use h f closed in \<open>auto simp: x'\<close>)
qed

lemma step_inv:
  assumes "exec_step x x'" "exec_inv x"
  shows "exec_inv x'"
  using assms
proof (cases rule: exec_step.cases)
  case (x_post t r s)
  then show ?thesis using post_inv [OF assms(2)] by blast
next
  case (x_control_post t r' s)
  then show ?thesis using control_post_inv [OF assms(2)] by blast
next
  case (x_wait w s)
  then have "s = manual_maybe_close (cx_state (ex_context x)) \<or>
      (\<exists>n. s = (cx_state (ex_context x))\<lparr>me_rejected_would_block := n\<rparr>)"
    by (auto simp: manual_control_wait_idle_def Let_def split: if_splits)
  then show ?thesis using x_wait(1)
    by (intro exec_inv_quiet [OF assms(2)]) (auto simp: manual_maybe_close_def split: if_splits)
next
  case (x_stats st s)
  then show ?thesis
    by (intro exec_inv_quiet [OF assms(2)]) (auto simp: manual_control_get_stats_def manual_maybe_close_def Let_def split: if_splits)
next
  case (x_run t c)
  then show ?thesis using exec_inv_cong [OF run_inv [OF assms(2) x_run(3) refl]] by simp
next
  case (x_ran p t st)
  then show ?thesis using exec_inv_cong [where c = "ex_context x"] ran_inv [OF assms(2) x_ran(2) refl] by simp
next
  case (x_finalized p t st)
  then show ?thesis using finalized_inv [OF assms(2)] by blast
next
  case (x_shutdown policy cancel s)
  then have "s = cx_state (ex_context x) \<or>
      s = (cx_state (ex_context x))\<lparr>me_shutdown_policy := policy, me_shutdown_policy_selected := True,
        me_lifecycle := CFLOW_EXECUTOR_CLOSING\<rparr>"
    by (auto simp: shutdown_enter_def split: if_splits)
  then show ?thesis using x_shutdown(1)
    by (intro exec_inv_quiet [OF assms(2)]) (auto simp: close_context_def manual_maybe_close_def split: if_splits)
next
  case (x_shutdown_cancel policy s c)
  then have "s = (cx_state (ex_context x))\<lparr>me_shutdown_policy := policy, me_shutdown_policy_selected := True,
      me_lifecycle := CFLOW_EXECUTOR_CLOSING\<rparr>"
    by (auto simp: shutdown_enter_def split: if_splits)
  from cancel_begin_inv [OF assms(2) this x_shutdown_cancel(4,5), of False] x_shutdown_cancel(1) show ?thesis
    using exec_inv_cong [where c = c] by simp
next
  case (x_cancelled p i n d st)
  then show ?thesis using exec_inv_cong [where c = "ex_context x"] cancelled_inv [OF assms(2) x_cancelled(2) refl] by simp
next
  case (x_next p i n d st c)
  then show ?thesis using exec_inv_cong [OF next_inv [OF assms(2) x_next(2-4) refl]] by simp
next
  case (x_last p i n d st)
  then show ?thesis using last_inv [OF assms(2)] by blast
next
  case x_elsewhere
  then show ?thesis by (intro exec_inv_quiet [OF assms(2)]) auto
next
  case (x_back p st)
  then show ?thesis by (intro exec_inv_quiet [OF assms(2)]) auto
next
  case (x_destroy s)
  define s0 where "s0 = cx_state (ex_context x)"
  have "active (ex_stack x) = []" using x_destroy by simp
  with exec_invE [OF assms(2) s0_def refl] obtain waiting where "stack_shape s0 [] waiting" by metis
  then have "me_settling s0 = 0 \<and> \<not> me_running s0" by cases (auto simp: run_frames_def split: if_splits)
  then show ?thesis using x_destroy
    by (intro exec_inv_quiet [OF assms(2)]) (auto simp: s0_def)
next
  case (x_destroy_cancel s c)
  let ?s = "cx_state (ex_context x)"
  have "s = ?s\<lparr>me_shutdown_policy := me_shutdown_policy ?s, me_shutdown_policy_selected := me_shutdown_policy_selected ?s,
      me_lifecycle := CFLOW_EXECUTOR_CLOSING\<rparr>" using x_destroy_cancel by simp
  from cancel_begin_inv [OF assms(2) this x_destroy_cancel(5,6), of True] x_destroy_cancel(1,3) show ?thesis
    using exec_inv_cong [where c = c] by simp
qed

section \<open>Reachable systems\<close>

definition exec_start :: "cflow_manual_executor_state \<Rightarrow> exec_system" where
  "exec_start s = \<lparr>ex_context = \<lparr>cx_state = s, cx_current = False, cx_calls = []\<rparr>, ex_stack = [], ex_log = [], ex_alive = True\<rparr>"

lemma start_inv:
  assumes "cflow_executor_manual_init_with_capacity (Some NULL) capacity e = (True, Some (Some s), e')"
  shows "exec_inv (exec_start s)"
proof -
  from assms have s: "me_tasks s = replicate capacity zero_executor_task" "me_count s = 0" "me_settling s = 0"
    "me_capacity s = capacity" "me_accepted s = 0" "me_completed s = 0" "me_cancelled s = 0" "\<not> me_running s"
    "me_lifecycle s = CFLOW_EXECUTOR_OPEN"
    by (auto simp: cflow_executor_manual_init_with_capacity_def split: if_splits prod.splits option.splits)
  have "stack_shape s [] (take (me_count s) (me_tasks s))" using s by (intro calm) (simp_all add: run_frames_def)
  then show ?thesis
    by (intro exec_invI [of s "exec_start s" "[]" "[]"]) (use s in \<open>simp_all add: exec_start_def\<close>)
qed

lemma reach_inv:
  assumes "exec_step\<^sup>*\<^sup>* x x'" "exec_inv x"
  shows "exec_inv x'"
  using assms by (induction rule: rtranclp_induct) (auto dest: step_inv)

lemma closed_stays:
  assumes "exec_inv x" "me_lifecycle (cx_state (ex_context x)) = CFLOW_EXECUTOR_CLOSED" "exec_step x x'"
  shows "ex_log x' = ex_log x \<and> me_lifecycle (cx_state (ex_context x')) = CFLOW_EXECUTOR_CLOSED"
proof -
  define s where "s = cx_state (ex_context x)"
  from exec_invE [OF assms(1) s_def refl] assms(2) have i: "active (ex_stack x) = []" "me_count s = 0"
    unfolding s_def by metis+
  obtain waiting where "stack_shape s [] waiting" using exec_invE [OF assms(1) s_def refl] i(1) by metis
  then have idle: "me_settling s = 0" "\<not> me_running s" by (cases; simp add: run_frames_def split: if_splits)+
  from assms(3) show ?thesis
    by (cases rule: exec_step.cases)
      (use i idle assms(2) in \<open>auto simp: s_def manual_try_post_task_state_def manual_control_post_task_state_def
        manual_control_wait_idle_def manual_control_get_stats_def run_one_enter_def shutdown_enter_def close_context_def
        manual_maybe_close_def Let_def split: if_splits\<close>)
qed

section \<open>The functions are executions\<close>

text \<open>The callbacks that the events of a log stand for.\<close>

definition call_of :: "task_fn ptr \<Rightarrow> user_ptr \<Rightarrow> (task_fn \<times> user_ptr) list" where
  "call_of fn user = (case fn of None \<Rightarrow> [] | Some f \<Rightarrow> [(f, user)])"

fun calls_of :: "exec_event \<Rightarrow> (task_fn \<times> user_ptr) list" where
  "calls_of (Accepted t) = []"
| "calls_of (Ran t) = call_of (et_run t) (et_user t)"
| "calls_of (Cancelled t) = call_of (et_cancel t) (et_user t)"
| "calls_of (Final t) = call_of (et_finalize t) (et_user t)"

definition calls_made :: "exec_event list \<Rightarrow> (task_fn \<times> user_ptr) list" where
  "calls_made log = concat (map calls_of log)"

lemma calls_made_simps [simp]:
  "calls_made [] = []" "calls_made (e # log) = calls_of e @ calls_made log" "calls_made (log @ log') = calls_made log @ calls_made log'"
  by (simp_all add: calls_made_def)

lemma step_calls:
  "exec_step x x' \<Longrightarrow> \<exists>new. ex_log x' = ex_log x @ new \<and> cx_calls (ex_context x') = cx_calls (ex_context x) @ calls_made new"
  by (cases rule: exec_step.cases)
    (auto simp: with_state_def run_one_enter_def run_one_leave_def cancel_enter_def cancel_settled_def cancel_leave_def close_context_def
      call_of_def Let_def split: if_splits)

lemma steps_calls:
  assumes "exec_step\<^sup>*\<^sup>* x x'"
  shows "\<exists>new. ex_log x' = ex_log x @ new \<and> cx_calls (ex_context x') = cx_calls (ex_context x) @ calls_made new"
  using assms
proof (induction rule: rtranclp_induct)
  case (step y z)
  then show ?case using step_calls [OF step.hyps(2)] by auto
qed simp

text \<open>From context \<open>c\<close> and stack \<open>st\<close>, whatever has happened before, the executor can get to context
  \<open>c'\<close> and stack \<open>st'\<close> with the events \<open>log\<close>.\<close>

definition exec_at :: "executor_context \<Rightarrow> activation list \<Rightarrow> exec_event list \<Rightarrow> exec_system" where
  "exec_at c st log = \<lparr>ex_context = c, ex_stack = st, ex_log = log, ex_alive = True\<rparr>"

definition leads ::
  "executor_context \<Rightarrow> activation list \<Rightarrow> exec_event list \<Rightarrow> executor_context \<Rightarrow> activation list \<Rightarrow> bool" where
  "leads c st log c' st' \<longleftrightarrow> (\<forall>before. exec_step\<^sup>*\<^sup>* (exec_at c st before) (exec_at c' st' (before @ log)))"

text \<open>Callbacks that use the executor only through its interface, and do not destroy it.\<close>

definition reentrant :: "(task_fn \<Rightarrow> user_ptr \<Rightarrow> executor_context \<Rightarrow> executor_context) \<Rightarrow> bool" where
  "reentrant call \<longleftrightarrow> (\<forall>f u c st. \<exists>log. leads c st log (call f u c) st)"

lemma leads_calls: "leads c st log c' st' \<Longrightarrow> cx_calls c' = cx_calls c @ calls_made log"
  using steps_calls [of "exec_at c st []" "exec_at c' st' log"] by (auto simp: leads_def exec_at_def dest: spec [of _ "[]"])

lemma leads_refl: "leads c st [] c st"
  by (simp add: leads_def)

lemma leads_trans: "leads c st log c' st' \<Longrightarrow> leads c' st' log' c'' st'' \<Longrightarrow> leads c st (log @ log') c'' st''"
  unfolding leads_def by (metis append_assoc rtranclp_trans)

lemma leads_step: "(\<And>before. exec_step (exec_at c st before) (exec_at c' st' (before @ log))) \<Longrightarrow> leads c st log c' st'"
  unfolding leads_def by blast

lemma leads_invoke: "reentrant call \<Longrightarrow> \<exists>log. leads (note_call f u c) st log (invoke call f u c) st"
  by (cases f) (auto simp: invoke_def note_call_def reentrant_def intro: leads_refl)

lemma leads_callback: "reentrant call \<Longrightarrow> \<exists>log. leads (calling w t c) st log (invoke call (w t) (et_user t) c) st"
  unfolding calling_def by (rule leads_invoke)

lemma leads_enter:
  "run_one_enter c = Some (t, c1) \<Longrightarrow> leads c st [Ran t] (calling et_run t c1) (Running (cx_current c) t # st)"
  by (rule leads_step) (use x_run [of "exec_at c st log" for log] in \<open>simp add: exec_at_def\<close>)

lemma leads_ran: "leads c (Running p t # st) [Final t] (calling et_finalize t c) (Finalizing p t # st)"
  by (rule leads_step) (use x_ran [of "exec_at c (Running p t # st) log" for log] in \<open>simp add: exec_at_def\<close>)

lemma leads_finalized: "leads c (Finalizing p t # st) [] (run_one_leave p c) st"
  by (rule leads_step) (use x_finalized [of "exec_at c (Finalizing p t # st) log" for log] in \<open>simp add: exec_at_def\<close>)

lemma leads_cancelled:
  "leads c (Cancelling p i n d # st) [Final (slot_task c i)] (calling et_finalize (slot_task c i) c) (Settling p i n d # st)"
  by (rule leads_step) (use x_cancelled [of "exec_at c (Cancelling p i n d # st) log" for log] in \<open>simp add: exec_at_def\<close>)

lemma leads_next:
  "i + 1 < n \<Longrightarrow> c' = cancel_settled c \<Longrightarrow>
   leads c (Settling p i n d # st) [Cancelled (slot_task c' (i + 1))] (calling et_cancel (slot_task c' (i + 1)) c') (Cancelling p (i + 1) n d # st)"
  by (rule leads_step) (use x_next [of "exec_at c (Settling p i n d # st) log" for log] in \<open>simp add: exec_at_def\<close>)

lemma leads_last:
  "\<not> i + 1 < n \<Longrightarrow> leads c (Settling p i n False # st) [] (cancel_leave False p (cancel_settled c)) st"
  by (rule leads_step) (use x_last [of "exec_at c (Settling p i n False # st) log" for log] in \<open>simp add: exec_at_def\<close>)

lemma leads_shutdown:
  "shutdown_enter policy (cx_state c) = Some (cancel, s) \<Longrightarrow> \<not> cancel \<or> me_count s = 0 \<Longrightarrow>
   leads c st [] (close_context (with_state c s)) st"
  by (rule leads_step) (use x_shutdown [of "exec_at c st log" for log] in \<open>simp add: exec_at_def\<close>)

lemma leads_shutdown_cancel:
  "shutdown_enter policy (cx_state c) = Some (True, s) \<Longrightarrow> me_count s \<noteq> 0 \<Longrightarrow> c' = cancel_enter (with_state c s) \<Longrightarrow>
   leads c st [Cancelled (slot_task c' 0)] (calling et_cancel (slot_task c' 0) c') (Cancelling (cx_current c) 0 (me_count s) False # st)"
  by (rule leads_step) (use x_shutdown_cancel [of "exec_at c st log" for log] in \<open>simp add: exec_at_def\<close>)

text \<open>One task: its \<open>run\<close>, whatever that does, its \<open>finalize\<close>, whatever that does.\<close>

lemma leads_run_one:
  assumes "reentrant call"
  shows "\<exists>b c' log. manual_run_one call (Some c) = (b, Some c') \<and> leads c st log c' st \<and>
    (case run_one_enter c of None \<Rightarrow> \<not> b \<and> c' = c \<and> log = []
     | Some (t, c1) \<Rightarrow> b \<and> (\<exists>during after. log = Ran t # during @ Final t # after))"
proof (cases "run_one_enter c")
  case None
  then show ?thesis using leads_refl [of c st] by (auto simp: manual_run_one_def)
next
  case (Some tc)
  then obtain t c1 where enter: "run_one_enter c = Some (t, c1)" by (cases tc) auto
  define c2 where "c2 = invoke call (et_run t) (et_user t) c1"
  define c3 where "c3 = invoke call (et_finalize t) (et_user t) c2"
  obtain l1 where l1: "leads (calling et_run t c1) (Running (cx_current c) t # st) l1 c2 (Running (cx_current c) t # st)"
    unfolding c2_def using leads_callback [OF assms, of et_run t c1] by blast
  obtain l2 where l2: "leads (calling et_finalize t c2) (Finalizing (cx_current c) t # st) l2 c3 (Finalizing (cx_current c) t # st)"
    unfolding c3_def using leads_callback [OF assms, of et_finalize t c2] by blast
  have "leads c st ([Ran t] @ l1 @ [Final t] @ l2 @ []) (run_one_leave (cx_current c) c3) st"
    by (intro leads_trans [OF leads_enter [OF enter]] leads_trans [OF l1] leads_trans [OF leads_ran] leads_trans [OF l2] leads_finalized)
  then show ?thesis using enter by (force simp: manual_run_one_def c2_def c3_def Let_def)
qed

lemma leads_cancel_loop:
  assumes "reentrant call"
  shows "i < n \<Longrightarrow> \<exists>log. leads (calling et_cancel (slot_task c i) c) (Cancelling p i n False # st) log (cancel_leave False p (cancel_loop call i n c)) st"
proof (induction "n - i" arbitrary: i c)
  case (Suc k)
  define c1 where "c1 = invoke call (et_cancel (slot_task c i)) (et_user (slot_task c i)) c"
  define c2 where "c2 = invoke call (et_finalize (slot_task c1 i)) (et_user (slot_task c1 i)) c1"
  have loop: "cancel_loop call i n c = cancel_loop call (i + 1) n (cancel_settled c2)"
    using Suc.prems by (subst cancel_loop.simps) (simp add: c1_def c2_def slot_task_def Let_def)
  obtain l1 where l1: "leads (calling et_cancel (slot_task c i) c) (Cancelling p i n False # st) l1 c1 (Cancelling p i n False # st)"
    unfolding c1_def using leads_callback [OF assms, of et_cancel] by blast
  obtain l2 where l2: "leads (calling et_finalize (slot_task c1 i) c1) (Settling p i n False # st) l2 c2 (Settling p i n False # st)"
    unfolding c2_def using leads_callback [OF assms, of et_finalize] by blast
  note settling = leads_trans [OF l1 leads_trans [OF leads_cancelled l2]]
  show ?case
  proof (cases "i + 1 < n")
    case True
    have "k = n - (i + 1)" using Suc.hyps(2) by simp
    from Suc.hyps(1) [OF this True] obtain l3 where
      l3: "leads (calling et_cancel (slot_task (cancel_settled c2) (i + 1)) (cancel_settled c2)) (Cancelling p (i + 1) n False # st) l3
        (cancel_leave False p (cancel_loop call (i + 1) n (cancel_settled c2))) st" by blast
    show ?thesis unfolding loop using leads_trans [OF settling leads_trans [OF leads_next [OF True refl] l3]] by blast
  next
    case False
    then have "cancel_loop call (i + 1) n (cancel_settled c2) = cancel_settled c2" by (subst cancel_loop.simps) simp
    then show ?thesis unfolding loop using leads_trans [OF settling leads_last [OF False]] by auto
  qed
qed simp

text \<open>A shutdown that cancels starts with the first queued task; any other makes no call.\<close>

lemma leads_control_shutdown:
  assumes "reentrant call"
  shows "\<exists>b c' log. manual_control_shutdown call (Some policy) (Some c) = (b, Some c') \<and> leads c st log c' st \<and>
    (case shutdown_enter policy (cx_state c) of
       None \<Rightarrow> \<not> b \<and> log = []
     | Some (cancel, s) \<Rightarrow> b \<and>
         (if cancel \<and> me_count s \<noteq> 0 then
            let c1 = cancel_enter (with_state c s); t = slot_task c1 0 in
            \<exists>log'. log = Cancelled t # log' \<and> leads (calling et_cancel t c1) (Cancelling (cx_current c) 0 (me_count s) False # st) log' c' st
          else log = []))"
proof (cases "shutdown_enter policy (cx_state c)")
  case None
  then show ?thesis using leads_refl [of c st] by (auto simp: manual_control_shutdown_def)
next
  case (Some cs)
  then obtain cancel s where enter: "shutdown_enter policy (cx_state c) = Some (cancel, s)" by (cases cs) auto
  show ?thesis
  proof (cases "cancel \<and> me_count s \<noteq> 0")
    case True
    define c1 where "c1 = cancel_enter (with_state c s)"
    define c' where "c' = cancel_leave False (cx_current c) (cancel_loop call 0 (me_count s) c1)"
    have run: "manual_control_shutdown call (Some policy) (Some c) = (True, Some c')"
      using enter True by (simp add: manual_control_shutdown_def manual_cancel_pending_def cancel_leave_def with_state_def Let_def c1_def c'_def)
    have first: "leads c st [Cancelled (slot_task c1 0)] (calling et_cancel (slot_task c1 0) c1) (Cancelling (cx_current c) 0 (me_count s) False # st)"
      using True enter by (intro leads_shutdown_cancel) (auto simp: c1_def)
    obtain log' where rest: "leads (calling et_cancel (slot_task c1 0) c1) (Cancelling (cx_current c) 0 (me_count s) False # st) log' c' st"
      using leads_cancel_loop [OF assms, of 0 "me_count s" c1] True unfolding c'_def by blast
    have "leads c st (Cancelled (slot_task c1 0) # log') c' st" using leads_trans [OF first rest] by simp
    then show ?thesis using run rest enter True by (auto simp: c1_def Let_def)
  next
    case False
    then have "manual_control_shutdown call (Some policy) (Some c) = (True, Some (close_context (with_state c s)))"
      using enter by (auto simp: manual_control_shutdown_def manual_cancel_pending_def with_state_def Let_def)
    then show ?thesis using leads_shutdown [OF enter] False enter by auto
  qed
qed

text \<open>Callbacks that do not leave more tasks queued than they find.\<close>

definition frugal :: "(task_fn \<Rightarrow> user_ptr \<Rightarrow> executor_context \<Rightarrow> executor_context) \<Rightarrow> bool" where
  "frugal call \<longleftrightarrow> (\<forall>f u c. me_count (cx_state (call f u c)) \<le> me_count (cx_state c))"

lemma invoke_frugal: "frugal call \<Longrightarrow> me_count (cx_state (invoke call f u c)) \<le> me_count (cx_state c)"
proof (cases f)
  case (Some g)
  assume "frugal call"
  then have "me_count (cx_state (call g u (note_call f u c))) \<le> me_count (cx_state (note_call f u c))" by (simp add: frugal_def del: note_call_simps)
  then show ?thesis using Some by (simp add: invoke_def)
qed (simp add: invoke_def)

lemma run_one_count:
  assumes "frugal call" and "manual_run_one call (Some c) = (True, Some c')"
  shows "me_count (cx_state c') < me_count (cx_state c)"
proof -
  from assms(2) obtain t c1 where enter: "run_one_enter c = Some (t, c1)"
    and c': "c' = run_one_leave (cx_current c)
      (invoke call (et_finalize t) (et_user t) (invoke call (et_run t) (et_user t) c1))"
    by (auto simp: manual_run_one_def Let_def split: option.splits prod.splits)
  from enter have "me_count (cx_state c1) < me_count (cx_state c)"
    by (auto simp: run_one_enter_def Let_def split: if_splits)
  then show ?thesis
    using invoke_frugal [OF assms(1), of "et_run t" "et_user t" c1]
      invoke_frugal [OF assms(1), of "et_finalize t" "et_user t" "invoke call (et_run t) (et_user t) c1"]
    by (simp add: c' run_one_leave_def Let_def)
qed

lemma run_ready_returns:
  assumes "frugal call" and "reentrant call"
  shows "\<exists>m c' log. manual_run_ready call n (Some c) = Some (m, Some c') \<and> leads c st log c' st \<and> run_one_enter c' = None \<and>
    (n + me_count (cx_state c) \<le> SIZE_MAX \<longrightarrow> n \<le> m \<and> m + me_count (cx_state c') \<le> n + me_count (cx_state c))"
proof (induction "me_count (cx_state c)" arbitrary: n c rule: less_induct)
  case less
  obtain b c1 l1 where one: "manual_run_one call (Some c) = (b, Some c1)" and step: "leads c st l1 c1 st"
    using leads_run_one [OF assms(2), of c st] by blast
  show ?case
  proof (cases b)
    case True
    have fewer: "me_count (cx_state c1) < me_count (cx_state c)"
      using run_one_count [OF assms(1)] one True by simp
    from less [OF fewer, of "size_add n 1"] obtain m c' l2 where
      ready: "manual_run_ready call (size_add n 1) (Some c1) = Some (m, Some c')" "leads c1 st l2 c' st" "run_one_enter c' = None"
        "size_add n 1 + me_count (cx_state c1) \<le> SIZE_MAX \<Longrightarrow>
           size_add n 1 \<le> m \<and> m + me_count (cx_state c') \<le> size_add n 1 + me_count (cx_state c1)"
      by blast
    have "n \<le> m \<and> m + me_count (cx_state c') \<le> n + me_count (cx_state c)"
      if le: "n + me_count (cx_state c) \<le> SIZE_MAX"
    proof -
      have "size_add n 1 = n + 1" using fewer le by (simp add: size_add_def)
      then show ?thesis using ready(4) fewer le by (auto simp del: One_nat_def)
    qed
    moreover have "manual_run_ready call n (Some c) = Some (m, Some c')"
      using ready(1) one True by (subst manual_run_ready.simps) (simp add: Let_def)
    ultimately show ?thesis using ready(3) leads_trans [OF step ready(2)] by blast
  next
    case False
    then have "run_one_enter c = None" "c1 = c"
      using one by (auto simp: manual_run_one_def Let_def split: option.splits)
    moreover have "manual_run_ready call n (Some c) = Some (n, Some c)"
      using one False \<open>c1 = c\<close> by (subst manual_run_ready.simps) (simp add: Let_def)
    ultimately show ?thesis using leads_refl [of c st] by auto
  qed
qed

section \<open>What a call settles\<close>

text \<open>The tasks waiting before a call and those accepted during it are settled in this order, up to
  the ones still waiting afterwards.\<close>

lemma leads_conserves:
  assumes "exec_inv (exec_at c st before)" and "leads c st log c' st" and "s = cx_state c" and "s' = cx_state c'"
  shows "\<exists>w w'. stack_shape s (active st) w \<and> stack_shape s' (active st) w' \<and> w @ accepted_tasks log = settled_tasks log @ w' \<and>
    mset (settled_tasks log) + mset (concat (map (unfinished (me_tasks s)) (active st))) =
      mset (final_tasks log) + mset (concat (map (unfinished (me_tasks s')) (active st)))"
proof -
  let ?x = "exec_at c st before" and ?x' = "exec_at c' st (before @ log)"
  have inv': "exec_inv ?x'" using reach_inv [OF _ assms(1)] assms(2) by (auto simp: leads_def)
  have x: "s = cx_state (ex_context ?x)" "s' = cx_state (ex_context ?x')" "active st = active (ex_stack ?x)" "active st = active (ex_stack ?x')"
    using assms(3,4) by (simp_all add: exec_at_def)
  obtain w where w: "stack_shape s (active st) w" "accepted_tasks before = settled_tasks before @ w"
    "mset (settled_tasks before) = mset (final_tasks before) + mset (concat (map (unfinished (me_tasks s)) (active st)))"
    using exec_invE [OF assms(1) x(1,3)] by (simp add: exec_at_def) metis
  obtain w' where w': "stack_shape s' (active st) w'" "accepted_tasks (before @ log) = settled_tasks (before @ log) @ w'"
    "mset (settled_tasks (before @ log)) = mset (final_tasks (before @ log)) + mset (concat (map (unfinished (me_tasks s')) (active st)))"
    using exec_invE [OF inv' x(2,4)] by (simp add: exec_at_def) metis
  have "w @ accepted_tasks log = settled_tasks log @ w'" using w(2) w'(2) by simp
  moreover have "mset (settled_tasks log) + mset (concat (map (unfinished (me_tasks s)) (active st))) =
      mset (final_tasks log) + mset (concat (map (unfinished (me_tasks s')) (active st)))"
    using w(3) w'(3) by (simp add: add.commute)
  ultimately show ?thesis using w(1) w'(1) by blast
qed

text \<open>An executor that is shutting down accepts nothing.\<close>

lemma closing_step:
  assumes "exec_step x x'" and "me_lifecycle (cx_state (ex_context x)) \<noteq> CFLOW_EXECUTOR_OPEN"
  shows "me_lifecycle (cx_state (ex_context x')) \<noteq> CFLOW_EXECUTOR_OPEN \<and>
    me_count (cx_state (ex_context x')) \<le> me_count (cx_state (ex_context x)) \<and> accepted_tasks (ex_log x') = accepted_tasks (ex_log x)"
  using assms
  by (cases rule: exec_step.cases)
    (auto simp: manual_try_post_task_state_def manual_control_post_task_state_def manual_control_wait_idle_def manual_control_get_stats_def
      run_one_enter_def run_one_leave_def shutdown_enter_def close_context_def cancel_enter_def cancel_settled_def cancel_leave_def
      Let_def split: if_splits)

lemma closing_steps:
  assumes "exec_step\<^sup>*\<^sup>* x x'" and "me_lifecycle (cx_state (ex_context x)) \<noteq> CFLOW_EXECUTOR_OPEN"
  shows "me_lifecycle (cx_state (ex_context x')) \<noteq> CFLOW_EXECUTOR_OPEN \<and>
    me_count (cx_state (ex_context x')) \<le> me_count (cx_state (ex_context x)) \<and> accepted_tasks (ex_log x') = accepted_tasks (ex_log x)"
  using assms
proof (induction rule: rtranclp_induct)
  case (step y z)
  then show ?case using closing_step [OF step.hyps(2)] by fastforce
qed simp

lemma calm_shape: "run_frames s fs \<Longrightarrow> stack_shape s' fs w \<Longrightarrow> w = take (me_count s') (me_tasks s')"
  by (erule stack_shape.cases) (auto simp: run_frames_def split: if_splits elim!: is_run.elims)

lemma cancel_settles:
  assumes "exec_inv (exec_at c st before)" and "me_count (cx_state c) \<noteq> 0" and "leads c st (e # log') c' st" and "accepted_of e = []"
    and "leads c1 st1 log' c' st" and "me_count (cx_state c1) = 0" and "me_lifecycle (cx_state c1) \<noteq> CFLOW_EXECUTOR_OPEN"
  shows "settled_tasks (e # log') = take (me_count (cx_state c)) (me_tasks (cx_state c)) \<and> mset (final_tasks (e # log')) = mset (settled_tasks (e # log'))"
proof -
  let ?s = "cx_state c" and ?s' = "cx_state c'"
  have "exec_step\<^sup>*\<^sup>* (exec_at c1 st1 []) (exec_at c' st log')" using assms(5) by (auto simp: leads_def dest: spec [of _ "[]"])
  from closing_steps [OF this] have z: "me_count ?s' = 0" "accepted_tasks log' = []" using assms(6,7) by (simp_all add: exec_at_def)
  then have acc: "accepted_tasks (e # log') = []" using assms(4) by (simp add: accepted_tasks_def)
  obtain w w' where w: "stack_shape ?s (active st) w" "stack_shape ?s' (active st) w'" "w @ accepted_tasks (e # log') = settled_tasks (e # log') @ w'"
    "mset (settled_tasks (e # log')) + mset (concat (map (unfinished (me_tasks ?s)) (active st))) =
      mset (final_tasks (e # log')) + mset (concat (map (unfinished (me_tasks ?s')) (active st)))"
    using leads_conserves [OF assms(1,3) refl refl] by blast
  note sh = shape_open [OF w(1) disjI2 [OF assms(2)]]
  have "w' = []" using calm_shape [OF sh(1) w(2)] z(1) by simp
  then show ?thesis
    using w(3,4) acc sh(3) unfinished_runs [OF sh(1), of "me_tasks ?s" "me_tasks ?s'"] by simp
qed

section \<open>Properties\<close>

text \<open>C5: The manual executor settles every accepted task exactly once, in order of acceptance, however
  its callbacks re-enter it. In every reachable state the tasks run or cancelled so far are the
  accepted ones without those still waiting, in the same order; every one of them has been
  finalized once, except those whose callback is still on the stack. When \<open>wait_idle\<close> answers
  idle nothing is waiting, everything has been finalized, and the statistics satisfy
  accepted = completed + cancelled (modulo the width of the counters). A closed executor calls
  nothing any more and stays closed. The callbacks called so far, with their arguments, are
  those that the events of the execution stand for, in the same order.\<close>

theorem executor_settles_once:
  assumes "cflow_executor_manual_init_with_capacity (Some NULL) capacity e = (True, Some (Some s0), e')"
    and "exec_step\<^sup>*\<^sup>* (exec_start s0) x" and "s = cx_state (ex_context x)"
  shows "\<exists>waiting. accepted_tasks (ex_log x) = settled_tasks (ex_log x) @ waiting \<and>
    mset (settled_tasks (ex_log x)) =
      mset (final_tasks (ex_log x)) + mset (concat (map (unfinished (me_tasks s)) (ex_stack x))) \<and>
    (fst (manual_control_wait_idle (cx_current (ex_context x)) (Some s)) = CFLOW_EXECUTOR_WAIT_IDLE \<longrightarrow>
       waiting = [] \<and> mset (final_tasks (ex_log x)) = mset (accepted_tasks (ex_log x)) \<and>
       me_accepted s = (me_completed s + me_cancelled s) mod (SIZE_MAX + 1)) \<and>
    (me_lifecycle s = CFLOW_EXECUTOR_CLOSED \<longrightarrow>
       waiting = [] \<and> (\<forall>x'. exec_step\<^sup>*\<^sup>* x x' \<longrightarrow> ex_log x' = ex_log x)) \<and>
    cx_calls (ex_context x) = calls_made (ex_log x)"
proof -
  have "cx_calls (ex_context x) = calls_made (ex_log x)" using steps_calls [OF assms(2)] by (auto simp: exec_start_def)
  moreover have inv: "exec_inv x" using reach_inv [OF assms(2) start_inv [OF assms(1)]] .
  from exec_invE [OF inv assms(3) refl] obtain waiting where i: "stack_shape s (active (ex_stack x)) waiting"
    "accepted_tasks (ex_log x) = settled_tasks (ex_log x) @ waiting"
    "mset (settled_tasks (ex_log x)) = mset (final_tasks (ex_log x)) + mset (concat (map (unfinished (me_tasks s)) (active (ex_stack x))))"
    "me_accepted s = length (accepted_tasks (ex_log x)) mod (SIZE_MAX + 1)"
    "(me_completed s + me_cancelled s + length (active (ex_stack x))) mod (SIZE_MAX + 1) = length (settled_tasks (ex_log x)) mod (SIZE_MAX + 1)"
    "me_lifecycle s = CFLOW_EXECUTOR_CLOSED \<Longrightarrow> active (ex_stack x) = [] \<and> me_count s = 0"
    by metis
  have idle: "waiting = [] \<and> active (ex_stack x) = []"
    if "me_count s = 0" "me_settling s = 0" "\<not> me_running s"
    using stack_shape_idle [OF i(1) that] by simp
  have wait: "me_count s = 0 \<and> me_settling s = 0 \<and> \<not> me_running s"
    if "fst (manual_control_wait_idle (cx_current (ex_context x)) (Some s)) = CFLOW_EXECUTOR_WAIT_IDLE"
    using that by (auto simp: manual_control_wait_idle_def Let_def split: if_splits)
  have closed: "waiting = []" if "me_lifecycle s = CFLOW_EXECUTOR_CLOSED"
    using i(1,6) that by cases (auto simp: run_frames_def)
  have silent: "ex_log x' = ex_log x" if "me_lifecycle s = CFLOW_EXECUTOR_CLOSED" "exec_step\<^sup>*\<^sup>* x x'" for x'
  proof -
    from that(2) have "ex_log x' = ex_log x \<and> me_lifecycle (cx_state (ex_context x')) = CFLOW_EXECUTOR_CLOSED \<and> exec_inv x'"
    proof (induction rule: rtranclp_induct)
      case base
      then show ?case using that(1) inv assms(3) by simp
    next
      case (step y z)
      then show ?case using closed_stays [of y z] step_inv [of y z] by simp
    qed
    then show ?thesis by simp
  qed
  have quiet: "waiting = [] \<and> mset (final_tasks (ex_log x)) = mset (accepted_tasks (ex_log x)) \<and>
      me_accepted s = (me_completed s + me_cancelled s) mod (SIZE_MAX + 1)"
    if "fst (manual_control_wait_idle (cx_current (ex_context x)) (Some s)) = CFLOW_EXECUTOR_WAIT_IDLE"
  proof -
    from wait [OF that] idle have e: "waiting = []" "active (ex_stack x) = []" by blast+
    show ?thesis using i(2-5) unfolding e by simp
  qed
  moreover have "mset (settled_tasks (ex_log x)) =
      mset (final_tasks (ex_log x)) + mset (concat (map (unfinished (me_tasks s)) (ex_stack x)))"
    using i(3) unfolding unfinished_active [of _ "ex_stack x"] .
  ultimately show ?thesis using i(2) quiet closed silent by blast
qed

text \<open>An execution: a task is accepted, run and finalized.\<close>

definition demo_task :: cflow_executor_task where
  "demo_task = \<lparr>et_run = Some 1, et_cancel = Some 2, et_finalize = Some 3, et_user = 4\<rparr>"

definition demo_env :: env where
  "demo_env = \<lparr>malloc_oracle = (\<lambda>n. Some 4096), malloc_calls = 0, live_blocks = 0\<rparr>"

definition demo_state :: "size_t \<Rightarrow> size_t \<Rightarrow> size_t \<Rightarrow> size_t \<Rightarrow> bool \<Rightarrow> cflow_manual_executor_state" where
  "demo_state queued peak accepted completed running =
     \<lparr>me_tasks = [if accepted = 0 then zero_executor_task else demo_task, zero_executor_task], me_count = queued,
      me_settling = 0, me_capacity = 2, me_peak_pending = peak, me_accepted = accepted, me_completed = completed,
      me_cancelled = 0, me_rejected_full = 0, me_rejected_closed = 0, me_rejected_would_block = 0,
      me_lifecycle = CFLOW_EXECUTOR_OPEN, me_shutdown_policy = CFLOW_EXECUTOR_SHUTDOWN_DRAIN,
      me_shutdown_policy_selected = False, me_running = running\<rparr>"

lemma two_slots: "replicate 2 x = [x, x]"
  by (simp add: numeral_2_eq_2)

lemma demo_init:
  "\<exists>e'. cflow_executor_manual_init_with_capacity (Some NULL) 2 demo_env =
     (True, Some (Some (demo_state 0 0 0 0 False)), e')"
  by (simp add: cflow_executor_manual_init_with_capacity_def demo_env_def demo_state_def malloc_def
      sizeof_executor_task_def SIZE_MAX_def two_slots)

lemma demo_run:
  "exec_step\<^sup>*\<^sup>* (exec_start (demo_state 0 0 0 0 False))
     \<lparr>ex_context = \<lparr>cx_state = demo_state 0 1 1 1 False, cx_current = False, cx_calls = [(1, 4), (3, 4)]\<rparr>, ex_stack = [],
      ex_log = [Accepted demo_task, Ran demo_task, Final demo_task], ex_alive = True\<rparr>"
proof -
  let ?c = "\<lambda>s b cs. \<lparr>cx_state = s, cx_current = b, cx_calls = cs\<rparr>"
  let ?x1 = "exec_at (?c (demo_state 1 1 1 0 False) False []) [] [Accepted demo_task]"
  let ?x2 = "exec_at (?c (demo_state 0 1 1 0 True) True [(1, 4)]) [Running False demo_task] [Accepted demo_task, Ran demo_task]"
  let ?x3 = "exec_at (?c (demo_state 0 1 1 0 True) True [(1, 4), (3, 4)]) [Finalizing False demo_task]
    [Accepted demo_task, Ran demo_task, Final demo_task]"
  have "exec_step (exec_start (demo_state 0 0 0 0 False)) ?x1"
    using x_post [of "exec_start (demo_state 0 0 0 0 False)" demo_task CFLOW_ADMISSION_ACCEPTED "demo_state 1 1 1 0 False"]
    by (simp add: exec_start_def exec_at_def demo_state_def with_state_def manual_try_post_task_state_def demo_task_def
        size_add_def SIZE_MAX_def)
  moreover have "exec_step ?x1 ?x2"
    using x_run [of ?x1 demo_task "?c (demo_state 0 1 1 0 True) True []"]
    by (simp add: exec_at_def demo_state_def run_one_enter_def calling_def note_call_def demo_task_def)
  moreover have "exec_step ?x2 ?x3"
    using x_ran [of ?x2 False demo_task "[]"] by (simp add: exec_at_def calling_def note_call_def demo_task_def)
  moreover have "exec_step ?x3 \<lparr>ex_context = ?c (demo_state 0 1 1 1 False) False [(1, 4), (3, 4)], ex_stack = [],
      ex_log = [Accepted demo_task, Ran demo_task, Final demo_task], ex_alive = True\<rparr>"
    using x_finalized [of ?x3 False demo_task "[]"]
    by (simp add: exec_at_def demo_state_def run_one_leave_def manual_maybe_close_def size_add_def SIZE_MAX_def)
  ultimately show ?thesis by (meson rtranclp.rtrancl_into_rtrancl rtranclp.rtrancl_refl)
qed

theorem executor_settles_once_witness:
  "\<exists>x. exec_step\<^sup>*\<^sup>* (exec_start (demo_state 0 0 0 0 False)) x \<and> settled_tasks (ex_log x) = [demo_task] \<and>
     mset (final_tasks (ex_log x)) = mset (accepted_tasks (ex_log x)) \<and> cx_calls (ex_context x) = [(1, 4), (3, 4)] \<and>
     fst (manual_control_wait_idle False (Some (cx_state (ex_context x)))) = CFLOW_EXECUTOR_WAIT_IDLE"
proof -
  let ?x = "\<lparr>ex_context = \<lparr>cx_state = demo_state 0 1 1 1 False, cx_current = False, cx_calls = [(1, 4), (3, 4)]\<rparr>, ex_stack = [],
      ex_log = [Accepted demo_task, Ran demo_task, Final demo_task], ex_alive = True\<rparr>"
  obtain e' where init: "cflow_executor_manual_init_with_capacity (Some NULL) 2 demo_env =
     (True, Some (Some (demo_state 0 0 0 0 False)), e')" using demo_init by blast
  have idle: "fst (manual_control_wait_idle False (Some (demo_state 0 1 1 1 False))) = CFLOW_EXECUTOR_WAIT_IDLE"
    by (simp add: manual_control_wait_idle_def manual_maybe_close_def demo_state_def Let_def)
  have "settled_tasks (ex_log ?x) = [demo_task]" by (simp add: settled_tasks_def)
  then show ?thesis using executor_settles_once [OF init demo_run refl] idle demo_run by (intro exI [of _ ?x]) auto
qed

text \<open>C34: What the executor's functions do, called in any reachable state with callbacks that use the
  executor only through its interface, is an execution of the step relation on the same stack,
  and the callbacks really called are those of the execution's events. \<open>manual_run_one\<close> answers true
  exactly when a task is queued and nothing is running or being cancelled; it then calls the first
  task's \<open>run\<close> and afterwards its \<open>finalize\<close>, and otherwise calls nothing. \<open>manual_control_shutdown\<close>
  is refused exactly when another policy was selected before; the first shutdown that cancels
  cancels every queued task in order, and finalizes each of them, before it returns. When the
  callbacks leave no more tasks queued than they find, \<open>manual_run_ready\<close> returns; from an idle
  executor it has then run all queued tasks, in order, and those accepted meanwhile.\<close>

theorem executor_calls:
  assumes "reentrant call" and "cflow_executor_manual_init_with_capacity (Some NULL) capacity e = (True, Some (Some s0), e')"
    and "exec_step\<^sup>*\<^sup>* (exec_start s0) (exec_at c st before)" and "s = cx_state c"
  shows "(\<exists>b c' log. manual_run_one call (Some c) = (b, Some c') \<and> leads c st log c' st \<and> cx_calls c' = cx_calls c @ calls_made log \<and>
      (if me_count s \<noteq> 0 \<and> \<not> me_running s \<and> me_settling s = 0
       then b \<and> (\<exists>during after. log = Ran (me_tasks s ! 0) # during @ Final (me_tasks s ! 0) # after)
       else \<not> b \<and> c' = c \<and> log = [])) \<and>
    (\<exists>b c' log. manual_control_shutdown call (Some policy) (Some c) = (b, Some c') \<and> leads c st log c' st \<and>
      cx_calls c' = cx_calls c @ calls_made log \<and> (b \<longleftrightarrow> \<not> me_shutdown_policy_selected s \<or> me_shutdown_policy s = policy) \<and>
      (if policy = CFLOW_EXECUTOR_SHUTDOWN_CANCEL_PENDING \<and> \<not> me_shutdown_policy_selected s
       then settled_tasks log = take (me_count s) (me_tasks s) \<and> mset (final_tasks log) = mset (settled_tasks log)
       else log = [])) \<and>
    (frugal call \<longrightarrow> (\<exists>m c' log. manual_run_ready call 0 (Some c) = Some (m, Some c') \<and> leads c st log c' st \<and>
      cx_calls c' = cx_calls c @ calls_made log \<and>
      (me_count s \<le> SIZE_MAX \<longrightarrow> m + me_count (cx_state c') \<le> me_count s) \<and>
      (me_count (cx_state c') = 0 \<or> me_running (cx_state c') \<or> 0 < me_settling (cx_state c')) \<and>
      (\<not> me_running s \<and> me_settling s = 0 \<longrightarrow> settled_tasks log = take (me_count s) (me_tasks s) @ accepted_tasks log)))"
proof (intro conjI impI)
  have inv: "exec_inv (exec_at c st before)" using reach_inv [OF assms(3) start_inv [OF assms(2)]] .
  obtain b c' log where "manual_run_one call (Some c) = (b, Some c')" "leads c st log c' st" "case run_one_enter c of None \<Rightarrow> \<not> b \<and> c' = c \<and> log = []
     | Some (t, c1) \<Rightarrow> b \<and> (\<exists>during after. log = Ran t # during @ Final t # after)"
    using leads_run_one [OF assms(1), of c st] by blast
  then show "\<exists>b c' log. manual_run_one call (Some c) = (b, Some c') \<and> leads c st log c' st \<and> cx_calls c' = cx_calls c @ calls_made log \<and>
      (if me_count s \<noteq> 0 \<and> \<not> me_running s \<and> me_settling s = 0
       then b \<and> (\<exists>during after. log = Ran (me_tasks s ! 0) # during @ Final (me_tasks s ! 0) # after)
       else \<not> b \<and> c' = c \<and> log = [])"
    using leads_calls [of c st log c' st] assms(4)
    by (intro exI [of _ b] exI [of _ c'] exI [of _ log]) (auto simp: run_one_enter_def Let_def split: if_splits)
  obtain b c' log where sd: "manual_control_shutdown call (Some policy) (Some c) = (b, Some c')" "leads c st log c' st"
    "case shutdown_enter policy (cx_state c) of
       None \<Rightarrow> \<not> b \<and> log = []
     | Some (cancel, s) \<Rightarrow> b \<and>
         (if cancel \<and> me_count s \<noteq> 0 then
            let c1 = cancel_enter (with_state c s); t = slot_task c1 0 in
            \<exists>log'. log = Cancelled t # log' \<and> leads (calling et_cancel t c1) (Cancelling (cx_current c) 0 (me_count s) False # st) log' c' st
          else log = [])"
    using leads_control_shutdown [OF assms(1), of policy c st] by blast
  have "if policy = CFLOW_EXECUTOR_SHUTDOWN_CANCEL_PENDING \<and> \<not> me_shutdown_policy_selected s
       then settled_tasks log = take (me_count s) (me_tasks s) \<and> mset (final_tasks log) = mset (settled_tasks log)
       else log = []"
  proof (cases "policy = CFLOW_EXECUTOR_SHUTDOWN_CANCEL_PENDING \<and> \<not> me_shutdown_policy_selected s \<and> me_count s \<noteq> 0")
    case True
    define s1 where "s1 = s\<lparr>me_shutdown_policy := policy, me_shutdown_policy_selected := True, me_lifecycle := CFLOW_EXECUTOR_CLOSING\<rparr>"
    let ?c1 = "cancel_enter (with_state c s1)"
    have "shutdown_enter policy (cx_state c) = Some (True, s1)" using True assms(4) by (auto simp: shutdown_enter_def s1_def)
    then obtain log' where l: "log = Cancelled (slot_task ?c1 0) # log'"
      "leads (calling et_cancel (slot_task ?c1 0) ?c1) (Cancelling (cx_current c) 0 (me_count s1) False # st) log' c' st"
      using sd(3) True by (auto simp: Let_def s1_def)
    have "me_count (cx_state c) \<noteq> 0" using True assms(4) by simp
    from cancel_settles [OF inv this sd(2) [unfolded l(1)] _ l(2)] show ?thesis
      using True l(1) assms(4) by (simp add: cancel_enter_def Let_def s1_def)
  next
    case False
    then show ?thesis using sd(3) assms(4) by (auto simp: shutdown_enter_def split: if_splits)
  qed
  moreover have "b \<longleftrightarrow> \<not> me_shutdown_policy_selected s \<or> me_shutdown_policy s = policy"
    using sd(3) assms(4) by (auto simp: shutdown_enter_def split: if_splits)
  ultimately show "\<exists>b c' log. manual_control_shutdown call (Some policy) (Some c) = (b, Some c') \<and> leads c st log c' st \<and>
      cx_calls c' = cx_calls c @ calls_made log \<and> (b \<longleftrightarrow> \<not> me_shutdown_policy_selected s \<or> me_shutdown_policy s = policy) \<and>
      (if policy = CFLOW_EXECUTOR_SHUTDOWN_CANCEL_PENDING \<and> \<not> me_shutdown_policy_selected s
       then settled_tasks log = take (me_count s) (me_tasks s) \<and> mset (final_tasks log) = mset (settled_tasks log)
       else log = [])"
    using sd(1,2) leads_calls [OF sd(2)] by blast
next
  assume f: "frugal call"
  have inv: "exec_inv (exec_at c st before)" using reach_inv [OF assms(3) start_inv [OF assms(2)]] .
  obtain m c' log where r: "manual_run_ready call 0 (Some c) = Some (m, Some c')" "leads c st log c' st" "run_one_enter c' = None"
    "me_count (cx_state c) \<le> SIZE_MAX \<Longrightarrow> m + me_count (cx_state c') \<le> me_count (cx_state c)"
    using run_ready_returns [OF f assms(1), of 0 c st] by auto
  have stop: "me_count (cx_state c') = 0 \<or> me_running (cx_state c') \<or> 0 < me_settling (cx_state c')"
    using r(3) by (auto simp: run_one_enter_def Let_def split: if_splits)
  have "settled_tasks log = take (me_count s) (me_tasks s) @ accepted_tasks log" if idle: "\<not> me_running s" "me_settling s = 0"
  proof -
    obtain w w' where w: "stack_shape s (active st) w" "stack_shape (cx_state c') (active st) w'" "w @ accepted_tasks log = settled_tasks log @ w'"
      using leads_conserves [OF inv r(2) assms(4) refl] by blast
    have fs: "active st = []" "w = take (me_count s) (me_tasks s)" using w(1) idle by (cases; auto simp: run_frames_def)+
    have "me_count (cx_state c') = 0 \<and> w' = take (me_count (cx_state c')) (me_tasks (cx_state c'))"
      using w(2) stop unfolding fs(1) by cases (auto simp: run_frames_def split: if_splits)
    then show ?thesis using w(3) fs(2) by simp
  qed
  then show "\<exists>m c' log. manual_run_ready call 0 (Some c) = Some (m, Some c') \<and> leads c st log c' st \<and>
      cx_calls c' = cx_calls c @ calls_made log \<and>
      (me_count s \<le> SIZE_MAX \<longrightarrow> m + me_count (cx_state c') \<le> me_count s) \<and>
      (me_count (cx_state c') = 0 \<or> me_running (cx_state c') \<or> 0 < me_settling (cx_state c')) \<and>
      (\<not> me_running s \<and> me_settling s = 0 \<longrightarrow> settled_tasks log = take (me_count s) (me_tasks s) @ accepted_tasks log)"
    using r(1,2,4) stop leads_calls [OF r(2)] assms(4) by (intro exI [of _ m] exI [of _ c'] exI [of _ log]) simp
qed

text \<open>Callbacks that read the executor's statistics.\<close>

definition demo_call :: "task_fn \<Rightarrow> user_ptr \<Rightarrow> executor_context \<Rightarrow> executor_context" where
  "demo_call f u c = close_context c"

lemma demo_call_reentrant: "reentrant demo_call"
  unfolding reentrant_def
proof (intro allI)
  fix f u c st
  have "leads c st [] (with_state c (manual_maybe_close (cx_state c))) st"
    by (rule leads_step)
      (use x_stats [of "exec_at c st log" "Some (protocol_stats (cx_state c))" for log] in \<open>simp add: exec_at_def manual_control_get_stats_def Let_def\<close>)
  then show "\<exists>log. leads c st log (demo_call f u c) st" by (auto simp: demo_call_def close_context_def with_state_def)
qed

lemma demo_call_frugal: "frugal demo_call"
  by (simp add: frugal_def demo_call_def close_context_def)

theorem executor_calls_witness:
  "\<exists>c. exec_step\<^sup>*\<^sup>* (exec_start (demo_state 0 0 0 0 False)) (exec_at c [] [Accepted demo_task]) \<and>
     (\<exists>m c' log. manual_run_ready demo_call 0 (Some c) = Some (m, Some c') \<and>
        settled_tasks log = [demo_task] @ accepted_tasks log \<and> cx_calls c' = calls_made log) \<and>
     (\<exists>c' during after. manual_run_one demo_call (Some c) = (True, Some c') \<and>
        cx_calls c' = [(1, 4)] @ calls_made during @ [(3, 4)] @ calls_made after)"
proof -
  let ?c = "\<lparr>cx_state = demo_state 1 1 1 0 False, cx_current = False, cx_calls = []\<rparr>"
  have "exec_step (exec_start (demo_state 0 0 0 0 False)) (exec_at ?c [] [Accepted demo_task])"
    using x_post [of "exec_start (demo_state 0 0 0 0 False)" demo_task CFLOW_ADMISSION_ACCEPTED "demo_state 1 1 1 0 False"]
    by (simp add: exec_start_def exec_at_def demo_state_def with_state_def manual_try_post_task_state_def demo_task_def
        size_add_def SIZE_MAX_def)
  then have reach: "exec_step\<^sup>*\<^sup>* (exec_start (demo_state 0 0 0 0 False)) (exec_at ?c [] [Accepted demo_task])" by blast
  obtain e' where init: "cflow_executor_manual_init_with_capacity (Some NULL) 2 demo_env =
     (True, Some (Some (demo_state 0 0 0 0 False)), e')" using demo_init by blast
  have s: "me_count (demo_state 1 1 1 0 False) \<noteq> 0" "\<not> me_running (demo_state 1 1 1 0 False)" "me_settling (demo_state 1 1 1 0 False) = 0"
    "me_tasks (demo_state 1 1 1 0 False) ! 0 = demo_task"
    "take (me_count (demo_state 1 1 1 0 False)) (me_tasks (demo_state 1 1 1 0 False)) = [demo_task]" by (simp_all add: demo_state_def)
  have calls: "calls_of (Ran demo_task) = [(1, 4)]" "calls_of (Final demo_task) = [(3, 4)]" by (simp_all add: call_of_def demo_task_def)
  note ex = executor_calls [OF demo_call_reentrant init reach refl, of CFLOW_EXECUTOR_SHUTDOWN_DRAIN, simplified s executor_context.simps]
  have "\<exists>m c' log. manual_run_ready demo_call 0 (Some ?c) = Some (m, Some c') \<and>
      settled_tasks log = [demo_task] @ accepted_tasks log \<and> cx_calls c' = calls_made log"
    using ex demo_call_frugal s by force
  moreover have "\<exists>c' during after. manual_run_one demo_call (Some ?c) = (True, Some c') \<and>
      cx_calls c' = [(1, 4)] @ calls_made during @ [(3, 4)] @ calls_made after"
    using ex s calls by force
  ultimately show ?thesis using reach by blast
qed

end
