(* ===== verification/Address_Tree.thy ===== *)
theory Address_Tree
  imports Main "HOL-Library.Tree"
begin

text \<open>
  Binary trees as they lie in memory: nodes with left, right and parent pointers, seen as a
  tree of addresses. A position in a tree is a subtree together with the path to the root; on
  these the pointer surgery of rotations and replacements is done, and the red-black
  invariants split into one for the subtree and one for the path.
\<close>

section \<open>Pointer structures\<close>

record 'a links =
  lk_left :: "'a \<Rightarrow> 'a option"
  lk_right :: "'a \<Rightarrow> 'a option"
  lk_parent :: "'a \<Rightarrow> 'a option"

definition setl :: "'a \<Rightarrow> 'a option \<Rightarrow> 'a links \<Rightarrow> 'a links" where
  "setl a p k = k\<lparr>lk_left := (lk_left k)(a := p)\<rparr>"

definition setr :: "'a \<Rightarrow> 'a option \<Rightarrow> 'a links \<Rightarrow> 'a links" where
  "setr a p k = k\<lparr>lk_right := (lk_right k)(a := p)\<rparr>"

definition setp :: "'a \<Rightarrow> 'a option \<Rightarrow> 'a links \<Rightarrow> 'a links" where
  "setp a p k = k\<lparr>lk_parent := (lk_parent k)(a := p)\<rparr>"

lemma links_set [simp]:
  "lk_left (setl a p k) = (lk_left k)(a := p)" "lk_right (setl a p k) = lk_right k" "lk_parent (setl a p k) = lk_parent k"
  "lk_left (setr a p k) = lk_left k" "lk_right (setr a p k) = (lk_right k)(a := p)" "lk_parent (setr a p k) = lk_parent k"
  "lk_left (setp a p k) = lk_left k" "lk_right (setp a p k) = lk_right k" "lk_parent (setp a p k) = (lk_parent k)(a := p)"
  by (simp_all add: setl_def setr_def setp_def)

fun ptr_to :: "'a tree \<Rightarrow> 'a option" where
  "ptr_to Leaf = None"
| "ptr_to (Node l a r) = Some a"

fun shape :: "'a links \<Rightarrow> 'a option \<Rightarrow> 'a tree \<Rightarrow> bool" where
  "shape k up Leaf \<longleftrightarrow> True"
| "shape k up (Node l a r) \<longleftrightarrow> lk_parent k a = up \<and> lk_left k a = ptr_to l \<and> lk_right k a = ptr_to r \<and>
     shape k (Some a) l \<and> shape k (Some a) r"

text \<open>The path from a subtree to the root: at each step the node above and its other subtree.\<close>

datatype 'a step = InL 'a "'a tree" | InR "'a tree" 'a

type_synonym 'a path = "'a step list"

fun plug :: "'a path \<Rightarrow> 'a tree \<Rightarrow> 'a tree" where
  "plug [] t = t"
| "plug (InL a r # c) t = plug c (Node t a r)"
| "plug (InR l a # c) t = plug c (Node l a t)"

fun up_ptr :: "'a path \<Rightarrow> 'a option" where
  "up_ptr [] = None"
| "up_ptr (InL a r # c) = Some a"
| "up_ptr (InR l a # c) = Some a"

fun before :: "'a path \<Rightarrow> 'a list" where
  "before [] = []"
| "before (InL a r # c) = before c"
| "before (InR l a # c) = before c @ inorder l @ [a]"

fun after :: "'a path \<Rightarrow> 'a list" where
  "after [] = []"
| "after (InL a r # c) = a # inorder r @ after c"
| "after (InR l a # c) = after c"

text \<open>The path is linked to the root, and its lowest node points down to \<open>p\<close>.\<close>

fun spine :: "'a links \<Rightarrow> 'a option \<Rightarrow> 'a path \<Rightarrow> 'a option \<Rightarrow> bool" where
  "spine k root [] p \<longleftrightarrow> root = p"
| "spine k root (InL a r # c) p \<longleftrightarrow> lk_left k a = p \<and> lk_right k a = ptr_to r \<and> lk_parent k a = up_ptr c \<and>
     shape k (Some a) r \<and> spine k root c (Some a)"
| "spine k root (InR l a # c) p \<longleftrightarrow> lk_left k a = ptr_to l \<and> lk_right k a = p \<and> lk_parent k a = up_ptr c \<and>
     shape k (Some a) l \<and> spine k root c (Some a)"

lemma inorder_plug [simp]: "inorder (plug c t) = before c @ inorder t @ after c"
  by (induction c t rule: plug.induct) simp_all

lemma set_tree_plug [simp]: "set_tree (plug c t) = set (before c) \<union> set_tree t \<union> set (after c)"
  by (simp add: Un_assoc flip: set_inorder)

lemma ptr_to_None [simp]: "ptr_to t = None \<longleftrightarrow> t = Leaf" "None = ptr_to t \<longleftrightarrow> t = Leaf"
  by (cases t; simp)+

lemma ptr_to_Some: "ptr_to t = Some a \<longleftrightarrow> (\<exists>l r. t = Node l a r)"
  by (cases t) auto

lemma up_ptr_None [simp]: "up_ptr c = None \<longleftrightarrow> c = []" "None = up_ptr c \<longleftrightarrow> c = []"
  by (cases c rule: up_ptr.cases; simp)+

lemma ptr_to_member: "ptr_to t = Some a \<Longrightarrow> a \<in> set_tree t"
  by (cases t) auto

lemma up_ptr_member: "up_ptr c = Some a \<Longrightarrow> a \<in> set (before c) \<union> set (after c)"
  by (cases c rule: up_ptr.cases) auto

text \<open>A whole tree: root pointer and links.\<close>

definition linked :: "'a links \<Rightarrow> 'a option \<Rightarrow> 'a path \<Rightarrow> 'a tree \<Rightarrow> bool" where
  "linked k root c t \<longleftrightarrow> shape k (up_ptr c) t \<and> spine k root c (ptr_to t) \<and> distinct (before c @ inorder t @ after c)"

lemma linked_up [simp]:
  "linked k root (InL a r # c) t \<longleftrightarrow> linked k root c (Node t a r)"
  "linked k root (InR l a # c) t \<longleftrightarrow> linked k root c (Node l a t)"
  by (auto simp: linked_def)

lemma linked_plug: "linked k root c t \<longleftrightarrow> linked k root [] (plug c t)"
  by (induction c t rule: plug.induct) simp_all

lemma at_address: "a \<in> set_tree t \<Longrightarrow> \<exists>c l r. t = plug c (Node l a r)"
proof -
  have "a \<in> set_tree t \<Longrightarrow> \<exists>c l r. plug d t = plug (c @ d) (Node l a r)" for d :: "'a path"
  proof (induction t arbitrary: d)
    case (Node u b w)
    consider "a = b" | "a \<in> set_tree u" | "a \<in> set_tree w" using Node.prems by auto
    then show ?case
    proof cases
      case 1
      then show ?thesis by (intro exI [of _ "[]"]) auto
    next
      case 2
      from Node.IH(1) [OF 2, of "InL b w # d"] obtain c l r where "plug (InL b w # d) u = plug (c @ InL b w # d) (Node l a r)" by blast
      then show ?thesis by (intro exI [of _ "c @ [InL b w]"]) auto
    next
      case 3
      from Node.IH(2) [OF 3, of "InR u b # d"] obtain c l r where "plug (InR u b # d) w = plug (c @ InR u b # d) (Node l a r)" by blast
      then show ?thesis by (intro exI [of _ "c @ [InR u b]"]) auto
    qed
  qed simp
  from this [of "[]"] show "a \<in> set_tree t \<Longrightarrow> \<exists>c l r. t = plug c (Node l a r)" by simp
qed

lemma ptr_to_plug: "c \<noteq> [] \<Longrightarrow> \<exists>a \<in> set (before c) \<union> set (after c). ptr_to (plug c s) = Some a"
proof (induction c s rule: plug.induct)
  case (2 a r c t)
  then show ?case by (cases "c = []") auto
next
  case (3 l a c t)
  then show ?case by (cases "c = []") auto
qed simp

lemma path_append:
  "plug (c @ d) t = plug d (plug c t)" "before (c @ d) = before d @ before c" "after (c @ d) = after c @ after d"
  "up_ptr (c @ d) = (if c = [] then up_ptr d else up_ptr c)"
  by (induction c arbitrary: t rule: before.induct) simp_all

section \<open>Updates elsewhere\<close>

lemma shape_set [simp]:
  "a \<notin> set_tree t \<Longrightarrow> shape (setl a p k) up t = shape k up t"
  "a \<notin> set_tree t \<Longrightarrow> shape (setr a p k) up t = shape k up t"
  "a \<notin> set_tree t \<Longrightarrow> shape (setp a p k) up t = shape k up t"
  by (induction t arbitrary: up) auto

lemma spine_set [simp]:
  "a \<notin> set (before c) \<Longrightarrow> a \<notin> set (after c) \<Longrightarrow> spine (setl a p k) root c q = spine k root c q"
  "a \<notin> set (before c) \<Longrightarrow> a \<notin> set (after c) \<Longrightarrow> spine (setr a p k) root c q = spine k root c q"
  "a \<notin> set (before c) \<Longrightarrow> a \<notin> set (after c) \<Longrightarrow> spine (setp a p k) root c q = spine k root c q"
  by (induction c arbitrary: q rule: before.induct) auto

text \<open>A subtree gets a new parent.\<close>

definition adopt :: "'a tree \<Rightarrow> 'a option \<Rightarrow> 'a links \<Rightarrow> 'a links" where
  "adopt t up k = (case ptr_to t of None \<Rightarrow> k | Some a \<Rightarrow> setp a up k)"

lemma adopt_fields [simp]: "lk_left (adopt t up k) = lk_left k" "lk_right (adopt t up k) = lk_right k"
  by (simp_all add: adopt_def split: option.split)

lemma adopt_shape: "shape k q t \<Longrightarrow> distinct (inorder t) \<Longrightarrow> shape (adopt t up k) up t"
  by (cases t) (auto simp: adopt_def)

lemma adopt_parent: "a \<notin> set_tree t \<Longrightarrow> lk_parent (adopt t up k) a = lk_parent k a"
  by (cases t) (auto simp: adopt_def)

lemma adopt_elsewhere [simp]:
  "set_tree t \<inter> set_tree u = {} \<Longrightarrow> shape (adopt t up k) v u = shape k v u"
  "set_tree t \<inter> (set (before c) \<union> set (after c)) = {} \<Longrightarrow> spine (adopt t up k) root c q = spine k root c q"
  by (cases t; auto simp: adopt_def)+

text \<open>The node above gets a new child in place of \<open>x\<close>.\<close>

definition relink :: "'a option \<Rightarrow> 'a \<Rightarrow> 'a option \<Rightarrow> 'a links \<times> 'a option \<Rightarrow> 'a links \<times> 'a option" where
  "relink up x q s =
     (case up of
        None \<Rightarrow> (fst s, q)
      | Some u \<Rightarrow> if Some x = lk_left (fst s) u then (setl u q (fst s), snd s) else (setr u q (fst s), snd s))"

lemma relink_spine:
  assumes "spine k root c (Some x)" and "distinct (before c @ x # after c)"
  shows "spine (fst (relink (up_ptr c) x q (k, root))) (snd (relink (up_ptr c) x q (k, root))) c q"
proof (cases c rule: up_ptr.cases)
  case (3 l a d)
  then have "ptr_to l \<noteq> Some x" using assms(2) ptr_to_member [of l x] by auto
  then show ?thesis using assms 3 by (auto simp: relink_def)
qed (use assms in \<open>auto simp: relink_def\<close>)

lemma relink_shape:
  assumes "set_tree t \<inter> (set (before c) \<union> set (after c)) = {}"
  shows "shape (fst (relink (up_ptr c) x q (k, root))) up t = shape k up t"
proof (cases "up_ptr c")
  case (Some u)
  then have "u \<notin> set_tree t" using assms up_ptr_member [of c u] by auto
  then show ?thesis using Some by (simp add: relink_def)
qed (simp add: relink_def)

lemma relink_fields:
  "lk_parent (fst (relink up x q s)) = lk_parent (fst s)"
  "up \<noteq> Some a \<Longrightarrow> lk_left (fst (relink up x q s)) a = lk_left (fst s) a"
  "up \<noteq> Some a \<Longrightarrow> lk_right (fst (relink up x q s)) a = lk_right (fst s) a"
  by (auto simp: relink_def split: option.split)

section \<open>Rotation and replacement\<close>

definition rotl :: "'a \<Rightarrow> 'a \<Rightarrow> 'a links \<times> 'a option \<Rightarrow> 'a links \<times> 'a option" where
  "rotl x y s =
     (let k = fst s; m = lk_left k y;
          k1 = setr x m k;
          k2 = (case m of None \<Rightarrow> k1 | Some a \<Rightarrow> setp a (Some x) k1);
          k3 = setp y (lk_parent k x) k2;
          s4 = relink (lk_parent k x) x (Some y) (k3, snd s)
      in (setp x (Some y) (setl y (Some x) (fst s4)), snd s4))"

lemma linked_rotl:
  assumes "linked k root c (Node l x (Node m y r))" and "(k', root') = rotl x y (k, root)"
  shows "linked k' root' c (Node (Node l x m) y r)"
proof -
  have d: "distinct (before c @ inorder l @ [x] @ inorder m @ [y] @ inorder r @ after c)"
    and sp: "spine k root c (Some x)" and up: "lk_parent k x = up_ptr c"
    and l: "lk_left k x = ptr_to l" "shape k (Some x) l" and y: "lk_left k y = ptr_to m" "lk_right k y = ptr_to r"
    and m: "shape k (Some y) m" and r: "shape k (Some y) r"
    using assms(1) by (auto simp: linked_def)
  define k2 where "k2 = adopt m (Some x) (setr x (ptr_to m) k)"
  define k3 where "k3 = setp y (up_ptr c) k2"
  define s4 where "s4 = relink (up_ptr c) x (Some y) (k3, root)"
  have k': "k' = setp x (Some y) (setl y (Some x) (fst s4))" "root' = snd s4"
    using assms(2) unfolding rotl_def s4_def k3_def k2_def adopt_def Let_def fst_conv snd_conv y(1) up by simp_all
  have out: "set_tree m \<inter> (set (before c) \<union> set (after c)) = {}" "set_tree l \<inter> (set (before c) \<union> set (after c)) = {}"
    "set_tree r \<inter> (set (before c) \<union> set (after c)) = {}" "set_tree m \<inter> set_tree l = {}" "set_tree m \<inter> set_tree r = {}"
    "distinct (before c @ x # after c)"
    using d by auto
  have nin: "up_ptr c \<noteq> Some x" "up_ptr c \<noteq> Some y" using d up_ptr_member [of c] by auto
  have mm: "shape k2 (Some x) m"
    unfolding k2_def using d m by (intro adopt_shape [of _ "Some y"]) auto
  have sp4: "spine (fst s4) (snd s4) c (Some y)"
    unfolding s4_def using d sp out(1) by (intro relink_spine out(6)) (simp_all add: k3_def k2_def)
  have "shape (fst s4) (Some x) l" "shape (fst s4) (Some x) m" "shape (fst s4) (Some y) r"
    using d l(2) mm r out unfolding s4_def by (simp_all add: relink_shape k3_def k2_def)
  moreover have "lk_left (fst s4) x = ptr_to l" "lk_right (fst s4) x = ptr_to m" "lk_right (fst s4) y = ptr_to r"
    "lk_parent (fst s4) y = up_ptr c"
    using nin l y d by (auto simp: s4_def relink_fields k3_def k2_def)
  ultimately show ?thesis using d sp4 by (auto simp: linked_def k')
qed

text \<open>\<open>u\<close> takes the place of the subtree at \<open>x\<close>.\<close>

definition graft :: "'a \<Rightarrow> 'a option \<Rightarrow> 'a links \<times> 'a option \<Rightarrow> 'a links \<times> 'a option" where
  "graft x q s =
     (let s1 = relink (lk_parent (fst s) x) x q s in
      (case q of None \<Rightarrow> fst s1 | Some b \<Rightarrow> setp b (lk_parent (fst s1) x) (fst s1), snd s1))"

lemma linked_graft:
  assumes "spine k root c (Some x)" and "lk_parent k x = up_ptr c" and "distinct (before c @ x # after c)"
    and "shape k v u" and "distinct (before c @ inorder u @ after c)" and "(k', root') = graft x (ptr_to u) (k, root)"
  shows "linked k' root' c u"
proof -
  define s1 where "s1 = relink (up_ptr c) x (ptr_to u) (k, root)"
  have k': "k' = adopt u (up_ptr c) (fst s1)" "root' = snd s1"
    using assms(6) by (simp_all add: graft_def s1_def assms(2) relink_fields adopt_def Let_def split: option.split)
  have sp1: "spine (fst s1) (snd s1) c (ptr_to u)" unfolding s1_def by (rule relink_spine [OF assms(1,3)])
  have "shape (fst s1) v u" unfolding s1_def using assms(4,5) by (subst relink_shape) auto
  then have "shape k' (up_ptr c) u" unfolding k' using assms(5) by (intro adopt_shape) auto
  moreover have "set_tree u \<inter> (set (before c) \<union> set (after c)) = {}" using assms(5) by auto
  ultimately show ?thesis using sp1 assms(5) by (simp add: linked_def k')
qed

text \<open>What lies apart from the path and the grafted tree is untouched.\<close>

lemma graft_elsewhere:
  assumes "set_tree w \<inter> (set (before c) \<union> set (after c)) = {}" "set_tree w \<inter> set_tree u = {}"
    and "lk_parent k x = up_ptr c" and "(k', root') = graft x (ptr_to u) (k, root)"
  shows "shape k' v w = shape k v w" "a \<notin> set (before c) \<union> set (after c) \<union> set_tree u \<Longrightarrow>
      lk_left k' a = lk_left k a \<and> lk_right k' a = lk_right k a \<and> lk_parent k' a = lk_parent k a"
proof -
  have k': "k' = adopt u (up_ptr c) (fst (relink (up_ptr c) x (ptr_to u) (k, root)))"
    using assms(4) by (simp add: graft_def assms(3) relink_fields adopt_def Let_def split: option.split)
  have "set_tree u \<inter> set_tree w = {}" using assms(2) by auto
  then show "shape k' v w = shape k v w" unfolding k' by (simp add: relink_shape [OF assms(1)])
  show "lk_left k' a = lk_left k a \<and> lk_right k' a = lk_right k a \<and> lk_parent k' a = lk_parent k a"
    if "a \<notin> set (before c) \<union> set (after c) \<union> set_tree u"
  proof -
    have "up_ptr c \<noteq> Some a" using that up_ptr_member [of c a] by auto
    then show ?thesis using that unfolding k' by (simp add: adopt_parent relink_fields)
  qed
qed

text \<open>A detached subtree becomes the left child of a node that has none.\<close>

lemma linked_attach_left:
  assumes "linked k root c (Node Leaf m r)" and "shape k v l" and "distinct (before c @ inorder (Node l m r) @ after c)"
  shows "linked (adopt l (Some m) (setl m (ptr_to l) k)) root c (Node l m r)"
proof -
  have "set_tree l \<inter> (set (before c) \<union> set (after c)) = {}" "set_tree l \<inter> set_tree r = {}" "m \<notin> set_tree l" "m \<notin> set_tree r"
    "m \<notin> set (before c)" "m \<notin> set (after c)" "distinct (inorder l)"
    using assms(3) by auto
  moreover from this have "shape (adopt l (Some m) (setl m (ptr_to l) k)) (Some m) l"
    using assms(2) by (intro adopt_shape) auto
  ultimately show ?thesis using assms by (auto simp: linked_def adopt_parent)
qed

section \<open>Colours\<close>

text \<open>The colour of a node is a predicate on addresses.\<close>

fun black :: "('a \<Rightarrow> bool) \<Rightarrow> 'a tree \<Rightarrow> bool" where
  "black red Leaf \<longleftrightarrow> True"
| "black red (Node l a r) \<longleftrightarrow> \<not> red a"

fun bheight :: "('a \<Rightarrow> bool) \<Rightarrow> 'a tree \<Rightarrow> nat" where
  "bheight red Leaf = 0"
| "bheight red (Node l a r) = bheight red l + (if red a then 0 else 1)"

fun balanced :: "('a \<Rightarrow> bool) \<Rightarrow> 'a tree \<Rightarrow> bool" where
  "balanced red Leaf \<longleftrightarrow> True"
| "balanced red (Node l a r) \<longleftrightarrow> bheight red l = bheight red r \<and> (red a \<longrightarrow> black red l \<and> black red r) \<and>
     balanced red l \<and> balanced red r"

definition red_black :: "('a \<Rightarrow> bool) \<Rightarrow> 'a tree \<Rightarrow> bool" where
  "red_black red t \<longleftrightarrow> balanced red t \<and> black red t"

text \<open>May the subtree below a path have a red root? Not at the top, where the root must be black.\<close>

fun black_above :: "('a \<Rightarrow> bool) \<Rightarrow> 'a path \<Rightarrow> bool" where
  "black_above red [] \<longleftrightarrow> False"
| "black_above red (InL a r # c) \<longleftrightarrow> \<not> red a"
| "black_above red (InR l a # c) \<longleftrightarrow> \<not> red a"

text \<open>The path is balanced for a subtree of black height \<open>n\<close>.\<close>

fun path_balanced :: "('a \<Rightarrow> bool) \<Rightarrow> 'a path \<Rightarrow> nat \<Rightarrow> bool" where
  "path_balanced red [] n \<longleftrightarrow> True"
| "path_balanced red (InL a r # c) n \<longleftrightarrow> bheight red r = n \<and> balanced red r \<and>
     (red a \<longrightarrow> black red r \<and> black_above red c) \<and> path_balanced red c (n + (if red a then 0 else 1))"
| "path_balanced red (InR l a # c) n \<longleftrightarrow> bheight red l = n \<and> balanced red l \<and>
     (red a \<longrightarrow> black red l \<and> black_above red c) \<and> path_balanced red c (n + (if red a then 0 else 1))"

lemma red_black_plug:
  "red_black red (plug c t) \<longleftrightarrow>
     balanced red t \<and> path_balanced red c (bheight red t) \<and> (black red t \<or> black_above red c)"
proof (induction c t rule: plug.induct)
  case (1 t)
  then show ?case by (auto simp: red_black_def)
qed auto

lemma colour_cong:
  "(\<And>a. a \<in> set_tree t \<Longrightarrow> red' a = red a) \<Longrightarrow> black red' t = black red t"
  "(\<And>a. a \<in> set_tree t \<Longrightarrow> red' a = red a) \<Longrightarrow> bheight red' t = bheight red t"
  "(\<And>a. a \<in> set_tree t \<Longrightarrow> red' a = red a) \<Longrightarrow> balanced red' t = balanced red t"
proof -
  show *: "black red' t = black red t" if "\<And>a. a \<in> set_tree t \<Longrightarrow> red' a = red a" for t
    using that by (cases t) auto
  show **: "bheight red' t = bheight red t" if "\<And>a. a \<in> set_tree t \<Longrightarrow> red' a = red a" for t
    using that by (induction t) auto
  show "balanced red' t = balanced red t" if "\<And>a. a \<in> set_tree t \<Longrightarrow> red' a = red a"
    using that by (induction t) (auto simp: * **)
qed

lemma colour_upd [simp]:
  "a \<notin> set_tree t \<Longrightarrow> black (red(a := b)) t = black red t"
  "a \<notin> set_tree t \<Longrightarrow> bheight (red(a := b)) t = bheight red t"
  "a \<notin> set_tree t \<Longrightarrow> balanced (red(a := b)) t = balanced red t"
  by (rule colour_cong; auto)+

lemma path_colour_upd [simp]:
  "a \<notin> set (before c) \<Longrightarrow> a \<notin> set (after c) \<Longrightarrow> black_above (red(a := b)) c = black_above red c"
  "a \<notin> set (before c) \<Longrightarrow> a \<notin> set (after c) \<Longrightarrow> path_balanced (red(a := b)) c n = path_balanced red c n"
proof -
  show *: "a \<notin> set (before c) \<Longrightarrow> a \<notin> set (after c) \<Longrightarrow> black_above (red(a := b)) c = black_above red c" for c
    by (cases c rule: up_ptr.cases) auto
  show "a \<notin> set (before c) \<Longrightarrow> a \<notin> set (after c) \<Longrightarrow> path_balanced (red(a := b)) c n = path_balanced red c n"
    by (induction c arbitrary: n rule: before.induct) (auto simp: *)
qed

lemma path_balanced_swap:
  assumes "x \<notin> set (before c) \<union> set (after c)" "m \<notin> set (before c) \<union> set (after c)"
    "m \<notin> set (before d) \<union> set (after d) \<union> set_tree l"
  shows "black_above (red(m := red x)) (c @ InR l m # d) = black_above red (c @ InR l x # d)"
    and "path_balanced (red(m := red x)) (c @ InR l m # d) n = path_balanced red (c @ InR l x # d) n"
proof -
  have *: "black_above (red(m := red x)) (c @ InR l m # d) = black_above red (c @ InR l x # d)"
    if "x \<notin> set (before c) \<union> set (after c)" "m \<notin> set (before c) \<union> set (after c)" for c
    using that by (cases c rule: up_ptr.cases) auto
  then show "black_above (red(m := red x)) (c @ InR l m # d) = black_above red (c @ InR l x # d)" using assms by blast
  show "path_balanced (red(m := red x)) (c @ InR l m # d) n = path_balanced red (c @ InR l x # d) n"
    using assms
  proof (induction c arbitrary: n rule: before.induct)
    case (2 a r c)
    then have "(red(m := red x)) a = red a" by auto
    then show ?case using 2 * [of c] by (simp del: fun_upd_apply)
  next
    case (3 u a c)
    then have "(red(m := red x)) a = red a" by auto
    then show ?case using 3 * [of c] by (simp del: fun_upd_apply)
  qed simp
qed

text \<open>Height and size.\<close>

lemma balanced_height: "balanced red t \<Longrightarrow> height t \<le> 2 * bheight red t + (if black red t then 0 else 1)"
  by (induction t) (auto split: if_splits)

lemma balanced_size: "balanced red t \<Longrightarrow> 2 ^ bheight red t \<le> size t + 1"
  by (induction t) auto

lemma red_black_height: "red_black red t \<Longrightarrow> 2 ^ (height t div 2) \<le> size t + 1"
proof -
  assume "red_black red t"
  then have "balanced red t" "height t div 2 \<le> bheight red t"
    using balanced_height [of red t] by (auto simp: red_black_def)
  then show ?thesis using balanced_size [of red t] power_increasing [of "height t div 2" "bheight red t" 2]
    by (meson le_trans one_le_numeral)
qed

section \<open>Mirror images\<close>

fun flip_step :: "'a step \<Rightarrow> 'a step" where
  "flip_step (InL a r) = InR (mirror r) a"
| "flip_step (InR l a) = InL a (mirror l)"

definition flip_path :: "'a path \<Rightarrow> 'a path" where
  "flip_path c = map flip_step c"

definition flip_links :: "'a links \<Rightarrow> 'a links" where
  "flip_links k = \<lparr>lk_left = lk_right k, lk_right = lk_left k, lk_parent = lk_parent k\<rparr>"

lemma flip_simps [simp]:
  "flip_path [] = []" "flip_path (InL a r # c) = InR (mirror r) a # flip_path c"
  "flip_path (InR l a # c) = InL a (mirror l) # flip_path c"
  "lk_left (flip_links k) = lk_right k" "lk_right (flip_links k) = lk_left k" "lk_parent (flip_links k) = lk_parent k"
  by (simp_all add: flip_path_def flip_links_def)

lemma ptr_to_mirror [simp]: "ptr_to (mirror t) = ptr_to t"
  by (cases t) auto

lemma up_ptr_flip [simp]: "up_ptr (flip_path c) = up_ptr c"
  by (cases c rule: up_ptr.cases) auto

lemma shape_flip [simp]: "shape (flip_links k) up (mirror t) = shape k up t"
  by (induction t arbitrary: up) auto

lemma spine_flip [simp]: "spine (flip_links k) root (flip_path c) p = spine k root c p"
  by (induction c arbitrary: p rule: before.induct) auto

lemma before_flip [simp]: "before (flip_path c) = rev (after c)" "after (flip_path c) = rev (before c)"
  by (induction c rule: before.induct) (auto simp: inorder_mirror)

lemma linked_flip [simp]: "linked (flip_links k) root (flip_path c) (mirror t) = linked k root c t"
  by (auto simp: linked_def inorder_mirror)

lemma colours_mirror:
  "black red (mirror t) = black red t"
  "balanced red t \<Longrightarrow> bheight red (mirror t) = bheight red t"
  "balanced red t \<Longrightarrow> balanced red (mirror t)"
proof -
  show *: "black red (mirror t) = black red t" for t by (cases t) auto
  show **: "balanced red t \<Longrightarrow> bheight red (mirror t) = bheight red t" for t by (induction t) auto
  show "balanced red t \<Longrightarrow> balanced red (mirror t)" by (induction t) (auto simp: * **)
qed

lemma path_mirror:
  "black_above red (flip_path c) = black_above red c"
  "path_balanced red c n \<Longrightarrow> path_balanced red (flip_path c) n"
proof -
  show *: "black_above red (flip_path c) = black_above red c" for c by (cases c rule: up_ptr.cases) auto
  show "path_balanced red c n \<Longrightarrow> path_balanced red (flip_path c) n"
    by (induction c arbitrary: n rule: before.induct) (auto simp: * colours_mirror)
qed

lemma mirror_plug: "mirror (plug c t) = plug (flip_path c) (mirror t)"
  by (induction c t rule: plug.induct) auto

lemma flip_flip [simp]: "flip_path (flip_path c) = c" "flip_links (flip_links k) = k"
  by (induction c rule: before.induct) (auto simp: flip_links_def)

end
