(* ===== verification/Node_Chain.thy ===== *)
theory Node_Chain
  imports Main
begin

text \<open>
  Doubly linked chains as they lie in memory: nodes with next and previous pointers, a head
  and a tail, seen as the list of their addresses; linking a node in and out.
\<close>

record 'a chain =
  ch_next :: "'a \<Rightarrow> 'a option"
  ch_prev :: "'a \<Rightarrow> 'a option"
  ch_head :: "'a option"
  ch_tail :: "'a option"

text \<open>The nodes \<open>xs\<close>, entered from \<open>u\<close> through \<open>p\<close>, left from \<open>l\<close> through \<open>q\<close>.\<close>

fun segment :: "'a chain \<Rightarrow> 'a option \<Rightarrow> 'a option \<Rightarrow> 'a list \<Rightarrow> 'a option \<Rightarrow> 'a option \<Rightarrow> bool" where
  "segment k u p [] l q \<longleftrightarrow> p = q \<and> l = u"
| "segment k u p (a # xs) l q \<longleftrightarrow> p = Some a \<and> ch_prev k a = u \<and> segment k (Some a) (ch_next k a) xs l q"

definition chained :: "'a chain \<Rightarrow> 'a list \<Rightarrow> bool" where
  "chained k xs \<longleftrightarrow> segment k None (ch_head k) xs (ch_tail k) None \<and> distinct xs"

definition first_of :: "'a list \<Rightarrow> 'a option \<Rightarrow> 'a option" where
  "first_of xs q = (case xs of [] \<Rightarrow> q | a # _ \<Rightarrow> Some a)"

definition last_of :: "'a list \<Rightarrow> 'a option \<Rightarrow> 'a option" where
  "last_of xs u = (if xs = [] then u else Some (last xs))"

lemma first_last_simps [simp]:
  "first_of [] q = q" "first_of (a # xs) q = Some a" "last_of [] u = u" "last_of (xs @ [a]) u = Some a"
  "last_of (a # xs) u = last_of xs (Some a)"
  by (simp_all add: first_of_def last_of_def)

lemma segment_ends: "segment k u p xs l q \<Longrightarrow> p = first_of xs q \<and> l = last_of xs u"
  by (induction xs arbitrary: u p) auto

lemma segment_append:
  "segment k u p (xs @ ys) l q \<longleftrightarrow>
     segment k u p xs (last_of xs u) (first_of ys q) \<and> segment k (last_of xs u) (first_of ys q) ys l q"
proof (induction xs arbitrary: u p)
  case Nil
  then show ?case using segment_ends [of k u p ys l q] by auto
qed auto

lemma segment_frame:
  "(\<And>a. a \<in> set xs \<Longrightarrow> ch_next k' a = ch_next k a \<and> ch_prev k' a = ch_prev k a) \<Longrightarrow>
   segment k' u p xs l q = segment k u p xs l q"
  by (induction xs arbitrary: u p) auto

text \<open>A change of the link behind the last node, or of the one before the first.\<close>

lemma segment_last_next:
  assumes "segment k u p (xs @ [a]) l q" and "a \<notin> set xs"
    and "\<And>b. b \<in> set xs \<Longrightarrow> ch_next k' b = ch_next k b" and "\<And>b. b \<in> set (xs @ [a]) \<Longrightarrow> ch_prev k' b = ch_prev k b"
    and "ch_next k' a = q'"
  shows "segment k' u p (xs @ [a]) l q'"
  using assms(1-4)
proof (induction xs arbitrary: u p)
  case Nil
  then show ?case using assms(5) by auto
qed auto

lemma segment_first_prev:
  assumes "segment k u p (a # xs) l q" and "a \<notin> set xs"
    and "\<And>b. b \<in> set (a # xs) \<Longrightarrow> ch_next k' b = ch_next k b" and "\<And>b. b \<in> set xs \<Longrightarrow> ch_prev k' b = ch_prev k b"
    and "ch_prev k' a = u'"
  shows "segment k' u' p (a # xs) l q"
proof -
  have "segment k' (Some a) (ch_next k a) xs l q = segment k (Some a) (ch_next k a) xs l q"
    using assms(3,4) by (intro segment_frame) auto
  then show ?thesis using assms by auto
qed

section \<open>Linking in and out\<close>

definition link_in :: "'a option \<Rightarrow> 'a \<Rightarrow> 'a option \<Rightarrow> 'a chain \<Rightarrow> 'a chain" where
  "link_in u a v k =
     (let k1 = k\<lparr>ch_prev := (ch_prev k)(a := u), ch_next := (ch_next k)(a := v)\<rparr>;
          k2 = (case u of None \<Rightarrow> k1\<lparr>ch_head := Some a\<rparr> | Some b \<Rightarrow> k1\<lparr>ch_next := (ch_next k1)(b := Some a)\<rparr>)
      in (case v of None \<Rightarrow> k2\<lparr>ch_tail := Some a\<rparr> | Some b \<Rightarrow> k2\<lparr>ch_prev := (ch_prev k2)(b := Some a)\<rparr>))"

definition link_out :: "'a \<Rightarrow> 'a chain \<Rightarrow> 'a chain" where
  "link_out a k =
     (let k1 = (case ch_prev k a of None \<Rightarrow> k\<lparr>ch_head := ch_next k a\<rparr> | Some b \<Rightarrow> k\<lparr>ch_next := (ch_next k)(b := ch_next k a)\<rparr>)
      in (case ch_next k1 a of None \<Rightarrow> k1\<lparr>ch_tail := ch_prev k1 a\<rparr> | Some b \<Rightarrow> k1\<lparr>ch_prev := (ch_prev k1)(b := ch_prev k1 a)\<rparr>))"

lemma chained_link_in:
  assumes "chained k (xs @ ys)" and "a \<notin> set (xs @ ys)" and "u = last_of xs None" and "v = first_of ys None"
  shows "chained (link_in u a v k) (xs @ a # ys)"
proof -
  have d: "distinct xs" "distinct ys" "set xs \<inter> set ys = {}" and
    x: "segment k None (ch_head k) xs u v" and y: "segment k u v ys (ch_tail k) None"
    using assms by (auto simp: chained_def segment_append)
  let ?k = "link_in u a v k"
  have x': "segment ?k None (ch_head ?k) xs u (Some a)"
  proof (cases xs rule: rev_cases)
    case Nil
    then show ?thesis using assms(3,4) by (cases ys) (auto simp: link_in_def)
  next
    case (snoc zs b)
    then have u: "u = Some b" using assms(3) by simp
    have h: "ch_head ?k = ch_head k" "ch_next ?k b = Some a"
      using u assms(2,4) snoc by (cases ys; auto simp: link_in_def)+
    moreover have "ch_next ?k c = ch_next k c" if "c \<in> set zs" for c
      using that u assms(2,4) snoc d by (cases ys) (auto simp: link_in_def)
    moreover have "ch_prev ?k c = ch_prev k c" if "c \<in> set (zs @ [b])" for c
      using that u assms(2,4) snoc d by (cases ys) (auto simp: link_in_def)
    ultimately show ?thesis
      using segment_last_next [of k None "ch_head k" zs b u v ?k "Some a"] x snoc d u by auto
  qed
  have y': "segment ?k (Some a) v ys (ch_tail ?k) None"
  proof (cases ys)
    case Nil
    then show ?thesis using assms(3,4) by (cases xs rule: rev_cases) (auto simp: link_in_def)
  next
    case (Cons b zs)
    then have v: "v = Some b" using assms(4) by simp
    have h: "ch_tail ?k = ch_tail k" "ch_prev ?k b = Some a"
      using v assms(2,3) Cons by (cases xs rule: rev_cases; auto simp: link_in_def)+
    moreover have "ch_prev ?k c = ch_prev k c" if "c \<in> set zs" for c
      using that v assms(2,3) Cons d by (cases xs rule: rev_cases) (auto simp: link_in_def)
    moreover have "ch_next ?k c = ch_next k c" if "c \<in> set (b # zs)" for c
      using that v assms(2,3) Cons d by (cases xs rule: rev_cases) (auto simp: link_in_def)
    ultimately show ?thesis
      using segment_first_prev [of k u v b zs "ch_tail k" None ?k "Some a"] y Cons d v by auto
  qed
  have "ch_prev ?k a = u" "ch_next ?k a = v"
    using assms by (cases ys; cases xs rule: rev_cases; auto simp: link_in_def)+
  then show ?thesis
    using x' y' d assms(2,3) by (auto simp: chained_def segment_append)
qed

lemma chained_link_out:
  assumes "chained k (xs @ a # ys)"
  shows "chained (link_out a k) (xs @ ys)"
proof -
  define u where "u = last_of xs None"
  define v where "v = first_of ys None"
  have d: "distinct xs" "distinct ys" "set xs \<inter> set ys = {}" "a \<notin> set xs" "a \<notin> set ys" and
    x: "segment k None (ch_head k) xs u (Some a)" and y: "segment k (Some a) v ys (ch_tail k) None"
    and a: "ch_prev k a = u" "ch_next k a = v"
    using assms segment_ends [of k "Some a" "ch_next k a" ys "ch_tail k" None]
    by (auto simp: chained_def segment_append u_def v_def)
  let ?k = "link_out a k"
  have x': "segment ?k None (ch_head ?k) xs u v"
  proof (cases xs rule: rev_cases)
    case Nil
    then show ?thesis using a d by (cases ys) (auto simp: link_out_def u_def v_def)
  next
    case (snoc zs b)
    then have u: "u = Some b" by (simp add: u_def)
    have "ch_head ?k = ch_head k" "ch_next ?k b = v"
      using u a d snoc by (cases ys; auto simp: link_out_def v_def)+
    moreover have "ch_next ?k c = ch_next k c" if "c \<in> set zs" for c
      using that u a snoc d by (cases ys) (auto simp: link_out_def v_def)
    moreover have "ch_prev ?k c = ch_prev k c" if "c \<in> set (zs @ [b])" for c
      using that u a snoc d by (cases ys) (auto simp: link_out_def v_def)
    ultimately show ?thesis
      using segment_last_next [of k None "ch_head k" zs b u "Some a" ?k v] x snoc d u by auto
  qed
  have y': "segment ?k u v ys (ch_tail ?k) None"
  proof (cases ys)
    case Nil
    then show ?thesis using a d by (cases xs rule: rev_cases) (auto simp: link_out_def u_def v_def)
  next
    case (Cons b zs)
    then have v: "v = Some b" by (simp add: v_def)
    have "ch_tail ?k = ch_tail k" "ch_prev ?k b = u"
      using v a d Cons by (cases xs rule: rev_cases; auto simp: link_out_def u_def)+
    moreover have "ch_prev ?k c = ch_prev k c" if "c \<in> set zs" for c
      using that v a Cons d by (cases xs rule: rev_cases) (auto simp: link_out_def u_def)
    moreover have "ch_next ?k c = ch_next k c" if "c \<in> set (b # zs)" for c
      using that v a Cons d by (cases xs rule: rev_cases) (auto simp: link_out_def u_def)
    ultimately show ?thesis
      using segment_first_prev [of k "Some a" v b zs "ch_tail k" None ?k u] y Cons d v by auto
  qed
  show ?thesis using x' y' d by (auto simp: chained_def segment_append u_def v_def)
qed

lemma chained_ends: "chained k xs \<Longrightarrow> ch_head k = first_of xs None \<and> ch_tail k = last_of xs None"
  unfolding chained_def using segment_ends by fastforce

lemma chained_neighbours:
  assumes "chained k (xs @ a # ys)"
  shows "ch_prev k a = last_of xs None" "ch_next k a = first_of ys None"
  using assms segment_ends [of k "Some a" "ch_next k a" ys "ch_tail k" None]
  by (auto simp: chained_def segment_append)

end
