(* ===== verification/Cstl_Rbtree.thy ===== *)
theory Cstl_Rbtree
  imports Cstl_Storage Address_Tree Node_Chain "HOL-Library.Monad_Syntax"
begin

text \<open>
  The red-black tree behind CSTL's ordered containers (\<^verbatim>\<open>src/cstl/src/rbtree.c\<close>), on the level
  of its pointers. The nodes live at addresses in the store \<open>rb_nodes\<close>; a field is read and
  written through a pointer, and \<open>None\<close> is the outcome of a computation that dereferences NULL or
  a node that is not there, or that does not end. The address of a new node is the one the
  allocator returns.
\<close>

section \<open>Nodes and pointers\<close>

type_synonym addr = u64

record ('k, 'v) rbtree_node =
  rn_parent :: "addr ptr"
  rn_left :: "addr ptr"
  rn_right :: "addr ptr"
  rn_previous :: "addr ptr"
  rn_next :: "addr ptr"
  rn_key :: "'k option ptr"
  rn_value :: "'v option ptr"
  rn_red :: bool

record ('k, 'v) rbtree =
  rb_root :: "addr ptr"
  rb_head :: "addr ptr"
  rb_tail :: "addr ptr"
  rb_size :: size_t
  rb_key_size :: size_t
  rb_key_stride :: size_t
  rb_key_align :: size_t
  rb_value_size :: size_t
  rb_value_stride :: size_t
  rb_value_align :: size_t
  rb_element_limit :: size_t
  rb_key_type :: "'k cmeta_type_desc ptr"
  rb_value_type :: "'v cmeta_type_desc ptr"
  rb_compare :: "('k \<Rightarrow> 'k \<Rightarrow> nat ptr \<Rightarrow> int) ptr"
  rb_compare_context :: "nat ptr"
  rb_allow_duplicates :: bool
  rb_nodes :: "addr \<rightharpoonup> ('k, 'v) rbtree_node"

datatype rbtree_put_result = RBTREE_INSERTED | RBTREE_REPLACED

definition load :: "('k, 'v) rbtree \<Rightarrow> addr ptr \<Rightarrow> ('k, 'v) rbtree_node option" where
  "load t p = Option.bind p (rb_nodes t)"

definition store ::
  "addr ptr \<Rightarrow> (('k, 'v) rbtree_node \<Rightarrow> ('k, 'v) rbtree_node) \<Rightarrow> ('k, 'v) rbtree \<Rightarrow> ('k, 'v) rbtree option" where
  "store p f t =
     (case p of
        None \<Rightarrow> None
      | Some a \<Rightarrow> map_option (\<lambda>n. t\<lparr>rb_nodes := (rb_nodes t)(a \<mapsto> f n)\<rparr>) (rb_nodes t a))"

definition get_parent where "get_parent t p = map_option rn_parent (load t p)"
definition get_left where "get_left t p = map_option rn_left (load t p)"
definition get_right where "get_right t p = map_option rn_right (load t p)"
definition get_previous where "get_previous t p = map_option rn_previous (load t p)"
definition get_next where "get_next t p = map_option rn_next (load t p)"
definition get_red where "get_red t p = map_option rn_red (load t p)"

definition set_parent where "set_parent p v t = store p (\<lambda>n. n\<lparr>rn_parent := v\<rparr>) t"
definition set_left where "set_left p v t = store p (\<lambda>n. n\<lparr>rn_left := v\<rparr>) t"
definition set_right where "set_right p v t = store p (\<lambda>n. n\<lparr>rn_right := v\<rparr>) t"
definition set_previous where "set_previous p v t = store p (\<lambda>n. n\<lparr>rn_previous := v\<rparr>) t"
definition set_next where "set_next p v t = store p (\<lambda>n. n\<lparr>rn_next := v\<rparr>) t"
definition set_red where "set_red p v t = store p (\<lambda>n. n\<lparr>rn_red := v\<rparr>) t"
definition set_value where "set_value p v t = store p (\<lambda>n. n\<lparr>rn_value := v\<rparr>) t"

definition get_key :: "('k, 'v) rbtree \<Rightarrow> addr ptr \<Rightarrow> 'k option" where
  "get_key t p = do { n \<leftarrow> load t p; slot \<leftarrow> rn_key n; slot }"

section \<open>Objects\<close>

definition rbtree_compare_key :: "('k, 'v) rbtree \<Rightarrow> 'k \<Rightarrow> 'k \<Rightarrow> int option" where
  "rbtree_compare_key tree lhs rhs =
     (case rb_key_type tree of
        Some type \<Rightarrow> do { traits \<leftarrow> td_traits type; compare \<leftarrow> tr_compare traits; Some (compare lhs rhs) }
      | None \<Rightarrow> do { compare \<leftarrow> rb_compare tree; Some (compare lhs rhs (rb_compare_context tree)) })"

definition rbtree_copy_object ::
  "'a cmeta_type_desc ptr \<Rightarrow> size_t \<Rightarrow> size_t \<Rightarrow> 'a option ptr \<Rightarrow> env \<Rightarrow> stl_status \<times> 'a option ptr \<times> env" where
  "rbtree_copy_object type stride alignment source e =
     (if source = NULL then (STL_INVALID_ARGUMENT, NULL, e)
      else
        case sequence_allocate 1 stride alignment (Some NULL) e of
          (st, cell, e1) \<Rightarrow>
            if st \<noteq> STL_OK then (st, NULL, e1)
            else
              case sequence_copy type (map_option (\<lambda>_. None) (the cell)) source of
                (st2, object) \<Rightarrow>
                  if st2 \<noteq> STL_OK then (st2, NULL, sequence_deallocate object e1)
                  else (STL_OK, object, e1))"

definition rbtree_destroy_object :: "'a cmeta_type_desc ptr \<Rightarrow> 'a option ptr \<Rightarrow> env \<Rightarrow> env" where
  "rbtree_destroy_object type object e =
     (if object = NULL then e
      else case sequence_destroy_value type object of (_, object') \<Rightarrow> sequence_deallocate object' e)"

text \<open>A node with a copy of the key and the value, in the store at the address \<open>calloc\<close> returned.\<close>

definition rbtree_node_create ::
  "('k, 'v) rbtree \<Rightarrow> 'k option ptr \<Rightarrow> 'v option ptr \<Rightarrow> env \<Rightarrow>
   stl_status \<times> addr ptr \<times> ('k, 'v) rbtree \<times> env" where
  "rbtree_node_create tree key val e =
     (case malloc e of
        (None, e1) \<Rightarrow> (STL_OUT_OF_MEMORY, NULL, tree, e1)
      | (Some a, e1) \<Rightarrow>
          (case rbtree_copy_object (rb_key_type tree) (rb_key_stride tree) (rb_key_align tree) key e1 of
             (st, k, e2) \<Rightarrow>
               if st \<noteq> STL_OK
               then (st, NULL, tree, free_block (rbtree_destroy_object (rb_key_type tree) k e2))
               else
                 case rbtree_copy_object (rb_value_type tree) (rb_value_stride tree) (rb_value_align tree) val e2 of
                   (st, v, e3) \<Rightarrow>
                     if st \<noteq> STL_OK
                     then (st, NULL, tree, free_block (rbtree_destroy_object (rb_key_type tree) k e3))
                     else (STL_OK, Some a,
                           tree\<lparr>rb_nodes := (rb_nodes tree)(a \<mapsto>
                             \<lparr>rn_parent = NULL, rn_left = NULL, rn_right = NULL, rn_previous = NULL, rn_next = NULL,
                              rn_key = k, rn_value = v, rn_red = True\<rparr>)\<rparr>, e3)))"

section \<open>Rotations and insertion\<close>

definition rbtree_is_red :: "('k, 'v) rbtree \<Rightarrow> addr ptr \<Rightarrow> bool option" where
  "rbtree_is_red t node = (if node = NULL then Some False else get_red t node)"

definition rbtree_is_black :: "('k, 'v) rbtree \<Rightarrow> addr ptr \<Rightarrow> bool option" where
  "rbtree_is_black t node = (if node = NULL then Some True else map_option Not (get_red t node))"

definition rbtree_rotate_left :: "('k, 'v) rbtree \<Rightarrow> addr ptr \<Rightarrow> ('k, 'v) rbtree option" where
  "rbtree_rotate_left t node = do {
     pivot \<leftarrow> get_right t node;
     inner \<leftarrow> get_left t pivot;
     t \<leftarrow> set_right node inner t;
     inner \<leftarrow> get_left t pivot;
     t \<leftarrow> (if inner \<noteq> NULL then set_parent inner node t else Some t);
     parent \<leftarrow> get_parent t node;
     t \<leftarrow> set_parent pivot parent t;
     parent \<leftarrow> get_parent t node;
     t \<leftarrow> (if parent = NULL then Some (t\<lparr>rb_root := pivot\<rparr>)
          else do {
            child \<leftarrow> get_left t parent;
            if node = child then set_left parent pivot t else set_right parent pivot t
          });
     t \<leftarrow> set_left pivot node t;
     set_parent node pivot t
   }"

definition rbtree_rotate_right :: "('k, 'v) rbtree \<Rightarrow> addr ptr \<Rightarrow> ('k, 'v) rbtree option" where
  "rbtree_rotate_right t node = do {
     pivot \<leftarrow> get_left t node;
     inner \<leftarrow> get_right t pivot;
     t \<leftarrow> set_left node inner t;
     inner \<leftarrow> get_right t pivot;
     t \<leftarrow> (if inner \<noteq> NULL then set_parent inner node t else Some t);
     parent \<leftarrow> get_parent t node;
     t \<leftarrow> set_parent pivot parent t;
     parent \<leftarrow> get_parent t node;
     t \<leftarrow> (if parent = NULL then Some (t\<lparr>rb_root := pivot\<rparr>)
          else do {
            child \<leftarrow> get_right t parent;
            if node = child then set_right parent pivot t else set_left parent pivot t
          });
     t \<leftarrow> set_right pivot node t;
     set_parent node pivot t
   }"

text \<open>One iteration of \<open>rbtree_insert_fix\<close>, for a parent that is a left and a right child: the
  tree and the node to go on with.\<close>

definition insert_fix_left ::
  "('k, 'v) rbtree \<Rightarrow> addr ptr \<Rightarrow> addr ptr \<Rightarrow> addr ptr \<Rightarrow> (('k, 'v) rbtree \<times> addr ptr) option" where
  "insert_fix_left t node parent grandparent = do {
     uncle \<leftarrow> get_right t grandparent;
     uncle_red \<leftarrow> rbtree_is_red t uncle;
     if uncle_red then do {
       t \<leftarrow> set_red parent False t;
       t \<leftarrow> set_red uncle False t;
       t \<leftarrow> set_red grandparent True t;
       Some (t, grandparent)
     } else do {
       inner \<leftarrow> get_right t parent;
       (t, node, parent, grandparent) \<leftarrow>
         (if node = inner then do {
            t \<leftarrow> rbtree_rotate_left t parent;
            above \<leftarrow> get_parent t parent;
            top \<leftarrow> get_parent t above;
            Some (t, parent, above, top)
          } else Some (t, node, parent, grandparent));
       t \<leftarrow> set_red parent False t;
       t \<leftarrow> set_red grandparent True t;
       t \<leftarrow> rbtree_rotate_right t grandparent;
       Some (t, node)
     }
   }"

definition insert_fix_right ::
  "('k, 'v) rbtree \<Rightarrow> addr ptr \<Rightarrow> addr ptr \<Rightarrow> addr ptr \<Rightarrow> (('k, 'v) rbtree \<times> addr ptr) option" where
  "insert_fix_right t node parent grandparent = do {
     uncle \<leftarrow> get_left t grandparent;
     uncle_red \<leftarrow> rbtree_is_red t uncle;
     if uncle_red then do {
       t \<leftarrow> set_red parent False t;
       t \<leftarrow> set_red uncle False t;
       t \<leftarrow> set_red grandparent True t;
       Some (t, grandparent)
     } else do {
       inner \<leftarrow> get_left t parent;
       (t, node, parent, grandparent) \<leftarrow>
         (if node = inner then do {
            t \<leftarrow> rbtree_rotate_right t parent;
            above \<leftarrow> get_parent t parent;
            top \<leftarrow> get_parent t above;
            Some (t, parent, above, top)
          } else Some (t, node, parent, grandparent));
       t \<leftarrow> set_red parent False t;
       t \<leftarrow> set_red grandparent True t;
       t \<leftarrow> rbtree_rotate_left t grandparent;
       Some (t, node)
     }
   }"

partial_function (option) insert_fix_loop ::
  "('k, 'v) rbtree \<Rightarrow> addr ptr \<Rightarrow> ('k, 'v) rbtree option" where
  "insert_fix_loop t node = do {
     parent \<leftarrow> get_parent t node;
     parent_red \<leftarrow> rbtree_is_red t parent;
     if \<not> parent_red then Some t
     else do {
       grandparent \<leftarrow> get_parent t parent;
       child \<leftarrow> get_left t grandparent;
       s \<leftarrow> (if parent = child then insert_fix_left t node parent grandparent
            else insert_fix_right t node parent grandparent);
       insert_fix_loop (fst s) (snd s)
     }
   }"

definition rbtree_insert_fix :: "('k, 'v) rbtree \<Rightarrow> addr ptr \<Rightarrow> ('k, 'v) rbtree option" where
  "rbtree_insert_fix t node = do { t \<leftarrow> insert_fix_loop t node; set_red (rb_root t) False t }"

section \<open>Creation and clearing\<close>

definition rbtree_create ::
  "('k, 'v) rbtree ptr ptr \<Rightarrow> 'k cmeta_type_desc ptr \<Rightarrow> 'v cmeta_type_desc ptr \<Rightarrow> size_t \<Rightarrow> size_t \<Rightarrow> size_t \<Rightarrow>
   size_t \<Rightarrow> size_t \<Rightarrow> ('k \<Rightarrow> 'k \<Rightarrow> nat ptr \<Rightarrow> int) ptr \<Rightarrow> nat ptr \<Rightarrow> bool \<Rightarrow> env \<Rightarrow>
   stl_status \<times> ('k, 'v) rbtree ptr ptr \<times> env" where
  "rbtree_create out_tree key_type value_type key_size key_align value_size value_align element_limit
      compare compare_context allow_duplicates e =
     (if out_tree = NULL \<or> (value_type = NULL \<and> value_size = 0) \<or> (key_type = NULL \<and> compare = NULL)
      then (STL_INVALID_ARGUMENT, out_tree, e)
      else
        case sequence_stride key_size key_align (Some 0) of (st, key_stride) \<Rightarrow>
        if st \<noteq> STL_OK then (st, Some NULL, e)
        else
          case sequence_stride value_size value_align (Some 0) of (st, value_stride) \<Rightarrow>
          if st \<noteq> STL_OK then (st, Some NULL, e)
          else
            case malloc e of
              (None, e1) \<Rightarrow> (STL_OUT_OF_MEMORY, Some NULL, e1)
            | (Some _, e1) \<Rightarrow>
                (STL_OK,
                 Some (Some \<lparr>rb_root = NULL, rb_head = NULL, rb_tail = NULL, rb_size = 0, rb_key_size = key_size,
                   rb_key_stride = the key_stride, rb_key_align = key_align, rb_value_size = value_size,
                   rb_value_stride = the value_stride, rb_value_align = value_align,
                   rb_element_limit = element_limit, rb_key_type = key_type, rb_value_type = value_type,
                   rb_compare = compare, rb_compare_context = compare_context,
                   rb_allow_duplicates = allow_duplicates, rb_nodes = Map.empty\<rparr>), e1))"

partial_function (option) clear_loop ::
  "('k, 'v) rbtree \<Rightarrow> addr ptr \<Rightarrow> env \<Rightarrow> (('k, 'v) rbtree \<times> env) option" where
  "clear_loop t node e =
     (if node = NULL then Some (t, e)
      else do {
        n \<leftarrow> load t node;
        let e = rbtree_destroy_object (rb_key_type t) (rn_key n) e;
        let e = rbtree_destroy_object (rb_value_type t) (rn_value n) e;
        clear_loop (t\<lparr>rb_nodes := (rb_nodes t)(the node := None)\<rparr>) (rn_next n) (free_block e)
      })"

definition rbtree_clear :: "('k, 'v) rbtree ptr \<Rightarrow> env \<Rightarrow> (('k, 'v) rbtree ptr \<times> env) option" where
  "rbtree_clear tree e =
     (case tree of
        None \<Rightarrow> Some (NULL, e)
      | Some t \<Rightarrow> do {
          s \<leftarrow> clear_loop t (rb_head t) e;
          Some (Some ((fst s)\<lparr>rb_root := NULL, rb_head := NULL, rb_tail := NULL, rb_size := 0\<rparr>), snd s)
        })"

definition rbtree_destroy :: "('k, 'v) rbtree ptr \<Rightarrow> env \<Rightarrow> env option" where
  "rbtree_destroy tree e =
     (if tree = NULL then Some e
      else do { s \<leftarrow> rbtree_clear tree e; Some (free_block (snd s)) })"

section \<open>Search\<close>

partial_function (option) find_loop ::
  "('k, 'v) rbtree \<Rightarrow> 'k \<Rightarrow> addr ptr \<Rightarrow> addr ptr option" where
  "find_loop t key node =
     (if node = NULL then Some NULL
      else do {
        k \<leftarrow> get_key t node;
        comparison \<leftarrow> rbtree_compare_key t key k;
        if comparison = 0 then Some node
        else do {
          below \<leftarrow> (if comparison < 0 then get_left t node else get_right t node);
          find_loop t key below
        }
      })"

definition rbtree_find :: "('k, 'v) rbtree ptr \<Rightarrow> 'k ptr \<Rightarrow> addr ptr option" where
  "rbtree_find tree key =
     (if tree = NULL \<or> key = NULL then Some NULL else find_loop (the tree) (the key) (rb_root (the tree)))"

text \<open>The loop of the two bounds: go right while \<open>rightwards\<close> holds of the comparison.\<close>

partial_function (option) bound_loop ::
  "(int \<Rightarrow> bool) \<Rightarrow> ('k, 'v) rbtree \<Rightarrow> 'k \<Rightarrow> addr ptr \<Rightarrow> addr ptr \<Rightarrow> addr ptr option" where
  "bound_loop rightwards t key node result =
     (if node = NULL then Some result
      else do {
        k \<leftarrow> get_key t node;
        comparison \<leftarrow> rbtree_compare_key t k key;
        if rightwards comparison then do { below \<leftarrow> get_right t node; bound_loop rightwards t key below result }
        else do { below \<leftarrow> get_left t node; bound_loop rightwards t key below node }
      })"

definition rbtree_lower_bound :: "('k, 'v) rbtree ptr \<Rightarrow> 'k ptr \<Rightarrow> addr ptr option" where
  "rbtree_lower_bound tree key =
     (if tree = NULL \<or> key = NULL then Some NULL
      else bound_loop (\<lambda>comparison. comparison < 0) (the tree) (the key) (rb_root (the tree)) NULL)"

definition rbtree_upper_bound :: "('k, 'v) rbtree ptr \<Rightarrow> 'k ptr \<Rightarrow> addr ptr option" where
  "rbtree_upper_bound tree key =
     (if tree = NULL \<or> key = NULL then Some NULL
      else bound_loop (\<lambda>comparison. comparison \<le> 0) (the tree) (the key) (rb_root (the tree)) NULL)"

section \<open>Insertion\<close>

text \<open>The descent of \<open>rbtree_put\<close>: the node whose value is to be replaced or NULL, the last node
  visited and the last comparison.\<close>

partial_function (option) put_search ::
  "('k, 'v) rbtree \<Rightarrow> 'k \<Rightarrow> addr ptr \<Rightarrow> addr ptr \<Rightarrow> int \<Rightarrow> (addr ptr \<times> addr ptr \<times> int) option" where
  "put_search t key node parent comparison =
     (if node = NULL then Some (NULL, parent, comparison)
      else do {
        k \<leftarrow> get_key t node;
        comparison \<leftarrow> rbtree_compare_key t key k;
        if comparison = 0 \<and> \<not> rb_allow_duplicates t then Some (node, node, comparison)
        else do {
          below \<leftarrow> (if comparison < 0 then get_left t node else get_right t node);
          put_search t key below node comparison
        }
      })"

text \<open>The new node becomes a child of \<open>parent\<close> and its neighbour in key order.\<close>

definition put_link ::
  "('k, 'v) rbtree \<Rightarrow> addr ptr \<Rightarrow> addr ptr \<Rightarrow> int \<Rightarrow> ('k, 'v) rbtree option" where
  "put_link t node parent comparison = do {
     t \<leftarrow> set_parent node parent t;
     if parent = NULL then Some (t\<lparr>rb_root := node, rb_head := node, rb_tail := node\<rparr>)
     else if comparison < 0 then do {
       t \<leftarrow> set_left parent node t;
       t \<leftarrow> set_next node parent t;
       neighbour \<leftarrow> get_previous t parent;
       t \<leftarrow> set_previous node neighbour t;
       t \<leftarrow> set_previous parent node t;
       neighbour \<leftarrow> get_previous t node;
       if neighbour \<noteq> NULL then set_next neighbour node t else Some (t\<lparr>rb_head := node\<rparr>)
     } else do {
       t \<leftarrow> set_right parent node t;
       t \<leftarrow> set_previous node parent t;
       neighbour \<leftarrow> get_next t parent;
       t \<leftarrow> set_next node neighbour t;
       t \<leftarrow> set_next parent node t;
       neighbour \<leftarrow> get_next t node;
       if neighbour \<noteq> NULL then set_previous neighbour node t else Some (t\<lparr>rb_tail := node\<rparr>)
     }
   }"

definition put_replace ::
  "('k, 'v) rbtree \<Rightarrow> addr ptr \<Rightarrow> 'v option ptr \<Rightarrow> rbtree_put_result ptr \<Rightarrow> env \<Rightarrow>
   (stl_status \<times> ('k, 'v) rbtree \<times> rbtree_put_result ptr \<times> env) option" where
  "put_replace t node val out_result e =
     (case rbtree_copy_object (rb_value_type t) (rb_value_stride t) (rb_value_align t) val e of
        (st, replacement, e1) \<Rightarrow>
          if st \<noteq> STL_OK then Some (st, t, out_result, e1)
          else do {
            n \<leftarrow> load t node;
            t1 \<leftarrow> set_value node replacement t;
            Some (STL_OK, t1, Some RBTREE_REPLACED, rbtree_destroy_object (rb_value_type t) (rn_value n) e1)
          })"

definition put_insert ::
  "('k, 'v) rbtree \<Rightarrow> 'k option ptr \<Rightarrow> 'v option ptr \<Rightarrow> addr ptr \<Rightarrow> int \<Rightarrow> rbtree_put_result ptr \<Rightarrow> env \<Rightarrow>
   (stl_status \<times> ('k, 'v) rbtree \<times> rbtree_put_result ptr \<times> env) option" where
  "put_insert t key val parent comparison out_result e =
     (if rb_element_limit t \<le> rb_size t then Some (STL_CAPACITY_EXCEEDED, t, out_result, e)
      else
        case rbtree_node_create t key val e of (st, node, t1, e1) \<Rightarrow>
          if node = NULL then Some (st, t1, out_result, e1)
          else do {
            t2 \<leftarrow> put_link t1 node parent comparison;
            t3 \<leftarrow> rbtree_insert_fix t2 node;
            Some (STL_OK, t3\<lparr>rb_size := rb_size t3 + 1\<rparr>, Some RBTREE_INSERTED, e1)
          })"

definition rbtree_put ::
  "('k, 'v) rbtree ptr \<Rightarrow> 'k option ptr \<Rightarrow> 'v option ptr \<Rightarrow> rbtree_put_result ptr \<Rightarrow> env \<Rightarrow>
   (stl_status \<times> ('k, 'v) rbtree ptr \<times> rbtree_put_result ptr \<times> env) option" where
  "rbtree_put tree key val out_result e =
     (if tree = NULL \<or> key = NULL \<or> val = NULL \<or> out_result = NULL
      then Some (STL_INVALID_ARGUMENT, tree, out_result, e)
      else do {
        k \<leftarrow> the key;
        (found, parent, comparison) \<leftarrow> put_search (the tree) k (rb_root (the tree)) NULL 0;
        (st, t, out, e1) \<leftarrow>
          (if found \<noteq> NULL then put_replace (the tree) found val out_result e
           else put_insert (the tree) key val parent comparison out_result e);
        Some (st, Some t, out, e1)
      })"

section \<open>Removal\<close>

partial_function (option) rbtree_minimum :: "('k, 'v) rbtree \<Rightarrow> addr ptr \<Rightarrow> addr ptr option" where
  "rbtree_minimum t node =
     (if node = NULL then Some node
      else do {
        below \<leftarrow> get_left t node;
        if below \<noteq> NULL then rbtree_minimum t below else Some node
      })"

definition rbtree_transplant ::
  "('k, 'v) rbtree \<Rightarrow> addr ptr \<Rightarrow> addr ptr \<Rightarrow> ('k, 'v) rbtree option" where
  "rbtree_transplant t removed replacement = do {
     parent \<leftarrow> get_parent t removed;
     t \<leftarrow> (if parent = NULL then Some (t\<lparr>rb_root := replacement\<rparr>)
          else do {
            child \<leftarrow> get_left t parent;
            if removed = child then set_left parent replacement t else set_right parent replacement t
          });
     if replacement \<noteq> NULL then do { parent \<leftarrow> get_parent t removed; set_parent replacement parent t }
     else Some t
   }"

text \<open>One iteration of \<open>rbtree_delete_fix\<close>, for a node that is a left and a right child: first a red
  sibling is rotated away, then the black one is treated by the colours of its children. The result is the tree and the node and
  parent to go on with.\<close>

definition red_sibling_left ::
  "('k, 'v) rbtree \<Rightarrow> addr ptr \<Rightarrow> addr ptr \<Rightarrow> (('k, 'v) rbtree \<times> addr ptr) option" where
  "red_sibling_left t parent sibling = do {
     sibling_red \<leftarrow> rbtree_is_red t sibling;
     if sibling_red then do {
       t \<leftarrow> set_red sibling False t;
       t \<leftarrow> set_red parent True t;
       t \<leftarrow> rbtree_rotate_left t parent;
       sibling \<leftarrow> get_right t parent;
       Some (t, sibling)
     } else Some (t, sibling)
   }"

definition near_nephew_left ::
  "('k, 'v) rbtree \<Rightarrow> addr ptr \<Rightarrow> addr ptr \<Rightarrow> addr ptr \<Rightarrow> (('k, 'v) rbtree \<times> addr ptr) option" where
  "near_nephew_left t parent sibling near = do {
     t \<leftarrow> (if near \<noteq> NULL then set_red near False t else Some t);
     t \<leftarrow> set_red sibling True t;
     t \<leftarrow> rbtree_rotate_right t sibling;
     sibling \<leftarrow> get_right t parent;
     Some (t, sibling)
   }"

definition far_nephew_left ::
  "('k, 'v) rbtree \<Rightarrow> addr ptr \<Rightarrow> addr ptr \<Rightarrow> (('k, 'v) rbtree \<times> addr ptr \<times> addr ptr) option" where
  "far_nephew_left t parent sibling = do {
     parent_red \<leftarrow> get_red t parent;
     t \<leftarrow> set_red sibling parent_red t;
     t \<leftarrow> set_red parent False t;
     far \<leftarrow> get_right t sibling;
     t \<leftarrow> (if far \<noteq> NULL then set_red far False t else Some t);
     t \<leftarrow> rbtree_rotate_left t parent;
     Some (t, rb_root t, NULL)
   }"

definition black_sibling_left ::
  "('k, 'v) rbtree \<Rightarrow> addr ptr \<Rightarrow> addr ptr \<Rightarrow> (('k, 'v) rbtree \<times> addr ptr \<times> addr ptr) option" where
  "black_sibling_left t parent sibling = do {
     near \<leftarrow> get_left t sibling;
     far \<leftarrow> get_right t sibling;
     near_black \<leftarrow> rbtree_is_black t near;
     far_black \<leftarrow> rbtree_is_black t far;
     if near_black \<and> far_black then do {
       t \<leftarrow> set_red sibling True t;
       above \<leftarrow> get_parent t parent;
       Some (t, parent, above)
     } else do {
       (t, sibling) \<leftarrow> (if far_black then near_nephew_left t parent sibling near else Some (t, sibling));
       far_nephew_left t parent sibling
     }
   }"

definition delete_fix_left ::
  "('k, 'v) rbtree \<Rightarrow> addr ptr \<Rightarrow> (('k, 'v) rbtree \<times> addr ptr \<times> addr ptr) option" where
  "delete_fix_left t parent = do {
     sibling \<leftarrow> get_right t parent;
     (t, sibling) \<leftarrow> red_sibling_left t parent sibling;
     if sibling = NULL then do { above \<leftarrow> get_parent t parent; Some (t, parent, above) }
     else black_sibling_left t parent sibling
   }"

definition red_sibling_right ::
  "('k, 'v) rbtree \<Rightarrow> addr ptr \<Rightarrow> addr ptr \<Rightarrow> (('k, 'v) rbtree \<times> addr ptr) option" where
  "red_sibling_right t parent sibling = do {
     sibling_red \<leftarrow> rbtree_is_red t sibling;
     if sibling_red then do {
       t \<leftarrow> set_red sibling False t;
       t \<leftarrow> set_red parent True t;
       t \<leftarrow> rbtree_rotate_right t parent;
       sibling \<leftarrow> get_left t parent;
       Some (t, sibling)
     } else Some (t, sibling)
   }"

definition near_nephew_right ::
  "('k, 'v) rbtree \<Rightarrow> addr ptr \<Rightarrow> addr ptr \<Rightarrow> addr ptr \<Rightarrow> (('k, 'v) rbtree \<times> addr ptr) option" where
  "near_nephew_right t parent sibling near = do {
     t \<leftarrow> (if near \<noteq> NULL then set_red near False t else Some t);
     t \<leftarrow> set_red sibling True t;
     t \<leftarrow> rbtree_rotate_left t sibling;
     sibling \<leftarrow> get_left t parent;
     Some (t, sibling)
   }"

definition far_nephew_right ::
  "('k, 'v) rbtree \<Rightarrow> addr ptr \<Rightarrow> addr ptr \<Rightarrow> (('k, 'v) rbtree \<times> addr ptr \<times> addr ptr) option" where
  "far_nephew_right t parent sibling = do {
     parent_red \<leftarrow> get_red t parent;
     t \<leftarrow> set_red sibling parent_red t;
     t \<leftarrow> set_red parent False t;
     far \<leftarrow> get_left t sibling;
     t \<leftarrow> (if far \<noteq> NULL then set_red far False t else Some t);
     t \<leftarrow> rbtree_rotate_right t parent;
     Some (t, rb_root t, NULL)
   }"

definition black_sibling_right ::
  "('k, 'v) rbtree \<Rightarrow> addr ptr \<Rightarrow> addr ptr \<Rightarrow> (('k, 'v) rbtree \<times> addr ptr \<times> addr ptr) option" where
  "black_sibling_right t parent sibling = do {
     near \<leftarrow> get_right t sibling;
     far \<leftarrow> get_left t sibling;
     near_black \<leftarrow> rbtree_is_black t near;
     far_black \<leftarrow> rbtree_is_black t far;
     if near_black \<and> far_black then do {
       t \<leftarrow> set_red sibling True t;
       above \<leftarrow> get_parent t parent;
       Some (t, parent, above)
     } else do {
       (t, sibling) \<leftarrow> (if far_black then near_nephew_right t parent sibling near else Some (t, sibling));
       far_nephew_right t parent sibling
     }
   }"

definition delete_fix_right ::
  "('k, 'v) rbtree \<Rightarrow> addr ptr \<Rightarrow> (('k, 'v) rbtree \<times> addr ptr \<times> addr ptr) option" where
  "delete_fix_right t parent = do {
     sibling \<leftarrow> get_left t parent;
     (t, sibling) \<leftarrow> red_sibling_right t parent sibling;
     if sibling = NULL then do { above \<leftarrow> get_parent t parent; Some (t, parent, above) }
     else black_sibling_right t parent sibling
   }"

partial_function (option) delete_fix_loop ::
  "('k, 'v) rbtree \<Rightarrow> addr ptr \<Rightarrow> addr ptr \<Rightarrow> (('k, 'v) rbtree \<times> addr ptr) option" where
  "delete_fix_loop t node parent =
     (if node = rb_root t then Some (t, node)
      else do {
        node_black \<leftarrow> rbtree_is_black t node;
        if \<not> node_black \<or> parent = NULL then Some (t, node)
        else do {
          child \<leftarrow> get_left t parent;
          s \<leftarrow> (if node = child then delete_fix_left t parent else delete_fix_right t parent);
          delete_fix_loop (fst s) (fst (snd s)) (snd (snd s))
        }
      })"

definition rbtree_delete_fix ::
  "('k, 'v) rbtree \<Rightarrow> addr ptr \<Rightarrow> addr ptr \<Rightarrow> ('k, 'v) rbtree option" where
  "rbtree_delete_fix t node parent = do {
     s \<leftarrow> delete_fix_loop t node parent;
     if snd s \<noteq> NULL then set_red (snd s) False (fst s) else Some (fst s)
   }"

text \<open>The node that will take the removed one's place leaves its own and takes over the right subtree.\<close>

definition detach_successor ::
  "('k, 'v) rbtree \<Rightarrow> addr ptr \<Rightarrow> addr ptr \<Rightarrow> (('k, 'v) rbtree \<times> addr ptr) option" where
  "detach_successor t node moved = do {
     m \<leftarrow> load t moved;
     if rn_parent m = node then do {
       t \<leftarrow> (if rn_right m \<noteq> NULL then set_parent (rn_right m) moved t else Some t);
       Some (t, moved)
     } else do {
       t \<leftarrow> rbtree_transplant t moved (rn_right m);
       outer \<leftarrow> get_right t node;
       t \<leftarrow> set_right moved outer t;
       outer \<leftarrow> get_right t moved;
       t \<leftarrow> set_parent outer moved t;
       Some (t, rn_parent m)
     }
   }"

text \<open>The node leaves the tree: the new tree, whether the node that moved was red, and where the
  repair has to start.\<close>

definition remove_unlink ::
  "('k, 'v) rbtree \<Rightarrow> addr ptr \<Rightarrow> (('k, 'v) rbtree \<times> bool \<times> addr ptr \<times> addr ptr) option" where
  "remove_unlink t node = do {
     n \<leftarrow> load t node;
     if rn_left n = NULL then do {
       t \<leftarrow> rbtree_transplant t node (rn_right n);
       Some (t, rn_red n, rn_right n, rn_parent n)
     } else if rn_right n = NULL then do {
       t \<leftarrow> rbtree_transplant t node (rn_left n);
       Some (t, rn_red n, rn_left n, rn_parent n)
     } else do {
       moved \<leftarrow> rbtree_minimum t (rn_right n);
       m \<leftarrow> load t moved;
       (t, fix_parent) \<leftarrow> detach_successor t node moved;
       t \<leftarrow> rbtree_transplant t node moved;
       inner \<leftarrow> get_left t node;
       t \<leftarrow> set_left moved inner t;
       inner \<leftarrow> get_left t moved;
       t \<leftarrow> set_parent inner moved t;
       colour \<leftarrow> get_red t node;
       t \<leftarrow> set_red moved colour t;
       Some (t, rn_red m, rn_right m, fix_parent)
     }
   }"

definition remove_unchain :: "('k, 'v) rbtree \<Rightarrow> addr ptr \<Rightarrow> ('k, 'v) rbtree option" where
  "remove_unchain t node = do {
     n \<leftarrow> load t node;
     t \<leftarrow> (if rn_previous n \<noteq> NULL then set_next (rn_previous n) (rn_next n) t else Some (t\<lparr>rb_head := rn_next n\<rparr>));
     n \<leftarrow> load t node;
     if rn_next n \<noteq> NULL then set_previous (rn_next n) (rn_previous n) t else Some (t\<lparr>rb_tail := rn_previous n\<rparr>)
   }"

definition rbtree_remove_node ::
  "('k, 'v) rbtree ptr \<Rightarrow> addr ptr \<Rightarrow> 'v option ptr \<Rightarrow> env \<Rightarrow>
   (stl_status \<times> ('k, 'v) rbtree ptr \<times> 'v option ptr \<times> env) option" where
  "rbtree_remove_node tree node out_value e =
     (if tree = NULL \<or> node = NULL then Some (STL_INVALID_ARGUMENT, tree, out_value, e)
      else do {
        n \<leftarrow> load (the tree) node;
        let (st, out, v) =
          (if out_value \<noteq> NULL then sequence_move_destroy (rb_value_type (the tree)) out_value (rn_value n)
           else case sequence_destroy_value (rb_value_type (the tree)) (rn_value n) of (st, v) \<Rightarrow> (st, NULL, v));
        t \<leftarrow> set_value node v (the tree);
        if st \<noteq> STL_OK then Some (st, Some t, out, e)
        else do {
          (t, moved_was_red, fix_node, fix_parent) \<leftarrow> remove_unlink t node;
          t \<leftarrow> (if \<not> moved_was_red then rbtree_delete_fix t fix_node fix_parent else Some t);
          t \<leftarrow> remove_unchain t node;
          n \<leftarrow> load t node;
          let e = rbtree_destroy_object (rb_key_type t) (rn_key n) e;
          let e = sequence_deallocate (rn_value n) e;
          Some (STL_OK,
                Some (t\<lparr>rb_nodes := (rb_nodes t)(the node := None), rb_size := rb_size t - 1\<rparr>), out, free_block e)
        }
      })"

section \<open>Views of the store\<close>

definition live :: "('k, 'v) rbtree \<Rightarrow> addr set" where
  "live t = dom (rb_nodes t)"

definition links :: "('k, 'v) rbtree \<Rightarrow> addr links" where
  "links t = \<lparr>lk_left = (\<lambda>a. Option.bind (rb_nodes t a) rn_left), lk_right = (\<lambda>a. Option.bind (rb_nodes t a) rn_right),
     lk_parent = (\<lambda>a. Option.bind (rb_nodes t a) rn_parent)\<rparr>"

definition thread :: "('k, 'v) rbtree \<Rightarrow> addr chain" where
  "thread t = \<lparr>ch_next = (\<lambda>a. Option.bind (rb_nodes t a) rn_next), ch_prev = (\<lambda>a. Option.bind (rb_nodes t a) rn_previous),
     ch_head = rb_head t, ch_tail = rb_tail t\<rparr>"

definition reds :: "('k, 'v) rbtree \<Rightarrow> addr \<Rightarrow> bool" where
  "reds t a = (case rb_nodes t a of None \<Rightarrow> False | Some n \<Rightarrow> rn_red n)"

definition node_key :: "('k, 'v) rbtree \<Rightarrow> addr \<Rightarrow> 'k option ptr" where
  "node_key t a = Option.bind (rb_nodes t a) rn_key"

definition node_value :: "('k, 'v) rbtree \<Rightarrow> addr \<Rightarrow> 'v option ptr" where
  "node_value t a = Option.bind (rb_nodes t a) rn_value"

text \<open>What no operation on a node changes.\<close>

definition fixed :: "('k, 'v) rbtree \<Rightarrow> ('k, 'v) rbtree" where
  "fixed t = t\<lparr>rb_root := NULL, rb_head := NULL, rb_tail := NULL, rb_size := 0, rb_nodes := Map.empty\<rparr>"

definition put_node ::
  "addr \<Rightarrow> (('k, 'v) rbtree_node \<Rightarrow> ('k, 'v) rbtree_node) \<Rightarrow> ('k, 'v) rbtree \<Rightarrow> ('k, 'v) rbtree" where
  "put_node a f t = t\<lparr>rb_nodes := (rb_nodes t)(a \<mapsto> f (the (rb_nodes t a)))\<rparr>"

lemma liveE: "a \<in> live t \<Longrightarrow> (\<And>n. rb_nodes t a = Some n \<Longrightarrow> P) \<Longrightarrow> P"
  by (auto simp: live_def)

lemma get_live [simp]:
  assumes "a \<in> live t"
  shows "get_parent t (Some a) = Some (lk_parent (links t) a)" "get_left t (Some a) = Some (lk_left (links t) a)"
    "get_right t (Some a) = Some (lk_right (links t) a)" "get_previous t (Some a) = Some (ch_prev (thread t) a)"
    "get_next t (Some a) = Some (ch_next (thread t) a)" "get_red t (Some a) = Some (reds t a)"
  using assms
  by (auto simp: live_def load_def links_def thread_def reds_def get_parent_def get_left_def get_right_def
      get_previous_def get_next_def get_red_def)

lemma set_live [simp]:
  assumes "a \<in> live t"
  shows "set_parent (Some a) v t = Some (put_node a (rn_parent_update (\<lambda>_. v)) t)"
    "set_left (Some a) v t = Some (put_node a (rn_left_update (\<lambda>_. v)) t)"
    "set_right (Some a) v t = Some (put_node a (rn_right_update (\<lambda>_. v)) t)"
    "set_previous (Some a) v t = Some (put_node a (rn_previous_update (\<lambda>_. v)) t)"
    "set_next (Some a) v t = Some (put_node a (rn_next_update (\<lambda>_. v)) t)"
    "set_red (Some a) c t = Some (put_node a (rn_red_update (\<lambda>_. c)) t)"
    "set_value (Some a) w t = Some (put_node a (rn_value_update (\<lambda>_. w)) t)"
  using assms
  by (auto simp: live_def store_def put_node_def set_parent_def set_left_def set_right_def set_previous_def
      set_next_def set_red_def set_value_def)

lemma put_node_fields [simp]:
  "rb_root (put_node a f t) = rb_root t" "rb_head (put_node a f t) = rb_head t" "rb_tail (put_node a f t) = rb_tail t"
  "rb_size (put_node a f t) = rb_size t" "fixed (put_node a f t) = fixed t"
  "a \<in> live t \<Longrightarrow> live (put_node a f t) = live t"
  by (auto simp: put_node_def fixed_def live_def)

lemma put_node_views [simp]:
  assumes "a \<in> live t"
  shows "links (put_node a (rn_left_update (\<lambda>_. v)) t) = setl a v (links t)"
    "links (put_node a (rn_right_update (\<lambda>_. v)) t) = setr a v (links t)"
    "links (put_node a (rn_parent_update (\<lambda>_. v)) t) = setp a v (links t)"
    "links (put_node a (rn_next_update (\<lambda>_. v)) t) = links t"
    "links (put_node a (rn_previous_update (\<lambda>_. v)) t) = links t"
    "links (put_node a (rn_red_update (\<lambda>_. c)) t) = links t"
    "links (put_node a (rn_value_update (\<lambda>_. w)) t) = links t"
    "thread (put_node a (rn_left_update (\<lambda>_. v)) t) = thread t"
    "thread (put_node a (rn_right_update (\<lambda>_. v)) t) = thread t"
    "thread (put_node a (rn_parent_update (\<lambda>_. v)) t) = thread t"
    "thread (put_node a (rn_next_update (\<lambda>_. v)) t) = (thread t)\<lparr>ch_next := (ch_next (thread t))(a := v)\<rparr>"
    "thread (put_node a (rn_previous_update (\<lambda>_. v)) t) = (thread t)\<lparr>ch_prev := (ch_prev (thread t))(a := v)\<rparr>"
    "thread (put_node a (rn_red_update (\<lambda>_. c)) t) = thread t"
    "thread (put_node a (rn_value_update (\<lambda>_. w)) t) = thread t"
    "reds (put_node a (rn_left_update (\<lambda>_. v)) t) = reds t"
    "reds (put_node a (rn_right_update (\<lambda>_. v)) t) = reds t"
    "reds (put_node a (rn_parent_update (\<lambda>_. v)) t) = reds t"
    "reds (put_node a (rn_next_update (\<lambda>_. v)) t) = reds t"
    "reds (put_node a (rn_previous_update (\<lambda>_. v)) t) = reds t"
    "reds (put_node a (rn_red_update (\<lambda>_. c)) t) = (reds t)(a := c)"
    "reds (put_node a (rn_value_update (\<lambda>_. w)) t) = reds t"
    "node_key (put_node a (rn_left_update (\<lambda>_. v)) t) = node_key t"
    "node_key (put_node a (rn_right_update (\<lambda>_. v)) t) = node_key t"
    "node_key (put_node a (rn_parent_update (\<lambda>_. v)) t) = node_key t"
    "node_key (put_node a (rn_next_update (\<lambda>_. v)) t) = node_key t"
    "node_key (put_node a (rn_previous_update (\<lambda>_. v)) t) = node_key t"
    "node_key (put_node a (rn_red_update (\<lambda>_. c)) t) = node_key t"
    "node_key (put_node a (rn_value_update (\<lambda>_. w)) t) = node_key t"
    "node_value (put_node a (rn_left_update (\<lambda>_. v)) t) = node_value t"
    "node_value (put_node a (rn_right_update (\<lambda>_. v)) t) = node_value t"
    "node_value (put_node a (rn_parent_update (\<lambda>_. v)) t) = node_value t"
    "node_value (put_node a (rn_next_update (\<lambda>_. v)) t) = node_value t"
    "node_value (put_node a (rn_previous_update (\<lambda>_. v)) t) = node_value t"
    "node_value (put_node a (rn_red_update (\<lambda>_. c)) t) = node_value t"
    "node_value (put_node a (rn_value_update (\<lambda>_. w)) t) = (node_value t)(a := w)"
  using assms
  by (auto simp: live_def put_node_def links_def setl_def setr_def setp_def thread_def reds_def node_key_def
      node_value_def fun_eq_iff)

lemma root_views [simp]:
  "links (t\<lparr>rb_root := p\<rparr>) = links t" "thread (t\<lparr>rb_root := p\<rparr>) = thread t" "reds (t\<lparr>rb_root := p\<rparr>) = reds t"
  "node_key (t\<lparr>rb_root := p\<rparr>) = node_key t" "node_value (t\<lparr>rb_root := p\<rparr>) = node_value t" "live (t\<lparr>rb_root := p\<rparr>) = live t"
  "fixed (t\<lparr>rb_root := p\<rparr>) = fixed t"
  by (simp_all add: links_def thread_def reds_def node_key_def node_value_def live_def fixed_def fun_eq_iff)

text \<open>Steps that rearrange the tree and leave the contents alone.\<close>

definition kept :: "('k, 'v) rbtree \<Rightarrow> ('k, 'v) rbtree \<Rightarrow> bool" where
  "kept t t' \<longleftrightarrow> live t' = live t \<and> thread t' = thread t \<and> node_key t' = node_key t \<and> node_value t' = node_value t \<and>
     rb_size t' = rb_size t \<and> fixed t' = fixed t"

lemma kept_refl [simp]: "kept t t"
  by (simp add: kept_def)

lemma kept_trans: "kept t t' \<Longrightarrow> kept t' t'' \<Longrightarrow> kept t t''"
  by (simp add: kept_def)

lemma kept_put [simp]:
  assumes "a \<in> live t"
  shows "kept t (put_node a (rn_left_update (\<lambda>_. v)) t)" "kept t (put_node a (rn_right_update (\<lambda>_. v)) t)"
    "kept t (put_node a (rn_parent_update (\<lambda>_. v)) t)" "kept t (put_node a (rn_red_update (\<lambda>_. c)) t)"
    "kept t (t\<lparr>rb_root := p\<rparr>)"
  using assms by (simp_all add: kept_def)

text \<open>The tree \<open>s\<close> below the path \<open>c\<close> is what the store holds.\<close>

definition placed :: "('k, 'v) rbtree \<Rightarrow> addr path \<Rightarrow> addr tree \<Rightarrow> bool" where
  "placed t c s \<longleftrightarrow> linked (links t) (rb_root t) c s \<and> set (before c) \<union> set_tree s \<union> set (after c) \<subseteq> live t"

lemma placed_up [simp]:
  "placed t (InL a r # c) s \<longleftrightarrow> placed t c (Node s a r)"
  "placed t (InR l a # c) s \<longleftrightarrow> placed t c (Node l a s)"
  by (auto simp: placed_def)

lemma placed_plug: "placed t c s \<longleftrightarrow> placed t [] (plug c s)"
  by (induction c s rule: plug.induct) simp_all

lemma placed_nodeD:
  assumes "placed t c (Node l x r)"
  shows "x \<in> live t" "lk_left (links t) x = ptr_to l" "lk_right (links t) x = ptr_to r" "lk_parent (links t) x = up_ptr c"
  using assms by (auto simp: placed_def linked_def)

lemma placed_distinct: "placed t c s \<Longrightarrow> distinct (before c @ inorder s @ after c)"
  by (simp add: placed_def linked_def)

end
