(* ===== verification/Cstl_Rbtree_Balance.thy ===== *)
theory Cstl_Rbtree_Balance
  imports Cstl_Rbtree
begin

text \<open>
  The pointer surgery of \<^verbatim>\<open>src/cstl/src/rbtree.c\<close> on the tree it stands for: rotations keep the
  order of the nodes, the two repair loops end and restore the red-black invariants, and the
  removal of a node leaves the others in order. The code for right children is the mirror image
  of the code for left children, and so are the proofs.
\<close>

section \<open>Rotations\<close>

lemma rotate_left_placed:
  assumes "placed t c (Node l x (Node m y r))"
  shows "\<exists>t'. rbtree_rotate_left t (Some x) = Some t' \<and> placed t' c (Node (Node l x m) y r) \<and> kept t t' \<and> reds t' = reds t"
proof -
  have x: "x \<in> live t" "lk_right (links t) x = Some y" "lk_parent (links t) x = up_ptr c"
    using placed_nodeD [OF assms] by simp_all
  have y: "y \<in> live t" "lk_left (links t) y = ptr_to m"
    using placed_nodeD [of t "InR l x # c" m y r] assms by simp_all
  have m: "ptr_to m = Some a \<Longrightarrow> a \<in> live t" for a
    using assms ptr_to_member [of m a] by (auto simp: placed_def)
  have up: "up_ptr c = Some a \<Longrightarrow> a \<in> live t" for a
    using assms up_ptr_member [of c a] by (auto simp: placed_def)
  have ne: "x \<noteq> y" "ptr_to m \<noteq> Some x" "ptr_to m \<noteq> Some y" "up_ptr c \<noteq> Some x" "up_ptr c \<noteq> Some y"
    using placed_distinct [OF assms] ptr_to_member [of m] up_ptr_member [of c] by auto
  have "\<exists>t'. rbtree_rotate_left t (Some x) = Some t' \<and> (links t', rb_root t') = rotl x y (links t, rb_root t) \<and>
      kept t t' \<and> reds t' = reds t"
    using x y ne m up
    by (cases "ptr_to m"; cases "up_ptr c")
      (auto simp: rbtree_rotate_left_def rotl_def relink_def kept_def Let_def eq_commute [of "Some x"])
  then obtain t' where t': "rbtree_rotate_left t (Some x) = Some t'"
    "(links t', rb_root t') = rotl x y (links t, rb_root t)" "kept t t'" "reds t' = reds t" by blast
  moreover have "linked (links t') (rb_root t') c (Node (Node l x m) y r)"
    using linked_rotl [OF _ t'(2)] assms by (simp add: placed_def)
  ultimately show ?thesis using assms by (auto simp: placed_def kept_def)
qed

section \<open>Mirror images of stores\<close>

text \<open>The code for right children is the code for left children in the mirror.\<close>

definition flip_node :: "('k, 'v) rbtree_node \<Rightarrow> ('k, 'v) rbtree_node" where
  "flip_node n = n\<lparr>rn_left := rn_right n, rn_right := rn_left n\<rparr>"

definition flip :: "('k, 'v) rbtree \<Rightarrow> ('k, 'v) rbtree" where
  "flip t = t\<lparr>rb_nodes := (\<lambda>a. map_option flip_node (rb_nodes t a))\<rparr>"

lemma flip_node_flip [simp]: "flip_node (flip_node n) = n"
  by (simp add: flip_node_def)

lemma flip_involution [simp]: "flip (flip t) = t"
  by (simp add: flip_def option.map_comp comp_def option.map_ident)

lemma flip_fields [simp]:
  "rb_root (flip t) = rb_root t" "rb_head (flip t) = rb_head t" "rb_tail (flip t) = rb_tail t" "rb_size (flip t) = rb_size t"
  "fixed (flip t) = fixed t" "(flip t)\<lparr>rb_root := p\<rparr> = flip (t\<lparr>rb_root := p\<rparr>)"
  by (simp_all add: flip_def fixed_def)

lemma flip_views [simp]:
  "live (flip t) = live t" "links (flip t) = flip_links (links t)" "thread (flip t) = thread t" "reds (flip t) = reds t"
  "node_key (flip t) = node_key t" "node_value (flip t) = node_value t"
  by (auto simp: flip_def flip_node_def live_def links_def flip_links_def thread_def reds_def node_key_def node_value_def
      fun_eq_iff bind_map_option comp_def split: option.splits)

lemma set_mirror: "set_tree (mirror s) = set_tree s"
  by (induction s) auto

lemma kept_flip [simp]: "kept (flip t) (flip t') \<longleftrightarrow> kept t t'"
  by (simp add: kept_def)

lemma placed_flip [simp]: "placed (flip t) (flip_path c) (mirror s) \<longleftrightarrow> placed t c s"
  by (auto simp: placed_def set_mirror)

lemma get_flip [simp]:
  "get_left (flip t) p = get_right t p" "get_right (flip t) p = get_left t p" "get_parent (flip t) p = get_parent t p"
  "get_red (flip t) p = get_red t p" "rbtree_is_red (flip t) p = rbtree_is_red t p" "rbtree_is_black (flip t) p = rbtree_is_black t p"
  by (cases p; simp add: flip_def flip_node_def get_left_def get_right_def get_parent_def get_red_def load_def
      option.map_comp comp_def rbtree_is_red_def rbtree_is_black_def)+

lemma store_flip: "store p f (flip t) = map_option flip (store p (\<lambda>n. flip_node (f (flip_node n))) t)"
  by (cases p) (auto simp: store_def flip_def option.map_comp comp_def fun_eq_iff intro!: option.map_cong)

lemma set_flip [simp]:
  "set_left p v (flip t) = map_option flip (set_right p v t)" "set_right p v (flip t) = map_option flip (set_left p v t)"
  "set_parent p v (flip t) = map_option flip (set_parent p v t)" "set_red p b (flip t) = map_option flip (set_red p b t)"
  by (simp_all add: set_left_def set_right_def set_parent_def set_red_def store_flip flip_node_def)

lemma map_bind: "map_option f (Option.bind m g) = Option.bind m (\<lambda>x. map_option f (g x))"
  by (cases m) auto

lemma bind_map: "Option.bind (map_option f m) g = Option.bind m (\<lambda>x. g (f x))"
  by (cases m) auto

lemma pull_flip:
  "(if b then map_option f m else map_option f m') = map_option f (if b then m else m')"
  "(if b then Some (f x) else map_option f m) = map_option f (if b then Some x else m)"
  "(if b then map_option f m else Some (f x)) = map_option f (if b then m else Some x)"
  by simp_all

lemma if_parts: "b = b' \<Longrightarrow> x = x' \<Longrightarrow> y = y' \<Longrightarrow> (if b then x else y) = (if b' then x' else y')"
  by simp

lemmas flip_push = map_bind [symmetric] bind_map pull_flip option.map_comp comp_def

lemma rotate_flip:
  "rbtree_rotate_left (flip t) p = map_option flip (rbtree_rotate_right t p)"
  "rbtree_rotate_right (flip t) p = map_option flip (rbtree_rotate_left t p)"
  by (simp_all add: rbtree_rotate_left_def rbtree_rotate_right_def flip_push cong: if_parts)

lemma rotate_right_placed:
  assumes "placed t c (Node (Node l y m) x r)"
  shows "\<exists>t'. rbtree_rotate_right t (Some x) = Some t' \<and> placed t' c (Node l y (Node m x r)) \<and> kept t t' \<and> reds t' = reds t"
proof -
  have "placed (flip t) (flip_path c) (Node (mirror r) x (Node (mirror m) y (mirror l)))"
    using assms placed_flip [of t c "Node (Node l y m) x r"] by simp
  from rotate_left_placed [OF this] obtain u where u: "rbtree_rotate_left (flip t) (Some x) = Some u"
    "placed u (flip_path c) (Node (Node (mirror r) x (mirror m)) y (mirror l))" "kept (flip t) u" "reds u = reds t" by auto
  then obtain t' where t': "rbtree_rotate_right t (Some x) = Some t'" "u = flip t'" by (auto simp: rotate_flip)
  moreover have "placed t' c (Node l y (Node m x r))"
    using u(2) placed_flip [of t' c "Node l y (Node m x r)"] t'(2) by simp
  ultimately show ?thesis using u(3,4) by simp
qed

lemma placed_colour [simp]:
  "a \<in> live t \<Longrightarrow> placed (put_node a (rn_red_update (\<lambda>_. b)) t) c s \<longleftrightarrow> placed t c s"
  by (simp add: placed_def)

section \<open>The repair after an insertion\<close>

text \<open>A red node whose parent may be red too; everything else is in order.\<close>

definition red_at :: "('k, 'v) rbtree \<Rightarrow> addr path \<Rightarrow> addr tree \<Rightarrow> bool" where
  "red_at t c s \<longleftrightarrow> placed t c s \<and> \<not> black (reds t) s \<and> balanced (reds t) s \<and> path_balanced (reds t) c (bheight (reds t) s)"

lemma is_red_live [simp]:
  "rbtree_is_red t NULL = Some False" "a \<in> live t \<Longrightarrow> rbtree_is_red t (Some a) = Some (reds t a)"
  "rbtree_is_black t NULL = Some True" "a \<in> live t \<Longrightarrow> rbtree_is_black t (Some a) = Some (\<not> reds t a)"
  by (simp_all add: rbtree_is_red_def rbtree_is_black_def)

lemma is_red_black: "placed t c (Node l x r) \<Longrightarrow> rbtree_is_red t (ptr_to l) = Some (\<not> black (reds t) l)"
  "placed t c (Node l x r) \<Longrightarrow> rbtree_is_red t (ptr_to r) = Some (\<not> black (reds t) r)"
  "placed t c (Node l x r) \<Longrightarrow> rbtree_is_black t (ptr_to l) = Some (black (reds t) l)"
  "placed t c (Node l x r) \<Longrightarrow> rbtree_is_black t (ptr_to r) = Some (black (reds t) r)"
  by (cases l; cases r; auto simp: placed_def)+

lemma insert_fix_left_step:
  assumes "red_at t c s" and "c = d # InL g u # c'" and "up_ptr c = Some p" and "reds t p"
  shows "\<exists>t' c2 s2. insert_fix_left t (ptr_to s) (Some p) (Some g) = Some (t', ptr_to s2) \<and> kept t t' \<and>
    red_at t' c2 s2 \<and> length c2 < length c \<and> inorder (plug c2 s2) = inorder (plug c s)"
proof -
  obtain l z r where s: "s = Node l z r" using assms(1) by (cases s) (auto simp: red_at_def)
  let ?R = "reds t"
  have pl: "placed t c s" and bal: "balanced ?R s" "?R z" "path_balanced ?R c (bheight ?R s)"
    using assms(1) s by (auto simp: red_at_def)
  have dist: "distinct (before c @ inorder s @ after c)" by (rule placed_distinct [OF pl])
  obtain q where q: "q = plug [d] s" by simp
  have pg: "placed t c' (Node q g u)" using pl assms(2) q by (cases d) simp_all
  have lv: "p \<in> live t" "g \<in> live t" "lk_right (links t) g = ptr_to u"
    using placed_nodeD [OF pg] assms(2,3) q pg by (cases d; auto simp: placed_def)+
  note ur = is_red_black(2) [OF pg]
  show ?thesis
  proof (cases "black ?R u")
    case False
    then obtain ul y ur' where u: "u = Node ul y ur'" "?R y" by (cases u) auto
    have y: "y \<in> live t" using placed_nodeD(1) [of t "InR q g # c'" ul y ur'] pg u by simp
    define t' where "t' = put_node g (rn_red_update (\<lambda>_. True)) (put_node y (rn_red_update (\<lambda>_. False))
      (put_node p (rn_red_update (\<lambda>_. False)) t))"
    have "insert_fix_left t (ptr_to s) (Some p) (Some g) = Some (t', Some g)"
      using lv y ur u False by (simp add: insert_fix_left_def t'_def)
    moreover have "kept t t'" using lv y by (simp add: t'_def kept_def)
    moreover have "red_at t' c' (Node q g u)"
      using pg lv y bal dist assms(2-4) q u s by (cases d) (auto simp: red_at_def t'_def)
    moreover have "inorder (plug c s) = inorder (plug c' (Node q g u))" using assms(2) q by (cases d) simp_all
    ultimately show ?thesis using assms(2)
      by (intro exI [of _ t'] exI [of _ c'] exI [of _ "Node q g u"]) simp
  next
    case True
    define paint where "paint a t1 = put_node g (rn_red_update (\<lambda>_. True)) (put_node a (rn_red_update (\<lambda>_. False)) t1)"
      for a and t1 :: "('a, 'b) rbtree"
    show ?thesis
    proof (cases d)
      case (InL p' b)
      then have d: "d = InL p b" using assms(2,3) by simp
      have "lk_right (links t) p = ptr_to b" using placed_nodeD [of t "InL g u # c'" s p b] pg q d by simp
      have "ptr_to b \<noteq> ptr_to s" using dist s assms(2) d by (cases b) auto
      have "placed (paint p t) c' (Node (Node s p b) g u)" using pg lv q d by (simp add: paint_def)
      from rotate_right_placed [OF this] obtain t' where t': "rbtree_rotate_right (paint p t) (Some g) = Some t'"
        "placed t' c' (Node s p (Node b g u))" "kept (paint p t) t'" "reds t' = reds (paint p t)" by blast
      have "insert_fix_left t (ptr_to s) (Some p) (Some g) = Some (t', ptr_to s)"
        using lv ur True \<open>ptr_to b \<noteq> ptr_to s\<close> \<open>lk_right (links t) p = ptr_to b\<close> t'(1)
        by (simp add: insert_fix_left_def paint_def)
      moreover have "kept t t'" using lv t'(3) by (simp add: paint_def kept_def)
      moreover have "red_at t' (InL p (Node b g u) # c') s"
        using t'(2,4) lv bal dist assms(2,4) d s True by (auto simp: red_at_def paint_def)
      ultimately show ?thesis using assms(2) d
        by (intro exI [of _ t'] exI [of _ "InL p (Node b g u) # c'"] exI [of _ s]) simp
    next
      case (InR a p')
      then have d: "d = InR a p" using assms(2,3) by simp
      have pr: "lk_right (links t) p = Some z" using placed_nodeD [of t "InL g u # c'" a p s] pg q d s by simp
      have "placed t (InL g u # c') (Node a p (Node l z r))" using pg q d s by simp
      from rotate_left_placed [OF this] obtain t1 where t1: "rbtree_rotate_left t (Some p) = Some t1"
        "placed t1 c' (Node (Node (Node a p l) z r) g u)" "kept t t1" "reds t1 = reds t" by auto
      have lv1: "p \<in> live t1" "g \<in> live t1" "z \<in> live t1" "lk_parent (links t1) p = Some z" "lk_parent (links t1) z = Some g"
        using placed_nodeD [OF t1(2)] placed_nodeD [of t1 "InL z r # InL g u # c'" a p l]
          placed_nodeD [of t1 "InL g u # c'" "Node a p l" z r] t1(2) by simp_all
      have "placed (paint z t1) c' (Node (Node (Node a p l) z r) g u)" using t1(2) lv1 by (simp add: paint_def)
      from rotate_right_placed [OF this] obtain t' where t': "rbtree_rotate_right (paint z t1) (Some g) = Some t'"
        "placed t' c' (Node (Node a p l) z (Node r g u))" "kept (paint z t1) t'" "reds t' = reds (paint z t1)" by blast
      have "insert_fix_left t (ptr_to s) (Some p) (Some g) = Some (t', Some p)"
        using lv lv1 ur True pr t1(1) t'(1) s by (simp add: insert_fix_left_def paint_def)
      moreover have "kept t t'" using lv1 t1(3) t'(3) by (simp add: paint_def kept_def)
      moreover have "red_at t' (InL z (Node r g u) # c') (Node a p l)"
        using t'(2,4) t1(4) lv1 bal dist assms(2,4) d s True by (auto simp: red_at_def paint_def)
      ultimately show ?thesis using assms(2) d s
        by (intro exI [of _ t'] exI [of _ "InL z (Node r g u) # c'"] exI [of _ "Node a p l"]) simp
    qed
  qed
qed

lemma insert_fix_flip:
  "insert_fix_left (flip t) n p g = map_option (map_prod flip id) (insert_fix_right t n p g)"
  unfolding insert_fix_left_def insert_fix_right_def get_flip
  by (auto simp add: flip_push rotate_flip split: Option.bind_splits)

lemma red_at_flip [simp]: "red_at (flip t) (flip_path c) (mirror s) \<longleftrightarrow> red_at t c s"
proof -
  have "red_at (flip t) (flip_path c) (mirror s)" if "red_at t c s" for t :: "('a, 'b) rbtree" and c s
    using that colours_mirror [where t = s] path_mirror(2) by (auto simp: red_at_def)
  from this [of t c s] this [of "flip t" "flip_path c" "mirror s"] show ?thesis by auto
qed

lemma insert_fix_right_step:
  assumes "red_at t c s" and "c = d # InR u g # c'" and "up_ptr c = Some p" and "reds t p"
  shows "\<exists>t' c2 s2. insert_fix_right t (ptr_to s) (Some p) (Some g) = Some (t', ptr_to s2) \<and> kept t t' \<and>
    red_at t' c2 s2 \<and> length c2 < length c \<and> inorder (plug c2 s2) = inorder (plug c s)"
proof -
  have 0: "red_at (flip t) (flip_path c) (mirror s)" using assms(1) by simp
  have 1: "flip_path c = flip_step d # InL g (mirror u) # flip_path c'" using assms(2) by (cases d) simp_all
  have 2: "up_ptr (flip_path c) = Some p" "reds (flip t) p" using assms(3,4) by simp_all
  obtain t1 c2 s2 where
    t1: "insert_fix_left (flip t) (ptr_to (mirror s)) (Some p) (Some g) = Some (t1, ptr_to s2)" "kept (flip t) t1"
      "red_at t1 c2 s2" "length c2 < length (flip_path c)" "inorder (plug c2 s2) = inorder (plug (flip_path c) (mirror s))"
    using insert_fix_left_step [OF 0 1 2] by blast
  have "insert_fix_right t (ptr_to s) (Some p) (Some g) = Some (flip t1, ptr_to s2)"
    using t1(1) by (auto simp: insert_fix_flip)
  moreover have "kept t (flip t1)" using t1(2) kept_flip [of t "flip t1"] by simp
  moreover have "red_at (flip t1) (flip_path c2) (mirror s2)" using t1(3) by simp
  moreover have "inorder (plug (flip_path c2) (mirror s2)) = inorder (plug c s)"
    using arg_cong [OF t1(5), of rev] by (simp add: inorder_mirror)
  ultimately show ?thesis using t1(4)
    by (intro exI [of _ "flip t1"] exI [of _ "flip_path c2"] exI [of _ "mirror s2"]) (simp add: flip_path_def)
qed

lemma insert_fix_loop_placed:
  assumes "red_at t c s"
  shows "\<exists>t' c2 s2. insert_fix_loop t (ptr_to s) = Some t' \<and> kept t t' \<and> red_at t' c2 s2 \<and>
    (c2 = [] \<or> black_above (reds t') c2) \<and> inorder (plug c2 s2) = inorder (plug c s)"
  using assms
proof (induction "length c" arbitrary: t c s rule: less_induct)
  case less
  obtain l z r where s: "s = Node l z r" using less.prems by (cases s) (auto simp: red_at_def)
  have pl: "placed t c s" and pb: "path_balanced (reds t) c (bheight (reds t) s)"
    using less.prems by (auto simp: red_at_def)
  have z: "z \<in> live t" "lk_parent (links t) z = up_ptr c" using placed_nodeD [of t c l z r] pl s by simp_all
  show ?case
  proof (cases "c = [] \<or> black_above (reds t) c")
    case True
    have "rbtree_is_red t (up_ptr c) = Some False"
      using True pl by (cases c rule: up_ptr.cases) (auto simp: placed_def)
    then have "insert_fix_loop t (ptr_to s) = Some t"
      using z s by (subst insert_fix_loop.simps) simp
    then show ?thesis using less.prems True by (intro exI [of _ t] exI [of _ c] exI [of _ s]) simp
  next
    case False
    then obtain p where p: "up_ptr c = Some p" "reds t p" by (cases c rule: up_ptr.cases) auto
    obtain d c0 where d: "c = d # c0" using p(1) by (cases c) auto
    then have e0: "black_above (reds t) c0" using pb p by (cases d) auto
    then obtain e c' where c: "c = d # e # c'" and e: "black_above (reds t) (e # c')" using d by (cases c0) auto
    obtain g where g: "up_ptr (e # c') = Some g" by (cases e) auto
    have pp: "p \<in> live t" "lk_parent (links t) p = Some g" "g \<in> live t"
      using pl c p g by (cases d; cases e; auto simp: placed_def linked_def)+
    have step: "insert_fix_loop t (ptr_to s) =
      Option.bind (if Some p = lk_left (links t) g then insert_fix_left t (ptr_to s) (Some p) (Some g)
         else insert_fix_right t (ptr_to s) (Some p) (Some g)) (\<lambda>x. insert_fix_loop (fst x) (snd x))"
      using z s p pp by (subst insert_fix_loop.simps) simp
    have "\<exists>t' c2 s2. (if Some p = lk_left (links t) g then insert_fix_left t (ptr_to s) (Some p) (Some g)
         else insert_fix_right t (ptr_to s) (Some p) (Some g)) = Some (t', ptr_to s2) \<and> kept t t' \<and>
      red_at t' c2 s2 \<and> length c2 < length c \<and> inorder (plug c2 s2) = inorder (plug c s)"
    proof (cases e)
      case (InL g' u)
      then have "lk_left (links t) g = Some p" using pl c p g by (cases d) (auto simp: placed_def linked_def)
      then show ?thesis using insert_fix_left_step [OF less.prems _ p] c InL g by simp
    next
      case (InR u g')
      then have "lk_left (links t) g = ptr_to u" "ptr_to u \<noteq> Some p"
        using placed_distinct [OF pl] ptr_to_member [of u p] pl c p g by (cases d; auto simp: placed_def linked_def)+
      then show ?thesis using insert_fix_right_step [OF less.prems _ p] c InR g by (simp add: eq_commute)
    qed
    then obtain t1 c1 s1 where 1: "insert_fix_loop t (ptr_to s) = insert_fix_loop t1 (ptr_to s1)"
      "kept t t1" "red_at t1 c1 s1" "length c1 < length c" "inorder (plug c1 s1) = inorder (plug c s)"
      using step by auto
    from less.hyps [OF 1(4,3)] show ?thesis
      using 1(1,2,5) kept_trans by metis
  qed
qed

lemma insert_fix_placed:
  assumes "red_at t c s"
  shows "\<exists>t' s'. rbtree_insert_fix t (ptr_to s) = Some t' \<and> kept t t' \<and> placed t' [] s' \<and> red_black (reds t') s' \<and>
    inorder s' = inorder (plug c s)"
proof -
  from insert_fix_loop_placed [OF assms] obtain t1 c1 s1 where 1: "insert_fix_loop t (ptr_to s) = Some t1" "kept t t1"
    "red_at t1 c1 s1" "c1 = [] \<or> black_above (reds t1) c1" "inorder (plug c1 s1) = inorder (plug c s)" by blast
  have pl: "placed t1 [] (plug c1 s1)" using 1(3) placed_plug by (auto simp: red_at_def)
  obtain l x r where w: "plug c1 s1 = Node l x r" 
    using 1(3) by (cases "plug c1 s1") (auto simp: red_at_def dest: arg_cong [where f = inorder])
  have x: "x \<in> live t1" "rb_root t1 = Some x" using pl w by (auto simp: placed_def linked_def)
  let ?t = "put_node x (rn_red_update (\<lambda>_. False)) t1"
  have "rbtree_insert_fix t (ptr_to s) = Some ?t" using 1(1) x by (simp add: rbtree_insert_fix_def)
  moreover have "kept t ?t" using 1(2) x by (simp add: kept_def)
  moreover have "placed ?t [] (plug c1 s1)" using pl x by simp
  moreover have "red_black (reds ?t) (plug c1 s1)"
  proof (cases "c1 = []")
    case True
    then show ?thesis using 1(3) w x placed_distinct [OF pl] by (auto simp: red_at_def red_black_def)
  next
    case False
    then have rb: "red_black (reds t1) (plug c1 s1)" using 1(3,4) by (auto simp: red_black_plug red_at_def)
    then have "reds ?t = reds t1" using w x by (auto simp: red_black_def fun_eq_iff)
    then show ?thesis using rb by simp
  qed
  ultimately show ?thesis using 1(5) by blast
qed

section \<open>The repair after a removal\<close>

text \<open>The colour of the root is left open.\<close>

definition soft_balanced :: "(addr \<Rightarrow> bool) \<Rightarrow> addr tree \<Rightarrow> bool" where
  "soft_balanced red s = (case s of Leaf \<Rightarrow> True | Node l a r \<Rightarrow> bheight red l = bheight red r \<and> balanced red l \<and> balanced red r)"

text \<open>The subtree is one black node short.\<close>

definition short_at :: "('k, 'v) rbtree \<Rightarrow> addr path \<Rightarrow> addr tree \<Rightarrow> bool" where
  "short_at t c s \<longleftrightarrow> placed t c s \<and> soft_balanced (reds t) s \<and> path_balanced (reds t) c (bheight (reds t) s + 1)"

definition fix_measure :: "('k, 'v) rbtree \<Rightarrow> addr path \<Rightarrow> addr tree \<Rightarrow> nat" where
  "fix_measure t c s = (if black (reds t) s then Suc (length c) else 0)"

lemma soft_black: "soft_balanced red s \<Longrightarrow> black red s \<Longrightarrow> balanced red s"
  by (cases s) (auto simp: soft_balanced_def)

lemma placed_root: "placed t [] s \<Longrightarrow> rb_root t = ptr_to s"
  by (simp add: placed_def linked_def)

lemma black_sibling_left_step:
  assumes "placed t c (Node s p (Node m y r))" and "soft_balanced (reds t) s" and "black (reds t) s" and "\<not> reds t y"
    and "path_balanced (reds t) (InL p (Node m y r) # c) (bheight (reds t) s + 1)"
  shows "\<exists>t' c2 s2. black_sibling_left t (Some p) (Some y) = Some (t', ptr_to s2, up_ptr c2) \<and> kept t t' \<and>
    short_at t' c2 s2 \<and> (c2 = [] \<and> black (reds t') s2 \<or> c2 = c \<and> (reds t p \<longrightarrow> \<not> black (reds t') s2)) \<and>
    inorder (plug c2 s2) = inorder (plug c (Node s p (Node m y r)))"
proof -
  let ?R = "reds t"
  note pl = assms(1)
  have dist: "distinct (before c @ inorder (Node s p (Node m y r)) @ after c)" by (rule placed_distinct [OF pl])
  have py: "placed t (InR s p # c) (Node m y r)" using pl by simp
  have lv: "p \<in> live t" "y \<in> live t" "lk_parent (links t) p = up_ptr c" "lk_left (links t) y = ptr_to m"
    "lk_right (links t) y = ptr_to r" "lk_right (links t) p = Some y"
    using placed_nodeD [OF pl] placed_nodeD [OF py] by simp_all
  have ib: "rbtree_is_black t (ptr_to m) = Some (black ?R m)" "rbtree_is_black t (ptr_to r) = Some (black ?R r)"
    using is_red_black [OF py] by simp_all
  have bs: "balanced ?R s" using soft_black assms(2,3) by blast
  show ?thesis
  proof (cases "black ?R m \<and> black ?R r")
    case True
    define t' where "t' = put_node y (rn_red_update (\<lambda>_. True)) t"
    have "black_sibling_left t (Some p) (Some y) = Some (t', Some p, up_ptr c)"
      using lv ib True by (simp add: black_sibling_left_def t'_def)
    moreover have "kept t t'" using lv by (simp add: t'_def kept_def)
    moreover have "short_at t' c (Node s p (Node m y r))"
      using pl lv bs True dist assms(4,5) by (auto simp: short_at_def soft_balanced_def t'_def)
    moreover have "reds t p \<longrightarrow> \<not> black (reds t') (Node s p (Node m y r))" using lv dist by (auto simp: t'_def)
    ultimately show ?thesis
      by (intro exI [of _ t'] exI [of _ c] exI [of _ "Node s p (Node m y r)"]) simp
  next
    case False
    show ?thesis
    proof (cases "black ?R r")
      case far: False
      then obtain a x b where r: "r = Node a x b" "?R x" by (cases r) auto
      have x: "x \<in> live t" using placed_nodeD(1) [of t "InR m y # InR s p # c" a x b] pl r by simp
      define t1 where "t1 = put_node x (rn_red_update (\<lambda>_. False)) (put_node p (rn_red_update (\<lambda>_. False))
        (put_node y (rn_red_update (\<lambda>_. ?R p)) t))"
      have "placed t1 c (Node s p (Node m y r))" using pl lv x by (simp add: t1_def)
      from rotate_left_placed [OF this] obtain t' where t': "rbtree_rotate_left t1 (Some p) = Some t'"
        "placed t' c (Node (Node s p m) y r)" "kept t1 t'" "reds t' = reds t1" by blast
      define w where "w = plug c (Node (Node s p m) y r)"
      have pw: "placed t' [] w" using t'(2) placed_plug w_def by blast
      have "black_sibling_left t (Some p) (Some y) = Some (t', ptr_to w, NULL)"
        using lv ib far t'(1) r x placed_root [OF pw] by (simp add: black_sibling_left_def far_nephew_left_def t1_def)
      moreover have "kept t t'" using lv x t'(3) by (simp add: t1_def kept_def)
      moreover have rb: "red_black (reds t') w"
        using lv bs dist assms(4,5) r x t'(4) by (auto simp: w_def red_black_plug t1_def)
      moreover have "short_at t' [] w" using pw rb by (cases w) (auto simp: short_at_def red_black_def soft_balanced_def)
      ultimately show ?thesis
        by (intro exI [of _ t'] exI [of _ "[]"] exI [of _ w]) (simp add: red_black_def w_def)
    next
      case far: True
      then obtain a x b where m: "m = Node a x b" "?R x" using False by (cases m) auto
      have x: "x \<in> live t" using placed_nodeD(1) [of t "InL y r # InR s p # c" a x b] pl m by simp
      define t1 where "t1 = put_node y (rn_red_update (\<lambda>_. True)) (put_node x (rn_red_update (\<lambda>_. False)) t)"
      have "placed t1 (InR s p # c) (Node (Node a x b) y r)" using py lv x m by (simp add: t1_def)
      from rotate_right_placed [OF this] obtain t2 where t2: "rbtree_rotate_right t1 (Some y) = Some t2"
        "placed t2 c (Node s p (Node a x (Node b y r)))" "kept t1 t2" "reds t2 = reds t1" by auto
      have lv2: "p \<in> live t2" "x \<in> live t2" "y \<in> live t2" "lk_right (links t2) p = Some x" "lk_right (links t2) x = Some y"
        using placed_nodeD [OF t2(2)] placed_nodeD [of t2 "InR s p # c" a x "Node b y r"]
          placed_nodeD [of t2 "InR a x # InR s p # c" b y r] t2(2) by simp_all
      define t3 where "t3 = put_node y (rn_red_update (\<lambda>_. False)) (put_node p (rn_red_update (\<lambda>_. False))
        (put_node x (rn_red_update (\<lambda>_. reds t2 p)) t2))"
      have "placed t3 c (Node s p (Node a x (Node b y r)))" using t2(2) lv2 by (simp add: t3_def)
      from rotate_left_placed [OF this] obtain t' where t': "rbtree_rotate_left t3 (Some p) = Some t'"
        "placed t' c (Node (Node s p a) x (Node b y r))" "kept t3 t'" "reds t' = reds t3" by blast
      define w where "w = plug c (Node (Node s p a) x (Node b y r))"
      have pw: "placed t' [] w" using t'(2) placed_plug w_def by blast
      have "black_sibling_left t (Some p) (Some y) = Some (t', ptr_to w, NULL)"
        using lv lv2 ib far t2(1) t'(1) m x placed_root [OF pw] by (simp add: black_sibling_left_def near_nephew_left_def far_nephew_left_def t1_def t3_def)
      moreover have "kept t t'" using lv x lv2 t2(3) t'(3) by (simp add: t1_def t3_def kept_def)
      moreover have rb: "red_black (reds t') w"
        using lv lv2 bs dist far assms(4,5) m x t2(4) t'(4) by (auto simp: w_def red_black_plug t1_def t3_def)
      moreover have "short_at t' [] w" using pw rb by (cases w) (auto simp: short_at_def red_black_def soft_balanced_def)
      ultimately show ?thesis
        by (intro exI [of _ t'] exI [of _ "[]"] exI [of _ w]) (simp add: red_black_def w_def m)
    qed
  qed
qed

lemma delete_fix_left_step:
  assumes "short_at t (InL p w # c) s" and "black (reds t) s"
  shows "\<exists>t' c2 s2. delete_fix_left t (Some p) = Some (t', ptr_to s2, up_ptr c2) \<and> kept t t' \<and> short_at t' c2 s2 \<and>
    fix_measure t' c2 s2 < Suc (Suc (length c)) \<and> inorder (plug c2 s2) = inorder (plug (InL p w # c) s)"
proof -
  let ?R = "reds t"
  have pl: "placed t c (Node s p w)" and soft: "soft_balanced ?R s"
    and pb: "path_balanced ?R (InL p w # c) (bheight ?R s + 1)"
    using assms(1) by (simp_all add: short_at_def)
  obtain m y r where w: "w = Node m y r" using pb by (cases w) auto
  have dist: "distinct (before c @ inorder (Node s p w) @ after c)" by (rule placed_distinct [OF pl])
  have lv: "p \<in> live t" "lk_right (links t) p = Some y" "y \<in> live t"
    using placed_nodeD [OF pl] placed_nodeD(1) [of t "InR s p # c" m y r] pl w by simp_all
  show ?thesis
  proof (cases "?R y")
    case False
    then have "delete_fix_left t (Some p) = black_sibling_left t (Some p) (Some y)"
      using lv by (simp add: delete_fix_left_def red_sibling_left_def)
    with black_sibling_left_step [of t c s p m y r] pl soft assms(2) False pb w show ?thesis
      by (fastforce simp: fix_measure_def)
  next
    case True
    then have p: "\<not> ?R p" using pb w by auto
    define t1 where "t1 = put_node p (rn_red_update (\<lambda>_. True)) (put_node y (rn_red_update (\<lambda>_. False)) t)"
    have "placed t1 c (Node s p (Node m y r))" using pl lv w by (simp add: t1_def)
    from rotate_left_placed [OF this] obtain t2 where t2: "rbtree_rotate_left t1 (Some p) = Some t2"
      "placed t2 c (Node (Node s p m) y r)" "kept t1 t2" "reds t2 = reds t1" by blast
    have "bheight ?R m = Suc (bheight ?R s)" "black ?R m" using pb w True by auto
    then obtain m1 z m2 where m: "m = Node m1 z m2" "\<not> ?R z" by (cases m) auto
    have pl2: "placed t2 (InL y r # c) (Node s p (Node m1 z m2))" using t2(2) m by simp
    have lv2: "p \<in> live t2" "lk_right (links t2) p = Some z" using placed_nodeD [OF pl2] by simp_all
    have "delete_fix_left t (Some p) = black_sibling_left t2 (Some p) (Some z)"
      using lv lv2 True t2(1) by (simp add: delete_fix_left_def red_sibling_left_def t1_def)
    moreover have k: "kept t t2" using lv t2(3) by (simp add: t1_def kept_def)
    moreover have st: "soft_balanced (reds t2) s" "black (reds t2) s" "\<not> reds t2 z" "reds t2 p"
      using soft assms(2) m dist lv w t2(4) by (auto simp: t1_def soft_balanced_def split: tree.splits)
    moreover have pb2: "path_balanced (reds t2) (InL p (Node m1 z m2) # InL y r # c) (bheight (reds t2) s + 1)"
      using pb w m p True dist lv t2(4) by (auto simp: t1_def)
    ultimately obtain t' c2 s2 where 1: "delete_fix_left t (Some p) = Some (t', ptr_to s2, up_ptr c2)" "kept t2 t'"
      "short_at t' c2 s2" "c2 = [] \<and> black (reds t') s2 \<or> \<not> black (reds t') s2"
      "inorder (plug c2 s2) = inorder (plug (InL y r # c) (Node s p (Node m1 z m2)))"
      using black_sibling_left_step [OF pl2 st(1-3) pb2] st(4) by metis
    then show ?thesis using kept_trans [OF k 1(2)] w m
      by (intro exI [of _ t'] exI [of _ c2] exI [of _ s2]) (auto simp: fix_measure_def)
  qed
qed

lemma soft_mirror: "soft_balanced red s \<Longrightarrow> soft_balanced red (mirror s)"
  by (cases s) (auto simp: soft_balanced_def colours_mirror)

lemma bheight_soft_mirror: "soft_balanced red s \<Longrightarrow> bheight red (mirror s) = bheight red s"
  by (cases s) (auto simp: soft_balanced_def colours_mirror)

lemma short_at_flip [simp]: "short_at (flip t) (flip_path c) (mirror s) \<longleftrightarrow> short_at t c s"
proof -
  have "short_at (flip t) (flip_path c) (mirror s)" if "short_at t c s" for t :: "('a, 'b) rbtree" and c s
    using that soft_mirror bheight_soft_mirror path_mirror(2) by (auto simp: short_at_def)
  from this [of t c s] this [of "flip t" "flip_path c" "mirror s"] show ?thesis by auto
qed

lemma red_sibling_flip: "red_sibling_left (flip t) p s = map_option (map_prod flip id) (red_sibling_right t p s)"
  unfolding red_sibling_left_def red_sibling_right_def get_flip
  by (auto simp add: flip_push rotate_flip split: Option.bind_splits)

lemma nephew_flip:
  "near_nephew_left (flip t) p s n = map_option (map_prod flip id) (near_nephew_right t p s n)"
  "far_nephew_left (flip t) p s = map_option (map_prod flip id) (far_nephew_right t p s)"
  unfolding near_nephew_left_def near_nephew_right_def far_nephew_left_def far_nephew_right_def get_flip
  by (auto simp add: flip_push rotate_flip split: Option.bind_splits)

lemma black_sibling_flip: "black_sibling_left (flip t) p s = map_option (map_prod flip id) (black_sibling_right t p s)"
  unfolding black_sibling_left_def black_sibling_right_def get_flip nephew_flip
  by (auto simp add: flip_push nephew_flip split: Option.bind_splits)

lemma delete_fix_flip: "delete_fix_left (flip t) p = map_option (map_prod flip id) (delete_fix_right t p)"
  unfolding delete_fix_left_def delete_fix_right_def get_flip red_sibling_flip
  by (auto simp add: flip_push black_sibling_flip split: Option.bind_splits)

lemma delete_fix_right_step:
  assumes "short_at t (InR w p # c) s" and "black (reds t) s"
  shows "\<exists>t' c2 s2. delete_fix_right t (Some p) = Some (t', ptr_to s2, up_ptr c2) \<and> kept t t' \<and> short_at t' c2 s2 \<and>
    fix_measure t' c2 s2 < Suc (Suc (length c)) \<and> inorder (plug c2 s2) = inorder (plug (InR w p # c) s)"
proof -
  have 0: "short_at (flip t) (InL p (mirror w) # flip_path c) (mirror s)" 
    using assms(1) short_at_flip [of t "InR w p # c" s] by simp
  have 1: "black (reds (flip t)) (mirror s)" using assms(2) by (simp add: colours_mirror)
  obtain t1 c2 s2 where
    t1: "delete_fix_left (flip t) (Some p) = Some (t1, ptr_to s2, up_ptr c2)" "kept (flip t) t1" "short_at t1 c2 s2"
      "fix_measure t1 c2 s2 < Suc (Suc (length (flip_path c)))"
      "inorder (plug c2 s2) = inorder (plug (InL p (mirror w) # flip_path c) (mirror s))"
    using delete_fix_left_step [OF 0 1] by blast
  have "delete_fix_right t (Some p) = Some (flip t1, ptr_to s2, up_ptr c2)"
    using t1(1) by (auto simp: delete_fix_flip)
  moreover have "kept t (flip t1)" using t1(2) kept_flip [of t "flip t1"] by simp
  moreover have "short_at (flip t1) (flip_path c2) (mirror s2)" using t1(3) by simp
  moreover have "inorder (plug (flip_path c2) (mirror s2)) = inorder (plug (InR w p # c) s)"
    using arg_cong [OF t1(5), of rev] by (simp add: inorder_mirror)
  moreover have "fix_measure (flip t1) (flip_path c2) (mirror s2) < Suc (Suc (length c))"
    using t1(4) by (auto simp: fix_measure_def colours_mirror flip_path_def split: if_splits)
  ultimately show ?thesis
    by (intro exI [of _ "flip t1"] exI [of _ "flip_path c2"] exI [of _ "mirror s2"]) simp
qed

lemma delete_fix_loop_placed:
  assumes "short_at t c s"
  shows "\<exists>t' c2 s2. delete_fix_loop t (ptr_to s) (up_ptr c) = Some (t', ptr_to s2) \<and> kept t t' \<and> short_at t' c2 s2 \<and>
    (c2 = [] \<or> \<not> black (reds t') s2) \<and> inorder (plug c2 s2) = inorder (plug c s)"
  using assms
proof (induction "fix_measure t c s" arbitrary: t c s rule: less_induct)
  case less
  have pl: "placed t c s" using less.prems by (simp add: short_at_def)
  show ?case
  proof (cases "c = [] \<or> \<not> black (reds t) s")
    case True
    have "delete_fix_loop t (ptr_to s) (up_ptr c) = Some (t, ptr_to s)"
    proof (cases "c = []")
      case True
      then show ?thesis using placed_root [of t s] pl by (subst delete_fix_loop.simps) auto
    next
      case False
      then obtain l a r where "s = Node l a r" "reds t a" using \<open>c = [] \<or> \<not> black (reds t) s\<close> by (cases s) auto
      then show ?thesis using placed_nodeD(1) [of t c l a r] pl by (subst delete_fix_loop.simps) simp
    qed
    then show ?thesis using less.prems True by (intro exI [of _ t] exI [of _ c] exI [of _ s]) simp
  next
    case False
    then obtain p where p: "up_ptr c = Some p" by (cases c rule: up_ptr.cases) auto
    have pv: "p \<in> live t" using pl p up_ptr_member [of c p] by (auto simp: placed_def)
    have "placed t [] (plug c s)" using pl placed_plug by blast
    then have "rb_root t = ptr_to (plug c s)" by (rule placed_root)
    moreover obtain a where a: "ptr_to (plug c s) = Some a" "a \<in> set (before c) \<union> set (after c)"
      using ptr_to_plug [of c s] False by blast
    moreover have "ptr_to s \<noteq> Some a" using placed_distinct [OF pl] ptr_to_member [of s a] a(2) by auto
    ultimately have root: "rb_root t \<noteq> ptr_to s" by simp
    have blk: "rbtree_is_black t (ptr_to s) = Some True"
      using False pl by (cases s) (auto simp: placed_def)
    have step: "delete_fix_loop t (ptr_to s) (up_ptr c) =
      Option.bind (if ptr_to s = lk_left (links t) p then delete_fix_left t (Some p) else delete_fix_right t (Some p))
        (\<lambda>x. delete_fix_loop (fst x) (fst (snd x)) (snd (snd x)))"
      using p pv root blk by (subst delete_fix_loop.simps) auto
    have "\<exists>t' c2 s2. (if ptr_to s = lk_left (links t) p then delete_fix_left t (Some p) else delete_fix_right t (Some p)) =
        Some (t', ptr_to s2, up_ptr c2) \<and> kept t t' \<and> short_at t' c2 s2 \<and>
        fix_measure t' c2 s2 < fix_measure t c s \<and> inorder (plug c2 s2) = inorder (plug c s)"
    proof (cases c rule: up_ptr.cases)
      case 1
      then show ?thesis using p by simp
    next
      case (2 a r d)
      then have "lk_left (links t) p = ptr_to s" using placed_nodeD [of t d s a r] pl p by simp
      then show ?thesis using delete_fix_left_step [of t p r d s] less.prems False 2 p by (simp add: fix_measure_def)
    next
      case (3 l a d)
      then have "lk_left (links t) p = ptr_to l" using placed_nodeD [of t d l a s] pl p by simp
      moreover have "l \<noteq> Leaf" using less.prems 3 by (auto simp: short_at_def)
      then have "ptr_to l \<noteq> ptr_to s" using placed_distinct [OF pl] 3 by (cases l; cases s) auto
      ultimately show ?thesis using delete_fix_right_step [of t l p d s] less.prems False 3 p by (simp add: fix_measure_def)
    qed
    then obtain t1 c1 s1 where 1: "delete_fix_loop t (ptr_to s) (up_ptr c) = delete_fix_loop t1 (ptr_to s1) (up_ptr c1)"
      "kept t t1" "short_at t1 c1 s1" "fix_measure t1 c1 s1 < fix_measure t c s" "inorder (plug c1 s1) = inorder (plug c s)"
      using step by auto
    from less.hyps [OF 1(4,3)] obtain t2 c2 s2 where 2: "delete_fix_loop t1 (ptr_to s1) (up_ptr c1) = Some (t2, ptr_to s2)"
      "kept t1 t2" "short_at t2 c2 s2" "c2 = [] \<or> \<not> black (reds t2) s2" "inorder (plug c2 s2) = inorder (plug c1 s1)"
      by blast
    show ?thesis
      by (intro exI [of _ t2] exI [of _ c2] exI [of _ s2]) (use 1(1,5) 2 kept_trans [OF 1(2) 2(2)] in simp)
  qed
qed

lemma delete_fix_placed:
  assumes "short_at t c s"
  shows "\<exists>t' s'. rbtree_delete_fix t (ptr_to s) (up_ptr c) = Some t' \<and> kept t t' \<and> placed t' [] s' \<and>
    red_black (reds t') s' \<and> inorder s' = inorder (plug c s)"
proof -
  from delete_fix_loop_placed [OF assms] obtain t1 c1 s1 where
    1: "delete_fix_loop t (ptr_to s) (up_ptr c) = Some (t1, ptr_to s1)" "kept t t1" "short_at t1 c1 s1"
      "c1 = [] \<or> \<not> black (reds t1) s1" "inorder (plug c1 s1) = inorder (plug c s)" by blast
  show ?thesis
  proof (cases s1)
    case Leaf
    then have "placed t1 [] (plug c1 s1)" "red_black (reds t1) (plug c1 s1)" using 1(3,4) by (auto simp: short_at_def red_black_def)
    then show ?thesis using 1(1,2,5) Leaf by (intro exI [of _ t1] exI [of _ "plug c1 s1"]) (simp add: rbtree_delete_fix_def)
  next
    case (Node l a r)
    have pl: "placed t1 c1 s1" using 1(3) by (simp add: short_at_def)
    have a: "a \<in> live t1" using placed_nodeD(1) [of t1 c1 l a r] pl Node by simp
    let ?t = "put_node a (rn_red_update (\<lambda>_. False)) t1"
    have "rbtree_delete_fix t (ptr_to s) (up_ptr c) = Some ?t" using 1(1) a Node by (simp add: rbtree_delete_fix_def)
    moreover have "kept t ?t" using 1(2) a by (simp add: kept_def)
    moreover have "placed ?t [] (plug c1 s1)" using pl a placed_plug by fastforce
    moreover have "red_black (reds ?t) (plug c1 s1)"
      using 1(3,4) a Node placed_distinct [OF pl] by (auto simp: red_black_plug short_at_def soft_balanced_def)
    ultimately show ?thesis using 1(5) by blast
  qed
qed

section \<open>Removal from the tree\<close>

lemma load_live:
  "a \<in> live t \<Longrightarrow> \<exists>n. load t (Some a) = Some n \<and> rn_left n = lk_left (links t) a \<and> rn_right n = lk_right (links t) a \<and>
     rn_parent n = lk_parent (links t) a \<and> rn_red n = reds t a \<and> rn_key n = node_key t a \<and> rn_value n = node_value t a \<and>
     rn_next n = ch_next (thread t) a \<and> rn_previous n = ch_prev (thread t) a"
  by (auto simp: live_def load_def links_def reds_def node_key_def node_value_def thread_def)

lemma transplant_graft:
  assumes "x \<in> live t" and "lk_parent (links t) x = up_ptr c" and "set (before c) \<union> set (after c) \<subseteq> live t"
    and "set_tree u \<subseteq> live t"
  shows "\<exists>t'. rbtree_transplant t (Some x) (ptr_to u) = Some t' \<and>
    (links t', rb_root t') = graft x (ptr_to u) (links t, rb_root t) \<and> kept t t' \<and> reds t' = reds t"
proof -
  have up: "up_ptr c = Some a \<Longrightarrow> a \<in> live t" for a using assms(3) up_ptr_member [of c a] by auto
  have u: "ptr_to u = Some a \<Longrightarrow> a \<in> live t" for a using assms(4) ptr_to_member [of u a] by auto
  show ?thesis using assms(1,2) up u
    by (cases "ptr_to u"; cases "up_ptr c")
      (auto simp: rbtree_transplant_def graft_def relink_def kept_def Let_def eq_commute [of "Some x"])
qed

lemma minimum_placed:
  assumes "placed t c r" and "r \<noteq> Leaf"
  shows "\<exists>d m s. r = plug d (Node Leaf m s) \<and> before d = [] \<and> rbtree_minimum t (ptr_to r) = Some (Some m)"
  using assms
proof (induction r arbitrary: c)
  case (Node l a r)
  have a: "a \<in> live t" "lk_left (links t) a = ptr_to l" using placed_nodeD [OF Node.prems(1)] by simp_all
  show ?case
  proof (cases "l = Leaf")
    case True
    then have "rbtree_minimum t (Some a) = Some (Some a)" using a by (subst rbtree_minimum.simps) simp
    then show ?thesis using True by (intro exI [of _ "[]"]) auto
  next
    case False
    then obtain d m s where 1: "l = plug d (Node Leaf m s)" "before d = []" "rbtree_minimum t (ptr_to l) = Some (Some m)"
      using Node.IH(1) [of "InL a r # c"] Node.prems(1) by auto
    have "rbtree_minimum t (Some a) = Some (Some m)" using a False 1(3) by (subst rbtree_minimum.simps) simp
    then show ?thesis using 1 by (intro exI [of _ "d @ [InL a r]"]) (auto simp: path_append)
  qed
qed simp

text \<open>A node with at most one child: the child takes its place.\<close>

lemma unlink_one:
  assumes "placed t c (Node l x r)" and "red_black (reds t) (plug c (Node l x r))" and "l = Leaf \<or> r = Leaf"
    and "u = (if l = Leaf then r else l)"
  shows "\<exists>t'. rbtree_transplant t (Some x) (ptr_to u) = Some t' \<and> kept t t' \<and> placed t' c u \<and> reds t' = reds t \<and>
    (reds t x \<longrightarrow> red_black (reds t) (plug c u)) \<and> (\<not> reds t x \<longrightarrow> short_at t' c u)"
proof -
  have x: "x \<in> live t" "lk_parent (links t) x = up_ptr c" using placed_nodeD [OF assms(1)] by simp_all
  have d: "distinct (before c @ inorder u @ after c)" "distinct (before c @ x # after c)"
    using placed_distinct [OF assms(1)] assms(4) by auto
  have sub: "set (before c) \<union> set (after c) \<subseteq> live t" "set_tree u \<subseteq> live t"
    using assms(1,4) by (auto simp: placed_def)
  obtain t' where t': "rbtree_transplant t (Some x) (ptr_to u) = Some t'"
    "(links t', rb_root t') = graft x (ptr_to u) (links t, rb_root t)" "kept t t'" "reds t' = reds t"
    using transplant_graft [OF x sub] by blast
  have "shape (links t) (Some x) u" "spine (links t) (rb_root t) c (Some x)"
    using assms(1,4) by (auto simp: placed_def linked_def)
  then have "linked (links t') (rb_root t') c u" using x(2) d t'(2) linked_graft by metis
  then have "placed t' c u" using sub t'(3) by (auto simp: placed_def kept_def)
  moreover have rb: "balanced (reds t) (Node l x r)" "path_balanced (reds t) c (bheight (reds t) (Node l x r))"
    using assms(2) by (auto simp: red_black_plug)
  have "red_black (reds t) (plug c u)" if "reds t x"
    using rb that assms(3,4) by (auto simp: red_black_plug)
  moreover have "soft_balanced (reds t) u \<and> path_balanced (reds t) c (bheight (reds t) u + 1)" if "\<not> reds t x"
    using rb that assms(3,4) by (cases u) (auto simp: soft_balanced_def)
  ultimately show ?thesis using t' by (auto simp: short_at_def)
qed

text \<open>A node with two children: the least node of its right subtree leaves its place and takes over the
  rest of that subtree.\<close>

lemma detach_successor_placed:
  assumes "placed t c (Node l x (plug d (Node Leaf m s)))" and "before d = []"
  shows "\<exists>t'. detach_successor t (Some x) (Some m) = Some (t', up_ptr (d @ InR l m # c)) \<and> kept t t' \<and> reds t' = reds t \<and>
    shape (links t') (lk_parent (links t') m) (Node Leaf m (plug d s)) \<and> shape (links t') (Some x) l \<and>
    lk_left (links t') x = ptr_to l \<and> lk_parent (links t') x = up_ptr c \<and> spine (links t') (rb_root t') c (Some x)"
proof -
  have dist: "distinct (before c @ inorder l @ [x, m] @ inorder s @ after d @ after c)"
    using placed_distinct [OF assms(1)] assms(2) by simp
  have sub: "set (before c) \<union> set_tree l \<union> {x, m} \<union> set_tree s \<union> set (after d) \<union> set (after c) \<subseteq> live t"
    using assms(1,2) by (auto simp: placed_def)
  have k: "linked (links t) (rb_root t) c (Node l x (plug d (Node Leaf m s)))" using assms(1) by (simp add: placed_def)
  have pm: "placed t (d @ InR l x # c) (Node Leaf m s)"
    using assms(1) by (subst placed_plug) (simp add: path_append flip: placed_plug)
  then have km: "linked (links t) (rb_root t) (d @ InR l x # c) (Node Leaf m s)" by (simp add: placed_def)
  have m: "m \<in> live t" "lk_left (links t) m = NULL" "lk_right (links t) m = ptr_to s"
    "lk_parent (links t) m = (if d = [] then Some x else up_ptr d)"
    using placed_nodeD [OF pm] by (auto simp: path_append)
  obtain n where n: "rb_nodes t m = Some n" using m(1) by (auto elim!: liveE)
  have f: "rn_right n = ptr_to s" "rn_parent n = (if d = [] then Some x else up_ptr d)"
    using m n by (auto simp: links_def)
  have ld: "load t (Some m) = Some n" using n by (simp add: load_def)
  show ?thesis
  proof (cases "d = []")
    case True
    define t' where "t' = (case ptr_to s of None \<Rightarrow> t | Some b \<Rightarrow> put_node b (rn_parent_update (\<lambda>_. Some m)) t)"
    have sv: "ptr_to s = Some b \<Longrightarrow> b \<in> live t" for b using sub ptr_to_member [of s b] by auto
    have l': "links t' = adopt s (Some m) (links t)" "kept t t'" "reds t' = reds t" "rb_root t' = rb_root t"
      using sv by (auto simp: t'_def adopt_def kept_def split: option.split)
    have "detach_successor t (Some x) (Some m) = Some (t', Some m)"
      using ld f True sv by (auto simp: detach_successor_def t'_def split: option.split)
    moreover have "set_tree s \<inter> set_tree l = {}" "set_tree s \<inter> (set (before c) \<union> set (after c)) = {}" "m \<notin> set_tree s"
      "x \<notin> set_tree s" "distinct (inorder s)" using dist by auto
    ultimately show ?thesis using k True l' adopt_shape [of "links t" "Some m" s "Some m"]
      by (intro exI [of _ t']) (auto simp: linked_def adopt_parent)
  next
    case False
    let ?d = "d @ InR l x # c"
    have bd: "before ?d = before c @ inorder l @ [x]" "after ?d = after d @ after c" "up_ptr ?d = up_ptr d"
      using assms(2) False by (simp_all add: path_append)
    have sp: "spine (links t) (rb_root t) ?d (Some m)" "shape (links t) (Some m) s" using km by (auto simp: linked_def)
    have dm: "distinct (before ?d @ m # after ?d)" "distinct (before ?d @ inorder s @ after ?d)"
      unfolding bd using dist by auto
    have subd: "set (before ?d) \<union> set (after ?d) \<subseteq> live t" "set_tree s \<subseteq> live t" unfolding bd using sub by auto
    have mp: "lk_parent (links t) m = up_ptr ?d" using m(4) False bd(3) by simp
    obtain t1 where t1: "rbtree_transplant t (Some m) (ptr_to s) = Some t1"
      "(links t1, rb_root t1) = graft m (ptr_to s) (links t, rb_root t)" "kept t t1" "reds t1 = reds t"
      using transplant_graft [OF m(1) mp subd] by blast
    have "linked (links t1) (rb_root t1) ?d s" using linked_graft [OF sp(1) mp dm(1) sp(2) dm(2) t1(2)] .
    then have k1: "linked (links t1) (rb_root t1) c (Node l x (plug d s))"
      by (metis linked_plug linked_up(2) path_append(1))
    have "set_tree Leaf \<inter> (set (before ?d) \<union> set (after ?d)) = {}" "set_tree Leaf \<inter> set_tree s = {}"
      "m \<notin> set (before ?d) \<union> set (after ?d) \<union> set_tree s"
      unfolding bd using dist by auto
    then have m1: "lk_left (links t1) m = NULL"
      using graft_elsewhere(2) [OF _ _ mp t1(2)] m(2) by metis
    obtain b where b: "ptr_to (plug d s) = Some b" "b \<in> set (after d)"
      using ptr_to_plug [OF False, of s] assms(2) by auto
    have lv: "x \<in> live t1" "m \<in> live t1" "b \<in> live t1" using sub b t1(3) by (auto simp: kept_def)
    have x1: "lk_right (links t1) x = Some b" using k1 b by (simp add: linked_def)
    define t' where "t' = put_node b (rn_parent_update (\<lambda>_. Some m)) (put_node m (rn_right_update (\<lambda>_. Some b)) t1)"
    have l': "links t' = adopt (plug d s) (Some m) (setr m (ptr_to (plug d s)) (links t1))" "kept t t'" "reds t' = reds t"
      "rb_root t' = rb_root t1"
      using lv b t1(3,4) by (simp_all add: t'_def adopt_def kept_def)
    have code: "detach_successor t (Some x) (Some m) = Some (t', up_ptr (d @ InR l m # c))"
      using ld f False t1(1) lv x1 up_ptr_member [of d x] dist assms(2)
      by (auto simp: detach_successor_def t'_def path_append)
    have dd: "set_tree (plug d s) \<inter> set_tree l = {}" "set_tree (plug d s) \<inter> (set (before c) \<union> set (after c)) = {}"
      "m \<notin> set_tree (plug d s)" "x \<notin> set_tree (plug d s)" "distinct (inorder (plug d s))" "m \<notin> set_tree l" "x \<noteq> m"
      "m \<notin> set (before c)" "m \<notin> set (after c)"
      using dist assms(2) by auto
    have "shape (setr m (ptr_to (plug d s)) (links t1)) (Some x) (plug d s)" using k1 dd(3) by (simp add: linked_def)
    from adopt_shape [OF this dd(5), of "Some m"] have sh: "shape (links t') (Some m) (plug d s)" by (simp add: l'(1))
    show ?thesis
      using code l'(2,3) sh k1 m1 dd
      by (intro exI [of _ t'] conjI) (simp_all add: linked_def l'(1,4) adopt_parent del: set_tree_plug)
  qed
qed

lemma unlink_two:
  assumes "placed t c (Node l x (plug d (Node Leaf m s)))" and "before d = []" and "l \<noteq> Leaf"
    and "rbtree_minimum t (ptr_to (plug d (Node Leaf m s))) = Some (Some m)"
  shows "\<exists>t'. remove_unlink t (Some x) = Some (t', reds t m, ptr_to s, up_ptr (d @ InR l m # c)) \<and> kept t t' \<and>
    placed t' (d @ InR l m # c) s \<and> reds t' = (reds t)(m := reds t x)"
proof -
  have dist: "distinct (before c @ inorder l @ [x, m] @ inorder s @ after d @ after c)"
    using placed_distinct [OF assms(1)] assms(2) by simp
  have sub: "set (before c) \<union> set_tree l \<union> {x, m} \<union> set_tree s \<union> set (after d) \<union> set (after c) \<subseteq> live t"
    using assms(1,2) by (auto simp: placed_def)
  obtain a where a: "ptr_to l = Some a" "a \<in> live t" using assms(3) sub ptr_to_member [of l] by (cases l) auto
  have xl: "lk_left (links t) x = Some a" "lk_right (links t) x = ptr_to (plug d (Node Leaf m s))" "x \<in> live t"
    using placed_nodeD [OF assms(1)] a by simp_all
  have "placed t (d @ InR l x # c) (Node Leaf m s)"
    using assms(1) by (subst placed_plug) (simp add: path_append flip: placed_plug)
  then have ml: "m \<in> live t" "lk_right (links t) m = ptr_to s" using placed_nodeD by blast+
  have ne: "plug d (Node Leaf m s) \<noteq> Leaf" by (auto dest: arg_cong [where f = set_tree])
  obtain nx nm where ld: "load t (Some x) = Some nx" "rn_left nx = Some a" "rn_right nx = ptr_to (plug d (Node Leaf m s))"
    "rn_right nx \<noteq> NULL" "load t (Some m) = Some nm" "rn_red nm = reds t m" "rn_right nm = ptr_to s"
    using load_live [OF xl(3)] load_live [OF ml(1)] xl ml ne by auto
  obtain t1 where t1: "detach_successor t (Some x) (Some m) = Some (t1, up_ptr (d @ InR l m # c))" "kept t t1" "reds t1 = reds t"
    "shape (links t1) (lk_parent (links t1) m) (Node Leaf m (plug d s))" "shape (links t1) (Some x) l"
    "lk_left (links t1) x = ptr_to l" "lk_parent (links t1) x = up_ptr c" "spine (links t1) (rb_root t1) c (Some x)"
    using detach_successor_placed [OF assms(1,2)] by blast
  define u where "u = Node Leaf m (plug d s)"
  have du: "distinct (before c @ x # after c)" "distinct (before c @ inorder u @ after c)" using dist assms(2) by (auto simp: u_def)
  have lv1: "x \<in> live t1" "m \<in> live t1" "a \<in> live t1" "set (before c) \<union> set (after c) \<subseteq> live t1" "set_tree u \<subseteq> live t1"
    using sub a t1(2) assms(2) by (auto simp: kept_def u_def)
  obtain t2 where t2: "rbtree_transplant t1 (Some x) (ptr_to u) = Some t2"
    "(links t2, rb_root t2) = graft x (ptr_to u) (links t1, rb_root t1)" "kept t1 t2" "reds t2 = reds t1"
    using transplant_graft [OF lv1(1) t1(7) lv1(4,5)] by blast
  have k2: "linked (links t2) (rb_root t2) c (Node Leaf m (plug d s))"
    using linked_graft [OF t1(8,7) du(1) _ du(2) t2(2)] t1(4) by (simp add: u_def)
  have dl: "set_tree l \<inter> (set (before c) \<union> set (after c)) = {}" "set_tree l \<inter> set_tree u = {}" "x \<notin> set (before c) \<union> set (after c) \<union> set_tree u"
    "m \<noteq> x" "distinct (before c @ inorder (Node l m (plug d s)) @ after c)"
    using dist assms(2) by (auto simp: u_def)
  have l2: "shape (links t2) (Some x) l" "lk_left (links t2) x = ptr_to l"
    using graft_elsewhere [OF dl(1,2) t1(7) t2(2)] t1(5,6) dl(3) by auto
  define t3 where "t3 = put_node a (rn_parent_update (\<lambda>_. Some m)) (put_node m (rn_left_update (\<lambda>_. Some a)) t2)"
  have lv2: "x \<in> live t2" "m \<in> live t2" "a \<in> live t2" using lv1 t2(3) by (auto simp: kept_def)
  have t3: "links t3 = adopt l (Some m) (setl m (ptr_to l) (links t2))" "rb_root t3 = rb_root t2" "kept t2 t3" "reds t3 = reds t2"
    using lv2 a by (simp_all add: t3_def adopt_def kept_def)
  have k3: "linked (links t3) (rb_root t3) c (Node l m (plug d s))"
    using linked_attach_left [OF k2 l2(1) dl(5)] by (simp add: t3)
  define t' where "t' = put_node m (rn_red_update (\<lambda>_. reds t3 x)) t3"
  have lv3: "x \<in> live t3" "m \<in> live t3" using lv2 t3(3) by (auto simp: kept_def)
  have "remove_unlink t (Some x) = Some (t', reds t m, ptr_to s, up_ptr (d @ InR l m # c))"
    using ld assms(4) t1(1) t2(1) lv2 lv3 l2(2) a
    by (simp add: remove_unlink_def u_def t3_def t'_def)
  moreover have "kept t t'" using t1(2) t2(3) t3(3) lv3 by (simp add: kept_def t'_def)
  moreover have "placed t' c (Node l m (plug d s))"
    using k3 lv3 sub \<open>kept t t'\<close> assms(2) by (auto simp: placed_def t'_def kept_def)
  then have "placed t' (d @ InR l m # c) s" by (metis placed_plug placed_up(2) path_append(1))
  moreover have "reds t' = (reds t)(m := reds t x)" using lv3 t3(4) t2(4) t1(3) by (simp add: t'_def)
  ultimately show ?thesis by blast
qed

lemma remove_unlink_placed:
  assumes "placed t c (Node l x r)" and "red_black (reds t) (plug c (Node l x r))"
  shows "\<exists>t' was_red c2 s2. remove_unlink t (Some x) = Some (t', was_red, ptr_to s2, up_ptr c2) \<and> kept t t' \<and>
    placed t' c2 s2 \<and> (was_red \<longrightarrow> red_black (reds t') (plug c2 s2)) \<and> (\<not> was_red \<longrightarrow> short_at t' c2 s2) \<and>
    inorder (plug c2 s2) = before c @ inorder l @ inorder r @ after c"
proof (cases "l = Leaf \<or> r = Leaf")
  case True
  define u where "u = (if l = Leaf then r else l)"
  obtain n where n: "load t (Some x) = Some n" "rn_left n = ptr_to l" "rn_right n = ptr_to r" "rn_parent n = up_ptr c" "rn_red n = reds t x"
    using load_live [OF placed_nodeD(1) [OF assms(1)]] placed_nodeD [OF assms(1)] by auto
  from unlink_one [OF assms True u_def] obtain t' where t': "rbtree_transplant t (Some x) (ptr_to u) = Some t'" "kept t t'"
    "placed t' c u" "reds t' = reds t" "reds t x \<longrightarrow> red_black (reds t) (plug c u)" "\<not> reds t x \<longrightarrow> short_at t' c u" by blast
  have "remove_unlink t (Some x) = Some (t', reds t x, ptr_to u, up_ptr c)"
    using n t'(1) True by (auto simp: remove_unlink_def u_def split: if_splits)
  then show ?thesis using t' True
    by (intro exI [of _ t'] exI [of _ "reds t x"] exI [of _ c] exI [of _ u]) (auto simp: u_def)
next
  case False
  obtain d m s where r: "r = plug d (Node Leaf m s)" "before d = []" "rbtree_minimum t (ptr_to r) = Some (Some m)"
    using minimum_placed [of t "InR l x # c" r] assms(1) False by auto
  have l: "l \<noteq> Leaf" using False by simp
  obtain t' where t': "remove_unlink t (Some x) = Some (t', reds t m, ptr_to s, up_ptr (d @ InR l m # c))" "kept t t'"
    "placed t' (d @ InR l m # c) s" "reds t' = (reds t)(m := reds t x)"
    using unlink_two [OF assms(1) [unfolded r(1)] r(2) l r(3) [unfolded r(1)]] by blast
  have dist: "distinct (before c @ inorder l @ [x, m] @ inorder s @ after d @ after c)"
    using placed_distinct [OF assms(1)] r(1,2) by simp
  have "red_black (reds t) (plug (d @ InR l x # c) (Node Leaf m s))" using assms(2) r(1) by (simp add: path_append)
  then have rb: "balanced (reds t) (Node Leaf m s)" "path_balanced (reds t) (d @ InR l x # c) (bheight (reds t) (Node Leaf m s))"
    by (simp_all only: red_black_plug)
  have ms: "m \<notin> set_tree s" and sw: "x \<notin> set (before d) \<union> set (after d)" "m \<notin> set (before d) \<union> set (after d)"
    "m \<notin> set (before c) \<union> set (after c) \<union> set_tree l" using dist r(2) by auto
  have same: "balanced (reds t') s = balanced (reds t) s" "bheight (reds t') s = bheight (reds t) s" "black (reds t') s = black (reds t) s"
    unfolding t'(4) using ms by simp_all
  have path: "path_balanced (reds t') (d @ InR l m # c) (bheight (reds t) (Node Leaf m s))"
    unfolding t'(4) path_balanced_swap(2) [OF sw] by (rule rb(2))
  have "red_black (reds t') (plug (d @ InR l m # c) s)" if "reds t m"
    using rb(1) path that same by (simp add: red_black_plug)
  moreover have "short_at t' (d @ InR l m # c) s" if "\<not> reds t m"
    using rb(1) path that same t'(3) by (cases s) (auto simp: short_at_def soft_balanced_def)
  moreover have "inorder (plug (d @ InR l m # c) s) = before c @ inorder l @ inorder r @ after c"
    using r(1,2) by (simp add: path_append)
  ultimately show ?thesis using t'(1-3)
    by (intro exI [of _ t'] exI [of _ "reds t m"] exI [of _ "d @ InR l m # c"] exI [of _ s]) blast
qed

lemma remove_tree:
  assumes "placed t c (Node l x r)" and "red_black (reds t) (plug c (Node l x r))"
  shows "\<exists>t' was_red fix_node fix_parent t'' s'. remove_unlink t (Some x) = Some (t', was_red, fix_node, fix_parent) \<and>
    (if \<not> was_red then rbtree_delete_fix t' fix_node fix_parent else Some t') = Some t'' \<and> kept t t'' \<and>
    placed t'' [] s' \<and> red_black (reds t'') s' \<and> inorder s' = before c @ inorder l @ inorder r @ after c"
proof -
  from remove_unlink_placed [OF assms] obtain t' was_red c2 s2 where
    1: "remove_unlink t (Some x) = Some (t', was_red, ptr_to s2, up_ptr c2)" "kept t t'" "placed t' c2 s2"
      "was_red \<longrightarrow> red_black (reds t') (plug c2 s2)" "\<not> was_red \<longrightarrow> short_at t' c2 s2"
      "inorder (plug c2 s2) = before c @ inorder l @ inorder r @ after c" by blast
  show ?thesis
  proof (cases was_red)
    case True
    then show ?thesis using 1 placed_plug [of t' c2 s2] by (intro exI [of _ t'] exI [of _ was_red] exI) auto
  next
    case False
    then obtain t'' s' where "rbtree_delete_fix t' (ptr_to s2) (up_ptr c2) = Some t''" "kept t' t''" "placed t'' [] s'"
      "red_black (reds t'') s'" "inorder s' = inorder (plug c2 s2)"
      using delete_fix_placed 1(5) by blast
    then show ?thesis using 1(1,2,6) False kept_trans by (metis (no_types, lifting))
  qed
qed

end
