(* ===== verification/Cstl_Rbtree_Contents.thy ===== *)
theory Cstl_Rbtree_Contents
  imports Cstl_Rbtree_Balance
begin

text \<open>
  The red-black tree as a list of entries sorted by key. \<open>rbtree_rep t es\<close> says that the store holds
  a red-black tree of exactly the nodes of \<open>es\<close>, threaded in the same order; every operation of
  \<^verbatim>\<open>src/cstl/src/rbtree.c\<close> is shown to return, to keep the representation and to change the list as
  it promises, and to allocate and free what belongs to an entry.
\<close>


section \<open>Contents\<close>

definition key_cmp :: "('k, 'v) rbtree \<Rightarrow> 'k \<Rightarrow> 'k \<Rightarrow> int" where
  "key_cmp t x y = the (rbtree_compare_key t x y)"

definition config_ok :: "('k, 'v) rbtree \<Rightarrow> bool" where
  "config_ok t \<longleftrightarrow> (\<forall>x y. rbtree_compare_key t x y \<noteq> None) \<and> comparator_ok (key_cmp t) \<and>
     elem_ok (rb_key_type t) \<and> elem_ok (rb_value_type t) \<and> rb_key_stride t \<noteq> 0 \<and> rb_value_stride t \<noteq> 0 \<and>
     sequence_alignment_valid (rb_key_align t) \<and> sequence_alignment_valid (rb_value_align t)"

text \<open>Entries: the address of a node, its key and its value.\<close>

type_synonym ('k, 'v) entry = "addr \<times> 'k \<times> 'v"

abbreviation entry_addrs :: "('k, 'v) entry list \<Rightarrow> addr list" where
  "entry_addrs es \<equiv> map fst es"

definition holds :: "('k, 'v) rbtree \<Rightarrow> ('k, 'v) entry \<Rightarrow> bool" where
  "holds t x \<longleftrightarrow> node_key t (fst x) = Some (Some (fst (snd x))) \<and> node_value t (fst x) = Some (Some (snd (snd x)))"

definition entry_before :: "('k, 'v) rbtree \<Rightarrow> ('k, 'v) entry \<Rightarrow> ('k, 'v) entry \<Rightarrow> bool" where
  "entry_before t x y \<longleftrightarrow>
     (if rb_allow_duplicates t then key_cmp t (fst (snd x)) (fst (snd y)) \<le> 0 else key_cmp t (fst (snd x)) (fst (snd y)) < 0)"

definition rbtree_rep :: "('k, 'v) rbtree \<Rightarrow> ('k, 'v) entry list \<Rightarrow> bool" where
  "rbtree_rep t es \<longleftrightarrow> config_ok t \<and>
     (\<exists>s. placed t [] s \<and> red_black (reds t) s \<and> inorder s = entry_addrs es) \<and>
     chained (thread t) (entry_addrs es) \<and> live t = set (entry_addrs es) \<and> (\<forall>x \<in> set es. holds t x) \<and>
     sorted_wrt (entry_before t) es \<and> rb_size t = length es"

lemma fixed_config:
  assumes "fixed t' = fixed t"
  shows "rbtree_compare_key t' = rbtree_compare_key t" "key_cmp t' = key_cmp t" "config_ok t' = config_ok t"
    "entry_before t' = entry_before t" "rb_key_type t' = rb_key_type t" "rb_value_type t' = rb_value_type t"
    "rb_allow_duplicates t' = rb_allow_duplicates t" "rb_element_limit t' = rb_element_limit t"
    "rb_key_stride t' = rb_key_stride t" "rb_key_align t' = rb_key_align t" "rb_value_stride t' = rb_value_stride t"
    "rb_value_align t' = rb_value_align t"
proof -
  have f: "f t' = f t" if "\<And>u. f (fixed u) = f u" for f :: "('a, 'b) rbtree \<Rightarrow> 'c"
    using assms that by metis
  show *: "rbtree_compare_key t' = rbtree_compare_key t"
    by (rule ext)+ (rule f, simp add: fixed_def rbtree_compare_key_def split: option.split)
  then show **: "key_cmp t' = key_cmp t" by (simp add: key_cmp_def fun_eq_iff)
  show ***: "rb_key_type t' = rb_key_type t" "rb_value_type t' = rb_value_type t"
    "rb_allow_duplicates t' = rb_allow_duplicates t" "rb_element_limit t' = rb_element_limit t"
    "rb_key_stride t' = rb_key_stride t" "rb_key_align t' = rb_key_align t" "rb_value_stride t' = rb_value_stride t"
    "rb_value_align t' = rb_value_align t"
    using assms by (cases t; cases t'; simp add: fixed_def)+
  show "config_ok t' = config_ok t" by (simp add: config_ok_def * ** ***)
  show "entry_before t' = entry_before t" by (simp add: entry_before_def fun_eq_iff ** ***)
qed

lemma cmp_total: "config_ok t \<Longrightarrow> rbtree_compare_key t x y = Some (key_cmp t x y)"
  by (auto simp: config_ok_def key_cmp_def)

lemma cmp_laws:
  assumes "config_ok t"
  shows "key_cmp t x y < 0 \<longleftrightarrow> 0 < key_cmp t y x" "key_cmp t x y = 0 \<longleftrightarrow> key_cmp t y x = 0"
    "key_cmp t x y \<le> 0 \<Longrightarrow> key_cmp t y z \<le> 0 \<Longrightarrow> key_cmp t x z \<le> 0"
    "key_cmp t x y \<le> 0 \<Longrightarrow> key_cmp t y z < 0 \<Longrightarrow> key_cmp t x z < 0"
    "key_cmp t x y < 0 \<Longrightarrow> key_cmp t y z \<le> 0 \<Longrightarrow> key_cmp t x z < 0"
proof -
  have c: "\<And>x y. key_cmp t x y < 0 \<longleftrightarrow> key_cmp t y x > 0" "\<And>x y z. key_cmp t x y \<le> 0 \<Longrightarrow> key_cmp t y z \<le> 0 \<Longrightarrow> key_cmp t x z \<le> 0"
    using assms unfolding config_ok_def comparator_ok_def by blast+
  show "key_cmp t x y < 0 \<longleftrightarrow> 0 < key_cmp t y x" by (rule c(1))
  show "key_cmp t x y = 0 \<longleftrightarrow> key_cmp t y x = 0" using c(1) [of x y] c(1) [of y x] by linarith
  show "key_cmp t x y \<le> 0 \<Longrightarrow> key_cmp t y z \<le> 0 \<Longrightarrow> key_cmp t x z \<le> 0" by (rule c(2))
  show "key_cmp t x y \<le> 0 \<Longrightarrow> key_cmp t y z < 0 \<Longrightarrow> key_cmp t x z < 0" using c by (meson not_le)
  show "key_cmp t x y < 0 \<Longrightarrow> key_cmp t y z \<le> 0 \<Longrightarrow> key_cmp t x z < 0" using c by (meson not_le)
qed

text \<open>The key of a node, by its address.\<close>

definition key_at :: "('k, 'v) rbtree \<Rightarrow> addr \<Rightarrow> 'k" where
  "key_at t a = the (the (node_key t a))"

lemma get_key_holds: "a \<in> live t \<Longrightarrow> node_key t a = Some (Some k) \<Longrightarrow> get_key t (Some a) = Some (key_at t a)"
  using load_live [of a t] by (auto simp: get_key_def key_at_def)

section \<open>Objects and memory\<close>

lemma copy_object_cases:
  assumes "rbtree_copy_object type stride align (Some (Some x)) e = (st, v, e')"
    and "elem_ok type" and "stride \<noteq> 0" and "sequence_alignment_valid align"
  shows "st = STL_OK \<and> v = Some (Some x) \<and> env_delta 1 e e' \<or>
    st \<in> {STL_CAPACITY_EXCEEDED, STL_OUT_OF_MEMORY} \<and> v = NULL \<and> env_delta 0 e e' \<and> \<not> (generous 1 stride align e \<and> copy_total type)"
proof -
  obtain st1 cell e1 where al: "sequence_allocate 1 stride align (Some NULL) e = (st1, cell, e1)" using prod_cases3 by blast
  consider (ok) a where "st1 = STL_OK" "cell = Some (Some a)" "env_delta 1 e e1"
    | (no) "st1 \<in> {STL_CAPACITY_EXCEEDED, STL_OUT_OF_MEMORY}" "env_delta 0 e e1"
    using allocate_cases [OF al assms(4) _ assms(3)] by auto
  then show ?thesis
  proof cases
    case ok
    obtain st2 v2 where c: "sequence_copy type (Some None) (Some (Some x)) = (st2, v2)" using prod.exhaust by blast
    show ?thesis using copy_cases [OF assms(2) c] ok assms(1) al c by (auto simp: rbtree_copy_object_def)
  next
    case no
    then have "\<not> generous 1 stride align e" using allocate_generous [OF al] assms(4) by auto
    then show ?thesis using no assms(1) al by (auto simp: rbtree_copy_object_def)
  qed
qed

lemma destroy_object_delta: "elem_ok type \<Longrightarrow> env_delta k e (rbtree_destroy_object type (Some v) e') \<longleftrightarrow> env_delta (k + 1) e e'"
  by (simp add: rbtree_destroy_object_def)

lemma destroy_object_NULL [simp]: "rbtree_destroy_object type NULL e = e"
  by (simp add: rbtree_destroy_object_def)

text \<open>Memory for a new node, and copies that do not fail.\<close>

definition rb_supplied :: "('k, 'v) rbtree \<Rightarrow> env \<Rightarrow> bool" where
  "rb_supplied t e \<longleftrightarrow> generous 1 (rb_key_stride t) (rb_key_align t) e \<and> generous 1 (rb_value_stride t) (rb_value_align t) e \<and>
     copy_total (rb_key_type t) \<and> copy_total (rb_value_type t)"

text \<open>The allocator does not return the address of a node in use.\<close>

definition malloc_fresh :: "('k, 'v) rbtree \<Rightarrow> env \<Rightarrow> bool" where
  "malloc_fresh t e \<longleftrightarrow> (\<forall>a. malloc_oracle e (malloc_calls e) = Some a \<longrightarrow> a \<notin> live t)"

lemma malloc_delta: "malloc e = (p, e1) \<Longrightarrow> env_delta (if p = NULL then 0 else 1) e e1"
  by (auto simp: malloc_def env_delta_def split: option.splits)

lemma node_create_cases:
  assumes "rbtree_node_create t (Some (Some k)) (Some (Some v)) e = (st, p, t1, e1)" and "config_ok t" and "malloc_fresh t e"
  shows "(\<exists>a. st = STL_OK \<and> p = Some a \<and> a \<notin> live t \<and> env_delta 3 e e1 \<and> live t1 = insert a (live t) \<and> links t1 = links t \<and>
      thread t1 = thread t \<and> reds t1 = (reds t)(a := True) \<and> node_key t1 = (node_key t)(a := Some (Some k)) \<and>
      node_value t1 = (node_value t)(a := Some (Some v)) \<and> fixed t1 = fixed t \<and> rb_size t1 = rb_size t \<and> rb_root t1 = rb_root t) \<or>
    st \<in> {STL_CAPACITY_EXCEEDED, STL_OUT_OF_MEMORY} \<and> p = NULL \<and> t1 = t \<and> env_delta 0 e e1 \<and> \<not> rb_supplied t e"
proof -
  have c: "elem_ok (rb_key_type t)" "rb_key_stride t \<noteq> 0" "sequence_alignment_valid (rb_key_align t)"
    "elem_ok (rb_value_type t)" "rb_value_stride t \<noteq> 0" "sequence_alignment_valid (rb_value_align t)"
    using assms(2) by (auto simp: config_ok_def)
  obtain q e2 where m: "malloc e = (q, e2)" by (cases "malloc e")
  show ?thesis
  proof (cases q)
    case None
    then have "\<not> rb_supplied t e" using m by (auto simp: malloc_def rb_supplied_def generous_def split: option.splits) (metis option.distinct(1))
    then show ?thesis using assms(1) m None malloc_delta [OF m] by (simp add: rbtree_node_create_def)
  next
    case (Some a)
    have a: "a \<notin> live t" using assms(3) m Some by (auto simp: malloc_fresh_def malloc_def split: option.splits)
    have d2: "env_delta 1 e e2" using malloc_delta [OF m] Some by simp
    obtain st3 k3 e3 where k: "rbtree_copy_object (rb_key_type t) (rb_key_stride t) (rb_key_align t) (Some (Some k)) e2 = (st3, k3, e3)"
      using prod_cases3 by blast
    show ?thesis
    proof (cases "st3 = STL_OK")
      case False
      then show ?thesis using copy_object_cases [OF k c(1-3)] assms(1) m Some k d2
        by (auto simp: rbtree_node_create_def rb_supplied_def dest: env_delta_trans generous_env_delta)
    next
      case True
      then have k3: "k3 = Some (Some k)" "env_delta 1 e2 e3" using copy_object_cases [OF k c(1-3)] by auto
      obtain st4 v4 e4 where v: "rbtree_copy_object (rb_value_type t) (rb_value_stride t) (rb_value_align t) (Some (Some v)) e3 = (st4, v4, e4)"
        using prod_cases3 by blast
      have d3: "env_delta 2 e e3" using env_delta_trans [OF d2 k3(2)] by simp
      show ?thesis
      proof (cases "st4 = STL_OK")
        case False
        then have v4: "st4 \<in> {STL_CAPACITY_EXCEEDED, STL_OUT_OF_MEMORY}" "env_delta 0 e3 e4"
          "\<not> (generous 1 (rb_value_stride t) (rb_value_align t) e3 \<and> copy_total (rb_value_type t))"
          using copy_object_cases [OF v c(4-6)] by auto
        have "\<not> rb_supplied t e" using v4(3) generous_env_delta [OF d3] by (auto simp: rb_supplied_def)
        moreover have "env_delta 2 e e4" using env_delta_trans [OF d3 v4(2)] by simp
        ultimately show ?thesis using assms(1) m Some k v k3 True v4 False c(1)
          by (auto simp: rbtree_node_create_def destroy_object_delta)
      next
        case ok: True
        then have v4: "v4 = Some (Some v)" "env_delta 1 e3 e4" using copy_object_cases [OF v c(4-6)] by auto
        have "env_delta 3 e e4" using env_delta_trans [OF d3 v4(2)] by simp
        then show ?thesis using assms(1) m Some k v k3 True v4 ok a
          by (auto simp: rbtree_node_create_def live_def links_def thread_def reds_def node_key_def node_value_def fixed_def
              fun_eq_iff domIff)
      qed
    qed
  qed
qed



section \<open>Search\<close>

definition keyed :: "('k, 'v) rbtree \<Rightarrow> addr tree \<Rightarrow> bool" where
  "keyed t s \<longleftrightarrow> (\<forall>a \<in> set_tree s. \<exists>k. node_key t a = Some (Some k)) \<and>
     sorted_wrt (\<lambda>a b. key_cmp t (key_at t a) (key_at t b) \<le> 0) (inorder s)"

lemma keyed_node:
  "keyed t (Node l a r) \<longleftrightarrow> keyed t l \<and> keyed t r \<and> (\<exists>k. node_key t a = Some (Some k)) \<and>
     (\<forall>b \<in> set_tree l. key_cmp t (key_at t b) (key_at t a) \<le> 0) \<and> (\<forall>b \<in> set_tree r. key_cmp t (key_at t a) (key_at t b) \<le> 0) \<and>
     (\<forall>b \<in> set_tree l. \<forall>d \<in> set_tree r. key_cmp t (key_at t b) (key_at t d) \<le> 0)"
  by (auto simp: keyed_def sorted_wrt_append)

lemma compare_node:
  assumes "config_ok t" and "placed t c (Node l a r)" and "keyed t (Node l a r)"
  shows "get_key t (Some a) = Some (key_at t a)" "rbtree_compare_key t x y = Some (key_cmp t x y)"
  using assms get_key_holds [of a t] cmp_total placed_nodeD(1) [of t c l a r] by (auto simp: keyed_node)

lemma find_loop_placed:
  assumes "config_ok t"
  shows "placed t c s \<Longrightarrow> keyed t s \<Longrightarrow>
    (\<exists>a \<in> set_tree s. find_loop t k (ptr_to s) = Some (Some a) \<and> key_cmp t k (key_at t a) = 0) \<or>
    find_loop t k (ptr_to s) = Some NULL \<and> (\<forall>a \<in> set_tree s. key_cmp t k (key_at t a) \<noteq> 0)"
proof (induction s arbitrary: c)
  case Leaf
  then show ?case by (simp add: find_loop.simps)
next
  case (Node l a r)
  note cmp = compare_node [OF assms Node.prems]
  have a: "a \<in> live t" "lk_left (links t) a = ptr_to l" "lk_right (links t) a = ptr_to r" using placed_nodeD [OF Node.prems(1)] by simp_all
  have l: "placed t (InL a r # c) l" "keyed t l" and r: "placed t (InR l a # c) r" "keyed t r"
    using Node.prems by (simp_all add: keyed_node)
  consider "key_cmp t k (key_at t a) = 0" | "key_cmp t k (key_at t a) < 0" | "0 < key_cmp t k (key_at t a)" by linarith
  then show ?case
  proof cases
    case 1
    then have "find_loop t k (Some a) = Some (Some a)" using cmp by (subst find_loop.simps) simp
    then show ?thesis using 1 by auto
  next
    case 2
    then have "find_loop t k (Some a) = find_loop t k (ptr_to l)" using cmp a by (subst find_loop.simps) simp
    moreover have "key_cmp t k (key_at t b) \<noteq> 0" if "b \<in> set_tree r" for b
      using that Node.prems(2) 2 cmp_laws(5) [OF assms, of k "key_at t a" "key_at t b"] by (fastforce simp: keyed_node)
    ultimately show ?thesis using Node.IH(1) [OF l] 2 by auto
  next
    case 3
    then have "find_loop t k (Some a) = find_loop t k (ptr_to r)" using cmp a by (subst find_loop.simps) simp
    moreover have "key_cmp t k (key_at t b) \<noteq> 0" if "b \<in> set_tree l" for b
      using that Node.prems(2) 3 cmp_laws(1,2) [OF assms] cmp_laws(4) [OF assms, of "key_at t b" "key_at t a" k]
      by (fastforce simp: keyed_node)
    ultimately show ?thesis using Node.IH(2) [OF r] 3 by auto
  qed
qed

lemma bound_loop_placed:
  assumes "config_ok t" and "\<And>x y. key_cmp t x y \<le> 0 \<Longrightarrow> P (key_cmp t y k) \<Longrightarrow> P (key_cmp t x k)"
  shows "placed t c s \<Longrightarrow> keyed t s \<Longrightarrow>
    bound_loop P t k (ptr_to s) res = Some (first_of (dropWhile (\<lambda>a. P (key_cmp t (key_at t a) k)) (inorder s)) res)"
proof (induction s arbitrary: c res)
  case Leaf
  then show ?case by (simp add: bound_loop.simps)
next
  case (Node l a r)
  let ?P = "\<lambda>a. P (key_cmp t (key_at t a) k)"
  note cmp = compare_node [OF assms(1) Node.prems]
  have a: "a \<in> live t" "lk_left (links t) a = ptr_to l" "lk_right (links t) a = ptr_to r" using placed_nodeD [OF Node.prems(1)] by simp_all
  have l: "placed t (InL a r # c) l" "keyed t l" and r: "placed t (InR l a # c) r" "keyed t r"
    using Node.prems by (simp_all add: keyed_node)
  show ?case
  proof (cases "?P a")
    case True
    then have "bound_loop P t k (Some a) res = bound_loop P t k (ptr_to r) res" using cmp a by (subst bound_loop.simps) simp
    moreover have "?P b" if "b \<in> set_tree l" for b
      using that Node.prems(2) True assms(2) [of "key_at t b" "key_at t a"] by (auto simp: keyed_node)
    then have "dropWhile ?P (inorder l @ a # inorder r) = dropWhile ?P (a # inorder r)" by (intro dropWhile_append2) simp
    then have "dropWhile ?P (inorder (Node l a r)) = dropWhile ?P (inorder r)" using True by simp
    ultimately show ?thesis using Node.IH(2) [OF r] by simp
  next
    case False
    then have "bound_loop P t k (Some a) res = bound_loop P t k (ptr_to l) (Some a)" using cmp a by (subst bound_loop.simps) simp
    moreover have "first_of (dropWhile ?P (inorder (Node l a r))) res = first_of (dropWhile ?P (inorder l)) (Some a)"
    proof (cases "\<exists>b \<in> set_tree l. \<not> ?P b")
      case True
      then obtain b where "b \<in> set (inorder l)" "\<not> ?P b" by auto
      then have "dropWhile ?P (inorder l @ a # inorder r) = dropWhile ?P (inorder l) @ a # inorder r" "dropWhile ?P (inorder l) \<noteq> []"
        by (auto simp: dropWhile_append1 dropWhile_eq_Nil_conv)
      then show ?thesis by (auto simp: first_of_def split: list.splits)
    next
      case all: False
      then have "dropWhile ?P (inorder l @ a # inorder r) = dropWhile ?P (a # inorder r)" "dropWhile ?P (inorder l) = []"
        using dropWhile_append2 [of "inorder l" ?P "a # inorder r"] by (auto simp: dropWhile_eq_Nil_conv)
      then have *: "dropWhile ?P (inorder (Node l a r)) = a # inorder r" "dropWhile ?P (inorder l) = []" using False by simp_all
      show ?thesis unfolding * by simp
    qed
    ultimately show ?thesis using Node.IH(1) [OF l] by simp
  qed
qed

text \<open>The place of a key: after everything that does not exceed it, before the rest.\<close>

definition place_of :: "('k, 'v) rbtree \<Rightarrow> 'k \<Rightarrow> addr path \<Rightarrow> bool" where
  "place_of t k c \<longleftrightarrow> (\<forall>a \<in> set (before c). if rb_allow_duplicates t then 0 \<le> key_cmp t k (key_at t a) else 0 < key_cmp t k (key_at t a)) \<and>
     (\<forall>a \<in> set (after c). key_cmp t k (key_at t a) < 0)"

fun goes_left :: "addr path \<Rightarrow> bool" where
  "goes_left (InL a r # c) = True" | "goes_left _ = False"

lemma put_search_placed:
  assumes "config_ok t"
  shows "placed t c s \<Longrightarrow> keyed t s \<Longrightarrow> place_of t k c \<Longrightarrow> c = [] \<or> (n < 0 \<longleftrightarrow> goes_left c) \<Longrightarrow>
    (\<exists>a \<in> set_tree s. \<exists>p m. put_search t k (ptr_to s) (up_ptr c) n = Some (Some a, p, m) \<and> key_cmp t k (key_at t a) = 0 \<and>
       \<not> rb_allow_duplicates t) \<or>
    (\<exists>d m. put_search t k (ptr_to s) (up_ptr c) n = Some (NULL, up_ptr d, m) \<and> plug d Leaf = plug c s \<and> place_of t k d \<and>
       (d = [] \<or> (m < 0 \<longleftrightarrow> goes_left d)))"
proof (induction s arbitrary: c n)
  case Leaf
  then show ?case by (intro disjI2 exI [of _ c]) (auto simp: put_search.simps)
next
  case (Node l a r)
  note cmp = compare_node [OF assms Node.prems(1,2)]
  have a: "a \<in> live t" "lk_left (links t) a = ptr_to l" "lk_right (links t) a = ptr_to r" using placed_nodeD [OF Node.prems(1)] by simp_all
  have l: "placed t (InL a r # c) l" "keyed t l" and r: "placed t (InR l a # c) r" "keyed t r"
    using Node.prems by (simp_all add: keyed_node)
  let ?m = "key_cmp t k (key_at t a)"
  consider "?m = 0" "\<not> rb_allow_duplicates t" | "?m < 0" | "0 \<le> ?m" "?m = 0 \<longrightarrow> rb_allow_duplicates t" by linarith
  then show ?case
  proof cases
    case 1
    then have "put_search t k (Some a) (up_ptr c) n = Some (Some a, Some a, ?m)" using cmp by (subst put_search.simps) simp
    then show ?thesis using 1 by auto
  next
    case 2
    have "put_search t k (Some a) (up_ptr c) n = put_search t k (ptr_to l) (up_ptr (InL a r # c)) ?m"
      using cmp a 2 by (subst put_search.simps) simp
    moreover have "key_cmp t k (key_at t b) < 0" if "b \<in> set_tree r" for b
      using that Node.prems(2) 2 cmp_laws(5) [OF assms, of k "key_at t a" "key_at t b"] by (auto simp: keyed_node)
    then have "place_of t k (InL a r # c)" using Node.prems(3) 2 by (auto simp: place_of_def)
    ultimately show ?thesis using Node.IH(1) [OF l, of ?m] 2 by auto
  next
    case 3
    have "put_search t k (Some a) (up_ptr c) n = put_search t k (ptr_to r) (up_ptr (InR l a # c)) ?m"
      using cmp a 3 by (subst put_search.simps) auto
    moreover have "if rb_allow_duplicates t then 0 \<le> key_cmp t k (key_at t b) else 0 < key_cmp t k (key_at t b)" if "b \<in> set_tree l" for b
    proof -
      have ba: "key_cmp t (key_at t b) (key_at t a) \<le> 0" using that Node.prems(2) by (simp add: keyed_node)
      have ak: "key_cmp t (key_at t a) k \<le> 0" "?m \<noteq> 0 \<longrightarrow> key_cmp t (key_at t a) k < 0"
        using 3(1) cmp_laws(1) [OF assms, of k "key_at t a"] cmp_laws(1) [OF assms, of "key_at t a" k] by linarith+
      show ?thesis
      proof (cases "?m = 0")
        case True
        then show ?thesis using 3(2) cmp_laws(3) [OF assms ba ak(1)] cmp_laws(1) [OF assms, of k "key_at t b"] by simp
      next
        case False
        then show ?thesis using ak(2) cmp_laws(4) [OF assms ba] cmp_laws(1) [OF assms, of "key_at t b" k] by simp
      qed
    qed
    then have "place_of t k (InR l a # c)" using Node.prems(3) 3 by (auto simp: place_of_def)
    ultimately show ?thesis using Node.IH(2) [OF r, of ?m] 3 by auto
  qed
qed


section \<open>Linking a new node in\<close>

lemma ends_views [simp]:
  "links (t\<lparr>rb_head := p\<rparr>) = links t" "links (t\<lparr>rb_tail := p\<rparr>) = links t" "reds (t\<lparr>rb_head := p\<rparr>) = reds t"
  "reds (t\<lparr>rb_tail := p\<rparr>) = reds t" "live (t\<lparr>rb_head := p\<rparr>) = live t" "live (t\<lparr>rb_tail := p\<rparr>) = live t"
  "node_key (t\<lparr>rb_head := p\<rparr>) = node_key t" "node_key (t\<lparr>rb_tail := p\<rparr>) = node_key t"
  "node_value (t\<lparr>rb_head := p\<rparr>) = node_value t" "node_value (t\<lparr>rb_tail := p\<rparr>) = node_value t"
  "fixed (t\<lparr>rb_head := p\<rparr>) = fixed t" "fixed (t\<lparr>rb_tail := p\<rparr>) = fixed t"
  "thread (t\<lparr>rb_head := p\<rparr>) = (thread t)\<lparr>ch_head := p\<rparr>" "thread (t\<lparr>rb_tail := p\<rparr>) = (thread t)\<lparr>ch_tail := p\<rparr>"
  by (simp_all add: links_def thread_def reds_def node_key_def node_value_def live_def fixed_def fun_eq_iff)

text \<open>Steps that change the pointers and nothing else.\<close>

definition same_contents :: "('k, 'v) rbtree \<Rightarrow> ('k, 'v) rbtree \<Rightarrow> bool" where
  "same_contents t t' \<longleftrightarrow> live t' = live t \<and> node_key t' = node_key t \<and> node_value t' = node_value t \<and>
     rb_size t' = rb_size t \<and> fixed t' = fixed t"

lemma put_link_placed:
  assumes "placed t d Leaf" and "d = [] \<or> (m < 0 \<longleftrightarrow> goes_left d)" and "z \<in> live t" and "z \<notin> set (before d) \<union> set (after d)"
    and "lk_left (links t) z = NULL" and "lk_right (links t) z = NULL" and "ch_next (thread t) z = NULL" and "ch_prev (thread t) z = NULL"
    and "chained (thread t) (before d @ after d)"
  shows "\<exists>t'. put_link t (Some z) (up_ptr d) m = Some t' \<and> placed t' d (Node Leaf z Leaf) \<and>
    chained (thread t') (before d @ z # after d) \<and> same_contents t t' \<and> reds t' = reds t"
proof (cases d rule: up_ptr.cases)
  case 1
  then show ?thesis using assms(3,5-8)
    by (simp add: put_link_def placed_def linked_def chained_def same_contents_def)
next
  case (2 a r c)
  have pl: "placed t c (Node Leaf a r)" using assms(1) 2 by simp
  have a: "a \<in> live t" "a \<noteq> z" using placed_nodeD(1) [OF pl] assms(4) 2 by auto
  have d: "distinct (before c @ a # inorder r @ after c)" using placed_distinct [OF pl] by simp
  have ch: "chained (thread t) (before c @ a # inorder r @ after c)" using assms(9) 2 by simp
  note u = chained_neighbours(1) [OF ch]
  have nb: "b \<in> live t \<and> b \<noteq> z \<and> b \<noteq> a" if "last_of (before c) NULL = Some b" for b
    using that d pl assms(4) 2 by (cases "before c" rule: rev_cases) (auto simp: placed_def)
  define t1 where "t1 = put_node a (rn_previous_update (\<lambda>_. Some z)) (put_node z (rn_previous_update (\<lambda>_. last_of (before c) NULL))
     (put_node z (rn_next_update (\<lambda>_. Some a)) (put_node a (rn_left_update (\<lambda>_. Some z)) (put_node z (rn_parent_update (\<lambda>_. Some a)) t))))"
  define t' where "t' = (case last_of (before c) NULL of None \<Rightarrow> t1\<lparr>rb_head := Some z\<rparr> | Some b \<Rightarrow> put_node b (rn_next_update (\<lambda>_. Some z)) t1)"
  have t1: "live t1 = live t" using a assms(3) by (simp add: t1_def)
  have code: "put_link t (Some z) (Some a) m = Some t'"
    using assms(2,3) 2 a u nb t1 by (auto simp: put_link_def t'_def t1_def split: option.split)
  have "same_contents t t'" "reds t' = reds t" "links t' = setl a (Some z) (setp z (Some a) (links t))" "rb_root t' = rb_root t"
    using a assms(3) nb t1 by (auto simp: t'_def t1_def same_contents_def split: option.split)
  moreover have "thread t' = link_in (last_of (before c) NULL) z (Some a) (thread t)"
    using a assms(3) nb t1 by (auto simp: t'_def t1_def link_in_def Let_def fun_upd_twist split: option.split)
  moreover have "chained (link_in (last_of (before c) NULL) z (Some a) (thread t)) (before c @ z # a # inorder r @ after c)"
    using ch assms(4) 2 by (intro chained_link_in) auto
  ultimately show ?thesis using code 2 pl d a assms(3-6)
    by (auto simp: placed_def linked_def same_contents_def)
next
  case (3 l a c)
  have pl: "placed t c (Node l a Leaf)" using assms(1) 3 by simp
  have a: "a \<in> live t" "a \<noteq> z" using placed_nodeD(1) [OF pl] assms(4) 3 by auto
  have d: "distinct (before c @ inorder l @ a # after c)" using placed_distinct [OF pl] by simp
  have ch: "chained (thread t) ((before c @ inorder l) @ a # after c)" using assms(9) 3 by simp
  note u = chained_neighbours(2) [OF ch]
  have nb: "b \<in> live t \<and> b \<noteq> z \<and> b \<noteq> a" if "first_of (after c) NULL = Some b" for b
    using that d pl assms(4) 3 by (cases "after c") (auto simp: placed_def)
  define t1 where "t1 = put_node a (rn_next_update (\<lambda>_. Some z)) (put_node z (rn_next_update (\<lambda>_. first_of (after c) NULL))
     (put_node z (rn_previous_update (\<lambda>_. Some a)) (put_node a (rn_right_update (\<lambda>_. Some z)) (put_node z (rn_parent_update (\<lambda>_. Some a)) t))))"
  define t' where "t' = (case first_of (after c) NULL of None \<Rightarrow> t1\<lparr>rb_tail := Some z\<rparr> | Some b \<Rightarrow> put_node b (rn_previous_update (\<lambda>_. Some z)) t1)"
  have t1: "live t1 = live t" using a assms(3) by (simp add: t1_def)
  have code: "put_link t (Some z) (Some a) m = Some t'"
    using assms(2,3) 3 a u nb t1 by (auto simp: put_link_def t'_def t1_def split: option.split)
  have "same_contents t t'" "reds t' = reds t" "links t' = setr a (Some z) (setp z (Some a) (links t))" "rb_root t' = rb_root t"
    using a assms(3) nb t1 by (auto simp: t'_def t1_def same_contents_def split: option.split)
  moreover have "thread t' = link_in (Some a) z (first_of (after c) NULL) (thread t)"
    using a assms(3) nb t1 by (auto simp: t'_def t1_def link_in_def Let_def fun_upd_twist split: option.split)
  moreover have "chained (link_in (Some a) z (first_of (after c) NULL) (thread t)) ((before c @ inorder l @ [a]) @ z # after c)"
    using ch assms(4) 3 by (intro chained_link_in) (auto simp: last_of_def)
  ultimately show ?thesis using code 3 pl d a assms(3-6)
    by (auto simp: placed_def linked_def same_contents_def)
qed



section \<open>The promise\<close>

lemma rep_key:
  assumes "rbtree_rep t es" and "x \<in> set es"
  shows "key_at t (fst x) = fst (snd x)" "fst x \<in> live t" "node_key t (fst x) = Some (Some (fst (snd x)))"
    "node_value t (fst x) = Some (Some (snd (snd x)))"
  using assms by (auto simp: rbtree_rep_def holds_def key_at_def)

lemma rep_treeE:
  assumes "rbtree_rep t es"
  obtains s where "placed t [] s" "red_black (reds t) s" "inorder s = entry_addrs es" "keyed t s" "rb_root t = ptr_to s"
proof -
  obtain s where s: "placed t [] s" "red_black (reds t) s" "inorder s = entry_addrs es" using assms by (auto simp: rbtree_rep_def)
  have m: "set_tree s = fst ` set es" using s(3) by (metis set_inorder set_map)
  have "sorted_wrt (\<lambda>x y. key_cmp t (key_at t (fst x)) (key_at t (fst y)) \<le> 0) es"
  proof (rule sorted_wrt_mono_rel)
    show "sorted_wrt (entry_before t) es" using assms by (simp add: rbtree_rep_def)
  qed (use rep_key [OF assms] in \<open>auto simp: entry_before_def split: if_splits\<close>)
  then have "keyed t s" using s(3) m rep_key(3) [OF assms] by (auto simp: keyed_def sorted_wrt_map)
  with s that placed_root show thesis by blast
qed

definition with_key :: "('k, 'v) rbtree \<Rightarrow> 'k \<Rightarrow> ('k, 'v) entry \<Rightarrow> bool" where
  "with_key t k x \<longleftrightarrow> key_cmp t k (fst (snd x)) = 0"

lemma same_key:
  assumes "config_ok t" and "key_cmp t k x = 0"
  shows "key_cmp t k y = 0 \<longleftrightarrow> key_cmp t x y = 0"
proof -
  note [simp] = assms(2)
  have "key_cmp t x k = 0" using assms cmp_laws(2) [OF assms(1)] by metis
  then show ?thesis
    using cmp_laws(3) [OF assms(1), of x k y] cmp_laws(3) [OF assms(1), of k x y] cmp_laws(3) [OF assms(1), of y k x]
      cmp_laws(3) [OF assms(1), of y x k] cmp_laws(1,2) [OF assms(1), of x y] cmp_laws(1,2) [OF assms(1), of k y]
    by force
qed

text \<open>Without duplicates a key determines its entry.\<close>

lemma unique_key:
  assumes "rbtree_rep t es" and "\<not> rb_allow_duplicates t" and "x \<in> set es" and "y \<in> set es" and "with_key t k x" and "with_key t k y"
  shows "x = y"
proof -
  have c: "config_ok t" using assms(1) by (simp add: rbtree_rep_def)
  have "key_cmp t (fst (snd x)) (fst (snd y)) = 0" using same_key [OF c, of k "fst (snd x)"] assms(5,6) by (simp add: with_key_def)
  then have "\<not> entry_before t x y" "\<not> entry_before t y x"
    using cmp_laws(2) [OF c, of "fst (snd y)" "fst (snd x)"] assms(2) by (simp_all add: entry_before_def)
  moreover have "x = y \<or> entry_before t x y \<or> entry_before t y x"
    using assms(1,3,4) by (auto simp: rbtree_rep_def in_set_conv_nth sorted_wrt_iff_nth_less) (metis linorder_neqE_nat)
  ultimately show ?thesis by blast
qed

text \<open>The node of a tree without duplicates gets a new value; a new entry goes behind those that do
  not exceed its key.\<close>

definition replace_entry :: "('k, 'v) rbtree \<Rightarrow> 'k \<Rightarrow> 'v \<Rightarrow> ('k, 'v) entry list \<Rightarrow> ('k, 'v) entry list" where
  "replace_entry t k v es = map (\<lambda>x. if with_key t k x then (fst x, fst (snd x), v) else x) es"

definition insert_entry :: "('k, 'v) rbtree \<Rightarrow> ('k, 'v) entry \<Rightarrow> ('k, 'v) entry list \<Rightarrow> ('k, 'v) entry list" where
  "insert_entry t z es =
     takeWhile (\<lambda>x. 0 \<le> key_cmp t (fst (snd z)) (fst (snd x))) es @ z # dropWhile (\<lambda>x. 0 \<le> key_cmp t (fst (snd z)) (fst (snd x))) es"

lemma insert_entry_split:
  "(\<And>x. x \<in> set xs \<Longrightarrow> 0 \<le> key_cmp t (fst (snd z)) (fst (snd x))) \<Longrightarrow> (\<And>y. y \<in> set ys \<Longrightarrow> key_cmp t (fst (snd z)) (fst (snd y)) < 0) \<Longrightarrow>
   insert_entry t z (xs @ ys) = xs @ z # ys"
proof (induction xs)
  case Nil
  then have "ys \<noteq> [] \<Longrightarrow> key_cmp t (fst (snd z)) (fst (snd (hd ys))) < 0" by simp
  then show ?case by (cases ys) (simp_all add: insert_entry_def)
qed (auto simp: insert_entry_def)

lemma entry_addrs_replace [simp]: "entry_addrs (replace_entry t k v es) = entry_addrs es"
  by (simp add: replace_entry_def)

lemma put_replace_rep:
  assumes "rbtree_rep t es" and "a \<in> set (entry_addrs es)" and "key_cmp t k (key_at t a) = 0" and "\<not> rb_allow_duplicates t"
    and "put_replace t (Some a) (Some (Some v)) (Some r) e = res"
  shows "(\<exists>t' e'. res = Some (STL_OK, t', Some RBTREE_REPLACED, e') \<and> rbtree_rep t' (replace_entry t k v es) \<and>
      env_delta 0 e e' \<and> fixed t' = fixed t) \<or>
    (\<exists>st e'. res = Some (st, t, Some r, e') \<and> st \<in> {STL_CAPACITY_EXCEEDED, STL_OUT_OF_MEMORY} \<and> env_delta 0 e e' \<and> \<not> rb_supplied t e)"
proof -
  have c: "config_ok t" "elem_ok (rb_value_type t)" "rb_value_stride t \<noteq> 0" "sequence_alignment_valid (rb_value_align t)"
    using assms(1) by (auto simp: config_ok_def rbtree_rep_def)
  obtain x where x: "x \<in> set es" "fst x = a" using assms(2) by auto
  have lv: "a \<in> live t" "node_value t a = Some (Some (snd (snd x)))" "with_key t k x" using rep_key [OF assms(1) x(1)] x assms(3) by (auto simp: with_key_def)
  obtain n where n: "load t (Some a) = Some n" "rn_value n = Some (Some (snd (snd x)))" using load_live [OF lv(1)] lv(2) by auto
  obtain st v1 e1 where cp: "rbtree_copy_object (rb_value_type t) (rb_value_stride t) (rb_value_align t) (Some (Some v)) e = (st, v1, e1)"
    using prod_cases3 by blast
  show ?thesis
  proof (cases "st = STL_OK")
    case False
    then show ?thesis using copy_object_cases [OF cp c(2-4)] cp assms(5) by (auto simp: put_replace_def rb_supplied_def)
  next
    case True
    then have v1: "v1 = Some (Some v)" "env_delta 1 e e1" using copy_object_cases [OF cp c(2-4)] by auto
    define t' where "t' = put_node a (rn_value_update (\<lambda>_. Some (Some v))) t"
    have f: "fixed t' = fixed t" "live t' = live t" "links t' = links t" "thread t' = thread t" "reds t' = reds t" "rb_root t' = rb_root t"
      "node_key t' = node_key t" "node_value t' = (node_value t)(a := Some (Some v))" "rb_size t' = rb_size t"
      using lv by (simp_all add: t'_def)
    have same: "with_key t k y \<longleftrightarrow> fst y = a" if y: "y \<in> set es" for y
    proof
      assume "with_key t k y"
      then show "fst y = a" using unique_key [OF assms(1,4) y x(1) _ lv(3)] x(2) by blast
    next
      assume "fst y = a"
      then show "with_key t k y" using rep_key(1) [OF assms(1) y] assms(3) by (simp add: with_key_def)
    qed
    have "rbtree_rep t' (replace_entry t k v es)"
      unfolding rbtree_rep_def entry_addrs_replace
    proof (intro conjI)
      show "config_ok t'" using c(1) fixed_config(3) [OF f(1)] by simp
      show "\<exists>s. placed t' [] s \<and> red_black (reds t') s \<and> inorder s = entry_addrs es"
        using assms(1) f by (auto simp: rbtree_rep_def placed_def)
      show "\<forall>x \<in> set (replace_entry t k v es). holds t' x"
        using rep_key [OF assms(1)] same by (auto simp: replace_entry_def holds_def f)
      have "sorted_wrt (entry_before t) es" using assms(1) by (simp add: rbtree_rep_def)
      then show "sorted_wrt (entry_before t') (replace_entry t k v es)"
        unfolding fixed_config(4) [OF f(1)] replace_entry_def sorted_wrt_map
        by (rule sorted_wrt_mono_rel [rotated]) (auto simp: entry_before_def)
    qed (use assms(1) f in \<open>auto simp: rbtree_rep_def replace_entry_def\<close>)
    moreover have "res = Some (STL_OK, t', Some RBTREE_REPLACED, rbtree_destroy_object (rb_value_type t) (Some (Some (snd (snd x)))) e1)"
      using assms(5) cp True n lv v1 by (auto simp: put_replace_def t'_def)
    ultimately show ?thesis using v1 c(2) f(1) by (auto simp: destroy_object_delta)
  qed
qed


lemma size_views [simp]:
  "links (t\<lparr>rb_size := n\<rparr>) = links t" "thread (t\<lparr>rb_size := n\<rparr>) = thread t" "reds (t\<lparr>rb_size := n\<rparr>) = reds t"
  "live (t\<lparr>rb_size := n\<rparr>) = live t" "node_key (t\<lparr>rb_size := n\<rparr>) = node_key t" "node_value (t\<lparr>rb_size := n\<rparr>) = node_value t"
  "fixed (t\<lparr>rb_size := n\<rparr>) = fixed t" "placed (t\<lparr>rb_size := n\<rparr>) c s = placed t c s"
  by (simp_all add: links_def thread_def reds_def node_key_def node_value_def live_def fixed_def fun_eq_iff placed_def)

lemma dead_views:
  "a \<notin> live t \<Longrightarrow> lk_left (links t) a = NULL \<and> lk_right (links t) a = NULL \<and> ch_next (thread t) a = NULL \<and> ch_prev (thread t) a = NULL"
  by (auto simp: live_def links_def thread_def domIff)

text \<open>The representation after a change of the pointers, from its parts.\<close>

lemma rep_insertI:
  assumes "rbtree_rep t (xs @ ys)" and "a \<notin> live t" and "placed t' [] s" and "red_black (reds t') s" and "inorder s = entry_addrs (xs @ z # ys)"
    and "chained (thread t') (entry_addrs (xs @ z # ys))" and "live t' = insert a (live t)" and "node_key t' = (node_key t)(a := Some (Some k))"
    and "node_value t' = (node_value t)(a := Some (Some v))" and "fixed t' = fixed t" and "rb_size t' = rb_size t + 1" and "z = (a, k, v)"
    and "\<And>x. x \<in> set xs \<Longrightarrow> entry_before t x z" and "\<And>y. y \<in> set ys \<Longrightarrow> entry_before t z y"
  shows "rbtree_rep t' (xs @ z # ys)"
  unfolding rbtree_rep_def
proof (intro conjI)
  show "config_ok t'" using assms(1) fixed_config(3) [OF assms(10)] by (simp add: rbtree_rep_def)
  have "fst x \<noteq> a" if "x \<in> set xs \<union> set ys" for x using that rep_key(2) [OF assms(1), of x] assms(2) by auto
  then show "\<forall>x \<in> set (xs @ z # ys). holds t' x"
    using rep_key [OF assms(1)] assms(12) by (auto simp: holds_def assms(8,9))
  show "sorted_wrt (entry_before t') (xs @ z # ys)"
    using assms(1,13,14) unfolding fixed_config(4) [OF assms(10)] by (auto simp: rbtree_rep_def sorted_wrt_append)
qed (use assms in \<open>auto simp: rbtree_rep_def\<close>)

lemma put_insert_rep:
  assumes "rbtree_rep t es" and "placed t d Leaf" and "red_black (reds t) (plug d Leaf)" and "before d @ after d = entry_addrs es"
    and "place_of t k d" and "d = [] \<or> (m < 0 \<longleftrightarrow> goes_left d)" and "malloc_fresh t e"
    and "put_insert t (Some (Some k)) (Some (Some v)) (up_ptr d) m (Some r) e = res"
  shows "(\<exists>a t' e'. res = Some (STL_OK, t', Some RBTREE_INSERTED, e') \<and> a \<notin> live t \<and> rbtree_rep t' (insert_entry t (a, k, v) es) \<and>
      env_delta 3 e e' \<and> fixed t' = fixed t \<and> length es < rb_element_limit t) \<or>
    (\<exists>st e'. res = Some (st, t, Some r, e') \<and> st \<in> {STL_CAPACITY_EXCEEDED, STL_OUT_OF_MEMORY} \<and> env_delta 0 e e' \<and>
      (rb_element_limit t \<le> length es \<and> st = STL_CAPACITY_EXCEEDED \<or> \<not> rb_supplied t e))"
proof (cases "rb_element_limit t \<le> rb_size t")
  case True
  then show ?thesis using assms(1,8) by (auto simp: put_insert_def rbtree_rep_def)
next
  case False
  have c: "config_ok t" using assms(1) by (simp add: rbtree_rep_def)
  obtain st p t1 e1 where cr: "rbtree_node_create t (Some (Some k)) (Some (Some v)) e = (st, p, t1, e1)" using prod_cases4 by blast
  from node_create_cases [OF cr c assms(7)] show ?thesis
  proof (elim disjE exE conjE)
    fix a
    assume a: "st = STL_OK" "p = Some a" "a \<notin> live t" "env_delta 3 e e1" "live t1 = insert a (live t)" "links t1 = links t"
      "thread t1 = thread t" "reds t1 = (reds t)(a := True)" "node_key t1 = (node_key t)(a := Some (Some k))"
      "node_value t1 = (node_value t)(a := Some (Some v))" "fixed t1 = fixed t" "rb_size t1 = rb_size t" "rb_root t1 = rb_root t"
    have p1: "placed t1 d Leaf" using assms(2) a by (auto simp: placed_def)
    have out: "a \<notin> set (before d) \<union> set (after d)" using assms(2) a(3) by (auto simp: placed_def)
    have dead: "lk_left (links t1) a = NULL" "lk_right (links t1) a = NULL" "ch_next (thread t1) a = NULL" "ch_prev (thread t1) a = NULL"
      using dead_views [OF a(3)] a by auto
    have ch: "chained (thread t1) (before d @ after d)" using assms(1,4) a by (simp add: rbtree_rep_def)
    have lv: "a \<in> live t1" using a by simp
    from put_link_placed [OF p1 assms(6) lv out dead ch] obtain t2 where t2: "put_link t1 (Some a) (up_ptr d) m = Some t2"
      "placed t2 d (Node Leaf a Leaf)" "chained (thread t2) (before d @ a # after d)" "same_contents t1 t2" "reds t2 = reds t1" by blast
    have "red_at t2 d (Node Leaf a Leaf)"
      using t2(2) assms(3) out by (simp add: red_at_def t2(5) a(8) red_black_plug)
    from insert_fix_placed [OF this] obtain t3 s where t3: "rbtree_insert_fix t2 (Some a) = Some t3" "kept t2 t3" "placed t3 [] s"
      "red_black (reds t3) s" "inorder s = before d @ a # after d" by auto
    obtain xs ys where es: "es = xs @ ys" "before d = entry_addrs xs" "after d = entry_addrs ys"
      using assms(4) [symmetric] by (auto simp: map_eq_append_conv)
    have bx: "0 \<le> key_cmp t k (fst (snd x)) \<and> entry_before t x (a, k, v)" if "x \<in> set xs" for x
      using that assms(5) rep_key(1) [OF assms(1), of x] es cmp_laws(1) [OF c, of "fst (snd x)" k] cmp_laws(1) [OF c, of k "fst (snd x)"]
      by (fastforce simp: place_of_def entry_before_def split: if_splits)
    have ay: "key_cmp t k (fst (snd y)) < 0 \<and> entry_before t (a, k, v) y" if "y \<in> set ys" for y
      using that assms(5) rep_key(1) [OF assms(1), of y] es by (fastforce simp: place_of_def entry_before_def)
    have ie: "insert_entry t (a, k, v) es = xs @ (a, k, v) # ys" unfolding es(1) using bx ay by (intro insert_entry_split) auto
    define t4 where "t4 = t3\<lparr>rb_size := rb_size t3 + 1\<rparr>"
    have f: "live t3 = live t1" "thread t3 = thread t2" "node_key t3 = node_key t1" "node_value t3 = node_value t1"
      "rb_size t3 = rb_size t" "fixed t3 = fixed t" using t3(2) t2(4) a by (simp_all add: kept_def same_contents_def)
    have "rbtree_rep t4 (xs @ (a, k, v) # ys)"
      by (rule rep_insertI [OF assms(1) [unfolded es(1)] a(3) _ _ _ _ _ _ _ _ _ refl])
        (use t3 t2(3) f a es bx ay in \<open>simp_all add: t4_def\<close>)
    moreover have "res = Some (STL_OK, t4, Some RBTREE_INSERTED, e1)"
      using assms(8) cr False a(1,2) t2(1) t3(1) by (simp add: put_insert_def t4_def)
    ultimately show ?thesis using a(3,4) f(6) False assms(1) unfolding ie [symmetric] by (auto simp: t4_def rbtree_rep_def)
  next
    assume "st \<in> {STL_CAPACITY_EXCEEDED, STL_OUT_OF_MEMORY}" "p = NULL" "t1 = t" "env_delta 0 e e1" "\<not> rb_supplied t e"
    then show ?thesis using assms(8) cr False by (auto simp: put_insert_def)
  qed
qed

text \<open>What \<open>rbtree_put\<close> may do to the entries.\<close>

definition put_outcome ::
  "('k, 'v) rbtree \<Rightarrow> ('k, 'v) entry list \<Rightarrow> 'k \<Rightarrow> 'v \<Rightarrow> rbtree_put_result \<Rightarrow> env \<Rightarrow>
   stl_status \<Rightarrow> ('k, 'v) rbtree \<Rightarrow> rbtree_put_result ptr \<Rightarrow> env \<Rightarrow> bool" where
  "put_outcome t es k v r e st t' out e' \<longleftrightarrow> fixed t' = fixed t \<and>
     (if \<not> rb_allow_duplicates t \<and> (\<exists>x \<in> set es. with_key t k x)
      then st = STL_OK \<and> out = Some RBTREE_REPLACED \<and> rbtree_rep t' (replace_entry t k v es) \<and> env_delta 0 e e' \<or>
           st \<in> {STL_CAPACITY_EXCEEDED, STL_OUT_OF_MEMORY} \<and> t' = t \<and> out = Some r \<and> env_delta 0 e e' \<and> \<not> rb_supplied t e
      else (\<exists>a. st = STL_OK \<and> out = Some RBTREE_INSERTED \<and> a \<notin> live t \<and> rbtree_rep t' (insert_entry t (a, k, v) es) \<and>
              env_delta 3 e e' \<and> length es < rb_element_limit t) \<or>
           st \<in> {STL_CAPACITY_EXCEEDED, STL_OUT_OF_MEMORY} \<and> t' = t \<and> out = Some r \<and> env_delta 0 e e' \<and>
              (rb_element_limit t \<le> length es \<and> st = STL_CAPACITY_EXCEEDED \<or> \<not> rb_supplied t e))"

lemma rbtree_put_outcome:
  assumes "rbtree_rep t es" and "malloc_fresh t e"
  shows "\<exists>st t' out e'. rbtree_put (Some t) (Some (Some k)) (Some (Some v)) (Some r) e = Some (st, Some t', out, e') \<and>
    put_outcome t es k v r e st t' out e'"
proof -
  have c: "config_ok t" using assms(1) by (simp add: rbtree_rep_def)
  obtain s where s: "placed t [] s" "red_black (reds t) s" "inorder s = entry_addrs es" "keyed t s" "rb_root t = ptr_to s"
    using rep_treeE [OF assms(1)] .
  have st: "set_tree s = set (entry_addrs es)" using s(3) by (metis set_inorder)
  from put_search_placed [OF c s(1,4), of k 0] consider
    (old) a p m where "a \<in> set_tree s" "put_search t k (ptr_to s) NULL 0 = Some (Some a, p, m)" "key_cmp t k (key_at t a) = 0"
      "\<not> rb_allow_duplicates t"
    | (new) d m where "put_search t k (ptr_to s) NULL 0 = Some (NULL, up_ptr d, m)" "plug d Leaf = s" "place_of t k d"
      "d = [] \<or> (m < 0 \<longleftrightarrow> goes_left d)"
    by (auto simp: place_of_def)
  then show ?thesis
  proof cases
    case old
    obtain x where x: "x \<in> set es" "fst x = a" using old(1) st by auto
    then have "with_key t k x" using rep_key(1) [OF assms(1) x(1)] old(3) by (simp add: with_key_def)
    then have w: "\<not> rb_allow_duplicates t \<and> (\<exists>x \<in> set es. with_key t k x)" using x old(4) by blast
    have a: "a \<in> set (entry_addrs es)" using old(1) st by simp
    have "rbtree_put (Some t) (Some (Some k)) (Some (Some v)) (Some r) e =
      map_option (\<lambda>(st, t, out, e). (st, Some t, out, e)) (put_replace t (Some a) (Some (Some v)) (Some r) e)"
      using old(2) by (auto simp: rbtree_put_def s(5) split: Option.bind_split)
    then show ?thesis using put_replace_rep [OF assms(1) a old(3,4) refl, of v r e] w by (auto simp: put_outcome_def)
  next
    case new
    have "placed t d Leaf" "red_black (reds t) (plug d Leaf)" "before d @ after d = entry_addrs es"
      using s(1-3) new(2) placed_plug [of t d Leaf] by auto
    note rep = put_insert_rep [OF assms(1) this new(3,4) assms(2) refl, of v r]
    have "key_cmp t k (key_at t a) \<noteq> 0" if "a \<in> set_tree s" "\<not> rb_allow_duplicates t" for a
      using that new(2,3) by (fastforce simp: place_of_def)
    then have "\<not> (\<not> rb_allow_duplicates t \<and> (\<exists>x \<in> set es. with_key t k x))"
      using rep_key(1) [OF assms(1)] st by (force simp: with_key_def)
    moreover have "rbtree_put (Some t) (Some (Some k)) (Some (Some v)) (Some r) e =
      map_option (\<lambda>(st, t, out, e). (st, Some t, out, e)) (put_insert t (Some (Some k)) (Some (Some v)) (up_ptr d) m (Some r) e)"
      using new(1) by (auto simp: rbtree_put_def s(5) split: Option.bind_split)
    ultimately show ?thesis using rep unfolding put_outcome_def by fastforce
  qed
qed



section \<open>Removal of a node\<close>

lemma remove_unchain_placed:
  assumes "chained (thread t) (as @ a # bs)" and "set (as @ a # bs) \<subseteq> live t"
  shows "\<exists>t'. remove_unchain t (Some a) = Some t' \<and> thread t' = link_out a (thread t) \<and> same_contents t t' \<and>
    links t' = links t \<and> reds t' = reds t \<and> rb_root t' = rb_root t"
proof -
  have d: "distinct (as @ a # bs)" using assms(1) by (simp add: chained_def)
  note nb = chained_neighbours [OF assms(1)]
  have a: "a \<in> live t" using assms(2) by simp
  have u: "b \<in> live t \<and> b \<noteq> a" if "ch_prev (thread t) a = Some b" for b
    using that nb(1) d assms(2) by (cases as rule: rev_cases) auto
  have v: "b \<in> live t \<and> b \<noteq> a" if "ch_next (thread t) a = Some b" for b
    using that nb(2) d assms(2) by (cases bs) auto
  obtain n where n: "load t (Some a) = Some n" "rn_next n = ch_next (thread t) a" "rn_previous n = ch_prev (thread t) a"
    using load_live [OF a] by auto
  define t1 where "t1 = (case ch_prev (thread t) a of None \<Rightarrow> t\<lparr>rb_head := ch_next (thread t) a\<rparr>
    | Some b \<Rightarrow> put_node b (rn_next_update (\<lambda>_. ch_next (thread t) a)) t)"
  have t1: "same_contents t t1" "links t1 = links t" "reds t1 = reds t" "rb_root t1 = rb_root t" "live t1 = live t"
    "ch_next (thread t1) a = ch_next (thread t) a" "ch_prev (thread t1) a = ch_prev (thread t) a"
    using u by (auto simp: t1_def same_contents_def split: option.split)
  obtain n1 where n1: "load t1 (Some a) = Some n1" "rn_next n1 = ch_next (thread t) a" "rn_previous n1 = ch_prev (thread t) a"
    using load_live [of a t1] a t1 by auto
  define t' where "t' = (case ch_next (thread t) a of None \<Rightarrow> t1\<lparr>rb_tail := ch_prev (thread t) a\<rparr>
    | Some b \<Rightarrow> put_node b (rn_previous_update (\<lambda>_. ch_prev (thread t) a)) t1)"
  have "(if rn_previous n \<noteq> NULL then set_next (rn_previous n) (rn_next n) t else Some (t\<lparr>rb_head := rn_next n\<rparr>)) = Some t1"
    using n(2,3) u by (auto simp: t1_def split: option.split)
  then have "remove_unchain t (Some a) = Some t'"
    unfolding remove_unchain_def using n(1) n1 v t1(5) by (auto simp: t'_def split: option.split)
  moreover have "thread t' = link_out a (thread t)"
    using u v a t1(5-7) by (auto simp: t'_def t1_def link_out_def Let_def split: option.split)
  moreover have "same_contents t t'" "links t' = links t" "reds t' = reds t" "rb_root t' = rb_root t"
    using t1 v by (auto simp: t'_def same_contents_def split: option.split)
  ultimately show ?thesis by blast
qed

definition drop_node :: "addr \<Rightarrow> ('k, 'v) rbtree \<Rightarrow> ('k, 'v) rbtree" where
  "drop_node a t = t\<lparr>rb_nodes := (rb_nodes t)(a := None)\<rparr>"

lemma drop_node_views [simp]:
  "links (drop_node a t) = setl a None (setr a None (setp a None (links t)))"
  "ch_next (thread (drop_node a t)) = (ch_next (thread t))(a := None)" "ch_prev (thread (drop_node a t)) = (ch_prev (thread t))(a := None)"
  "ch_head (thread (drop_node a t)) = ch_head (thread t)" "ch_tail (thread (drop_node a t)) = ch_tail (thread t)"
  "reds (drop_node a t) = (reds t)(a := False)" "live (drop_node a t) = live t - {a}"
  "node_key (drop_node a t) = (node_key t)(a := None)" "node_value (drop_node a t) = (node_value t)(a := None)"
  "fixed (drop_node a t) = fixed t" "rb_root (drop_node a t) = rb_root t" "rb_size (drop_node a t) = rb_size t"
  by (auto simp: drop_node_def links_def setl_def setr_def setp_def thread_def reds_def live_def node_key_def node_value_def
      fixed_def fun_eq_iff domIff)

lemma chained_drop: "chained (thread t) as \<Longrightarrow> a \<notin> set as \<Longrightarrow> chained (thread (drop_node a t)) as"
  unfolding chained_def by (subst segment_frame [of as "thread (drop_node a t)" "thread t"]) auto

lemma placed_drop: "placed t [] s \<Longrightarrow> a \<notin> set_tree s \<Longrightarrow> placed (drop_node a t) [] s"
  by (auto simp: placed_def linked_def)

text \<open>The representation without one entry, from its parts.\<close>

lemma rep_removeI:
  assumes "rbtree_rep t (xs @ z # ys)" and "placed t' [] s" and "red_black (reds t') s" and "inorder s = entry_addrs (xs @ ys)"
    and "chained (thread t') (entry_addrs (xs @ ys))" and "live t' = live t - {fst z}"
    and "\<And>b. b \<noteq> fst z \<Longrightarrow> node_key t' b = node_key t b" and "\<And>b. b \<noteq> fst z \<Longrightarrow> node_value t' b = node_value t b"
    and "fixed t' = fixed t" and "rb_size t' = rb_size t - 1"
  shows "rbtree_rep t' (xs @ ys)"
  unfolding rbtree_rep_def
proof (intro conjI)
  have d: "distinct (entry_addrs (xs @ z # ys))" using assms(1) by (simp add: rbtree_rep_def chained_def)
  show "config_ok t'" using assms(1) fixed_config(3) [OF assms(9)] by (simp add: rbtree_rep_def)
  have "fst x \<noteq> fst z" if "x \<in> set xs \<union> set ys" for x using that d by (auto simp: rev_image_eqI)
  then show "\<forall>x \<in> set (xs @ ys). holds t' x"
    using rep_key(3,4) [OF assms(1)] assms(7,8) by (auto simp: holds_def)
  show "sorted_wrt (entry_before t') (xs @ ys)"
    using assms(1) unfolding fixed_config(4) [OF assms(9)] by (auto simp: rbtree_rep_def sorted_wrt_append)
  show "live t' = set (entry_addrs (xs @ ys))" using assms(1,6) d by (auto simp: rbtree_rep_def)
  show "\<exists>s. placed t' [] s \<and> red_black (reds t') s \<and> inorder s = entry_addrs (xs @ ys)" using assms(2-4) by blast
qed (use assms in \<open>auto simp: rbtree_rep_def\<close>)

lemma remove_node_rep:
  assumes "rbtree_rep t (xs @ (a, k, v) # ys)"
  shows "\<exists>t' e'. rbtree_remove_node (Some t) (Some a) out e = Some (STL_OK, Some t', map_option (\<lambda>_. Some v) out, e') \<and>
    rbtree_rep t' (xs @ ys) \<and> fixed t' = fixed t \<and> env_delta (- 3) e e'"
proof -
  let ?es = "xs @ (a, k, v) # ys"
  have c: "elem_ok (rb_key_type t)" "elem_ok (rb_value_type t)" using assms by (auto simp: rbtree_rep_def config_ok_def)
  have d: "distinct (entry_addrs ?es)" and ch: "chained (thread t) (entry_addrs ?es)" and lv: "live t = set (entry_addrs ?es)"
    using assms by (auto simp: rbtree_rep_def chained_def)
  obtain s where s: "placed t [] s" "red_black (reds t) s" "inorder s = entry_addrs ?es" using assms by (auto simp: rbtree_rep_def)
  have a: "a \<in> live t" "node_key t a = Some (Some k)" "node_value t a = Some (Some v)" using rep_key [OF assms, of "(a, k, v)"] by auto
  have "a \<in> set_tree s" using s(3) by (metis (no_types, lifting) fst_conv in_set_conv_decomp list.set_map map_append rev_image_eqI set_inorder)
  then obtain p l r where p: "s = plug p (Node l a r)" using at_address by metis
  have "before p @ inorder l @ a # inorder r @ after p = entry_addrs xs @ a # entry_addrs ys" using s(3) p by simp
  then have sides: "before p @ inorder l = entry_addrs xs" "inorder r @ after p = entry_addrs ys"
    using d append_Cons_eq_iff [of a "entry_addrs xs" "entry_addrs ys" "before p @ inorder l" "inorder r @ after p"] by auto
  let ?w = "vacated (rb_value_type t) (Some v)"
  define t0 where "t0 = put_node a (rn_value_update (\<lambda>_. Some ?w)) t"
  have t0: "live t0 = live t" "links t0 = links t" "thread t0 = thread t" "reds t0 = reds t" "rb_root t0 = rb_root t" "node_key t0 = node_key t"
    "node_value t0 = (node_value t)(a := Some ?w)" "fixed t0 = fixed t" "rb_size t0 = rb_size t"
    using a by (simp_all add: t0_def)
  have "placed t0 p (Node l a r)" "red_black (reds t0) (plug p (Node l a r))"
    using s p t0 placed_plug [of t p "Node l a r"] by (auto simp: placed_def)
  from remove_tree [OF this] obtain t1 was_red fn fp t2 s2 where t2: "remove_unlink t0 (Some a) = Some (t1, was_red, fn, fp)"
    "(if \<not> was_red then rbtree_delete_fix t1 fn fp else Some t1) = Some t2" "kept t0 t2" "placed t2 [] s2" "red_black (reds t2) s2"
    "inorder s2 = before p @ inorder l @ inorder r @ after p" by blast
  have "chained (thread t2) (entry_addrs xs @ a # entry_addrs ys)" "set (entry_addrs xs @ a # entry_addrs ys) \<subseteq> live t2"
    using ch lv t2(3) t0 by (auto simp: kept_def)
  from remove_unchain_placed [OF this] obtain t3 where t3: "remove_unchain t2 (Some a) = Some t3" "thread t3 = link_out a (thread t2)"
    "same_contents t2 t3" "links t3 = links t2" "reds t3 = reds t2" "rb_root t3 = rb_root t2" by blast
  have ch3: "chained (thread t3) (entry_addrs (xs @ ys))"
    using chained_link_out [of "thread t2" "entry_addrs xs" a "entry_addrs ys"] ch t2(3) t0(3) by (simp add: kept_def t3(2))
  have f3: "live t3 = live t" "node_key t3 = node_key t" "node_value t3 = (node_value t)(a := Some ?w)" "fixed t3 = fixed t" "rb_size t3 = rb_size t"
    using t3(3) t2(3) t0 by (simp_all add: same_contents_def kept_def)
  obtain n where n: "load t (Some a) = Some n" "rn_value n = Some (Some v)" using load_live [OF a(1)] a(3) by auto
  obtain n3 where n3: "load t3 (Some a) = Some n3" "rn_key n3 = Some (Some k)" "rn_value n3 = Some ?w"
    using load_live [of a t3] a f3 by auto
  define t4 where "t4 = (drop_node a t3)\<lparr>rb_size := rb_size t3 - 1\<rparr>"
  define e4 where "e4 = free_block (sequence_deallocate (Some ?w) (rbtree_destroy_object (rb_key_type t) (Some (Some k)) e))"
  have kt: "rb_key_type t3 = rb_key_type t" using fixed_config(5) [OF f3(4)] .
  have "rbtree_remove_node (Some t) (Some a) out e = Some (STL_OK, Some t4, map_option (\<lambda>_. Some v) out, e4)"
    using n n3 a c t2(1,2) t3(1) kt
    by (cases out) (simp_all add: rbtree_remove_node_def t4_def e4_def drop_node_def flip: t0_def)
  moreover have "env_delta (- 3) e e4" using c by (simp add: e4_def destroy_object_delta)
  moreover have in2: "inorder s2 = entry_addrs (xs @ ys)" unfolding t2(6) map_append sides(2) by (simp flip: sides(1))
  have "a \<notin> set (entry_addrs (xs @ ys))" using d by simp
  then have "a \<notin> set_tree s2" "a \<notin> set (entry_addrs (xs @ ys))" "inorder s2 = entry_addrs (xs @ ys)" by (simp_all flip: set_inorder add: in2)
  then have "placed (drop_node a t3) [] s2" "red_black (reds (drop_node a t3)) s2" "chained (thread (drop_node a t3)) (entry_addrs (xs @ ys))"
    "inorder s2 = entry_addrs (xs @ ys)"
    using t2(4,5) t3(3-6) ch3 by (auto intro!: placed_drop chained_drop simp: red_black_def placed_def linked_def same_contents_def)
  then have "rbtree_rep t4 (xs @ ys)"
    by (intro rep_removeI [OF assms, of _ s2]) (simp_all add: t4_def f3)
  ultimately show ?thesis using f3(4) by (auto simp: t4_def)
qed


section \<open>Searching, clearing, creating\<close>

abbreviation entry_key :: "('k, 'v) entry \<Rightarrow> 'k" where
  "entry_key x \<equiv> fst (snd x)"

lemma rbtree_find_rep:
  assumes "rbtree_rep t es"
  shows "(\<exists>x \<in> set es. rbtree_find (Some t) (Some k) = Some (Some (fst x)) \<and> with_key t k x) \<or>
    rbtree_find (Some t) (Some k) = Some NULL \<and> (\<forall>x \<in> set es. \<not> with_key t k x)"
proof -
  have c: "config_ok t" using assms by (simp add: rbtree_rep_def)
  obtain s where s: "placed t [] s" "inorder s = entry_addrs es" "keyed t s" "rb_root t = ptr_to s" using rep_treeE [OF assms] by metis
  have st: "set_tree s = fst ` set es" using s(2) by (metis set_inorder set_map)
  have k: "key_cmp t k (key_at t (fst x)) = 0 \<longleftrightarrow> with_key t k x" if "x \<in> set es" for x
    using rep_key(1) [OF assms that] by (simp add: with_key_def)
  show ?thesis using find_loop_placed [OF c s(1,3), of k] k by (auto simp: rbtree_find_def s(4) st)
qed

lemma dropWhile_map_addrs:
  assumes "rbtree_rep t es"
  shows "dropWhile (\<lambda>a. P (key_at t a)) (entry_addrs es) = entry_addrs (dropWhile (\<lambda>x. P (entry_key x)) es)"
  unfolding dropWhile_map comp_def using rep_key(1) [OF assms] by (simp cong: dropWhile_cong)

lemma rbtree_bounds_rep:
  assumes "rbtree_rep t es"
  shows "rbtree_lower_bound (Some t) (Some k) = Some (first_of (entry_addrs (dropWhile (\<lambda>x. key_cmp t (entry_key x) k < 0) es)) NULL)"
    "rbtree_upper_bound (Some t) (Some k) = Some (first_of (entry_addrs (dropWhile (\<lambda>x. key_cmp t (entry_key x) k \<le> 0) es)) NULL)"
proof -
  have c: "config_ok t" using assms by (simp add: rbtree_rep_def)
  obtain s where s: "placed t [] s" "inorder s = entry_addrs es" "keyed t s" "rb_root t = ptr_to s" using rep_treeE [OF assms] by metis
  show "rbtree_lower_bound (Some t) (Some k) = Some (first_of (entry_addrs (dropWhile (\<lambda>x. key_cmp t (entry_key x) k < 0) es)) NULL)"
    using bound_loop_placed [OF c _ s(1,3), where P = "\<lambda>n. n < 0" and k = k and res = NULL] cmp_laws(4) [OF c]
    by (auto simp: rbtree_lower_bound_def s(2,4) dropWhile_map_addrs [OF assms, where P = "\<lambda>y. key_cmp t y k < 0"])
  show "rbtree_upper_bound (Some t) (Some k) = Some (first_of (entry_addrs (dropWhile (\<lambda>x. key_cmp t (entry_key x) k \<le> 0) es)) NULL)"
    using bound_loop_placed [OF c _ s(1,3), where P = "\<lambda>n. n \<le> 0" and k = k and res = NULL] cmp_laws(3) [OF c]
    by (auto simp: rbtree_upper_bound_def s(2,4) dropWhile_map_addrs [OF assms, where P = "\<lambda>y. key_cmp t y k \<le> 0"])
qed

lemma clear_loop_chain:
  assumes "elem_ok (rb_key_type t)" and "elem_ok (rb_value_type t)"
  shows "segment (thread t) u p as l NULL \<Longrightarrow> distinct as \<Longrightarrow> set as \<subseteq> live t \<Longrightarrow>
    (\<forall>a \<in> set as. node_key t a \<noteq> NULL \<and> node_value t a \<noteq> NULL) \<Longrightarrow>
    \<exists>e'. clear_loop t p e = Some (fold drop_node as t, e') \<and> env_delta (- 3 * int (length as)) e e'"
  using assms
proof (induction as arbitrary: t u p e)
  case Nil
  then show ?case by (auto simp: clear_loop.simps)
next
  case (Cons a as)
  have p: "p = Some a" and sg: "segment (thread t) (Some a) (ch_next (thread t) a) as l NULL" using Cons.prems(1) by auto
  obtain n where n: "load t (Some a) = Some n" "rn_key n = node_key t a" "rn_value n = node_value t a" "rn_next n = ch_next (thread t) a"
    using load_live [of a t] Cons.prems(3) by auto
  obtain k v where kv: "rn_key n = Some k" "rn_value n = Some v" using Cons.prems(4) n by auto
  let ?e = "free_block (rbtree_destroy_object (rb_value_type t) (Some v) (rbtree_destroy_object (rb_key_type t) (Some k) e))"
  have d: "env_delta (- 3) e ?e" using Cons.prems(5,6) by (simp add: destroy_object_delta)
  have f: "elem_ok (rb_key_type (drop_node a t))" "elem_ok (rb_value_type (drop_node a t))"
    using Cons.prems(5,6) by (simp_all add: drop_node_def)
  have "segment (thread (drop_node a t)) (Some a) (ch_next (thread t) a) as l NULL"
    using sg Cons.prems(2) by (subst segment_frame [of as "thread (drop_node a t)" "thread t"]) auto
  moreover have "set as \<subseteq> live (drop_node a t)" "\<forall>b \<in> set as. node_key (drop_node a t) b \<noteq> NULL \<and> node_value (drop_node a t) b \<noteq> NULL"
    "distinct as" using Cons.prems(2-4) by auto
  ultimately obtain e' where e': "clear_loop (drop_node a t) (ch_next (thread t) a) ?e = Some (fold drop_node as (drop_node a t), e')"
    "env_delta (- 3 * int (length as)) ?e e'"
    using Cons.IH [of "drop_node a t" "Some a" "ch_next (thread t) a" ?e] f by blast
  have "clear_loop t p e = Some (fold drop_node as (drop_node a t), e')"
    using n kv e'(1) unfolding p by (subst clear_loop.simps) (simp add: drop_node_def)
  moreover have "env_delta (- 3 * int (length (a # as))) e e'" using env_delta_trans [OF d e'(2)] by (simp add: algebra_simps)
  ultimately show ?case by auto
qed

lemma fold_drop [simp]:
  "live (fold drop_node as t) = live t - set as" "fixed (fold drop_node as t) = fixed t"
  by (induction as arbitrary: t) auto

lemma empty_rep:
  "config_ok t \<Longrightarrow> rb_root t = NULL \<Longrightarrow> rb_head t = NULL \<Longrightarrow> rb_tail t = NULL \<Longrightarrow> rb_size t = 0 \<Longrightarrow> live t = {} \<Longrightarrow> rbtree_rep t []"
  by (auto simp: rbtree_rep_def placed_def linked_def red_black_def chained_def thread_def intro: exI [of _ Leaf])

lemma rbtree_clear_rep:
  assumes "rbtree_rep t es"
  shows "\<exists>t' e'. rbtree_clear (Some t) e = Some (Some t', e') \<and> rbtree_rep t' [] \<and> fixed t' = fixed t \<and>
    env_delta (- 3 * int (length es)) e e'"
proof -
  have c: "config_ok t" "elem_ok (rb_key_type t)" "elem_ok (rb_value_type t)" "chained (thread t) (entry_addrs es)" "live t = set (entry_addrs es)"
    using assms by (auto simp: rbtree_rep_def config_ok_def)
  have kv: "\<forall>a \<in> set (entry_addrs es). node_key t a \<noteq> NULL \<and> node_value t a \<noteq> NULL" using rep_key(3,4) [OF assms] by auto
  obtain e' where e': "clear_loop t (rb_head t) e = Some (fold drop_node (entry_addrs es) t, e')" "env_delta (- 3 * int (length es)) e e'"
    using clear_loop_chain [OF c(2,3), of NULL "rb_head t" "entry_addrs es" "rb_tail t" e] c(4,5) kv
    by (auto simp: chained_def thread_def)
  define t' where "t' = (fold drop_node (entry_addrs es) t)\<lparr>rb_root := NULL, rb_head := NULL, rb_tail := NULL, rb_size := 0\<rparr>"
  have f: "fixed t' = fixed t" "live t' = {}" using c(5) by (simp_all add: t'_def)
  have "rbtree_rep t' []"
    by (rule empty_rep) (use f c(1) fixed_config(3) [OF f(1)] in \<open>simp_all add: t'_def\<close>)
  moreover have "rbtree_clear (Some t) e = Some (Some t', e')" using e'(1) by (simp add: rbtree_clear_def t'_def)
  ultimately show ?thesis using f(1) e'(2) by blast
qed

lemma rbtree_destroy_rep:
  "rbtree_rep t es \<Longrightarrow> \<exists>e'. rbtree_destroy (Some t) e = Some e' \<and> env_delta (- 3 * int (length es) - 1) e e'"
  using rbtree_clear_rep [of t es e] by (auto simp: rbtree_destroy_def)

text \<open>The order of the keys that \<open>rbtree_create\<close> is told about.\<close>

definition key_order ::
  "'k cmeta_type_desc ptr \<Rightarrow> ('k \<Rightarrow> 'k \<Rightarrow> nat ptr \<Rightarrow> int) ptr \<Rightarrow> nat ptr \<Rightarrow> ('k \<Rightarrow> 'k \<Rightarrow> int) option" where
  "key_order type compare ctx =
     (case type of Some d \<Rightarrow> do { traits \<leftarrow> td_traits d; tr_compare traits }
      | None \<Rightarrow> map_option (\<lambda>f x y. f x y ctx) compare)"

lemma rbtree_create_rep:
  assumes "rbtree_create (Some p) kt vt ks ka vs va limit cmp ctx dup e = (st, q, e')"
    and "key_order kt cmp ctx = Some f" and "comparator_ok f" and "elem_ok kt" and "elem_ok vt"
    and "ks \<le> SIZE_MAX" and "ka \<le> SIZE_MAX" and "vs \<le> SIZE_MAX" and "va \<le> SIZE_MAX"
  shows "(\<exists>t. st = STL_OK \<and> q = Some (Some t) \<and> rbtree_rep t [] \<and> key_cmp t = f \<and> rb_element_limit t = limit \<and>
      rb_allow_duplicates t = dup \<and> rb_key_type t = kt \<and> rb_value_type t = vt \<and> env_delta 1 e e') \<or>
    st \<noteq> STL_OK \<and> q \<in> {Some p, Some NULL} \<and> env_delta 0 e e'"
proof -
  obtain sk k where k: "sequence_stride ks ka (Some 0) = (sk, k)" by (cases "sequence_stride ks ka (Some 0)")
  obtain sv v where v: "sequence_stride vs va (Some 0) = (sv, v)" by (cases "sequence_stride vs va (Some 0)")
  show ?thesis
  proof (cases "(vt = NULL \<and> vs = 0) \<or> (kt = NULL \<and> cmp = NULL) \<or> sk \<noteq> STL_OK \<or> sv \<noteq> STL_OK \<or> fst (malloc e) = NULL")
    case True
    then show ?thesis using assms(1) k v malloc_delta [of e]
      by (auto simp: rbtree_create_def split: if_splits prod.splits option.splits)
  next
    case False
    then obtain a e1 where m: "malloc e = (Some a, e1)" by (cases "malloc e") auto
    obtain t where t: "st = STL_OK" "q = Some (Some t)" "e' = e1" "t = \<lparr>rb_root = NULL, rb_head = NULL, rb_tail = NULL, rb_size = 0, rb_key_size = ks,
        rb_key_stride = the k, rb_key_align = ka, rb_value_size = vs, rb_value_stride = the v, rb_value_align = va,
        rb_element_limit = limit, rb_key_type = kt, rb_value_type = vt, rb_compare = cmp, rb_compare_context = ctx,
        rb_allow_duplicates = dup, rb_nodes = Map.empty\<rparr>"
      using assms(1) False k v m by (auto simp: rbtree_create_def)
    have ck: "rbtree_compare_key t x y = Some (f x y)" for x y
      using assms(2) by (auto simp: t(4) rbtree_compare_key_def key_order_def split: option.splits bind_splits)
    then have kc: "key_cmp t = f" by (simp add: key_cmp_def fun_eq_iff)
    have "the k \<noteq> 0" "the v \<noteq> 0" "sequence_alignment_valid ka" "sequence_alignment_valid va"
      using stride_nonzero stride_OK_cases k v False assms(6-9) by metis+
    then have "config_ok t" unfolding config_ok_def kc using ck assms(3-5) by (simp add: t(4))
    then have "rbtree_rep t []" by (rule empty_rep) (simp_all add: t(4) live_def)
    then show ?thesis using t kc malloc_delta [OF m] by (auto simp: t(4))
  qed
qed

section \<open>Properties\<close>

text \<open>C4: \<open>rbtree_put\<close> on a tree that stands for the entries \<open>es\<close> always returns. When duplicates are
  not allowed and the key is there, its value is replaced in place and no memory is gained or
  lost; otherwise the entry goes behind every entry whose key does not exceed the new one, three
  blocks are allocated, and the result is a red-black tree threaded in key order again. The
  element limit and a failing allocation or copy leave the tree as it was, with nothing leaked,
  and there is no other way to fail.\<close>

theorem rbtree_put_refines:
  assumes "rbtree_rep t es" and "malloc_fresh t e"
  shows "\<exists>st t' out e'. rbtree_put (Some t) (Some (Some k)) (Some (Some v)) (Some r) e = Some (st, Some t', out, e') \<and>
    put_outcome t es k v r e st t' out e'"
  by (rule rbtree_put_outcome [OF assms])

text \<open>C2: \<open>rbtree_remove_node\<close> on any node of a tree that stands for the entries around it always
  succeeds: the value is delivered (or destroyed when the caller passes NULL), the other entries
  stay in a red-black tree threaded in key order, and exactly the node, its key and its value
  block are freed.\<close>

theorem rbtree_remove_refines:
  assumes "rbtree_rep t (xs @ (a, k, v) # ys)"
  shows "\<exists>t' e'. rbtree_remove_node (Some t) (Some a) out e = Some (STL_OK, Some t', map_option (\<lambda>_. Some v) out, e') \<and>
    rbtree_rep t' (xs @ ys) \<and> fixed t' = fixed t \<and> env_delta (- 3) e e'"
  by (rule remove_node_rep [OF assms])

text \<open>C35: Search: \<open>rbtree_find\<close> returns a node with an equal key exactly when there is one,
  \<open>rbtree_lower_bound\<close> the first node in key order whose key is not smaller than the key given,
  \<open>rbtree_upper_bound\<close> the first whose key is greater; the tree they descend has a height at most
  twice the logarithm of the number of entries.\<close>

theorem rbtree_search_correct:
  assumes "rbtree_rep t es"
  shows "((\<exists>x \<in> set es. rbtree_find (Some t) (Some k) = Some (Some (fst x)) \<and> with_key t k x) \<or>
      rbtree_find (Some t) (Some k) = Some NULL \<and> (\<forall>x \<in> set es. \<not> with_key t k x)) \<and>
    rbtree_lower_bound (Some t) (Some k) = Some (first_of (entry_addrs (dropWhile (\<lambda>x. key_cmp t (entry_key x) k < 0) es)) NULL) \<and>
    rbtree_upper_bound (Some t) (Some k) = Some (first_of (entry_addrs (dropWhile (\<lambda>x. key_cmp t (entry_key x) k \<le> 0) es)) NULL) \<and>
    (\<exists>s. placed t [] s \<and> inorder s = entry_addrs es \<and> 2 ^ (height s div 2) \<le> length es + 1)"
proof (intro conjI)
  obtain s where s: "placed t [] s" "red_black (reds t) s" "inorder s = entry_addrs es" using rep_treeE [OF assms] by metis
  have "size s = length es" using s(3) by (metis length_inorder length_map)
  then show "\<exists>s. placed t [] s \<and> inorder s = entry_addrs es \<and> 2 ^ (height s div 2) \<le> length es + 1"
    using red_black_height [OF s(2)] s by auto
qed (use rbtree_find_rep [OF assms] rbtree_bounds_rep [OF assms] in auto)

text \<open>C36: From creation to destruction: \<open>rbtree_create\<close> gives an empty tree and one block, or fails with
  nothing allocated; \<open>rbtree_clear\<close> empties any tree, and \<open>rbtree_destroy\<close> gives back every block that
  belongs to it, three for each entry and one for the tree.\<close>

theorem rbtree_lifecycle:
  assumes "key_order kt cmp ctx = Some f" and "comparator_ok f" and "elem_ok kt" and "elem_ok vt"
    and "max (max ks ka) (max vs va) \<le> SIZE_MAX" and "rbtree_rep t es"
  shows "(\<forall>st q e'. rbtree_create (Some p) kt vt ks ka vs va limit cmp ctx dup e = (st, q, e') \<longrightarrow>
      (\<exists>w. st = STL_OK \<and> q = Some (Some w) \<and> rbtree_rep w [] \<and> env_delta 1 e e') \<or> st \<noteq> STL_OK \<and> env_delta 0 e e') \<and>
    (\<exists>w e'. rbtree_clear (Some t) e = Some (Some w, e') \<and> rbtree_rep w [] \<and> fixed w = fixed t \<and> env_delta (- 3 * int (length es)) e e') \<and>
    (\<exists>e'. rbtree_destroy (Some t) e = Some e' \<and> env_delta (- 3 * int (length es) - 1) e e')"
proof (intro conjI allI impI)
  fix st q e'
  assume "rbtree_create (Some p) kt vt ks ka vs va limit cmp ctx dup e = (st, q, e')"
  from rbtree_create_rep [OF this assms(1-4)] assms(5)
  show "(\<exists>w. st = STL_OK \<and> q = Some (Some w) \<and> rbtree_rep w [] \<and> env_delta 1 e e') \<or> st \<noteq> STL_OK \<and> env_delta 0 e e'" by auto
qed (use rbtree_clear_rep [OF assms(6)] rbtree_destroy_rep [OF assms(6)] in auto)

section \<open>Witnesses\<close>

text \<open>A tree with one node, key 3 and value 7, at address 4096.\<close>

definition one_node_of :: "bool \<Rightarrow> (nat, nat) rbtree" where
  "one_node_of dup = \<lparr>rb_root = Some 4096, rb_head = Some 4096, rb_tail = Some 4096, rb_size = 1, rb_key_size = 4, rb_key_stride = 4,
     rb_key_align = 4, rb_value_size = 4, rb_value_stride = 4, rb_value_align = 4, rb_element_limit = 8,
     rb_key_type = Some nat_desc, rb_value_type = Some nat_desc, rb_compare = NULL, rb_compare_context = NULL,
     rb_allow_duplicates = dup,
     rb_nodes = [4096 \<mapsto> \<lparr>rn_parent = NULL, rn_left = NULL, rn_right = NULL, rn_previous = NULL, rn_next = NULL,
       rn_key = Some (Some 3), rn_value = Some (Some 7), rn_red = False\<rparr>]\<rparr>"

definition one_node_tree :: "(nat, nat) rbtree" where
  "one_node_tree = one_node_of False"

definition other_env :: env where
  "other_env = \<lparr>malloc_oracle = (\<lambda>_. Some 64), malloc_calls = 0, live_blocks = 4\<rparr>"

lemma nat_order: "comparator_ok (\<lambda>x y. int x - int y)" "elem_ok (Some nat_desc)"
  "key_order (Some nat_desc) NULL NULL = Some (\<lambda>x y. int x - int y)"
proof -
  show "comparator_ok (\<lambda>x y. int x - int y)" by (simp add: comparator_ok_def)
  show "elem_ok (Some nat_desc)" by (simp add: elem_ok_def nat_desc_lawful nat_desc_type)
  show "key_order (Some nat_desc) NULL NULL = Some (\<lambda>x y. int x - int y)" by (simp add: key_order_def nat_desc_def nat_traits_def)
qed

lemma one_node_of_rep: "rbtree_rep (one_node_of dup) [(4096, 3, 7)]"
proof -
  have ck: "rbtree_compare_key (one_node_of dup) x y = Some (int x - int y)" for x y
    by (simp add: rbtree_compare_key_def one_node_of_def nat_desc_def nat_traits_def)
  have kc: "key_cmp (one_node_of dup) = (\<lambda>x y. int x - int y)" by (simp add: key_cmp_def ck fun_eq_iff)
  have "sequence_alignment_valid 4" by (simp add: sequence_alignment_valid_def)
  then have "config_ok (one_node_of dup)" unfolding config_ok_def kc using ck nat_order by (simp add: one_node_of_def)
  moreover have "placed (one_node_of dup) [] (Node Leaf 4096 Leaf)" "red_black (reds (one_node_of dup)) (Node Leaf 4096 Leaf)"
    "inorder (Node Leaf 4096 Leaf) = entry_addrs [(4096, 3::nat, 7::nat)]"
    by (simp_all add: placed_def linked_def links_def live_def reds_def red_black_def one_node_of_def)
  moreover have "chained (thread (one_node_of dup)) [4096]" "live (one_node_of dup) = {4096}" "rb_size (one_node_of dup) = 1"
    "holds (one_node_of dup) (4096, 3, 7)"
    by (simp_all add: chained_def thread_def live_def holds_def node_key_def node_value_def one_node_of_def)
  ultimately show ?thesis unfolding rbtree_rep_def by auto
qed

lemma one_node_rep: "rbtree_rep one_node_tree [(4096, 3, 7)]"
  unfolding one_node_tree_def by (rule one_node_of_rep)

theorem rbtree_put_refines_witness:
  "(\<exists>st t' out e'. rbtree_put (Some one_node_tree) (Some (Some 5)) (Some (Some 9)) (Some RBTREE_REPLACED) other_env = Some (st, Some t', out, e') \<and>
    put_outcome one_node_tree [(4096, 3, 7)] 5 9 RBTREE_REPLACED other_env st t' out e') \<and> rb_supplied one_node_tree other_env"
proof
  have "malloc_fresh one_node_tree other_env"
    by (simp add: malloc_fresh_def other_env_def live_def one_node_tree_def one_node_of_def)
  then show "\<exists>st t' out e'. rbtree_put (Some one_node_tree) (Some (Some 5)) (Some (Some 9)) (Some RBTREE_REPLACED) other_env = Some (st, Some t', out, e') \<and>
    put_outcome one_node_tree [(4096, 3, 7)] 5 9 RBTREE_REPLACED other_env st t' out e'"
    by (rule rbtree_put_refines [OF one_node_rep])
qed (simp add: rb_supplied_def generous_def copy_total_def other_env_def one_node_tree_def one_node_of_def SIZE_MAX_def sizeof_pointer_def nat_desc_def nat_traits_def)

theorem rbtree_remove_refines_witness:
  "\<exists>t' e'. rbtree_remove_node (Some one_node_tree) (Some 4096) (Some None) other_env = Some (STL_OK, Some t', Some (Some 7), e') \<and>
    rbtree_rep t' [] \<and> fixed t' = fixed one_node_tree \<and> env_delta (- 3) other_env e'"
  using rbtree_remove_refines [of one_node_tree "[]" 4096 3 7 "[]" "Some None" other_env] one_node_rep by simp

theorem rbtree_search_correct_witness:
  "rbtree_find (Some one_node_tree) (Some 3) = Some (Some 4096) \<and> rbtree_upper_bound (Some one_node_tree) (Some 3) = Some NULL"
proof -
  have kc: "key_cmp one_node_tree 3 3 = 0"
    by (simp add: key_cmp_def rbtree_compare_key_def one_node_tree_def one_node_of_def nat_desc_def nat_traits_def)
  show ?thesis using rbtree_search_correct [OF one_node_rep, of 3] kc by (auto simp: with_key_def)
qed

theorem rbtree_lifecycle_witness:
  "\<exists>e'. rbtree_destroy (Some one_node_tree) other_env = Some e' \<and> env_delta (- 4) other_env e'"
proof -
  have "max (max 4 4) (max 4 4) \<le> SIZE_MAX" by (simp add: SIZE_MAX_def)
  from rbtree_lifecycle [OF nat_order(3,1,2,2) this one_node_rep, of _ _ _ other_env] show ?thesis by auto
qed

end
