(* ===== verification/Call_History.thy ===== *)
theory Call_History
  imports Cstl_Storage
begin

text \<open>
  Histories of calls on a container whose nodes are allocated one by one. A call may be made
  whenever the allocator keeps its promise not to hand out memory in use (\<open>fresh\<close>); the calls are
  partial functions, and that they return is part of the contract.
\<close>

inductive history ::
  "('op \<Rightarrow> 'q ptr \<Rightarrow> env \<Rightarrow> (stl_status \<times> 'q ptr \<times> 'a option ptr \<times> env) option) \<Rightarrow> ('q \<Rightarrow> env \<Rightarrow> bool) \<Rightarrow>
   'q \<Rightarrow> env \<Rightarrow> ('op \<times> stl_status \<times> 'a option ptr) list \<Rightarrow> 'q \<Rightarrow> env \<Rightarrow> bool"
  for app fresh where
  start: "history app fresh q s [] q s"
| call: "fresh q s \<Longrightarrow> app op (Some q) s = Some (st, Some q1, out, s1) \<Longrightarrow> history app fresh q1 s1 log q2 s2 \<Longrightarrow>
    history app fresh q s ((op, st, out) # log) q2 s2"

inductive_simps history_Nil [simp]: "history app fresh q s [] q' s'"
inductive_cases history_ConsE: "history app fresh q s (c # log) q' s'"

locale node_container =
  fixes rep :: "'q \<Rightarrow> 'c \<Rightarrow> bool"
    and app :: "'op \<Rightarrow> 'q ptr \<Rightarrow> env \<Rightarrow> (stl_status \<times> 'q ptr \<times> 'a option ptr \<times> env) option"
    and out_of :: "'op \<Rightarrow> 'a option ptr"
    and model_of :: "'q \<Rightarrow> 'op \<Rightarrow> 'c \<Rightarrow> stl_status \<times> 'c \<times> 'a option"
    and nblocks :: "'q \<Rightarrow> int"
    and config :: "'q \<Rightarrow> 'q \<Rightarrow> bool"
    and resources :: "'q \<Rightarrow> env \<Rightarrow> bool"
    and fresh :: "'q \<Rightarrow> env \<Rightarrow> bool"
  assumes step: "rep q xs \<Longrightarrow> fresh q s \<Longrightarrow> model_of q op xs = (st0, ys, y) \<Longrightarrow>
      \<exists>st w out s'. app op (Some q) s = Some (st, Some w, out, s') \<and> env_delta (nblocks w - nblocks q) s s' \<and> config q w \<and>
        (st = st0 \<and> rep w ys \<and> out = deliver y (out_of op) \<or> st \<noteq> STL_OK \<and> w = q \<and> out = out_of op \<and> \<not> resources q s)"
    and failure_keeps: "model_of q op xs = (st, ys, y) \<Longrightarrow> st \<noteq> STL_OK \<Longrightarrow> ys = xs"
    and config_refl: "config q q"
    and config_trans: "config q w \<Longrightarrow> config w u \<Longrightarrow> config q u"
    and config_model: "config q w \<Longrightarrow> model_of w = model_of q"
    and config_resources: "config q w \<Longrightarrow> resources q s \<Longrightarrow> resources w s"
    and delta_resources: "env_delta k s s' \<Longrightarrow> resources q s \<Longrightarrow> resources q s'"
begin

lemma call_cases:
  assumes "rep q xs" and "fresh q s" and "app op (Some q) s = Some (st, Some w, out, s')" and "model_of q op xs = (st0, ys, y)"
  shows "env_delta (nblocks w - nblocks q) s s'" "config q w"
    "st = st0 \<and> rep w ys \<and> out = deliver y (out_of op) \<or> st \<noteq> STL_OK \<and> w = q \<and> out = out_of op \<and> \<not> resources q s"
  using step [OF assms(1,2,4)] assms(3) by auto

lemma call_returns: "rep q xs \<Longrightarrow> fresh q s \<Longrightarrow> app op (Some q) s \<noteq> None"
  using step [of q xs s op] by (metis option.distinct(1) prod_cases3)

lemma history_acknowledged:
  "history app fresh q s log w s' \<Longrightarrow> rep q xs \<Longrightarrow>
   config q w \<and> env_delta (nblocks w - nblocks q) s s' \<and> rep w (replay (model_of q) log xs)"
proof (induction arbitrary: xs rule: history.induct)
  case (start q s)
  then show ?case using config_refl by simp
next
  case (call q s op st q1 out s1 log q2 s2)
  obtain st0 ys y where md: "model_of q op xs = (st0, ys, y)" using prod_cases3 by blast
  note c = call_cases [OF call.prems call.hyps(1,2) md]
  have "rep q1 (if st = STL_OK then ys else xs)" using c(3) call.prems failure_keeps [OF md] by auto
  from call.IH [OF this] show ?case
    using c(1,2) md config_trans [OF c(2), of q2] env_delta_trans [OF c(1), of "nblocks q2 - nblocks q1" s2]
    by (auto simp: config_model [OF c(2)])
qed

lemma history_supplied:
  "history app fresh q s log w s' \<Longrightarrow> rep q xs \<Longrightarrow> resources q s \<Longrightarrow>
   \<exists>ys. run_model out_of (model_of q) (map fst log) xs = (map snd log, ys) \<and> rep w ys"
proof (induction arbitrary: xs rule: history.induct)
  case (call q s op st q1 out s1 log q2 s2)
  obtain st0 ys y where md: "model_of q op xs = (st0, ys, y)" using prod_cases3 by blast
  note c = call_cases [OF call.prems(1) call.hyps(1,2) md]
  have r: "st = st0" "rep q1 ys" "out = deliver y (out_of op)" using c(3) call.prems(2) by auto
  have "resources q1 s1" using delta_resources [OF c(1)] config_resources [OF c(2) call.prems(2)] by blast
  from call.IH [OF r(2) this] show ?case using md r by (auto simp: config_model [OF c(2)])
qed simp

end

end
