(* ===== verification/Cstl_Map.thy ===== *)
theory Cstl_Map
  imports Cstl_Rbtree_Contents Call_History
begin

text \<open>
  The ordered map (\<^verbatim>\<open>src/cstl/src/map.c\<close>, \<^verbatim>\<open>cstl/map.h\<close>): a handle over a red-black tree
  without duplicates. Operations change the handle and the tree it points to; iterators and range cursors
  hold the address of the handle and look the handle up in the store \<open>maps\<close> when they are
  used, so a change of the map between two calls is seen.
\<close>

section \<open>The handle\<close>

record ('k, 'v) map_t =
  om_descriptor :: "nat ptr"
  om_key_type :: "'k cmeta_type_desc ptr"
  om_value_type :: "'v cmeta_type_desc ptr"
  om_impl :: "('k, 'v) rbtree ptr"
  om_generation :: u64

definition map_zeroed :: "('k, 'v) map_t" where
  "map_zeroed = \<lparr>om_descriptor = NULL, om_key_type = NULL, om_value_type = NULL, om_impl = NULL, om_generation = 0\<rparr>"

definition map_tree :: "('k, 'v) map_t ptr \<Rightarrow> ('k, 'v) rbtree ptr" where
  "map_tree m = Option.bind m om_impl"

definition map_bump :: "('k, 'v) map_t \<Rightarrow> ('k, 'v) map_t" where
  "map_bump m = m\<lparr>om_generation := om_generation m + 1\<rparr>"

definition map_initialize ::
  "('k, 'v) map_t ptr \<Rightarrow> 'k cmeta_type_desc ptr \<Rightarrow> 'v cmeta_type_desc ptr \<Rightarrow> size_t \<Rightarrow> size_t \<Rightarrow> size_t \<Rightarrow> size_t \<Rightarrow>
   size_t \<Rightarrow> ('k \<Rightarrow> 'k \<Rightarrow> nat ptr \<Rightarrow> int) ptr \<Rightarrow> nat ptr \<Rightarrow> env \<Rightarrow> stl_status \<times> ('k, 'v) map_t ptr \<times> env" where
  "map_initialize m key_type value_type key_size key_align value_size value_align entry_limit compare ctx e =
     (if m = NULL \<or> om_impl (the m) \<noteq> NULL then (STL_INVALID_ARGUMENT, m, e)
      else
        case rbtree_create (Some NULL) key_type value_type key_size key_align value_size value_align entry_limit
               compare ctx False e of
          (st, tree, e1) \<Rightarrow>
            if st \<noteq> STL_OK then (st, m, e1)
            else (STL_OK, Some (map_bump ((the m)\<lparr>om_impl := the tree\<rparr>)), e1))"

definition map_raw_init ::
  "('k, 'v) map_t ptr \<Rightarrow> 'k cmeta_type_desc ptr \<Rightarrow> 'v cmeta_type_desc ptr \<Rightarrow> size_t \<Rightarrow> env \<Rightarrow>
   stl_status \<times> ('k, 'v) map_t ptr \<times> env" where
  "map_raw_init m key_type value_type entry_limit e =
     (if m = NULL \<or> om_impl (the m) \<noteq> NULL then (STL_INVALID_ARGUMENT, m, e)
      else if sequence_require_type key_type True \<noteq> STL_OK then (sequence_require_type key_type True, m, e)
      else if sequence_require_type value_type False \<noteq> STL_OK then (sequence_require_type value_type False, m, e)
      else map_initialize m key_type value_type (td_size (the key_type)) (td_align (the key_type))
             (td_size (the value_type)) (td_align (the value_type)) entry_limit NULL NULL e)"

definition map_init_bytes ::
  "('k, 'v) map_t ptr \<Rightarrow> size_t \<Rightarrow> size_t \<Rightarrow> size_t \<Rightarrow> size_t \<Rightarrow> size_t \<Rightarrow> ('k \<Rightarrow> 'k \<Rightarrow> nat ptr \<Rightarrow> int) ptr \<Rightarrow> nat ptr \<Rightarrow>
   env \<Rightarrow> stl_status \<times> ('k, 'v) map_t ptr \<times> env" where
  "map_init_bytes m key_size key_align value_size value_align entry_limit compare ctx e =
     (if compare = NULL then (STL_INVALID_ARGUMENT, m, e)
      else map_initialize m NULL NULL key_size key_align value_size value_align entry_limit compare ctx e)"

definition map_raw_destroy_storage :: "('k, 'v) map_t ptr \<Rightarrow> env \<Rightarrow> (('k, 'v) map_t ptr \<times> env) option" where
  "map_raw_destroy_storage m e =
     (if map_tree m = NULL then Some (m, e)
      else do {
        e1 \<leftarrow> rbtree_destroy (map_tree m) e;
        Some (Some (map_bump ((the m)\<lparr>om_impl := NULL\<rparr>)), e1)
      })"

definition map_clear :: "('k, 'v) map_t ptr \<Rightarrow> env \<Rightarrow> (('k, 'v) map_t ptr \<times> env) option" where
  "map_clear m e =
     (if map_tree m = NULL \<or> rb_size (the (map_tree m)) = 0 then Some (m, e)
      else do {
        s \<leftarrow> rbtree_clear (map_tree m) e;
        Some (Some (map_bump ((the m)\<lparr>om_impl := fst s\<rparr>)), snd s)
      })"

text \<open>The local \<open>result\<close> that \<open>rbtree_put\<close> fills in is not read.\<close>

definition map_put ::
  "('k, 'v) map_t ptr \<Rightarrow> 'k option ptr \<Rightarrow> 'v option ptr \<Rightarrow> env \<Rightarrow> (stl_status \<times> ('k, 'v) map_t ptr \<times> env) option" where
  "map_put m key val e =
     (if map_tree m = NULL then Some (STL_INVALID_ARGUMENT, m, e)
      else do {
        (st, tree, out, e1) \<leftarrow> rbtree_put (map_tree m) key val (Some RBTREE_INSERTED) e;
        let m1 = (the m)\<lparr>om_impl := tree\<rparr>;
        Some (st, Some (if st = STL_OK then map_bump m1 else m1), e1)
      })"

definition map_get :: "('k, 'v) map_t ptr \<Rightarrow> 'k ptr \<Rightarrow> 'v option ptr option" where
  "map_get m key = do {
     node \<leftarrow> rbtree_find (map_tree m) key;
     if node = NULL then Some NULL else map_option rn_value (load (the (map_tree m)) node)
   }"

definition map_get_const :: "('k, 'v) map_t ptr \<Rightarrow> 'k ptr \<Rightarrow> 'v option ptr option" where
  "map_get_const m key = do {
     node \<leftarrow> rbtree_find (map_tree m) key;
     if node = NULL then Some NULL else map_option rn_value (load (the (map_tree m)) node)
   }"

definition map_contains :: "('k, 'v) map_t ptr \<Rightarrow> 'k ptr \<Rightarrow> bool option" where
  "map_contains m key = map_option (\<lambda>node. node \<noteq> NULL) (rbtree_find (map_tree m) key)"

definition map_remove ::
  "('k, 'v) map_t ptr \<Rightarrow> 'k ptr \<Rightarrow> 'v option ptr \<Rightarrow> env \<Rightarrow>
   (stl_status \<times> ('k, 'v) map_t ptr \<times> 'v option ptr \<times> env) option" where
  "map_remove m key out_value e =
     (if map_tree m = NULL \<or> key = NULL then Some (STL_INVALID_ARGUMENT, m, out_value, e)
      else do {
        node \<leftarrow> rbtree_find (map_tree m) key;
        if node = NULL then Some (STL_NOT_FOUND, m, out_value, e)
        else do {
          (st, tree, out, e1) \<leftarrow> rbtree_remove_node (map_tree m) node out_value e;
          let m1 = (the m)\<lparr>om_impl := tree\<rparr>;
          Some (st, Some (if st = STL_OK then map_bump m1 else m1), out, e1)
        }
      })"

definition map_size :: "('k, 'v) map_t ptr \<Rightarrow> size_t" where
  "map_size m = (case map_tree m of None \<Rightarrow> 0 | Some t \<Rightarrow> rb_size t)"

definition map_entry_limit :: "('k, 'v) map_t ptr \<Rightarrow> size_t" where
  "map_entry_limit m = (case map_tree m of None \<Rightarrow> 0 | Some t \<Rightarrow> rb_element_limit t)"

definition map_generation :: "('k, 'v) map_t ptr \<Rightarrow> u64" where
  "map_generation m = (case m of None \<Rightarrow> 0 | Some x \<Rightarrow> om_generation x)"

definition map_empty :: "('k, 'v) map_t ptr \<Rightarrow> bool" where
  "map_empty m \<longleftrightarrow> map_size m = 0"

section \<open>Construction from arrays\<close>

text \<open>The loop that fills the temporary; a failing put destroys it.\<close>

fun map_put_all ::
  "('k \<times> 'v) list \<Rightarrow> ('k, 'v) map_t ptr \<Rightarrow> env \<Rightarrow> (stl_status \<times> ('k, 'v) map_t ptr \<times> env) option" where
  "map_put_all [] temporary e = Some (STL_OK, temporary, e)"
| "map_put_all ((k, v) # kvs) temporary e = do {
     (st, temporary, e1) \<leftarrow> map_put temporary (Some (Some k)) (Some (Some v)) e;
     if st \<noteq> STL_OK then do {
       s \<leftarrow> map_raw_destroy_storage temporary e1;
       Some (st, fst s, snd s)
     } else map_put_all kvs temporary e1
   }"

text \<open>The caller's arrays are the lists of their elements, both of length \<open>count\<close>.\<close>

definition map_from_common ::
  "('k, 'v) map_t ptr \<Rightarrow> 'k list ptr \<Rightarrow> 'v list ptr \<Rightarrow> size_t \<Rightarrow> 'k cmeta_type_desc ptr \<Rightarrow> 'v cmeta_type_desc ptr \<Rightarrow>
   size_t \<Rightarrow> size_t \<Rightarrow> size_t \<Rightarrow> size_t \<Rightarrow> size_t \<Rightarrow> ('k \<Rightarrow> 'k \<Rightarrow> nat ptr \<Rightarrow> int) ptr \<Rightarrow> nat ptr \<Rightarrow> env \<Rightarrow>
   (stl_status \<times> ('k, 'v) map_t ptr \<times> env) option" where
  "map_from_common m keys vals cnt key_type value_type key_size key_align value_size value_align entry_limit compare ctx e =
     (if m = NULL then Some (STL_INVALID_ARGUMENT, m, e)
      else if cnt \<noteq> 0 \<and> (keys = NULL \<or> vals = NULL) then Some (STL_INVALID_ARGUMENT, m, e)
      else if cnt \<noteq> 0 \<and> (SIZE_MAX div cnt < key_size \<or> SIZE_MAX div cnt < value_size)
      then Some (STL_CAPACITY_EXCEEDED, m, e)
      else
        case (if key_type \<noteq> NULL then map_raw_init (Some map_zeroed) key_type value_type entry_limit e
              else map_init_bytes (Some map_zeroed) key_size key_align value_size value_align entry_limit compare ctx e) of
          (st, temporary, e1) \<Rightarrow>
            if st \<noteq> STL_OK then Some (st, m, e1)
            else do {
              (st, temporary, e2) \<leftarrow> map_put_all (if cnt = 0 then [] else take cnt (zip (the keys) (the vals))) temporary e1;
              if st \<noteq> STL_OK then Some (st, m, e2)
              else do {
                let temporary = (the temporary)\<lparr>om_generation := om_generation (the m) + 1\<rparr>;
                e3 \<leftarrow> (if om_impl (the m) \<noteq> NULL then rbtree_destroy (map_tree m) e2 else Some e2);
                Some (STL_OK, Some temporary, e3)
              }
            })"

definition map_raw_from_arrays ::
  "('k, 'v) map_t ptr \<Rightarrow> 'k list ptr \<Rightarrow> 'v list ptr \<Rightarrow> size_t \<Rightarrow> 'k cmeta_type_desc ptr \<Rightarrow> 'v cmeta_type_desc ptr \<Rightarrow>
   size_t \<Rightarrow> env \<Rightarrow> (stl_status \<times> ('k, 'v) map_t ptr \<times> env) option" where
  "map_raw_from_arrays m keys vals cnt key_type value_type entry_limit e =
     (if key_type = NULL \<or> value_type = NULL then Some (STL_INVALID_ARGUMENT, m, e)
      else map_from_common m keys vals cnt key_type value_type (td_size (the key_type)) (td_align (the key_type))
             (td_size (the value_type)) (td_align (the value_type)) entry_limit NULL NULL e)"

definition map_from_arrays_bytes ::
  "('k, 'v) map_t ptr \<Rightarrow> 'k list ptr \<Rightarrow> 'v list ptr \<Rightarrow> size_t \<Rightarrow> size_t \<Rightarrow> size_t \<Rightarrow> size_t \<Rightarrow> size_t \<Rightarrow> size_t \<Rightarrow>
   ('k \<Rightarrow> 'k \<Rightarrow> nat ptr \<Rightarrow> int) ptr \<Rightarrow> nat ptr \<Rightarrow> env \<Rightarrow> (stl_status \<times> ('k, 'v) map_t ptr \<times> env) option" where
  "map_from_arrays_bytes m keys vals cnt key_size key_align value_size value_align entry_limit compare ctx e =
     map_from_common m keys vals cnt NULL NULL key_size key_align value_size value_align entry_limit compare ctx e"

section \<open>Typed wrappers\<close>

text \<open>The wrappers of \<^verbatim>\<open>map.h\<close> keep the descriptor and the two types the handle was declared with.\<close>

definition map_rebind :: "('k, 'v) map_t \<Rightarrow> ('k, 'v) map_t ptr \<Rightarrow> ('k, 'v) map_t ptr" where
  "map_rebind m r = map_option (\<lambda>x. x\<lparr>om_descriptor := om_descriptor m, om_key_type := om_key_type m, om_value_type := om_value_type m\<rparr>) r"

definition map_init :: "('k, 'v) map_t ptr \<Rightarrow> size_t \<Rightarrow> env \<Rightarrow> stl_status \<times> ('k, 'v) map_t ptr \<times> env" where
  "map_init m entry_limit e =
     (if m = NULL \<or> om_key_type (the m) = NULL \<or> om_value_type (the m) = NULL then (STL_INVALID_ARGUMENT, m, e)
      else
        case map_raw_init m (om_key_type (the m)) (om_value_type (the m)) entry_limit e of
          (st, r, e1) \<Rightarrow> (st, map_rebind (the m) r, e1))"

definition map_from_arrays ::
  "('k, 'v) map_t ptr \<Rightarrow> 'k list ptr \<Rightarrow> 'v list ptr \<Rightarrow> size_t \<Rightarrow> size_t \<Rightarrow> env \<Rightarrow>
   (stl_status \<times> ('k, 'v) map_t ptr \<times> env) option" where
  "map_from_arrays m keys vals cnt entry_limit e =
     (if m = NULL \<or> om_key_type (the m) = NULL \<or> om_value_type (the m) = NULL then Some (STL_INVALID_ARGUMENT, m, e)
      else do {
        (st, r, e1) \<leftarrow> map_raw_from_arrays m keys vals cnt (om_key_type (the m)) (om_value_type (the m)) entry_limit e;
        Some (st, map_rebind (the m) r, e1)
      })"

definition map_destroy :: "('k, 'v) map_t ptr \<Rightarrow> env \<Rightarrow> (('k, 'v) map_t ptr \<times> env) option" where
  "map_destroy m e =
     (if m = NULL then Some (m, e)
      else do { s \<leftarrow> map_raw_destroy_storage m e; Some (map_rebind (the m) (fst s), snd s) })"

section \<open>Iterators and range cursors\<close>

type_synonym ('k, 'v) maps = "u64 \<rightharpoonup> ('k, 'v) map_t"

record map_iter =
  it_owner :: "u64 ptr"
  it_node :: "addr ptr"

definition owner_tree :: "('k, 'v) maps \<Rightarrow> u64 ptr \<Rightarrow> ('k, 'v) rbtree ptr" where
  "owner_tree maps owner = map_tree (Option.bind owner maps)"

definition map_iterator :: "u64 ptr \<Rightarrow> addr ptr \<Rightarrow> map_iter" where
  "map_iterator m node = \<lparr>it_owner = m, it_node = node\<rparr>"

definition map_begin :: "('k, 'v) maps \<Rightarrow> u64 ptr \<Rightarrow> map_iter" where
  "map_begin maps m = map_iterator m (Option.bind (owner_tree maps m) rb_head)"

definition map_end :: "u64 ptr \<Rightarrow> map_iter" where
  "map_end m = map_iterator m NULL"

definition map_lower_bound :: "('k, 'v) maps \<Rightarrow> u64 ptr \<Rightarrow> 'k ptr \<Rightarrow> map_iter option" where
  "map_lower_bound maps m key = map_option (map_iterator m) (rbtree_lower_bound (owner_tree maps m) key)"

definition map_upper_bound :: "('k, 'v) maps \<Rightarrow> u64 ptr \<Rightarrow> 'k ptr \<Rightarrow> map_iter option" where
  "map_upper_bound maps m key = map_option (map_iterator m) (rbtree_upper_bound (owner_tree maps m) key)"

definition map_iter_next :: "('k, 'v) maps \<Rightarrow> map_iter ptr \<Rightarrow> (stl_status \<times> map_iter ptr) option" where
  "map_iter_next maps it =
     (if it = NULL \<or> owner_tree maps (it_owner (the it)) = NULL \<or> it_node (the it) = NULL then Some (STL_NOT_FOUND, it)
      else do {
        node \<leftarrow> get_next (the (owner_tree maps (it_owner (the it)))) (it_node (the it));
        Some (STL_OK, Some ((the it)\<lparr>it_node := node\<rparr>))
      })"

definition map_iter_prev :: "('k, 'v) maps \<Rightarrow> map_iter ptr \<Rightarrow> (stl_status \<times> map_iter ptr) option" where
  "map_iter_prev maps it =
     (if it = NULL \<or> owner_tree maps (it_owner (the it)) = NULL then Some (STL_INVALID_ARGUMENT, it)
      else
        let tree = the (owner_tree maps (it_owner (the it))) in
        if it_node (the it) = NULL then
          Some (if rb_tail tree = NULL then (STL_NOT_FOUND, it) else (STL_OK, Some ((the it)\<lparr>it_node := rb_tail tree\<rparr>)))
        else do {
          node \<leftarrow> get_previous tree (it_node (the it));
          Some (if node = NULL then (STL_NOT_FOUND, it) else (STL_OK, Some ((the it)\<lparr>it_node := node\<rparr>)))
        })"

definition map_iter_equal :: "map_iter \<Rightarrow> map_iter \<Rightarrow> bool" where
  "map_iter_equal lhs rhs \<longleftrightarrow> it_owner lhs = it_owner rhs \<and> it_node lhs = it_node rhs"

definition map_iter_key_const :: "('k, 'v) maps \<Rightarrow> map_iter \<Rightarrow> 'k option ptr option" where
  "map_iter_key_const maps it =
     (if owner_tree maps (it_owner it) = NULL \<or> it_node it = NULL then Some NULL
      else map_option rn_key (load (the (owner_tree maps (it_owner it))) (it_node it)))"

definition map_iter_value :: "('k, 'v) maps \<Rightarrow> map_iter \<Rightarrow> 'v option ptr option" where
  "map_iter_value maps it =
     (if owner_tree maps (it_owner it) = NULL \<or> it_node it = NULL then Some NULL
      else map_option rn_value (load (the (owner_tree maps (it_owner it))) (it_node it)))"

text \<open>The cursor: \<open>state[0]\<close> is the next node, \<open>state[1]\<close> the map it was started on.\<close>

record range_cursor =
  rc_node :: "addr ptr"
  rc_map :: "u64 ptr"

definition map_range_next ::
  "('k, 'v) maps \<Rightarrow> u64 ptr \<Rightarrow> range_cursor ptr \<Rightarrow> 'k option ptr ptr \<Rightarrow> 'v option ptr ptr \<Rightarrow>
   (bool \<times> range_cursor ptr \<times> 'k option ptr ptr \<times> 'v option ptr ptr) option" where
  "map_range_next maps m cursor out_key out_value =
     (if owner_tree maps m = NULL \<or> cursor = NULL \<or> out_key = NULL \<or> out_value = NULL
      then Some (False, cursor, out_key, out_value)
      else if rc_map (the cursor) \<noteq> NULL \<and> rc_map (the cursor) \<noteq> m then Some (False, cursor, out_key, out_value)
      else
        let tree = the (owner_tree maps m);
            node = (if rc_map (the cursor) = NULL then rb_head tree else rc_node (the cursor));
            c = (the cursor)\<lparr>rc_map := m\<rparr>
        in if node = NULL then Some (False, Some c, out_key, out_value)
           else do {
             n \<leftarrow> load tree node;
             Some (True, Some (c\<lparr>rc_node := rn_next n\<rparr>), Some (rn_key n), Some (rn_value n))
           })"


section \<open>The dictionary\<close>

definition entry_lookup :: "('k, 'v) rbtree \<Rightarrow> ('k, 'v) entry list \<Rightarrow> 'k \<Rightarrow> 'v option" where
  "entry_lookup t es k = map_option (\<lambda>x. snd (snd x)) (find (with_key t k) es)"

definition map_holds :: "('k, 'v) map_t \<Rightarrow> ('k, 'v) rbtree \<Rightarrow> ('k, 'v) entry list \<Rightarrow> bool" where
  "map_holds m t es \<longleftrightarrow> om_impl m = Some t \<and> rbtree_rep t es \<and> \<not> rb_allow_duplicates t"

definition map_sized :: "('k, 'v) map_t \<Rightarrow> ('k \<Rightarrow> 'v option) \<times> nat \<Rightarrow> bool" where
  "map_sized m a \<longleftrightarrow> (\<exists>t es. map_holds m t es \<and> fst a = entry_lookup t es \<and> snd a = length es)"

lemma entry_lookup_Some:
  assumes "map_holds m t es"
  shows "entry_lookup t es k = Some v \<longleftrightarrow> (\<exists>x \<in> set es. with_key t k x \<and> snd (snd x) = v)"
proof
  assume "entry_lookup t es k = Some v"
  then show "\<exists>x \<in> set es. with_key t k x \<and> snd (snd x) = v"
    unfolding entry_lookup_def map_option_eq_Some find_Some_iff by (metis nth_mem)
next
  assume "\<exists>x \<in> set es. with_key t k x \<and> snd (snd x) = v"
  then obtain x where x: "x \<in> set es" "with_key t k x" "snd (snd x) = v" by blast
  then obtain y where y: "find (with_key t k) es = Some y" using find_None_iff [of "with_key t k" es] by fastforce
  then have "y \<in> set es" "with_key t k y" by (auto simp: find_Some_iff)
  then have "y = x" using unique_key [of t es y x k] x assms by (simp add: map_holds_def)
  then show "entry_lookup t es k = Some v" using y x by (simp add: entry_lookup_def)
qed

lemma entry_lookup_None: "entry_lookup t es k = None \<longleftrightarrow> (\<forall>x \<in> set es. \<not> with_key t k x)"
  by (auto simp: entry_lookup_def find_None_iff)

lemma lookup_eqI:
  assumes "map_holds m t es" and "\<And>k v. (\<exists>x \<in> set es. with_key t k x \<and> snd (snd x) = v) \<longleftrightarrow> g k = Some v"
  shows "entry_lookup t es = g"
proof
  fix k
  have *: "entry_lookup t es k = Some v \<longleftrightarrow> g k = Some v" for v using assms(2) [of k v] entry_lookup_Some [OF assms(1), of k v] by simp
  show "entry_lookup t es k = g k"
  proof (cases "g k")
    case None
    then show ?thesis using * [of "the (entry_lookup t es k)"] by (cases "entry_lookup t es k") simp_all
  next
    case (Some v)
    then show ?thesis using * [of v] by simp
  qed
qed

lemma with_key_fixed: "fixed t' = fixed t \<Longrightarrow> with_key t' = with_key t"
  using fixed_config(2) [of t' t] by (simp add: with_key_def fun_eq_iff)

lemma with_key_same: "config_ok t \<Longrightarrow> with_key t k x \<Longrightarrow> with_key t k' x \<longleftrightarrow> key_cmp t k k' = 0"
  using same_key [of t k "fst (snd x)" k'] cmp_laws(2) [of t k' "fst (snd x)"] by (auto simp: with_key_def)

lemma insert_entry_members:
  "set (insert_entry t z es) = insert z (set es)" "length (insert_entry t z es) = length es + 1"
proof -
  define P where "P = (\<lambda>x :: ('a, 'b) entry. 0 \<le> key_cmp t (fst (snd z)) (fst (snd x)))"
  define xs where "xs = takeWhile P es"
  define ys where "ys = dropWhile P es"
  have es: "es = xs @ ys" by (simp add: xs_def ys_def)
  have ie: "insert_entry t z es = xs @ z # ys" by (simp add: insert_entry_def xs_def ys_def P_def)
  show "set (insert_entry t z es) = insert z (set es)" "length (insert_entry t z es) = length es + 1"
    unfolding ie using es by simp_all
qed

section \<open>Contracts\<close>

definition map_same :: "('k, 'v) map_t \<Rightarrow> ('k, 'v) map_t \<Rightarrow> bool" where
  "map_same m w \<longleftrightarrow> om_descriptor w = om_descriptor m \<and> om_key_type w = om_key_type m \<and> om_value_type w = om_value_type m \<and>
     map_option fixed (om_impl w) = map_option fixed (om_impl m)"

definition map_eq :: "('k, 'v) map_t \<Rightarrow> 'k \<Rightarrow> 'k \<Rightarrow> bool" where
  "map_eq m k k' \<longleftrightarrow> key_cmp (the (om_impl m)) k k' = 0"

definition map_blocks :: "('k, 'v) map_t \<Rightarrow> int" where
  "map_blocks m = (if om_impl m = NULL then 0 else 3 * int (map_size (Some m)) + 1)"

definition map_supplied :: "('k, 'v) map_t \<Rightarrow> env \<Rightarrow> bool" where
  "map_supplied m e \<longleftrightarrow> rb_supplied (the (om_impl m)) e"

text \<open>The allocator does not hand out a node that is in use.\<close>

definition map_fresh :: "('k, 'v) map_t \<Rightarrow> env \<Rightarrow> bool" where
  "map_fresh m e \<longleftrightarrow> malloc_fresh (the (om_impl m)) e"

definition map_outcome ::
  "('k, 'v) map_t \<Rightarrow> env \<Rightarrow> 'v option ptr \<Rightarrow> stl_status \<times> (('k \<Rightarrow> 'v option) \<times> nat) \<times> 'v option \<Rightarrow>
   (stl_status \<times> ('k, 'v) map_t ptr \<times> 'v option ptr \<times> env) option \<Rightarrow> bool" where
  "map_outcome m e out model r \<longleftrightarrow>
     (case model of (st0, ys, y) \<Rightarrow> \<exists>st w out' e'. r = Some (st, Some w, out', e') \<and>
        env_delta (map_blocks w - map_blocks m) e e' \<and> map_same m w \<and>
        (st = st0 \<and> map_sized w ys \<and> out' = deliver y out \<or>
         st \<in> {STL_CAPACITY_EXCEEDED, STL_OUT_OF_MEMORY} \<and> w = m \<and> out' = out \<and> \<not> map_supplied m e) \<and>
        (st \<noteq> STL_OK \<longrightarrow> w = m) \<and> (w = m \<or> om_generation w = om_generation m + 1))"

lemma map_simps [simp]:
  "om_impl (map_bump m) = om_impl m" "map_same m (map_bump w) = map_same m w" "map_same m m"
  "om_generation (map_bump m) = om_generation m + 1" "map_tree (Some m) = om_impl m"
  by (simp_all add: map_bump_def map_same_def map_tree_def)

lemma map_same_impl: "om_impl m = Some t \<Longrightarrow> fixed t' = fixed t \<Longrightarrow> map_same m (m\<lparr>om_impl := Some t'\<rparr>)"
  by (simp add: map_same_def)

lemma map_sizedI: "map_holds m t es \<Longrightarrow> entry_lookup t es = g \<Longrightarrow> length es = n \<Longrightarrow> map_sized m (g, n)"
  unfolding map_sized_def by auto

lemma map_blocks_holds: "map_holds m t es \<Longrightarrow> map_blocks m = 3 * int (length es) + 1"
  by (simp add: map_blocks_def map_size_def map_holds_def rbtree_rep_def)

lemma map_holds_bump: "map_holds m t es \<Longrightarrow> rbtree_rep t' es' \<Longrightarrow> fixed t' = fixed t \<Longrightarrow> map_holds (map_bump (m\<lparr>om_impl := Some t'\<rparr>)) t' es'"
  using fixed_config(7) [of t' t] by (simp add: map_holds_def map_bump_def)

text \<open>A change of the entries that succeeded.\<close>

lemma map_changed:
  assumes "map_holds m t es" and "rbtree_rep t' es'" and "fixed t' = fixed t" and "env_delta (3 * (int (length es') - int (length es))) e e'"
    and "\<And>k v. (\<exists>x \<in> set es'. with_key t k x \<and> snd (snd x) = v) \<longleftrightarrow> g k = Some v" and "length es' = n" and "out' = deliver y out"
  shows "map_outcome m e out (STL_OK, (g, n), y) (Some (STL_OK, Some (map_bump (m\<lparr>om_impl := Some t'\<rparr>)), out', e'))"
proof -
  note h = map_holds_bump [OF assms(1-3)]
  have "entry_lookup t' es' = g" using lookup_eqI [OF h] assms(5) with_key_fixed [OF assms(3)] by simp
  then have "map_sized (map_bump (m\<lparr>om_impl := Some t'\<rparr>)) (g, n)" using map_sizedI [OF h] assms(6) by blast
  moreover have "map_same m (m\<lparr>om_impl := Some t'\<rparr>)" using assms(1,3) by (intro map_same_impl) (auto simp: map_holds_def)
  ultimately show ?thesis
    using assms(4,7) map_blocks_holds [OF h] map_blocks_holds [OF assms(1)] by (simp add: map_outcome_def algebra_simps)
qed

lemma map_refused:
  assumes "map_holds m t es" and "env_delta 0 e e'" and "st \<noteq> STL_OK"
    and "st = st0 \<and> ys = (entry_lookup t es, length es) \<and> y = None \<or> st \<in> {STL_CAPACITY_EXCEEDED, STL_OUT_OF_MEMORY} \<and> \<not> rb_supplied t e"
  shows "map_outcome m e out (st0, ys, y) (Some (st, Some m, out, e'))"
  using assms by (auto simp: map_outcome_def deliver_def map_sized_def map_supplied_def map_holds_def)

datatype ('k, 'v) map_op =
    Map_put 'k 'v
  | Map_remove 'k "'v option ptr"
  | Map_clear

fun map_out :: "('k, 'v) map_op \<Rightarrow> 'v option ptr" where
  "map_out (Map_remove k out) = out"
| "map_out _ = NULL"

fun map_apply ::
  "('k, 'v) map_op \<Rightarrow> ('k, 'v) map_t ptr \<Rightarrow> env \<Rightarrow> (stl_status \<times> ('k, 'v) map_t ptr \<times> 'v option ptr \<times> env) option" where
  "map_apply (Map_put k v) m e = map_option (\<lambda>(st, m1, e1). (st, m1, NULL, e1)) (map_put m (Some (Some k)) (Some (Some v)) e)"
| "map_apply (Map_remove k out) m e = map_remove m (Some k) out e"
| "map_apply Map_clear m e = map_option (\<lambda>(m1, e1). (STL_OK, m1, NULL, e1)) (map_clear m e)"

fun map_model ::
  "('k \<Rightarrow> 'k \<Rightarrow> bool) \<Rightarrow> size_t \<Rightarrow> ('k, 'v) map_op \<Rightarrow> ('k \<Rightarrow> 'v option) \<times> nat \<Rightarrow>
   stl_status \<times> (('k \<Rightarrow> 'v option) \<times> nat) \<times> 'v option" where
  "map_model eq limit (Map_put k v) (f, n) =
     (if f k = None \<and> limit \<le> n then (STL_CAPACITY_EXCEEDED, (f, n), None)
      else (STL_OK, (\<lambda>k'. if eq k k' then Some v else f k', if f k = None then n + 1 else n), None))"
| "map_model eq limit (Map_remove k out) (f, n) =
     (case f k of
        None \<Rightarrow> (STL_NOT_FOUND, (f, n), None)
      | Some v \<Rightarrow> (STL_OK, (\<lambda>k'. if eq k k' then None else f k', n - 1), Some v))"
| "map_model eq limit Map_clear (f, n) = (STL_OK, (\<lambda>_. None, 0), None)"

lemma map_put_step:
  assumes "map_holds m t es" and "malloc_fresh t e"
  shows "map_outcome m e NULL (map_model (map_eq m) (rb_element_limit t) (Map_put k v) (entry_lookup t es, length es)) (map_apply (Map_put k v) (Some m) e)"
proof -
  have h: "om_impl m = Some t" "rbtree_rep t es" "\<not> rb_allow_duplicates t" and c: "config_ok t"
    using assms(1) by (auto simp: map_holds_def rbtree_rep_def)
  have eq: "map_eq m = (\<lambda>k k'. key_cmp t k k' = 0)" by (simp add: map_eq_def h(1) fun_eq_iff)
  obtain st t' out e' where put: "rbtree_put (Some t) (Some (Some k)) (Some (Some v)) (Some RBTREE_INSERTED) e = Some (st, Some t', out, e')"
    and o: "put_outcome t es k v RBTREE_INSERTED e st t' out e'"
    using rbtree_put_outcome [OF h(2) assms(2)] by blast
  let ?m1 = "m\<lparr>om_impl := Some t'\<rparr>"
  have run: "map_apply (Map_put k v) (Some m) e = Some (st, Some (if st = STL_OK then map_bump ?m1 else ?m1), NULL, e')"
    using put h(1) by (simp add: map_put_def)
  have same: "m\<lparr>om_impl := Some t\<rparr> = m" using h(1) by simp
  show ?thesis
  proof (cases "entry_lookup t es k = None")
    case False
    then have old: "\<exists>x \<in> set es. with_key t k x" by (simp add: entry_lookup_None)
    with h(3) o consider (ok) "st = STL_OK" "rbtree_rep t' (replace_entry t k v es)" "env_delta 0 e e'" "fixed t' = fixed t"
      | (refused) "st \<in> {STL_CAPACITY_EXCEEDED, STL_OUT_OF_MEMORY}" "t' = t" "env_delta 0 e e'" "\<not> rb_supplied t e"
      by (auto simp: put_outcome_def)
    then show ?thesis
    proof cases
      case ok
      have "(\<exists>x \<in> set (replace_entry t k v es). with_key t k' x \<and> snd (snd x) = v') \<longleftrightarrow>
        (if key_cmp t k k' = 0 then Some v else entry_lookup t es k') = Some v'" for k' v'
      proof (cases "key_cmp t k k' = 0")
        case True
        then have "with_key t k' x \<longleftrightarrow> with_key t k x" for x
          using same_key [OF c True, of "fst (snd x)"] by (simp add: with_key_def)
        moreover obtain x where x: "x \<in> set es" "with_key t k x" using old by blast
        then have "(fst x, fst (snd x), v) \<in> set (replace_entry t k v es)"
          unfolding replace_entry_def set_map by (intro image_eqI [of _ _ x]) simp_all
        moreover have "with_key t k (fst x, fst (snd x), v)" using x by (simp add: with_key_def)
        moreover have "snd (snd y) = v" if "y \<in> set (replace_entry t k v es)" "with_key t k y" for y
          using that by (auto simp: replace_entry_def with_key_def)
        ultimately show ?thesis using True by fastforce
      next
        case ne: False
        then have "with_key t k x \<Longrightarrow> \<not> with_key t k' x" for x using with_key_same [OF c, of k x k'] by blast
        then show ?thesis using ne entry_lookup_Some [OF assms(1), of k' v'] by (auto simp: replace_entry_def with_key_def)
      qed
      from map_changed [OF assms(1) ok(2,4) _ this, where e = e and e' = e' and n = "length es" and y = None and out' = NULL and out = NULL]
      show ?thesis using run ok False by (auto simp: eq deliver_def replace_entry_def)
    next
      case refused
      from map_refused [OF assms(1) refused(3), of st] show ?thesis using run refused same by auto
    qed
  next
    case True
    then have new: "\<not> (\<exists>x \<in> set es. with_key t k x)" by (simp add: entry_lookup_None)
    with o consider (ok) a where "st = STL_OK" "a \<notin> live t" "rbtree_rep t' (insert_entry t (a, k, v) es)" "env_delta 3 e e'"
        "length es < rb_element_limit t" "fixed t' = fixed t"
      | (refused) "st \<in> {STL_CAPACITY_EXCEEDED, STL_OUT_OF_MEMORY}" "t' = t" "env_delta 0 e e'"
        "rb_element_limit t \<le> length es \<and> st = STL_CAPACITY_EXCEEDED \<or> \<not> rb_supplied t e"
      by (auto simp: put_outcome_def)
    then show ?thesis
    proof cases
      case ok
      note set = insert_entry_members [of t "(a, k, v)" es]
      have "(\<exists>x \<in> set (insert_entry t (a, k, v) es). with_key t k' x \<and> snd (snd x) = v') \<longleftrightarrow>
        (if key_cmp t k k' = 0 then Some v else entry_lookup t es k') = Some v'" for k' v'
      proof -
        have kk: "with_key t k' (a, k, v) \<longleftrightarrow> key_cmp t k k' = 0" using cmp_laws(2) [OF c] by (simp add: with_key_def)
        have "key_cmp t k k' = 0 \<Longrightarrow> with_key t k' x \<Longrightarrow> with_key t k x" for x
          using same_key [OF c, of k k' "fst (snd x)"] by (simp add: with_key_def)
        then show ?thesis unfolding set using kk new entry_lookup_Some [OF assms(1), of k' v'] by auto
      qed
      from map_changed [OF assms(1) ok(3,6) _ this, where e = e and e' = e' and n = "length es + 1" and y = None and out' = NULL and out = NULL]
      show ?thesis using run ok True set by (simp add: eq deliver_def)
    next
      case refused
      show ?thesis
      proof (cases "rb_element_limit t \<le> length es \<and> st = STL_CAPACITY_EXCEEDED")
        case at_limit: True
        then show ?thesis using map_refused [OF assms(1) refused(3), of st] run refused same True by auto
      next
        case False
        then show ?thesis using map_refused [OF assms(1) refused(3), of st] run refused same by auto
      qed
    qed
  qed
qed


lemma map_remove_step:
  assumes "map_holds m t es"
  shows "map_outcome m e out (map_model (map_eq m) limit (Map_remove k out) (entry_lookup t es, length es)) (map_apply (Map_remove k out) (Some m) e)"
proof -
  have h: "om_impl m = Some t" "rbtree_rep t es" "\<not> rb_allow_duplicates t" and c: "config_ok t"
    using assms(1) by (auto simp: map_holds_def rbtree_rep_def)
  have eq: "map_eq m = (\<lambda>k k'. key_cmp t k k' = 0)" by (simp add: map_eq_def h(1) fun_eq_iff)
  from rbtree_find_rep [OF h(2), of k] consider
    (found) x where "x \<in> set es" "rbtree_find (Some t) (Some k) = Some (Some (fst x))" "with_key t k x"
    | (missing) "rbtree_find (Some t) (Some k) = Some NULL" "\<forall>x \<in> set es. \<not> with_key t k x" by blast
  then show ?thesis
  proof cases
    case missing
    then have "entry_lookup t es k = None" by (simp add: entry_lookup_None)
    moreover have "map_apply (Map_remove k out) (Some m) e = Some (STL_NOT_FOUND, Some m, out, e)"
      using missing h(1) by (simp add: map_remove_def)
    ultimately show ?thesis using map_refused [OF assms(1) env_delta_refl, of STL_NOT_FOUND] by auto
  next
    case found
    have lk: "entry_lookup t es k = Some (snd (snd x))" using entry_lookup_Some [OF assms, of k] found by blast
    obtain xs ys where es: "es = xs @ x # ys" using found(1) by (auto simp: in_set_conv_decomp)
    then have "rbtree_rep t (xs @ (fst x, fst (snd x), snd (snd x)) # ys)" using h(2) by simp
    from remove_node_rep [OF this, of out e] obtain t' e' where
      rm: "rbtree_remove_node (Some t) (Some (fst x)) out e = Some (STL_OK, Some t', map_option (\<lambda>_. Some (snd (snd x))) out, e')"
      "rbtree_rep t' (xs @ ys)" "fixed t' = fixed t" "env_delta (- 3) e e'" by blast
    have nx: "y \<noteq> x" if "y \<in> set (xs @ ys)" for y
      using that h(2) es by (auto simp: rbtree_rep_def chained_def)
    have upd: "(\<exists>y \<in> set (xs @ ys). with_key t k' y \<and> snd (snd y) = v') \<longleftrightarrow>
      (if key_cmp t k k' = 0 then None else entry_lookup t es k') = Some v'" for k' v'
    proof (cases "key_cmp t k k' = 0")
      case True
      have "\<not> with_key t k' y" if "y \<in> set (xs @ ys)" for y
      proof
        assume "with_key t k' y"
        then have "with_key t k y" using same_key [OF c True, of "fst (snd y)"] by (simp add: with_key_def)
        then show False using unique_key [OF h(2,3), of y x k] that nx [OF that] found es by auto
      qed
      then show ?thesis using True by auto
    next
      case False
      then have "\<not> with_key t k' x" using with_key_same [OF c found(3), of k'] by simp
      then show ?thesis using False entry_lookup_Some [OF assms, of k' v'] es by auto
    qed
    have len: "length (xs @ ys) = length es - 1" "int (length (xs @ ys)) - int (length es) = - 1" using es by simp_all
    from map_changed [OF assms rm(2,3) _ upd len(1), unfolded len(2), where e = e and e' = e' and y = "Some (snd (snd x))"
        and out = out and out' = "map_option (\<lambda>_. Some (snd (snd x))) out"]
    show ?thesis using rm(1,4) found(2) h(1) lk by (simp add: eq deliver_def map_remove_def)
  qed
qed

lemma map_clear_step:
  assumes "map_holds m t es"
  shows "map_outcome m e NULL (map_model (map_eq m) limit Map_clear (entry_lookup t es, length es)) (map_apply Map_clear (Some m) e)"
proof -
  have h: "om_impl m = Some t" "rbtree_rep t es" "\<not> rb_allow_duplicates t" "rb_size t = length es"
    using assms(1) by (auto simp: map_holds_def rbtree_rep_def)
  show ?thesis
  proof (cases "es = []")
    case True
    then have "map_apply Map_clear (Some m) e = Some (STL_OK, Some m, NULL, e)" using h by (simp add: map_clear_def)
    moreover have "entry_lookup t [] = (\<lambda>_. None)" by (simp add: entry_lookup_def fun_eq_iff)
    ultimately show ?thesis using True assms by (auto simp: map_outcome_def deliver_def map_sized_def)
  next
    case False
    obtain t' e' where cl: "rbtree_clear (Some t) e = Some (Some t', e')" "rbtree_rep t' []" "fixed t' = fixed t" "env_delta (- 3 * int (length es)) e e'"
      using rbtree_clear_rep [OF h(2)] by blast
    have "map_apply Map_clear (Some m) e = Some (STL_OK, Some (map_bump (m\<lparr>om_impl := Some t'\<rparr>)), NULL, e')"
      using cl(1) h False by (simp add: map_clear_def)
    then show ?thesis using map_changed [OF assms cl(2,3), of e e' "\<lambda>_. None" 0 NULL None NULL] cl(4) by (simp add: deliver_def)
  qed
qed

lemma map_step:
  assumes "map_sized m (f, n)" and "map_fresh m e"
  shows "map_outcome m e (map_out op) (map_model (map_eq m) (map_entry_limit (Some m)) op (f, n)) (map_apply op (Some m) e)"
proof -
  obtain t es where h: "map_holds m t es" "f = entry_lookup t es" "n = length es" using assms(1) by (auto simp: map_sized_def)
  have l: "map_entry_limit (Some m) = rb_element_limit t" "malloc_fresh t e"
    using h(1) assms(2) by (auto simp: map_entry_limit_def map_holds_def map_fresh_def)
  show ?thesis unfolding h(2,3)
    by (cases op) (use map_put_step [OF h(1) l(2)] map_remove_step [OF h(1)] map_clear_step [OF h(1)] l(1) in auto)
qed

lemma map_same_trans: "map_same m w \<Longrightarrow> map_same w u \<Longrightarrow> map_same m u"
  by (simp add: map_same_def)

lemma map_same_config:
  assumes "map_same m w"
  shows "map_eq w = map_eq m" "map_entry_limit (Some w) = map_entry_limit (Some m)" "map_supplied w e = map_supplied m e"
proof -
  have "map_eq w = map_eq m \<and> map_entry_limit (Some w) = map_entry_limit (Some m) \<and> map_supplied w e = map_supplied m e"
  proof (cases "om_impl m")
    case None
    then have "om_impl w = om_impl m" using assms by (simp add: map_same_def)
    then show ?thesis by (simp add: map_eq_def map_entry_limit_def map_supplied_def fun_eq_iff)
  next
    case (Some t)
    then obtain u where "om_impl w = Some u" "fixed u = fixed t" using assms by (auto simp: map_same_def)
    then show ?thesis using Some fixed_config [of u t]
      by (simp add: map_eq_def map_entry_limit_def map_supplied_def rb_supplied_def fun_eq_iff)
  qed
  then show "map_eq w = map_eq m" "map_entry_limit (Some w) = map_entry_limit (Some m)" "map_supplied w e = map_supplied m e" by auto
qed

lemma map_model_failure: "map_model eq limit op xs = (st, ys, y) \<Longrightarrow> st \<noteq> STL_OK \<Longrightarrow> ys = xs"
  by (cases xs; cases op) (auto split: if_splits option.splits)

interpretation map_machine: node_container map_sized map_apply map_out
  "\<lambda>m. map_model (map_eq m) (map_entry_limit (Some m))" map_blocks map_same map_supplied map_fresh
proof
  fix q :: "('k, 'v) map_t" and a s op st0 ys y
  assume "map_sized q a" "map_fresh q s" "map_model (map_eq q) (map_entry_limit (Some q)) op a = (st0, ys, y)"
  then show "\<exists>st w out s'. map_apply op (Some q) s = Some (st, Some w, out, s') \<and> env_delta (map_blocks w - map_blocks q) s s' \<and> map_same q w \<and>
      (st = st0 \<and> map_sized w ys \<and> out = deliver y (map_out op) \<or> st \<noteq> STL_OK \<and> w = q \<and> out = map_out op \<and> \<not> map_supplied q s)"
    using map_step [of q "fst a" "snd a" s op] by (auto simp: map_outcome_def)
next
  show "ys = xs" if "map_model (map_eq q) (map_entry_limit (Some q)) op xs = (st, ys, y)" "st \<noteq> STL_OK"
    for q :: "('k, 'v) map_t" and op xs st ys y using that by (rule map_model_failure)
  show "map_same q q" for q :: "('k, 'v) map_t" by simp
  show "map_same q u" if "map_same q w" "map_same w u" for q w u :: "('k, 'v) map_t" using that by (rule map_same_trans)
  show "map_model (map_eq w) (map_entry_limit (Some w)) = map_model (map_eq q) (map_entry_limit (Some q))" if "map_same q w"
    for q w :: "('k, 'v) map_t" by (simp add: map_same_config [OF that])
  show "map_supplied w s" if "map_same q w" "map_supplied q s" for q w :: "('k, 'v) map_t" and s
    using that by (simp add: map_same_config)
  show "map_supplied q s'" if "env_delta k s s'" "map_supplied q s" for q :: "('k, 'v) map_t" and k s s'
    using that(2) generous_env_delta [OF that(1)] by (auto simp: map_supplied_def rb_supplied_def)
qed

lemma map_get_sized:
  assumes "map_sized m (f, n)"
  shows "map_get (Some m) (Some k) = Some (map_option Some (f k))" "map_contains (Some m) (Some k) = Some (f k \<noteq> None)" "map_size (Some m) = n"
proof -
  obtain t es where h: "map_holds m t es" "f = entry_lookup t es" "n = length es" using assms by (auto simp: map_sized_def)
  have t: "om_impl m = Some t" "rbtree_rep t es" using h(1) by (auto simp: map_holds_def)
  show "map_size (Some m) = n" using t h(3) by (simp add: map_size_def rbtree_rep_def)
  from rbtree_find_rep [OF t(2), of k] consider
    (found) x where "x \<in> set es" "rbtree_find (Some t) (Some k) = Some (Some (fst x))" "with_key t k x"
    | (missing) "rbtree_find (Some t) (Some k) = Some NULL" "\<forall>x \<in> set es. \<not> with_key t k x" by blast
  then have "map_get (Some m) (Some k) = Some (map_option Some (f k)) \<and> map_contains (Some m) (Some k) = Some (f k \<noteq> None)"
  proof cases
    case found
    have "f k = Some (snd (snd x))" using entry_lookup_Some [OF h(1), of k] found h(2) by blast
    moreover obtain n where "load t (Some (fst x)) = Some n" "rn_value n = Some (Some (snd (snd x)))"
      using load_live [of "fst x" t] rep_key [OF t(2) found(1)] by auto
    ultimately show ?thesis using found t by (simp add: map_get_def map_contains_def)
  next
    case missing
    then show ?thesis using t h(2) by (simp add: map_get_def map_contains_def entry_lookup_None [THEN iffD2])
  qed
  then show "map_get (Some m) (Some k) = Some (map_option Some (f k))" "map_contains (Some m) (Some k) = Some (f k \<noteq> None)" by auto
qed

lemma map_destroy_sized:
  assumes "map_sized m a"
  shows "\<exists>w e'. map_raw_destroy_storage (Some m) e = Some (Some w, e') \<and> om_impl w = NULL \<and> env_delta (- map_blocks m) e e'"
proof -
  obtain t es where h: "map_holds m t es" using assms by (auto simp: map_sized_def)
  then have t: "om_impl m = Some t" "rbtree_rep t es" by (auto simp: map_holds_def)
  show ?thesis using rbtree_destroy_rep [OF t(2), of e] t map_blocks_holds [OF h] by (auto simp: map_raw_destroy_storage_def)
qed

lemma require_compare_trait:
  assumes "sequence_require_type (Some d) True = STL_OK"
  shows "\<exists>f. key_order (Some d) NULL NULL = Some f \<and> f = the (tr_compare (the (td_traits d)))"
proof -
  let ?r = "CMETA_TRAIT_COPY OR CMETA_TRAIT_MOVE OR CMETA_TRAIT_DESTROY OR CMETA_TRAIT_COMPARE"
  have "cmeta_type_require_traits (Some d) ?r = CMETA_OK"
    using assms by (auto simp: sequence_require_type_def Let_def or.assoc split: if_splits)
  moreover have "?r \<noteq> 0" "?r AND CMETA_TRAIT_COMPARE \<noteq> 0" by (simp_all add: trait_flag_defs)
  ultimately obtain traits where "td_traits d = Some traits" "tr_compare traits \<noteq> NULL"
    using require_traits_OK_iff [of ?r d] by blast
  then show ?thesis by (auto simp: key_order_def)
qed

lemma map_raw_init_sized:
  assumes "map_raw_init (Some m) (Some kt) (Some vt) limit e = (st, r, e')"
    and "traits_lawful kt" and "traits_lawful vt" and "comparator_ok (the (tr_compare (the (td_traits kt))))"
    and "max (max (td_size kt) (td_align kt)) (max (td_size vt) (td_align vt)) \<le> SIZE_MAX"
  shows "(\<exists>w. st = STL_OK \<and> r = Some w \<and> om_impl m = NULL \<and> map_sized w (\<lambda>_. None, 0) \<and> map_entry_limit r = limit \<and>
      map_eq w = (\<lambda>k k'. the (tr_compare (the (td_traits kt))) k k' = 0) \<and> map_blocks w = 1 \<and> env_delta 1 e e') \<or>
    st \<noteq> STL_OK \<and> r = Some m \<and> env_delta 0 e e'"
proof (cases "om_impl m = NULL \<and> sequence_require_type (Some kt) True = STL_OK \<and> sequence_require_type (Some vt) False = STL_OK")
  case False
  then show ?thesis using assms(1) by (auto simp: map_raw_init_def split: if_splits)
next
  case True
  let ?f = "the (tr_compare (the (td_traits kt)))"
  have ko: "key_order (Some kt) NULL NULL = Some ?f" using require_compare_trait True by blast
  have "sequence_require_type (Some kt) False = STL_OK"
    using True require_traits_part [of kt "CMETA_TRAIT_COPY OR CMETA_TRAIT_MOVE OR CMETA_TRAIT_DESTROY" CMETA_TRAIT_COMPARE]
    by (auto simp: sequence_require_type_def Let_def trait_flag_defs split: if_splits)
  then have el: "elem_ok (Some kt)" "elem_ok (Some vt)" using True assms(2,3) by (simp_all add: elem_ok_def)
  obtain st1 q e1 where cr: "rbtree_create (Some NULL) (Some kt) (Some vt) (td_size kt) (td_align kt) (td_size vt) (td_align vt) limit NULL NULL False e = (st1, q, e1)"
    using prod_cases3 by blast
  have run: "(st, r, e') = (if st1 \<noteq> STL_OK then (st1, Some m, e1) else (STL_OK, Some (map_bump (m\<lparr>om_impl := the q\<rparr>)), e1))"
    using assms(1) True cr by (auto simp: map_raw_init_def map_initialize_def)
  from rbtree_create_rep [OF cr ko assms(4) el] assms(5) consider
    (ok) t where "st1 = STL_OK" "q = Some (Some t)" "rbtree_rep t []" "key_cmp t = ?f" "rb_element_limit t = limit" "\<not> rb_allow_duplicates t" "env_delta 1 e e1"
    | (no) "st1 \<noteq> STL_OK" "env_delta 0 e e1" by auto
  then show ?thesis
  proof cases
    case ok
    let ?w = "map_bump (m\<lparr>om_impl := Some t\<rparr>)"
    have h: "map_holds ?w t []" using ok by (simp add: map_holds_def)
    have "entry_lookup t [] = (\<lambda>_. None)" by (simp add: entry_lookup_def fun_eq_iff)
    then have "map_sized ?w (\<lambda>_. None, 0)" using map_sizedI [OF h] by simp
    moreover have "map_entry_limit (Some ?w) = limit" "map_eq ?w = (\<lambda>k k'. ?f k k' = 0)" "map_blocks ?w = 1"
      using ok h map_blocks_holds [OF h] by (simp_all add: map_entry_limit_def map_eq_def fun_eq_iff)
    ultimately show ?thesis using run ok True by simp
  next
    case no
    then show ?thesis using run by simp
  qed
qed

section \<open>Filling a map\<close>

text \<open>The allocator is fresh at every put of the loop.\<close>

fun map_fresh_all :: "('k \<times> 'v) list \<Rightarrow> ('k, 'v) map_t \<Rightarrow> env \<Rightarrow> bool" where
  "map_fresh_all [] m e \<longleftrightarrow> True"
| "map_fresh_all ((k, v) # kvs) m e \<longleftrightarrow> map_fresh m e \<and>
     (\<forall>w e1. map_put (Some m) (Some (Some k)) (Some (Some v)) e = Some (STL_OK, Some w, e1) \<longrightarrow> map_fresh_all kvs w e1)"

text \<open>The dictionary of a list of entries in which later ones win.\<close>

definition later_wins :: "('k \<Rightarrow> 'k \<Rightarrow> bool) \<Rightarrow> ('k \<times> 'v) list \<Rightarrow> ('k \<Rightarrow> 'v option) \<Rightarrow> 'k \<Rightarrow> 'v option" where
  "later_wins eq kvs f = fold (\<lambda>(k, v) f k'. if eq k k' then Some v else f k') kvs f"

lemma map_put_all_cases:
  "map_sized m (f, n) \<Longrightarrow> map_fresh_all kvs m e \<Longrightarrow>
   \<exists>st w e'. map_put_all kvs (Some m) e = Some (st, Some w, e') \<and>
     (st = STL_OK \<and> (\<exists>n'. map_sized w (later_wins (map_eq m) kvs f, n')) \<and> map_same m w \<and> env_delta (map_blocks w - map_blocks m) e e' \<or>
      st \<noteq> STL_OK \<and> env_delta (- map_blocks m) e e')"
proof (induction kvs arbitrary: m f n e)
  case Nil
  then show ?case by (auto simp: later_wins_def)
next
  case (Cons kv kvs)
  obtain k v where kv: "kv = (k, v)" by (cases kv)
  obtain st0 g j y where md: "map_model (map_eq m) (map_entry_limit (Some m)) (Map_put k v) (f, n) = (st0, (g, j), y)"
    by (metis prod_cases4 prod.collapse)
  have fr: "map_fresh m e" using Cons.prems(2) kv by simp
  obtain st w e1 where p: "map_put (Some m) (Some (Some k)) (Some (Some v)) e = Some (st, Some w, e1)" "map_same m w"
    "env_delta (map_blocks w - map_blocks m) e e1" "st = STL_OK \<Longrightarrow> map_sized w (g, j) \<and> st0 = STL_OK" "st \<noteq> STL_OK \<Longrightarrow> w = m"
    using map_step [OF Cons.prems(1) fr, of "Map_put k v"] md by (auto simp: map_outcome_def)
  show ?case
  proof (cases "st = STL_OK")
    case True
    have g: "g = (\<lambda>k'. if map_eq m k k' then Some v else f k')" using md p(4) [OF True] by (auto split: if_splits)
    have "map_fresh_all kvs w e1" using Cons.prems(2) kv p(1) True by auto
    from Cons.IH [OF conjunct1 [OF p(4) [OF True]] this] obtain st' u e2 where
      u: "map_put_all kvs (Some w) e1 = Some (st', Some u, e2)"
      "st' = STL_OK \<and> (\<exists>n'. map_sized u (later_wins (map_eq m) kvs g, n')) \<and> map_same w u \<and> env_delta (map_blocks u - map_blocks w) e1 e2 \<or>
       st' \<noteq> STL_OK \<and> env_delta (- map_blocks w) e1 e2"
      unfolding map_same_config(1) [OF p(2)] by blast
    have lw: "later_wins (map_eq m) (kv # kvs) f = later_wins (map_eq m) kvs g" by (simp add: later_wins_def kv g)
    have "map_put_all (kv # kvs) (Some m) e = Some (st', Some u, e2)" using u(1) p(1) True kv by simp
    then show ?thesis using u(2) lw map_same_trans [OF p(2)] env_delta_trans [OF p(3)] by fastforce
  next
    case False
    then have "w = m" using p(5) by simp
    obtain u e2 where "map_raw_destroy_storage (Some m) e1 = Some (Some u, e2)" "env_delta (- map_blocks m) e1 e2"
      using map_destroy_sized [OF Cons.prems(1)] by blast
    then show ?thesis using p(1,3) False kv \<open>w = m\<close> env_delta_trans [of 0 e e1] by fastforce
  qed
qed

section \<open>Iteration\<close>

lemma chain_ends:
  assumes "rbtree_rep t es"
  shows "rb_head t = first_of (entry_addrs es) NULL" "rb_tail t = last_of (entry_addrs es) NULL"
  using assms chained_ends [of "thread t" "entry_addrs es"] by (simp_all add: rbtree_rep_def thread_def)

lemma node_fields:
  assumes "rbtree_rep t (xs @ (a, k, v) # ys)"
  shows "\<exists>n. load t (Some a) = Some n \<and> rn_key n = Some (Some k) \<and> rn_value n = Some (Some v) \<and>
    rn_next n = first_of (entry_addrs ys) NULL \<and> rn_previous n = last_of (entry_addrs xs) NULL"
proof -
  have "chained (thread t) (entry_addrs xs @ a # entry_addrs ys)" using assms by (simp add: rbtree_rep_def)
  from chained_neighbours [OF this] show ?thesis
    using load_live [of a t] rep_key [OF assms, of "(a, k, v)"] by auto
qed

text \<open>An iterator in front of the entries \<open>ys\<close> of a map with the entries \<open>xs @ ys\<close>.\<close>

definition iter_at :: "u64 \<Rightarrow> ('k, 'v) entry list \<Rightarrow> map_iter" where
  "iter_at p ys = \<lparr>it_owner = Some p, it_node = first_of (entry_addrs ys) NULL\<rparr>"

lemma last_of_snoc: "last_of (entry_addrs (xs @ [x])) NULL = Some (fst x)"
  by (simp add: last_of_def)


lemma owner_tree_at: "maps p = Some m \<Longrightarrow> owner_tree maps (Some p) = om_impl m"
  by (simp add: owner_tree_def)

lemma iter_forward:
  assumes "maps p = Some m" and "map_holds m t (xs @ (a, k, v) # ys)"
  shows "map_iter_next maps (Some (iter_at p ((a, k, v) # ys))) = Some (STL_OK, Some (iter_at p ys))"
    "map_iter_key_const maps (iter_at p ((a, k, v) # ys)) = Some (Some (Some k))"
    "map_iter_value maps (iter_at p ((a, k, v) # ys)) = Some (Some (Some v))"
proof -
  have t: "owner_tree maps (Some p) = Some t" "rbtree_rep t (xs @ (a, k, v) # ys)"
    using assms owner_tree_at [of maps p m] by (auto simp: map_holds_def)
  obtain n where n: "load t (Some a) = Some n" "rn_key n = Some (Some k)" "rn_value n = Some (Some v)" "rn_next n = first_of (entry_addrs ys) NULL"
    using node_fields [OF t(2)] by blast
  show "map_iter_next maps (Some (iter_at p ((a, k, v) # ys))) = Some (STL_OK, Some (iter_at p ys))"
    "map_iter_key_const maps (iter_at p ((a, k, v) # ys)) = Some (Some (Some k))"
    "map_iter_value maps (iter_at p ((a, k, v) # ys)) = Some (Some (Some v))"
    using t(1) n by (simp_all add: iter_at_def map_iter_next_def map_iter_key_const_def map_iter_value_def get_next_def)
qed

lemma iter_backward:
  assumes "maps p = Some m" and "map_holds m t (xs @ ys)"
  shows "map_iter_prev maps (Some (iter_at p ys)) =
    Some (if xs = [] then (STL_NOT_FOUND, Some (iter_at p ys)) else (STL_OK, Some (iter_at p (last xs # ys))))"
proof -
  have t: "owner_tree maps (Some p) = Some t" "rbtree_rep t (xs @ ys)" using assms owner_tree_at [of maps p m] by (auto simp: map_holds_def)
  have lst: "last_of (entry_addrs xs) NULL = (if xs = [] then NULL else Some (fst (last xs)))" by (simp add: last_of_def last_map)
  show ?thesis
  proof (cases ys)
    case Nil
    then show ?thesis using t(1) chain_ends(2) [OF t(2)] lst by (simp add: iter_at_def map_iter_prev_def)
  next
    case (Cons y zs)
    obtain a k v where y: "y = (a, k, v)" by (cases y)
    obtain n where "load t (Some a) = Some n" "rn_previous n = last_of (entry_addrs xs) NULL"
      using node_fields [of t xs a k v zs] t(2) Cons y by auto
    then show ?thesis using t(1) lst Cons y by (simp add: iter_at_def map_iter_prev_def get_previous_def)
  qed
qed

lemma range_forward:
  assumes "maps p = Some m" and "map_holds m t (xs @ ys)" and "rc_map c = Some p \<and> rc_node c = first_of (entry_addrs ys) NULL \<or> rc_map c = NULL \<and> xs = []"
  shows "map_range_next maps (Some p) (Some c) (Some ok) (Some ov) =
    (case ys of [] \<Rightarrow> Some (False, Some (c\<lparr>rc_map := Some p\<rparr>), Some ok, Some ov)
     | (a, k, v) # zs \<Rightarrow> Some (True, Some (c\<lparr>rc_map := Some p, rc_node := first_of (entry_addrs zs) NULL\<rparr>), Some (Some (Some k)), Some (Some (Some v))))"
proof -
  have t: "owner_tree maps (Some p) = Some t" "rbtree_rep t (xs @ ys)" using assms owner_tree_at [of maps p m] by (auto simp: map_holds_def)
  have node: "(if rc_map c = NULL then rb_head t else rc_node c) = first_of (entry_addrs ys) NULL"
    using assms(3) chain_ends(1) [OF t(2)] by auto
  show ?thesis
  proof (cases ys)
    case Nil
    then show ?thesis using t(1) node assms(3) by (auto simp: map_range_next_def Let_def)
  next
    case (Cons y zs)
    obtain a k v where y: "y = (a, k, v)" by (cases y)
    obtain n where "load t (Some a) = Some n" "rn_key n = Some (Some k)" "rn_value n = Some (Some v)" "rn_next n = first_of (entry_addrs zs) NULL"
      using node_fields [of t xs a k v zs] t(2) Cons y by auto
    then show ?thesis using t(1) node assms(3) Cons y by (auto simp: map_range_next_def Let_def)
  qed
qed

text \<open>The client's loop over a map, with fuel: keys and values from an iterator to the end.\<close>

fun map_walk :: "('k, 'v) maps \<Rightarrow> map_iter \<Rightarrow> nat \<Rightarrow> ('k option ptr \<times> 'v option ptr) list option" where
  "map_walk maps it 0 = None"
| "map_walk maps it (Suc n) =
     (if map_iter_equal it (map_end (it_owner it)) then Some []
      else do {
        k \<leftarrow> map_iter_key_const maps it;
        v \<leftarrow> map_iter_value maps it;
        (st, it1) \<leftarrow> map_iter_next maps (Some it);
        rest \<leftarrow> map_walk maps (the it1) n;
        Some ((k, v) # rest)
      })"

lemma map_walk_entries:
  "maps p = Some m \<Longrightarrow> map_holds m t (xs @ ys) \<Longrightarrow> length ys < n \<Longrightarrow>
   map_walk maps (iter_at p ys) n = Some (map (\<lambda>x. (Some (Some (fst (snd x))), Some (Some (snd (snd x))))) ys)"
proof (induction ys arbitrary: xs n)
  case Nil
  then show ?case by (cases n) (simp_all add: map_iter_equal_def map_end_def map_iterator_def iter_at_def)
next
  case (Cons y ys)
  obtain a k v where y: "y = (a, k, v)" by (cases y)
  obtain j where n: "n = Suc j" "length ys < j" using Cons.prems(3) by (cases n) auto
  have "map_holds m t ((xs @ [y]) @ ys)" using Cons.prems(2) by simp
  note ih = Cons.IH [OF Cons.prems(1) this n(2)]
  have "\<not> map_iter_equal (iter_at p (y # ys)) (map_end (it_owner (iter_at p (y # ys))))"
    by (simp add: map_iter_equal_def map_end_def map_iterator_def iter_at_def)
  then show ?case using ih n(1) iter_forward [of maps p m t xs a k v ys] Cons.prems(1,2) y by simp
qed

text \<open>The same loop with a range cursor.\<close>

fun map_range_walk :: "('k, 'v) maps \<Rightarrow> u64 ptr \<Rightarrow> range_cursor \<Rightarrow> nat \<Rightarrow> ('k option ptr \<times> 'v option ptr) list option" where
  "map_range_walk maps m cursor 0 = None"
| "map_range_walk maps m cursor (Suc n) = do {
     (more, c, k, v) \<leftarrow> map_range_next maps m (Some cursor) (Some NULL) (Some NULL);
     if more then do { rest \<leftarrow> map_range_walk maps m (the c) n; Some ((the k, the v) # rest) } else Some []
   }"

lemma map_range_walk_entries:
  "maps p = Some m \<Longrightarrow> map_holds m t (xs @ ys) \<Longrightarrow> length ys < n \<Longrightarrow>
   rc_map c = Some p \<and> rc_node c = first_of (entry_addrs ys) NULL \<or> rc_map c = NULL \<and> xs = [] \<Longrightarrow>
   map_range_walk maps (Some p) c n = Some (map (\<lambda>x. (Some (Some (fst (snd x))), Some (Some (snd (snd x))))) ys)"
proof (induction ys arbitrary: xs n c)
  case Nil
  then show ?case using range_forward [of maps p m t xs "[]" c NULL NULL] by (cases n) simp_all
next
  case (Cons y ys)
  obtain a k v where y: "y = (a, k, v)" by (cases y)
  obtain j where n: "n = Suc j" "length ys < j" using Cons.prems(3) by (cases n) auto
  have "map_holds m t ((xs @ [y]) @ ys)" using Cons.prems(2) by simp
  note ih = Cons.IH [OF Cons.prems(1) this n(2)]
  show ?case
    using ih [of "c\<lparr>rc_map := Some p, rc_node := first_of (entry_addrs ys) NULL\<rparr>"] n(1) y
      range_forward [of maps p m t xs "y # ys" c NULL NULL] Cons.prems by simp
qed

section \<open>Properties\<close>

text \<open>C6: Whatever calls are made on an ordered map, and whatever allocations and copies fail, the map
  afterwards answers every lookup as the dictionary that executed the calls acknowledged with
  \<open>STL_OK\<close>, in order; it counts that dictionary's entries, any further call returns, and destroying
  the map gives back every block it ever held.\<close>

theorem map_history_acknowledged:
  assumes "map_sized m (f, n)" and "history map_apply map_fresh m e log w e'"
    and "replay (map_model (map_eq m) (map_entry_limit (Some m))) log (f, n) = (g, k)"
  shows "(\<forall>key. map_get (Some w) (Some key) = Some (map_option Some (g key)) \<and> map_contains (Some w) (Some key) = Some (g key \<noteq> None)) \<and>
    map_size (Some w) = k \<and> (\<forall>op. map_fresh w e' \<longrightarrow> map_apply op (Some w) e' \<noteq> None) \<and>
    (\<exists>u e2. map_raw_destroy_storage (Some w) e' = Some (u, e2) \<and> live_blocks e2 = live_blocks e - map_blocks m)"
proof -
  have w: "env_delta (map_blocks w - map_blocks m) e e'" "map_sized w (g, k)"
    using map_machine.history_acknowledged [OF assms(2,1)] assms(3) by auto
  have "map_apply op (Some w) e' \<noteq> None" if "map_fresh w e'" for op by (rule map_machine.call_returns [OF w(2) that])
  moreover obtain u e2 where "map_raw_destroy_storage (Some w) e' = Some (Some u, e2)" "env_delta (- map_blocks w) e' e2"
    using map_destroy_sized [OF w(2)] by blast
  ultimately show ?thesis using map_get_sized [OF w(2)] w(1) by (auto simp: env_delta_def)
qed

text \<open>C37: Iteration over an ordered map: from \<open>map_begin\<close>, \<open>map_iter_next\<close> reaches every entry once, in
  strictly ascending key order, and then \<open>map_end\<close>; \<open>map_iter_prev\<close> goes back the same way and reports
  the beginning; a fresh range cursor, whatever its node field holds, delivers exactly the same
  entries in the same order and then ends, one started on another map is refused; the bounds
  are the iterators in front of the first key that is not smaller, and greater.\<close>

theorem map_iteration_ordered:
  assumes "maps p = Some m" and "map_holds m t (xs @ ys)"
  shows "map_walk maps (map_begin maps (Some p)) (length (xs @ ys) + 1) =
      Some (map (\<lambda>x. (Some (Some (fst (snd x))), Some (Some (snd (snd x))))) (xs @ ys)) \<and>
    sorted_wrt (\<lambda>x y. key_cmp t (fst (snd x)) (fst (snd y)) < 0) (xs @ ys) \<and>
    map_iter_prev maps (Some (iter_at p ys)) =
      Some (if xs = [] then (STL_NOT_FOUND, Some (iter_at p ys)) else (STL_OK, Some (iter_at p (last xs # ys)))) \<and>
    map_range_next maps (Some p) (Some \<lparr>rc_node = first_of (entry_addrs ys) NULL, rc_map = Some p\<rparr>) (Some ok) (Some ov) =
      (case ys of [] \<Rightarrow> Some (False, Some \<lparr>rc_node = NULL, rc_map = Some p\<rparr>, Some ok, Some ov)
       | (a, k, v) # zs \<Rightarrow> Some (True, Some \<lparr>rc_node = first_of (entry_addrs zs) NULL, rc_map = Some p\<rparr>, Some (Some (Some k)), Some (Some (Some v)))) \<and>
    map_range_walk maps (Some p) \<lparr>rc_node = stale, rc_map = NULL\<rparr> (length (xs @ ys) + 1) =
      Some (map (\<lambda>x. (Some (Some (fst (snd x))), Some (Some (snd (snd x))))) (xs @ ys)) \<and>
    (\<forall>c p'. rc_map c = Some p' \<and> p' \<noteq> p \<longrightarrow> map_range_next maps (Some p) (Some c) (Some ok) (Some ov) = Some (False, Some c, Some ok, Some ov)) \<and>
    map_lower_bound maps (Some p) (Some key) = Some (iter_at p (dropWhile (\<lambda>x. key_cmp t (fst (snd x)) key < 0) (xs @ ys))) \<and>
    map_upper_bound maps (Some p) (Some key) = Some (iter_at p (dropWhile (\<lambda>x. key_cmp t (fst (snd x)) key \<le> 0) (xs @ ys)))"
proof (intro conjI)
  have t: "owner_tree maps (Some p) = Some t" "rbtree_rep t (xs @ ys)" "\<not> rb_allow_duplicates t"
    using assms owner_tree_at [of maps p m] by (auto simp: map_holds_def)
  have "map_begin maps (Some p) = iter_at p (xs @ ys)"
    using t(1) chain_ends(1) [OF t(2)] by (simp add: map_begin_def map_iterator_def iter_at_def)
  then show "map_walk maps (map_begin maps (Some p)) (length (xs @ ys) + 1) =
      Some (map (\<lambda>x. (Some (Some (fst (snd x))), Some (Some (snd (snd x))))) (xs @ ys))"
    using map_walk_entries [of maps p m t "[]" "xs @ ys" "length (xs @ ys) + 1"] assms by simp
  have "sorted_wrt (entry_before t) (xs @ ys)" using t(2) by (simp add: rbtree_rep_def)
  then show "sorted_wrt (\<lambda>x y. key_cmp t (fst (snd x)) (fst (snd y)) < 0) (xs @ ys)"
    by (rule sorted_wrt_mono_rel [rotated]) (use t(3) in \<open>simp add: entry_before_def\<close>)
  show "map_iter_prev maps (Some (iter_at p ys)) =
      Some (if xs = [] then (STL_NOT_FOUND, Some (iter_at p ys)) else (STL_OK, Some (iter_at p (last xs # ys))))"
    using iter_backward [of maps p m t xs ys] assms by simp
  show "map_range_next maps (Some p) (Some \<lparr>rc_node = first_of (entry_addrs ys) NULL, rc_map = Some p\<rparr>) (Some ok) (Some ov) =
      (case ys of [] \<Rightarrow> Some (False, Some \<lparr>rc_node = NULL, rc_map = Some p\<rparr>, Some ok, Some ov)
       | (a, k, v) # zs \<Rightarrow> Some (True, Some \<lparr>rc_node = first_of (entry_addrs zs) NULL, rc_map = Some p\<rparr>, Some (Some (Some k)), Some (Some (Some v))))"
    using assms range_forward [of maps p m t xs ys "\<lparr>rc_node = first_of (entry_addrs ys) NULL, rc_map = Some p\<rparr>" ok ov]
    by (cases ys) (auto split: prod.split)
  show "map_range_walk maps (Some p) \<lparr>rc_node = stale, rc_map = NULL\<rparr> (length (xs @ ys) + 1) =
      Some (map (\<lambda>x. (Some (Some (fst (snd x))), Some (Some (snd (snd x))))) (xs @ ys))"
    using map_range_walk_entries [of maps p m t "[]" "xs @ ys" "length (xs @ ys) + 1"] assms by simp
  show "\<forall>c p'. rc_map c = Some p' \<and> p' \<noteq> p \<longrightarrow> map_range_next maps (Some p) (Some c) (Some ok) (Some ov) = Some (False, Some c, Some ok, Some ov)"
    using t(1) by (simp add: map_range_next_def)
  show "map_lower_bound maps (Some p) (Some key) = Some (iter_at p (dropWhile (\<lambda>x. key_cmp t (fst (snd x)) key < 0) (xs @ ys)))"
    "map_upper_bound maps (Some p) (Some key) = Some (iter_at p (dropWhile (\<lambda>x. key_cmp t (fst (snd x)) key \<le> 0) (xs @ ys)))"
    using rbtree_bounds_rep [OF t(2), of key] t(1)
    by (simp_all add: map_lower_bound_def map_upper_bound_def map_iterator_def iter_at_def)
qed


text \<open>C38: \<open>map_raw_from_arrays\<close> is all or nothing: it either gives a map with exactly the entries of the
  arrays, the later of two equal keys winning, and the blocks of the old contents go back; or it
  reports why not, and leaves the map and the number of live blocks as they were.\<close>

theorem map_raw_from_arrays_all_or_nothing:
  assumes "traits_lawful kt" and "traits_lawful vt" and "comparator_ok cmp" and "cmp = the (tr_compare (the (td_traits kt)))"
    and "max (max (td_size kt) (td_align kt)) (max (td_size vt) (td_align vt)) \<le> SIZE_MAX"
    and "om_impl m = NULL \<or> map_sized m a"
    and "\<forall>w e1. map_raw_init (Some map_zeroed) (Some kt) (Some vt) limit e = (STL_OK, Some w, e1) \<longrightarrow> map_fresh_all kvs w e1"
  shows "\<exists>st w e'. map_raw_from_arrays (Some m) (Some (map fst kvs)) (Some (map snd kvs)) (length kvs) (Some kt) (Some vt) limit e =
      Some (st, Some w, e') \<and> env_delta (map_blocks w - map_blocks m) e e' \<and>
    (st = STL_OK \<and> om_generation w = om_generation m + 1 \<and>
       (\<forall>k. map_get (Some w) (Some k) = Some (map_option Some (later_wins (\<lambda>x y. cmp x y = 0) kvs (\<lambda>_. None) k))) \<or>
     st \<noteq> STL_OK \<and> w = m)"
proof -
  let ?run = "map_raw_from_arrays (Some m) (Some (map fst kvs)) (Some (map snd kvs)) (length kvs) (Some kt) (Some vt) limit e"
  obtain st0 r e1 where init: "map_raw_init (Some map_zeroed) (Some kt) (Some vt) limit e = (st0, r, e1)" using prod_cases3 by blast
  have z: "zip (map fst kvs) (map snd kvs) = kvs" by (simp add: zip_map_fst_snd)
  consider (big) "length kvs \<noteq> 0 \<and> (SIZE_MAX div length kvs < td_size kt \<or> SIZE_MAX div length kvs < td_size vt)"
    | (refused) "\<not> (length kvs \<noteq> 0 \<and> (SIZE_MAX div length kvs < td_size kt \<or> SIZE_MAX div length kvs < td_size vt))" "st0 \<noteq> STL_OK"
    | (go) "\<not> (length kvs \<noteq> 0 \<and> (SIZE_MAX div length kvs < td_size kt \<or> SIZE_MAX div length kvs < td_size vt))" "st0 = STL_OK" by blast
  then show ?thesis
  proof cases
    case big
    then have "?run = Some (STL_CAPACITY_EXCEEDED, Some m, e)" by (auto simp: map_raw_from_arrays_def map_from_common_def)
    then show ?thesis by auto
  next
    case refused
    then have "env_delta 0 e e1" using map_raw_init_sized [OF init assms(1,2) _ assms(5)] assms(3,4) by auto
    moreover have "?run = Some (st0, Some m, e1)" using refused init by (auto simp: map_raw_from_arrays_def map_from_common_def)
    ultimately show ?thesis using refused by auto
  next
    case go
    then obtain w where w: "r = Some w" "map_sized w (\<lambda>_. None, 0)" "map_eq w = (\<lambda>x y. cmp x y = 0)" "map_blocks w = 1" "env_delta 1 e e1"
      using map_raw_init_sized [OF init assms(1,2) _ assms(5)] assms(3,4) by auto
    have "map_fresh_all kvs w e1" using assms(7) init go(2) w(1) by simp
    from map_put_all_cases [OF w(2) this] obtain st u e2 where
      u: "map_put_all kvs (Some w) e1 = Some (st, Some u, e2)"
      "st = STL_OK \<and> (\<exists>n'. map_sized u (later_wins (\<lambda>x y. cmp x y = 0) kvs (\<lambda>_. None), n')) \<and> env_delta (map_blocks u - 1) e1 e2 \<or>
       st \<noteq> STL_OK \<and> env_delta (- 1) e1 e2"
      unfolding w(3,4) by blast
    have all: "(if length kvs = 0 then [] else take (length kvs) (zip (map fst kvs) (map snd kvs))) = kvs" using z by auto
    show ?thesis
    proof (cases "st = STL_OK")
      case False
      have "?run = Some (st, Some m, e2)" using go init w(1) u(1) all False by (auto simp: map_raw_from_arrays_def map_from_common_def)
      then show ?thesis using u(2) False env_delta_trans [OF w(5), of "- 1" e2] by auto
    next
      case True
      then obtain n' where u': "map_sized u (later_wins (\<lambda>x y. cmp x y = 0) kvs (\<lambda>_. None), n')" "env_delta (map_blocks u - 1) e1 e2"
        using u(2) by auto
      have d2: "env_delta (map_blocks u) e e2" using env_delta_trans [OF w(5) u'(2)] by simp
      have "\<exists>e3. (if om_impl m \<noteq> NULL then rbtree_destroy (om_impl m) e2 else Some e2) = Some e3 \<and> env_delta (- map_blocks m) e2 e3"
        using assms(6)
      proof
        assume "map_sized m a"
        then obtain t es where h: "map_holds m t es" by (auto simp: map_sized_def)
        then have t: "om_impl m = Some t" "rbtree_rep t es" by (auto simp: map_holds_def)
        then show ?thesis using rbtree_destroy_rep [OF t(2), of e2] map_blocks_holds [OF h] by auto
      qed (simp add: map_blocks_def)
      then obtain e3 where e3: "(if om_impl m \<noteq> NULL then rbtree_destroy (om_impl m) e2 else Some e2) = Some e3" "env_delta (- map_blocks m) e2 e3" by blast
      let ?w = "u\<lparr>om_generation := om_generation m + 1\<rparr>"
      have gen: "map_sized ?w = map_sized u" "map_blocks ?w = map_blocks u"
        by (simp_all add: map_sized_def map_holds_def map_blocks_def map_size_def fun_eq_iff)
      have "?run = Some (STL_OK, Some ?w, e3)"
        using go init w(1) u(1) all True e3(1) by (auto simp: map_raw_from_arrays_def map_from_common_def split: if_splits)
      moreover have "env_delta (map_blocks ?w - map_blocks m) e e3" using env_delta_trans [OF d2 e3(2)] gen(2) by simp
      moreover have "map_sized ?w (later_wins (\<lambda>x y. cmp x y = 0) kvs (\<lambda>_. None), n')" using u'(1) gen(1) by simp
      from map_get_sized(1) [OF this] have
        "\<forall>k. map_get (Some ?w) (Some k) = Some (map_option Some (later_wins (\<lambda>x y. cmp x y = 0) kvs (\<lambda>_. None) k))" by blast
      ultimately show ?thesis by (intro exI [of _ STL_OK] exI [of _ ?w] exI [of _ e3]) simp
    qed
  qed
qed

section \<open>Witnesses\<close>

definition one_map :: "(nat, nat) map_t" where
  "one_map = map_zeroed\<lparr>om_impl := Some one_node_tree, om_generation := 1\<rparr>"

lemma one_map_holds: "map_holds one_map one_node_tree [(4096, 3, 7)]"
  using one_node_rep by (simp add: map_holds_def one_map_def) (simp add: one_node_tree_def one_node_of_def)

lemma one_map_sized: "map_sized one_map (entry_lookup one_node_tree [(4096, 3, 7)], 1)"
  by (rule map_sizedI [OF one_map_holds]) simp_all

lemma one_map_fresh: "map_fresh one_map other_env"
  by (simp add: map_fresh_def malloc_fresh_def one_map_def other_env_def live_def one_node_tree_def one_node_of_def)

theorem map_history_acknowledged_witness:
  "\<exists>st out w e' g k. history map_apply map_fresh one_map other_env [(Map_remove 3 NULL, st, out)] w e' \<and>
    replay (map_model (map_eq one_map) (map_entry_limit (Some one_map))) [(Map_remove 3 NULL, st, out)] (entry_lookup one_node_tree [(4096, 3, 7)], 1) = (g, k) \<and>
    map_size (Some w) = k"
proof -
  obtain st w out e' where r: "map_apply (Map_remove 3 NULL) (Some one_map) other_env = Some (st, Some w, out, e')"
    using map_step [OF one_map_sized one_map_fresh, of "Map_remove 3 NULL"] by (auto simp: map_outcome_def split: prod.splits)
  have h: "history map_apply map_fresh one_map other_env [(Map_remove 3 NULL, st, out)] w e'"
    by (rule history.call [where app = map_apply and fresh = map_fresh, OF one_map_fresh r history.start])
  obtain g k where rp: "replay (map_model (map_eq one_map) (map_entry_limit (Some one_map))) [(Map_remove 3 NULL, st, out)]
    (entry_lookup one_node_tree [(4096, 3, 7)], 1) = (g, k)" by fastforce
  show ?thesis using map_history_acknowledged [OF one_map_sized h rp] h rp by blast
qed

theorem map_iteration_ordered_witness:
  "map_walk [9 \<mapsto> one_map] (map_begin [9 \<mapsto> one_map] (Some 9)) 2 = Some [(Some (Some 3), Some (Some 7))] \<and>
   map_range_walk [9 \<mapsto> one_map] (Some 9) \<lparr>rc_node = Some 5, rc_map = NULL\<rparr> 2 = Some [(Some (Some 3), Some (Some 7))]"
proof -
  have h: "[9 \<mapsto> one_map] 9 = Some one_map" "map_holds one_map one_node_tree ([] @ [(4096, 3, 7)])" using one_map_holds by simp_all
  show ?thesis
    using map_iteration_ordered [of "[9 \<mapsto> one_map]" 9 one_map one_node_tree "[]" "[(4096, 3, 7)]" NULL NULL "Some 5", OF h]
    by (simp del: map_walk.simps map_range_walk.simps add: numeral_2_eq_2)
qed

lemma empty_map_fresh: "map_sized w (f, 0) \<Longrightarrow> map_fresh w e"
  by (auto simp: map_sized_def map_holds_def rbtree_rep_def map_fresh_def malloc_fresh_def)

theorem map_raw_from_arrays_all_or_nothing_witness:
  "\<exists>st w e'. map_raw_from_arrays (Some one_map) (Some [5]) (Some [9]) 1 (Some nat_desc) (Some nat_desc) 3 other_env = Some (st, Some w, e') \<and>
    env_delta (map_blocks w - map_blocks one_map) other_env e'"
proof -
  let ?cmp = "\<lambda>x y. int x - int y"
  have cmp: "?cmp = the (tr_compare (the (td_traits nat_desc)))" "max (max (td_size nat_desc) (td_align nat_desc)) (max (td_size nat_desc) (td_align nat_desc)) \<le> SIZE_MAX"
    by (simp_all add: nat_desc_def nat_traits_def SIZE_MAX_def)
  have "map_fresh w e1" if "map_raw_init (Some map_zeroed) (Some nat_desc) (Some nat_desc) 3 other_env = (STL_OK, Some w, e1)" for w :: "(nat, nat) map_t" and e1
    using map_raw_init_sized [OF that nat_desc_lawful nat_desc_lawful _ cmp(2)] nat_order(1) cmp(1) empty_map_fresh by auto
  then have "\<forall>w e1. map_raw_init (Some map_zeroed) (Some nat_desc) (Some nat_desc) 3 other_env = (STL_OK, Some w, e1) \<longrightarrow> map_fresh_all [(5, 9)] w e1"
    by simp
  from map_raw_from_arrays_all_or_nothing [OF nat_desc_lawful nat_desc_lawful nat_order(1) cmp disjI2 [OF one_map_sized] this]
  show ?thesis by auto
qed

end
