(* ===== verification/Cstl_Multimap.thy ===== *)
theory Cstl_Multimap
  imports Cstl_Map
begin

text \<open>
  The ordered multimap (\<^verbatim>\<open>src/cstl/src/multimap.c\<close>): the same handle over a red-black tree that allows
  duplicates. Where the code repeats that of the map word for word the operation is the map's;
  equal keys are counted, removed and erased by walking the thread between the two bounds.
\<close>

section \<open>Operations\<close>

type_synonym ('k, 'v) multimap_t = "('k, 'v) map_t"

definition multimap_tree :: "('k, 'v) multimap_t ptr \<Rightarrow> ('k, 'v) rbtree ptr" where
  "multimap_tree m = Option.bind m om_impl"

definition multimap_initialize ::
  "('k, 'v) multimap_t ptr \<Rightarrow> 'k cmeta_type_desc ptr \<Rightarrow> 'v cmeta_type_desc ptr \<Rightarrow> size_t \<Rightarrow> size_t \<Rightarrow> size_t \<Rightarrow> size_t \<Rightarrow>
   size_t \<Rightarrow> ('k \<Rightarrow> 'k \<Rightarrow> nat ptr \<Rightarrow> int) ptr \<Rightarrow> nat ptr \<Rightarrow> env \<Rightarrow> stl_status \<times> ('k, 'v) multimap_t ptr \<times> env" where
  "multimap_initialize m key_type value_type key_size key_align value_size value_align element_limit compare ctx e =
     (if m = NULL \<or> om_impl (the m) \<noteq> NULL then (STL_INVALID_ARGUMENT, m, e)
      else
        case rbtree_create (Some NULL) key_type value_type key_size key_align value_size value_align element_limit
               compare ctx True e of
          (st, tree, e1) \<Rightarrow>
            if st \<noteq> STL_OK then (st, m, e1)
            else (STL_OK, Some (map_bump ((the m)\<lparr>om_impl := the tree\<rparr>)), e1))"

definition multimap_raw_init ::
  "('k, 'v) multimap_t ptr \<Rightarrow> 'k cmeta_type_desc ptr \<Rightarrow> 'v cmeta_type_desc ptr \<Rightarrow> size_t \<Rightarrow> env \<Rightarrow>
   stl_status \<times> ('k, 'v) multimap_t ptr \<times> env" where
  "multimap_raw_init m key_type value_type element_limit e =
     (if m = NULL \<or> om_impl (the m) \<noteq> NULL then (STL_INVALID_ARGUMENT, m, e)
      else if sequence_require_type key_type True \<noteq> STL_OK then (sequence_require_type key_type True, m, e)
      else if sequence_require_type value_type False \<noteq> STL_OK then (sequence_require_type value_type False, m, e)
      else multimap_initialize m key_type value_type (td_size (the key_type)) (td_align (the key_type))
             (td_size (the value_type)) (td_align (the value_type)) element_limit NULL NULL e)"

definition multimap_init_bytes ::
  "('k, 'v) multimap_t ptr \<Rightarrow> size_t \<Rightarrow> size_t \<Rightarrow> size_t \<Rightarrow> size_t \<Rightarrow> size_t \<Rightarrow> ('k \<Rightarrow> 'k \<Rightarrow> nat ptr \<Rightarrow> int) ptr \<Rightarrow>
   nat ptr \<Rightarrow> env \<Rightarrow> stl_status \<times> ('k, 'v) multimap_t ptr \<times> env" where
  "multimap_init_bytes m key_size key_align value_size value_align element_limit compare ctx e =
     (if compare = NULL then (STL_INVALID_ARGUMENT, m, e)
      else multimap_initialize m NULL NULL key_size key_align value_size value_align element_limit compare ctx e)"

definition multimap_raw_destroy_storage :: "('k, 'v) multimap_t ptr \<Rightarrow> env \<Rightarrow> (('k, 'v) multimap_t ptr \<times> env) option" where
  "multimap_raw_destroy_storage m e =
     (if multimap_tree m = NULL then Some (m, e)
      else do {
        e1 \<leftarrow> rbtree_destroy (multimap_tree m) e;
        Some (Some (map_bump ((the m)\<lparr>om_impl := NULL\<rparr>)), e1)
      })"

definition multimap_clear :: "('k, 'v) multimap_t ptr \<Rightarrow> env \<Rightarrow> (('k, 'v) multimap_t ptr \<times> env) option" where
  "multimap_clear m e =
     (if multimap_tree m = NULL \<or> rb_size (the (multimap_tree m)) = 0 then Some (m, e)
      else do {
        s \<leftarrow> rbtree_clear (multimap_tree m) e;
        Some (Some (map_bump ((the m)\<lparr>om_impl := fst s\<rparr>)), snd s)
      })"

definition multimap_put ::
  "('k, 'v) multimap_t ptr \<Rightarrow> 'k option ptr \<Rightarrow> 'v option ptr \<Rightarrow> env \<Rightarrow>
   (stl_status \<times> ('k, 'v) multimap_t ptr \<times> env) option" where
  "multimap_put m key val e =
     (if multimap_tree m = NULL then Some (STL_INVALID_ARGUMENT, m, e)
      else do {
        (st, tree, out, e1) \<leftarrow> rbtree_put (multimap_tree m) key val (Some RBTREE_INSERTED) e;
        let m1 = (the m)\<lparr>om_impl := tree\<rparr>;
        Some (st, Some (if st = STL_OK then map_bump m1 else m1), e1)
      })"

definition multimap_contains :: "('k, 'v) multimap_t ptr \<Rightarrow> 'k ptr \<Rightarrow> bool option" where
  "multimap_contains m key = map_option (\<lambda>node. node \<noteq> NULL) (rbtree_find (multimap_tree m) key)"

partial_function (option) count_loop :: "('k, 'v) rbtree \<Rightarrow> addr ptr \<Rightarrow> addr ptr \<Rightarrow> size_t \<Rightarrow> size_t option" where
  "count_loop t node stop cnt =
     (if node = stop then Some cnt else do { node \<leftarrow> get_next t node; count_loop t node stop (cnt + 1) })"

definition multimap_count :: "('k, 'v) multimap_t ptr \<Rightarrow> 'k ptr \<Rightarrow> size_t option" where
  "multimap_count m key =
     (if multimap_tree m = NULL \<or> key = NULL then Some 0
      else do {
        node \<leftarrow> rbtree_lower_bound (multimap_tree m) key;
        stop \<leftarrow> rbtree_upper_bound (multimap_tree m) key;
        count_loop (the (multimap_tree m)) node stop 0
      })"

definition multimap_remove ::
  "('k, 'v) multimap_t ptr \<Rightarrow> 'k ptr \<Rightarrow> 'v option ptr \<Rightarrow> env \<Rightarrow>
   (bool \<times> ('k, 'v) multimap_t ptr \<times> 'v option ptr \<times> env) option" where
  "multimap_remove m key out_value e =
     (if multimap_tree m = NULL \<or> key = NULL then Some (False, m, out_value, e)
      else do {
        first \<leftarrow> rbtree_lower_bound (multimap_tree m) key;
        stop \<leftarrow> rbtree_upper_bound (multimap_tree m) key;
        if first = stop then Some (False, m, out_value, e)
        else do {
          node \<leftarrow> (if stop = NULL then Some (rb_tail (the (multimap_tree m))) else get_previous (the (multimap_tree m)) stop);
          (st, tree, out, e1) \<leftarrow> rbtree_remove_node (multimap_tree m) node out_value e;
          let m1 = (the m)\<lparr>om_impl := tree\<rparr>;
          if st \<noteq> STL_OK then Some (False, Some m1, out, e1) else Some (True, Some (map_bump m1), out, e1)
        }
      })"

partial_function (option) erase_loop ::
  "('k, 'v) rbtree \<Rightarrow> addr ptr \<Rightarrow> addr ptr \<Rightarrow> size_t \<Rightarrow> env \<Rightarrow> (('k, 'v) rbtree \<times> size_t \<times> env) option" where
  "erase_loop t node stop removed e =
     (if node = stop then Some (t, removed, e)
      else do {
        nxt \<leftarrow> get_next t node;
        r \<leftarrow> rbtree_remove_node (Some t) node NULL e;
        if fst r \<noteq> STL_OK then Some (the (fst (snd r)), removed, snd (snd (snd r)))
        else erase_loop (the (fst (snd r))) nxt stop (removed + 1) (snd (snd (snd r)))
      })"

definition multimap_erase :: "('k, 'v) multimap_t ptr \<Rightarrow> 'k ptr \<Rightarrow> env \<Rightarrow> (size_t \<times> ('k, 'v) multimap_t ptr \<times> env) option" where
  "multimap_erase m key e =
     (if multimap_tree m = NULL \<or> key = NULL then Some (0, m, e)
      else do {
        node \<leftarrow> rbtree_lower_bound (multimap_tree m) key;
        stop \<leftarrow> rbtree_upper_bound (multimap_tree m) key;
        (t, removed, e1) \<leftarrow> erase_loop (the (multimap_tree m)) node stop 0 e;
        let m1 = (the m)\<lparr>om_impl := Some t\<rparr>;
        Some (removed, Some (if removed \<noteq> 0 then map_bump m1 else m1), e1)
      })"

definition multimap_size :: "('k, 'v) multimap_t ptr \<Rightarrow> size_t" where
  "multimap_size m = (case multimap_tree m of None \<Rightarrow> 0 | Some t \<Rightarrow> rb_size t)"

definition multimap_element_limit :: "('k, 'v) multimap_t ptr \<Rightarrow> size_t" where
  "multimap_element_limit m = (case multimap_tree m of None \<Rightarrow> 0 | Some t \<Rightarrow> rb_element_limit t)"

definition multimap_generation :: "('k, 'v) multimap_t ptr \<Rightarrow> u64" where
  "multimap_generation m = (case m of None \<Rightarrow> 0 | Some x \<Rightarrow> om_generation x)"

definition multimap_empty :: "('k, 'v) multimap_t ptr \<Rightarrow> bool" where
  "multimap_empty m \<longleftrightarrow> multimap_size m = 0"

section \<open>Construction, wrappers and iterators\<close>

fun multimap_put_all ::
  "('k \<times> 'v) list \<Rightarrow> ('k, 'v) multimap_t ptr \<Rightarrow> env \<Rightarrow> (stl_status \<times> ('k, 'v) multimap_t ptr \<times> env) option" where
  "multimap_put_all [] temporary e = Some (STL_OK, temporary, e)"
| "multimap_put_all ((k, v) # kvs) temporary e = do {
     (st, temporary, e1) \<leftarrow> multimap_put temporary (Some (Some k)) (Some (Some v)) e;
     if st \<noteq> STL_OK then do {
       s \<leftarrow> multimap_raw_destroy_storage temporary e1;
       Some (st, fst s, snd s)
     } else multimap_put_all kvs temporary e1
   }"

definition multimap_from_common ::
  "('k, 'v) multimap_t ptr \<Rightarrow> 'k list ptr \<Rightarrow> 'v list ptr \<Rightarrow> size_t \<Rightarrow> 'k cmeta_type_desc ptr \<Rightarrow> 'v cmeta_type_desc ptr \<Rightarrow>
   size_t \<Rightarrow> size_t \<Rightarrow> size_t \<Rightarrow> size_t \<Rightarrow> size_t \<Rightarrow> ('k \<Rightarrow> 'k \<Rightarrow> nat ptr \<Rightarrow> int) ptr \<Rightarrow> nat ptr \<Rightarrow> env \<Rightarrow>
   (stl_status \<times> ('k, 'v) multimap_t ptr \<times> env) option" where
  "multimap_from_common m keys vals cnt key_type value_type key_size key_align value_size value_align element_limit compare ctx e =
     (if m = NULL \<or> cnt \<noteq> 0 \<and> (keys = NULL \<or> vals = NULL) then Some (STL_INVALID_ARGUMENT, m, e)
      else if cnt \<noteq> 0 \<and> (SIZE_MAX div cnt < key_size \<or> SIZE_MAX div cnt < value_size)
      then Some (STL_CAPACITY_EXCEEDED, m, e)
      else
        case (if key_type \<noteq> NULL then multimap_raw_init (Some map_zeroed) key_type value_type element_limit e
              else multimap_init_bytes (Some map_zeroed) key_size key_align value_size value_align element_limit compare ctx e) of
          (st, temporary, e1) \<Rightarrow>
            if st \<noteq> STL_OK then Some (st, m, e1)
            else do {
              (st, temporary, e2) \<leftarrow> multimap_put_all (if cnt = 0 then [] else take cnt (zip (the keys) (the vals))) temporary e1;
              if st \<noteq> STL_OK then Some (st, m, e2)
              else do {
                let temporary = (the temporary)\<lparr>om_generation := om_generation (the m) + 1\<rparr>;
                e3 \<leftarrow> (if om_impl (the m) \<noteq> NULL then rbtree_destroy (multimap_tree m) e2 else Some e2);
                Some (STL_OK, Some temporary, e3)
              }
            })"

definition multimap_raw_from_arrays ::
  "('k, 'v) multimap_t ptr \<Rightarrow> 'k list ptr \<Rightarrow> 'v list ptr \<Rightarrow> size_t \<Rightarrow> 'k cmeta_type_desc ptr \<Rightarrow> 'v cmeta_type_desc ptr \<Rightarrow>
   size_t \<Rightarrow> env \<Rightarrow> (stl_status \<times> ('k, 'v) multimap_t ptr \<times> env) option" where
  "multimap_raw_from_arrays m keys vals cnt key_type value_type element_limit e =
     (if key_type = NULL \<or> value_type = NULL then Some (STL_INVALID_ARGUMENT, m, e)
      else multimap_from_common m keys vals cnt key_type value_type (td_size (the key_type)) (td_align (the key_type))
             (td_size (the value_type)) (td_align (the value_type)) element_limit NULL NULL e)"

definition multimap_from_arrays_bytes ::
  "('k, 'v) multimap_t ptr \<Rightarrow> 'k list ptr \<Rightarrow> 'v list ptr \<Rightarrow> size_t \<Rightarrow> size_t \<Rightarrow> size_t \<Rightarrow> size_t \<Rightarrow> size_t \<Rightarrow> size_t \<Rightarrow>
   ('k \<Rightarrow> 'k \<Rightarrow> nat ptr \<Rightarrow> int) ptr \<Rightarrow> nat ptr \<Rightarrow> env \<Rightarrow> (stl_status \<times> ('k, 'v) multimap_t ptr \<times> env) option" where
  "multimap_from_arrays_bytes m keys vals cnt key_size key_align value_size value_align element_limit compare ctx e =
     multimap_from_common m keys vals cnt NULL NULL key_size key_align value_size value_align element_limit compare ctx e"

definition multimap_init :: "('k, 'v) multimap_t ptr \<Rightarrow> size_t \<Rightarrow> env \<Rightarrow> stl_status \<times> ('k, 'v) multimap_t ptr \<times> env" where
  "multimap_init m element_limit e =
     (if m = NULL \<or> om_key_type (the m) = NULL \<or> om_value_type (the m) = NULL then (STL_INVALID_ARGUMENT, m, e)
      else
        case multimap_raw_init m (om_key_type (the m)) (om_value_type (the m)) element_limit e of
          (st, r, e1) \<Rightarrow> (st, map_rebind (the m) r, e1))"

definition multimap_from_arrays ::
  "('k, 'v) multimap_t ptr \<Rightarrow> 'k list ptr \<Rightarrow> 'v list ptr \<Rightarrow> size_t \<Rightarrow> size_t \<Rightarrow> env \<Rightarrow>
   (stl_status \<times> ('k, 'v) multimap_t ptr \<times> env) option" where
  "multimap_from_arrays m keys vals cnt element_limit e =
     (if m = NULL \<or> om_key_type (the m) = NULL \<or> om_value_type (the m) = NULL then Some (STL_INVALID_ARGUMENT, m, e)
      else do {
        (st, r, e1) \<leftarrow> multimap_raw_from_arrays m keys vals cnt (om_key_type (the m)) (om_value_type (the m)) element_limit e;
        Some (st, map_rebind (the m) r, e1)
      })"

definition multimap_destroy :: "('k, 'v) multimap_t ptr \<Rightarrow> env \<Rightarrow> (('k, 'v) multimap_t ptr \<times> env) option" where
  "multimap_destroy m e =
     (if m = NULL then Some (m, e)
      else do { s \<leftarrow> multimap_raw_destroy_storage m e; Some (map_rebind (the m) (fst s), snd s) })"

text \<open>Iterators and range cursors have the same fields as those of the map, and the same code.\<close>

type_synonym multimap_iter = map_iter

definition multimap_begin :: "('k, 'v) maps \<Rightarrow> u64 ptr \<Rightarrow> multimap_iter" where
  "multimap_begin maps m = map_begin maps m"

definition multimap_end :: "u64 ptr \<Rightarrow> multimap_iter" where
  "multimap_end m = map_end m"

definition multimap_lower_bound :: "('k, 'v) maps \<Rightarrow> u64 ptr \<Rightarrow> 'k ptr \<Rightarrow> multimap_iter option" where
  "multimap_lower_bound maps m key = map_lower_bound maps m key"

definition multimap_upper_bound :: "('k, 'v) maps \<Rightarrow> u64 ptr \<Rightarrow> 'k ptr \<Rightarrow> multimap_iter option" where
  "multimap_upper_bound maps m key = map_upper_bound maps m key"

definition multimap_iter_next :: "('k, 'v) maps \<Rightarrow> multimap_iter ptr \<Rightarrow> (stl_status \<times> multimap_iter ptr) option" where
  "multimap_iter_next maps it = map_iter_next maps it"

definition multimap_iter_prev :: "('k, 'v) maps \<Rightarrow> multimap_iter ptr \<Rightarrow> (stl_status \<times> multimap_iter ptr) option" where
  "multimap_iter_prev maps it = map_iter_prev maps it"

definition multimap_iter_equal :: "multimap_iter \<Rightarrow> multimap_iter \<Rightarrow> bool" where
  "multimap_iter_equal lhs rhs \<longleftrightarrow> it_owner lhs = it_owner rhs \<and> it_node lhs = it_node rhs"

definition multimap_iter_key_const :: "('k, 'v) maps \<Rightarrow> multimap_iter \<Rightarrow> 'k option ptr option" where
  "multimap_iter_key_const maps it = map_iter_key_const maps it"

definition multimap_iter_value :: "('k, 'v) maps \<Rightarrow> multimap_iter \<Rightarrow> 'v option ptr option" where
  "multimap_iter_value maps it = map_iter_value maps it"

definition multimap_range_next ::
  "('k, 'v) maps \<Rightarrow> u64 ptr \<Rightarrow> range_cursor ptr \<Rightarrow> 'k option ptr ptr \<Rightarrow> 'v option ptr ptr \<Rightarrow>
   (bool \<times> range_cursor ptr \<times> 'k option ptr ptr \<times> 'v option ptr ptr) option" where
  "multimap_range_next maps m cursor out_key out_value = map_range_next maps m cursor out_key out_value"

section \<open>The equal range\<close>

definition multimap_holds :: "('k, 'v) multimap_t \<Rightarrow> ('k, 'v) rbtree \<Rightarrow> ('k, 'v) entry list \<Rightarrow> bool" where
  "multimap_holds m t es \<longleftrightarrow> om_impl m = Some t \<and> rbtree_rep t es \<and> rb_allow_duplicates t"

text \<open>Entries below a key, with the key, and above it.\<close>

definition below_key :: "('k, 'v) rbtree \<Rightarrow> 'k \<Rightarrow> ('k, 'v) entry list \<Rightarrow> ('k, 'v) entry list" where
  "below_key t k es = takeWhile (\<lambda>x. key_cmp t (fst (snd x)) k < 0) es"

definition above_key :: "('k, 'v) rbtree \<Rightarrow> 'k \<Rightarrow> ('k, 'v) entry list \<Rightarrow> ('k, 'v) entry list" where
  "above_key t k es = dropWhile (\<lambda>x. key_cmp t (fst (snd x)) k \<le> 0) es"

definition equal_range :: "('k, 'v) rbtree \<Rightarrow> 'k \<Rightarrow> ('k, 'v) entry list \<Rightarrow> ('k, 'v) entry list" where
  "equal_range t k es = filter (with_key t k) es"

lemma sorted_range:
  assumes "config_ok t" and "sorted_wrt (\<lambda>x y. key_cmp t (fst (snd x)) (fst (snd y)) \<le> 0) es"
  shows "es = below_key t k es @ equal_range t k es @ above_key t k es"
    and "dropWhile (\<lambda>x. key_cmp t (fst (snd x)) k < 0) es = equal_range t k es @ above_key t k es"
proof -
  have *: "dropWhile (\<lambda>x. key_cmp t (fst (snd x)) k < 0) es = equal_range t k es @ above_key t k es"
    using assms(2)
  proof (induction es)
    case (Cons x es)
    have eq: "with_key t k x \<longleftrightarrow> key_cmp t (fst (snd x)) k = 0" using cmp_laws(2) [OF assms(1)] by (auto simp: with_key_def)
    have up: "\<forall>y \<in> set es. 0 < key_cmp t (fst (snd y)) k" if "0 < key_cmp t (fst (snd x)) k"
    proof
      fix y
      assume "y \<in> set es"
      then have "key_cmp t (fst (snd x)) (fst (snd y)) \<le> 0" using Cons.prems by simp
      then show "0 < key_cmp t (fst (snd y)) k"
        using that cmp_laws(1) [OF assms(1), of k "fst (snd x)"] cmp_laws(5) [OF assms(1), of k "fst (snd x)" "fst (snd y)"]
          cmp_laws(1) [OF assms(1), of k "fst (snd y)"] by blast
    qed
    have nd: "\<not> with_key t k y" if "0 < key_cmp t (fst (snd y)) k" for y :: "('a, 'b) entry"
      using that cmp_laws(2) [OF assms(1), of k "fst (snd y)"] by (auto simp: with_key_def)
    consider "key_cmp t (fst (snd x)) k < 0" | "key_cmp t (fst (snd x)) k = 0" | "0 < key_cmp t (fst (snd x)) k" by linarith
    then show ?case
    proof cases
      case 1
      then show ?thesis using Cons eq by (auto simp: equal_range_def above_key_def)
    next
      case 2
      have "\<forall>y \<in> set es. 0 \<le> key_cmp t (fst (snd y)) k"
      proof
        fix y
        assume "y \<in> set es"
        then have "key_cmp t (fst (snd x)) (fst (snd y)) \<le> 0" using Cons.prems by simp
        then show "0 \<le> key_cmp t (fst (snd y)) k"
          using 2 cmp_laws(4) [OF assms(1), of "fst (snd x)" "fst (snd y)" k] by force
      qed
      then have "dropWhile (\<lambda>x. key_cmp t (fst (snd x)) k < 0) es = es" by (cases es) auto
      then show ?thesis using Cons eq 2 by (auto simp: equal_range_def above_key_def)
    next
      case 3
      then have "filter (with_key t k) es = []" using up nd by (auto simp: filter_empty_conv)
      then show ?thesis using eq 3 by (auto simp: equal_range_def above_key_def)
    qed
  qed (simp add: equal_range_def above_key_def)
  then show "dropWhile (\<lambda>x. key_cmp t (fst (snd x)) k < 0) es = equal_range t k es @ above_key t k es" .
  show "es = below_key t k es @ equal_range t k es @ above_key t k es"
    unfolding * [symmetric] below_key_def by simp
qed


lemma multimap_range:
  assumes "multimap_holds m t es"
  shows "multimap_tree (Some m) = Some t" "rb_allow_duplicates t"
    "rbtree_rep t (below_key t k es @ equal_range t k es @ above_key t k es)"
    "es = below_key t k es @ equal_range t k es @ above_key t k es"
    "rbtree_lower_bound (Some t) (Some k) = Some (first_of (entry_addrs (equal_range t k es @ above_key t k es)) NULL)"
    "rbtree_upper_bound (Some t) (Some k) = Some (first_of (entry_addrs (above_key t k es)) NULL)"
proof -
  have h: "om_impl m = Some t" "rbtree_rep t es" "rb_allow_duplicates t" and c: "config_ok t"
    using assms by (auto simp: multimap_holds_def rbtree_rep_def)
  have "sorted_wrt (entry_before t) es" using h(2) by (simp add: rbtree_rep_def)
  then have so: "sorted_wrt (\<lambda>x y. key_cmp t (fst (snd x)) (fst (snd y)) \<le> 0) es"
    by (rule sorted_wrt_mono_rel [rotated]) (use h(3) in \<open>simp add: entry_before_def\<close>)
  note range = sorted_range [OF c so, of k]
  show "multimap_tree (Some m) = Some t" "rb_allow_duplicates t" using h by (simp_all add: multimap_tree_def)
  show "es = below_key t k es @ equal_range t k es @ above_key t k es" by (rule range(1))
  show "rbtree_rep t (below_key t k es @ equal_range t k es @ above_key t k es)" using h(2) by (simp flip: range(1))
  show "rbtree_lower_bound (Some t) (Some k) = Some (first_of (entry_addrs (equal_range t k es @ above_key t k es)) NULL)"
    "rbtree_upper_bound (Some t) (Some k) = Some (first_of (entry_addrs (above_key t k es)) NULL)"
    using rbtree_bounds_rep [OF h(2), of k] by (simp_all only: range(2) above_key_def)
qed

lemma fresh_first:
  assumes "rbtree_rep t (xs @ y # ys @ zs)"
  shows "first_of (entry_addrs zs) NULL \<noteq> Some (fst y)"
  using assms by (cases zs) (auto simp: rbtree_rep_def chained_def)

lemma count_loop_range:
  "rbtree_rep t (xs @ ys @ zs) \<Longrightarrow>
   count_loop t (first_of (entry_addrs (ys @ zs)) NULL) (first_of (entry_addrs zs) NULL) cnt = Some (cnt + length ys)"
proof (induction ys arbitrary: xs cnt)
  case Nil
  then show ?case by (simp add: count_loop.simps)
next
  case (Cons y ys)
  obtain n where "load t (Some (fst y)) = Some n" "rn_next n = first_of (entry_addrs (ys @ zs)) NULL"
    using node_fields [of t xs "fst y" "fst (snd y)" "snd (snd y)" "ys @ zs"] Cons.prems by auto
  then have "count_loop t (Some (fst y)) (first_of (entry_addrs zs) NULL) cnt =
      count_loop t (first_of (entry_addrs (ys @ zs)) NULL) (first_of (entry_addrs zs) NULL) (cnt + 1)"
    using fresh_first [of t xs y ys zs] Cons.prems by (subst count_loop.simps) (auto simp: get_next_def)
  then show ?case using Cons.IH [of "xs @ [y]" "cnt + 1"] Cons.prems by simp
qed

lemma erase_loop_range:
  "rbtree_rep t (xs @ ys @ zs) \<Longrightarrow>
   \<exists>t' e'. erase_loop t (first_of (entry_addrs (ys @ zs)) NULL) (first_of (entry_addrs zs) NULL) r e = Some (t', r + length ys, e') \<and>
     rbtree_rep t' (xs @ zs) \<and> fixed t' = fixed t \<and> env_delta (- 3 * int (length ys)) e e'"
proof (induction ys arbitrary: t r e)
  case Nil
  then show ?case by (auto simp: erase_loop.simps)
next
  case (Cons y ys)
  obtain a k v where y: "y = (a, k, v)" by (cases y)
  obtain n where n: "load t (Some a) = Some n" "rn_next n = first_of (entry_addrs (ys @ zs)) NULL"
    using node_fields [of t xs a k v "ys @ zs"] Cons.prems y by auto
  have "rbtree_rep t (xs @ (a, k, v) # ys @ zs)" using Cons.prems y by simp
  from remove_node_rep [OF this, of NULL e] obtain t1 e1 where t1: "rbtree_remove_node (Some t) (Some a) NULL e = Some (STL_OK, Some t1, NULL, e1)"
    "rbtree_rep t1 (xs @ ys @ zs)" "fixed t1 = fixed t" "env_delta (- 3) e e1" by auto
  from Cons.IH [OF t1(2)] obtain t' e' where t': "erase_loop t1 (first_of (entry_addrs (ys @ zs)) NULL) (first_of (entry_addrs zs) NULL) (r + 1) e1 =
      Some (t', r + 1 + length ys, e')" "rbtree_rep t' (xs @ zs)" "fixed t' = fixed t1" "env_delta (- 3 * int (length ys)) e1 e'" by blast
  have "erase_loop t (Some a) (first_of (entry_addrs zs) NULL) r e = Some (t', r + 1 + length ys, e')"
    using n t1(1) t'(1) fresh_first [of t xs y ys zs] Cons.prems y by (subst erase_loop.simps) (auto simp: get_next_def)
  moreover have "env_delta (- 3 * int (length (y # ys))) e e'" using env_delta_trans [OF t1(4) t'(4)] by (simp add: algebra_simps)
  ultimately show ?case using t' t1(3) y by auto
qed

lemma multimap_holds_bump:
  "multimap_holds m t es \<Longrightarrow> rbtree_rep t' es' \<Longrightarrow> fixed t' = fixed t \<Longrightarrow> multimap_holds (map_bump (m\<lparr>om_impl := Some t'\<rparr>)) t' es'"
  using fixed_config(7) [of t' t] by (simp add: multimap_holds_def)

lemma multimap_remove_range:
  assumes "multimap_holds m t es" and "equal_range t k es \<noteq> []"
  shows "\<exists>w t' e'. multimap_remove (Some m) (Some k) out e = Some (True, Some w, map_option (\<lambda>_. Some (snd (snd (last (equal_range t k es))))) out, e') \<and>
    multimap_holds w t' (below_key t k es @ butlast (equal_range t k es) @ above_key t k es) \<and> fixed t' = fixed t \<and>
    om_generation w = om_generation m + 1 \<and> env_delta (- 3) e e'"
proof -
  define A where "A = below_key t k es"
  define B where "B = butlast (equal_range t k es)"
  define C where "C = above_key t k es"
  obtain a j v where x: "last (equal_range t k es) = (a, j, v)" using prod_cases3 by blast
  have eq: "equal_range t k es = B @ [(a, j, v)]" using assms(2) x by (metis B_def append_butlast_last_id)
  note r = multimap_range(1,2) [OF assms(1)] multimap_range(3-6) [OF assms(1), of k, folded A_def C_def, unfolded eq]
  have rep: "rbtree_rep t ((A @ B) @ (a, j, v) # C)" using r(3) by simp
  have ne: "first_of (entry_addrs ((B @ [(a, j, v)]) @ C)) NULL \<noteq> first_of (entry_addrs C) NULL"
  proof (cases B)
    case Nil
    then show ?thesis using fresh_first [of t A "(a, j, v)" "[]" C] rep by (simp add: eq_commute)
  next
    case (Cons b bs)
    then show ?thesis using fresh_first [of t A b "bs @ [(a, j, v)]" C] rep by (simp add: eq_commute)
  qed
  have prev: "(if first_of (entry_addrs C) NULL = NULL then Some (rb_tail t) else get_previous t (first_of (entry_addrs C) NULL)) = Some (Some a)"
  proof (cases C)
    case Nil
    then show ?thesis using chain_ends(2) [OF rep] by (simp add: last_of_def)
  next
    case (Cons c cs)
    obtain n where "load t (Some (fst c)) = Some n" "rn_previous n = last_of (entry_addrs ((A @ B) @ [(a, j, v)])) NULL"
      using node_fields [of t "(A @ B) @ [(a, j, v)]" "fst c" "fst (snd c)" "snd (snd c)" cs] rep Cons by auto
    then show ?thesis using Cons by (simp add: get_previous_def last_of_def)
  qed
  from remove_node_rep [OF rep, of out e] obtain t' e' where t': "rbtree_remove_node (Some t) (Some a) out e = Some (STL_OK, Some t', map_option (\<lambda>_. Some v) out, e')"
    "rbtree_rep t' ((A @ B) @ C)" "fixed t' = fixed t" "env_delta (- 3) e e'" by blast
  have "multimap_remove (Some m) (Some k) out e = Some (True, Some (map_bump (m\<lparr>om_impl := Some t'\<rparr>)), map_option (\<lambda>_. Some v) out, e')"
    unfolding multimap_remove_def r(1) using r(5,6) ne prev t'(1) by (auto split: if_splits)
  moreover have "multimap_holds (map_bump (m\<lparr>om_impl := Some t'\<rparr>)) t' (A @ B @ C)"
    using multimap_holds_bump [OF assms(1) t'(2,3)] by simp
  ultimately show ?thesis using t' x unfolding A_def B_def C_def
    by (intro exI [of _ "map_bump (m\<lparr>om_impl := Some t'\<rparr>)"] exI [of _ t'] exI [of _ e']) simp
qed

lemma multimap_erase_range:
  assumes "multimap_holds m t es"
  shows "\<exists>w t' e'. multimap_erase (Some m) (Some k) e = Some (length (equal_range t k es), Some w, e') \<and>
    multimap_holds w t' (below_key t k es @ above_key t k es) \<and> fixed t' = fixed t \<and>
    om_generation w = (if equal_range t k es = [] then om_generation m else om_generation m + 1) \<and>
    env_delta (- 3 * int (length (equal_range t k es))) e e'"
proof -
  let ?B = "equal_range t k es"
  note r = multimap_range(1,2) [OF assms] multimap_range(3-6) [OF assms, of k]
  from erase_loop_range [OF r(3), of 0 e] obtain t' e' where t': "erase_loop t (first_of (entry_addrs (?B @ above_key t k es)) NULL)
      (first_of (entry_addrs (above_key t k es)) NULL) 0 e = Some (t', length ?B, e')" "rbtree_rep t' (below_key t k es @ above_key t k es)"
    "fixed t' = fixed t" "env_delta (- 3 * int (length ?B)) e e'" by auto
  let ?w = "if length ?B \<noteq> 0 then map_bump (m\<lparr>om_impl := Some t'\<rparr>) else m\<lparr>om_impl := Some t'\<rparr>"
  have "multimap_erase (Some m) (Some k) e = Some (length ?B, Some ?w, e')"
    unfolding multimap_erase_def r(1) using r(5,6) t'(1) by simp
  moreover have "multimap_holds ?w t' (below_key t k es @ above_key t k es)"
    using t'(2) r(2) fixed_config(7) [OF t'(3)] by (simp add: multimap_holds_def)
  ultimately show ?thesis using t' by (intro exI [of _ ?w] exI [of _ t'] exI [of _ e']) simp
qed


lemma insert_entry_range:
  assumes "multimap_holds m t es"
  shows "insert_entry t (a, k, v) es = below_key t k es @ equal_range t k es @ (a, k, v) # above_key t k es"
proof -
  have c: "config_ok t" using assms by (simp add: multimap_holds_def rbtree_rep_def)
  have P: "(\<lambda>x. 0 \<le> key_cmp t k (fst (snd x))) = (\<lambda>x. key_cmp t (fst (snd x)) k \<le> 0)"
    using cmp_laws(1) [OF c] by (auto simp: fun_eq_iff not_less [symmetric])
  have "takeWhile (\<lambda>x. key_cmp t (fst (snd x)) k \<le> 0) es @ above_key t k es = (below_key t k es @ equal_range t k es) @ above_key t k es"
    using multimap_range(4) [OF assms, of k] by (simp add: above_key_def)
  then have "takeWhile (\<lambda>x. key_cmp t (fst (snd x)) k \<le> 0) es = below_key t k es @ equal_range t k es" by simp
  then show ?thesis by (simp add: insert_entry_def P above_key_def)
qed

lemma multimap_put_range:
  assumes "multimap_holds m t es" and "malloc_fresh t e"
  shows "\<exists>st w e'. multimap_put (Some m) (Some (Some k)) (Some (Some v)) e = Some (st, Some w, e') \<and>
    ((\<exists>a t'. st = STL_OK \<and> a \<notin> set (entry_addrs es) \<and> fixed t' = fixed t \<and> env_delta 3 e e' \<and> om_generation w = om_generation m + 1 \<and>
        multimap_holds w t' (below_key t k es @ equal_range t k es @ (a, k, v) # above_key t k es)) \<or>
     st \<in> {STL_CAPACITY_EXCEEDED, STL_OUT_OF_MEMORY} \<and> w = m \<and> env_delta 0 e e' \<and> (rb_element_limit t \<le> length es \<or> \<not> rb_supplied t e))"
proof -
  have h: "om_impl m = Some t" "rbtree_rep t es" "rb_allow_duplicates t" "live t = set (entry_addrs es)"
    using assms by (auto simp: multimap_holds_def rbtree_rep_def)
  obtain st t' out e' where put: "rbtree_put (Some t) (Some (Some k)) (Some (Some v)) (Some RBTREE_INSERTED) e = Some (st, Some t', out, e')"
    and o: "put_outcome t es k v RBTREE_INSERTED e st t' out e'"
    using rbtree_put_outcome [OF h(2) assms(2)] by blast
  let ?m1 = "m\<lparr>om_impl := Some t'\<rparr>"
  have run: "multimap_put (Some m) (Some (Some k)) (Some (Some v)) e = Some (st, Some (if st = STL_OK then map_bump ?m1 else ?m1), e')"
    using put h(1) by (simp add: multimap_put_def multimap_tree_def)
  from o h(3) consider (ok) a where "st = STL_OK" "a \<notin> live t" "rbtree_rep t' (insert_entry t (a, k, v) es)" "env_delta 3 e e'" "fixed t' = fixed t"
    | (no) "st \<in> {STL_CAPACITY_EXCEEDED, STL_OUT_OF_MEMORY}" "t' = t" "env_delta 0 e e'" "rb_element_limit t \<le> length es \<or> \<not> rb_supplied t e"
    by (auto simp: put_outcome_def)
  then show ?thesis
  proof cases
    case ok
    have "multimap_holds (map_bump ?m1) t' (below_key t k es @ equal_range t k es @ (a, k, v) # above_key t k es)"
      using multimap_holds_bump [OF assms(1) ok(3,5)] unfolding insert_entry_range [OF assms(1)] .
    then show ?thesis using run ok h(4) by (intro exI [of _ STL_OK] exI [of _ "map_bump ?m1"] exI [of _ e']) auto
  next
    case no
    have "?m1 = m" using h(1) no(2) by simp
    then show ?thesis using run no by (intro exI [of _ st] exI [of _ m] exI [of _ e']) auto
  qed
qed

section \<open>Properties\<close>

text \<open>C39: Equal keys in an ordered multimap. The entries with a key stand together between the
  smaller and the greater keys: \<open>multimap_put\<close> adds the new one behind them or changes nothing,
  \<open>multimap_count\<close> counts them, \<open>multimap_remove\<close> takes the one inserted last and delivers its value,
  \<open>multimap_erase\<close> removes them all and reports how many; each call returns, the other entries stay
  and exactly the blocks of the removed entries are freed.\<close>

theorem multimap_equal_keys:
  assumes "multimap_holds m t es" and "malloc_fresh t e"
  shows "es = below_key t k es @ equal_range t k es @ above_key t k es \<and>
    multimap_count (Some m) (Some k) = Some (length (equal_range t k es)) \<and>
    multimap_contains (Some m) (Some k) = Some (equal_range t k es \<noteq> []) \<and>
    (\<exists>st w e'. multimap_put (Some m) (Some (Some k)) (Some (Some v)) e = Some (st, Some w, e') \<and>
      ((\<exists>a t'. st = STL_OK \<and> a \<notin> set (entry_addrs es) \<and> fixed t' = fixed t \<and> env_delta 3 e e' \<and> om_generation w = om_generation m + 1 \<and>
          multimap_holds w t' (below_key t k es @ equal_range t k es @ (a, k, v) # above_key t k es)) \<or>
       st \<in> {STL_CAPACITY_EXCEEDED, STL_OUT_OF_MEMORY} \<and> w = m \<and> env_delta 0 e e' \<and> (rb_element_limit t \<le> length es \<or> \<not> rb_supplied t e))) \<and>
    (if equal_range t k es = [] then multimap_remove (Some m) (Some k) out e = Some (False, Some m, out, e)
     else \<exists>w t' e'. multimap_remove (Some m) (Some k) out e = Some (True, Some w, map_option (\<lambda>_. Some (snd (snd (last (equal_range t k es))))) out, e') \<and>
       multimap_holds w t' (below_key t k es @ butlast (equal_range t k es) @ above_key t k es) \<and> fixed t' = fixed t \<and>
       om_generation w = om_generation m + 1 \<and> env_delta (- 3) e e') \<and>
    (\<exists>w t' e'. multimap_erase (Some m) (Some k) e = Some (length (equal_range t k es), Some w, e') \<and>
      multimap_holds w t' (below_key t k es @ above_key t k es) \<and> fixed t' = fixed t \<and>
      om_generation w = (if equal_range t k es = [] then om_generation m else om_generation m + 1) \<and>
      env_delta (- 3 * int (length (equal_range t k es))) e e')"
proof (intro conjI)
  note r = multimap_range(1,2) [OF assms(1)] multimap_range(3-6) [OF assms(1), of k]
  have rep: "rbtree_rep t es" using assms(1) by (simp add: multimap_holds_def)
  show "es = below_key t k es @ equal_range t k es @ above_key t k es" by (rule r(4))
  show "multimap_count (Some m) (Some k) = Some (length (equal_range t k es))"
    unfolding multimap_count_def r(1) using r(5,6) count_loop_range [OF r(3), of 0] by simp
  have "equal_range t k es = [] \<longleftrightarrow> (\<forall>x \<in> set es. \<not> with_key t k x)" by (simp add: equal_range_def filter_empty_conv)
  then show "multimap_contains (Some m) (Some k) = Some (equal_range t k es \<noteq> [])"
    unfolding multimap_contains_def r(1) using rbtree_find_rep [OF rep, of k] by auto
  show "if equal_range t k es = [] then multimap_remove (Some m) (Some k) out e = Some (False, Some m, out, e)
     else \<exists>w t' e'. multimap_remove (Some m) (Some k) out e = Some (True, Some w, map_option (\<lambda>_. Some (snd (snd (last (equal_range t k es))))) out, e') \<and>
       multimap_holds w t' (below_key t k es @ butlast (equal_range t k es) @ above_key t k es) \<and> fixed t' = fixed t \<and>
       om_generation w = om_generation m + 1 \<and> env_delta (- 3) e e'"
  proof (cases "equal_range t k es = []")
    case True
    then show ?thesis unfolding multimap_remove_def r(1) using r(5,6) by simp
  next
    case False
    then show ?thesis using multimap_remove_range [OF assms(1) False, of out e] by simp
  qed
qed (rule multimap_put_range [OF assms] multimap_erase_range [OF assms(1)])+

definition twin_map :: "(nat, nat) multimap_t" where
  "twin_map = map_zeroed\<lparr>om_impl := Some (one_node_of True), om_generation := 1\<rparr>"

theorem multimap_equal_keys_witness: "multimap_count (Some twin_map) (Some 3) = Some 1"
proof -
  have "multimap_holds twin_map (one_node_of True) [(4096, 3, 7)]"
    unfolding multimap_holds_def using one_node_of_rep by (simp add: twin_map_def) (simp add: one_node_of_def)
  moreover have "malloc_fresh (one_node_of True) other_env"
    by (simp add: malloc_fresh_def other_env_def live_def one_node_of_def)
  moreover have "equal_range (one_node_of True) 3 [(4096, 3, 7)] = [(4096, 3, 7)]"
    by (simp add: equal_range_def with_key_def key_cmp_def rbtree_compare_key_def one_node_of_def nat_desc_def nat_traits_def)
  ultimately show ?thesis using multimap_equal_keys [of twin_map "one_node_of True" "[(4096, 3, 7)]" other_env 3] by simp
qed

end
