(* ===== verification/Cstl_Set.thy ===== *)
theory Cstl_Set
  imports Cstl_Map
begin

text \<open>
  The ordered set (\<^verbatim>\<open>src/cstl/src/set.c\<close>, \<^verbatim>\<open>cstl/set.h\<close>): an ordered map whose values are the
  presence byte. The handle has its own descriptor and element type around an unbound map.
\<close>

section \<open>The code\<close>

record 'k set_t =
  st_descriptor :: "nat ptr"
  st_element_type :: "'k cmeta_type_desc ptr"
  st_map :: "('k, bool) map_t"

definition ordered_set_zeroed :: "'k set_t" where
  "ordered_set_zeroed = \<lparr>st_descriptor = NULL, st_element_type = NULL, st_map = map_zeroed\<rparr>"

text \<open>The address of the map inside a handle, and the handle with its map replaced.\<close>

definition map_of_set :: "'k set_t ptr \<Rightarrow> ('k, bool) map_t ptr" where
  "map_of_set s = map_option st_map s"

definition with_map :: "'k set_t ptr \<Rightarrow> ('k, bool) map_t ptr \<Rightarrow> 'k set_t ptr" where
  "with_map s m = map_option (\<lambda>x. x\<lparr>st_map := the m\<rparr>) s"

definition set_raw_init :: "'k set_t ptr \<Rightarrow> 'k cmeta_type_desc ptr \<Rightarrow> size_t \<Rightarrow> env \<Rightarrow> stl_status \<times> 'k set_t ptr \<times> env" where
  "set_raw_init s key_type element_limit e =
     (if s = NULL then (STL_INVALID_ARGUMENT, s, e)
      else case map_raw_init (map_of_set s) key_type (Some cmeta_type_bool) element_limit e of (st, m, e1) \<Rightarrow> (st, with_map s m, e1))"

definition set_init_bytes ::
  "'k set_t ptr \<Rightarrow> size_t \<Rightarrow> size_t \<Rightarrow> size_t \<Rightarrow> ('k \<Rightarrow> 'k \<Rightarrow> nat ptr \<Rightarrow> int) ptr \<Rightarrow> nat ptr \<Rightarrow> env \<Rightarrow>
   stl_status \<times> 'k set_t ptr \<times> env" where
  "set_init_bytes s key_size key_align element_limit compare ctx e =
     (if s = NULL then (STL_INVALID_ARGUMENT, s, e)
      else case map_init_bytes (map_of_set s) key_size key_align 1 1 element_limit compare ctx e of (st, m, e1) \<Rightarrow> (st, with_map s m, e1))"

definition set_raw_destroy_storage :: "'k set_t ptr \<Rightarrow> env \<Rightarrow> ('k set_t ptr \<times> env) option" where
  "set_raw_destroy_storage s e =
     (if s \<noteq> NULL then do { r \<leftarrow> map_raw_destroy_storage (map_of_set s) e; Some (with_map s (fst r), snd r) } else Some (s, e))"

definition set_clear :: "'k set_t ptr \<Rightarrow> env \<Rightarrow> ('k set_t ptr \<times> env) option" where
  "set_clear s e = (if s \<noteq> NULL then do { r \<leftarrow> map_clear (map_of_set s) e; Some (with_map s (fst r), snd r) } else Some (s, e))"

definition set_add :: "'k set_t ptr \<Rightarrow> 'k ptr \<Rightarrow> env \<Rightarrow> (stl_status \<times> 'k set_t ptr \<times> env) option" where
  "set_add s key e =
     (if s = NULL \<or> key = NULL then Some (STL_INVALID_ARGUMENT, s, e)
      else do {
        present \<leftarrow> map_contains (map_of_set s) key;
        if present then Some (STL_OK, s, e)
        else do {
          (st, m, e1) \<leftarrow> map_put (map_of_set s) (Some key) (Some (Some True)) e;
          Some (st, with_map s m, e1)
        }
      })"

definition set_contains :: "'k set_t ptr \<Rightarrow> 'k ptr \<Rightarrow> bool option" where
  "set_contains s key = (if s = NULL then Some False else map_contains (map_of_set s) key)"

definition set_remove :: "'k set_t ptr \<Rightarrow> 'k ptr \<Rightarrow> env \<Rightarrow> (stl_status \<times> 'k set_t ptr \<times> env) option" where
  "set_remove s key e =
     (if s = NULL then Some (STL_INVALID_ARGUMENT, s, e)
      else do { (st, m, out, e1) \<leftarrow> map_remove (map_of_set s) key NULL e; Some (st, with_map s m, e1) })"

definition set_size :: "'k set_t ptr \<Rightarrow> size_t" where
  "set_size s = (if s = NULL then 0 else map_size (map_of_set s))"

definition set_element_limit :: "'k set_t ptr \<Rightarrow> size_t" where
  "set_element_limit s = (if s = NULL then 0 else map_entry_limit (map_of_set s))"

definition set_generation :: "'k set_t ptr \<Rightarrow> u64" where
  "set_generation s = (if s = NULL then 0 else map_generation (map_of_set s))"

definition set_empty :: "'k set_t ptr \<Rightarrow> bool" where
  "set_empty s \<longleftrightarrow> set_size s = 0"

fun set_add_all :: "'k list \<Rightarrow> 'k set_t ptr \<Rightarrow> env \<Rightarrow> (stl_status \<times> 'k set_t ptr \<times> env) option" where
  "set_add_all [] temporary e = Some (STL_OK, temporary, e)"
| "set_add_all (k # keys) temporary e = do {
     (st, temporary, e1) \<leftarrow> set_add temporary (Some k) e;
     if st \<noteq> STL_OK then do {
       r \<leftarrow> set_raw_destroy_storage temporary e1;
       Some (st, fst r, snd r)
     } else set_add_all keys temporary e1
   }"

definition set_from_common ::
  "'k set_t ptr \<Rightarrow> 'k list ptr \<Rightarrow> size_t \<Rightarrow> 'k cmeta_type_desc ptr \<Rightarrow> size_t \<Rightarrow> size_t \<Rightarrow> size_t \<Rightarrow>
   ('k \<Rightarrow> 'k \<Rightarrow> nat ptr \<Rightarrow> int) ptr \<Rightarrow> nat ptr \<Rightarrow> env \<Rightarrow> (stl_status \<times> 'k set_t ptr \<times> env) option" where
  "set_from_common s keys cnt key_type key_size key_align element_limit compare ctx e =
     (if s = NULL \<or> (cnt \<noteq> 0 \<and> keys = NULL) then Some (STL_INVALID_ARGUMENT, s, e)
      else if cnt \<noteq> 0 \<and> SIZE_MAX div cnt < key_size then Some (STL_CAPACITY_EXCEEDED, s, e)
      else
        case (if key_type \<noteq> NULL then set_raw_init (Some ordered_set_zeroed) key_type element_limit e
              else set_init_bytes (Some ordered_set_zeroed) key_size key_align element_limit compare ctx e) of
          (st, temporary, e1) \<Rightarrow>
            if st \<noteq> STL_OK then Some (st, s, e1)
            else do {
              (st, temporary, e2) \<leftarrow> set_add_all (if cnt = 0 then [] else take cnt (the keys)) temporary e1;
              if st \<noteq> STL_OK then Some (st, s, e2)
              else do {
                let generation = set_generation s + 1;
                r \<leftarrow> set_raw_destroy_storage s e2;
                Some (STL_OK, Some ((the temporary)\<lparr>st_map := (st_map (the temporary))\<lparr>om_generation := generation\<rparr>\<rparr>), snd r)
              }
            })"

definition set_raw_from_array ::
  "'k set_t ptr \<Rightarrow> 'k list ptr \<Rightarrow> size_t \<Rightarrow> 'k cmeta_type_desc ptr \<Rightarrow> size_t \<Rightarrow> env \<Rightarrow> (stl_status \<times> 'k set_t ptr \<times> env) option" where
  "set_raw_from_array s keys cnt key_type element_limit e =
     (if key_type = NULL then Some (STL_INVALID_ARGUMENT, s, e)
      else set_from_common s keys cnt key_type (td_size (the key_type)) (td_align (the key_type)) element_limit NULL NULL e)"

definition set_from_array_bytes ::
  "'k set_t ptr \<Rightarrow> 'k list ptr \<Rightarrow> size_t \<Rightarrow> size_t \<Rightarrow> size_t \<Rightarrow> size_t \<Rightarrow> ('k \<Rightarrow> 'k \<Rightarrow> nat ptr \<Rightarrow> int) ptr \<Rightarrow>
   nat ptr \<Rightarrow> env \<Rightarrow> (stl_status \<times> 'k set_t ptr \<times> env) option" where
  "set_from_array_bytes s keys cnt key_size key_align element_limit compare ctx e =
     set_from_common s keys cnt NULL key_size key_align element_limit compare ctx e"

definition set_init :: "'k set_t ptr \<Rightarrow> size_t \<Rightarrow> env \<Rightarrow> stl_status \<times> 'k set_t ptr \<times> env" where
  "set_init s element_limit e =
     (if s = NULL \<or> st_element_type (the s) = NULL then (STL_INVALID_ARGUMENT, s, e)
      else set_raw_init s (st_element_type (the s)) element_limit e)"

definition set_from_array :: "'k set_t ptr \<Rightarrow> 'k list ptr \<Rightarrow> size_t \<Rightarrow> size_t \<Rightarrow> env \<Rightarrow> (stl_status \<times> 'k set_t ptr \<times> env) option" where
  "set_from_array s keys cnt element_limit e =
     (if s = NULL \<or> st_element_type (the s) = NULL then Some (STL_INVALID_ARGUMENT, s, e)
      else do {
        (st, r, e1) \<leftarrow> set_raw_from_array s keys cnt (st_element_type (the s)) element_limit e;
        Some (st, map_option (\<lambda>x. x\<lparr>st_descriptor := st_descriptor (the s), st_element_type := st_element_type (the s)\<rparr>) r, e1)
      })"

definition set_destroy :: "'k set_t ptr \<Rightarrow> env \<Rightarrow> ('k set_t ptr \<times> env) option" where
  "set_destroy s e = (if s \<noteq> NULL then set_raw_destroy_storage s e else Some (s, e))"

text \<open>The map at \<open>&set->map\<close> is found under the address of the set.\<close>

definition set_maps :: "(u64 \<rightharpoonup> 'k set_t) \<Rightarrow> ('k, bool) maps" where
  "set_maps sets p = map_option st_map (sets p)"

definition set_begin :: "(u64 \<rightharpoonup> 'k set_t) \<Rightarrow> u64 ptr \<Rightarrow> map_iter" where
  "set_begin sets s = map_begin (set_maps sets) s"

definition set_lower_bound :: "(u64 \<rightharpoonup> 'k set_t) \<Rightarrow> u64 ptr \<Rightarrow> 'k ptr \<Rightarrow> map_iter option" where
  "set_lower_bound sets s key = map_lower_bound (set_maps sets) s key"

definition set_upper_bound :: "(u64 \<rightharpoonup> 'k set_t) \<Rightarrow> u64 ptr \<Rightarrow> 'k ptr \<Rightarrow> map_iter option" where
  "set_upper_bound sets s key = map_upper_bound (set_maps sets) s key"

definition set_iter_next :: "(u64 \<rightharpoonup> 'k set_t) \<Rightarrow> map_iter ptr \<Rightarrow> (stl_status \<times> map_iter ptr) option" where
  "set_iter_next sets it =
     (if it = NULL \<or> it_owner (the it) = NULL then Some (STL_INVALID_ARGUMENT, it)
      else do { (st, r) \<leftarrow> map_iter_next (set_maps sets) it; Some (st, if st = STL_OK then r else it) })"

definition set_iter_prev :: "(u64 \<rightharpoonup> 'k set_t) \<Rightarrow> map_iter ptr \<Rightarrow> (stl_status \<times> map_iter ptr) option" where
  "set_iter_prev sets it =
     (if it = NULL \<or> it_owner (the it) = NULL then Some (STL_INVALID_ARGUMENT, it)
      else do { (st, r) \<leftarrow> map_iter_prev (set_maps sets) it; Some (st, if st = STL_OK then r else it) })"

definition set_iter_value_const :: "(u64 \<rightharpoonup> 'k set_t) \<Rightarrow> map_iter \<Rightarrow> 'k option ptr option" where
  "set_iter_value_const sets it = (if it_owner it = NULL then Some NULL else map_iter_key_const (set_maps sets) it)"

definition set_end :: "u64 ptr \<Rightarrow> map_iter" where
  "set_end s = map_end s"

definition set_iter_equal :: "map_iter \<Rightarrow> map_iter \<Rightarrow> bool" where
  "set_iter_equal lhs rhs \<longleftrightarrow> it_owner lhs = it_owner rhs \<and> it_node lhs = it_node rhs"

text \<open>The value goes to a local that is not read.\<close>

definition set_range_next ::
  "(u64 \<rightharpoonup> 'k set_t) \<Rightarrow> u64 ptr \<Rightarrow> range_cursor ptr \<Rightarrow> 'k option ptr ptr \<Rightarrow> (bool \<times> range_cursor ptr \<times> 'k option ptr ptr) option" where
  "set_range_next sets s cursor out_value =
     (if s = NULL then Some (False, cursor, out_value)
      else do { (r, c, out, ignored) \<leftarrow> map_range_next (set_maps sets) s cursor out_value (Some NULL); Some (r, c, out) })"

section \<open>The set of keys\<close>

definition ordered_set_rep :: "'k set_t \<Rightarrow> 'k set \<Rightarrow> nat \<Rightarrow> bool" where
  "ordered_set_rep s S n \<longleftrightarrow> (\<exists>f. map_sized (st_map s) (f, n) \<and> S = {k. f k \<noteq> None})"

lemma map_of_set_simps [simp]: "map_of_set (Some s) = Some (st_map s)" "with_map (Some s) (Some m) = Some (s\<lparr>st_map := m\<rparr>)"
  "s\<lparr>st_map := st_map s\<rparr> = s"
  by (simp_all add: map_of_set_def with_map_def)

lemma set_add_contract:
  assumes "ordered_set_rep s S n" and "map_fresh (st_map s) e"
  shows "\<exists>st w e'. set_add (Some s) (Some k) e = Some (st, Some w, e') \<and>
    (if k \<in> S then st = STL_OK \<and> w = s \<and> e' = e
     else st = STL_OK \<and> ordered_set_rep w (S \<union> {k'. map_eq (st_map s) k k'}) (n + 1) \<and> env_delta 3 e e' \<or>
       st \<in> {STL_CAPACITY_EXCEEDED, STL_OUT_OF_MEMORY} \<and> w = s \<and> env_delta 0 e e' \<and>
         (set_element_limit (Some s) \<le> n \<or> \<not> map_supplied (st_map s) e))"
proof -
  obtain f where f: "map_sized (st_map s) (f, n)" "S = {k. f k \<noteq> None}" using assms(1) by (auto simp: ordered_set_rep_def)
  have cont: "map_contains (Some (st_map s)) (Some k) = Some (k \<in> S)" using map_get_sized(2) [OF f(1)] f(2) by simp
  show ?thesis
  proof (cases "k \<in> S")
    case True
    then show ?thesis using cont by (simp add: set_add_def)
  next
    case False
    then have fk: "f k = None" using f(2) by simp
    let ?L = "map_entry_limit (Some (st_map s))"
    let ?g = "\<lambda>k'. if map_eq (st_map s) k k' then Some True else f k'"
    have dom: "{k'. ?g k' \<noteq> None} = S \<union> {k'. map_eq (st_map s) k k'}" using f(2) by auto
    from map_step [OF f(1) assms(2), of "Map_put k True"] obtain st w e' where
      o: "map_put (Some (st_map s)) (Some (Some k)) (Some (Some True)) e = Some (st, Some w, e')" "env_delta (map_blocks w - map_blocks (st_map s)) e e'"
      "st = STL_OK \<and> n < ?L \<and> map_sized w (?g, n + 1) \<or>
       st \<in> {STL_CAPACITY_EXCEEDED, STL_OUT_OF_MEMORY} \<and> w = st_map s \<and> (?L \<le> n \<or> \<not> map_supplied (st_map s) e)"
      using fk by (auto simp: map_outcome_def split: if_splits)
    have run: "set_add (Some s) (Some k) e = Some (st, Some (s\<lparr>st_map := w\<rparr>), e')"
      using o(1) cont False by (simp add: set_add_def)
    have bl: "map_blocks x = 3 * int j + 1" if "map_sized x (h, j)" for x :: "('a, bool) map_t" and h j
      using that map_blocks_holds by (fastforce simp: map_sized_def)
    from o(3) show ?thesis
    proof
      assume ok: "st = STL_OK \<and> n < ?L \<and> map_sized w (?g, n + 1)"
      then have "ordered_set_rep (s\<lparr>st_map := w\<rparr>) (S \<union> {k'. map_eq (st_map s) k k'}) (n + 1)"
        unfolding ordered_set_rep_def dom [symmetric] by (intro exI [of _ ?g]) simp
      moreover have "env_delta 3 e e'" using o(2) bl [OF f(1)] bl [of w ?g "n + 1"] ok by simp
      ultimately show ?thesis using run ok False by simp
    next
      assume "st \<in> {STL_CAPACITY_EXCEEDED, STL_OUT_OF_MEMORY} \<and> w = st_map s \<and> (?L \<le> n \<or> \<not> map_supplied (st_map s) e)"
      then show ?thesis using run o(2) False by (auto simp: set_element_limit_def)
    qed
  qed
qed

lemma map_remove_status:
  assumes "map_sized m a" and "map_remove (Some m) (Some k) out e = Some (st, r, out', e')"
  shows "st \<in> {STL_OK, STL_NOT_FOUND}"
proof -
  obtain t es where t: "om_impl m = Some t" "rbtree_rep t es" using assms(1) by (auto simp: map_sized_def map_holds_def)
  from rbtree_find_rep [OF t(2), of k] show ?thesis
  proof (elim disjE bexE conjE)
    fix x
    assume x: "x \<in> set es" "rbtree_find (Some t) (Some k) = Some (Some (fst x))"
    then obtain xs ys where "es = xs @ (fst x, fst (snd x), snd (snd x)) # ys" by (auto simp: in_set_conv_decomp)
    then show ?thesis using remove_node_rep [of t xs "fst x" "fst (snd x)" "snd (snd x)" ys out e] t x assms(2)
      by (auto simp: map_remove_def)
  qed (use t assms(2) in \<open>simp add: map_remove_def\<close>)
qed

lemma set_remove_contract:
  assumes "ordered_set_rep s S n" and "map_fresh (st_map s) e"
  shows "\<exists>st w e'. set_remove (Some s) (Some k) e = Some (st, Some w, e') \<and>
    (if k \<in> S then st = STL_OK \<and> ordered_set_rep w (S - {k'. map_eq (st_map s) k k'}) (n - 1) \<and> env_delta (- 3) e e'
     else st = STL_NOT_FOUND \<and> w = s \<and> env_delta 0 e e')"
proof -
  obtain f where f: "map_sized (st_map s) (f, n)" "S = {k. f k \<noteq> None}" using assms(1) by (auto simp: ordered_set_rep_def)
  let ?g = "\<lambda>k'. if map_eq (st_map s) k k' then None else f k'"
  have dom: "{k'. ?g k' \<noteq> None} = S - {k'. map_eq (st_map s) k k'}" using f(2) by auto
  from map_step [OF f(1) assms(2), of "Map_remove k NULL"] obtain st w out e' where
    o: "map_remove (Some (st_map s)) (Some k) NULL e = Some (st, Some w, out, e')" "env_delta (map_blocks w - map_blocks (st_map s)) e e'"
    by (auto simp: map_outcome_def split: prod.splits)
  have run: "set_remove (Some s) (Some k) e = Some (st, Some (s\<lparr>st_map := w\<rparr>), e')" using o(1) by (simp add: set_remove_def)
  have res: "if k \<in> S then st = STL_OK \<and> map_sized w (?g, n - 1) else st = STL_NOT_FOUND \<and> w = st_map s"
    using map_step [OF f(1) assms(2), of "Map_remove k NULL"] o(1) f(2) map_remove_status [OF f(1) o(1)] by (auto simp: map_outcome_def split: option.splits)
  have bl: "map_blocks x = 3 * int j + 1" if "map_sized x (h, j)" for x :: "('a, bool) map_t" and h j
    using that map_blocks_holds by (fastforce simp: map_sized_def)
  show ?thesis
  proof (cases "k \<in> S")
    case True
    then have w: "st = STL_OK" "map_sized w (?g, n - 1)" using res by auto
    then have "ordered_set_rep (s\<lparr>st_map := w\<rparr>) (S - {k'. map_eq (st_map s) k k'}) (n - 1)"
      unfolding ordered_set_rep_def dom [symmetric] by (intro exI [of _ ?g]) simp
    moreover have "n \<noteq> 0"
    proof
      assume "n = 0"
      then have "f k = None" using f(1) by (auto simp: map_sized_def entry_lookup_def)
      then show False using True f(2) by simp
    qed
    then have "env_delta (- 3) e e'" using o(2) bl [OF f(1)] bl [OF w(2)] by (simp add: of_nat_diff algebra_simps)
    ultimately show ?thesis using run w True by simp
  next
    case False
    then show ?thesis using run res o(2) by simp
  qed
qed

section \<open>Properties\<close>

text \<open>C40: An ordered set is a set of keys up to the comparison: \<open>set_contains\<close> decides membership,
  \<open>set_add\<close> of a member changes nothing at all and of a new key adds exactly it or leaves the set as
  it was, \<open>set_remove\<close> takes out exactly the key or reports that it is not there, the size counts the
  keys and destroying the set gives back all its blocks.\<close>

theorem ordered_set_contract:
  assumes "ordered_set_rep s S n" and "map_fresh (st_map s) e"
  shows "set_contains (Some s) (Some k) = Some (k \<in> S) \<and> set_size (Some s) = n \<and>
    (\<exists>st w e'. set_add (Some s) (Some k) e = Some (st, Some w, e') \<and>
      (if k \<in> S then st = STL_OK \<and> w = s \<and> e' = e
       else st = STL_OK \<and> ordered_set_rep w (S \<union> {k'. map_eq (st_map s) k k'}) (n + 1) \<and> env_delta 3 e e' \<or>
         st \<in> {STL_CAPACITY_EXCEEDED, STL_OUT_OF_MEMORY} \<and> w = s \<and> env_delta 0 e e' \<and>
           (set_element_limit (Some s) \<le> n \<or> \<not> map_supplied (st_map s) e))) \<and>
    (\<exists>st w e'. set_remove (Some s) (Some k) e = Some (st, Some w, e') \<and>
      (if k \<in> S then st = STL_OK \<and> ordered_set_rep w (S - {k'. map_eq (st_map s) k k'}) (n - 1) \<and> env_delta (- 3) e e'
       else st = STL_NOT_FOUND \<and> w = s \<and> env_delta 0 e e')) \<and>
    (\<exists>w e'. set_raw_destroy_storage (Some s) e = Some (w, e') \<and> env_delta (- (3 * int n + 1)) e e')"
proof (intro conjI)
  obtain f where f: "map_sized (st_map s) (f, n)" "S = {k. f k \<noteq> None}" using assms(1) by (auto simp: ordered_set_rep_def)
  show "set_contains (Some s) (Some k) = Some (k \<in> S)" "set_size (Some s) = n"
    using map_get_sized(2,3) [OF f(1)] f(2) by (simp_all add: set_contains_def set_size_def)
  have "map_blocks (st_map s) = 3 * int n + 1" using f(1) map_blocks_holds by (fastforce simp: map_sized_def)
  then show "\<exists>w e'. set_raw_destroy_storage (Some s) e = Some (w, e') \<and> env_delta (- (3 * int n + 1)) e e'"
    using map_destroy_sized [OF f(1), of e] by (auto simp: set_raw_destroy_storage_def)
qed (rule set_add_contract [OF assms] set_remove_contract [OF assms])+

definition empty_bool_tree :: "(nat, bool) rbtree" where
  "empty_bool_tree = \<lparr>rb_root = NULL, rb_head = NULL, rb_tail = NULL, rb_size = 0, rb_key_size = 4, rb_key_stride = 4,
     rb_key_align = 4, rb_value_size = 1, rb_value_stride = 1, rb_value_align = 1, rb_element_limit = 8,
     rb_key_type = Some nat_desc, rb_value_type = NULL, rb_compare = NULL, rb_compare_context = NULL,
     rb_allow_duplicates = False, rb_nodes = Map.empty\<rparr>"

definition empty_key_set :: "nat set_t" where
  "empty_key_set = ordered_set_zeroed\<lparr>st_map := map_zeroed\<lparr>om_impl := Some empty_bool_tree\<rparr>\<rparr>"

lemma empty_key_set_rep: "ordered_set_rep empty_key_set {} 0"
proof -
  have ck: "rbtree_compare_key empty_bool_tree x y = Some (int x - int y)" for x y
    by (simp add: rbtree_compare_key_def empty_bool_tree_def nat_desc_def nat_traits_def)
  have kc: "key_cmp empty_bool_tree = (\<lambda>x y. int x - int y)" by (simp add: key_cmp_def ck fun_eq_iff)
  have "sequence_alignment_valid 4" "sequence_alignment_valid 1" by (simp_all add: sequence_alignment_valid_def)
  then have "config_ok empty_bool_tree" unfolding config_ok_def kc using ck nat_order
    by (simp add: empty_bool_tree_def) (simp add: elem_ok_def)
  then have "rbtree_rep empty_bool_tree []" by (rule empty_rep) (simp_all add: empty_bool_tree_def live_def)
  then have h: "map_holds (st_map empty_key_set) empty_bool_tree []"
    by (simp add: map_holds_def empty_key_set_def) (simp add: empty_bool_tree_def)
  have "entry_lookup empty_bool_tree [] = (\<lambda>_. None)" by (simp add: entry_lookup_def fun_eq_iff)
  then have "map_sized (st_map empty_key_set) (\<lambda>_. None, 0)" using map_sizedI [OF h] by simp
  then show ?thesis unfolding ordered_set_rep_def by (intro exI [of _ "\<lambda>_. None"]) simp
qed

theorem ordered_set_contract_witness:
  "set_contains (Some empty_key_set) (Some 5) = Some False \<and> (\<exists>st w e'. set_add (Some empty_key_set) (Some 5) other_env = Some (st, Some w, e'))"
proof -
  have "map_fresh (st_map empty_key_set) other_env"
    by (simp add: map_fresh_def malloc_fresh_def empty_key_set_def live_def empty_bool_tree_def)
  then show ?thesis using ordered_set_contract [OF empty_key_set_rep, of other_env 5] by auto
qed



end
