(* ===== verification/Spec2Isabelle.thy ===== *)
theory Spec2Isabelle
  imports Ltv_Parser Cstl_Adapters Cstl_Heap Cstl_Sort Cstl_Hash_Set Tlv_Stream Modbus_Parser Deadline_Queue Spsc_Ring Cflow_Executor
    Cstl_Multimap Cstl_Set
begin

text \<open>
  A verification library for Salts (\<^verbatim>\<open>src/\<close>), a C11 infrastructure library.

  \<^bold>\<open>The program.\<close> CMeta (\<^verbatim>\<open>src/cmeta\<close>) describes C types at run time: size, alignment and a
  table of callbacks (copy, move, destroy, compare, equal, hash). The CSTL containers
  (\<^verbatim>\<open>src/cstl\<close>) store elements of any described type and reach them only through that table;
  every operation may meet a failing \<^verbatim>\<open>malloc\<close> or a failing element copy and reports it as a
  status. The utilities (\<^verbatim>\<open>src/utils\<close>) hold the arena allocator, the concurrency layer
  (\<^verbatim>\<open>src/concurrency\<close>) the deadline queue of the timers and the single-producer
  single-consumer byte ring, and the binary parsers (\<^verbatim>\<open>src/parser\<close>) the LTV, TLV and Modbus codecs
  with their stream reassemblers; the TLV parser copies its payloads into the arena. Above
  these stand CFlow (\<^verbatim>\<open>src/cflow\<close>), of which the clock arithmetic, the timer queue and the manual
  executor are treated here, and CNet, CHTTP and CRPC.

  \<^bold>\<open>Theories and sources.\<close>
  \<^item> \<open>Salts_Prelude\<close>: integers, NULL-able pointers, the allocator, byte buffers, and the
    facts on words, byte order and lists that the other theories share.
  \<^item> \<open>Cmeta_Traits\<close>: \<^verbatim>\<open>type_traits.h\<close>, the part of \<^verbatim>\<open>cmeta.h\<close> the containers read and
    \<open>cmeta_type_require_traits\<close>; \<open>traits_lawful\<close> names what the callbacks must satisfy.
  \<^item> \<open>Cstl_Sequence\<close>: \<^verbatim>\<open>sequence_internal.h\<close> (strides, aligned blocks, element copies).
    \<open>Cstl_Storage\<close>: the storage header that vector, deque and heap share, its invariant, and
    the container contracts.
  \<^item> \<open>Cstl_Vec\<close>, \<open>Cstl_Deque\<close>, \<open>Cstl_Heap\<close>, \<open>Cstl_Sort\<close>: \<^verbatim>\<open>vec.c\<close>, \<^verbatim>\<open>deque.c\<close>, \<^verbatim>\<open>heap.c\<close> and
    \<^verbatim>\<open>sort.c\<close>; \<open>Cstl_Adapters\<close>: \<^verbatim>\<open>stack.h\<close> and \<^verbatim>\<open>queue.h\<close>.
  \<^item> \<open>Open_Addressing\<close>: the mathematics of linear probing with tombstones; \<open>Cstl_Hash_Map\<close> and
    \<open>Cstl_Hash_Set\<close>: \<^verbatim>\<open>hash_map.c\<close> and \<^verbatim>\<open>hash_set.c\<close>.
  \<^item> \<open>Address_Tree\<close> and \<open>Node_Chain\<close>: binary trees and doubly linked chains as they lie in memory,
    as trees and lists of addresses. \<open>Cstl_Rbtree\<close>: \<^verbatim>\<open>rbtree.c\<close>, on a store of nodes;
    \<open>Cstl_Rbtree_Balance\<close>: what rotations, repairs and removal do to the tree;
    \<open>Cstl_Rbtree_Contents\<close>: the tree as a sorted list of entries. \<open>Call_History\<close>: histories of calls
    on containers of nodes. \<open>Cstl_Map\<close>, \<open>Cstl_Multimap\<close>, \<open>Cstl_Set\<close>: \<^verbatim>\<open>map.c\<close> (without the range and
    collector descriptors at its end), \<^verbatim>\<open>multimap.c\<close> and \<^verbatim>\<open>set.c\<close>.
  \<^item> \<open>Memory_Pool\<close>: \<^verbatim>\<open>memory_pool.c\<close>.
  \<^item> \<open>Wire_Framing\<close>: the contract of stream reassembly; \<open>Ltv_Parser\<close>: \<^verbatim>\<open>ltv_parser.c\<close>; \<open>Crc_Register\<close>:
    shift registers of any width; \<open>Crc32\<close>, \<open>Tlv_Frame\<close>, \<open>Tlv_Stream\<close>: the files of
    \<^verbatim>\<open>tlv_parser/src\<close>; \<open>Modbus_Parser\<close>: \<^verbatim>\<open>modbus_parser.c\<close>.
  \<^item> \<open>Binary_Heap\<close>: sift loops on lists; \<open>Timed_Queue\<close>: the list of pending events in arrival order;
    \<open>Deadline_Queue\<close>: \<^verbatim>\<open>deadline_queue.c\<close>; \<open>Cflow_Timer\<close>: \<^verbatim>\<open>time.h\<close>, \<^verbatim>\<open>clock.c\<close> (the virtual clock) and
    \<^verbatim>\<open>timer_queue.c\<close>; \<open>Cflow_Executor\<close>: the manual executor of \<^verbatim>\<open>executor.c\<close>.
  \<^item> \<open>Spsc_Ring\<close>: \<^verbatim>\<open>spsc_ring.c\<close>, as functions and as two interleaved threads.
  A C function is a definition of the same name; a loop is a recursive function named after
  it; a struct is a record with the fields of the source, an enum a datatype.

  \<^bold>\<open>Interfaces.\<close> Each contract is a locale, interpreted on the model of the code that
  fulfils it:
  \<^item> \<open>container\<close> and \<open>sequence_machine\<close> (an operation either answers \<open>STL_OK\<close> and has its effect
    on the abstract value or changes nothing): vector, deque, heap, hash map and hash set;
    runs of operations are treated once, in the locale. \<open>push_store\<close>: building a container
    from an array.
  \<^item> \<open>node_container\<close>: the same promise for a container of single nodes, whose calls return as long
    as the allocator hands out fresh memory; the ordered map.
  \<^item> \<open>adapter\<close>: push and pop in some order (stack, queue).
  \<^item> \<open>hash_key\<close>: equality and hash agree; in it the probing theory. \<open>binary_heap\<close>: an order on
    keys; in it the sift loops restore the heap.
  \<^item> \<open>frame_codec\<close> and \<open>reassembler\<close>: a prefix-free codec with a buffering parser; in it any
    chunking of a wire image yields the messages (LTV, TLV and Modbus TCP). \<open>crc_register\<close>: a
    register that shifts bits out; in it bursts are detected (CRC-32 and CRC-16).
  \<^item> \<open>timed_queue\<close>: taking the earliest due event; in it draining is in order (deadline queue, CFlow's timers).

  \<^bold>\<open>What is proved.\<close>
  \<^item> Containers: the invariant of the representation under every operation and every pattern
    of failing allocations and copies; refinement of lists, multisets, dictionaries and sets;
    acknowledged operations are exactly the ones that took effect, and destruction returns
    every block; success when memory and copies are supplied. The merge sort is the stable
    sort; a heap drains in order; constructors from arrays are all-or-nothing.
  \<^item> Red-black tree: every operation returns, keeps parent, child and thread pointers, colours and
    black heights in order and changes the sorted list of entries as promised; the height is
    logarithmic. On it the ordered map is a dictionary under any history of calls, iterates in
    key order in both directions, by iterators and by range cursors, and answers exactly as the
    hash map does while no allocation and no copy fails; equal keys of a multimap stay in
    insertion order; the ordered set is a set.
  \<^item> Memory: strides and blocks are aligned and inside the allocation; the three regions of
    a hash table are disjoint; pool allocations are disjoint and inside the arena.
  \<^item> Codecs: varints are canonical; frames round-trip and only images of frames are accepted;
    the table-driven CRC is the bitwise one, and no change within four consecutive bytes of
    header or payload passes it; streams are reassembled under any chunking.
  \<^item> Deadline queue and CFlow timers: refinement of the list of pending events, identifiers never
    reused. Manual executor: every accepted task is run or cancelled exactly once and in order,
    however its callbacks re-enter it; its functions are executions of the step relation, and
    the callbacks they call are those of the logged events.
  \<^item> Byte ring: under every interleaving the consumed bytes are a prefix of the produced ones
    and the two threads never touch the same slot.

  \<^bold>\<open>Conventions and bounds.\<close> \<open>size_t\<close> is a natural number and every addition and
  multiplication that can leave it wraps or is guarded as in the code (\<open>size_add\<close>,
  \<open>SIZE_MAX\<close>); fixed-width fields are words. The allocator is an oracle in the environment that
  may refuse any request, and counts its live blocks. Out-of-range reads do not occur in
  the definitions: each access is guarded as in the source or shown in range by the
  invariant. Loops over arrays are total functions with a measure. Loops over pointers, and
  \<open>manual_run_ready\<close>, which runs foreign callbacks, may not end on an arbitrary state and are
  \<open>partial_function (option)\<close>, where \<open>None\<close> is a loop without end or the use of a pointer that is not
  valid; that they return on every state in use is part of the theorems. Only the client's loops
  \<open>map_walk\<close> and \<open>map_range_walk\<close> have fuel, one more than the number of entries. The field
  \<open>cx_calls\<close> of the executor's context is no state of the code: it records the calls of the
  user's functions, and no operation reads it. What is assumed of the user's
  callbacks and of memory is always a named hypothesis (\<open>traits_lawful\<close>, \<open>comparator_ok\<close>,
  \<open>supplied\<close>, and \<open>malloc_fresh\<close>: the allocator does not return a node in use), and each such
  theorem has a witness.
  In \<open>Spsc_Ring\<close> each shared access is one atomic step in program order, which is what the
  release/acquire pairs of the source establish between the two threads; positions are
  assumed not to have wrapped around \<open>size_t\<close>.

  \<^bold>\<open>Not modelled.\<close> The generated lexers and grammars of the text parsers, the wrappers of
  operating-system services (sockets, files, processes, threads, clocks), vendored code,
  descriptor tables generated by macros, and floating-point statistics and textual reports,
  which change no state. The rest of CFlow (graphs, plans, schedulers, state machines), CHTTP,
  CRPC, the linked list and the B-trees are left out for their size and not for their nature.
\<close>

section \<open>Two dictionaries\<close>

fun hash_op_for :: "('k, 'v) map_op \<Rightarrow> ('k, 'v) hash_op" where
  "hash_op_for (Map_put k v) = Hash_put k v"
| "hash_op_for (Map_remove k out) = Hash_remove k out"
| "hash_op_for Map_clear = Hash_clear"

lemma dictionary_model: "hash_model eq limit (hash_op_for op) a = map_model eq limit op a" "hash_out (hash_op_for op) = map_out op"
  by (cases op; cases a; simp)+

lemma dictionary_run: "run_model hash_out (hash_model eq limit) (map hash_op_for ops) a = run_model map_out (map_model eq limit) ops a"
  by (induction ops arbitrary: a) (simp_all add: dictionary_model)

text \<open>C7: The hash map and the ordered map are the same dictionary. Started on the same entries, with
  the same limit and the same notion of equal keys, and as long as no allocation and no copy
  fails in either, any sequence of puts, removals and clears gets the same statuses and the same removed values from both, and
  afterwards both answer every lookup alike and have the same size.\<close>

theorem dictionaries_agree:
  assumes "hash_sized h a" and "hash_supplied h s" and "map_sized m a" and "map_supplied m e"
    and "map_entry_limit (Some m) = hm_entry_limit h" and "map_eq m = hash_map_equal h" and "history map_apply map_fresh m e log m' e'"
  shows "\<exists>h' s'. run_ops hash_apply (map (\<lambda>c. hash_op_for (fst c)) log) (Some h) s = (map snd log, Some h', s') \<and>
    (\<forall>k. map_get (Some m') (Some k) = Some (hash_map_get (Some h') (Some k))) \<and> map_size (Some m') = hash_map_size (Some h')"
proof -
  let ?model = "map_model (map_eq m) (map_entry_limit (Some m))"
  obtain rs g j where run: "run_model map_out ?model (map fst log) a = (rs, (g, j))" and o: "map snd log = rs" "map_sized m' (g, j)"
    using map_machine.history_supplied [OF assms(7,3,4)] by (metis prod.collapse)
  have "run_model hash_out (hash_model (hash_map_equal h) (hm_entry_limit h)) (map (\<lambda>c. hash_op_for (fst c)) log) a = (rs, (g, j))"
    using dictionary_run [of "map_eq m" "map_entry_limit (Some m)" "map fst log" a] run assms(5,6) by (simp add: comp_def)
  from hash_machine.run_supplied [OF assms(1,2) this] obtain h' s' where
    h': "run_ops hash_apply (map (\<lambda>c. hash_op_for (fst c)) log) (Some h) s = (rs, Some h', s')" "hash_sized h' (g, j)" by blast
  have rep: "hash_rep h' g" "hm_size h' = j" using h'(2) by (auto simp: hash_sized_def)
  have "hash_map_size (Some h') = j" using rep hash_repD(1) [OF rep(1)] by (auto simp: hash_map_size_def)
  then show ?thesis using h'(1) o map_get_sized [OF o(2)] hash_map_get_contract [OF rep(1)] by simp
qed


definition nat_tree :: "(nat, nat) rbtree" where
  "nat_tree = \<lparr>rb_root = NULL, rb_head = NULL, rb_tail = NULL, rb_size = 0, rb_key_size = 4, rb_key_stride = 4,
     rb_key_align = 4, rb_value_size = 4, rb_value_stride = 4, rb_value_align = 4, rb_element_limit = 3,
     rb_key_type = Some nat_desc, rb_value_type = Some nat_desc, rb_compare = NULL, rb_compare_context = NULL,
     rb_allow_duplicates = False, rb_nodes = Map.empty\<rparr>"

definition nat_ordered :: "(nat, nat) map_t" where
  "nat_ordered = map_zeroed\<lparr>om_impl := Some nat_tree, om_generation := 1\<rparr>"

lemma nat_ordered_sized: "map_sized nat_ordered (\<lambda>_. None, 0)" "map_eq nat_ordered = (=)" "map_entry_limit (Some nat_ordered) = 3"
  "map_supplied nat_ordered ample_env" "map_fresh nat_ordered ample_env"
proof -
  have ck: "rbtree_compare_key nat_tree x y = Some (int x - int y)" for x y
    by (simp add: rbtree_compare_key_def nat_tree_def nat_desc_def nat_traits_def)
  have kc: "key_cmp nat_tree = (\<lambda>x y. int x - int y)" by (simp add: key_cmp_def ck fun_eq_iff)
  have "sequence_alignment_valid 4" by (simp add: sequence_alignment_valid_def)
  then have "config_ok nat_tree" unfolding config_ok_def kc using ck nat_order by (simp add: nat_tree_def)
  then have "rbtree_rep nat_tree []" by (rule empty_rep) (simp_all add: nat_tree_def live_def)
  then have h: "map_holds nat_ordered nat_tree []" by (simp add: map_holds_def nat_ordered_def) (simp add: nat_tree_def)
  have "entry_lookup nat_tree [] = (\<lambda>_. None)" by (simp add: entry_lookup_def fun_eq_iff)
  then show s: "map_sized nat_ordered (\<lambda>_. None, 0)" using map_sizedI [OF h] by simp
  show "map_eq nat_ordered = (=)" by (simp add: map_eq_def nat_ordered_def kc fun_eq_iff)
  show "map_entry_limit (Some nat_ordered) = 3" by (simp add: map_entry_limit_def nat_ordered_def) (simp add: nat_tree_def)
  show "map_supplied nat_ordered ample_env"
    by (simp add: map_supplied_def rb_supplied_def generous_def copy_total_def nat_ordered_def nat_tree_def ample_env_def
        SIZE_MAX_def sizeof_pointer_def nat_desc_def nat_traits_def)
  show "map_fresh nat_ordered ample_env" by (rule empty_map_fresh [OF s])
qed

theorem dictionaries_agree_witness:
  "\<exists>st out m' e' h' s'. history map_apply map_fresh nat_ordered ample_env [(Map_put 1 10, st, out)] m' e' \<and>
    run_ops hash_apply [Hash_put 1 10] (Some nat_map) ample_env = ([(st, out)], Some h', s') \<and>
    map_get (Some m') (Some 1) = Some (hash_map_get (Some h') (Some 1))"
proof -
  obtain st m' out e' where r: "map_apply (Map_put 1 10) (Some nat_ordered) ample_env = Some (st, Some m', out, e')"
    using map_step [OF nat_ordered_sized(1,5), of "Map_put 1 10"] by (auto simp: map_outcome_def split: prod.splits)
  have "history map_apply map_fresh nat_ordered ample_env [(Map_put 1 10, st, out)] m' e'"
    by (rule history.call [where app = map_apply and fresh = map_fresh, OF nat_ordered_sized(5) r history.start])
  moreover have "map_entry_limit (Some nat_ordered) = hm_entry_limit nat_map" "map_eq nat_ordered = hash_map_equal nat_map"
    by (simp_all add: nat_map_sized nat_ordered_sized)
  ultimately show ?thesis
    using dictionaries_agree [OF nat_map_sized(1) nat_map_supplied nat_ordered_sized(1,4)] by fastforce
qed

end
